(* ===== verification/Prelude.thy ===== *)
theory Prelude
  imports Main "HOL-Library.Char_ord" "HOL-Library.List_Lexorder" "HOL-Library.Word"
begin

text \<open>
  The part of the development that every component shares: the result type of fallible
  C++ code with its errors, the sequencing of fallible steps, and the list facts about
  reading a string at an index that the proofs about cursors rest on. Strings are
  \<open>char list\<close>: one \<open>char\<close> of HOL is one byte of a \<open>std::string\<close>.
\<close>

section \<open>Collections of facts\<close>

named_theorems result_simps \<open>evaluation of fallible steps\<close>
named_theorems cursor_simps \<open>reading a string at an index\<close>

section \<open>Results of fallible code\<close>

text \<open>
  The ways a modelled step can leave the normal path. The first four, and \<open>Double_free\<close>, are
  behaviour the language leaves undefined, kept as values so that their absence can be
  proved; the next two are exceptions of the standard library; \<open>Lmdb_error\<close> is an exception
  of the database wrapper: its class, the call that failed, and the return code.
\<close>

datatype lmdb_class =
    key_exist_error
  | not_found_error
  | corrupted_error
  | panic_error
  | version_mismatch_error
  | map_full_error
  | bad_dbi_error
  | runtime_error

datatype cpp_error =
    Null_dereference
  | Out_of_bounds
  | Cast_out_of_range
  | Empty_container
  | Double_free
  | Invalid_argument
  | Out_of_range
  | Lmdb_error lmdb_class string int

type_synonym 'a result = "cpp_error + 'a"

definition rbind :: "'e + 'a \<Rightarrow> ('a \<Rightarrow> 'e + 'b) \<Rightarrow> 'e + 'b" where
  "rbind r f = (case r of Inl e \<Rightarrow> Inl e | Inr x \<Rightarrow> f x)"

lemma rbind_Inl [simp, result_simps]: "rbind (Inl e) f = Inl e"
  by (simp add: rbind_def)

lemma rbind_Inr [simp, result_simps]: "rbind (Inr x) f = f x"
  by (simp add: rbind_def)

lemma rbind_eq_Inr: "rbind r f = Inr y \<longleftrightarrow> (\<exists>x. r = Inr x \<and> f x = Inr y)"
  by (cases r) simp_all

lemma rbind_eq_Inl: "rbind r f = Inl e \<longleftrightarrow> r = Inl e \<or> (\<exists>x. r = Inr x \<and> f x = Inl e)"
  by (cases r) auto

text \<open>
  A \<open>std::transform\<close> into a \<open>back_inserter\<close> whose function may fail: the elements are
  visited in order and the first failure ends the loop.
\<close>

fun traverse :: "('a \<Rightarrow> 'e + 'b) \<Rightarrow> 'a list \<Rightarrow> 'e + 'b list" where
  "traverse f [] = Inr []"
| "traverse f (x # xs) = rbind (f x) (\<lambda>y. rbind (traverse f xs) (\<lambda>ys. Inr (y # ys)))"

lemma traverse_map_Inr: "(\<And>x. x \<in> set xs \<Longrightarrow> f x = Inr (g x)) \<Longrightarrow> traverse f xs = Inr (map g xs)"
  by (induction xs) simp_all

lemma traverse_length: "traverse f xs = Inr ys \<Longrightarrow> length ys = length xs"
  by (induction xs arbitrary: ys) (auto simp: rbind_eq_Inr)

lemma traverse_nth: "traverse f xs = Inr ys \<Longrightarrow> i < length xs \<Longrightarrow> f (xs ! i) = Inr (ys ! i)"
  by (induction xs arbitrary: ys i) (auto simp: rbind_eq_Inr nth_Cons split: nat.splits)

lemma traverse_Inl: "traverse f xs = Inl e \<Longrightarrow> \<exists>x \<in> set xs. f x = Inl e"
  by (induction xs) (auto simp: rbind_eq_Inl)

section \<open>Reading a string at an index\<close>

text \<open>
  \<open>str[i]\<close> of a \<open>const std::string\<close>: at \<open>i = size()\<close> the library gives the terminating
  NUL. Beyond that the read is undefined; the components prove that their cursors stay at
  or below the size, so the value the model gives there is never used.
\<close>

definition char_at :: "string \<Rightarrow> nat \<Rightarrow> char" where
  "char_at s i = (if i < length s then s ! i else CHR 0x00)"

lemma char_at_append [cursor_simps]: "char_at (xs @ c # ys) (length xs) = c"
  by (simp add: char_at_def)

lemma char_at_end [simp, cursor_simps]: "char_at xs (length xs) = CHR 0x00"
  by (simp add: char_at_def)

lemma char_at_nth: "i < length s \<Longrightarrow> char_at s i = s ! i"
  by (simp add: char_at_def)

lemma char_at_beyond: "length s \<le> i \<Longrightarrow> char_at s i = CHR 0x00"
  by (simp add: char_at_def)

lemma char_at_not_nul: "char_at s i \<noteq> CHR 0x00 \<Longrightarrow> i < length s"
  by (simp add: char_at_def split: if_splits)

text \<open>The value of a \<open>char\<close> where it is a signed 8-bit integer.\<close>

definition char_signed :: "char \<Rightarrow> int" where
  "char_signed c = (let n = of_char c in if n < 128 then n else n - 256)"

definition in_range :: "int \<Rightarrow> int \<Rightarrow> int \<Rightarrow> bool" where
  "in_range x lower upper = (lower \<le> x \<and> x \<le> upper)"

lemma of_char_less_256: "(of_char c :: nat) < 256"
proof -
  have "(of_char c :: nat) mod 256 < 256" by (rule mod_less_divisor) simp
  then show ?thesis by simp
qed

lemma of_char_int: "(of_char c :: int) = int (of_char c)"
  by (rule of_nat_of_char [symmetric])

lemma of_char_int_range: "(0 :: int) \<le> of_char c" "(of_char c :: int) < 256"
  using of_char_less_256 [of c] by (simp_all add: of_char_int del: of_nat_of_char)

lemma char_signed_range: "-128 \<le> char_signed c \<and> char_signed c < 128"
  using of_char_int_range [of c] by (auto simp: char_signed_def Let_def)

lemma char_signed_of_nat [simp]: "n < 128 \<Longrightarrow> char_signed (char_of n) = int n"
  by (simp only: char_signed_def of_char_int of_char_of Let_def) simp

lemma char_signed_eq_iff: "char_signed c = char_signed d \<longleftrightarrow> c = d"
proof
  assume "char_signed c = char_signed d"
  then have "(of_char c :: int) = of_char d"
    using of_char_int_range [of c] of_char_int_range [of d]
    by (simp add: char_signed_def Let_def split: if_splits)
  then show "c = d" by simp
qed simp

end
