(* ===== verification/Cpp_Std.thy ===== *)
theory Cpp_Std
  imports Prelude
begin

text \<open>
  The parts of the C++ standard library the program calls: decimal printing
  (\<open>std::to_string\<close>, \<open>operator<<\<close> of an \<open>int\<close>, \<open>snprintf "%d"\<close>), \<open>std::stoi\<close> and
  \<open>atoi\<close>, \<open>std::string::find\<close> and \<open>substr\<close>, \<open>std::copy\<close> into a vector, and the ordered
  containers \<open>std::set\<close> and \<open>std::map\<close> as sorted lists. Each function gives the behaviour the
  standard fixes; where the standard leaves it undefined the result is an error value.
\<close>

section \<open>Decimal digits\<close>

definition is_digit :: "char \<Rightarrow> bool" where
  "is_digit c = in_range (char_signed c) 48 57"

definition digit_val :: "char \<Rightarrow> nat" where
  "digit_val c = of_char c - 48"

definition digit_char :: "nat \<Rightarrow> char" where
  "digit_char n = char_of (48 + n)"

lemma is_digit_iff: "is_digit c \<longleftrightarrow> 48 \<le> (of_char c :: nat) \<and> (of_char c :: nat) \<le> 57"
proof -
  have "(48 \<le> (of_char c :: int) \<and> (of_char c :: int) \<le> 57) \<longleftrightarrow>
      (48 \<le> (of_char c :: nat) \<and> (of_char c :: nat) \<le> 57)"
    by (simp only: of_char_int) linarith
  then show ?thesis
    using of_char_int_range [of c] by (auto simp: is_digit_def in_range_def char_signed_def Let_def)
qed

lemma is_digit_digit_char [simp]: "n < 10 \<Longrightarrow> is_digit (digit_char n)"
  by (simp add: is_digit_iff digit_char_def)

lemma digit_val_digit_char [simp]: "n < 10 \<Longrightarrow> digit_val (digit_char n) = n"
  by (simp add: digit_val_def digit_char_def)

lemma is_digit_not_nul [simp]: "\<not> is_digit (CHR 0x00)"
  by (simp add: is_digit_iff)

lemma digit_char_eq_0 [simp]: "n < 10 \<Longrightarrow> digit_char n = CHR ''0'' \<longleftrightarrow> n = 0"
  by (simp add: digit_char_def char_of_eq_iff take_bit_eq_mod)

fun dec_nat :: "nat \<Rightarrow> string" where
  "dec_nat n = (if n < 10 then [digit_char n] else dec_nat (n div 10) @ [digit_char (n mod 10)])"

declare dec_nat.simps [simp del]

lemma dec_nat_small: "n < 10 \<Longrightarrow> dec_nat n = [digit_char n]"
  by (subst dec_nat.simps) simp

lemma dec_nat_step: "10 \<le> n \<Longrightarrow> dec_nat n = dec_nat (n div 10) @ [digit_char (n mod 10)]"
  by (subst dec_nat.simps) simp

text \<open>\<open>std::to_string\<close> of an \<open>int\<close>, \<open>ostream << int\<close> and \<open>printf\<close>'s \<open>%d\<close>.\<close>

definition dec_int :: "int \<Rightarrow> string" where
  "dec_int i = (if i < 0 then CHR ''-'' # dec_nat (nat (- i)) else dec_nat (nat i))"

definition dec_value :: "string \<Rightarrow> nat" where
  "dec_value ds = foldl (\<lambda>a c. 10 * a + digit_val c) 0 ds"

lemma dec_value_Nil [simp]: "dec_value [] = 0"
  by (simp add: dec_value_def)

lemma dec_value_snoc [simp]: "dec_value (ds @ [c]) = 10 * dec_value ds + digit_val c"
  by (simp add: dec_value_def)

lemma dec_nat_not_Nil [simp]: "dec_nat n \<noteq> []"
  by (subst dec_nat.simps) simp

lemma dec_nat_digits: "list_all is_digit (dec_nat n)"
proof (induction n rule: dec_nat.induct)
  case (1 n)
  then show ?case by (cases "n < 10") (simp_all add: dec_nat_small dec_nat_step)
qed

lemma dec_value_dec_nat [simp]: "dec_value (dec_nat n) = n"
proof (induction n rule: dec_nat.induct)
  case (1 n)
  show ?case
  proof (cases "n < 10")
    case True
    then show ?thesis using dec_value_snoc [of "[]" "digit_char n"] by (simp add: dec_nat_small)
  next
    case False
    with 1 show ?thesis by (simp add: dec_nat_step)
  qed
qed

text \<open>No leading zero except in \<open>0\<close> itself: what the JSON number grammar asks for.\<close>

lemma hd_dec_nat: "hd (dec_nat n) = CHR ''0'' \<longleftrightarrow> n = 0"
proof (induction n rule: dec_nat.induct)
  case (1 n)
  show ?case
  proof (cases "n < 10")
    case True
    then show ?thesis by (simp add: dec_nat_small)
  next
    case False
    with 1 show ?thesis by (simp add: dec_nat_step)
  qed
qed

lemma length_dec_nat: "0 < n \<Longrightarrow> 10 ^ (length (dec_nat n) - 1) \<le> n \<and> n < 10 ^ length (dec_nat n)"
proof (induction n rule: dec_nat.induct)
  case (1 n)
  show ?case
  proof (cases "n < 10")
    case True
    with "1.prems" show ?thesis by (simp add: dec_nat_small)
  next
    case False
    obtain l where l: "length (dec_nat (n div 10)) = Suc l"
      by (cases "length (dec_nat (n div 10))") simp_all
    from False have "0 < n div 10" by simp
    with "1.IH" False l have ih: "10 ^ l \<le> n div 10" "n div 10 < 10 ^ Suc l" by simp_all
    have "10 * 10 ^ l \<le> n" using ih(1) by linarith
    moreover have "n < 10 * 10 ^ Suc l" using ih(2) by linarith
    ultimately show ?thesis using False by (simp add: dec_nat_step l)
  qed
qed

lemma length_dec_nat_le: "n < 10 ^ k \<Longrightarrow> 0 < k \<Longrightarrow> length (dec_nat n) \<le> k"
proof (cases "n = 0")
  case True
  assume "0 < k"
  with True show ?thesis by (simp add: dec_nat_small)
next
  case False
  assume k: "n < 10 ^ k" "0 < k"
  from False have "10 ^ (length (dec_nat n) - 1) \<le> n" using length_dec_nat by simp
  with k(1) have "(10::nat) ^ (length (dec_nat n) - 1) < 10 ^ k" by linarith
  then have "length (dec_nat n) - 1 < k" by (simp add: power_strict_increasing_iff)
  then show ?thesis by linarith
qed

lemma dec_int_chars: "c \<in> set (dec_int i) \<Longrightarrow> c = CHR ''-'' \<or> is_digit c"
  using dec_nat_digits [of "nat (- i)"] dec_nat_digits [of "nat i"]
  by (auto simp: dec_int_def list_all_iff split: if_splits)

section \<open>Reading a decimal number\<close>

definition is_space :: "char \<Rightarrow> bool" where
  "is_space c = (c \<in> {CHR '' '', CHR 0x09, CHR 0x0A, CHR 0x0B, CHR 0x0C, CHR 0x0D})"

text \<open>
  \<open>strtol\<close> in base 10: leading white space, an optional sign, then digits. None when no
  digit follows (the library then makes no conversion).
\<close>

definition strtol10 :: "string \<Rightarrow> int option" where
  "strtol10 s =
     (let t = dropWhile is_space s;
          neg = (t \<noteq> [] \<and> hd t = CHR ''-'');
          u = (if t \<noteq> [] \<and> (hd t = CHR ''-'' \<or> hd t = CHR ''+'') then tl t else t);
          ds = takeWhile is_digit u
      in if ds = [] then None
         else Some (if neg then - int (dec_value ds) else int (dec_value ds)))"

definition int_min :: int where
  "int_min = - 2147483648"

definition int_max :: int where
  "int_max = 2147483647"

definition is_int :: "int \<Rightarrow> bool" where
  "is_int i = (int_min \<le> i \<and> i \<le> int_max)"

text \<open>\<open>std::stoi\<close> throws \<open>invalid_argument\<close> or \<open>out_of_range\<close>.\<close>

definition stoi :: "string \<Rightarrow> int result" where
  "stoi s = (case strtol10 s of
     None \<Rightarrow> Inl Invalid_argument
   | Some v \<Rightarrow> if is_int v then Inr v else Inl Out_of_range)"

text \<open>
  \<open>atoi\<close> gives 0 when there is no number; its result is undefined when the number does not
  fit, a case its only caller excludes by the length of the numeral.
\<close>

definition atoi :: "string \<Rightarrow> int" where
  "atoi s = (case strtol10 s of None \<Rightarrow> 0 | Some v \<Rightarrow> v)"

lemma digit_not_space: "is_digit c \<Longrightarrow> \<not> is_space c"
  by (auto simp: is_digit_iff is_space_def)

lemma digit_not_sign: "is_digit c \<Longrightarrow> c \<noteq> CHR ''-'' \<and> c \<noteq> CHR ''+''"
  by (auto simp: is_digit_iff)

lemma strtol10_digits:
  assumes "list_all is_digit ds" and "ds \<noteq> []" and "rest = [] \<or> \<not> is_digit (hd rest)"
  shows "strtol10 (ds @ rest) = Some (int (dec_value ds))"
    and "strtol10 (CHR ''-'' # ds @ rest) = Some (- int (dec_value ds))"
proof -
  have tw: "takeWhile is_digit (ds @ rest) = ds"
    using assms(1,3) by (cases rest) (simp_all add: list_all_iff takeWhile_append)
  obtain d ds' where ds: "ds = d # ds'" using assms(2) by (cases ds) auto
  with assms(1) have d: "is_digit d" by simp
  have dw: "dropWhile is_space (ds @ rest) = ds @ rest"
    using digit_not_space [OF d] by (simp add: ds)
  show "strtol10 (ds @ rest) = Some (int (dec_value ds))"
    using tw dw digit_not_sign [OF d] by (simp add: strtol10_def Let_def ds)
  show "strtol10 (CHR ''-'' # ds @ rest) = Some (- int (dec_value ds))"
    using tw assms(2) by (simp add: strtol10_def Let_def is_space_def)
qed

text \<open>Printing then reading an \<open>int\<close> gives it back.\<close>

lemma strtol10_dec_int:
  assumes "rest = [] \<or> \<not> is_digit (hd rest)"
  shows "strtol10 (dec_int i @ rest) = Some i"
  using assms by (simp add: dec_int_def strtol10_digits dec_nat_digits)

lemma stoi_dec_int: "is_int i \<Longrightarrow> stoi (dec_int i) = Inr i"
  using strtol10_dec_int [of "[]" i] by (simp add: stoi_def)

section \<open>Strings\<close>

text \<open>\<open>std::string::find\<close>: the least position at which the pattern occurs.\<close>

fun string_find :: "string \<Rightarrow> string \<Rightarrow> nat option" where
  "string_find pat [] = (if pat = [] then Some 0 else None)"
| "string_find pat (c # s) =
     (if take (length pat) (c # s) = pat then Some 0 else map_option Suc (string_find pat s))"

lemma string_find_Some:
  "string_find pat s = Some k \<Longrightarrow> k + length pat \<le> length s \<and> take (length pat) (drop k s) = pat"
proof (induction pat s arbitrary: k rule: string_find.induct)
  case (1 pat)
  then show ?case by (simp split: if_splits)
next
  case (2 pat c s)
  show ?case
  proof (cases "take (length pat) (c # s) = pat")
    case True
    then have "length (take (length pat) (c # s)) = length pat" by simp
    then have "length pat \<le> Suc (length s)" by (simp add: min_def split: if_splits)
    with True 2 show ?thesis by simp
  next
    case False
    with 2 show ?thesis by (auto split: if_splits)
  qed
qed

lemma string_find_least:
  "string_find pat s = Some k \<Longrightarrow> j < k \<Longrightarrow> take (length pat) (drop j s) \<noteq> pat"
proof (induction pat s arbitrary: j k rule: string_find.induct)
  case (2 pat c s)
  then show ?case by (cases j) (auto split: if_splits)
qed (simp split: if_splits)

text \<open>\<open>substr\<close> throws when the position is past the end.\<close>

definition substr :: "string \<Rightarrow> nat \<Rightarrow> nat \<Rightarrow> string result" where
  "substr s pos n = (if length s < pos then Inl Out_of_range else Inr (take n (drop pos s)))"

section \<open>Vectors\<close>

text \<open>
  \<open>std::copy (first, last, v.begin () + k)\<close>: the iterator must stay inside the vector, and
  so must everything it writes.
\<close>

definition copy_at :: "'a list \<Rightarrow> int \<Rightarrow> 'a list \<Rightarrow> 'a list result" where
  "copy_at v k xs =
     (if k < 0 \<or> int (length v) < k + int (length xs) then Inl Out_of_bounds
      else Inr (take (nat k) v @ xs @ drop (nat k + length xs) v))"

lemma copy_at_length: "copy_at v k xs = Inr w \<Longrightarrow> length w = length v"
  by (auto simp: copy_at_def split: if_splits)

lemma copy_at_append [simp]:
  "length old = length xs \<Longrightarrow> copy_at (pre @ old @ post) (int (length pre)) xs = Inr (pre @ xs @ post)"
  by (simp add: copy_at_def)

text \<open>Conversion of an \<open>int\<close> to a 64-bit \<open>size_t\<close>.\<close>

definition size_of_int :: "int \<Rightarrow> nat" where
  "size_of_int i = nat (i mod 2 ^ 64)"

lemma size_of_int_nonneg: "0 \<le> i \<Longrightarrow> i < 2 ^ 64 \<Longrightarrow> size_of_int i = nat i"
  by (simp add: size_of_int_def)

lemma size_of_int_neg: "i < 0 \<Longrightarrow> - (2 ^ 63) \<le> i \<Longrightarrow> 2 ^ 63 \<le> size_of_int i"
proof -
  assume i: "i < 0" "- (2 ^ 63) \<le> i"
  have "i mod 2 ^ 64 = (i + 2 ^ 64) mod 2 ^ 64" by simp
  also have "\<dots> = i + 2 ^ 64" using i by (intro mod_pos_pos_trivial) simp_all
  finally have "i mod 2 ^ 64 = i + 2 ^ 64" .
  with i show ?thesis by (simp add: size_of_int_def)
qed

section \<open>Ordered containers\<close>

text \<open>
  A \<open>std::set<std::string>\<close> is the list of its elements in iteration order, strictly
  increasing in the byte-wise lexicographic order of \<open>std::string\<close>. A
  \<open>std::map<std::string, T>\<close> is an association list with such keys.
\<close>

fun set_insert :: "string \<Rightarrow> string list \<Rightarrow> string list" where
  "set_insert x [] = [x]"
| "set_insert x (y # ys) = (if x < y then x # y # ys else if x = y then y # ys else y # set_insert x ys)"

lemma set_set_insert [simp]: "set (set_insert x ys) = insert x (set ys)"
  by (induction ys) auto

lemma sorted_set_insert: "sorted_wrt (<) ys \<Longrightarrow> sorted_wrt (<) (set_insert x ys)"
  by (induction ys) (auto simp: not_less)

fun map_put :: "string \<Rightarrow> 'v \<Rightarrow> (string \<times> 'v) list \<Rightarrow> (string \<times> 'v) list" where
  "map_put k v [] = [(k, v)]"
| "map_put k v ((k', v') # m) =
     (if k < k' then (k, v) # (k', v') # m
      else if k = k' then (k, v) # m
      else (k', v') # map_put k v m)"

definition map_sorted :: "(string \<times> 'v) list \<Rightarrow> bool" where
  "map_sorted m = sorted_wrt (<) (map fst m)"

lemma map_sorted_Nil [simp]: "map_sorted []"
  by (simp add: map_sorted_def)

lemma keys_map_put [simp]: "fst ` set (map_put k v m) = insert k (fst ` set m)"
  by (induction k v m rule: map_put.induct) auto

lemma map_sorted_put: "map_sorted m \<Longrightarrow> map_sorted (map_put k v m)"
proof (induction k v m rule: map_put.induct)
  case (2 k v k' v' m)
  then show ?case by (auto simp: map_sorted_def not_less)
qed (simp add: map_sorted_def)

lemma map_of_map_put [simp]: "map_of (map_put k v m) = (map_of m)(k \<mapsto> v)"
  by (induction k v m rule: map_put.induct) (auto simp: fun_eq_iff)

lemma map_sorted_ConsD: "map_sorted ((k, v) # m) \<Longrightarrow> map_sorted m \<and> (\<forall>k' \<in> fst ` set m. k < k')"
  by (auto simp: map_sorted_def)

lemma map_put_last:
  "map_sorted (m @ [(k, v)]) \<Longrightarrow> map_put k v m = m @ [(k, v)]"
proof (induction m)
  case (Cons p m)
  then show ?case by (cases p) (auto simp: map_sorted_def)
qed (simp add: map_sorted_def)

end
