(* ===== verification/Ieee_Double.thy ===== *)
theory Ieee_Double
  imports Complex_Main Cpp_Std
begin

text \<open>
  The C++ \<open>double\<close> as IEEE binary64: a finite value is a sign, a significand and an
  exponent, \<open>(-1)^s * m * 2^e\<close>. The library functions on it that the program reaches are
  given exactly: \<open>strtod\<close> (correct rounding, ties to even) and \<open>std::stod\<close>,
  \<open>printf "%.17g"\<close>, the comparison operators, the conversions from and to \<open>int\<close>.
\<close>

section \<open>Values\<close>

datatype double = DFin bool nat int | DInf bool | DNan

text \<open>The representable values: 53 bits of significand, normalised above the subnormals.\<close>

fun dbl_ok :: "double \<Rightarrow> bool" where
  "dbl_ok (DFin s m e) = (m < 2 ^ 53 \<and> - 1074 \<le> e \<and> e \<le> 971 \<and> (2 ^ 52 \<le> m \<or> e = - 1074))"
| "dbl_ok (DInf s) = True"
| "dbl_ok DNan = True"

fun is_finite :: "double \<Rightarrow> bool" where
  "is_finite (DFin s m e) = True"
| "is_finite d = False"

section \<open>Rounding a ratio\<close>

fun bits :: "nat \<Rightarrow> nat" where
  "bits n = (if n = 0 then 0 else Suc (bits (n div 2)))"

declare bits.simps [simp del]

lemma bits_0 [simp]: "bits 0 = 0"
  by (subst bits.simps) simp

lemma bits_pos: "0 < n \<Longrightarrow> bits n = Suc (bits (n div 2))"
  by (subst bits.simps) simp

lemma bits_upper: "n < 2 ^ bits n"
proof (induction n rule: bits.induct)
  case (1 n)
  show ?case
  proof (cases "n = 0")
    case False
    with 1 have "n div 2 < 2 ^ bits (n div 2)" by simp
    then have "n < 2 * 2 ^ bits (n div 2)" by linarith
    with False show ?thesis by (simp add: bits_pos)
  qed simp
qed

lemma bits_lower: "0 < n \<Longrightarrow> 2 ^ (bits n - 1) \<le> n"
proof (induction n rule: bits.induct)
  case (1 n)
  show ?case
  proof (cases "n = 1")
    case True
    then show ?thesis by (simp add: bits_pos)
  next
    case False
    with "1.prems" have pos: "0 < n div 2" by linarith
    with 1 have "2 ^ (bits (n div 2) - 1) \<le> n div 2" by simp
    then have "2 * 2 ^ (bits (n div 2) - 1) \<le> n" by linarith
    moreover have "0 < bits (n div 2)" using pos by (simp add: bits_pos)
    then have "2 * 2 ^ (bits (n div 2) - 1) = (2::nat) ^ bits (n div 2)"
      by (simp flip: power_Suc)
    ultimately show ?thesis using "1.prems" by (simp add: bits_pos)
  qed
qed

lemma bits_le: "n < 2 ^ k \<Longrightarrow> bits n \<le> k"
proof (cases "n = 0")
  case False
  assume "n < 2 ^ k"
  moreover have "2 ^ (bits n - 1) \<le> n" using False by (intro bits_lower) simp
  ultimately have "(2::nat) ^ (bits n - 1) < 2 ^ k" by linarith
  then show ?thesis by (simp add: power_strict_increasing_iff)
qed simp

text \<open>\<open>n / d\<close> divided by \<open>2^e\<close>, as a numerator and a denominator.\<close>

definition scaled :: "nat \<Rightarrow> nat \<Rightarrow> int \<Rightarrow> nat \<times> nat" where
  "scaled n d e = (if 0 \<le> e then (n, d * 2 ^ nat e) else (n * 2 ^ nat (- e), d))"

definition round_half_even :: "nat \<Rightarrow> nat \<Rightarrow> nat" where
  "round_half_even n d =
     (let q = n div d; r = n mod d
      in if 2 * r < d then q else if d < 2 * r then Suc q else if even q then q else Suc q)"

lemma round_half_even_le: "0 < d \<Longrightarrow> n < d * k \<Longrightarrow> round_half_even n d \<le> k"
proof -
  assume d: "0 < d" "n < d * k"
  then have "n div d < k" by (simp add: less_mult_imp_div_less mult.commute)
  then show ?thesis by (auto simp: round_half_even_def Let_def)
qed

lemma round_half_even_ge: "0 < d \<Longrightarrow> d * k \<le> n \<Longrightarrow> k \<le> round_half_even n d"
proof -
  assume d: "0 < d" "d * k \<le> n"
  then have "k \<le> n div d" by (simp add: less_eq_div_iff_mult_less_eq mult.commute)
  then show ?thesis by (auto simp: round_half_even_def Let_def)
qed

lemma round_half_even_exact: "0 < d \<Longrightarrow> round_half_even (q * d) d = q"
  by (simp add: round_half_even_def)

definition dbl_exponent :: "nat \<Rightarrow> nat \<Rightarrow> int" where
  "dbl_exponent n d =
     (let e0 = int (bits n) - int (bits d) - 53;
          (a, b) = scaled n d e0
      in max (- 1074) (if a < b * 2 ^ 53 then e0 else e0 + 1))"

text \<open>The representable value nearest to \<open>n / d\<close>, ties to even, infinite on overflow.\<close>

definition dbl_of_ratio :: "bool \<Rightarrow> nat \<Rightarrow> nat \<Rightarrow> double" where
  "dbl_of_ratio s n d =
     (if n = 0 then DFin s 0 (- 1074)
      else let e = dbl_exponent n d;
               (a, b) = scaled n d e;
               q = round_half_even a b;
               (m, e') = (if q = 2 ^ 53 then (2 ^ 52, e + 1) else (q, e))
           in if 971 < e' then DInf s else DFin s m e')"

text \<open>
  The exponent chosen keeps the significand below \<open>2^53\<close>, and at \<open>2^52\<close> or more unless the
  value is subnormal; so the result is always a representable value.
\<close>

lemma scaled_value:
  assumes "0 < d" and "scaled n d e = (a, b)"
  shows "0 < b" and "real a / real b = real n / real d / 2 powi e"
  using assms by (auto simp: scaled_def power_int_def field_simps split: if_splits)

lemma scaled_less_iff:
  assumes "0 < d" and "scaled n d e = (a, b)"
  shows "a < b * k \<longleftrightarrow> real n / real d / 2 powi e < real k"
proof -
  have "a < b * k \<longleftrightarrow> real a < real b * real k" by (simp flip: of_nat_mult)
  also have "\<dots> \<longleftrightarrow> real a / real b < real k"
    using scaled_value(1) [OF assms] by (simp add: field_simps)
  finally show ?thesis using scaled_value(2) [OF assms] by simp
qed

lemma ratio_bits:
  assumes "0 < n" and "0 < d"
  shows "2 powi (int (bits n) - int (bits d) - 1) \<le> real n / real d"
    and "real n / real d < 2 powi (int (bits n) - int (bits d) + 1)"
proof -
  have n0: "0 < bits n" and d0: "0 < bits d" using assms by (simp_all add: bits_pos)
  have n: "real (2 ^ (bits n - 1)) \<le> real n" "real n < real (2 ^ bits n)"
    using bits_lower [OF assms(1)] bits_upper [of n] by (simp_all only: of_nat_le_iff of_nat_less_iff)
  have d: "real (2 ^ (bits d - 1)) \<le> real d" "real d < real (2 ^ bits d)"
    using bits_lower [OF assms(2)] bits_upper [of d] by (simp_all only: of_nat_le_iff of_nat_less_iff)
  have pn: "(2::real) ^ bits n = 2 * 2 ^ (bits n - 1)" using n0 by (cases "bits n") simp_all
  have pd: "(2::real) ^ bits d = 2 * 2 ^ (bits d - 1)" using d0 by (cases "bits d") simp_all
  have "2 powi (int (bits n) - int (bits d) - 1) = (2::real) ^ bits n / 2 ^ bits d / 2"
    by (simp add: power_int_diff)
  also have "\<dots> = 2 ^ (bits n - 1) / 2 ^ bits d" by (simp add: pn)
  also have "\<dots> \<le> real n / real d"
    using n d assms by (intro frac_le) simp_all
  finally show "2 powi (int (bits n) - int (bits d) - 1) \<le> real n / real d" .
  have "real n / real d < 2 ^ bits n / 2 ^ (bits d - 1)"
    using n d assms by (intro frac_less) simp_all
  also have "\<dots> = 2 ^ bits n / 2 ^ bits d * 2" by (simp add: pd)
  also have "\<dots> = 2 powi (int (bits n) - int (bits d) + 1)"
    by (simp add: power_int_diff power_int_add)
  finally show "real n / real d < 2 powi (int (bits n) - int (bits d) + 1)" .
qed

lemma half_bounds: "\<not> (y::real) < 2 ^ 53 \<Longrightarrow> y < 2 ^ 54 \<Longrightarrow> z = y / 2 \<Longrightarrow> 2 ^ 52 \<le> z \<and> z < 2 ^ 53"
  by simp

lemma dbl_exponent_bounds:
  assumes "0 < n" and "0 < d"
  shows "- 1074 \<le> dbl_exponent n d"
    and "real n / real d / 2 powi dbl_exponent n d < 2 ^ 53"
    and "dbl_exponent n d = - 1074 \<or> 2 ^ 52 \<le> real n / real d / 2 powi dbl_exponent n d"
proof -
  let ?x = "real n / real d"
  define e0 where "e0 = int (bits n) - int (bits d) - 53"
  obtain a b where ab: "scaled n d e0 = (a, b)" by (cases "scaled n d e0")
  define e1 where "e1 = (if ?x / 2 powi e0 < 2 ^ 53 then e0 else e0 + 1)"
  have e: "dbl_exponent n d = max (- 1074) e1"
    using scaled_less_iff [OF assms(2) ab, of "2 ^ 53"] ab
    by (simp add: dbl_exponent_def e1_def e0_def Let_def)
  have lo: "2 ^ 52 \<le> ?x / 2 powi e0"
  proof -
    have "(2::real) ^ 52 * 2 powi e0 = 2 powi (52 + e0)" by (simp add: power_int_add)
    also have "\<dots> \<le> ?x" using ratio_bits(1) [OF assms] by (simp add: e0_def algebra_simps)
    finally have "2 ^ 52 * 2 powi e0 \<le> ?x" .
    then show ?thesis by (subst pos_le_divide_eq) (simp, assumption)
  qed
  have hi: "?x / 2 powi e0 < 2 ^ 54"
  proof -
    have "?x < 2 powi (54 + e0)" using ratio_bits(2) [OF assms] by (simp add: e0_def algebra_simps)
    also have "\<dots> = 2 ^ 54 * 2 powi e0" by (simp add: power_int_add)
    finally have "?x < 2 ^ 54 * 2 powi e0" .
    then show ?thesis by (subst pos_divide_less_eq) (simp, assumption)
  qed
  have step: "?x / 2 powi (e0 + 1) = ?x / 2 powi e0 / 2" by (simp add: power_int_add)
  have e1: "2 ^ 52 \<le> ?x / 2 powi e1 \<and> ?x / 2 powi e1 < 2 ^ 53"
  proof (cases "?x / 2 powi e0 < 2 ^ 53")
    case True
    then have "e1 = e0" by (simp only: e1_def if_True)
    with True lo show ?thesis by (simp only:)
  next
    case False
    then have "?x / 2 powi e1 = ?x / 2 powi e0 / 2" by (simp only: e1_def if_False step)
    with False hi show ?thesis by (intro half_bounds)
  qed
  show "- 1074 \<le> dbl_exponent n d" by (simp add: e)
  have "?x / 2 powi dbl_exponent n d \<le> ?x / 2 powi e1"
    by (intro divide_left_mono) (simp_all add: e power_int_increasing)
  with e1 show "?x / 2 powi dbl_exponent n d < 2 ^ 53" by linarith
  show "dbl_exponent n d = - 1074 \<or> 2 ^ 52 \<le> ?x / 2 powi dbl_exponent n d"
    using e1 by (simp add: e max_def)
qed

lemma scaled_le_iff:
  assumes "0 < d" and "scaled n d e = (a, b)"
  shows "b * k \<le> a \<longleftrightarrow> real k \<le> real n / real d / 2 powi e"
  using scaled_less_iff [OF assms, of k] by linarith

lemma dbl_of_ratio_ok: "0 < d \<Longrightarrow> dbl_ok (dbl_of_ratio s n d)"
proof (cases "n = 0")
  case False
  assume d: "0 < d"
  define e where "e = dbl_exponent n d"
  obtain a b where ab: "scaled n d e = (a, b)" by (cases "scaled n d e")
  have b: "0 < b" using scaled_value(1) [OF d ab] .
  note bounds = dbl_exponent_bounds [of n d, folded e_def]
  have "a < b * 2 ^ 53" using False d bounds(2) scaled_less_iff [OF d ab, of "2 ^ 53"] by simp
  with b have hi: "round_half_even a b \<le> 2 ^ 53" by (rule round_half_even_le)
  have lo: "e = - 1074 \<or> 2 ^ 52 \<le> round_half_even a b"
    using False d bounds(3) scaled_le_iff [OF d ab, of "2 ^ 52"] round_half_even_ge [OF b, of "2 ^ 52" a]
    by auto
  show ?thesis
    using False d bounds(1) hi lo
    by (auto simp: dbl_of_ratio_def Let_def ab simp flip: e_def)
qed (simp add: dbl_of_ratio_def)

text \<open>A natural number below \<open>2^53\<close> is represented exactly.\<close>

lemma dbl_of_ratio_nat:
  assumes "0 < n" and "n < 2 ^ 53"
  shows "dbl_of_ratio s n 1 = DFin s (n * 2 ^ (53 - bits n)) (int (bits n) - 53)"
proof -
  let ?b = "bits n"
  have b: "0 < ?b" "?b \<le> 53" using assms by (simp add: bits_pos, intro bits_le)
  have bits1: "bits (Suc 0) = 1" by (simp add: bits_pos)
  obtain k where k: "?b = Suc k" using b(1) by (cases ?b) auto
  have "2 ^ k \<le> n" using bits_lower [OF assms(1)] by (simp add: k)
  then have "(2::nat) ^ k * 2 ^ (53 - k) \<le> n * 2 ^ (53 - k)" by (rule mult_le_mono1)
  moreover have "(2::nat) ^ k * 2 ^ (53 - k) = 2 ^ 53" using b(2) k by (simp flip: power_add)
  ultimately have ge: "2 ^ 53 \<le> n * 2 ^ (53 - k)" by simp
  have "n * 2 ^ (53 - ?b) < 2 ^ ?b * 2 ^ (53 - ?b)"
    using bits_upper [of n] by (intro mult_strict_right_mono) simp_all
  also have "\<dots> = 2 ^ 53" using b(2) by (simp flip: power_add)
  finally have lt: "n * 2 ^ (53 - ?b) < 2 ^ 53" .
  have e: "dbl_exponent n 1 = int ?b - 53"
    using b ge by (simp add: dbl_exponent_def scaled_def bits1 Let_def k nat_diff_distrib)
  have sc: "scaled n 1 (int ?b - 53) = (n * 2 ^ (53 - ?b), 1)"
    using b by (auto simp: scaled_def nat_diff_distrib)
  show ?thesis
    using assms(1) lt b round_half_even_exact [of 1 "n * 2 ^ (53 - ?b)"]
    using e sc by (simp add: dbl_of_ratio_def)
qed

definition dbl_of_int :: "int \<Rightarrow> double" where
  "dbl_of_int i = dbl_of_ratio (i < 0) (nat \<bar>i\<bar>) 1"

section \<open>Comparison and conversion\<close>

definition dbl_scale :: "bool \<Rightarrow> nat \<Rightarrow> int \<Rightarrow> int \<Rightarrow> int" where
  "dbl_scale s m e e0 = (if s then - 1 else 1) * int m * 2 ^ nat (e - e0)"

fun dbl_eq :: "double \<Rightarrow> double \<Rightarrow> bool" where
  "dbl_eq (DFin s m e) (DFin s' m' e') =
     (let e0 = min e e' in dbl_scale s m e e0 = dbl_scale s' m' e' e0)"
| "dbl_eq (DInf s) (DInf s') = (s = s')"
| "dbl_eq _ _ = False"

fun dbl_less :: "double \<Rightarrow> double \<Rightarrow> bool" where
  "dbl_less (DFin s m e) (DFin s' m' e') =
     (let e0 = min e e' in dbl_scale s m e e0 < dbl_scale s' m' e' e0)"
| "dbl_less (DInf s) (DInf s') = (s \<and> \<not> s')"
| "dbl_less (DInf s) (DFin _ _ _) = s"
| "dbl_less (DFin _ _ _) (DInf s) = (\<not> s)"
| "dbl_less _ _ = False"

text \<open>\<open>static_cast<int>\<close>: truncation, undefined when the result is no \<open>int\<close>.\<close>

fun dbl_to_int :: "double \<Rightarrow> int result" where
  "dbl_to_int (DFin s m e) =
     (let a = int (if 0 \<le> e then m * 2 ^ nat e else m div 2 ^ nat (- e));
          v = (if s then - a else a)
      in if is_int v then Inr v else Inl Cast_out_of_range)"
| "dbl_to_int _ = Inl Cast_out_of_range"

text \<open>
  Every \<open>int\<close> is represented exactly, so on values that come from \<open>int\<close> the comparisons and
  the truncation agree with those of the integers.
\<close>

lemma dbl_scale_nat:
  assumes "0 < n" and "n < 2 ^ 53" and "e0 \<le> int (bits n) - 53"
  shows "dbl_scale s (n * 2 ^ (53 - bits n)) (int (bits n) - 53) e0 = (if s then - 1 else 1) * int n * 2 ^ nat (- e0)"
proof -
  have b: "bits n \<le> 53" using assms(2) by (rule bits_le)
  then have "nat (- e0) = (53 - bits n) + nat (int (bits n) - 53 - e0)" using assms(3) by simp
  then show ?thesis by (simp add: dbl_scale_def power_add)
qed

definition small_int :: "int \<Rightarrow> bool" where
  "small_int i = (\<bar>i\<bar> < 2 ^ 53)"

lemma dbl_of_int_form:
  assumes "small_int i"
  shows "\<exists>m e. dbl_of_int i = DFin (i < 0) m e \<and> e \<le> 0 \<and>
    (\<forall>e0. e0 \<le> e \<longrightarrow> dbl_scale (i < 0) m e e0 = i * 2 ^ nat (- e0))"
proof (cases "i = 0")
  case True
  then show ?thesis by (simp add: dbl_of_int_def dbl_of_ratio_def dbl_scale_def)
next
  case False
  let ?n = "nat \<bar>i\<bar>"
  have n: "0 < ?n" "?n < 2 ^ 53" using False assms by (simp_all add: small_int_def)
  have "bits ?n \<le> 53" using n(2) by (rule bits_le)
  then show ?thesis
    unfolding dbl_of_int_def dbl_of_ratio_nat [OF n]
    by (intro exI conjI) (auto simp: dbl_scale_nat [OF n])
qed

lemma dbl_eq_of_int:
  assumes "small_int i" and "small_int j"
  shows "dbl_eq (dbl_of_int i) (dbl_of_int j) \<longleftrightarrow> i = j"
proof -
  obtain m e where i: "dbl_of_int i = DFin (i < 0) m e"
    "\<And>e0. e0 \<le> e \<Longrightarrow> dbl_scale (i < 0) m e e0 = i * 2 ^ nat (- e0)"
    using dbl_of_int_form [OF assms(1)] by blast
  obtain m' e' where j: "dbl_of_int j = DFin (j < 0) m' e'"
    "\<And>e0. e0 \<le> e' \<Longrightarrow> dbl_scale (j < 0) m' e' e0 = j * 2 ^ nat (- e0)"
    using dbl_of_int_form [OF assms(2)] by blast
  show ?thesis by (simp add: i j Let_def)
qed

lemma dbl_less_of_int:
  assumes "small_int i" and "small_int j"
  shows "dbl_less (dbl_of_int i) (dbl_of_int j) \<longleftrightarrow> i < j"
proof -
  obtain m e where i: "dbl_of_int i = DFin (i < 0) m e"
    "\<And>e0. e0 \<le> e \<Longrightarrow> dbl_scale (i < 0) m e e0 = i * 2 ^ nat (- e0)"
    using dbl_of_int_form [OF assms(1)] by blast
  obtain m' e' where j: "dbl_of_int j = DFin (j < 0) m' e'"
    "\<And>e0. e0 \<le> e' \<Longrightarrow> dbl_scale (j < 0) m' e' e0 = j * 2 ^ nat (- e0)"
    using dbl_of_int_form [OF assms(2)] by blast
  show ?thesis by (simp add: i j Let_def)
qed

lemma dbl_to_int_of_int:
  assumes "is_int i"
  shows "dbl_to_int (dbl_of_int i) = Inr i"
proof -
  have si: "small_int i" using assms by (auto simp: is_int_def int_min_def int_max_def small_int_def)
  obtain m e where i: "dbl_of_int i = DFin (i < 0) m e" "e \<le> 0"
    "\<And>e0. e0 \<le> e \<Longrightarrow> dbl_scale (i < 0) m e e0 = i * 2 ^ nat (- e0)"
    using dbl_of_int_form [OF si] by blast
  have "dbl_scale (i < 0) m e e = i * 2 ^ nat (- e)" by (rule i(3)) simp
  then have "int m = \<bar>i\<bar> * 2 ^ nat (- e)" by (simp add: dbl_scale_def split: if_splits)
  then have "int m = int (nat \<bar>i\<bar> * 2 ^ nat (- e))" by simp
  then have "m = nat \<bar>i\<bar> * 2 ^ nat (- e)" by (simp only: of_nat_eq_iff)
  then show ?thesis using assms i(1,2) by (cases "e = 0") (auto simp: Let_def)
qed

lemma is_int_small: "is_int i \<Longrightarrow> small_int i"
  by (auto simp: is_int_def int_min_def int_max_def small_int_def)

section \<open>Reading: strtod and std::stod\<close>

definition dbl_of_decimal :: "bool \<Rightarrow> nat \<Rightarrow> int \<Rightarrow> double" where
  "dbl_of_decimal s m e10 =
     (if 0 \<le> e10 then dbl_of_ratio s (m * 10 ^ nat e10) 1 else dbl_of_ratio s m (10 ^ nat (- e10)))"

definition dbl_of_binary :: "bool \<Rightarrow> nat \<Rightarrow> int \<Rightarrow> double" where
  "dbl_of_binary s m e2 =
     (if 0 \<le> e2 then dbl_of_ratio s (m * 2 ^ nat e2) 1 else dbl_of_ratio s m (2 ^ nat (- e2)))"

text \<open>An exponent after the given letters: a sign and digits, or nothing (then 0).\<close>

definition exponent_part :: "char set \<Rightarrow> string \<Rightarrow> int" where
  "exponent_part letters s =
     (case s of
        [] \<Rightarrow> 0
      | c # t \<Rightarrow>
          if c \<notin> letters then 0
          else let neg = (t \<noteq> [] \<and> hd t = CHR ''-'');
                   u = (if t \<noteq> [] \<and> (hd t = CHR ''-'' \<or> hd t = CHR ''+'') then tl t else t);
                   v = int (dec_value (takeWhile is_digit u))
               in if neg then - v else v)"

text \<open>The digits before and after the point, and what follows.\<close>

definition split_point :: "(char \<Rightarrow> bool) \<Rightarrow> string \<Rightarrow> string \<times> string \<times> string" where
  "split_point p s =
     (let ip = takeWhile p s; r = dropWhile p s
      in case r of
           [] \<Rightarrow> (ip, [], [])
         | c # t \<Rightarrow> if c = CHR ''.'' then (ip, takeWhile p t, dropWhile p t) else (ip, [], r))"

definition hex_val :: "char \<Rightarrow> nat" where
  "hex_val c =
     (let n = of_char c in if n \<le> 57 then n - 48 else if n \<le> 70 then n - 55 else n - 87)"

definition is_hex :: "char \<Rightarrow> bool" where
  "is_hex c = (is_digit c \<or> in_range (char_signed c) 97 102 \<or> in_range (char_signed c) 65 70)"

definition hex_value :: "string \<Rightarrow> nat" where
  "hex_value ds = foldl (\<lambda>a c. 16 * a + hex_val c) 0 ds"

definition to_lower :: "char \<Rightarrow> char" where
  "to_lower c = (if in_range (char_signed c) 65 90 then char_of ((of_char c :: nat) + 32) else c)"

text \<open>What follows the sign; None when there is no number.\<close>

definition strtod_unsigned :: "bool \<Rightarrow> string \<Rightarrow> double option" where
  "strtod_unsigned s u =
     (let (hi, hf, hr) = split_point is_hex (drop 2 u);
          (di, df, dr) = split_point is_digit u
      in if map to_lower (take 3 u) = ''inf'' then Some (DInf s)
         else if map to_lower (take 3 u) = ''nan'' then Some DNan
         else if map to_lower (take 2 u) = ''0x'' \<and> hi @ hf \<noteq> [] then
           Some (dbl_of_binary s (hex_value (hi @ hf))
             (exponent_part {CHR ''p'', CHR ''P''} hr - 4 * int (length hf)))
         else if di @ df \<noteq> [] then
           Some (dbl_of_decimal s (dec_value (di @ df))
             (exponent_part {CHR ''e'', CHR ''E''} dr - int (length df)))
         else None)"

definition strtod :: "string \<Rightarrow> double option" where
  "strtod str =
     (let t = dropWhile is_space str;
          neg = (t \<noteq> [] \<and> hd t = CHR ''-'');
          u = (if t \<noteq> [] \<and> (hd t = CHR ''-'' \<or> hd t = CHR ''+'') then tl t else t)
      in strtod_unsigned neg u)"

text \<open>
  \<open>std::stod\<close> throws when there is no number and when a finite numeral overflows. (Whether
  an underflow is reported is left to the implementation; here it is not.)
\<close>

definition stod :: "string \<Rightarrow> double result" where
  "stod str =
     (case strtod str of
        None \<Rightarrow> Inl Invalid_argument
      | Some (DInf s) \<Rightarrow>
          (let t = dropWhile is_space str;
               u = (if t \<noteq> [] \<and> (hd t = CHR ''-'' \<or> hd t = CHR ''+'') then tl t else t)
           in if map to_lower (take 3 u) = ''inf'' then Inr (DInf s) else Inl Out_of_range)
      | Some d \<Rightarrow> Inr d)"

section \<open>Printing: the format %.17g\<close>

definition dec_exponent :: "nat \<Rightarrow> nat \<Rightarrow> int" where
  "dec_exponent n d =
     (if d \<le> n then int (length (dec_nat (n div d))) - 1
      else - int (length (dec_nat ((d + n - 1) div n - 1))))"

definition strip_zeros :: "string \<Rightarrow> string" where
  "strip_zeros ds = rev (dropWhile (\<lambda>c. c = CHR ''0'') (rev ds))"

definition point :: "string \<Rightarrow> string" where
  "point ds = (if ds = [] then [] else CHR ''.'' # ds)"

definition g17_unsigned :: "nat \<Rightarrow> nat \<Rightarrow> string" where
  "g17_unsigned n d =
     (let x0 = dec_exponent n d;
          r = (if x0 \<le> 16 then round_half_even (n * 10 ^ nat (16 - x0)) d
               else round_half_even n (d * 10 ^ nat (x0 - 16)));
          (ds, x) = (if r = 10 ^ 17 then (dec_nat (10 ^ 16), x0 + 1) else (dec_nat r, x0))
      in if - 4 \<le> x \<and> x < 17 then
           (if 0 \<le> x then take (nat x + 1) ds @ point (strip_zeros (drop (nat x + 1) ds))
            else ''0.'' @ replicate (nat (- x) - 1) (CHR ''0'') @ strip_zeros ds)
         else take 1 ds @ point (strip_zeros (drop 1 ds)) @ ''e'' @ (if x < 0 then ''-'' else ''+'')
              @ (if \<bar>x\<bar> < 10 then ''0'' else []) @ dec_nat (nat \<bar>x\<bar>))"

fun print_g17 :: "double \<Rightarrow> string" where
  "print_g17 (DFin s m e) =
     (if s then ''-'' else [])
     @ (if m = 0 then ''0''
        else if 0 \<le> e then g17_unsigned (m * 2 ^ nat e) 1 else g17_unsigned m (2 ^ nat (- e)))"
| "print_g17 (DInf s) = (if s then ''-inf'' else ''inf'')"
| "print_g17 DNan = ''nan''"

section \<open>Reading back an integer\<close>

lemma split_point_digits:
  assumes "list_all is_digit ds"
    and "rest = [] \<or> \<not> is_digit (hd rest) \<and> hd rest \<noteq> CHR ''.''"
  shows "split_point is_digit (ds @ rest) = (ds, [], rest)"
proof (cases rest)
  case Nil
  with assms(1) have "takeWhile is_digit ds = ds" "dropWhile is_digit ds = []"
    by (simp_all add: list_all_iff)
  then show ?thesis by (simp only: Nil append_Nil2 split_point_def Let_def list.case)
next
  case (Cons c r)
  with assms have "takeWhile is_digit (ds @ rest) = ds" "dropWhile is_digit (ds @ rest) = c # r"
    by (simp_all add: list_all_iff takeWhile_append dropWhile_append)
  with Cons assms(2) show ?thesis by (simp add: split_point_def)
qed

definition number_end :: "string \<Rightarrow> bool" where
  "number_end rest = (rest = [] \<or> \<not> is_digit (hd rest) \<and> hd rest \<notin> {CHR ''.'', CHR ''e'', CHR ''E''})"

lemma strtod_unsigned_dec_nat:
  assumes "0 < n" and "number_end rest"
  shows "strtod_unsigned s (dec_nat n @ rest) = Some (dbl_of_ratio s n 1)"
proof -
  obtain d ds where ds: "dec_nat n = d # ds" by (cases "dec_nat n") auto
  have d: "is_digit d" "d \<noteq> CHR ''0''"
    using dec_nat_digits [of n] hd_dec_nat [of n] assms(1) by (simp_all add: ds)
  have ne: "d \<noteq> CHR ''i''" "d \<noteq> CHR ''n''" using d(1) by (auto simp: is_digit_iff)
  have low: "to_lower d = d" using d(1) by (simp add: to_lower_def in_range_def is_digit_def)
  have sp: "split_point is_digit (dec_nat n @ rest) = (dec_nat n, [], rest)"
    using assms(2) by (intro split_point_digits dec_nat_digits) (auto simp: number_end_def)
  have ex: "exponent_part {CHR ''e'', CHR ''E''} rest = 0"
    using assms(2) by (cases rest) (auto simp: exponent_part_def number_end_def)
  have hd3: "map to_lower (take 3 (dec_nat n @ rest)) \<noteq> ''inf''"
      "map to_lower (take 3 (dec_nat n @ rest)) \<noteq> ''nan''"
      "map to_lower (take 2 (dec_nat n @ rest)) \<noteq> ''0x''"
    using low ne d(2) by (simp_all add: ds take_Cons')
  show ?thesis
    using sp ex hd3 by (simp add: strtod_unsigned_def dbl_of_decimal_def split: prod.splits)
qed

text \<open>A printed \<open>int\<close> that \<open>strtod\<close> reads is the conversion of that \<open>int\<close>.\<close>

lemma strtod_dec_int:
  assumes "i \<noteq> 0" and "number_end rest"
  shows "strtod (dec_int i @ rest) = Some (dbl_of_int i)"
proof -
  obtain d ds where ds: "dec_nat (nat \<bar>i\<bar>) = d # ds" by (cases "dec_nat (nat \<bar>i\<bar>)") auto
  have d: "is_digit d" using dec_nat_digits [of "nat \<bar>i\<bar>"] by (simp add: ds)
  have "strtod_unsigned (i < 0) (d # ds @ rest) = Some (dbl_of_int i)"
    using strtod_unsigned_dec_nat [of "nat \<bar>i\<bar>" rest] assms by (simp add: dbl_of_int_def ds)
  moreover have "dec_int i = (if i < 0 then CHR ''-'' # d # ds else d # ds)"
    using ds by (simp add: dec_int_def abs_if split: if_splits)
  ultimately show ?thesis
    using digit_not_space [OF d] digit_not_sign [OF d] is_space_def [of "CHR ''-''"]
    by (cases "i < 0") (simp_all add: strtod_def ds Let_def)
qed

end
