(* ===== verification/Json_Value.thy ===== *)
theory Json_Value
  imports Ieee_Double
begin

text \<open>
  The value type of json11 (\<open>vendors/json11/json11.cpp\<close>): the class hierarchy below
  \<open>JsonValue\<close> as a datatype, one constructor per final class, the accessors with the
  default each base-class method returns, the comparison operators, \<open>dump\<close> and \<open>has_shape\<close>.
  Sharing of \<open>m_ptr\<close> between values is not modelled: it only matters to \<open>==\<close> on a value
  that holds a NaN.
\<close>

section \<open>Values, types, accessors\<close>

datatype json_type = NUL | NUMBER | BOOL | STRING | ARRAY | OBJECT

datatype json =
    JsonNull
  | JsonDouble double
  | JsonInt int
  | JsonBoolean bool
  | JsonString string
  | JsonArray "json list"
  | JsonObject "(string \<times> json) list"

fun json_type_of :: "json \<Rightarrow> json_type" where
  "json_type_of JsonNull = NUL"
| "json_type_of (JsonDouble _) = NUMBER"
| "json_type_of (JsonInt _) = NUMBER"
| "json_type_of (JsonBoolean _) = BOOL"
| "json_type_of (JsonString _) = STRING"
| "json_type_of (JsonArray _) = ARRAY"
| "json_type_of (JsonObject _) = OBJECT"

fun number_value :: "json \<Rightarrow> double" where
  "number_value (JsonDouble d) = d"
| "number_value (JsonInt i) = dbl_of_int i"
| "number_value _ = dbl_of_int 0"

text \<open>\<open>JsonDouble::int_value\<close> is a \<open>static_cast<int>\<close>, undefined out of range.\<close>

fun int_value :: "json \<Rightarrow> int result" where
  "int_value (JsonDouble d) = dbl_to_int d"
| "int_value (JsonInt i) = Inr i"
| "int_value _ = Inr 0"

fun bool_value :: "json \<Rightarrow> bool" where
  "bool_value (JsonBoolean b) = b"
| "bool_value _ = False"

fun string_value :: "json \<Rightarrow> string" where
  "string_value (JsonString s) = s"
| "string_value _ = []"

fun array_items :: "json \<Rightarrow> json list" where
  "array_items (JsonArray vs) = vs"
| "array_items _ = []"

fun object_items :: "json \<Rightarrow> (string \<times> json) list" where
  "object_items (JsonObject kvs) = kvs"
| "object_items _ = []"

text \<open>The two \<open>operator[]\<close>: null where there is no such element.\<close>

fun at_index :: "json \<Rightarrow> nat \<Rightarrow> json" where
  "at_index (JsonArray vs) i = (if length vs \<le> i then JsonNull else vs ! i)"
| "at_index _ i = JsonNull"

fun at_key :: "json \<Rightarrow> string \<Rightarrow> json" where
  "at_key (JsonObject kvs) k = (case map_of kvs k of None \<Rightarrow> JsonNull | Some v \<Rightarrow> v)"
| "at_key _ k = JsonNull"

section \<open>Well-formed values\<close>

text \<open>
  What the C++ types guarantee: an \<open>int\<close> is in range, a \<open>double\<close> is representable, the keys
  of a \<open>std::map\<close> are strictly increasing.
\<close>

fun json_ok :: "json \<Rightarrow> bool" where
  "json_ok (JsonDouble d) = dbl_ok d"
| "json_ok (JsonInt i) = is_int i"
| "json_ok (JsonArray vs) = list_all json_ok vs"
| "json_ok (JsonObject kvs) = (map_sorted kvs \<and> list_all (\<lambda>kv. json_ok (snd kv)) kvs)"
| "json_ok _ = True"

fun no_double :: "json \<Rightarrow> bool" where
  "no_double (JsonDouble d) = False"
| "no_double (JsonArray vs) = list_all no_double vs"
| "no_double (JsonObject kvs) = list_all (\<lambda>kv. no_double (snd kv)) kvs"
| "no_double _ = True"

fun nan_free :: "json \<Rightarrow> bool" where
  "nan_free (JsonDouble d) = (d \<noteq> DNan)"
| "nan_free (JsonArray vs) = list_all nan_free vs"
| "nan_free (JsonObject kvs) = list_all (\<lambda>kv. nan_free (snd kv)) kvs"
| "nan_free _ = True"

text \<open>The nesting of arrays and objects.\<close>

fun json_depth :: "json \<Rightarrow> nat" where
  "json_depth (JsonArray vs) = fold max (map (\<lambda>v. Suc (json_depth v)) vs) 1"
| "json_depth (JsonObject kvs) = fold max (map (\<lambda>kv. Suc (json_depth (snd kv))) kvs) 1"
| "json_depth _ = 0"

section \<open>Comparison\<close>

fun type_rank :: "json_type \<Rightarrow> nat" where
  "type_rank NUL = 0"
| "type_rank NUMBER = 1"
| "type_rank BOOL = 2"
| "type_rank STRING = 3"
| "type_rank ARRAY = 4"
| "type_rank OBJECT = 5"

text \<open>
  \<open>Json::operator==\<close>: the types must agree, then \<open>equals\<close> of the class decides. Numbers
  compare as doubles whatever their class; vectors and maps compare element by element.
\<close>

fun json_eq :: "json \<Rightarrow> json \<Rightarrow> bool"
and json_eq_list :: "json list \<Rightarrow> json list \<Rightarrow> bool"
and json_eq_map :: "(string \<times> json) list \<Rightarrow> (string \<times> json) list \<Rightarrow> bool" where
  "json_eq JsonNull JsonNull = True"
| "json_eq (JsonDouble d) y = (json_type_of y = NUMBER \<and> dbl_eq d (number_value y))"
| "json_eq (JsonInt i) y = (json_type_of y = NUMBER \<and> dbl_eq (dbl_of_int i) (number_value y))"
| "json_eq (JsonBoolean b) (JsonBoolean c) = (b = c)"
| "json_eq (JsonString s) (JsonString t) = (s = t)"
| "json_eq (JsonArray vs) (JsonArray ws) = json_eq_list vs ws"
| "json_eq (JsonObject m) (JsonObject n) = json_eq_map m n"
| "json_eq _ _ = False"
| "json_eq_list [] [] = True"
| "json_eq_list (v # vs) (w # ws) = (json_eq v w \<and> json_eq_list vs ws)"
| "json_eq_list _ _ = False"
| "json_eq_map [] [] = True"
| "json_eq_map ((k, v) # m) ((l, w) # n) = (k = l \<and> json_eq v w \<and> json_eq_map m n)"
| "json_eq_map _ _ = False"

text \<open>
  \<open>Json::operator<\<close>: the types are ordered as the enumeration lists them; vectors and maps
  compare lexicographically with \<open><\<close> alone, as \<open>std::lexicographical_compare\<close> does.
\<close>

function (sequential) json_less :: "json \<Rightarrow> json \<Rightarrow> bool"
and json_less_list :: "json list \<Rightarrow> json list \<Rightarrow> bool"
and json_less_map :: "(string \<times> json) list \<Rightarrow> (string \<times> json) list \<Rightarrow> bool" where
  "json_less (JsonDouble d) y =
     (if json_type_of y = NUMBER then dbl_less d (number_value y) else 1 < type_rank (json_type_of y))"
| "json_less (JsonInt i) y =
     (if json_type_of y = NUMBER then dbl_less (dbl_of_int i) (number_value y)
      else 1 < type_rank (json_type_of y))"
| "json_less (JsonBoolean b) (JsonBoolean c) = (\<not> b \<and> c)"
| "json_less (JsonString s) (JsonString t) = (s < t)"
| "json_less (JsonArray vs) (JsonArray ws) = json_less_list vs ws"
| "json_less (JsonObject m) (JsonObject n) = json_less_map m n"
| "json_less x y = (type_rank (json_type_of x) < type_rank (json_type_of y))"
| "json_less_list vs [] = False"
| "json_less_list [] (w # ws) = True"
| "json_less_list (v # vs) (w # ws) =
     (json_less v w \<or> (\<not> json_less w v \<and> json_less_list vs ws))"
| "json_less_map m [] = False"
| "json_less_map [] (q # n) = True"
| "json_less_map ((k, v) # m) ((l, w) # n) =
     ((k < l \<or> (\<not> l < k \<and> json_less v w))
      \<or> (\<not> (l < k \<or> (\<not> k < l \<and> json_less w v)) \<and> json_less_map m n))"
  by pat_completeness auto
termination
  by (relation "measure (case_sum (\<lambda>(x, y). size x + size y)
      (case_sum (\<lambda>(vs, ws). size_list size vs + size_list size ws)
        (\<lambda>(m, n). size_list (size_prod (\<lambda>_. 0) size) m + size_list (size_prod (\<lambda>_. 0) size) n)))")
    simp_all

section \<open>The order is total on values without NaN\<close>

definition exactly_one :: "bool \<Rightarrow> bool \<Rightarrow> bool \<Rightarrow> bool" where
  "exactly_one a b c = ((a \<and> \<not> b \<and> \<not> c) \<or> (\<not> a \<and> b \<and> \<not> c) \<or> (\<not> a \<and> \<not> b \<and> c))"

lemma less_trichotomy: "exactly_one (s < t) (s = t) (t < (s :: string))"
  by (cases s t rule: linorder_cases) (auto simp: exactly_one_def)

lemma lex_exactly_one:
  "exactly_one a e b \<Longrightarrow> exactly_one A E B \<Longrightarrow>
    exactly_one (a \<or> (\<not> b \<and> A)) (e \<and> E) (b \<or> (\<not> a \<and> B))"
  by (auto simp: exactly_one_def)

lemma dbl_trichotomy:
  "d \<noteq> DNan \<Longrightarrow> d' \<noteq> DNan \<Longrightarrow> exactly_one (dbl_less d d') (dbl_eq d d') (dbl_less d' d)"
  by (cases d; cases d') (auto simp: exactly_one_def Let_def min.commute)

lemma dbl_of_int_not_nan [simp]: "dbl_of_int i \<noteq> DNan"
  by (simp add: dbl_of_int_def dbl_of_ratio_def Let_def split: prod.splits)

lemma number_value_not_nan: "nan_free x \<Longrightarrow> number_value x \<noteq> DNan"
  by (cases x) simp_all

lemma number_less:
  assumes "json_type_of x = NUMBER" and "json_type_of y = NUMBER"
  shows "json_less x y = dbl_less (number_value x) (number_value y)"
    and "json_eq x y = dbl_eq (number_value x) (number_value y)"
  using assms by (cases x; simp)+

lemma type_less:
  assumes "json_type_of x \<noteq> json_type_of y"
  shows "json_less x y = (type_rank (json_type_of x) < type_rank (json_type_of y))"
    and "\<not> json_eq x y"
  using assms by (cases x; cases y; simp)+

lemma type_rank_inj: "type_rank s = type_rank t \<Longrightarrow> s = t"
  by (cases s; cases t) simp_all

lemma json_trichotomy_all:
  shows "nan_free x \<Longrightarrow> nan_free y \<Longrightarrow> exactly_one (json_less x y) (json_eq x y) (json_less y x)"
    and "list_all nan_free vs \<Longrightarrow> list_all nan_free ws \<Longrightarrow>
      exactly_one (json_less_list vs ws) (json_eq_list vs ws) (json_less_list ws vs)"
    and "list_all (\<lambda>kv. nan_free (snd kv)) m \<Longrightarrow> list_all (\<lambda>kv. nan_free (snd kv)) n \<Longrightarrow>
      exactly_one (json_less_map m n) (json_eq_map m n) (json_less_map n m)"
proof (induction x y and vs ws and m n rule: json_less_json_less_list_json_less_map.induct)
  case (1 d y)
  show ?case
  proof (cases "json_type_of y = NUMBER")
    case True
    with 1 show ?thesis
      by (simp only: number_less [of "JsonDouble d" y] number_less [of y "JsonDouble d"] json_type_of.simps)
        (intro dbl_trichotomy number_value_not_nan)
  next
    case False
    then have "type_rank (json_type_of y) \<noteq> 1" using type_rank_inj [of "json_type_of y" NUMBER] by auto
    with False type_less [of "JsonDouble d" y] type_less [of y "JsonDouble d"]
    show ?thesis by (simp add: exactly_one_def) linarith
  qed
next
  case (2 i y)
  show ?case
  proof (cases "json_type_of y = NUMBER")
    case True
    with 2 show ?thesis
      by (simp only: number_less [of "JsonInt i" y] number_less [of y "JsonInt i"] json_type_of.simps)
        (intro dbl_trichotomy number_value_not_nan)
  next
    case False
    then have "type_rank (json_type_of y) \<noteq> 1" using type_rank_inj [of "json_type_of y" NUMBER] by auto
    with False type_less [of "JsonInt i" y] type_less [of y "JsonInt i"]
    show ?thesis by (simp add: exactly_one_def) linarith
  qed
next
  case (4 s t)
  show ?case by (simp add: less_trichotomy)
next
  fix y
  show "exactly_one (json_less JsonNull y) (json_eq JsonNull y) (json_less y JsonNull)"
    by (cases y) (simp_all add: exactly_one_def)
next
  case (8 vs)
  show ?case by (cases vs) (simp_all add: exactly_one_def)
next
  case (10 v vs w ws)
  then have "exactly_one (json_less v w) (json_eq v w) (json_less w v)"
    "exactly_one (json_less_list vs ws) (json_eq_list vs ws) (json_less_list ws vs)" by simp_all
  then show ?case by (simp add: lex_exactly_one)
next
  case (11 m)
  show ?case by (cases m) (simp_all add: exactly_one_def)
next
  case (13 k v m l w n)
  then have "exactly_one (json_less v w) (json_eq v w) (json_less w v)"
    "exactly_one (json_less_map m n) (json_eq_map m n) (json_less_map n m)" by simp_all
  with less_trichotomy [of k l] show ?case
    by (simp only: json_less_map.simps json_eq_map.simps lex_exactly_one flip: conj_assoc)
qed (auto simp: exactly_one_def)

end
