(* ===== verification/Json_Parse.thy ===== *)
theory Json_Parse
  imports Json_Value
begin

text \<open>
  The parser of json11: the \<open>JsonParser\<close> object as a record threaded through its member
  functions. \<open>str\<close> and \<open>strategy\<close> never change, so they are arguments. The recursion of
  \<open>parse_json\<close> and its two loops takes fuel; \<open>json_parse\<close> supplies an amount that the
  theory \<open>Json_Progress\<close> proves sufficient for every input.
\<close>

unbundle bit_operations_syntax

section \<open>State\<close>

datatype json_strategy = STANDARD | COMMENTS

record json_parser =
  jp_i :: nat
  jp_err :: string
  jp_failed :: bool

definition max_depth :: nat where
  "max_depth = 200"

text \<open>\<open>JsonParser::fail\<close>: only the first failure sets the message.\<close>

definition fail :: "string \<Rightarrow> json_parser \<Rightarrow> json_parser" where
  "fail msg p = (if jp_failed p then p else p\<lparr>jp_err := msg, jp_failed := True\<rparr>)"

text \<open>\<open>esc\<close>: a character for an error message.\<close>

definition esc :: "char \<Rightarrow> string" where
  "esc c =
     (if 0x20 \<le> (of_char c :: nat) \<and> (of_char c :: nat) \<le> 0x7f
      then CHR 0x27 # c # CHR 0x27 # '' ('' @ dec_int (char_signed c) @ '')''
      else ''('' @ dec_int (char_signed c) @ '')'')"

section \<open>White space and comments\<close>

definition is_white :: "char \<Rightarrow> bool" where
  "is_white c = (c = CHR '' '' \<or> c = CHR 0x0D \<or> c = CHR 0x0A \<or> c = CHR 0x09)"

function skip_white :: "string \<Rightarrow> nat \<Rightarrow> nat" where
  "skip_white str i = (if is_white (char_at str i) then skip_white str (Suc i) else i)"
  by pat_completeness auto
termination
proof (relation "measure (\<lambda>(str, i). length str - i)")
  show "is_white (char_at str i) \<Longrightarrow> ((str, Suc i), str, i) \<in> measure (\<lambda>(str, i). length str - i)"
    for str :: string and i
    using char_at_not_nul [of str i] by (auto simp: is_white_def)
qed simp

declare skip_white.simps [simp del]

definition consume_whitespace :: "string \<Rightarrow> json_parser \<Rightarrow> json_parser" where
  "consume_whitespace str p = p\<lparr>jp_i := skip_white str (jp_i p)\<rparr>"

text \<open>The end of an inline comment: the next newline or the end of the input.\<close>

function skip_line :: "string \<Rightarrow> nat \<Rightarrow> nat" where
  "skip_line str i = (if i < length str \<and> char_at str i \<noteq> CHR 0x0A then skip_line str (Suc i) else i)"
  by pat_completeness auto
termination by (relation "measure (\<lambda>(str, i). length str - i)") auto

declare skip_line.simps [simp del]

text \<open>
  The position of the closing \<open>*/\<close>, or None when the index passes \<open>size() - 2\<close>. (The caller
  has read two characters, so \<open>size() - 2\<close> does not wrap around.)
\<close>

function skip_block :: "string \<Rightarrow> nat \<Rightarrow> nat option" where
  "skip_block str i =
     (if char_at str i = CHR ''*'' \<and> char_at str (Suc i) = CHR ''/'' then Some i
      else if length str < Suc i + 2 then None
      else skip_block str (Suc i))"
  by pat_completeness auto
termination by (relation "measure (\<lambda>(str, i). length str - i)") auto

declare skip_block.simps [simp del]

text \<open>
  \<open>consume_comment\<close>: whether a comment was found. On a failure inside a block comment the
  index is where the scan gave up, \<open>size() - 1\<close>.
\<close>

definition consume_comment :: "string \<Rightarrow> json_parser \<Rightarrow> json_parser \<times> bool" where
  "consume_comment str p =
     (let i = jp_i p in
      if char_at str i \<noteq> CHR ''/'' then (p, False)
      else if Suc i = length str then
        (fail ''unexpected end of input after start of comment'' (p\<lparr>jp_i := Suc i\<rparr>), False)
      else if char_at str (Suc i) = CHR ''/'' then
        (p\<lparr>jp_i := skip_line str (Suc (Suc i))\<rparr>, True)
      else if char_at str (Suc i) = CHR ''*'' then
        (let j = Suc (Suc i) in
         if length str < j + 2 then
           (fail ''unexpected end of input inside multi-line comment'' (p\<lparr>jp_i := j\<rparr>), False)
         else case skip_block str j of
             None \<Rightarrow> (fail ''unexpected end of input inside multi-line comment''
                        (p\<lparr>jp_i := length str - 1\<rparr>), False)
           | Some k \<Rightarrow> (p\<lparr>jp_i := k + 2\<rparr>, True))
      else (fail ''malformed comment'' (p\<lparr>jp_i := Suc i\<rparr>), False))"

lemma skip_white_ge: "i \<le> skip_white str i"
proof (induction str i rule: skip_white.induct)
  case (1 str i)
  then show ?case by (subst skip_white.simps) auto
qed

lemma skip_line_ge: "i \<le> skip_line str i"
proof (induction str i rule: skip_line.induct)
  case (1 str i)
  then show ?case by (subst skip_line.simps) auto
qed

lemma skip_block_ge: "skip_block str i = Some k \<Longrightarrow> i \<le> k"
proof (induction str i rule: skip_block.induct)
  case (1 str i)
  then show ?case by (subst (asm) (2) skip_block.simps) (auto split: if_splits)
qed

lemma consume_comment_found:
  "consume_comment str p = (p', True) \<Longrightarrow> jp_i p < length str \<and> jp_i p + 2 \<le> jp_i p'"
  using char_at_not_nul [of str "jp_i p"] skip_line_ge [of "Suc (Suc (jp_i p))" str]
    skip_block_ge [of str "Suc (Suc (jp_i p))"]
  by (auto simp: consume_comment_def Let_def split: if_splits option.splits)

lemma comment_loop_decreases:
  "consume_comment str p = (p', True) \<Longrightarrow>
    length str - jp_i (consume_whitespace str p') < length str - jp_i p"
  using consume_comment_found [of str p p'] skip_white_ge [of "jp_i p'" str]
  by (auto simp: consume_whitespace_def)

text \<open>The \<open>do ... while (comment_found)\<close> of \<open>consume_garbage\<close>.\<close>

function comment_loop :: "string \<Rightarrow> json_parser \<Rightarrow> json_parser" where
  "comment_loop str p =
     (case consume_comment str p of (p', found) \<Rightarrow>
        if jp_failed p' then p'
        else if found then comment_loop str (consume_whitespace str p')
        else consume_whitespace str p')"
  by pat_completeness auto
termination
  by (relation "measure (\<lambda>(str, p). length str - jp_i p)") (auto dest: comment_loop_decreases sym)

declare comment_loop.simps [simp del]

definition consume_garbage :: "string \<Rightarrow> json_strategy \<Rightarrow> json_parser \<Rightarrow> json_parser" where
  "consume_garbage str strategy p =
     (let p1 = consume_whitespace str p
      in if strategy = COMMENTS then comment_loop str p1 else p1)"

section \<open>Tokens\<close>

definition get_next_token :: "string \<Rightarrow> json_strategy \<Rightarrow> json_parser \<Rightarrow> json_parser \<times> char" where
  "get_next_token str strategy p =
     (let p1 = consume_garbage str strategy p in
      if jp_failed p1 then (p1, CHR 0x00)
      else if jp_i p1 = length str then (fail ''unexpected end of input'' p1, CHR 0x00)
      else (p1\<lparr>jp_i := Suc (jp_i p1)\<rparr>, char_at str (jp_i p1)))"

text \<open>
  \<open>expect\<close>: the token is compared from its first character, which has been read already
  (the \<open>assert (i != 0)\<close> of the source).
\<close>

definition expect :: "string \<Rightarrow> string \<Rightarrow> json \<Rightarrow> json_parser \<Rightarrow> json_parser \<times> json" where
  "expect str expected res p =
     (let i = jp_i p - 1; got = take (length expected) (drop i str)
      in if got = expected then (p\<lparr>jp_i := i + length expected\<rparr>, res)
         else (fail (''parse error: expected '' @ expected @ '', got '' @ got) (p\<lparr>jp_i := i\<rparr>), JsonNull))"

section \<open>Strings\<close>

text \<open>\<open>static_cast<char>\<close> of a \<open>long\<close>.\<close>

definition char_of_long :: "int \<Rightarrow> char" where
  "char_of_long x = char_of (nat (x mod 256))"

definition encode_utf8 :: "int \<Rightarrow> string" where
  "encode_utf8 pt =
     (if pt < 0 then []
      else if pt < 0x80 then [char_of_long pt]
      else if pt < 0x800 then
        [char_of_long (drop_bit 6 pt OR 0xC0), char_of_long (pt AND 0x3F OR 0x80)]
      else if pt < 0x10000 then
        [char_of_long (drop_bit 12 pt OR 0xE0), char_of_long (drop_bit 6 pt AND 0x3F OR 0x80),
         char_of_long (pt AND 0x3F OR 0x80)]
      else
        [char_of_long (drop_bit 18 pt OR 0xF0), char_of_long (drop_bit 12 pt AND 0x3F OR 0x80),
         char_of_long (drop_bit 6 pt AND 0x3F OR 0x80), char_of_long (pt AND 0x3F OR 0x80)])"

text \<open>The one-letter escapes; None for a character that is no escape.\<close>

definition simple_escape :: "char \<Rightarrow> char option" where
  "simple_escape ch =
     (if ch = CHR ''b'' then Some (CHR 0x08)
      else if ch = CHR ''f'' then Some (CHR 0x0C)
      else if ch = CHR ''n'' then Some (CHR 0x0A)
      else if ch = CHR ''r'' then Some (CHR 0x0D)
      else if ch = CHR ''t'' then Some (CHR 0x09)
      else if ch = CHR 0x22 \<or> ch = CHR 0x5C \<or> ch = CHR ''/'' then Some ch
      else None)"

text \<open>
  After a \<open>\u\<close> escape with the given code point: what is written and the code point left
  pending. A trail surrogate after a pending lead surrogate completes the pair.
\<close>

definition unicode_escape :: "int \<Rightarrow> int \<Rightarrow> string \<times> int" where
  "unicode_escape pending codepoint =
     (if in_range pending 0xD800 0xDBFF \<and> in_range codepoint 0xDC00 0xDFFF
      then (encode_utf8 ((push_bit 10 (pending - 0xD800) OR (codepoint - 0xDC00)) + 0x10000), - 1)
      else (encode_utf8 pending, codepoint))"

text \<open>
  The loop of \<open>parse_string\<close>: the text so far and the code point of a pending escape
  (\<open>-1\<close> for none). (The source tests \<open>i == str.size()\<close>; the index never exceeds the size, so
  \<open>\<ge>\<close> is the same test.)
\<close>

function parse_string_loop :: "string \<Rightarrow> json_parser \<Rightarrow> string \<Rightarrow> int \<Rightarrow> json_parser \<times> string" where
  "parse_string_loop str p out pending =
     (if length str \<le> jp_i p then (fail ''unexpected end of input in string'' p, [])
      else let ch = char_at str (jp_i p); p1 = p\<lparr>jp_i := jp_i p + 1\<rparr> in
      if ch = CHR 0x22 then (p1, out @ encode_utf8 pending)
      else if in_range (char_signed ch) 0 0x1f then
        (fail (''unescaped '' @ esc ch @ '' in string'') p1, [])
      else if ch \<noteq> CHR 0x5C then parse_string_loop str p1 (out @ encode_utf8 pending @ [ch]) (- 1)
      else if length str \<le> jp_i p + 1 then (fail ''unexpected end of input in string'' p1, [])
      else let e = char_at str (jp_i p + 1); p2 = p\<lparr>jp_i := jp_i p + 2\<rparr> in
      if e = CHR ''u'' then
        (let h = take 4 (drop (jp_i p + 2) str) in
         if length h < 4 \<or> \<not> list_all is_hex h then
           (fail (''bad '' @ CHR 0x5C # ''u escape: '' @ h) p2, [])
         else case unicode_escape pending (int (hex_value h)) of (t, pending') \<Rightarrow>
           parse_string_loop str (p\<lparr>jp_i := jp_i p + 6\<rparr>) (out @ t) pending')
      else case simple_escape e of
          Some c \<Rightarrow> parse_string_loop str p2 (out @ encode_utf8 pending @ [c]) (- 1)
        | None \<Rightarrow> (fail (''invalid escape character '' @ esc e) p2, []))"
  by pat_completeness auto
termination by (relation "measure (\<lambda>(str, p, out, pending). length str - jp_i p)") (auto simp: Let_def)

declare parse_string_loop.simps [simp del]

text \<open>The branches of the loop, one by one.\<close>

lemma parse_string_loop_end:
  "length str \<le> jp_i p \<Longrightarrow>
     parse_string_loop str p out pending = (fail ''unexpected end of input in string'' p, [])"
  by (subst parse_string_loop.simps) simp

lemma parse_string_loop_quote:
  "jp_i p < length str \<Longrightarrow> char_at str (jp_i p) = CHR 0x22 \<Longrightarrow>
     parse_string_loop str p out pending = (p\<lparr>jp_i := jp_i p + 1\<rparr>, out @ encode_utf8 pending)"
  by (subst parse_string_loop.simps) simp

definition is_control :: "char \<Rightarrow> bool" where
  "is_control ch = in_range (char_signed ch) 0 0x1f"

lemma parse_string_loop_control:
  "jp_i p < length str \<Longrightarrow> ch = char_at str (jp_i p) \<Longrightarrow> ch \<noteq> CHR 0x22 \<Longrightarrow> is_control ch \<Longrightarrow>
     parse_string_loop str p out pending =
       (fail (''unescaped '' @ esc ch @ '' in string'') (p\<lparr>jp_i := jp_i p + 1\<rparr>), [])"
  by (subst parse_string_loop.simps) (simp add: is_control_def)

lemma parse_string_loop_plain:
  "jp_i p < length str \<Longrightarrow> ch = char_at str (jp_i p) \<Longrightarrow> ch \<noteq> CHR 0x22 \<Longrightarrow> \<not> is_control ch \<Longrightarrow>
     ch \<noteq> CHR 0x5C \<Longrightarrow>
     parse_string_loop str p out pending =
       parse_string_loop str (p\<lparr>jp_i := jp_i p + 1\<rparr>) (out @ encode_utf8 pending @ [ch]) (- 1)"
  by (subst parse_string_loop.simps) (simp add: is_control_def)

lemma backslash_not_control: "\<not> is_control (CHR 0x5C)"
  by (simp add: is_control_def in_range_def char_signed_def)

lemma parse_string_loop_escape_end:
  "jp_i p + 1 = length str \<Longrightarrow> char_at str (jp_i p) = CHR 0x5C \<Longrightarrow>
     parse_string_loop str p out pending =
       (fail ''unexpected end of input in string'' (p\<lparr>jp_i := jp_i p + 1\<rparr>), [])"
  by (subst parse_string_loop.simps) (simp add: backslash_not_control [unfolded is_control_def])

lemma parse_string_loop_bad_unicode:
  "jp_i p + 1 < length str \<Longrightarrow> char_at str (jp_i p) = CHR 0x5C \<Longrightarrow>
     char_at str (jp_i p + 1) = CHR ''u'' \<Longrightarrow> h = take 4 (drop (jp_i p + 2) str) \<Longrightarrow>
     length h < 4 \<or> \<not> list_all is_hex h \<Longrightarrow>
     parse_string_loop str p out pending =
       (fail (''bad '' @ CHR 0x5C # ''u escape: '' @ h) (p\<lparr>jp_i := jp_i p + 2\<rparr>), [])"
  by (subst parse_string_loop.simps) (simp add: backslash_not_control [unfolded is_control_def] Let_def)

lemma parse_string_loop_unicode:
  "jp_i p + 1 < length str \<Longrightarrow> char_at str (jp_i p) = CHR 0x5C \<Longrightarrow>
     char_at str (jp_i p + 1) = CHR ''u'' \<Longrightarrow> h = take 4 (drop (jp_i p + 2) str) \<Longrightarrow>
     length h = 4 \<Longrightarrow> list_all is_hex h \<Longrightarrow> unicode_escape pending (int (hex_value h)) = (t, pending') \<Longrightarrow>
     parse_string_loop str p out pending =
       parse_string_loop str (p\<lparr>jp_i := jp_i p + 6\<rparr>) (out @ t) pending'"
  by (subst parse_string_loop.simps)
     (simp add: backslash_not_control [unfolded is_control_def] Let_def del: length_take)

lemma parse_string_loop_simple:
  "jp_i p + 1 < length str \<Longrightarrow> char_at str (jp_i p) = CHR 0x5C \<Longrightarrow>
     e = char_at str (jp_i p + 1) \<Longrightarrow> simple_escape e = Some c \<Longrightarrow>
     parse_string_loop str p out pending =
       parse_string_loop str (p\<lparr>jp_i := jp_i p + 2\<rparr>) (out @ encode_utf8 pending @ [c]) (- 1)"
  by (subst parse_string_loop.simps)
     (auto simp: backslash_not_control [unfolded is_control_def] simple_escape_def split: if_splits)

lemma parse_string_loop_bad_escape:
  "jp_i p + 1 < length str \<Longrightarrow> char_at str (jp_i p) = CHR 0x5C \<Longrightarrow>
     e = char_at str (jp_i p + 1) \<Longrightarrow> e \<noteq> CHR ''u'' \<Longrightarrow> simple_escape e = None \<Longrightarrow>
     parse_string_loop str p out pending =
       (fail (''invalid escape character '' @ esc e) (p\<lparr>jp_i := jp_i p + 2\<rparr>), [])"
  by (subst parse_string_loop.simps) (simp add: backslash_not_control [unfolded is_control_def])

definition parse_string :: "string \<Rightarrow> json_parser \<Rightarrow> json_parser \<times> string" where
  "parse_string str p = parse_string_loop str p [] (- 1)"

section \<open>Numbers\<close>

function skip_digits :: "string \<Rightarrow> nat \<Rightarrow> nat" where
  "skip_digits str i = (if is_digit (char_at str i) then skip_digits str (Suc i) else i)"
  by pat_completeness auto
termination
proof (relation "measure (\<lambda>(str, i). length str - i)")
  show "is_digit (char_at str i) \<Longrightarrow> ((str, Suc i), str, i) \<in> measure (\<lambda>(str, i). length str - i)"
    for str :: string and i
    using char_at_not_nul [of str i] by (cases "i < length str") (auto simp: is_digit_iff char_at_beyond)
qed simp

declare skip_digits.simps [simp del]

text \<open>
  The fraction and the exponent, after the integer part: the index where the numeral ends,
  or the message of the failure and the index where it occurred.
\<close>

definition number_exponent :: "string \<Rightarrow> nat \<Rightarrow> (string \<times> nat) + nat" where
  "number_exponent str i =
     (if char_at str i \<noteq> CHR ''e'' \<and> char_at str i \<noteq> CHR ''E'' then Inr i
      else let j = (if char_at str (i + 1) = CHR ''+'' \<or> char_at str (i + 1) = CHR ''-'' then i + 2 else i + 1)
           in if \<not> is_digit (char_at str j) then Inl (''at least one digit required in exponent'', j)
              else Inr (skip_digits str j))"

definition number_fraction :: "string \<Rightarrow> nat \<Rightarrow> (string \<times> nat) + nat" where
  "number_fraction str i =
     (if char_at str i \<noteq> CHR ''.'' then number_exponent str i
      else if \<not> is_digit (char_at str (i + 1)) then
        Inl (''at least one digit required in fractional part'', i + 1)
      else number_exponent str (skip_digits str (i + 1)))"

definition number_integer :: "string \<Rightarrow> nat \<Rightarrow> (string \<times> nat) + nat" where
  "number_integer str i =
     (if char_at str i = CHR ''0'' then
        (if is_digit (char_at str (i + 1)) then Inl (''leading 0s not permitted in numbers'', i + 1)
         else Inr (i + 1))
      else if in_range (char_signed (char_at str i)) 49 57 then Inr (skip_digits str (i + 1))
      else Inl (''invalid '' @ esc (char_at str i) @ '' in number'', i))"

text \<open>\<open>numeric_limits<int>::digits10\<close>\<close>

definition int_digits10 :: nat where
  "int_digits10 = 9"

definition parse_number :: "string \<Rightarrow> json_parser \<Rightarrow> json_parser \<times> json" where
  "parse_number str p =
     (let start = jp_i p;
          i0 = (if char_at str start = CHR ''-'' then start + 1 else start)
      in case number_integer str i0 of
           Inl (msg, j) \<Rightarrow> (fail msg (p\<lparr>jp_i := j\<rparr>), JsonNull)
         | Inr i \<Rightarrow>
             if char_at str i \<notin> {CHR ''.'', CHR ''e'', CHR ''E''} \<and> i - start \<le> int_digits10
             then (p\<lparr>jp_i := i\<rparr>, JsonInt (atoi (drop start str)))
             else case number_fraction str i of
                 Inl (msg, j) \<Rightarrow> (fail msg (p\<lparr>jp_i := j\<rparr>), JsonNull)
               | Inr j \<Rightarrow>
                   (p\<lparr>jp_i := j\<rparr>,
                    JsonDouble (case strtod (drop start str) of None \<Rightarrow> dbl_of_int 0 | Some d \<Rightarrow> d)))"

section \<open>Values\<close>

function parse_json :: "nat \<Rightarrow> string \<Rightarrow> json_strategy \<Rightarrow> nat \<Rightarrow> json_parser \<Rightarrow> (json_parser \<times> json) option"
and object_loop :: "nat \<Rightarrow> string \<Rightarrow> json_strategy \<Rightarrow> nat \<Rightarrow> char \<Rightarrow> (string \<times> json) list \<Rightarrow>
    json_parser \<Rightarrow> (json_parser \<times> json) option"
and array_loop :: "nat \<Rightarrow> string \<Rightarrow> json_strategy \<Rightarrow> nat \<Rightarrow> json list \<Rightarrow>
    json_parser \<Rightarrow> (json_parser \<times> json) option" where
  "parse_json 0 str strategy depth p = None"
| "parse_json (Suc fuel) str strategy depth p =
     (if max_depth < depth then Some (fail ''exceeded maximum nesting depth'' p, JsonNull)
      else case get_next_token str strategy p of (p1, ch) \<Rightarrow>
        if jp_failed p1 then Some (p1, JsonNull)
        else if ch = CHR ''-'' \<or> is_digit ch then
          Some (parse_number str (p1\<lparr>jp_i := jp_i p1 - 1\<rparr>))
        else if ch = CHR ''t'' then Some (expect str ''true'' (JsonBoolean True) p1)
        else if ch = CHR ''f'' then Some (expect str ''false'' (JsonBoolean False) p1)
        else if ch = CHR ''n'' then Some (expect str ''null'' JsonNull p1)
        else if ch = CHR 0x22 then
          (case parse_string str p1 of (p2, s) \<Rightarrow> Some (p2, JsonString s))
        else if ch = CHR 0x7B then
          (case get_next_token str strategy p1 of (p2, ch2) \<Rightarrow>
             if ch2 = CHR 0x7D then Some (p2, JsonObject [])
             else object_loop fuel str strategy depth ch2 [] p2)
        else if ch = CHR ''['' then
          (case get_next_token str strategy p1 of (p2, ch2) \<Rightarrow>
             if ch2 = CHR '']'' then Some (p2, JsonArray [])
             else array_loop fuel str strategy depth [] p2)
        else Some (fail (''expected value, got '' @ esc ch) p1, JsonNull))"
| "object_loop 0 str strategy depth ch data p = None"
| "object_loop (Suc fuel) str strategy depth ch data p =
     (if ch \<noteq> CHR 0x22 then
        Some (fail (''expected '' @ [CHR 0x27, CHR 0x22, CHR 0x27] @ '' in object, got '' @ esc ch) p, JsonNull)
      else case parse_string str p of (p1, key) \<Rightarrow>
        if jp_failed p1 then Some (p1, JsonNull)
        else case get_next_token str strategy p1 of (p2, ch2) \<Rightarrow>
          if ch2 \<noteq> CHR '':'' then
            Some (fail (''expected '' @ [CHR 0x27, CHR '':'', CHR 0x27] @ '' in object, got '' @ esc ch2) p2, JsonNull)
          else case parse_json fuel str strategy (depth + 1) p2 of
              None \<Rightarrow> None
            | Some (p3, v) \<Rightarrow>
                let data' = map_put key v data in
                if jp_failed p3 then Some (p3, JsonNull)
                else case get_next_token str strategy p3 of (p4, ch4) \<Rightarrow>
                  if ch4 = CHR 0x7D then Some (p4, JsonObject data')
                  else if ch4 \<noteq> CHR '','' then
                    Some (fail (''expected '' @ [CHR 0x27, CHR '','', CHR 0x27] @ '' in object, got '' @ esc ch4) p4, JsonNull)
                  else case get_next_token str strategy p4 of (p5, ch5) \<Rightarrow>
                    object_loop fuel str strategy depth ch5 data' p5)"
| "array_loop 0 str strategy depth data p = None"
| "array_loop (Suc fuel) str strategy depth data p =
     (case parse_json fuel str strategy (depth + 1) (p\<lparr>jp_i := jp_i p - 1\<rparr>) of
        None \<Rightarrow> None
      | Some (p1, v) \<Rightarrow>
          let data' = data @ [v] in
          if jp_failed p1 then Some (p1, JsonNull)
          else case get_next_token str strategy p1 of (p2, ch) \<Rightarrow>
            if ch = CHR '']'' then Some (p2, JsonArray data')
            else if ch \<noteq> CHR '','' then
              Some (fail (''expected '' @ [CHR 0x27, CHR '','', CHR 0x27] @ '' in list, got '' @ esc ch) p2, JsonNull)
            else case get_next_token str strategy p2 of (p3, _) \<Rightarrow>
              array_loop fuel str strategy depth data' p3)"
  by pat_completeness
     (simp_all only: sum.inject sum.distinct prod.inject nat.inject nat.distinct simp_thms)
termination
  by (relation "measure (case_sum fst (case_sum fst fst))") simp_all

section \<open>Entry points\<close>

definition parse_fuel :: "string \<Rightarrow> nat" where
  "parse_fuel str = 2 * length str + 8"

text \<open>
  \<open>Json::parse\<close>: the value and the caller's error string after the call; \<open>err\<close> is that string
  before it. The branch for exhausted fuel is never taken.
\<close>

definition json_parse :: "string \<Rightarrow> string \<Rightarrow> json_strategy \<Rightarrow> json \<times> string" where
  "json_parse str err strategy =
     (case parse_json (parse_fuel str) str strategy 0 \<lparr>jp_i = 0, jp_err = err, jp_failed = False\<rparr> of
        None \<Rightarrow> (JsonNull, err)
      | Some (p, result) \<Rightarrow>
          let p1 = consume_garbage str strategy p in
          if jp_failed p1 then (JsonNull, jp_err p1)
          else if jp_i p1 \<noteq> length str then
            (JsonNull, jp_err (fail (''unexpected trailing '' @ esc (char_at str (jp_i p1))) p1))
          else (result, jp_err p1))"

text \<open>The overload for a C string: a null pointer is an error.\<close>

definition json_parse_cstr :: "string option \<Rightarrow> string \<Rightarrow> json_strategy \<Rightarrow> json \<times> string" where
  "json_parse_cstr str err strategy =
     (case str of Some s \<Rightarrow> json_parse s err strategy | None \<Rightarrow> (JsonNull, ''null input''))"

text \<open>
  \<open>Json::parse_multi\<close>: the values read, the final \<open>parser_stop_pos\<close> and the parser. A value
  whose parse failed is pushed before the loop is left, as in the source.
\<close>

fun multi_loop :: "nat \<Rightarrow> string \<Rightarrow> json_strategy \<Rightarrow> json list \<Rightarrow> nat \<Rightarrow> json_parser \<Rightarrow>
    (json list \<times> nat \<times> json_parser) option" where
  "multi_loop 0 str strategy vs stop p = None"
| "multi_loop (Suc fuel) str strategy vs stop p =
     (if jp_i p = length str \<or> jp_failed p then Some (vs, stop, p)
      else case parse_json (parse_fuel str) str strategy 0 p of
          None \<Rightarrow> None
        | Some (p1, v) \<Rightarrow>
            let vs' = vs @ [v] in
            if jp_failed p1 then Some (vs', stop, p1)
            else let p2 = consume_garbage str strategy p1 in
              if jp_failed p2 then Some (vs', stop, p2)
              else multi_loop fuel str strategy vs' (jp_i p2) p2)"

definition parse_multi :: "string \<Rightarrow> string \<Rightarrow> json_strategy \<Rightarrow> json list \<times> nat \<times> string" where
  "parse_multi str err strategy =
     (case multi_loop (length str + 2) str strategy [] 0 \<lparr>jp_i = 0, jp_err = err, jp_failed = False\<rparr> of
        None \<Rightarrow> ([], 0, err)
      | Some (vs, stop, p) \<Rightarrow> (vs, stop, jp_err p))"

end
