(* ===== verification/Json_Progress.thy ===== *)
theory Json_Progress
  imports Json_Parse
begin

text \<open>
  How the parser state moves: every member function keeps the index inside the text and never
  moves it back, keeps the first error message, and a value that was parsed has consumed at
  least one character. From this, the fuel that \<open>json_parse\<close> supplies is enough on every input.
\<close>


lemma fail_simps [simp]:
  "jp_i (fail msg p) = jp_i p" "jp_failed (fail msg p)"
  "jp_failed p \<Longrightarrow> fail msg p = p"
  by (simp_all add: fail_def)

definition jp_step :: "string \<Rightarrow> json_parser \<Rightarrow> json_parser \<Rightarrow> bool" where
  "jp_step str p p' =
     (jp_i p \<le> jp_i p' \<and> jp_i p' \<le> length str
      \<and> (jp_failed p \<longrightarrow> jp_failed p' \<and> jp_err p' = jp_err p)
      \<and> (\<not> jp_failed p' \<longrightarrow> jp_err p' = jp_err p))"

named_theorems parser_steps \<open>what each parser function does to the state\<close>

lemma jp_step_refl: "jp_i p \<le> length str \<Longrightarrow> jp_step str p p"
  by (simp add: jp_step_def)

lemma jp_step_trans: "jp_step str p q \<Longrightarrow> jp_step str q r \<Longrightarrow> jp_step str p r"
  unfolding jp_step_def by (intro conjI; (elim conjE; (simp | linarith))?) auto

lemma jp_step_fail: "jp_i p \<le> length str \<Longrightarrow> jp_step str p (fail msg p)"
  by (simp add: jp_step_def fail_def)

lemma jp_step_move: "jp_i p \<le> j \<Longrightarrow> j \<le> length str \<Longrightarrow> jp_step str p (p\<lparr>jp_i := j\<rparr>)"
  by (simp add: jp_step_def)

lemma jp_step_move_fail: "jp_i p \<le> j \<Longrightarrow> j \<le> length str \<Longrightarrow> jp_step str p (fail msg (p\<lparr>jp_i := j\<rparr>))"
  by (simp add: jp_step_def fail_def)

lemma jp_stepD:
  assumes "jp_step str p p'"
  shows "jp_i p \<le> jp_i p'" and "jp_i p' \<le> length str"
    and "jp_failed p \<Longrightarrow> jp_failed p'" and "\<not> jp_failed p' \<Longrightarrow> \<not> jp_failed p"
  using assms by (auto simp: jp_step_def)

lemma skip_white_le: "i \<le> length str \<Longrightarrow> skip_white str i \<le> length str"
proof (induction str i rule: skip_white.induct)
  case (1 str i)
  then show ?case
    using char_at_not_nul [of str i] by (subst skip_white.simps) (auto simp: is_white_def)
qed

lemma skip_line_le: "i \<le> length str \<Longrightarrow> skip_line str i \<le> length str"
proof (induction str i rule: skip_line.induct)
  case (1 str i)
  then show ?case by (subst skip_line.simps) auto
qed

lemma skip_digits_ge: "i \<le> skip_digits str i"
proof (induction str i rule: skip_digits.induct)
  case (1 str i)
  then show ?case by (subst skip_digits.simps) auto
qed

lemma digit_inside: "is_digit (char_at str i) \<Longrightarrow> i < length str"
  by (rule char_at_not_nul) (auto simp: is_digit_iff)

lemma skip_digits_le: "i \<le> length str \<Longrightarrow> skip_digits str i \<le> length str"
proof (induction str i rule: skip_digits.induct)
  case (1 str i)
  then show ?case
    using digit_inside [of str i] by (subst skip_digits.simps) auto
qed

lemma skip_block_le: "skip_block str i = Some k \<Longrightarrow> k + 2 \<le> length str"
proof (induction str i rule: skip_block.induct)
  case (1 str i)
  show ?case
  proof (cases "char_at str i = CHR ''*'' \<and> char_at str (Suc i) = CHR ''/''")
    case True
    then have "Suc i < length str" by (intro char_at_not_nul) simp
    with True "1.prems" show ?thesis by (subst (asm) skip_block.simps) auto
  next
    case False
    with "1.prems" have n: "\<not> length str < Suc i + 2" "skip_block str (Suc i) = Some k"
      by (subst (asm) skip_block.simps, auto split: if_splits)+
    from False n show ?thesis by (rule "1.IH")
  qed
qed

lemma consume_whitespace_step [parser_steps]:
  "jp_i p \<le> length str \<Longrightarrow> jp_step str p (consume_whitespace str p)"
  by (simp add: consume_whitespace_def jp_step_move skip_white_ge skip_white_le)

lemma consume_comment_step [parser_steps]:
  assumes "jp_i p \<le> length str" and "consume_comment str p = (p', b)"
  shows "jp_step str p p'"
proof -
  let ?i = "jp_i p"
  have "char_at str ?i = CHR ''/'' \<Longrightarrow> ?i < length str" by (rule char_at_not_nul) simp
  moreover have "char_at str (Suc ?i) \<in> {CHR ''/'', CHR ''*''} \<Longrightarrow> Suc ?i < length str"
    by (rule char_at_not_nul) auto
  ultimately show ?thesis
    using assms skip_line_ge [of "Suc (Suc ?i)" str] skip_line_le [of "Suc (Suc ?i)" str]
      skip_block_ge [of str "Suc (Suc ?i)"] skip_block_le [of str "Suc (Suc ?i)"]
    by (auto simp: consume_comment_def Let_def jp_step_refl jp_step_move jp_step_move_fail
        split: if_splits option.splits)
qed

lemma comment_loop_step [parser_steps]: "jp_i p \<le> length str \<Longrightarrow> jp_step str p (comment_loop str p)"
proof (induction str p rule: comment_loop.induct)
  case (1 str p)
  obtain p' b where c: "consume_comment str p = (p', b)" by (cases "consume_comment str p")
  have s1: "jp_step str p p'" using 1(2) c by (rule consume_comment_step)
  then have s2: "jp_step str p' (consume_whitespace str p')"
    by (intro consume_whitespace_step) (rule jp_stepD)
  show ?case
  proof (cases "jp_failed p' \<or> \<not> b")
    case True
    with c s1 jp_step_trans [OF s1 s2] show ?thesis by (subst comment_loop.simps) auto
  next
    case False
    with 1(1) [OF c [symmetric]] s2
    have "jp_step str (consume_whitespace str p') (comment_loop str (consume_whitespace str p'))"
      by (simp add: jp_stepD(2))
    with False c jp_step_trans [OF jp_step_trans [OF s1 s2]] show ?thesis
      by (subst comment_loop.simps) simp
  qed
qed

lemma consume_garbage_step [parser_steps]:
  "jp_i p \<le> length str \<Longrightarrow> jp_step str p (consume_garbage str strategy p)"
  unfolding consume_garbage_def Let_def
  using consume_whitespace_step [of p str] comment_loop_step [of "consume_whitespace str p" str]
  by (auto intro: jp_step_trans dest: jp_stepD(2))

text \<open>A token either is read, and the index has moved past it, or the parse has failed.\<close>

lemma get_next_token_step [parser_steps]:
  assumes "jp_i p \<le> length str" and "get_next_token str strategy p = (p', ch)"
  shows "jp_step str p p'" and "jp_failed p' \<or> (jp_i p < jp_i p' \<and> ch = char_at str (jp_i p' - 1))"
    and "jp_failed p' \<Longrightarrow> ch = CHR 0x00"
proof -
  let ?q = "consume_garbage str strategy p"
  have q: "jp_step str p ?q" using assms(1) by (rule consume_garbage_step)
  have "jp_step str ?q p'"
    using assms(2) jp_stepD(2) [OF q]
    by (auto simp: get_next_token_def Let_def jp_step_refl jp_step_move jp_step_fail split: if_splits)
  with q show "jp_step str p p'" by (rule jp_step_trans)
  show "jp_failed p' \<or> (jp_i p < jp_i p' \<and> ch = char_at str (jp_i p' - 1))"
    using assms(2) jp_stepD(1) [OF q] by (auto simp: get_next_token_def Let_def split: if_splits)
  show "jp_failed p' \<Longrightarrow> ch = CHR 0x00"
    using assms(2) by (auto simp: get_next_token_def Let_def split: if_splits)
qed


lemma jp_step_moved:
  "jp_step str (p\<lparr>jp_i := j\<rparr>) r \<Longrightarrow> jp_i p < j \<Longrightarrow> jp_step str p r \<and> jp_i p < jp_i r"
  by (simp add: jp_step_def)

lemma parse_string_loop_cases:
  assumes "jp_i p \<le> length str"
  obtains (finish) msg j where "jp_i p \<le> j" "j \<le> length str"
      "parse_string_loop str p out pending = (fail msg (p\<lparr>jp_i := j\<rparr>), [])"
    | (quote) "jp_i p < length str"
      "parse_string_loop str p out pending = (p\<lparr>jp_i := jp_i p + 1\<rparr>, out @ encode_utf8 pending)"
    | (go) j out' pending' where "jp_i p < j" "j \<le> length str"
      "parse_string_loop str p out pending = parse_string_loop str (p\<lparr>jp_i := j\<rparr>) out' pending'"
proof -
  let ?ch = "char_at str (jp_i p)" and ?e = "char_at str (jp_i p + 1)"
  let ?h = "take 4 (drop (jp_i p + 2) str)"
  consider "jp_i p = length str" | "jp_i p < length str" "?ch = CHR 0x22"
    | "jp_i p < length str" "?ch \<noteq> CHR 0x22" "is_control ?ch"
    | "jp_i p < length str" "?ch \<noteq> CHR 0x22" "\<not> is_control ?ch" "?ch \<noteq> CHR 0x5C"
    | "jp_i p + 1 = length str" "?ch = CHR 0x5C"
    | "jp_i p + 1 < length str" "?ch = CHR 0x5C" using assms by linarith
  then show thesis
  proof cases
    case 1
    then have "parse_string_loop str p out pending =
        (fail ''unexpected end of input in string'' (p\<lparr>jp_i := jp_i p\<rparr>), [])"
      by (cases p) (simp add: parse_string_loop_end)
    with assms show ?thesis by (intro finish [of "jp_i p"]) (rule order_refl)
  next
    case 2
    with quote parse_string_loop_quote show ?thesis by simp
  next
    case 3
    with finish [of "jp_i p + 1"] parse_string_loop_control [OF 3(1) refl] show ?thesis by simp
  next
    case 4
    with go [of "jp_i p + 1"] parse_string_loop_plain [OF 4(1) refl] show ?thesis by simp
  next
    case 5
    with finish [of "jp_i p + 1"] parse_string_loop_escape_end [OF 5] show ?thesis by simp
  next
    case 6
    show ?thesis
    proof (cases "?e = CHR ''u''")
      case True
      show ?thesis
      proof (cases "length ?h < 4 \<or> \<not> list_all is_hex ?h")
        case bad: True
        from 6 finish [of "jp_i p + 2"] parse_string_loop_bad_unicode [OF 6 True refl bad]
        show ?thesis by simp
      next
        case False
        then have h: "length ?h = 4" "list_all is_hex ?h" by auto
        then have "jp_i p + 6 \<le> length str" by simp
        moreover obtain t pending' where "unicode_escape pending (int (hex_value ?h)) = (t, pending')"
          by fastforce
        ultimately show ?thesis
          using go [of "jp_i p + 6"] parse_string_loop_unicode [OF 6 True refl h] by simp
      qed
    next
      case False
      show ?thesis
      proof (cases "simple_escape ?e")
        case None
        with 6 finish [of "jp_i p + 2"] parse_string_loop_bad_escape [OF 6 refl False None]
        show ?thesis by simp
      next
        case (Some c)
        with 6 go [of "jp_i p + 2"] parse_string_loop_simple [OF 6 refl Some] show ?thesis by simp
      qed
    qed
  qed
qed

lemma parse_string_loop_step:
  assumes "jp_i p \<le> length str"
  shows "jp_step str p (fst (parse_string_loop str p out pending)) \<and>
    (jp_failed (fst (parse_string_loop str p out pending)) \<or>
     jp_i p < jp_i (fst (parse_string_loop str p out pending)))"
  using assms
proof (induction "length str - jp_i p" arbitrary: p out pending rule: less_induct)
  case less
  from less.prems show ?case
  proof (cases rule: parse_string_loop_cases [where out = out and pending = pending])
    case (finish msg j)
    then show ?thesis by (simp add: jp_step_move_fail)
  next
    case quote
    then show ?thesis by (simp add: jp_step_move)
  next
    case (go j out' pending')
    with less.hyps [of "p\<lparr>jp_i := j\<rparr>" out' pending'] jp_step_moved [OF _ go(1)] show ?thesis
      by fastforce
  qed
qed

lemma parse_string_step [parser_steps]:
  assumes "jp_i p \<le> length str" and "parse_string str p = (p', s)"
  shows "jp_step str p p'" and "jp_failed p' \<or> jp_i p < jp_i p'"
  using parse_string_loop_step [OF assms(1), of "[]" "- 1"] assms(2) by (simp_all add: parse_string_def)

lemma number_exponent_step:
  assumes "i \<le> length str"
  shows "number_exponent str i = Inl (msg, j) \<Longrightarrow> i \<le> j \<and> j \<le> length str"
    and "number_exponent str i = Inr j \<Longrightarrow> i \<le> j \<and> j \<le> length str"
proof -
  have "char_at str i \<in> {CHR ''e'', CHR ''E''} \<Longrightarrow> i < length str"
    by (rule char_at_not_nul) auto
  moreover have "char_at str (i + 1) \<in> {CHR ''+'', CHR ''-''} \<Longrightarrow> i + 1 < length str"
    by (rule char_at_not_nul) auto
  ultimately show "number_exponent str i = Inl (msg, j) \<Longrightarrow> i \<le> j \<and> j \<le> length str"
    and "number_exponent str i = Inr j \<Longrightarrow> i \<le> j \<and> j \<le> length str"
    using assms skip_digits_ge [of "i + 1" str] skip_digits_ge [of "i + 2" str]
      skip_digits_le [of "i + 1" str] skip_digits_le [of "i + 2" str]
    by (auto simp: number_exponent_def Let_def split: if_splits)
qed

lemma number_fraction_step:
  assumes "i \<le> length str"
  shows "number_fraction str i = Inl (msg, j) \<Longrightarrow> i \<le> j \<and> j \<le> length str"
    and "number_fraction str i = Inr j \<Longrightarrow> i \<le> j \<and> j \<le> length str"
proof -
  define k where "k = skip_digits str (Suc i)"
  have k: "i < length str \<Longrightarrow> i + 1 \<le> k \<and> k \<le> length str"
    using skip_digits_ge [of "Suc i" str] skip_digits_le [of "Suc i" str] by (simp add: k_def)
  have dot: "char_at str i = CHR ''.'' \<Longrightarrow> i < length str" by (rule char_at_not_nul) simp
  show "i \<le> j \<and> j \<le> length str" if "number_fraction str i = Inl (msg, j)"
    using that dot k number_exponent_step(1) [OF assms, of msg j] number_exponent_step(1) [of k str msg j]
    by (simp add: number_fraction_def flip: k_def split: if_splits) linarith?
  show "i \<le> j \<and> j \<le> length str" if "number_fraction str i = Inr j"
    using that dot k number_exponent_step(2) [OF assms, of j] number_exponent_step(2) [of k str j]
    by (simp add: number_fraction_def flip: k_def split: if_splits) linarith?
qed

lemma number_integer_step:
  assumes "i \<le> length str"
  shows "number_integer str i = Inl (msg, j) \<Longrightarrow> i \<le> j \<and> j \<le> length str"
    and "number_integer str i = Inr j \<Longrightarrow> i < j \<and> j \<le> length str"
proof -
  have "char_at str i = CHR ''0'' \<or> in_range (char_signed (char_at str i)) 49 57 \<Longrightarrow> i + 1 \<le> length str"
    using digit_inside [of str i] by (fastforce simp: is_digit_def in_range_def char_signed_def)
  then show "number_integer str i = Inl (msg, j) \<Longrightarrow> i \<le> j \<and> j \<le> length str"
    and "number_integer str i = Inr j \<Longrightarrow> i < j \<and> j \<le> length str"
    using assms skip_digits_ge [of "i + 1" str] skip_digits_le [of "i + 1" str]
    by (auto simp: number_integer_def split: if_splits)
qed

lemma parse_number_step [parser_steps]:
  assumes "jp_i p \<le> length str" and "parse_number str p = (p', v)"
  shows "jp_step str p p'" and "jp_failed p' \<or> jp_i p < jp_i p'"
proof -
  define i0 where "i0 = (if char_at str (jp_i p) = CHR ''-'' then jp_i p + 1 else jp_i p)"
  have i0: "jp_i p \<le> i0" "i0 \<le> length str"
    using assms(1) char_at_not_nul [of str "jp_i p"] by (auto simp: i0_def)
  have "jp_step str p p' \<and> (jp_failed p' \<or> jp_i p < jp_i p')"
  proof (cases "number_integer str i0")
    case (Inl a)
    obtain msg j where a: "a = (msg, j)" by (cases a)
    with number_integer_step(1) [OF i0(2), of msg j] i0 Inl assms(2) show ?thesis
      by (auto simp: parse_number_def Let_def jp_step_move_fail simp flip: i0_def)
  next
    case (Inr i)
    note i = number_integer_step(2) [OF i0(2) Inr]
    show ?thesis
    proof (cases "number_fraction str i")
      case Inl': (Inl a)
      obtain msg j where a: "a = (msg, j)" by (cases a)
      with number_fraction_step(1) [of i str msg j] i i0 Inr Inl' assms(2) show ?thesis
        by (auto simp: parse_number_def Let_def jp_step_move_fail jp_step_move simp flip: i0_def
            split: if_splits)
    next
      case Inr': (Inr j)
      with number_fraction_step(2) [of i str j] i i0 Inr assms(2) show ?thesis
        by (auto simp: parse_number_def Let_def jp_step_move simp flip: i0_def split: if_splits)
    qed
  qed
  then show "jp_step str p p'" and "jp_failed p' \<or> jp_i p < jp_i p'" by simp_all
qed

text \<open>\<open>expect\<close> steps back over the token it was called after.\<close>

lemma expect_step [parser_steps]:
  assumes "jp_i p \<le> length str" and "0 < jp_i p" and "expected \<noteq> []"
    and "expect str expected res p = (p', v)"
  shows "jp_step str (p\<lparr>jp_i := jp_i p - 1\<rparr>) p'" and "jp_failed p' \<or> jp_i p \<le> jp_i p'"
proof -
  have "jp_i p - 1 + length expected \<le> length str"
    if "take (length expected) (drop (jp_i p - 1) str) = expected"
  proof -
    from that have "length (take (length expected) (drop (jp_i p - 1) str)) = length expected" by simp
    then show ?thesis using assms(1-3) by (cases expected) (auto simp: min_def split: if_splits)
  qed
  with assms show "jp_step str (p\<lparr>jp_i := jp_i p - 1\<rparr>) p'" and "jp_failed p' \<or> jp_i p \<le> jp_i p'"
    by (cases expected; auto simp: expect_def Let_def jp_step_def fail_def split: if_splits)+
qed


text \<open>
  What \<open>parse_json\<close> and its loops do, whatever the fuel, when they return: the parser has
  stepped, and unless it failed it has consumed at least one character.
\<close>

lemma token_moved:
  assumes "jp_i p \<le> length str" and "get_next_token str strategy p = (p', ch)" and "ch \<noteq> CHR 0x00"
  shows "jp_step str p p'" and "jp_i p < jp_i p'" and "\<not> jp_failed p'" and "jp_i p' \<le> length str"
  using get_next_token_step [OF assms(1,2)] assms(3) jp_stepD(2) by blast+

text \<open>The ways a call of \<open>parse_json\<close> or of a loop can return.\<close>

lemma parse_json_cases [consumes 1]:
  assumes "parse_json (Suc fuel) str strategy depth p = Some (p', v)"
  obtains (too_deep) msg where "max_depth < depth" "p' = fail msg p" "v = JsonNull"
    | (no_token) ch where "depth \<le> max_depth" "get_next_token str strategy p = (p', ch)" "jp_failed p'" "v = JsonNull"
    | (number) p1 ch where "depth \<le> max_depth" "get_next_token str strategy p = (p1, ch)" "\<not> jp_failed p1"
        "parse_number str (p1\<lparr>jp_i := jp_i p1 - 1\<rparr>) = (p', v)"
    | (literal) p1 ch expected res where "depth \<le> max_depth" "get_next_token str strategy p = (p1, ch)" "\<not> jp_failed p1"
        "expected \<noteq> []" "res \<in> {JsonNull, JsonBoolean True, JsonBoolean False}" "expect str expected res p1 = (p', v)"
    | (string) p1 ch s where "depth \<le> max_depth" "get_next_token str strategy p = (p1, ch)" "\<not> jp_failed p1"
        "parse_string str p1 = (p', s)" "v = JsonString s"
    | (empty) p1 ch ch2 where "depth \<le> max_depth" "get_next_token str strategy p = (p1, ch)" "\<not> jp_failed p1"
        "get_next_token str strategy p1 = (p', ch2)" "v \<in> {JsonObject [], JsonArray []}"
    | (object) p1 ch p2 ch2 where "depth \<le> max_depth" "get_next_token str strategy p = (p1, ch)" "\<not> jp_failed p1"
        "get_next_token str strategy p1 = (p2, ch2)" "object_loop fuel str strategy depth ch2 [] p2 = Some (p', v)"
    | (array) p1 ch p2 ch2 where "depth \<le> max_depth" "get_next_token str strategy p = (p1, ch)" "\<not> jp_failed p1"
        "get_next_token str strategy p1 = (p2, ch2)" "array_loop fuel str strategy depth [] p2 = Some (p', v)"
    | (no_value) p1 ch msg where "depth \<le> max_depth" "get_next_token str strategy p = (p1, ch)" "\<not> jp_failed p1"
        "p' = fail msg p1" "v = JsonNull"
proof (cases "max_depth < depth")
  case True
  with assms too_deep [of "''exceeded maximum nesting depth''"] show ?thesis by simp
next
  case False
  obtain p1 ch where t: "get_next_token str strategy p = (p1, ch)" by fastforce
  obtain p2 ch2 where t2: "get_next_token str strategy p1 = (p2, ch2)" by fastforce
  show ?thesis
  proof (cases "jp_failed p1")
    case True
    with False t assms no_token show ?thesis by simp
  next
    case ok: False
    note use = number [OF _ t ok] literal [OF _ t ok] string [OF _ t ok]
      object [OF _ t ok t2] array [OF _ t ok t2] no_value [OF _ t ok]
    have d: "depth \<le> max_depth" using False by simp
    note goals = use [OF d]
    show ?thesis
      using assms False t t2 ok goals(1,3,4,5,6) goals(2) [of "''true''" "JsonBoolean True"]
        goals(2) [of "''false''" "JsonBoolean False"] goals(2) [of "''null''" JsonNull] empty [OF d t ok]
      by (auto split: if_splits prod.splits)
  qed
qed


lemma object_loop_cases [consumes 1]:
  assumes "object_loop (Suc fuel) str strategy depth ch data p = Some (p', v)"
  obtains (no_key) msg where "p' = fail msg p" "v = JsonNull"
    | (bad_key) key where "parse_string str p = (p', key)" "jp_failed p'" "v = JsonNull"
    | (no_colon) p1 key p2 ch2 msg where "parse_string str p = (p1, key)" "\<not> jp_failed p1"
        "get_next_token str strategy p1 = (p2, ch2)" "p' = fail msg p2" "v = JsonNull"
    | (bad_value) p1 key p2 w where "parse_string str p = (p1, key)" "\<not> jp_failed p1"
        "get_next_token str strategy p1 = (p2, CHR '':'')"
        "parse_json fuel str strategy (depth + 1) p2 = Some (p', w)" "jp_failed p'" "v = JsonNull"
    | (closed) p1 key p2 p3 w where "parse_string str p = (p1, key)" "\<not> jp_failed p1"
        "get_next_token str strategy p1 = (p2, CHR '':'')"
        "parse_json fuel str strategy (depth + 1) p2 = Some (p3, w)" "\<not> jp_failed p3"
        "get_next_token str strategy p3 = (p', CHR 0x7D)" "v = JsonObject (map_put key w data)"
    | (no_comma) p1 key p2 p3 w p4 ch4 msg where "parse_string str p = (p1, key)" "\<not> jp_failed p1"
        "get_next_token str strategy p1 = (p2, CHR '':'')"
        "parse_json fuel str strategy (depth + 1) p2 = Some (p3, w)" "\<not> jp_failed p3"
        "get_next_token str strategy p3 = (p4, ch4)" "p' = fail msg p4" "v = JsonNull"
    | (again) p1 key p2 p3 w p4 p5 ch5 where "parse_string str p = (p1, key)" "\<not> jp_failed p1"
        "get_next_token str strategy p1 = (p2, CHR '':'')"
        "parse_json fuel str strategy (depth + 1) p2 = Some (p3, w)" "\<not> jp_failed p3"
        "get_next_token str strategy p3 = (p4, CHR '','')" "get_next_token str strategy p4 = (p5, ch5)"
        "object_loop fuel str strategy depth ch5 (map_put key w data) p5 = Some (p', v)"
proof -
  obtain p1 key where s: "parse_string str p = (p1, key)" by fastforce
  obtain p2 ch2 where t: "get_next_token str strategy p1 = (p2, ch2)" by fastforce
  show ?thesis
  proof (cases "ch \<noteq> CHR 0x22 \<or> jp_failed p1 \<or> ch2 \<noteq> CHR '':''")
    case True
    with assms s t no_key bad_key no_colon show ?thesis
      by (cases "ch \<noteq> CHR 0x22"; cases "jp_failed p1") auto
  next
    case False
    then have ok: "\<not> jp_failed p1" and t': "get_next_token str strategy p1 = (p2, CHR '':'')" using t by simp_all
    from assms s t False obtain p3 w where j: "parse_json fuel str strategy (depth + 1) p2 = Some (p3, w)"
      by (auto split: option.splits)
    obtain p4 ch4 where t4: "get_next_token str strategy p3 = (p4, ch4)" by fastforce
    obtain p5 ch5 where t5: "get_next_token str strategy p4 = (p5, ch5)" by fastforce
    show ?thesis
    proof (cases "jp_failed p3")
      case True
      with assms s t' j False bad_value [OF s ok t'] show ?thesis by (auto simp: Let_def)
    next
      case ok3: False
      with assms s t' j t4 t5 False closed [OF s ok t' j ok3] no_comma [OF s ok t' j ok3 t4]
        again [OF s ok t' j ok3 _ t5] show ?thesis by (auto simp: Let_def split: if_splits)
    qed
  qed
qed

lemma array_loop_cases [consumes 1]:
  assumes "array_loop (Suc fuel) str strategy depth data p = Some (p', v)"
  obtains (bad_value) w where
        "parse_json fuel str strategy (depth + 1) (p\<lparr>jp_i := jp_i p - 1\<rparr>) = Some (p', w)" "jp_failed p'" "v = JsonNull"
    | (closed) p1 w where
        "parse_json fuel str strategy (depth + 1) (p\<lparr>jp_i := jp_i p - 1\<rparr>) = Some (p1, w)" "\<not> jp_failed p1"
        "get_next_token str strategy p1 = (p', CHR '']'')" "v = JsonArray (data @ [w])"
    | (no_comma) p1 w p2 ch msg where
        "parse_json fuel str strategy (depth + 1) (p\<lparr>jp_i := jp_i p - 1\<rparr>) = Some (p1, w)" "\<not> jp_failed p1"
        "get_next_token str strategy p1 = (p2, ch)" "p' = fail msg p2" "v = JsonNull"
    | (again) p1 w p2 p3 ch where
        "parse_json fuel str strategy (depth + 1) (p\<lparr>jp_i := jp_i p - 1\<rparr>) = Some (p1, w)" "\<not> jp_failed p1"
        "get_next_token str strategy p1 = (p2, CHR '','')" "get_next_token str strategy p2 = (p3, ch)"
        "array_loop fuel str strategy depth (data @ [w]) p3 = Some (p', v)"
proof -
  from assms obtain p1 w where
    j: "parse_json fuel str strategy (depth + 1) (p\<lparr>jp_i := jp_i p - 1\<rparr>) = Some (p1, w)"
    by (auto split: option.splits)
  obtain p2 ch where t: "get_next_token str strategy p1 = (p2, ch)" by fastforce
  obtain p3 ch3 where t3: "get_next_token str strategy p2 = (p3, ch3)" by fastforce
  show ?thesis
  proof (cases "jp_failed p1")
    case True
    with assms j bad_value show ?thesis by (auto simp: Let_def)
  next
    case ok: False
    with assms j t t3 closed [OF j ok] no_comma [OF j ok t] again [OF j ok _ t3] show ?thesis
      by (auto simp: Let_def split: if_splits)
  qed
qed


lemma token_read:
  assumes "get_next_token str strategy p = (p1, ch)" and "\<not> jp_failed p1" and "jp_i p \<le> length str"
  shows "jp_step str p p1" and "jp_i p < jp_i p1" and "jp_i p1 \<le> length str"
    and "jp_step str p (p1\<lparr>jp_i := jp_i p1 - 1\<rparr>)"
proof -
  note s = get_next_token_step [OF assms(3,1)]
  show s1: "jp_step str p p1" by (rule s(1))
  show lt: "jp_i p < jp_i p1" using s(2) assms(2) by blast
  show "jp_i p1 \<le> length str" using s1 by (rule jp_stepD)
  with s1 lt show "jp_step str p (p1\<lparr>jp_i := jp_i p1 - 1\<rparr>)" by (auto simp: jp_step_def)
qed

lemma token_any:
  assumes "get_next_token str strategy p = (p1, ch)" and "jp_i p \<le> length str"
  shows "jp_step str p p1" and "jp_i p1 \<le> length str" and "ch \<noteq> CHR 0x00 \<Longrightarrow> \<not> jp_failed p1"
proof -
  show s: "jp_step str p p1" using assms(2,1) by (rule get_next_token_step)
  then show "jp_i p1 \<le> length str" by (rule jp_stepD)
  show "ch \<noteq> CHR 0x00 \<Longrightarrow> \<not> jp_failed p1" using get_next_token_step(3) [OF assms(2,1)] by blast
qed

definition jp_progress :: "string \<Rightarrow> json_parser \<Rightarrow> json_parser \<Rightarrow> bool" where
  "jp_progress str p p' = (jp_step str p p' \<and> (jp_failed p' \<or> jp_i p < jp_i p'))"

lemma jp_progress_failed: "jp_step str p p' \<Longrightarrow> jp_failed p' \<Longrightarrow> jp_progress str p p'"
  by (simp add: jp_progress_def)

lemma jp_progressD: "jp_progress str p p' \<Longrightarrow> jp_step str p p'"
  by (simp add: jp_progress_def)

lemma jp_progress_step: "jp_progress str p q \<Longrightarrow> jp_step str q r \<Longrightarrow> jp_progress str p r"
  unfolding jp_progress_def by (auto intro: jp_step_trans simp: jp_step_def)

lemma jp_step_progress: "jp_step str p q \<Longrightarrow> jp_progress str q r \<Longrightarrow> jp_progress str p r"
  unfolding jp_progress_def by (auto intro: jp_step_trans simp: jp_step_def)

lemma token_progress:
  "get_next_token str strategy p = (p1, ch) \<Longrightarrow> jp_i p \<le> length str \<Longrightarrow> jp_progress str p p1"
  using get_next_token_step(1,2) [of p str strategy p1 ch] by (auto simp: jp_progress_def)

lemma parse_string_progress:
  "parse_string str p = (p1, s) \<Longrightarrow> jp_i p \<le> length str \<Longrightarrow> jp_progress str p p1"
  using parse_string_step [of p str p1 s] by (auto simp: jp_progress_def)

lemma parse_number_progress:
  "parse_number str p = (p1, v) \<Longrightarrow> jp_i p \<le> length str \<Longrightarrow> jp_progress str p p1"
  using parse_number_step [of p str p1 v] by (auto simp: jp_progress_def)

lemma jp_progress_fail: "jp_step str p q \<Longrightarrow> jp_progress str p (fail msg q)"
  by (auto simp: jp_progress_def jp_step_def fail_def)

text \<open>
  For the array loop, the state the progress starts from is the one with the token given
  back.
\<close>

abbreviation unread :: "json_parser \<Rightarrow> json_parser" where
  "unread p \<equiv> p\<lparr>jp_i := jp_i p - 1\<rparr>"

lemma jp_progress_le: "jp_progress str p q \<Longrightarrow> jp_i q \<le> length str"
  by (simp add: jp_progress_def jp_step_def)

lemma jp_progress_trans: "jp_progress str p q \<Longrightarrow> jp_progress str q r \<Longrightarrow> jp_progress str p r"
  by (blast intro: jp_step_progress jp_progressD)

lemma member_progress:
  assumes "parse_string str p = (p1, key)" and "get_next_token str strategy p1 = (p2, ch)"
    and "jp_i p \<le> length str"
  shows "jp_progress str p p2"
proof -
  have s: "jp_progress str p p1" using assms(1,3) by (rule parse_string_progress)
  have "jp_progress str p1 p2" using assms(2) jp_progress_le [OF s] by (rule token_progress)
  with s show ?thesis by (rule jp_progress_trans)
qed

lemma parse_step_all:
  shows "parse_json fuel str strategy depth p = Some (p', v) \<Longrightarrow> jp_i p \<le> length str \<Longrightarrow>
      jp_progress str p p'"
    and "object_loop fuel str strategy depth ch data p = Some (p', v) \<Longrightarrow> jp_i p \<le> length str \<Longrightarrow>
      jp_progress str p p'"
    and "array_loop fuel str strategy depth vs p = Some (p', v) \<Longrightarrow> jp_i p \<le> length str \<Longrightarrow>
      jp_progress str (unread p) p'"
proof (induction fuel arbitrary: depth p p' v ch data vs)
  case (Suc fuel)
  {
    case 1
    note le = "1.prems"(2)
    from "1.prems"(1) show ?case
    proof (cases rule: parse_json_cases)
      case (too_deep msg)
      with le show ?thesis by (simp add: jp_progress_fail jp_step_refl)
    next
      case (no_token ch)
      with le show ?thesis by (simp add: jp_progress_failed token_any(1))
    next
      case (number p1 ch)
      note t = token_read [OF number(2,3) le]
      show ?thesis using t(4) parse_number_progress [OF number(4)] t(3) by (simp add: jp_step_progress)
    next
      case (literal p1 ch expected res)
      note t = token_read [OF literal(2,3) le]
      then have "jp_progress str (unread p1) p'"
        using expect_step [OF t(3) _ literal(4,6)] by (auto simp: jp_progress_def)
      with t(4) show ?thesis by (rule jp_step_progress)
    next
      case (string p1 ch s)
      note t = token_read [OF string(2,3) le]
      show ?thesis using t(1) parse_string_progress [OF string(4) t(3)] by (rule jp_step_progress)
    next
      case (empty p1 ch ch2)
      note t = token_read [OF empty(2,3) le]
      show ?thesis using t(1) token_progress [OF empty(4) t(3)] by (rule jp_step_progress)
    next
      case (object p1 ch p2 ch2)
      note t = token_read [OF object(2,3) le] and t2 = token_any [OF object(4)]
      from Suc.IH(2) [OF object(5)] t2(2) t(3) have "jp_progress str p2 p'" by simp
      with t2(1) [OF t(3)] have "jp_progress str p1 p'" by (rule jp_step_progress)
      with t(1) show ?thesis by (rule jp_step_progress)
    next
      case (array p1 ch p2 ch2)
      note t = token_read [OF array(2,3) le] and t2 = token_progress [OF array(4)]
      have le2: "jp_i p2 \<le> length str" using t2 [OF t(3)] by (auto simp: jp_progress_def jp_step_def)
      have "jp_step str p (unread p2)"
        using t t2 [OF t(3)] by (auto simp: jp_progress_def jp_step_def)
      moreover have "jp_progress str (unread p2) p'" using Suc.IH(3) [OF array(5) le2] .
      ultimately show ?thesis by (rule jp_step_progress)
    next
      case (no_value p1 ch msg)
      with token_read(1) [OF no_value(2,3) le] show ?thesis by (simp add: jp_progress_fail)
    qed
  next
    case 2
    note le = "2.prems"(2)
    from "2.prems"(1) show ?case
    proof (cases rule: object_loop_cases)
      case (no_key msg)
      with le show ?thesis by (simp add: jp_progress_fail jp_step_refl)
    next
      case (bad_key key)
      with le show ?thesis by (simp add: parse_string_progress)
    next
      case (no_colon p1 key p2 ch2 msg)
      with member_progress [OF no_colon(1,3) le] show ?thesis
        by (simp add: jp_progress_fail jp_progressD)
    next
      case (bad_value p1 key p2 w)
      note m = member_progress [OF bad_value(1,3) le]
      show ?thesis using m Suc.IH(1) [OF bad_value(4) jp_progress_le [OF m]] by (rule jp_progress_trans)
    next
      case (closed p1 key p2 p3 w)
      note m = member_progress [OF closed(1,3) le]
      have v: "jp_progress str p p3"
        using m Suc.IH(1) [OF closed(4) jp_progress_le [OF m]] by (rule jp_progress_trans)
      show ?thesis using v token_progress [OF closed(6) jp_progress_le [OF v]] by (rule jp_progress_trans)
    next
      case (no_comma p1 key p2 p3 w p4 ch4 msg)
      note m = member_progress [OF no_comma(1,3) le]
      have v: "jp_progress str p p3"
        using m Suc.IH(1) [OF no_comma(4) jp_progress_le [OF m]] by (rule jp_progress_trans)
      have "jp_progress str p p4"
        using v token_progress [OF no_comma(6) jp_progress_le [OF v]] by (rule jp_progress_trans)
      then show ?thesis unfolding no_comma(7) by (intro jp_progress_fail jp_progressD)
    next
      case (again p1 key p2 p3 w p4 p5 ch5)
      note m = member_progress [OF again(1,3) le]
      have v: "jp_progress str p p3"
        using m Suc.IH(1) [OF again(4) jp_progress_le [OF m]] by (rule jp_progress_trans)
      have c: "jp_progress str p p4"
        using v token_progress [OF again(6) jp_progress_le [OF v]] by (rule jp_progress_trans)
      have n: "jp_progress str p p5"
        using c token_progress [OF again(7) jp_progress_le [OF c]] by (rule jp_progress_trans)
      show ?thesis using n Suc.IH(2) [OF again(8) jp_progress_le [OF n]] by (rule jp_progress_trans)
    qed
  next
    case 3
    then have le: "jp_i (unread p) \<le> length str" by simp
    from "3.prems"(1) show ?case
    proof (cases rule: array_loop_cases)
      case (bad_value w)
      show ?thesis using Suc.IH(1) [OF bad_value(1) le] .
    next
      case (closed p1 w)
      note v = Suc.IH(1) [OF closed(1) le]
      show ?thesis using v token_progress [OF closed(3) jp_progress_le [OF v]] by (rule jp_progress_trans)
    next
      case (no_comma p1 w p2 ch msg)
      note v = Suc.IH(1) [OF no_comma(1) le]
      have "jp_progress str (unread p) p2"
        using v token_progress [OF no_comma(3) jp_progress_le [OF v]] by (rule jp_progress_trans)
      then show ?thesis unfolding no_comma(4) by (intro jp_progress_fail jp_progressD)
    next
      case (again p1 w p2 p3 ch)
      note v = Suc.IH(1) [OF again(1) le]
      have c: "jp_progress str (unread p) p2"
        using v token_progress [OF again(3) jp_progress_le [OF v]] by (rule jp_progress_trans)
      note t3 = token_progress [OF again(4) jp_progress_le [OF c]]
      have n: "jp_step str (unread p) (unread p3)"
        using c t3 token_any(3) [OF again(3) jp_progress_le [OF v]]
        by (auto simp: jp_progress_def jp_step_def)
      show ?thesis
        using n Suc.IH(3) [OF again(5) jp_progress_le [OF t3]] by (rule jp_step_progress)
    qed
  }
qed simp_all


section \<open>The fuel suffices\<close>

definition json_need :: "string \<Rightarrow> json_parser \<Rightarrow> nat" where
  "json_need str p = (if jp_failed p then 1 else 2 * (length str - jp_i p) + 2)"

definition object_need :: "string \<Rightarrow> json_parser \<Rightarrow> nat" where
  "object_need str p = (if jp_failed p then 1 else 2 * (length str - jp_i p) + 2)"

definition array_need :: "string \<Rightarrow> json_parser \<Rightarrow> nat" where
  "array_need str p = (if jp_failed p then 2 else 2 * (length str - jp_i p) + 5)"

lemma jp_progress_measure:
  "jp_progress str p q \<Longrightarrow> \<not> jp_failed q \<Longrightarrow> \<not> jp_failed p \<and> length str - jp_i q < length str - jp_i p"
  by (auto simp: jp_progress_def jp_step_def)

lemma parse_fuel_all:
  shows "json_need str p \<le> fuel \<Longrightarrow> jp_i p \<le> length str \<Longrightarrow>
      parse_json fuel str strategy depth p \<noteq> None"
    and "object_need str p \<le> fuel \<Longrightarrow> jp_i p \<le> length str \<Longrightarrow> (jp_failed p \<longrightarrow> ch = CHR 0x00) \<Longrightarrow>
      object_loop fuel str strategy depth ch data p \<noteq> None"
    and "array_need str p \<le> fuel \<Longrightarrow> jp_i p \<le> length str \<Longrightarrow> 0 < jp_i p \<Longrightarrow>
      array_loop fuel str strategy depth vs p \<noteq> None"
proof (induction fuel arbitrary: depth p ch data vs)
  case 0
  { case 1 then show ?case by (simp add: json_need_def split: if_splits) }
  { case 2 then show ?case by (simp add: object_need_def split: if_splits) }
  { case 3 then show ?case by (simp add: array_need_def split: if_splits) }
next
  case (Suc fuel)
  {
    case 1
    note le = "1.prems"(2)
    obtain p1 ch where t: "get_next_token str strategy p = (p1, ch)" by fastforce
    obtain p2 ch2 where t2: "get_next_token str strategy p1 = (p2, ch2)" by fastforce
    note pr = token_progress [OF t le]
    note pr2 = token_progress [OF t2 jp_progress_le [OF pr]]
    show ?case
    proof (cases "max_depth < depth \<or> jp_failed p1")
      case True
      with t show ?thesis by auto
    next
      case False
      then have ok: "\<not> jp_failed p1" by simp
      note m = jp_progress_measure [OF pr ok]
      have fuel: "2 * (length str - jp_i p1) + 3 \<le> fuel" using "1.prems"(1) m by (simp add: json_need_def)
      have "object_need str p2 \<le> fuel"
        using fuel jp_progress_measure [OF pr2] by (auto simp: object_need_def)
      moreover have "jp_failed p2 \<longrightarrow> ch2 = CHR 0x00"
        using get_next_token_step(3) [OF jp_progress_le [OF pr] t2] by blast
      ultimately have o: "object_loop fuel str strategy depth ch2 [] p2 \<noteq> None"
        using jp_progress_le [OF pr2] by (intro Suc.IH(2))
      have "array_need str p2 \<le> fuel"
        using fuel jp_progress_measure [OF pr2] by (auto simp: array_need_def)
      moreover have "0 < jp_i p2" using pr pr2 ok by (auto simp: jp_progress_def jp_step_def)
      ultimately have a: "array_loop fuel str strategy depth [] p2 \<noteq> None"
        using jp_progress_le [OF pr2] by (intro Suc.IH(3))
      from False t t2 o a show ?thesis by (simp split: prod.splits)
    qed
  next
    case 2
    note le = "2.prems"(2)
    obtain p1 key where s: "parse_string str p = (p1, key)" by fastforce
    obtain p2 ch2 where t: "get_next_token str strategy p1 = (p2, ch2)" by fastforce
    note pr = member_progress [OF s t le]
    show ?case
    proof (cases "ch \<noteq> CHR 0x22 \<or> jp_failed p1 \<or> ch2 \<noteq> CHR '':''")
      case True
      with s t show ?thesis by auto
    next
      case False
      then have ok2: "\<not> jp_failed p2"
        using token_any(3) [OF t jp_progress_le [OF parse_string_progress [OF s le]]] by auto
      note m = jp_progress_measure [OF pr ok2]
      have fuel: "2 * (length str - jp_i p2) + 3 \<le> fuel" using "2.prems"(1) m by (simp add: object_need_def)
      then have "json_need str p2 \<le> fuel" using ok2 by (simp add: json_need_def)
      then have "parse_json fuel str strategy (depth + 1) p2 \<noteq> None"
        using jp_progress_le [OF pr] by (rule Suc.IH(1))
      then obtain p3 w where j: "parse_json fuel str strategy (depth + 1) p2 = Some (p3, w)" by auto
      note pr3 = parse_step_all(1) [OF j jp_progress_le [OF pr]]
      obtain p4 ch4 where t4: "get_next_token str strategy p3 = (p4, ch4)" by fastforce
      obtain p5 ch5 where t5: "get_next_token str strategy p4 = (p5, ch5)" by fastforce
      note pr4 = jp_progress_trans [OF pr3 token_progress [OF t4 jp_progress_le [OF pr3]]]
      note pr5 = jp_progress_trans [OF pr4 token_progress [OF t5 jp_progress_le [OF pr4]]]
      have "object_need str p5 \<le> fuel"
        using fuel jp_progress_measure [OF pr5] by (auto simp: object_need_def)
      moreover have "jp_failed p5 \<longrightarrow> ch5 = CHR 0x00"
        using get_next_token_step(3) [OF jp_progress_le [OF pr4] t5] by blast
      ultimately have "object_loop fuel str strategy depth ch5 (map_put key w data) p5 \<noteq> None"
        using jp_progress_le [OF pr5] by (intro Suc.IH(2))
      with False s t j t4 t5 show ?thesis by (simp add: Let_def)
    qed
  next
    case 3
    then have le: "jp_i (unread p) \<le> length str" by simp
    have "json_need str (unread p) \<le> fuel"
      using "3.prems" by (auto simp: json_need_def array_need_def)
    then have "parse_json fuel str strategy (depth + 1) (unread p) \<noteq> None"
      using le by (rule Suc.IH(1))
    then obtain p1 w where j: "parse_json fuel str strategy (depth + 1) (unread p) = Some (p1, w)" by auto
    note pr = parse_step_all(1) [OF j le]
    obtain p2 ch2 where t2: "get_next_token str strategy p1 = (p2, ch2)" by fastforce
    obtain p3 ch3 where t3: "get_next_token str strategy p2 = (p3, ch3)" by fastforce
    note tp2 = token_progress [OF t2 jp_progress_le [OF pr]]
    note tp3 = token_progress [OF t3 jp_progress_le [OF tp2]]
    show ?case
    proof (cases "jp_failed p1 \<or> ch2 \<noteq> CHR '',''")
      case True
      with j t2 show ?thesis by (auto simp: Let_def)
    next
      case False
      then have ok: "\<not> jp_failed p1" "\<not> jp_failed p2"
        using token_any(3) [OF t2 jp_progress_le [OF pr]] by auto
      note m = jp_progress_measure [OF pr ok(1)] jp_progress_measure [OF tp2 ok(2)]
      have "array_need str p3 \<le> fuel"
        using "3.prems" m jp_progress_measure [OF tp3] by (auto simp: array_need_def)
      moreover have "0 < jp_i p3" using tp2 tp3 ok by (auto simp: jp_progress_def jp_step_def)
      ultimately have "array_loop fuel str strategy depth (vs @ [w]) p3 \<noteq> None"
        using jp_progress_le [OF tp3] by (intro Suc.IH(3))
      with False j t2 t3 show ?thesis by (simp add: Let_def)
    qed
  }
qed

end
