(* ===== verification/Json_Parse_Props.thy ===== *)
theory Json_Parse_Props
  imports Json_Progress
begin

text \<open>
  What the parser returns: integers of at most nine digits, values that satisfy \<open>json_ok\<close>
  (keys sorted and unique, integers within \<open>int\<close>), and a nesting within \<open>max_depth\<close>; the
  entry point is total and yields null whenever it reports an error.
\<close>

section \<open>Numbers\<close>

lemma dec_value_bound: "list_all is_digit ds \<Longrightarrow> dec_value ds < 10 ^ length ds"
proof (induction ds rule: rev_induct)
  case (snoc d ds)
  then have "dec_value ds < 10 ^ length ds" "digit_val d \<le> 9"
    by (auto simp: is_digit_iff digit_val_def)
  then show ?case by simp
qed simp

lemma skip_digits_eq: "skip_digits str i = i + length (takeWhile is_digit (drop i str))"
proof (induction str i rule: skip_digits.induct)
  case (1 str i)
  show ?case
  proof (cases "is_digit (char_at str i)")
    case True
    then have "drop i str = char_at str i # drop (Suc i) str"
      using Cons_nth_drop_Suc [OF digit_inside [OF True]] char_at_nth [OF digit_inside [OF True]] by metis
    with True 1 show ?thesis by (subst skip_digits.simps) simp
  next
    case False
    then have "takeWhile is_digit (drop i str) = []"
      by (cases "drop i str") (auto simp: char_at_def nth_via_drop split: if_splits)
    with False show ?thesis by (subst skip_digits.simps) simp
  qed
qed

lemma takeWhile_drop_digit:
  "is_digit (char_at str i) \<Longrightarrow>
     takeWhile is_digit (drop i str) = char_at str i # takeWhile is_digit (drop (Suc i) str)"
  using digit_inside [of str i] Cons_nth_drop_Suc [of i str] char_at_nth [of i str]
  by (metis takeWhile.simps(2))

lemma number_integer_digits:
  assumes "number_integer str i = Inr j"
  shows "length (takeWhile is_digit (drop i str)) = j - i" and "is_digit (char_at str i)" and "i < j"
proof -
  have "is_digit (char_at str i) \<and> j = i + 1 + length (takeWhile is_digit (drop (Suc i) str))"
  proof (cases "char_at str i = CHR ''0''")
    case True
    then have "is_digit (char_at str i)" by (simp add: is_digit_iff)
    moreover have "skip_digits str (i + 1) = i + 1"
      using assms True by (subst skip_digits.simps) (auto simp: number_integer_def split: if_splits)
    ultimately show ?thesis
      using assms True skip_digits_eq [of str "i + 1"] by (auto simp: number_integer_def split: if_splits)
  next
    case False
    with assms have "in_range (char_signed (char_at str i)) 49 57" "j = skip_digits str (i + 1)"
      by (auto simp: number_integer_def split: if_splits)
    then show ?thesis by (simp add: skip_digits_eq is_digit_def in_range_def)
  qed
  then show "length (takeWhile is_digit (drop i str)) = j - i" "is_digit (char_at str i)" "i < j"
    by (simp_all add: takeWhile_drop_digit)
qed

lemma drop_char_at: "char_at str i \<noteq> CHR 0x00 \<Longrightarrow> drop i str = char_at str i # drop (Suc i) str"
  by (metis Cons_nth_drop_Suc char_at_not_nul char_at_nth)

text \<open>A numeral that the parser hands to \<open>atoi\<close> has at most nine digits.\<close>

lemma parse_number_int_range:
  assumes "parse_number str p = (p', JsonInt n)"
  shows "\<bar>n\<bar> < 10 ^ 9"
proof -
  define i0 where "i0 = (if char_at str (jp_i p) = CHR ''-'' then jp_i p + 1 else jp_i p)"
  from assms obtain i where i: "number_integer str i0 = Inr i" "i - jp_i p \<le> 9"
    "n = atoi (drop (jp_i p) str)"
    by (auto simp: parse_number_def Let_def int_digits10_def simp flip: i0_def split: sum.splits if_splits)
  let ?ds = "takeWhile is_digit (drop i0 str)"
  note d = number_integer_digits [OF i(1)]
  have "list_all is_digit ?ds" by (auto simp: list_all_iff dest: set_takeWhileD)
  then have "dec_value ?ds < 10 ^ length ?ds" by (rule dec_value_bound)
  moreover have "length ?ds \<le> 9" using d(1,3) i(2) by (auto simp: i0_def split: if_splits)
  then have "(10::nat) ^ length ?ds \<le> 10 ^ 9" by (rule power_increasing) simp
  ultimately have b: "dec_value ?ds < 10 ^ 9" by linarith
  have "drop i0 str = char_at str i0 # drop (Suc i0) str" using d(2) by (intro drop_char_at) auto
  then have "n = int (dec_value ?ds) \<or> n = - int (dec_value ?ds)"
  proof (cases "char_at str (jp_i p) = CHR ''-''")
    case True
    then have "drop (jp_i p) str = CHR ''-'' # drop i0 str" by (simp add: i0_def drop_char_at)
    with d(2) \<open>drop i0 str = _\<close> show ?thesis
      by (simp add: i(3) atoi_def strtol10_def is_space_def Let_def takeWhile_drop_digit)
  next
    case False
    then have "drop (jp_i p) str = char_at str i0 # drop (Suc i0) str"
      using \<open>drop i0 str = _\<close> by (simp add: i0_def)
    with d(2) digit_not_space [OF d(2)] digit_not_sign [OF d(2)] False show ?thesis
      by (simp add: i(3) atoi_def strtol10_def Let_def takeWhile_drop_digit i0_def)
  qed
  with b show ?thesis by auto
qed

lemma strtod_ok: "strtod s = Some d \<Longrightarrow> dbl_ok d"
  by (auto simp: strtod_def strtod_unsigned_def dbl_of_binary_def dbl_of_decimal_def Let_def dbl_of_ratio_ok
      split: if_splits prod.splits)

lemma dbl_of_int_ok: "dbl_ok (dbl_of_int i)"
  by (simp add: dbl_of_int_def dbl_of_ratio_ok)

lemma parse_number_ok: "parse_number str p = (p', v) \<Longrightarrow> json_ok v \<and> json_depth v = 0"
  using parse_number_int_range [of str p p']
  by (cases v) (auto simp: parse_number_def Let_def is_int_def int_min_def int_max_def dbl_of_int_ok strtod_ok
      split: sum.splits if_splits option.splits prod.splits)

lemma fold_max_le: "fold max (xs :: nat list) a \<le> k \<longleftrightarrow> a \<le> k \<and> (\<forall>x \<in> set xs. x \<le> k)"
  by (induction xs arbitrary: a) auto

lemma fold_max_ge: "a \<le> fold max (xs :: nat list) a"
  using fold_max_le [of xs a "fold max xs a"] by simp

lemma json_depth_container: "1 \<le> json_depth (JsonArray vs)" "1 \<le> json_depth (JsonObject m)"
  using fold_max_ge [of 1] by simp_all

lemma json_depth_array: "json_depth (JsonArray vs) \<le> Suc k \<longleftrightarrow> (\<forall>v \<in> set vs. json_depth v \<le> k)"
  by (auto simp: fold_max_le)

lemma json_depth_object: "json_depth (JsonObject m) \<le> Suc k \<longleftrightarrow> (\<forall>v \<in> snd ` set m. json_depth v \<le> k)"
  by (auto simp: fold_max_le)

declare json_depth.simps(1,2) [simp del]

lemma snd_map_put: "snd ` set (map_put k v m) \<subseteq> insert v (snd ` set m)"
  by (induction k v m rule: map_put.induct) auto

text \<open>
  Every value the parser returns is well formed, and nested no deeper than the limit allows
  from the depth at which it was read.
\<close>

definition fits :: "nat \<Rightarrow> json \<Rightarrow> bool" where
  "fits depth v = (json_ok v \<and> json_depth v + depth \<le> max_depth + 1)"

lemma fits_scalar [simp]:
  "fits depth JsonNull \<longleftrightarrow> depth \<le> max_depth + 1"
  "fits depth (JsonString s) \<longleftrightarrow> depth \<le> max_depth + 1"
  "fits depth (JsonBoolean b) \<longleftrightarrow> depth \<le> max_depth + 1"
  by (simp_all add: fits_def)

lemma fits_array:
  "fits depth (JsonArray vs) \<longleftrightarrow> depth \<le> max_depth \<and> (\<forall>v \<in> set vs. fits (depth + 1) v)"
proof (cases "depth \<le> max_depth")
  case True
  have "json_depth (JsonArray vs) + depth \<le> max_depth + 1 \<longleftrightarrow> json_depth (JsonArray vs) \<le> Suc (max_depth - depth)"
    using True by linarith
  also have "\<dots> \<longleftrightarrow> (\<forall>v \<in> set vs. json_depth v + (depth + 1) \<le> max_depth + 1)"
    using True by (auto simp: json_depth_array)
  finally show ?thesis using True by (auto simp: fits_def list_all_iff)
next
  case False
  with json_depth_container(1) [of vs] show ?thesis by (simp add: fits_def)
qed

lemma fits_object:
  "fits depth (JsonObject m) \<longleftrightarrow>
     depth \<le> max_depth \<and> map_sorted m \<and> (\<forall>v \<in> snd ` set m. fits (depth + 1) v)"
proof (cases "depth \<le> max_depth")
  case True
  have "json_depth (JsonObject m) + depth \<le> max_depth + 1 \<longleftrightarrow> json_depth (JsonObject m) \<le> Suc (max_depth - depth)"
    using True by linarith
  also have "\<dots> \<longleftrightarrow> (\<forall>v \<in> snd ` set m. json_depth v + (depth + 1) \<le> max_depth + 1)"
    using True by (auto simp: json_depth_object)
  finally show ?thesis using True by (auto simp: fits_def list_all_iff)
next
  case False
  with json_depth_container(2) [of m] show ?thesis by (simp add: fits_def)
qed

lemma fits_number: "parse_number str p = (p', v) \<Longrightarrow> depth \<le> max_depth \<Longrightarrow> fits depth v"
  using parse_number_ok [of str p p' v] by (simp add: fits_def)

lemma fits_expect:
  "expect str expected res p = (p', v) \<Longrightarrow> res \<in> {JsonNull, JsonBoolean True, JsonBoolean False} \<Longrightarrow>
     depth \<le> max_depth \<Longrightarrow> fits depth v"
  by (auto simp: expect_def Let_def split: if_splits)

lemma fits_put:
  "\<forall>v \<in> snd ` set m. fits d v \<Longrightarrow> fits d w \<Longrightarrow> \<forall>v \<in> snd ` set (map_put k w m). fits d v"
  using snd_map_put [of k w m] by blast

lemma parse_fits_all:
  shows "parse_json fuel str strategy depth p = Some (p', v) \<Longrightarrow> depth \<le> max_depth + 1 \<Longrightarrow> fits depth v"
    and "object_loop fuel str strategy depth ch data p = Some (p', v) \<Longrightarrow> depth \<le> max_depth \<Longrightarrow>
      map_sorted data \<and> (\<forall>v \<in> snd ` set data. fits (depth + 1) v) \<Longrightarrow> fits depth v"
    and "array_loop fuel str strategy depth vs p = Some (p', v) \<Longrightarrow> depth \<le> max_depth \<Longrightarrow>
      \<forall>v \<in> set vs. fits (depth + 1) v \<Longrightarrow> fits depth v"
proof (induction fuel arbitrary: depth p p' v ch data vs)
  case (Suc fuel)
  {
    case 1
    from "1.prems"(1) show ?case
    proof (cases rule: parse_json_cases)
      case (object p1 ch p2 ch2)
      show ?thesis using Suc.IH(2) [OF object(5)] object(1) by (simp add: map_sorted_def)
    next
      case (array p1 ch p2 ch2)
      show ?thesis using Suc.IH(3) [OF array(5)] array(1) by simp
    next
      case (empty p1 ch ch2)
      then show ?thesis by (auto simp: fits_array fits_object map_sorted_def)
    qed (use "1.prems"(2) in \<open>auto simp: fits_number fits_expect\<close>)
  next
    case 2
    from "2.prems"(1) show ?case
    proof (cases rule: object_loop_cases)
      case (closed p1 key p2 p3 w)
      have "fits (depth + 1) w" using Suc.IH(1) [OF closed(4)] "2.prems"(2) by simp
      with "2.prems"(2,3) closed(7) fits_put [of data "depth + 1" w key] show ?thesis
        by (simp add: fits_object map_sorted_put)
    next
      case (again p1 key p2 p3 w p4 p5 ch5)
      have "fits (depth + 1) w" using Suc.IH(1) [OF again(4)] "2.prems"(2) by simp
      with "2.prems"(2,3) Suc.IH(2) [OF again(8)] fits_put [of data "depth + 1" w key] show ?thesis
        by (simp add: map_sorted_put)
    qed (use "2.prems"(2) in simp_all)
  next
    case 3
    from "3.prems"(1) show ?case
    proof (cases rule: array_loop_cases)
      case (closed p1 w)
      have "fits (depth + 1) w" using Suc.IH(1) [OF closed(1)] "3.prems"(2) by simp
      with "3.prems"(2,3) closed(4) show ?thesis by (auto simp: fits_array)
    next
      case (again p1 w p2 p3 ch)
      have "fits (depth + 1) w" using Suc.IH(1) [OF again(1)] "3.prems"(2) by simp
      with "3.prems"(2,3) Suc.IH(3) [OF again(5)] show ?thesis by auto
    qed (use "3.prems"(2) in simp_all)
  }
qed simp_all

section \<open>Entry point\<close>

lemma parse_json_total:
  assumes "jp_i p \<le> length str"
  shows "\<exists>p' v. parse_json (parse_fuel str) str strategy depth p = Some (p', v)"
proof -
  have "json_need str p \<le> parse_fuel str" by (auto simp: json_need_def parse_fuel_def)
  then have "parse_json (parse_fuel str) str strategy depth p \<noteq> None"
    using assms by (rule parse_fuel_all(1))
  then show ?thesis by auto
qed

text \<open>The state after the value and the trailing white space have been read.\<close>

lemma json_parse_run:
  obtains p v where
    "parse_json (parse_fuel str) str strategy 0 \<lparr>jp_i = 0, jp_err = err, jp_failed = False\<rparr> = Some (p, v)"
    "jp_progress str \<lparr>jp_i = 0, jp_err = err, jp_failed = False\<rparr> p"
    "jp_step str p (consume_garbage str strategy p)"
    "fits 0 v"
proof -
  let ?p0 = "\<lparr>jp_i = 0, jp_err = err, jp_failed = False\<rparr>"
  obtain p v where r: "parse_json (parse_fuel str) str strategy 0 ?p0 = Some (p, v)"
    using parse_json_total [of ?p0 str strategy 0] by auto
  have g: "jp_progress str ?p0 p" using r by (rule parse_step_all(1)) simp
  then have "jp_step str p (consume_garbage str strategy p)"
    by (intro consume_garbage_step) (rule jp_progress_le)
  with that r g parse_fits_all(1) [OF r] show thesis by simp
qed

lemma json_parse_value_fits: "fits 0 (fst (json_parse str err strategy))"
  by (rule json_parse_run [of str strategy err]) (auto simp: json_parse_def Let_def)

lemma json_parse_error_null:
  assumes "snd (json_parse str err strategy) \<noteq> err"
  shows "fst (json_parse str err strategy) = JsonNull"
proof (rule json_parse_run [of str strategy err])
  fix p v
  assume r: "parse_json (parse_fuel str) str strategy 0 \<lparr>jp_i = 0, jp_err = err, jp_failed = False\<rparr> = Some (p, v)"
    and g: "jp_progress str \<lparr>jp_i = 0, jp_err = err, jp_failed = False\<rparr> p"
    and s: "jp_step str p (consume_garbage str strategy p)"
  show ?thesis
    using assms r g s by (auto simp: json_parse_def Let_def jp_progress_def jp_step_def split: if_splits)
qed

end
