(* ===== verification/Json_Dump.thy ===== *)
theory Json_Dump
  imports Json_Value
begin

text \<open>
  Serialization (\<open>dump\<close> of json11) and shape checking. Each overload of the C++ \<open>dump\<close>
  appends to \<open>out\<close>; here it is the text it appends.
\<close>

section \<open>Strings\<close>

definition hex_digit :: "nat \<Rightarrow> char" where
  "hex_digit n = (if n < 10 then char_of (48 + n) else char_of (87 + n))"

text \<open>\<open>%04x\<close> of a value below \<open>2^16\<close>.\<close>

definition hex4 :: "nat \<Rightarrow> string" where
  "hex4 n = [hex_digit (n div 4096 mod 16), hex_digit (n div 256 mod 16),
             hex_digit (n div 16 mod 16), hex_digit (n mod 16)]"

text \<open>
  The loop over the bytes of a string. The three-byte forms of U+2028 and U+2029 are
  written as escapes; \<open>value[i+1]\<close> past the last byte reads the terminating NUL.
\<close>

fun dump_chars :: "string \<Rightarrow> string" where
  "dump_chars [] = []"
| "dump_chars (ch # s) =
     (if ch = CHR 0x5C then CHR 0x5C # CHR 0x5C # dump_chars s
      else if ch = CHR 0x22 then CHR 0x5C # CHR 0x22 # dump_chars s
      else if ch = CHR 0x08 then CHR 0x5C # CHR ''b'' # dump_chars s
      else if ch = CHR 0x0C then CHR 0x5C # CHR ''f'' # dump_chars s
      else if ch = CHR 0x0A then CHR 0x5C # CHR ''n'' # dump_chars s
      else if ch = CHR 0x0D then CHR 0x5C # CHR ''r'' # dump_chars s
      else if ch = CHR 0x09 then CHR 0x5C # CHR ''t'' # dump_chars s
      else if (of_char ch :: nat) \<le> 0x1f then CHR 0x5C # CHR ''u'' # hex4 (of_char ch) @ dump_chars s
      else if ch = CHR 0xE2 \<and> char_at s 0 = CHR 0x80 \<and> char_at s 1 = CHR 0xA8
        then CHR 0x5C # ''u2028'' @ dump_chars (drop 2 s)
      else if ch = CHR 0xE2 \<and> char_at s 0 = CHR 0x80 \<and> char_at s 1 = CHR 0xA9
        then CHR 0x5C # ''u2029'' @ dump_chars (drop 2 s)
      else ch # dump_chars s)"

definition dump_string :: "string \<Rightarrow> string" where
  "dump_string s = CHR 0x22 # dump_chars s @ [CHR 0x22]"

section \<open>Values\<close>

definition dump_double :: "double \<Rightarrow> string" where
  "dump_double d = (if is_finite d then print_g17 d else ''null'')"

text \<open>The loops over a vector and a map, with their \<open>first\<close> flag.\<close>

fun dump :: "json \<Rightarrow> string"
and dump_values :: "bool \<Rightarrow> json list \<Rightarrow> string"
and dump_members :: "bool \<Rightarrow> (string \<times> json) list \<Rightarrow> string" where
  "dump JsonNull = ''null''"
| "dump (JsonDouble d) = dump_double d"
| "dump (JsonInt i) = dec_int i"
| "dump (JsonBoolean b) = (if b then ''true'' else ''false'')"
| "dump (JsonString s) = dump_string s"
| "dump (JsonArray vs) = ''['' @ dump_values True vs @ '']''"
| "dump (JsonObject kvs) = CHR 0x7B # dump_members True kvs @ [CHR 0x7D]"
| "dump_values first [] = []"
| "dump_values first (v # vs) = (if first then [] else '', '') @ dump v @ dump_values False vs"
| "dump_members first [] = []"
| "dump_members first ((k, v) # m) =
     (if first then [] else '', '') @ dump_string k @ '': '' @ dump v @ dump_members False m"

section \<open>Shape checking\<close>

text \<open>\<open>Json::has_shape\<close>: the verdict and the error message, as the caller's \<open>err\<close> is left.\<close>

fun shape_loop :: "json \<Rightarrow> (string \<times> json_type) list \<Rightarrow> string \<Rightarrow> bool \<times> string" where
  "shape_loop j [] err = (True, err)"
| "shape_loop j ((k, t) # types) err =
     (if json_type_of (at_key j k) \<noteq> t then (False, ''bad type for '' @ k @ '' in '' @ dump j)
      else shape_loop j types err)"

definition has_shape :: "json \<Rightarrow> (string \<times> json_type) list \<Rightarrow> string \<Rightarrow> bool \<times> string" where
  "has_shape j types err =
     (if json_type_of j \<noteq> OBJECT then (False, ''expected JSON object, got '' @ dump j)
      else shape_loop j types err)"

lemma shape_loop_iff: "fst (shape_loop j types err) \<longleftrightarrow> (\<forall>(k, t) \<in> set types. json_type_of (at_key j k) = t)"
  by (induction j types err rule: shape_loop.induct) (auto split: if_splits)

lemma has_shape_iff:
  "fst (has_shape j types err) \<longleftrightarrow>
     json_type_of j = OBJECT \<and> (\<forall>(k, t) \<in> set types. json_type_of (at_key j k) = t)"
  by (simp add: has_shape_def shape_loop_iff)

end
