(* ===== verification/Json_Roundtrip.thy ===== *)
theory Json_Roundtrip
  imports Json_Parse_Props Json_Dump
begin

text \<open>
  Printing and parsing. \<open>at_text str i t\<close> says what the parser at index \<open>i\<close> has ahead of it;
  the lemmas follow the parser over the text \<open>dump\<close> writes for a string, a number, an array
  and an object, for any text behind it, up to the round trip of a whole value.
\<close>

section \<open>The text ahead of the parser\<close>

definition at_text :: "string \<Rightarrow> nat \<Rightarrow> string \<Rightarrow> bool" where
  "at_text str i t = (i \<le> length str \<and> drop i str = t)"

lemma at_text_Cons:
  assumes "at_text str i (c # t)"
  shows "char_at str i = c" and "i < length str" and "at_text str (Suc i) t"
proof -
  from assms have "length str - i = length (c # t)" by (metis at_text_def length_drop)
  then show "i < length str" by simp
  with assms show "char_at str i = c" "at_text str (Suc i) t"
    using Cons_nth_drop_Suc [of i str] by (auto simp: at_text_def char_at_nth)
qed

lemma at_text_append: "at_text str i (s @ t) \<Longrightarrow> at_text str (i + length s) t"
proof (induction s arbitrary: i)
  case (Cons c s)
  then show ?case using at_text_Cons(3) [of str i c "s @ t"] by fastforce
qed simp

lemma at_text_length: "at_text str i t \<Longrightarrow> length t = length str - i"
  by (auto simp: at_text_def)

lemma skip_white_at:
  "at_text str i (ws @ c # t) \<Longrightarrow> list_all is_white ws \<Longrightarrow> \<not> is_white c \<Longrightarrow> skip_white str i = i + length ws"
proof (induction ws arbitrary: i)
  case Nil
  then show ?case using at_text_Cons(1) [of str i c t] by (subst skip_white.simps) simp
next
  case (Cons w ws)
  note a = at_text_Cons [OF Cons.prems(1) [simplified]]
  have "skip_white str (Suc i) = Suc i + length ws"
    using Cons.IH [OF a(3)] Cons.prems by simp
  with a(1) Cons.prems(2) show ?case by (subst skip_white.simps) simp
qed

definition token_char :: "char \<Rightarrow> bool" where
  "token_char c = (\<not> is_white c \<and> c \<noteq> CHR ''/'')"

lemma consume_garbage_at:
  assumes "at_text str (jp_i p) (ws @ c # t)" and "list_all is_white ws" and "token_char c" and "\<not> jp_failed p"
  shows "consume_garbage str strategy p = p\<lparr>jp_i := jp_i p + length ws\<rparr>"
proof -
  let ?q = "p\<lparr>jp_i := jp_i p + length ws\<rparr>"
  have w: "consume_whitespace str p = ?q"
    using skip_white_at [OF assms(1,2)] assms(3) by (simp add: consume_whitespace_def token_char_def)
  note a = at_text_append [OF assms(1)]
  have "skip_white str (jp_i ?q) = jp_i ?q"
    using skip_white_at [of str "jp_i ?q" "[]" c t] a assms(3) by (simp add: token_char_def)
  moreover have "char_at str (jp_i ?q) \<noteq> CHR ''/''"
    using at_text_Cons(1) [OF a] assms(3) by (simp add: token_char_def)
  ultimately have "comment_loop str ?q = ?q"
    using assms(4) by (subst comment_loop.simps) (simp add: consume_comment_def consume_whitespace_def)
  with w show ?thesis by (simp add: consume_garbage_def Let_def)
qed

lemma token_at:
  assumes "at_text str (jp_i p) (ws @ c # t)" and "list_all is_white ws" and "token_char c" and "\<not> jp_failed p"
  shows "get_next_token str strategy p = (p\<lparr>jp_i := jp_i p + length ws + 1\<rparr>, c)"
  using consume_garbage_at [OF assms] at_text_Cons [OF at_text_append [OF assms(1)]] assms(4)
  by (simp add: get_next_token_def)

section \<open>Strings\<close>

lemma char_of_long_nat: "n < 256 \<Longrightarrow> char_of_long (int n) = char_of n"
  by (simp add: char_of_long_def nat_mod_distrib)

lemma encode_utf8_ascii: "n < 0x80 \<Longrightarrow> encode_utf8 (int n) = [char_of n]"
  by (simp add: encode_utf8_def char_of_long_nat)

lemma encode_utf8_none [simp]: "encode_utf8 (- 1) = []"
  by (simp add: encode_utf8_def)

lemma encode_utf8_separators:
  "encode_utf8 0x2028 = [CHR 0xE2, CHR 0x80, CHR 0xA8]" "encode_utf8 0x2029 = [CHR 0xE2, CHR 0x80, CHR 0xA9]"
  by code_simp+

lemma is_hex_hex_digit: "n < 16 \<Longrightarrow> is_hex (hex_digit n) \<and> hex_val (hex_digit n) = n"
  by (simp add: is_hex_def hex_val_def hex_digit_def is_digit_iff in_range_def Let_def)

lemma hex4_is_hex [simp]: "list_all is_hex (hex4 n)" "length (hex4 n) = 4"
  by (simp_all add: hex4_def is_hex_hex_digit)

lemma hex_value_hex4:
  assumes "n < 65536"
  shows "hex_value (hex4 n) = n"
proof -
  have "hex_value (hex4 n) =
      16 * (16 * (16 * (n div 4096 mod 16) + n div 256 mod 16) + n div 16 mod 16) + n mod 16"
    by (simp only: hex_value_def hex4_def) (simp add: is_hex_hex_digit)
  also have "n div 4096 mod 16 = n div 256 div 16" using assms by (simp add: div_mult2_eq [symmetric])
  also have "16 * (n div 256 div 16) + n div 256 mod 16 = n div 256" by simp
  also have "n div 256 = n div 16 div 16" by (simp add: div_mult2_eq [symmetric])
  finally show ?thesis by simp
qed

lemma unicode_escape_flush:
  "\<not> in_range pending 0xD800 0xDBFF \<Longrightarrow> unicode_escape pending cp = (encode_utf8 pending, cp)"
  by (simp add: unicode_escape_def)

text \<open>One step of the loop, by the shape of the text ahead.\<close>

lemma string_loop_plain_at:
  assumes "at_text str (jp_i p) (c # t)" and "c \<noteq> CHR 0x22" and "c \<noteq> CHR 0x5C" and "\<not> is_control c"
  shows "parse_string_loop str p out pending =
    parse_string_loop str (p\<lparr>jp_i := jp_i p + 1\<rparr>) (out @ encode_utf8 pending @ [c]) (- 1)"
  using at_text_Cons [OF assms(1)] assms(2-4) by (intro parse_string_loop_plain) simp_all

lemma string_loop_simple_at:
  assumes "at_text str (jp_i p) (CHR 0x5C # e # t)" and "simple_escape e = Some c"
  shows "parse_string_loop str p out pending =
    parse_string_loop str (p\<lparr>jp_i := jp_i p + 2\<rparr>) (out @ encode_utf8 pending @ [c]) (- 1)"
  using at_text_Cons [OF assms(1)] at_text_Cons [OF at_text_Cons(3) [OF assms(1)]] assms(2)
  by (intro parse_string_loop_simple) simp_all

lemma string_loop_unicode_at:
  assumes "at_text str (jp_i p) (CHR 0x5C # CHR ''u'' # h @ t)" and "length h = 4" and "list_all is_hex h"
    and "\<not> in_range pending 0xD800 0xDBFF"
  shows "parse_string_loop str p out pending =
    parse_string_loop str (p\<lparr>jp_i := jp_i p + 6\<rparr>) (out @ encode_utf8 pending) (int (hex_value h))"
proof -
  note a = at_text_Cons [OF assms(1)]
  note b = at_text_Cons [OF a(3)]
  have "h = take 4 (drop (jp_i p + 2) str)"
    using b(3) assms(2) by (simp add: at_text_def)
  with a b assms show ?thesis
    by (intro parse_string_loop_unicode) (simp_all add: unicode_escape_flush)
qed

lemma is_control_iff: "is_control c \<longleftrightarrow> (of_char c :: nat) \<le> 0x1f"
proof -
  have "is_control c \<longleftrightarrow> (of_char c :: int) \<le> 0x1f"
    using of_char_int_range [of c] by (auto simp: is_control_def in_range_def char_signed_def Let_def)
  then show ?thesis by (simp add: of_char_int del: of_nat_of_char)
qed

text \<open>The four ways a character is written.\<close>

lemma char_at_two:
  assumes "char_at s 0 = a" and "char_at s 1 = b" and "b \<noteq> CHR 0x00"
  shows "s = a # b # drop 2 s"
proof -
  have "1 < length s" using assms(2,3) by (intro char_at_not_nul) simp
  then obtain x y t where "s = x # y # t" by (cases s; cases "tl s") auto
  with assms(1,2) show ?thesis by (simp add: char_at_def)
qed

lemma dump_chars_cases:
  obtains (simple) e where "simple_escape e = Some ch" "dump_chars (ch # s) = CHR 0x5C # e # dump_chars s"
    | (control) "(of_char ch :: nat) \<le> 0x1f"
        "dump_chars (ch # s) = CHR 0x5C # CHR ''u'' # hex4 (of_char ch) @ dump_chars s"
    | (separator) b s' where "ch = CHR 0xE2" "s = CHR 0x80 # b # s'" "b = CHR 0xA8 \<or> b = CHR 0xA9"
        "dump_chars (ch # s) = CHR 0x5C # CHR ''u'' # hex4 (if b = CHR 0xA8 then 0x2028 else 0x2029) @ dump_chars s'"
    | (plain) "ch \<noteq> CHR 0x5C" "ch \<noteq> CHR 0x22" "\<not> is_control ch" "dump_chars (ch # s) = ch # dump_chars s"
proof -
  have hex: "hex4 0x2028 = ''2028''" "hex4 0x2029 = ''2029''"
    by (simp_all add: hex4_def hex_digit_def char_of_def bit_Suc_0_iff)
  define escaped where "escaped = (ch \<in> {CHR 0x5C, CHR 0x22, CHR 0x08, CHR 0x0C, CHR 0x0A, CHR 0x0D, CHR 0x09})"
  define sep where "sep b = (ch = CHR 0xE2 \<and> char_at s 0 = CHR 0x80 \<and> char_at s 1 = b)" for b
  consider "escaped" | "\<not> escaped" "is_control ch" | "\<not> escaped" "\<not> is_control ch" "sep (CHR 0xA8)"
    | "\<not> escaped" "\<not> is_control ch" "\<not> sep (CHR 0xA8)" "sep (CHR 0xA9)"
    | "\<not> escaped" "\<not> is_control ch" "\<not> sep (CHR 0xA8)" "\<not> sep (CHR 0xA9)" by blast
  then show thesis
  proof cases
    case 1
    then show ?thesis
      using simple [of "CHR 0x5C"] simple [of "CHR 0x22"] simple [of "CHR ''b''"] simple [of "CHR ''f''"]
        simple [of "CHR ''n''"] simple [of "CHR ''r''"] simple [of "CHR ''t''"]
      by (auto simp: simple_escape_def escaped_def)
  next
    case 2
    then show ?thesis by (intro control) (simp_all add: is_control_iff escaped_def)
  next
    case 3
    then have s: "s = CHR 0x80 # CHR 0xA8 # drop 2 s" unfolding sep_def by (intro char_at_two) auto
    from 3 show ?thesis unfolding sep_def is_control_iff by (intro separator [OF _ s]) (simp_all add: hex)
  next
    case 4
    then have s: "s = CHR 0x80 # CHR 0xA9 # drop 2 s" unfolding sep_def by (intro char_at_two) auto
    from 4 show ?thesis unfolding sep_def is_control_iff by (intro separator [OF _ s]) (simp_all add: hex)
  next
    case 5
    then show ?thesis by (intro plain) (simp_all add: is_control_iff escaped_def sep_def)
  qed
qed

text \<open>The parser reads back what \<open>dump\<close> writes for a string, with any code point pending.\<close>

lemma parse_string_loop_dump:
  assumes "at_text str (jp_i p) (dump_chars s @ CHR 0x22 # rest)" and "\<not> in_range pending 0xD800 0xDBFF"
  shows "parse_string_loop str p out pending =
    (p\<lparr>jp_i := jp_i p + length (dump_chars s) + 1\<rparr>, out @ encode_utf8 pending @ s)"
  using assms
proof (induction s arbitrary: p out pending rule: length_induct)
  case (1 s)
  note IH = "1.IH" [rule_format] and at = "1.prems"(1)
  have low: "\<not> in_range (- 1) 0xD800 0xDBFF" by (simp add: in_range_def)
  show ?case
  proof (cases s)
    case Nil
    with at have "at_text str (jp_i p) (CHR 0x22 # rest)" by simp
    from at_text_Cons(1,2) [OF this] Nil show ?thesis by (simp add: parse_string_loop_quote)
  next
    case (Cons ch t)
    show ?thesis
    proof (cases rule: dump_chars_cases [of ch t])
      case (simple e)
      with at Cons have a: "at_text str (jp_i p) (CHR 0x5C # e # dump_chars t @ CHR 0x22 # rest)" by simp
      then have "at_text str (jp_i p + 2) (dump_chars t @ CHR 0x22 # rest)"
        using at_text_append [of str "jp_i p" "[CHR 0x5C, e]"] by simp
      with IH [of t "p\<lparr>jp_i := jp_i p + 2\<rparr>" "- 1"] low string_loop_simple_at [OF a simple(1)] simple Cons
      show ?thesis by simp
    next
      case control
      with at Cons have a: "at_text str (jp_i p)
          (CHR 0x5C # CHR ''u'' # hex4 (of_char ch) @ dump_chars t @ CHR 0x22 # rest)" by simp
      then have "at_text str (jp_i p + 6) (dump_chars t @ CHR 0x22 # rest)"
        using at_text_append [of str "jp_i p" "CHR 0x5C # CHR ''u'' # hex4 (of_char ch)"] by simp
      moreover have "\<not> in_range (int (of_char ch)) 0xD800 0xDBFF"
        using control(1) by (simp add: in_range_def)
      moreover have "encode_utf8 (int (of_char ch)) = [ch]"
        using control(1) encode_utf8_ascii [of "of_char ch"] by simp
      ultimately show ?thesis
        using IH [of t "p\<lparr>jp_i := jp_i p + 6\<rparr>" "int (of_char ch)"] control Cons "1.prems"(2)
          string_loop_unicode_at [OF a]  hex_value_hex4 [of "of_char ch"]
        by simp
    next
      case (separator b t')
      let ?n = "if b = CHR 0xA8 then 0x2028 else 0x2029 :: nat"
      from separator at Cons have a: "at_text str (jp_i p)
          (CHR 0x5C # CHR ''u'' # hex4 ?n @ dump_chars t' @ CHR 0x22 # rest)" by simp
      then have "at_text str (jp_i p + 6) (dump_chars t' @ CHR 0x22 # rest)"
        using at_text_append [of str "jp_i p" "CHR 0x5C # CHR ''u'' # hex4 ?n"] by simp
      moreover have "\<not> in_range (int ?n) 0xD800 0xDBFF" by (simp add: in_range_def)
      moreover have "encode_utf8 (int ?n) = [ch, CHR 0x80, b]"
        using separator(1,3) by (auto simp: encode_utf8_separators)
      ultimately show ?thesis
        using IH [of t' "p\<lparr>jp_i := jp_i p + 6\<rparr>" "int ?n"] separator Cons "1.prems"(2)
          string_loop_unicode_at [OF a] hex_value_hex4 [of ?n]
        by simp
    next
      case plain
      with at Cons have a: "at_text str (jp_i p) (ch # dump_chars t @ CHR 0x22 # rest)" by simp
      then have "at_text str (jp_i p + 1) (dump_chars t @ CHR 0x22 # rest)"
        using at_text_append [of str "jp_i p" "[ch]"] by simp
      with IH [of t "p\<lparr>jp_i := jp_i p + 1\<rparr>" "- 1"] low string_loop_plain_at [OF a plain(2,1,3)] plain Cons
      show ?thesis by simp
    qed
  qed
qed

section \<open>Values\<close>

text \<open>
  The value that comes back: an \<open>int\<close> printed with more than \<open>digits10\<close> characters is read as
  a double, everything else as it was.
\<close>

fun reread :: "json \<Rightarrow> json" where
  "reread (JsonInt i) = (if length (dec_int i) \<le> int_digits10 then JsonInt i else JsonDouble (dbl_of_int i))"
| "reread (JsonArray vs) = JsonArray (map reread vs)"
| "reread (JsonObject m) = JsonObject (map (\<lambda>(k, v). (k, reread v)) m)"
| "reread j = j"

text \<open>The first character of a value, and what it is not.\<close>

definition value_char :: "char \<Rightarrow> bool" where
  "value_char c = (token_char c \<and> c \<notin> {CHR '']'', CHR 0x7D, CHR 0x00})"

lemma dec_int_hd:
  obtains c t where "dec_int i = c # t" "value_char c" "c = CHR ''-'' \<or> is_digit c"
proof -
  obtain d ds where ds: "dec_nat (nat \<bar>i\<bar>) = d # ds" by (cases "dec_nat (nat \<bar>i\<bar>)") auto
  have d: "is_digit d" using dec_nat_digits [of "nat \<bar>i\<bar>"] by (simp add: ds)
  have v: "value_char c" if "c = CHR ''-'' \<or> is_digit c" for c
    using that by (auto simp: value_char_def token_char_def is_white_def is_digit_iff)
  show thesis
  proof (cases "i < 0")
    case True
    with that [of "CHR ''-''" "d # ds"] ds v show ?thesis by (simp add: dec_int_def)
  next
    case False
    with that [of d ds] ds v d show ?thesis by (simp add: dec_int_def)
  qed
qed

lemma dump_hd:
  assumes "no_double j"
  obtains c t where "dump j = c # t" "value_char c"
proof (cases j)
  case (JsonInt i)
  with that show ?thesis by (auto intro: dec_int_hd [of i])
next
  case (JsonBoolean b)
  with that show ?thesis by (cases b) (auto simp: value_char_def token_char_def is_white_def)
qed (use assms that in \<open>auto simp: value_char_def token_char_def is_white_def dump_string_def\<close>)

text \<open>A parse that starts where \<open>dump j\<close> was written returns \<open>reread j\<close> behind it.\<close>

definition reads_back :: "string \<Rightarrow> json_strategy \<Rightarrow> json \<Rightarrow> bool" where
  "reads_back str strategy j \<longleftrightarrow>
     (\<forall>fuel depth p ws rest r.
        \<not> jp_failed p \<longrightarrow> at_text str (jp_i p) (ws @ dump j @ rest) \<longrightarrow> list_all is_white ws \<longrightarrow>
        number_end rest \<longrightarrow> json_depth j + depth \<le> max_depth \<longrightarrow>
        parse_json fuel str strategy depth p = Some r \<longrightarrow>
        r = (p\<lparr>jp_i := jp_i p + length ws + length (dump j)\<rparr>, reread j))"

lemma expect_at:
  assumes "at_text str (jp_i p - 1) (expected @ rest)"
  shows "expect str expected res p = (p\<lparr>jp_i := jp_i p - 1 + length expected\<rparr>, res)"
  using assms by (simp add: expect_def at_text_def Let_def)

lemma reads_back_literal:
  assumes "(j, dump j) \<in> {(JsonNull, ''null''), (JsonBoolean True, ''true''), (JsonBoolean False, ''false'')}"
  shows "reads_back str strategy j"
  unfolding reads_back_def
proof (intro allI impI)
  fix fuel depth p ws rest r
  assume ok: "\<not> jp_failed p" and at: "at_text str (jp_i p) (ws @ dump j @ rest)" and ws: "list_all is_white ws"
    and d: "json_depth j + depth \<le> max_depth" and r: "parse_json fuel str strategy depth p = Some r"
  obtain c t where c: "dump j = c # t" "c \<in> {CHR ''n'', CHR ''t'', CHR ''f''}" using assms by auto
  then have "token_char c" by (auto simp: token_char_def is_white_def)
  from token_at [OF _ ws this ok, of str "t @ rest"] at c(1)
  have t: "get_next_token str strategy p = (p\<lparr>jp_i := jp_i p + length ws + 1\<rparr>, c)" by simp
  note a = at_text_append [OF at]
  note e = expect_at [of str "p\<lparr>jp_i := jp_i p + length ws + 1\<rparr>" _ rest]
  show "r = (p\<lparr>jp_i := jp_i p + length ws + length (dump j)\<rparr>, reread j)"
    using r d assms t ok c a e by (cases fuel) (auto simp: is_digit_iff)
qed

text \<open>Numbers: the integer part of a printed \<open>int\<close> is all of it.\<close>

lemma skip_digits_at:
  assumes "at_text str i (ds @ rest)" and "list_all is_digit ds" and "number_end rest"
  shows "skip_digits str i = i + length ds"
proof -
  have "takeWhile is_digit (ds @ rest) = ds"
    using assms(2,3) by (cases rest) (auto simp: list_all_iff number_end_def)
  then show ?thesis using assms(1) by (simp add: skip_digits_eq at_text_def)
qed

lemma number_integer_at:
  assumes at: "at_text str i (dec_nat n @ rest)" and rest: "number_end rest"
  shows "number_integer str i = Inr (i + length (dec_nat n))"
proof -
  obtain d ds where ds: "dec_nat n = d # ds" by (cases "dec_nat n") auto
  have dd: "is_digit d" "list_all is_digit ds" using dec_nat_digits [of n] by (simp_all add: ds)
  note a = at_text_Cons [OF at [unfolded ds, simplified]]
  have sk: "skip_digits str (i + 1) = i + 1 + length ds"
    using skip_digits_at [of str "i + 1" ds rest] a(3) dd(2) rest by simp
  show ?thesis
  proof (cases "n = 0")
    case True
    then have "d = digit_char 0" "ds = []" using ds by (simp_all add: dec_nat_small)
    then have d: "d = CHR ''0''" "ds = []" by simp_all
    have "\<not> is_digit (char_at str (i + 1))"
    proof
      assume dig: "is_digit (char_at str (i + 1))"
      then have "skip_digits str (i + 1) = skip_digits str (Suc (i + 1))" by (subst skip_digits.simps) simp
      with sk d(2) skip_digits_ge [of "Suc (i + 1)" str] show False by simp
    qed
    with a(1) d ds show ?thesis by (simp add: number_integer_def)
  next
    case False
    then have "d \<noteq> CHR ''0''" using hd_dec_nat [of n] by (simp add: ds)
    then have "in_range (char_signed d) 49 57"
      using dd(1) char_signed_eq_iff [of d "CHR ''0''"] by (auto simp: is_digit_def in_range_def char_signed_def)
    with a(1) sk \<open>d \<noteq> _\<close> ds show ?thesis by (simp add: number_integer_def)
  qed
qed

lemma parse_number_at:
  assumes at: "at_text str (jp_i p) (dec_int i @ rest)" and rest: "number_end rest"
  shows "parse_number str p = (p\<lparr>jp_i := jp_i p + length (dec_int i)\<rparr>, reread (JsonInt i))"
proof -
  define i0 where "i0 = (if char_at str (jp_i p) = CHR ''-'' then jp_i p + 1 else jp_i p)"
  define e where "e = jp_i p + length (dec_int i)"
  have i0: "number_integer str i0 = Inr e"
  proof (cases "i < 0")
    case True
    with at have "at_text str (jp_i p) (CHR ''-'' # dec_nat (nat \<bar>i\<bar>) @ rest)" by (simp add: dec_int_def)
    note a = at_text_Cons [OF this]
    from number_integer_at [OF a(3) rest] a(1) True show ?thesis by (simp add: i0_def e_def dec_int_def)
  next
    case False
    with at have at': "at_text str (jp_i p) (dec_nat (nat \<bar>i\<bar>) @ rest)" by (simp add: dec_int_def)
    obtain d ds where ds: "dec_nat (nat \<bar>i\<bar>) = d # ds" by (cases "dec_nat (nat \<bar>i\<bar>)") auto
    have "d \<noteq> CHR ''-''" using dec_nat_digits [of "nat \<bar>i\<bar>"] digit_not_sign [of d] by (auto simp: ds)
    then have "i0 = jp_i p" using at_text_Cons(1) [of str "jp_i p" d] at' by (simp add: i0_def ds)
    with number_integer_at [OF at' rest] False show ?thesis by (simp add: e_def dec_int_def)
  qed
  have at_e: "at_text str e rest" using at_text_append [OF at] by (simp add: e_def)
  have ch: "char_at str e \<notin> {CHR ''.'', CHR ''e'', CHR ''E''}"
  proof (cases rest)
    case Nil
    then show ?thesis using at_e by (simp add: at_text_def char_at_beyond)
  next
    case (Cons c t)
    then show ?thesis using at_text_Cons(1) [of str e c t] at_e rest by (simp add: number_end_def)
  qed
  then have fr: "number_fraction str e = Inr e" by (simp add: number_fraction_def number_exponent_def)
  have ahead: "drop (jp_i p) str = dec_int i @ rest" using at by (simp add: at_text_def)
  have digits: "rest = [] \<or> \<not> is_digit (hd rest)" using rest by (auto simp: number_end_def)
  have len0: "length (dec_int 0) \<le> int_digits10" by (simp add: dec_int_def dec_nat_small int_digits10_def)
  show ?thesis
  proof (cases "length (dec_int i) \<le> int_digits10")
    case True
    then show ?thesis
      using i0 ch strtol10_dec_int [OF digits, of i]
      by (simp add: parse_number_def ahead atoi_def e_def flip: i0_def)
  next
    case False
    then have "i \<noteq> 0" using len0 by auto
    then show ?thesis
      using i0 ch fr False strtod_dec_int [OF _ rest, of i]
      by (simp add: parse_number_def ahead e_def flip: i0_def)
  qed
qed

lemma reads_back_int: "reads_back str strategy (JsonInt i)"
  unfolding reads_back_def
proof (intro allI impI)
  fix fuel depth p ws rest r
  assume ok: "\<not> jp_failed p" and at: "at_text str (jp_i p) (ws @ dump (JsonInt i) @ rest)"
    and ws: "list_all is_white ws" and rest: "number_end rest"
    and d: "json_depth (JsonInt i) + depth \<le> max_depth" and r: "parse_json fuel str strategy depth p = Some r"
  obtain c t where c: "dec_int i = c # t" "value_char c" "c = CHR ''-'' \<or> is_digit c"
    by (rule dec_int_hd)
  then have "token_char c" by (simp add: value_char_def)
  from token_at [OF _ ws this ok, of str "t @ rest"] at c(1)
  have t: "get_next_token str strategy p = (p\<lparr>jp_i := jp_i p + length ws + 1\<rparr>, c)" by simp
  let ?q = "p\<lparr>jp_i := jp_i p + length ws\<rparr>"
  have "at_text str (jp_i ?q) (dec_int i @ rest)" using at_text_append [OF at] by simp
  then have n: "parse_number str ?q = (?q\<lparr>jp_i := jp_i ?q + length (dec_int i)\<rparr>, reread (JsonInt i))"
    using rest by (rule parse_number_at)
  show "r = (p\<lparr>jp_i := jp_i p + length ws + length (dump (JsonInt i))\<rparr>, reread (JsonInt i))"
    using r d t ok c(3) n by (cases fuel) auto
qed

lemma reads_back_string: "reads_back str strategy (JsonString s)"
  unfolding reads_back_def
proof (intro allI impI)
  fix fuel depth p ws rest r
  assume ok: "\<not> jp_failed p" and at: "at_text str (jp_i p) (ws @ dump (JsonString s) @ rest)"
    and ws: "list_all is_white ws"
    and d: "json_depth (JsonString s) + depth \<le> max_depth" and r: "parse_json fuel str strategy depth p = Some r"
  have "token_char (CHR 0x22)" by (simp add: token_char_def is_white_def)
  from token_at [OF _ ws this ok, of str "dump_chars s @ CHR 0x22 # rest"] at
  have t: "get_next_token str strategy p = (p\<lparr>jp_i := jp_i p + length ws + 1\<rparr>, CHR 0x22)"
    by (simp add: dump_string_def)
  let ?q = "p\<lparr>jp_i := jp_i p + length ws + 1\<rparr>"
  have "at_text str (jp_i ?q) (dump_chars s @ CHR 0x22 # rest)"
    using at_text_Cons(3) [of str "jp_i p + length ws"] at_text_append [OF at] by (simp add: dump_string_def)
  then have "parse_string str ?q = (?q\<lparr>jp_i := jp_i ?q + length (dump_chars s) + 1\<rparr>, s)"
    by (simp add: parse_string_def parse_string_loop_dump in_range_def)
  with r d t ok show "r = (p\<lparr>jp_i := jp_i p + length ws + length (dump (JsonString s))\<rparr>, reread (JsonString s))"
    by (cases fuel) (auto simp: is_digit_iff dump_string_def)
qed

text \<open>Arrays.\<close>

lemma reads_backD:
  assumes "reads_back str strategy j" and "parse_json fuel str strategy depth p = Some r"
    and "\<not> jp_failed p" and "at_text str (jp_i p) (ws @ dump j @ rest)" and "list_all is_white ws"
    and "number_end rest" and "json_depth j + depth \<le> max_depth"
  shows "r = (p\<lparr>jp_i := jp_i p + length ws + length (dump j)\<rparr>, reread j)"
  using assms unfolding reads_back_def by blast

lemma number_end_values: "number_end (dump_values False vs @ CHR '']'' # rest)"
  by (cases vs) (simp_all add: number_end_def is_digit_iff)

lemma token_char_punctuation: "c \<in> {CHR '','', CHR '']'', CHR ''['', CHR '':'', CHR 0x7B, CHR 0x7D, CHR 0x22} \<Longrightarrow> token_char c"
  by (auto simp: token_char_def is_white_def)

lemma consume_garbage_end:
  assumes "jp_i p = length str" and "\<not> jp_failed p"
  shows "consume_garbage str strategy p = p"
proof -
  have "char_at str (length str) = CHR 0x00" by (simp add: char_at_beyond)
  then have w: "consume_whitespace str p = p"
    using assms(1) by (subst consume_whitespace_def, subst skip_white.simps) (simp add: is_white_def)
  moreover have "comment_loop str p = p"
    using w assms \<open>char_at str _ = _\<close> by (subst comment_loop.simps) (simp add: consume_comment_def)
  ultimately show ?thesis by (simp add: consume_garbage_def Let_def)
qed

lemma token_now:
  assumes "at_text str (jp_i p) (c # t)" and "token_char c" and "\<not> jp_failed p"
  shows "get_next_token str strategy p = (p\<lparr>jp_i := jp_i p + 1\<rparr>, c)"
  using token_at [of str p "[]" c t] assms by simp

lemma array_loop_at:
  assumes "\<forall>w \<in> set (v # vs). reads_back str strategy w \<and> no_double w \<and> json_depth w + Suc depth \<le> max_depth"
    and "\<not> jp_failed p"
    and "at_text str (jp_i p - 1) (dump v @ dump_values False vs @ CHR '']'' # rest)"
    and "array_loop fuel str strategy depth data p = Some r"
  shows "r = (p\<lparr>jp_i := jp_i p - 1 + length (dump v @ dump_values False vs) + 1\<rparr>,
              JsonArray (data @ map reread (v # vs)))"
  using assms
proof (induction vs arbitrary: v fuel data p)
  case Nil
  obtain f where f: "fuel = Suc f" using Nil.prems(4) by (cases fuel) simp_all
  let ?q = "p\<lparr>jp_i := jp_i p - 1 + length (dump v)\<rparr>"
  have at: "at_text str (jp_i (unread p)) ([] @ dump v @ CHR '']'' # rest)" using Nil.prems(3) by simp
  obtain r1 where r1: "parse_json f str strategy (Suc depth) (unread p) = Some r1"
    using Nil.prems(4) by (auto simp: f split: option.splits)
  have "r1 = (?q, reread v)"
    using reads_backD [OF _ r1 _ at] number_end_values [of "[]" rest] Nil.prems(1,2) by simp
  moreover have "get_next_token str strategy ?q = (?q\<lparr>jp_i := jp_i ?q + 1\<rparr>, CHR '']'')"
    using at_text_append [of str "jp_i p - 1" "dump v" "CHR '']'' # rest"] at Nil.prems(2)
    by (intro token_now) (simp_all add: token_char_punctuation)
  ultimately show ?case using Nil.prems(2,4) r1 by (simp add: f)
next
  case (Cons w vs)
  obtain f where f: "fuel = Suc f" using Cons.prems(4) by (cases fuel) simp_all
  let ?q = "p\<lparr>jp_i := jp_i p - 1 + length (dump v)\<rparr>"
  let ?rest = "dump_values False vs @ CHR '']'' # rest"
  have at: "at_text str (jp_i (unread p)) ([] @ dump v @ dump_values False (w # vs) @ CHR '']'' # rest)"
    using Cons.prems(3) by simp
  obtain r1 where r1: "parse_json f str strategy (Suc depth) (unread p) = Some r1"
    using Cons.prems(4) by (auto simp: f split: option.splits)
  have r1': "r1 = (?q, reread v)"
    using reads_backD [OF _ r1 _ at] number_end_values [of "w # vs" rest] Cons.prems(1,2) by simp
  have at2: "at_text str (jp_i ?q) (CHR '','' # CHR '' '' # dump w @ ?rest)"
    using at_text_append [of str "jp_i p - 1" "dump v"] at by simp
  then have t2: "get_next_token str strategy ?q = (?q\<lparr>jp_i := jp_i ?q + 1\<rparr>, CHR '','')"
    using Cons.prems(2) by (intro token_now) (simp_all add: token_char_punctuation)
  obtain c t where c: "dump w = c # t" "value_char c" using Cons.prems(1) by (auto intro: dump_hd [of w])
  have at3: "at_text str (jp_i ?q + 1) ([CHR '' ''] @ c # t @ ?rest)" using at_text_Cons(3) [OF at2] c by simp
  then have t3: "get_next_token str strategy (?q\<lparr>jp_i := jp_i ?q + 1\<rparr>) = (?q\<lparr>jp_i := jp_i ?q + 3\<rparr>, c)"
    using token_at [of str "?q\<lparr>jp_i := jp_i ?q + 1\<rparr>" "[CHR '' '']" c "t @ ?rest"] c Cons.prems(2)
    by (simp add: is_white_def value_char_def)
  have at4: "at_text str (jp_i ?q + 2) (dump w @ ?rest)"
    using at_text_append [of str "jp_i ?q" "[CHR '','', CHR '' '']"] at2 by simp
  have "array_loop f str strategy depth (data @ [reread v]) (?q\<lparr>jp_i := jp_i ?q + 3\<rparr>) = Some r"
    using Cons.prems(2,4) r1 r1' t2 t3 by (simp add: f)
  from Cons.IH [of w, OF _ _ _ this] Cons.prems(1,2) at4 show ?case by (simp add: add.assoc)
qed

lemma reads_back_array:
  assumes "\<forall>w \<in> set vs. reads_back str strategy w \<and> no_double w"
  shows "reads_back str strategy (JsonArray vs)"
  unfolding reads_back_def
proof (intro allI impI)
  fix fuel depth p ws rest r
  assume ok: "\<not> jp_failed p" and at: "at_text str (jp_i p) (ws @ dump (JsonArray vs) @ rest)"
    and ws: "list_all is_white ws"
    and d: "json_depth (JsonArray vs) + depth \<le> max_depth" and r: "parse_json fuel str strategy depth p = Some r"
  obtain f where f: "fuel = Suc f" using r by (cases fuel) simp_all
  let ?p1 = "p\<lparr>jp_i := jp_i p + length ws + 1\<rparr>" and ?txt = "dump_values True vs @ CHR '']'' # rest"
  have at1: "at_text str (jp_i p) (ws @ CHR ''['' # ?txt)" using at by simp
  have t: "get_next_token str strategy p = (?p1, CHR ''['')"
    using at1 ws ok by (intro token_at) (simp_all add: token_char_punctuation)
  have at2: "at_text str (jp_i ?p1) ?txt" using at_text_Cons(3) [OF at_text_append [OF at1]] by simp
  show "r = (p\<lparr>jp_i := jp_i p + length ws + length (dump (JsonArray vs))\<rparr>, reread (JsonArray vs))"
  proof (cases vs)
    case Nil
    have "get_next_token str strategy ?p1 = (?p1\<lparr>jp_i := jp_i ?p1 + 1\<rparr>, CHR '']'')"
      using at2 Nil ok by (intro token_now) (simp_all add: token_char_punctuation)
    with r d t ok Nil show ?thesis by (simp add: f is_digit_iff)
  next
    case (Cons v vs')
    obtain c u where c: "dump v = c # u" "value_char c" using assms Cons by (auto intro: dump_hd [of v])
    have t2: "get_next_token str strategy ?p1 = (?p1\<lparr>jp_i := jp_i ?p1 + 1\<rparr>, c)"
      using at2 Cons c ok by (intro token_now) (simp_all add: value_char_def)
    have depth: "\<forall>w \<in> set vs. json_depth w + Suc depth \<le> max_depth"
    proof -
      have "json_depth (JsonArray vs) \<le> Suc (max_depth - depth - 1)" using d json_depth_container(1) [of vs] by linarith
      then show ?thesis using d json_depth_container(1) [of vs] unfolding json_depth_array by fastforce
    qed
    have "array_loop f str strategy depth [] (?p1\<lparr>jp_i := jp_i ?p1 + 1\<rparr>) = Some r"
      using r d t t2 ok c by (simp add: f is_digit_iff value_char_def)
    from array_loop_at [OF _ _ _ this, of v vs' rest] assms depth Cons at2 ok show ?thesis by simp
  qed
qed

text \<open>Objects: the key has been opened by its quote when the loop runs.\<close>

lemma number_end_members: "number_end (dump_members False m @ CHR 0x7D # rest)"
  by (cases m) (auto simp: number_end_def is_digit_iff)

abbreviation reread_members :: "(string \<times> json) list \<Rightarrow> (string \<times> json) list" where
  "reread_members \<equiv> map (\<lambda>(k, v). (k, reread v))"

lemma member_at:
  fixes p :: json_parser and k :: string and v :: json
  defines "p1 \<equiv> p\<lparr>jp_i := jp_i p + length (dump_chars k) + 1\<rparr>"
    and "p3 \<equiv> p\<lparr>jp_i := jp_i p + length (dump_chars k @ CHR 0x22 # '': '' @ dump v)\<rparr>"
  assumes at: "at_text str (jp_i p) (dump_chars k @ CHR 0x22 # '': '' @ dump v @ rest)" and rest: "number_end rest"
    and v: "reads_back str strategy v" "json_depth v + Suc depth \<le> max_depth" and ok: "\<not> jp_failed p"
  shows "parse_string str p = (p1, k)"
    and "get_next_token str strategy p1 = (p1\<lparr>jp_i := jp_i p1 + 1\<rparr>, CHR '':'')"
    and "parse_json f str strategy (Suc depth) (p1\<lparr>jp_i := jp_i p1 + 1\<rparr>) = Some r \<Longrightarrow> r = (p3, reread v)"
    and "at_text str (jp_i p3) rest"
proof -
  have "at_text str (jp_i p) (dump_chars k @ CHR 0x22 # CHR '':'' # CHR '' '' # dump v @ rest)" using at by simp
  note a = this and a1 = at_text_append [OF this]
  note a2 = at_text_Cons(3) [OF a1]
  note a3 = at_text_Cons(3) [OF a2]
  show "parse_string str p = (p1, k)"
    using parse_string_loop_dump [OF a, of "- 1" "[]"] by (simp add: parse_string_def p1_def in_range_def)
  show "get_next_token str strategy p1 = (p1\<lparr>jp_i := jp_i p1 + 1\<rparr>, CHR '':'')"
    using a2 ok by (intro token_now) (simp_all add: p1_def token_char_punctuation)
  show "at_text str (jp_i p3) rest"
    using at_text_append [OF a3 [folded append_Cons [of "CHR '' ''" "dump v" rest]]] by (simp add: p3_def add.assoc)
  show "r = (p3, reread v)" if r: "parse_json f str strategy (Suc depth) (p1\<lparr>jp_i := jp_i p1 + 1\<rparr>) = Some r"
    using reads_backD [OF v(1) r, of "[CHR '' '']" rest] a3 rest v(2) ok
    by (simp add: p1_def p3_def is_white_def add.assoc)
qed

lemma object_loop_at:
  assumes "\<forall>w \<in> snd ` set ((k, v) # m). reads_back str strategy w \<and> no_double w \<and> json_depth w + Suc depth \<le> max_depth"
    and "\<not> jp_failed p"
    and "at_text str (jp_i p) (dump_chars k @ CHR 0x22 # '': '' @ dump v @ dump_members False m @ CHR 0x7D # rest)"
    and "map_sorted (data @ reread_members ((k, v) # m))"
    and "object_loop fuel str strategy depth (CHR 0x22) data p = Some r"
  shows "r = (p\<lparr>jp_i := jp_i p + length (dump_chars k @ CHR 0x22 # '': '' @ dump v @ dump_members False m) + 1\<rparr>,
              JsonObject (data @ reread_members ((k, v) # m)))"
  using assms
proof (induction m arbitrary: k v fuel data p)
  case Nil
  obtain f where f: "fuel = Suc f" using Nil.prems(5) by (cases fuel) simp_all
  have at: "at_text str (jp_i p) (dump_chars k @ CHR 0x22 # '': '' @ dump v @ CHR 0x7D # rest)"
    using Nil.prems(3) by simp
  have v: "reads_back str strategy v" "json_depth v + Suc depth \<le> max_depth" "\<not> jp_failed p"
    using Nil.prems(1,2) by simp_all
  note m = member_at [OF at number_end_members [of "[]" rest, simplified] v]
  let ?p3 = "p\<lparr>jp_i := jp_i p + length (dump_chars k @ CHR 0x22 # '': '' @ dump v)\<rparr>"
  have "get_next_token str strategy ?p3 = (?p3\<lparr>jp_i := jp_i ?p3 + 1\<rparr>, CHR 0x7D)"
    using m(4) Nil.prems(2) by (intro token_now) (simp_all add: token_char_punctuation)
  moreover have "map_put k (reread v) data = data @ [(k, reread v)]"
    using Nil.prems(4) by (intro map_put_last) simp
  moreover obtain r1 where r1: "parse_json f str strategy (Suc depth)
      (p\<lparr>jp_i := jp_i p + length (dump_chars k) + 1 + 1\<rparr>) = Some r1"
    using Nil.prems(2,5) m(1,2) by (auto simp: f split: option.splits)
  moreover have "r1 = (?p3, reread v)" using r1 by (intro m(3)) simp
  ultimately show ?case
    using Nil.prems(2,5) m(1,2) by (simp add: f Let_def)
next
  case (Cons kw m)
  obtain f where f: "fuel = Suc f" using Cons.prems(5) by (cases fuel) simp_all
  obtain k' w where kw: "kw = (k', w)" by (cases kw)
  let ?rest = "dump_members False (kw # m) @ CHR 0x7D # rest"
  let ?next = "dump_chars k' @ CHR 0x22 # '': '' @ dump w @ dump_members False m @ CHR 0x7D # rest"
  have at: "at_text str (jp_i p) (dump_chars k @ CHR 0x22 # '': '' @ dump v @ ?rest)"
    using Cons.prems(3) by simp
  have v: "reads_back str strategy v" "json_depth v + Suc depth \<le> max_depth" "\<not> jp_failed p"
    using Cons.prems(1,2) by simp_all
  note m = member_at [OF at number_end_members v]
  let ?p3 = "p\<lparr>jp_i := jp_i p + length (dump_chars k @ CHR 0x22 # '': '' @ dump v)\<rparr>"
  have at3: "at_text str (jp_i ?p3) (CHR '','' # CHR '' '' # CHR 0x22 # ?next)"
    using m(4) by (simp add: kw dump_string_def)
  have t4: "get_next_token str strategy ?p3 = (?p3\<lparr>jp_i := jp_i ?p3 + 1\<rparr>, CHR '','')"
    using at3 v(3) by (intro token_now) (simp_all add: token_char_punctuation)
  have t5: "get_next_token str strategy (?p3\<lparr>jp_i := jp_i ?p3 + 1\<rparr>) = (?p3\<lparr>jp_i := jp_i ?p3 + 3\<rparr>, CHR 0x22)"
    using token_at [of str "?p3\<lparr>jp_i := jp_i ?p3 + 1\<rparr>" "[CHR '' '']" "CHR 0x22" ?next]
      at_text_Cons(3) [OF at3] v(3)
    by (simp add: is_white_def token_char_def)
  have at6: "at_text str (jp_i ?p3 + 3) ?next"
    using at_text_append [of str "jp_i ?p3" "[CHR '','', CHR '' '', CHR 0x22]" ?next] at3
    by (simp add: eval_nat_numeral)
  have sorted: "map_sorted ((data @ [(k, reread v)]) @ reread_members ((k', w) # m))"
    using Cons.prems(4) by (simp add: kw)
  have "map_put k (reread v) data = data @ [(k, reread v)]"
    using Cons.prems(4) by (intro map_put_last) (simp add: map_sorted_def sorted_wrt_append)
  moreover obtain r1 where r1: "parse_json f str strategy (Suc depth)
      (p\<lparr>jp_i := jp_i p + length (dump_chars k) + 1 + 1\<rparr>) = Some r1"
    using Cons.prems(2,5) m(1,2) by (auto simp: f split: option.splits)
  moreover have "r1 = (?p3, reread v)" using r1 by (intro m(3)) simp
  ultimately have "object_loop f str strategy depth (CHR 0x22) (data @ [(k, reread v)])
      (?p3\<lparr>jp_i := jp_i ?p3 + 3\<rparr>) = Some r"
    using Cons.prems(2,5) m(1,2) t4 t5 by (simp add: f Let_def)
  from Cons.IH [OF _ _ _ sorted this] Cons.prems(1,2) at6 show ?case
    by (simp add: kw dump_string_def add.assoc)
qed

lemma reads_back_object:
  assumes "\<forall>w \<in> snd ` set m. reads_back str strategy w \<and> no_double w" and "map_sorted m"
  shows "reads_back str strategy (JsonObject m)"
  unfolding reads_back_def
proof (intro allI impI)
  fix fuel depth p ws rest r
  assume ok: "\<not> jp_failed p" and at: "at_text str (jp_i p) (ws @ dump (JsonObject m) @ rest)"
    and ws: "list_all is_white ws"
    and d: "json_depth (JsonObject m) + depth \<le> max_depth" and r: "parse_json fuel str strategy depth p = Some r"
  obtain f where f: "fuel = Suc f" using r by (cases fuel) simp_all
  let ?p1 = "p\<lparr>jp_i := jp_i p + length ws + 1\<rparr>" and ?txt = "dump_members True m @ CHR 0x7D # rest"
  have at1: "at_text str (jp_i p) (ws @ CHR 0x7B # ?txt)" using at by simp
  have t: "get_next_token str strategy p = (?p1, CHR 0x7B)"
    using at1 ws ok by (intro token_at) (simp_all add: token_char_punctuation)
  have at2: "at_text str (jp_i ?p1) ?txt" using at_text_Cons(3) [OF at_text_append [OF at1]] by simp
  show "r = (p\<lparr>jp_i := jp_i p + length ws + length (dump (JsonObject m))\<rparr>, reread (JsonObject m))"
  proof (cases m)
    case Nil
    have "get_next_token str strategy ?p1 = (?p1\<lparr>jp_i := jp_i ?p1 + 1\<rparr>, CHR 0x7D)"
      using at2 Nil ok by (intro token_now) (simp_all add: token_char_punctuation)
    with r d t ok Nil show ?thesis by (simp add: f is_digit_iff)
  next
    case (Cons kv m')
    obtain k v where kv: "kv = (k, v)" by (cases kv)
    let ?p2 = "?p1\<lparr>jp_i := jp_i ?p1 + 1\<rparr>"
    have at3: "at_text str (jp_i ?p1) (CHR 0x22 # dump_chars k @ CHR 0x22 # '': '' @ dump v @
        dump_members False m' @ CHR 0x7D # rest)"
      using at2 by (simp add: Cons kv dump_string_def)
    then have t2: "get_next_token str strategy ?p1 = (?p2, CHR 0x22)"
      using ok by (intro token_now) (simp_all add: token_char_punctuation)
    have depth: "\<forall>w \<in> snd ` set m. json_depth w + Suc depth \<le> max_depth"
    proof -
      have "json_depth (JsonObject m) \<le> Suc (max_depth - depth - 1)" using d json_depth_container(2) [of m] by linarith
      then show ?thesis using d json_depth_container(2) [of m] unfolding json_depth_object by fastforce
    qed
    have sorted: "map_sorted ([] @ reread_members ((k, v) # m'))"
      using assms(2) by (simp add: Cons kv map_sorted_def case_prod_unfold comp_def)
    have at4: "at_text str (jp_i ?p2) (dump_chars k @ CHR 0x22 # '': '' @ dump v @
        dump_members False m' @ CHR 0x7D # rest)"
      using at_text_Cons(3) [OF at3] by simp
    have "object_loop f str strategy depth (CHR 0x22) [] ?p2 = Some r"
      using r d t t2 ok by (simp add: f is_digit_iff)
    from object_loop_at [OF _ _ at4 sorted this] assms(1) depth ok show ?thesis
      by (simp add: Cons kv dump_string_def)
  qed
qed

lemma reads_back_all: "json_ok j \<Longrightarrow> no_double j \<Longrightarrow> reads_back str strategy j"
proof (induction j)
  case (JsonBoolean b)
  then show ?case by (cases b) (simp_all add: reads_back_literal)
next
  case (JsonArray vs)
  then show ?case by (intro reads_back_array) (simp add: list_all_iff)
next
  case (JsonObject m)
  have "reads_back str strategy w \<and> no_double w" if "(k, w) \<in> set m" for k w
    using JsonObject.IH [OF that, of w] JsonObject.prems that by (fastforce simp: list_all_iff)
  with JsonObject.prems(1) show ?case by (intro reads_back_object) auto
qed (simp_all add: reads_back_literal reads_back_int reads_back_string)

lemma json_parse_dump:
  assumes "json_ok j" and "no_double j" and "json_depth j \<le> max_depth"
  shows "json_parse (dump j) err strategy = (reread j, err)"
proof -
  let ?p0 = "\<lparr>jp_i = 0, jp_err = err, jp_failed = False\<rparr>"
  obtain p v where r: "parse_json (parse_fuel (dump j)) (dump j) strategy 0 ?p0 = Some (p, v)"
    by (rule json_parse_run)
  have "(p, v) = (?p0\<lparr>jp_i := length (dump j)\<rparr>, reread j)"
    using reads_backD [OF reads_back_all [OF assms(1,2)] r, of "[]" "[]"] assms(3)
    by (simp add: at_text_def number_end_def)
  moreover have "consume_garbage (dump j) strategy (?p0\<lparr>jp_i := length (dump j)\<rparr>) = ?p0\<lparr>jp_i := length (dump j)\<rparr>"
    by (rule consume_garbage_end) simp_all
  ultimately show ?thesis by (simp add: json_parse_def r)
qed

text \<open>The value that comes back equals the one written, as \<open>operator==\<close> compares.\<close>

lemma dbl_eq_refl: "d \<noteq> DNan \<Longrightarrow> dbl_eq d d"
  by (cases d) simp_all

lemma json_eq_list_map: "\<forall>v \<in> set vs. json_eq (f v) v \<Longrightarrow> json_eq_list (map f vs) vs"
  by (induction vs) simp_all

lemma json_eq_map_map: "\<forall>v \<in> snd ` set m. json_eq (f v) v \<Longrightarrow> json_eq_map (map (\<lambda>(k, v). (k, f v)) m) m"
  by (induction m) auto

lemma json_eq_reread: "no_double j \<Longrightarrow> json_eq (reread j) j"
proof (induction j)
  case (JsonArray vs)
  then show ?case by (simp add: json_eq_list_map list_all_iff)
next
  case (JsonObject m)
  have "json_eq (reread w) w" if "(k, w) \<in> set m" for k w
    using JsonObject.IH [OF that, of w] JsonObject.prems that by (fastforce simp: list_all_iff)
  then show ?case by (auto intro: json_eq_map_map)
qed (simp_all add: dbl_eq_refl)

end
