(* ===== verification/Json_Order.thy ===== *)
theory Json_Order
  imports Json_Value
begin

text \<open>
  The comparison operators of json11 are transitive on values without NaN: numbers compare by
  their value, whatever their class, and arrays and objects lexicographically.
\<close>

section \<open>Numbers\<close>

lemma dbl_scale_shift:
  assumes "e0 \<le> e1" and "e1 \<le> e"
  shows "dbl_scale s m e e0 = dbl_scale s m e e1 * 2 ^ nat (e1 - e0)"
proof -
  have "nat (e - e0) = nat (e - e1) + nat (e1 - e0)" using assms by simp
  then show ?thesis by (simp add: dbl_scale_def power_add)
qed

text \<open>Any common exponent will do.\<close>

lemma dbl_compare_at:
  assumes "e0 \<le> e" and "e0 \<le> e'"
  shows "dbl_less (DFin s m e) (DFin s' m' e') \<longleftrightarrow> dbl_scale s m e e0 < dbl_scale s' m' e' e0"
    and "dbl_eq (DFin s m e) (DFin s' m' e') \<longleftrightarrow> dbl_scale s m e e0 = dbl_scale s' m' e' e0"
  using assms dbl_scale_shift [of e0 "min e e'" e s m] dbl_scale_shift [of e0 "min e e'" e' s' m'] by (simp_all add: Let_def)

text \<open>What two steps of a comparison give, where \<open>lt\<close> is the order and \<open>sim\<close> its equality.\<close>

definition steps :: "('a \<Rightarrow> 'a \<Rightarrow> bool) \<Rightarrow> ('a \<Rightarrow> 'a \<Rightarrow> bool) \<Rightarrow> 'a \<Rightarrow> 'a \<Rightarrow> 'a \<Rightarrow> bool" where
  "steps lt sim x y z = ((lt x y \<and> lt y z \<longrightarrow> lt x z) \<and> (lt x y \<and> sim y z \<longrightarrow> lt x z)
     \<and> (sim x y \<and> lt y z \<longrightarrow> lt x z) \<and> (sim x y \<and> sim y z \<longrightarrow> sim x z))"

lemma dbl_steps: "steps dbl_less dbl_eq d d' d''"
proof (cases "\<exists>s m e s' m' e' s'' m'' e''. d = DFin s m e \<and> d' = DFin s' m' e' \<and> d'' = DFin s'' m'' e''")
  case True
  then obtain s m e s' m' e' s'' m'' e'' where d: "d = DFin s m e" "d' = DFin s' m' e'" "d'' = DFin s'' m'' e''" by blast
  let ?e = "min e (min e' e'')"
  have le: "?e \<le> e" "?e \<le> e'" "?e \<le> e''" by simp_all
  show ?thesis unfolding steps_def d dbl_compare_at [OF le(1,2)] dbl_compare_at [OF le(2,3)] dbl_compare_at [OF le(1,3)] by linarith
next
  case False
  then show ?thesis by (cases d; cases d'; cases d'') (auto simp: steps_def)
qed

section \<open>Values\<close>

lemma compared_types:
  "json_less x y \<Longrightarrow> type_rank (json_type_of x) \<le> type_rank (json_type_of y)"
  "json_eq x y \<Longrightarrow> json_type_of x = json_type_of y"
  using type_less [of x y] by (cases "json_type_of x = json_type_of y"; simp)+

lemma steps_types:
  assumes "\<not> (json_type_of x = json_type_of y \<and> json_type_of y = json_type_of z)"
  shows "steps json_less json_eq x y z"
proof -
  have "json_less x z" if "json_less x y \<or> json_eq x y" "json_less y z \<or> json_eq y z"
  proof -
    have "type_rank (json_type_of x) \<le> type_rank (json_type_of y)" "type_rank (json_type_of y) \<le> type_rank (json_type_of z)"
      using that compared_types [of x y] compared_types [of y z] by auto
    moreover from this have "json_type_of x \<noteq> json_type_of z" using assms type_rank_inj by (metis order_antisym)
    ultimately show ?thesis using type_less(1) [of x z] type_rank_inj by (metis order_le_less order_trans)
  qed
  moreover have "\<not> (json_eq x y \<and> json_eq y z)" using assms compared_types(2) by blast
  ultimately show ?thesis unfolding steps_def by blast
qed

lemma steps_numbers:
  assumes "json_type_of x = NUMBER" and "json_type_of y = NUMBER" and "json_type_of z = NUMBER"
  shows "steps json_less json_eq x y z"
  using dbl_steps [of "number_value x" "number_value y" "number_value z"]
  unfolding steps_def number_less [OF assms(1,2)] number_less [OF assms(2,3)] number_less [OF assms(1,3)] .

text \<open>One position of a lexicographic comparison, of components that compare in one way only.\<close>

lemma lex_steps:
  assumes "steps lt sim x y z" and "exactly_one (lt x y) (sim x y) (lt y x)" and "exactly_one (lt y z) (sim y z) (lt z y)"
    and "exactly_one (lt x z) (sim x z) (lt z x)" and "steps L E xs ys zs"
    and "\<And>x y. l x y = (lt (fst x) (fst y) \<or> (\<not> lt (fst y) (fst x) \<and> L (snd x) (snd y)))"
    and "\<And>x y. e x y = (sim (fst x) (fst y) \<and> E (snd x) (snd y))"
  shows "steps l e (x, xs) (y, ys) (z, zs)"
  using assms(1-5) unfolding steps_def assms(6,7) exactly_one_def fst_conv snd_conv by blast

lemma list_steps:
  assumes "\<And>v y z. v \<in> set vs \<Longrightarrow> nan_free y \<Longrightarrow> nan_free z \<Longrightarrow> steps json_less json_eq v y z"
    and "list_all nan_free vs" and "list_all nan_free ws" and "list_all nan_free us"
  shows "steps json_less_list json_eq_list vs ws us"
  using assms
proof (induction vs arbitrary: ws us)
  case Nil
  then show ?case by (cases ws; cases us) (simp_all add: steps_def)
next
  case (Cons v vs)
  show ?case
  proof (cases "ws = [] \<or> us = []")
    case True
    then show ?thesis by (cases ws; cases us) (simp_all add: steps_def)
  next
    case False
    then obtain w ws' u us' where e: "ws = w # ws'" "us = u # us'" by (meson list.exhaust)
    have n: "nan_free v" "nan_free w" "nan_free u" "list_all nan_free vs" "list_all nan_free ws'" "list_all nan_free us'"
      using Cons.prems(2-4) by (simp_all add: e)
    have "steps json_less_list json_eq_list vs ws' us'" by (rule Cons.IH) (use Cons.prems(1) n in simp_all)
    from lex_steps [OF Cons.prems(1) [of v w u] json_trichotomy_all(1) [OF n(1,2)] json_trichotomy_all(1) [OF n(2,3)]
        json_trichotomy_all(1) [OF n(1,3)] this refl refl] n
    show ?thesis unfolding e steps_def by simp
  qed
qed

definition pair_less :: "string \<times> json \<Rightarrow> string \<times> json \<Rightarrow> bool" where
  "pair_less p q = (fst p < fst q \<or> (\<not> fst q < fst p \<and> json_less (snd p) (snd q)))"

definition pair_eq :: "string \<times> json \<Rightarrow> string \<times> json \<Rightarrow> bool" where
  "pair_eq p q = (fst p = fst q \<and> json_eq (snd p) (snd q))"

lemma pair_one:
  assumes "nan_free (snd p)" and "nan_free (snd q)"
  shows "exactly_one (pair_less p q) (pair_eq p q) (pair_less q p)"
  using lex_exactly_one [OF less_trichotomy json_trichotomy_all(1) [OF assms]] by (simp add: pair_less_def pair_eq_def)

lemma pair_steps:
  assumes "steps json_less json_eq (snd p) (snd q) (snd r)"
  shows "steps pair_less pair_eq p q r"
proof -
  have "steps (<) (=) (fst p) (fst q) (fst r)" by (auto simp: steps_def)
  from lex_steps [OF this less_trichotomy less_trichotomy less_trichotomy assms pair_less_def pair_eq_def]
  show ?thesis by simp
qed

lemma map_steps:
  assumes "\<And>p y z. p \<in> set m \<Longrightarrow> nan_free y \<Longrightarrow> nan_free z \<Longrightarrow> steps json_less json_eq (snd p) y z"
    and "list_all (\<lambda>p. nan_free (snd p)) m" and "list_all (\<lambda>p. nan_free (snd p)) n" and "list_all (\<lambda>p. nan_free (snd p)) k"
  shows "steps json_less_map json_eq_map m n k"
  using assms
proof (induction m arbitrary: n k)
  case Nil
  then show ?case by (cases n; cases k) (simp_all add: steps_def)
next
  case (Cons p m)
  show ?case
  proof (cases "n = [] \<or> k = []")
    case True
    then show ?thesis by (cases p; cases n; cases k) (simp_all add: steps_def)
  next
    case False
    then obtain q n' r k' where e: "n = q # n'" "k = r # k'" by (meson list.exhaust)
    have f: "nan_free (snd p)" "nan_free (snd q)" "nan_free (snd r)" "list_all (\<lambda>p. nan_free (snd p)) m"
      "list_all (\<lambda>p. nan_free (snd p)) n'" "list_all (\<lambda>p. nan_free (snd p)) k'"
      using Cons.prems(2-4) by (simp_all add: e)
    have "steps json_less_map json_eq_map m n' k'" by (rule Cons.IH) (use Cons.prems(1) f in simp_all)
    from lex_steps [OF pair_steps [OF Cons.prems(1) [of p "snd q" "snd r"]] pair_one [OF f(1,2)] pair_one [OF f(2,3)] pair_one [OF f(1,3)] this refl refl] f
    show ?thesis unfolding e by (cases p; cases q; cases r) (simp add: steps_def pair_less_def pair_eq_def)
  qed
qed

lemma json_steps:
  "nan_free x \<Longrightarrow> nan_free y \<Longrightarrow> nan_free z \<Longrightarrow> steps json_less json_eq x y z"
proof (induction x arbitrary: y z)
  case (JsonArray vs)
  show ?case
  proof (cases "json_type_of y = ARRAY \<and> json_type_of z = ARRAY")
    case True
    then obtain ws us where e: "y = JsonArray ws" "z = JsonArray us" by (cases y; cases z) auto
    have "steps json_less_list json_eq_list vs ws us" by (rule list_steps) (use JsonArray e in \<open>auto simp: list_all_iff\<close>)
    then show ?thesis by (simp add: e steps_def)
  qed (intro steps_types, auto)
next
  case (JsonObject m)
  show ?case
  proof (cases "json_type_of y = OBJECT \<and> json_type_of z = OBJECT")
    case True
    then obtain n k where e: "y = JsonObject n" "z = JsonObject k" by (cases y; cases z) auto
    have "steps json_less_map json_eq_map m n k" by (rule map_steps) (use JsonObject e in \<open>auto simp: list_all_iff\<close>)
    then show ?thesis by (simp add: e steps_def)
  qed (intro steps_types, auto)
next
  case (JsonDouble d)
  show ?case using steps_numbers steps_types by (metis json_type_of.simps(2))
next
  case (JsonInt i)
  show ?case using steps_numbers steps_types by (metis json_type_of.simps(3))
next
  case JsonNull
  show ?case by (cases y; cases z) (auto simp: steps_def)
next
  case (JsonBoolean b)
  show ?case
    using steps_types [of "JsonBoolean b" y z] by (cases y; cases z) (auto simp: steps_def)
next
  case (JsonString s)
  show ?case
    using steps_types [of "JsonString s" y z] by (cases y; cases z) (auto simp: steps_def)
qed

end
