(* ===== verification/Json_Properties.thy ===== *)
theory Json_Properties
  imports Json_Roundtrip Json_Order
begin

text \<open>
  What json11 promises its callers, as properties over whole inputs: the round trip, the end
  of every parse, the shape of every result, the order of values, the shape check.
\<close>


section \<open>The parser\<close>

text \<open>
  C1. Every value without doubles, within the nesting limit, is read back from its own text:
  no error is reported, and the value read equals the one written under \<open>operator==\<close>.
\<close>

theorem json_roundtrip:
  assumes "json_ok j" and "no_double j" and "json_depth j \<le> max_depth"
  shows "snd (json_parse (dump j) err strategy) = err \<and> json_eq (fst (json_parse (dump j) err strategy)) j"
  using assms by (simp add: json_parse_dump json_eq_reread)

definition sample_json :: json where
  "sample_json = JsonObject
     [(''a'', JsonArray [JsonInt 12, JsonInt (- 1234567890), JsonString [CHR 0x0A, CHR 0x22, CHR 0xE2, CHR 0x80, CHR 0xA8], JsonNull]),
      (''b'', JsonObject [])]"

theorem json_roundtrip_witness:
  "json_ok sample_json \<and> snd (json_parse (dump sample_json) [] STANDARD) = []
    \<and> json_eq (fst (json_parse (dump sample_json) [] STANDARD)) sample_json"
proof -
  have "json_ok sample_json" "no_double sample_json" "json_depth sample_json \<le> max_depth"
    by (simp_all add: sample_json_def map_sorted_def is_int_def int_min_def int_max_def max_depth_def)
  then show ?thesis using json_roundtrip [of sample_json "[]" STANDARD] by simp
qed

text \<open>
  C2. Parsing a value always ends: from any index inside the text, the fuel of \<open>json_parse\<close> is
  enough, the index stays inside the text, and unless the parse failed it has moved.
\<close>

theorem parse_json_ends:
  assumes "jp_i p \<le> length str"
  shows "\<exists>p' v. parse_json (parse_fuel str) str strategy depth p = Some (p', v)
    \<and> jp_i p \<le> jp_i p' \<and> jp_i p' \<le> length str \<and> (jp_failed p' \<or> jp_i p < jp_i p')"
proof -
  obtain p' v where r: "parse_json (parse_fuel str) str strategy depth p = Some (p', v)"
    using parse_json_total [OF assms] by blast
  with parse_step_all(1) [OF r assms] show ?thesis by (auto simp: jp_progress_def jp_step_def)
qed

theorem parse_json_ends_witness:
  "\<exists>p' v. parse_json (parse_fuel ''[1'') ''[1'' STANDARD 0 \<lparr>jp_i = 0, jp_err = [], jp_failed = False\<rparr> = Some (p', v)
    \<and> jp_i p' \<le> 2"
  using parse_json_ends [of "\<lparr>jp_i = 0, jp_err = [], jp_failed = False\<rparr>" "''[1''" STANDARD 0] by auto

text \<open>
  C18. Whatever the text, the value \<open>Json::parse\<close> returns is well formed (keys sorted and unique,
  integers within \<open>int\<close>) and nested at most one level deeper than \<open>max_depth\<close>.
\<close>

theorem json_parse_wellformed:
  "json_ok (fst (json_parse str err strategy)) \<and> json_depth (fst (json_parse str err strategy)) \<le> max_depth + 1"
  using json_parse_value_fits [of str err strategy] by (simp add: fits_def)

text \<open>When \<open>Json::parse\<close> changes the caller's error string, it returns null.\<close>

theorem json_parse_error_is_null:
  "snd (json_parse str err strategy) = err \<or> fst (json_parse str err strategy) = JsonNull"
  using json_parse_error_null by blast

text \<open>
  A numeral that becomes an \<open>int\<close> has an absolute value below \<open>10^9\<close>, so that the call of
  \<open>atoi\<close> behind it never overflows.
\<close>

theorem int_literal_bound:
  assumes "parse_number str p = (p', JsonInt n)"
  shows "\<bar>n\<bar> < 10 ^ 9"
  using assms by (rule parse_number_int_range)

theorem int_literal_bound_witness:
  "parse_number (dec_int (- 42)) \<lparr>jp_i = 0, jp_err = [], jp_failed = False\<rparr>
     = (\<lparr>jp_i = 3, jp_err = [], jp_failed = False\<rparr>, JsonInt (- 42)) \<and> \<bar>- 42 :: int\<bar> < 10 ^ 9"
proof -
  have "length (dec_int (- 42)) = 3" by (simp add: dec_int_def dec_nat_step dec_nat_small)
  then have p: "parse_number (dec_int (- 42)) \<lparr>jp_i = 0, jp_err = [], jp_failed = False\<rparr>
     = (\<lparr>jp_i = 3, jp_err = [], jp_failed = False\<rparr>, JsonInt (- 42))"
    using parse_number_at [of "dec_int (- 42)" "\<lparr>jp_i = 0, jp_err = [], jp_failed = False\<rparr>" "- 42" "[]"]
    by (simp add: at_text_def number_end_def int_digits10_def)
  with int_literal_bound [OF p] show ?thesis by simp
qed

text \<open>
  C19. \<open>operator<\<close> is a strict total order on values without NaN, with \<open>operator==\<close> as its equality:
  of two values exactly one of less, equal and greater holds, less is transitive, and so is
  equality, which does not change what is less.
\<close>

theorem json_strict_order:
  assumes "nan_free x" and "nan_free y" and "nan_free z"
  shows "exactly_one (json_less x y) (json_eq x y) (json_less y x)
    \<and> (json_less x y \<and> json_less y z \<longrightarrow> json_less x z) \<and> (json_eq x y \<and> json_eq y z \<longrightarrow> json_eq x z)
    \<and> (json_less x y \<and> json_eq y z \<longrightarrow> json_less x z) \<and> (json_eq x y \<and> json_less y z \<longrightarrow> json_less x z)"
  using json_trichotomy_all(1) [OF assms(1,2)] json_steps [OF assms] unfolding steps_def by blast

theorem json_strict_order_witness:
  "json_less (JsonArray [JsonBoolean False]) (JsonArray [JsonBoolean False, sample_json])
    \<and> json_less (JsonArray [JsonBoolean False, sample_json]) (JsonArray [JsonBoolean True])
    \<and> json_less (JsonArray [JsonBoolean False]) (JsonArray [JsonBoolean True])"
proof -
  let ?x = "JsonArray [JsonBoolean False]" and ?y = "JsonArray [JsonBoolean False, sample_json]" and ?z = "JsonArray [JsonBoolean True]"
  have "json_less ?x ?y" "json_less ?y ?z" by simp_all
  then show ?thesis using json_strict_order [of ?x ?y ?z] by (simp add: sample_json_def)
qed

text \<open>
  \<open>has_shape\<close> accepts a value exactly when it is an object and every listed key has a
  value of its type, a missing key counting as null.
\<close>

theorem has_shape_exact:
  "fst (has_shape j types err) \<longleftrightarrow>
     json_type_of j = OBJECT \<and> list_all (\<lambda>(k, t). json_type_of (at_key j k) = t) types"
  by (simp add: has_shape_iff list_all_iff)

end
