(* ===== verification/Api.thy ===== *)
theory Api
  imports Cpp_Std
begin

text \<open>
  The constants of \<open>constants.hpp\<close> and the process-wide \<open>api_impl\<close> object of \<open>api.cpp\<close>: the
  directory of the databases and the optional proxy. The static \<open>instance_\<close> is the record
  passed to the operations that read it.
\<close>

section \<open>Constants\<close>

definition BASE_URL :: string where
  "BASE_URL = ''https://api.flickr.com/services/rest/''"

definition MAP_TOKEN :: string where
  "MAP_TOKEN = ''pk.eyJ1Ijoia2l0dGludW5mIiwiYSI6ImNpcTZyY2MwODAwaDBmcW02N3JweTk3M2wifQ.zM0-aialUeNtcCslIVG1ow''"

definition METHOD :: string where "METHOD = ''method''"
definition API_KEY :: string where "API_KEY = ''api_key''"
definition FORMAT :: string where "FORMAT = ''format''"
definition NO_JSON_CALLBACK :: string where "NO_JSON_CALLBACK = ''nojsoncallback''"
definition PER_PAGE :: string where "PER_PAGE = ''per_page''"
definition PAGE :: string where "PAGE = ''page''"
definition TEXT :: string where "TEXT = ''text''"
definition PHOTO_ID :: string where "PHOTO_ID = ''photo_id''"
definition BBOX :: string where "BBOX = ''bbox''"
definition SORT :: string where "SORT = ''sort''"
definition EXTRAS :: string where "EXTRAS = ''extras''"

definition API_KEY_VALUE :: string where
  "API_KEY_VALUE = ''21d58b359476ca14401d40590b495c0d''"

definition JSON_FORMAT :: string where "JSON_FORMAT = ''json''"
definition INTERESTINGNESS_GETLIST :: string where
  "INTERESTINGNESS_GETLIST = ''flickr.interestingness.getList''"
definition PHOTOS_SEARCH :: string where "PHOTOS_SEARCH = ''flickr.photos.search''"
definition PHOTOS_INFO :: string where "PHOTOS_INFO = ''flickr.photos.getInfo''"
definition PHOTOS_COMMENTS_GETLIST :: string where
  "PHOTOS_COMMENTS_GETLIST = ''flickr.photos.comments.getList''"
definition INTERESTINGNESS_DESC :: string where "INTERESTINGNESS_DESC = ''interestingness-desc''"

lemmas constant_defs =
  BASE_URL_def METHOD_def API_KEY_def FORMAT_def NO_JSON_CALLBACK_def PER_PAGE_def PAGE_def TEXT_def
  PHOTO_ID_def BBOX_def SORT_def EXTRAS_def API_KEY_VALUE_def JSON_FORMAT_def
  INTERESTINGNESS_GETLIST_def PHOTOS_SEARCH_def PHOTOS_INFO_def PHOTOS_COMMENTS_GETLIST_def
  INTERESTINGNESS_DESC_def

section \<open>The api object\<close>

record api_impl =
  api_path :: string
  api_proxy :: "string option"

definition api_instance :: api_impl where
  "api_instance = \<lparr>api_path = [], api_proxy = None\<rparr>"

definition set_path :: "string \<Rightarrow> api_impl \<Rightarrow> api_impl" where
  "set_path path api = api\<lparr>api_path := path\<rparr>"

definition set_proxy :: "string \<Rightarrow> api_impl \<Rightarrow> api_impl" where
  "set_proxy proxy api = api\<lparr>api_proxy := Some proxy\<rparr>"

text \<open>What a C function sees of a \<open>std::string\<close> passed by \<open>c_str()\<close>: the text before the first NUL.\<close>

definition c_str :: "string \<Rightarrow> string" where
  "c_str s = takeWhile (\<lambda>c. c \<noteq> CHR 0x00) s"

lemma c_str_id: "CHR 0x00 \<notin> set s \<Longrightarrow> c_str s = s"
  by (auto simp: c_str_def intro!: takeWhile_eq_all_conv [THEN iffD2])

lemma c_str_no_nul: "CHR 0x00 \<notin> set (c_str s)"
  by (auto simp: c_str_def dest: set_takeWhileD)

text \<open>The file \<open>api_impl::db\<close> opens for a name (with \<open>MDB_NOSUBDIR\<close>, the path is the file).\<close>

definition db_file :: "api_impl \<Rightarrow> string \<Rightarrow> string" where
  "db_file api name = c_str (api_path api @ ''/'' @ name)"

end
