(* ===== verification/Utility.thy ===== *)
theory Utility
  imports Api
begin

text \<open>
  \<open>utility.cpp\<close>: the image and avatar addresses, the query string, and \<open>curl_get\<close> over a
  handle whose options are explicit state. libcurl itself is the parameter \<open>perform\<close>: what a
  transfer delivers, as a function of the options of the handle at that moment.
\<close>

section \<open>Addresses\<close>

definition construct_flickr_image_url :: "int \<Rightarrow> string \<Rightarrow> string \<Rightarrow> string \<Rightarrow> string" where
  "construct_flickr_image_url farm server photo_id secret =
     ''https://farm'' @ dec_int farm @ ''.static.flickr.com/'' @ server @ ''/'' @ photo_id @ ''_'' @ secret
       @ ''_z.jpg''"

definition construct_flickr_avatar_url :: "int \<Rightarrow> string \<Rightarrow> string \<Rightarrow> string" where
  "construct_flickr_avatar_url farm server ns_id =
     ''https://c2.staticflickr.com/'' @ dec_int farm @ ''/'' @ server @ ''/'' @ ''buddyicons/'' @ ns_id @ ''_l.jpg''"

text \<open>
  The loop over the pairs of a container in its iteration order, which for an
  \<open>unordered_map\<close> is not specified: there the list is any permutation of the pairs.
\<close>

fun convert_to_query_param_string :: "(string \<times> string) list \<Rightarrow> string" where
  "convert_to_query_param_string [] = []"
| "convert_to_query_param_string ((k, v) # ps) = k @ ''='' @ v @ ''&'' @ convert_to_query_param_string ps"

section \<open>Transfers\<close>

text \<open>
  \<open>write_to_string\<close>, the write callback: \<open>size * count\<close> bytes at \<open>ptr\<close> (\<open>memory\<close> is what is
  found there) go to the stream. The product is of two \<open>size_t\<close>.
\<close>

definition write_to_string :: "string \<Rightarrow> 64 word \<Rightarrow> 64 word \<Rightarrow> string option \<Rightarrow> 64 word \<times> string option" where
  "write_to_string memory n count stream =
     (case stream of
        None \<Rightarrow> (0, None)
      | Some os \<Rightarrow> (n * count, Some (os @ take (unat (n * count)) memory)))"

record curl_handle =
  curl_url :: "string option"
  curl_write_set :: bool
  curl_verify_peer :: bool
  curl_proxy :: "string option"

text \<open>The options of a handle from \<open>curl_easy_init\<close>.\<close>

definition curl_easy_init :: curl_handle where
  "curl_easy_init = \<lparr>curl_url = None, curl_write_set = False, curl_verify_peer = True, curl_proxy = None\<rparr>"

text \<open>
  The outcome of \<open>curl_easy_perform\<close>: the blocks it passed to the write callback, its result
  (0 is \<open>CURLE_OK\<close>), and the \<open>long\<close> that \<open>CURLINFO_RESPONSE_CODE\<close> then reports.
\<close>

record transfer =
  tr_blocks :: "string list"
  tr_result :: int
  tr_code :: "64 word"

text \<open>The response collected by the write callback, block by block.\<close>

definition collect :: "string list \<Rightarrow> string" where
  "collect blocks =
     fold (\<lambda>b os. the (snd (write_to_string b 1 (of_nat (length b)) (Some os)))) blocks []"

text \<open>
  \<open>CURLINFO_RESPONSE_CODE\<close> stores a \<open>long\<close> through the address of an \<open>int\<close>; on a little-endian
  machine that \<open>int\<close> gets the low half. (The high half lands behind it.)
\<close>

definition code_of_long :: "64 word \<Rightarrow> int" where
  "code_of_long w = sint (ucast w :: 32 word)"

definition curl_setup :: "string \<Rightarrow> string option \<Rightarrow> curl_handle \<Rightarrow> curl_handle" where
  "curl_setup url proxy h =
     (let h1 = h\<lparr>curl_url := Some (c_str url), curl_write_set := True, curl_verify_peer := False\<rparr>
      in case proxy of None \<Rightarrow> h1 | Some p \<Rightarrow> h1\<lparr>curl_proxy := Some (c_str p)\<rparr>)"

definition is_success :: "transfer \<Rightarrow> bool" where
  "is_success t = (tr_result t = 0 \<and> 200 \<le> code_of_long (tr_code t) \<and> code_of_long (tr_code t) < 300)"

text \<open>The callbacks are functions from the controller's state; exactly one of them is the result.\<close>

definition curl_get ::
  "(curl_handle \<Rightarrow> transfer) \<Rightarrow> curl_handle \<Rightarrow> string \<Rightarrow> string option \<Rightarrow>
     (string \<Rightarrow> int \<Rightarrow> string \<Rightarrow> 'a) \<Rightarrow> (string \<Rightarrow> int \<Rightarrow> string \<Rightarrow> 'a) \<Rightarrow> curl_handle \<times> 'a" where
  "curl_get perform h url proxy success_callback failure_callback =
     (let h' = curl_setup url proxy h;
          t = perform h';
          code = code_of_long (tr_code t);
          response = collect (tr_blocks t)
      in (h', if tr_result t = 0 \<and> 200 \<le> code \<and> code < 300 then success_callback url code response
              else failure_callback url code response))"

text \<open>The overload without a proxy.\<close>

definition curl_get_direct ::
  "(curl_handle \<Rightarrow> transfer) \<Rightarrow> curl_handle \<Rightarrow> string \<Rightarrow>
     (string \<Rightarrow> int \<Rightarrow> string \<Rightarrow> 'a) \<Rightarrow> (string \<Rightarrow> int \<Rightarrow> string \<Rightarrow> 'a) \<Rightarrow> curl_handle \<times> 'a" where
  "curl_get_direct perform h url success_callback failure_callback =
     curl_get perform h url None success_callback failure_callback"

section \<open>What a transfer delivers\<close>

lemma collect_blocks:
  assumes "\<forall>b \<in> set blocks. length b < 2 ^ 64"
  shows "collect blocks = concat blocks"
proof -
  have "fold (\<lambda>b os. the (snd (write_to_string b 1 (of_nat (length b)) (Some os)))) blocks acc
      = acc @ concat blocks" for acc
    using assms
  proof (induction blocks arbitrary: acc)
    case (Cons b blocks)
    then have "unat (of_nat (length b) :: 64 word) = length b" by (simp add: unat_of_nat)
    with Cons show ?case by (simp add: write_to_string_def)
  qed simp
  then show ?thesis by (simp add: collect_def)
qed

lemma code_of_long_small:
  assumes "x < 2 ^ 31"
  shows "code_of_long (of_nat x) = int x"
proof -
  have "code_of_long (of_nat x) = sint (of_nat x :: 32 word)"
    using assms by (simp add: code_of_long_def unsigned_of_nat take_bit_nat_eq_self)
  also have "\<dots> = signed_take_bit 31 (int x)" by (simp add: signed_of_nat)
  also have "\<dots> = int x" using assms by (intro signed_take_bit_int_eq_self) simp_all
  finally show ?thesis .
qed

text \<open>A proxy, once set on a handle, stays when later calls pass none.\<close>

lemma curl_setup_proxy:
  "curl_proxy (curl_setup url proxy h) = (case proxy of None \<Rightarrow> curl_proxy h | Some p \<Rightarrow> Some (c_str p))"
  by (simp add: curl_setup_def Let_def split: option.splits)

lemma curl_setup_url [simp]: "curl_url (curl_setup url proxy h) = Some (c_str url)"
  by (simp add: curl_setup_def Let_def split: option.splits)

lemma curl_get_cases:
  "curl_get perform h url proxy success_callback failure_callback =
     (let h' = curl_setup url proxy h; t = perform h'
      in (h', (if is_success t then success_callback else failure_callback)
               url (code_of_long (tr_code t)) (collect (tr_blocks t))))"
  by (simp add: curl_get_def is_success_def Let_def)

section \<open>The query string\<close>

lemma query_append:
  "convert_to_query_param_string (ps @ qs) = convert_to_query_param_string ps @ convert_to_query_param_string qs"
  by (induction ps rule: convert_to_query_param_string.induct) simp_all

text \<open>
  Reading a query string back: each parameter ends with its ampersand, the key ends at the
  first equals sign.
\<close>

fun split_params :: "string \<Rightarrow> string \<Rightarrow> string list" where
  "split_params acc [] = (if acc = [] then [] else [acc])"
| "split_params acc (c # s) = (if c = CHR ''&'' then acc # split_params [] s else split_params (acc @ [c]) s)"

definition split_pair :: "string \<Rightarrow> string \<times> string" where
  "split_pair s = (takeWhile (\<lambda>c. c \<noteq> CHR ''='') s, drop 1 (dropWhile (\<lambda>c. c \<noteq> CHR ''='') s))"

definition read_query :: "string \<Rightarrow> (string \<times> string) list" where
  "read_query s = List.map split_pair (split_params [] s)"

definition plain_pair :: "string \<times> string \<Rightarrow> bool" where
  "plain_pair kv = (CHR ''='' \<notin> set (fst kv) \<and> CHR ''&'' \<notin> set (fst kv) \<and> CHR ''&'' \<notin> set (snd kv))"

lemma split_params_append:
  "CHR ''&'' \<notin> set s \<Longrightarrow> split_params acc (s @ CHR ''&'' # t) = (acc @ s) # split_params [] t"
  by (induction s arbitrary: acc) auto

lemma split_pair_join: "CHR ''='' \<notin> set k \<Longrightarrow> split_pair (k @ CHR ''='' # v) = (k, v)"
  by (induction k) (auto simp: split_pair_def)

lemma read_query_convert:
  "list_all plain_pair ps \<Longrightarrow> read_query (convert_to_query_param_string ps) = ps"
proof (induction ps rule: convert_to_query_param_string.induct)
  case (2 k v ps)
  then have "split_params [] ((k @ CHR ''='' # v) @ CHR ''&'' # convert_to_query_param_string ps) =
      (k @ CHR ''='' # v) # split_params [] (convert_to_query_param_string ps)"
    by (subst split_params_append) (auto simp: plain_pair_def)
  with 2 show ?case by (simp add: read_query_def plain_pair_def split_pair_join)
qed (simp add: read_query_def)

end
