(* ===== verification/Controller.thy ===== *)
theory Controller
  imports Utility Json_Value
begin

text \<open>
  What the five controllers share: an observer that may be null, the events sent to it, the
  curl handle, and the shape of a request: announce, transfer, then one of two handlers, run
  only if the controller still exists. A handler may end in a C++ error; the state it has
  reached by then is kept, as an exception leaves the object.
\<close>

section \<open>Observers and events\<close>

datatype 'v event = Begin_update | Update 'v | End_update

type_synonym 's outcome = "'s \<times> cpp_error option"

text \<open>The sequence of two statements, where the first may throw.\<close>

definition andthen :: "'s outcome \<Rightarrow> ('s \<Rightarrow> 's outcome) \<Rightarrow> 's outcome" where
  "andthen r f = (case snd r of None \<Rightarrow> f (fst r) | Some e \<Rightarrow> r)"

lemma andthen_simps [simp]:
  "andthen (s, None) f = f s" "andthen (s, Some e) f = (s, Some e)"
  by (simp_all add: andthen_def)

lemma andthen_ok: "andthen r f = (s', None) \<longleftrightarrow> (\<exists>s. r = (s, None) \<and> f s = (s', None))"
  by (cases r; cases "snd r") auto

text \<open>
  The members common to the controllers. An observer is named by a number; the trace lists
  the calls made to observers, oldest first.
\<close>

record 'v controller =
  co_curl :: curl_handle
  co_observer :: "nat option"
  co_trace :: "(nat \<times> 'v event) list"

definition subscribe :: "nat option \<Rightarrow> ('v, 'm) controller_scheme \<Rightarrow> ('v, 'm) controller_scheme" where
  "subscribe observer c = c\<lparr>co_observer := observer\<rparr>"

definition unsubscribe :: "('v, 'm) controller_scheme \<Rightarrow> ('v, 'm) controller_scheme" where
  "unsubscribe c = c\<lparr>co_observer := None\<rparr>"

text \<open>An unguarded call through \<open>observer_\<close>.\<close>

definition call_observer ::
  "'v event \<Rightarrow> ('v, 'm) controller_scheme \<Rightarrow> ('v, 'm) controller_scheme outcome" where
  "call_observer ev c =
     (case co_observer c of
        None \<Rightarrow> (c, Some Null_dereference)
      | Some ob \<Rightarrow> (c\<lparr>co_trace := co_trace c @ [(ob, ev)]\<rparr>, None))"

text \<open>\<open>if (observer_) { observer_->on_update (view); observer_->on_end_update (); }\<close>\<close>

definition publish :: "'v \<Rightarrow> ('v, 'm) controller_scheme \<Rightarrow> ('v, 'm) controller_scheme outcome" where
  "publish view c =
     (if co_observer c = None then (c, None)
      else andthen (call_observer (Update view) c) (call_observer End_update))"

definition published :: "nat option \<Rightarrow> 'v \<Rightarrow> (nat \<times> 'v event) list" where
  "published observer view = (case observer of None \<Rightarrow> [] | Some ob \<Rightarrow> [(ob, Update view), (ob, End_update)])"

lemma publish_eq: "publish view c = (c\<lparr>co_trace := co_trace c @ published (co_observer c) view\<rparr>, None)"
  by (cases "co_observer c") (simp_all add: publish_def published_def call_observer_def)

section \<open>Requests\<close>

text \<open>
  A callback handed to \<open>curl_get\<close>: \<open>weak_self.lock ()\<close> fails once the controller is gone.
  \<open>others\<close> is what the other threads did to the controller while the transfer blocked, or
  None when they released it.
\<close>

definition locked :: "('c \<Rightarrow> 'c option) \<Rightarrow> ('c \<Rightarrow> 'c outcome) \<Rightarrow> 'c \<Rightarrow> 'c outcome" where
  "locked others handler c = (case others c of None \<Rightarrow> (c, None) | Some c' \<Rightarrow> handler c')"

definition run_request ::
  "(curl_handle \<Rightarrow> transfer) \<Rightarrow>
   (('v, 'm) controller_scheme \<Rightarrow> ('v, 'm) controller_scheme option) \<Rightarrow> api_impl \<Rightarrow> string \<Rightarrow>
   (string \<Rightarrow> string \<Rightarrow> ('v, 'm) controller_scheme \<Rightarrow> ('v, 'm) controller_scheme outcome) \<Rightarrow>
   (string \<Rightarrow> string \<Rightarrow> ('v, 'm) controller_scheme \<Rightarrow> ('v, 'm) controller_scheme outcome) \<Rightarrow>
   ('v, 'm) controller_scheme \<Rightarrow> ('v, 'm) controller_scheme outcome" where
  "run_request perform others api url on_success on_failure c =
     (case curl_get perform (co_curl c) url (api_proxy api)
             (\<lambda>url code response. locked others (on_success url response))
             (\<lambda>url code response. locked others (on_failure url response)) of
        (h, callback) \<Rightarrow> callback (c\<lparr>co_curl := h\<rparr>))"

text \<open>The transfer of a request, and the handler it selects.\<close>

definition request_transfer ::
  "(curl_handle \<Rightarrow> transfer) \<Rightarrow> api_impl \<Rightarrow> string \<Rightarrow> ('v, 'm) controller_scheme \<Rightarrow> transfer" where
  "request_transfer perform api url c = perform (curl_setup url (api_proxy api) (co_curl c))"

definition after_setup ::
  "api_impl \<Rightarrow> string \<Rightarrow> ('v, 'm) controller_scheme \<Rightarrow> ('v, 'm) controller_scheme" where
  "after_setup api url c = c\<lparr>co_curl := curl_setup url (api_proxy api) (co_curl c)\<rparr>"

lemma run_request_eq:
  "run_request perform others api url on_success on_failure c =
     locked others
       ((if is_success (request_transfer perform api url c) then on_success else on_failure)
          url (collect (tr_blocks (request_transfer perform api url c))))
       (after_setup api url c)"
  by (simp add: run_request_def curl_get_cases request_transfer_def after_setup_def Let_def)

lemma after_setup_simps [simp]:
  "co_observer (after_setup api url c) = co_observer c"
  "co_trace (after_setup api url c) = co_trace c"
  by (simp_all add: after_setup_def)

section \<open>The update protocol\<close>

text \<open>
  The events of one observer form complete updates: a begin, one or more updates, an end.
  \<open>open\<close> counts the phases: 0 idle, 1 begun, 2 updated.
\<close>

fun protocol :: "nat \<Rightarrow> 'v event list \<Rightarrow> nat option" where
  "protocol phase [] = Some phase"
| "protocol phase (Begin_update # evs) = (if phase = 0 then protocol 1 evs else None)"
| "protocol phase (Update v # evs) = (if phase = 0 then None else protocol 2 evs)"
| "protocol phase (End_update # evs) = (if phase = 2 then protocol 0 evs else None)"

definition complete_updates :: "'v event list \<Rightarrow> bool" where
  "complete_updates evs = (protocol 0 evs = Some 0)"

lemma protocol_append:
  "protocol phase (xs @ ys) = (case protocol phase xs of None \<Rightarrow> None | Some q \<Rightarrow> protocol q ys)"
  by (induction phase xs rule: protocol.induct) simp_all

lemma complete_updates_append:
  "complete_updates xs \<Longrightarrow> complete_updates ys \<Longrightarrow> complete_updates (xs @ ys)"
  by (simp add: complete_updates_def protocol_append)

text \<open>
  The contract of a success handler on the addresses its controller requests: when it
  returns, it has published one view to the observer it found and left the observer alone.
  The second locale adds the same for failures; the map controller meets only the first.
\<close>

locale success_handler =
  fixes request_url :: "string \<Rightarrow> bool"
    and on_success :: "string \<Rightarrow> string \<Rightarrow> ('v, 'm) controller_scheme \<Rightarrow> ('v, 'm) controller_scheme outcome"
  assumes success_publishes:
    "request_url url \<Longrightarrow> on_success url data c = (c', None) \<Longrightarrow>
       co_observer c' = co_observer c \<and> (\<exists>view. co_trace c' = co_trace c @ published (co_observer c) view)"

locale handlers = success_handler request_url on_success
  for request_url :: "string \<Rightarrow> bool"
    and on_success :: "string \<Rightarrow> string \<Rightarrow> ('v, 'm) controller_scheme \<Rightarrow> ('v, 'm) controller_scheme outcome" +
  fixes on_failure :: "string \<Rightarrow> string \<Rightarrow> ('v, 'm) controller_scheme \<Rightarrow> ('v, 'm) controller_scheme outcome"
  assumes failure_publishes:
    "request_url url \<Longrightarrow> on_failure url data c = (c', None) \<Longrightarrow>
       co_observer c' = co_observer c \<and> (\<exists>view. co_trace c' = co_trace c @ published (co_observer c) view)"

context success_handler begin

text \<open>A successful request publishes exactly one view after what the other threads left.\<close>

lemma request_success:
  assumes "request_url url" and "run_request perform others api url on_success on_failure c = (c', None)"
    and "is_success (request_transfer perform api url c)"
    and "others (after_setup api url c) = Some d"
  shows "co_observer c' = co_observer d \<and> (\<exists>view. co_trace c' = co_trace d @ published (co_observer d) view)"
  using assms success_publishes by (simp add: run_request_eq locked_def)

end

context handlers begin

lemma request_publishes:
  assumes "request_url url" and "run_request perform others api url on_success on_failure c = (c', None)"
    and "others (after_setup api url c) = Some d"
  shows "co_observer c' = co_observer d \<and> (\<exists>view. co_trace c' = co_trace d @ published (co_observer d) view)"
  using assms success_publishes failure_publishes by (simp add: run_request_eq locked_def split: if_splits)

text \<open>
  With the begin that precedes it, a request that nobody interrupts appends one complete
  update to the trace.
\<close>

lemma announced_request:
  assumes url: "request_url url"
    and "andthen (call_observer Begin_update c) (run_request perform Some api url on_success on_failure) = (c', None)"
  shows "\<exists>ob view. co_observer c = Some ob \<and> co_observer c' = Some ob
    \<and> co_trace c' = co_trace c @ [(ob, Begin_update), (ob, Update view), (ob, End_update)]"
proof (cases "co_observer c")
  case None
  with assms(2) show ?thesis by (simp add: call_observer_def)
next
  case (Some ob)
  let ?d = "c\<lparr>co_trace := co_trace c @ [(ob, Begin_update)]\<rparr>"
  from assms(2) Some have "run_request perform Some api url on_success on_failure ?d = (c', None)"
    by (simp add: call_observer_def)
  from request_publishes [OF url this refl] Some show ?thesis by (auto simp: published_def)
qed

end

section \<open>Runs\<close>

text \<open>
  A client's use of a controller: steps from the created object, with the errors its calls
  ended in, oldest first.
\<close>

inductive run :: "('c \<Rightarrow> cpp_error option \<Rightarrow> 'c \<Rightarrow> bool) \<Rightarrow> 'c \<Rightarrow> cpp_error list \<Rightarrow> 'c \<Rightarrow> bool"
  for step :: "'c \<Rightarrow> cpp_error option \<Rightarrow> 'c \<Rightarrow> bool" and init :: 'c where
  run_start: "run step init [] init"
| run_step: "run step init errs c \<Longrightarrow> step c err c' \<Longrightarrow>
    run step init (errs @ (case err of None \<Rightarrow> [] | Some e \<Rightarrow> [e])) c'"

text \<open>The contract of an invariant, which may depend on the errors seen so far.\<close>

locale run_invariant =
  fixes step :: "'c \<Rightarrow> cpp_error option \<Rightarrow> 'c \<Rightarrow> bool"
    and init :: 'c
    and inv :: "cpp_error list \<Rightarrow> 'c \<Rightarrow> bool"
  assumes inv_start: "inv [] init"
    and inv_step: "inv errs c \<Longrightarrow> step c err c' \<Longrightarrow>
      inv (errs @ (case err of None \<Rightarrow> [] | Some e \<Rightarrow> [e])) c'"

context run_invariant begin

lemma run_inv: "run step init errs c \<Longrightarrow> inv errs c"
  by (induction rule: run.induct) (auto intro: inv_start inv_step)

end

text \<open>The update protocol as such an invariant: it holds as long as no call has thrown.\<close>

definition protocol_kept :: "cpp_error list \<Rightarrow> ('v, 'm) controller_scheme \<Rightarrow> bool" where
  "protocol_kept errs c = (errs = [] \<longrightarrow> complete_updates (List.map snd (co_trace c)))"

lemma complete_one: "complete_updates [Begin_update, Update v, End_update]"
  by (simp add: complete_updates_def)

lemma protocol_kept_same: "protocol_kept errs c \<Longrightarrow> co_trace c' = co_trace c \<Longrightarrow> protocol_kept (errs @ es) c'"
  by (simp add: protocol_kept_def)

lemma protocol_kept_error: "protocol_kept (errs @ [e]) c"
  by (simp add: protocol_kept_def)

lemma protocol_kept_update:
  assumes "protocol_kept errs c" and "co_trace c' = co_trace c @ evs" and "complete_updates (List.map snd evs)"
  shows "protocol_kept (errs @ es) c'"
  using assms by (simp add: protocol_kept_def complete_updates_append)

end
