(* ===== verification/Search_Controller.thy ===== *)
theory Search_Controller
  imports Controller Json_Parse_Props Json_Roundtrip
begin

text \<open>
  \<open>search_controller.cpp\<close>: the photo search with its accumulated results and its set of
  recent keys. \<open>iter\<close> is the iteration order of the \<open>unordered_map\<close> of parameters.
\<close>

section \<open>State\<close>

record search_detail_view_data =
  sd_id :: string
  sd_image_url :: string
  sd_title :: string

record search_view_data =
  sv_error :: bool
  sv_message :: string
  sv_results :: "search_detail_view_data list"
  sv_total :: int

record search_controller_impl = "search_view_data controller" +
  sc_items :: "search_detail_view_data list"
  sc_recent :: "string list"

definition search_create :: search_controller_impl where
  "search_create = \<lparr>co_curl = curl_easy_init, co_observer = None, co_trace = [], sc_items = [], sc_recent = []\<rparr>"

section \<open>Operations\<close>

definition search_reset :: "search_controller_impl \<Rightarrow> search_controller_impl" where
  "search_reset c = c\<lparr>sc_items := []\<rparr>"

text \<open>
  The vector is built with \<open>size ()\<close> empty strings, and the keys are inserted before them.
\<close>

definition fetch_recents :: "search_controller_impl \<Rightarrow> string list" where
  "fetch_recents c =
     (let keys = replicate (length (sc_recent c)) [] in sc_recent c @ keys)"

definition search_message :: "json \<times> string \<Rightarrow> string" where
  "search_message r = (if snd r = [] then string_value (at_key (fst r) ''message'') else [])"

definition search_on_failure :: "string \<Rightarrow> search_controller_impl \<Rightarrow> search_controller_impl outcome" where
  "search_on_failure reason c =
     (let message = search_message (json_parse reason [] STANDARD)
      in publish \<lparr>sv_error = True, sv_message = message, sv_results = sc_items c, sv_total = - 1\<rparr> c)"

definition search_detail :: "json \<Rightarrow> search_detail_view_data result" where
  "search_detail j =
     (let id = string_value (at_key j ''id'')
      in rbind (int_value (at_key j ''farm'')) (\<lambda>farm.
           Inr \<lparr>sd_id = id,
                sd_image_url = construct_flickr_image_url farm (string_value (at_key j ''server'')) id
                                 (string_value (at_key j ''secret'')),
                sd_title = string_value (at_key j ''title'')\<rparr>))"

text \<open>\<open>stoi (total)\<close> is evaluated for the call to the observer, after \<open>items_\<close> has grown.\<close>

definition search_on_success :: "string \<Rightarrow> search_controller_impl \<Rightarrow> search_controller_impl outcome" where
  "search_on_success data c =
     (let json = fst (json_parse data [] STANDARD);
          topPhotos = at_key json ''photos'';
          total = string_value (at_key topPhotos ''total'');
          photos = array_items (at_key topPhotos ''photo'')
      in case traverse search_detail photos of
           Inl e \<Rightarrow> (c, Some e)
         | Inr details \<Rightarrow>
             let c1 = c\<lparr>sc_items := sc_items c @ details\<rparr>
             in if co_observer c1 = None then (c1, None)
                else case stoi total of
                    Inl e \<Rightarrow> (c1, Some e)
                  | Inr n \<Rightarrow>
                      publish \<lparr>sv_error = False, sv_message = string_value (at_key json ''stat''),
                               sv_results = sc_items c1, sv_total = n\<rparr> c1)"

definition plus_for_space :: "char \<Rightarrow> char" where
  "plus_for_space ch = (if ch = CHR '' '' then CHR ''+'' else ch)"

definition search_params :: "string \<Rightarrow> 8 word \<Rightarrow> (string \<times> string) list" where
  "search_params key page =
     [(METHOD, PHOTOS_SEARCH), (API_KEY, API_KEY_VALUE), (TEXT, List.map plus_for_space key),
      (FORMAT, JSON_FORMAT), (NO_JSON_CALLBACK, ''1''), (PER_PAGE, ''25''), (PAGE, dec_int (sint page))]"

definition search_url ::
  "((string \<times> string) list \<Rightarrow> (string \<times> string) list) \<Rightarrow> string \<Rightarrow> 8 word \<Rightarrow> string" where
  "search_url iter key page = BASE_URL @ ''?'' @ convert_to_query_param_string (iter (search_params key page))"

definition search ::
  "(curl_handle \<Rightarrow> transfer) \<Rightarrow> (search_controller_impl \<Rightarrow> search_controller_impl option) \<Rightarrow>
   ((string \<times> string) list \<Rightarrow> (string \<times> string) list) \<Rightarrow> api_impl \<Rightarrow> string \<Rightarrow> 8 word \<Rightarrow>
   search_controller_impl \<Rightarrow> search_controller_impl outcome" where
  "search perform others iter api key page c =
     andthen (call_observer Begin_update (c\<lparr>sc_recent := set_insert key (sc_recent c)\<rparr>))
       (run_request perform others api (search_url iter key page)
          (\<lambda>url. search_on_success) (\<lambda>url. search_on_failure))"

section \<open>The handlers\<close>

lemma search_on_success_ok:
  assumes "search_on_success data c = (c', None)"
  obtains details where
    "traverse search_detail (array_items (at_key (at_key (fst (json_parse data [] STANDARD)) ''photos'') ''photo''))
       = Inr details"
    "sc_items c' = sc_items c @ details" "sc_recent c' = sc_recent c" "co_observer c' = co_observer c"
    "\<exists>view. co_trace c' = co_trace c @ published (co_observer c) view"
  using assms
  by (cases "co_observer c")
     (auto simp: search_on_success_def Let_def publish_eq published_def split: sum.splits if_splits)

lemma search_on_failure_ok:
  "search_on_failure data c = (c', None) \<Longrightarrow>
     co_observer c' = co_observer c \<and> sc_recent c' = sc_recent c \<and> sc_items c' = sc_items c
     \<and> (\<exists>view. co_trace c' = co_trace c @ published (co_observer c) view)"
  by (auto simp: search_on_failure_def Let_def publish_eq)

interpretation search: handlers "\<lambda>_. True" "\<lambda>url. search_on_success" "\<lambda>url. search_on_failure"
proof unfold_locales
  show "co_observer c' = co_observer c \<and> (\<exists>view. co_trace c' = co_trace c @ published (co_observer c) view)"
    if "search_on_success data c = (c', None)" for data :: string and c c'
    using that by (rule search_on_success_ok) simp
qed (use search_on_failure_ok in blast)

text \<open>The recent keys: no handler touches them, whatever it ends in.\<close>

lemma handlers_keep_recent:
  "sc_recent (fst (search_on_success data c)) = sc_recent c"
  "sc_recent (fst (search_on_failure data c)) = sc_recent c"
  by (auto simp: search_on_success_def search_on_failure_def Let_def publish_eq split: sum.splits)

lemma run_request_keep_recent:
  "sc_recent (fst (run_request perform Some api url (\<lambda>url. search_on_success) (\<lambda>url. search_on_failure) c)) = sc_recent c"
  by (simp add: run_request_eq locked_def handlers_keep_recent after_setup_def)

lemma search_recent:
  "sc_recent (fst (search perform Some iter api key page c)) = set_insert key (sc_recent c)"
  by (cases "co_observer c") (simp_all add: search_def call_observer_def run_request_keep_recent)

text \<open>A search keeps its observer too, whatever it ends in.\<close>

lemma handlers_keep_observer:
  "co_observer (fst (search_on_success data c)) = co_observer c"
  "co_observer (fst (search_on_failure data c)) = co_observer c"
  by (auto simp: search_on_success_def search_on_failure_def Let_def publish_eq split: sum.splits)

lemma search_observer: "co_observer (fst (search perform Some iter api key page c)) = co_observer c"
  by (cases "co_observer c")
     (simp_all add: search_def call_observer_def run_request_eq locked_def handlers_keep_observer after_setup_def)

section \<open>A session\<close>

text \<open>
  The calls a client makes on a quiet controller (no other thread touches it during a
  search), for any server.
\<close>

inductive search_step ::
  "((string \<times> string) list \<Rightarrow> (string \<times> string) list) \<Rightarrow> api_impl \<Rightarrow>
   search_controller_impl \<Rightarrow> cpp_error option \<Rightarrow> search_controller_impl \<Rightarrow> bool"
  for iter and api where
  step_subscribe: "search_step iter api c None (subscribe observer c)"
| step_unsubscribe: "search_step iter api c None (unsubscribe c)"
| step_reset: "search_step iter api c None (search_reset c)"
| step_search: "search perform Some iter api key page c = (c', err) \<Longrightarrow> search_step iter api c err c'"

inductive_cases search_stepE [elim!]: "search_step iter api c err c'"

definition search_inv :: "cpp_error list \<Rightarrow> search_controller_impl \<Rightarrow> bool" where
  "search_inv errs c = (sorted_wrt (<) (sc_recent c) \<and> protocol_kept errs c)"

lemma search_complete:
  assumes "search perform Some iter api key page c = (c', None)"
  obtains evs where "co_trace c' = co_trace c @ evs" "complete_updates (List.map snd evs)"
  using search.announced_request [OF TrueI assms [unfolded search_def]] complete_one that by fastforce

interpretation search_run: run_invariant "search_step iter api" search_create search_inv
proof unfold_locales
  show "search_inv [] search_create"
    by (simp add: search_inv_def search_create_def protocol_kept_def complete_updates_def)
  fix errs c err c'
  assume inv: "search_inv errs c" and "search_step iter api c err c'"
  from this(2) show "search_inv (errs @ (case err of None \<Rightarrow> [] | Some e \<Rightarrow> [e])) c'"
  proof cases
    case (step_search perform key page)
    have s: "sorted_wrt (<) (sc_recent c')"
      using inv search_recent [of perform iter api key page c] step_search
      by (simp add: search_inv_def sorted_set_insert)
    show ?thesis
    proof (cases err)
      case None
      with step_search obtain evs where "co_trace c' = co_trace c @ evs" "complete_updates (List.map snd evs)"
        by (auto elim: search_complete)
      with None inv s show ?thesis
        using protocol_kept_update [of errs c c' evs "[]"] by (simp add: search_inv_def)
    qed (simp add: search_inv_def s protocol_kept_error)
  qed (use inv in \<open>simp_all add: search_inv_def protocol_kept_def subscribe_def unsubscribe_def search_reset_def\<close>)
qed

end
