(* ===== verification/Photo_Controllers.thy ===== *)
theory Photo_Controllers
  imports Controller Json_Parse_Props
begin

text \<open>
  \<open>photo_comment_controller.cpp\<close> and \<open>photo_detail_controller.cpp\<close>: the comments and the
  details of one photo, named by the \<open>id\<close> the controller is created with.
\<close>

section \<open>Comments\<close>

record photo_comment_detail_view_data =
  pc_id :: string
  pc_owner_name :: string
  pc_owner_avatar_url :: string
  pc_text :: string

record photo_comment_view_data =
  pcv_error :: bool
  pcv_message :: string
  pcv_comments :: "photo_comment_detail_view_data list"

record photo_comment_controller_impl = "photo_comment_view_data controller" +
  pcc_items :: "photo_comment_detail_view_data list"
  pcc_id :: string

definition photo_comment_create :: "string \<Rightarrow> photo_comment_controller_impl" where
  "photo_comment_create photo_id =
     \<lparr>co_curl = curl_easy_init, co_observer = None, co_trace = [], pcc_items = [], pcc_id = photo_id\<rparr>"

definition comment_on_failure ::
  "string \<Rightarrow> photo_comment_controller_impl \<Rightarrow> photo_comment_controller_impl outcome" where
  "comment_on_failure reason c =
     (case json_parse reason [] STANDARD of (json, err) \<Rightarrow>
        let message = (if err = [] then string_value (at_key json ''message'') else [])
        in publish \<lparr>pcv_error = True, pcv_message = message, pcv_comments = pcc_items c\<rparr> c)"

definition comment_detail :: "json \<Rightarrow> photo_comment_detail_view_data result" where
  "comment_detail j =
     rbind (int_value (at_key j ''iconfarm'')) (\<lambda>farm.
       Inr \<lparr>pc_id = string_value (at_key j ''id''),
            pc_owner_name = string_value (at_key j ''authorname''),
            pc_owner_avatar_url =
              construct_flickr_avatar_url farm (string_value (at_key j ''iconserver'')) (string_value (at_key j ''author'')),
            pc_text = string_value (at_key j ''_content'')\<rparr>)"

text \<open>The comments are published; \<open>items_\<close> is never assigned.\<close>

definition comment_on_success ::
  "string \<Rightarrow> photo_comment_controller_impl \<Rightarrow> photo_comment_controller_impl outcome" where
  "comment_on_success data c =
     (let json = fst (json_parse data [] STANDARD);
          comments = array_items (at_key (at_key json ''comments'') ''comment'')
      in case traverse comment_detail comments of
           Inl e \<Rightarrow> (c, Some e)
         | Inr details \<Rightarrow>
             publish \<lparr>pcv_error = False, pcv_message = string_value (at_key json ''stat''),
                      pcv_comments = details\<rparr> c)"

definition comment_params :: "string \<Rightarrow> (string \<times> string) list" where
  "comment_params photo_id =
     [(METHOD, PHOTOS_COMMENTS_GETLIST), (API_KEY, API_KEY_VALUE), (PHOTO_ID, photo_id), (FORMAT, JSON_FORMAT),
      (NO_JSON_CALLBACK, ''1'')]"

definition comment_url :: "((string \<times> string) list \<Rightarrow> (string \<times> string) list) \<Rightarrow> string \<Rightarrow> string" where
  "comment_url iter photo_id = BASE_URL @ ''?'' @ convert_to_query_param_string (iter (comment_params photo_id))"

definition request_comments ::
  "(curl_handle \<Rightarrow> transfer) \<Rightarrow> (photo_comment_controller_impl \<Rightarrow> photo_comment_controller_impl option) \<Rightarrow>
   ((string \<times> string) list \<Rightarrow> (string \<times> string) list) \<Rightarrow> api_impl \<Rightarrow>
   photo_comment_controller_impl \<Rightarrow> photo_comment_controller_impl outcome" where
  "request_comments perform others iter api c =
     andthen (call_observer Begin_update c)
       (run_request perform others api (comment_url iter (pcc_id c))
          (\<lambda>url. comment_on_success) (\<lambda>url. comment_on_failure))"

section \<open>Details\<close>

record photo_detail_view_data =
  pd_error :: bool
  pd_message :: string
  pd_id :: string
  pd_title :: string
  pd_image_url :: string
  pd_owner_name :: string
  pd_owner_avatar_url :: string
  pd_number_of_view :: string
  pd_number_of_comment :: string

record photo_detail_controller_impl = "photo_detail_view_data controller" +
  pdc_id :: string

definition photo_detail_create :: "string \<Rightarrow> photo_detail_controller_impl" where
  "photo_detail_create photo_id = \<lparr>co_curl = curl_easy_init, co_observer = None, co_trace = [], pdc_id = photo_id\<rparr>"

definition detail_on_failure ::
  "string \<Rightarrow> photo_detail_controller_impl \<Rightarrow> photo_detail_controller_impl outcome" where
  "detail_on_failure reason c =
     (case json_parse reason [] STANDARD of (json, err) \<Rightarrow>
        let message = (if err = [] then string_value (at_key json ''message'') else [])
        in publish \<lparr>pd_error = True, pd_message = message, pd_id = pdc_id c, pd_title = [], pd_image_url = [],
                    pd_owner_name = [], pd_owner_avatar_url = [], pd_number_of_view = ''0'',
                    pd_number_of_comment = ''0''\<rparr> c)"

definition detail_on_success ::
  "string \<Rightarrow> photo_detail_controller_impl \<Rightarrow> photo_detail_controller_impl outcome" where
  "detail_on_success data c =
     (let json = fst (json_parse data [] STANDARD);
          photo = at_key json ''photo'';
          owner = at_key photo ''owner'';
          title = at_key photo ''title''
      in case rbind (int_value (at_key photo ''farm'')) (\<lambda>farm.
                rbind (int_value (at_key owner ''iconfarm'')) (\<lambda>iconfarm. Inr (farm, iconfarm))) of
           Inl e \<Rightarrow> (c, Some e)
         | Inr (farm, iconfarm) \<Rightarrow>
             let image_url = construct_flickr_image_url farm (string_value (at_key photo ''server''))
                   (string_value (at_key photo ''id'')) (string_value (at_key photo ''secret''));
                 avatar_url = construct_flickr_avatar_url iconfarm (string_value (at_key owner ''iconserver''))
                   (string_value (at_key owner ''nsid''))
             in publish
                  \<lparr>pd_error = False, pd_message = string_value (at_key json ''stat''),
                   pd_id = string_value (at_key photo ''id''),
                   pd_title = string_value (at_key title ''_content''), pd_image_url = image_url,
                   pd_owner_name = string_value (at_key owner ''username''), pd_owner_avatar_url = avatar_url,
                   pd_number_of_view = string_value (at_key photo ''views''),
                   pd_number_of_comment = string_value (at_key (at_key photo ''comments'') ''_content'')\<rparr> c)"

definition detail_params :: "string \<Rightarrow> (string \<times> string) list" where
  "detail_params photo_id =
     [(METHOD, PHOTOS_INFO), (API_KEY, API_KEY_VALUE), (PHOTO_ID, photo_id), (FORMAT, JSON_FORMAT),
      (NO_JSON_CALLBACK, ''1'')]"

definition detail_url :: "((string \<times> string) list \<Rightarrow> (string \<times> string) list) \<Rightarrow> string \<Rightarrow> string" where
  "detail_url iter photo_id = BASE_URL @ ''?'' @ convert_to_query_param_string (iter (detail_params photo_id))"

definition request_detail ::
  "(curl_handle \<Rightarrow> transfer) \<Rightarrow> (photo_detail_controller_impl \<Rightarrow> photo_detail_controller_impl option) \<Rightarrow>
   ((string \<times> string) list \<Rightarrow> (string \<times> string) list) \<Rightarrow> api_impl \<Rightarrow>
   photo_detail_controller_impl \<Rightarrow> photo_detail_controller_impl outcome" where
  "request_detail perform others iter api c =
     andthen (call_observer Begin_update c)
       (run_request perform others api (detail_url iter (pdc_id c))
          (\<lambda>url. detail_on_success) (\<lambda>url. detail_on_failure))"

section \<open>The update protocol\<close>

interpretation comments: handlers "\<lambda>_. True" "\<lambda>url. comment_on_success" "\<lambda>url. comment_on_failure"
  by unfold_locales
    (auto simp: comment_on_success_def comment_on_failure_def Let_def publish_eq split: sum.splits prod.splits)

interpretation details: handlers "\<lambda>_. True" "\<lambda>url. detail_on_success" "\<lambda>url. detail_on_failure"
  by unfold_locales
    (auto simp: detail_on_success_def detail_on_failure_def Let_def publish_eq split: sum.splits prod.splits)

text \<open>Neither controller keeps anything from a response: the state beside the trace is as created.\<close>

lemma comment_keeps_items:
  "pcc_items (fst (request_comments perform Some iter api c)) = pcc_items c"
  by (cases "co_observer c")
     (simp_all add: request_comments_def call_observer_def run_request_eq locked_def after_setup_def
       comment_on_success_def comment_on_failure_def Let_def publish_eq split: sum.splits prod.splits)

end
