(* ===== verification/Map_Controller.thy ===== *)
theory Map_Controller
  imports Controller Json_Parse_Props
begin

text \<open>
  \<open>map_controller.cpp\<close> with \<open>coordinate.hpp\<close> and the two coordinate marshallers: the
  geo-tagged photos of the map. The controller keeps no items, and its failure handler is
  empty.
\<close>

section \<open>Coordinates\<close>

record coordinate =
  lat :: double
  lng :: double

text \<open>
  The marshallers copy two doubles into a platform object and back. A platform object is the
  pair of doubles it was constructed from (\<open>LatLng\<close> and \<open>CLLocationCoordinate2D\<close> hold just
  these); a null Java reference violates the \<open>assert\<close>.
\<close>

type_synonym platform_coordinate = "double \<times> double"

definition coordinate_to_cpp :: "platform_coordinate option \<Rightarrow> coordinate result" where
  "coordinate_to_cpp j =
     (case j of None \<Rightarrow> Inl Null_dereference | Some (la, lo) \<Rightarrow> Inr \<lparr>lat = la, lng = lo\<rparr>)"

definition coordinate_from_cpp :: "coordinate \<Rightarrow> platform_coordinate" where
  "coordinate_from_cpp c = (lat c, lng c)"

definition objc_to_cpp :: "platform_coordinate \<Rightarrow> coordinate" where
  "objc_to_cpp x = \<lparr>lat = fst x, lng = snd x\<rparr>"

definition objc_from_cpp :: "coordinate \<Rightarrow> platform_coordinate" where
  "objc_from_cpp x = (lat x, lng x)"

lemma coordinate_roundtrip:
  "coordinate_to_cpp (Some (coordinate_from_cpp c)) = Inr c" "objc_to_cpp (objc_from_cpp c) = c"
  by (simp_all add: coordinate_to_cpp_def coordinate_from_cpp_def objc_to_cpp_def objc_from_cpp_def)

section \<open>State\<close>

record map_detail_view_data =
  md_id :: string
  md_image_url :: string
  md_text :: string
  md_location :: coordinate

record map_view_data =
  mv_error :: bool
  mv_message :: string
  mv_items :: "map_detail_view_data list"

type_synonym map_controller_impl = "map_view_data controller"

definition map_create :: map_controller_impl where
  "map_create = \<lparr>co_curl = curl_easy_init, co_observer = None, co_trace = []\<rparr>"

definition map_token :: string where
  "map_token = MAP_TOKEN"

section \<open>Operations\<close>

definition map_on_failure :: "string \<Rightarrow> map_controller_impl \<Rightarrow> map_controller_impl outcome" where
  "map_on_failure reason c = (c, None)"

definition map_detail :: "json \<Rightarrow> map_detail_view_data result" where
  "map_detail j =
     (let id = string_value (at_key j ''id'')
      in rbind (int_value (at_key j ''farm'')) (\<lambda>farm.
         rbind (stod (string_value (at_key j ''latitude''))) (\<lambda>la.
         rbind (stod (string_value (at_key j ''longitude''))) (\<lambda>lo.
           Inr \<lparr>md_id = id,
                md_image_url = construct_flickr_image_url farm (string_value (at_key j ''server'')) id
                                 (string_value (at_key j ''secret'')),
                md_text = string_value (at_key j ''title''),
                md_location = \<lparr>lat = la, lng = lo\<rparr>\<rparr>))))"

definition map_on_success :: "string \<Rightarrow> map_controller_impl \<Rightarrow> map_controller_impl outcome" where
  "map_on_success data c =
     (let json = fst (json_parse data [] STANDARD);
          photos = at_key (at_key json ''photos'') ''photo''
      in case traverse map_detail (array_items photos) of
           Inl e \<Rightarrow> (c, Some e)
         | Inr details \<Rightarrow> publish \<lparr>mv_error = False, mv_message = ''ok'', mv_items = details\<rparr> c)"

definition map_params :: "(string \<times> string) list" where
  "map_params =
     [(METHOD, PHOTOS_SEARCH), (API_KEY, API_KEY_VALUE), (FORMAT, JSON_FORMAT), (NO_JSON_CALLBACK, ''1''),
      (PER_PAGE, ''30''), (BBOX, ''-180,-90,180,90''), (SORT, INTERESTINGNESS_DESC), (EXTRAS, ''geo'')]"

definition map_url :: "((string \<times> string) list \<Rightarrow> (string \<times> string) list) \<Rightarrow> string" where
  "map_url iter = BASE_URL @ ''?'' @ convert_to_query_param_string (iter map_params)"

definition map_request ::
  "(curl_handle \<Rightarrow> transfer) \<Rightarrow> (map_controller_impl \<Rightarrow> map_controller_impl option) \<Rightarrow>
   ((string \<times> string) list \<Rightarrow> (string \<times> string) list) \<Rightarrow> api_impl \<Rightarrow>
   map_controller_impl \<Rightarrow> map_controller_impl outcome" where
  "map_request perform others iter api c =
     andthen (call_observer Begin_update c)
       (run_request perform others api (map_url iter) (\<lambda>url. map_on_success) (\<lambda>url. map_on_failure))"

section \<open>The update protocol\<close>

text \<open>Only a successful transfer ends the update that the request has begun.\<close>

interpretation map_ctrl: success_handler "\<lambda>_. True" "\<lambda>url. map_on_success"
  by unfold_locales (auto simp: map_on_success_def Let_def publish_eq split: sum.splits)

end
