(* ===== verification/Lmdbxx.thy ===== *)
theory Lmdbxx
  imports Cpp_Std
begin

text \<open>
  The database below the explore cache. First the part of LMDB's C interface the program
  uses, on the level of its contract: an environment holds the records of its main database
  in key order, a transaction works on a copy and commits it. Then the C++ wrapper
  \<open>lmdb++.h\<close>: return codes turned into exceptions, and handles whose destructors abort or
  close.

  What the operating system and the file decide is the parameter \<open>os\<close>: for the name of a C
  function, the code it fails with, or 0. How the records are laid out in pages is the
  subject of \<open>Lmdb_Pages\<close> and \<open>Lmdb_Cursor\<close>.
\<close>

section \<open>Return codes\<close>

definition MDB_SUCCESS :: int where "MDB_SUCCESS = 0"
definition MDB_KEYEXIST :: int where "MDB_KEYEXIST = - 30799"
definition MDB_NOTFOUND :: int where "MDB_NOTFOUND = - 30798"
definition MDB_CORRUPTED :: int where "MDB_CORRUPTED = - 30796"
definition MDB_PANIC :: int where "MDB_PANIC = - 30795"
definition MDB_VERSION_MISMATCH :: int where "MDB_VERSION_MISMATCH = - 30794"
definition MDB_MAP_FULL :: int where "MDB_MAP_FULL = - 30792"
definition MDB_PAGE_FULL :: int where "MDB_PAGE_FULL = - 30786"
definition MDB_BAD_TXN :: int where "MDB_BAD_TXN = - 30782"
definition MDB_BAD_VALSIZE :: int where "MDB_BAD_VALSIZE = - 30781"
definition MDB_BAD_DBI :: int where "MDB_BAD_DBI = - 30780"

text \<open>From the C library of the platform.\<close>

definition EACCES :: int where "EACCES = 13"
definition EINVAL :: int where "EINVAL = 22"

lemmas rc_defs =
  MDB_SUCCESS_def MDB_KEYEXIST_def MDB_NOTFOUND_def MDB_CORRUPTED_def MDB_PANIC_def
  MDB_VERSION_MISMATCH_def MDB_MAP_FULL_def MDB_PAGE_FULL_def MDB_BAD_TXN_def MDB_BAD_VALSIZE_def
  MDB_BAD_DBI_def EACCES_def EINVAL_def

section \<open>The C interface\<close>

type_synonym records = "(string \<times> string) list"

text \<open>
  A transaction: its flags, its copy of the records, and how often \<open>free\<close> has been called
  on it. The write transaction of an environment is preallocated (\<open>me_txn0\<close>), and is freed
  when the environment is closed.
\<close>

record mdb_txn =
  mt_rdonly :: bool
  mt_finished :: bool
  mt_error :: bool
  mt_records :: records
  mt_frees :: nat

definition mdb_txn_begin :: "(string \<Rightarrow> int) \<Rightarrow> records \<Rightarrow> bool \<Rightarrow> int \<times> mdb_txn" where
  "mdb_txn_begin os recs rdonly =
     (os ''mdb_txn_begin'',
      \<lparr>mt_rdonly = rdonly, mt_finished = False, mt_error = False, mt_records = recs, mt_frees = 0\<rparr>)"

text \<open>
  \<open>mdb_txn_end\<close> without a parent; \<open>free_it\<close> is the flag \<open>MDB_END_FREE\<close> of the mode. A running
  write transaction clears the mode, so that \<open>me_txn0\<close> is not freed.
\<close>

definition mdb_txn_end :: "bool \<Rightarrow> mdb_txn \<Rightarrow> mdb_txn" where
  "mdb_txn_end free_it t =
     (let mode = (if mt_rdonly t then free_it else if \<not> mt_finished t then False else free_it);
          t1 = (if mt_rdonly t \<or> mt_finished t then t\<lparr>mt_finished := True\<rparr>
                else t\<lparr>mt_finished := True, mt_error := False\<rparr>)
      in if mode then t1\<lparr>mt_frees := mt_frees t1 + 1\<rparr> else t1)"

definition mdb_txn_abort :: "mdb_txn \<Rightarrow> mdb_txn" where
  "mdb_txn_abort t = mdb_txn_end True t"

text \<open>
  \<open>mdb_txn_commit\<close> without parent or child: the return code, the transaction, and the
  committed records if anything was written.
\<close>

definition mdb_txn_commit :: "(string \<Rightarrow> int) \<Rightarrow> mdb_txn \<Rightarrow> int \<times> mdb_txn \<times> records option" where
  "mdb_txn_commit os t =
     (if mt_rdonly t then (MDB_SUCCESS, mdb_txn_end True t, None)
      else if mt_finished t \<or> mt_error t then (MDB_BAD_TXN, mdb_txn_abort t, None)
      else if os ''mdb_txn_commit'' \<noteq> 0 then (os ''mdb_txn_commit'', mdb_txn_abort t, None)
      else (MDB_SUCCESS, mdb_txn_end False t, Some (mt_records t)))"

definition ENV_MAXKEY :: nat where "ENV_MAXKEY = 511"
definition MAXDATASIZE :: nat where "MAXDATASIZE = 0xffffffff"

text \<open>
  \<open>mdb_put\<close> with no flags on a database without duplicates: the guards of \<open>mdb_put\<close> and
  \<open>mdb_cursor_put\<close> in their order (a finished transaction has no databases left), then the insertion. A failure past the guards (no room in
  the map, an I/O error) marks the transaction.
\<close>

definition mdb_put :: "(string \<Rightarrow> int) \<Rightarrow> mdb_txn \<Rightarrow> string \<Rightarrow> string \<Rightarrow> int \<times> mdb_txn" where
  "mdb_put os t key data =
     (if mt_finished t then (EINVAL, t)
      else if mt_rdonly t then (EACCES, t)
      else if mt_error t then (MDB_BAD_TXN, t)
      else if length key = 0 \<or> ENV_MAXKEY \<le> length key - 1 then (MDB_BAD_VALSIZE, t)
      else if MAXDATASIZE < length data then (MDB_BAD_VALSIZE, t)
      else if os ''mdb_put'' \<noteq> 0 then (os ''mdb_put'', t\<lparr>mt_error := True\<rparr>)
      else (MDB_SUCCESS, t\<lparr>mt_records := map_put key data (mt_records t)\<rparr>))"

text \<open>
  What a cursor does, over the records in key order: its position once initialized, and the
  end-of-file flag. That the cursor of \<open>mdb.c\<close>, a stack of pages, does this is shown in
  \<open>Lmdb_Cursor_Props\<close>.
\<close>

record cursor_spec =
  cs_index :: "nat option"
  cs_eof :: bool

definition cursor_open_spec :: cursor_spec where
  "cursor_open_spec = \<lparr>cs_index = None, cs_eof = False\<rparr>"

definition cursor_first_spec ::
  "records \<Rightarrow> cursor_spec \<Rightarrow> int \<times> cursor_spec \<times> (string \<times> string) option" where
  "cursor_first_spec recs mc =
     (if recs = [] then (MDB_NOTFOUND, mc, None)
      else (MDB_SUCCESS, \<lparr>cs_index = Some 0, cs_eof = False\<rparr>, Some (recs ! 0)))"

definition cursor_next_spec ::
  "records \<Rightarrow> cursor_spec \<Rightarrow> int \<times> cursor_spec \<times> (string \<times> string) option" where
  "cursor_next_spec recs mc =
     (if cs_eof mc then (MDB_NOTFOUND, mc, None)
      else case cs_index mc of
          None \<Rightarrow> (MDB_NOTFOUND, mc, None)
        | Some i \<Rightarrow>
            if length recs \<le> i + 1 then (MDB_NOTFOUND, mc\<lparr>cs_eof := True\<rparr>, None)
            else (MDB_SUCCESS, mc\<lparr>cs_index := Some (i + 1)\<rparr>, Some (recs ! (i + 1))))"

datatype cursor_op = MDB_FIRST | MDB_NEXT

definition cursor_get_spec ::
  "(string \<Rightarrow> int) \<Rightarrow> mdb_txn \<Rightarrow> cursor_spec \<Rightarrow> cursor_op \<Rightarrow> int \<times> cursor_spec \<times> (string \<times> string) option" where
  "cursor_get_spec os t mc op =
     (if mt_finished t \<or> mt_error t then (MDB_BAD_TXN, mc, None)
      else if os ''mdb_cursor_get'' \<noteq> 0 then (os ''mdb_cursor_get'', mc, None)
      else case op of
          MDB_FIRST \<Rightarrow> cursor_first_spec (mt_records t) mc
        | MDB_NEXT \<Rightarrow> if cs_index mc = None then cursor_first_spec (mt_records t) mc
                     else cursor_next_spec (mt_records t) mc)"

section \<open>Return codes as exceptions\<close>

definition lmdb_raise :: "string \<Rightarrow> int \<Rightarrow> cpp_error" where
  "lmdb_raise origin rc =
     (if rc = MDB_KEYEXIST then Lmdb_error key_exist_error origin rc
      else if rc = MDB_NOTFOUND then Lmdb_error not_found_error origin rc
      else if rc = MDB_CORRUPTED then Lmdb_error corrupted_error origin rc
      else if rc = MDB_PANIC then Lmdb_error panic_error origin rc
      else if rc = MDB_VERSION_MISMATCH then Lmdb_error version_mismatch_error origin rc
      else if rc = MDB_MAP_FULL then Lmdb_error map_full_error origin rc
      else if rc = MDB_BAD_DBI then Lmdb_error bad_dbi_error origin rc
      else Lmdb_error runtime_error origin rc)"

definition env_create :: "(string \<Rightarrow> int) \<Rightarrow> unit result" where
  "env_create os =
     (let rc = os ''mdb_env_create'' in if rc \<noteq> MDB_SUCCESS then Inl (lmdb_raise ''mdb_env_create'' rc) else Inr ())"

text \<open>The files of the process: the records of the environment at a path, if the file exists.\<close>

type_synonym files = "string \<Rightarrow> records option"

definition env_open :: "(string \<Rightarrow> int) \<Rightarrow> files \<Rightarrow> string \<Rightarrow> files result" where
  "env_open os fs path =
     (let rc = os ''mdb_env_open''
      in if rc \<noteq> MDB_SUCCESS then Inl (lmdb_raise ''mdb_env_open'' rc)
         else Inr (case fs path of None \<Rightarrow> fs(path \<mapsto> []) | Some _ \<Rightarrow> fs))"

definition txn_begin :: "(string \<Rightarrow> int) \<Rightarrow> records \<Rightarrow> bool \<Rightarrow> mdb_txn result" where
  "txn_begin os recs rdonly =
     (case mdb_txn_begin os recs rdonly of (rc, t) \<Rightarrow>
        if rc \<noteq> MDB_SUCCESS then Inl (lmdb_raise ''mdb_txn_begin'' rc) else Inr t)"

text \<open>\<open>mdb_dbi_open\<close> without a name opens the main database.\<close>

definition dbi_open :: "(string \<Rightarrow> int) \<Rightarrow> mdb_txn \<Rightarrow> unit result" where
  "dbi_open os t =
     (let rc = (if mt_finished t \<or> mt_error t then MDB_BAD_TXN else MDB_SUCCESS)
      in if rc \<noteq> MDB_SUCCESS then Inl (lmdb_raise ''mdb_dbi_open'' rc) else Inr ())"

definition dbi_put :: "(string \<Rightarrow> int) \<Rightarrow> mdb_txn \<Rightarrow> string \<Rightarrow> string \<Rightarrow> (bool \<times> mdb_txn) result" where
  "dbi_put os t key data =
     (case mdb_put os t key data of (rc, t') \<Rightarrow>
        if rc \<noteq> MDB_SUCCESS \<and> rc \<noteq> MDB_KEYEXIST then Inl (lmdb_raise ''mdb_put'' rc)
        else Inr (rc = MDB_SUCCESS, t'))"

definition cursor_open :: "(string \<Rightarrow> int) \<Rightarrow> mdb_txn \<Rightarrow> cursor_spec result" where
  "cursor_open os t =
     (let rc = (if mt_finished t then EINVAL else if mt_error t then MDB_BAD_TXN else os ''mdb_cursor_open'')
      in if rc \<noteq> MDB_SUCCESS then Inl (lmdb_raise ''mdb_cursor_open'' rc) else Inr cursor_open_spec)"

text \<open>
  \<open>cursor::get\<close> into two strings: whether there was a record, which is copied out; None
  leaves the strings alone.
\<close>

definition cursor_get ::
  "(string \<Rightarrow> int) \<Rightarrow> mdb_txn \<Rightarrow> cursor_spec \<Rightarrow> cursor_op \<Rightarrow> (cursor_spec \<times> (string \<times> string) option) result" where
  "cursor_get os t mc op =
     (case cursor_get_spec os t mc op of (rc, mc', r) \<Rightarrow>
        if rc \<noteq> MDB_SUCCESS \<and> rc \<noteq> MDB_NOTFOUND then Inl (lmdb_raise ''mdb_cursor_get'' rc)
        else Inr (mc', if rc = MDB_SUCCESS then r else None))"

section \<open>Handles\<close>

text \<open>
  An \<open>lmdb::txn\<close>: the transaction and whether \<open>_handle\<close> is set. \<open>commit\<close> clears the handle
  only when the commit succeeds; the destructor aborts what the handle still names.
\<close>

record txn_handle =
  th_txn :: mdb_txn
  th_live :: bool

definition handle_commit :: "(string \<Rightarrow> int) \<Rightarrow> txn_handle \<Rightarrow> txn_handle \<times> (records option) result" where
  "handle_commit os h =
     (case mdb_txn_commit os (th_txn h) of (rc, t, recs) \<Rightarrow>
        if rc \<noteq> MDB_SUCCESS then (h\<lparr>th_txn := t\<rparr>, Inl (lmdb_raise ''mdb_txn_commit'' rc))
        else (\<lparr>th_txn = t, th_live = False\<rparr>, Inr recs))"

definition handle_abort :: "txn_handle \<Rightarrow> txn_handle" where
  "handle_abort h = \<lparr>th_txn = mdb_txn_abort (th_txn h), th_live = False\<rparr>"

definition handle_destroy :: "txn_handle \<Rightarrow> txn_handle" where
  "handle_destroy h = (if th_live h then handle_abort h else h)"

text \<open>
  \<open>mdb_env_close\<close> frees \<open>me_txn0\<close>: how often the write transaction has then been freed.
\<close>

definition env_close_frees :: "txn_handle \<Rightarrow> nat" where
  "env_close_frees h = mt_frees (th_txn h) + 1"

section \<open>Facts\<close>

lemma cursor_get_first:
  assumes "\<not> mt_finished t" "\<not> mt_error t" "os ''mdb_cursor_get'' = 0" "mt_records t \<noteq> []"
  shows "cursor_get os t cursor_open_spec MDB_NEXT
    = Inr (\<lparr>cs_index = Some 0, cs_eof = False\<rparr>, Some (mt_records t ! 0))"
  using assms
  by (simp add: cursor_get_def cursor_get_spec_def cursor_open_spec_def cursor_first_spec_def MDB_SUCCESS_def)

lemma mdb_put_ok:
  "mdb_put os t key data = (MDB_SUCCESS, t') \<longleftrightarrow>
     \<not> mt_rdonly t \<and> \<not> mt_finished t \<and> \<not> mt_error t \<and> 0 < length key \<and> length key \<le> ENV_MAXKEY
     \<and> length data \<le> MAXDATASIZE \<and> os ''mdb_put'' = 0
     \<and> t' = t\<lparr>mt_records := map_put key data (mt_records t)\<rparr>"
  by (auto simp: mdb_put_def rc_defs ENV_MAXKEY_def split: if_splits)

text \<open>A write transaction that commits, or is aborted once, is left to \<open>mdb_env_close\<close>.\<close>

lemma handle_frees_once:
  assumes "\<not> mt_rdonly (th_txn h)" "\<not> mt_finished (th_txn h)" "mt_frees (th_txn h) = 0" "th_live h"
  shows "env_close_frees (handle_destroy h) = 1"
    and "handle_commit os h = (h', Inr recs) \<Longrightarrow> env_close_frees (handle_destroy h') = 1"
    and "handle_commit os h = (h', Inl e) \<Longrightarrow> env_close_frees (handle_destroy h') = 2"
  using assms
  by (auto simp: env_close_frees_def handle_destroy_def handle_abort_def handle_commit_def mdb_txn_abort_def
      mdb_txn_end_def mdb_txn_commit_def MDB_BAD_TXN_def MDB_SUCCESS_def Let_def split: if_splits)

section \<open>What a store promises\<close>

text \<open>
  The contract of an ordered store of records: what is stored is found under its key, and
  nothing else changes. \<open>ok\<close> is the provider's invariant, \<open>store\<close> fails with None.
\<close>

locale record_store =
  fixes ok :: "'s \<Rightarrow> bool"
    and records_of :: "'s \<Rightarrow> records"
    and store :: "string \<Rightarrow> string \<Rightarrow> 's \<Rightarrow> 's option"
  assumes ok_sorted: "ok s \<Longrightarrow> map_sorted (records_of s)"
    and store_ok: "ok s \<Longrightarrow> store k v s = Some s' \<Longrightarrow> ok s'"
    and store_records: "ok s \<Longrightarrow> store k v s = Some s' \<Longrightarrow> records_of s' = map_put k v (records_of s)"

context record_store begin

lemma stored_found: "ok s \<Longrightarrow> store k v s = Some s' \<Longrightarrow> map_of (records_of s') k = Some v"
  by (simp add: store_records)

lemma stored_other: "ok s \<Longrightarrow> store k v s = Some s' \<Longrightarrow> l \<noteq> k \<Longrightarrow> map_of (records_of s') l = map_of (records_of s) l"
  by (simp add: store_records)

lemma stored_keys: "ok s \<Longrightarrow> store k v s = Some s' \<Longrightarrow> fst ` set (records_of s') = insert k (fst ` set (records_of s))"
  by (simp add: store_records)

lemma stored_sorted: "ok s \<Longrightarrow> store k v s = Some s' \<Longrightarrow> map_sorted (records_of s')"
  using ok_sorted store_ok by blast

end

text \<open>A write transaction is such a store.\<close>

definition txn_store :: "(string \<Rightarrow> int) \<Rightarrow> string \<Rightarrow> string \<Rightarrow> mdb_txn \<Rightarrow> mdb_txn option" where
  "txn_store os k v t = (case mdb_put os t k v of (rc, t') \<Rightarrow> if rc = MDB_SUCCESS then Some t' else None)"

interpretation write_txn: record_store "\<lambda>t. map_sorted (mt_records t)" mt_records "txn_store os"
  by unfold_locales
    (auto simp: txn_store_def mdb_put_ok map_sorted_put split: prod.splits if_splits)

end
