(* ===== verification/Explore_Controller.thy ===== *)
theory Explore_Controller
  imports Controller Lmdbxx Json_Parse_Props
begin

text \<open>
  \<open>explore_controller.cpp\<close>: the paged list of interesting photos, with a cache of the
  responses in an LMDB file, keyed by the address that was requested. The state is the
  controller and the files its database calls see.
\<close>

section \<open>State\<close>

record explore_detail_view_data =
  ed_id :: string
  ed_image_url :: string
  ed_title :: string

record explore_view_data =
  ev_error :: bool
  ev_message :: string
  ev_explores :: "explore_detail_view_data list"

record explore_controller_impl = "explore_view_data controller" +
  ec_items :: "explore_detail_view_data list"
  ec_files :: files

definition explore_create :: "files \<Rightarrow> explore_controller_impl" where
  "explore_create fs =
     \<lparr>co_curl = curl_easy_init, co_observer = None, co_trace = [], ec_items = [], ec_files = fs\<rparr>"

definition item_per_page :: nat where
  "item_per_page = 10"

definition explore_reset :: "explore_controller_impl \<Rightarrow> explore_controller_impl" where
  "explore_reset c = c\<lparr>ec_items := []\<rparr>"

section \<open>Reading a response\<close>

definition explore_detail :: "json \<Rightarrow> explore_detail_view_data result" where
  "explore_detail j =
     (let id = string_value (at_key j ''id'')
      in rbind (int_value (at_key j ''farm'')) (\<lambda>farm.
           Inr \<lparr>ed_id = id,
                ed_image_url = construct_flickr_image_url farm (string_value (at_key j ''server'')) id
                                 (string_value (at_key j ''secret'')),
                ed_title = string_value (at_key j ''title'')\<rparr>))"

definition construct_detail_view_data_from_data :: "string \<Rightarrow> explore_detail_view_data list result" where
  "construct_detail_view_data_from_data data =
     (let json = fst (json_parse data [] STANDARD);
          photos = array_items (at_key (at_key json ''photos'') ''photo'')
      in traverse explore_detail photos)"

section \<open>Addresses and pages\<close>

definition explore_params :: "8 word \<Rightarrow> (string \<times> string) list" where
  "explore_params page =
     [(METHOD, INTERESTINGNESS_GETLIST), (API_KEY, API_KEY_VALUE), (FORMAT, JSON_FORMAT),
      (NO_JSON_CALLBACK, ''1''), (PAGE, dec_int (sint page)), (PER_PAGE, dec_int (int item_per_page))]"

definition construct_url :: "string \<Rightarrow> 8 word \<Rightarrow> string" where
  "construct_url url page = url @ ''?'' @ convert_to_query_param_string (explore_params page)"

text \<open>The page of an address as \<open>on_success\<close> reads it: one character after \<open>page=\<close>.\<close>

definition page_of_url :: "string \<Rightarrow> int result" where
  "page_of_url url =
     (case string_find ''page='' url of
        None \<Rightarrow> Inr (- 1)
      | Some found \<Rightarrow> rbind (substr url (found + 5) 1) stoi)"

text \<open>
  Where the items of a page go: over the slot of the page when the vector reaches to its
  end, at the end of the vector otherwise. The comparison is on \<open>size_t\<close>, the iterator
  arithmetic on \<open>int\<close>.
\<close>

definition place_items :: "'a list \<Rightarrow> int \<Rightarrow> 'a list \<Rightarrow> 'a list result" where
  "place_items items page data =
     (if size_of_int (page * int item_per_page) \<le> length items
      then copy_at items ((page - 1) * int item_per_page) data
      else Inr (items @ data))"

section \<open>The cache\<close>

text \<open>
  The loop over the cursor of \<open>request_db\<close>: the first record whose key is the address. Every
  turn moves the cursor, so one turn more than there are records ends it.
\<close>

fun scan_loop :: "nat \<Rightarrow> (string \<Rightarrow> int) \<Rightarrow> mdb_txn \<Rightarrow> cursor_spec \<Rightarrow> string \<Rightarrow> (string option) result" where
  "scan_loop 0 os t mc url = Inr None"
| "scan_loop (Suc fuel) os t mc url =
     (case cursor_get os t mc MDB_NEXT of
        Inl e \<Rightarrow> Inl e
      | Inr (mc', None) \<Rightarrow> Inr None
      | Inr (mc', Some (key, value)) \<Rightarrow>
          if key = url then Inr (Some value) else scan_loop fuel os t mc' url)"

text \<open>
  The files change when opening creates the database file. When an exception leaves, here or in
  saving, a file created just then is not kept: it has no records, and is read like one not there.
\<close>

definition request_db ::
  "(string \<Rightarrow> int) \<Rightarrow> api_impl \<Rightarrow> files \<Rightarrow> 8 word \<Rightarrow> (files \<times> explore_detail_view_data list) result" where
  "request_db os api fs page =
     rbind (env_create os) (\<lambda>_.
     rbind (env_open os fs (db_file api ''explore'')) (\<lambda>fs1.
     (let recs = the (fs1 (db_file api ''explore'')); url = construct_url BASE_URL page in
     rbind (txn_begin os recs True) (\<lambda>txn.
     rbind (dbi_open os txn) (\<lambda>_.
     rbind (cursor_open os txn) (\<lambda>cursor.
     rbind (scan_loop (length recs + 1) os txn cursor url) (\<lambda>found.
     (case found of
        None \<Rightarrow> Inr (fs1, [])
      | Some value \<Rightarrow> rbind (construct_detail_view_data_from_data value) (\<lambda>results. Inr (fs1, results))))))))))"

text \<open>
  Saving a response. When the commit fails, the exception leaves through the destructors of
  the transaction and the environment, and the write transaction is freed by both.
\<close>

definition save_response ::
  "(string \<Rightarrow> int) \<Rightarrow> api_impl \<Rightarrow> files \<Rightarrow> string \<Rightarrow> string \<Rightarrow> files result" where
  "save_response os api fs url data =
     rbind (env_create os) (\<lambda>_.
     rbind (env_open os fs (db_file api ''explore'')) (\<lambda>fs1.
     (let path = db_file api ''explore''; recs = the (fs1 path) in
     rbind (txn_begin os recs False) (\<lambda>wtxn.
     rbind (dbi_open os wtxn) (\<lambda>_.
     rbind (dbi_put os wtxn (c_str url) (c_str data)) (\<lambda>(stored, wtxn1).
     (case handle_commit os \<lparr>th_txn = wtxn1, th_live = True\<rparr> of
        (h, Inl e) \<Rightarrow> if 1 < env_close_frees (handle_destroy h) then Inl Double_free else Inl e
      | (h, Inr None) \<Rightarrow> Inr fs1
      | (h, Inr (Some recs')) \<Rightarrow> Inr (fs1(path \<mapsto> recs')))))))))"

section \<open>Handlers\<close>

definition explore_on_failure ::
  "string \<Rightarrow> string \<Rightarrow> explore_controller_impl \<Rightarrow> explore_controller_impl outcome" where
  "explore_on_failure url reason c =
     (case json_parse reason [] STANDARD of (json, err) \<Rightarrow>
        let message = (if err = [] then string_value (at_key json ''message'')
                       else ''There is something wrong, please try again later'')
        in publish \<lparr>ev_error = True, ev_message = message, ev_explores = ec_items c\<rparr> c)"

definition explore_on_success ::
  "(string \<Rightarrow> int) \<Rightarrow> api_impl \<Rightarrow> string \<Rightarrow> string \<Rightarrow> explore_controller_impl \<Rightarrow> explore_controller_impl outcome" where
  "explore_on_success os api url data c =
     (case construct_detail_view_data_from_data data of
        Inl e \<Rightarrow> (c, Some e)
      | Inr details \<Rightarrow>
     (case page_of_url url of
        Inl e \<Rightarrow> (c, Some e)
      | Inr page \<Rightarrow>
          if page = - 1 then (c, None)
          else
     (case place_items (ec_items c) page details of
        Inl e \<Rightarrow> (c, Some e)
      | Inr items \<Rightarrow>
          let c1 = c\<lparr>ec_items := items\<rparr>
          in andthen (publish \<lparr>ev_error = False, ev_message = ''ok'', ev_explores = items\<rparr> c1) (\<lambda>c2.
               case save_response os api (ec_files c2) url data of
                 Inl e \<Rightarrow> (c2, Some e)
               | Inr fs \<Rightarrow> (c2\<lparr>ec_files := fs\<rparr>, None)))))"

text \<open>The part of \<open>request\<close> between the announcement and the transfer.\<close>

definition show_cache ::
  "(string \<Rightarrow> int) \<Rightarrow> api_impl \<Rightarrow> 8 word \<Rightarrow> explore_controller_impl \<Rightarrow> explore_controller_impl outcome" where
  "show_cache os api page c =
     (case request_db os api (ec_files c) page of
        Inl e \<Rightarrow> (c, Some e)
      | Inr (fs, data) \<Rightarrow>
     (case place_items (ec_items c) (sint page) data of
        Inl e \<Rightarrow> (c, Some e)
      | Inr items \<Rightarrow>
          let c1 = c\<lparr>ec_items := items, ec_files := fs\<rparr>
          in call_observer (Update \<lparr>ev_error = False, ev_message = ''cache'', ev_explores = items\<rparr>) c1))"

definition explore_request ::
  "(curl_handle \<Rightarrow> transfer) \<Rightarrow> (explore_controller_impl \<Rightarrow> explore_controller_impl option) \<Rightarrow>
   (string \<Rightarrow> int) \<Rightarrow> api_impl \<Rightarrow> 8 word \<Rightarrow> explore_controller_impl \<Rightarrow> explore_controller_impl outcome" where
  "explore_request perform others os api page c =
     andthen (andthen (call_observer Begin_update c) (show_cache os api page))
       (run_request perform others api (construct_url BASE_URL page)
          (explore_on_success os api) explore_on_failure)"

section \<open>The page of a requested address\<close>

text \<open>What comes before the page in every address.\<close>

definition url_prefix :: string where
  "url_prefix = BASE_URL @ ''?'' @ convert_to_query_param_string
     [(METHOD, INTERESTINGNESS_GETLIST), (API_KEY, API_KEY_VALUE), (FORMAT, JSON_FORMAT), (NO_JSON_CALLBACK, ''1'')]"

lemma construct_url_eq:
  "construct_url BASE_URL page = url_prefix @ ''page='' @ dec_int (sint page) @ ''&per_page=10&''"
proof -
  have "dec_int (int item_per_page) = ''10''"
    by (simp add: item_per_page_def dec_int_def dec_nat_step dec_nat_small digit_char_def char_of_def bit_Suc_0_iff)
  then show ?thesis
    by (simp add: construct_url_def explore_params_def url_prefix_def PAGE_def PER_PAGE_def)
qed

lemma find_page: "string_find ''page='' (url_prefix @ ''page='' @ rest) = Some (length url_prefix)"
  by (simp add: url_prefix_def constant_defs)

lemma page_of_construct_url:
  "page_of_url (construct_url BASE_URL page) = stoi [hd (dec_int (sint page))]"
proof -
  obtain c cs where c: "dec_int (sint page) = c # cs"
    by (cases "dec_int (sint page)") (auto simp: dec_int_def split: if_splits)
  have "take 1 (drop (length url_prefix + 5) (url_prefix @ ''page='' @ c # cs @ ''&per_page=10&'')) = [c]"
    by simp
  moreover have "\<not> length (url_prefix @ ''page='' @ c # cs @ ''&per_page=10&'') < length url_prefix + 5" by simp
  ultimately show ?thesis
    unfolding construct_url_eq page_of_url_def find_page c by (simp add: substr_def)
qed

end
