(* ===== verification/Explore_Props.thy ===== *)
theory Explore_Props
  imports Explore_Controller
begin

text \<open>
  The explore controller: which page an address carries, where a page of items goes, that the
  cache returns what was saved, and the update protocol of a request.
\<close>

section \<open>Pages\<close>

lemma stoi_digit: "n < 10 \<Longrightarrow> stoi [digit_char n] = Inr (int n)"
  using stoi_dec_int [of "int n"] by (simp add: dec_int_def dec_nat_small is_int_def int_min_def int_max_def)

lemma page_small:
  assumes "0 \<le> sint page" and "sint page \<le> 9"
  shows "page_of_url (construct_url BASE_URL page) = Inr (sint page)"
proof -
  have "dec_int (sint page) = [digit_char (nat (sint page))]"
    using assms by (simp add: dec_int_def dec_nat_small)
  then show ?thesis using assms by (simp add: page_of_construct_url stoi_digit)
qed

lemma page_two_digits:
  assumes "10 \<le> sint page" and "sint page \<le> 99"
  shows "page_of_url (construct_url BASE_URL page) = Inr (sint page div 10)"
proof -
  let ?n = "nat (sint page)"
  have "dec_int (sint page) = [digit_char (?n div 10), digit_char (?n mod 10)]"
    using assms by (simp add: dec_int_def dec_nat_step dec_nat_small)
  then show ?thesis using assms by (simp add: page_of_construct_url stoi_digit nat_div_distrib zdiv_int)
qed

lemma page_three_digits:
  assumes "100 \<le> sint page"
  shows "page_of_url (construct_url BASE_URL page) = Inr 1"
proof -
  let ?n = "nat (sint page)"
  have "sint page < 2 ^ 7" using sint_lt [of page] by simp
  then have n: "100 \<le> ?n" "?n < 128" "?n div 10 div 10 = 1" using assms by simp_all
  then have "dec_nat ?n = dec_nat (?n div 10 div 10) @ [digit_char (?n div 10 mod 10), digit_char (?n mod 10)]"
    by (simp add: dec_nat_step [of ?n] dec_nat_step [of "?n div 10"])
  then have "hd (dec_int (sint page)) = digit_char 1"
    using assms n by (simp add: dec_int_def dec_nat_small)
  then show ?thesis using stoi_digit [of 1] by (simp add: page_of_construct_url)
qed

lemma page_negative:
  assumes "sint page < 0"
  shows "page_of_url (construct_url BASE_URL page) = Inl Invalid_argument"
  using assms
  by (simp add: page_of_construct_url dec_int_def stoi_def strtol10_def is_space_def)

section \<open>Slots\<close>

lemma place_append:
  assumes "0 \<le> page" and "page < 2 ^ 32" and "int (length items) < page * 10"
  shows "place_items items page data = Inr (items @ data)"
proof -
  have "\<not> nat (page * 10) \<le> length items" using assms by linarith
  then show ?thesis using assms by (simp add: place_items_def item_per_page_def size_of_int_nonneg)
qed

lemma place_slot:
  assumes "1 \<le> page" and "page < 2 ^ 32" and "page * 10 \<le> int (length items)" and "length data \<le> 10"
  shows "place_items items page data =
    Inr (take (nat (page - 1) * 10) items @ data @ drop (nat (page - 1) * 10 + length data) items)"
proof -
  have "nat (page * 10) \<le> length items" using assms by linarith
  moreover have "nat ((page - 1) * 10) = nat (page - 1) * 10" using assms by (simp add: nat_mult_distrib)
  moreover have "0 \<le> (page - 1) * 10" using assms by simp
  moreover have "(page - 1) * 10 + int (length data) \<le> int (length items)"
  proof -
    have "int (length data) \<le> 10" using assms(4) by simp
    with assms(3) show ?thesis by (simp add: algebra_simps)
  qed
  ultimately show ?thesis
    using assms by (simp add: place_items_def item_per_page_def size_of_int_nonneg copy_at_def)
qed

text \<open>Page 0 is below the first slot; a page past the last slot needs room for its data.\<close>

lemma place_zero: "place_items items 0 data = Inl Out_of_bounds"
  by (simp add: place_items_def item_per_page_def size_of_int_def copy_at_def)

lemma place_negative:
  assumes "page < 0" and "- 128 \<le> page" and "length items < 2 ^ 63"
  shows "place_items items page data = Inr (items @ data)"
proof -
  have "2 ^ 63 \<le> size_of_int (page * 10)" using assms(1,2) by (intro size_of_int_neg) simp_all
  with assms(3) show ?thesis by (simp add: place_items_def item_per_page_def)
qed

section \<open>The cache\<close>

lemma scan_from:
  assumes "\<not> mt_finished t" "\<not> mt_error t" "os ''mdb_cursor_get'' = 0"
    and "mc = \<lparr>cs_index = Some i, cs_eof = False\<rparr>" and "i < length (mt_records t)"
    and "length (mt_records t) - i \<le> fuel"
  shows "scan_loop fuel os t mc url = Inr (map_of (drop (Suc i) (mt_records t)) url)"
  using assms(4-)
proof (induction fuel arbitrary: i mc)
  case (Suc fuel)
  show ?case
  proof (cases "Suc i < length (mt_records t)")
    case True
    obtain k v where kv: "mt_records t ! Suc i = (k, v)" by fastforce
    have d: "drop (Suc i) (mt_records t) = (k, v) # drop (Suc (Suc i)) (mt_records t)"
      using Cons_nth_drop_Suc [OF True] kv by simp
    show ?thesis
      using Suc.IH [OF refl True] Suc.prems assms(1-3) True d kv
      by (simp add: cursor_get_def cursor_get_spec_def cursor_next_spec_def MDB_SUCCESS_def)
  next
    case False
    with Suc.prems assms(1-3) show ?thesis
      by (simp add: cursor_get_def cursor_get_spec_def cursor_next_spec_def rc_defs)
  qed
qed simp

lemma scan_all:
  assumes "\<not> mt_finished t" "\<not> mt_error t" "os ''mdb_cursor_get'' = 0"
  shows "scan_loop (length (mt_records t) + 1) os t cursor_open_spec url = Inr (map_of (mt_records t) url)"
proof (cases "mt_records t")
  case Nil
  with assms show ?thesis
    by (simp add: cursor_get_def cursor_get_spec_def cursor_first_spec_def cursor_open_spec_def rc_defs)
next
  case (Cons r rs)
  obtain k v where "r = (k, v)" by (cases r)
  with Cons assms cursor_get_first [of t os]
    scan_from [where t = t and os = os and i = 0 and fuel = "length (mt_records t)" and url = url
      and mc = "\<lparr>cs_index = Some 0, cs_eof = False\<rparr>"]
  show ?thesis by simp
qed

text \<open>An operating system that lets every call through.\<close>

definition calm :: "(string \<Rightarrow> int) \<Rightarrow> bool" where
  "calm os = (\<forall>f \<in> {''mdb_env_create'', ''mdb_env_open'', ''mdb_txn_begin'', ''mdb_cursor_open'',
     ''mdb_cursor_get'', ''mdb_put'', ''mdb_txn_commit''}. os f = 0)"

definition explore_records :: "api_impl \<Rightarrow> files \<Rightarrow> records" where
  "explore_records api fs = (case fs (db_file api ''explore'') of None \<Rightarrow> [] | Some recs \<Rightarrow> recs)"

lemma request_db_calm:
  assumes "calm os"
  shows "request_db os api fs page =
    (let fs1 = fs(db_file api ''explore'' \<mapsto> explore_records api fs)
     in case map_of (explore_records api fs) (construct_url BASE_URL page) of
          None \<Rightarrow> Inr (fs1, [])
        | Some value \<Rightarrow> rbind (construct_detail_view_data_from_data value) (\<lambda>results. Inr (fs1, results)))"
proof -
  let ?t = "\<lambda>recs. \<lparr>mt_rdonly = True, mt_finished = False, mt_error = False, mt_records = recs, mt_frees = 0\<rparr>"
  have s: "scan_loop (length recs + 1) os (?t recs) cursor_open_spec url = Inr (map_of recs url)" for recs url
    using scan_all [of "?t recs" os url] assms by (simp add: calm_def)
  show ?thesis
    using assms s
    by (cases "fs (db_file api ''explore'')")
       (simp_all add: request_db_def calm_def env_create_def env_open_def txn_begin_def mdb_txn_begin_def
         dbi_open_def cursor_open_def explore_records_def MDB_SUCCESS_def Let_def fun_upd_idem del: scan_loop.simps)
qed

lemma save_response_calm:
  assumes "calm os" and "0 < length (c_str url)" and "length (c_str url) \<le> ENV_MAXKEY"
    and "length (c_str data) \<le> MAXDATASIZE"
  shows "save_response os api fs url data =
    Inr (fs(db_file api ''explore'' \<mapsto> map_put (c_str url) (c_str data) (explore_records api fs)))"
  using assms
  by (cases "fs (db_file api ''explore'')")
     (auto simp: save_response_def calm_def env_create_def env_open_def txn_begin_def mdb_txn_begin_def dbi_open_def
        dbi_put_def mdb_put_def handle_commit_def mdb_txn_commit_def explore_records_def rc_defs ENV_MAXKEY_def Let_def)

text \<open>The address of a page has no NUL and fits a key.\<close>

lemma dec_int_no_nul: "CHR 0x00 \<notin> set (dec_int i)"
proof -
  have "CHR 0x00 \<notin> set (dec_nat n)" for n
    using dec_nat_digits [of n] is_digit_not_nul by (auto simp: list_all_iff)
  then show ?thesis by (simp add: dec_int_def)
qed

lemma dec_int_page_length: "length (dec_int (sint (page :: 8 word))) \<le> 4"
proof -
  have "- 128 \<le> sint page" "sint page < 128" using sint_lt [of page] sint_ge [of page] by simp_all
  then have "nat \<bar>sint page\<bar> < 10 ^ 3" by simp
  then have "length (dec_nat (nat \<bar>sint page\<bar>)) \<le> 3" by (intro length_dec_nat_le) simp_all
  then show ?thesis by (auto simp: dec_int_def abs_if split: if_splits)
qed

lemma explore_url_key:
  "c_str (construct_url BASE_URL page) = construct_url BASE_URL page"
  "0 < length (construct_url BASE_URL page)" "length (construct_url BASE_URL page) \<le> ENV_MAXKEY"
proof -
  have "CHR 0x00 \<notin> set url_prefix" by (simp add: url_prefix_def constant_defs)
  then show "c_str (construct_url BASE_URL page) = construct_url BASE_URL page"
    by (intro c_str_id) (simp add: construct_url_eq dec_int_no_nul)
  show "0 < length (construct_url BASE_URL page)" by (simp add: construct_url_eq)
  have "length url_prefix \<le> 300" by (simp add: url_prefix_def constant_defs)
  with dec_int_page_length [of page] show "length (construct_url BASE_URL page) \<le> ENV_MAXKEY"
    by (simp add: construct_url_eq ENV_MAXKEY_def)
qed

lemma dec_int_inj: "dec_int i = dec_int j \<Longrightarrow> i = j"
  using strtol10_dec_int [of "[]" i] strtol10_dec_int [of "[]" j] by simp

lemma construct_url_inj: "construct_url BASE_URL p = construct_url BASE_URL q \<longleftrightarrow> p = q"
  by (auto simp: construct_url_eq dest!: dec_int_inj intro: signed_word_eqI)

section \<open>The update protocol\<close>

lemma stoi_one: "stoi [c] = Inr n \<Longrightarrow> 0 \<le> n"
  by (auto simp: stoi_def strtol10_def Let_def split: option.splits if_splits)

lemma page_of_url_found:
  assumes "string_find ''page='' url \<noteq> None" and "page_of_url url = Inr n"
  shows "n \<noteq> - 1"
proof -
  obtain k where k: "string_find ''page='' url = Some k" using assms(1) by auto
  let ?s = "take 1 (drop (k + 5) url)"
  from k assms(2) have s: "stoi ?s = Inr n" by (auto simp: page_of_url_def substr_def split: if_splits)
  have "?s = [] \<or> (\<exists>c. ?s = [c])" by (cases "drop (k + 5) url") auto
  then show ?thesis
  proof
    assume "?s = []"
    with s show ?thesis by (simp add: stoi_def strtol10_def)
  next
    assume "\<exists>c. ?s = [c]"
    with s stoi_one show ?thesis by fastforce
  qed
qed

interpretation explore: handlers "\<lambda>url. string_find ''page='' url \<noteq> None" "explore_on_success os api" explore_on_failure
proof unfold_locales
  show "co_observer c' = co_observer c \<and> (\<exists>view. co_trace c' = co_trace c @ published (co_observer c) view)"
    if "string_find ''page='' url \<noteq> None" and "explore_on_success os api url data c = (c', None)"
    for url data :: string and c c'
    using that page_of_url_found [OF that(1)]
    by (auto simp: explore_on_success_def publish_eq Let_def split: sum.splits if_splits)
qed (auto simp: explore_on_failure_def publish_eq Let_def split: prod.splits)

lemma explore_url_found: "string_find ''page='' (construct_url BASE_URL page) \<noteq> None"
  using find_page by (simp add: construct_url_eq)

lemma show_cache_ok:
  assumes "show_cache os api page c = (c', None)"
  obtains ob view where "co_observer c = Some ob" "co_observer c' = Some ob"
    "co_trace c' = co_trace c @ [(ob, Update view)]"
  using assms
  by (cases "co_observer c") (auto simp: show_cache_def call_observer_def Let_def split: sum.splits prod.splits)

lemma explore_request_protocol:
  assumes "explore_request perform Some os api page c = (c', None)"
  obtains ob v1 v2 where "co_observer c = Some ob" "co_observer c' = Some ob"
    "co_trace c' = co_trace c @ [(ob, Begin_update), (ob, Update v1), (ob, Update v2), (ob, End_update)]"
proof -
  from assms obtain c1 c2 where c: "call_observer Begin_update c = (c1, None)" "show_cache os api page c1 = (c2, None)"
    "run_request perform Some api (construct_url BASE_URL page) (explore_on_success os api) explore_on_failure c2 = (c', None)"
    by (auto simp: explore_request_def andthen_ok)
  from c(2) obtain ob v1 where s: "co_observer c1 = Some ob" "co_observer c2 = Some ob"
    "co_trace c2 = co_trace c1 @ [(ob, Update v1)]" by (rule show_cache_ok)
  have "co_observer c = Some ob" "co_trace c1 = co_trace c @ [(ob, Begin_update)]"
    using c(1) s(1) by (auto simp: call_observer_def split: option.splits)
  moreover obtain v2 where "co_observer c' = Some ob" "co_trace c' = co_trace c2 @ [(ob, Update v2), (ob, End_update)]"
    using explore.request_publishes [OF explore_url_found c(3) refl] s(2) by (auto simp: published_def)
  ultimately show thesis using that s(3) by simp
qed

section \<open>A session\<close>

inductive explore_step ::
  "(string \<Rightarrow> int) \<Rightarrow> api_impl \<Rightarrow> explore_controller_impl \<Rightarrow> cpp_error option \<Rightarrow> explore_controller_impl \<Rightarrow> bool"
  for os and api where
  explore_subscribe: "explore_step os api c None (subscribe observer c)"
| explore_unsubscribe: "explore_step os api c None (unsubscribe c)"
| explore_resets: "explore_step os api c None (explore_reset c)"
| explore_requests: "explore_request perform Some os api page c = (c', err) \<Longrightarrow> explore_step os api c err c'"

inductive_simps explore_step_iff: "explore_step os api c err c'"

definition files_sorted :: "files \<Rightarrow> bool" where
  "files_sorted fs = (\<forall>path recs. fs path = Some recs \<longrightarrow> map_sorted recs)"

lemma files_sortedD: "files_sorted fs \<Longrightarrow> map_sorted (explore_records api fs)"
  by (auto simp: files_sorted_def explore_records_def split: option.splits)

lemma files_sorted_upd: "files_sorted fs \<Longrightarrow> map_sorted recs \<Longrightarrow> files_sorted (fs(path \<mapsto> recs))"
  by (auto simp: files_sorted_def)

lemma env_open_sorted:
  assumes "files_sorted fs" and "env_open os fs path = Inr fs1"
  shows "files_sorted fs1" and "map_sorted (the (fs1 path))"
proof -
  show f: "files_sorted fs1"
    using assms by (auto simp: env_open_def Let_def files_sorted_upd split: if_splits option.splits)
  have "fs1 path \<noteq> None" using assms(2) by (auto simp: env_open_def Let_def split: if_splits option.splits)
  with f show "map_sorted (the (fs1 path))" by (auto simp: files_sorted_def)
qed

lemma request_db_sorted:
  assumes "files_sorted fs" and "request_db os api fs page = Inr (fs1, data)"
  shows "files_sorted fs1"
proof -
  obtain fs2 where e: "env_open os fs (db_file api ''explore'') = Inr fs2"
    using assms(2) by (auto simp: request_db_def rbind_eq_Inr)
  then have "fs1 = fs2"
    using assms(2) by (auto simp: request_db_def rbind_eq_Inr Let_def split: option.splits)
  with env_open_sorted(1) [OF assms(1) e] show ?thesis by simp
qed

lemma save_response_sorted:
  assumes "files_sorted fs" and "save_response os api fs url data = Inr fs1"
  shows "files_sorted fs1"
proof -
  obtain fs2 where e: "env_open os fs (db_file api ''explore'') = Inr fs2"
    using assms(2) by (auto simp: save_response_def rbind_eq_Inr)
  note s = env_open_sorted [OF assms(1) e]
  let ?recs = "the (fs2 (db_file api ''explore''))"
  have "fs1 = fs2 \<or> fs1 = fs2(db_file api ''explore'' \<mapsto> map_put (c_str url) (c_str data) ?recs)
      \<or> fs1 = fs2(db_file api ''explore'' \<mapsto> ?recs)"
    using assms(2) e
    by (auto simp: save_response_def rbind_eq_Inr Let_def txn_begin_def mdb_txn_begin_def dbi_put_def mdb_put_def
        handle_commit_def mdb_txn_commit_def rc_defs split: option.splits sum.splits if_splits prod.splits)
  with s show ?thesis by (auto intro: files_sorted_upd map_sorted_put)
qed

lemma on_success_sorted:
  "files_sorted (ec_files c) \<Longrightarrow> files_sorted (ec_files (fst (explore_on_success os api url data c)))"
  by (auto simp: explore_on_success_def publish_eq Let_def save_response_sorted split: sum.splits)

lemma on_failure_files: "ec_files (fst (explore_on_failure url data c)) = ec_files c"
  by (simp add: explore_on_failure_def publish_eq Let_def split: prod.splits)

lemma explore_request_sorted:
  assumes "files_sorted (ec_files c)"
  shows "files_sorted (ec_files (fst (explore_request perform Some os api page c)))"
proof -
  have r: "files_sorted (ec_files d) \<Longrightarrow> files_sorted (ec_files (fst
      (run_request perform Some api url (explore_on_success os api) explore_on_failure d)))" for url d
    by (simp add: run_request_eq locked_def after_setup_def on_success_sorted on_failure_files)
  have s: "files_sorted (ec_files d) \<Longrightarrow> files_sorted (ec_files (fst (show_cache os api page d)))" for d
    by (cases "co_observer d") (auto simp: show_cache_def call_observer_def Let_def request_db_sorted split: sum.splits)
  have b: "ec_files (fst (call_observer ev d)) = ec_files d" for ev and d :: explore_controller_impl
    by (simp add: call_observer_def split: option.splits)
  have a: "files_sorted (ec_files (fst q)) \<Longrightarrow> (\<And>d. files_sorted (ec_files d) \<Longrightarrow> files_sorted (ec_files (fst (f d)))) \<Longrightarrow>
      files_sorted (ec_files (fst (andthen q f)))" for q and f :: "explore_controller_impl \<Rightarrow> explore_controller_impl outcome"
    by (simp add: andthen_def split: option.splits)
  show ?thesis unfolding explore_request_def by (intro a r s) (simp_all add: b assms)
qed

definition explore_inv :: "cpp_error list \<Rightarrow> explore_controller_impl \<Rightarrow> bool" where
  "explore_inv errs c = (files_sorted (ec_files c) \<and> protocol_kept errs c)"

lemma complete_two: "complete_updates [Begin_update, Update v, Update w, End_update]"
  by (simp add: complete_updates_def)

lemma explore_step_inv:
  assumes inv: "explore_inv errs c" and step: "explore_step os api c err c'"
  shows "explore_inv (errs @ (case err of None \<Rightarrow> [] | Some e \<Rightarrow> [e])) c'"
  using step
proof cases
  case (explore_requests perform page)
  have f: "files_sorted (ec_files c')"
    using explore_request_sorted [of c perform os api page] inv explore_requests by (simp add: explore_inv_def)
  show ?thesis
  proof (cases err)
    case None
    with explore_requests obtain ob v1 v2 where
      "co_trace c' = co_trace c @ [(ob, Begin_update), (ob, Update v1), (ob, Update v2), (ob, End_update)]"
      by (auto elim: explore_request_protocol)
    with None inv f show ?thesis
      using protocol_kept_update [of errs c c' _ "[]"] by (auto simp: explore_inv_def complete_two)
  qed (simp add: explore_inv_def f protocol_kept_error)
qed (use inv in \<open>simp_all add: explore_inv_def protocol_kept_def subscribe_def unsubscribe_def explore_reset_def\<close>)

interpretation explore_run: run_invariant "explore_step os api" "explore_create fs"
  "\<lambda>errs c. files_sorted fs \<longrightarrow> explore_inv errs c"
proof unfold_locales
  show "files_sorted fs \<longrightarrow> explore_inv [] (explore_create fs)"
    by (simp add: explore_inv_def explore_create_def protocol_kept_def complete_updates_def)
qed (blast intro: explore_step_inv)

section \<open>A successful request\<close>

text \<open>
  The whole of a request that nothing disturbs: the cached items are placed and shown, then
  the items of the response, then the response is stored.
\<close>

lemma explore_request_success:
  fixes c :: explore_controller_impl and page :: "8 word"
  defines "url \<equiv> construct_url BASE_URL page"
  assumes os: "calm os" and ob: "co_observer c = Some ob"
    and cached: "(case map_of (explore_records api (ec_files c)) url of None \<Rightarrow> Inr [] | Some v \<Rightarrow> construct_detail_view_data_from_data v)
      = Inr cached"
    and place1: "place_items (ec_items c) (sint page) cached = Inr items1"
    and ok: "is_success (request_transfer perform api url c)"
    and data: "data = collect (tr_blocks (request_transfer perform api url c))"
    and details: "construct_detail_view_data_from_data data = Inr details"
    and page: "page_of_url url = Inr n"
    and place2: "place_items items1 n details = Inr items2"
    and fits: "length (c_str data) \<le> MAXDATASIZE"
  obtains c' where "explore_request perform Some os api page c = (c', None)"
    and "ec_items c' = items2" and "co_observer c' = Some ob"
    and "co_trace c' = co_trace c @ [(ob, Begin_update),
           (ob, Update \<lparr>ev_error = False, ev_message = ''cache'', ev_explores = items1\<rparr>),
           (ob, Update \<lparr>ev_error = False, ev_message = ''ok'', ev_explores = items2\<rparr>), (ob, End_update)]"
    and "explore_records api (ec_files c') = map_put url (c_str data) (explore_records api (ec_files c))"
proof -
  let ?path = "db_file api ''explore''" and ?recs = "explore_records api (ec_files c)"
  let ?fs1 = "(ec_files c)(?path \<mapsto> ?recs)"
  let ?c1 = "c\<lparr>co_trace := co_trace c @ [(ob, Begin_update)]\<rparr>"
  let ?c2 = "?c1\<lparr>ec_items := items1, ec_files := ?fs1,
      co_trace := co_trace c @ [(ob, Begin_update), (ob, Update \<lparr>ev_error = False, ev_message = ''cache'', ev_explores = items1\<rparr>)]\<rparr>"
  have b: "call_observer Begin_update c = (?c1, None)" using ob by (simp add: call_observer_def)
  have "request_db os api (ec_files c) page = Inr (?fs1, cached)"
    using request_db_calm [OF os, of api "ec_files c" page] cached by (auto simp: Let_def url_def split: option.splits)
  then have s: "show_cache os api page ?c1 = (?c2, None)"
    using place1 ob by (simp add: show_cache_def call_observer_def)
  have t: "request_transfer perform api url ?c2 = request_transfer perform api url c"
    by (simp add: request_transfer_def)
  have n: "n \<noteq> - 1" using page_of_url_found [OF explore_url_found] page by (simp add: url_def)
  let ?c3 = "(after_setup api url ?c2)\<lparr>ec_items := items2, co_trace := co_trace ?c2 @
      [(ob, Update \<lparr>ev_error = False, ev_message = ''ok'', ev_explores = items2\<rparr>), (ob, End_update)]\<rparr>"
  have r1: "explore_records api ?fs1 = ?recs" by (simp add: explore_records_def)
  have "save_response os api ?fs1 url data = Inr (?fs1(?path \<mapsto> map_put url (c_str data) ?recs))"
    using save_response_calm [OF os, of url data api ?fs1] explore_url_key [of page] fits
    by (simp add: url_def r1)
  then have "explore_on_success os api url data (after_setup api url ?c2)
      = (?c3\<lparr>ec_files := ?fs1(?path \<mapsto> map_put url (c_str data) ?recs)\<rparr>, None)"
    using details page n place2 ob
    by (simp add: explore_on_success_def publish_eq published_def after_setup_def)
  then have "explore_request perform Some os api page c = (?c3\<lparr>ec_files := ?fs1(?path \<mapsto> map_put url (c_str data) ?recs)\<rparr>, None)"
    using b s ok data t by (simp add: explore_request_def run_request_eq locked_def url_def [symmetric])
  from that [OF this] ob show thesis by (simp add: explore_records_def after_setup_def)
qed

end
