(* ===== verification/Controller_Properties.thy ===== *)
theory Controller_Properties
  imports Search_Controller Photo_Controllers Map_Controller Explore_Props Json_Roundtrip
    "HOL-Library.Multiset"
begin

text \<open>
  What the controllers promise their clients, from the transfer to the observer: sessions as
  runs, the effect of whole requests for any server, the paging and the cache of the explore
  list, and the requests that go wrong.
\<close>



section \<open>Sample server\<close>

text \<open>A response with one photo, and a server that answers every request with a given text.\<close>

definition sample_photo :: json where
  "sample_photo = JsonObject
     [(''farm'', JsonInt 6), (''id'', JsonString ''77''), (''secret'', JsonString ''ab''),
      (''server'', JsonString ''5''), (''title'', JsonString ''Sky'')]"

definition sample_photos :: "string \<Rightarrow> json" where
  "sample_photos tot = JsonObject
     [(''photos'', JsonObject [(''photo'', JsonArray [sample_photo]), (''total'', JsonString tot)]),
      (''stat'', JsonString ''ok'')]"

definition sample_text :: "string \<Rightarrow> string" where
  "sample_text tot = dump (sample_photos tot)"

definition answer :: "string \<Rightarrow> curl_handle \<Rightarrow> transfer" where
  "answer body h = \<lparr>tr_blocks = [body], tr_result = 0, tr_code = 200\<rparr>"

lemma is_success_answer: "is_success (answer body h)"
  using code_of_long_small [of 200] by (simp add: is_success_def answer_def)

lemma answered [simp]:
  "is_success (request_transfer (answer body) api url c)"
  "tr_blocks (request_transfer (answer body) api url c) = [body]"
  using is_success_answer by (simp_all add: request_transfer_def answer_def)

lemma collect_one: "length body < 2 ^ 64 \<Longrightarrow> collect [body] = body"
  by (simp add: collect_blocks)

lemma sample_parse: "fst (json_parse (sample_text tot) err strategy) = sample_photos tot"
  unfolding sample_text_def
  by (subst json_parse_dump)
    (simp_all add: sample_photos_def sample_photo_def map_sorted_def is_int_def int_min_def int_max_def max_depth_def
      int_digits10_def dec_int_def dec_nat_small)

lemma sample_length: "length (sample_text ''1'') < 2 ^ 64"
  by (simp add: sample_text_def sample_photos_def sample_photo_def dump_string_def dec_int_def dec_nat_small)

lemma digit_chars: "digit_char 1 = CHR ''1''" "digit_char 6 = CHR ''6''"
  by (simp_all add: digit_char_def char_of_def bit_Suc_0_iff)

section \<open>Search\<close>

text \<open>
  C5. In any session with the search controller, whatever the server answers, the recent keys
  stay sorted without repetition; and as long as no call has thrown, the observers' events
  are complete updates: a begin, an update, an end.
\<close>

theorem search_session:
  assumes "run (search_step iter api) search_create errs c"
  shows "sorted_wrt (<) (sc_recent c) \<and> (errs = [] \<longrightarrow> complete_updates (List.map snd (co_trace c)))"
  using search_run.run_inv [OF assms] by (simp add: search_inv_def protocol_kept_def)

theorem search_session_witness:
  "\<exists>c. run (search_step (\<lambda>ps. ps) api_instance) search_create [] c \<and> co_observer c = Some 1
     \<and> complete_updates (List.map snd (co_trace c))"
proof -
  have "run (search_step (\<lambda>ps. ps) api_instance) search_create []
      (subscribe (Some 1) search_create)"
    using run_step [of "search_step (\<lambda>ps. ps) api_instance" search_create "[]" search_create None
        "subscribe (Some 1) search_create", OF run_start step_subscribe] by simp
  from this search_session [OF this] show ?thesis by (auto simp: subscribe_def)
qed

text \<open>
  C17. A search that succeeds with a numeric total appends the photos of the response to the
  items, records the key, and shows the observer exactly one update with all items.
\<close>

theorem search_appends:
  assumes "co_observer c = Some ob"
    and "is_success (request_transfer perform api (search_url iter key page) c)"
    and "data = collect (tr_blocks (request_transfer perform api (search_url iter key page) c))"
    and "json = fst (json_parse data [] STANDARD)"
    and "traverse search_detail (array_items (at_key (at_key json ''photos'') ''photo'')) = Inr details"
    and "stoi (string_value (at_key (at_key json ''photos'') ''total'')) = Inr n"
  shows "\<exists>c'. search perform Some iter api key page c = (c', None)
    \<and> sc_items c' = sc_items c @ details \<and> sc_recent c' = set_insert key (sc_recent c)
    \<and> co_trace c' = co_trace c @ [(ob, Begin_update),
         (ob, Update \<lparr>sv_error = False, sv_message = string_value (at_key json ''stat''),
                      sv_results = sc_items c @ details, sv_total = n\<rparr>), (ob, End_update)]"
proof -
  have "request_transfer perform api (search_url iter key page)
      (c\<lparr>sc_recent := r, co_trace := t\<rparr>) = request_transfer perform api (search_url iter key page) c" for t r
    by (simp add: request_transfer_def)
  with assms show ?thesis
    by (simp add: search_def call_observer_def run_request_eq locked_def search_on_success_def after_setup_def
        publish_eq published_def Let_def)
qed

theorem search_appends_witness:
  "\<exists>c'. search (answer (sample_text ''1'')) Some (\<lambda>ps. ps) api_instance ''sky'' 1
       (search_create\<lparr>co_observer := Some 3\<rparr>) = (c', None)
     \<and> sc_items c' = [\<lparr>sd_id = ''77'', sd_image_url = ''https://farm6.static.flickr.com/5/77_ab_z.jpg'', sd_title = ''Sky''\<rparr>]
     \<and> sc_recent c' = [''sky'']"
proof -
  have d: "traverse search_detail (array_items (at_key (at_key (fst (json_parse (sample_text ''1'') [] STANDARD)) ''photos'') ''photo''))
      = Inr [\<lparr>sd_id = ''77'', sd_image_url = ''https://farm6.static.flickr.com/5/77_ab_z.jpg'', sd_title = ''Sky''\<rparr>]"
    unfolding sample_parse sample_photos_def sample_photo_def
    by (simp add: search_detail_def construct_flickr_image_url_def dec_int_def dec_nat_small digit_chars)
  have n: "stoi (string_value (at_key (at_key (fst (json_parse (sample_text ''1'') [] STANDARD)) ''photos'') ''total'')) = Inr 1"
    unfolding sample_parse sample_photos_def using stoi_digit [of 1] digit_chars by simp
  show ?thesis
    using search_appends [OF _ _ _ refl d n, where c = "search_create\<lparr>co_observer := Some 3\<rparr>" and ob = 3
        and perform = "answer (sample_text ''1'')" and api = api_instance and iter = "\<lambda>ps. ps" and key = "''sky''" and page = 1]
    by (auto simp: collect_one [OF sample_length] search_create_def)
qed


text \<open>
  C35. A response whose total is not a number (absent, or a JSON number) makes a successful
  search throw: the photos have been appended, and the observer is left between the begin and
  an update that never comes.
\<close>

theorem search_bad_total:
  assumes "co_observer c = Some ob"
    and "is_success (request_transfer perform api (search_url iter key page) c)"
    and "data = collect (tr_blocks (request_transfer perform api (search_url iter key page) c))"
    and "json = fst (json_parse data [] STANDARD)"
    and "traverse search_detail (array_items (at_key (at_key json ''photos'') ''photo'')) = Inr details"
    and "json_type_of (at_key (at_key json ''photos'') ''total'') \<noteq> STRING"
  shows "\<exists>c'. search perform Some iter api key page c = (c', Some Invalid_argument)
    \<and> sc_items c' = sc_items c @ details \<and> co_trace c' = co_trace c @ [(ob, Begin_update)]"
proof -
  have t: "request_transfer perform api (search_url iter key page)
      (c\<lparr>sc_recent := r, co_trace := t\<rparr>) = request_transfer perform api (search_url iter key page) c" for t r
    by (simp add: request_transfer_def)
  have "string_value (at_key (at_key json ''photos'') ''total'') = []"
    using assms(6) by (cases "at_key (at_key json ''photos'') ''total''") simp_all
  then have "stoi (string_value (at_key (at_key json ''photos'') ''total'')) = Inl Invalid_argument"
    by (simp add: stoi_def strtol10_def)
  with assms t show ?thesis
    by (simp add: search_def call_observer_def run_request_eq locked_def search_on_success_def after_setup_def Let_def)
qed

theorem search_bad_total_witness:
  "\<exists>c'. search (answer ''{}'') Some (\<lambda>ps. ps) api_instance ''sky'' 1 (search_create\<lparr>co_observer := Some 3\<rparr>)
     = (c', Some Invalid_argument) \<and> co_trace c' = [(3, Begin_update)]"
proof -
  have j: "fst (json_parse ''{}'' [] STANDARD) = JsonObject []"
    using json_parse_dump [of "JsonObject []" "[]" STANDARD] by (simp add: max_depth_def)
  show ?thesis
    using search_bad_total [where c = "search_create\<lparr>co_observer := Some 3\<rparr>" and ob = 3 and perform = "answer ''{}''"
        and api = api_instance and iter = "\<lambda>ps. ps" and key = "''sky''" and page = 1 and data = "''{}''"
        and json = "JsonObject []" and details = "[]"] j
    by (auto simp: collect_one search_create_def)
qed

text \<open>
  C38. After any sequence of searches on a controller with an observer, however each of them ends,
  \<open>fetch_recents\<close> lists the keys that were searched, each once and in byte order, followed by as
  many empty strings; and the observer every search calls is still there.
\<close>

theorem fetch_recents_list:
  fixes reqs :: "((curl_handle \<Rightarrow> transfer) \<times> string \<times> 8 word) list"
  shows "let c = fold (\<lambda>r c. fst (search (fst r) Some iter api (fst (snd r)) (snd (snd r)) c)) reqs (subscribe (Some ob) search_create);
      keys = sorted_list_of_set ((\<lambda>r. fst (snd r)) ` set reqs)
    in fetch_recents c = keys @ replicate (length keys) [] \<and> co_observer c = Some ob"
proof -
  let ?f = "\<lambda>r c. fst (search (fst r) Some iter api (fst (snd r)) (snd (snd r)) c)" and ?c = "subscribe (Some ob) search_create"
  have "sorted_wrt (<) (sc_recent (fold ?f reqs c)) \<and>
      set (sc_recent (fold ?f reqs c)) = set (sc_recent c) \<union> (\<lambda>r. fst (snd r)) ` set reqs \<and> co_observer (fold ?f reqs c) = co_observer c"
    if "sorted_wrt (<) (sc_recent c)" for c
    using that by (induction reqs arbitrary: c) (simp_all add: search_recent search_observer sorted_set_insert)
  from this [of ?c]
  have "sorted_wrt (<) (sc_recent (fold ?f reqs ?c))"
    "set (sc_recent (fold ?f reqs ?c)) = (\<lambda>r. fst (snd r)) ` set reqs" "co_observer (fold ?f reqs ?c) = Some ob"
    by (simp_all add: search_create_def subscribe_def)
  moreover from this have "sc_recent (fold ?f reqs ?c) = sorted_list_of_set ((\<lambda>r. fst (snd r)) ` set reqs)"
    using sorted_list_of_set.idem_if_sorted_distinct [of "sc_recent (fold ?f reqs ?c)"]
    by (simp add: strict_sorted_iff)
  ultimately show ?thesis by (simp add: fetch_recents_def)
qed

text \<open>
  Whatever order the map of parameters is iterated in, a reader that splits the query
  string of a search at its ampersands and equals signs gets the parameters back, provided
  the key has no ampersand.
\<close>

theorem search_query_roundtrip:
  assumes "\<And>ps. mset (iter ps) = mset ps" and "CHR ''&'' \<notin> set key"
  shows "mset (read_query (drop (length BASE_URL + 1) (search_url iter key page))) = mset (search_params key page)"
proof -
  have "CHR ''&'' \<notin> set (dec_int (sint page))"
    using dec_int_chars [of "CHR ''&''" "sint page"] by (auto simp: is_digit_iff)
  then have "list_all plain_pair (search_params key page)"
    using assms(2) by (auto simp: search_params_def plain_pair_def constant_defs plus_for_space_def)
  then have "list_all plain_pair (iter (search_params key page))"
    using assms(1) [of "search_params key page"] by (metis list.pred_set mset_eq_setD)
  then have "read_query (convert_to_query_param_string (iter (search_params key page))) = iter (search_params key page)"
    by (rule read_query_convert)
  with assms(1) show ?thesis by (simp add: search_url_def)
qed

theorem search_query_roundtrip_witness:
  "mset (read_query (drop (length BASE_URL + 1) (search_url rev ''red fox=1'' 2))) = mset (search_params ''red fox=1'' 2)"
  by (rule search_query_roundtrip) simp_all



section \<open>Transfers\<close>

text \<open>
  C20. \<open>curl_get\<close> calls exactly one of its callbacks, with the address it was given, the
  response code and the whole body: the success callback just when the transfer succeeded
  with a code from 200 to 299.
\<close>

theorem curl_get_callback:
  assumes "perform (curl_setup url proxy h) = \<lparr>tr_blocks = blocks, tr_result = res, tr_code = of_nat code\<rparr>"
    and "code < 2 ^ 31" and "list_all (\<lambda>b. length b < 2 ^ 64) blocks"
  shows "curl_get perform h url proxy success_callback failure_callback =
    (curl_setup url proxy h,
     if res = 0 \<and> 200 \<le> code \<and> code < 300 then success_callback url (int code) (concat blocks)
     else failure_callback url (int code) (concat blocks))"
proof -
  have "code_of_long (of_nat code) = int code" using assms(2) by (rule code_of_long_small)
  moreover have "collect blocks = concat blocks"
    using assms(3) by (intro collect_blocks) (simp add: list_all_iff)
  ultimately show ?thesis using assms(1) by (simp add: curl_get_def Let_def)
qed

theorem curl_get_callback_witness:
  "snd (curl_get (\<lambda>h. \<lparr>tr_blocks = [''no'', ''pe''], tr_result = 0, tr_code = of_nat 404\<rparr>) curl_easy_init ''u'' None
     (\<lambda>u c r. (True, c, r)) (\<lambda>u c r. (False, c, r))) = (False, 404, ''nope'')"
  using curl_get_callback [of "\<lambda>h. \<lparr>tr_blocks = [''no'', ''pe''], tr_result = 0, tr_code = of_nat 404\<rparr>" "''u''" None
      curl_easy_init "[''no'', ''pe'']" 0 404 "\<lambda>u c r. (True, c, r)" "\<lambda>u c r. (False, c, r)"]
  by (simp del: of_nat_numeral)

text \<open>
  C40. A proxy stays on the handle: once a controller has made a request through a proxy, a
  later request that passes none still goes through it.
\<close>

theorem proxy_sticks:
  "curl_proxy (fst (curl_get perform2 (fst (curl_get perform1 h url1 (Some p) s1 f1)) url2 None s2 f2)) = Some (c_str p)"
  by (simp add: curl_get_cases curl_setup_proxy Let_def)

section \<open>Photos\<close>

text \<open>
  A request for comments that succeeds shows the observer one update with a comment for
  each entry of the response, in order, and one that fails shows the error with an empty
  list: no comment is ever kept by the controller.
\<close>

theorem comments_shown:
  assumes "c = (photo_comment_create photo_id)\<lparr>co_observer := Some ob\<rparr>"
    and "t = request_transfer perform api (comment_url iter photo_id) c"
    and "json_parse (collect (tr_blocks t)) [] STANDARD = (json, err)"
    and "traverse comment_detail (array_items (at_key (at_key json ''comments'') ''comment'')) = Inr details"
  shows "\<exists>c'. request_comments perform Some iter api c = (c', None) \<and> pcc_items c' = []
    \<and> co_trace c' = [(ob, Begin_update),
         (ob, Update (if is_success t
            then \<lparr>pcv_error = False, pcv_message = string_value (at_key json ''stat''), pcv_comments = details\<rparr>
            else \<lparr>pcv_error = True,
                  pcv_message = (if err = [] then string_value (at_key json ''message'') else []),
                  pcv_comments = []\<rparr>)), (ob, End_update)]"
proof -
  let ?c1 = "c\<lparr>co_trace := [(ob, Begin_update)]\<rparr>"
  have t: "request_transfer perform api (comment_url iter photo_id) ?c1 = t"
    using assms(2) by (simp add: request_transfer_def)
  have b: "call_observer Begin_update c = (?c1, None)" "pcc_id ?c1 = photo_id"
    using assms(1) by (simp_all add: call_observer_def photo_comment_create_def)
  show ?thesis
    using assms(1,3,4) t b
    by (simp add: request_comments_def run_request_eq locked_def comment_on_success_def comment_on_failure_def
        after_setup_def publish_eq published_def photo_comment_create_def)
qed

definition sample_comments :: json where
  "sample_comments = JsonObject
     [(''comments'', JsonObject [(''comment'', JsonArray [JsonObject
         [(''_content'', JsonString ''nice''), (''author'', JsonString ''9@N0''), (''authorname'', JsonString ''Ann''),
          (''iconfarm'', JsonInt 6), (''iconserver'', JsonString ''2''), (''id'', JsonString ''c1'')]])]),
      (''stat'', JsonString ''ok'')]"

definition sample_comments_text :: string where
  "sample_comments_text = dump sample_comments"

lemma sample_comments_parse: "json_parse sample_comments_text err strategy = (sample_comments, err)"
  unfolding sample_comments_text_def
  by (subst json_parse_dump)
    (simp_all add: sample_comments_def map_sorted_def is_int_def int_min_def int_max_def max_depth_def
      int_digits10_def dec_int_def dec_nat_small)

lemma sample_comments_length: "length sample_comments_text < 2 ^ 64"
  by (simp add: sample_comments_text_def sample_comments_def dump_string_def dec_int_def dec_nat_small)

theorem comments_shown_witness:
  "\<exists>c'. request_comments (answer sample_comments_text) Some (\<lambda>ps. ps) api_instance
       ((photo_comment_create ''77'')\<lparr>co_observer := Some 1\<rparr>) = (c', None)
     \<and> co_trace c' = [(1, Begin_update), (1, Update \<lparr>pcv_error = False, pcv_message = ''ok'',
          pcv_comments = [\<lparr>pc_id = ''c1'', pc_owner_name = ''Ann'',
            pc_owner_avatar_url = ''https://c2.staticflickr.com/6/2/buddyicons/9@N0_l.jpg'', pc_text = ''nice''\<rparr>]\<rparr>),
          (1, End_update)]"
proof -
  have d: "traverse comment_detail (array_items (at_key (at_key sample_comments ''comments'') ''comment''))
      = Inr [\<lparr>pc_id = ''c1'', pc_owner_name = ''Ann'',
            pc_owner_avatar_url = ''https://c2.staticflickr.com/6/2/buddyicons/9@N0_l.jpg'', pc_text = ''nice''\<rparr>]"
    by (simp add: sample_comments_def comment_detail_def construct_flickr_avatar_url_def dec_int_def dec_nat_small
        digit_chars)
  have s: "string_value (at_key sample_comments ''stat'') = ''ok''" by (simp add: sample_comments_def)
  show ?thesis
    using comments_shown [OF refl refl _ d, where photo_id = "''77''" and ob = 1 and perform = "answer sample_comments_text"
        and api = api_instance and iter = "\<lambda>ps. ps" and err = "[]"]
    by (auto simp: collect_one [OF sample_comments_length] sample_comments_parse s)
qed



text \<open>
  A request for the details of a photo shows the observer one update between a begin and
  an end. When the transfer fails, the update carries the id the controller was created with
  and zero views and comments; the message is the one of the response, or empty when the
  response is no JSON.
\<close>

theorem details_failure_shown:
  assumes "c = (photo_detail_create photo_id)\<lparr>co_observer := Some ob\<rparr>"
    and "\<not> is_success (request_transfer perform api (detail_url iter photo_id) c)"
    and "json_parse (collect (tr_blocks (request_transfer perform api (detail_url iter photo_id) c))) [] STANDARD = (json, err)"
  shows "\<exists>c'. request_detail perform Some iter api c = (c', None) \<and> pdc_id c' = photo_id
    \<and> co_trace c' = [(ob, Begin_update),
         (ob, Update \<lparr>pd_error = True, pd_message = (if err = [] then string_value (at_key json ''message'') else []),
            pd_id = photo_id, pd_title = [], pd_image_url = [], pd_owner_name = [], pd_owner_avatar_url = [],
            pd_number_of_view = ''0'', pd_number_of_comment = ''0''\<rparr>), (ob, End_update)]"
proof -
  let ?c1 = "c\<lparr>co_trace := [(ob, Begin_update)]\<rparr>"
  have t: "request_transfer perform api url ?c1 = request_transfer perform api url c" for url
    by (simp add: request_transfer_def)
  have b: "call_observer Begin_update c = (?c1, None)" "pdc_id c = photo_id"
    using assms(1) by (simp_all add: call_observer_def photo_detail_create_def)
  show ?thesis
    using assms t b
    by (simp add: request_detail_def run_request_eq locked_def detail_on_failure_def after_setup_def publish_eq
        published_def photo_detail_create_def)
qed

text \<open>A server that cannot be reached: no response, and the result code of curl for it.\<close>

definition unreachable :: "curl_handle \<Rightarrow> transfer" where
  "unreachable h = \<lparr>tr_blocks = [], tr_result = 7, tr_code = 0\<rparr>"

lemma unreachable_facts [simp]:
  "\<not> is_success (request_transfer unreachable api url c)"
  "collect (tr_blocks (request_transfer unreachable api url c)) = []"
  by (simp_all add: is_success_def request_transfer_def unreachable_def collect_def)

lemma json_parse_empty: "json_parse [] [] STANDARD = (JsonNull, ''unexpected end of input'')"
proof -
  have "parse_fuel [] = Suc 7" by (simp add: parse_fuel_def)
  moreover have "skip_white [] 0 = 0" by (subst skip_white.simps) (simp add: is_white_def char_at_def)
  ultimately show ?thesis
    by (simp add: eval_nat_numeral json_parse_def get_next_token_def consume_garbage_def consume_whitespace_def fail_def
        max_depth_def)
qed

theorem details_failure_shown_witness:
  "\<exists>c'. request_detail unreachable Some (\<lambda>ps. ps) api_instance ((photo_detail_create ''77'')\<lparr>co_observer := Some 1\<rparr>)
     = (c', None) \<and> length (co_trace c') = 3"
  using details_failure_shown [OF refl, where photo_id = "''77''" and ob = 1 and perform = unreachable and api = api_instance
      and iter = "\<lambda>ps. ps"] json_parse_empty by fastforce

section \<open>The map\<close>

text \<open>
  C36. A request of the map whose transfer fails tells the observer that an update begins and
  nothing more: neither the failure nor the end of the update is ever reported.
\<close>

theorem map_failure_never_ends:
  assumes "co_observer c = Some ob" and "complete_updates (List.map snd (co_trace c))"
    and "\<not> is_success (request_transfer perform api (map_url iter) c)"
  shows "\<exists>c'. map_request perform Some iter api c = (c', None)
    \<and> co_trace c' = co_trace c @ [(ob, Begin_update)] \<and> \<not> complete_updates (List.map snd (co_trace c'))"
proof -
  let ?c1 = "c\<lparr>co_trace := co_trace c @ [(ob, Begin_update)]\<rparr>"
  have t: "request_transfer perform api url ?c1 = request_transfer perform api url c" for url
    by (simp add: request_transfer_def)
  have "\<not> complete_updates (List.map snd (co_trace ?c1))"
    using assms(2) by (simp add: complete_updates_def protocol_append)
  with assms t show ?thesis
    by (simp add: map_request_def call_observer_def run_request_eq locked_def map_on_failure_def)
qed

theorem map_failure_never_ends_witness:
  "\<exists>c'. map_request unreachable Some (\<lambda>ps. ps) api_instance (map_create\<lparr>co_observer := Some 1\<rparr>) = (c', None)
     \<and> \<not> complete_updates (List.map snd (co_trace c'))"
  using map_failure_never_ends [of "map_create\<lparr>co_observer := Some 1\<rparr>" 1 unreachable api_instance "\<lambda>ps. ps"]
  by (auto simp: map_create_def complete_updates_def)

text \<open>
  One photo without a latitude makes the whole response of the map unusable: \<open>stod\<close>
  throws out of the success handler, and the observer sees no update.
\<close>

theorem map_missing_latitude:
  assumes "photos = array_items (at_key (at_key (fst (json_parse data [] STANDARD)) ''photos'') ''photo'')"
    and "list_ex (\<lambda>j. json_type_of (at_key j ''latitude'') \<noteq> STRING) photos"
  shows "\<exists>e. map_on_success data c = (c, Some e)"
proof -
  have "traverse map_detail photos \<noteq> Inr details" for details
  proof
    assume t: "traverse map_detail photos = Inr details"
    obtain i where i: "i < length photos" "json_type_of (at_key (photos ! i) ''latitude'') \<noteq> STRING"
      using assms(2) by (auto simp: list_ex_iff in_set_conv_nth)
    have "map_detail (photos ! i) = Inr (details ! i)" using traverse_nth [OF t i(1)] .
    moreover have "string_value (at_key (photos ! i) ''latitude'') = []"
      using i(2) by (cases "at_key (photos ! i) ''latitude''") simp_all
    moreover have "stod [] = Inl Invalid_argument" by (simp add: stod_def strtod_def strtod_unsigned_def split_point_def Let_def)
    ultimately show False by (simp add: map_detail_def rbind_eq_Inr)
  qed
  then show ?thesis using assms(1) by (auto simp: map_on_success_def Let_def split: sum.split)
qed

theorem map_missing_latitude_witness:
  "\<exists>e. map_on_success (sample_text ''1'') map_create = (map_create, Some e)"
  using map_missing_latitude [OF refl, of "sample_text ''1''" map_create] unfolding sample_parse
  by (simp add: sample_photos_def sample_photo_def)

section \<open>Explore\<close>

text \<open>
  C6. In any session with the explore controller, whatever the server, the file system and
  the database answer, every database file stays sorted with unique keys; and as long as no
  call has thrown, the observers' events are complete updates.
\<close>

theorem explore_session:
  assumes "run (explore_step os api) (explore_create fs) errs c" and "files_sorted fs"
  shows "files_sorted (ec_files c) \<and> (errs = [] \<longrightarrow> complete_updates (List.map snd (co_trace c)))"
  using explore_run.run_inv [OF assms(1)] assms(2) by (simp add: explore_inv_def protocol_kept_def)

theorem explore_session_witness:
  "\<exists>c. run (explore_step (\<lambda>f. 0) api_instance) (explore_create (\<lambda>f. None)) [] c \<and> co_observer c = Some 1
     \<and> files_sorted (ec_files c)"
proof -
  have "run (explore_step (\<lambda>f. 0) api_instance) (explore_create (\<lambda>f. None)) []
      (subscribe (Some 1) (explore_create (\<lambda>f. None)))"
    using run_step [of "explore_step (\<lambda>f. 0) api_instance" "explore_create (\<lambda>f. None)" "[]" "explore_create (\<lambda>f. None)"
        None "subscribe (Some 1) (explore_create (\<lambda>f. None))", OF run_start explore_subscribe] by simp
  from this explore_session [OF this] show ?thesis by (auto simp: subscribe_def files_sorted_def)
qed

text \<open>
  C4. Loading one of the pages 1 to 9 when the items of all pages before it are loaded, ten each,
  the page is not in the cache, an observer is subscribed and no system call fails: a successful
  request, with a response of photos that fits into a record, appends the items of the response,
  shows them, and stores the response under the address of the page. From page 10 on it is
  different (C33).
\<close>

theorem explore_next_page:
  fixes c :: explore_controller_impl
  assumes "calm os" and "co_observer c = Some ob"
    and "1 \<le> sint page" and "sint page \<le> 9" and "length (ec_items c) = nat (sint page - 1) * 10"
    and "map_of (explore_records api (ec_files c)) (construct_url BASE_URL page) = None"
    and "t = request_transfer perform api (construct_url BASE_URL page) c" and "is_success t"
    and "construct_detail_view_data_from_data (collect (tr_blocks t)) = Inr details"
    and "length (c_str (collect (tr_blocks t))) \<le> MAXDATASIZE"
  shows "\<exists>c'. explore_request perform Some os api page c = (c', None) \<and> ec_items c' = ec_items c @ details
    \<and> co_trace c' = co_trace c @ [(ob, Begin_update),
        (ob, Update \<lparr>ev_error = False, ev_message = ''cache'', ev_explores = ec_items c\<rparr>),
        (ob, Update \<lparr>ev_error = False, ev_message = ''ok'', ev_explores = ec_items c @ details\<rparr>), (ob, End_update)]
    \<and> map_of (explore_records api (ec_files c')) (construct_url BASE_URL page) = Some (c_str (collect (tr_blocks t)))"
proof -
  have p: "page_of_url (construct_url BASE_URL page) = Inr (sint page)" using assms(3,4) by (intro page_small) simp_all
  have a: "place_items (ec_items c) (sint page) xs = Inr (ec_items c @ xs)" for xs
    using assms(3-5) by (intro place_append) simp_all
  have a0: "place_items (ec_items c) (sint page) [] = Inr (ec_items c)" using a [of "[]"] by simp
  have e: "(case map_of (explore_records api (ec_files c)) (construct_url BASE_URL page) of None \<Rightarrow> Inr []
      | Some v \<Rightarrow> construct_detail_view_data_from_data v) = Inr []" using assms(6) by simp
  obtain c' where "explore_request perform Some os api page c = (c', None)" "ec_items c' = ec_items c @ details"
    "co_trace c' = co_trace c @ [(ob, Begin_update),
        (ob, Update \<lparr>ev_error = False, ev_message = ''cache'', ev_explores = ec_items c\<rparr>),
        (ob, Update \<lparr>ev_error = False, ev_message = ''ok'', ev_explores = ec_items c @ details\<rparr>), (ob, End_update)]"
    "explore_records api (ec_files c') = map_put (construct_url BASE_URL page) (c_str (collect (tr_blocks t)))
       (explore_records api (ec_files c))"
    using explore_request_success [OF assms(1,2) e a0 _ refl _ p a, of perform details] assms(7-10) by auto
  then show ?thesis by auto
qed

lemma sample_details:
  "construct_detail_view_data_from_data (sample_text ''1'') =
     Inr [\<lparr>ed_id = ''77'', ed_image_url = ''https://farm6.static.flickr.com/5/77_ab_z.jpg'', ed_title = ''Sky''\<rparr>]"
  unfolding construct_detail_view_data_from_data_def sample_parse
  by (simp add: sample_photos_def sample_photo_def explore_detail_def construct_flickr_image_url_def dec_int_def
      dec_nat_small digit_chars)

lemma c_str_length: "length (c_str s) \<le> length s"
  by (simp add: c_str_def length_takeWhile_le)

lemma sample_fits: "length (c_str (sample_text ''1'')) \<le> MAXDATASIZE"
proof -
  have "length (sample_text ''1'') \<le> MAXDATASIZE"
    by (simp add: sample_text_def sample_photos_def sample_photo_def dump_string_def dec_int_def dec_nat_small MAXDATASIZE_def)
  with c_str_length [of "sample_text ''1''"] show ?thesis by linarith
qed

lemma calm_zero: "calm (\<lambda>f. 0)"
  by (simp add: calm_def)

theorem explore_next_page_witness:
  "\<exists>c'. explore_request (answer (sample_text ''1'')) Some (\<lambda>f. 0) api_instance 1
       ((explore_create (\<lambda>f. None))\<lparr>co_observer := Some 2\<rparr>) = (c', None) \<and> length (ec_items c') = 1"
  using explore_next_page [OF calm_zero, where c = "(explore_create (\<lambda>f. None))\<lparr>co_observer := Some 2\<rparr>" and ob = 2
      and page = 1 and api = api_instance and perform = "answer (sample_text ''1'')"] sample_details sample_fits
  by (force simp: collect_one [OF sample_length] explore_create_def explore_records_def)

text \<open>
  C33. From page 10 on, a response does not reach its own slot: with the first nine pages
  loaded, a successful request of page 10 with a response of at most ten items overwrites the
  items of page 1, and the list does not grow.
\<close>

theorem explore_page_ten_overwrites:
  fixes c :: explore_controller_impl
  assumes "calm os" and "co_observer c = Some ob" and "length (ec_items c) = 90"
    and "map_of (explore_records api (ec_files c)) (construct_url BASE_URL 10) = None"
    and "t = request_transfer perform api (construct_url BASE_URL 10) c" and "is_success t"
    and "construct_detail_view_data_from_data (collect (tr_blocks t)) = Inr details" and "length details \<le> 10"
    and "length (c_str (collect (tr_blocks t))) \<le> MAXDATASIZE"
  shows "\<exists>c'. explore_request perform Some os api 10 c = (c', None)
    \<and> ec_items c' = details @ drop (length details) (ec_items c) \<and> length (ec_items c') = 90"
proof -
  have s: "sint (10 :: 8 word) = 10" by simp
  have p: "page_of_url (construct_url BASE_URL 10) = Inr 1" using page_two_digits [of 10] by simp
  have a: "place_items (ec_items c) (sint (10 :: 8 word)) [] = Inr (ec_items c)"
    using place_append [of 10 "ec_items c" "[]"] assms(3) by simp
  have b: "place_items (ec_items c) 1 details = Inr (details @ drop (length details) (ec_items c))"
    using place_slot [of 1 "ec_items c" details] assms(3,8) by simp
  have e: "(case map_of (explore_records api (ec_files c)) (construct_url BASE_URL 10) of None \<Rightarrow> Inr []
      | Some v \<Rightarrow> construct_detail_view_data_from_data v) = Inr []" using assms(4) by simp
  obtain c' where "explore_request perform Some os api 10 c = (c', None)"
    "ec_items c' = details @ drop (length details) (ec_items c)"
    using explore_request_success [OF assms(1,2) e a _ refl _ p b] assms(5-9) by blast
  then show ?thesis using assms(3,8) by simp
qed

theorem explore_page_ten_overwrites_witness:
  "\<exists>c'. explore_request (answer (sample_text ''1'')) Some (\<lambda>f. 0) api_instance 10
       ((explore_create (\<lambda>f. None))\<lparr>co_observer := Some 2,
          ec_items := replicate 90 \<lparr>ed_id = [], ed_image_url = [], ed_title = []\<rparr>\<rparr>) = (c', None)
     \<and> ed_id (hd (ec_items c')) = ''77'' \<and> length (ec_items c') = 90"
  using explore_page_ten_overwrites [OF calm_zero, where c = "(explore_create (\<lambda>f. None))\<lparr>co_observer := Some 2,
        ec_items := replicate 90 \<lparr>ed_id = [], ed_image_url = [], ed_title = []\<rparr>\<rparr>" and ob = 2
      and api = api_instance and perform = "answer (sample_text ''1'')"] sample_details sample_fits
  by (force simp: collect_one [OF sample_length] explore_create_def explore_records_def)

text \<open>
  C3. The cache returns what was saved: after a response without NULs has been saved under
  the address of a page, \<open>request_db\<close> of that page reads the same items from it, and every
  other page reads what it read before.
\<close>

theorem explore_cache_roundtrip:
  assumes "calm os" and "CHR 0x00 \<notin> set data" and "length data \<le> MAXDATASIZE"
  shows "\<exists>fs'. save_response os api fs (construct_url BASE_URL page) data = Inr fs'
    \<and> request_db os api fs' page = rbind (construct_detail_view_data_from_data data) (\<lambda>results. Inr (fs', results))
    \<and> (q = page \<or> (\<forall>fs0 results. request_db os api fs q = Inr (fs0, results) \<longrightarrow> request_db os api fs' q = Inr (fs', results)))"
proof -
  let ?path = "db_file api ''explore''" and ?url = "construct_url BASE_URL page"
  let ?fs' = "fs(?path \<mapsto> map_put ?url data (explore_records api fs))"
  have d: "c_str data = data" using assms(2) by (rule c_str_id)
  have s: "save_response os api fs ?url data = Inr ?fs'"
    using save_response_calm [OF assms(1), of ?url data api fs] explore_url_key [of page] assms(3) d by simp
  have r: "explore_records api ?fs' = map_put ?url data (explore_records api fs)" by (simp add: explore_records_def)
  have u: "?fs'(?path \<mapsto> map_put ?url data (explore_records api fs)) = ?fs'" by simp
  have "request_db os api ?fs' page = rbind (construct_detail_view_data_from_data data) (\<lambda>results. Inr (?fs', results))"
    using request_db_calm [OF assms(1), of api ?fs' page] unfolding r u by (simp add: Let_def)
  moreover have "request_db os api ?fs' q = Inr (?fs', results)"
    if "q \<noteq> page" and "request_db os api fs q = Inr (fs0, results)" for fs0 results
    using that request_db_calm [OF assms(1), of api ?fs' q] request_db_calm [OF assms(1), of api fs q]
    unfolding r u by (auto simp: Let_def construct_url_inj rbind_eq_Inr split: option.splits)
  ultimately show ?thesis using s by blast
qed

theorem explore_cache_roundtrip_witness:
  "\<exists>fs'. save_response (\<lambda>f. 0) api_instance (\<lambda>f. None) (construct_url BASE_URL 3) ''{}'' = Inr fs'
     \<and> request_db (\<lambda>f. 0) api_instance fs' 3 = rbind (construct_detail_view_data_from_data ''{}'') (\<lambda>results. Inr (fs', results))"
  using explore_cache_roundtrip [OF calm_zero, of "''{}''" api_instance "\<lambda>f. None" 3 3] by (auto simp: MAXDATASIZE_def)

text \<open>
  Offline, a page that is in the cache is shown from it: the items read from the cache
  are appended and shown, and the failure of the transfer is then reported with those items.
\<close>

theorem explore_offline:
  fixes c :: explore_controller_impl
  assumes "calm os" and "co_observer c = Some ob" and "1 \<le> sint page" and "length (ec_items c) < nat (sint page) * 10"
    and "map_of (explore_records api (ec_files c)) (construct_url BASE_URL page) = Some value"
    and "construct_detail_view_data_from_data value = Inr cached"
    and "t = request_transfer perform api (construct_url BASE_URL page) c" and "\<not> is_success t"
    and "json_parse (collect (tr_blocks t)) [] STANDARD = (json, err)" and "err \<noteq> []"
  shows "\<exists>c'. explore_request perform Some os api page c = (c', None) \<and> ec_items c' = ec_items c @ cached
    \<and> co_trace c' = co_trace c @ [(ob, Begin_update),
        (ob, Update \<lparr>ev_error = False, ev_message = ''cache'', ev_explores = ec_items c @ cached\<rparr>),
        (ob, Update \<lparr>ev_error = True, ev_message = ''There is something wrong, please try again later'',
                     ev_explores = ec_items c @ cached\<rparr>), (ob, End_update)]"
proof -
  let ?fs1 = "(ec_files c)(db_file api ''explore'' \<mapsto> explore_records api (ec_files c))"
  have "request_db os api (ec_files c) page = Inr (?fs1, cached)"
    using request_db_calm [OF assms(1), of api "ec_files c" page] assms(5,6) by (simp add: Let_def)
  moreover have "sint page < 2 ^ 32" using sint_lt [of page] by simp
  then have "place_items (ec_items c) (sint page) cached = Inr (ec_items c @ cached)"
    using assms(3,4) by (intro place_append) auto
  moreover have "request_transfer perform api (construct_url BASE_URL page)
      (c\<lparr>co_trace := tr, ec_items := its, ec_files := fs\<rparr>) = t" for tr its fs
    using assms(7) by (simp add: request_transfer_def)
  ultimately show ?thesis
    using assms(2,8-10)
    by (simp add: explore_request_def call_observer_def show_cache_def run_request_eq locked_def explore_on_failure_def
        after_setup_def publish_eq published_def request_transfer_def Let_def)
qed

theorem explore_offline_witness:
  "\<exists>c'. explore_request unreachable Some (\<lambda>f. 0) api_instance 2
       ((explore_create (\<lambda>f. Some [(construct_url BASE_URL 2, sample_text ''1'')]))\<lparr>co_observer := Some 2\<rparr>) = (c', None)
     \<and> length (ec_items c') = 1"
proof -
  let ?c = "(explore_create (\<lambda>f. Some [(construct_url BASE_URL 2, sample_text ''1'')]))\<lparr>co_observer := Some 2\<rparr>"
  have c: "co_observer ?c = Some 2" "ec_items ?c = []"
    "explore_records api_instance (ec_files ?c) = [(construct_url BASE_URL 2, sample_text ''1'')]"
    by (simp_all add: explore_create_def explore_records_def)
  have e: "json_parse (collect (tr_blocks (request_transfer unreachable api_instance (construct_url BASE_URL 2) ?c))) [] STANDARD
      = (JsonNull, ''unexpected end of input'')" by (simp add: json_parse_empty)
  show ?thesis
    using explore_offline [OF calm_zero c(1) _ _ _ sample_details refl _ e] c by auto
qed

text \<open>
  Reloading a page that is already loaded puts the items of the response, at most ten,
  from the start of its slot and leaves every other item where it was.
\<close>

theorem explore_refresh_page:
  fixes c :: explore_controller_impl
  assumes "calm os" and "co_observer c = Some ob"
    and "1 \<le> sint page" and "sint page \<le> 9" and "nat (sint page) * 10 \<le> length (ec_items c)"
    and "map_of (explore_records api (ec_files c)) (construct_url BASE_URL page) = None"
    and "t = request_transfer perform api (construct_url BASE_URL page) c" and "is_success t"
    and "construct_detail_view_data_from_data (collect (tr_blocks t)) = Inr details" and "length details \<le> 10"
    and "length (c_str (collect (tr_blocks t))) \<le> MAXDATASIZE"
  shows "\<exists>c'. explore_request perform Some os api page c = (c', None)
    \<and> ec_items c' = take (nat (sint page - 1) * 10) (ec_items c) @ details
        @ drop (nat (sint page - 1) * 10 + length details) (ec_items c)"
proof -
  have p: "page_of_url (construct_url BASE_URL page) = Inr (sint page)" using assms(3,4) by (intro page_small) simp_all
  have le: "sint page * 10 \<le> int (length (ec_items c))" using assms(3,5) by linarith
  have b: "place_items (ec_items c) (sint page) details =
      Inr (take (nat (sint page - 1) * 10) (ec_items c) @ details
        @ drop (nat (sint page - 1) * 10 + length details) (ec_items c))"
    using place_slot [of "sint page" "ec_items c" details] assms(3,4,10) le by simp
  have a: "place_items (ec_items c) (sint page) [] = Inr (ec_items c)"
    using place_slot [of "sint page" "ec_items c" "[]"] assms(3,4) le by simp
  have e: "(case map_of (explore_records api (ec_files c)) (construct_url BASE_URL page) of None \<Rightarrow> Inr []
      | Some v \<Rightarrow> construct_detail_view_data_from_data v) = Inr []" using assms(6) by simp
  show ?thesis
    using explore_request_success [OF assms(1,2) e a _ refl _ p b, of perform] assms(7-11) by blast
qed

theorem explore_refresh_page_witness:
  "\<exists>c'. explore_request (answer (sample_text ''1'')) Some (\<lambda>f. 0) api_instance 2
       ((explore_create (\<lambda>f. None))\<lparr>co_observer := Some 2,
          ec_items := replicate 20 \<lparr>ed_id = [], ed_image_url = [], ed_title = []\<rparr>\<rparr>) = (c', None)
     \<and> ed_id (ec_items c' ! 10) = ''77'' \<and> length (ec_items c') = 20"
proof -
  let ?c = "(explore_create (\<lambda>f. None))\<lparr>co_observer := Some 2,
      ec_items := replicate 20 \<lparr>ed_id = [], ed_image_url = [], ed_title = []\<rparr>\<rparr>"
  have c: "co_observer ?c = Some 2" "explore_records api_instance (ec_files ?c) = []"
    by (simp_all add: explore_create_def explore_records_def)
  show ?thesis
    using explore_refresh_page [OF calm_zero c(1) _ _ _ _ refl, of 2 api_instance "answer (sample_text ''1'')"]
      sample_details sample_fits c
    by (auto simp: collect_one [OF sample_length] nth_append)
qed

text \<open>
  C37. A negative page sends its request, but the success handler throws \<open>invalid_argument\<close> on
  the minus sign: the items stay as the cache left them, nothing is stored, and the observer's
  update is never ended.
\<close>

theorem explore_negative_page:
  assumes "sint page < 0" and "construct_detail_view_data_from_data data = Inr details"
  shows "explore_on_success os api (construct_url BASE_URL page) data c = (c, Some Invalid_argument)"
  using assms by (simp add: explore_on_success_def page_negative)

theorem explore_negative_page_witness:
  "explore_on_success (\<lambda>f. 0) api_instance (construct_url BASE_URL (- 1)) (sample_text ''1'') (explore_create (\<lambda>f. None))
     = (explore_create (\<lambda>f. None), Some Invalid_argument)"
  using sample_details by (intro explore_negative_page) simp_all

text \<open>
  Page 0 is outside every slot: whatever the cache and the server hold, the request
  reaches \<open>items_.begin () - 10\<close> before the transfer.
\<close>

theorem explore_page_zero:
  assumes "co_observer c = Some ob" and "request_db os api (ec_files c) 0 = Inr (fs, data)"
  shows "snd (explore_request perform others os api 0 c) = Some Out_of_bounds"
proof -
  have "place_items items 0 data = Inl Out_of_bounds" for items by (rule place_zero)
  with assms show ?thesis by (simp add: explore_request_def call_observer_def show_cache_def)
qed

theorem explore_page_zero_witness:
  "snd (explore_request unreachable Some (\<lambda>f. 0) api_instance 0 ((explore_create (\<lambda>f. None))\<lparr>co_observer := Some 1\<rparr>))
     = Some Out_of_bounds"
  using request_db_calm [OF calm_zero, of api_instance "\<lambda>f. None" 0]
  by (intro explore_page_zero [where ob = 1]) (auto simp: explore_create_def explore_records_def Let_def)

section \<open>The database\<close>

text \<open>
  C34. When LMDB refuses to commit a response (a full disk, say), the destructor of the
  transaction aborts it again: the write transaction of the environment is freed there and
  once more by closing the environment.
\<close>

theorem failed_commit_frees_twice:
  assumes "calm os'" and "os = os'(''mdb_txn_commit'' := rc)" and "rc \<noteq> 0"
    and "length (c_str data) \<le> MAXDATASIZE"
  shows "save_response os api fs (construct_url BASE_URL page) data = Inl Double_free"
  using assms explore_url_key [of page]
  by (auto simp: save_response_def calm_def env_create_def env_open_def txn_begin_def mdb_txn_begin_def dbi_open_def
      dbi_put_def mdb_put_def handle_commit_def mdb_txn_commit_def rc_defs ENV_MAXKEY_def Let_def env_close_frees_def
      handle_destroy_def handle_abort_def mdb_txn_abort_def mdb_txn_end_def split: option.split)

theorem failed_commit_frees_twice_witness:
  "save_response ((\<lambda>f. 0)(''mdb_txn_commit'' := 28)) api_instance (\<lambda>f. None) (construct_url BASE_URL 1) ''{}'' = Inl Double_free"
  by (rule failed_commit_frees_twice [OF calm_zero refl]) (simp_all add: c_str_def MAXDATASIZE_def)

end
