(* ===== verification/Lmdb_Idl.thy ===== *)
theory Lmdb_Idl
  imports Prelude "HOL-Library.Word" "HOL-Library.Monad_Syntax" "HOL-Library.Multiset"
begin

unbundle bit_operations_syntax

text \<open>
  The id lists of LMDB (\<open>midl.c\<close>): arrays whose first word counts the ids that follow. A list
  made by \<open>mdb_midl_alloc\<close> has its capacity in the word before the first. An array is the list
  of its words from \<open>ids[0]\<close> to the end of its memory; a read or write past that end is None,
  so that a result shows the accesses to have stayed inside.
\<close>

section \<open>Memory\<close>

type_synonym mdb_id = "64 word"
type_synonym idl = "mdb_id list"

definition idl_at :: "'a list \<Rightarrow> nat \<Rightarrow> 'a option" where
  "idl_at ids i = (if i < length ids then Some (ids ! i) else None)"

definition idl_put :: "'a list \<Rightarrow> nat \<Rightarrow> 'a \<Rightarrow> 'a list option" where
  "idl_put ids i x = (if i < length ids then Some (ids[i := x]) else None)"

lemma idl_at_Some [simp]: "i < length ids \<Longrightarrow> idl_at ids i = Some (ids ! i)"
  by (simp add: idl_at_def)

lemma idl_put_Some [simp]: "i < length ids \<Longrightarrow> idl_put ids i x = Some (ids[i := x])"
  by (simp add: idl_put_def)

lemma idl_at_eq: "idl_at ids i = Some x \<longleftrightarrow> i < length ids \<and> x = ids ! i"
  by (auto simp: idl_at_def)

lemma idl_put_eq: "idl_put ids i x = Some ids' \<longleftrightarrow> i < length ids \<and> ids' = ids[i := x]"
  by (auto simp: idl_put_def)

text \<open>
  The ids of a list: as many words after the first as the first says, if the memory has them.
\<close>

definition idl_ids :: "idl \<Rightarrow> mdb_id list" where
  "idl_ids ids = take (unat (ids ! 0)) (tl ids)"

definition idl_fits :: "idl \<Rightarrow> bool" where
  "idl_fits ids = (unat (ids ! 0) < length ids)"

lemma idl_ids_nth: "i < unat (ids ! 0) \<Longrightarrow> idl_fits ids \<Longrightarrow> idl_ids ids ! i = ids ! Suc i"
  by (simp add: idl_ids_def idl_fits_def nth_tl)

lemma length_idl_ids [simp]: "idl_fits ids \<Longrightarrow> length (idl_ids ids) = unat (ids ! 0)"
  by (simp add: idl_ids_def idl_fits_def)

section \<open>Searching\<close>

definition CMP :: "'a::linorder \<Rightarrow> 'a \<Rightarrow> int" where
  "CMP x y = (if x < y then - 1 else if y < x then 1 else 0)"

lemma CMP_less: "x < y \<Longrightarrow> CMP x y = - 1"
  by (simp add: CMP_def)

lemma CMP_greater: "y < x \<Longrightarrow> CMP x y = 1"
  by (auto simp: CMP_def)

lemma CMP_cases: "CMP x y = 0 \<longleftrightarrow> x = y" "0 < CMP x y \<longleftrightarrow> y < x" "CMP x y < 0 \<longleftrightarrow> x < y"
  by (auto simp: CMP_def)

text \<open>
  The loop of both searches. \<open>cmp\<close> compares the entry at an index with the id, in the
  direction of the list; it is None outside the array.
\<close>

function search_loop :: "(nat \<Rightarrow> int option) \<Rightarrow> nat \<Rightarrow> nat \<Rightarrow> int \<Rightarrow> nat \<Rightarrow> nat option" where
  "search_loop cmp base cursor val n =
     (if n = 0 then Some (if 0 < val then cursor + 1 else cursor)
      else let pivot = n div 2; cursor = base + pivot + 1 in
        do {
          val \<leftarrow> cmp cursor;
          if val < 0 then search_loop cmp base cursor val pivot
          else if 0 < val then search_loop cmp cursor cursor val (n - (pivot + 1))
          else Some cursor
        })"
  by pat_completeness auto
termination
  by (relation "measure (\<lambda>(cmp, base, cursor, val, n). n)") auto

declare search_loop.simps [simp del]

definition mdb_midl_search :: "idl \<Rightarrow> mdb_id \<Rightarrow> nat option" where
  "mdb_midl_search ids wanted =
     do {
       n \<leftarrow> idl_at ids 0;
       search_loop (\<lambda>i. map_option (\<lambda>x. CMP x wanted) (idl_at ids i)) 0 1 0 (unat (ucast n :: 32 word))
     }"

text \<open>An id with the pointer it stands for.\<close>

record mdb_id2 =
  mid :: mdb_id
  mptr :: nat

definition mdb_mid2l_search :: "mdb_id2 list \<Rightarrow> mdb_id \<Rightarrow> nat option" where
  "mdb_mid2l_search ids wanted =
     do {
       n \<leftarrow> idl_at ids 0;
       search_loop (\<lambda>i. map_option (\<lambda>x. CMP wanted (mid x)) (idl_at ids i)) 0 1 0 (unat (ucast (mid n) :: 32 word))
     }"

text \<open>
  What the searches need of a list: comparing every entry from 1 to \<open>count\<close> works, and the
  results fall through zero. \<open>dir\<close> gives them.
\<close>

locale ordered_entries =
  fixes ordered :: "'c \<Rightarrow> bool"
    and dir :: "'c \<Rightarrow> nat \<Rightarrow> int option"
    and count :: "'c \<Rightarrow> nat"
  assumes entry: "ordered c \<Longrightarrow> 1 \<le> i \<Longrightarrow> i \<le> count c \<Longrightarrow> dir c i \<noteq> None"
    and falling: "ordered c \<Longrightarrow> 1 \<le> i \<Longrightarrow> i < j \<Longrightarrow> j \<le> count c \<Longrightarrow>
      the (dir c i) \<le> 0 \<Longrightarrow> the (dir c j) < 0"

context ordered_entries begin

text \<open>The position found: every entry before it comes before the id, none from it on does.\<close>

definition position :: "'c \<Rightarrow> nat \<Rightarrow> bool" where
  "position c x = (1 \<le> x \<and> x \<le> count c + 1 \<and> (\<forall>i. 1 \<le> i \<and> i < x \<longrightarrow> 0 < the (dir c i))
     \<and> (\<forall>i. x \<le> i \<and> i \<le> count c \<longrightarrow> the (dir c i) \<le> 0))"

lemma loop_position:
  assumes "ordered c" and "base + n \<le> count c"
    and "\<forall>i. 1 \<le> i \<and> i \<le> base \<longrightarrow> 0 < the (dir c i)"
    and "\<forall>i. base + n < i \<and> i \<le> count c \<longrightarrow> the (dir c i) < 0"
    and "n = 0 \<Longrightarrow> (0 < val \<and> cursor = base) \<or> (val \<le> 0 \<and> cursor = base + 1)"
  shows "\<exists>x. search_loop (dir c) base cursor val n = Some x \<and> position c x"
  using assms(2-)
proof (induction "dir c" base cursor val n rule: search_loop.induct)
  case (1 base cursor val n)
  let ?p = "n div 2" and ?c = "base + n div 2 + 1"
  show ?case
  proof (cases "n = 0")
    case True
    have "position c (base + 1)"
      unfolding position_def using "1.prems"(1-3) True by (auto simp: less_Suc_eq_le intro: less_imp_le)
    moreover have "search_loop (dir c) base cursor val n = Some (base + 1)"
      using "1.prems"(4) True by (subst search_loop.simps) auto
    ultimately show ?thesis by blast
  next
    case False
    then have c: "1 \<le> ?c" "?c \<le> count c" using 1(3) by linarith+
    then obtain v where v: "dir c ?c = Some v" using entry [OF assms(1)] by blast
    have after: "\<forall>i. ?c < i \<and> i \<le> count c \<longrightarrow> the (dir c i) < 0" if "v \<le> 0"
      using falling [OF assms(1) c(1)] v that by simp
    have before: "\<forall>i. 1 \<le> i \<and> i < ?c \<longrightarrow> 0 < the (dir c i)" if "0 \<le> v"
    proof (intro allI impI, rule ccontr)
      fix i assume "1 \<le> i \<and> i < ?c" "\<not> 0 < the (dir c i)"
      then show False using falling [OF assms(1) _ _ c(2), of i] v that by simp
    qed
    consider "v < 0" | "0 < v" | "v = 0" by linarith
    then show ?thesis
    proof cases
      case 1
      have "\<exists>x. search_loop (dir c) base ?c v ?p = Some x \<and> position c x"
      proof (rule "1.hyps"(1) [OF False refl refl v 1])
        show "\<forall>i. base + ?p < i \<and> i \<le> count c \<longrightarrow> the (dir c i) < 0"
          using after 1 v by (metis Suc_eq_plus1 Suc_leI le_eq_less_or_eq less_imp_le option.sel)
      qed (use "1.prems" 1 in auto)
      then show ?thesis using 1 False v by (subst search_loop.simps) (simp add: Let_def)
    next
      case 2
      have "\<exists>x. search_loop (dir c) ?c ?c v (n - (?p + 1)) = Some x \<and> position c x"
      proof (rule "1.hyps"(2) [OF False refl refl v _ 2])
        show "\<forall>i. 1 \<le> i \<and> i \<le> ?c \<longrightarrow> 0 < the (dir c i)"
          using before 2 v by (metis le_eq_less_or_eq less_imp_le option.sel)
      qed (use "1.prems" 2 False in auto)
      then show ?thesis using 2 False v by (subst search_loop.simps) (simp add: Let_def)
    next
      case 3
      have "the (dir c i) \<le> 0" if "?c \<le> i" "i \<le> count c" for i
        using after that 3 v by (cases "i = ?c") (simp_all add: less_imp_le)
      then have "position c ?c" using before c 3 by (simp add: position_def)
      then show ?thesis using 3 False v by (subst search_loop.simps) (simp add: Let_def)
    qed
  qed
qed

lemma search_position:
  "ordered c \<Longrightarrow> \<exists>x. search_loop (dir c) 0 1 0 (count c) = Some x \<and> position c x"
  using loop_position [of c 0 "count c" 0 1] by simp

end

text \<open>Descending lists of ids, and ascending lists of pairs, as such lists.\<close>

definition descending :: "idl \<Rightarrow> bool" where
  "descending ids = (idl_fits ids \<and> unat (ids ! 0) < 2 ^ 32 \<and> sorted_wrt (>) (idl_ids ids))"

definition id2_ids :: "mdb_id2 list \<Rightarrow> mdb_id2 list" where
  "id2_ids ids = take (unat (mid (ids ! 0))) (tl ids)"

definition ascending :: "mdb_id2 list \<Rightarrow> bool" where
  "ascending ids = (unat (mid (ids ! 0)) < length ids \<and> unat (mid (ids ! 0)) < 2 ^ 32
     \<and> sorted_wrt (<) (List.map mid (id2_ids ids)))"

lemma unat_ucast_32 [simp]: "unat w < 2 ^ 32 \<Longrightarrow> unat (ucast (w :: 64 word) :: 32 word) = unat w"
  by (simp add: unsigned_ucast_eq take_bit_nat_eq_self unsigned_take_bit_eq)

lemma sint_small: "unat w < 2 ^ 31 \<Longrightarrow> sint w = int (unat w)" for w :: "32 word"
proof -
  assume "unat w < 2 ^ 31"
  then have "int (unat w) < int (2 ^ 31)" by (simp only: of_nat_less_iff)
  then have "uint w < 2 ^ 31" by simp
  moreover have "- (2 ^ 31) \<le> uint w" by (rule order_trans [OF _ uint_ge_0]) simp
  ultimately show ?thesis
    unfolding sint_uint by (subst signed_take_bit_int_eq_self) simp_all
qed

lemma descending_nth:
  "descending ids \<Longrightarrow> 1 \<le> i \<Longrightarrow> i < j \<Longrightarrow> j \<le> unat (ids ! 0) \<Longrightarrow> ids ! j < ids ! i"
  using sorted_wrt_nth_less [of "(>)" "idl_ids ids" "i - 1" "j - 1"]
  by (auto simp: descending_def idl_ids_nth)

lemma ascending_nth:
  "ascending ids \<Longrightarrow> 1 \<le> i \<Longrightarrow> i < j \<Longrightarrow> j \<le> unat (mid (ids ! 0)) \<Longrightarrow> mid (ids ! i) < mid (ids ! j)"
  using sorted_wrt_nth_less [of "(<)" "List.map mid (id2_ids ids)" "i - 1" "j - 1"]
  by (cases i; cases j) (auto simp: ascending_def id2_ids_def nth_tl less_diff_conv)

interpretation midl: ordered_entries
  "\<lambda>(ids, wanted). descending ids"
  "\<lambda>(ids, wanted) i. map_option (\<lambda>x. CMP x wanted) (idl_at ids i)"
  "\<lambda>(ids, wanted). unat (ids ! 0)"
proof (unfold_locales, goal_cases)
  case (1 c i)
  then show ?case by (auto simp: descending_def idl_fits_def idl_at_def split: prod.splits)
next
  case (2 c i j)
  obtain ids wanted where c: "c = (ids, wanted)" by fastforce
  with 2 have "ids ! j < ids ! i" "j < length ids"
    using descending_nth [of ids i j] by (auto simp: descending_def idl_fits_def)
  with 2 c show ?case by (auto simp: CMP_def split: if_splits)
qed

interpretation mid2l: ordered_entries
  "\<lambda>(ids, wanted). ascending ids"
  "\<lambda>(ids, wanted) i. map_option (\<lambda>x. CMP wanted (mid x)) (idl_at ids i)"
  "\<lambda>(ids, wanted). unat (mid (ids ! 0))"
proof (unfold_locales, goal_cases)
  case (1 c i)
  then show ?case by (auto simp: ascending_def idl_at_def split: prod.splits)
next
  case (2 c i j)
  obtain ids wanted where c: "c = (ids, wanted)" by fastforce
  with 2 have "mid (ids ! i) < mid (ids ! j)" "j < length ids"
    using ascending_nth [of ids i j] by (auto simp: ascending_def)
  with 2 c show ?case by (auto simp: CMP_def split: if_splits)
qed

lemma midl_search_position:
  assumes "descending ids"
  shows "\<exists>x. mdb_midl_search ids wanted = Some x \<and> 1 \<le> x \<and> x \<le> unat (ids ! 0) + 1
    \<and> (\<forall>i. 1 \<le> i \<and> i < x \<longrightarrow> wanted < ids ! i) \<and> (\<forall>i. x \<le> i \<and> i \<le> unat (ids ! 0) \<longrightarrow> ids ! i \<le> wanted)"
proof -
  have n: "idl_at ids 0 = Some (ids ! 0)" "unat (ids ! 0) < length ids" "unat (ids ! 0) < 2 ^ 32"
    using assms by (auto simp: descending_def idl_fits_def intro!: idl_at_Some)
  obtain x where x: "mdb_midl_search ids wanted = Some x" and p: "midl.position (ids, wanted) x"
    using midl.search_position [of "(ids, wanted)"] assms n by (auto simp: mdb_midl_search_def)
  have "wanted < ids ! i" if "1 \<le> i" "i < x" for i
    using p [unfolded midl.position_def] that n(2) by (auto simp: CMP_def split: if_splits)
  moreover have "ids ! i \<le> wanted" if "x \<le> i" "i \<le> unat (ids ! 0)" for i
    using p [unfolded midl.position_def] that n(2) by (force simp: CMP_def split: if_splits)
  ultimately show ?thesis using x p by (auto simp: midl.position_def)
qed

lemma mid2l_search_position:
  assumes "ascending ids"
  shows "\<exists>x. mdb_mid2l_search ids wanted = Some x \<and> 1 \<le> x \<and> x \<le> unat (mid (ids ! 0)) + 1
    \<and> (\<forall>i. 1 \<le> i \<and> i < x \<longrightarrow> mid (ids ! i) < wanted)
    \<and> (\<forall>i. x \<le> i \<and> i \<le> unat (mid (ids ! 0)) \<longrightarrow> wanted \<le> mid (ids ! i))"
proof -
  have n: "idl_at ids 0 = Some (ids ! 0)" "unat (mid (ids ! 0)) < length ids" "unat (mid (ids ! 0)) < 2 ^ 32"
    using assms by (auto simp: ascending_def intro!: idl_at_Some)
  obtain x where x: "mdb_mid2l_search ids wanted = Some x" and p: "mid2l.position (ids, wanted) x"
    using mid2l.search_position [of "(ids, wanted)"] assms n by (auto simp: mdb_mid2l_search_def)
  have "mid (ids ! i) < wanted" if "1 \<le> i" "i < x" for i
    using p [unfolded mid2l.position_def] that n(2) by (auto simp: CMP_def split: if_splits)
  moreover have "wanted \<le> mid (ids ! i)" if "x \<le> i" "i \<le> unat (mid (ids ! 0))" for i
    using p [unfolded mid2l.position_def] that n(2) by (force simp: CMP_def split: if_splits)
  ultimately show ?thesis using x p by (auto simp: mid2l.position_def)
qed

section \<open>Lists with a capacity\<close>

definition MDB_IDL_UM_MAX :: nat where "MDB_IDL_UM_MAX = 131071"
definition ENOMEM :: int where "ENOMEM = 12"

text \<open>
  The C library: \<open>malloc n\<close> is a block of \<open>n\<close> words, of whatever content, or None. A size in
  bytes is a \<open>size_t\<close>; the block has as many whole words as fit.
\<close>

type_synonym allocator = "nat \<Rightarrow> mdb_id list option"

definition good_malloc :: "allocator \<Rightarrow> bool" where
  "good_malloc malloc = (\<forall>n b. malloc n = Some b \<longrightarrow> length b = n)"

definition block_words :: "64 word \<Rightarrow> nat" where
  "block_words n = unat (n * 8) div 8"

definition realloc :: "allocator \<Rightarrow> mdb_id list \<Rightarrow> nat \<Rightarrow> mdb_id list option" where
  "realloc malloc old n = map_option (\<lambda>b. take n old @ drop (length old) b) (malloc n)"

record midl =
  ml_alloc :: mdb_id
  ml_ids :: idl

text \<open>A whole block: the capacity, then \<open>ids[0]\<close> and what follows.\<close>

definition midl_block :: "midl \<Rightarrow> mdb_id list" where
  "midl_block l = ml_alloc l # ml_ids l"

definition mdb_midl_alloc :: "allocator \<Rightarrow> int \<Rightarrow> midl option" where
  "mdb_midl_alloc malloc num =
     map_option (\<lambda>b. \<lparr>ml_alloc = of_int num, ml_ids = (tl b)[0 := 0]\<rparr>) (malloc (block_words (of_int (num + 2))))"

definition mdb_midl_shrink :: "allocator \<Rightarrow> midl \<Rightarrow> midl" where
  "mdb_midl_shrink malloc l =
     (if of_nat MDB_IDL_UM_MAX < ml_alloc l
      then case realloc malloc (midl_block l) (MDB_IDL_UM_MAX + 2) of
          None \<Rightarrow> l
        | Some b \<Rightarrow> \<lparr>ml_alloc = of_nat MDB_IDL_UM_MAX, ml_ids = tl b\<rparr>
      else l)"

definition mdb_midl_grow :: "allocator \<Rightarrow> midl \<Rightarrow> int \<Rightarrow> int \<times> midl" where
  "mdb_midl_grow malloc l num =
     (case realloc malloc (midl_block l) (block_words (ml_alloc l + of_int num + 2)) of
        None \<Rightarrow> (ENOMEM, l)
      | Some b \<Rightarrow> (0, \<lparr>ml_alloc = ml_alloc l + of_int num, ml_ids = tl b\<rparr>))"

definition mdb_midl_need :: "allocator \<Rightarrow> midl \<Rightarrow> 32 word \<Rightarrow> int \<times> midl" where
  "mdb_midl_need malloc l num =
     (let num1 = num + ucast (ml_ids l ! 0)
      in if ml_alloc l < ucast num1
         then let num2 = (num1 + num1 div 4 + (256 + 2)) AND (- 256)
              in case realloc malloc (midl_block l) (block_words (ucast num2)) of
                  None \<Rightarrow> (ENOMEM, l)
                | Some b \<Rightarrow> (0, \<lparr>ml_alloc = ucast (num2 - 2), ml_ids = tl b\<rparr>)
         else (0, l))"

definition mdb_midl_append :: "allocator \<Rightarrow> midl \<Rightarrow> mdb_id \<Rightarrow> (int \<times> midl) option" where
  "mdb_midl_append malloc l new =
     (case (if ml_alloc l \<le> ml_ids l ! 0 then mdb_midl_grow malloc l (int MDB_IDL_UM_MAX) else (0, l)) of
        (rc, l1) \<Rightarrow>
          if rc \<noteq> 0 then Some (ENOMEM, l1)
          else do {
            n \<leftarrow> idl_at (ml_ids l1) 0;
            ids1 \<leftarrow> idl_put (ml_ids l1) 0 (n + 1);
            ids2 \<leftarrow> idl_put ids1 (unat (n + 1)) new;
            Some (0, l1\<lparr>ml_ids := ids2\<rparr>)
          })"

text \<open>\<open>memcpy\<close> of words into an array; None when it would leave the array.\<close>

definition copy_words :: "idl \<Rightarrow> nat \<Rightarrow> mdb_id list \<Rightarrow> idl option" where
  "copy_words ids i ws =
     (if i + length ws \<le> length ids then Some (take i ids @ ws @ drop (i + length ws) ids) else None)"

definition mdb_midl_append_list :: "allocator \<Rightarrow> midl \<Rightarrow> idl \<Rightarrow> (int \<times> midl) option" where
  "mdb_midl_append_list malloc l app =
     (case (if ml_alloc l \<le> ml_ids l ! 0 + app ! 0
            then mdb_midl_grow malloc l (sint (ucast (app ! 0) :: 32 word)) else (0, l)) of
        (rc, l1) \<Rightarrow>
          if rc \<noteq> 0 then Some (ENOMEM, l1)
          else do {
            n \<leftarrow> idl_at (ml_ids l1) 0;
            ids1 \<leftarrow> copy_words (ml_ids l1) (unat n + 1) (idl_ids app);
            ids2 \<leftarrow> idl_put ids1 0 (n + app ! 0);
            Some (0, l1\<lparr>ml_ids := ids2\<rparr>)
          })"

fun range_loop :: "idl \<Rightarrow> nat \<Rightarrow> nat \<Rightarrow> mdb_id \<Rightarrow> idl option" where
  "range_loop ids len 0 new = Some ids"
| "range_loop ids len (Suc n) new =
     do { ids1 \<leftarrow> idl_put ids (len + Suc n) new; range_loop ids1 len n (new + 1) }"

definition mdb_midl_append_range :: "allocator \<Rightarrow> midl \<Rightarrow> mdb_id \<Rightarrow> 32 word \<Rightarrow> (int \<times> midl) option" where
  "mdb_midl_append_range malloc l new n =
     (let len = ml_ids l ! 0
      in case (if ml_alloc l < len + ucast n
               then mdb_midl_grow malloc l (sint (n OR of_nat MDB_IDL_UM_MAX)) else (0, l)) of
          (rc, l1) \<Rightarrow>
            if rc \<noteq> 0 then Some (ENOMEM, l1)
            else do {
              ids1 \<leftarrow> idl_put (ml_ids l1) 0 (len + ucast n);
              ids2 \<leftarrow> range_loop ids1 (unat len) (unat n) new;
              Some (0, l1\<lparr>ml_ids := ids2\<rparr>)
            })"

text \<open>The append whose caller has made room.\<close>

definition mdb_midl_xappend :: "idl \<Rightarrow> mdb_id \<Rightarrow> idl option" where
  "mdb_midl_xappend ids new =
     do { n \<leftarrow> idl_at ids 0; ids1 \<leftarrow> idl_put ids 0 (n + 1); idl_put ids1 (unat (n + 1)) new }"

section \<open>Lists of pairs\<close>

fun shift_loop :: "'a list \<Rightarrow> nat \<Rightarrow> nat \<Rightarrow> 'a list option" where
  "shift_loop ids x 0 = Some ids"
| "shift_loop ids x (Suc i) =
     (if x < Suc i then do { e \<leftarrow> idl_at ids i; ids1 \<leftarrow> idl_put ids (Suc i) e; shift_loop ids1 x i }
      else Some ids)"

definition mdb_mid2l_insert :: "mdb_id2 list \<Rightarrow> mdb_id2 \<Rightarrow> (int \<times> mdb_id2 list) option" where
  "mdb_mid2l_insert ids new =
     do {
       x \<leftarrow> mdb_mid2l_search ids (mid new);
       if x < 1 then Some (- 2, ids)
       else do {
         n \<leftarrow> idl_at ids 0;
         dup \<leftarrow> (if x \<le> unat (mid n) then map_option (\<lambda>e. mid e = mid new) (idl_at ids x) else Some False);
         if dup then Some (- 1, ids)
         else if MDB_IDL_UM_MAX \<le> unat (mid n) then Some (- 2, ids)
         else do {
           ids1 \<leftarrow> idl_put ids 0 (n\<lparr>mid := mid n + 1\<rparr>);
           ids2 \<leftarrow> shift_loop ids1 x (unat (ucast (mid n + 1) :: 32 word));
           ids3 \<leftarrow> idl_put ids2 x new;
           Some (0, ids3)
         }
       }
     }"

definition mdb_mid2l_append :: "mdb_id2 list \<Rightarrow> mdb_id2 \<Rightarrow> (int \<times> mdb_id2 list) option" where
  "mdb_mid2l_append ids new =
     do {
       n \<leftarrow> idl_at ids 0;
       if MDB_IDL_UM_MAX \<le> unat (mid n) then Some (- 2, ids)
       else do {
         ids1 \<leftarrow> idl_put ids 0 (n\<lparr>mid := mid n + 1\<rparr>);
         ids2 \<leftarrow> idl_put ids1 (unat (mid n + 1)) new;
         Some (0, ids2)
       }
     }"

end
