(* ===== verification/Lmdb_Pages.thy ===== *)
theory Lmdb_Pages
  imports Lmdbxx Lmdb_Idl
begin

text \<open>
  Pages of a database, their nodes, and how a transaction finds a page: among the pages it or
  a parent has spilled or dirtied, else in the map (\<open>mdb_page_get\<close>). Key comparison and the
  binary search inside a page. The databases are those of the program, without
  \<open>MDB_DUPSORT\<close>: no node has duplicates, no page is a \<open>LEAF2\<close> page.

  A result None stands for a failed assertion, or a read outside a page or an array.
\<close>

section \<open>Comparing keys\<close>

text \<open>\<open>memcmp\<close> of the C library on the first \<open>n\<close> bytes; only its sign is specified.\<close>

definition memcmp :: "string \<Rightarrow> string \<Rightarrow> nat \<Rightarrow> int" where
  "memcmp a b n = CMP (take n a) (take n b)"

definition mdb_cmp_memn :: "string \<Rightarrow> string \<Rightarrow> int" where
  "mdb_cmp_memn a b =
     (let len = length a;
          len_diff = int (length a) - int (length b);
          (len, len_diff) = (if 0 < len_diff then (length b, 1) else (len, len_diff));
          diff = memcmp a b len
      in if diff \<noteq> 0 then diff else if len_diff < 0 then - 1 else len_diff)"

text \<open>From the ends: the loop of \<open>mdb_cmp_memnr\<close> over the last bytes both have.\<close>

fun memnr_loop :: "nat \<Rightarrow> string \<Rightarrow> string \<Rightarrow> int option" where
  "memnr_loop 0 a b = None"
| "memnr_loop (Suc n) a b =
     (let diff = int (of_char (last a)) - int (of_char (last b))
      in if diff \<noteq> 0 then Some diff else memnr_loop n (butlast a) (butlast b))"

definition mdb_cmp_memnr :: "string \<Rightarrow> string \<Rightarrow> int" where
  "mdb_cmp_memnr a b =
     (let len_diff = int (length a) - int (length b);
          (n, len_diff) = (if 0 < len_diff then (length b, 1) else (length a, len_diff))
      in case memnr_loop n a b of
          Some diff \<Rightarrow> diff
        | None \<Rightarrow> if len_diff < 0 then - 1 else len_diff)"

section \<open>Pages\<close>

text \<open>
  A node of a branch page has the number of a page below it; a node of a leaf page has its
  data, or with \<open>F_BIGDATA\<close> the number of its overflow page and the size of the data.
\<close>

datatype mdb_node =
    Branch_node (nd_key: string) (nd_pgno: mdb_id)
  | Leaf_node (nd_key: string) (nd_data: string)
  | Big_node (nd_key: string) (nd_dsize: nat) (nd_ovpgno: mdb_id)

datatype page_flags = P_BRANCH | P_LEAF | P_OVERFLOW

record mdb_page =
  mp_pgno :: mdb_id
  mp_flags :: page_flags
  mp_nodes :: "mdb_node list"
  mp_data :: string

definition NUMKEYS :: "mdb_page \<Rightarrow> nat" where
  "NUMKEYS mp = length (mp_nodes mp)"

definition IS_BRANCH :: "mdb_page \<Rightarrow> bool" where
  "IS_BRANCH mp = (mp_flags mp = P_BRANCH)"

definition IS_LEAF :: "mdb_page \<Rightarrow> bool" where
  "IS_LEAF mp = (mp_flags mp = P_LEAF)"

definition NODEPTR :: "mdb_page \<Rightarrow> nat \<Rightarrow> mdb_node option" where
  "NODEPTR mp i = idl_at (mp_nodes mp) i"

definition NODEPGNO :: "mdb_node \<Rightarrow> mdb_id option" where
  "NODEPGNO node = (case node of Branch_node k pgno \<Rightarrow> Some pgno | _ \<Rightarrow> None)"

section \<open>Finding a page\<close>

definition MDB_PAGE_NOTFOUND :: int where "MDB_PAGE_NOTFOUND = - 30797"
definition MDB_CURSOR_FULL :: int where "MDB_CURSOR_FULL = - 30787"
definition MDB_INCOMPATIBLE :: int where "MDB_INCOMPATIBLE = - 30784"

text \<open>
  What a transaction reads pages from: its spilled pages and dirty pages, and those of its
  parents, innermost first; the map; and the pages in memory, by address.
\<close>

record page_txn =
  pt_blocked :: bool
  pt_error :: bool
  pt_direct :: bool
  pt_levels :: "(idl option \<times> mdb_id2 list) list"
  pt_map :: "mdb_id \<Rightarrow> mdb_page"
  pt_heap :: "nat \<Rightarrow> mdb_page"
  pt_next_pgno :: mdb_id

definition in_spilled :: "idl option \<Rightarrow> mdb_id \<Rightarrow> bool option" where
  "in_spilled spill pgno =
     (case spill of
        None \<Rightarrow> Some False
      | Some ids \<Rightarrow>
          (let pn = push_bit 1 pgno
           in do {
             x \<leftarrow> mdb_midl_search ids pn;
             n \<leftarrow> idl_at ids 0;
             if x \<le> unat n then map_option (\<lambda>e. e = pn) (idl_at ids x) else Some False
           }))"

definition in_dirty :: "mdb_id2 list \<Rightarrow> mdb_id \<Rightarrow> (nat option) option" where
  "in_dirty dl pgno =
     do {
       n \<leftarrow> idl_at dl 0;
       if mid n = 0 then Some None
       else do {
         x \<leftarrow> mdb_mid2l_search dl pgno;
         if x \<le> unat (mid n)
         then map_option (\<lambda>e. if mid e = pgno then Some (mptr e) else None) (idl_at dl x)
         else Some None
       }
     }"

text \<open>The loop over the transaction and its parents; the page with its level.\<close>

fun level_loop ::
  "page_txn \<Rightarrow> (idl option \<times> mdb_id2 list) list \<Rightarrow> mdb_id \<Rightarrow> nat \<Rightarrow> ((mdb_page \<times> nat) option) option" where
  "level_loop txn [] pgno level = Some None"
| "level_loop txn ((spill, dl) # levels) pgno level =
     do {
       spilled \<leftarrow> in_spilled spill pgno;
       if spilled then Some (Some (pt_map txn pgno, level))
       else do {
         dirty \<leftarrow> in_dirty dl pgno;
         case dirty of
           Some p \<Rightarrow> Some (Some (pt_heap txn p, level))
         | None \<Rightarrow> level_loop txn levels pgno (level + 1)
       }
     }"

definition mdb_page_get :: "page_txn \<Rightarrow> mdb_id \<Rightarrow> (int \<times> page_txn \<times> (mdb_page \<times> nat) option) option" where
  "mdb_page_get txn pgno =
     do {
       found \<leftarrow> (if pt_direct txn then Some None else level_loop txn (pt_levels txn) pgno 1);
       case found of
         Some p \<Rightarrow> Some (MDB_SUCCESS, txn, Some p)
       | None \<Rightarrow>
           if pgno < pt_next_pgno txn then Some (MDB_SUCCESS, txn, Some (pt_map txn pgno, 0))
           else Some (MDB_PAGE_NOTFOUND, txn\<lparr>pt_error := True, pt_blocked := True\<rparr>, None)
     }"

section \<open>Searching a page\<close>

text \<open>
  The loop of \<open>mdb_node_search\<close>: the index last looked at and the last comparison.
\<close>

function node_loop :: "mdb_node list \<Rightarrow> string \<Rightarrow> int \<Rightarrow> int \<Rightarrow> int \<Rightarrow> int \<Rightarrow> (int \<times> int) option" where
  "node_loop nodes key low high i rc =
     (if low \<le> high then
        let i = (low + high) div 2 in
        do {
          node \<leftarrow> idl_at nodes (nat i);
          let rc = mdb_cmp_memn key (nd_key node);
          if rc = 0 then Some (i, rc)
          else if 0 < rc then node_loop nodes key (i + 1) high i rc
          else node_loop nodes key low (i - 1) i rc
        }
      else Some (i, rc))"
  by pat_completeness auto
termination
  by (relation "measure (\<lambda>(nodes, key, low, high, i, rc). nat (high - low + 1))") auto

declare node_loop.simps [simp del]

text \<open>
  The index found, whether the key there is the wanted one, and the node, if the index is not
  behind the last.
\<close>

definition node_search :: "mdb_page \<Rightarrow> string \<Rightarrow> (nat \<times> bool \<times> mdb_node option) option" where
  "node_search mp key =
     do {
       (i, rc) \<leftarrow> node_loop (mp_nodes mp) key (if IS_LEAF mp then 0 else 1) (int (NUMKEYS mp) - 1) 0 0;
       let i = (if 0 < rc then i + 1 else i);
       Some (nat i, rc = 0 \<and> 0 < NUMKEYS mp, if nat i < NUMKEYS mp then NODEPTR mp (nat i) else None)
     }"

end
