(* ===== verification/Lmdb_Cursor.thy ===== *)
theory Lmdb_Cursor
  imports Lmdb_Pages
begin

text \<open>
  The cursor of \<open>mdb.c\<close> on a database without \<open>MDB_DUPSORT\<close>: a stack of pages from the root
  to a leaf, with an index in each. Reading operations only: descending to a leaf, moving to
  a sibling, first, last, next, previous, and the search for a key.
\<close>

section \<open>Cursors\<close>

definition CURSOR_STACK :: nat where "CURSOR_STACK = 32"
definition P_INVALID :: mdb_id where "P_INVALID = - 1"

text \<open>
  The stack has its top first. \<open>mc_pg0\<close> is \<open>mc_pg[0]\<close>, which outlives the stack; \<open>mc_root\<close> is
  the root of the database. The transaction the cursor belongs to is part of it.
\<close>

record mcursor =
  mc_txn :: page_txn
  mc_root :: mdb_id
  mc_pg0 :: "mdb_page option"
  mc_stack :: "(mdb_page \<times> nat) list"
  mc_init :: bool
  mc_eof :: bool
  mc_del :: bool

definition mdb_cursor_init :: "page_txn \<Rightarrow> mdb_id \<Rightarrow> mcursor" where
  "mdb_cursor_init txn root =
     \<lparr>mc_txn = txn, mc_root = root, mc_pg0 = None, mc_stack = [], mc_init = False, mc_eof = False, mc_del = False\<rparr>"

definition set_ki :: "nat \<Rightarrow> mcursor \<Rightarrow> mcursor" where
  "set_ki i mc = mc\<lparr>mc_stack := (case mc_stack mc of [] \<Rightarrow> [] | (mp, ki) # st \<Rightarrow> (mp, i) # st)\<rparr>"

definition mdb_cursor_pop :: "mcursor \<Rightarrow> mcursor" where
  "mdb_cursor_pop mc =
     (if mc_stack mc = [] then mc
      else let mc1 = mc\<lparr>mc_stack := tl (mc_stack mc)\<rparr>
           in if mc_stack mc1 = [] then mc1\<lparr>mc_init := False\<rparr> else mc1)"

definition mdb_cursor_push :: "mcursor \<Rightarrow> mdb_page \<Rightarrow> int \<times> mcursor" where
  "mdb_cursor_push mc mp =
     (if CURSOR_STACK \<le> length (mc_stack mc)
      then (MDB_CURSOR_FULL, mc\<lparr>mc_txn := (mc_txn mc)\<lparr>pt_error := True, pt_blocked := True\<rparr>\<rparr>)
      else (MDB_SUCCESS, mc\<lparr>mc_stack := (mp, 0) # mc_stack mc\<rparr>))"

text \<open>\<open>mdb_page_get\<close> for the transaction of a cursor.\<close>

definition cursor_page :: "mcursor \<Rightarrow> mdb_id \<Rightarrow> (int \<times> mcursor \<times> mdb_page option) option" where
  "cursor_page mc pgno =
     map_option (\<lambda>(rc, txn, p). (rc, mc\<lparr>mc_txn := txn\<rparr>, map_option fst p)) (mdb_page_get (mc_txn mc) pgno)"

text \<open>The search in the page on top; it moves the index of the cursor.\<close>

definition mdb_node_search :: "mcursor \<Rightarrow> string \<Rightarrow> (mcursor \<times> bool \<times> mdb_node option) option" where
  "mdb_node_search mc key =
     (case mc_stack mc of
        [] \<Rightarrow> None
      | (mp, ki) # st \<Rightarrow> map_option (\<lambda>(i, exact, node). (set_ki i mc, exact, node)) (node_search mp key))"

section \<open>Descending\<close>

datatype ps_flag = MDB_PS_NONE | MDB_PS_FIRST | MDB_PS_LAST

text \<open>The index to follow from a branch page, with the cursor the search has moved.\<close>

definition follow_index :: "mcursor \<Rightarrow> mdb_page \<Rightarrow> string option \<Rightarrow> ps_flag \<Rightarrow> (mcursor \<times> nat) option" where
  "follow_index mc mp key flag =
     (case flag of
        MDB_PS_FIRST \<Rightarrow> Some (mc, 0)
      | MDB_PS_LAST \<Rightarrow> Some (mc, NUMKEYS mp - 1)
      | MDB_PS_NONE \<Rightarrow>
          do {
            k \<leftarrow> key;
            (mc1, exact, node) \<leftarrow> mdb_node_search mc k;
            let ki = snd (hd (mc_stack mc1));
            if node = None then Some (mc1, NUMKEYS mp - 1)
            else if exact then Some (mc1, ki)
            else if 0 < ki then Some (mc1, ki - 1)
            else None
          })"

text \<open>\<open>room\<close> is the room left on the stack: every turn pushes a page.\<close>

fun search_root_loop :: "nat \<Rightarrow> mcursor \<Rightarrow> string option \<Rightarrow> ps_flag \<Rightarrow> (int \<times> mcursor) option" where
  "search_root_loop room mc key flag =
     (case mc_stack mc of
        [] \<Rightarrow> None
      | (mp, ki) # st \<Rightarrow>
          if IS_BRANCH mp then
            if NUMKEYS mp \<le> 1 then None
            else do {
              (mc1, i) \<leftarrow> follow_index mc mp key flag;
              node \<leftarrow> NODEPTR mp i;
              pgno \<leftarrow> NODEPGNO node;
              (rc, mc2, p) \<leftarrow> cursor_page mc1 pgno;
              if rc \<noteq> MDB_SUCCESS then Some (rc, mc2)
              else do {
                page \<leftarrow> p;
                let (rc, mc3) = mdb_cursor_push (set_ki i mc2) page;
                if rc \<noteq> MDB_SUCCESS then Some (rc, mc3)
                else case room of 0 \<Rightarrow> None | Suc r \<Rightarrow> search_root_loop r mc3 key flag
              }
            }
          else if \<not> IS_LEAF mp
          then Some (MDB_CORRUPTED, mc\<lparr>mc_txn := (mc_txn mc)\<lparr>pt_error := True, pt_blocked := True\<rparr>\<rparr>)
          else Some (MDB_SUCCESS, mc\<lparr>mc_init := True, mc_eof := False\<rparr>))"

declare search_root_loop.simps [simp del]

definition mdb_page_search_root :: "mcursor \<Rightarrow> string option \<Rightarrow> ps_flag \<Rightarrow> (int \<times> mcursor) option" where
  "mdb_page_search_root mc key flag = search_root_loop CURSOR_STACK mc key flag"

definition mdb_page_search_lowest :: "mcursor \<Rightarrow> (int \<times> mcursor) option" where
  "mdb_page_search_lowest mc =
     (case mc_stack mc of
        [] \<Rightarrow> None
      | (mp, ki) # st \<Rightarrow>
          do {
            node \<leftarrow> NODEPTR mp 0;
            pgno \<leftarrow> NODEPGNO node;
            (rc, mc1, p) \<leftarrow> cursor_page mc pgno;
            if rc \<noteq> MDB_SUCCESS then Some (rc, mc1)
            else do {
              page \<leftarrow> p;
              let (rc, mc2) = mdb_cursor_push (set_ki 0 mc1) page;
              if rc \<noteq> MDB_SUCCESS then Some (rc, mc2) else mdb_page_search_root mc2 None MDB_PS_FIRST
            }
          })"

definition mdb_page_search :: "mcursor \<Rightarrow> string option \<Rightarrow> ps_flag \<Rightarrow> (int \<times> mcursor) option" where
  "mdb_page_search mc key flag =
     (if pt_blocked (mc_txn mc) then Some (MDB_BAD_TXN, mc)
      else if mc_root mc = P_INVALID then Some (MDB_NOTFOUND, mc)
      else if mc_root mc \<le> 1 then None
      else do {
        (rc, mc1, p) \<leftarrow> (case mc_pg0 mc of
            Some p \<Rightarrow> if mp_pgno p = mc_root mc then Some (MDB_SUCCESS, mc, Some p) else cursor_page mc (mc_root mc)
          | None \<Rightarrow> cursor_page mc (mc_root mc));
        if rc \<noteq> MDB_SUCCESS then Some (rc, mc1)
        else do {
          root \<leftarrow> p;
          let ki = (if mc_stack mc1 = [] then 0 else snd (last (mc_stack mc1)));
          mdb_page_search_root (mc1\<lparr>mc_pg0 := Some root, mc_stack := [(root, ki)]\<rparr>) key flag
        }
      })"

section \<open>Reading a record\<close>

definition mdb_node_read :: "page_txn \<Rightarrow> mdb_node \<Rightarrow> (int \<times> page_txn \<times> string) option" where
  "mdb_node_read txn leaf =
     (case leaf of
        Leaf_node k d \<Rightarrow> Some (MDB_SUCCESS, txn, d)
      | Big_node k n pgno \<Rightarrow>
          do {
            (rc, txn1, p) \<leftarrow> mdb_page_get txn pgno;
            if rc \<noteq> MDB_SUCCESS then Some (rc, txn1, [])
            else do {
              omp \<leftarrow> p;
              if n \<le> length (mp_data (fst omp)) then Some (MDB_SUCCESS, txn1, take n (mp_data (fst omp))) else None
            }
          }
      | Branch_node k pgno \<Rightarrow> None)"

text \<open>
  The end of every operation: the key and data of the node at the index on top. The page must
  be a leaf.
\<close>

definition read_top :: "mcursor \<Rightarrow> (int \<times> mcursor \<times> (string \<times> string) option) option" where
  "read_top mc =
     (case mc_stack mc of
        [] \<Rightarrow> None
      | (mp, ki) # st \<Rightarrow>
          if \<not> IS_LEAF mp then None
          else do {
            leaf \<leftarrow> NODEPTR mp ki;
            (rc, txn1, d) \<leftarrow> mdb_node_read (mc_txn mc) leaf;
            if rc \<noteq> MDB_SUCCESS then Some (rc, mc\<lparr>mc_txn := txn1\<rparr>, None)
            else Some (MDB_SUCCESS, mc\<lparr>mc_txn := txn1\<rparr>, Some (nd_key leaf, d))
          })"

section \<open>Moving\<close>

text \<open>
  The page beside the one on top. Where the parent has no such child, the parent is moved first;
  if that fails, the stack is restored up to the entry the failure left on top. \<open>levels\<close> is the
  height of the stack.
\<close>

fun sibling_loop :: "nat \<Rightarrow> mcursor \<Rightarrow> bool \<Rightarrow> (int \<times> mcursor) option" where
  "sibling_loop 0 mc move_right = Some (MDB_NOTFOUND, mc)"
| "sibling_loop (Suc levels) mc move_right =
     (if length (mc_stack mc) < 2 then Some (MDB_NOTFOUND, mc)
      else let mc1 = mdb_cursor_pop mc; (mp, ki) = hd (mc_stack mc1) in
        do {
          (rc, mc2) \<leftarrow>
            (if (if move_right then NUMKEYS mp \<le> ki + 1 else ki = 0)
             then do {
               (rc, mc2) \<leftarrow> sibling_loop levels mc1 move_right;
               if rc \<noteq> MDB_SUCCESS
               then Some (rc, mc2\<lparr>mc_stack := rev (mc_stack mc) ! length (mc_stack mc2) # mc_stack mc2\<rparr>)
               else Some (rc, mc2)
             }
             else Some (MDB_SUCCESS, set_ki (if move_right then ki + 1 else ki - 1) mc1));
          if rc \<noteq> MDB_SUCCESS then Some (rc, mc2)
          else case mc_stack mc2 of
              [] \<Rightarrow> None
            | (mp, ki) # st \<Rightarrow>
                if \<not> IS_BRANCH mp then None
                else do {
                  indx \<leftarrow> NODEPTR mp ki;
                  pgno \<leftarrow> NODEPGNO indx;
                  (rc, mc3, p) \<leftarrow> cursor_page mc2 pgno;
                  if rc \<noteq> MDB_SUCCESS then Some (rc, mc3\<lparr>mc_init := False, mc_eof := False\<rparr>)
                  else do {
                    page \<leftarrow> p;
                    let mc4 = snd (mdb_cursor_push mc3 page);
                    Some (MDB_SUCCESS, if move_right then mc4 else set_ki (NUMKEYS page - 1) mc4)
                  }
                }
        })"

definition mdb_cursor_sibling :: "mcursor \<Rightarrow> bool \<Rightarrow> (int \<times> mcursor) option" where
  "mdb_cursor_sibling mc move_right = sibling_loop (length (mc_stack mc)) mc move_right"

type_synonym cursor_result = "(int \<times> mcursor \<times> (string \<times> string) option) option"

definition mdb_cursor_next :: "mcursor \<Rightarrow> cursor_result" where
  "mdb_cursor_next mc =
     (if mc_eof mc then Some (MDB_NOTFOUND, mc, None)
      else if \<not> mc_init mc then None
      else case mc_stack mc of
          [] \<Rightarrow> None
        | (mp, ki) # st \<Rightarrow>
            if mc_del mc then read_top (mc\<lparr>mc_del := False\<rparr>)
            else if NUMKEYS mp \<le> ki + 1 then
              do {
                (rc, mc1) \<leftarrow> mdb_cursor_sibling mc True;
                if rc \<noteq> MDB_SUCCESS then Some (rc, mc1\<lparr>mc_eof := True\<rparr>, None) else read_top mc1
              }
            else read_top (set_ki (ki + 1) mc))"

definition mdb_cursor_prev :: "mcursor \<Rightarrow> cursor_result" where
  "mdb_cursor_prev mc =
     (if \<not> mc_init mc then None
      else let mc1 = mc\<lparr>mc_eof := False, mc_del := False\<rparr> in
        case mc_stack mc1 of
          [] \<Rightarrow> None
        | (mp, ki) # st \<Rightarrow>
            if ki = 0 then
              do {
                (rc, mc2) \<leftarrow> mdb_cursor_sibling mc1 False;
                if rc \<noteq> MDB_SUCCESS then Some (rc, mc2, None)
                else case mc_stack mc2 of
                    [] \<Rightarrow> None
                  | (mp, ki) # st \<Rightarrow> read_top (set_ki (NUMKEYS mp - 1) mc2)
              }
            else read_top (set_ki (ki - 1) mc1))"

definition mdb_cursor_first :: "mcursor \<Rightarrow> cursor_result" where
  "mdb_cursor_first mc =
     do {
       (rc, mc1) \<leftarrow> (if \<not> mc_init mc \<or> 1 < length (mc_stack mc)
                    then mdb_page_search mc None MDB_PS_FIRST else Some (MDB_SUCCESS, mc));
       if rc \<noteq> MDB_SUCCESS then Some (rc, mc1, None)
       else read_top (set_ki 0 (mc1\<lparr>mc_init := True, mc_eof := False\<rparr>))
     }"

definition mdb_cursor_last :: "mcursor \<Rightarrow> cursor_result" where
  "mdb_cursor_last mc =
     do {
       (rc, mc1) \<leftarrow> (if \<not> mc_eof mc \<and> (\<not> mc_init mc \<or> 1 < length (mc_stack mc))
                    then mdb_page_search mc None MDB_PS_LAST else Some (MDB_SUCCESS, mc));
       if rc \<noteq> MDB_SUCCESS then Some (rc, mc1, None)
       else case mc_stack mc1 of
           [] \<Rightarrow> None
         | (mp, ki) # st \<Rightarrow> read_top (set_ki (NUMKEYS mp - 1) (mc1\<lparr>mc_init := True, mc_eof := True\<rparr>))
     }"

section \<open>Searching for a key\<close>

text \<open>
  What \<open>mdb_cursor_set\<close> finds out from the page it is on: the key is at the index (\<open>set1\<close>), or
  would be in this page (\<open>set2\<close>), or the tree must be searched, or there is no such key.
\<close>

datatype set_plan = Set1 | Set2 | Search | Absent

text \<open>Whether some parent has a right sibling.\<close>

definition right_of_parents :: "mcursor \<Rightarrow> bool" where
  "right_of_parents mc = list_ex (\<lambda>(mp, ki). ki < NUMKEYS mp - 1) (tl (mc_stack mc))"

definition plan_beyond :: "mcursor \<Rightarrow> mdb_page \<Rightarrow> set_plan \<times> mcursor" where
  "plan_beyond mc mp = (if right_of_parents mc then (Search, mc) else (Absent, set_ki (NUMKEYS mp) mc))"

definition set_plan_of :: "mcursor \<Rightarrow> string \<Rightarrow> bool \<Rightarrow> (set_plan \<times> mcursor) option" where
  "set_plan_of mc key ranged =
     (if \<not> mc_init mc then Some (Search, mc\<lparr>mc_pg0 := None\<rparr>)
      else case mc_stack mc of
          [] \<Rightarrow> None
        | (mp, ki) # st \<Rightarrow>
            if NUMKEYS mp = 0 then Some (Absent, set_ki 0 mc)
            else do {
              leaf \<leftarrow> NODEPTR mp 0;
              let rc = mdb_cmp_memn key (nd_key leaf);
              if rc = 0 then Some (Set1, set_ki 0 mc)
              else if 0 < rc then
                if 1 < NUMKEYS mp then
                  do {
                    leaf \<leftarrow> NODEPTR mp (NUMKEYS mp - 1);
                    let rc = mdb_cmp_memn key (nd_key leaf);
                    if rc = 0 then Some (Set1, set_ki (NUMKEYS mp - 1) mc)
                    else if rc < 0 then
                      if ki < NUMKEYS mp then
                        do {
                          leaf \<leftarrow> NODEPTR mp ki;
                          Some (if mdb_cmp_memn key (nd_key leaf) = 0 then Set1 else Set2, mc)
                        }
                      else Some (Set2, mc)
                    else Some (plan_beyond mc mp)
                  }
                else Some (plan_beyond mc mp)
              else if st = [] then Some (if ranged then Set1 else Absent, set_ki 0 mc)
              else Some (Search, mc)
            })"

definition set_result :: "mcursor \<Rightarrow> cursor_result" where
  "set_result mc = read_top (mc\<lparr>mc_init := True, mc_eof := False\<rparr>)"

text \<open>From \<open>set2\<close> on. Only \<open>MDB_SET_RANGE\<close> takes the next larger key.\<close>

definition set_in_page :: "mcursor \<Rightarrow> string \<Rightarrow> bool \<Rightarrow> cursor_result" where
  "set_in_page mc key ranged =
     do {
       (mc1, exact, leaf) \<leftarrow> mdb_node_search mc key;
       if \<not> ranged \<and> \<not> exact then Some (MDB_NOTFOUND, mc1, None)
       else if leaf = None then
         do {
           (rc, mc2) \<leftarrow> mdb_cursor_sibling mc1 True;
           if rc \<noteq> MDB_SUCCESS then Some (rc, mc2\<lparr>mc_eof := True\<rparr>, None) else set_result mc2
         }
       else set_result mc1
     }"

definition mdb_cursor_set :: "mcursor \<Rightarrow> string \<Rightarrow> bool \<Rightarrow> cursor_result" where
  "mdb_cursor_set mc key ranged =
     (if key = [] then Some (MDB_BAD_VALSIZE, mc, None)
      else do {
        (plan, mc1) \<leftarrow> set_plan_of mc key ranged;
        case plan of
          Absent \<Rightarrow> Some (MDB_NOTFOUND, mc1, None)
        | Set1 \<Rightarrow> set_result mc1
        | Set2 \<Rightarrow> set_in_page mc1 key ranged
        | Search \<Rightarrow>
            do {
              (rc, mc2) \<leftarrow> mdb_page_search mc1 (Some key) MDB_PS_NONE;
              if rc \<noteq> MDB_SUCCESS then Some (rc, mc2, None) else set_in_page mc2 key ranged
            }
      })"

definition mdb_get :: "page_txn \<Rightarrow> mdb_id \<Rightarrow> string \<Rightarrow> cursor_result" where
  "mdb_get txn root key =
     (let mc = mdb_cursor_init txn root
      in if pt_blocked txn then Some (MDB_BAD_TXN, mc, None) else mdb_cursor_set mc key False)"

section \<open>The entry point\<close>

datatype MDB_cursor_op =
    MDB_FIRST | MDB_FIRST_DUP | MDB_GET_BOTH | MDB_GET_BOTH_RANGE | MDB_GET_CURRENT | MDB_GET_MULTIPLE
  | MDB_LAST | MDB_LAST_DUP | MDB_NEXT | MDB_NEXT_DUP | MDB_NEXT_MULTIPLE | MDB_NEXT_NODUP
  | MDB_PREV | MDB_PREV_DUP | MDB_PREV_NODUP | MDB_SET | MDB_SET_KEY | MDB_SET_RANGE

definition get_current :: "mcursor \<Rightarrow> cursor_result" where
  "get_current mc =
     (if \<not> mc_init mc then Some (EINVAL, mc, None)
      else case mc_stack mc of
          [] \<Rightarrow> None
        | (mp, ki) # st \<Rightarrow>
            if NUMKEYS mp \<le> ki then Some (MDB_NOTFOUND, set_ki (NUMKEYS mp) mc, None) else read_top mc)"

text \<open>
  On a database without duplicates the operations on duplicates are refused, or do what the
  plain ones do. \<open>key\<close> is the key the caller passes in.
\<close>

definition cursor_dispatch :: "mcursor \<Rightarrow> MDB_cursor_op \<Rightarrow> string option \<Rightarrow> cursor_result" where
  "cursor_dispatch mc op key =
     (case op of
        MDB_GET_CURRENT \<Rightarrow> get_current mc
      | MDB_GET_BOTH \<Rightarrow> Some (MDB_INCOMPATIBLE, mc, None)
      | MDB_GET_BOTH_RANGE \<Rightarrow> Some (MDB_INCOMPATIBLE, mc, None)
      | MDB_SET \<Rightarrow> (case key of None \<Rightarrow> Some (EINVAL, mc, None) | Some k \<Rightarrow> mdb_cursor_set mc k False)
      | MDB_SET_KEY \<Rightarrow> (case key of None \<Rightarrow> Some (EINVAL, mc, None) | Some k \<Rightarrow> mdb_cursor_set mc k False)
      | MDB_SET_RANGE \<Rightarrow> (case key of None \<Rightarrow> Some (EINVAL, mc, None) | Some k \<Rightarrow> mdb_cursor_set mc k True)
      | MDB_GET_MULTIPLE \<Rightarrow> Some (if mc_init mc then MDB_INCOMPATIBLE else EINVAL, mc, None)
      | MDB_NEXT_MULTIPLE \<Rightarrow> Some (MDB_INCOMPATIBLE, mc, None)
      | MDB_FIRST \<Rightarrow> mdb_cursor_first mc
      | MDB_LAST \<Rightarrow> mdb_cursor_last mc
      | MDB_FIRST_DUP \<Rightarrow> Some (if mc_init mc then MDB_INCOMPATIBLE else EINVAL, mc, None)
      | MDB_LAST_DUP \<Rightarrow> Some (if mc_init mc then MDB_INCOMPATIBLE else EINVAL, mc, None)
      | _ \<Rightarrow>
          if op \<in> {MDB_NEXT, MDB_NEXT_DUP, MDB_NEXT_NODUP}
          then if mc_init mc then mdb_cursor_next mc else mdb_cursor_first mc
          else if mc_init mc then mdb_cursor_prev mc
          else do {
            (rc, mc1, r) \<leftarrow> mdb_cursor_last mc;
            if rc \<noteq> MDB_SUCCESS then Some (rc, mc1, None)
            else case mc_stack mc1 of
                [] \<Rightarrow> None
              | (mp, ki) # st \<Rightarrow> mdb_cursor_prev (set_ki (ki + 1) (mc1\<lparr>mc_init := True\<rparr>))
          })"

definition mdb_cursor_get :: "mcursor \<Rightarrow> MDB_cursor_op \<Rightarrow> string option \<Rightarrow> cursor_result" where
  "mdb_cursor_get mc op key =
     (if pt_blocked (mc_txn mc) then Some (MDB_BAD_TXN, mc, None)
      else map_option (\<lambda>(rc, mc1, r). (rc, mc1\<lparr>mc_del := False\<rparr>, r)) (cursor_dispatch mc op key))"

end
