(* ===== verification/Lmdb_Pages_Props.thy ===== *)
theory Lmdb_Pages_Props
  imports Lmdb_Pages
begin

text \<open>
  The key comparison is the lexicographic order of the bytes, the search in a page finds the
  place of a key, and a transaction reads its own copy of a page before the one in the map.
\<close>

section \<open>Comparison\<close>

lemma take_less: "n \<le> length a \<Longrightarrow> n \<le> length b \<Longrightarrow> take n a < take n b \<Longrightarrow> a < (b :: string)"
proof (induction n arbitrary: a b)
  case (Suc n)
  obtain x a' y b' where ab: "a = x # a'" "b = y # b'" using Suc(2,3) by (meson Suc_le_length_iff)
  with Suc(4) have "x < y \<or> x = y \<and> take n a' < take n b'" by simp
  with Suc(1) [of a' b'] Suc(2,3) ab show ?case by (metis Cons_less_Cons Suc_le_mono length_Cons)
qed simp

lemma prefix_less: "take n a = take n b \<Longrightarrow> length a = n \<Longrightarrow> n < length b \<Longrightarrow> a < (b :: string)"
proof (induction n arbitrary: a b)
  case 0
  then show ?case by (cases b) simp_all
next
  case (Suc n)
  obtain x a' y b' where ab: "a = x # a'" "b = y # b'"
    using Suc(3,4) by (metis length_Suc_conv Suc_le_length_iff less_imp_le)
  with Suc(2) have "x = y" "take n a' = take n b'" by simp_all
  with Suc(1) [of a' b'] Suc(3,4) ab show ?case by simp
qed

lemma mdb_cmp_memn_CMP: "mdb_cmp_memn a b = CMP a b"
proof -
  define n where "n = min (length a) (length b)"
  have m: "mdb_cmp_memn a b =
      (if memcmp a b n \<noteq> 0 then memcmp a b n else if length a < length b then - 1 else if length b < length a then 1 else 0)"
  proof (cases "length a" "length b" rule: linorder_cases)
    case less
    then have d: "int (length a) - int (length b) < 0" "n = length a" "\<not> length b < length a" by (simp_all add: n_def)
    then have "\<not> 0 < int (length a) - int (length b)" by simp
    with d(1) show ?thesis using less d(3) unfolding mdb_cmp_memn_def Let_def d(2) by (simp only: if_False if_True prod.case)
  next
    case equal
    then have d: "int (length a) - int (length b) = 0" "n = length a" by (simp_all add: n_def)
    show ?thesis using equal unfolding mdb_cmp_memn_def Let_def d by (simp only: if_False prod.case less_irrefl)
  next
    case greater
    then have d: "0 < int (length a) - int (length b)" "n = length b" "\<not> length a < length b" by (simp_all add: n_def)
    then show ?thesis using greater unfolding mdb_cmp_memn_def Let_def d(2) by (simp only: if_False if_True prod.case not_one_less_zero)
  qed
  consider "take n a < take n b" | "take n b < take n a" | "take n a = take n b" by (rule linorder_cases)
  then show ?thesis
  proof cases
    case 1
    have "a < b" by (rule take_less [OF _ _ 1]) (simp_all add: n_def)
    then have "CMP a b = - 1" by (rule CMP_less)
    moreover have "memcmp a b n = - 1" unfolding memcmp_def using 1 by (rule CMP_less)
    ultimately show ?thesis unfolding m by simp
  next
    case 2
    have "b < a" by (rule take_less [OF _ _ 2]) (simp_all add: n_def)
    then have "CMP a b = 1" by (rule CMP_greater)
    moreover have "memcmp a b n = 1" unfolding memcmp_def using 2 by (rule CMP_greater)
    ultimately show ?thesis unfolding m by simp
  next
    case 3
    have z: "memcmp a b n = 0" unfolding memcmp_def 3 by (simp only: CMP_def if_False less_irrefl)
    show ?thesis
    proof (cases "length a" "length b" rule: linorder_cases)
      case less
      then have "a < b" using prefix_less [OF 3] by (simp add: n_def)
      then have "CMP a b = - 1" by (rule CMP_less)
      with less show ?thesis unfolding m z by simp
    next
      case equal
      with 3 have "a = b" by (simp add: n_def)
      then show ?thesis unfolding m z by (simp add: CMP_def)
    next
      case greater
      then have "b < a" using prefix_less [OF 3 [symmetric]] by (simp add: n_def)
      then have "CMP a b = 1" by (rule CMP_greater)
      with greater show ?thesis unfolding m z by simp
    qed
  qed
qed

section \<open>Searching a page\<close>

definition key_at :: "mdb_node list \<Rightarrow> nat \<Rightarrow> string" where
  "key_at nodes i = nd_key (nodes ! i)"

text \<open>Keys are in order from index \<open>lo\<close> on.\<close>

definition keys_from :: "nat \<Rightarrow> mdb_node list \<Rightarrow> bool" where
  "keys_from lo nodes = (\<forall>i j. lo \<le> i \<and> i < j \<and> j < length nodes \<longrightarrow> key_at nodes i < key_at nodes j)"

text \<open>The place of a key: before it smaller keys, behind it larger ones.\<close>

definition place :: "nat \<Rightarrow> mdb_node list \<Rightarrow> string \<Rightarrow> nat \<Rightarrow> bool" where
  "place lo nodes key p = (lo \<le> p \<and> p \<le> length nodes \<and> (\<forall>i. lo \<le> i \<and> i < p \<longrightarrow> key_at nodes i < key)
     \<and> (\<forall>i. p \<le> i \<and> i < length nodes \<longrightarrow> key < key_at nodes i))"

lemma node_loop_result:
  assumes "keys_from lo nodes" and "int lo \<le> low" and "high < int (length nodes)" and "low \<le> high + 1"
    and "\<And>j. lo \<le> j \<Longrightarrow> int j < low \<Longrightarrow> key_at nodes j < key"
    and "\<And>j. high < int j \<Longrightarrow> j < length nodes \<Longrightarrow> key < key_at nodes j"
    and "high < low \<Longrightarrow> rc \<noteq> 0 \<and> 0 \<le> i \<and> (if 0 < rc then i + 1 else i) = low"
  shows "\<exists>i' rc'. node_loop nodes key low high i rc = Some (i', rc') \<and> 0 \<le> i' \<and>
    (if rc' = 0 then lo \<le> nat i' \<and> nat i' < length nodes \<and> key_at nodes (nat i') = key
     else place lo nodes key (nat (if 0 < rc' then i' + 1 else i')))"
  using assms
proof (induction nodes key low high i rc rule: node_loop.induct)
  case (1 nodes key low high i rc)
  show ?case
  proof (cases "low \<le> high")
    case False
    then have e: "high + 1 = low" using 1(6) by simp
    have "place lo nodes key (nat low)"
      unfolding place_def using 1(4,5) e
      by (auto intro!: 1(7,8) simp: nat_less_iff nat_le_iff le_nat_iff)
    then show ?thesis using 1(9) False by (subst node_loop.simps) auto
  next
    case True
    define m where "m = (low + high) div 2"
    have m: "low \<le> m" "m \<le> high" using True by (auto simp: m_def)
    have len: "nat m < length nodes" "lo \<le> nat m" "0 \<le> m" using m 1(4,5) by linarith+
    define c where "c = mdb_cmp_memn key (nd_key (nodes ! nat m))"
    have step: "node_loop nodes key low high i rc = (if c = 0 then Some (m, c)
        else if 0 < c then node_loop nodes key (m + 1) high m c else node_loop nodes key low (m - 1) m c)"
      using True len(1) by (subst node_loop.simps) (simp add: m_def c_def Let_def)
    have at: "idl_at nodes (nat m) = Some (nodes ! nat m)" using len(1) by simp
    have c: "c = CMP key (key_at nodes (nat m))" by (simp add: c_def mdb_cmp_memn_CMP key_at_def)
    consider "c = 0" | "0 < c" | "c < 0" by linarith
    then show ?thesis
    proof cases
      case 1
      with c step len show ?thesis by (simp add: CMP_cases)
    next
      case 2
      then have k: "key_at nodes (nat m) < key" using c by (simp add: CMP_cases)
      have lower: "key_at nodes j < key" if "lo \<le> j" "int j < m + 1" for j
      proof (cases "j = nat m")
        case False
        then have "j < nat m" using that by linarith
        then have "key_at nodes j < key_at nodes (nat m)" using 1(3) that(1) len(1) by (simp add: keys_from_def)
        then show ?thesis using k by (rule less_trans)
      qed (use k in simp)
      have "\<exists>i' rc'. node_loop nodes key (m + 1) high m c = Some (i', rc') \<and> 0 \<le> i' \<and>
        (if rc' = 0 then lo \<le> nat i' \<and> nat i' < length nodes \<and> key_at nodes (nat i') = key
         else place lo nodes key (nat (if 0 < rc' then i' + 1 else i')))"
        by (rule "1.IH"(1) [OF True m_def at c_def _ 2])
          (use 2 lower 1(3-8) len m in auto)
      with step 2 show ?thesis by simp
    next
      case 3
      then have k: "key < key_at nodes (nat m)" using c by (simp add: CMP_cases)
      have upper: "key < key_at nodes j" if "m - 1 < int j" "j < length nodes" for j
      proof (cases "j = nat m")
        case False
        then have "nat m < j" using that by linarith
        then have "key_at nodes (nat m) < key_at nodes j" using 1(3) that(2) len(2) by (simp add: keys_from_def)
        with k show ?thesis by (rule less_trans)
      qed (use k in simp)
      have "\<exists>i' rc'. node_loop nodes key low (m - 1) m c = Some (i', rc') \<and> 0 \<le> i' \<and>
        (if rc' = 0 then lo \<le> nat i' \<and> nat i' < length nodes \<and> key_at nodes (nat i') = key
         else place lo nodes key (nat (if 0 < rc' then i' + 1 else i')))"
        by (rule "1.IH"(2) [OF True m_def at c_def])
          (use 3 upper 1(3-8) len m in auto)
      with step 3 show ?thesis by simp
    qed
  qed
qed

definition first_key :: "mdb_page \<Rightarrow> nat" where
  "first_key mp = (if IS_LEAF mp then 0 else 1)"

lemma node_search_result:
  assumes "keys_from (first_key mp) (mp_nodes mp)" and "first_key mp < NUMKEYS mp"
  obtains (exact) p where "node_search mp key = Some (p, True, Some (mp_nodes mp ! p))" "first_key mp \<le> p"
      "p < NUMKEYS mp" "key_at (mp_nodes mp) p = key"
    | (beside) p where "node_search mp key = Some (p, False, if p < NUMKEYS mp then Some (mp_nodes mp ! p) else None)"
      "place (first_key mp) (mp_nodes mp) key p"
proof -
  obtain i rc where r: "node_loop (mp_nodes mp) key (int (first_key mp)) (int (NUMKEYS mp) - 1) 0 0 = Some (i, rc)" "0 \<le> i"
    "if rc = 0 then first_key mp \<le> nat i \<and> nat i < NUMKEYS mp \<and> key_at (mp_nodes mp) (nat i) = key
     else place (first_key mp) (mp_nodes mp) key (nat (if 0 < rc then i + 1 else i))"
    using node_loop_result [OF assms(1), of "int (first_key mp)" "int (NUMKEYS mp) - 1" key 0 0] assms(2)
    by (auto simp: NUMKEYS_def)
  have f: "(if IS_LEAF mp then 0 else 1) = int (first_key mp)" by (simp add: first_key_def)
  let ?p = "nat (if 0 < rc then i + 1 else i)"
  have s: "node_search mp key = Some (?p, rc = 0 \<and> 0 < NUMKEYS mp, if ?p < NUMKEYS mp then Some (mp_nodes mp ! ?p) else None)"
    using r(1) unfolding node_search_def f by (simp add: NODEPTR_def NUMKEYS_def Let_def)
  show ?thesis
  proof (cases "rc = 0")
    case True
    with r s exact [of "nat i"] show ?thesis by auto
  next
    case False
    with r(3) s beside [of ?p] show ?thesis by auto
  qed
qed

section \<open>Finding a page\<close>

text \<open>The page a transaction reads under a number, if it reads one.\<close>

definition page_at :: "page_txn \<Rightarrow> mdb_id \<Rightarrow> mdb_page option" where
  "page_at txn pgno =
     (case mdb_page_get txn pgno of Some (rc, txn1, Some (p, level)) \<Rightarrow> Some p | _ \<Rightarrow> None)"

lemma mdb_page_get_success:
  "mdb_page_get txn pgno = Some (rc, txn1, Some p) \<Longrightarrow> rc = MDB_SUCCESS \<and> txn1 = txn"
  by (auto simp: mdb_page_get_def bind_eq_Some_conv split: option.splits if_splits)

lemma page_at_get:
  assumes "page_at txn pgno = Some p"
  obtains level where "mdb_page_get txn pgno = Some (MDB_SUCCESS, txn, Some (p, level))"
  using assms mdb_page_get_success by (force simp: page_at_def split: option.splits prod.splits)

text \<open>The pages a level of transactions has its own copies of.\<close>

definition dirty_pages :: "mdb_id2 list \<Rightarrow> mdb_id \<Rightarrow> nat option" where
  "dirty_pages dl pgno = map_of (List.map (\<lambda>e. (mid e, mptr e)) (id2_ids dl)) pgno"

lemma in_dirty_result:
  assumes "ascending dl"
  shows "in_dirty dl pgno = Some (dirty_pages dl pgno)"
proof -
  let ?n = "unat (mid (dl ! 0))"
  have n: "?n < length dl" using assms by (simp add: ascending_def)
  then have 0: "idl_at dl 0 = Some (dl ! 0)" by (intro idl_at_Some) linarith
  have ids: "id2_ids dl ! i = dl ! Suc i" if "i < ?n" for i using that n by (simp add: id2_ids_def nth_tl)
  have len: "length (id2_ids dl) = ?n" using n by (simp add: id2_ids_def)
  have distinct: "distinct (List.map mid (id2_ids dl))"
    using assms by (simp add: ascending_def strict_sorted_iff)
  obtain x where x: "mdb_mid2l_search dl pgno = Some x" "1 \<le> x" "x \<le> ?n + 1"
    "\<forall>i. 1 \<le> i \<and> i < x \<longrightarrow> mid (dl ! i) < pgno" "\<forall>i. x \<le> i \<and> i \<le> ?n \<longrightarrow> pgno \<le> mid (dl ! i)"
    using mid2l_search_position [OF assms, of pgno] by blast
  show ?thesis
  proof (cases "x \<le> ?n \<and> mid (dl ! x) = pgno")
    case True
    then have "dl ! x = id2_ids dl ! (x - 1)" "x - 1 < ?n" using ids [of "x - 1"] x(2) by auto
    then have "(pgno, mptr (dl ! x)) \<in> set (List.map (\<lambda>e. (mid e, mptr e)) (id2_ids dl))"
      using True len by (force simp: in_set_conv_nth)
    then have "dirty_pages dl pgno = Some (mptr (dl ! x))"
      unfolding dirty_pages_def using distinct by (intro map_of_is_SomeI) (simp_all add: comp_def)
    moreover have "?n \<noteq> 0" using True x(2) by linarith
    ultimately show ?thesis using True x(1) n 0 by (auto simp: in_dirty_def unat_eq_0)
  next
    case False
    have "mid (dl ! Suc i) \<noteq> pgno" if "i < ?n" for i
    proof (cases "Suc i < x")
      case True
      then show ?thesis using x(4) by auto
    next
      case i: False
      then have "pgno \<le> mid (dl ! x)" "x \<le> ?n" using x(5) that by auto
      with False have "pgno < mid (dl ! x)" by auto
      moreover have "mid (dl ! x) \<le> mid (dl ! Suc i)"
        using ascending_nth [OF assms x(2), of "Suc i"] i that by (cases "x = Suc i") auto
      ultimately show ?thesis by auto
    qed
    then have "pgno \<notin> mid ` set (id2_ids dl)" using len ids by (force simp: in_set_conv_nth)
    then have "dirty_pages dl pgno = None"
      unfolding dirty_pages_def by (auto simp: map_of_eq_None_iff)
    moreover have "mid (dl ! x) \<noteq> pgno" if "x \<le> ?n" using False that by simp
    ultimately show ?thesis using x(1) n 0 by (auto simp: in_dirty_def)
  qed
qed

definition spilled_pages :: "idl option \<Rightarrow> mdb_id set" where
  "spilled_pages spill = (case spill of None \<Rightarrow> {} | Some ids \<Rightarrow> {pgno. push_bit 1 pgno \<in> set (idl_ids ids)})"

lemma in_spilled_result:
  assumes "\<And>ids. spill = Some ids \<Longrightarrow> descending ids"
  shows "in_spilled spill pgno = Some (pgno \<in> spilled_pages spill)"
proof (cases spill)
  case None
  then show ?thesis by (simp add: in_spilled_def spilled_pages_def)
next
  case (Some ids)
  let ?n = "unat (ids ! 0)" and ?w = "push_bit 1 pgno"
  have d: "descending ids" using assms Some by simp
  then have n: "?n < length ids" "idl_fits ids" by (simp_all add: descending_def idl_fits_def)
  then have 0: "idl_at ids 0 = Some (ids ! 0)" by (intro idl_at_Some) linarith
  obtain x where x: "mdb_midl_search ids ?w = Some x" "1 \<le> x" "x \<le> ?n + 1"
    "\<forall>i. 1 \<le> i \<and> i < x \<longrightarrow> ?w < ids ! i" "\<forall>i. x \<le> i \<and> i \<le> ?n \<longrightarrow> ids ! i \<le> ?w"
    using midl_search_position [OF d, of ?w] by blast
  have mem: "?w \<in> set (idl_ids ids) \<longleftrightarrow> (\<exists>i < ?n. ids ! Suc i = ?w)"
    using n(2) by (auto simp: in_set_conv_nth idl_ids_nth)
  have "(\<exists>i < ?n. ids ! Suc i = ?w) \<longleftrightarrow> x \<le> ?n \<and> ids ! x = ?w"
  proof
    assume "\<exists>i < ?n. ids ! Suc i = ?w"
    then obtain i where i: "i < ?n" "ids ! Suc i = ?w" by blast
    then have "x \<le> Suc i" using x(4) by (metis less_irrefl not_less One_nat_def Suc_le_mono le0)
    moreover have "Suc i \<le> x"
    proof (rule ccontr)
      assume "\<not> Suc i \<le> x"
      then have "ids ! Suc i < ids ! x" using descending_nth [OF d x(2), of "Suc i"] i(1) by simp
      with i x(5) \<open>\<not> Suc i \<le> x\<close> show False by auto
    qed
    ultimately show "x \<le> ?n \<and> ids ! x = ?w" using i by simp
  next
    assume "x \<le> ?n \<and> ids ! x = ?w"
    with x(2) show "\<exists>i < ?n. ids ! Suc i = ?w" by (intro exI [of _ "x - 1"]) auto
  qed
  with mem Some x(1) n 0 show ?thesis
    by (auto simp: in_spilled_def spilled_pages_def Let_def)
qed

definition levels_ok :: "(idl option \<times> mdb_id2 list) list \<Rightarrow> bool" where
  "levels_ok levels = list_all (\<lambda>(spill, dl). pred_option descending spill \<and> ascending dl) levels"

text \<open>
  The copy of a page the innermost level has: the spilled one, which is in the map, or the
  dirty one in memory.
\<close>

fun own_copy :: "page_txn \<Rightarrow> (idl option \<times> mdb_id2 list) list \<Rightarrow> mdb_id \<Rightarrow> mdb_page option" where
  "own_copy txn [] pgno = None"
| "own_copy txn ((spill, dl) # levels) pgno =
     (if pgno \<in> spilled_pages spill then Some (pt_map txn pgno)
      else case dirty_pages dl pgno of
          Some p \<Rightarrow> Some (pt_heap txn p)
        | None \<Rightarrow> own_copy txn levels pgno)"

lemma level_loop_result:
  "levels_ok levels \<Longrightarrow> \<exists>r. level_loop txn levels pgno level = Some r \<and> map_option fst r = own_copy txn levels pgno"
proof (induction txn levels pgno level rule: level_loop.induct)
  case (2 txn spill dl levels pgno level)
  have s: "in_spilled spill pgno = Some (pgno \<in> spilled_pages spill)"
    using 2(2) by (intro in_spilled_result) (auto simp: levels_ok_def)
  have d: "in_dirty dl pgno = Some (dirty_pages dl pgno)"
    using 2(2) by (intro in_dirty_result) (simp add: levels_ok_def)
  show ?case
  proof (cases "pgno \<in> spilled_pages spill")
    case False
    show ?thesis
    proof (cases "dirty_pages dl pgno")
      case None
      with 2(1) [OF s _ d] 2(2) False s d show ?thesis by (simp add: levels_ok_def)
    qed (use s d False in simp)
  qed (use s in simp)
qed simp

lemma page_at_result:
  assumes "levels_ok (pt_levels txn)"
  shows "page_at txn pgno =
    (case if pt_direct txn then None else own_copy txn (pt_levels txn) pgno of
       Some p \<Rightarrow> Some p
     | None \<Rightarrow> if pgno < pt_next_pgno txn then Some (pt_map txn pgno) else None)"
proof (cases "pt_direct txn")
  case True
  then show ?thesis by (simp add: page_at_def mdb_page_get_def)
next
  case False
  obtain r where r: "level_loop txn (pt_levels txn) pgno 1 = Some r" "map_option fst r = own_copy txn (pt_levels txn) pgno"
    using level_loop_result [OF assms] by blast
  with False show ?thesis
    by (cases r) (auto simp: page_at_def mdb_page_get_def simp flip: r(2))
qed

end
