(* ===== verification/Lmdb_Cursor_Props.thy ===== *)
theory Lmdb_Cursor_Props
  imports Lmdb_Cursor Lmdb_Pages_Props
begin

text \<open>
  The tree of pages below a root holds a list of records, and the cursor's stack is a position
  in that list: the moves of the cursor are the moves of the position, and the search for a
  key finds it where the list has it.
\<close>

section \<open>The records of a tree\<close>

definition child :: "page_txn \<Rightarrow> mdb_node \<Rightarrow> mdb_page" where
  "child txn n = the (Option.bind (NODEPGNO n) (page_at txn))"

definition node_data :: "page_txn \<Rightarrow> mdb_node \<Rightarrow> string" where
  "node_data txn n = (case mdb_node_read txn n of Some (rc, txn1, d) \<Rightarrow> d | None \<Rightarrow> [])"

definition record_of :: "page_txn \<Rightarrow> mdb_node \<Rightarrow> string \<times> string" where
  "record_of txn n = (nd_key n, node_data txn n)"

text \<open>
  A page of height \<open>h\<close> whose tree can be read: leaves at height 0, at least one record in a
  leaf and two children in a branch, every child and every datum within reach.
\<close>

fun page_ok :: "page_txn \<Rightarrow> nat \<Rightarrow> mdb_page \<Rightarrow> bool" where
  "page_ok txn 0 p =
     (IS_LEAF p \<and> mp_nodes p \<noteq> [] \<and> (\<forall>n \<in> set (mp_nodes p). \<exists>d. mdb_node_read txn n = Some (MDB_SUCCESS, txn, d)))"
| "page_ok txn (Suc h) p =
     (IS_BRANCH p \<and> 2 \<le> length (mp_nodes p) \<and>
      (\<forall>n \<in> set (mp_nodes p). \<exists>k pgno q. n = Branch_node k pgno \<and> page_at txn pgno = Some q \<and> page_ok txn h q))"

fun records_of :: "page_txn \<Rightarrow> nat \<Rightarrow> mdb_page \<Rightarrow> records" where
  "records_of txn 0 p = List.map (record_of txn) (mp_nodes p)"
| "records_of txn (Suc h) p = concat (List.map (\<lambda>n. records_of txn h (child txn n)) (mp_nodes p))"

lemma page_ok_child:
  assumes "page_ok txn (Suc h) p" and "i < NUMKEYS p"
  obtains k pgno where "mp_nodes p ! i = Branch_node k pgno" "page_at txn pgno = Some (child txn (mp_nodes p ! i))"
    "page_ok txn h (child txn (mp_nodes p ! i))"
proof -
  have "mp_nodes p ! i \<in> set (mp_nodes p)" using assms(2) by (simp add: NUMKEYS_def)
  then obtain k pgno q where "mp_nodes p ! i = Branch_node k pgno" "page_at txn pgno = Some q" "page_ok txn h q"
    using assms(1) by (metis page_ok.simps(2))
  with that show ?thesis by (simp add: child_def NODEPGNO_def)
qed

lemma page_ok_NUMKEYS: "page_ok txn h p \<Longrightarrow> 0 < NUMKEYS p"
  by (cases h) (auto simp: NUMKEYS_def)

lemma records_not_empty: "page_ok txn h p \<Longrightarrow> records_of txn h p \<noteq> []"
proof (induction h arbitrary: p)
  case (Suc h)
  have "0 < NUMKEYS p" using Suc(2) by (rule page_ok_NUMKEYS)
  moreover obtain k pgno where "page_ok txn h (child txn (mp_nodes p ! 0))"
    using page_ok_child [OF Suc(2) calculation] by metis
  ultimately show ?case using Suc(1) by (force simp: NUMKEYS_def)
qed simp

text \<open>Reading a child page through a cursor.\<close>

lemma cursor_page_eq:
  assumes "page_at (mc_txn mc) pgno = Some p"
  shows "cursor_page mc pgno = Some (MDB_SUCCESS, mc, Some p)"
proof -
  obtain level where "mdb_page_get (mc_txn mc) pgno = Some (MDB_SUCCESS, mc_txn mc, Some (p, level))"
    using assms by (rule page_at_get)
  then show ?thesis by (simp add: cursor_page_def)
qed

section \<open>The stack as a position\<close>

text \<open>A stack whose top is a page of height \<open>h\<close>: every page is the child its parent's index names.\<close>

fun path :: "page_txn \<Rightarrow> nat \<Rightarrow> (mdb_page \<times> nat) list \<Rightarrow> bool" where
  "path txn h [] = False"
| "path txn h [(p, k)] = (page_ok txn h p \<and> k < NUMKEYS p)"
| "path txn h ((p, k) # (q, j) # st) =
     (page_ok txn h p \<and> k < NUMKEYS p \<and> child txn (mp_nodes q ! j) = p \<and> path txn (Suc h) ((q, j) # st))"

text \<open>The records before and behind the tree of the page above a stack, whose height is \<open>h\<close>.\<close>

fun records_before :: "page_txn \<Rightarrow> nat \<Rightarrow> (mdb_page \<times> nat) list \<Rightarrow> records" where
  "records_before txn h [] = []"
| "records_before txn h ((q, j) # st) =
     records_before txn (Suc h) st @ concat (List.map (\<lambda>n. records_of txn h (child txn n)) (take j (mp_nodes q)))"

fun records_behind :: "page_txn \<Rightarrow> nat \<Rightarrow> (mdb_page \<times> nat) list \<Rightarrow> records" where
  "records_behind txn h [] = []"
| "records_behind txn h ((q, j) # st) =
     concat (List.map (\<lambda>n. records_of txn h (child txn n)) (drop (Suc j) (mp_nodes q))) @ records_behind txn (Suc h) st"

lemma records_split:
  "j < NUMKEYS q \<Longrightarrow> records_of txn (Suc h) q =
     concat (List.map (\<lambda>n. records_of txn h (child txn n)) (take j (mp_nodes q)))
     @ records_of txn h (child txn (mp_nodes q ! j))
     @ concat (List.map (\<lambda>n. records_of txn h (child txn n)) (drop (Suc j) (mp_nodes q)))"
proof -
  assume "j < NUMKEYS q"
  then have "mp_nodes q = take j (mp_nodes q) @ mp_nodes q ! j # drop (Suc j) (mp_nodes q)"
    unfolding NUMKEYS_def by (rule id_take_nth_drop)
  from arg_cong [OF this, of "\<lambda>ns. concat (List.map (\<lambda>n. records_of txn h (child txn n)) ns)"]
  show ?thesis by (simp only: records_of.simps map_append concat_append list.map concat.simps)
qed

lemma path_top: "path txn h ((p, k) # st) \<Longrightarrow> page_ok txn h p \<and> k < NUMKEYS p"
  by (cases st) auto

lemma path_parent: "path txn h ((p, k) # (q, j) # st) \<Longrightarrow> j < NUMKEYS q \<and> page_ok txn (Suc h) q"
  using path_top [of txn "Suc h" q j st] by simp

lemma path_records:
  "path txn h ((p, k) # st) \<Longrightarrow>
     records_of txn (h + length st) (fst (last ((p, k) # st))) = records_before txn h st @ records_of txn h p @ records_behind txn h st"
proof (induction st arbitrary: h p k)
  case (Cons x st)
  obtain q j where x: "x = (q, j)" by fastforce
  have "path txn (Suc h) ((q, j) # st)" "child txn (mp_nodes q ! j) = p" using Cons(2) x by simp_all
  with Cons(1) [of "Suc h" q j] path_parent [of txn h p k q j st] Cons(2) x records_split [of j q txn h]
  show ?case by simp
qed simp

text \<open>Changing the index of the page on top, within its keys, keeps the path.\<close>

lemma path_set_top: "path txn h ((p, k) # st) \<Longrightarrow> i < NUMKEYS p \<Longrightarrow> path txn h ((p, i) # st)"
  by (cases st) auto

lemma path_push:
  assumes "path txn (Suc h) ((q, j) # st)" and "i < NUMKEYS (child txn (mp_nodes q ! j))"
  shows "path txn h ((child txn (mp_nodes q ! j), i) # (q, j) # st)"
proof -
  have "page_ok txn (Suc h) q" "j < NUMKEYS q" using path_top [OF assms(1)] by blast+
  then have "page_ok txn h (child txn (mp_nodes q ! j))" by (metis page_ok_child)
  with assms show ?thesis by simp
qed

section \<open>Moving to a sibling\<close>

lemma pop_simps:
  "mc_stack mc = x # y # st \<Longrightarrow> mdb_cursor_pop mc = mc\<lparr>mc_stack := y # st\<rparr>"
  by (simp add: mdb_cursor_pop_def)

lemma set_ki_stack: "mc_stack mc = (p, k) # st \<Longrightarrow> set_ki i mc = mc\<lparr>mc_stack := (p, i) # st\<rparr>"
  by (simp add: set_ki_def)

lemma push_room:
  "length (mc_stack mc) < CURSOR_STACK \<Longrightarrow> mdb_cursor_push mc p = (MDB_SUCCESS, mc\<lparr>mc_stack := (p, 0) # mc_stack mc\<rparr>)"
  by (simp add: mdb_cursor_push_def)

text \<open>The last part of a move: the child the parent's index now names goes on the stack.\<close>

lemma sibling_push:
  assumes "page_ok txn (Suc h) q" and "i < NUMKEYS q" and "mc_txn mc = txn" and "mc_stack mc = (q, i) # st"
    and "Suc (length st) < CURSOR_STACK"
  shows "do {
      indx \<leftarrow> NODEPTR q i;
      pgno \<leftarrow> NODEPGNO indx;
      (rc, mc3, p) \<leftarrow> cursor_page mc pgno;
      if rc \<noteq> MDB_SUCCESS then Some (rc, mc3\<lparr>mc_init := False, mc_eof := False\<rparr>)
      else do { page \<leftarrow> p; let mc4 = snd (mdb_cursor_push mc3 page);
                Some (MDB_SUCCESS, if r then mc4 else set_ki (NUMKEYS page - 1) mc4) }
    } = Some (MDB_SUCCESS, mc\<lparr>mc_stack :=
        (child txn (mp_nodes q ! i), if r then 0 else NUMKEYS (child txn (mp_nodes q ! i)) - 1) # (q, i) # st\<rparr>)"
proof -
  obtain k pgno where n: "mp_nodes q ! i = Branch_node k pgno" "page_at txn pgno = Some (child txn (mp_nodes q ! i))"
    using page_ok_child [OF assms(1,2)] by metis
  have "NODEPTR q i = Some (mp_nodes q ! i)" using assms(2) by (simp add: NODEPTR_def NUMKEYS_def)
  moreover have "cursor_page mc pgno = Some (MDB_SUCCESS, mc, Some (child txn (mp_nodes q ! i)))"
    using cursor_page_eq n(2) assms(3) by simp
  moreover have "NODEPGNO (mp_nodes q ! i) = Some pgno" using n(1) by (simp add: NODEPGNO_def)
  ultimately show ?thesis using assms(4,5) by (simp add: push_room set_ki_stack)
qed

lemma notfound [simp]: "MDB_NOTFOUND \<noteq> MDB_SUCCESS"
  by (simp add: MDB_NOTFOUND_def MDB_SUCCESS_def)

lemma sibling_right:
  assumes "path txn h ((p, k) # st)" and "mc_txn mc = txn" and "mc_stack mc = (p, k') # st"
    and "length st < levels" and "length st < CURSOR_STACK"
  shows "if records_behind txn h st = [] then sibling_loop levels mc True = Some (MDB_NOTFOUND, mc)
    else \<exists>p' st'. sibling_loop levels mc True = Some (MDB_SUCCESS, mc\<lparr>mc_stack := (p', 0) # st'\<rparr>)
      \<and> path txn h ((p', 0) # st') \<and> length st' = length st \<and> fst (last st') = fst (last st)
      \<and> records_before txn h st' = records_before txn h st @ records_of txn h p"
  using assms
proof (induction levels arbitrary: h p k k' st mc)
  case (Suc levels)
  show ?case
  proof (cases st)
    case Nil
    with Suc(4) show ?thesis by simp
  next
    case (Cons x st2)
    obtain q j where st: "st = (q, j) # st2" using Cons by (cases x) auto
    let ?mc1 = "mc\<lparr>mc_stack := (q, j) # st2\<rparr>"
    have pop: "mdb_cursor_pop mc = ?mc1" using Suc(4) st by (simp add: pop_simps)
    have pq: "path txn (Suc h) ((q, j) # st2)" "child txn (mp_nodes q ! j) = p" using Suc(2) st by simp_all
    have q: "page_ok txn (Suc h) q" "j < NUMKEYS q" using path_top [OF pq(1)] by simp_all
    have branch: "IS_BRANCH q" using q(1) by simp
    show ?thesis
    proof (cases "NUMKEYS q \<le> j + 1")
      case False
      then have j: "j + 1 < NUMKEYS q" by simp
      let ?c = "child txn (mp_nodes q ! (j + 1))"
      let ?mc2 = "mc\<lparr>mc_stack := (q, j + 1) # st2\<rparr>"
      have mc2: "set_ki (j + 1) ?mc1 = ?mc2" by (simp add: set_ki_def)
      note push = sibling_push [OF q(1) j, of ?mc2 st2 True]
      have s: "sibling_loop (Suc levels) mc True = Some (MDB_SUCCESS, mc\<lparr>mc_stack := (?c, 0) # (q, j + 1) # st2\<rparr>)"
        using push j Suc(3-6) st branch pop mc2 by (simp add: Let_def)
      have path: "path txn (Suc h) ((q, j + 1) # st2)" using pq(1) j by (rule path_set_top)
      have c: "page_ok txn h ?c" using page_ok_child [OF q(1) j] by metis
      have new: "path txn h ((?c, 0) # (q, j + 1) # st2)"
        using path page_ok_NUMKEYS [OF c] by (rule path_push)
      have "drop (Suc j) (mp_nodes q) = mp_nodes q ! (j + 1) # drop (Suc (j + 1)) (mp_nodes q)"
        using j by (simp add: NUMKEYS_def Cons_nth_drop_Suc)
      then have more: "records_behind txn h st \<noteq> []" using records_not_empty [OF c] st by simp
      have bef': "records_before txn h ((q, j + 1) # st2) = records_before txn h st @ records_of txn h p"
        using q(2) pq(2) st by (simp add: take_Suc_conv_app_nth NUMKEYS_def)
      show ?thesis
        unfolding if_not_P [OF more] by (intro exI conjI, rule s, rule new) (use st bef' in auto)
    next
      case True
      then have none: "drop (Suc j) (mp_nodes q) = []" by (simp add: NUMKEYS_def)
      have IH: "if records_behind txn (Suc h) st2 = [] then sibling_loop levels ?mc1 True = Some (MDB_NOTFOUND, ?mc1)
        else \<exists>p' st'. sibling_loop levels ?mc1 True = Some (MDB_SUCCESS, ?mc1\<lparr>mc_stack := (p', 0) # st'\<rparr>)
          \<and> path txn (Suc h) ((p', 0) # st') \<and> length st' = length st2 \<and> fst (last st') = fst (last st2)
          \<and> records_before txn (Suc h) st' = records_before txn (Suc h) st2 @ records_of txn (Suc h) q"
        by (rule Suc(1) [OF pq(1)]) (use Suc(3-6) st in auto)
      show ?thesis
      proof (cases "records_behind txn (Suc h) st2 = []")
        case over: True
        then have "sibling_loop levels ?mc1 True = Some (MDB_NOTFOUND, ?mc1)" using IH by simp
        then have "sibling_loop (Suc levels) mc True = Some (MDB_NOTFOUND, mc)"
          using True Suc(4) st pop by (simp add: Let_def nth_append)
        then show ?thesis using over st none by simp
      next
        case more: False
        then obtain p' st' where p': "sibling_loop levels ?mc1 True = Some (MDB_SUCCESS, ?mc1\<lparr>mc_stack := (p', 0) # st'\<rparr>)"
          "path txn (Suc h) ((p', 0) # st')" "length st' = length st2" "fst (last st') = fst (last st2)"
          "records_before txn (Suc h) st' = records_before txn (Suc h) st2 @ records_of txn (Suc h) q"
          using IH by auto
        have p'_ok: "page_ok txn (Suc h) p'" "0 < NUMKEYS p'" using path_top [OF p'(2)] by simp_all
        let ?c = "child txn (mp_nodes p' ! 0)"
        let ?mc2 = "mc\<lparr>mc_stack := (p', 0) # st'\<rparr>"
        note push = sibling_push [OF p'_ok, of ?mc2 st' True]
        have s: "sibling_loop (Suc levels) mc True = Some (MDB_SUCCESS, mc\<lparr>mc_stack := (?c, 0) # (p', 0) # st'\<rparr>)"
          using push p'(1,3) p'_ok True Suc(3-6) st pop by (simp add: Let_def)
        have new: "path txn h ((?c, 0) # (p', 0) # st')"
        proof (rule path_push [OF p'(2)])
          show "0 < NUMKEYS ?c" using page_ok_child [OF p'_ok] page_ok_NUMKEYS by metis
        qed
        have root: "fst (last ((p', 0) # st')) = fst (last st)"
        proof -
          have "st2 \<noteq> []" using more by auto
          then have "st' \<noteq> []" using p'(3) by auto
          with \<open>st2 \<noteq> []\<close> p'(4) st show ?thesis by simp
        qed
        have bef': "records_before txn h ((p', 0) # st') = records_before txn h st @ records_of txn h p"
          using p'(5) records_split [OF q(2), of txn h] pq(2) none st by simp
        have m: "records_behind txn h st \<noteq> []" using more st by simp
        show ?thesis
          unfolding if_not_P [OF m] by (intro exI conjI, rule s, rule new) (use st p'(3) root bef' in simp_all)
      qed
    qed
  qed
qed simp

end
