(* ===== verification/Lmdb_Search_Props.thy ===== *)
theory Lmdb_Search_Props
  imports Lmdb_Cursor_Props
begin

text \<open>
  The descent from the root to a leaf, and with it the operations of a cursor: first, next,
  last, and the search for a key.
\<close>

section \<open>Trees in order\<close>

text \<open>
  The key of a node of a branch, the first apart, is a lower bound of the records below it and
  an upper one of those below its left neighbour.
\<close>

fun tree_ordered :: "page_txn \<Rightarrow> nat \<Rightarrow> mdb_page \<Rightarrow> bool" where
  "tree_ordered txn 0 p = keys_from 0 (mp_nodes p)"
| "tree_ordered txn (Suc h) p =
     (keys_from 1 (mp_nodes p) \<and>
      (\<forall>i < length (mp_nodes p). tree_ordered txn h (child txn (mp_nodes p ! i)) \<and>
        (\<forall>r \<in> set (records_of txn h (child txn (mp_nodes p ! i))).
           (0 < i \<longrightarrow> key_at (mp_nodes p) i \<le> fst r) \<and>
           (i + 1 < length (mp_nodes p) \<longrightarrow> fst r < key_at (mp_nodes p) (i + 1)))))"

text \<open>
  What a descent leaves out on its left and on its right: nothing on one side for first and
  last, smaller and larger keys for a search.
\<close>

definition aim :: "ps_flag \<Rightarrow> string option \<Rightarrow> records \<Rightarrow> records \<Rightarrow> bool" where
  "aim flag key a b =
     (case flag of
        MDB_PS_FIRST \<Rightarrow> a = []
      | MDB_PS_LAST \<Rightarrow> b = []
      | MDB_PS_NONE \<Rightarrow> (\<exists>k. key = Some k \<and> (\<forall>r \<in> set a. fst r < k) \<and> (\<forall>r \<in> set b. k < fst r)))"

lemma aim_append: "aim flag key a b \<Longrightarrow> aim flag key a' b' \<Longrightarrow> aim flag key (a @ a') (b' @ b)"
  by (auto simp: aim_def split: ps_flag.splits)

lemma path_root: "path txn h ((p, k) # st) \<Longrightarrow> page_ok txn h p"
  by (drule path_top) simp

text \<open>The children left and right of the one a branch is followed to.\<close>

abbreviation left_of :: "page_txn \<Rightarrow> nat \<Rightarrow> mdb_page \<Rightarrow> nat \<Rightarrow> records" where
  "left_of txn h q i \<equiv> concat (List.map (\<lambda>n. records_of txn h (child txn n)) (take i (mp_nodes q)))"

abbreviation right_of :: "page_txn \<Rightarrow> nat \<Rightarrow> mdb_page \<Rightarrow> nat \<Rightarrow> records" where
  "right_of txn h q i \<equiv> concat (List.map (\<lambda>n. records_of txn h (child txn n)) (drop (Suc i) (mp_nodes q)))"

lemma in_set_take: "x \<in> set (take i xs) \<longleftrightarrow> (\<exists>j < min i (length xs). x = xs ! j)"
  by (auto simp: in_set_conv_nth)

lemma in_set_drop: "x \<in> set (drop i xs) \<longleftrightarrow> (\<exists>j. i \<le> j \<and> j < length xs \<and> x = xs ! j)"
proof
  assume "x \<in> set (drop i xs)"
  then obtain n where n: "n < length (drop i xs)" "x = drop i xs ! n" by (auto simp: in_set_conv_nth)
  then show "\<exists>j. i \<le> j \<and> j < length xs \<and> x = xs ! j" by (intro exI [of _ "i + n"]) simp
next
  assume "\<exists>j. i \<le> j \<and> j < length xs \<and> x = xs ! j"
  then obtain j where j: "i \<le> j" "j < length xs" "x = xs ! j" by blast
  then show "x \<in> set (drop i xs)" unfolding in_set_conv_nth by (intro exI [of _ "j - i"]) simp
qed

lemma in_left_of: "r \<in> set (left_of txn h q i) \<longleftrightarrow>
    (\<exists>j < min i (length (mp_nodes q)). r \<in> set (records_of txn h (child txn (mp_nodes q ! j))))"
  by (simp add: in_set_take Bex_def) blast

lemma in_right_of: "r \<in> set (right_of txn h q i) \<longleftrightarrow>
    (\<exists>j. i < j \<and> j < length (mp_nodes q) \<and> r \<in> set (records_of txn h (child txn (mp_nodes q ! j))))"
  by (simp add: in_set_drop Bex_def Suc_le_eq) blast

lemma separated:
  assumes "tree_ordered txn (Suc h) q" and "i < NUMKEYS q"
    and below: "0 < i \<Longrightarrow> key_at (mp_nodes q) i \<le> k"
    and above: "i + 1 < NUMKEYS q \<Longrightarrow> k < key_at (mp_nodes q) (i + 1)"
  shows "aim MDB_PS_NONE (Some k) (left_of txn h q i) (right_of txn h q i)"
proof -
  have keys: "key_at (mp_nodes q) a \<le> key_at (mp_nodes q) b" if "1 \<le> a" "a \<le> b" "b < NUMKEYS q" for a b
  proof (cases "a = b")
    case False
    then show ?thesis using assms(1) that by (auto simp: keys_from_def NUMKEYS_def intro!: less_imp_le)
  qed simp
  have "fst r < k" if r: "r \<in> set (left_of txn h q i)" for r
  proof -
    obtain j where "j < min i (length (mp_nodes q))" "r \<in> set (records_of txn h (child txn (mp_nodes q ! j)))"
      using r unfolding in_left_of by blast
    then have j: "j < i" "r \<in> set (records_of txn h (child txn (mp_nodes q ! j)))" by simp_all
    then have "fst r < key_at (mp_nodes q) (j + 1)" using assms(1,2) by (auto simp: NUMKEYS_def)
    also have "\<dots> \<le> key_at (mp_nodes q) i" using j(1) assms(2) by (intro keys) auto
    also have "\<dots> \<le> k" using j(1) by (intro below) auto
    finally show ?thesis .
  qed
  moreover have "k < fst r" if r: "r \<in> set (right_of txn h q i)" for r
  proof -
    obtain j where j: "i < j" "j < NUMKEYS q" "r \<in> set (records_of txn h (child txn (mp_nodes q ! j)))"
      using r unfolding in_right_of NUMKEYS_def by blast
    have "k < key_at (mp_nodes q) (i + 1)" using j by (intro above) auto
    also have "\<dots> \<le> key_at (mp_nodes q) j" using j by (intro keys) auto
    also have "\<dots> \<le> fst r" using assms(1) j by (auto simp: NUMKEYS_def)
    finally show ?thesis .
  qed
  ultimately show ?thesis unfolding aim_def ps_flag.case by blast
qed

lemma follow_index_result:
  assumes "page_ok txn (Suc h) q" and "mc_stack mc = (q, j) # st"
    and "flag = MDB_PS_NONE \<Longrightarrow> key \<noteq> None \<and> tree_ordered txn (Suc h) q"
  obtains i j' where "follow_index mc q key flag = Some (mc\<lparr>mc_stack := (q, j') # st\<rparr>, i)" "i < NUMKEYS q"
    "aim flag key (left_of txn h q i) (right_of txn h q i)"
proof (cases flag)
  case MDB_PS_FIRST
  with assms(2) page_ok_NUMKEYS [OF assms(1)] that [of j 0] show ?thesis by (simp add: follow_index_def aim_def)
next
  case MDB_PS_LAST
  with assms(2) page_ok_NUMKEYS [OF assms(1)] that [of j "NUMKEYS q - 1"] show ?thesis
    by (simp add: follow_index_def aim_def NUMKEYS_def)
next
  case MDB_PS_NONE
  with assms(3) obtain k where k: "key = Some k" and ord: "tree_ordered txn (Suc h) q" by auto
  have f: "first_key q = 1" using assms(1) by (simp add: first_key_def IS_LEAF_def IS_BRANCH_def)
  have n: "2 \<le> NUMKEYS q" using assms(1) by (simp add: NUMKEYS_def)
  from ord f n have "keys_from (first_key q) (mp_nodes q)" "first_key q < NUMKEYS q" by simp_all
  then show ?thesis
  proof (cases rule: node_search_result [where key = k])
    case (exact p)
    have 1: "follow_index mc q key flag = Some (mc\<lparr>mc_stack := (q, p) # st\<rparr>, p)"
      using exact(1) assms(2) MDB_PS_NONE k by (simp add: follow_index_def mdb_node_search_def set_ki_stack)
    have "k < key_at (mp_nodes q) (p + 1)" if "p + 1 < NUMKEYS q"
      using ord exact(2-4) f that by (auto simp: keys_from_def NUMKEYS_def)
    then have "aim flag key (left_of txn h q p) (right_of txn h q p)"
      unfolding MDB_PS_NONE k using exact(3,4) by (intro separated [OF ord]) auto
    with that 1 exact(3) show ?thesis by blast
  next
    case (beside p)
    have p: "1 \<le> p" "p \<le> NUMKEYS q" using beside(2) f by (simp_all add: place_def NUMKEYS_def)
    have 1: "follow_index mc q key flag = Some (mc\<lparr>mc_stack := (q, p) # st\<rparr>, p - 1)"
      using beside(1) assms(2) MDB_PS_NONE k p by (simp add: follow_index_def mdb_node_search_def set_ki_stack)
    have "aim flag key (left_of txn h q (p - 1)) (right_of txn h q (p - 1))"
      unfolding MDB_PS_NONE k
    proof (rule separated [OF ord])
      show "p - 1 < NUMKEYS q" using p by linarith
      show "key_at (mp_nodes q) (p - 1) \<le> k" if "0 < p - 1"
        using beside(2) f that by (auto simp: place_def intro!: less_imp_le)
      show "k < key_at (mp_nodes q) (p - 1 + 1)" if "p - 1 + 1 < NUMKEYS q"
        using beside(2) p that by (auto simp: place_def NUMKEYS_def)
    qed
    moreover have "p - 1 < NUMKEYS q" using p by linarith
    ultimately show ?thesis using that [OF 1] by blast
  qed
qed


section \<open>The descent\<close>

text \<open>What a descent from a page of height \<open>h\<close> on top of the stack reaches.\<close>

definition descended ::
  "page_txn \<Rightarrow> ps_flag \<Rightarrow> string option \<Rightarrow> nat \<Rightarrow> (mdb_page \<times> nat) list \<Rightarrow> (mdb_page \<times> nat) list \<Rightarrow> bool" where
  "descended txn flag key h st st' =
     (path txn 0 st' \<and> length st' = length st + h \<and> fst (last st') = fst (last st) \<and>
      (tree_ordered txn h (fst (hd st)) \<longrightarrow> tree_ordered txn 0 (fst (hd st'))) \<and>
      (\<exists>a b. records_before txn 0 (tl st') = records_before txn h (tl st) @ a \<and> records_behind txn 0 (tl st') = b @ records_behind txn h (tl st) \<and>
        aim flag key a b))"

lemma search_root_result:
  assumes "path txn h st" and "mc_txn mc = txn" and "mc_stack mc = st"
    and "h \<le> room" and "length st + h \<le> CURSOR_STACK"
    and "flag = MDB_PS_NONE \<Longrightarrow> key \<noteq> None \<and> tree_ordered txn h (fst (hd st))"
  shows "\<exists>st'. search_root_loop room mc key flag =
      Some (MDB_SUCCESS, mc\<lparr>mc_stack := st', mc_init := True, mc_eof := False\<rparr>) \<and> descended txn flag key h st st'"
  using assms
proof (induction h arbitrary: room mc st)
  case 0
  obtain p k st0 where st: "st = (p, k) # st0" using 0(1) by (cases st) auto
  have "page_ok txn 0 p" using path_root 0(1) st by blast
  then have "IS_LEAF p" "\<not> IS_BRANCH p" by (auto simp: IS_LEAF_def IS_BRANCH_def)
  then have "search_root_loop room mc key flag = Some (MDB_SUCCESS, mc\<lparr>mc_stack := st, mc_init := True, mc_eof := False\<rparr>)"
    using 0(3) st by (subst search_root_loop.simps) simp
  moreover have "aim flag key [] []" using 0(6) by (auto simp: aim_def split: ps_flag.splits)
  ultimately show ?case using 0(1) by (intro exI [of _ st]) (simp add: descended_def)
next
  case (Suc h)
  obtain q j st0 where st: "st = (q, j) # st0" using Suc(2) by (cases st) auto
  have q: "page_ok txn (Suc h) q" using path_root Suc(2) st by blast
  obtain r where room: "room = Suc r" "h \<le> r" using Suc(5) by (cases room) auto
  obtain i j' where f: "follow_index mc q key flag = Some (mc\<lparr>mc_stack := (q, j') # st0\<rparr>, i)" "i < NUMKEYS q"
    "aim flag key (left_of txn h q i) (right_of txn h q i)"
    by (rule follow_index_result [OF q, of mc j st0 flag key]) (use Suc(4,7) st in simp_all)
  let ?c = "child txn (mp_nodes q ! i)"
  obtain k pgno where c: "mp_nodes q ! i = Branch_node k pgno" "page_at txn pgno = Some ?c" "page_ok txn h ?c"
    using page_ok_child [OF q f(2)] by metis
  have path: "path txn h ((?c, 0) # (q, i) # st0)"
    using path_push path_set_top [OF Suc(2) [unfolded st] f(2)] page_ok_NUMKEYS [OF c(3)] by blast
  let ?mc = "mc\<lparr>mc_stack := (?c, 0) # (q, i) # st0\<rparr>"
  have "IS_BRANCH q" "\<not> NUMKEYS q \<le> 1" using q by (simp_all add: NUMKEYS_def)
  moreover have "NODEPTR q i = Some (mp_nodes q ! i)" using f(2) by (simp add: NODEPTR_def NUMKEYS_def)
  moreover have "NODEPGNO (mp_nodes q ! i) = Some pgno" using c(1) by (simp add: NODEPGNO_def)
  moreover have "cursor_page (mc\<lparr>mc_stack := (q, j') # st0\<rparr>) pgno = Some (MDB_SUCCESS, mc\<lparr>mc_stack := (q, j') # st0\<rparr>, Some ?c)"
    using cursor_page_eq c(2) Suc(3) by simp
  moreover have "mdb_cursor_push (mc\<lparr>mc_stack := (q, i) # st0\<rparr>) ?c = (MDB_SUCCESS, ?mc)"
    using Suc(6) st by (simp add: push_room)
  ultimately have step: "search_root_loop room mc key flag = search_root_loop r ?mc key flag"
    using f(1) Suc(4) st room(1) by (subst search_root_loop.simps) (simp add: set_ki_def)
  have ord: "tree_ordered txn h ?c" if "tree_ordered txn (Suc h) q"
    using that f(2) by (simp add: NUMKEYS_def)
  obtain st' where st': "search_root_loop r ?mc key flag = Some (MDB_SUCCESS, ?mc\<lparr>mc_stack := st', mc_init := True, mc_eof := False\<rparr>)"
    "descended txn flag key h ((?c, 0) # (q, i) # st0) st'"
    using Suc(1) [OF path, of ?mc r] Suc(3,6,7) room(2) st ord by auto
  then obtain a b where ab: "records_before txn 0 (tl st') = records_before txn h ((q, i) # st0) @ a" "records_behind txn 0 (tl st') = b @ records_behind txn h ((q, i) # st0)"
    "aim flag key a b" unfolding descended_def by auto
  have "descended txn flag key (Suc h) st st'"
    unfolding descended_def
  proof (intro conjI exI)
    show "records_before txn 0 (tl st') = records_before txn (Suc h) (tl st) @ left_of txn h q i @ a"
      "records_behind txn 0 (tl st') = (b @ right_of txn h q i) @ records_behind txn (Suc h) (tl st)" using ab st by simp_all
    show "aim flag key (left_of txn h q i @ a) (b @ right_of txn h q i)" using f(3) ab(3) by (rule aim_append)
    show "tree_ordered txn (Suc h) (fst (hd st)) \<longrightarrow> tree_ordered txn 0 (fst (hd st'))"
      using st'(2) st ord by (auto simp: descended_def simp del: tree_ordered.simps)
    show "fst (last st') = fst (last st)" using st'(2) st by (simp add: descended_def)
  qed (use st'(2) st in \<open>simp_all add: descended_def\<close>)
  with step st'(1) show ?case by auto
qed

section \<open>A database and its cursors\<close>

text \<open>The database below \<open>root\<close>: a tree of height \<open>h\<close> below the page \<open>p\<close>.\<close>

definition database :: "page_txn \<Rightarrow> mdb_id \<Rightarrow> nat \<Rightarrow> mdb_page \<Rightarrow> bool" where
  "database txn root h p =
     (\<not> pt_blocked txn \<and> 1 < root \<and> root \<noteq> P_INVALID \<and> page_at txn root = Some p \<and> page_ok txn h p \<and> h < CURSOR_STACK)"

text \<open>A cursor on it: fresh, or at a path from its root.\<close>

definition cursor_on :: "page_txn \<Rightarrow> mdb_id \<Rightarrow> nat \<Rightarrow> mdb_page \<Rightarrow> mcursor \<Rightarrow> bool" where
  "cursor_on txn root h p mc =
     (mc_txn mc = txn \<and> mc_root mc = root \<and> mc_pg0 mc \<in> {None, Some p} \<and> \<not> mc_del mc \<and>
      (if mc_init mc then path txn 0 (mc_stack mc) \<and> length (mc_stack mc) = Suc h \<and> fst (last (mc_stack mc)) = p
       else mc_stack mc = []))"

definition position :: "mcursor \<Rightarrow> nat" where
  "position mc = (case mc_stack mc of [] \<Rightarrow> 0 | (p, k) # st \<Rightarrow> length (records_before (mc_txn mc) 0 st) + k)"

lemma cursor_init_on: "cursor_on txn root h p (mdb_cursor_init txn root)"
  by (simp add: cursor_on_def mdb_cursor_init_def)

lemma path_last: "path txn h st \<Longrightarrow> snd (last st) < NUMKEYS (fst (last st))"
  by (induction txn h st rule: path.induct) simp_all

lemma page_search_result:
  assumes "database txn root h p" and "cursor_on txn root h p mc"
    and "flag = MDB_PS_NONE \<Longrightarrow> key \<noteq> None \<and> tree_ordered txn h p"
  shows "\<exists>k st'. mdb_page_search mc key flag =
      Some (MDB_SUCCESS, mc\<lparr>mc_pg0 := Some p, mc_stack := st', mc_init := True, mc_eof := False\<rparr>)
    \<and> descended txn flag key h [(p, k)] st'"
proof -
  define k where "k = (if mc_stack mc = [] then 0 else snd (last (mc_stack mc)))"
  have ok: "page_ok txn h p" using assms(1) by (simp add: database_def)
  have "k < NUMKEYS p"
  proof (cases "mc_stack mc = []")
    case False
    then show ?thesis using assms(2) path_last [of txn 0 "mc_stack mc"] by (auto simp: k_def cursor_on_def split: if_splits)
  qed (use page_ok_NUMKEYS [OF ok] k_def in simp)
  with ok have "path txn h [(p, k)]" by simp
  then obtain st' where st': "search_root_loop CURSOR_STACK (mc\<lparr>mc_pg0 := Some p, mc_stack := [(p, k)]\<rparr>) key flag =
      Some (MDB_SUCCESS, mc\<lparr>mc_pg0 := Some p, mc_stack := st', mc_init := True, mc_eof := False\<rparr>)"
    "descended txn flag key h [(p, k)] st'"
    using search_root_result [of txn h "[(p, k)]" "mc\<lparr>mc_pg0 := Some p, mc_stack := [(p, k)]\<rparr>" CURSOR_STACK flag key] assms
    by (auto simp: database_def cursor_on_def)
  have "\<not> root \<le> 1" "root \<noteq> P_INVALID" "\<not> pt_blocked txn" using assms(1) by (simp_all add: database_def flip: not_le)
  moreover have "cursor_page mc root = Some (MDB_SUCCESS, mc, Some p)"
    using assms(1,2) by (intro cursor_page_eq) (simp add: database_def cursor_on_def)
  moreover have "mc_root mc = root" "mc_txn mc = txn" "mc_pg0 mc = None \<or> mc_pg0 mc = Some p"
    using assms(2) by (auto simp: cursor_on_def)
  ultimately have "mdb_page_search mc key flag = search_root_loop CURSOR_STACK (mc\<lparr>mc_pg0 := Some p, mc_stack := [(p, k)]\<rparr>) key flag"
    by (auto simp: mdb_page_search_def mdb_page_search_root_def k_def Let_def)
  with st' show ?thesis by auto
qed

end
