(* ===== verification/Lmdb_Get_Props.thy ===== *)
theory Lmdb_Get_Props
  imports Lmdb_Search_Props
begin

text \<open>
  The operations of a cursor as moves of a position in the list of records, and the search for
  a key as the search in that list.
\<close>

section \<open>Reading at a position\<close>

lemma read_top_result:
  assumes "path txn 0 ((p, k) # st)" and "mc_txn mc = txn" and "mc_stack mc = (p, k) # st"
  shows "read_top mc = Some (MDB_SUCCESS, mc, Some (record_of txn (mp_nodes p ! k)))"
proof -
  have p: "page_ok txn 0 p" "k < NUMKEYS p" using path_top [OF assms(1)] by simp_all
  then have "mp_nodes p ! k \<in> set (mp_nodes p)" by (simp add: NUMKEYS_def)
  then obtain d where d: "mdb_node_read txn (mp_nodes p ! k) = Some (MDB_SUCCESS, txn, d)"
    using p(1) by (meson page_ok.simps(1))
  moreover have "record_of txn (mp_nodes p ! k) = (nd_key (mp_nodes p ! k), d)"
    by (simp add: record_of_def node_data_def d)
  ultimately show ?thesis using p assms(2,3) by (simp add: read_top_def NODEPTR_def NUMKEYS_def)
qed

text \<open>A stack of full height, at an index of the list of records.\<close>

definition at_index :: "page_txn \<Rightarrow> nat \<Rightarrow> mdb_page \<Rightarrow> (mdb_page \<times> nat) list \<Rightarrow> nat \<Rightarrow> bool" where
  "at_index txn h p st i =
     (path txn 0 st \<and> length st = Suc h \<and> fst (last st) = p \<and> i = length (records_before txn 0 (tl st)) + snd (hd st))"

lemma at_index_record:
  assumes "at_index txn h p st i"
  shows "i < length (records_of txn h p)" and "record_of txn (mp_nodes (fst (hd st)) ! snd (hd st)) = records_of txn h p ! i"
proof -
  obtain q k st0 where st: "st = (q, k) # st0" using assms by (cases st) (auto simp: at_index_def)
  have k: "k < NUMKEYS q" using assms st path_top [of txn 0 q k st0] by (simp add: at_index_def)
  have "records_of txn h p = records_before txn 0 st0 @ records_of txn 0 q @ records_behind txn 0 st0"
    using path_records [of txn 0 q k st0] assms st by (simp add: at_index_def)
  moreover have "i = length (records_before txn 0 st0) + k" using assms st by (simp add: at_index_def)
  ultimately show "i < length (records_of txn h p)" "record_of txn (mp_nodes (fst (hd st)) ! snd (hd st)) = records_of txn h p ! i"
    using k st by (simp_all add: NUMKEYS_def nth_append)
qed

lemma at_index_read:
  assumes "at_index txn h p (mc_stack mc) i" and "mc_txn mc = txn"
  shows "read_top mc = Some (MDB_SUCCESS, mc, Some (records_of txn h p ! i))"
proof -
  obtain q k st0 where st: "mc_stack mc = (q, k) # st0" using assms(1) by (cases "mc_stack mc") (auto simp: at_index_def)
  then show ?thesis
    using read_top_result [of txn q k st0 mc] at_index_record(2) [OF assms(1)] assms by (simp add: at_index_def)
qed

lemma at_index_set_ki:
  assumes "at_index txn h p st i" and "st = (q, k) # st0" and "k' < NUMKEYS q"
  shows "at_index txn h p ((q, k') # st0) (length (records_before txn 0 st0) + k')"
  using assms path_set_top [of txn 0 q k st0 k'] by (auto simp: at_index_def)

lemma cursor_on_index:
  assumes "cursor_on txn root h p mc" and "mc_init mc"
  obtains q k st where "mc_stack mc = (q, k) # st" "at_index txn h p ((q, k) # st) (position mc)"
    "k < NUMKEYS q" "page_ok txn 0 q"
    "records_of txn h p = records_before txn 0 st @ records_of txn 0 q @ records_behind txn 0 st"
proof -
  obtain q k st where st: "mc_stack mc = (q, k) # st" using assms by (cases "mc_stack mc") (auto simp: cursor_on_def)
  moreover have "path txn 0 ((q, k) # st)" using assms st by (simp add: cursor_on_def)
  ultimately show ?thesis
    using that [of q k st] path_top [of txn 0 q k st] path_records [of txn 0 q k st] assms
    by (simp add: cursor_on_def at_index_def position_def)
qed

lemma on_index:
  assumes "at_index txn h p st i" and "cursor_on txn root h p mc"
  shows "cursor_on txn root h p (mc\<lparr>mc_stack := st, mc_init := True, mc_eof := e\<rparr>)"
    and "position (mc\<lparr>mc_stack := st, mc_init := True, mc_eof := e\<rparr>) = i"
proof -
  obtain q k st0 where "st = (q, k) # st0" using assms(1) by (cases st) (auto simp: at_index_def)
  with assms show "cursor_on txn root h p (mc\<lparr>mc_stack := st, mc_init := True, mc_eof := e\<rparr>)"
    "position (mc\<lparr>mc_stack := st, mc_init := True, mc_eof := e\<rparr>) = i"
    by (simp_all add: cursor_on_def position_def at_index_def)
qed

section \<open>First and next\<close>

lemma descended_index:
  assumes "descended txn flag key h [(p, k)] st'"
  obtains q k' st0 where "st' = (q, k') # st0" "at_index txn h p st' (length (records_before txn 0 st0) + k')"
    "aim flag key (records_before txn 0 st0) (records_behind txn 0 st0)" "tree_ordered txn h p \<longrightarrow> keys_from 0 (mp_nodes q)"
    "k' < NUMKEYS q" "page_ok txn 0 q"
    "records_of txn h p = records_before txn 0 st0 @ records_of txn 0 q @ records_behind txn 0 st0"
proof -
  obtain q k' st0 where st: "st' = (q, k') # st0" using assms by (cases st') (auto simp: descended_def)
  then have path: "path txn 0 ((q, k') # st0)" using assms by (simp add: descended_def)
  show ?thesis
    by (rule that [OF st]) (use assms st path_top [OF path] path_records [OF path] in \<open>auto simp: descended_def at_index_def\<close>)
qed

lemma cursor_first_result:
  assumes "database txn root h p" and "cursor_on txn root h p mc"
  shows "\<exists>mc'. mdb_cursor_first mc = Some (MDB_SUCCESS, mc', Some (records_of txn h p ! 0))
    \<and> cursor_on txn root h p mc' \<and> mc_init mc' \<and> \<not> mc_eof mc' \<and> position mc' = 0"
proof -
  have txn: "mc_txn mc = txn" using assms(2) by (simp add: cursor_on_def)
  obtain mc1 st q k where mc1: "(if \<not> mc_init mc \<or> 1 < length (mc_stack mc) then mdb_page_search mc None MDB_PS_FIRST
        else Some (MDB_SUCCESS, mc)) = Some (MDB_SUCCESS, mc1)"
    "mc_stack mc1 = (q, k) # st" "records_before txn 0 st = []" "at_index txn h p ((q, k) # st) k" "cursor_on txn root h p mc1"
    "0 < NUMKEYS q"
  proof (cases "\<not> mc_init mc \<or> 1 < length (mc_stack mc)")
    case True
    obtain k st' where s: "mdb_page_search mc None MDB_PS_FIRST =
        Some (MDB_SUCCESS, mc\<lparr>mc_pg0 := Some p, mc_stack := st', mc_init := True, mc_eof := False\<rparr>)"
      "descended txn MDB_PS_FIRST None h [(p, k)] st'"
      using page_search_result [OF assms, of MDB_PS_FIRST None] by auto
    from s(2) show ?thesis
    proof (rule descended_index)
      fix q k' st0
      assume st': "st' = (q, k') # st0" "at_index txn h p st' (length (records_before txn 0 st0) + k')"
        "aim MDB_PS_FIRST None (records_before txn 0 st0) (records_behind txn 0 st0)" "k' < NUMKEYS q"
      have on: "cursor_on txn root h p (mc\<lparr>mc_pg0 := Some p\<rparr>)" using assms(2) by (simp add: cursor_on_def)
      show ?thesis
        by (rule that [of "mc\<lparr>mc_pg0 := Some p, mc_stack := st', mc_init := True, mc_eof := False\<rparr>" q k' st0])
          (use s(1) st' True on_index(1) [OF st'(2) on, of False] in \<open>simp_all add: aim_def\<close>)
    qed
  next
    case False
    then obtain q k st where q: "mc_stack mc = (q, k) # st" "at_index txn h p ((q, k) # st) (position mc)" "k < NUMKEYS q"
      using cursor_on_index [OF assms(2)] by metis
    with False have "st = []" by simp
    with False q assms(2) that [of mc q k st] show ?thesis by (simp add: position_def)
  qed
  let ?mc = "mc1\<lparr>mc_stack := (q, 0) # st, mc_init := True, mc_eof := False\<rparr>"
  have i: "at_index txn h p ((q, 0) # st) 0" using at_index_set_ki [OF mc1(4) refl mc1(6)] mc1(3) by simp
  have "set_ki 0 (mc1\<lparr>mc_init := True, mc_eof := False\<rparr>) = ?mc" using mc1(2) by (simp add: set_ki_def)
  moreover have "read_top ?mc = Some (MDB_SUCCESS, ?mc, Some (records_of txn h p ! 0))"
    using i mc1(5) by (intro at_index_read) (simp_all add: cursor_on_def)
  ultimately have "mdb_cursor_first mc = Some (MDB_SUCCESS, ?mc, Some (records_of txn h p ! 0))"
    unfolding mdb_cursor_first_def mc1(1) by simp
  with on_index [OF i mc1(5), of False] show ?thesis by auto
qed

lemma cursor_next_result:
  assumes "database txn root h p" and "cursor_on txn root h p mc" and "mc_init mc" and "\<not> mc_eof mc"
  shows "if length (records_of txn h p) \<le> position mc + 1
    then mdb_cursor_next mc = Some (MDB_NOTFOUND, mc\<lparr>mc_eof := True\<rparr>, None)
    else \<exists>mc'. mdb_cursor_next mc = Some (MDB_SUCCESS, mc', Some (records_of txn h p ! (position mc + 1)))
      \<and> cursor_on txn root h p mc' \<and> mc_init mc' \<and> \<not> mc_eof mc' \<and> position mc' = position mc + 1"
proof -
  obtain q k st where q: "mc_stack mc = (q, k) # st" "at_index txn h p ((q, k) # st) (position mc)" "k < NUMKEYS q"
    "page_ok txn 0 q" "records_of txn h p = records_before txn 0 st @ records_of txn 0 q @ records_behind txn 0 st"
    using cursor_on_index [OF assms(2,3)] by metis
  have mc: "mc_txn mc = txn" "\<not> mc_del mc" using assms(2) by (simp_all add: cursor_on_def)
  have pos: "position mc = length (records_before txn 0 st) + k" using q(2) by (simp add: at_index_def)
  have len: "length (records_of txn 0 q) = NUMKEYS q" by (simp add: NUMKEYS_def)
  have same: "mc\<lparr>mc_stack := x, mc_init := True, mc_eof := False\<rparr> = mc\<lparr>mc_stack := x\<rparr>" for x
    using assms(3,4) by (cases mc) simp
  have moved: ?thesis if nx: "mdb_cursor_next mc = read_top (mc\<lparr>mc_stack := x\<rparr>)"
    and x: "at_index txn h p x (position mc + 1)" for x
  proof -
    have "read_top (mc\<lparr>mc_stack := x\<rparr>) = Some (MDB_SUCCESS, mc\<lparr>mc_stack := x\<rparr>, Some (records_of txn h p ! (position mc + 1)))"
      using x mc(1) by (intro at_index_read) simp_all
    with nx at_index_record(1) [OF x] on_index [OF x assms(2), of False] assms(3,4) show ?thesis
      unfolding same by simp
  qed
  show ?thesis
  proof (cases "k + 1 < NUMKEYS q")
    case True
    then have "mdb_cursor_next mc = read_top (mc\<lparr>mc_stack := (q, k + 1) # st\<rparr>)"
      using assms(3,4) q(1) mc(2) by (simp add: mdb_cursor_next_def set_ki_def)
    then show ?thesis by (rule moved) (use at_index_set_ki [OF q(2) refl True] pos in simp)
  next
    case False
    then have last_key: "k + 1 = NUMKEYS q" using q(3) by simp
    have path: "path txn 0 ((q, k) # st)" and lens: "length st = h" using q(2) by (simp_all add: at_index_def)
    have "h < CURSOR_STACK" using assms(1) by (simp add: database_def)
    note sib = sibling_right [OF path mc(1) q(1), of "length (mc_stack mc)"]
    show ?thesis
    proof (cases "records_behind txn 0 st = []")
      case True
      then have "mdb_cursor_sibling mc True = Some (MDB_NOTFOUND, mc)"
        using sib lens \<open>h < CURSOR_STACK\<close> q(1) by (simp add: mdb_cursor_sibling_def)
      then have "mdb_cursor_next mc = Some (MDB_NOTFOUND, mc\<lparr>mc_eof := True\<rparr>, None)"
        using assms(3,4) q(1) mc(2) last_key by (simp add: mdb_cursor_next_def)
      then show ?thesis using q(5) True pos last_key len by simp
    next
      case More: False
      then obtain p' st' where s: "mdb_cursor_sibling mc True = Some (MDB_SUCCESS, mc\<lparr>mc_stack := (p', 0) # st'\<rparr>)"
        "path txn 0 ((p', 0) # st')" "length st' = length st" "fst (last st') = fst (last st)"
        "records_before txn 0 st' = records_before txn 0 st @ records_of txn 0 q"
        using sib lens \<open>h < CURSOR_STACK\<close> q(1) by (auto simp: mdb_cursor_sibling_def)
      have "mdb_cursor_next mc = read_top (mc\<lparr>mc_stack := (p', 0) # st'\<rparr>)"
        using assms(3,4) q(1) mc(2) last_key s(1) by (simp add: mdb_cursor_next_def)
      moreover have "st \<noteq> []" using More by auto
      then have "at_index txn h p ((p', 0) # st') (position mc + 1)"
        using s(2-5) q(2) pos last_key len by (auto simp: at_index_def)
      ultimately show ?thesis by (rule moved)
    qed
  qed
qed

end
