(* ===== verification/Lmdb_Set_Props.thy ===== *)
theory Lmdb_Set_Props
  imports Lmdb_Get_Props
begin

text \<open>The search for a key, from a fresh cursor and from one that stands somewhere.\<close>

section \<open>Order\<close>

definition sorted_records :: "records \<Rightarrow> bool" where
  "sorted_records recs = sorted_wrt (<) (List.map fst recs)"

lemma sorted_wrt_concat:
  "sorted_wrt P (concat xss) \<longleftrightarrow> (\<forall>xs \<in> set xss. sorted_wrt P xs) \<and>
     sorted_wrt (\<lambda>xs ys. \<forall>x \<in> set xs. \<forall>y \<in> set ys. P x y) xss"
  by (induction xss) (auto simp: sorted_wrt_append)

lemma sorted_records_wrt: "sorted_records recs \<longleftrightarrow> sorted_wrt (\<lambda>a b. fst a < fst b) recs"
  by (simp add: sorted_records_def sorted_wrt_map)

lemma tree_ordered_sorted: "tree_ordered txn h p \<Longrightarrow> sorted_records (records_of txn h p)"
proof (induction h arbitrary: p)
  case 0
  then show ?case
    by (auto simp: sorted_records_def sorted_wrt_iff_nth_less keys_from_def key_at_def record_of_def)
next
  case (Suc h)
  let ?n = "mp_nodes p"
  have "sorted_records (records_of txn h (child txn n))" if "n \<in> set ?n" for n
    using that Suc by (auto simp: in_set_conv_nth)
  moreover have "fst r < fst r'" if ij: "i < j" "j < length ?n" and r: "r \<in> set (records_of txn h (child txn (?n ! i)))"
      "r' \<in> set (records_of txn h (child txn (?n ! j)))" for i j r r'
  proof -
    have "fst r < key_at ?n (i + 1)" using Suc(2) ij r by auto
    also have "\<dots> \<le> key_at ?n j"
    proof (cases "i + 1 = j")
      case False
      then show ?thesis using Suc(2) ij by (auto simp: keys_from_def intro!: less_imp_le)
    qed simp
    also have "\<dots> \<le> fst r'" using Suc(2) ij r by auto
    finally show ?thesis .
  qed
  ultimately show ?case
    unfolding sorted_records_wrt records_of.simps sorted_wrt_concat
    by (auto simp: sorted_wrt_map sorted_wrt_iff_nth_less)
qed

lemma tree_ordered_keys: "tree_ordered txn 0 p \<longleftrightarrow> keys_from 0 (mp_nodes p)"
  by simp

text \<open>What a search for a key returns: the record, or with \<open>ranged\<close> the first from the key on.\<close>

definition sought :: "records \<Rightarrow> string \<Rightarrow> bool \<Rightarrow> (string \<times> string) option" where
  "sought recs key ranged =
     (if ranged then find (\<lambda>r. key \<le> fst r) recs else map_option (Pair key) (map_of recs key))"

lemma sought_at:
  assumes "sorted_records recs" and "i < length recs" and "fst (recs ! i) = key"
  shows "sought recs key ranged = Some (recs ! i)"
proof -
  have "distinct (List.map fst recs)" using assms(1) by (simp add: sorted_records_def strict_sorted_iff)
  then have "map_of recs key = Some (snd (recs ! i))"
    using assms(2,3) by (metis map_of_is_SomeI nth_mem prod.collapse)
  moreover have "find (\<lambda>r. key \<le> fst r) recs = Some (recs ! i)"
    unfolding find_Some_iff using assms by (intro exI [of _ i]) (auto simp: sorted_records_def sorted_wrt_iff_nth_less not_le)
  ultimately show ?thesis using assms(3) by (auto simp: sought_def)
qed

lemma sought_beside:
  assumes "\<forall>r \<in> set a. fst r < key" and "\<forall>r \<in> set b. key < fst r"
  shows "sought (a @ b) key ranged = (if ranged \<and> b \<noteq> [] then Some (hd b) else None)"
proof -
  have "key \<notin> fst ` set (a @ b)" using assms by auto
  then have "map_of (a @ b) key = None" by (simp only: map_of_eq_None_iff not_False_eq_True)
  moreover have "find (\<lambda>r. key \<le> fst r) a = None" using assms(1) by (auto simp: find_None_iff not_le)
  moreover have "find (\<lambda>r. key \<le> fst r) (a @ b) = (if b \<noteq> [] then Some (hd b) else None)"
    using assms by (induction a) (cases b; auto simp: less_imp_le not_le)+
  ultimately show ?thesis by (simp add: sought_def)
qed

section \<open>In a page\<close>

definition set_outcome :: "records \<Rightarrow> string \<Rightarrow> bool \<Rightarrow> cursor_result \<Rightarrow> bool" where
  "set_outcome recs key ranged res =
     (\<exists>mc'. res = Some (if sought recs key ranged = None then MDB_NOTFOUND else MDB_SUCCESS, mc', sought recs key ranged))"

lemma set_result_at:
  assumes "at_index txn h p (mc_stack mc) i" and "mc_txn mc = txn"
  shows "\<exists>mc'. set_result mc = Some (MDB_SUCCESS, mc', Some (records_of txn h p ! i))"
  using at_index_read [of txn h p "mc\<lparr>mc_init := True, mc_eof := False\<rparr>" i] assms by (simp add: set_result_def)

lemma set_found:
  assumes "at_index txn h p (mc_stack mc) i" and "mc_txn mc = txn" and "tree_ordered txn h p"
    and "mc_stack mc = (q, k) # st" and "key_at (mp_nodes q) k = key"
  shows "set_outcome (records_of txn h p) key ranged (set_result mc)"
proof -
  have "fst (records_of txn h p ! i) = key"
    using at_index_record(2) [OF assms(1)] assms(4,5) by (simp add: key_at_def record_of_def flip: at_index_record(2) [OF assms(1)])
  then have "sought (records_of txn h p) key ranged = Some (records_of txn h p ! i)"
    using tree_ordered_sorted [OF assms(3)] at_index_record(1) [OF assms(1)] by (intro sought_at)
  with set_result_at [OF assms(1,2)] show ?thesis by (auto simp: set_outcome_def)
qed

lemma set_in_page_result:
  assumes "at_index txn h p ((q, k) # st) i" and "mc_txn mc = txn" and "mc_stack mc = (q, k) # st"
    and "tree_ordered txn h p" and "keys_from 0 (mp_nodes q)" and "h < CURSOR_STACK"
    and "aim MDB_PS_NONE (Some key) (records_before txn 0 st) (records_behind txn 0 st)"
  shows "set_outcome (records_of txn h p) key ranged (set_in_page mc key ranged)"
proof -
  have path: "path txn 0 ((q, k) # st)" and len: "length st = h" and p: "fst (last ((q, k) # st)) = p"
    using assms(1) by (simp_all add: at_index_def)
  have q: "page_ok txn 0 q" using path by (rule path_root)
  have recs: "records_of txn h p = records_before txn 0 st @ records_of txn 0 q @ records_behind txn 0 st"
    using path_records [OF path] len p by simp
  have f: "first_key q = 0" using q by (simp add: first_key_def)
  have "keys_from (first_key q) (mp_nodes q)" "first_key q < NUMKEYS q" using assms(5) f page_ok_NUMKEYS [OF q] by simp_all
  then show ?thesis
  proof (cases rule: node_search_result [where key = key])
    case (exact j)
    let ?mc = "mc\<lparr>mc_stack := (q, j) # st\<rparr>"
    have "set_in_page mc key ranged = set_result ?mc"
      using exact(1) assms(3) by (simp add: set_in_page_def mdb_node_search_def set_ki_stack)
    moreover have "set_outcome (records_of txn h p) key ranged (set_result ?mc)"
      by (rule set_found [OF _ _ assms(4), of _ _ q j st])
        (use at_index_set_ki [OF assms(1) refl exact(3)] assms(2) exact(4) in simp_all)
    ultimately show ?thesis by simp
  next
    case (beside j)
    let ?mc = "mc\<lparr>mc_stack := (q, j) # st\<rparr>"
    have j: "j \<le> NUMKEYS q" using beside(2) by (simp add: place_def NUMKEYS_def)
    have srch: "mdb_node_search mc key = Some (?mc, False, if j < NUMKEYS q then Some (mp_nodes q ! j) else None)"
      using beside(1) assms(3) by (simp add: mdb_node_search_def set_ki_stack)
    have parts: "records_of txn h p = (records_before txn 0 st @ take j (records_of txn 0 q)) @ (drop j (records_of txn 0 q) @ records_behind txn 0 st)"
      unfolding recs by simp
    have low: "\<forall>r \<in> set (records_before txn 0 st @ take j (records_of txn 0 q)). fst r < key"
      using assms(7) beside(2) f by (auto simp: aim_def place_def in_set_take record_of_def key_at_def)
    have high: "\<forall>r \<in> set (drop j (records_of txn 0 q) @ records_behind txn 0 st). key < fst r"
      using assms(7) beside(2) f by (auto simp: aim_def place_def in_set_drop record_of_def key_at_def)
    have res: "sought (records_of txn h p) key ranged =
        (if ranged \<and> drop j (records_of txn 0 q) @ records_behind txn 0 st \<noteq> []
         then Some (hd (drop j (records_of txn 0 q) @ records_behind txn 0 st)) else None)"
      unfolding parts using low high by (rule sought_beside)
    consider "\<not> ranged" | "ranged" "j < NUMKEYS q" | "ranged" "j = NUMKEYS q" using j by linarith
    then show ?thesis
    proof cases
      case 1
      with srch res show ?thesis by (simp add: set_in_page_def set_outcome_def)
    next
      case 2
      have at: "at_index txn h p ((q, j) # st) (length (records_before txn 0 st) + j)"
        using at_index_set_ki [OF assms(1) refl 2(2)] .
      have "drop j (records_of txn 0 q) = record_of txn (mp_nodes q ! j) # drop (Suc j) (records_of txn 0 q)"
        using 2(2) by (simp add: NUMKEYS_def flip: Cons_nth_drop_Suc)
      moreover have "record_of txn (mp_nodes q ! j) = records_of txn h p ! (length (records_before txn 0 st) + j)"
        using at_index_record(2) [OF at] by simp
      ultimately have "sought (records_of txn h p) key ranged = Some (records_of txn h p ! (length (records_before txn 0 st) + j))"
        using res 2(1) by simp
      moreover have "set_in_page mc key ranged = set_result ?mc"
        using srch 2 by (simp add: set_in_page_def)
      ultimately show ?thesis
        using set_result_at [of txn h p ?mc] at assms(2) by (auto simp: set_outcome_def)
    next
      case 3
      have none: "drop j (records_of txn 0 q) = []" using 3(2) by (simp add: NUMKEYS_def)
      note sib = sibling_right [OF path, of ?mc j "length (mc_stack ?mc)"]
      show ?thesis
      proof (cases "records_behind txn 0 st = []")
        case True
        then have "mdb_cursor_sibling ?mc True = Some (MDB_NOTFOUND, ?mc)"
          using sib assms(2,6) len by (simp add: mdb_cursor_sibling_def)
        then show ?thesis using res none True srch 3 by (simp add: set_in_page_def set_outcome_def)
      next
        case False
        then obtain p' st' where s: "mdb_cursor_sibling ?mc True = Some (MDB_SUCCESS, mc\<lparr>mc_stack := (p', 0) # st'\<rparr>)"
          "path txn 0 ((p', 0) # st')" "length st' = length st" "fst (last st') = fst (last st)"
          "records_before txn 0 st' = records_before txn 0 st @ records_of txn 0 q"
          using sib assms(2,6) len by (auto simp: mdb_cursor_sibling_def)
        have "st \<noteq> []" using False by auto
        then have at: "at_index txn h p ((p', 0) # st') (length (records_before txn 0 st @ records_of txn 0 q))"
          using s(2-5) len p by (auto simp: at_index_def)
        have "records_of txn h p ! length (records_before txn 0 st @ records_of txn 0 q) = hd (records_behind txn 0 st)"
          using False unfolding recs append_assoc [symmetric] by (simp only: nth_append_length_plus nth_append less_irrefl if_False diff_self_eq_0) (simp add: hd_conv_nth)
        then have "sought (records_of txn h p) key ranged
            = Some (records_of txn h p ! length (records_before txn 0 st @ records_of txn 0 q))"
          using res none False 3(1) by simp
        moreover have "set_in_page mc key ranged = set_result (mc\<lparr>mc_stack := (p', 0) # st'\<rparr>)"
          using srch 3 s(1) by (simp add: set_in_page_def)
        ultimately show ?thesis
          using set_result_at [of txn h p "mc\<lparr>mc_stack := (p', 0) # st'\<rparr>"] at assms(2) by (auto simp: set_outcome_def)
      qed
    qed
  qed
qed


section \<open>The search\<close>

lemma aim_around:
  assumes "sorted_records (a @ c @ b)" and "c \<noteq> []" and "fst (hd c) \<le> key" and "key \<le> fst (last c)"
  shows "aim MDB_PS_NONE (Some key) a b"
proof -
  have "fst r < key" if "r \<in> set a" for r
  proof -
    have "fst r < fst (hd c)" using assms(1,2) that by (simp add: sorted_records_wrt sorted_wrt_append)
    then show ?thesis using assms(3) by (rule less_le_trans)
  qed
  moreover have "key < fst r" if "r \<in> set b" for r
  proof -
    have "fst (last c) < fst r" using assms(1,2) that by (simp add: sorted_records_wrt sorted_wrt_append)
    with assms(4) show ?thesis by (rule le_less_trans)
  qed
  ultimately show ?thesis by (auto simp: aim_def)
qed

lemma no_right_sibling: "\<not> list_ex (\<lambda>(mp, ki). ki < NUMKEYS mp - 1) st \<Longrightarrow> records_behind txn h st = []"
  by (induction st arbitrary: h) (auto simp: NUMKEYS_def)

lemma plan_beyond_outcome:
  assumes "sorted_records recs" and "recs = a @ c @ b" and "c \<noteq> []" and "fst (last c) < key" and "b = []"
  shows "sought recs key ranged = None"
proof -
  have "\<forall>r \<in> set (a @ c). fst r < key"
  proof
    fix r assume "r \<in> set (a @ c)"
    moreover have "fst r \<le> fst (last c)" if "r \<in> set c"
    proof -
      have "sorted_records (a @ (butlast c @ [last c]) @ b)" using assms(1,3) unfolding assms(2) by simp
      moreover have "r \<in> set (butlast c @ [last c])" using that assms(3) by simp
      ultimately show ?thesis by (auto simp: sorted_records_wrt sorted_wrt_append less_imp_le)
    qed
    moreover have "fst r \<le> fst (last c)" if "r \<in> set a"
      using assms(1,3) that unfolding assms(2) by (intro less_imp_le) (simp add: sorted_records_wrt sorted_wrt_append)
    ultimately have "fst r \<le> fst (last c)" using assms(3) by auto
    then show "fst r < key" using assms(4) by (rule le_less_trans)
  qed
  then show ?thesis using sought_beside [of "a @ c" key "[]" ranged] assms(2,5) by simp
qed

text \<open>Where the tree is searched from the root.\<close>

lemma set_searched:
  assumes "database txn root h p" and "tree_ordered txn h p" and "cursor_on txn root h p mc"
  shows "set_outcome (records_of txn h p) key ranged
    (do { (rc, mc2) \<leftarrow> mdb_page_search mc (Some key) MDB_PS_NONE;
          if rc \<noteq> MDB_SUCCESS then Some (rc, mc2, None) else set_in_page mc2 key ranged })"
proof -
  obtain k st' where s: "mdb_page_search mc (Some key) MDB_PS_NONE =
      Some (MDB_SUCCESS, mc\<lparr>mc_pg0 := Some p, mc_stack := st', mc_init := True, mc_eof := False\<rparr>)"
    "descended txn MDB_PS_NONE (Some key) h [(p, k)] st'"
    using page_search_result [OF assms(1,3), of MDB_PS_NONE "Some key"] assms(2) by auto
  from s(2) show ?thesis
  proof (rule descended_index)
    fix q k' st0
    assume st': "st' = (q, k') # st0" "at_index txn h p st' (length (records_before txn 0 st0) + k')"
      "aim MDB_PS_NONE (Some key) (records_before txn 0 st0) (records_behind txn 0 st0)" "tree_ordered txn h p \<longrightarrow> keys_from 0 (mp_nodes q)"
    have "set_outcome (records_of txn h p) key ranged
        (set_in_page (mc\<lparr>mc_pg0 := Some p, mc_stack := st', mc_init := True, mc_eof := False\<rparr>) key ranged)"
      by (rule set_in_page_result) (use st' assms in \<open>simp_all add: cursor_on_def database_def\<close>)
    with s(1) show ?thesis by simp
  qed
qed

lemma set_plan_first:
  "\<lbrakk>mc_init mc; mc_stack mc = (q, k) # st; 0 < NUMKEYS q; key = key_at (mp_nodes q) 0\<rbrakk>
     \<Longrightarrow> set_plan_of mc key ranged = Some (Set1, mc\<lparr>mc_stack := (q, 0) # st\<rparr>)"
  by (simp add: set_plan_of_def NODEPTR_def NUMKEYS_def mdb_cmp_memn_CMP CMP_def key_at_def set_ki_def)

lemma set_plan_below:
  "\<lbrakk>mc_init mc; mc_stack mc = (q, k) # st; 0 < NUMKEYS q; key < key_at (mp_nodes q) 0\<rbrakk>
     \<Longrightarrow> set_plan_of mc key ranged =
       Some (if st = [] then (if ranged then Set1 else Absent, mc\<lparr>mc_stack := (q, 0) # st\<rparr>) else (Search, mc))"
  by (auto simp: set_plan_of_def NODEPTR_def NUMKEYS_def mdb_cmp_memn_CMP CMP_def key_at_def set_ki_def)

lemma set_plan_above:
  assumes "mc_init mc" and "mc_stack mc = (q, k) # st" and "0 < NUMKEYS q" and "k < NUMKEYS q"
    and "key_at (mp_nodes q) 0 < key" and "keys_from 0 (mp_nodes q)"
  shows "set_plan_of mc key ranged =
      (let n = NUMKEYS q - 1
       in if key = key_at (mp_nodes q) n then Some (Set1, mc\<lparr>mc_stack := (q, n) # st\<rparr>)
          else if key < key_at (mp_nodes q) n
          then Some (if key = key_at (mp_nodes q) k then Set1 else Set2, mc)
          else Some (plan_beyond mc q))"
proof -
  have cmp: "mdb_cmp_memn x (nd_key (mp_nodes q ! i)) = CMP x (key_at (mp_nodes q) i)" for x i
    by (simp add: mdb_cmp_memn_CMP key_at_def)
  have node: "NODEPTR q i = Some (mp_nodes q ! i)" if "i < NUMKEYS q" for i
    using that by (simp add: NODEPTR_def NUMKEYS_def)
  have c0: "CMP key (key_at (mp_nodes q) 0) = 1" using assms(5) by (rule CMP_greater)
  show ?thesis
  proof (cases "1 < NUMKEYS q")
    case True
    have last: "NODEPTR q (NUMKEYS q - 1) = Some (mp_nodes q ! (NUMKEYS q - 1))" using assms(3) by (intro node) simp
    show ?thesis
      using assms(1-5) True
      by (cases key "key_at (mp_nodes q) (NUMKEYS q - 1)" rule: linorder_cases)
        (auto simp: set_plan_of_def node last cmp set_ki_def CMP_less CMP_greater CMP_cases Let_def)
  next
    case False
    then have "NUMKEYS q = 1" using assms(3) by simp
    moreover have "key \<noteq> key_at (mp_nodes q) 0" "\<not> key < key_at (mp_nodes q) 0" using assms(5) by auto
    ultimately show ?thesis
      using assms(1-4) by (simp add: set_plan_of_def node cmp c0 Let_def)
  qed
qed


text \<open>
  From any cursor of the database, fresh or standing at a record, the search for a key finds
  the record of the key, or with \<open>ranged\<close> the first from the key on.
\<close>

lemma mdb_cursor_set_outcome:
  assumes "database txn root h p" and "tree_ordered txn h p" and "cursor_on txn root h p mc" and "key \<noteq> []"
  shows "set_outcome (records_of txn h p) key ranged (mdb_cursor_set mc key ranged)"
proof (cases "mc_init mc")
  case False
  have "cursor_on txn root h p (mc\<lparr>mc_pg0 := None\<rparr>)" using assms(3) by (simp add: cursor_on_def)
  from set_searched [OF assms(1,2) this, of key ranged] show ?thesis
    using False assms(4) by (simp add: mdb_cursor_set_def set_plan_of_def)
next
  case True
  let ?recs = "records_of txn h p"
  obtain q k st where q: "mc_stack mc = (q, k) # st" "at_index txn h p ((q, k) # st) (position mc)" "k < NUMKEYS q"
    "page_ok txn 0 q" "?recs = records_before txn 0 st @ records_of txn 0 q @ records_behind txn 0 st"
    using cursor_on_index [OF assms(3) True] by metis
  have txn: "mc_txn mc = txn" using assms(3) by (simp add: cursor_on_def)
  have sorted: "sorted_records ?recs" using assms(2) by (rule tree_ordered_sorted)
  have n: "0 < NUMKEYS q" using q(4) by (rule page_ok_NUMKEYS)
  have page: "records_of txn 0 q \<noteq> []" "fst (hd (records_of txn 0 q)) = key_at (mp_nodes q) 0"
    "fst (last (records_of txn 0 q)) = key_at (mp_nodes q) (NUMKEYS q - 1)"
    using n by (auto simp: NUMKEYS_def record_of_def key_at_def hd_conv_nth last_conv_nth)
  have sq: "sorted_records (records_of txn 0 q)"
    using sorted unfolding q(5) by (simp add: sorted_records_wrt sorted_wrt_append)
  have keys: "keys_from 0 (mp_nodes q)"
    using sq by (auto simp: sorted_records_wrt sorted_wrt_iff_nth_less keys_from_def key_at_def record_of_def)
  have found: "set_outcome ?recs key ranged (set_result (mc\<lparr>mc_stack := (q, i) # st\<rparr>))"
    if "i < NUMKEYS q" "key_at (mp_nodes q) i = key" for i
    by (rule set_found [OF _ _ assms(2), of _ _ q i st]) (use at_index_set_ki [OF q(2) refl that(1)] txn that in simp_all)
  have search: "set_outcome ?recs key ranged (mdb_cursor_set mc key ranged)"
    if "set_plan_of mc key ranged = Some (Search, mc)"
    using set_searched [OF assms(1-3), of key ranged] that assms(4) by (simp add: mdb_cursor_set_def)
  consider (first) "key = key_at (mp_nodes q) 0" | (below) "key < key_at (mp_nodes q) 0"
    | (above) "key_at (mp_nodes q) 0 < key" using less_linear by blast
  then show ?thesis
  proof cases
    case first
    then show ?thesis
      using found [OF n] set_plan_first [OF True q(1) n first, of ranged] assms(4) by (simp add: mdb_cursor_set_def)
  next
    case below
    show ?thesis
    proof (cases "st = []")
      case False
      then show ?thesis using search set_plan_below [OF True q(1) n below, of ranged] by simp
    next
      case st: True
      let ?mc = "mc\<lparr>mc_stack := [(q, 0)]\<rparr>"
      have recs: "?recs = records_of txn 0 q" using q(5) st by simp
      have "\<forall>r \<in> set ?recs. key < fst r"
      proof
        fix r assume "r \<in> set ?recs"
        then obtain i where i: "i < length ?recs" "r = ?recs ! i" by (auto simp: in_set_conv_nth)
        have "key < fst (?recs ! 0)"
          unfolding recs hd_conv_nth [OF page(1), symmetric] page(2) by (rule below)
        moreover have "fst (?recs ! 0) \<le> fst (?recs ! i)" if "i < length ?recs" for i
          using sorted that by (cases i) (auto simp: sorted_records_wrt sorted_wrt_iff_nth_less less_imp_le)
        ultimately show "key < fst r" unfolding i(2) using i(1) less_le_trans by blast
      qed
      then have s: "sought ?recs key ranged = (if ranged then Some (?recs ! 0) else None)"
        using sought_beside [of "[]" key ?recs ranged] page(1) recs by (auto simp: hd_conv_nth)
      have at: "at_index txn h p [(q, 0)] 0" using at_index_set_ki [OF q(2) refl n] st by simp
      show ?thesis
        using s set_plan_below [OF True q(1) n below, of ranged] st assms(4) set_result_at [of txn h p ?mc 0] at txn
        by (auto simp: mdb_cursor_set_def set_outcome_def)
    qed
  next
    case above
    note plan = set_plan_above [OF True q(1) n q(3) above keys, of ranged]
    have h: "h < CURSOR_STACK" using assms(1) by (simp add: database_def)
    consider (last) "key = key_at (mp_nodes q) (NUMKEYS q - 1)" | (inside) "key < key_at (mp_nodes q) (NUMKEYS q - 1)"
      | (beyond) "key_at (mp_nodes q) (NUMKEYS q - 1) < key" using less_linear by blast
    then show ?thesis
    proof cases
      case last
      then show ?thesis
        using found [of "NUMKEYS q - 1"] plan n assms(4) by (simp add: mdb_cursor_set_def)
    next
      case inside
      then have "key \<noteq> key_at (mp_nodes q) (NUMKEYS q - 1)" by blast
      then have plan: "set_plan_of mc key ranged = Some (if key = key_at (mp_nodes q) k then Set1 else Set2, mc)"
        unfolding plan Let_def using inside by (simp only: if_False if_True)
      show ?thesis
      proof (cases "key = key_at (mp_nodes q) k")
        case True
        have "mc\<lparr>mc_stack := (q, k) # st\<rparr> = mc" using q(1) by simp
        then show ?thesis using found [OF q(3)] plan True assms(4) by (simp add: mdb_cursor_set_def)
      next
        case False
        have "aim MDB_PS_NONE (Some key) (records_before txn 0 st) (records_behind txn 0 st)"
          by (rule aim_around [of _ "records_of txn 0 q"]) (use sorted q(5) page above inside in simp_all)
        from set_in_page_result [OF q(2) txn q(1) assms(2) keys h this, of ranged]
        show ?thesis using plan False assms(4) by (simp add: mdb_cursor_set_def)
      qed
    next
      case beyond
      have "key \<noteq> key_at (mp_nodes q) (NUMKEYS q - 1)" "\<not> key < key_at (mp_nodes q) (NUMKEYS q - 1)"
        using beyond less_asym less_irrefl by blast+
      then have plan: "set_plan_of mc key ranged = Some (plan_beyond mc q)"
        unfolding plan Let_def by (simp only: if_False)
      show ?thesis
      proof (cases "right_of_parents mc")
        case True
        then show ?thesis using search plan by (simp add: plan_beyond_def)
      next
        case False
        then have "records_behind txn 0 st = []" using q(1) by (intro no_right_sibling) (simp add: right_of_parents_def)
        then have "sought ?recs key ranged = None"
          using plan_beyond_outcome [OF sorted q(5) page(1), of key ranged] page(3) beyond by simp
        with False plan assms(4) show ?thesis by (simp add: mdb_cursor_set_def plan_beyond_def set_outcome_def)
      qed
    qed
  qed
qed

end
