(* ===== verification/Lmdb_Idl_Sort.thy ===== *)
theory Lmdb_Idl_Sort
  imports Lmdb_Idl
begin

text \<open>
  \<open>mdb_midl_sort\<close>: quicksort with an explicit stack, insertion sort below nine entries, on the
  array itself, into descending order. The result is None if an access leaves the array, or
  the stack of 64 ints overflows.
\<close>

section \<open>The code\<close>

definition MIDL_SWAP :: "idl \<Rightarrow> nat \<Rightarrow> nat \<Rightarrow> idl option" where
  "MIDL_SWAP ids i j = do { x \<leftarrow> idl_at ids i; y \<leftarrow> idl_at ids j; ids1 \<leftarrow> idl_put ids i y; idl_put ids1 j x }"

text \<open>The swap that puts the larger of two entries first.\<close>

definition order_pair :: "idl \<Rightarrow> nat \<Rightarrow> nat \<Rightarrow> idl option" where
  "order_pair ids i j = do { x \<leftarrow> idl_at ids i; y \<leftarrow> idl_at ids j; if x < y then MIDL_SWAP ids i j else Some ids }"

text \<open>Insertion sort: the inner loop moves entries up until one is not below \<open>a\<close>.\<close>

fun insertion_shift :: "idl \<Rightarrow> mdb_id \<Rightarrow> nat \<Rightarrow> (idl \<times> nat) option" where
  "insertion_shift ids a 0 = Some (ids, 0)"
| "insertion_shift ids a (Suc i) =
     do {
       x \<leftarrow> idl_at ids (Suc i);
       if a \<le> x then Some (ids, Suc i)
       else do { ids1 \<leftarrow> idl_put ids (Suc (Suc i)) x; insertion_shift ids1 a i }
     }"

function insertion_sort :: "idl \<Rightarrow> nat \<Rightarrow> nat \<Rightarrow> idl option" where
  "insertion_sort ids j ir =
     (if j \<le> ir then
        do {
          a \<leftarrow> idl_at ids j;
          (ids1, i) \<leftarrow> insertion_shift ids a (j - 1);
          ids2 \<leftarrow> idl_put ids1 (i + 1) a;
          insertion_sort ids2 (j + 1) ir
        }
      else Some ids)"
  by pat_completeness auto
termination
  by (relation "measure (\<lambda>(ids, j, ir). Suc ir - j)") auto

declare insertion_sort.simps [simp del]

text \<open>The scans of the partition: up to an entry not above \<open>a\<close>, down to one not below it.\<close>

function scan_up :: "idl \<Rightarrow> mdb_id \<Rightarrow> nat \<Rightarrow> nat option" where
  "scan_up ids a i = do { x \<leftarrow> idl_at ids (i + 1); if a < x then scan_up ids a (i + 1) else Some (i + 1) }"
  by pat_completeness auto
termination
  by (relation "measure (\<lambda>(ids, a, i). length ids - i)") (auto simp: idl_at_eq)

declare scan_up.simps [simp del]

fun scan_down :: "idl \<Rightarrow> mdb_id \<Rightarrow> nat \<Rightarrow> nat option" where
  "scan_down ids a 0 = None"
| "scan_down ids a (Suc j) = do { x \<leftarrow> idl_at ids j; if x < a then scan_down ids a j else Some j }"

lemma scan_up_bound: "scan_up ids a i = Some i' \<Longrightarrow> i < i' \<and> i' < length ids"
proof (induction ids a i rule: scan_up.induct)
  case (1 ids a i)
  obtain x where x: "idl_at ids (i + 1) = Some x"
    using 1(2) by (subst (asm) scan_up.simps) (auto simp: bind_eq_Some_conv)
  then have "if a < x then scan_up ids a (i + 1) = Some i' else i' = i + 1"
    using 1(2) by (subst (asm) scan_up.simps) (simp split: if_splits)
  then show ?case using 1(1) [OF x] x by (auto simp: idl_at_eq split: if_splits)
qed

function partition_loop :: "idl \<Rightarrow> mdb_id \<Rightarrow> nat \<Rightarrow> nat \<Rightarrow> (idl \<times> nat \<times> nat) option" where
  "partition_loop ids a i j =
     do {
       i1 \<leftarrow> scan_up ids a i;
       j1 \<leftarrow> scan_down ids a j;
       if j1 < i1 then Some (ids, i1, j1)
       else do { ids1 \<leftarrow> MIDL_SWAP ids i1 j1; partition_loop ids1 a i1 j1 }
     }"
  by pat_completeness auto
termination
  by (relation "measure (\<lambda>(ids, a, i, j). length ids - i)")
    (auto simp: MIDL_SWAP_def idl_at_eq idl_put_eq bind_eq_Some_conv dest!: scan_up_bound)

declare partition_loop.simps [simp del]

definition SMALL :: nat where "SMALL = 8"

text \<open>
  One partition of the entries from \<open>l\<close> to \<open>ir\<close>: the median of three goes to \<open>l + 1\<close>, and at
  the end to its place \<open>j\<close>; the entries from \<open>i\<close> on are not above it.
\<close>

definition partition_step :: "idl \<Rightarrow> nat \<Rightarrow> nat \<Rightarrow> (idl \<times> nat \<times> nat) option" where
  "partition_step ids l ir =
     do {
       ids1 \<leftarrow> MIDL_SWAP ids ((l + ir) div 2) (l + 1);
       ids2 \<leftarrow> order_pair ids1 l ir;
       ids3 \<leftarrow> order_pair ids2 (l + 1) ir;
       ids4 \<leftarrow> order_pair ids3 l (l + 1);
       a \<leftarrow> idl_at ids4 (l + 1);
       (ids5, i, j) \<leftarrow> partition_loop ids4 a (l + 1) ir;
       x \<leftarrow> idl_at ids5 j;
       ids6 \<leftarrow> idl_put ids5 (l + 1) x;
       ids7 \<leftarrow> idl_put ids6 j a;
       Some (ids7, i, j)
     }"

text \<open>
  The stack holds pairs, the top first; \<open>jstack\<close> is twice its length, and \<open>istack\<close> has 64
  entries. Fuel counts the rounds of the outer loop.
\<close>

definition ISTACK_SIZE :: nat where "ISTACK_SIZE = 64"

fun sort_loop :: "nat \<Rightarrow> idl \<Rightarrow> nat \<Rightarrow> nat \<Rightarrow> (nat \<times> nat) list \<Rightarrow> idl option" where
  "sort_loop 0 ids l ir istack = None"
| "sort_loop (Suc fuel) ids l ir istack =
     (if int ir - int l < int SMALL then
        do {
          ids1 \<leftarrow> insertion_sort ids (l + 1) ir;
          case istack of
            [] \<Rightarrow> Some ids1
          | (l1, ir1) # istack1 \<Rightarrow> sort_loop fuel ids1 l1 ir1 istack1
        }
      else
        do {
          (ids1, i, j) \<leftarrow> partition_step ids l ir;
          if ISTACK_SIZE \<le> 2 * (length istack + 1) then None
          else if int j - int l \<le> int ir - int i + 1 then sort_loop fuel ids1 l (j - 1) ((i, ir) # istack)
          else sort_loop fuel ids1 i ir ((l, j - 1) # istack)
        })"

definition mdb_midl_sort :: "idl \<Rightarrow> idl option" where
  "mdb_midl_sort ids =
     do { n \<leftarrow> idl_at ids 0; sort_loop (2 * length ids) ids 1 (nat (sint (ucast n :: 32 word))) [] }"

end
