(* ===== verification/Lmdb_Idl_Sort_Props.thy ===== *)
theory Lmdb_Idl_Sort_Props
  imports Lmdb_Idl_Sort
begin

text \<open>
  The sort of id lists is correct: it ends, stays inside the array and its stack, and leaves
  the ids in descending order, the words behind them untouched.
\<close>

section \<open>Changes inside a range\<close>

definition rearranged :: "nat \<Rightarrow> nat \<Rightarrow> 'a list \<Rightarrow> 'a list \<Rightarrow> bool" where
  "rearranged l r ids ids' = (mset ids' = mset ids \<and> (\<forall>k < length ids. k < l \<or> r < k \<longrightarrow> ids' ! k = ids ! k))"

definition desc :: "nat \<Rightarrow> nat \<Rightarrow> 'a::linorder list \<Rightarrow> bool" where
  "desc l r ids = (\<forall>x y. l \<le> x \<and> x < y \<and> y \<le> r \<longrightarrow> ids ! y \<le> ids ! x)"

lemma rearranged_length: "rearranged l r ids ids' \<Longrightarrow> length ids' = length ids"
  by (metis mset_eq_length rearranged_def)

lemma rearranged_refl [simp]: "rearranged l r ids ids"
  by (simp add: rearranged_def)

lemma rearranged_trans:
  "rearranged l r xs ys \<Longrightarrow> rearranged l r ys zs \<Longrightarrow> rearranged l r xs zs"
  using rearranged_length [of l r xs ys] by (simp add: rearranged_def)

lemma rearranged_mono:
  "rearranged l r xs ys \<Longrightarrow> l' \<le> l \<Longrightarrow> r \<le> r' \<Longrightarrow> rearranged l' r' xs ys"
  by (auto simp: rearranged_def)

lemma rearranged_outside:
  "rearranged l r xs ys \<Longrightarrow> k < length xs \<Longrightarrow> k < l \<or> r < k \<Longrightarrow> ys ! k = xs ! k"
  by (auto simp: rearranged_def)

lemma rearranged_swap:
  "i < length xs \<Longrightarrow> j < length xs \<Longrightarrow> l \<le> i \<Longrightarrow> i \<le> r \<Longrightarrow> l \<le> j \<Longrightarrow> j \<le> r \<Longrightarrow>
     rearranged l r xs (xs[i := xs ! j, j := xs ! i])"
  by (auto simp: rearranged_def mset_swap)

text \<open>Inside the range, every entry was there before.\<close>

lemma rearranged_inside:
  assumes "rearranged l r xs ys" and "r < length xs" and "l \<le> k" and "k \<le> r"
  obtains k' where "l \<le> k'" "k' \<le> r" "ys ! k = xs ! k'"
proof -
  have len: "length ys = length xs" using assms(1) by (rule rearranged_length)
  have split: "zs = take l zs @ take (Suc r - l) (drop l zs) @ drop (Suc r) zs" for zs :: "'a list"
    using assms(3,4) by (metis append_take_drop_id drop_drop le_SucI le_add_diff_inverse2 order.trans)
  have "take l ys = take l xs" "drop (Suc r) ys = drop (Suc r) xs"
    using assms len by (auto intro!: nth_equalityI simp: rearranged_outside)
  moreover have "mset ys = mset xs" using assms(1) by (simp add: rearranged_def)
  ultimately have "mset (take (Suc r - l) (drop l ys)) = mset (take (Suc r - l) (drop l xs))"
    using split [of xs] split [of ys] by (metis add_left_cancel add_right_cancel mset_append)
  then have "set (take (Suc r - l) (drop l ys)) = set (take (Suc r - l) (drop l xs))"
    by (rule mset_eq_setD)
  moreover have "ys ! k \<in> set (take (Suc r - l) (drop l ys))"
    using assms(2-4) len by (auto simp: in_set_conv_nth intro!: exI [of _ "k - l"])
  ultimately obtain n where "n < Suc r - l" "ys ! k = xs ! (l + n)"
    using assms(2-4) by (auto simp: in_set_conv_nth)
  then show ?thesis using that [of "l + n"] by simp
qed

section \<open>Insertion sort\<close>

lemma insertion_shift_result:
  assumes "Suc i < length ids"
  shows "\<exists>ids' i'. insertion_shift ids a i = Some (ids', i') \<and> i' \<le> i
    \<and> mset (ids'[Suc i' := a]) = mset (ids[Suc i := a])
    \<and> length ids' = length ids
    \<and> (\<forall>k. k \<le> i' \<or> Suc i < k \<longrightarrow> ids' ! k = ids ! k)
    \<and> (\<forall>k. Suc i' < k \<and> k \<le> Suc i \<longrightarrow> ids' ! k = ids ! (k - 1))
    \<and> (\<forall>k. i' < k \<and> k \<le> i \<longrightarrow> ids ! k < a) \<and> (i' = 0 \<or> a \<le> ids ! i')"
  using assms
proof (induction ids a i rule: insertion_shift.induct)
  case (1 ids a)
  then show ?case by auto
next
  case (2 ids a i)
  show ?case
  proof (cases "a \<le> ids ! Suc i")
    case True
    with 2(2) show ?thesis by auto
  next
    case False
    let ?ids1 = "ids[Suc (Suc i) := ids ! Suc i]"
    from 2(2) False have "insertion_shift ids a (Suc i) = insertion_shift ?ids1 a i" by simp
    moreover have "mset (?ids1[Suc i := a]) = mset (ids[Suc (Suc i) := a])"
      using mset_swap [of "Suc i" "ids[Suc (Suc i) := a]" "Suc (Suc i)"] 2(2)
      by (simp add: list_update_swap [of "Suc i" "Suc (Suc i)"])
    moreover obtain ids' i' where r: "insertion_shift ?ids1 a i = Some (ids', i')" "i' \<le> i"
      "mset (ids'[Suc i' := a]) = mset (?ids1[Suc i := a])" "length ids' = length ?ids1"
      "\<forall>k. k \<le> i' \<or> Suc i < k \<longrightarrow> ids' ! k = ?ids1 ! k"
      "\<forall>k. Suc i' < k \<and> k \<le> Suc i \<longrightarrow> ids' ! k = ?ids1 ! (k - 1)"
      "\<forall>k. i' < k \<and> k \<le> i \<longrightarrow> ?ids1 ! k < a" "i' = 0 \<or> a \<le> ?ids1 ! i'"
      using 2(1) [of "ids ! Suc i" ?ids1] 2(2) False by auto
    moreover have "\<forall>k. k \<le> i' \<or> Suc (Suc i) < k \<longrightarrow> ids' ! k = ids ! k" using r(2,5) by simp
    moreover have "\<forall>k. Suc i' < k \<and> k \<le> Suc (Suc i) \<longrightarrow> ids' ! k = ids ! (k - 1)"
      using r(2,5,6) 2(2) by (auto simp: le_Suc_eq)
    moreover have "\<forall>k. i' < k \<and> k \<le> Suc i \<longrightarrow> ids ! k < a"
      using r(7) False by (auto simp: le_Suc_eq)
    ultimately show ?thesis by (auto intro!: exI [of _ ids'] exI [of _ i'])
  qed
qed

lemma insertion_step:
  assumes "l \<le> i" and "Suc i < length ids" and "desc l i ids"
    and "l = Suc 0 \<or> 0 < l \<and> ids ! Suc i \<le> ids ! (l - 1)"
  shows "\<exists>ids' i'. insertion_shift ids (ids ! Suc i) i = Some (ids', i') \<and> Suc i' < length ids'
    \<and> rearranged l (Suc i) ids (ids'[Suc i' := ids ! Suc i]) \<and> desc l (Suc i) (ids'[Suc i' := ids ! Suc i])"
proof -
  let ?a = "ids ! Suc i"
  obtain ids' i' where r: "insertion_shift ids ?a i = Some (ids', i')" "i' \<le> i"
    "mset (ids'[Suc i' := ?a]) = mset (ids[Suc i := ?a])" "length ids' = length ids"
    "\<forall>k. k \<le> i' \<or> Suc i < k \<longrightarrow> ids' ! k = ids ! k"
    "\<forall>k. Suc i' < k \<and> k \<le> Suc i \<longrightarrow> ids' ! k = ids ! (k - 1)"
    "\<forall>k. i' < k \<and> k \<le> i \<longrightarrow> ids ! k < ?a" "i' = 0 \<or> ?a \<le> ids ! i'"
    using insertion_shift_result [OF assms(2), of ?a] by blast
  let ?ids = "ids'[Suc i' := ?a]"
  have low: "l \<le> Suc i'"
  proof (rule ccontr)
    assume "\<not> l \<le> Suc i'"
    then have "i' < l - 1" "l - 1 \<le> i" "l \<noteq> Suc 0" using assms(1) by auto
    with r(7) assms(4) show False by (metis not_le)
  qed
  have rest: "?ids ! k = ids ! k" if "k < l \<or> Suc i < k" for k
    using that low r(2,4,5) assms(2) by (auto simp: nth_list_update)
  have "desc l (Suc i) ?ids"
    unfolding desc_def
  proof (intro allI impI)
    fix x y assume xy: "l \<le> x \<and> x < y \<and> y \<le> Suc i"
    have old: "ids ! v \<le> ids ! u" if "l \<le> u" "u \<le> v" "v \<le> i" for u v
      using assms(3) that by (cases "u = v") (auto simp: desc_def)
    consider "y \<le> i'" | "x \<le> i'" "y = Suc i'" | "x \<le> i'" "Suc i' < y" | "x = Suc i'" "Suc i' < y" | "Suc i' < x"
      using xy by linarith
    then show "?ids ! y \<le> ?ids ! x"
    proof cases
      case 1
      then show ?thesis using old [of x y] xy r(2,5) by simp
    next
      case 2
      then have "?a \<le> ids ! i'" using r(8) xy assms(1,4) by (cases "i' = 0") auto
      then show ?thesis using old [of x i'] 2 xy r(2,4,5) assms(2) by simp
    next
      case 3
      then have "x \<le> y - 1" "y - 1 \<le> i" using xy by linarith+
      then show ?thesis using old [of x "y - 1"] 3 xy r(2,5,6) by simp
    next
      case 4
      then have "ids ! (y - 1) < ?a" using r(7) [rule_format, of "y - 1"] xy by linarith
      then show ?thesis using 4 r(2,4,6) xy assms(2) by simp
    next
      case 5
      then have "l \<le> x - 1" "x - 1 \<le> y - 1" "y - 1 \<le> i" using xy low by linarith+
      then show ?thesis using 5 old [of "x - 1" "y - 1"] xy low r(6) by simp
    qed
  qed
  moreover have "rearranged l (Suc i) ids ?ids"
    using r(3) rest by (simp add: rearranged_def)
  ultimately show ?thesis using r(1,2,4) assms(2) by auto
qed

text \<open>
  What lies before a range bounds it: then the sort of the range stops where the range begins.
\<close>

definition bounded :: "nat \<Rightarrow> nat \<Rightarrow> 'a::linorder list \<Rightarrow> bool" where
  "bounded l r ids = (0 < l \<and> (l = Suc 0 \<or> (\<forall>k. l \<le> k \<and> k \<le> r \<longrightarrow> ids ! k \<le> ids ! (l - 1))))"

lemma bounded_rearranged:
  assumes "bounded l r xs" and "rearranged l r xs ys" and "r < length xs"
  shows "bounded l r ys"
proof (cases "l = Suc 0")
  case False
  have "ys ! k \<le> ys ! (l - 1)" if "l \<le> k" "k \<le> r" for k
  proof -
    have "ys ! (l - 1) = xs ! (l - 1)"
      using assms that by (intro rearranged_outside) (auto simp: bounded_def)
    with rearranged_inside [OF assms(2,3) that] assms(1) False show ?thesis
      by (metis bounded_def)
  qed
  with assms(1) show ?thesis by (simp add: bounded_def)
qed (simp add: bounded_def)

lemma insertion_sort_result:
  assumes "l < j" and "desc l (j - 1) ids" and "bounded l ir ids" and "ir < length ids" and "j \<le> Suc ir \<or> ir \<le> l"
  shows "\<exists>ids'. insertion_sort ids j ir = Some ids' \<and> rearranged l ir ids ids' \<and> desc l ir ids'"
  using assms
proof (induction ids j ir rule: insertion_sort.induct)
  case (1 ids j ir)
  show ?case
  proof (cases "j \<le> ir")
    case False
    with 1(3,6) have "desc l ir ids" by (auto simp: desc_def)
    with False show ?thesis by (subst insertion_sort.simps) simp
  next
    case True
    then obtain i where j: "j = Suc i" "l \<le> i" using 1(2) by (cases j) auto
    have b: "l = Suc 0 \<or> 0 < l \<and> ids ! Suc i \<le> ids ! (l - 1)"
      using 1(4) True j by (auto simp: bounded_def)
    obtain ids1 i' where s: "insertion_shift ids (ids ! j) i = Some (ids1, i')" "Suc i' < length ids1"
      "rearranged l j ids (ids1[Suc i' := ids ! j])" "desc l j (ids1[Suc i' := ids ! j])"
      using insertion_step [OF j(2) _ _ b] 1(3,5) True j(1) by auto
    let ?ids2 = "ids1[Suc i' := ids ! j]"
    have r: "rearranged l ir ids ?ids2" using s(3) True by (rule rearranged_mono [OF _ order_refl])
    have "\<exists>ids'. insertion_sort ?ids2 (j + 1) ir = Some ids' \<and> rearranged l ir ?ids2 ids' \<and> desc l ir ids'"
    proof (rule "1.IH" [OF True])
      show "bounded l ir ?ids2" using bounded_rearranged [OF 1(4) r 1(5)] .
      show "ir < length ?ids2" using rearranged_length [OF r] 1(5) by simp
    qed (use s j 1(2,5) True in \<open>auto simp: idl_put_def\<close>)
    with s(1,2) True j(1) 1(5) r show ?thesis
      by (subst insertion_sort.simps) (auto intro: rearranged_trans)
  qed
qed

section \<open>Partition\<close>

text \<open>The scans stop at a sentinel: an entry not above, or not below, the pivot.\<close>

lemma scan_up_result:
  assumes "i < b" and "b < length ids" and "ids ! b \<le> a"
  shows "\<exists>i'. scan_up ids a i = Some i' \<and> i < i' \<and> i' \<le> b \<and> ids ! i' \<le> a \<and> (\<forall>k. i < k \<and> k < i' \<longrightarrow> a < ids ! k)"
  using assms
proof (induction ids a i rule: scan_up.induct)
  case (1 ids a i)
  show ?case
  proof (cases "a < ids ! Suc i")
    case False
    with 1(2,3) show ?thesis by (subst scan_up.simps) (auto simp: not_less)
  next
    case True
    then have "Suc i < b" using 1(2,4) by (metis leD le_less_Suc_eq less_Suc_eq_le not_less_eq)
    with 1(1) [of "ids ! Suc i"] True 1(3,4) obtain i' where i': "scan_up ids a (Suc i) = Some i'"
      "Suc i < i'" "i' \<le> b" "ids ! i' \<le> a" "\<forall>k. Suc i < k \<and> k < i' \<longrightarrow> a < ids ! k" by auto
    then have "\<forall>k. i < k \<and> k < i' \<longrightarrow> a < ids ! k"
      using True by (metis Suc_lessI)
    with i' True 1(2,3) show ?thesis by (subst scan_up.simps) auto
  qed
qed

lemma scan_down_result:
  assumes "m < j" and "j \<le> length ids" and "a \<le> ids ! m"
  shows "\<exists>j'. scan_down ids a j = Some j' \<and> m \<le> j' \<and> j' < j \<and> a \<le> ids ! j' \<and> (\<forall>k. j' < k \<and> k < j \<longrightarrow> ids ! k < a)"
  using assms
proof (induction ids a j rule: scan_down.induct)
  case (2 ids a j)
  show ?case
  proof (cases "ids ! j < a")
    case False
    with 2(2,3) show ?thesis by (auto simp: not_less)
  next
    case True
    then have "m < j" using 2(2,4) by (metis leD less_SucE)
    with 2(1) [of "ids ! j"] True 2(3,4) obtain j' where j': "scan_down ids a j = Some j'"
      "m \<le> j'" "j' < j" "a \<le> ids ! j'" "\<forall>k. j' < k \<and> k < j \<longrightarrow> ids ! k < a" by auto
    then have "\<forall>k. j' < k \<and> k < Suc j \<longrightarrow> ids ! k < a" using True by (metis less_SucE)
    with j' True 2(3) show ?thesis by auto
  qed
qed simp

lemma MIDL_SWAP_eq [simp]:
  "i < length ids \<Longrightarrow> j < length ids \<Longrightarrow> MIDL_SWAP ids i j = Some (ids[i := ids ! j, j := ids ! i])"
  by (simp add: MIDL_SWAP_def)

definition parted :: "nat \<Rightarrow> nat \<Rightarrow> nat \<Rightarrow> nat \<Rightarrow> 'a::linorder \<Rightarrow> 'a list \<Rightarrow> bool" where
  "parted l i j r a ids = ((\<forall>k. l \<le> k \<and> k < i \<longrightarrow> a \<le> ids ! k) \<and> (\<forall>k. j < k \<and> k \<le> r \<longrightarrow> ids ! k \<le> a))"

lemma partition_loop_result:
  assumes "l < i" and "i \<le> j" and "j \<le> r" and "i < r" and "r < length ids"
    and "parted l (Suc i) (j - 1) r a ids" and "i = j \<Longrightarrow> Suc l < i"
  shows "\<exists>ids' i' j'. partition_loop ids a i j = Some (ids', i', j') \<and> rearranged (Suc i) r ids ids'
    \<and> l < j' \<and> j' < i' \<and> i' \<le> r \<and> parted l i' j' r a ids'"
  using assms
proof (induction ids a i j rule: partition_loop.induct)
  case (1 ids a i j)
  have hi: "ids ! k \<le> a" if "j \<le> k" "k \<le> r" for k
    using 1(7) that 1(2,3) by (auto simp: parted_def)
  have lo: "a \<le> ids ! k" if "l \<le> k" "k \<le> i" for k
    using 1(7) that by (auto simp: parted_def)
  define b where "b = (if i < j then j else Suc i)"
  have b: "i < b" "b \<le> r" "j \<le> b" using 1(2-6) by (auto simp: b_def)
  obtain i1 where i1: "scan_up ids a i = Some i1" "i < i1" "i1 \<le> b" "ids ! i1 \<le> a" "\<forall>k. i < k \<and> k < i1 \<longrightarrow> a < ids ! k"
    using scan_up_result [of i b ids a] b 1(6) hi [of b] by auto
  define m where "m = (if i < j then i1 - 1 else i - 1)"
  have m: "l < m" "m < j" "a \<le> ids ! m"
  proof -
    show "l < m" "m < j" using i1(2,3) 1(2,3,8) by (auto simp: m_def b_def)
    show "a \<le> ids ! m"
    proof (cases "m \<le> i")
      case True
      with lo \<open>l < m\<close> show ?thesis by simp
    next
      case False
      then have "i < m" "m < i1" by (auto simp: m_def split: if_splits)
      with i1(5) show ?thesis by (simp add: less_imp_le)
    qed
  qed
  obtain j1 where j1: "scan_down ids a j = Some j1" "m \<le> j1" "j1 < j" "a \<le> ids ! j1" "\<forall>k. j1 < k \<and> k < j \<longrightarrow> ids ! k < a"
    using scan_down_result [of m j ids a] m 1(4,6) by auto
  have below: "a \<le> ids ! k" if "l \<le> k" "k < i1" for k
    using lo [of k] i1(5) that by (cases "k \<le> i") (auto intro: less_imp_le)
  have above: "ids ! k \<le> a" if "j1 < k" "k \<le> r" for k
    using hi [of k] j1(5) that by (cases "j \<le> k") (auto intro: less_imp_le)
  show ?case
  proof (cases "j1 < i1")
    case True
    with i1 j1 m b below above show ?thesis
      by (subst partition_loop.simps) (auto simp: parted_def)
  next
    case False
    let ?ids = "ids[i1 := ids ! j1, j1 := ids ! i1]"
    have len: "i1 < length ids" "j1 < length ids" using False j1(3) 1(4,6) by linarith+
    have r: "rearranged (Suc i) r ids ?ids"
      using i1(2) j1(3) False 1(4) len by (intro rearranged_swap) auto
    have other: "?ids ! k = ids ! k" if "k \<noteq> i1" "k \<noteq> j1" for k using that by simp
    have swapped: "?ids ! i1 = ids ! j1" "?ids ! j1 = ids ! i1" using len by (auto simp: nth_list_update)
    have "a \<le> ?ids ! k" if "l \<le> k" "k < Suc i1" for k
      using below [OF that(1)] other [of k] swapped(1) j1(4) that(2) False by (cases "k = i1") auto
    moreover have "?ids ! k \<le> a" if "j1 - 1 < k" "k \<le> r" for k
      using above [OF _ that(2)] other [of k] swapped(2) i1(4) that(1) False by (cases "k = j1") auto
    ultimately have p: "parted l (Suc i1) (j1 - 1) r a ?ids" by (simp add: parted_def)
    have "\<exists>ids' i' j'. partition_loop ?ids a i1 j1 = Some (ids', i', j') \<and> rearranged (Suc i1) r ?ids ids'
      \<and> l < j' \<and> j' < i' \<and> i' \<le> r \<and> parted l i' j' r a ids'"
      using 1(1) [OF i1(1) j1(1) False, of ?ids] p i1(2) j1(3) False 1(2-6) len by auto
    then obtain ids' i' j' where "partition_loop ?ids a i1 j1 = Some (ids', i', j')" "rearranged (Suc i1) r ?ids ids'"
      "l < j'" "j' < i'" "i' \<le> r" "parted l i' j' r a ids'" by blast
    moreover from this have "rearranged (Suc i) r ids ids'"
      using rearranged_trans [OF r] rearranged_mono [of "Suc i1" r ?ids ids' "Suc i" r] i1(2) by simp
    ultimately show ?thesis
      using i1(1) j1(1) False len by (subst partition_loop.simps) auto
  qed
qed

text \<open>The first four statements of a partition order three entries.\<close>

lemma order_pair_eq [simp]:
  "i < length ids \<Longrightarrow> j < length ids \<Longrightarrow>
     order_pair ids i j = Some (if ids ! i < ids ! j then ids[i := ids ! j, j := ids ! i] else ids)"
  by (simp add: order_pair_def)

lemma order_pair_result:
  assumes "i < length ids" and "j < length ids" and "i \<noteq> j" and "l \<le> i" and "i \<le> r" and "l \<le> j" and "j \<le> r"
  shows "\<exists>ids'. order_pair ids i j = Some ids' \<and> rearranged l r ids ids' \<and> ids' ! j \<le> ids' ! i
    \<and> (\<forall>k. k \<noteq> i \<and> k \<noteq> j \<longrightarrow> ids' ! k = ids ! k)
    \<and> (ids' ! i = ids ! i \<and> ids' ! j = ids ! j \<or> ids' ! i = ids ! j \<and> ids' ! j = ids ! i)"
proof (cases "ids ! i < ids ! j")
  case True
  with assms show ?thesis by (simp add: rearranged_swap nth_list_update less_imp_le)
qed (use assms in \<open>auto simp: not_less\<close>)

lemma median_result:
  assumes "l + SMALL \<le> r" and "r < length ids"
  obtains ids1 ids2 ids3 ids4 where "MIDL_SWAP ids ((l + r) div 2) (l + 1) = Some ids1"
    "order_pair ids1 l r = Some ids2" "order_pair ids2 (l + 1) r = Some ids3" "order_pair ids3 l (l + 1) = Some ids4"
    "rearranged l r ids ids4" "ids4 ! Suc l \<le> ids4 ! l" "ids4 ! r \<le> ids4 ! Suc l"
proof -
  let ?k = "(l + r) div 2"
  have k: "l \<le> ?k" "?k \<le> r" "?k < length ids" "Suc l < r" using assms by (auto simp: SMALL_def)
  define ids1 where "ids1 = ids[?k := ids ! (l + 1), l + 1 := ids ! ?k]"
  have 1: "MIDL_SWAP ids ?k (l + 1) = Some ids1" "rearranged l r ids ids1"
    using k assms by (auto simp: ids1_def intro!: rearranged_swap)
  obtain ids2 where 2: "order_pair ids1 l r = Some ids2" "rearranged l r ids1 ids2" "ids2 ! r \<le> ids2 ! l"
    using order_pair_result [of l ids1 r l r] k assms(2) rearranged_length [OF 1(2)] by auto
  have len2: "length ids2 = length ids" using rearranged_length [OF 1(2)] rearranged_length [OF 2(2)] by simp
  obtain ids3 where 3: "order_pair ids2 (l + 1) r = Some ids3" "rearranged l r ids2 ids3"
    "ids3 ! r \<le> ids3 ! (l + 1)" "ids3 ! l = ids2 ! l" "ids3 ! r = ids2 ! r \<or> ids3 ! (l + 1) = ids2 ! r"
    using order_pair_result [of "l + 1" ids2 r l r] k assms(2) len2 by auto
  have len3: "length ids3 = length ids" using len2 rearranged_length [OF 3(2)] by simp
  obtain ids4 where 4: "order_pair ids3 l (l + 1) = Some ids4" "rearranged l r ids3 ids4"
    "ids4 ! (l + 1) \<le> ids4 ! l" "ids4 ! r = ids3 ! r"
    "ids4 ! (l + 1) = ids3 ! l \<or> ids4 ! (l + 1) = ids3 ! (l + 1)"
    using order_pair_result [of l ids3 "l + 1" l r] k assms(2) len3 by auto
  have "ids3 ! r \<le> ids3 ! l" using 3(3-5) 2(3) by auto
  then have "ids4 ! r \<le> ids4 ! Suc l" using 4(4,5) 3(3) by auto
  moreover have "rearranged l r ids ids4"
    using 1(2) 2(2) 3(2) 4(2) by (meson rearranged_trans)
  ultimately show ?thesis using that 1(1) 2(1) 3(1) 4(1,3) by auto
qed

lemma partition_step_result:
  assumes "l + SMALL \<le> r" and "r < length ids"
  shows "\<exists>ids' i j a. partition_step ids l r = Some (ids', i, j) \<and> rearranged l r ids ids'
    \<and> l < j \<and> j < i \<and> i \<le> r \<and> parted l i (j - 1) r a ids'"
proof -
  obtain ids1 ids2 ids3 ids4 where m: "MIDL_SWAP ids ((l + r) div 2) (l + 1) = Some ids1"
    "order_pair ids1 l r = Some ids2" "order_pair ids2 (l + 1) r = Some ids3" "order_pair ids3 l (l + 1) = Some ids4"
    "rearranged l r ids ids4" "ids4 ! Suc l \<le> ids4 ! l" "ids4 ! r \<le> ids4 ! Suc l"
    using median_result [OF assms] by metis
  have len: "length ids4 = length ids" using m(5) by (rule rearranged_length)
  let ?a = "ids4 ! Suc l"
  have lr: "Suc l < r" using assms(1) by (simp add: SMALL_def)
  have "parted l (Suc (Suc l)) (r - 1) r ?a ids4"
  proof (unfold parted_def, intro conjI allI impI)
    show "?a \<le> ids4 ! k" if "l \<le> k \<and> k < Suc (Suc l)" for k
      using that m(6) by (cases "k = l") (auto simp: less_Suc_eq)
    show "ids4 ! k \<le> ?a" if "r - 1 < k \<and> k \<le> r" for k
      using that m(7) lr by (cases "k = r") auto
  qed
  then obtain ids5 i j where p: "partition_loop ids4 ?a (Suc l) r = Some (ids5, i, j)"
    "rearranged (Suc (Suc l)) r ids4 ids5" "l < j" "j < i" "i \<le> r" "parted l i j r ?a ids5"
    using partition_loop_result [of l "Suc l" r r ids4 ?a] lr assms(2) len by auto
  have len5: "length ids5 = length ids" using rearranged_length [OF p(2)] len by simp
  have a: "ids5 ! Suc l = ?a" using rearranged_outside [OF p(2), of "Suc l"] lr assms(2) len by simp
  let ?ids = "ids5[Suc l := ids5 ! j, j := ?a]"
  have inside: "Suc l < length ids5" "j < length ids5" using lr p(4,5) assms(2) len5 by linarith+
  have "rearranged l r ids5 (ids5[Suc l := ids5 ! j, j := ids5 ! Suc l])"
    using inside lr p(3-5) by (intro rearranged_swap) auto
  then have "rearranged l r ids ?ids"
    using m(5) rearranged_mono [OF p(2), of l r] a by (auto intro: rearranged_trans)
  moreover have "parted l i (j - 1) r ?a ?ids"
  proof (unfold parted_def, intro conjI allI impI)
    have "?a \<le> ids5 ! j" using p(3,4,6) by (simp add: parted_def)
    then show "?a \<le> ?ids ! k" if "l \<le> k \<and> k < i" for k
      using that p(6) inside by (auto simp: parted_def nth_list_update)
    show "?ids ! k \<le> ?a" if "j - 1 < k \<and> k \<le> r" for k
      using that p(3,6) inside by (cases "k = j") (auto simp: parted_def nth_list_update)
  qed
  moreover have "partition_step ids l r = Some (?ids, i, j)"
    using m(1-4) p(1) len assms(2) lr inside by (simp add: partition_step_def)
  ultimately show ?thesis using p(3-5) by blast
qed

section \<open>The rounds\<close>

text \<open>
  The ranges still to be sorted are disjoint, and two entries that are not in one range are in
  their order already.
\<close>

definition apart :: "(nat \<times> nat) list \<Rightarrow> bool" where
  "apart R = sorted_wrt (\<lambda>(l, r) (l', r'). r < l' \<or> r' < l) R"

definition together :: "(nat \<times> nat) list \<Rightarrow> nat \<Rightarrow> nat \<Rightarrow> bool" where
  "together R x y = (\<exists>(l, r) \<in> set R. l \<le> x \<and> y \<le> r)"

definition settled :: "nat \<Rightarrow> (nat \<times> nat) list \<Rightarrow> 'a::linorder list \<Rightarrow> bool" where
  "settled n R ids = (\<forall>x y. 1 \<le> x \<and> x < y \<and> y \<le> n \<and> \<not> together R x y \<longrightarrow> ids ! y \<le> ids ! x)"

lemma together_simps [simp]:
  "together [] x y = False" "together ((l, r) # R) x y \<longleftrightarrow> (l \<le> x \<and> y \<le> r) \<or> together R x y"
  by (simp_all add: together_def)

lemma apart_simps [simp]:
  "apart []" "apart ((l, r) # R) \<longleftrightarrow> (\<forall>(l', r') \<in> set R. r < l' \<or> r' < l) \<and> apart R"
  by (auto simp: apart_def)

lemma apart_together:
  assumes "apart ((l, r) # R)" and "together R x y" and "x < y"
  shows "\<not> (l \<le> x \<and> x \<le> r)" and "\<not> (l \<le> y \<and> y \<le> r)"
  using assms by (force simp: together_def)+

lemma settled_bounded:
  assumes "settled n ((l, r) # R) ids" and "apart ((l, r) # R)" and "1 \<le> l" and "r \<le> n"
  shows "bounded l r ids"
proof -
  have "ids ! k \<le> ids ! (l - 1)" if "l \<noteq> Suc 0" "l \<le> k" "k \<le> r" for k
  proof -
    have "l - 1 < k" using that assms(3) by linarith
    then have "\<not> together R (l - 1) k"
      using apart_together(2) [OF assms(2), of "l - 1" k] that by auto
    moreover have "1 \<le> l - 1" "l - 1 < k" "k \<le> n" "\<not> l \<le> l - 1" using that assms(3,4) by linarith+
    ultimately show ?thesis
      using assms(1) [unfolded settled_def, rule_format, of "l - 1" k] by auto
  qed
  with assms(3) show ?thesis by (auto simp: bounded_def)
qed

text \<open>A change inside one range leaves the order to everything outside it as it was.\<close>

lemma settled_across:
  assumes "settled n ((l, r) # R) ids" and "apart ((l, r) # R)" and "rearranged l r ids ids'"
    and "1 \<le> l" and "r \<le> n" and "n < length ids"
    and "1 \<le> x" and "x < y" and "y \<le> n" and "\<not> together R x y" and "\<not> (l \<le> x \<and> y \<le> r)"
  shows "ids' ! y \<le> ids' ! x"
proof -
  have r: "r < length ids" using assms(5,6) by simp
  have old: "ids ! v \<le> ids ! u" if "1 \<le> u" "u < v" "v \<le> n" "\<not> together R u v" "\<not> (l \<le> u \<and> v \<le> r)" for u v
    using assms(1) that by (simp add: settled_def)
  have crossing: "\<not> together R u v" if "u < v" "l \<le> u \<and> u \<le> r \<or> l \<le> v \<and> v \<le> r" for u v
    using apart_together [OF assms(2) _ that(1)] that(2) by blast
  consider "l \<le> x" "x \<le> r" "r < y" | "x < l" "l \<le> y" "y \<le> r" | "x < l \<or> r < x" "y < l \<or> r < y"
    using assms(8,11) by linarith
  then show ?thesis
  proof cases
    case 1
    obtain x' where "l \<le> x'" "x' \<le> r" "ids' ! x = ids ! x'" using rearranged_inside [OF assms(3) r 1(1,2)] .
    moreover have "ids' ! y = ids ! y" using rearranged_outside [OF assms(3)] 1(3) assms(6,9) by simp
    ultimately show ?thesis using old [of x' y] crossing [of x' y] 1(3) assms(4,9) by auto
  next
    case 2
    obtain y' where "l \<le> y'" "y' \<le> r" "ids' ! y = ids ! y'" using rearranged_inside [OF assms(3) r 2(2,3)] .
    moreover have "ids' ! x = ids ! x" using rearranged_outside [OF assms(3)] 2(1) assms(6,8,9) by simp
    ultimately show ?thesis using old [of x y'] crossing [of x y'] 2(1) assms(5,7) by auto
  next
    case 3
    then have "ids' ! x = ids ! x" "ids' ! y = ids ! y"
      using rearranged_outside [OF assms(3)] assms(6,8,9) by auto
    then show ?thesis using old [of x y] assms(7-11) by simp
  qed
qed

lemma settled_sorted:
  assumes "settled n ((l, r) # R) ids" and "apart ((l, r) # R)" and "rearranged l r ids ids'" and "desc l r ids'"
    and "1 \<le> l" and "r \<le> n" and "n < length ids"
  shows "settled n R ids'"
  using settled_across [OF assms(1-3,5-7)] assms(4) by (auto simp: settled_def desc_def)

lemma settled_parted:
  assumes "settled n ((l, r) # R) ids" and "apart ((l, r) # R)" and "rearranged l r ids ids'" and "parted l i (j - 1) r a ids'"
    and "1 \<le> l" and "r \<le> n" and "n < length ids" and "l < j" and "j < i" and "i \<le> r"
  shows "settled n ((l, j - 1) # (i, r) # R) ids'" and "apart ((l, j - 1) # (i, r) # R)"
proof -
  show "settled n ((l, j - 1) # (i, r) # R) ids'"
    unfolding settled_def
  proof (intro allI impI)
    fix x y assume xy: "1 \<le> x \<and> x < y \<and> y \<le> n \<and> \<not> together ((l, j - 1) # (i, r) # R) x y"
    show "ids' ! y \<le> ids' ! x"
    proof (cases "l \<le> x \<and> y \<le> r")
      case True
      with xy have "x < i" "j - 1 < y" by auto
      with True xy assms(4) have "a \<le> ids' ! x" "ids' ! y \<le> a" by (auto simp: parted_def)
      then show ?thesis by (rule order_trans [rotated])
    next
      case False
      with settled_across [OF assms(1-3,5-7)] xy show ?thesis by auto
    qed
  qed
  show "apart ((l, j - 1) # (i, r) # R)" using assms(2,8-10) by fastforce
qed

lemma settled_swap: "settled n (p # q # R) ids \<Longrightarrow> settled n (q # p # R) ids"
  by (cases p; cases q) (auto simp: settled_def)

lemma apart_swap: "apart (p # q # R) \<Longrightarrow> apart (q # p # R)"
  by (cases p; cases q) auto

text \<open>
  The stack never overflows: the entry at depth \<open>d\<close> has at most \<open>n / 2 ^ d\<close> elements, as the
  larger part goes on the stack and the smaller one is sorted first.
\<close>

definition range_size :: "nat \<times> nat \<Rightarrow> nat" where
  "range_size p = Suc (snd p) - fst p"

fun shallow :: "nat \<Rightarrow> (nat \<times> nat) list \<Rightarrow> bool" where
  "shallow n [] = True"
| "shallow n (p # R) = (range_size p * 2 ^ length R \<le> n \<and> shallow n R)"

definition rounds :: "(nat \<times> nat) list \<Rightarrow> nat" where
  "rounds R = sum_list (List.map (\<lambda>p. 2 * range_size p + 1) R)"

lemma rounds_simps [simp]: "rounds [] = 0" "rounds (p # R) = 2 * range_size p + 1 + rounds R"
  by (simp_all add: rounds_def)

lemma stack_room:
  assumes "range_size p * 2 ^ d \<le> n" and "SMALL < range_size p" and "n < 2 ^ 31"
  shows "2 * (d + 1) < ISTACK_SIZE"
proof -
  have "1 \<le> range_size p" using assms(2) by simp
  then have "1 * 2 ^ d \<le> range_size p * 2 ^ d" by (rule mult_le_mono1)
  then have "(2::nat) ^ d < 2 ^ 31" using assms(1,3) by linarith
  then have "d < 31" by (simp only: power_strict_increasing_iff one_less_numeral_iff semiring_norm)
  then show ?thesis by (simp add: ISTACK_SIZE_def)
qed

lemma desc_single: "desc l l ids"
  by (auto simp: desc_def)

lemma sort_loop_result:
  assumes "settled n ((l, r) # R) ids" and "apart ((l, r) # R)" and "\<forall>(l', r') \<in> set ((l, r) # R). 1 \<le> l' \<and> r' \<le> n"
    and "n < length ids" and "n < 2 ^ 31" and "shallow n ((l, r) # R)" and "rounds ((l, r) # R) \<le> fuel"
  shows "\<exists>ids'. sort_loop fuel ids l r R = Some ids' \<and> rearranged 1 n ids ids' \<and> desc 1 n ids'"
  using assms
proof (induction fuel ids l r R rule: sort_loop.induct)
  case (1 ids l r R)
  then show ?case by simp
next
  case (2 fuel ids l r R)
  have lr: "1 \<le> l" "r \<le> n" using 2(6) by auto
  have rlen: "r < length ids" using lr 2(7) by simp
  show ?case
  proof (cases "int r - int l < int SMALL")
    case True
    have "bounded l r ids" using settled_bounded [OF 2(4,5) lr] .
    then obtain ids1 where s: "insertion_sort ids (l + 1) r = Some ids1" "rearranged l r ids ids1" "desc l r ids1"
      using insertion_sort_result [of l "l + 1" ids r] rlen desc_single [of l ids] nat_le_linear [of l r] by auto
    have st: "settled n R ids1" using settled_sorted [OF 2(4,5) s(2,3) lr 2(7)] .
    have re: "rearranged 1 n ids ids1" using s(2) lr by (rule rearranged_mono)
    show ?thesis
    proof (cases R)
      case Nil
      with True s(1) st re show ?thesis by (simp add: settled_def desc_def)
    next
      case (Cons p R1)
      obtain l1 r1 where p: "p = (l1, r1)" by fastforce
      have R: "R = (l1, r1) # R1" using Cons p by simp
      have "\<exists>ids'. sort_loop fuel ids1 l1 r1 R1 = Some ids' \<and> rearranged 1 n ids1 ids' \<and> desc 1 n ids'"
        using 2(1) [OF True s(1) R refl] 2(5-10) st rearranged_length [OF re] by (simp add: Cons p)
      with True s(1) Cons p re show ?thesis by (auto intro: rearranged_trans)
    qed
  next
    case False
    then have big: "l + SMALL \<le> r" by simp
    obtain ids1 i j a where p: "partition_step ids l r = Some (ids1, i, j)" "rearranged l r ids ids1"
      "l < j" "j < i" "i \<le> r" "parted l i (j - 1) r a ids1"
      using partition_step_result [OF big rlen] by blast
    have st: "settled n ((l, j - 1) # (i, r) # R) ids1" "apart ((l, j - 1) # (i, r) # R)"
      using settled_parted [OF 2(4,5) p(2,6) lr 2(7) p(3-5)] by blast+
    have re: "rearranged 1 n ids ids1" using p(2) lr by (rule rearranged_mono)
    have room: "\<not> ISTACK_SIZE \<le> 2 * (length R + 1)"
    proof -
      have "SMALL < range_size (l, r)" using big by (simp add: range_size_def less_diff_conv)
      then show ?thesis using stack_room [of "(l, r)" "length R" n] 2(8,9) by simp
    qed
    have sizes: "range_size (l, j - 1) + range_size (i, r) < range_size (l, r)"
      using p(3-5) by (simp add: range_size_def)
    have pow: "k * 2 ^ length R \<le> n" if "k \<le> range_size (l, r)" for k
      using 2(9) that by (metis le_trans mult_le_mono1 shallow.simps(2))
    have fin: "\<exists>ids'. sort_loop fuel ids1 l2 r2 ((l3, r3) # R) = Some ids' \<and> rearranged 1 n ids1 ids' \<and> desc 1 n ids'
      \<Longrightarrow> \<exists>ids'. sort_loop fuel ids1 l2 r2 ((l3, r3) # R) = Some ids' \<and> rearranged 1 n ids ids' \<and> desc 1 n ids'"
      for l2 r2 l3 r3 using re by (auto intro: rearranged_trans)
    show ?thesis
    proof (cases "int j - int l \<le> int r - int i + 1")
      case True
      then have small: "2 * range_size (l, j - 1) \<le> range_size (l, r)" using p(3-5) by (simp add: range_size_def)
      have "\<exists>ids'. sort_loop fuel ids1 l (j - 1) ((i, r) # R) = Some ids' \<and> rearranged 1 n ids1 ids' \<and> desc 1 n ids'"
        using 2(2) [OF False p(1) refl refl room True] 2(6-10) st small sizes pow [of "2 * range_size (l, j - 1)"]
          pow [of "range_size (i, r)"] p(3-5) lr rearranged_length [OF re] by (auto simp: mult.assoc)
      from fin [OF this] False p(1) room True show ?thesis by simp
    next
      case right: False
      then have small: "2 * range_size (i, r) \<le> range_size (l, r)" using p(3-5) by (simp add: range_size_def)
      have "\<exists>ids'. sort_loop fuel ids1 i r ((l, j - 1) # R) = Some ids' \<and> rearranged 1 n ids1 ids' \<and> desc 1 n ids'"
        using 2(3) [OF False p(1) refl refl room right] 2(6-10) settled_swap [OF st(1)] apart_swap [OF st(2)] small sizes
          pow [of "2 * range_size (i, r)"] pow [of "range_size (l, j - 1)"] p(3-5) lr rearranged_length [OF re]
        by (auto simp: mult.assoc)
      from fin [OF this] False p(1) room right show ?thesis by simp
    qed
  qed
qed

section \<open>The whole sort\<close>

lemma midl_sort_result:
  assumes "idl_fits ids" and "unat (ids ! 0) < 2 ^ 31"
  shows "\<exists>ids'. mdb_midl_sort ids = Some ids' \<and> rearranged 1 (unat (ids ! 0)) ids ids' \<and> desc 1 (unat (ids ! 0)) ids'"
proof -
  let ?n = "unat (ids ! 0)"
  have n: "?n < length ids" using assms(1) by (simp add: idl_fits_def)
  have "unat (ucast (ids ! 0) :: 32 word) = ?n" using assms(2) by (intro unat_ucast_32) simp
  then have i: "nat (sint (ucast (ids ! 0) :: 32 word)) = ?n"
    using assms(2) sint_small [of "ucast (ids ! 0)"] by simp
  have "range_size (1, ?n) = ?n" by (simp add: range_size_def)
  then have "\<exists>ids'. sort_loop (2 * length ids) ids 1 ?n [] = Some ids' \<and> rearranged 1 ?n ids ids' \<and> desc 1 ?n ids'"
    using n assms(2) by (intro sort_loop_result) (auto simp: settled_def)
  moreover have "idl_at ids 0 = Some (ids ! 0)" using n by (intro idl_at_Some) linarith
  ultimately show ?thesis using i by (simp add: mdb_midl_sort_def)
qed

text \<open>In terms of the ids of the list.\<close>

lemma rearranged_ids:
  assumes "rearranged 1 (unat (ids ! 0)) ids ids'" and "idl_fits ids"
  shows "ids' ! 0 = ids ! 0" and "idl_fits ids'" and "mset (idl_ids ids') = mset (idl_ids ids)"
    and "drop (Suc (unat (ids ! 0))) ids' = drop (Suc (unat (ids ! 0))) ids"
proof -
  let ?n = "unat (ids ! 0)"
  have n: "?n < length ids" using assms(2) by (simp add: idl_fits_def)
  have len: "length ids' = length ids" using assms(1) by (rule rearranged_length)
  show 0: "ids' ! 0 = ids ! 0" using rearranged_outside [OF assms(1), of 0] n by (cases "ids = []") simp_all
  show "idl_fits ids'" using n len 0 by (simp add: idl_fits_def)
  show d: "drop (Suc ?n) ids' = drop (Suc ?n) ids"
    using assms(1) len by (auto intro!: nth_equalityI simp: rearranged_outside)
  have split: "ids ! 0 # idl_ids xs @ drop (Suc ?n) xs = xs" if "xs ! 0 = ids ! 0" "xs \<noteq> []" for xs
    using that by (cases xs) (simp_all add: idl_ids_def)
  have "ids \<noteq> []" "ids' \<noteq> []" using n len by auto
  then have "mset (ids ! 0 # idl_ids ids @ drop (Suc ?n) ids) = mset ids"
    "mset (ids ! 0 # idl_ids ids' @ drop (Suc ?n) ids') = mset ids'"
    using split [of ids] split [of ids'] 0 by metis+
  moreover have "mset ids' = mset ids" using assms(1) by (simp add: rearranged_def)
  ultimately have "mset (ids ! 0 # idl_ids ids' @ drop (Suc ?n) ids) = mset (ids ! 0 # idl_ids ids @ drop (Suc ?n) ids)"
    using d by metis
  then show "mset (idl_ids ids') = mset (idl_ids ids)" by simp
qed

lemma desc_ids:
  assumes "desc 1 (unat (ids ! 0)) ids" and "idl_fits ids"
  shows "sorted_wrt (\<ge>) (idl_ids ids)"
  using assms by (auto simp: sorted_wrt_iff_nth_less idl_ids_nth desc_def)

end
