(* ===== verification/Lmdb_Idl_Lists.thy ===== *)
theory Lmdb_Idl_Lists
  imports Lmdb_Idl
begin

text \<open>
  What the operations on id lists with a capacity do to the ids of the list, and that they stay
  inside its memory.
\<close>

section \<open>Lists in their memory\<close>

text \<open>The memory has the room the capacity says, and the ids fit.\<close>

definition midl_ok :: "midl \<Rightarrow> bool" where
  "midl_ok l = (length (ml_ids l) = unat (ml_alloc l) + 1 \<and> unat (ml_ids l ! 0) \<le> unat (ml_alloc l))"

definition midl_list :: "midl \<Rightarrow> mdb_id list" where
  "midl_list l = idl_ids (ml_ids l)"

lemma take_whole: "length xs = n \<Longrightarrow> take n (xs @ ys) = xs"
  by auto

lemma idl_ids_Cons [simp]: "idl_ids (n # rest) = take (unat n) rest"
  by (simp add: idl_ids_def)

lemma midl_okE:
  assumes "midl_ok l"
  obtains n rest where "ml_ids l = n # rest" "length rest = unat (ml_alloc l)" "unat n \<le> length rest"
  using assms by (cases "ml_ids l") (auto simp: midl_ok_def)

lemma unat_add_nat:
  fixes w :: "'w::len word"
  assumes "unat w + k < 2 ^ LENGTH('w)"
  shows "unat (w + of_nat k) = unat w + k"
  using assms by (simp add: unat_word_ariths unat_of_nat mod_add_right_eq)

lemma block_words_small: "unat n < 2 ^ 61 \<Longrightarrow> block_words n = unat n"
proof -
  assume "unat n < 2 ^ 61"
  then have "unat n * unat (8 :: 64 word) < 2 ^ LENGTH(64)" by simp
  then have "unat (n * 8) = unat n * 8" by (subst unat_mult_lem [THEN iffD1]) simp_all
  then show ?thesis by (simp add: block_words_def)
qed

lemma realloc_grow:
  assumes "good_malloc malloc" and "realloc malloc old n = Some b" and "length old \<le> n"
  obtains rest where "b = old @ rest" "length b = n"
  using assms by (force simp: realloc_def good_malloc_def)

lemma idl_ids_append: "unat (ids ! 0) < length ids \<Longrightarrow> idl_ids (ids @ rest) = idl_ids ids"
  by (cases ids) simp_all

lemma midl_grow:
  assumes "good_malloc malloc" and "midl_ok l" and "unat (ml_alloc l) + k + 2 < 2 ^ 61"
  shows "mdb_midl_grow malloc l (int k) = (ENOMEM, l)
    \<or> (\<exists>l'. mdb_midl_grow malloc l (int k) = (0, l') \<and> midl_ok l' \<and> midl_list l' = midl_list l
       \<and> ml_ids l' ! 0 = ml_ids l ! 0 \<and> unat (ml_alloc l') = unat (ml_alloc l) + k)"
proof (cases "realloc malloc (midl_block l) (block_words (ml_alloc l + of_int (int k) + 2))")
  case None
  then show ?thesis by (simp add: mdb_midl_grow_def)
next
  case (Some b)
  have a: "unat (ml_alloc l + of_nat k) = unat (ml_alloc l) + k"
    using assms(3) by (intro unat_add_nat) simp
  have "unat (ml_alloc l + of_nat (k + 2)) = unat (ml_alloc l) + (k + 2)"
    using assms(3) by (intro unat_add_nat) simp
  then have "block_words (ml_alloc l + of_int (int k) + 2) = unat (ml_alloc l) + k + 2"
    using assms(3) block_words_small [of "ml_alloc l + of_nat (k + 2)"] by (simp add: ac_simps)
  with Some have r: "realloc malloc (midl_block l) (unat (ml_alloc l) + k + 2) = Some b" by simp
  obtain rest where b: "b = midl_block l @ rest" "length b = unat (ml_alloc l) + k + 2"
    using realloc_grow [OF assms(1) r] assms(2) by (auto simp: midl_block_def midl_ok_def)
  with Some assms(2) a show ?thesis
    by (auto simp: mdb_midl_grow_def midl_block_def midl_ok_def midl_list_def nth_append idl_ids_append)
qed

section \<open>Appending\<close>

lemma put_next:
  assumes "unat n < length rest" and "length rest < 2 ^ 64"
  shows "unat (n + 1 :: mdb_id) = Suc (unat n)"
    and "idl_ids ((n + 1) # rest[unat n := new]) = take (unat n) rest @ [new]"
proof -
  show s: "unat (n + 1) = Suc (unat n)"
    using unat_add_nat [of n 1] assms by simp
  with assms(1) show "idl_ids ((n + 1) # rest[unat n := new]) = take (unat n) rest @ [new]"
    by (simp add: take_Suc_conv_app_nth)
qed

lemma midl_xappend:
  assumes "midl_ok l" and "unat (ml_ids l ! 0) < unat (ml_alloc l)"
  shows "\<exists>ids. mdb_midl_xappend (ml_ids l) new = Some ids \<and> midl_ok (l\<lparr>ml_ids := ids\<rparr>)
    \<and> midl_list (l\<lparr>ml_ids := ids\<rparr>) = midl_list l @ [new]"
proof -
  obtain n rest where r: "ml_ids l = n # rest" "length rest = unat (ml_alloc l)" "unat n \<le> length rest"
    using assms(1) by (rule midl_okE)
  moreover have "unat n < length rest" "length rest < 2 ^ 64"
    using assms(2) r unsigned_less [of "ml_alloc l"] by simp_all
  ultimately show ?thesis
    using put_next(1) [of n rest] put_next(2) [of n rest new] by (simp add: mdb_midl_xappend_def midl_ok_def midl_list_def)
qed

lemma midl_append:
  assumes "good_malloc malloc" and "midl_ok l" and "unat (ml_alloc l) < 2 ^ 60"
  shows "mdb_midl_append malloc l new = Some (ENOMEM, l)
    \<or> (\<exists>l'. mdb_midl_append malloc l new = Some (0, l') \<and> midl_ok l' \<and> midl_list l' = midl_list l @ [new])"
proof -
  have room: "\<exists>l'. (do { n \<leftarrow> idl_at (ml_ids l1) 0; ids1 \<leftarrow> idl_put (ml_ids l1) 0 (n + 1);
        ids2 \<leftarrow> idl_put ids1 (unat (n + 1)) new; Some (0 :: int, l1\<lparr>ml_ids := ids2\<rparr>) }) = Some (0, l')
      \<and> midl_ok l' \<and> midl_list l' = midl_list l1 @ [new]"
    if ok: "midl_ok l1" and lt: "unat (ml_ids l1 ! 0) < unat (ml_alloc l1)" for l1
    using midl_xappend [OF ok lt, of new] by (auto simp: mdb_midl_xappend_def bind_eq_Some_conv)
  show ?thesis
  proof (cases "ml_alloc l \<le> ml_ids l ! 0")
    case False
    then have "unat (ml_ids l ! 0) < unat (ml_alloc l)" by (simp add: word_less_nat_alt [symmetric] not_le)
    with False room [OF assms(2)] show ?thesis by (simp add: mdb_midl_append_def)
  next
    case True
    consider "mdb_midl_grow malloc l (int MDB_IDL_UM_MAX) = (ENOMEM, l)"
      | l1 where "mdb_midl_grow malloc l (int MDB_IDL_UM_MAX) = (0, l1)" "midl_ok l1"
        "unat (ml_ids l1 ! 0) < unat (ml_alloc l1)" "midl_list l1 = midl_list l"
      using midl_grow [OF assms(1,2), of MDB_IDL_UM_MAX] assms(2,3)
      by (auto simp: MDB_IDL_UM_MAX_def midl_ok_def)
    then show ?thesis
    proof cases
      case 1
      with True show ?thesis by (simp add: mdb_midl_append_def ENOMEM_def)
    next
      case 2
      with True room [OF 2(2,3)] show ?thesis by (simp add: mdb_midl_append_def)
    qed
  qed
qed

text \<open>A range goes in downwards, so that a descending list stays one.\<close>

fun down_from :: "nat \<Rightarrow> mdb_id \<Rightarrow> mdb_id list" where
  "down_from 0 new = []"
| "down_from (Suc n) new = down_from n (new + 1) @ [new]"

lemma length_down_from [simp]: "length (down_from n new) = n"
  by (induction n new rule: down_from.induct) simp_all

lemma range_loop_result:
  "len + n < length ids \<Longrightarrow>
     range_loop ids len n new = Some (take (Suc len) ids @ down_from n new @ drop (Suc (len + n)) ids)"
proof (induction ids len n new rule: range_loop.induct)
  case (1 ids len new)
  then show ?case by simp
next
  case (2 ids len n new)
  let ?ids = "ids[len + Suc n := new]"
  have "drop (Suc (len + n)) ?ids = new # drop (Suc (len + Suc n)) ids"
    using 2(2) by (simp add: upd_conv_take_nth_drop)
  with 2 show ?case by simp
qed

lemma midl_append_range:
  assumes "good_malloc malloc" and "midl_ok l" and "unat (ml_alloc l) < 2 ^ 60" and "unat n < 2 ^ 31"
  shows "mdb_midl_append_range malloc l new n = Some (ENOMEM, l)
    \<or> (\<exists>l'. mdb_midl_append_range malloc l new n = Some (0, l') \<and> midl_ok l'
         \<and> midl_list l' = midl_list l @ down_from (unat n) new)"
proof -
  define len where "len = ml_ids l ! 0"
  have len: "unat (len + ucast n) = unat len + unat n"
    using assms(2-4) unat_add_nat [of len "unat n"] by (simp add: midl_ok_def len_def)
  have room: "\<exists>l'. (do { ids1 \<leftarrow> idl_put (ml_ids l1) 0 (len + ucast n);
        ids2 \<leftarrow> range_loop ids1 (unat len) (unat n) new; Some (0 :: int, l1\<lparr>ml_ids := ids2\<rparr>) }) = Some (0, l')
      \<and> midl_ok l' \<and> midl_list l' = midl_list l1 @ down_from (unat n) new"
    if ok: "midl_ok l1" and le: "unat len + unat n \<le> unat (ml_alloc l1)" and eq: "ml_ids l1 ! 0 = len" for l1
  proof -
    obtain rest where r: "ml_ids l1 = len # rest" "length rest = unat (ml_alloc l1)"
      using midl_okE [OF ok] eq by (metis nth_Cons_0)
    then show ?thesis
      using le len by (simp add: range_loop_result midl_ok_def midl_list_def)
  qed
  show ?thesis
  proof (cases "ml_alloc l < len + ucast n")
    case False
    then have "unat len + unat n \<le> unat (ml_alloc l)" using len by (simp add: not_less word_le_nat_alt)
    with False room [OF assms(2) _ len_def [symmetric]] show ?thesis
      by (simp add: mdb_midl_append_range_def Let_def flip: len_def)
  next
    case True
    let ?k = "unat (n OR of_nat MDB_IDL_UM_MAX)"
    have k: "unat n \<le> ?k" "?k < 2 ^ 31" "sint (n OR of_nat MDB_IDL_UM_MAX) = int ?k"
    proof -
      have i: "uint w = int (unat w)" for w :: "32 word" by simp
      have "uint n \<le> uint (n OR of_nat MDB_IDL_UM_MAX)" by (simp add: uint_or or_greater_eq)
      then show "unat n \<le> ?k" unfolding i by (simp only: of_nat_le_iff)
      have "int (unat n) < int (2 ^ 31)" using assms(4) by (simp only: of_nat_less_iff)
      then have "uint (of_nat MDB_IDL_UM_MAX :: 32 word) < 2 ^ 31" "uint n < 2 ^ 31"
        by (simp_all add: MDB_IDL_UM_MAX_def)
      then have "int ?k < int (2 ^ 31)"
        unfolding i [symmetric] uint_or by (simp only: of_nat_power of_nat_numeral) (intro OR_upper; simp)
      then show k: "?k < 2 ^ 31" by (simp only: of_nat_less_iff)
      then show "sint (n OR of_nat MDB_IDL_UM_MAX) = int ?k" by (rule sint_small)
    qed
    obtain k where k': "unat n \<le> k" "k < 2 ^ 31" "sint (n OR of_nat MDB_IDL_UM_MAX) = int k" using k by blast
    consider "mdb_midl_grow malloc l (int k) = (ENOMEM, l)"
      | l1 where "mdb_midl_grow malloc l (int k) = (0, l1)" "midl_ok l1" "midl_list l1 = midl_list l"
        "ml_ids l1 ! 0 = len" "unat len + unat n \<le> unat (ml_alloc l1)"
    proof -
      have "unat len \<le> unat (ml_alloc l)" using assms(2) by (simp add: midl_ok_def len_def)
      moreover have "unat (ml_alloc l) + k + 2 < 2 ^ 61" using k'(2) assms(3) by simp
      ultimately show ?thesis
        using midl_grow [OF assms(1,2), of k] k'(1) that add_mono [of "unat len" _ "unat n" k]
        unfolding len_def by metis
    qed
    then show ?thesis
    proof cases
      case 1
      with True k'(3) show ?thesis by (simp add: mdb_midl_append_range_def ENOMEM_def Let_def flip: len_def)
    next
      case 2
      with True k'(3) room [OF 2(2,5,4)] show ?thesis
        by (simp add: mdb_midl_append_range_def Let_def flip: len_def)
    qed
  qed
qed

section \<open>Inserting pairs\<close>

lemma shift_loop_result:
  "i < length ids \<Longrightarrow> x \<le> i \<Longrightarrow>
     shift_loop ids x i = Some (take (Suc x) ids @ drop x (take i ids) @ drop (Suc i) ids)"
proof (induction ids x i rule: shift_loop.induct)
  case (2 ids x i)
  show ?case
  proof (cases "x < Suc i")
    case True
    let ?ids = "ids[Suc i := ids ! i]"
    have "drop (Suc i) ?ids = ids ! i # drop (Suc (Suc i)) ids"
      using 2(2) by (simp add: upd_conv_take_nth_drop)
    moreover have "drop x (take (Suc i) ids) = drop x (take i ids) @ [ids ! i]"
      using 2(2) True by (simp add: take_Suc_conv_app_nth)
    ultimately show ?thesis using 2 True by simp
  qed (use 2 in simp)
qed simp

text \<open>Where a list ordered by \<open>mid\<close> takes a new id.\<close>

definition before :: "mdb_id2 \<Rightarrow> mdb_id2 list \<Rightarrow> mdb_id2 list" where
  "before new xs = takeWhile (\<lambda>e. mid e < mid new) xs"

definition from_there :: "mdb_id2 \<Rightarrow> mdb_id2 list \<Rightarrow> mdb_id2 list" where
  "from_there new xs = dropWhile (\<lambda>e. mid e < mid new) xs"

lemma split_at_position:
  assumes "p \<le> length xs" and "\<And>i. i < p \<Longrightarrow> mid (xs ! i) < mid new"
    and "\<And>i. p \<le> i \<Longrightarrow> i < length xs \<Longrightarrow> mid new \<le> mid (xs ! i)"
  shows "before new xs = take p xs" "from_there new xs = drop p xs"
proof -
  show t: "before new xs = take p xs"
    unfolding before_def
  proof (rule takeWhile_eq_take_P_nth)
    show "\<not> mid (xs ! p) < mid new" if "p < length xs"
      using assms(3) [of p] that by (simp add: not_less)
  qed (use assms in simp)
  have "before new xs @ from_there new xs = xs" by (simp add: before_def from_there_def)
  then show "from_there new xs = drop p xs" using t by (metis append_take_drop_id same_append_eq)
qed

lemma mid2l_insert:
  assumes "ascending ids" and "length ids = MDB_IDL_UM_MAX + 1"
  shows "mdb_mid2l_insert ids new =
    (if mid new \<in> mid ` set (id2_ids ids) then Some (- 1, ids)
     else if length (id2_ids ids) = MDB_IDL_UM_MAX then Some (- 2, ids)
     else Some (0, (ids ! 0)\<lparr>mid := mid (ids ! 0) + 1\<rparr> # before new (id2_ids ids) @ new # from_there new (id2_ids ids)
            @ drop (unat (mid (ids ! 0)) + 2) ids))"
proof -
  obtain n rest where ids: "ids = n # rest" using assms(2) by (cases ids) auto
  define c where "c = unat (mid n)"
  have c: "c \<le> length rest" "length rest = MDB_IDL_UM_MAX" using assms ids by (auto simp: ascending_def c_def)
  define xs where "xs = take c rest"
  have xs: "id2_ids ids = xs" "length xs = c" using c by (simp_all add: id2_ids_def ids xs_def c_def)
  obtain x where x: "mdb_mid2l_search ids (mid new) = Some x" "1 \<le> x" "x \<le> c + 1"
    "\<forall>i. 1 \<le> i \<and> i < x \<longrightarrow> mid (ids ! i) < mid new" "\<forall>i. x \<le> i \<and> i \<le> c \<longrightarrow> mid new \<le> mid (ids ! i)"
    using mid2l_search_position [OF assms(1), of "mid new"] ids by (auto simp: c_def)
  obtain p where p: "x = Suc p" using x(2) by (cases x) auto
  have le: "p \<le> c" using x(3) p by simp
  have lo: "mid (xs ! i) < mid new" if "i < p" for i
    using x(4) [rule_format, of "Suc i"] that le by (simp add: ids xs_def p)
  have hi: "mid new \<le> mid (xs ! i)" if "p \<le> i" "i < c" for i
    using x(5) [rule_format, of "Suc i"] that by (simp add: ids xs_def p)
  have sorted: "mid (xs ! i) < mid (xs ! j)" if "i < j" "j < c" for i j
    using ascending_nth [OF assms(1), of "Suc i" "Suc j"] that by (simp add: ids xs_def c_def)
  have mem: "mid new \<in> mid ` set xs \<longleftrightarrow> p < c \<and> mid (xs ! p) = mid new"
  proof
    assume "mid new \<in> mid ` set xs"
    then obtain i where i: "i < c" "mid (xs ! i) = mid new" using xs(2) by (auto simp: in_set_conv_nth)
    with lo [of i] have "p \<le> i" by (metis less_irrefl not_le)
    with hi [of p] sorted [of p i] i show "p < c \<and> mid (xs ! p) = mid new"
      by (cases "p = i") auto
  qed (use xs(2) in \<open>metis imageI nth_mem\<close>)
  have at_p: "idl_at ids x = Some (xs ! p)" if "p < c" using that c by (simp add: p ids xs_def)
  have split: "before new xs = take p xs" "from_there new xs = drop p xs"
    using split_at_position [of p xs new] le lo hi xs(2) by auto
  show ?thesis
  proof (cases "mid new \<in> mid ` set xs")
    case True
    with mem at_p x(1,2) show ?thesis by (simp add: mdb_mid2l_insert_def xs(1) [unfolded ids] ids p c_def [symmetric])
  next
    case False
    then have nodup: "x \<le> c \<Longrightarrow> idl_at (n # rest) x = Some (xs ! p) \<and> mid (xs ! p) \<noteq> mid new"
      using mem at_p p ids by auto
    show ?thesis
    proof (cases "c = MDB_IDL_UM_MAX")
      case True
      with False nodup x(1,2) show ?thesis
        by (simp add: mdb_mid2l_insert_def xs(1) [unfolded ids] xs(2) ids c_def [symmetric])
    next
      case room: False
      then have lt: "c < MDB_IDL_UM_MAX" using c by simp
      have k: "unat (ucast (mid n + 1) :: 32 word) = Suc c"
      proof -
        have "unat (mid n + 1) = Suc c" using unat_add_nat [of "mid n" 1] lt by (simp add: c_def MDB_IDL_UM_MAX_def)
        then show ?thesis using lt unat_ucast_32 [of "mid n + 1"] by (simp add: MDB_IDL_UM_MAX_def)
      qed
      let ?ids = "(n\<lparr>mid := mid n + 1\<rparr>) # rest"
      have "shift_loop ?ids x (Suc c) = Some (take (Suc x) ?ids @ drop x (take (Suc c) ?ids) @ drop (Suc (Suc c)) ?ids)"
        using lt c le by (intro shift_loop_result) (simp_all add: p)
      moreover have "(take (Suc x) ?ids @ drop x (take (Suc c) ?ids) @ drop (Suc (Suc c)) ?ids)[x := new]
          = (n\<lparr>mid := mid n + 1\<rparr>) # take p xs @ new # drop p xs @ drop (Suc c) rest"
        using lt c le by (simp add: p xs_def list_update_append take_Suc_conv_app_nth min_def)
      moreover have "x < length (take (Suc x) ?ids)" using lt c le by (simp add: p)
      ultimately obtain ids2 where "shift_loop ?ids x (Suc c) = Some ids2" "x < length ids2"
        "ids2[x := new] = (n\<lparr>mid := mid n + 1\<rparr>) # take p xs @ new # drop p xs @ drop (Suc c) rest"
        by (metis trans_less_add1 length_append)
      then show ?thesis
        using False nodup x(1,2) lt room k
        by (simp add: mdb_mid2l_insert_def xs(1) [unfolded ids] ids c_def [symmetric] split xs(2) del: shift_loop.simps)
    qed
  qed
qed

text \<open>The insertion keeps the order and adds exactly the new pair.\<close>

lemma from_there_larger:
  assumes "sorted_wrt (<) (List.map mid xs)" and "mid new \<notin> mid ` set xs" and "e \<in> set (from_there new xs)"
  shows "mid new < mid e"
  using assms
proof (induction xs)
  case (Cons x xs)
  show ?case
  proof (cases "mid x < mid new")
    case False
    then have "mid new < mid x" using Cons(3) by auto
    then show ?thesis using False Cons(2,4) by (auto simp: from_there_def)
  qed (use Cons in \<open>simp add: from_there_def\<close>)
qed (simp add: from_there_def)

lemma inserted_sorted:
  assumes "sorted_wrt (<) (List.map mid xs)" and "mid new \<notin> mid ` set xs"
  shows "sorted_wrt (<) (List.map mid (before new xs @ new # from_there new xs))"
proof -
  have "sorted_wrt (<) (List.map mid (before new xs @ from_there new xs))"
    using assms(1) by (simp add: before_def from_there_def)
  moreover have "mid e < mid new" if "e \<in> set (before new xs)" for e
    using that by (auto simp: before_def dest: set_takeWhileD)
  ultimately show ?thesis using from_there_larger [OF assms] by (auto simp: sorted_wrt_append)
qed

lemma mid2l_insert_ordered:
  assumes "ascending dl" and "length dl = MDB_IDL_UM_MAX + 1"
  shows "\<exists>rc dl'. mdb_mid2l_insert dl new = Some (rc, dl') \<and> ascending dl' \<and> length dl' = length dl
    \<and> rc = (if mid new \<in> mid ` set (id2_ids dl) then - 1 else if length (id2_ids dl) = MDB_IDL_UM_MAX then - 2 else 0)
    \<and> mset (id2_ids dl') = (if rc = 0 then add_mset new (mset (id2_ids dl)) else mset (id2_ids dl))"
proof (cases "mid new \<in> mid ` set (id2_ids dl) \<or> length (id2_ids dl) = MDB_IDL_UM_MAX")
  case True
  with mid2l_insert [OF assms, of new] assms(1) show ?thesis by auto
next
  case False
  let ?xs = "id2_ids dl"
  let ?dl = "(dl ! 0)\<lparr>mid := mid (dl ! 0) + 1\<rparr> # before new ?xs @ new # from_there new ?xs @ drop (unat (mid (dl ! 0)) + 2) dl"
  have n: "length ?xs = unat (mid (dl ! 0))" "length ?xs < MDB_IDL_UM_MAX"
    using assms False by (auto simp: id2_ids_def ascending_def)
  then have m: "unat (mid (dl ! 0) + 1) = length ?xs + 1" "length ?xs + 1 < 2 ^ 32"
    using unat_add_nat [of "mid (dl ! 0)" 1] by (simp_all add: MDB_IDL_UM_MAX_def)
  have l: "length (before new ?xs @ from_there new ?xs) = length ?xs" by (simp add: before_def from_there_def)
  have "take (length ?xs + 1) ((before new ?xs @ new # from_there new ?xs) @ drop (unat (mid (dl ! 0)) + 2) dl)
      = before new ?xs @ new # from_there new ?xs"
    using l by (intro take_whole) simp
  then have ids: "id2_ids ?dl = before new ?xs @ new # from_there new ?xs"
    unfolding id2_ids_def [of ?dl] using m(1) by simp
  have len: "length ?dl = length dl" using l n assms(2) by simp
  have "ascending ?dl"
    unfolding ascending_def ids
    using inserted_sorted [of ?xs new] assms(1) False m len n assms(2) by (simp add: ascending_def)
  moreover have "mset (before new ?xs) + mset (from_there new ?xs) = mset ?xs"
    by (simp add: before_def from_there_def flip: mset_append)
  then have "mset (id2_ids ?dl) = add_mset new (mset ?xs)" unfolding ids by simp
  ultimately show ?thesis using mid2l_insert [OF assms, of new] False len by auto
qed

text \<open>Making room for more ids, in steps of 256 words.\<close>

lemma round_down_256: "unat (w AND - 256) + unat (take_bit 8 w) = unat w" for w :: "32 word"
proof -
  have "(- 256 :: 32 word) = NOT (mask 8)" by (simp add: mask_eq_exp_minus_1)
  then have "w AND - 256 = push_bit 8 (drop_bit 8 w)" by (auto simp: bit_eq_iff bit_simps)
  then have sum: "(w AND - 256) + take_bit 8 w = w" using bits_ident [of 8 w] by simp
  have "w AND - 256 \<le> w" by (rule word_and_le2)
  then show ?thesis using sum by (metis add_diff_cancel_left' le_add_diff_inverse unat_sub word_le_nat_alt)
qed

lemma unat_wide: "unat (ucast w :: 64 word) = unat w" for w :: "32 word"
proof -
  have "unat w < 2 ^ 32" using unsigned_less [of w] by simp
  then show ?thesis by (simp add: unsigned_ucast_eq take_bit_nat_eq_self)
qed

lemma midl_need:
  assumes "good_malloc malloc" and "midl_ok l" and "unat (ml_ids l ! 0) + unat num < 2 ^ 31"
  shows "mdb_midl_need malloc l num = (ENOMEM, l)
    \<or> (\<exists>l'. mdb_midl_need malloc l num = (0, l') \<and> midl_ok l' \<and> midl_list l' = midl_list l
       \<and> ml_ids l' ! 0 = ml_ids l ! 0 \<and> unat (ml_ids l ! 0) + unat num \<le> unat (ml_alloc l')
       \<and> unat (ml_alloc l') \<le> max (unat (ml_alloc l)) (2 ^ 32))"
proof -
  let ?n = "unat (ml_ids l ! 0)"
  define num1 where "num1 = num + ucast (ml_ids l ! 0)"
  have small: "?n < 2 ^ 32" using assms(3) by simp
  have n1: "unat num1 = ?n + unat num"
    using assms(3) small by (simp add: num1_def unat_word_ariths)
  note wide = unat_wide [of num1]
  show ?thesis
  proof (cases "ml_alloc l < ucast num1")
    case False
    then have "unat num1 \<le> unat (ml_alloc l)" using wide by (simp add: word_le_nat_alt not_less)
    then show ?thesis using False assms(2) n1 by (simp add: mdb_midl_need_def num1_def [symmetric])
  next
    case True
    define num2 where "num2 = (num1 + num1 div 4 + (256 + 2)) AND - 256"
    have total: "unat (num1 + num1 div 4 + (256 + 2)) = unat num1 + unat num1 div 4 + 258"
    proof -
      have "unat (num1 div 4) = unat num1 div 4" by (simp add: unat_div)
      moreover have "unat num1 + unat num1 div 4 + 258 < 2 ^ 32" using n1 assms(3) by simp
      ultimately show ?thesis by (simp add: unat_word_ariths)
    qed
    have "unat (take_bit 8 (num1 + num1 div 4 + (256 + 2))) < 2 ^ 8"
      unfolding unsigned_take_bit_eq by (rule take_bit_nat_less_exp)
    then have num2: "unat num1 + 3 \<le> unat num2" "unat num2 \<le> unat num1 + unat num1 div 4 + 258"
      using round_down_256 [of "num1 + num1 div 4 + (256 + 2)"] total unfolding num2_def by simp_all
    have words: "block_words (ucast num2) = unat num2"
      using block_words_small [of "ucast num2"] unat_wide [of num2] n1 assms(3) num2(2) by simp
    have "unat (num2 - 2) = unat num2 - 2" using num2(1) by (simp add: unat_sub word_le_nat_alt)
    then have cap: "unat (ucast (num2 - 2) :: 64 word) = unat num2 - 2" using unat_wide by simp
    have fits: "length (midl_block l) \<le> unat num2"
      using True wide num2(1) assms(2) by (simp add: midl_block_def midl_ok_def word_less_nat_alt)
    have need: "mdb_midl_need malloc l num = (case realloc malloc (midl_block l) (unat num2) of
        None \<Rightarrow> (ENOMEM, l) | Some b \<Rightarrow> (0, \<lparr>ml_alloc = ucast (num2 - 2), ml_ids = tl b\<rparr>))"
      using True words unfolding mdb_midl_need_def Let_def num1_def num2_def by simp
    show ?thesis
    proof (cases "realloc malloc (midl_block l) (unat num2)")
      case None
      then show ?thesis using need by simp
    next
      case (Some b)
      obtain rest where b: "b = midl_block l @ rest" "length b = unat num2"
        using realloc_grow [OF assms(1) Some fits] by blast
      have len: "length (ml_ids l) + length rest = unat num2 - 1" using b by (simp add: midl_block_def)
      have "mdb_midl_need malloc l num = (0, \<lparr>ml_alloc = ucast (num2 - 2), ml_ids = ml_ids l @ rest\<rparr>)"
        using need Some b by (simp add: midl_block_def)
      moreover have "ml_ids l \<noteq> []" "?n < length (ml_ids l)" using assms(2) by (auto simp: midl_ok_def)
      moreover have "unat num2 \<le> 2 ^ 32" using num2(2) n1 assms(3) by simp
      ultimately show ?thesis
        using assms(2) cap num2(1) n1 len by (auto simp: midl_ok_def midl_list_def nth_append idl_ids_append)
    qed
  qed
qed

end
