(* ===== verification/Lmdb_Idl_Merge.thy ===== *)
theory Lmdb_Idl_Merge
  imports Lmdb_Idl_Lists
begin

text \<open>
  \<open>mdb_midl_xmerge\<close>: two descending lists merged in place, from their small ends, into the room
  behind the first. The counter of the list serves as the sentinel of the inner loop.
\<close>

section \<open>The code\<close>

text \<open>The inner loop moves entries up while they are below \<open>merge_id\<close>.\<close>

fun merge_inner :: "idl \<Rightarrow> mdb_id \<Rightarrow> mdb_id \<Rightarrow> nat \<Rightarrow> nat \<Rightarrow> (idl \<times> mdb_id \<times> nat \<times> nat) option" where
  "merge_inner idl merge_id old_id 0 k = (if old_id < merge_id then None else Some (idl, old_id, 0, k))"
| "merge_inner idl merge_id old_id (Suc j) k =
     (if old_id < merge_id
      then do {
        idl1 \<leftarrow> idl_put idl k old_id;
        old1 \<leftarrow> idl_at idl1 j;
        merge_inner idl1 merge_id old1 j (k - 1)
      }
      else Some (idl, old_id, Suc j, k))"

fun merge_outer :: "idl \<Rightarrow> idl \<Rightarrow> mdb_id \<Rightarrow> nat \<Rightarrow> nat \<Rightarrow> nat \<Rightarrow> idl option" where
  "merge_outer idl mrg old_id 0 j k = Some idl"
| "merge_outer idl mrg old_id (Suc i) j k =
     do {
       merge_id \<leftarrow> idl_at mrg (Suc i);
       (idl1, old1, j1, k1) \<leftarrow> merge_inner idl merge_id old_id j k;
       idl2 \<leftarrow> idl_put idl1 k1 merge_id;
       merge_outer idl2 mrg old1 i j1 (k1 - 1)
     }"

definition mdb_midl_xmerge :: "idl \<Rightarrow> idl \<Rightarrow> idl option" where
  "mdb_midl_xmerge idl mrg =
     do {
       wi \<leftarrow> idl_at mrg 0;
       wj \<leftarrow> idl_at idl 0;
       let total = wi + wj;
       idl1 \<leftarrow> idl_put idl 0 (- 1);
       old_id \<leftarrow> idl_at idl1 (unat wj);
       idl2 \<leftarrow> merge_outer idl1 mrg old_id (unat wi) (unat wj) (unat total);
       idl_put idl2 0 total
     }"

section \<open>The result\<close>

text \<open>The merge of two descending lists, the second first among equals, written from the small end.\<close>

fun merged :: "mdb_id list \<Rightarrow> mdb_id list \<Rightarrow> mdb_id list" where
  "merged xs [] = xs"
| "merged [] (y # ys) = y # ys"
| "merged (x # xs) (y # ys) = (if x < y then x # merged xs (y # ys) else y # merged (x # xs) ys)"

lemma merged_Nil [simp]: "merged [] ys = ys"
  by (cases ys) simp_all

lemma mset_merged [simp]: "mset (merged xs ys) = mset xs + mset ys"
  by (induction xs ys rule: merged.induct) simp_all

lemma sorted_merged: "sorted xs \<Longrightarrow> sorted ys \<Longrightarrow> sorted (merged xs ys)"
proof (induction xs ys rule: merged.induct)
  case (3 x xs y ys)
  have "set (merged xs (y # ys)) = set xs \<union> set (y # ys)" "set (merged (x # xs) ys) = set (x # xs) \<union> set ys"
    by (metis mset_merged set_mset_mset set_mset_union)+
  with 3 show ?case by auto
qed simp_all

lemma length_merged [simp]: "length (merged xs ys) = length xs + length ys"
  by (metis mset_merged size_mset size_union)

text \<open>What a word list has from index 1 to \<open>n\<close>, from the small end.\<close>

definition upwards :: "idl \<Rightarrow> nat \<Rightarrow> mdb_id list" where
  "upwards ids n = rev (take n (tl ids))"

lemma upwards_simps [simp]:
  "upwards ids 0 = []"
  "Suc n < length ids \<Longrightarrow> upwards ids (Suc n) = ids ! Suc n # upwards ids n"
  by (simp_all add: upwards_def take_Suc_conv_app_nth nth_tl)

lemma upwards_update [simp]: "n < k \<Longrightarrow> upwards (ids[k := x]) n = upwards ids n"
  by (cases ids; cases k) (simp_all add: upwards_def)

lemma length_upwards [simp]: "n < length ids \<Longrightarrow> length (upwards ids n) = n"
  by (simp add: upwards_def)

text \<open>The loops as one: each turn writes the smaller of the two next entries.\<close>

lemma merge_outer_move:
  assumes "Suc i < length mrg" and "k < length idl" and "j < length idl" and "old_id < mrg ! Suc i"
  shows "merge_outer idl mrg old_id (Suc i) (Suc j) k
    = merge_outer (idl[k := old_id]) mrg (idl[k := old_id] ! j) (Suc i) j (k - 1)"
  using assms by simp

lemma merge_outer_take:
  assumes "Suc i < length mrg" and "k < length idl" and "\<not> old_id < mrg ! Suc i"
  shows "merge_outer idl mrg old_id (Suc i) j k = merge_outer (idl[k := mrg ! Suc i]) mrg old_id i j (k - 1)"
  using assms by (cases j) simp_all

text \<open>
  They write the merge of what is left of both lists downwards from \<open>i + j\<close>: the entries behind
  it and the sentinel stay.
\<close>

lemma written_one:
  assumes "k < length idl" and "idl' = take k idl' @ drop k (idl[k := x])" and "length idl' = length idl"
  shows "idl' ! k = x" and "drop (Suc k) idl' = drop (Suc k) idl"
proof -
  have d: "drop k idl' = x # drop (Suc k) idl"
    using assms by (metis append_take_drop_id same_append_eq Cons_nth_drop_Suc drop_update_cancel length_list_update lessI nth_list_update_eq)
  then show "idl' ! k = x" using assms(1,3) by (metis nth_via_drop)
  from d show "drop (Suc k) idl' = drop (Suc k) idl"
    by (metis drop_Suc list.sel(3) tl_drop)
qed

lemma merge_outer_result:
  assumes "i < length mrg" and "i + j < length idl" and "idl ! 0 = - 1" and "old_id = idl ! j"
  shows "\<exists>idl'. merge_outer idl mrg old_id i j (i + j) = Some idl' \<and> length idl' = length idl \<and> idl' ! 0 = - 1
    \<and> upwards idl' (i + j) = merged (upwards idl j) (upwards mrg i) \<and> drop (Suc (i + j)) idl' = drop (Suc (i + j)) idl"
  using assms
proof (induction "i + j" arbitrary: idl old_id i j)
  case 0
  then show ?case by simp
next
  case (Suc n)
  show ?case
  proof (cases i)
    case 0
    with Suc show ?thesis by simp
  next
    case i: (Suc i1)
    let ?k = "i + j"
    have step: "\<exists>idl'. merge_outer (idl[?k := x]) mrg old1 i2 j2 n = Some idl' \<and> length idl' = length idl \<and> idl' ! 0 = - 1
        \<and> upwards idl' ?k = x # merged (upwards idl j2) (upwards mrg i2) \<and> drop (Suc ?k) idl' = drop (Suc ?k) idl"
      if sum: "n = i2 + j2" and le: "i2 \<le> i" "j2 \<le> j" and old: "old1 = idl[?k := x] ! j2" for x old1 i2 j2
    proof -
      obtain idl' where r: "merge_outer (idl[?k := x]) mrg old1 i2 j2 n = Some idl'" "length idl' = length idl" "idl' ! 0 = - 1"
        "upwards idl' n = merged (upwards (idl[?k := x]) j2) (upwards mrg i2)" "drop (Suc n) idl' = drop (Suc n) (idl[?k := x])"
        using Suc.hyps(1) [OF sum, of "idl[?k := x]" old1] sum le old Suc.prems Suc.hyps(2) i by auto
      have k: "?k = Suc n" "?k < length idl" using Suc.hyps(2) Suc.prems(2) by simp_all
      have "idl' ! ?k = x" "drop (Suc ?k) idl' = drop (Suc ?k) idl"
        using written_one [of ?k idl idl' x] r(2,5) k by (metis append_take_drop_id)+
      moreover have "upwards (idl[?k := x]) j2 = upwards idl j2" using sum k(1) by simp
      ultimately show ?thesis using r k sum by simp
    qed
    show ?thesis
    proof (cases "old_id < mrg ! Suc i1")
      case True
      have "j \<noteq> 0"
        using True Suc.prems(3,4) by (metis max_word_max not_less)
      then obtain j1 where j: "j = Suc j1" by (cases j) auto
      have "merge_outer idl mrg old_id i j ?k = merge_outer (idl[?k := old_id]) mrg (idl[?k := old_id] ! j1) i j1 n"
        using merge_outer_move [of i1 mrg ?k idl j1 old_id] True Suc.prems(1,2) Suc.hyps(2) i j
        by (simp only: ) auto
      with step [of i j1 "idl[?k := old_id] ! j1" old_id] True Suc.prems Suc.hyps(2) i j
      show ?thesis by auto
    next
      case False
      have "merge_outer idl mrg old_id i j ?k = merge_outer (idl[?k := mrg ! Suc i1]) mrg old_id i1 j n"
        using merge_outer_take [of i1 mrg ?k idl old_id j] False Suc.prems(1,2) Suc.hyps(2) i by auto
      moreover have "idl[?k := mrg ! Suc i1] ! j = old_id" using Suc.prems(4) i by simp
      moreover have "merged (upwards idl j) (upwards mrg i) = mrg ! Suc i1 # merged (upwards idl j) (upwards mrg i1)"
        using False Suc.prems(1,2,4) i by (cases j) auto
      ultimately show ?thesis
        using step [of i1 j old_id "mrg ! Suc i1"] Suc.hyps(2) i by auto
    qed
  qed
qed

lemma midl_xmerge_result:
  assumes "idl_fits mrg" and "unat (idl ! 0) + unat (mrg ! 0) < length idl" and "length idl < 2 ^ 64"
  shows "\<exists>idl'. mdb_midl_xmerge idl mrg = Some idl' \<and> idl_fits idl' \<and> length idl' = length idl
    \<and> rev (idl_ids idl') = merged (rev (idl_ids idl)) (rev (idl_ids mrg))"
proof -
  let ?i = "unat (mrg ! 0)" and ?j = "unat (idl ! 0)"
  have len: "?i < length mrg" "?j < length idl" using assms by (auto simp: idl_fits_def)
  have total: "unat (mrg ! 0 + idl ! 0) = ?i + ?j"
    using unat_add_nat [of "mrg ! 0" ?j] assms(2,3) by simp
  let ?idl = "idl[0 := - 1]"
  have ne: "mrg \<noteq> []" "idl \<noteq> []" using len by auto
  have s: "?idl ! 0 = - 1" using len(2) by (cases idl) auto
  obtain idl2 where r: "merge_outer ?idl mrg (?idl ! ?j) ?i ?j (?i + ?j) = Some idl2" "length idl2 = length idl"
    "upwards idl2 (?i + ?j) = merged (upwards ?idl ?j) (upwards mrg ?i)"
    using merge_outer_result [of ?i mrg ?j ?idl "?idl ! ?j"] len assms(2) s by (auto simp: add.commute)
  have "upwards ?idl ?j = rev (idl_ids idl)" "upwards mrg ?i = rev (idl_ids mrg)"
    by (cases idl; simp add: upwards_def idl_ids_def) (simp add: upwards_def idl_ids_def)
  moreover have "mdb_midl_xmerge idl mrg = Some (idl2[0 := mrg ! 0 + idl ! 0])"
    using r(1,2) len total ne by (simp add: mdb_midl_xmerge_def Let_def)
  moreover have "rev (idl_ids (idl2[0 := mrg ! 0 + idl ! 0])) = upwards idl2 (?i + ?j)"
    using total r(2) len by (cases idl2) (simp_all add: upwards_def idl_ids_def)
  moreover have "idl_fits (idl2[0 := mrg ! 0 + idl ! 0])"
    using r(2) assms(2) total ne by (cases idl2) (simp_all add: idl_fits_def)
  ultimately show ?thesis using r(2,3) by auto
qed

end
