(* ===== verification/Lmdb_Properties.thy ===== *)
theory Lmdb_Properties
  imports Lmdb_Set_Props Lmdb_Idl_Sort_Props Lmdb_Idl_Merge Lmdb_Idl_Lists
begin

text \<open>The properties of the database library's code: its id lists, its pages, its cursors.\<close>

section \<open>A small database\<close>

text \<open>
  A branch page above two leaves; the second leaf is dirty and lies in memory, and its second
  node has its data on an overflow page.
\<close>

definition leaf3 :: mdb_page where
  "leaf3 = \<lparr>mp_pgno = 3, mp_flags = P_LEAF, mp_nodes = [Leaf_node ''a'' ''1'', Leaf_node ''c'' ''2''], mp_data = []\<rparr>"

definition leaf4 :: mdb_page where
  "leaf4 = \<lparr>mp_pgno = 4, mp_flags = P_LEAF, mp_nodes = [Leaf_node ''e'' ''3'', Big_node ''g'' 2 6], mp_data = []\<rparr>"

definition branch5 :: mdb_page where
  "branch5 = \<lparr>mp_pgno = 5, mp_flags = P_BRANCH, mp_nodes = [Branch_node [] 3, Branch_node ''e'' 4], mp_data = []\<rparr>"

definition overflow6 :: mdb_page where
  "overflow6 = \<lparr>mp_pgno = 6, mp_flags = P_OVERFLOW, mp_nodes = [], mp_data = ''45''\<rparr>"

definition sample_txn :: page_txn where
  "sample_txn = \<lparr>pt_blocked = False, pt_error = False, pt_direct = False,
     pt_levels = [(None, [\<lparr>mid = 1, mptr = 0\<rparr>, \<lparr>mid = 4, mptr = 9\<rparr>])],
     pt_map = (\<lambda>pgno. if pgno = 3 then leaf3 else if pgno = 5 then branch5 else overflow6),
     pt_heap = (\<lambda>a. leaf4), pt_next_pgno = 7\<rparr>"

lemma sample_levels: "levels_ok (pt_levels sample_txn)"
  by (simp add: levels_ok_def sample_txn_def ascending_def id2_ids_def)

lemma sample_pages: "page_at sample_txn 3 = Some leaf3" "page_at sample_txn 4 = Some leaf4"
    "page_at sample_txn 5 = Some branch5" "page_at sample_txn 6 = Some overflow6"
  by (simp_all add: page_at_result [OF sample_levels])
    (simp_all add: sample_txn_def spilled_pages_def dirty_pages_def id2_ids_def)

lemma sample_children: "child sample_txn (Branch_node k 3) = leaf3" "child sample_txn (Branch_node k 4) = leaf4"
  by (simp_all add: child_def NODEPGNO_def sample_pages)

lemma sample_read:
  "mdb_node_read sample_txn (Leaf_node k d) = Some (MDB_SUCCESS, sample_txn, d)"
  "mdb_node_read sample_txn (Big_node k 2 6) = Some (MDB_SUCCESS, sample_txn, ''45'')"
proof -
  obtain level where "mdb_page_get sample_txn 6 = Some (MDB_SUCCESS, sample_txn, Some (overflow6, level))"
    using sample_pages(4) by (rule page_at_get)
  then show "mdb_node_read sample_txn (Big_node k 2 6) = Some (MDB_SUCCESS, sample_txn, ''45'')"
    by (simp add: mdb_node_read_def overflow6_def)
qed (simp add: mdb_node_read_def)

lemma sample_database: "database sample_txn 5 1 branch5"
proof -
  have leaves: "page_ok sample_txn 0 leaf3" "page_ok sample_txn 0 leaf4"
    by (simp_all add: leaf3_def leaf4_def IS_LEAF_def sample_read)
  have "page_ok sample_txn (Suc 0) branch5"
    using leaves by (simp add: branch5_def IS_BRANCH_def sample_pages)
  then show ?thesis
    by (simp add: database_def sample_pages P_INVALID_def CURSOR_STACK_def) (simp add: sample_txn_def)
qed

lemma sample_records: "records_of sample_txn 1 branch5 = [(''a'', ''1''), (''c'', ''2''), (''e'', ''3''), (''g'', ''45'')]"
  by (simp add: branch5_def sample_children leaf3_def leaf4_def record_of_def node_data_def sample_read)

lemma sample_ordered: "tree_ordered sample_txn 1 branch5"
  by (simp add: branch5_def sample_children leaf3_def leaf4_def record_of_def keys_from_def key_at_def
      nth_Cons All_less_Suc split: nat.splits) auto


section \<open>Searching\<close>

text \<open>
  C7. \<open>mdb_get\<close> finds the value of a key in a tree of pages: the answer is that of the list of
  records below the root, whatever the height of the tree and wherever its pages lie.
\<close>

theorem lmdb_get:
  assumes "database txn root h p" and "tree_ordered txn h p" and "key \<noteq> []"
  shows "\<exists>mc. mdb_get txn root key =
    Some (if map_of (records_of txn h p) key = None then MDB_NOTFOUND else MDB_SUCCESS, mc,
          map_option (Pair key) (map_of (records_of txn h p) key))"
proof -
  have "set_outcome (records_of txn h p) key False (mdb_cursor_set (mdb_cursor_init txn root) key False)"
    using assms(1,2) cursor_init_on assms(3) by (rule mdb_cursor_set_outcome)
  then show ?thesis using assms(1) by (simp add: mdb_get_def database_def set_outcome_def sought_def)
qed

theorem lmdb_get_witness:
  "(\<exists>mc. mdb_get sample_txn 5 ''g'' = Some (MDB_SUCCESS, mc, Some (''g'', ''45'')))
   \<and> (\<exists>mc. mdb_get sample_txn 5 ''d'' = Some (MDB_NOTFOUND, mc, None))"
  using lmdb_get [OF sample_database sample_ordered, of "''g''"] lmdb_get [OF sample_database sample_ordered, of "''d''"]
  unfolding sample_records by simp

text \<open>
  C25. \<open>MDB_SET_RANGE\<close>, from any cursor of the database, finds the first record whose key is not
  smaller than the one asked for, and reports \<open>MDB_NOTFOUND\<close> exactly if there is none.
\<close>

theorem lmdb_set_range:
  assumes "database txn root h p" and "tree_ordered txn h p" and "cursor_on txn root h p mc" and "key \<noteq> []"
  shows "\<exists>mc'. mdb_cursor_get mc MDB_cursor_op.MDB_SET_RANGE (Some key) =
    (let r = find (\<lambda>r. key \<le> fst r) (records_of txn h p)
     in Some (if r = None then MDB_NOTFOUND else MDB_SUCCESS, mc', r))"
proof -
  have "\<not> pt_blocked (mc_txn mc)" using assms(1,3) by (simp add: database_def cursor_on_def)
  moreover have "set_outcome (records_of txn h p) key True (mdb_cursor_set mc key True)"
    using assms by (rule mdb_cursor_set_outcome)
  ultimately show ?thesis
    by (auto simp: mdb_cursor_get_def cursor_dispatch_def set_outcome_def sought_def)
qed

theorem lmdb_set_range_witness:
  "\<exists>mc. mdb_cursor_get (mdb_cursor_init sample_txn 5) MDB_cursor_op.MDB_SET_RANGE (Some ''d'')
     = Some (MDB_SUCCESS, mc, Some (''e'', ''3''))"
  using lmdb_set_range [OF sample_database sample_ordered cursor_init_on, of "''d''"]
  unfolding sample_records by simp

section \<open>Cursors\<close>

text \<open>The cursor of the contract, from the one with a stack of pages.\<close>

definition cursor_abs :: "mcursor \<Rightarrow> cursor_spec" where
  "cursor_abs mc = \<lparr>cs_index = (if mc_init mc then Some (position mc) else None), cs_eof = mc_eof mc\<rparr>"

fun concrete_op :: "cursor_op \<Rightarrow> MDB_cursor_op" where
  "concrete_op cursor_op.MDB_FIRST = MDB_cursor_op.MDB_FIRST"
| "concrete_op cursor_op.MDB_NEXT = MDB_cursor_op.MDB_NEXT"

text \<open>
  What the refinement relates: a cursor of a database, or a fresh one of an empty database, and
  the records it reads.
\<close>

definition reads :: "page_txn \<Rightarrow> mdb_id \<Rightarrow> mcursor \<Rightarrow> records \<Rightarrow> bool" where
  "reads txn root mc recs =
     ((\<exists>h p. database txn root h p \<and> cursor_on txn root h p mc \<and> recs = records_of txn h p)
      \<or> (\<not> pt_blocked txn \<and> root = P_INVALID \<and> recs = [] \<and> mc_txn mc = txn \<and> mc_root mc = root \<and> \<not> mc_init mc \<and> \<not> mc_del mc))"

lemma same_del: "\<not> mc_del mc \<Longrightarrow> mc\<lparr>mc_del := False\<rparr> = mc"
  by (cases mc) simp

lemma position_eof [simp]: "position (mc\<lparr>mc_eof := e\<rparr>) = position mc"
  by (simp add: position_def split: list.splits)

lemma reads_empty:
  assumes "\<not> pt_blocked txn" and "mc_txn mc = txn" and "mc_root mc = P_INVALID" and "\<not> mc_init mc" and "\<not> mc_del mc"
  shows "mdb_cursor_get mc (concrete_op op) None = Some (MDB_NOTFOUND, mc, None)"
  using assms by (cases op)
    (simp_all add: mdb_cursor_get_def cursor_dispatch_def mdb_cursor_first_def mdb_page_search_def same_del)

lemma reads_first:
  assumes "database txn root h p" and "cursor_on txn root h p mc"
  shows "\<exists>mc'. map_option (\<lambda>(rc, mc1, r). (rc, mc1\<lparr>mc_del := False\<rparr>, r)) (mdb_cursor_first mc)
      = Some (MDB_SUCCESS, mc', Some (records_of txn h p ! 0))
    \<and> cursor_on txn root h p mc' \<and> cursor_abs mc' = \<lparr>cs_index = Some 0, cs_eof = False\<rparr>"
proof -
  obtain mc' where mc': "mdb_cursor_first mc = Some (MDB_SUCCESS, mc', Some (records_of txn h p ! 0))"
    "cursor_on txn root h p mc'" "mc_init mc'" "\<not> mc_eof mc'" "position mc' = 0"
    using cursor_first_result [OF assms] by blast
  then have "\<not> mc_del mc'" by (simp add: cursor_on_def)
  with mc' show ?thesis by (simp add: same_del cursor_abs_def)
qed

lemma reads_next:
  assumes "database txn root h p" and "cursor_on txn root h p mc" and "mc_init mc"
    and "cursor_next_spec (records_of txn h p) (cursor_abs mc) = (rc, c, r)"
  shows "\<exists>mc'. map_option (\<lambda>(rc, mc1, r). (rc, mc1\<lparr>mc_del := False\<rparr>, r)) (mdb_cursor_next mc) = Some (rc, mc', r)
    \<and> cursor_on txn root h p mc' \<and> cursor_abs mc' = c"
proof (cases "mc_eof mc")
  case True
  then have "rc = MDB_NOTFOUND" "c = cursor_abs mc" "r = None"
    using assms(4) by (auto simp: cursor_next_spec_def cursor_abs_def)
  moreover have "\<not> mc_del mc" using assms(2) by (simp add: cursor_on_def)
  ultimately show ?thesis using True assms(2) by (simp add: mdb_cursor_next_def same_del)
next
  case False
  note result = cursor_next_result [OF assms(1-3) False]
  show ?thesis
  proof (cases "length (records_of txn h p) \<le> position mc + 1")
    case True
    then have "rc = MDB_NOTFOUND" "c = cursor_abs (mc\<lparr>mc_eof := True\<rparr>)" "r = None"
      using assms(3,4) False by (auto simp: cursor_next_spec_def cursor_abs_def)
    moreover have "\<not> mc_del mc" "cursor_on txn root h p (mc\<lparr>mc_eof := True\<rparr>)"
      using assms(2) by (simp_all add: cursor_on_def)
    moreover have "mdb_cursor_next mc = Some (MDB_NOTFOUND, mc\<lparr>mc_eof := True\<rparr>, None)" using result True by simp
    ultimately show ?thesis by (simp add: same_del)
  next
    case more: False
    then obtain mc' where mc': "mdb_cursor_next mc = Some (MDB_SUCCESS, mc', Some (records_of txn h p ! (position mc + 1)))"
      "cursor_on txn root h p mc'" "mc_init mc'" "\<not> mc_eof mc'" "position mc' = position mc + 1"
      using result by auto
    then have "rc = MDB_SUCCESS" "c = cursor_abs mc'" "r = Some (records_of txn h p ! (position mc + 1))"
      using assms(3,4) False more by (auto simp: cursor_next_spec_def cursor_abs_def)
    moreover have "\<not> mc_del mc'" using mc'(2) by (simp add: cursor_on_def)
    ultimately show ?thesis using mc' by (simp add: same_del)
  qed
qed

text \<open>
  C8. The cursor of \<open>mdb.c\<close> implements the contract the rest of the development relies on:
  \<open>mdb_cursor_get\<close> with \<open>MDB_FIRST\<close> or \<open>MDB_NEXT\<close> on the stack of pages returns the code and the
  record of \<open>cursor_get_spec\<close> on the list of records, and leaves a cursor in the state it has.
\<close>

theorem lmdb_cursor_refines:
  assumes "reads txn root mc (mt_records t)" and "\<not> mt_finished t" and "\<not> mt_error t"
    and "os ''mdb_cursor_get'' = 0" and "cursor_get_spec os t (cursor_abs mc) op = (rc, c, r)"
  shows "\<exists>mc'. mdb_cursor_get mc (concrete_op op) None = Some (rc, mc', r)
    \<and> reads txn root mc' (mt_records t) \<and> cursor_abs mc' = c"
proof (cases "mt_records t = [] \<and> root = P_INVALID")
  case True
  then have e: "\<not> pt_blocked txn" "mc_txn mc = txn" "mc_root mc = P_INVALID" "\<not> mc_init mc" "\<not> mc_del mc"
    using assms(1) by (auto simp: reads_def database_def)
  then have "cs_index (cursor_abs mc) = None" by (simp add: cursor_abs_def)
  then have "rc = MDB_NOTFOUND" "r = None" "c = cursor_abs mc"
    using assms(2-5) True by (auto simp: cursor_get_spec_def cursor_first_spec_def split: cursor_op.splits)
  with reads_empty [OF e] assms(1) show ?thesis by auto
next
  case False
  then obtain h p where db: "database txn root h p" "cursor_on txn root h p mc" "mt_records t = records_of txn h p"
    using assms(1) by (auto simp: reads_def)
  have "records_of txn h p \<noteq> []" using db(1) records_not_empty by (auto simp: database_def)
  then have spec: "cursor_get_spec os t (cursor_abs mc) op =
      (if op = cursor_op.MDB_FIRST \<or> \<not> mc_init mc
       then (MDB_SUCCESS, \<lparr>cs_index = Some 0, cs_eof = False\<rparr>, Some (records_of txn h p ! 0))
       else cursor_next_spec (records_of txn h p) (cursor_abs mc))"
    using assms(2-4) db(3)
    by (cases op) (simp_all add: cursor_get_spec_def cursor_first_spec_def cursor_abs_def)
  have conc: "mdb_cursor_get mc (concrete_op op) None = map_option (\<lambda>(rc, mc1, r). (rc, mc1\<lparr>mc_del := False\<rparr>, r))
      (if op = cursor_op.MDB_FIRST \<or> \<not> mc_init mc then mdb_cursor_first mc else mdb_cursor_next mc)"
    using db(1,2) by (cases op) (simp_all add: mdb_cursor_get_def cursor_dispatch_def database_def cursor_on_def)
  show ?thesis
  proof (cases "op = cursor_op.MDB_FIRST \<or> \<not> mc_init mc")
    case True
    with spec conc assms(5) reads_first [OF db(1,2)] db(1,3) show ?thesis by (force simp: reads_def)
  next
    case False
    with spec conc assms(5) reads_next [OF db(1,2), of rc c r] db(1,3) show ?thesis by (force simp: reads_def)
  qed
qed

text \<open>Reading from a fresh cursor with \<open>MDB_NEXT\<close> until it fails.\<close>

fun read_all :: "nat \<Rightarrow> mcursor \<Rightarrow> (records \<times> int) option" where
  "read_all 0 mc = None"
| "read_all (Suc n) mc =
     do {
       (rc, mc1, r) \<leftarrow> mdb_cursor_get mc MDB_cursor_op.MDB_NEXT None;
       if rc \<noteq> MDB_SUCCESS then Some ([], rc)
       else do { x \<leftarrow> r; (xs, rc) \<leftarrow> read_all n mc1; Some (x # xs, rc) }
     }"


theorem lmdb_cursor_refines_witness:
  "\<exists>mc. mdb_cursor_get (mdb_cursor_init sample_txn 5) (concrete_op cursor_op.MDB_NEXT) None
      = Some (MDB_SUCCESS, mc, Some (''a'', ''1''))
    \<and> cursor_abs mc = \<lparr>cs_index = Some 0, cs_eof = False\<rparr>"
proof -
  let ?t = "\<lparr>mt_rdonly = True, mt_finished = False, mt_error = False, mt_records = records_of sample_txn 1 branch5, mt_frees = 0\<rparr>"
  have "reads sample_txn 5 (mdb_cursor_init sample_txn 5) (mt_records ?t)"
    unfolding reads_def
    by (rule disjI1, intro exI conjI, rule sample_database, rule cursor_init_on) simp
  moreover have "cursor_get_spec (\<lambda>_. 0) ?t (cursor_abs (mdb_cursor_init sample_txn 5)) cursor_op.MDB_NEXT
      = (MDB_SUCCESS, \<lparr>cs_index = Some 0, cs_eof = False\<rparr>, Some (''a'', ''1''))"
    unfolding sample_records
    by (simp add: cursor_get_spec_def cursor_first_spec_def cursor_abs_def mdb_cursor_init_def)
  ultimately show ?thesis
    using lmdb_cursor_refines [of sample_txn 5 "mdb_cursor_init sample_txn 5" ?t "\<lambda>_. 0" cursor_op.MDB_NEXT] by force
qed

lemma next_get:
  assumes "database txn root h p" and "cursor_on txn root h p mc"
  shows "mdb_cursor_get mc MDB_cursor_op.MDB_NEXT None = map_option (\<lambda>(rc, mc1, r). (rc, mc1\<lparr>mc_del := False\<rparr>, r))
    (if mc_init mc then mdb_cursor_next mc else mdb_cursor_first mc)"
  using assms by (simp add: mdb_cursor_get_def cursor_dispatch_def database_def cursor_on_def)

lemma read_all_rest:
  assumes "database txn root h p" and "cursor_on txn root h p mc" and "mc_init mc" and "\<not> mc_eof mc"
    and "length (records_of txn h p) \<le> position mc + n"
  shows "0 < n \<Longrightarrow> read_all n mc = Some (drop (position mc + 1) (records_of txn h p), MDB_NOTFOUND)"
  using assms(2-5)
proof (induction n arbitrary: mc)
  case (Suc n)
  let ?recs = "records_of txn h p"
  note result = cursor_next_result [OF assms(1) Suc(3-5)]
  note get = next_get [OF assms(1) Suc(3)]
  show ?case
  proof (cases "length ?recs \<le> position mc + 1")
    case True
    then have "mdb_cursor_next mc = Some (MDB_NOTFOUND, mc\<lparr>mc_eof := True\<rparr>, None)" using result by simp
    with get True Suc(4) show ?thesis by simp
  next
    case False
    then obtain mc' where mc': "mdb_cursor_next mc = Some (MDB_SUCCESS, mc', Some (?recs ! (position mc + 1)))"
      "cursor_on txn root h p mc'" "mc_init mc'" "\<not> mc_eof mc'" "position mc' = position mc + 1"
      using result by auto
    have "mc'\<lparr>mc_del := False\<rparr> = mc'" using mc'(2) by (intro same_del) (simp add: cursor_on_def)
    moreover have "read_all n mc' = Some (drop (position mc' + 1) ?recs, MDB_NOTFOUND)"
      using False Suc(6) mc'(5) by (intro Suc(1) mc') auto
    moreover have "drop (position mc + 1) ?recs = ?recs ! (position mc + 1) # drop (position mc + 2) ?recs"
      using False by (simp flip: Cons_nth_drop_Suc)
    ultimately show ?thesis using get mc'(1,5) Suc(4) by simp
  qed
qed simp

text \<open>
  C24. Reading with \<open>MDB_NEXT\<close> from a fresh cursor visits every record of the tree, once and in
  the order of the tree, crossing from leaf to leaf, and then ends with \<open>MDB_NOTFOUND\<close>: one more
  call than there are records is enough.
\<close>

theorem lmdb_scan_ends:
  assumes "database txn root h p" and "length (records_of txn h p) < n"
  shows "read_all n (mdb_cursor_init txn root) = Some (records_of txn h p, MDB_NOTFOUND)"
proof -
  let ?mc = "mdb_cursor_init txn root" and ?recs = "records_of txn h p"
  obtain m where n: "n = Suc m" using assms(2) by (cases n) auto
  have ne: "?recs \<noteq> []" using assms(1) records_not_empty by (auto simp: database_def)
  obtain mc' where mc': "mdb_cursor_first ?mc = Some (MDB_SUCCESS, mc', Some (?recs ! 0))"
    "cursor_on txn root h p mc'" "mc_init mc'" "\<not> mc_eof mc'" "position mc' = 0"
    using cursor_first_result [OF assms(1) cursor_init_on] by blast
  have "mc'\<lparr>mc_del := False\<rparr> = mc'" using mc'(2) by (intro same_del) (simp add: cursor_on_def)
  moreover have "read_all m mc' = Some (drop 1 ?recs, MDB_NOTFOUND)"
    using read_all_rest [OF assms(1) mc'(2-4), of m] mc'(5) assms(2) n ne by (cases m) auto
  moreover have "?recs = ?recs ! 0 # drop 1 ?recs" using ne by (cases ?recs) auto
  ultimately show ?thesis
    using next_get [OF assms(1) cursor_init_on] mc'(1) n by (simp add: mdb_cursor_init_def)
qed

theorem lmdb_scan_ends_witness:
  "read_all 5 (mdb_cursor_init sample_txn 5)
     = Some ([(''a'', ''1''), (''c'', ''2''), (''e'', ''3''), (''g'', ''45'')], MDB_NOTFOUND)"
  using lmdb_scan_ends [OF sample_database, of 5] unfolding sample_records by simp

section \<open>Pages of a transaction\<close>

text \<open>
  C26. \<open>mdb_page_get\<close> gives a transaction its own copy of a page: the page the innermost level
  has spilled or dirtied, else that of its parents, else the page of the map below the first
  unallocated page; any other page number is \<open>MDB_PAGE_NOTFOUND\<close> and puts the transaction in
  error. The binary searches over the sorted lists decide it like the lists themselves.
\<close>

theorem lmdb_own_copy:
  assumes "levels_ok (pt_levels txn)" and "\<not> pt_direct txn"
  shows "case (case own_copy txn (pt_levels txn) pgno of
             Some p \<Rightarrow> Some p
           | None \<Rightarrow> if pgno < pt_next_pgno txn then Some (pt_map txn pgno) else None) of
      Some p \<Rightarrow> \<exists>level. mdb_page_get txn pgno = Some (MDB_SUCCESS, txn, Some (p, level))
    | None \<Rightarrow> mdb_page_get txn pgno = Some (MDB_PAGE_NOTFOUND, txn\<lparr>pt_error := True, pt_blocked := True\<rparr>, None)"
proof -
  obtain r where r: "level_loop txn (pt_levels txn) pgno 1 = Some r" "map_option fst r = own_copy txn (pt_levels txn) pgno"
    using level_loop_result [OF assms(1)] by blast
  with assms(2) show ?thesis by (cases r) (auto simp: mdb_page_get_def simp flip: r(2))
qed

theorem lmdb_own_copy_witness:
  "(\<exists>level. mdb_page_get sample_txn 4 = Some (MDB_SUCCESS, sample_txn, Some (leaf4, level)))
   \<and> mdb_page_get sample_txn 8 = Some (MDB_PAGE_NOTFOUND, sample_txn\<lparr>pt_error := True, pt_blocked := True\<rparr>, None)"
proof -
  have "\<not> pt_direct sample_txn" by (simp add: sample_txn_def)
  note copy = lmdb_own_copy [OF sample_levels this]
  have "own_copy sample_txn (pt_levels sample_txn) 4 = Some leaf4" "own_copy sample_txn (pt_levels sample_txn) 8 = None"
    "\<not> 8 < pt_next_pgno sample_txn"
    by (simp_all add: sample_txn_def spilled_pages_def dirty_pages_def id2_ids_def)
  with copy [of 4] copy [of 8] show ?thesis by simp
qed

section \<open>Id lists\<close>

text \<open>
  C21. \<open>mdb_midl_sort\<close> sorts: its quicksort, with the explicit stack of partitions and insertion
  sort below eight elements, always ends within the array and its stack, and leaves the ids in
  descending order, the same ids, and everything else in the array alone.
\<close>

theorem midl_sorts:
  assumes "idl_fits ids" and "unat (ids ! 0) < 2 ^ 31"
  shows "\<exists>ids'. mdb_midl_sort ids = Some ids' \<and> sorted_wrt (\<ge>) (idl_ids ids') \<and> mset (idl_ids ids') = mset (idl_ids ids)
    \<and> ids' ! 0 = ids ! 0 \<and> drop (Suc (unat (ids ! 0))) ids' = drop (Suc (unat (ids ! 0))) ids"
proof -
  obtain ids' where s: "mdb_midl_sort ids = Some ids'" "rearranged 1 (unat (ids ! 0)) ids ids'" "desc 1 (unat (ids ! 0)) ids'"
    using midl_sort_result [OF assms] by blast
  note r = rearranged_ids [OF s(2) assms(1)]
  have "sorted_wrt (\<ge>) (idl_ids ids')" using s(3) r(1,2) by (intro desc_ids) simp_all
  with s(1) r show ?thesis by blast
qed

theorem midl_sorts_witness:
  "\<exists>ids. mdb_midl_sort [3, 5, 9, 7, 42] = Some ids \<and> sorted_wrt (\<ge>) (idl_ids ids) \<and> mset (idl_ids ids) = {#5, 9, 7#}
    \<and> ids ! 0 = 3 \<and> drop 4 ids = [42]"
  using midl_sorts [of "[3, 5, 9, 7, 42]"] by (simp add: idl_fits_def idl_ids_def)

text \<open>
  \<open>mdb_midl_xmerge\<close> merges a sorted list into another in place: with room for both, the
  result is sorted and has exactly the ids of the two lists.
\<close>

theorem midl_merges:
  assumes "idl_fits mrg" and "unat (idl ! 0) + unat (mrg ! 0) < length idl" and "length idl < 2 ^ 64"
    and "sorted_wrt (\<ge>) (idl_ids idl)" and "sorted_wrt (\<ge>) (idl_ids mrg)"
  shows "\<exists>idl'. mdb_midl_xmerge idl mrg = Some idl' \<and> idl_fits idl' \<and> sorted_wrt (\<ge>) (idl_ids idl')
    \<and> mset (idl_ids idl') = mset (idl_ids idl) + mset (idl_ids mrg)"
proof -
  obtain idl' where r: "mdb_midl_xmerge idl mrg = Some idl'" "idl_fits idl'"
    "rev (idl_ids idl') = merged (rev (idl_ids idl)) (rev (idl_ids mrg))"
    using midl_xmerge_result [OF assms(1-3)] by blast
  have "sorted_wrt (\<le>) (merged (rev (idl_ids idl)) (rev (idl_ids mrg)))"
    using assms(4,5) by (intro sorted_merged) (simp_all add: sorted_wrt_rev)
  then have "sorted_wrt (\<ge>) (idl_ids idl')" unfolding r(3) [symmetric] sorted_wrt_rev .
  moreover have "mset (idl_ids idl') = mset (idl_ids idl) + mset (idl_ids mrg)"
    using arg_cong [OF r(3), of mset] by (simp add: mset_merged)
  ultimately show ?thesis using r(1,2) by blast
qed

theorem midl_merges_witness:
  "\<exists>idl. mdb_midl_xmerge [2, 8, 3, 0, 0] [2, 9, 5] = Some idl \<and> idl_fits idl \<and> sorted_wrt (\<ge>) (idl_ids idl)
    \<and> mset (idl_ids idl) = {#8, 3, 9, 5#}"
  using midl_merges [of "[2, 9, 5]" "[2, 8, 3, 0, 0]"] by (simp add: idl_fits_def idl_ids_def add_mset_commute)

text \<open>
  C27. \<open>mdb_mid2l_insert\<close> keeps the list of dirty pages in order: a page that is listed already
  is refused with \<open>-1\<close> and a full list with \<open>-2\<close>, both without a change, and otherwise the page
  is put in its place, so that the list stays strictly ascending and gains exactly that page.
\<close>

theorem dirty_list_insert:
  assumes "ascending dl" and "length dl = MDB_IDL_UM_MAX + 1"
  shows "\<exists>rc dl'. mdb_mid2l_insert dl new = Some (rc, dl') \<and> ascending dl' \<and> length dl' = length dl
    \<and> rc = (if mid new \<in> mid ` set (id2_ids dl) then - 1 else if length (id2_ids dl) = MDB_IDL_UM_MAX then - 2 else 0)
    \<and> mset (id2_ids dl') = (if rc = 0 then add_mset new (mset (id2_ids dl)) else mset (id2_ids dl))"
  using assms by (rule mid2l_insert_ordered)

theorem dirty_list_insert_witness:
  "\<exists>dl. mdb_mid2l_insert (\<lparr>mid = 1, mptr = 0\<rparr> # \<lparr>mid = 4, mptr = 9\<rparr> # replicate (MDB_IDL_UM_MAX - 1) \<lparr>mid = 0, mptr = 0\<rparr>)
      \<lparr>mid = 2, mptr = 5\<rparr> = Some (0, dl)
    \<and> ascending dl \<and> mset (id2_ids dl) = {#\<lparr>mid = 2, mptr = 5\<rparr>, \<lparr>mid = 4, mptr = 9\<rparr>#}"
proof -
  let ?dl = "\<lparr>mid = 1, mptr = 0\<rparr> # \<lparr>mid = 4, mptr = 9\<rparr> # replicate (MDB_IDL_UM_MAX - 1) \<lparr>mid = 0, mptr = 0\<rparr>"
  have ids: "id2_ids ?dl = [\<lparr>mid = 4, mptr = 9\<rparr>]" by (simp add: id2_ids_def)
  have len: "length ?dl = MDB_IDL_UM_MAX + 1" by (simp add: MDB_IDL_UM_MAX_def)
  have "ascending ?dl" unfolding ascending_def ids by simp
  from dirty_list_insert [OF this len, of "\<lparr>mid = 2, mptr = 5\<rparr>"] show ?thesis
    unfolding ids by (simp add: MDB_IDL_UM_MAX_def add_mset_commute) blast
qed

text \<open>
  C39. \<open>mdb_midl_search\<close> never reads outside its list, and gives the index of the first id that is at
  most the wanted one, or the index behind the list: the list is descending, so what its comment
  calls the first id greater than or equal is the last one that could be.
\<close>

theorem midl_searches:
  assumes "descending ids"
  shows "\<exists>x. mdb_midl_search ids wanted = Some x \<and> 1 \<le> x \<and> x \<le> unat (ids ! 0) + 1
    \<and> (\<forall>i. 1 \<le> i \<and> i \<le> unat (ids ! 0) \<longrightarrow> (ids ! i \<le> wanted) = (x \<le> i))
    \<and> (wanted \<in> set (idl_ids ids)) = (x \<le> unat (ids ! 0) \<and> ids ! x = wanted)"
proof -
  let ?n = "unat (ids ! 0)"
  obtain x where x: "mdb_midl_search ids wanted = Some x" "1 \<le> x" "x \<le> ?n + 1"
    "\<And>i. 1 \<le> i \<Longrightarrow> i < x \<Longrightarrow> wanted < ids ! i" "\<And>i. x \<le> i \<Longrightarrow> i \<le> ?n \<Longrightarrow> ids ! i \<le> wanted"
    using midl_search_position [OF assms] by blast
  have split: "(ids ! i \<le> wanted) = (x \<le> i)" if "1 \<le> i" "i \<le> ?n" for i
    using x(4) [of i] x(5) [of i] that by (cases "x \<le> i") auto
  have n: "length (idl_ids ids) = ?n" using assms by (auto simp: descending_def idl_fits_def idl_ids_def)
  have same: "wanted = ids ! x" if "1 \<le> i" "i \<le> ?n" "ids ! i = wanted" for i
  proof -
    have "x \<le> i" using split [of i] that by simp
    then show ?thesis
      using descending_nth [OF assms x(2), of i] x(5) [of x] that by (cases "x = i") auto
  qed
  have at: "idl_ids ids ! i = ids ! Suc i" if "i < ?n" for i
    using that assms by (simp add: idl_ids_nth descending_def)
  have "wanted \<in> set (idl_ids ids) \<longleftrightarrow> (\<exists>i<?n. ids ! Suc i = wanted)"
    by (simp add: in_set_conv_nth n at cong: conj_cong)
  then have member: "wanted \<in> set (idl_ids ids) \<longleftrightarrow> (\<exists>i. 1 \<le> i \<and> i \<le> ?n \<and> ids ! i = wanted)"
    by (auto simp: Suc_le_eq gr0_conv_Suc)
  have iff: "(wanted \<in> set (idl_ids ids)) = (x \<le> ?n \<and> ids ! x = wanted)"
  proof
    assume "wanted \<in> set (idl_ids ids)"
    then obtain i where i: "1 \<le> i" "i \<le> ?n" "ids ! i = wanted" using member by auto
    from i split [OF i(1,2)] same [OF i] show "x \<le> ?n \<and> ids ! x = wanted" by simp
  next
    assume "x \<le> ?n \<and> ids ! x = wanted"
    with x(2) member show "wanted \<in> set (idl_ids ids)" by auto
  qed
  then show ?thesis using x(1-3) split by auto
qed

theorem midl_searches_witness:
  "\<exists>x. mdb_midl_search [3, 9, 5, 2] 6 = Some x \<and> (9 \<le> (6 :: 64 word)) = (x \<le> 1) \<and> (5 \<le> (6 :: 64 word)) = (x \<le> 2)"
proof -
  have "descending [3, 9, 5, 2]" by (simp add: descending_def idl_fits_def idl_ids_def)
  from midl_searches [OF this, of 6] obtain x where x: "mdb_midl_search [3, 9, 5, 2] 6 = Some x"
    "\<And>i. 1 \<le> i \<Longrightarrow> i \<le> 3 \<Longrightarrow> ([3, 9, 5, 2] ! i \<le> (6 :: 64 word)) = (x \<le> i)"
    by auto
  from x(2) [of 1] x(2) [of 2] x(1) show ?thesis by simp
qed

end
