(* ===== verification/Lmdb_Bytes.thy ===== *)
theory Lmdb_Bytes
  imports Lmdb_Idl
begin

text \<open>
  Memory as bytes, for the code that works on the layout of a page: reading and writing a
  range, moving one, and little-endian numbers. An access that leaves the memory is None.
\<close>

type_synonym bytes = string

section \<open>Ranges\<close>

definition load_bytes :: "bytes \<Rightarrow> nat \<Rightarrow> nat \<Rightarrow> string option" where
  "load_bytes b ofs n = (if ofs + n \<le> length b then Some (take n (drop ofs b)) else None)"

definition store_bytes :: "bytes \<Rightarrow> nat \<Rightarrow> string \<Rightarrow> bytes option" where
  "store_bytes b ofs xs =
     (if ofs + length xs \<le> length b then Some (take ofs b @ xs @ drop (ofs + length xs) b) else None)"

definition memmove :: "bytes \<Rightarrow> nat \<Rightarrow> nat \<Rightarrow> nat \<Rightarrow> bytes option" where
  "memmove b dst src n = do { xs \<leftarrow> load_bytes b src n; store_bytes b dst xs }"

lemma load_bytes_Some: "ofs + n \<le> length b \<Longrightarrow> load_bytes b ofs n = Some (take n (drop ofs b))"
  by (simp add: load_bytes_def)

lemma load_bytes_length: "load_bytes b ofs n = Some xs \<Longrightarrow> length xs = n \<and> ofs + n \<le> length b"
  by (auto simp: load_bytes_def split: if_splits)

lemma load_bytes_part:
  assumes "load_bytes b ofs n = Some xs" and "t + m \<le> n"
  shows "load_bytes b (ofs + t) m = Some (take m (drop t xs))"
proof -
  have "xs = take n (drop ofs b)" "ofs + n \<le> length b" using assms(1) by (auto simp: load_bytes_def split: if_splits)
  then show ?thesis using assms(2) by (auto simp: load_bytes_def add.assoc intro!: nth_equalityI)
qed

lemma load_bytes_cong:
  assumes "load_bytes b ofs n = load_bytes b' ofs' n" and "ofs + n \<le> length b" and "t + m \<le> n"
  shows "load_bytes b (ofs + t) m = load_bytes b' (ofs' + t) m"
proof -
  obtain xs where "load_bytes b ofs n = Some xs" using assms(2) load_bytes_Some by blast
  with assms(1,3) load_bytes_part [of b ofs n xs t m] load_bytes_part [of b' ofs' n xs t m] show ?thesis by simp
qed

lemma store_bytes_ex: "ofs + length xs \<le> length b \<Longrightarrow> \<exists>b'. store_bytes b ofs xs = Some b'"
  by (simp add: store_bytes_def)

lemma store_bytes_length: "store_bytes b ofs xs = Some b' \<Longrightarrow> length b' = length b"
  by (auto simp: store_bytes_def split: if_splits)

lemma load_store_same: "store_bytes b ofs xs = Some b' \<Longrightarrow> load_bytes b' ofs (length xs) = Some xs"
  by (auto simp: store_bytes_def load_bytes_def split: if_splits)

lemma load_store_apart:
  assumes "store_bytes b ofs xs = Some b'" and "o2 + n \<le> ofs \<or> ofs + length xs \<le> o2"
  shows "load_bytes b' o2 n = load_bytes b o2 n"
proof -
  have b': "b' = take ofs b @ xs @ drop (ofs + length xs) b" "ofs + length xs \<le> length b"
    using assms(1) by (auto simp: store_bytes_def split: if_splits)
  have "take n (drop o2 b') = take n (drop o2 b)" if "o2 + n \<le> length b"
    using assms(2)
  proof
    assume "o2 + n \<le> ofs"
    with b' that show ?thesis by (auto intro!: nth_equalityI simp: nth_append)
  next
    assume le: "ofs + length xs \<le> o2"
    then have "drop o2 b' = drop (o2 - (ofs + length xs)) (drop (ofs + length xs) b)" using b' by simp
    also have "\<dots> = drop o2 b" using le by simp
    finally show ?thesis by simp
  qed
  with store_bytes_length [OF assms(1)] show ?thesis by (simp add: load_bytes_def)
qed

section \<open>Numbers\<close>

fun le_value :: "string \<Rightarrow> nat" where
  "le_value [] = 0"
| "le_value (c # s) = of_char c + 256 * le_value s"

fun le_chars :: "nat \<Rightarrow> nat \<Rightarrow> string" where
  "le_chars 0 n = []"
| "le_chars (Suc k) n = char_of n # le_chars k (n div 256)"

lemma length_le_chars [simp]: "length (le_chars k n) = k"
  by (induction k n rule: le_chars.induct) simp_all

lemma le_value_chars: "le_value (le_chars k n) = n mod 256 ^ k"
proof (induction k n rule: le_chars.induct)
  case (2 k n)
  have "n mod (256 * 256 ^ k) = n mod 256 + 256 * (n div 256 mod 256 ^ k)"
    by (simp add: mod_mult2_eq)
  then show ?case using 2 by simp
qed simp

definition load16 :: "bytes \<Rightarrow> nat \<Rightarrow> 16 word option" where
  "load16 b ofs = map_option (\<lambda>xs. of_nat (le_value xs)) (load_bytes b ofs 2)"

definition store16 :: "bytes \<Rightarrow> nat \<Rightarrow> 16 word \<Rightarrow> bytes option" where
  "store16 b ofs w = store_bytes b ofs (le_chars 2 (unat w))"

definition load64 :: "bytes \<Rightarrow> nat \<Rightarrow> 64 word option" where
  "load64 b ofs = map_option (\<lambda>xs. of_nat (le_value xs)) (load_bytes b ofs 8)"

definition store64 :: "bytes \<Rightarrow> nat \<Rightarrow> 64 word \<Rightarrow> bytes option" where
  "store64 b ofs w = store_bytes b ofs (le_chars 8 (unat w))"

lemma store16_ex: "ofs + 2 \<le> length b \<Longrightarrow> \<exists>b'. store16 b ofs w = Some b'"
  by (simp add: store16_def store_bytes_ex)

lemma load16_ex: "ofs + 2 \<le> length b \<Longrightarrow> \<exists>w. load16 b ofs = Some w"
  by (simp add: load16_def load_bytes_Some)

lemma store16_length: "store16 b ofs w = Some b' \<Longrightarrow> length b' = length b"
  by (simp add: store16_def store_bytes_length)

lemma le_value_16: "(of_nat (le_value (le_chars 2 (unat (w :: 16 word)))) :: 16 word) = w"
proof -
  have "unat w < 65536" using unsigned_less [of w] by simp
  then show ?thesis by (simp add: le_value_chars)
qed

lemma load16_store16: "store16 b ofs w = Some b' \<Longrightarrow> load16 b' ofs = Some w"
  using load_store_same [of b ofs "le_chars 2 (unat w)" b'] by (simp add: store16_def load16_def le_value_16)

lemma store16_apart:
  "store16 b ofs w = Some b' \<Longrightarrow> o2 + n \<le> ofs \<or> ofs + 2 \<le> o2 \<Longrightarrow> load_bytes b' o2 n = load_bytes b o2 n"
  using load_store_apart [of b ofs "le_chars 2 (unat w)" b' o2 n] by (simp add: store16_def)

lemma load16_apart:
  "store16 b ofs w = Some b' \<Longrightarrow> o2 + 2 \<le> ofs \<or> ofs + 2 \<le> o2 \<Longrightarrow> load16 b' o2 = load16 b o2"
  using store16_apart [of b ofs w b' o2 2] by (simp add: load16_def)

lemma load16_bytes_apart:
  "store_bytes b ofs xs = Some b' \<Longrightarrow> o2 + 2 \<le> ofs \<or> ofs + length xs \<le> o2 \<Longrightarrow> load16 b' o2 = load16 b o2"
  using load_store_apart [of b ofs xs b' o2 2] by (simp add: load16_def)

lemma load16_cong: "load_bytes b ofs 2 = load_bytes b' ofs' 2 \<Longrightarrow> load16 b ofs = load16 b' ofs'"
  by (simp add: load16_def)

lemma load64_cong: "load_bytes b ofs 8 = load_bytes b' ofs' 8 \<Longrightarrow> load64 b ofs = load64 b' ofs'"
  by (simp add: load64_def)

end
