(* ===== verification/Lmdb_Node.thy ===== *)
theory Lmdb_Node
  imports Lmdb_Bytes Lmdb_Pages
begin

text \<open>
  The layout of a page in bytes: the header, the array \<open>mp_ptrs\<close> of node offsets growing up
  from it, the nodes growing down from the end of the page, and the operations that add and
  delete a node (\<open>mdb_node_add\<close>, \<open>mdb_node_del\<close>, \<open>mdb_update_key\<close>). Little-endian, 64 bits,
  \<open>PAGEBASE\<close> is 0.
\<close>

section \<open>Sizes and flags\<close>

definition PAGEHDRSZ :: nat where "PAGEHDRSZ = 16"
definition NODESIZE :: nat where "NODESIZE = 8"

definition EVEN :: "nat \<Rightarrow> nat" where
  "EVEN n = (n + 1) div 2 * 2"

definition OVPAGES :: "nat \<Rightarrow> nat \<Rightarrow> nat" where
  "OVPAGES n psize = (PAGEHDRSZ - 1 + n) div psize + 1"

definition F_ISSET :: "'a::len word \<Rightarrow> 'a word \<Rightarrow> bool" where
  "F_ISSET w f = (w AND f = f)"

definition FLAG_BRANCH :: "16 word" where "FLAG_BRANCH = 0x01"
definition FLAG_LEAF :: "16 word" where "FLAG_LEAF = 0x02"
definition FLAG_LEAF2 :: "16 word" where "FLAG_LEAF2 = 0x20"
definition F_BIGDATA :: "32 word" where "F_BIGDATA = 0x01"
definition MDB_RESERVE :: "32 word" where "MDB_RESERVE = 0x10000"

text \<open>A key or a datum: its size, and the bytes from the address on.\<close>

record mdb_val =
  mv_size :: nat
  mv_data :: bytes

definition mdb_leaf_size :: "nat \<Rightarrow> mdb_val \<Rightarrow> mdb_val \<Rightarrow> nat" where
  "mdb_leaf_size nodemax key data =
     (let sz = NODESIZE + mv_size key + mv_size data;
          sz = (if nodemax < sz then sz + 8 - mv_size data else sz)
      in EVEN (sz + 2))"

definition mdb_branch_size :: "mdb_val option \<Rightarrow> nat" where
  "mdb_branch_size key = NODESIZE + (case key of None \<Rightarrow> 0 | Some k \<Rightarrow> mv_size k) + 2"

section \<open>Reading a page\<close>

definition raw_flags :: "bytes \<Rightarrow> 16 word option" where "raw_flags p = load16 p 10"
definition raw_lower :: "bytes \<Rightarrow> 16 word option" where "raw_lower p = load16 p 12"
definition raw_upper :: "bytes \<Rightarrow> 16 word option" where "raw_upper p = load16 p 14"

definition raw_ptr :: "bytes \<Rightarrow> nat \<Rightarrow> 16 word option" where
  "raw_ptr p i = load16 p (PAGEHDRSZ + 2 * i)"

definition raw_numkeys :: "bytes \<Rightarrow> nat option" where
  "raw_numkeys p = map_option (\<lambda>l. unat (drop_bit 1 (ucast l - 16 :: 32 word))) (raw_lower p)"

definition SIZELEFT :: "bytes \<Rightarrow> 16 word option" where
  "SIZELEFT p = do { upper \<leftarrow> raw_upper p; lower \<leftarrow> raw_lower p; Some (upper - lower) }"

text \<open>The header of a node, and its key and data.\<close>

definition NODEDSZ :: "bytes \<Rightarrow> nat \<Rightarrow> nat option" where
  "NODEDSZ p node = do {
     lo \<leftarrow> load16 p node; hi \<leftarrow> load16 p (node + 2);
     Some (unat (ucast lo OR push_bit 16 (ucast hi) :: 32 word)) }"

definition raw_pgno :: "bytes \<Rightarrow> nat \<Rightarrow> mdb_id option" where
  "raw_pgno p node = do {
     lo \<leftarrow> load16 p node; hi \<leftarrow> load16 p (node + 2); fl \<leftarrow> load16 p (node + 4);
     Some (ucast lo OR push_bit 16 (ucast hi) OR push_bit 32 (ucast fl)) }"

definition node_flags :: "bytes \<Rightarrow> nat \<Rightarrow> 16 word option" where "node_flags p node = load16 p (node + 4)"

definition node_ksize :: "bytes \<Rightarrow> nat \<Rightarrow> nat option" where
  "node_ksize p node = map_option unat (load16 p (node + 6))"

definition node_big :: "bytes \<Rightarrow> nat \<Rightarrow> bool option" where
  "node_big p node = map_option (\<lambda>fl. F_ISSET (ucast fl) F_BIGDATA) (node_flags p node)"

text \<open>The bytes of a node behind its header, and the size of a node as the code adds it up.\<close>

definition node_payload :: "bool \<Rightarrow> bytes \<Rightarrow> nat \<Rightarrow> nat option" where
  "node_payload leaf p node =
     (if leaf then do { big \<leftarrow> node_big p node; if big then Some 8 else NODEDSZ p node } else Some 0)"

definition raw_node_size :: "bool \<Rightarrow> bytes \<Rightarrow> nat \<Rightarrow> nat option" where
  "raw_node_size leaf p node =
     do { k \<leftarrow> node_ksize p node; d \<leftarrow> node_payload leaf p node; Some (EVEN (NODESIZE + k + d)) }"

definition raw_node :: "bool \<Rightarrow> bytes \<Rightarrow> nat \<Rightarrow> mdb_node option" where
  "raw_node leaf p node =
     do {
       k \<leftarrow> node_ksize p node;
       key \<leftarrow> load_bytes p (node + NODESIZE) k;
       if leaf then
         do {
           big \<leftarrow> node_big p node;
           n \<leftarrow> NODEDSZ p node;
           if big then map_option (Big_node key n) (load64 p (node + NODESIZE + k))
           else map_option (Leaf_node key) (load_bytes p (node + NODESIZE + k) n)
         }
       else map_option (Branch_node key) (raw_pgno p node)
     }"

section \<open>Adding a node\<close>

definition SETDSZ :: "bytes \<Rightarrow> nat \<Rightarrow> nat \<Rightarrow> bytes option" where
  "SETDSZ p node n =
     do { p1 \<leftarrow> store16 p node (of_nat n); store16 p1 (node + 2) (of_nat (n div 2 ^ 16)) }"

definition SETPGNO :: "bytes \<Rightarrow> nat \<Rightarrow> mdb_id \<Rightarrow> bytes option" where
  "SETPGNO p node pgno =
     do {
       p1 \<leftarrow> store16 p node (ucast pgno);
       p2 \<leftarrow> store16 p1 (node + 2) (ucast (drop_bit 16 pgno));
       store16 p2 (node + 4) (ucast (drop_bit 32 pgno))
     }"

text \<open>The size of the new node, its flags, and the overflow page its data go to.\<close>

datatype node_room = Full | Failed int | Room nat "32 word" "mdb_id option"

text \<open>\<open>page_new\<close> is what \<open>mdb_page_new\<close> answers for a number of overflow pages.\<close>

definition node_room_for ::
  "nat \<Rightarrow> nat \<Rightarrow> (nat \<Rightarrow> int + mdb_id) \<Rightarrow> bool \<Rightarrow> int \<Rightarrow> mdb_val option \<Rightarrow> mdb_val option \<Rightarrow> 32 word \<Rightarrow> node_room option" where
  "node_room_for nodemax psize page_new leaf room key data flags =
     (let node_size = NODESIZE + (case key of None \<Rightarrow> 0 | Some k \<Rightarrow> mv_size k);
          fit = (\<lambda>n. if room < int (EVEN n) then Full else Room (EVEN n) flags None)
      in if leaf then
           (case (key, data) of
              (Some k, Some d) \<Rightarrow>
                if F_ISSET flags F_BIGDATA then Some (fit (node_size + 8))
                else if nodemax < node_size + mv_size d then
                  (let node_size = EVEN (node_size + 8) in
                   if room < int node_size then Some Full
                   else case page_new (OVPAGES (mv_size d) psize) of
                       Inl rc \<Rightarrow> Some (Failed rc)
                     | Inr pgno \<Rightarrow> Some (Room node_size (flags OR F_BIGDATA) (Some pgno)))
                else Some (fit (node_size + mv_size d))
            | _ \<Rightarrow> None)
         else Some (fit node_size))"

text \<open>The loop that moves the pointers from \<open>indx\<close> on up one slot, from the last.\<close>

fun ptrs_up :: "bytes \<Rightarrow> nat \<Rightarrow> nat \<Rightarrow> bytes option" where
  "ptrs_up p 0 indx = Some p"
| "ptrs_up p (Suc i) indx =
     (if indx < Suc i
      then do { w \<leftarrow> raw_ptr p i; p1 \<leftarrow> store16 p (PAGEHDRSZ + 2 * Suc i) w; ptrs_up p1 i indx }
      else Some p)"

text \<open>The data of a leaf node; with the data on an overflow page the node has its number.\<close>

definition write_data :: "bytes \<Rightarrow> nat \<Rightarrow> mdb_val \<Rightarrow> 32 word \<Rightarrow> mdb_id option \<Rightarrow> bytes option" where
  "write_data p ndata data flags ofp =
     (case ofp of
        None \<Rightarrow>
          if F_ISSET flags F_BIGDATA then do { d \<leftarrow> load_bytes (mv_data data) 0 8; store_bytes p ndata d }
          else if F_ISSET flags MDB_RESERVE then Some p
          else do { d \<leftarrow> load_bytes (mv_data data) 0 (mv_size data); store_bytes p ndata d }
      | Some pgno \<Rightarrow> store64 p ndata pgno)"

definition node_write ::
  "bool \<Rightarrow> bytes \<Rightarrow> nat \<Rightarrow> mdb_val option \<Rightarrow> mdb_val option \<Rightarrow> mdb_id \<Rightarrow> 32 word \<Rightarrow> mdb_id option \<Rightarrow> bytes option" where
  "node_write leaf p node key data pgno flags ofp =
     do {
       p1 \<leftarrow> store16 p (node + 6) (case key of None \<Rightarrow> 0 | Some k \<Rightarrow> of_nat (mv_size k));
       p2 \<leftarrow> store16 p1 (node + 4) (ucast flags);
       p3 \<leftarrow> (if leaf then do { d \<leftarrow> data; SETDSZ p2 node (mv_size d) } else SETPGNO p2 node pgno);
       p4 \<leftarrow> (case key of None \<Rightarrow> Some p3
                | Some k \<Rightarrow> do { xs \<leftarrow> load_bytes (mv_data k) 0 (mv_size k); store_bytes p3 (node + NODESIZE) xs });
       if leaf then do { d \<leftarrow> data; k \<leftarrow> node_ksize p4 node; write_data p4 (node + NODESIZE + k) d flags ofp }
       else Some p4
     }"

text \<open>
  From \<open>update\<close> on: the pointers above \<open>indx\<close> move up, the free space shrinks by the node and
  its pointer, and the node is written. The assertion is the code's.
\<close>

definition node_update ::
  "bool \<Rightarrow> bytes \<Rightarrow> nat \<Rightarrow> nat \<Rightarrow> mdb_val option \<Rightarrow> mdb_val option \<Rightarrow> mdb_id \<Rightarrow> 32 word \<Rightarrow> mdb_id option \<Rightarrow> bytes option" where
  "node_update leaf mp indx node_size key data pgno flags ofp =
     do {
       n \<leftarrow> raw_numkeys mp;
       lower \<leftarrow> raw_lower mp;
       upper \<leftarrow> raw_upper mp;
       p1 \<leftarrow> ptrs_up mp n indx;
       let ofs = upper - of_nat node_size;
       if unat ofs < unat lower + 2 then None
       else do {
         p2 \<leftarrow> store16 p1 (PAGEHDRSZ + 2 * indx) ofs;
         p3 \<leftarrow> store16 p2 14 ofs;
         p4 \<leftarrow> store16 p3 12 (lower + 2);
         node_write leaf p4 (unat ofs) key data pgno flags ofp
       }
     }"

text \<open>A page of keys of one size, without node headers.\<close>

definition leaf2_add :: "bytes \<Rightarrow> nat \<Rightarrow> nat \<Rightarrow> mdb_val \<Rightarrow> bytes option" where
  "leaf2_add p ksize indx key =
     do {
       n \<leftarrow> raw_numkeys p;
       let ptr = PAGEHDRSZ + indx * ksize;
       p1 \<leftarrow> (if indx < n then memmove p (ptr + ksize) ptr ((n - indx) * ksize) else Some p);
       xs \<leftarrow> load_bytes (mv_data key) 0 ksize;
       p2 \<leftarrow> store_bytes p1 ptr xs;
       lower \<leftarrow> raw_lower p2;
       upper \<leftarrow> raw_upper p2;
       p3 \<leftarrow> store16 p2 12 (lower + 2);
       store16 p3 14 (upper - (of_nat ksize - 2))
     }"

text \<open>
  The result: the code, the page, whether the transaction is put in error, and the number and
  content of a new overflow page. \<open>md_pad\<close> is the size of a key on a page of keys of one size.
\<close>

record node_added =
  na_rc :: int
  na_page :: bytes
  na_txn_error :: bool
  na_overflow :: "(mdb_id \<times> mdb_val) option"

definition mdb_node_add ::
  "nat \<Rightarrow> nat \<Rightarrow> nat \<Rightarrow> (nat \<Rightarrow> int + mdb_id) \<Rightarrow> bytes \<Rightarrow> nat
     \<Rightarrow> mdb_val option \<Rightarrow> mdb_val option \<Rightarrow> mdb_id \<Rightarrow> 32 word \<Rightarrow> node_added option" where
  "mdb_node_add nodemax psize md_pad page_new mp indx key data pgno flags =
     do {
       lower \<leftarrow> raw_lower mp;
       upper \<leftarrow> raw_upper mp;
       mflags \<leftarrow> raw_flags mp;
       if upper < lower then None
       else if F_ISSET mflags FLAG_LEAF2
       then do {
         k \<leftarrow> key;
         p \<leftarrow> leaf2_add mp md_pad indx k;
         Some \<lparr>na_rc = MDB_SUCCESS, na_page = p, na_txn_error = False, na_overflow = None\<rparr>
       }
       else do {
         left \<leftarrow> SIZELEFT mp;
         let leaf = F_ISSET mflags FLAG_LEAF;
         plan \<leftarrow> node_room_for nodemax psize page_new leaf (int (unat left) - 2) key data flags;
         case plan of
           Full \<Rightarrow> Some \<lparr>na_rc = MDB_PAGE_FULL, na_page = mp, na_txn_error = True, na_overflow = None\<rparr>
         | Failed rc \<Rightarrow> Some \<lparr>na_rc = rc, na_page = mp, na_txn_error = False, na_overflow = None\<rparr>
         | Room node_size flags ofp \<Rightarrow>
             do {
               p \<leftarrow> node_update leaf mp indx node_size key data pgno flags ofp;
               Some \<lparr>na_rc = MDB_SUCCESS, na_page = p, na_txn_error = False,
                 na_overflow = (case (ofp, data) of (Some pg, Some d) \<Rightarrow> Some (pg, d) | _ \<Rightarrow> None)\<rparr>
             }
       }
     }"

section \<open>Deleting a node\<close>

text \<open>The loop that closes the gap in the pointers and corrects those of the nodes to be moved.\<close>

fun ptrs_down :: "bytes \<Rightarrow> nat \<Rightarrow> nat \<Rightarrow> nat \<Rightarrow> nat \<Rightarrow> 16 word \<Rightarrow> 16 word \<Rightarrow> bytes option" where
  "ptrs_down p 0 i j indx ptr sz = Some p"
| "ptrs_down p (Suc k) i j indx ptr sz =
     (if i = indx then ptrs_down p k (i + 1) j indx ptr sz
      else do {
        w \<leftarrow> raw_ptr p i;
        p1 \<leftarrow> store16 p (PAGEHDRSZ + 2 * j) w;
        w1 \<leftarrow> raw_ptr p1 i;
        p2 \<leftarrow> (if w1 < ptr then do { v \<leftarrow> raw_ptr p1 j; store16 p1 (PAGEHDRSZ + 2 * j) (v + sz) } else Some p1);
        ptrs_down p2 k (i + 1) (j + 1) indx ptr sz
      })"

definition leaf2_del :: "bytes \<Rightarrow> nat \<Rightarrow> nat \<Rightarrow> bytes option" where
  "leaf2_del p ksize indx =
     do {
       n \<leftarrow> raw_numkeys p;
       let x = n - 1 - indx;
       let base = PAGEHDRSZ + indx * ksize;
       p1 \<leftarrow> (if x \<noteq> 0 then memmove p base (base + ksize) (x * ksize) else Some p);
       lower \<leftarrow> raw_lower p1;
       upper \<leftarrow> raw_upper p1;
       p2 \<leftarrow> store16 p1 12 (lower - 2);
       store16 p2 14 (upper + (of_nat ksize - 2))
     }"

definition mdb_node_del :: "bytes \<Rightarrow> nat \<Rightarrow> nat \<Rightarrow> bytes option" where
  "mdb_node_del mp indx ksize =
     do {
       numkeys \<leftarrow> raw_numkeys mp;
       mflags \<leftarrow> raw_flags mp;
       if numkeys \<le> indx then None
       else if F_ISSET mflags FLAG_LEAF2 then leaf2_del mp ksize indx
       else do {
         ptr \<leftarrow> raw_ptr mp indx;
         sz \<leftarrow> raw_node_size (F_ISSET mflags FLAG_LEAF) mp (unat ptr);
         p1 \<leftarrow> ptrs_down mp numkeys 0 0 indx ptr (of_nat sz);
         upper \<leftarrow> raw_upper p1;
         p2 \<leftarrow> (if ptr < upper then None else memmove p1 (unat upper + sz) (unat upper) (unat ptr - unat upper));
         lower \<leftarrow> raw_lower p2;
         p3 \<leftarrow> store16 p2 12 (lower - 2);
         store16 p3 14 (upper + of_nat sz)
       }
     }"

section \<open>Replacing a key\<close>

text \<open>
  When the page has no room for the longer key, the node is deleted and \<open>mdb_page_split\<close> is
  called with its page number.
\<close>

datatype key_update = Key_written bytes | Key_split bytes mdb_id

fun ptrs_shift :: "bytes \<Rightarrow> nat \<Rightarrow> nat \<Rightarrow> 16 word \<Rightarrow> int \<Rightarrow> bytes option" where
  "ptrs_shift p 0 i ptr delta = Some p"
| "ptrs_shift p (Suc k) i ptr delta =
     do {
       w \<leftarrow> raw_ptr p i;
       p1 \<leftarrow> (if w \<le> ptr then store16 p (PAGEHDRSZ + 2 * i) (w - of_int delta) else Some p);
       ptrs_shift p1 k (i + 1) ptr delta
     }"

definition write_key :: "bytes \<Rightarrow> nat \<Rightarrow> mdb_val \<Rightarrow> bytes option" where
  "write_key p node key =
     do {
       k \<leftarrow> node_ksize p node;
       p1 \<leftarrow> (if k \<noteq> mv_size key then store16 p (node + 6) (of_nat (mv_size key)) else Some p);
       if mv_size key = 0 then Some p1
       else do { xs \<leftarrow> load_bytes (mv_data key) 0 (mv_size key); store_bytes p1 (node + NODESIZE) xs }
     }"

definition mdb_update_key :: "bytes \<Rightarrow> nat \<Rightarrow> mdb_val \<Rightarrow> key_update option" where
  "mdb_update_key mp indx key =
     do {
       ptr \<leftarrow> raw_ptr mp indx;
       k \<leftarrow> node_ksize mp (unat ptr);
       left \<leftarrow> SIZELEFT mp;
       let delta = int (EVEN (mv_size key)) - int (EVEN k);
       if delta \<noteq> 0 then
         if 0 < delta \<and> int (unat left) < delta then
           do {
             pgno \<leftarrow> raw_pgno mp (unat ptr);
             p \<leftarrow> mdb_node_del mp indx 0;
             Some (Key_split p pgno)
           }
         else do {
           numkeys \<leftarrow> raw_numkeys mp;
           p1 \<leftarrow> ptrs_shift mp numkeys 0 ptr delta;
           upper \<leftarrow> raw_upper p1;
           p2 \<leftarrow> (if ptr < upper \<or> int (unat upper) < delta then None
                 else memmove p1 (nat (int (unat upper) - delta)) (unat upper) (unat ptr - unat upper + NODESIZE));
           p3 \<leftarrow> store16 p2 14 (upper - of_int delta);
           ptr1 \<leftarrow> raw_ptr p3 indx;
           map_option Key_written (write_key p3 (unat ptr1) key)
         }
       else map_option Key_written (write_key mp (unat ptr) key)
     }"

end
