(* ===== verification/Lmdb_Node_Props.thy ===== *)
theory Lmdb_Node_Props
  imports Lmdb_Node
begin

text \<open>
  The layout invariant of a page: the nodes tile the bytes from \<open>mp_upper\<close> to the end without
  overlap, the pointers name them, and the free space lies between. Adding and deleting a node
  keep it, and on the list of nodes they insert and remove one.
\<close>

section \<open>Numbers in bytes\<close>

lemma unat_small: "n < 2 ^ 16 \<Longrightarrow> unat (of_nat n :: 16 word) = n"
  by (simp add: unsigned_of_nat take_bit_nat_eq_self)

lemma split_32: "ucast (ucast w :: 16 word) OR push_bit 16 (ucast (ucast (drop_bit 16 w) :: 16 word)) = (w :: 32 word)"
  by (rule bit_word_eqI) (auto simp: bit_simps)

lemma split_48:
  assumes "unat w < 2 ^ 48"
  shows "ucast (ucast w :: 16 word) OR push_bit 16 (ucast (ucast (drop_bit 16 w) :: 16 word))
    OR push_bit 32 (ucast (ucast (drop_bit 32 w) :: 16 word)) = (w :: 64 word)"
proof -
  have w: "take_bit 48 w = w" using assms by (simp add: word_unat_eq_iff unsigned_take_bit_eq take_bit_nat_eq_self)
  have "ucast (ucast w :: 16 word) OR push_bit 16 (ucast (ucast (drop_bit 16 w) :: 16 word))
    OR push_bit 32 (ucast (ucast (drop_bit 32 w) :: 16 word)) = take_bit 48 w"
  proof (rule bit_word_eqI)
    fix n assume "n < LENGTH(64)"
    then show "bit (ucast (ucast w :: 16 word) OR push_bit 16 (ucast (ucast (drop_bit 16 w) :: 16 word))
        OR push_bit 32 (ucast (ucast (drop_bit 32 w) :: 16 word)) :: 64 word) n = bit (take_bit 48 w) n"
      by (cases "n < 16"; cases "n < 32") (auto simp: bit_simps)
  qed
  then show ?thesis unfolding w .
qed

lemma big_flag: "F_ISSET (ucast (ucast (w :: 32 word) :: 16 word)) F_BIGDATA = F_ISSET w F_BIGDATA"
proof -
  have "F_ISSET v 0x01 = bit v 0" for v :: "32 word"
    by (simp add: F_ISSET_def and_one_eq mod_2_eq_odd bit_0)
  then show ?thesis by (simp add: F_BIGDATA_def bit_simps)
qed

lemma EVEN_le: "n \<le> EVEN n" "EVEN n \<le> n + 1" "even (EVEN n)"
  by (simp_all add: EVEN_def)

section \<open>Nodes depend on their bytes only\<close>

lemma load16_part:
  assumes "load_bytes p o1 n = load_bytes p' o2 n" and "o1 + n \<le> length p" and "t + 2 \<le> n"
  shows "load16 p (o1 + t) = load16 p' (o2 + t)"
  using load_bytes_cong [OF assms] by (rule load16_cong)

lemma raw_node_size_ge: "raw_node_size leaf p o1 = Some s \<Longrightarrow> NODESIZE \<le> s"
  by (auto simp: raw_node_size_def bind_eq_Some_conv intro: order_trans [OF _ EVEN_le(1)])

lemma raw_node_size_cong:
  assumes "raw_node_size leaf p o1 = Some s" and "o1 + s \<le> length p" and "load_bytes p' o2 s = load_bytes p o1 s"
  shows "raw_node_size leaf p' o2 = Some s"
proof -
  have s: "8 \<le> s" using raw_node_size_ge [OF assms(1)] by (simp add: NODESIZE_def)
  have "load16 p' (o2 + t) = load16 p (o1 + t)" if "t \<in> {0, 2, 4, 6}" for t
    using load16_part [OF assms(3) [symmetric] assms(2), of t] that s by auto
  from this [of 0] this [of 2] this [of 4] this [of 6]
  have "node_ksize p' o2 = node_ksize p o1" "node_big p' o2 = node_big p o1" "NODEDSZ p' o2 = NODEDSZ p o1"
    by (simp_all add: node_ksize_def node_big_def node_flags_def NODEDSZ_def)
  with assms(1) show ?thesis by (simp add: raw_node_size_def node_payload_def cong: if_cong)
qed

lemma raw_node_cong:
  assumes "raw_node_size leaf p o1 = Some s" and "o1 + s \<le> length p" and "load_bytes p' o2 s = load_bytes p o1 s"
  shows "raw_node leaf p' o2 = raw_node leaf p o1"
proof -
  obtain k d where kd: "node_ksize p o1 = Some k" "node_payload leaf p o1 = Some d" "s = EVEN (NODESIZE + k + d)"
    using assms(1) by (auto simp: raw_node_size_def bind_eq_Some_conv)
  have s: "NODESIZE + k + d \<le> s" unfolding kd(3) by (rule EVEN_le)
  have h: "load16 p' (o2 + t) = load16 p (o1 + t)" if "t \<in> {0, 2, 4, 6}" for t
    using load16_part [OF assms(3) [symmetric] assms(2), of t] that s by (auto simp: NODESIZE_def)
  have same: "node_ksize p' o2 = Some k" "node_big p' o2 = node_big p o1" "NODEDSZ p' o2 = NODEDSZ p o1" "raw_pgno p' o2 = raw_pgno p o1"
    using h [of 0] h [of 2] h [of 4] h [of 6] kd(1)
    by (simp_all add: node_ksize_def node_big_def node_flags_def NODEDSZ_def raw_pgno_def)
  have part: "load_bytes p' (o2 + t) m = load_bytes p (o1 + t) m" if "t + m \<le> s" for t m
    using load_bytes_cong [OF assms(3) [symmetric] assms(2) that] by simp
  have key: "load_bytes p' (o2 + NODESIZE) k = load_bytes p (o1 + NODESIZE) k" using s by (intro part) simp
  show ?thesis
  proof (cases leaf)
    case True
    then obtain big n where bn: "node_big p o1 = Some big" "big \<Longrightarrow> d = 8" "\<not> big \<Longrightarrow> NODEDSZ p o1 = Some d"
      using kd(2) by (auto simp: node_payload_def bind_eq_Some_conv split: if_splits)
    have data: "load_bytes p' (o2 + (NODESIZE + k)) d = load_bytes p (o1 + (NODESIZE + k)) d" using s by (intro part) simp
    show ?thesis
    proof (cases big)
      case True
      with data bn(2) have "load64 p' (o2 + NODESIZE + k) = load64 p (o1 + NODESIZE + k)"
        by (intro load64_cong) (simp add: add.assoc)
      with True bn same key kd(1) \<open>leaf\<close> show ?thesis by (simp add: raw_node_def)
    next
      case False
      with bn same key kd(1) \<open>leaf\<close> data show ?thesis by (simp add: raw_node_def add.assoc)
    qed
  next
    case False
    with same key kd(1) show ?thesis by (simp add: raw_node_def)
  qed
qed

section \<open>Moving the pointers up\<close>

lemma raw_ptr_apart: "store16 p (PAGEHDRSZ + 2 * i) w = Some p' \<Longrightarrow> raw_ptr p' j = (if j = i then Some w else raw_ptr p j)"
proof (cases "j = i")
  case False
  assume s: "store16 p (PAGEHDRSZ + 2 * i) w = Some p'"
  from False have "PAGEHDRSZ + 2 * j + 2 \<le> PAGEHDRSZ + 2 * i \<or> PAGEHDRSZ + 2 * i + 2 \<le> PAGEHDRSZ + 2 * j" by linarith
  with False load16_apart [OF s] show ?thesis by (simp add: raw_ptr_def)
qed (simp add: raw_ptr_def load16_store16)

lemma ptrs_up_result:
  assumes "PAGEHDRSZ + 2 * (n + 1) \<le> length p"
  shows "\<exists>p1. ptrs_up p n indx = Some p1 \<and> length p1 = length p
    \<and> (\<forall>j. raw_ptr p1 j = (if indx < j \<and> j \<le> n then raw_ptr p (j - 1) else raw_ptr p j))
    \<and> (\<forall>ofs m. ofs + m \<le> PAGEHDRSZ \<or> PAGEHDRSZ + 2 * (n + 1) \<le> ofs \<longrightarrow> load_bytes p1 ofs m = load_bytes p ofs m)"
  using assms
proof (induction p n indx rule: ptrs_up.induct)
  case (2 p i indx)
  show ?case
  proof (cases "indx < Suc i")
    case True
    obtain w where w: "raw_ptr p i = Some w" using 2(2) load16_ex unfolding raw_ptr_def by force
    obtain p1 where p1: "store16 p (PAGEHDRSZ + 2 * Suc i) w = Some p1" using 2(2) store16_ex by force
    have len: "length p1 = length p" using p1 by (rule store16_length)
    obtain p2 where p2: "ptrs_up p1 i indx = Some p2" "length p2 = length p1"
      "\<forall>j. raw_ptr p2 j = (if indx < j \<and> j \<le> i then raw_ptr p1 (j - 1) else raw_ptr p1 j)"
      "\<forall>ofs m. ofs + m \<le> PAGEHDRSZ \<or> PAGEHDRSZ + 2 * (i + 1) \<le> ofs \<longrightarrow> load_bytes p2 ofs m = load_bytes p1 ofs m"
      using 2(1) [OF True w p1] 2(2) len by auto
    have ptr: "raw_ptr p1 j = (if j = Suc i then raw_ptr p i else raw_ptr p j)" for j
      using raw_ptr_apart [OF p1] w by simp
    have "raw_ptr p2 j = (if indx < j \<and> j \<le> Suc i then raw_ptr p (j - 1) else raw_ptr p j)" for j
      using p2(3) ptr True by (cases "j = Suc i") auto
    moreover have "load_bytes p2 ofs m = load_bytes p ofs m"
      if "ofs + m \<le> PAGEHDRSZ \<or> PAGEHDRSZ + 2 * (Suc i + 1) \<le> ofs" for ofs m
      using p2(4) store16_apart [OF p1, of ofs m] that by auto
    ultimately show ?thesis using True w p1 p2(1,2) len by auto
  next
    case False
    then show ?thesis by auto
  qed
qed auto


section \<open>Writing a node\<close>

text \<open>Nothing but the bytes from \<open>a\<close> to before \<open>c\<close> has changed.\<close>

definition changed_within :: "nat \<Rightarrow> nat \<Rightarrow> bytes \<Rightarrow> bytes \<Rightarrow> bool" where
  "changed_within a c p p' = (length p' = length p \<and>
     (\<forall>ofs m. ofs + m \<le> a \<or> c \<le> ofs \<longrightarrow> load_bytes p' ofs m = load_bytes p ofs m))"

lemma changed_within_refl [simp]: "changed_within a c p p"
  by (simp add: changed_within_def)

lemma changed_within_trans:
  "changed_within a c p p1 \<Longrightarrow> changed_within a' c' p1 p2 \<Longrightarrow> A \<le> a \<Longrightarrow> A \<le> a' \<Longrightarrow> c \<le> C \<Longrightarrow> c' \<le> C
     \<Longrightarrow> changed_within A C p p2"
  by (auto simp: changed_within_def)

lemma changed_load16: "changed_within a c p p' \<Longrightarrow> ofs + 2 \<le> a \<or> c \<le> ofs \<Longrightarrow> load16 p' ofs = load16 p ofs"
  by (auto simp: changed_within_def intro!: load16_cong)

lemma changed_bytes: "changed_within a c p p' \<Longrightarrow> ofs + m \<le> a \<or> c \<le> ofs \<Longrightarrow> load_bytes p' ofs m = load_bytes p ofs m"
  by (auto simp: changed_within_def)

lemma changed_length: "changed_within a c p p' \<Longrightarrow> length p' = length p"
  by (simp add: changed_within_def)

lemma store16_changed: "store16 p ofs w = Some p' \<Longrightarrow> changed_within ofs (ofs + 2) p p'"
  using store16_apart store16_length by (auto simp: changed_within_def)

lemma store_bytes_changed: "store_bytes p ofs xs = Some p' \<Longrightarrow> changed_within ofs (ofs + length xs) p p'"
  using load_store_apart store_bytes_length by (auto simp: changed_within_def)

lemma SETDSZ_result:
  assumes "node + 4 \<le> length p" and "n < 2 ^ 32"
  shows "\<exists>p'. SETDSZ p node n = Some p' \<and> changed_within node (node + 4) p p' \<and> NODEDSZ p' node = Some n"
proof -
  let ?w = "of_nat n :: 32 word"
  obtain p1 where p1: "store16 p node (of_nat n) = Some p1" using assms(1) store16_ex by force
  obtain p2 where p2: "store16 p1 (node + 2) (of_nat (n div 2 ^ 16)) = Some p2"
    using assms(1) store16_length [OF p1] store16_ex by force
  have n: "unat ?w = n" using assms(2) by (simp add: unsigned_of_nat take_bit_nat_eq_self)
  have "(of_nat n :: 16 word) = ucast ?w"
    by (simp add: word_unat_eq_iff unsigned_ucast_eq unsigned_of_nat)
  moreover have "(of_nat (n div 2 ^ 16) :: 16 word) = ucast (drop_bit 16 ?w)"
  proof -
    have "unat (drop_bit 16 ?w) = drop_bit 16 n" unfolding unat_drop_bit_eq n ..
    then have "n div 2 ^ 16 = unat (drop_bit 16 ?w)" by (simp only: drop_bit_eq_div)
    then show ?thesis by (simp only: of_nat_unat)
  qed
  moreover have "load16 p2 node = Some (of_nat n)"
    using load16_store16 [OF p1] changed_load16 [OF store16_changed [OF p2], of node] by simp
  ultimately have "NODEDSZ p2 node = Some (unat ?w)"
    using load16_store16 [OF p2] split_32 [of ?w] by (simp add: NODEDSZ_def)
  moreover have "changed_within node (node + 4) p p2"
    by (rule changed_within_trans [OF store16_changed [OF p1] store16_changed [OF p2]]) simp_all
  ultimately show ?thesis using p1 p2 n by (simp add: SETDSZ_def)
qed

lemma SETPGNO_result:
  assumes "node + 6 \<le> length p" and "unat pgno < 2 ^ 48"
  shows "\<exists>p'. SETPGNO p node pgno = Some p' \<and> changed_within node (node + 6) p p' \<and> raw_pgno p' node = Some pgno"
proof -
  obtain p1 where p1: "store16 p node (ucast pgno) = Some p1" using assms(1) store16_ex by force
  obtain p2 where p2: "store16 p1 (node + 2) (ucast (drop_bit 16 pgno)) = Some p2"
    using assms(1) store16_length [OF p1] store16_ex by force
  obtain p3 where p3: "store16 p2 (node + 4) (ucast (drop_bit 32 pgno)) = Some p3"
    using assms(1) store16_length [OF p1] store16_length [OF p2] store16_ex by force
  note c2 = store16_changed [OF p2] and c3 = store16_changed [OF p3]
  have "load16 p3 node = Some (ucast pgno)" "load16 p3 (node + 2) = Some (ucast (drop_bit 16 pgno))"
    using load16_store16 [OF p1] load16_store16 [OF p2] changed_load16 [OF c2, of node]
      changed_load16 [OF c3, of node] changed_load16 [OF c3, of "node + 2"] by simp_all
  then have "raw_pgno p3 node = Some pgno"
    using load16_store16 [OF p3] split_48 [OF assms(2)] by (simp add: raw_pgno_def)
  moreover have "changed_within node (node + 6) p p3"
    by (rule changed_within_trans [OF changed_within_trans [OF store16_changed [OF p1] c2, of node "node + 4"] c3]) simp_all
  ultimately show ?thesis using p1 p2 p3 by (simp add: SETPGNO_def)
qed

text \<open>The node the arguments of \<open>mdb_node_add\<close> describe, and the sizes of its parts.\<close>

definition val_bytes :: "mdb_val \<Rightarrow> string" where
  "val_bytes v = take (mv_size v) (mv_data v)"

definition key_bytes :: "mdb_val option \<Rightarrow> string" where
  "key_bytes key = (case key of None \<Rightarrow> [] | Some k \<Rightarrow> val_bytes k)"

definition new_node :: "bool \<Rightarrow> mdb_val option \<Rightarrow> mdb_val option \<Rightarrow> mdb_id \<Rightarrow> 32 word \<Rightarrow> mdb_id option \<Rightarrow> mdb_node" where
  "new_node leaf key data pgno flags ofp =
     (if leaf then
        (case (ofp, data) of
           (Some pg, Some d) \<Rightarrow> Big_node (key_bytes key) (mv_size d) pg
         | (None, Some d) \<Rightarrow>
             if F_ISSET flags F_BIGDATA then Big_node (key_bytes key) (mv_size d) (of_nat (le_value (take 8 (mv_data d))))
             else Leaf_node (key_bytes key) (val_bytes d)
         | _ \<Rightarrow> Leaf_node (key_bytes key) [])
      else Branch_node (key_bytes key) pgno)"

definition new_payload :: "bool \<Rightarrow> mdb_val option \<Rightarrow> 32 word \<Rightarrow> nat" where
  "new_payload leaf data flags =
     (if leaf then if F_ISSET flags F_BIGDATA then 8 else (case data of None \<Rightarrow> 0 | Some d \<Rightarrow> mv_size d) else 0)"

text \<open>What the arguments have to be: values in memory, of sizes the fields of a node can hold.\<close>

definition key_ok :: "mdb_val option \<Rightarrow> bool" where
  "key_ok key = (case key of None \<Rightarrow> True | Some k \<Rightarrow> mv_size k \<le> length (mv_data k) \<and> mv_size k < 2 ^ 16)"

definition data_ok :: "mdb_val \<Rightarrow> 32 word \<Rightarrow> mdb_id option \<Rightarrow> bool" where
  "data_ok d flags ofp =
     (mv_size d < 2 ^ 32 \<and> \<not> F_ISSET flags MDB_RESERVE \<and>
      (case ofp of None \<Rightarrow> (if F_ISSET flags F_BIGDATA then 8 else mv_size d) \<le> length (mv_data d)
       | Some pg \<Rightarrow> F_ISSET flags F_BIGDATA))"

lemma le_value_64: "(of_nat (le_value (le_chars 8 (unat (w :: 64 word)))) :: 64 word) = w"
proof -
  have "unat w < 256 ^ 8" using unsigned_less [of w] by simp
  then show ?thesis by (simp add: le_value_chars)
qed

lemma write_data_result:
  assumes "data_ok d flags ofp" and "ndata + new_payload True (Some d) flags \<le> length p"
  shows "\<exists>p'. write_data p ndata d flags ofp = Some p'
    \<and> changed_within ndata (ndata + new_payload True (Some d) flags) p p'
    \<and> (if F_ISSET flags F_BIGDATA
       then load64 p' ndata = Some (case ofp of Some pg \<Rightarrow> pg | None \<Rightarrow> of_nat (le_value (take 8 (mv_data d))))
       else load_bytes p' ndata (mv_size d) = Some (val_bytes d))"
proof (cases ofp)
  case None
  define n where "n = new_payload True (Some d) flags"
  have n: "n = (if F_ISSET flags F_BIGDATA then 8 else mv_size d)" by (simp add: n_def new_payload_def)
  have len: "n \<le> length (mv_data d)" using assms(1) None n by (simp add: data_ok_def)
  obtain p' where p': "store_bytes p ndata (take n (mv_data d)) = Some p'"
    using assms(2) len store_bytes_ex [of ndata "take n (mv_data d)" p] by (auto simp flip: n_def)
  have "write_data p ndata d flags ofp = Some p'"
    using None p' n len assms(1)
    by (cases "F_ISSET flags F_BIGDATA") (simp_all add: write_data_def load_bytes_def data_ok_def)
  moreover have "changed_within ndata (ndata + n) p p'" using store_bytes_changed [OF p'] len by simp
  moreover have "load_bytes p' ndata n = Some (take n (mv_data d))" using load_store_same [OF p'] len by simp
  ultimately show ?thesis using None n unfolding n_def [symmetric] by (auto simp: load64_def val_bytes_def)
next
  case (Some pg)
  then have big: "F_ISSET flags F_BIGDATA" using assms(1) by (simp add: data_ok_def)
  obtain p' where p': "store64 p ndata pg = Some p'"
    using assms(2) big store_bytes_ex [of ndata "le_chars 8 (unat pg)" p] by (auto simp: store64_def new_payload_def)
  have "load64 p' ndata = Some pg"
    using load_store_same [OF p' [unfolded store64_def]] by (simp add: load64_def le_value_64)
  moreover have "changed_within ndata (ndata + 8) p p'" using store_bytes_changed [OF p' [unfolded store64_def]] by simp
  ultimately show ?thesis using Some p' big by (simp add: write_data_def new_payload_def)
qed


lemma changed_NODEDSZ: "changed_within a c p p' \<Longrightarrow> ofs + 4 \<le> a \<Longrightarrow> NODEDSZ p' ofs = NODEDSZ p ofs"
  using changed_load16 [of a c p p' ofs] changed_load16 [of a c p p' "ofs + 2"] by (simp add: NODEDSZ_def)

lemma changed_pgno: "changed_within a c p p' \<Longrightarrow> ofs + 6 \<le> a \<Longrightarrow> raw_pgno p' ofs = raw_pgno p ofs"
  using changed_load16 [of a c p p' ofs] changed_load16 [of a c p p' "ofs + 2"] changed_load16 [of a c p p' "ofs + 4"]
  by (simp add: raw_pgno_def)

lemma write_key_bytes:
  assumes "key_ok key" and "ofs + length (key_bytes key) \<le> length p"
  shows "\<exists>p'. (case key of None \<Rightarrow> Some p
      | Some k \<Rightarrow> do { xs \<leftarrow> load_bytes (mv_data k) 0 (mv_size k); store_bytes p ofs xs }) = Some p'
    \<and> changed_within ofs (ofs + length (key_bytes key)) p p'
    \<and> load_bytes p' ofs (length (key_bytes key)) = Some (key_bytes key)"
proof (cases key)
  case None
  with assms(2) show ?thesis by (simp add: key_bytes_def load_bytes_Some)
next
  case (Some k)
  have "load_bytes (mv_data k) 0 (mv_size k) = Some (val_bytes k)"
    using assms(1) Some by (simp add: key_ok_def load_bytes_Some val_bytes_def)
  moreover obtain p' where "store_bytes p ofs (val_bytes k) = Some p'"
    using assms(2) Some store_bytes_ex by (force simp: key_bytes_def)
  ultimately show ?thesis
    using Some store_bytes_changed [of p ofs "val_bytes k" p'] load_store_same [of p ofs "val_bytes k" p']
    by (simp add: key_bytes_def)
qed

lemma key_size: "key_ok key \<Longrightarrow> length (key_bytes key) = (case key of None \<Rightarrow> 0 | Some k \<Rightarrow> mv_size k)"
  by (auto simp: key_ok_def key_bytes_def val_bytes_def split: option.splits)

lemma key_size_word:
  "key_ok key \<Longrightarrow> unat (case key of None \<Rightarrow> 0 :: 16 word | Some k \<Rightarrow> of_nat (mv_size k)) = length (key_bytes key)"
  unfolding key_size by (auto simp: key_ok_def unat_small split: option.splits)

text \<open>A node is written into the bytes its size reserves, and read back.\<close>

lemma node_write_leaf:
  assumes "key_ok (Some k)" and "data_ok d flags ofp"
    and "node + NODESIZE + mv_size k + new_payload True (Some d) flags \<le> length p"
  shows "\<exists>p'. node_write True p node (Some k) (Some d) pgno flags ofp = Some p'
    \<and> changed_within node (node + NODESIZE + mv_size k + new_payload True (Some d) flags) p p'
    \<and> raw_node_size True p' node = Some (EVEN (NODESIZE + mv_size k + new_payload True (Some d) flags))
    \<and> raw_node True p' node = Some (new_node True (Some k) (Some d) pgno flags ofp)"
proof -
  let ?k = "mv_size k" and ?n = "new_payload True (Some d) flags"
  have kb: "key_bytes (Some k) = val_bytes k" "length (val_bytes k) = ?k"
    using key_size [OF assms(1)] by (simp_all add: key_bytes_def)
  obtain p1 where p1: "store16 p (node + 6) (of_nat ?k) = Some p1" using assms(3) store16_ex by (force simp: NODESIZE_def)
  note c1 = store16_changed [OF p1] and l1 = store16_length [OF p1]
  obtain p2 where p2: "store16 p1 (node + 4) (ucast flags) = Some p2" using assms(3) l1 store16_ex by (force simp: NODESIZE_def)
  note c2 = store16_changed [OF p2] and l2 = store16_length [OF p2]
  obtain p3 where p3: "SETDSZ p2 node (mv_size d) = Some p3" "changed_within node (node + 4) p2 p3" "NODEDSZ p3 node = Some (mv_size d)"
    using SETDSZ_result [of node p2 "mv_size d"] assms(2,3) l1 l2 by (auto simp: NODESIZE_def data_ok_def)
  obtain p4 where p4: "do { xs \<leftarrow> load_bytes (mv_data k) 0 ?k; store_bytes p3 (node + NODESIZE) xs } = Some p4"
    "changed_within (node + NODESIZE) (node + NODESIZE + ?k) p3 p4" "load_bytes p4 (node + NODESIZE) ?k = Some (val_bytes k)"
    using write_key_bytes [OF assms(1), of "node + NODESIZE" p3] assms(3) l1 l2 changed_length [OF p3(2)] kb by auto
  obtain p5 where p5: "write_data p4 (node + NODESIZE + ?k) d flags ofp = Some p5"
    "changed_within (node + NODESIZE + ?k) (node + NODESIZE + ?k + ?n) p4 p5"
    "if F_ISSET flags F_BIGDATA
     then load64 p5 (node + NODESIZE + ?k) = Some (case ofp of Some pg \<Rightarrow> pg | None \<Rightarrow> of_nat (le_value (take 8 (mv_data d))))
     else load_bytes p5 (node + NODESIZE + ?k) (mv_size d) = Some (val_bytes d)"
    using write_data_result [OF assms(2), of "node + NODESIZE + ?k" p4] assms(3) l1 l2 changed_length [OF p3(2)] changed_length [OF p4(2)] by auto
  have N: "NODESIZE = 8" by (simp add: NODESIZE_def)
  have ks: "node_ksize p4 node = Some ?k"
    using load16_store16 [OF p1] changed_load16 [OF c2, of "node + 6"] changed_load16 [OF p3(2), of "node + 6"]
      changed_load16 [OF p4(2), of "node + 6"] key_size_word [OF assms(1)] kb by (simp add: node_ksize_def N)
  then have ks5: "node_ksize p5 node = Some ?k" using changed_load16 [OF p5(2), of "node + 6"] by (simp add: node_ksize_def N)
  have fl: "node_flags p5 node = Some (ucast flags)"
    using load16_store16 [OF p2] changed_load16 [OF p3(2), of "node + 4"] changed_load16 [OF p4(2), of "node + 4"]
      changed_load16 [OF p5(2), of "node + 4"] by (simp add: node_flags_def N)
  then have big: "node_big p5 node = Some (F_ISSET flags F_BIGDATA)" by (simp add: node_big_def big_flag)
  have dsz: "NODEDSZ p5 node = Some (mv_size d)"
    using p3(3) changed_NODEDSZ [OF p4(2), of node] changed_NODEDSZ [OF p5(2), of node] by (simp add: N)
  have key5: "load_bytes p5 (node + NODESIZE) ?k = Some (val_bytes k)" using p4(3) changed_bytes [OF p5(2), of "node + NODESIZE" ?k] by simp
  have "load_bytes (mv_data k) 0 ?k = Some (val_bytes k)"
    using assms(1) by (simp add: key_ok_def load_bytes_Some val_bytes_def)
  then have "node_write True p node (Some k) (Some d) pgno flags ofp = Some p5"
    using p1 p2 p3(1) p4(1) ks p5(1) by (simp add: node_write_def)
  moreover have "changed_within node (node + NODESIZE + ?k + ?n) p p5"
    by (rule changed_within_trans [OF changed_within_trans [OF changed_within_trans [OF changed_within_trans
        [OF c1 c2, of node "node + 8"] p3(2), of node "node + 8"] p4(2), of node "node + 8 + ?k"] p5(2)]) (simp_all add: N)
  moreover have "raw_node_size True p5 node = Some (EVEN (NODESIZE + ?k + ?n))"
    using ks5 big dsz by (simp add: raw_node_size_def node_payload_def new_payload_def)
  moreover have "raw_node True p5 node = Some (new_node True (Some k) (Some d) pgno flags ofp)"
    using ks5 big dsz key5 p5(3) assms(2) kb
    by (cases ofp) (auto simp: raw_node_def new_node_def data_ok_def split: if_splits)
  ultimately show ?thesis by blast
qed

lemma node_write_branch:
  assumes "key_ok key" and "unat pgno < 2 ^ 48" and "node + NODESIZE + length (key_bytes key) \<le> length p"
  shows "\<exists>p'. node_write False p node key data pgno flags ofp = Some p'
    \<and> changed_within node (node + NODESIZE + length (key_bytes key)) p p'
    \<and> raw_node_size False p' node = Some (EVEN (NODESIZE + length (key_bytes key)))
    \<and> raw_node False p' node = Some (new_node False key data pgno flags ofp)"
proof -
  let ?k = "length (key_bytes key)"
  have N: "NODESIZE = 8" by (simp add: NODESIZE_def)
  obtain p1 where p1: "store16 p (node + 6) (case key of None \<Rightarrow> 0 | Some k \<Rightarrow> of_nat (mv_size k)) = Some p1"
    using assms(3) store16_ex N by force
  note c1 = store16_changed [OF p1] and l1 = store16_length [OF p1]
  obtain p2 where p2: "store16 p1 (node + 4) (ucast flags) = Some p2" using assms(3) l1 store16_ex N by force
  note c2 = store16_changed [OF p2] and l2 = store16_length [OF p2]
  obtain p3 where p3: "SETPGNO p2 node pgno = Some p3" "changed_within node (node + 6) p2 p3" "raw_pgno p3 node = Some pgno"
    using SETPGNO_result [OF _ assms(2), of node p2] assms(3) l1 l2 N by auto
  obtain p4 where p4: "(case key of None \<Rightarrow> Some p3
      | Some k \<Rightarrow> do { xs \<leftarrow> load_bytes (mv_data k) 0 (mv_size k); store_bytes p3 (node + NODESIZE) xs }) = Some p4"
    "changed_within (node + NODESIZE) (node + NODESIZE + ?k) p3 p4" "load_bytes p4 (node + NODESIZE) ?k = Some (key_bytes key)"
    using write_key_bytes [OF assms(1), of "node + NODESIZE" p3] assms(3) l1 l2 changed_length [OF p3(2)] by auto
  have ks: "node_ksize p4 node = Some ?k"
    using load16_store16 [OF p1] changed_load16 [OF c2, of "node + 6"] changed_load16 [OF p3(2), of "node + 6"]
      changed_load16 [OF p4(2), of "node + 6"] key_size_word [OF assms(1)] by (simp add: node_ksize_def N)
  have "raw_pgno p4 node = Some pgno" using p3(3) changed_pgno [OF p4(2), of node] by (simp add: N)
  with ks p4(3) have "raw_node False p4 node = Some (new_node False key data pgno flags ofp)"
    by (simp add: raw_node_def new_node_def)
  moreover have "node_write False p node key data pgno flags ofp = Some p4"
    using p1 p2 p3(1) p4(1) by (simp add: node_write_def)
  moreover have "changed_within node (node + NODESIZE + ?k) p p4"
    by (rule changed_within_trans [OF changed_within_trans [OF changed_within_trans
        [OF c1 c2, of node "node + 8"] p3(2), of node "node + 8"] p4(2)]) (simp_all add: N)
  moreover have "raw_node_size False p4 node = Some (EVEN (NODESIZE + ?k))"
    using ks by (simp add: raw_node_size_def node_payload_def)
  ultimately show ?thesis by blast
qed

end
