(* ===== verification/Lmdb_Layout.thy ===== *)
theory Lmdb_Layout
  imports Lmdb_Node_Props
begin

text \<open>
  The invariant of a page's layout, and that adding a node and deleting one keep it: on the
  list of the page's nodes they are insertion and removal.
\<close>

section \<open>The invariant\<close>

text \<open>
  \<open>up\<close> is \<open>mp_upper\<close>, and \<open>regs\<close> has the offset and the size of each node, in the order of
  \<open>mp_ptrs\<close>: the nodes lie apart from each other behind \<open>up\<close> and fill the page to its end.
\<close>

definition apart :: "nat \<times> nat \<Rightarrow> nat \<times> nat \<Rightarrow> bool" where
  "apart r r' = (fst r + snd r \<le> fst r' \<or> fst r' + snd r' \<le> fst r)"

definition layout :: "bool \<Rightarrow> nat \<Rightarrow> bytes \<Rightarrow> nat \<Rightarrow> (nat \<times> nat) list \<Rightarrow> bool" where
  "layout leaf psize p up regs =
     (length p = psize \<and> psize \<le> 2 ^ 15 \<and> even psize \<and> even up \<and>
      (\<exists>fl. raw_flags p = Some fl \<and> F_ISSET fl FLAG_LEAF = leaf \<and> \<not> F_ISSET fl FLAG_LEAF2) \<and>
      raw_lower p = Some (of_nat (PAGEHDRSZ + 2 * length regs)) \<and> raw_upper p = Some (of_nat up) \<and>
      PAGEHDRSZ + 2 * length regs \<le> up \<and> up + sum_list (List.map snd regs) = psize \<and>
      (\<forall>i < length regs. raw_ptr p i = Some (of_nat (fst (regs ! i)))) \<and>
      (\<forall>r \<in> set regs. raw_node_size leaf p (fst r) = Some (snd r) \<and> up \<le> fst r \<and> fst r + snd r \<le> psize) \<and>
      sorted_wrt apart regs)"

lemma layoutE:
  assumes "layout leaf psize p up regs"
  obtains fl where "length p = psize" "psize \<le> 2 ^ 15" "raw_flags p = Some fl" "F_ISSET fl FLAG_LEAF = leaf"
    "\<not> F_ISSET fl FLAG_LEAF2" "raw_lower p = Some (of_nat (PAGEHDRSZ + 2 * length regs))" "raw_upper p = Some (of_nat up)"
    "PAGEHDRSZ + 2 * length regs \<le> up" "up \<le> psize" "up + sum_list (List.map snd regs) = psize" "even up" "even psize"
  using assms by (auto simp: layout_def)

lemma layout_region:
  assumes "layout leaf psize p up regs" and "r \<in> set regs"
  shows "raw_node_size leaf p (fst r) = Some (snd r)" "up \<le> fst r" "fst r + snd r \<le> psize" "fst r < 2 ^ 16"
proof -
  show r: "raw_node_size leaf p (fst r) = Some (snd r)" "up \<le> fst r" "fst r + snd r \<le> psize"
    using assms by (auto simp: layout_def)
  show "fst r < 2 ^ 16" using r(3) assms(1) by (simp add: layout_def)
qed

lemma layout_ptr: "layout leaf psize p up regs \<Longrightarrow> i < length regs \<Longrightarrow> raw_ptr p i = Some (of_nat (fst (regs ! i)))"
  by (simp add: layout_def)

lemma header_words:
  assumes "n \<le> 2 ^ 15"
  shows "unat (of_nat n :: 16 word) = n" and "unat (drop_bit 1 (ucast (of_nat (16 + 2 * k) :: 16 word) - 16 :: 32 word)) = k \<or> 2 ^ 15 < 16 + 2 * k"
proof -
  show "unat (of_nat n :: 16 word) = n" using assms by (intro unat_small) simp
  have "unat (drop_bit 1 (ucast (of_nat (16 + 2 * k) :: 16 word) - 16 :: 32 word)) = k" if "16 + 2 * k \<le> 2 ^ 15"
  proof -
    have "unat (ucast (of_nat (16 + 2 * k) :: 16 word) :: 32 word) = 16 + 2 * k"
      using that by (simp add: unsigned_ucast_eq unsigned_of_nat take_bit_nat_eq_self del: of_nat_add of_nat_mult)
    then have "(ucast (of_nat (16 + 2 * k) :: 16 word) :: 32 word) = of_nat (16 + 2 * k)"
      by (metis of_nat_unat ucast_id)
    then have w: "ucast (of_nat (16 + 2 * k) :: 16 word) - 16 = (of_nat (2 * k) :: 32 word)" by simp
    have "unat (of_nat (2 * k) :: 32 word) = 2 * k"
      using that by (simp add: unsigned_of_nat take_bit_nat_eq_self del: of_nat_mult)
    moreover have "unat (drop_bit 1 v) = unat v div 2" for v :: "32 word"
      unfolding unat_drop_bit_eq by (simp add: drop_bit_eq_div)
    ultimately show ?thesis unfolding w by simp
  qed
  then show "unat (drop_bit 1 (ucast (of_nat (16 + 2 * k) :: 16 word) - 16 :: 32 word)) = k \<or> 2 ^ 15 < 16 + 2 * k"
    by linarith
qed

lemma layout_numkeys: "layout leaf psize p up regs \<Longrightarrow> raw_numkeys p = Some (length regs)"
  using header_words(2) [of 0 "length regs"] by (elim layoutE) (auto simp: raw_numkeys_def PAGEHDRSZ_def)

lemma layout_left:
  assumes "layout leaf psize p up regs"
  shows "SIZELEFT p = Some (of_nat (up - (PAGEHDRSZ + 2 * length regs)))"
    and "unat (of_nat (up - (PAGEHDRSZ + 2 * length regs)) :: 16 word) = up - (PAGEHDRSZ + 2 * length regs)"
proof -
  from assms show "SIZELEFT p = Some (of_nat (up - (PAGEHDRSZ + 2 * length regs)))"
    by (rule layoutE) (simp only: SIZELEFT_def bind.bind_lunit of_nat_diff)
  from assms have "up \<le> 2 ^ 15" by (rule layoutE) simp
  then show "unat (of_nat (up - (PAGEHDRSZ + 2 * length regs)) :: 16 word) = up - (PAGEHDRSZ + 2 * length regs)"
    by (intro unat_small) simp
qed

text \<open>The nodes of a page, in the order of its pointers.\<close>

definition raw_nodes :: "bytes \<Rightarrow> mdb_node list option" where
  "raw_nodes p = do {
     n \<leftarrow> raw_numkeys p;
     fl \<leftarrow> raw_flags p;
     those (List.map (\<lambda>i. do { w \<leftarrow> raw_ptr p i; raw_node (F_ISSET fl FLAG_LEAF) p (unat w) }) [0..<n]) }"

lemma those_map: "(\<And>x. x \<in> set xs \<Longrightarrow> f x = Some (g x)) \<Longrightarrow> those (List.map f xs) = Some (List.map g xs)"
  by (induction xs) auto

lemma raw_node_defined:
  assumes "raw_node_size leaf p ofs = Some s" and "ofs + s \<le> length p"
  shows "\<exists>n. raw_node leaf p ofs = Some n"
proof -
  obtain k d where kd: "node_ksize p ofs = Some k" "node_payload leaf p ofs = Some d" "s = EVEN (NODESIZE + k + d)"
    using assms(1) by (auto simp: raw_node_size_def bind_eq_Some_conv)
  then have s: "ofs + NODESIZE + k + d \<le> length p" using assms(2) EVEN_le(1) [of "NODESIZE + k + d"] by simp
  have "\<exists>w. load16 p (ofs + t) = Some w" if "t \<in> {0, 2, 4}" for t
    using s that by (intro load16_ex) (auto simp: NODESIZE_def)
  from this [of 0] this [of 2] this [of 4] s kd show ?thesis
    by (auto simp: raw_node_def node_payload_def node_big_def node_flags_def NODEDSZ_def raw_pgno_def load64_def load_bytes_Some
        bind_eq_Some_conv split: if_splits)
qed

lemma layout_nodes:
  assumes "layout leaf psize p up regs"
  shows "raw_nodes p = Some (List.map (\<lambda>r. the (raw_node leaf p (fst r))) regs)"
proof -
  obtain fl where fl: "raw_flags p = Some fl" "F_ISSET fl FLAG_LEAF = leaf" "length p = psize"
    using assms by (rule layoutE)
  have "do { w \<leftarrow> raw_ptr p i; raw_node leaf p (unat w) } = Some (the (raw_node leaf p (fst (regs ! i))))"
    if "i < length regs" for i
  proof -
    have r: "regs ! i \<in> set regs" using that by simp
    note reg = layout_region [OF assms r]
    obtain n where "raw_node leaf p (fst (regs ! i)) = Some n"
      using raw_node_defined [OF reg(1)] reg(3) fl(3) by auto
    then show ?thesis using layout_ptr [OF assms that] unat_small [OF reg(4)] by simp
  qed
  then have "those (List.map (\<lambda>i. do { w \<leftarrow> raw_ptr p i; raw_node leaf p (unat w) }) [0..<length regs])
      = Some (List.map (\<lambda>i. the (raw_node leaf p (fst (regs ! i)))) [0..<length regs])"
    by (intro those_map) simp
  moreover have "List.map (\<lambda>i. the (raw_node leaf p (fst (regs ! i)))) [0..<length regs]
      = List.map (\<lambda>r. the (raw_node leaf p (fst r))) regs"
    by (rule nth_equalityI) simp_all
  ultimately show ?thesis
    unfolding raw_nodes_def layout_numkeys [OF assms] fl(1,2) bind.bind_lunit by simp
qed


section \<open>Adding a node\<close>

lemma changed_mono: "changed_within a c p p' \<Longrightarrow> a' \<le> a \<Longrightarrow> c \<le> c' \<Longrightarrow> changed_within a' c' p p'"
  by (auto simp: changed_within_def)

lemma apart_below: "ofs + s \<le> up \<Longrightarrow> up \<le> fst r \<Longrightarrow> apart (ofs, s) r \<and> apart r (ofs, s)"
  by (auto simp: apart_def)

lemma layoutI:
  assumes "length p = psize" and "psize \<le> 2 ^ 15" and "even psize" and "even up" and "raw_flags p = Some fl"
    and "F_ISSET fl FLAG_LEAF = leaf" and "\<not> F_ISSET fl FLAG_LEAF2"
    and "raw_lower p = Some (of_nat (PAGEHDRSZ + 2 * length regs))" and "raw_upper p = Some (of_nat up)"
    and "PAGEHDRSZ + 2 * length regs \<le> up" and "up + sum_list (List.map snd regs) = psize"
    and "\<And>i. i < length regs \<Longrightarrow> raw_ptr p i = Some (of_nat (fst (regs ! i)))"
    and "\<And>r. r \<in> set regs \<Longrightarrow> raw_node_size leaf p (fst r) = Some (snd r) \<and> up \<le> fst r \<and> fst r + snd r \<le> psize"
    and "sorted_wrt apart regs"
  shows "layout leaf psize p up regs"
  using assms by (simp add: layout_def)

lemma node_update_layout:
  assumes L: "layout leaf psize p up regs" and i: "i \<le> length regs" and s: "even s"
    and fits: "PAGEHDRSZ + 2 * length regs + 2 + s \<le> up"
    and W: "\<And>q. length q = psize \<Longrightarrow> \<exists>q'. node_write leaf q (up - s) key data pgno flags ofp = Some q'
      \<and> changed_within (up - s) up q q' \<and> raw_node_size leaf q' (up - s) = Some s \<and> raw_node leaf q' (up - s) = Some nn"
  shows "\<exists>p'. node_update leaf p i s key data pgno flags ofp = Some p'
    \<and> layout leaf psize p' (up - s) (take i regs @ (up - s, s) # drop i regs)
    \<and> (\<forall>r \<in> set regs. raw_node leaf p' (fst r) = raw_node leaf p (fst r)) \<and> raw_node leaf p' (up - s) = Some nn
    \<and> (\<forall>ofs m. PAGEHDRSZ + 2 * (length regs + 1) \<le> ofs \<and> ofs + m \<le> up - s \<or> ofs + m \<le> 12 \<longrightarrow>
        load_bytes p' ofs m = load_bytes p ofs m)"
proof -
  obtain fl where P: "length p = psize" "psize \<le> 2 ^ 15" "raw_flags p = Some fl" "F_ISSET fl FLAG_LEAF = leaf"
    "\<not> F_ISSET fl FLAG_LEAF2" "raw_lower p = Some (of_nat (PAGEHDRSZ + 2 * length regs))" "raw_upper p = Some (of_nat up)"
    "PAGEHDRSZ + 2 * length regs \<le> up" "up \<le> psize" "up + sum_list (List.map snd regs) = psize" "even up" "even psize"
    using L by (rule layoutE)
  let ?n = "length regs" and ?ofs = "of_nat (up - s) :: 16 word"
  have H: "PAGEHDRSZ = 16" by (simp add: PAGEHDRSZ_def)
  have ofs: "(of_nat up - of_nat s :: 16 word) = ?ofs" "unat ?ofs = up - s"
    using fits by (simp add: of_nat_diff) (rule unat_small, use P(2,9) in simp)
  have lower: "unat (of_nat (PAGEHDRSZ + 2 * ?n) :: 16 word) = PAGEHDRSZ + 2 * ?n" using P(2,8,9) by (intro unat_small) simp
  obtain p1 where p1: "ptrs_up p ?n i = Some p1" "length p1 = length p"
    "\<forall>j. raw_ptr p1 j = (if i < j \<and> j \<le> ?n then raw_ptr p (j - 1) else raw_ptr p j)"
    "\<forall>ofs m. ofs + m \<le> PAGEHDRSZ \<or> PAGEHDRSZ + 2 * (?n + 1) \<le> ofs \<longrightarrow> load_bytes p1 ofs m = load_bytes p ofs m"
    using ptrs_up_result [of ?n p i] fits P(1,9) by auto
  have c1: "changed_within PAGEHDRSZ (PAGEHDRSZ + 2 * (?n + 1)) p p1" using p1(2,4) by (auto simp: changed_within_def)
  obtain p2 where p2: "store16 p1 (PAGEHDRSZ + 2 * i) ?ofs = Some p2"
    using store16_ex [of "PAGEHDRSZ + 2 * i" p1] i fits P(1,9) p1(2) by auto
  note c2 = store16_changed [OF p2] and l2 = store16_length [OF p2]
  obtain p3 where p3: "store16 p2 14 ?ofs = Some p3" using store16_ex [of 14 p2] fits P(1,9) p1(2) l2 H by auto
  note c3 = store16_changed [OF p3] and l3 = store16_length [OF p3]
  obtain p4 where p4: "store16 p3 12 (of_nat (PAGEHDRSZ + 2 * ?n) + 2) = Some p4"
    using store16_ex [of 12 p3] fits P(1,9) p1(2) l2 l3 H by auto
  note c4 = store16_changed [OF p4] and l4 = store16_length [OF p4]
  obtain p5 where p5: "node_write leaf p4 (up - s) key data pgno flags ofp = Some p5" "changed_within (up - s) up p4 p5"
    "raw_node_size leaf p5 (up - s) = Some s" "raw_node leaf p5 (up - s) = Some nn"
    using W [of p4] l2 l3 l4 p1(2) P(1) by auto
  have len: "length p5 = psize" using changed_length [OF p5(2)] l2 l3 l4 p1(2) P(1) by simp
  have up: "PAGEHDRSZ + 2 * (?n + 1) \<le> up - s" using fits by simp
  have enough: "\<not> up - s < PAGEHDRSZ + 2 * ?n + 2" using up by simp
  have run: "node_update leaf p i s key data pgno flags ofp = Some p5"
    unfolding node_update_def layout_numkeys [OF L] P(6,7) bind.bind_lunit p1(1) Let_def ofs lower if_not_P [OF enough] p2 p3 p4
    by (rule p5(1))
  have flags: "raw_flags p5 = Some fl"
    using P(3) changed_load16 [OF c1, of 10] changed_load16 [OF c2, of 10] changed_load16 [OF c3, of 10]
      changed_load16 [OF c4, of 10] changed_load16 [OF p5(2), of 10] up H by (simp add: raw_flags_def)
  have low: "raw_lower p5 = Some (of_nat (PAGEHDRSZ + 2 * (?n + 1)))"
    using load16_store16 [OF p4] changed_load16 [OF p5(2), of 12] up H by (simp add: raw_lower_def)
  have upper: "raw_upper p5 = Some ?ofs"
    using load16_store16 [OF p3] changed_load16 [OF c4, of 14] changed_load16 [OF p5(2), of 14] up H by (simp add: raw_upper_def)
  have ptr: "raw_ptr p5 j = (if j = i then Some ?ofs else if i < j then raw_ptr p (j - 1) else raw_ptr p j)" if "j \<le> ?n" for j
  proof -
    have "raw_ptr p5 j = raw_ptr p2 j"
      using changed_load16 [OF c3, of "PAGEHDRSZ + 2 * j"] changed_load16 [OF c4, of "PAGEHDRSZ + 2 * j"]
        changed_load16 [OF p5(2), of "PAGEHDRSZ + 2 * j"] up that H by (simp add: raw_ptr_def)
    then show ?thesis using raw_ptr_apart [OF p2, of j] p1(3) that by simp
  qed
  have old: "load_bytes p5 o2 m = load_bytes p o2 m" if "up \<le> o2" for o2 m
  proof -
    have "PAGEHDRSZ + 2 * (?n + 1) \<le> o2" "PAGEHDRSZ + 2 * i + 2 \<le> o2" "14 + 2 \<le> o2" "12 + 2 \<le> o2" "up \<le> o2"
      using that up i H by simp_all
    then show ?thesis
      using changed_bytes [OF c1, of o2 m] changed_bytes [OF c2, of o2 m] changed_bytes [OF c3, of o2 m]
        changed_bytes [OF c4, of o2 m] changed_bytes [OF p5(2), of o2 m] by metis
  qed
  have head: "load_bytes p5 o2 m = load_bytes p o2 m" if "o2 + m \<le> 12" for o2 m
  proof -
    have "o2 + m \<le> PAGEHDRSZ" "o2 + m \<le> PAGEHDRSZ + 2 * i" "o2 + m \<le> 14" "o2 + m \<le> 12" "o2 + m \<le> up - s" using that up H by simp_all
    then show ?thesis
      using changed_bytes [OF c1, of o2 m] changed_bytes [OF c2, of o2 m] changed_bytes [OF c3, of o2 m]
        changed_bytes [OF c4, of o2 m] changed_bytes [OF p5(2), of o2 m] by metis
  qed
  have free: "load_bytes p5 o2 m = load_bytes p o2 m" if "PAGEHDRSZ + 2 * (?n + 1) \<le> o2" "o2 + m \<le> up - s" for o2 m
  proof -
    have "PAGEHDRSZ + 2 * i + 2 \<le> o2" "14 + 2 \<le> o2" "12 + 2 \<le> o2" using that(1) i H by simp_all
    then show ?thesis
      using that changed_bytes [OF c1, of o2 m] changed_bytes [OF c2, of o2 m] changed_bytes [OF c3, of o2 m]
        changed_bytes [OF c4, of o2 m] changed_bytes [OF p5(2), of o2 m] by metis
  qed
  note reg = layout_region [OF L]
  have kept: "raw_node_size leaf p5 (fst r) = Some (snd r)" "raw_node leaf p5 (fst r) = raw_node leaf p (fst r)" if "r \<in> set regs" for r
  proof -
    have fit: "fst r + snd r \<le> length p" using reg(3) [OF that] P(1) by simp
    have same: "load_bytes p5 (fst r) (snd r) = load_bytes p (fst r) (snd r)" using reg(2) [OF that] by (rule old)
    show "raw_node_size leaf p5 (fst r) = Some (snd r)" using reg(1) [OF that] fit same by (rule raw_node_size_cong)
    show "raw_node leaf p5 (fst r) = raw_node leaf p (fst r)" using reg(1) [OF that] fit same by (rule raw_node_cong)
  qed
  let ?regs = "take i regs @ (up - s, s) # drop i regs"
  have n': "length ?regs = ?n + 1" using i by simp
  have members: "set ?regs = insert (up - s, s) (set regs)" by (metis append_take_drop_id list.simps(15) set_append Un_insert_right)
  have "sum_list (List.map snd ?regs) = s + sum_list (List.map snd (take i regs @ drop i regs))" by (simp only: map_append sum_list_append) simp
  then have sum: "up - s + sum_list (List.map snd ?regs) = psize" using P(10) fits by simp
  have "layout leaf psize p5 (up - s) ?regs"
  proof (rule layoutI)
    show "raw_lower p5 = Some (of_nat (PAGEHDRSZ + 2 * length ?regs))" unfolding n' by (rule low)
    show "PAGEHDRSZ + 2 * length ?regs \<le> up - s" unfolding n' by (rule up)
    show "raw_ptr p5 j = Some (of_nat (fst (?regs ! j)))" if "j < length ?regs" for j
    proof -
      have "j \<le> ?n" using that n' by simp
      then show ?thesis
        using ptr [of j] layout_ptr [OF L, of j] layout_ptr [OF L, of "j - 1"] i
        by (cases j i rule: linorder_cases) (auto simp: nth_append min_def nth_Cons')
    qed
    show "raw_node_size leaf p5 (fst r) = Some (snd r) \<and> up - s \<le> fst r \<and> fst r + snd r \<le> psize" if "r \<in> set ?regs" for r
    proof (cases "r = (up - s, s)")
      case True
      then show ?thesis using p5(3) fits P(9) by simp
    next
      case False
      then have "r \<in> set regs" using that members by blast
      then show ?thesis using kept(1) reg(2,3) by fastforce
    qed
    have "sorted_wrt apart (take i regs @ drop i regs)" using L by (simp add: layout_def)
    moreover have "apart (up - s, s) r \<and> apart r (up - s, s)" if "r \<in> set regs" for r
      using reg(2) [OF that] fits by (intro apart_below [of _ _ up]) simp_all
    ultimately show "sorted_wrt apart ?regs"
      by (auto simp only: sorted_wrt_append sorted_wrt.simps list.set insert_iff dest: in_set_takeD in_set_dropD)
  qed (use len P(2,4,5,11,12) flags upper sum s fits in simp_all)
  with run kept(2) p5(4) free head show ?thesis by blast
qed


text \<open>A page in good order, and the bytes free in it.\<close>

definition page_layout :: "bool \<Rightarrow> nat \<Rightarrow> bytes \<Rightarrow> nat \<Rightarrow> bool" where
  "page_layout leaf psize p left =
     (\<exists>up regs. layout leaf psize p up regs \<and> left = up - (PAGEHDRSZ + 2 * length regs))"

text \<open>
  The new node is the one at the lower end of the nodes; the page number and the flags, and what
  lies between the pointers and it, have not changed.
\<close>

definition placed :: "bytes \<Rightarrow> bytes \<Rightarrow> nat \<Rightarrow> nat \<Rightarrow> nat \<Rightarrow> bool" where
  "placed p p' i a c =
     (raw_ptr p' i = raw_upper p'
      \<and> (\<forall>ofs m. a \<le> ofs \<and> ofs + m \<le> c \<or> ofs + m \<le> 12 \<longrightarrow> load_bytes p' ofs m = load_bytes p ofs m))"

lemma node_update_page:
  assumes L: "page_layout leaf psize p left" and ns: "raw_nodes p = Some ns" and i: "i \<le> length ns" and s: "even s"
    and fits: "2 + s \<le> left"
    and W: "\<And>q up. length q = psize \<Longrightarrow> s \<le> up \<Longrightarrow> up \<le> psize \<Longrightarrow> \<exists>q'. node_write leaf q (up - s) key data pgno flags ofp = Some q'
      \<and> changed_within (up - s) up q q' \<and> raw_node_size leaf q' (up - s) = Some s \<and> raw_node leaf q' (up - s) = Some nn"
  shows "\<exists>p'. node_update leaf p i s key data pgno flags ofp = Some p' \<and> page_layout leaf psize p' (left - (s + 2))
    \<and> raw_nodes p' = Some (take i ns @ nn # drop i ns)
    \<and> placed p p' i (PAGEHDRSZ + 2 * (length ns + 1)) (PAGEHDRSZ + 2 * length ns + left - s)"
proof -
  obtain up regs where lay: "layout leaf psize p up regs" "left = up - (PAGEHDRSZ + 2 * length regs)"
    using L by (auto simp: page_layout_def)
  have up: "PAGEHDRSZ + 2 * length regs \<le> up" "up \<le> psize" using lay(1) by (rule layoutE; simp)+
  have ns': "ns = List.map (\<lambda>r. the (raw_node leaf p (fst r))) regs" using layout_nodes [OF lay(1)] ns by simp
  have room: "PAGEHDRSZ + 2 * length regs + 2 + s \<le> up" "s \<le> up" using fits lay(2) up by linarith+
  have len: "i \<le> length regs" using i ns' by simp
  obtain p' where p': "node_update leaf p i s key data pgno flags ofp = Some p'"
    "layout leaf psize p' (up - s) (take i regs @ (up - s, s) # drop i regs)"
    "\<forall>r \<in> set regs. raw_node leaf p' (fst r) = raw_node leaf p (fst r)" "raw_node leaf p' (up - s) = Some nn"
    "\<forall>ofs m. PAGEHDRSZ + 2 * (length regs + 1) \<le> ofs \<and> ofs + m \<le> up - s \<or> ofs + m \<le> 12 \<longrightarrow>
       load_bytes p' ofs m = load_bytes p ofs m"
    using node_update_layout [OF lay(1) len s room(1) W [OF _ room(2) up(2)]] by blast
  have "raw_nodes p' = Some (List.map (\<lambda>r. the (raw_node leaf p' (fst r))) (take i regs @ (up - s, s) # drop i regs))"
    using p'(2) by (rule layout_nodes)
  also have "List.map (\<lambda>r. the (raw_node leaf p' (fst r))) (take i regs @ (up - s, s) # drop i regs) = take i ns @ nn # drop i ns"
  proof -
    have "List.map (\<lambda>r. the (raw_node leaf p' (fst r))) regs = ns"
      unfolding ns' using p'(3) by (intro map_cong) simp_all
    then show ?thesis using p'(4) by (simp flip: take_map drop_map)
  qed
  finally have "raw_nodes p' = Some (take i ns @ nn # drop i ns)" .
  moreover have "left - (s + 2) = up - s - (PAGEHDRSZ + 2 * length (take i regs @ (up - s, s) # drop i regs))"
    using lay(2) i ns' by simp
  then have "page_layout leaf psize p' (left - (s + 2))" using p'(2) unfolding page_layout_def by blast
  moreover have len: "length ns = length regs" "PAGEHDRSZ + 2 * length regs + left - s = up - s" using lay(2) up(1) ns' by simp_all
  have "(take i regs @ (up - s, s) # drop i regs) ! i = (up - s, s)" using i ns' by (simp add: nth_append)
  then have ptr: "raw_ptr p' i = Some (of_nat (up - s))" using layout_ptr [OF p'(2), of i] i ns' by simp
  have "raw_upper p' = Some (of_nat (up - s))" using p'(2) by (rule layoutE)
  with ptr have "placed p p' i (PAGEHDRSZ + 2 * (length ns + 1)) (PAGEHDRSZ + 2 * length ns + left - s)"
    unfolding placed_def len using p'(5) by simp
  ultimately show ?thesis using p'(1) by blast
qed

lemma page_layout_header:
  assumes "page_layout leaf psize p left"
  obtains lower upper fl where "raw_lower p = Some lower" "raw_upper p = Some upper" "lower \<le> upper" "raw_flags p = Some fl"
    "F_ISSET fl FLAG_LEAF = leaf" "\<not> F_ISSET fl FLAG_LEAF2" "SIZELEFT p = Some (of_nat left)" "unat (of_nat left :: 16 word) = left"
    "length p = psize" "psize \<le> 2 ^ 15"
proof -
  obtain up regs where lay: "layout leaf psize p up regs" "left = up - (PAGEHDRSZ + 2 * length regs)"
    using assms by (auto simp: page_layout_def)
  from lay(1) show ?thesis
  proof (rule layoutE)
    fix fl
    assume P: "raw_flags p = Some fl" "F_ISSET fl FLAG_LEAF = leaf" "\<not> F_ISSET fl FLAG_LEAF2"
      "raw_lower p = Some (of_nat (PAGEHDRSZ + 2 * length regs))" "raw_upper p = Some (of_nat up)"
      "PAGEHDRSZ + 2 * length regs \<le> up" "up \<le> psize" "psize \<le> 2 ^ 15" "length p = psize"
    have "(of_nat (PAGEHDRSZ + 2 * length regs) :: 16 word) \<le> of_nat up"
      unfolding word_le_nat_alt using P(6-8) by (subst (1 2) unat_small) simp_all
    then show ?thesis
      using that [OF P(4,5) _ P(1-3)] layout_left [OF lay(1)] lay(2) P(8,9) by blast
  qed
qed

lemma EVEN_add_2: "EVEN (n + 2) = EVEN n + 2"
  by (simp add: EVEN_def)

lemma reserve_flag: "F_ISSET (w OR F_BIGDATA) MDB_RESERVE = F_ISSET w MDB_RESERVE" "F_ISSET (w OR F_BIGDATA) F_BIGDATA"
proof -
  have "F_BIGDATA AND MDB_RESERVE = 0" by (simp add: F_BIGDATA_def MDB_RESERVE_def)
  then have "(w OR F_BIGDATA) AND MDB_RESERVE = w AND MDB_RESERVE" by (simp add: word_ao_dist)
  then show "F_ISSET (w OR F_BIGDATA) MDB_RESERVE = F_ISSET w MDB_RESERVE" by (simp add: F_ISSET_def)
  show "F_ISSET (w OR F_BIGDATA) F_BIGDATA" by (simp add: F_ISSET_def word_ao_absorbs)
qed

text \<open>Adding a node of a known size to a leaf.\<close>

lemma leaf_place:
  assumes L: "page_layout True psize p left" and ns: "raw_nodes p = Some ns" and i: "i \<le> length ns"
    and k: "key_ok (Some k)" and d: "data_ok d flags' ofp"
    and plan: "\<And>room. node_room_for nodemax psize page_new True room (Some k) (Some d) flags
      = Some (if room < int s then Full else Room s flags' ofp)"
    and s: "s = EVEN (NODESIZE + mv_size k + new_payload True (Some d) flags')"
  shows "if left < s + 2
    then mdb_node_add nodemax psize pad page_new p i (Some k) (Some d) pgno flags
        = Some \<lparr>na_rc = MDB_PAGE_FULL, na_page = p, na_txn_error = True, na_overflow = None\<rparr>
    else \<exists>p'. mdb_node_add nodemax psize pad page_new p i (Some k) (Some d) pgno flags
        = Some \<lparr>na_rc = MDB_SUCCESS, na_page = p', na_txn_error = False, na_overflow = map_option (\<lambda>pg. (pg, d)) ofp\<rparr>
      \<and> page_layout True psize p' (left - (s + 2))
      \<and> raw_nodes p' = Some (take i ns @ new_node True (Some k) (Some d) pgno flags' ofp # drop i ns)
      \<and> placed p p' i (PAGEHDRSZ + 2 * (length ns + 1)) (PAGEHDRSZ + 2 * length ns + left - s)"
proof -
  obtain lower upper fl where H: "raw_lower p = Some lower" "raw_upper p = Some upper" "lower \<le> upper" "raw_flags p = Some fl"
    "F_ISSET fl FLAG_LEAF = True" "\<not> F_ISSET fl FLAG_LEAF2" "SIZELEFT p = Some (of_nat left)" "unat (of_nat left :: 16 word) = left"
    using L by (rule page_layout_header)
  have add: "mdb_node_add nodemax psize pad page_new p i (Some k) (Some d) pgno flags =
      (case (if int left - 2 < int s then Full else Room s flags' ofp) of
           Full \<Rightarrow> Some \<lparr>na_rc = MDB_PAGE_FULL, na_page = p, na_txn_error = True, na_overflow = None\<rparr>
         | Failed rc \<Rightarrow> Some \<lparr>na_rc = rc, na_page = p, na_txn_error = False, na_overflow = None\<rparr>
         | Room node_size flags ofp \<Rightarrow>
             do {
               p \<leftarrow> node_update True p i node_size (Some k) (Some d) pgno flags ofp;
               Some \<lparr>na_rc = MDB_SUCCESS, na_page = p, na_txn_error = False,
                 na_overflow = (case (ofp, Some d) of (Some pg, Some d) \<Rightarrow> Some (pg, d) | _ \<Rightarrow> None)\<rparr>
             })"
    unfolding mdb_node_add_def H(1,2,4,5,7,8) bind.bind_lunit Let_def if_not_P [OF not_less [THEN iffD2, OF H(3)]]
      if_not_P [OF H(6)] plan by (rule refl)
  show ?thesis
  proof (cases "left < s + 2")
    case True
    then show ?thesis using add by simp
  next
    case False
    have "\<exists>q'. node_write True q (up - s) (Some k) (Some d) pgno flags' ofp = Some q'
        \<and> changed_within (up - s) up q q' \<and> raw_node_size True q' (up - s) = Some s
        \<and> raw_node True q' (up - s) = Some (new_node True (Some k) (Some d) pgno flags' ofp)"
      if "length q = psize" "s \<le> up" "up \<le> psize" for q up
    proof -
      have "up - s + NODESIZE + mv_size k + new_payload True (Some d) flags' \<le> up"
        using that(2) EVEN_le(1) [of "NODESIZE + mv_size k + new_payload True (Some d) flags'"] by (simp add: s)
      with node_write_leaf [OF k d, of "up - s" q pgno] that(1,3) show ?thesis
        unfolding s [symmetric] by (auto intro: changed_mono)
    qed
    from node_update_page [OF L ns i _ _ this]
    obtain p' where p': "node_update True p i s (Some k) (Some d) pgno flags' ofp = Some p'" "page_layout True psize p' (left - (s + 2))"
      "raw_nodes p' = Some (take i ns @ new_node True (Some k) (Some d) pgno flags' ofp # drop i ns)"
      "placed p p' i (PAGEHDRSZ + 2 * (length ns + 1)) (PAGEHDRSZ + 2 * length ns + left - s)"
      using False s by (auto simp: EVEN_le)
    then show ?thesis using add False by (cases ofp) simp_all
  qed
qed

text \<open>Adding to a leaf: full exactly if less is free than \<open>mdb_leaf_size\<close> says.\<close>

lemma leaf_add:
  assumes L: "page_layout True psize p left" and ns: "raw_nodes p = Some ns" and i: "i \<le> length ns"
    and k: "key_ok (Some k)" and d: "data_ok d flags None" "\<not> F_ISSET flags F_BIGDATA"
    and pg: "page_new (OVPAGES (mv_size d) psize) = Inr pg"
    and big: "big = (nodemax < NODESIZE + mv_size k + mv_size d)"
  shows "if left < mdb_leaf_size nodemax k d
    then mdb_node_add nodemax psize pad page_new p i (Some k) (Some d) pgno flags
        = Some \<lparr>na_rc = MDB_PAGE_FULL, na_page = p, na_txn_error = True, na_overflow = None\<rparr>
    else \<exists>p'. mdb_node_add nodemax psize pad page_new p i (Some k) (Some d) pgno flags
        = Some \<lparr>na_rc = MDB_SUCCESS, na_page = p', na_txn_error = False, na_overflow = (if big then Some (pg, d) else None)\<rparr>
      \<and> page_layout True psize p' (left - mdb_leaf_size nodemax k d)
      \<and> raw_nodes p' = Some (take i ns @ (if big then Big_node (val_bytes k) (mv_size d) pg else Leaf_node (val_bytes k) (val_bytes d))
          # drop i ns)"
proof -
  define flags' where "flags' = (if big then flags OR F_BIGDATA else flags)"
  define ofp where "ofp = (if big then Some pg else None)"
  define s where "s = EVEN (NODESIZE + mv_size k + new_payload True (Some d) flags')"
  have pl: "new_payload True (Some d) flags' = (if big then 8 else mv_size d)"
    using d(2) reserve_flag(2) by (simp add: new_payload_def flags'_def)
  have size: "mdb_leaf_size nodemax k d = s + 2"
    unfolding mdb_leaf_size_def s_def pl Let_def EVEN_add_2 by (simp add: big add.assoc)
  have plan: "node_room_for nodemax psize page_new True room (Some k) (Some d) flags
      = Some (if room < int s then Full else Room s flags' ofp)" for room
    using d(2) pg by (cases big) (simp_all add: node_room_for_def s_def flags'_def ofp_def new_payload_def reserve_flag(2) Let_def big [symmetric])
  have d': "data_ok d flags' ofp"
    using d reserve_flag by (auto simp: data_ok_def flags'_def ofp_def)
  have "new_node True (Some k) (Some d) pgno flags' ofp
      = (if big then Big_node (val_bytes k) (mv_size d) pg else Leaf_node (val_bytes k) (val_bytes d))"
    using d(2) by (simp add: new_node_def ofp_def flags'_def key_bytes_def)
  moreover have "map_option (\<lambda>pg. (pg, d)) ofp = (if big then Some (pg, d) else None)" by (simp add: ofp_def)
  ultimately show ?thesis
    using leaf_place [OF L ns i k d' plan s_def, of pad pgno] unfolding size by (auto split: if_splits)
qed

lemma page_layout_even: "page_layout leaf psize p left \<Longrightarrow> even left"
  by (auto simp: page_layout_def layout_def PAGEHDRSZ_def)

lemma even_room: "even left \<Longrightarrow> left < EVEN n + 2 \<longleftrightarrow> left < n + 2"
  unfolding EVEN_def by presburger

text \<open>
  Adding to a branch. \<open>mdb_branch_size\<close> is not rounded up, but the space free in a page is even,
  so comparing with it is exact.
\<close>

lemma branch_place:
  assumes L: "page_layout False psize p left" and ns: "raw_nodes p = Some ns" and i: "i \<le> length ns"
    and k: "key_ok key" and pg: "unat pgno < 2 ^ 48"
  shows "if left < mdb_branch_size key
    then mdb_node_add nodemax psize pad page_new p i key data pgno flags
        = Some \<lparr>na_rc = MDB_PAGE_FULL, na_page = p, na_txn_error = True, na_overflow = None\<rparr>
    else \<exists>p'. mdb_node_add nodemax psize pad page_new p i key data pgno flags
        = Some \<lparr>na_rc = MDB_SUCCESS, na_page = p', na_txn_error = False, na_overflow = None\<rparr>
      \<and> page_layout False psize p' (left - EVEN (mdb_branch_size key))
      \<and> raw_nodes p' = Some (take i ns @ Branch_node (key_bytes key) pgno # drop i ns)
      \<and> placed p p' i (PAGEHDRSZ + 2 * (length ns + 1)) (PAGEHDRSZ + 2 * length ns + left - (EVEN (mdb_branch_size key) - 2))"
proof -
  obtain lower upper fl where H: "raw_lower p = Some lower" "raw_upper p = Some upper" "lower \<le> upper" "raw_flags p = Some fl"
    "F_ISSET fl FLAG_LEAF = False" "\<not> F_ISSET fl FLAG_LEAF2" "SIZELEFT p = Some (of_nat left)" "unat (of_nat left :: 16 word) = left"
    using L by (rule page_layout_header)
  define s where "s = EVEN (NODESIZE + length (key_bytes key))"
  have size: "mdb_branch_size key = NODESIZE + length (key_bytes key) + 2"
    unfolding key_size [OF k] by (simp add: mdb_branch_size_def)
  have even: "EVEN (mdb_branch_size key) = s + 2" unfolding size EVEN_add_2 s_def ..
  have full: "left < mdb_branch_size key \<longleftrightarrow> left < s + 2"
    unfolding size s_def using even_room [OF page_layout_even [OF L]] by simp
  have plan: "node_room_for nodemax psize page_new False room key data flags
      = Some (if room < int s then Full else Room s flags None)" for room
    unfolding node_room_for_def Let_def s_def key_size [OF k] by simp
  have add: "mdb_node_add nodemax psize pad page_new p i key data pgno flags =
      (case (if int left - 2 < int s then Full else Room s flags None) of
           Full \<Rightarrow> Some \<lparr>na_rc = MDB_PAGE_FULL, na_page = p, na_txn_error = True, na_overflow = None\<rparr>
         | Failed rc \<Rightarrow> Some \<lparr>na_rc = rc, na_page = p, na_txn_error = False, na_overflow = None\<rparr>
         | Room node_size flags ofp \<Rightarrow>
             do {
               p \<leftarrow> node_update False p i node_size key data pgno flags ofp;
               Some \<lparr>na_rc = MDB_SUCCESS, na_page = p, na_txn_error = False,
                 na_overflow = (case (ofp, data) of (Some pg, Some d) \<Rightarrow> Some (pg, d) | _ \<Rightarrow> None)\<rparr>
             })"
    unfolding mdb_node_add_def H(1,2,4,5,7,8) bind.bind_lunit Let_def if_not_P [OF not_less [THEN iffD2, OF H(3)]]
      if_not_P [OF H(6)] plan by (rule refl)
  show ?thesis
  proof (cases "left < s + 2")
    case True
    then show ?thesis using add full by simp
  next
    case False
    have "\<exists>q'. node_write False q (up - s) key data pgno flags None = Some q'
        \<and> changed_within (up - s) up q q' \<and> raw_node_size False q' (up - s) = Some s
        \<and> raw_node False q' (up - s) = Some (new_node False key data pgno flags None)"
      if "length q = psize" "s \<le> up" "up \<le> psize" for q up
    proof -
      have "up - s + NODESIZE + length (key_bytes key) \<le> up"
        using that(2) EVEN_le(1) [of "NODESIZE + length (key_bytes key)"] by (simp add: s_def)
      with node_write_branch [OF k pg, of "up - s" q data flags None] that(1,3) show ?thesis
        unfolding s_def [symmetric] by (auto intro: changed_mono)
    qed
    from node_update_page [OF L ns i _ _ this]
    obtain p' where p': "node_update False p i s key data pgno flags None = Some p'" "page_layout False psize p' (left - (s + 2))"
      "raw_nodes p' = Some (take i ns @ new_node False key data pgno flags None # drop i ns)"
      "placed p p' i (PAGEHDRSZ + 2 * (length ns + 1)) (PAGEHDRSZ + 2 * length ns + left - s)"
      using False by (auto simp: s_def EVEN_le)
    then show ?thesis using add False full even by (simp add: new_node_def)
  qed
qed

lemma branch_add:
  assumes L: "page_layout False psize p left" and ns: "raw_nodes p = Some ns" and i: "i \<le> length ns"
    and k: "key_ok key" and pg: "unat pgno < 2 ^ 48"
  shows "if left < mdb_branch_size key
    then mdb_node_add nodemax psize pad page_new p i key data pgno flags
        = Some \<lparr>na_rc = MDB_PAGE_FULL, na_page = p, na_txn_error = True, na_overflow = None\<rparr>
    else \<exists>p'. mdb_node_add nodemax psize pad page_new p i key data pgno flags
        = Some \<lparr>na_rc = MDB_SUCCESS, na_page = p', na_txn_error = False, na_overflow = None\<rparr>
      \<and> page_layout False psize p' (left - EVEN (mdb_branch_size key))
      \<and> raw_nodes p' = Some (take i ns @ Branch_node (key_bytes key) pgno # drop i ns)"
  using branch_place [OF assms, of nodemax pad page_new data flags] by (auto split: if_splits)

section \<open>Deleting a node\<close>

definition source :: "nat \<Rightarrow> nat \<Rightarrow> nat" where
  "source indx t = (if t < indx then t else t + 1)"

lemma ptrs_down_result:
  assumes "PAGEHDRSZ + 2 * (i + k) \<le> length p" and "if i \<le> indx then j = i else i = j + 1"
  shows "\<exists>p'. ptrs_down p k i j indx ptr sz = Some p' \<and> changed_within (PAGEHDRSZ + 2 * j) (PAGEHDRSZ + 2 * (i + k)) p p'
    \<and> (\<forall>t. j \<le> t \<and> source indx t < i + k \<longrightarrow>
         raw_ptr p' t = map_option (\<lambda>w. if w < ptr then w + sz else w) (raw_ptr p (source indx t)))"
  using assms
proof (induction k arbitrary: p i j)
  case 0
  then show ?case by (auto simp: source_def split: if_splits)
next
  case (Suc k)
  show ?case
  proof (cases "i = indx")
    case True
    then have j: "j = i" using Suc(3) by simp
    obtain p' where p': "ptrs_down p k (i + 1) j indx ptr sz = Some p'"
      "changed_within (PAGEHDRSZ + 2 * j) (PAGEHDRSZ + 2 * (i + 1 + k)) p p'"
      "\<forall>t. j \<le> t \<and> source indx t < i + 1 + k \<longrightarrow>
         raw_ptr p' t = map_option (\<lambda>w. if w < ptr then w + sz else w) (raw_ptr p (source indx t))"
      using Suc(1) [of "i + 1" p j] Suc(2) j True by auto
    then show ?thesis using True by (intro exI [of _ p']) (simp add: add.assoc)
  next
    case False
    have ij: "source indx j = i" "j \<le> i" using Suc(3) False by (auto simp: source_def split: if_splits)
    obtain w where w: "raw_ptr p i = Some w" using Suc(2) load16_ex unfolding raw_ptr_def by force
    obtain p1 where p1: "store16 p (PAGEHDRSZ + 2 * j) w = Some p1" using Suc(2) ij(2) store16_ex by force
    have l1: "length p1 = length p" using p1 by (rule store16_length)
    have ptr1: "raw_ptr p1 t = (if t = j then Some w else raw_ptr p t)" for t using raw_ptr_apart [OF p1] .
    then have w1: "raw_ptr p1 i = Some w" using w by simp
    obtain p2 where p2: "(if w < ptr then do { v \<leftarrow> raw_ptr p1 j; store16 p1 (PAGEHDRSZ + 2 * j) (v + sz) } else Some p1) = Some p2"
      "changed_within (PAGEHDRSZ + 2 * j) (PAGEHDRSZ + 2 * j + 2) p1 p2"
      "raw_ptr p2 t = (if t = j then Some (if w < ptr then w + sz else w) else raw_ptr p1 t)" for t
    proof (cases "w < ptr")
      case True
      obtain q where q: "store16 p1 (PAGEHDRSZ + 2 * j) (w + sz) = Some q" using Suc(2) ij(2) l1 store16_ex by force
      show ?thesis
        by (rule that [of q]) (use True q ptr1 store16_changed [OF q] raw_ptr_apart [OF q] in auto)
    next
      case False
      show ?thesis by (rule that [of p1]) (use False ptr1 in auto)
    qed
    have c2: "changed_within (PAGEHDRSZ + 2 * j) (PAGEHDRSZ + 2 * j + 2) p p2"
      by (rule changed_within_trans [OF store16_changed [OF p1] p2(2)]) simp_all
    obtain p' where p': "ptrs_down p2 k (i + 1) (j + 1) indx ptr sz = Some p'"
      "changed_within (PAGEHDRSZ + 2 * (j + 1)) (PAGEHDRSZ + 2 * (i + 1 + k)) p2 p'"
      "\<forall>t. j + 1 \<le> t \<and> source indx t < i + 1 + k \<longrightarrow>
         raw_ptr p' t = map_option (\<lambda>w. if w < ptr then w + sz else w) (raw_ptr p2 (source indx t))"
      using Suc(1) [of "i + 1" p2 "j + 1"] Suc(2,3) False changed_length [OF c2] by (auto split: if_splits)
    have "raw_ptr p' t = map_option (\<lambda>w. if w < ptr then w + sz else w) (raw_ptr p (source indx t))"
      if t: "j \<le> t" "source indx t < i + Suc k" for t
    proof (cases "t = j")
      case True
      have "raw_ptr p' j = raw_ptr p2 j" using changed_load16 [OF p'(2), of "PAGEHDRSZ + 2 * j"] by (simp add: raw_ptr_def)
      then show ?thesis using True p2(3) [of j] ij(1) w by simp
    next
      case False
      then have "j + 1 \<le> t" using t(1) by simp
      moreover have "source indx t \<noteq> j" using \<open>j + 1 \<le> t\<close> by (auto simp: source_def)
      ultimately show ?thesis using p'(3) t(2) p2(3) ptr1 by simp
    qed
    moreover have "changed_within (PAGEHDRSZ + 2 * j) (PAGEHDRSZ + 2 * (i + Suc k)) p p'"
      by (rule changed_within_trans [OF c2 p'(2)]) (use ij(2) in simp_all)
    moreover have "ptrs_down p (Suc k) i j indx ptr sz = Some p'"
      using False w p1 w1 p2(1) p'(1) by simp
    ultimately show ?thesis by blast
  qed
qed


text \<open>Where the region of a node lies after the one at \<open>gap\<close> has been closed.\<close>

definition shifted :: "nat \<times> nat \<Rightarrow> nat \<times> nat \<Rightarrow> nat \<times> nat" where
  "shifted gap r = (if fst r < fst gap then (fst r + snd gap, snd r) else r)"

lemma snd_shifted [simp]: "snd (shifted gap r) = snd r"
  by (simp add: shifted_def)

lemma shifted_apart:
  assumes "apart r r'" and "apart gap r \<or> apart r gap" and "apart gap r' \<or> apart r' gap" and "0 < snd r" and "0 < snd r'"
  shows "apart (shifted gap r) (shifted gap r')"
  using assms by (auto simp: apart_def shifted_def)

lemma without_nth:
  "i < length xs \<Longrightarrow> t < length xs - 1 \<Longrightarrow> (take i xs @ drop (Suc i) xs) ! t = xs ! source i t"
  by (auto simp: nth_append source_def min_def)

lemma sorted_wrt_without:
  assumes "sorted_wrt P xs" and "i < length xs"
  shows "sorted_wrt P (take i xs @ drop (Suc i) xs)"
    and "r \<in> set (take i xs @ drop (Suc i) xs) \<Longrightarrow> P (xs ! i) r \<or> P r (xs ! i)"
proof -
  have "sorted_wrt P (take i xs @ xs ! i # drop (Suc i) xs)"
    using assms by (simp flip: id_take_nth_drop)
  then show "sorted_wrt P (take i xs @ drop (Suc i) xs)"
    "r \<in> set (take i xs @ drop (Suc i) xs) \<Longrightarrow> P (xs ! i) r \<or> P r (xs ! i)"
    by (auto simp: sorted_wrt_append)
qed

lemma memmove_up:
  assumes "a \<le> c" and "c + s \<le> length p"
  shows "\<exists>p'. memmove p (a + s) a (c - a) = Some p' \<and> changed_within (a + s) (c + s) p p'
    \<and> (\<forall>ofs m. a \<le> ofs \<and> ofs + m \<le> c \<longrightarrow> load_bytes p' (ofs + s) m = load_bytes p ofs m)"
proof -
  have src: "load_bytes p a (c - a) = Some (take (c - a) (drop a p))" using assms by (intro load_bytes_Some) simp
  have len: "length (take (c - a) (drop a p)) = c - a" using assms by simp
  obtain p' where p': "store_bytes p (a + s) (take (c - a) (drop a p)) = Some p'"
    using store_bytes_ex [of "a + s" "take (c - a) (drop a p)" p] assms len by auto
  have "changed_within (a + s) (c + s) p p'" using store_bytes_changed [OF p'] len assms(1) by (simp add: add.commute)
  moreover have "load_bytes p' (ofs + s) m = load_bytes p ofs m" if "a \<le> ofs" "ofs + m \<le> c" for ofs m
  proof -
    have "load_bytes p' (a + s) (c - a) = load_bytes p a (c - a)"
      using load_store_same [OF p'] unfolding len src .
    moreover have "a + s + (c - a) \<le> length p'" using store_bytes_length [OF p'] assms by simp
    ultimately have "load_bytes p' (a + s + (ofs - a)) m = load_bytes p (a + (ofs - a)) m"
      by (rule load_bytes_cong) (use that in linarith)
    then show ?thesis using that(1) by (simp add: add.commute)
  qed
  ultimately show ?thesis using src p' by (auto simp: memmove_def)
qed

lemma node_del_layout:
  assumes L: "layout leaf psize p up regs" and i: "indx < length regs"
  defines "gap \<equiv> regs ! indx" and "rest \<equiv> take indx regs @ drop (Suc indx) regs"
  shows "\<exists>p'. mdb_node_del p indx ksize = Some p'
    \<and> layout leaf psize p' (up + snd gap) (List.map (shifted gap) rest)
    \<and> (\<forall>r \<in> set rest. raw_node leaf p' (fst (shifted gap r)) = raw_node leaf p (fst r))"
proof -
  obtain fl where P: "length p = psize" "psize \<le> 2 ^ 15" "raw_flags p = Some fl" "F_ISSET fl FLAG_LEAF = leaf"
    "\<not> F_ISSET fl FLAG_LEAF2" "raw_lower p = Some (of_nat (PAGEHDRSZ + 2 * length regs))" "raw_upper p = Some (of_nat up)"
    "PAGEHDRSZ + 2 * length regs \<le> up" "up \<le> psize" "up + sum_list (List.map snd regs) = psize" "even up" "even psize"
    using L by (rule layoutE)
  let ?n = "length regs" and ?o = "fst gap" and ?s = "snd gap"
  let ?regs = "List.map (shifted gap) rest"
  have H: "PAGEHDRSZ = 16" by (simp add: PAGEHDRSZ_def)
  have gap: "gap \<in> set regs" using i by (simp add: gap_def)
  note reg = layout_region [OF L] and g = layout_region [OF L gap]
  have rest: "r \<in> set regs" if "r \<in> set rest" for r
    using that by (auto simp: rest_def dest: in_set_takeD in_set_dropD)
  have sorted: "sorted_wrt apart regs" using L by (simp add: layout_def)
  have gap_apart: "apart gap r \<or> apart r gap" if "r \<in> set rest" for r
    using sorted_wrt_without(2) [OF sorted i] that by (simp add: gap_def rest_def)
  have pos: "0 < snd r" if "r \<in> set regs" for r
    using raw_node_size_ge [OF reg(1) [OF that]] by (simp add: NODESIZE_def)
  have n': "length ?regs = ?n - 1" using i by (simp add: rest_def)
  obtain p1 where p1: "ptrs_down p ?n 0 0 indx (of_nat ?o) (of_nat ?s) = Some p1"
    "changed_within PAGEHDRSZ (PAGEHDRSZ + 2 * ?n) p p1"
    "\<forall>t. source indx t < ?n \<longrightarrow>
       raw_ptr p1 t = map_option (\<lambda>w. if w < of_nat ?o then w + of_nat ?s else w) (raw_ptr p (source indx t))"
    using ptrs_down_result [of 0 ?n p indx 0 "of_nat ?o" "of_nat ?s"] P(1,8,9) by auto
  have l1: "length p1 = psize" using changed_length [OF p1(2)] P(1) by simp
  obtain p2 where p2: "memmove p1 (up + ?s) up (?o - up) = Some p2" "changed_within (up + ?s) (?o + ?s) p1 p2"
    "\<forall>ofs m. up \<le> ofs \<and> ofs + m \<le> ?o \<longrightarrow> load_bytes p2 (ofs + ?s) m = load_bytes p1 ofs m"
    using memmove_up [of up ?o ?s p1] g(2,3) l1 by auto
  have l2: "length p2 = psize" using changed_length [OF p2(2)] l1 by simp
  have n1: "1 \<le> ?n" using i by simp
  have low_word: "(of_nat (PAGEHDRSZ + 2 * ?n) :: 16 word) - 2 = of_nat (PAGEHDRSZ + 2 * (?n - 1))"
    using n1 by (simp add: of_nat_diff)
  obtain p3 where p3: "store16 p2 12 (of_nat (PAGEHDRSZ + 2 * (?n - 1))) = Some p3"
    using store16_ex [of 12 p2] l2 P(8,9) H by auto
  note c3 = store16_changed [OF p3]
  have l3: "length p3 = psize" using changed_length [OF c3] l2 by simp
  obtain p4 where p4: "store16 p3 14 (of_nat (up + ?s)) = Some p4"
    using store16_ex [of 14 p3] l3 P(8,9) H by auto
  note c4 = store16_changed [OF p4]
  have len: "length p4 = psize" using changed_length [OF c4] l3 by simp
  have upper1: "raw_upper p1 = Some (of_nat up)" using P(7) changed_load16 [OF p1(2), of 14] H by (simp add: raw_upper_def)
  have lower2: "raw_lower p2 = Some (of_nat (PAGEHDRSZ + 2 * ?n))"
    using P(6) changed_load16 [OF p1(2), of 12] changed_load16 [OF p2(2), of 12] P(8) H by (simp add: raw_lower_def)
  have uw: "unat (of_nat up :: 16 word) = up" using P(2,9) by (intro unat_small) simp
  note ow = unat_small [OF g(4)]
  have nlt: "\<not> (of_nat ?o :: 16 word) < of_nat up" unfolding word_less_nat_alt uw ow using g(2) by simp
  have in_range: "\<not> ?n \<le> indx" using i by simp
  have ptr: "raw_ptr p indx = Some (of_nat ?o)" using layout_ptr [OF L i] by (simp add: gap_def)
  have run: "mdb_node_del p indx ksize = Some p4"
    unfolding mdb_node_del_def layout_numkeys [OF L] P(3,4) ptr bind.bind_lunit if_not_P [OF in_range] if_not_P [OF P(5)]
      ow g(1) p1(1) upper1 if_not_P [OF nlt] uw p2(1) lower2 low_word p3
    using p4 by simp
  have flags: "raw_flags p4 = Some fl"
    using P(3,8) changed_load16 [OF p1(2), of 10] changed_load16 [OF p2(2), of 10] changed_load16 [OF c3, of 10]
      changed_load16 [OF c4, of 10] H by (simp add: raw_flags_def)
  have low: "raw_lower p4 = Some (of_nat (PAGEHDRSZ + 2 * (?n - 1)))"
    using load16_store16 [OF p3] changed_load16 [OF c4, of 12] by (simp add: raw_lower_def)
  have upper: "raw_upper p4 = Some (of_nat (up + ?s))" using load16_store16 [OF p4] by (simp add: raw_upper_def)
  have ptrs: "raw_ptr p4 t = raw_ptr p1 t" if "t < ?n" for t
    using changed_load16 [OF p2(2), of "PAGEHDRSZ + 2 * t"] changed_load16 [OF c3, of "PAGEHDRSZ + 2 * t"]
      changed_load16 [OF c4, of "PAGEHDRSZ + 2 * t"] that P(8) H by (simp add: raw_ptr_def)
  have old: "load_bytes p4 o2 m = load_bytes p2 o2 m" if "PAGEHDRSZ \<le> o2" for o2 m
    using changed_bytes [OF c3, of o2 m] changed_bytes [OF c4, of o2 m] that H by simp
  have same: "load_bytes p4 (fst (shifted gap r)) (snd r) = load_bytes p (fst r) (snd r)" if r: "r \<in> set rest" for r
  proof -
    note q = reg(2,3) [OF rest [OF r]] and a = gap_apart [OF r] and ps = pos [OF rest [OF r]]
    have p_p1: "load_bytes p1 (fst r) (snd r) = load_bytes p (fst r) (snd r)"
      by (rule changed_bytes [OF p1(2)]) (use q(1) P(8) in simp)
    show ?thesis
    proof (cases "fst r < ?o")
      case True
      then have "fst r + snd r \<le> ?o" using a by (auto simp: apart_def)
      with p2(3) q(1) have "load_bytes p2 (fst r + ?s) (snd r) = load_bytes p1 (fst r) (snd r)" by blast
      then show ?thesis using True old [of "fst r + ?s"] q(1) P(8) p_p1 by (simp add: shifted_def)
    next
      case False
      then have "?o + ?s \<le> fst r" using a ps pos [OF gap] by (auto simp: apart_def)
      then have "load_bytes p2 (fst r) (snd r) = load_bytes p1 (fst r) (snd r)"
        by (intro changed_bytes [OF p2(2)]) simp
      then show ?thesis using False old [of "fst r"] q(1) P(8) p_p1 by (simp add: shifted_def)
    qed
  qed
  have fit: "fst r + snd r \<le> length p" if "r \<in> set rest" for r using reg(3) [OF rest [OF that]] P(1) by simp
  have kept: "raw_node_size leaf p4 (fst (shifted gap r)) = Some (snd r)"
    "raw_node leaf p4 (fst (shifted gap r)) = raw_node leaf p (fst r)" if r: "r \<in> set rest" for r
    using raw_node_size_cong [OF reg(1) [OF rest [OF r]] fit [OF r] same [OF r]]
      raw_node_cong [OF reg(1) [OF rest [OF r]] fit [OF r] same [OF r]] by simp_all
  have place: "up + ?s \<le> fst (shifted gap r) \<and> fst (shifted gap r) + snd r \<le> psize" if r: "r \<in> set rest" for r
  proof -
    note q = reg(2,3) [OF rest [OF r]] and a = gap_apart [OF r] and ps = pos [OF rest [OF r]]
    show ?thesis using q a ps pos [OF gap] g(2,3) by (auto simp: shifted_def apart_def)
  qed
  have "sum_list (List.map snd (take indx regs @ regs ! indx # drop (Suc indx) regs)) = sum_list (List.map snd regs)"
    using i by (simp flip: id_take_nth_drop)
  then have sum: "sum_list (List.map snd rest) + ?s = sum_list (List.map snd regs)"
    by (simp add: rest_def gap_def)
  have snds: "List.map snd ?regs = List.map snd rest" by (simp add: shifted_def)
  have evs: "even ?s" using g(1) EVEN_le(3) unfolding raw_node_size_def bind_eq_Some_conv by (metis option.inject)
  have "layout leaf psize p4 (up + ?s) ?regs"
  proof (rule layoutI)
    show "raw_lower p4 = Some (of_nat (PAGEHDRSZ + 2 * length ?regs))" unfolding n' by (rule low)
    show "PAGEHDRSZ + 2 * length ?regs \<le> up + ?s" using n' P(8) by simp
    show "up + ?s + sum_list (List.map snd ?regs) = psize" unfolding snds using sum P(10) by simp
    show "raw_ptr p4 t = Some (of_nat (fst (?regs ! t)))" if t: "t < length ?regs" for t
    proof -
      have src: "source indx t < ?n" using t n' by (auto simp: source_def)
      have nth: "rest ! t = regs ! source indx t" using without_nth [OF i, of t] t n' by (simp add: rest_def)
      have r: "regs ! source indx t \<in> set regs" using src by simp
      have "raw_ptr p4 t = map_option (\<lambda>w. if w < of_nat ?o then w + of_nat ?s else w) (raw_ptr p (source indx t))"
        using ptrs [of t] p1(3) src t n' by simp
      then show ?thesis
        using layout_ptr [OF L src] nth t unat_small [OF reg(4) [OF r]] ow by (simp add: shifted_def word_less_nat_alt)
    qed
    show "raw_node_size leaf p4 (fst r) = Some (snd r) \<and> up + ?s \<le> fst r \<and> fst r + snd r \<le> psize" if "r \<in> set ?regs" for r
    proof -
      obtain r0 where "r0 \<in> set rest" "r = shifted gap r0" using \<open>r \<in> set ?regs\<close> by auto
      then show ?thesis using kept(1) place by simp
    qed
    have "sorted_wrt apart rest" using sorted_wrt_without(1) [OF sorted i] by (simp add: rest_def)
    then show "sorted_wrt apart ?regs"
      unfolding sorted_wrt_map by (rule sorted_wrt_mono_rel [rotated]) (rule shifted_apart, use gap_apart pos rest in auto)
  qed (use len P(2,4,5,11,12) flags upper evs in simp_all)
  with run kept(2) show ?thesis by blast
qed

end
