(* ===== verification/Lmdb_Node_Properties.thy ===== *)
theory Lmdb_Node_Properties
  imports Lmdb_Layout Lmdb_Pages_Props
begin

text \<open>
  The properties of the operations on the bytes of a page, stated on the list of nodes the page
  holds, which is what the search and the cursors read.
\<close>

section \<open>Space\<close>

text \<open>The bytes a node takes, from what it holds.\<close>

fun node_bytes :: "mdb_node \<Rightarrow> nat" where
  "node_bytes (Branch_node k pgno) = EVEN (NODESIZE + length k)"
| "node_bytes (Leaf_node k d) = EVEN (NODESIZE + length k + length d)"
| "node_bytes (Big_node k n pgno) = EVEN (NODESIZE + length k + 8)"

lemma raw_node_bytes:
  assumes "raw_node leaf p ofs = Some n"
  shows "raw_node_size leaf p ofs = Some (node_bytes n)"
proof -
  obtain k key where k: "node_ksize p ofs = Some k" "load_bytes p (ofs + NODESIZE) k = Some key"
    using assms by (auto simp: raw_node_def bind_eq_Some_conv)
  have len: "length key = k" using load_bytes_length [OF k(2)] by simp
  show ?thesis
  proof (cases leaf)
    case True
    then obtain big m where "node_big p ofs = Some big" "NODEDSZ p ofs = Some m"
      using assms k by (auto simp: raw_node_def bind_eq_Some_conv)
    then show ?thesis
      using assms k len True load_bytes_length [of p "ofs + NODESIZE + k" m]
      by (auto simp: raw_node_def raw_node_size_def node_payload_def split: if_splits)
  next
    case False
    then show ?thesis using assms k len by (auto simp: raw_node_def raw_node_size_def node_payload_def)
  qed
qed

definition used :: "mdb_node list \<Rightarrow> nat" where
  "used ns = sum_list (List.map (\<lambda>n. node_bytes n + 2) ns)"

lemma layout_used:
  assumes "layout leaf psize p up regs" and "raw_nodes p = Some ns"
  shows "used ns = sum_list (List.map snd regs) + 2 * length regs"
proof -
  have len: "length p = psize" using assms(1) by (rule layoutE)
  have "node_bytes (the (raw_node leaf p (fst r))) = snd r" if "r \<in> set regs" for r
  proof -
    note g = layout_region [OF assms(1) that]
    obtain n where "raw_node leaf p (fst r) = Some n" using raw_node_defined [OF g(1)] g(3) len by auto
    then show ?thesis using raw_node_bytes [of leaf p "fst r" n] g(1) by simp
  qed
  then have "List.map (\<lambda>n. node_bytes n + 2) ns = List.map (\<lambda>r. snd r + 2) regs"
    using layout_nodes [OF assms(1)] assms(2) by simp
  moreover have "sum_list (List.map (\<lambda>r. snd r + 2) rs) = sum_list (List.map snd rs) + 2 * length rs" for rs :: "(nat \<times> nat) list"
    by (induction rs) simp_all
  ultimately show ?thesis unfolding used_def by (simp only:)
qed

text \<open>A page in good order: its free space is what the header and its nodes leave.\<close>

lemma page_space:
  assumes "page_layout leaf psize p left" and "raw_nodes p = Some ns"
  shows "left + used ns + PAGEHDRSZ = psize"
proof -
  obtain up regs where lay: "layout leaf psize p up regs" "left = up - (PAGEHDRSZ + 2 * length regs)"
    using assms(1) by (auto simp: page_layout_def)
  from lay(1) have "PAGEHDRSZ + 2 * length regs \<le> up" "up + sum_list (List.map snd regs) = psize"
    by (simp_all only: layout_def)
  then show ?thesis unfolding layout_used [OF lay(1) assms(2)] lay(2) by linarith
qed

text \<open>A new page, as \<open>mdb_page_new\<close> initialises it.\<close>

definition fresh_page :: "16 word \<Rightarrow> nat \<Rightarrow> bytes" where
  "fresh_page flags psize =
     replicate 10 CHR 0x00 @ le_chars 2 (unat flags) @ le_chars 2 PAGEHDRSZ @ le_chars 2 psize
       @ replicate (psize - PAGEHDRSZ) CHR 0x00"

lemma fresh_layout:
  assumes "16 \<le> psize" and "psize \<le> 2 ^ 15" and "even psize" and "\<not> F_ISSET flags FLAG_LEAF2"
  shows "layout (F_ISSET flags FLAG_LEAF) psize (fresh_page flags psize) psize []"
proof -
  have f: "raw_flags (fresh_page flags psize) = Some flags"
    by (simp add: raw_flags_def load16_def load_bytes_def fresh_page_def le_value_16)
  have "raw_lower (fresh_page flags psize) = Some (of_nat PAGEHDRSZ)" "raw_upper (fresh_page flags psize) = Some (of_nat psize)"
    using assms by (simp_all add: raw_lower_def raw_upper_def load16_def load_bytes_def fresh_page_def le_value_chars PAGEHDRSZ_def
        del: le_chars.simps)
  with f assms show ?thesis by (intro layoutI) (simp_all add: fresh_page_def PAGEHDRSZ_def)
qed


lemma fresh_page_layout:
  assumes "16 \<le> psize" and "psize \<le> 2 ^ 15" and "even psize" and "\<not> F_ISSET flags FLAG_LEAF2"
  shows "page_layout (F_ISSET flags FLAG_LEAF) psize (fresh_page flags psize) (psize - 16)"
    and "raw_nodes (fresh_page flags psize) = Some []"
  using fresh_layout [OF assms] layout_nodes [OF fresh_layout [OF assms]]
  by (auto simp: page_layout_def PAGEHDRSZ_def intro!: exI [of _ psize] exI [of _ "[]"])

lemma fresh_leaf: "page_layout True 64 (fresh_page FLAG_LEAF 64) 48" "raw_nodes (fresh_page FLAG_LEAF 64) = Some []"
  using fresh_page_layout [of 64 FLAG_LEAF] by (simp_all add: F_ISSET_def FLAG_LEAF_def FLAG_LEAF2_def)

lemma fresh_branch: "page_layout False 64 (fresh_page FLAG_BRANCH 64) 48" "raw_nodes (fresh_page FLAG_BRANCH 64) = Some []"
  using fresh_page_layout [of 64 FLAG_BRANCH] by (simp_all add: F_ISSET_def FLAG_BRANCH_def FLAG_LEAF_def FLAG_LEAF2_def)

text \<open>A value whose bytes are a given string.\<close>

definition the_val :: "string \<Rightarrow> mdb_val" where
  "the_val s = \<lparr>mv_size = length s, mv_data = s\<rparr>"

lemma the_val_ok: "length s < 2 ^ 16 \<Longrightarrow> key_ok (Some (the_val s))" "length s < 2 ^ 32 \<Longrightarrow> data_ok (the_val s) 0 None"
    "val_bytes (the_val s) = s" "mv_size (the_val s) = length s"
  by (simp_all add: key_ok_def data_ok_def the_val_def val_bytes_def F_ISSET_def F_BIGDATA_def MDB_RESERVE_def)

section \<open>Adding and deleting\<close>

text \<open>
  C31. \<open>mdb_node_add\<close> on a leaf page: with less room than \<open>mdb_leaf_size\<close> asks for, the page is
  full, untouched, and the transaction is put in error; otherwise the bytes of the page hold the
  nodes they held, with the new one at its index, and exactly \<open>mdb_leaf_size\<close> bytes less are
  free. Data too large for a node go to the overflow page, whose number the node then holds.
\<close>

theorem node_add_leaf:
  assumes "page_layout True psize p left" and "raw_nodes p = Some ns" and "i \<le> length ns"
    and "key_ok (Some k)" and "data_ok d flags None" and "\<not> F_ISSET flags F_BIGDATA"
    and "page_new (OVPAGES (mv_size d) psize) = Inr pg"
    and "big = (nodemax < NODESIZE + mv_size k + mv_size d)"
  shows "if left < mdb_leaf_size nodemax k d
    then mdb_node_add nodemax psize pad page_new p i (Some k) (Some d) pgno flags
        = Some \<lparr>na_rc = MDB_PAGE_FULL, na_page = p, na_txn_error = True, na_overflow = None\<rparr>
    else \<exists>p'. mdb_node_add nodemax psize pad page_new p i (Some k) (Some d) pgno flags
        = Some \<lparr>na_rc = MDB_SUCCESS, na_page = p', na_txn_error = False, na_overflow = (if big then Some (pg, d) else None)\<rparr>
      \<and> page_layout True psize p' (left - mdb_leaf_size nodemax k d)
      \<and> raw_nodes p' = Some (take i ns @ (if big then Big_node (val_bytes k) (mv_size d) pg else Leaf_node (val_bytes k) (val_bytes d))
          # drop i ns)"
  using assms by (rule leaf_add)

theorem node_add_leaf_witness:
  "(\<exists>p. mdb_node_add 24 64 0 (\<lambda>n. Inr 77) (fresh_page FLAG_LEAF 64) 0 (Some (the_val ''b'')) (Some (the_val ''xx'')) 0 0
      = Some \<lparr>na_rc = MDB_SUCCESS, na_page = p, na_txn_error = False, na_overflow = None\<rparr>
    \<and> page_layout True 64 p 34 \<and> raw_nodes p = Some [Leaf_node ''b'' ''xx''])
   \<and> mdb_node_add 80 64 0 (\<lambda>n. Inr 77) (fresh_page FLAG_LEAF 64) 0 (Some (the_val ''b'')) (Some (the_val (replicate 40 CHR ''x''))) 0 0
      = Some \<lparr>na_rc = MDB_PAGE_FULL, na_page = fresh_page FLAG_LEAF 64, na_txn_error = True, na_overflow = None\<rparr>"
proof -
  have flag: "\<not> F_ISSET (0 :: 32 word) F_BIGDATA" by (simp add: F_ISSET_def F_BIGDATA_def)
  have size: "mdb_leaf_size 24 (the_val ''b'') (the_val ''xx'') = 14"
    "mdb_leaf_size 80 (the_val ''b'') (the_val (replicate 40 CHR ''x'')) = 52"
    by (simp_all add: mdb_leaf_size_def the_val_ok(4) NODESIZE_def EVEN_def)
  note add = node_add_leaf [OF fresh_leaf _ the_val_ok(1) the_val_ok(2) flag, of 0 _ _ "\<lambda>n. Inr 77" 77]
  have "\<exists>p. mdb_node_add 24 64 0 (\<lambda>n. Inr 77) (fresh_page FLAG_LEAF 64) 0 (Some (the_val ''b'')) (Some (the_val ''xx'')) 0 0
      = Some \<lparr>na_rc = MDB_SUCCESS, na_page = p, na_txn_error = False, na_overflow = None\<rparr>
    \<and> page_layout True 64 p 34 \<and> raw_nodes p = Some [Leaf_node ''b'' ''xx'']"
    using add [of "''b''" "''xx''" False 24 0 0] unfolding size by (simp add: the_val_ok NODESIZE_def)
  moreover have "mdb_node_add 80 64 0 (\<lambda>n. Inr 77) (fresh_page FLAG_LEAF 64) 0 (Some (the_val ''b'')) (Some (the_val (replicate 40 CHR ''x''))) 0 0
      = Some \<lparr>na_rc = MDB_PAGE_FULL, na_page = fresh_page FLAG_LEAF 64, na_txn_error = True, na_overflow = None\<rparr>"
    using add [of "''b''" "replicate 40 CHR ''x''" False 80 0 0] unfolding size by (simp add: the_val_ok NODESIZE_def)
  ultimately show ?thesis by blast
qed

lemma node_del_page:
  assumes "page_layout leaf psize p left" and "raw_nodes p = Some ns" and "i < length ns"
  shows "\<exists>p'. mdb_node_del p i ksize = Some p' \<and> page_layout leaf psize p' (left + (node_bytes (ns ! i) + 2))
    \<and> raw_nodes p' = Some (take i ns @ drop (Suc i) ns)"
proof -
  obtain up regs where lay: "layout leaf psize p up regs" "left = up - (PAGEHDRSZ + 2 * length regs)"
    using assms(1) by (auto simp: page_layout_def)
  let ?f = "\<lambda>r. the (raw_node leaf p (fst r))" and ?gap = "regs ! i" and ?rest = "take i regs @ drop (Suc i) regs"
  have ns: "ns = List.map ?f regs" using layout_nodes [OF lay(1)] assms(2) by simp
  then have i: "i < length regs" using assms(3) by simp
  obtain p' where p': "mdb_node_del p i ksize = Some p'"
    "layout leaf psize p' (up + snd ?gap) (List.map (shifted ?gap) ?rest)"
    "\<forall>r \<in> set ?rest. raw_node leaf p' (fst (shifted ?gap r)) = raw_node leaf p (fst r)"
    using node_del_layout [OF lay(1) i] by blast
  have "raw_nodes p' = Some (List.map (\<lambda>r. the (raw_node leaf p' (fst r))) (List.map (shifted ?gap) ?rest))"
    using p'(2) by (rule layout_nodes)
  also have "List.map (\<lambda>r. the (raw_node leaf p' (fst r))) (List.map (shifted ?gap) ?rest) = List.map ?f ?rest"
    using p'(3) by (simp only: List.map_map comp_def) (rule map_cong, simp_all)
  also have "\<dots> = take i ns @ drop (Suc i) ns" unfolding ns by (simp add: take_map drop_map)
  finally have nodes: "raw_nodes p' = Some (take i ns @ drop (Suc i) ns)" .
  obtain left' where left': "page_layout leaf psize p' left'" using p'(2) by (auto simp: page_layout_def)
  have "used ns = used (take i ns @ ns ! i # drop (Suc i) ns)" using assms(3) by (simp flip: id_take_nth_drop)
  then have "left' = left + (node_bytes (ns ! i) + 2)"
    using page_space [OF assms(1,2)] page_space [OF left' nodes] by (simp add: used_def)
  with p'(1) left' nodes show ?thesis by auto
qed

text \<open>
  C30. \<open>mdb_node_del\<close> takes exactly one node off a page, leaf or branch: its bytes are closed up,
  all other nodes stay readable in their order, and its bytes and its pointer are free again.
\<close>

theorem node_del_removes:
  assumes "page_layout leaf psize p left" and "raw_nodes p = Some ns" and "i < length ns"
  shows "\<exists>p'. mdb_node_del p i ksize = Some p' \<and> page_layout leaf psize p' (left + (node_bytes (ns ! i) + 2))
    \<and> raw_nodes p' = Some (take i ns @ drop (Suc i) ns)"
  using assms by (rule node_del_page)

lemma one_leaf:
  obtains p where "page_layout True 64 p 34" "raw_nodes p = Some [Leaf_node ''b'' ''xx'']"
proof -
  have flag: "\<not> F_ISSET (0 :: 32 word) F_BIGDATA" by (simp add: F_ISSET_def F_BIGDATA_def)
  have "mdb_leaf_size 24 (the_val ''b'') (the_val ''xx'') = 14"
    by (simp add: mdb_leaf_size_def the_val_ok(4) NODESIZE_def EVEN_def)
  with leaf_add [OF fresh_leaf _ the_val_ok(1) the_val_ok(2) flag, of 0 "''b''" "''xx''" "\<lambda>n. Inr 77" 77 False 24 0 0] that
  show ?thesis by (auto simp: the_val_ok NODESIZE_def)
qed

theorem node_del_removes_witness:
  "\<exists>p p'. raw_nodes p = Some [Leaf_node ''b'' ''xx''] \<and> mdb_node_del p 0 0 = Some p' \<and> page_layout True 64 p' 48
    \<and> raw_nodes p' = Some []"
proof -
  obtain p where p: "page_layout True 64 p 34" "raw_nodes p = Some [Leaf_node ''b'' ''xx'']" by (rule one_leaf)
  from node_del_removes [OF this, of 0 0] p(2) show ?thesis by (auto simp: NODESIZE_def EVEN_def)
qed

text \<open>
  C32. A child added to a branch page is found there, and deleting it again gives back the nodes
  and the free space there were: \<open>mdb_branch_size\<close> decides exactly whether it fits, although it
  is not rounded up to an even size as the size of the node is.
\<close>

theorem branch_add_del:
  assumes "page_layout False psize p left" and "raw_nodes p = Some ns" and "i \<le> length ns"
    and "key_ok key" and "unat pgno < 2 ^ 48" and "mdb_branch_size key \<le> left"
  shows "\<exists>p' p''. mdb_node_add nodemax psize pad page_new p i key data pgno flags
        = Some \<lparr>na_rc = MDB_SUCCESS, na_page = p', na_txn_error = False, na_overflow = None\<rparr>
    \<and> raw_nodes p' = Some (take i ns @ Branch_node (key_bytes key) pgno # drop i ns)
    \<and> mdb_node_del p' i ksize = Some p'' \<and> raw_nodes p'' = Some ns \<and> page_layout False psize p'' left"
proof -
  obtain p' where p': "mdb_node_add nodemax psize pad page_new p i key data pgno flags
        = Some \<lparr>na_rc = MDB_SUCCESS, na_page = p', na_txn_error = False, na_overflow = None\<rparr>"
    "page_layout False psize p' (left - EVEN (mdb_branch_size key))"
    "raw_nodes p' = Some (take i ns @ Branch_node (key_bytes key) pgno # drop i ns)"
    using branch_add [OF assms(1-5), of nodemax pad page_new data flags] assms(6) by auto
  let ?ns = "take i ns @ Branch_node (key_bytes key) pgno # drop i ns"
  have "i < length ?ns" using assms(3) by simp
  then obtain p'' where p'': "mdb_node_del p' i ksize = Some p''"
    "raw_nodes p'' = Some (take i ?ns @ drop (Suc i) ?ns)"
    "page_layout False psize p'' (left - EVEN (mdb_branch_size key) + (node_bytes (?ns ! i) + 2))"
    using node_del_page [OF p'(2,3)] by blast
  have ns: "take i ?ns @ drop (Suc i) ?ns = ns" using assms(3) by simp
  have "raw_nodes p'' = Some ns" using p''(2) unfolding ns .
  moreover have "left - EVEN (mdb_branch_size key) + (node_bytes (?ns ! i) + 2) = left"
    using page_space [OF assms(1,2)] page_space [OF p''(3) calculation] by simp
  ultimately show ?thesis using p'(1,3) p''(1,3) by auto
qed


theorem branch_add_del_witness:
  "\<exists>p' p''. mdb_node_add 24 64 0 (\<lambda>n. Inr 77) (fresh_page FLAG_BRANCH 64) 0 (Some (the_val ''abc'')) None 9 0
        = Some \<lparr>na_rc = MDB_SUCCESS, na_page = p', na_txn_error = False, na_overflow = None\<rparr>
    \<and> raw_nodes p' = Some [Branch_node ''abc'' 9] \<and> mdb_node_del p' 0 0 = Some p'' \<and> raw_nodes p'' = Some []"
  using branch_add_del [OF fresh_branch _ the_val_ok(1), of 0 "''abc''" 9 24 0 "\<lambda>n. Inr 77" None 0 0]
  by (auto simp: mdb_branch_size_def the_val_ok NODESIZE_def key_bytes_def)

section \<open>Searching what was added\<close>

text \<open>What the search reads of a leaf page.\<close>

definition leaf_view :: "mdb_id \<Rightarrow> mdb_node list \<Rightarrow> mdb_page" where
  "leaf_view pgno ns = \<lparr>mp_pgno = pgno, mp_flags = P_LEAF, mp_nodes = ns, mp_data = []\<rparr>"

lemma insert_in_place:
  assumes "keys_from 0 ns" and "place 0 ns key i" and "nd_key n = key"
  shows "keys_from 0 (take i ns @ n # drop i ns)"
proof -
  have s: "keys_from 0 xs \<longleftrightarrow> sorted_wrt (<) (List.map nd_key xs)" for xs
    by (auto simp: keys_from_def key_at_def sorted_wrt_iff_nth_less)
  have "sorted_wrt (<) (List.map nd_key (take i ns) @ List.map nd_key (drop i ns))"
    using assms(1) unfolding s by (simp flip: map_append)
  moreover have "k < key" if "k \<in> set (List.map nd_key (take i ns))" for k
    using that assms(2) by (auto simp: place_def key_at_def in_set_conv_nth)
  moreover have "key < k" if "k \<in> set (List.map nd_key (drop i ns))" for k
    using that assms(2) by (auto simp: place_def key_at_def in_set_conv_nth)
  ultimately show ?thesis unfolding s using assms(3) by (auto simp: sorted_wrt_append)
qed

lemma search_at:
  assumes "keys_from 0 ns" and "i < length ns" and "key_at ns i = key"
  shows "node_search (leaf_view pgno ns) key = Some (i, True, Some (ns ! i))"
proof -
  let ?mp = "leaf_view pgno ns"
  have f: "first_key ?mp = 0" "NUMKEYS ?mp = length ns" "mp_nodes ?mp = ns"
    by (simp_all add: first_key_def leaf_view_def IS_LEAF_def NUMKEYS_def)
  have "keys_from (first_key ?mp) (mp_nodes ?mp)" "first_key ?mp < NUMKEYS ?mp" unfolding f using assms(1,2) by auto
  then show ?thesis
  proof (cases rule: node_search_result [where key = key])
    case (exact p)
    then have p: "p < length ns" "key_at ns p = key" using f by simp_all
    have "\<not> p < i" "\<not> i < p" using assms p unfolding keys_from_def by (metis less_irrefl le0)+
    then have "p = i" by simp
    then show ?thesis using exact(1) f by simp
  next
    case (beside p)
    then have "place 0 ns key p" using f by simp
    then have "key_at ns i < key_at ns i" using assms(2,3) by (cases "i < p") (auto simp: place_def not_less)
    then show ?thesis by simp
  qed
qed

text \<open>
  C16. Putting a record where the search points: \<open>mdb_node_search\<close> on a leaf page in key order
  gives the index for a key that is absent, and after \<open>mdb_node_add\<close> at that index the bytes of
  the page hold nodes in key order again, among which the search finds the new key, exactly.
\<close>

theorem put_then_search:
  assumes "page_layout True psize p left" and "raw_nodes p = Some ns" and "keys_from 0 ns" and "ns \<noteq> []"
    and "key_ok (Some k)" and "data_ok d flags None" and "\<not> F_ISSET flags F_BIGDATA"
    and "page_new (OVPAGES (mv_size d) psize) = Inr pg" and "mdb_leaf_size nodemax k d \<le> left"
    and "node_search (leaf_view no ns) (val_bytes k) = Some (i, False, hit)"
  shows "\<exists>r ns' n. mdb_node_add nodemax psize pad page_new p i (Some k) (Some d) pgno flags = Some r
    \<and> na_rc r = MDB_SUCCESS \<and> raw_nodes (na_page r) = Some ns' \<and> keys_from 0 ns' \<and> length ns' = length ns + 1
    \<and> node_search (leaf_view no ns') (val_bytes k) = Some (i, True, Some n) \<and> nd_key n = val_bytes k"
proof -
  let ?mp = "leaf_view no ns"
  let ?big = "nodemax < NODESIZE + mv_size k + mv_size d"
  let ?n = "if ?big then Big_node (val_bytes k) (mv_size d) pg else Leaf_node (val_bytes k) (val_bytes d)"
  let ?ns = "take i ns @ ?n # drop i ns"
  have f: "first_key ?mp = 0" "NUMKEYS ?mp = length ns" "mp_nodes ?mp = ns"
    by (simp_all add: first_key_def leaf_view_def IS_LEAF_def NUMKEYS_def)
  have "keys_from (first_key ?mp) (mp_nodes ?mp)" "first_key ?mp < NUMKEYS ?mp" using assms(3,4) f by simp_all
  then have place: "place 0 ns (val_bytes k) i"
  proof (cases rule: node_search_result [where key = "val_bytes k"])
    case (exact p)
    then show ?thesis using assms(10) by simp
  next
    case (beside p)
    then show ?thesis using assms(10) f by simp
  qed
  then have i: "i \<le> length ns" by (simp add: place_def)
  have key: "nd_key ?n = val_bytes k" by simp
  note ordered = insert_in_place [OF assms(3) place key]
  have at: "i < length ?ns" "?ns ! i = ?n" using i by (simp_all add: nth_append)
  then have "node_search (leaf_view no ?ns) (val_bytes k) = Some (i, True, Some ?n)"
    using search_at [OF ordered at(1), of "val_bytes k" no] key by (simp add: key_at_def)
  moreover obtain p' where "mdb_node_add nodemax psize pad page_new p i (Some k) (Some d) pgno flags
        = Some \<lparr>na_rc = MDB_SUCCESS, na_page = p', na_txn_error = False, na_overflow = (if ?big then Some (pg, d) else None)\<rparr>"
    "raw_nodes p' = Some ?ns"
    using leaf_add [where page_new = page_new, OF assms(1,2) i assms(5-8), of ?big nodemax pad pgno] assms(9) by auto
  moreover have "length ?ns = length ns + 1" using i by simp
  ultimately show ?thesis using ordered key by (metis node_added.select_convs(1,2))
qed


theorem put_then_search_witness:
  "\<exists>p r ns n. raw_nodes p = Some [Leaf_node ''b'' ''xx'']
    \<and> mdb_node_add 24 64 0 (\<lambda>n. Inr 77) p 0 (Some (the_val ''a'')) (Some (the_val ''y'')) 0 0 = Some r
    \<and> raw_nodes (na_page r) = Some ns \<and> node_search (leaf_view 3 ns) ''a'' = Some (0, True, Some n)"
proof -
  obtain p where p: "page_layout True 64 p 34" "raw_nodes p = Some [Leaf_node ''b'' ''xx'']" by (rule one_leaf)
  have flag: "\<not> F_ISSET (0 :: 32 word) F_BIGDATA" by (simp add: F_ISSET_def F_BIGDATA_def)
  have "mdb_leaf_size 24 (the_val ''a'') (the_val ''y'') \<le> 34"
    by (simp add: mdb_leaf_size_def the_val_ok(4) NODESIZE_def EVEN_def)
  moreover have "node_search (leaf_view 3 [Leaf_node ''b'' ''xx'']) (val_bytes (the_val ''a'')) = Some (0, False, Some (Leaf_node ''b'' ''xx''))"
    by (simp add: node_search_def leaf_view_def IS_LEAF_def NUMKEYS_def NODEPTR_def the_val_ok node_loop.simps mdb_cmp_memn_CMP CMP_def)
  ultimately show ?thesis
    using put_then_search [OF p _ _ the_val_ok(1) the_val_ok(2) flag, of "''a''" "''y''" "\<lambda>n. Inr 77" 77 24 3 0 _ 0 0] p(2)
    by (auto simp: keys_from_def the_val_ok)
qed

end
