(* ===== verification/Lmdb_Meta.thy ===== *)
theory Lmdb_Meta
  imports Lmdb_Node
begin

text \<open>
  The two meta pages of a data file, which name its snapshots: reading them when the file is
  opened, writing them for a new file, and \<open>mdb_env_write_meta\<close>, by which a transaction commits.
  Transaction \<open>n\<close> writes meta page \<open>n mod 2\<close>, so the last snapshot survives a write that fails.
\<close>

section \<open>Data\<close>

definition MDB_MAGIC :: "32 word" where "MDB_MAGIC = 0xBEEFC0DE"
definition MDB_DATA_VERSION :: "32 word" where "MDB_DATA_VERSION = 1"
definition MDB_INVALID :: int where "MDB_INVALID = - 30793"
definition MDB_NOSYNC :: "32 word" where "MDB_NOSYNC = 0x10000"
definition MDB_NOMETASYNC :: "32 word" where "MDB_NOMETASYNC = 0x40000"
definition MDB_WRITEMAP :: "32 word" where "MDB_WRITEMAP = 0x80000"
definition MDB_FATAL_ERROR :: "32 word" where "MDB_FATAL_ERROR = 0x80000000"
definition MDB_INTEGERKEY :: "16 word" where "MDB_INTEGERKEY = 0x08"
definition FLAG_META :: "16 word" where "FLAG_META = 0x08"
definition ENOENT :: int where "ENOENT = 2"
definition EINTR :: int where "EINTR = 4"
definition EIO :: int where "EIO = 5"
definition ENOSPC :: int where "ENOSPC = 28"

record mdb_db =
  md_pad :: "32 word"
  md_flags :: "16 word"
  md_depth :: "16 word"
  md_branch_pages :: mdb_id
  md_leaf_pages :: mdb_id
  md_overflow_pages :: mdb_id
  md_entries :: "64 word"
  md_root :: mdb_id

record mdb_meta =
  mm_magic :: "32 word"
  mm_version :: "32 word"
  mm_address :: "64 word"
  mm_mapsize :: "64 word"
  mm_free :: mdb_db
  mm_main :: mdb_db
  mm_last_pg :: mdb_id
  mm_txnid :: "64 word"

text \<open>\<open>mm_psize\<close> and \<open>mm_flags\<close> are fields of \<open>mm_dbs[FREE_DBI]\<close>.\<close>

definition mm_psize :: "mdb_meta \<Rightarrow> 32 word" where "mm_psize m = md_pad (mm_free m)"

text \<open>The bytes \<open>mdb_env_write_meta\<close> writes: from \<open>mm_mapsize\<close> to the end.\<close>

definition META_LEN :: nat where "META_LEN = 120"

section \<open>Opening a file\<close>

text \<open>What \<open>pread\<close> answers: an error, a short read, or a page with its flags and its content.\<close>

datatype pread_result = Read_error int | Read_short nat | Read_page "16 word" mdb_meta

definition header_page :: "pread_result \<Rightarrow> nat \<Rightarrow> int + mdb_meta" where
  "header_page r ofs =
     (case r of
        Read_error e \<Rightarrow> Inl e
      | Read_short n \<Rightarrow> Inl (if n = 0 \<and> ofs = 0 then ENOENT else MDB_INVALID)
      | Read_page flags m \<Rightarrow>
          if \<not> F_ISSET flags FLAG_META then Inl MDB_INVALID
          else if mm_magic m \<noteq> MDB_MAGIC then Inl MDB_INVALID
          else if mm_version m \<noteq> MDB_DATA_VERSION then Inl MDB_VERSION_MISMATCH
          else Inr m)"

text \<open>The loop over the two pages; the second starts where the first says a page ends.\<close>

fun header_loop :: "(nat \<Rightarrow> pread_result) \<Rightarrow> nat \<Rightarrow> nat \<Rightarrow> mdb_meta option \<Rightarrow> int + mdb_meta option" where
  "header_loop pread 0 ofs meta = Inr meta"
| "header_loop pread (Suc i) ofs meta =
     (case header_page (pread ofs) ofs of
        Inl rc \<Rightarrow> Inl rc
      | Inr m \<Rightarrow>
          let best = (case meta of None \<Rightarrow> m | Some b \<Rightarrow> if ofs = 0 \<or> mm_txnid b < mm_txnid m then m else b)
          in header_loop pread i (ofs + unat (mm_psize best)) (Some best))"

definition NUM_METAS :: nat where "NUM_METAS = 2"

definition mdb_env_read_header :: "(nat \<Rightarrow> pread_result) \<Rightarrow> int + mdb_meta option" where
  "mdb_env_read_header pread = header_loop pread NUM_METAS 0 None"

section \<open>The environment\<close>

text \<open>\<open>me_meta0\<close> and \<open>me_meta1\<close> are the meta pages of the file, which \<open>me_metas\<close> point to.\<close>

record mdb_env =
  me_flags :: "32 word"
  me_psize :: "32 word"
  me_mapsize :: "64 word"
  me_meta0 :: mdb_meta
  me_meta1 :: mdb_meta
  mti_txnid :: "64 word option"

definition me_metas :: "mdb_env \<Rightarrow> bool \<Rightarrow> mdb_meta" where
  "me_metas env i = (if i then me_meta1 env else me_meta0 env)"

definition set_meta :: "bool \<Rightarrow> mdb_meta \<Rightarrow> mdb_env \<Rightarrow> mdb_env" where
  "set_meta i m env = (if i then env\<lparr>me_meta1 := m\<rparr> else env\<lparr>me_meta0 := m\<rparr>)"

definition mdb_env_pick_meta :: "mdb_env \<Rightarrow> mdb_meta" where
  "mdb_env_pick_meta env = me_metas env (mm_txnid (me_metas env False) < mm_txnid (me_metas env True))"

section \<open>A new file\<close>

definition mdb_env_init_meta0 :: "mdb_env \<Rightarrow> mdb_meta \<Rightarrow> mdb_meta" where
  "mdb_env_init_meta0 env meta =
     meta\<lparr>mm_magic := MDB_MAGIC, mm_version := MDB_DATA_VERSION, mm_mapsize := me_mapsize env,
       mm_last_pg := of_nat (NUM_METAS - 1),
       mm_free := (mm_free meta)\<lparr>md_pad := me_psize env,
         md_flags := (ucast (me_flags env AND 0xffff)) OR MDB_INTEGERKEY, md_root := - 1\<rparr>,
       mm_main := (mm_main meta)\<lparr>md_root := - 1\<rparr>\<rparr>"

text \<open>\<open>pwrite\<close> answers the number of bytes written, or an error. \<open>calloc\<close> may fail.\<close>

datatype pwrite_result = Wrote nat | Write_error int

fun pwrite_loop :: "pwrite_result list \<Rightarrow> pwrite_result option" where
  "pwrite_loop [] = None"
| "pwrite_loop (r # rs) = (if r = Write_error EINTR then pwrite_loop rs else Some r)"

definition mdb_env_init_meta :: "bool \<Rightarrow> pwrite_result list \<Rightarrow> mdb_env \<Rightarrow> mdb_meta \<Rightarrow> (int \<times> mdb_env) option" where
  "mdb_env_init_meta calloc rs env meta =
     (if \<not> calloc then Some (ENOMEM, env)
      else do {
        r \<leftarrow> pwrite_loop rs;
        Some (case r of
            Write_error e \<Rightarrow> (e, env)
          | Wrote n \<Rightarrow>
              if n = unat (me_psize env * of_nat NUM_METAS)
              then (MDB_SUCCESS, set_meta True meta (set_meta False meta env)) else (ENOSPC, env))
      })"

section \<open>Committing\<close>

record commit_txn =
  ct_txnid :: "64 word"
  ct_free :: mdb_db
  ct_main :: mdb_db
  ct_next_pgno :: mdb_id

text \<open>The fields from \<open>mm_mapsize\<close> on.\<close>

definition overlay :: "mdb_meta \<Rightarrow> mdb_meta \<Rightarrow> mdb_meta" where
  "overlay old new =
     old\<lparr>mm_mapsize := mm_mapsize new, mm_free := mm_free new, mm_main := mm_main new,
       mm_last_pg := mm_last_pg new, mm_txnid := mm_txnid new\<rparr>"

text \<open>
  One \<open>pwrite\<close> of those fields over a meta page. What a write that fails or is cut short leaves
  on the page is not known: \<open>torn\<close> says what, from the page and what was to be written.
\<close>

definition write_fields :: "(mdb_meta \<Rightarrow> mdb_meta \<Rightarrow> mdb_meta) \<Rightarrow> pwrite_result \<Rightarrow> mdb_meta \<Rightarrow> mdb_meta \<Rightarrow> mdb_meta" where
  "write_fields torn r page new = (if r = Wrote META_LEN then overlay page new else torn page new)"

text \<open>The loop at \<open>retry_write\<close>: the code, and the page.\<close>

fun retry_write ::
  "(mdb_meta \<Rightarrow> mdb_meta \<Rightarrow> mdb_meta) \<Rightarrow> pwrite_result list \<Rightarrow> mdb_meta \<Rightarrow> mdb_meta \<Rightarrow> (int \<times> mdb_meta) option" where
  "retry_write torn [] page new = None"
| "retry_write torn (r # rs) page new =
     (let page1 = write_fields torn r page new in
      if r = Wrote META_LEN then Some (MDB_SUCCESS, page1)
      else let rc = (case r of Write_error e \<Rightarrow> e | Wrote n \<Rightarrow> EIO)
           in if rc = EINTR then retry_write torn rs page1 new else Some (rc, page1))"

text \<open>
  \<open>rs\<close> are the answers of \<open>pwrite\<close> in turn, \<open>r2\<close> that of the write that puts old data back,
  \<open>msync\<close> the error of \<open>MDB_MSYNC\<close>, if any.
\<close>

definition new_mapsize :: "mdb_env \<Rightarrow> bool \<Rightarrow> 64 word" where
  "new_mapsize env toggle =
     (let mapsize = mm_mapsize (me_metas env (\<not> toggle))
      in if mapsize < me_mapsize env then me_mapsize env else mapsize)"

definition meta_of_txn :: "64 word \<Rightarrow> commit_txn \<Rightarrow> mdb_meta \<Rightarrow> mdb_meta" where
  "meta_of_txn mapsize txn m =
     m\<lparr>mm_mapsize := mapsize, mm_free := ct_free txn, mm_main := ct_main txn,
       mm_last_pg := ct_next_pgno txn - 1, mm_txnid := ct_txnid txn\<rparr>"

definition mdb_env_write_meta ::
  "(mdb_meta \<Rightarrow> mdb_meta \<Rightarrow> mdb_meta) \<Rightarrow> pwrite_result list \<Rightarrow> pwrite_result \<Rightarrow> int option
     \<Rightarrow> commit_txn \<Rightarrow> mdb_env \<Rightarrow> (int \<times> mdb_env) option" where
  "mdb_env_write_meta torn rs r2 msync txn env =
     (let toggle = odd (ct_txnid txn);
          mp = me_metas env toggle;
          meta = meta_of_txn (new_mapsize env toggle) txn mp;
          fail = (\<lambda>rc env. Some (rc, env\<lparr>me_flags := me_flags env OR MDB_FATAL_ERROR\<rparr>));
          ready = (\<lambda>env. Some (MDB_SUCCESS, env\<lparr>mti_txnid := map_option (\<lambda>_. ct_txnid txn) (mti_txnid env)\<rparr>))
      in if F_ISSET (me_flags env) MDB_WRITEMAP then
           (let env1 = set_meta toggle meta env
            in if me_flags env AND (MDB_NOMETASYNC OR MDB_NOSYNC) = 0
               then case msync of Some rc \<Rightarrow> fail rc env1 | None \<Rightarrow> ready env1
               else ready env1)
         else do {
           (rc, page) \<leftarrow> retry_write torn rs mp meta;
           if rc \<noteq> MDB_SUCCESS
           then fail rc (set_meta toggle
                  (write_fields torn r2 page (meta\<lparr>mm_last_pg := mm_last_pg mp, mm_txnid := mm_txnid mp\<rparr>)) env)
           else ready (set_meta toggle page env)
         })"

section \<open>The last snapshot\<close>

text \<open>The newest meta page is the one its transaction's number names.\<close>

definition alternating :: "mdb_env \<Rightarrow> bool" where
  "alternating env = (odd (mm_txnid (mdb_env_pick_meta env))
     = (mm_txnid (me_metas env False) < mm_txnid (me_metas env True)))"

text \<open>The snapshot a meta page names.\<close>

definition snapshot :: "mdb_meta \<Rightarrow> mdb_db \<times> mdb_db \<times> mdb_id \<times> 64 word" where
  "snapshot m = (mm_free m, mm_main m, mm_last_pg m, mm_txnid m)"

lemma set_meta_same [simp]: "me_metas (set_meta i m env) j = (if j = i then m else me_metas env j)"
  by (auto simp: set_meta_def me_metas_def)

lemma me_metas_flags [simp]: "me_metas (env\<lparr>me_flags := f\<rparr>) i = me_metas env i" "me_metas (env\<lparr>mti_txnid := t\<rparr>) i = me_metas env i"
  by (simp_all add: me_metas_def)

lemma odd_succ: "odd (w + 1 :: 64 word) \<longleftrightarrow> even w"
  by simp

lemma pick_after:
  assumes "alternating env" and "ct_txnid txn = mm_txnid (mdb_env_pick_meta env) + 1" and "ct_txnid txn \<noteq> 0"
    and "mm_txnid page = ct_txnid txn"
  defines "toggle \<equiv> odd (ct_txnid txn)"
  shows "mm_txnid (me_metas env (\<not> toggle)) = mm_txnid (mdb_env_pick_meta env)"
    and "me_metas env (\<not> toggle) = mdb_env_pick_meta env"
    and "(mm_txnid (me_metas (set_meta toggle page env) False) < mm_txnid (me_metas (set_meta toggle page env) True)) = toggle"
proof -
  let ?n = "mm_txnid (mdb_env_pick_meta env)"
  have t: "toggle = even ?n" using assms(2) by (simp add: toggle_def)
  have "unat (ct_txnid txn) = Suc (unat ?n)" using assms(2,3) unatSuc [of ?n] by (simp add: add.commute)
  then have lt: "?n < ct_txnid txn" by (simp add: word_less_nat_alt)
  show other: "me_metas env (\<not> toggle) = mdb_env_pick_meta env"
    using assms(1) t by (simp add: alternating_def mdb_env_pick_meta_def)
  then show "mm_txnid (me_metas env (\<not> toggle)) = ?n" by simp
  with lt assms(4) show "(mm_txnid (me_metas (set_meta toggle page env) False) < mm_txnid (me_metas (set_meta toggle page env) True)) = toggle"
    by (cases toggle) auto
qed


section \<open>A commit is atomic\<close>

text \<open>The file as \<open>pread\<close> shows it to the next process that opens it.\<close>

definition file_of :: "mdb_env \<Rightarrow> nat \<Rightarrow> pread_result" where
  "file_of env ofs =
     (if ofs = 0 then Read_page FLAG_META (me_meta0 env)
      else if ofs = unat (me_psize env) then Read_page FLAG_META (me_meta1 env)
      else Read_short 0)"

definition metas_ok :: "mdb_env \<Rightarrow> bool" where
  "metas_ok env = (me_psize env \<noteq> 0 \<and>
     (\<forall>i. mm_magic (me_metas env i) = MDB_MAGIC \<and> mm_version (me_metas env i) = MDB_DATA_VERSION \<and> mm_psize (me_metas env i) = me_psize env))"

lemma read_header_picks:
  assumes "metas_ok env"
  shows "mdb_env_read_header (file_of env) = Inr (Some (mdb_env_pick_meta env))"
proof -
  have psize: "unat (me_psize env) \<noteq> 0" using assms by (simp add: metas_ok_def unat_eq_0)
  have page: "header_page (Read_page FLAG_META (me_metas env i)) ofs = Inr (me_metas env i)" for i ofs
    using assms by (simp add: header_page_def metas_ok_def F_ISSET_def)
  have p0: "header_page (file_of env 0) 0 = Inr (me_metas env False)"
    using page [of False 0] by (simp add: file_of_def me_metas_def)
  have p1: "header_page (file_of env (unat (me_psize env))) (unat (me_psize env)) = Inr (me_metas env True)"
    using page [of True "unat (me_psize env)"] psize by (simp add: file_of_def me_metas_def)
  have "mm_psize (me_metas env False) = me_psize env" using assms by (simp add: metas_ok_def)
  then show ?thesis
    using psize by (simp add: mdb_env_read_header_def NUM_METAS_def numeral_2_eq_2 p0 p1 Let_def mdb_env_pick_meta_def)
qed

definition keeps_stamp :: "(mdb_meta \<Rightarrow> mdb_meta \<Rightarrow> mdb_meta) \<Rightarrow> bool" where
  "keeps_stamp torn = (\<forall>old new. mm_magic (torn old new) = mm_magic old \<and> mm_version (torn old new) = mm_version old)"

lemma overlay_simps [simp]:
  "mm_magic (overlay old new) = mm_magic old" "mm_version (overlay old new) = mm_version old"
  "mm_txnid (overlay old new) = mm_txnid new" "mm_psize (overlay old new) = mm_psize new"
  "snapshot (overlay old new) = snapshot new"
  by (simp_all add: overlay_def mm_psize_def snapshot_def)

lemma retry_write_page:
  assumes "retry_write torn rs page new = Some (rc, page1)" and "keeps_stamp torn"
  shows "mm_magic page1 = mm_magic page \<and> mm_version page1 = mm_version page \<and>
    (rc = MDB_SUCCESS \<longrightarrow> mm_txnid page1 = mm_txnid new \<and> mm_psize page1 = mm_psize new \<and> snapshot page1 = snapshot new)
    \<or> Write_error 0 \<in> set rs"
  using assms
proof (induction torn rs page new rule: retry_write.induct)
  case (2 torn r rs page new)
  let ?page1 = "write_fields torn r page new"
  have stamp: "mm_magic ?page1 = mm_magic page" "mm_version ?page1 = mm_version page"
    using 2(3) by (auto simp: write_fields_def keeps_stamp_def)
  show ?case
  proof (cases "r = Wrote META_LEN")
    case True
    then show ?thesis using 2(2) by (auto simp: write_fields_def)
  next
    case False
    let ?rc = "case r of Write_error e \<Rightarrow> e | Wrote n \<Rightarrow> EIO"
    show ?thesis
    proof (cases "?rc = EINTR")
      case True
      then have "retry_write torn rs ?page1 new = Some (rc, page1)" using 2(2) False by (simp add: Let_def)
      from 2(1) [OF refl False refl True this 2(3)] stamp show ?thesis by auto
    next
      case rc: False
      then have "rc = ?rc" "page1 = ?page1" using 2(2) False by (simp_all add: Let_def)
      then show ?thesis using stamp by (cases r) (auto simp: EIO_def MDB_SUCCESS_def)
    qed
  qed
qed simp

end
