(* ===== verification/Lmdb_Meta_Properties.thy ===== *)
theory Lmdb_Meta_Properties
  imports Lmdb_Meta
begin

text \<open>The atomicity of a commit, as the next process that opens the file sees it.\<close>

lemma pick_set_meta:
  assumes "alternating env" and "ct_txnid txn = mm_txnid (mdb_env_pick_meta env) + 1" and "ct_txnid txn \<noteq> 0"
    and "mm_txnid page = ct_txnid txn"
  shows "mdb_env_pick_meta (set_meta (odd (ct_txnid txn)) page env) = page"
    and "alternating (set_meta (odd (ct_txnid txn)) page env)"
  using pick_after(3) [OF assms] assms(4) by (simp_all add: alternating_def mdb_env_pick_meta_def)

lemma pick_set_back:
  assumes "alternating env" and "ct_txnid txn = mm_txnid (mdb_env_pick_meta env) + 1" and "ct_txnid txn \<noteq> 0"
    and "mm_txnid page = mm_txnid (me_metas env (odd (ct_txnid txn)))"
  shows "mdb_env_pick_meta (set_meta (odd (ct_txnid txn)) page env) = mdb_env_pick_meta env"
    and "alternating (set_meta (odd (ct_txnid txn)) page env)"
proof -
  let ?t = "odd (ct_txnid txn)" and ?env = "set_meta (odd (ct_txnid txn)) page env"
  have other: "me_metas env (\<not> ?t) = mdb_env_pick_meta env" using pick_after(2) [OF assms(1-3), of "(me_meta0 env)\<lparr>mm_txnid := ct_txnid txn\<rparr>"] by simp
  have same: "mm_txnid (me_metas ?env i) = mm_txnid (me_metas env i)" for i using assms(4) by simp
  have newer: "(mm_txnid (me_metas env False) < mm_txnid (me_metas env True)) = (\<not> ?t)"
    using assms(1,2) by (simp add: alternating_def)
  have "mdb_env_pick_meta ?env = me_metas ?env (\<not> ?t)" unfolding mdb_env_pick_meta_def same newer ..
  then show pick: "mdb_env_pick_meta ?env = mdb_env_pick_meta env" using other by simp
  show "alternating ?env" using assms(1) unfolding alternating_def same pick .
qed

lemma metas_ok_set:
  assumes "metas_ok env" and "mm_magic page = MDB_MAGIC" and "mm_version page = MDB_DATA_VERSION" and "mm_psize page = me_psize env"
  shows "metas_ok (set_meta i page env)"
  using assms by (simp add: metas_ok_def) (simp add: set_meta_def)

lemma file_of_cong:
  "metas_ok env \<Longrightarrow> metas_ok (env\<lparr>me_flags := f\<rparr>)" "metas_ok env \<Longrightarrow> metas_ok (env\<lparr>mti_txnid := t\<rparr>)"
  "mdb_env_pick_meta (env\<lparr>me_flags := f\<rparr>) = mdb_env_pick_meta env" "mdb_env_pick_meta (env\<lparr>mti_txnid := t\<rparr>) = mdb_env_pick_meta env"
  "alternating (env\<lparr>me_flags := f\<rparr>) = alternating env" "alternating (env\<lparr>mti_txnid := t\<rparr>) = alternating env"
  by (simp_all add: metas_ok_def mdb_env_pick_meta_def alternating_def)

lemma fatal_flag: "F_ISSET (w OR MDB_FATAL_ERROR) MDB_FATAL_ERROR"
  by (simp add: F_ISSET_def word_ao_absorbs)

text \<open>
  C9. A commit is atomic (without \<open>MDB_WRITEMAP\<close>): when \<open>mdb_env_write_meta\<close> succeeds, the next process
  to read the header of the file finds the snapshot of the transaction. When its write fails or is
  cut short, however much of the page it has changed, the environment is marked as fatally damaged;
  and provided that the second write, which puts the old number back and whose result the code
  ignores, goes through, the header still gives the snapshot there was. Then, as after a success,
  the newest page is again the one the next commit does not write.
\<close>

theorem commit_is_atomic:
  assumes "alternating env" and "metas_ok env" and "ct_txnid txn = mm_txnid (mdb_env_pick_meta env) + 1" and "ct_txnid txn \<noteq> 0"
    and "md_pad (ct_free txn) = me_psize env" and "\<not> F_ISSET (me_flags env) MDB_WRITEMAP"
    and "keeps_stamp torn" and "Write_error 0 \<notin> set rs"
    and "mdb_env_write_meta torn rs r2 msync txn env = Some (rc, env')"
  shows "if rc = MDB_SUCCESS
    then alternating env' \<and> metas_ok env' \<and> mdb_env_read_header (file_of env') = Inr (Some (mdb_env_pick_meta env'))
      \<and> snapshot (mdb_env_pick_meta env') = (ct_free txn, ct_main txn, ct_next_pgno txn - 1, ct_txnid txn)
    else F_ISSET (me_flags env') MDB_FATAL_ERROR
      \<and> (r2 = Wrote META_LEN \<longrightarrow> alternating env' \<and> metas_ok env'
          \<and> mdb_env_read_header (file_of env') = Inr (Some (mdb_env_pick_meta env)) \<and> mdb_env_pick_meta env' = mdb_env_pick_meta env)"
proof -
  let ?t = "odd (ct_txnid txn)"
  let ?mp = "me_metas env ?t"
  let ?meta = "meta_of_txn (new_mapsize env ?t) txn ?mp"
  let ?kept = "?meta\<lparr>mm_last_pg := mm_last_pg ?mp, mm_txnid := mm_txnid ?mp\<rparr>"
  let ?restored = "\<lambda>page. write_fields torn r2 page ?kept"
  obtain rc1 page where w: "retry_write torn rs ?mp ?meta = Some (rc1, page)"
    "(rc, env') = (if rc1 \<noteq> MDB_SUCCESS
       then (rc1, (set_meta ?t (?restored page) env)\<lparr>me_flags := me_flags (set_meta ?t (?restored page) env) OR MDB_FATAL_ERROR\<rparr>)
       else (MDB_SUCCESS, (set_meta ?t page env)\<lparr>mti_txnid := map_option (\<lambda>_. ct_txnid txn) (mti_txnid (set_meta ?t page env))\<rparr>))"
    using assms(6,9) by (auto simp: mdb_env_write_meta_def Let_def bind_eq_Some_conv split: if_splits)
  have new: "snapshot ?meta = (ct_free txn, ct_main txn, ct_next_pgno txn - 1, ct_txnid txn)"
    "mm_txnid ?meta = ct_txnid txn" "mm_psize ?meta = me_psize env"
    using assms(5) by (simp_all add: meta_of_txn_def snapshot_def mm_psize_def)
  have restored: "mm_txnid ?kept = mm_txnid ?mp" "mm_psize ?kept = me_psize env"
    using assms(5) by (simp_all add: meta_of_txn_def mm_psize_def)
  have old: "mm_magic ?mp = MDB_MAGIC" "mm_version ?mp = MDB_DATA_VERSION" using assms(2) by (simp_all add: metas_ok_def)
  have page: "mm_magic page = MDB_MAGIC" "mm_version page = MDB_DATA_VERSION"
    "rc1 = MDB_SUCCESS \<Longrightarrow> mm_txnid page = ct_txnid txn \<and> mm_psize page = me_psize env \<and> snapshot page = snapshot ?meta"
    using retry_write_page [OF w(1) assms(7)] assms(8) old new(2,3) by simp_all
  show ?thesis
  proof (cases "rc1 = MDB_SUCCESS")
    case True
    then have "rc = MDB_SUCCESS" "env' = (set_meta ?t page env)\<lparr>mti_txnid := map_option (\<lambda>_. ct_txnid txn) (mti_txnid (set_meta ?t page env))\<rparr>"
      using w(2) by simp_all
    then show ?thesis
      using pick_set_meta [OF assms(1,3,4), of page] page True metas_ok_set [OF assms(2), of page ?t] new(1) read_header_picks
      by (simp add: file_of_cong)
  next
    case False
    then have e: "rc \<noteq> MDB_SUCCESS" "env' = (set_meta ?t (?restored page) env)\<lparr>me_flags := me_flags (set_meta ?t (?restored page) env) OR MDB_FATAL_ERROR\<rparr>"
      using w(2) by simp_all
    have "alternating env' \<and> metas_ok env' \<and> mdb_env_pick_meta env' = mdb_env_pick_meta env" if "r2 = Wrote META_LEN"
      using pick_set_back [OF assms(1,3,4), of "overlay page ?kept"] page(1,2) restored metas_ok_set [OF assms(2), of "overlay page ?kept" ?t]
      unfolding e(2) using that by (simp add: file_of_cong write_fields_def)
    then show ?thesis using e read_header_picks [of env'] by (auto simp: fatal_flag)
  qed
qed

text \<open>A commit of transaction 3 after snapshots 1 and 2.\<close>

definition sample_db :: mdb_db where
  "sample_db = \<lparr>md_pad = 4096, md_flags = MDB_INTEGERKEY, md_depth = 1, md_branch_pages = 0, md_leaf_pages = 1,
     md_overflow_pages = 0, md_entries = 2, md_root = 3\<rparr>"

definition sample_meta :: "64 word \<Rightarrow> mdb_meta" where
  "sample_meta n = \<lparr>mm_magic = MDB_MAGIC, mm_version = MDB_DATA_VERSION, mm_address = 0, mm_mapsize = 0x100000,
     mm_free = sample_db, mm_main = sample_db, mm_last_pg = 3, mm_txnid = n\<rparr>"

definition sample_env :: mdb_env where
  "sample_env = \<lparr>me_flags = 0, me_psize = 4096, me_mapsize = 0x100000, me_meta0 = sample_meta 2,
     me_meta1 = sample_meta 1, mti_txnid = None\<rparr>"

definition sample_commit :: commit_txn where
  "sample_commit = \<lparr>ct_txnid = 3, ct_free = sample_db, ct_main = sample_db\<lparr>md_root := 5\<rparr>, ct_next_pgno = 6\<rparr>"

lemmas sample_defs = sample_db_def sample_meta_def sample_env_def sample_commit_def

lemma sample_pick: "mdb_env_pick_meta sample_env = sample_meta 2"
  by (simp add: mdb_env_pick_meta_def me_metas_def sample_env_def sample_meta_def)

lemma sample_alternating: "alternating sample_env"
  by (simp add: alternating_def sample_pick me_metas_def) (simp add: sample_env_def sample_meta_def)

lemma sample_metas_ok: "metas_ok sample_env"
  by (simp add: metas_ok_def me_metas_def sample_defs mm_psize_def)

lemma sample_write:
  "mdb_env_write_meta (\<lambda>old new. old) [Write_error EINTR, Wrote META_LEN] (Wrote META_LEN) None sample_commit sample_env
     = Some (MDB_SUCCESS, set_meta True (meta_of_txn 0x100000 sample_commit (sample_meta 1)) sample_env)"
  "mdb_env_write_meta (\<lambda>old new. old\<lparr>mm_txnid := mm_txnid new\<rparr>) [Wrote 7] (Wrote META_LEN) None sample_commit sample_env
     = Some (EIO, (set_meta True ((meta_of_txn 0x100000 sample_commit (sample_meta 1))\<lparr>mm_last_pg := 3, mm_txnid := 1\<rparr>)
         sample_env)\<lparr>me_flags := MDB_FATAL_ERROR\<rparr>)"
  by (simp_all add: mdb_env_write_meta_def Let_def me_metas_def set_meta_def new_mapsize_def meta_of_txn_def write_fields_def
      overlay_def sample_defs F_ISSET_def MDB_WRITEMAP_def EINTR_def EIO_def META_LEN_def MDB_SUCCESS_def)

lemma commit_is_atomic_witness:
  "mdb_env_read_header (file_of (set_meta True (meta_of_txn 0x100000 sample_commit (sample_meta 1)) sample_env))
     = Inr (Some (mdb_env_pick_meta (set_meta True (meta_of_txn 0x100000 sample_commit (sample_meta 1)) sample_env)))
   \<and> snapshot (mdb_env_pick_meta (set_meta True (meta_of_txn 0x100000 sample_commit (sample_meta 1)) sample_env))
     = (sample_db, sample_db\<lparr>md_root := 5\<rparr>, 5, 3)
   \<and> mdb_env_pick_meta ((set_meta True ((meta_of_txn 0x100000 sample_commit (sample_meta 1))\<lparr>mm_last_pg := 3, mm_txnid := 1\<rparr>)
         sample_env)\<lparr>me_flags := MDB_FATAL_ERROR\<rparr>) = sample_meta 2"
proof -
  have txn: "ct_txnid sample_commit = mm_txnid (mdb_env_pick_meta sample_env) + 1" "ct_txnid sample_commit \<noteq> 0"
    "md_pad (ct_free sample_commit) = me_psize sample_env" "\<not> F_ISSET (me_flags sample_env) MDB_WRITEMAP"
    unfolding sample_pick by (simp_all add: sample_defs F_ISSET_def MDB_WRITEMAP_def)
  have torn: "keeps_stamp (\<lambda>old new. old)" "keeps_stamp (\<lambda>old new. old\<lparr>mm_txnid := mm_txnid new\<rparr>)" "Write_error 0 \<notin> set [Write_error EINTR, Wrote META_LEN]" "Write_error 0 \<notin> set [Wrote 7]"
    by (simp_all add: keeps_stamp_def EINTR_def)
  note good = commit_is_atomic [OF sample_alternating sample_metas_ok txn torn(1,3) sample_write(1)]
  note bad = commit_is_atomic [OF sample_alternating sample_metas_ok txn torn(2,4) sample_write(2)]
  have commit: "(ct_free sample_commit, ct_main sample_commit, ct_next_pgno sample_commit - 1, ct_txnid sample_commit)
      = (sample_db, sample_db\<lparr>md_root := 5\<rparr>, 5, 3)"
    by (simp add: sample_commit_def)
  have codes: "EIO \<noteq> MDB_SUCCESS" by (simp add: EIO_def MDB_SUCCESS_def)
  show ?thesis using good bad codes unfolding commit sample_pick by simp
qed

end
