(* ===== verification/Lmdb_Readers.thy ===== *)
theory Lmdb_Readers
  imports Lmdb_Idl_Lists Lmdb_Meta Lmdbxx
begin

text \<open>
  The reader table: the slots in shared memory in which reading transactions publish the snapshot
  they read, so that a writer does not reuse its pages. Taking a slot, beginning and ending a
  read, the oldest snapshot in use, and clearing the slots of processes that have died.
\<close>

section \<open>The table\<close>

definition MDB_READERS_FULL :: int where "MDB_READERS_FULL = - 30790"
definition MDB_MAP_RESIZED :: int where "MDB_MAP_RESIZED = - 30785"
definition MDB_BAD_RSLOT :: int where "MDB_BAD_RSLOT = - 30783"
definition MDB_NOTLS :: "32 word" where "MDB_NOTLS = 0x200000"

type_synonym txnid = "64 word"

record mdb_reader =
  mr_txnid :: txnid
  mr_pid :: int
  mr_tid :: int

record reader_table =
  mti_numreaders :: nat
  mti_readers :: "mdb_reader list"

definition set_reader :: "nat \<Rightarrow> mdb_reader \<Rightarrow> reader_table \<Rightarrow> reader_table" where
  "set_reader i r t = t\<lparr>mti_readers := (mti_readers t)[i := r]\<rparr>"

definition reader_at :: "reader_table \<Rightarrow> nat \<Rightarrow> mdb_reader" where
  "reader_at t i = mti_readers t ! i"

section \<open>The oldest snapshot in use\<close>

definition oldest_step :: "mdb_reader \<Rightarrow> txnid \<Rightarrow> txnid" where
  "oldest_step r oldest = (if mr_pid r \<noteq> 0 \<and> mr_txnid r < oldest then mr_txnid r else oldest)"

fun oldest_loop :: "mdb_reader list \<Rightarrow> nat \<Rightarrow> txnid \<Rightarrow> txnid option" where
  "oldest_loop rs 0 oldest = Some oldest"
| "oldest_loop rs (Suc i) oldest = do { r \<leftarrow> idl_at rs i; oldest_loop rs i (oldest_step r oldest) }"

text \<open>The table is None when there is no lock file.\<close>

definition mdb_find_oldest :: "txnid \<Rightarrow> reader_table option \<Rightarrow> txnid option" where
  "mdb_find_oldest mt_txnid txns =
     (case txns of
        None \<Rightarrow> Some (mt_txnid - 1)
      | Some t \<Rightarrow> oldest_loop (mti_readers t) (mti_numreaders t) (mt_txnid - 1))"

section \<open>Taking a slot\<close>

fun slot_loop :: "mdb_reader list \<Rightarrow> nat \<Rightarrow> nat \<Rightarrow> nat option" where
  "slot_loop rs i 0 = Some i"
| "slot_loop rs i (Suc k) = do { r \<leftarrow> idl_at rs i; if mr_pid r = 0 then Some i else slot_loop rs (i + 1) k }"

definition claim_slot :: "int \<Rightarrow> int \<Rightarrow> nat \<Rightarrow> reader_table \<Rightarrow> ((int + nat) \<times> reader_table) option" where
  "claim_slot pid tid maxreaders t =
     do {
       let nr = mti_numreaders t;
       i \<leftarrow> slot_loop (mti_readers t) 0 nr;
       if i = maxreaders then Some (Inl MDB_READERS_FULL, t)
       else do {
         rs1 \<leftarrow> idl_put (mti_readers t) i \<lparr>mr_txnid = - 1, mr_pid = 0, mr_tid = tid\<rparr>;
         let rs2 = rs1[i := (rs1 ! i)\<lparr>mr_pid := pid\<rparr>];
         Some (Inr i, \<lparr>mti_numreaders = (if i = nr then nr + 1 else nr), mti_readers = rs2\<rparr>)
       }
     }"

text \<open>
  The slot of a reading transaction: the one it or its thread owns, or a new one. \<open>pidset\<close>, \<open>lock\<close>
  and \<open>setspecific\<close> are the codes of the system calls. The result has the code, the slot, the
  table, and \<open>me_live_reader\<close>.
\<close>

definition renew_slot ::
  "bool \<Rightarrow> int \<Rightarrow> int \<Rightarrow> nat \<Rightarrow> int \<Rightarrow> int \<Rightarrow> int \<Rightarrow> nat option \<Rightarrow> bool \<Rightarrow> reader_table
     \<Rightarrow> (int \<times> nat \<times> reader_table \<times> bool) option" where
  "renew_slot notls pid tid maxreaders pidset lock setspecific own live t =
     (case own of
        Some i \<Rightarrow>
          do {
            r \<leftarrow> idl_at (mti_readers t) i;
            Some (if mr_pid r \<noteq> pid \<or> mr_txnid r \<noteq> - 1 then MDB_BAD_RSLOT else MDB_SUCCESS, i, t, live)
          }
      | None \<Rightarrow>
          if \<not> live \<and> pidset \<noteq> 0 then Some (pidset, 0, t, live)
          else if lock \<noteq> 0 then Some (lock, 0, t, True)
          else do {
            (slot, t1) \<leftarrow> claim_slot pid tid maxreaders t;
            Some (case slot of
                Inl rc \<Rightarrow> (rc, 0, t1, True)
              | Inr i \<Rightarrow>
                  if \<not> notls \<and> setspecific \<noteq> 0
                  then (setspecific, 0, set_reader i ((reader_at t1 i)\<lparr>mr_pid := 0\<rparr>) t1, True)
                  else (MDB_SUCCESS, i, t1, True))
          })"

section \<open>The steps of a read\<close>

text \<open>
  Beginning: \<open>mti_txnid\<close> is fetched, stored in the slot, and fetched again; if a commit came in
  between, all over again.
\<close>

definition store_txnid :: "nat \<Rightarrow> txnid \<Rightarrow> reader_table \<Rightarrow> reader_table" where
  "store_txnid i n t = set_reader i ((reader_at t i)\<lparr>mr_txnid := n\<rparr>) t"

definition reader_free :: "nat \<Rightarrow> reader_table \<Rightarrow> reader_table" where
  "reader_free i t = set_reader i ((reader_at t i)\<lparr>mr_pid := 0\<rparr>) t"

text \<open>The end of a reading transaction: its slot, and whether it still owns it.\<close>

definition end_read :: "bool \<Rightarrow> bool \<Rightarrow> nat option \<Rightarrow> reader_table \<Rightarrow> nat option \<times> reader_table" where
  "end_read notls end_slot reader t =
     (case reader of
        None \<Rightarrow> (None, t)
      | Some i \<Rightarrow>
          let t1 = store_txnid i (- 1) t
          in if \<not> notls then (None, t1)
             else if end_slot then (None, reader_free i t1)
             else (Some i, t1))"

text \<open>Closing an environment frees the slots of its process.\<close>

fun close_loop :: "int \<Rightarrow> nat \<Rightarrow> mdb_reader list \<Rightarrow> mdb_reader list option" where
  "close_loop pid 0 rs = Some rs"
| "close_loop pid (Suc i) rs =
     do {
       r \<leftarrow> idl_at rs i;
       close_loop pid i (if mr_pid r = pid then rs[i := r\<lparr>mr_pid := 0\<rparr>] else rs)
     }"

section \<open>Beginning a transaction\<close>

record read_txn =
  rd_txnid :: txnid
  rd_reader :: "nat option"
  rd_free :: mdb_db
  rd_main :: mdb_db
  rd_next_pgno :: mdb_id

definition read_meta :: "txnid \<Rightarrow> nat option \<Rightarrow> mdb_meta \<Rightarrow> read_txn" where
  "read_meta n reader meta =
     \<lparr>rd_txnid = n, rd_reader = reader, rd_free = mm_free meta, rd_main = mm_main meta,
       rd_next_pgno = mm_last_pg meta + 1\<rparr>"

text \<open>The checks every new transaction ends with.\<close>

definition begin_code :: "mdb_env \<Rightarrow> mdb_id \<Rightarrow> mdb_id \<Rightarrow> int" where
  "begin_code env maxpg next_pgno =
     (if F_ISSET (me_flags env) MDB_FATAL_ERROR then MDB_PANIC
      else if maxpg < next_pgno then MDB_MAP_RESIZED
      else MDB_SUCCESS)"

text \<open>
  \<open>mdb_txn_renew0\<close> for a reading transaction when no commit comes between fetching and storing
  \<open>mti_txnid\<close>, and for a writing one; \<open>slot\<close> is what \<open>renew_slot\<close> gives.
\<close>

definition renew_read ::
  "mdb_env \<Rightarrow> mdb_id \<Rightarrow> (reader_table \<Rightarrow> (int \<times> nat \<times> reader_table \<times> bool) option) \<Rightarrow> nat option \<Rightarrow> reader_table
     \<Rightarrow> (int \<times> read_txn option \<times> reader_table) option" where
  "renew_read env maxpg slot own t =
     (case mti_txnid env of
        None \<Rightarrow>
          let meta = mdb_env_pick_meta env;
              txn = read_meta (mm_txnid meta) None meta;
              rc = begin_code env maxpg (rd_next_pgno txn)
          in Some (rc, if rc = MDB_SUCCESS then Some txn else None, t)
      | Some n \<Rightarrow>
          do {
            (rc, i, t1, live) \<leftarrow> slot t;
            if rc \<noteq> MDB_SUCCESS then Some (rc, None, t1)
            else
              let t2 = store_txnid i n t1;
                  txn = read_meta n (Some i) (me_metas env (odd n));
                  rc = begin_code env maxpg (rd_next_pgno txn);
                  notls = F_ISSET (me_flags env) MDB_NOTLS
              in if rc = MDB_SUCCESS then Some (rc, Some txn, t2)
                 else Some (rc, None, snd (end_read notls (notls \<and> own = None) (Some i) t2))
          })"

definition renew_write :: "mdb_env \<Rightarrow> mdb_id \<Rightarrow> int \<Rightarrow> int \<times> read_txn option" where
  "renew_write env maxpg lock =
     (if mti_txnid env \<noteq> None \<and> lock \<noteq> 0 then (lock, None)
      else let meta = (case mti_txnid env of None \<Rightarrow> mdb_env_pick_meta env | Some n \<Rightarrow> me_metas env (odd n));
               n = (case mti_txnid env of None \<Rightarrow> mm_txnid meta | Some n \<Rightarrow> n);
               txn = read_meta (n + 1) None meta;
               rc = begin_code env maxpg (rd_next_pgno txn)
           in (rc, if rc = MDB_SUCCESS then Some txn else None))"

section \<open>Clearing the slots of dead processes\<close>

text \<open>
  A list of process ids, ascending, whose first entry is their number. The search ends with the
  place of an id that is missing (Some), or finds it (None).
\<close>

function pid_loop :: "int list \<Rightarrow> int \<Rightarrow> nat \<Rightarrow> nat \<Rightarrow> int \<Rightarrow> nat \<Rightarrow> nat option option" where
  "pid_loop ids pid base cursor val n =
     (if n = 0 then Some (Some (if 0 < val then cursor + 1 else cursor))
      else let pivot = n div 2; cursor = base + pivot + 1 in
        do {
          x \<leftarrow> idl_at ids cursor;
          let val = pid - x;
          if val < 0 then pid_loop ids pid base cursor val pivot
          else if 0 < val then pid_loop ids pid cursor cursor val (n - (pivot + 1))
          else Some None
        })"
  by pat_completeness auto
termination
  by (relation "measure (\<lambda>(ids, pid, base, cursor, val, n). n)") auto

declare pid_loop.simps [simp del]

definition mdb_pid_insert :: "int list \<Rightarrow> int \<Rightarrow> (int \<times> int list) option" where
  "mdb_pid_insert ids pid =
     do {
       n \<leftarrow> idl_at ids 0;
       found \<leftarrow> pid_loop ids pid 0 1 0 (nat n);
       case found of
         None \<Rightarrow> Some (- 1, ids)
       | Some cursor \<Rightarrow> do {
           ids1 \<leftarrow> idl_put ids 0 (n + 1);
           ids2 \<leftarrow> shift_loop ids1 cursor (nat (n + 1));
           ids3 \<leftarrow> idl_put ids2 (min cursor (nat (n + 1))) pid;
           Some (0, ids3)
         }
     }"

fun clear_loop :: "int \<Rightarrow> nat \<Rightarrow> nat \<Rightarrow> mdb_reader list \<Rightarrow> nat \<Rightarrow> (mdb_reader list \<times> nat) option" where
  "clear_loop pid j 0 rs cleared = Some (rs, cleared)"
| "clear_loop pid j (Suc k) rs cleared =
     do {
       r \<leftarrow> idl_at rs j;
       if mr_pid r = pid then clear_loop pid (j + 1) k (rs[j := r\<lparr>mr_pid := 0\<rparr>]) (cleared + 1)
       else clear_loop pid (j + 1) k rs cleared
     }"

text \<open>
  \<open>alive1\<close> and \<open>alive2\<close> are the answers of \<open>mdb_reader_pid\<close> before and after locking; \<open>rmutex\<close> is None
  when the caller holds the lock, else the code of locking it. The mutexes of the platforms the
  program runs on are not robust, so \<open>mdb_mutex_failed\<close> is its argument.
\<close>

fun check_loop ::
  "int \<Rightarrow> (int \<Rightarrow> bool) \<Rightarrow> (int \<Rightarrow> bool) \<Rightarrow> int option \<Rightarrow> nat \<Rightarrow> nat \<Rightarrow> nat \<Rightarrow> int list \<Rightarrow> mdb_reader list \<Rightarrow> nat
     \<Rightarrow> (int \<times> mdb_reader list \<times> nat) option" where
  "check_loop me alive1 alive2 rmutex rdrs i 0 pids rs cleared = Some (MDB_SUCCESS, rs, cleared)"
| "check_loop me alive1 alive2 rmutex rdrs i (Suc k) pids rs cleared =
     do {
       r \<leftarrow> idl_at rs i;
       let pid = mr_pid r;
       if pid \<noteq> 0 \<and> pid \<noteq> me then do {
         (known, pids1) \<leftarrow> mdb_pid_insert pids pid;
         if known = 0 \<and> \<not> alive1 pid then
           (case rmutex of
              Some rc \<Rightarrow>
                if rc \<noteq> 0 then Some (rc, rs, cleared)
                else do {
                  let j = (if alive2 pid then rdrs else i);
                  (rs1, cleared1) \<leftarrow> clear_loop pid j (rdrs - j) rs cleared;
                  check_loop me alive1 alive2 rmutex rdrs (i + 1) k pids1 rs1 cleared1
                }
            | None \<Rightarrow> do {
                (rs1, cleared1) \<leftarrow> clear_loop pid i (rdrs - i) rs cleared;
                check_loop me alive1 alive2 rmutex rdrs (i + 1) k pids1 rs1 cleared1
              })
         else check_loop me alive1 alive2 rmutex rdrs (i + 1) k pids1 rs cleared
       }
       else check_loop me alive1 alive2 rmutex rdrs (i + 1) k pids rs cleared
     }"

text \<open>\<open>malloc\<close> gives the array of process ids, of whatever content, or None.\<close>

definition mdb_reader_check0 ::
  "(nat \<Rightarrow> int list option) \<Rightarrow> int \<Rightarrow> (int \<Rightarrow> bool) \<Rightarrow> (int \<Rightarrow> bool) \<Rightarrow> int option \<Rightarrow> reader_table
     \<Rightarrow> (int \<times> reader_table \<times> nat) option" where
  "mdb_reader_check0 malloc me alive1 alive2 rmutex t =
     (let rdrs = mti_numreaders t
      in case malloc (rdrs + 1) of
           None \<Rightarrow> Some (ENOMEM, t, 0)
         | Some pids \<Rightarrow>
             do {
               pids1 \<leftarrow> idl_put pids 0 0;
               (rc, rs, cleared) \<leftarrow> check_loop me alive1 alive2 rmutex rdrs 0 rdrs pids1 (mti_readers t) 0;
               Some (rc, t\<lparr>mti_readers := rs\<rparr>, cleared)
             })"

definition mdb_reader_check ::
  "(nat \<Rightarrow> int list option) \<Rightarrow> int \<Rightarrow> (int \<Rightarrow> bool) \<Rightarrow> (int \<Rightarrow> bool) \<Rightarrow> int \<Rightarrow> reader_table option
     \<Rightarrow> (int \<times> reader_table option \<times> nat) option" where
  "mdb_reader_check malloc me alive1 alive2 lock txns =
     (case txns of
        None \<Rightarrow> Some (MDB_SUCCESS, None, 0)
      | Some t \<Rightarrow> do {
          (rc, t1, cleared) \<leftarrow> mdb_reader_check0 malloc me alive1 alive2 (Some lock) t;
          Some (rc, Some t1, cleared)
        })"

end
