(* ===== verification/Lmdb_Alloc.thy ===== *)
theory Lmdb_Alloc
  imports Lmdb_Readers Lmdb_Idl_Merge
begin

text \<open>
  Where the pages of a writing transaction come from (\<open>mdb_page_alloc\<close>): pages it has loosened,
  pages freed by transactions no reader can see any more, in contiguous runs, or new pages at the
  end of the file; and where they go back to. The contents of the memory handed out are not part
  of this model.
\<close>

definition MDB_TXN_FULL :: int where "MDB_TXN_FULL = - 30788"

section \<open>State\<close>

text \<open>
  The fields of \<open>MDB_env\<close> that allocation works on. Pointers to pages are numbers; \<open>me_dpages\<close> is
  the list of blocks of one page kept for reuse.
\<close>

record page_env = mdb_env +
  me_maxpg :: mdb_id
  me_map :: nat
  me_nodemax :: nat
  me_pgoldest :: txnid
  me_pglast :: txnid
  me_pghead :: "midl option"
  me_dpages :: "nat list"
  me_txns :: "reader_table option"

text \<open>
  Those of \<open>MDB_txn\<close>. A loose page is its pointer and its number, most recent first.
\<close>

record write_txn =
  wt_txnid :: txnid
  wt_next_pgno :: mdb_id
  wt_loose_pgs :: "(nat \<times> mdb_id) list"
  wt_loose_count :: nat
  wt_dirty_room :: nat
  wt_dirty_list :: "mdb_id2 list"
  wt_free_pgs :: midl
  wt_error :: bool

definition fail_txn :: "write_txn \<Rightarrow> write_txn" where
  "fail_txn txn = txn\<lparr>wt_error := True\<rparr>"

section \<open>Memory for pages\<close>

text \<open>\<open>malloc n\<close> is the address of a block of \<open>n\<close> bytes, or None.\<close>

definition mdb_page_malloc ::
  "(nat \<Rightarrow> nat option) \<Rightarrow> nat \<Rightarrow> page_env \<Rightarrow> write_txn \<Rightarrow> nat option \<times> page_env \<times> write_txn" where
  "mdb_page_malloc malloc num env txn =
     (if num = 1 \<and> me_dpages env \<noteq> [] then (Some (hd (me_dpages env)), env\<lparr>me_dpages := tl (me_dpages env)\<rparr>, txn)
      else case malloc (unat (me_psize env) * num) of
          Some p \<Rightarrow> (Some p, env, txn)
        | None \<Rightarrow> (None, env, fail_txn txn))"

definition mdb_page_free :: "nat \<Rightarrow> page_env \<Rightarrow> page_env" where
  "mdb_page_free mp env = env\<lparr>me_dpages := mp # me_dpages env\<rparr>"

text \<open>\<open>pages p\<close> says whether the page at \<open>p\<close> is an overflow page, and of how many pages.\<close>

definition mdb_dpage_free :: "(nat \<Rightarrow> bool \<times> nat) \<Rightarrow> nat \<Rightarrow> page_env \<Rightarrow> page_env" where
  "mdb_dpage_free pages dp env =
     (if \<not> fst (pages dp) \<or> snd (pages dp) = 1 then mdb_page_free dp env else env)"

fun dlist_loop :: "(nat \<Rightarrow> bool \<times> nat) \<Rightarrow> mdb_id2 list \<Rightarrow> nat \<Rightarrow> nat \<Rightarrow> page_env \<Rightarrow> page_env option" where
  "dlist_loop pages dl i 0 env = Some env"
| "dlist_loop pages dl i (Suc k) env =
     do { e \<leftarrow> idl_at dl i; dlist_loop pages dl (i + 1) k (mdb_dpage_free pages (mptr e) env) }"

definition mdb_dlist_free :: "(nat \<Rightarrow> bool \<times> nat) \<Rightarrow> page_env \<Rightarrow> write_txn \<Rightarrow> (page_env \<times> write_txn) option" where
  "mdb_dlist_free pages env txn =
     do {
       n \<leftarrow> idl_at (wt_dirty_list txn) 0;
       env1 \<leftarrow> dlist_loop pages (wt_dirty_list txn) 1 (unat (mid n)) env;
       Some (env1, txn\<lparr>wt_dirty_list := (wt_dirty_list txn)[0 := n\<lparr>mid := 0\<rparr>]\<rparr>)
     }"

text \<open>The dirty list takes every page once; an insertion that fails is a failed assertion.\<close>

definition mdb_page_dirty :: "bool \<Rightarrow> nat \<Rightarrow> mdb_id \<Rightarrow> write_txn \<Rightarrow> write_txn option" where
  "mdb_page_dirty writemap mp pgno txn =
     do {
       (rc, dl) \<leftarrow> (if writemap then mdb_mid2l_append (wt_dirty_list txn) \<lparr>mid = pgno, mptr = mp\<rparr>
                   else mdb_mid2l_insert (wt_dirty_list txn) \<lparr>mid = pgno, mptr = mp\<rparr>);
       if rc = 0 then Some (txn\<lparr>wt_dirty_list := dl, wt_dirty_room := wt_dirty_room txn - 1\<rparr>) else None
     }"

section \<open>Pages that are free again\<close>

text \<open>
  A page that is not needed any more: if the transaction dirtied it, it is loose, for the next
  page of this transaction; else its number goes to the list of pages the transaction frees.
  \<open>in_free_dbi\<close> is whether the cursor works on the freeDB, \<open>child\<close> whether the transaction has a
  parent. The first result is the code, the second whether the cursor was reset.
\<close>

definition own_dirty :: "mdb_id2 list \<Rightarrow> nat \<Rightarrow> mdb_id \<Rightarrow> (int + bool) option" where
  "own_dirty dl mp pgno =
     do {
       n \<leftarrow> idl_at dl 0;
       if mid n = 0 then Some (Inr False)
       else do {
         x \<leftarrow> mdb_mid2l_search dl pgno;
         if x \<le> unat (mid n) then do {
           e \<leftarrow> idl_at dl x;
           Some (if mid e \<noteq> pgno then Inr False else if mptr e \<noteq> mp then Inl MDB_CORRUPTED else Inr True)
         }
         else Some (Inr False)
       }
     }"

definition mdb_page_loose ::
  "allocator \<Rightarrow> bool \<Rightarrow> bool \<Rightarrow> bool \<Rightarrow> nat \<Rightarrow> mdb_id \<Rightarrow> write_txn \<Rightarrow> (int \<times> bool \<times> write_txn) option" where
  "mdb_page_loose malloc dirty in_free_dbi child mp pgno txn =
     do {
       loose \<leftarrow> (if dirty \<and> \<not> in_free_dbi
                then if child then own_dirty (wt_dirty_list txn) mp pgno else Some (Inr True)
                else Some (Inr False));
       case loose of
         Inl rc \<Rightarrow> Some (rc, True, fail_txn txn)
       | Inr True \<Rightarrow> Some (MDB_SUCCESS, False,
           txn\<lparr>wt_loose_pgs := (mp, pgno) # wt_loose_pgs txn, wt_loose_count := wt_loose_count txn + 1\<rparr>)
       | Inr False \<Rightarrow> do {
           (rc, l) \<leftarrow> mdb_midl_append malloc (wt_free_pgs txn) pgno;
           Some (rc, False, txn\<lparr>wt_free_pgs := l\<rparr>)
         }
     }"

section \<open>Looking for free pages\<close>

text \<open>
  The search in the list of free pages, which is descending, for a run of \<open>n2 + 1\<close> pages, from
  its end: the index of the run's first page and that page.
\<close>

fun seek_range :: "idl \<Rightarrow> nat \<Rightarrow> nat \<Rightarrow> (nat \<times> mdb_id) option option" where
  "seek_range ids n2 i =
     do {
       pgno \<leftarrow> idl_at ids i;
       far \<leftarrow> idl_at ids (i - n2);
       if far = pgno + of_nat n2 then Some (Some (i, pgno))
       else if n2 < i - 1 then seek_range ids n2 (i - 1)
       else Some None
     }"

declare seek_range.simps [simp del]

text \<open>
  The freeDB as its cursor gives it: the records in the order of their keys, the numbers of the
  transactions that freed the pages, each with what \<open>mdb_node_read\<close> gives: a list of pages, or a
  code. \<open>fd_end\<close> is the code of \<open>mdb_cursor_get\<close> after the last record it can reach, \<open>MDB_NOTFOUND\<close>
  when that is the last.
\<close>

record free_db =
  fd_records :: "(txnid \<times> (int + idl)) list"
  fd_end :: int

text \<open>\<open>MDB_FIRST\<close>, or \<open>MDB_SET_RANGE\<close> behind the last record consumed.\<close>

definition free_from :: "txnid \<Rightarrow> (txnid \<times> (int + idl)) list \<Rightarrow> (txnid \<times> (int + idl)) list" where
  "free_from pglast rs = (if pglast = 0 then rs else dropWhile (\<lambda>r. fst r < pglast + 1) rs)"

text \<open>Before a record is given up as too recent, the readers are looked at, but once only.\<close>

definition refresh_oldest ::
  "txnid \<Rightarrow> txnid \<Rightarrow> txnid \<times> bool \<times> page_env \<Rightarrow> (txnid \<times> bool \<times> page_env) option" where
  "refresh_oldest mt_txnid last1 v =
     (case v of (oldest, found_old, env) \<Rightarrow>
        if oldest \<le> last1 \<and> \<not> found_old then do {
          o1 \<leftarrow> mdb_find_oldest mt_txnid (me_txns env);
          Some (o1, True, env\<lparr>me_pgoldest := o1\<rparr>)
        }
        else Some v)"

text \<open>A record of the freeDB is merged into \<open>me_pghead\<close>.\<close>

definition take_record :: "allocator \<Rightarrow> txnid \<Rightarrow> idl \<Rightarrow> page_env \<Rightarrow> (int \<times> page_env) option" where
  "take_record malloc last1 idl env =
     do {
       w \<leftarrow> idl_at idl 0;
       let i = (ucast w :: 32 word);
       let (rc, env1) = (case me_pghead env of
           None \<Rightarrow>
             (case mdb_midl_alloc malloc (sint i) of
                None \<Rightarrow> (ENOMEM, env)
              | Some l \<Rightarrow> (0, env\<lparr>me_pghead := Some l\<rparr>))
         | Some l \<Rightarrow> (case mdb_midl_need malloc l i of (rc, l1) \<Rightarrow> (rc, env\<lparr>me_pghead := Some l1\<rparr>)));
       if rc \<noteq> 0 then Some (rc, env1)
       else do {
         l \<leftarrow> me_pghead env1;
         ids \<leftarrow> mdb_midl_xmerge (ml_ids l) idl;
         Some (0, env1\<lparr>me_pglast := last1, me_pghead := Some (l\<lparr>ml_ids := ids\<rparr>)\<rparr>)
       }
     }"

definition mop_len :: "page_env \<Rightarrow> nat" where
  "mop_len env = (case me_pghead env of None \<Rightarrow> 0 | Some l \<Rightarrow> unat (ucast (ml_ids l ! 0) :: 32 word))"

text \<open>
  The outcome of the search: \<open>Reuse\<close> has the index and the page of a run, \<open>Fail\<close> the code and
  whether the transaction is put in error.
\<close>

datatype page_source = Reuse nat mdb_id | New_pages | Fail int bool

fun alloc_loop ::
  "allocator \<Rightarrow> nat \<Rightarrow> txnid \<Rightarrow> int \<Rightarrow> (txnid \<times> (int + idl)) list \<Rightarrow> int \<Rightarrow> bool \<Rightarrow> txnid \<Rightarrow> txnid \<Rightarrow> page_env
     \<Rightarrow> (page_source \<times> page_env) option" where
  "alloc_loop malloc n2 mt_txnid stop rs retry found_old oldest last1 env =
     do {
       found \<leftarrow> (case me_pghead env of
           Some l \<Rightarrow> if n2 < mop_len env then seek_range (ml_ids l) n2 (mop_len env) else Some None
         | None \<Rightarrow> Some None);
       let retry = (if n2 < mop_len env then retry - 1 else retry);
       case found of
         Some (i, pgno) \<Rightarrow> Some (Reuse i pgno, env)
       | None \<Rightarrow>
           if n2 < mop_len env \<and> retry < 0 then Some (New_pages, env)
           else do {
             (oldest, found_old, env) \<leftarrow> refresh_oldest mt_txnid (last1 + 1) (oldest, found_old, env);
             if oldest \<le> last1 + 1 then Some (New_pages, env)
             else case rs of
                 [] \<Rightarrow> Some (if stop = MDB_NOTFOUND then New_pages else Fail stop True, env)
               | (last2, data) # rs \<Rightarrow> do {
                   (oldest, found_old, env) \<leftarrow> refresh_oldest mt_txnid last2 (oldest, found_old, env);
                   if oldest \<le> last2 then Some (New_pages, env)
                   else case data of
                       Inl rc \<Rightarrow> Some (Fail rc False, env)
                     | Inr idl \<Rightarrow> do {
                         (rc, env) \<leftarrow> take_record malloc last2 idl env;
                         if rc \<noteq> 0 then Some (Fail rc True, env)
                         else alloc_loop malloc n2 mt_txnid stop rs retry found_old oldest last2 env
                       }
                 }
           }
     }"

declare alloc_loop.simps [simp del]

section \<open>Taking pages\<close>

text \<open>A run is taken off the list and the pages behind it move down.\<close>

fun move_down :: "idl \<Rightarrow> nat \<Rightarrow> nat \<Rightarrow> nat \<Rightarrow> idl option" where
  "move_down ids j i 0 = Some ids"
| "move_down ids j i (Suc k) =
     do { x \<leftarrow> idl_at ids (i + 1); ids1 \<leftarrow> idl_put ids (j + 1) x; move_down ids1 (j + 1) (i + 1) k }"

definition take_run :: "nat \<Rightarrow> nat \<Rightarrow> nat \<Rightarrow> idl \<Rightarrow> idl option" where
  "take_run len i num ids =
     do {
       ids1 \<leftarrow> idl_put ids 0 (of_nat (len - num));
       move_down ids1 (i - num) i (len - num - (i - num))
     }"

definition alloc_pages ::
  "(nat \<Rightarrow> nat option) \<Rightarrow> nat \<Rightarrow> page_source \<Rightarrow> page_env \<Rightarrow> write_txn
     \<Rightarrow> (int \<times> (nat \<times> mdb_id) option \<times> page_env \<times> write_txn) option" where
  "alloc_pages pmalloc num src env txn =
     (case src of
        Fail rc err \<Rightarrow> Some (rc, None, env, if err then fail_txn txn else txn)
      | _ \<Rightarrow>
          let writemap = F_ISSET (me_flags env) MDB_WRITEMAP;
              pgno = (case src of Reuse i pgno \<Rightarrow> pgno | _ \<Rightarrow> wt_next_pgno txn)
          in if src = New_pages \<and> me_maxpg env \<le> pgno + of_nat num then Some (MDB_MAP_FULL, None, env, fail_txn txn)
             else case (if writemap then (Some (me_map env + unat (me_psize env) * unat pgno), env, txn)
                        else mdb_page_malloc pmalloc num env txn) of
                 (None, env1, txn1) \<Rightarrow> Some (ENOMEM, None, env1, fail_txn txn1)
               | (Some np, env1, txn1) \<Rightarrow> do {
                   (env2, txn2) \<leftarrow> (case src of
                       Reuse i pgno \<Rightarrow> do {
                         l \<leftarrow> me_pghead env1;
                         ids \<leftarrow> take_run (mop_len env1) i num (ml_ids l);
                         Some (env1\<lparr>me_pghead := Some (l\<lparr>ml_ids := ids\<rparr>)\<rparr>, txn1)
                       }
                     | _ \<Rightarrow> Some (env1, txn1\<lparr>wt_next_pgno := pgno + of_nat num\<rparr>));
                   txn3 \<leftarrow> mdb_page_dirty writemap np pgno txn2;
                   Some (MDB_SUCCESS, Some (np, pgno), env2, txn3)
                 })"

definition mdb_page_alloc ::
  "allocator \<Rightarrow> (nat \<Rightarrow> nat option) \<Rightarrow> free_db \<Rightarrow> nat \<Rightarrow> page_env \<Rightarrow> write_txn
     \<Rightarrow> (int \<times> (nat \<times> mdb_id) option \<times> page_env \<times> write_txn) option" where
  "mdb_page_alloc malloc pmalloc fd num env txn =
     (if num = 1 \<and> wt_loose_pgs txn \<noteq> [] then
        Some (MDB_SUCCESS, Some (hd (wt_loose_pgs txn)), env,
          txn\<lparr>wt_loose_pgs := tl (wt_loose_pgs txn), wt_loose_count := wt_loose_count txn - 1\<rparr>)
      else if wt_dirty_room txn = 0 then Some (MDB_TXN_FULL, None, env, fail_txn txn)
      else do {
        (src, env1) \<leftarrow> alloc_loop malloc (num - 1) (wt_txnid txn) (fd_end fd) (free_from (me_pglast env) (fd_records fd))
          (int num * 60) False (me_pgoldest env) (me_pglast env) env;
        alloc_pages pmalloc num src env1 txn
      })"

end
