(* ===== verification/Lmdb_Alloc_Props.thy ===== *)
theory Lmdb_Alloc_Props
  imports Lmdb_Alloc
begin

text \<open>
  The pools of free pages: the list in memory and the records of the freeDB not read yet. Reading
  a record moves its pages from one to the other, and a run of pages leaves the list for the
  transaction; nothing is lost, nothing handed out twice.
\<close>

section \<open>Runs in a descending list\<close>

lemma unat_64: "unat w < 2 ^ 64" for w :: "64 word"
  using unsigned_less [of w] by simp

lemma seek_range_result:
  assumes "i < length ids" and "n2 < i"
  shows "\<exists>r. seek_range ids n2 i = Some r \<and> (\<forall>j pgno. r = Some (j, pgno) \<longrightarrow>
    n2 < j \<and> j \<le> i \<and> ids ! j = pgno \<and> ids ! (j - n2) = pgno + of_nat n2)"
  using assms
proof (induction ids n2 i rule: seek_range.induct)
  case (1 ids n2 i)
  show ?case
  proof (cases "ids ! (i - n2) = ids ! i + of_nat n2 \<or> \<not> n2 < i - 1")
    case True
    then show ?thesis using 1(2,3) by (subst seek_range.simps) (auto simp: less_imp_diff_less)
  next
    case False
    then have "idl_at ids i = Some (ids ! i)" "idl_at ids (i - n2) = Some (ids ! (i - n2))" "n2 < i - 1"
      using 1(2,3) by auto
    moreover obtain r where "seek_range ids n2 (i - 1) = Some r" "\<forall>j pgno. r = Some (j, pgno) \<longrightarrow>
        n2 < j \<and> j \<le> i - 1 \<and> ids ! j = pgno \<and> ids ! (j - n2) = pgno + of_nat n2"
      using 1(1) [OF calculation(1,2) _ calculation(3)] False 1(2,3) less_imp_diff_less [OF 1(2)] by auto
    moreover have "seek_range ids n2 i = seek_range ids n2 (i - 1)"
      using calculation(1-3) False by (subst seek_range.simps) simp
    ultimately show ?thesis by fastforce
  qed
qed

lemma descending_gap:
  fixes xs :: "64 word list"
  assumes "sorted_wrt (>) xs" and "a + k < length xs"
  shows "unat (xs ! (a + k)) + k \<le> unat (xs ! a)"
  using assms(2)
proof (induction k)
  case (Suc k)
  then have "xs ! (a + Suc k) < xs ! (a + k)" using sorted_wrt_nth_less [OF assms(1), of "a + k" "a + Suc k"] by simp
  then show ?case using Suc by (simp add: word_less_nat_alt)
qed simp

lemma run_contiguous:
  fixes xs :: "64 word list"
  assumes "sorted_wrt (>) xs" and "a + n < length xs" and "xs ! a = xs ! (a + n) + of_nat n" and "k \<le> n" and "n < 2 ^ 64"
  shows "xs ! (a + n - k) = xs ! (a + n) + of_nat k"
proof -
  let ?b = "unat (xs ! (a + n))"
  have le: "?b + n \<le> unat (xs ! a)" using descending_gap [OF assms(1,2)] .
  then have fits: "?b + n < 2 ^ 64" using unat_64 [of "xs ! a"] by simp
  then have top: "unat (xs ! a) = ?b + n" using assms(3) unat_add_nat [of "xs ! (a + n)" n] by simp
  have "unat (xs ! (a + (n - k))) + (n - k) \<le> unat (xs ! a)"
    using descending_gap [OF assms(1), of a "n - k"] assms(2) by simp
  moreover have "?b + k \<le> unat (xs ! (a + (n - k)))"
    using descending_gap [OF assms(1), of "a + (n - k)" k] assms(2,4) by simp
  ultimately have "unat (xs ! (a + (n - k))) = ?b + k" using top assms(4) by simp
  also have "\<dots> = unat (xs ! (a + n) + of_nat k)"
    using unat_add_nat [of "xs ! (a + n)" k] fits assms(4) by simp
  finally show ?thesis using assms(4) by (simp add: word_unat_eq_iff)
qed

section \<open>Taking a run off\<close>

lemma move_down_result:
  "j \<le> i \<Longrightarrow> i + k < length ids \<Longrightarrow>
    move_down ids j i k = Some (take (Suc j) ids @ take k (drop (Suc i) ids) @ drop (Suc j + k) ids)"
proof (induction k arbitrary: ids j i)
  case (Suc k)
  let ?ids = "ids[Suc j := ids ! Suc i]"
  have "move_down ids j i (Suc k) = move_down ?ids (Suc j) (Suc i) k" using Suc.prems by simp
  also have "\<dots> = Some (take (Suc (Suc j)) ?ids @ take k (drop (Suc (Suc i)) ?ids) @ drop (Suc (Suc j) + k) ?ids)"
    using Suc.prems by (intro Suc.IH) simp_all
  also have "take (Suc (Suc j)) ?ids = take (Suc j) ids @ [ids ! Suc i]" using Suc.prems by (simp add: take_Suc_conv_app_nth)
  also have "drop (Suc (Suc i)) ?ids = drop (Suc (Suc i)) ids" using Suc.prems(1) by simp
  also have "drop (Suc (Suc j) + k) ?ids = drop (Suc j + Suc k) ids" by simp
  also have "take (Suc k) (drop (Suc i) ids) = ids ! Suc i # take k (drop (Suc (Suc i)) ids)"
    using Suc.prems(2) by (simp add: Cons_nth_drop_Suc [symmetric])
  ultimately show ?case by simp
qed simp

lemma take_run_result:
  assumes "idl_fits ids" and "len = unat (ids ! 0)" and "num \<le> i" and "i \<le> len"
  shows "\<exists>ids'. take_run len i num ids = Some ids' \<and> length ids' = length ids \<and> idl_fits ids' \<and> unat (ids' ! 0) = len - num
    \<and> idl_ids ids' = take (i - num) (idl_ids ids) @ drop i (idl_ids ids)"
proof -
  obtain n rest where ids: "ids = n # rest" using assms(1) by (cases ids) (auto simp: idl_fits_def)
  have len: "len = unat n" "len \<le> length rest" using assms(1,2) by (auto simp: ids idl_fits_def)
  let ?ids = "of_nat (len - num) # rest" and ?k = "len - num - (i - num)"
  have k: "?k = len - i" using assms(3,4) by simp
  have n: "unat (of_nat (len - num) :: 64 word) = len - num"
  proof -
    have "len < 2 ^ 64" using len(1) unat_64 [of n] by simp
    then show ?thesis by (simp add: unat_of_nat)
  qed
  have "move_down ?ids (i - num) i ?k
      = Some (take (Suc (i - num)) ?ids @ take ?k (drop (Suc i) ?ids) @ drop (Suc (i - num) + ?k) ?ids)"
    using assms(3,4) len by (intro move_down_result) simp_all
  then have "take_run len i num ids
      = Some (of_nat (len - num) # take (i - num) rest @ take (len - i) (drop i rest) @ drop (i - num + (len - i)) rest)"
    unfolding k by (simp add: take_run_def ids k [simplified])
  moreover have "take (len - num) (take (i - num) rest @ take (len - i) (drop i rest) @ drop (i - num + (len - i)) rest)
      = take (i - num) (take len rest) @ drop i (take len rest)"
  proof -
    let ?ab = "take (i - num) rest @ take (len - i) (drop i rest)"
    have "length ?ab = len - num" using assms(3,4) len(2) by simp
    then have "take (len - num) (?ab @ drop (i - num + (len - i)) rest) = ?ab" by (rule take_whole)
    moreover have "take (i - num) rest = take (i - num) (take len rest)" using assms(3,4) by (simp add: min_absorb1)
    ultimately show ?thesis by (simp add: drop_take)
  qed
  ultimately show ?thesis using assms(3,4) len n by (simp add: ids idl_fits_def)
qed

section \<open>The pools\<close>

definition free_pages :: "page_env \<Rightarrow> mdb_id list" where
  "free_pages env = (case me_pghead env of None \<Rightarrow> [] | Some l \<Rightarrow> midl_list l)"

definition record_pages :: "txnid \<times> (int + idl) \<Rightarrow> mdb_id list" where
  "record_pages r = (case snd r of Inl rc \<Rightarrow> [] | Inr idl \<Rightarrow> idl_ids idl)"

definition unread_pages :: "(txnid \<times> (int + idl)) list \<Rightarrow> mdb_id list" where
  "unread_pages rs = concat (List.map record_pages rs)"

definition record_ok :: "txnid \<times> (int + idl) \<Rightarrow> bool" where
  "record_ok r = (case snd r of Inl rc \<Rightarrow> rc \<noteq> 0 | Inr idl \<Rightarrow> idl_fits idl \<and> sorted_wrt (>) (idl_ids idl))"

text \<open>The lists are in order and no page is free twice.\<close>

definition head_ok :: "page_env \<Rightarrow> bool" where
  "head_ok env = (\<forall>l. me_pghead env = Some l \<longrightarrow> midl_ok l \<and> unat (ml_alloc l) \<le> 2 ^ 62 \<and> sorted_wrt (>) (midl_list l))"

definition free_ok :: "page_env \<Rightarrow> (txnid \<times> (int + idl)) list \<Rightarrow> bool" where
  "free_ok env rs = (head_ok env \<and> (\<forall>r\<in>set rs. record_ok r) \<and> distinct (free_pages env @ unread_pages rs)
     \<and> length (free_pages env @ unread_pages rs) < 2 ^ 31)"

lemma unread_simps [simp]:
  "unread_pages [] = []" "unread_pages ((t, Inl rc) # rs) = unread_pages rs"
  "unread_pages ((t, Inr idl) # rs) = idl_ids idl @ unread_pages rs"
  by (simp_all add: unread_pages_def record_pages_def)

lemma sorted_strict: "sorted_wrt (\<ge>) xs \<Longrightarrow> distinct xs \<Longrightarrow> sorted_wrt (>) (xs :: 'a::linorder list)"
  by (induction xs) (auto simp: less_le)

lemma merge_into:
  assumes "midl_ok l" and "unat (ml_alloc l) \<le> 2 ^ 62" and "sorted_wrt (>) (midl_list l)"
    and "idl_fits idl" and "sorted_wrt (>) (idl_ids idl)" and "distinct (midl_list l @ idl_ids idl)"
    and "unat (ml_ids l ! 0) + unat (idl ! 0) \<le> unat (ml_alloc l)"
  shows "\<exists>ids. mdb_midl_xmerge (ml_ids l) idl = Some ids \<and> midl_ok (l\<lparr>ml_ids := ids\<rparr>)
    \<and> sorted_wrt (>) (midl_list (l\<lparr>ml_ids := ids\<rparr>))
    \<and> mset (midl_list (l\<lparr>ml_ids := ids\<rparr>)) = mset (midl_list l) + mset (idl_ids idl)"
proof -
  have "length (ml_ids l) < 2 ^ 64" "unat (ml_ids l ! 0) + unat (idl ! 0) < length (ml_ids l)"
    using assms(1,2,7) by (simp_all add: midl_ok_def)
  then obtain ids where ids: "mdb_midl_xmerge (ml_ids l) idl = Some ids" "idl_fits ids" "length ids = length (ml_ids l)"
    "rev (idl_ids ids) = merged (rev (midl_list l)) (rev (idl_ids idl))"
    using midl_xmerge_result [OF assms(4)] by (auto simp: midl_list_def)
  have m: "mset (idl_ids ids) = mset (midl_list l) + mset (idl_ids idl)"
    using arg_cong [OF ids(4), of mset] by simp
  have "sorted (rev (midl_list l))" "sorted (rev (idl_ids idl))"
    using assms(3,5) by (auto simp: sorted_wrt_rev intro: sorted_wrt_mono_rel [of _ "(>)"])
  then have "sorted (rev (idl_ids ids))" unfolding ids(4) by (rule sorted_merged)
  then have "sorted_wrt (\<ge>) (idl_ids ids)" by (simp add: sorted_wrt_rev)
  moreover have "distinct (idl_ids ids)"
    using m assms(6) by (metis distinct_append mset_append mset_eq_imp_distinct_iff)
  ultimately have "sorted_wrt (>) (idl_ids ids)" by (rule sorted_strict)
  moreover have "midl_ok (l\<lparr>ml_ids := ids\<rparr>)" using ids(2,3) assms(1) by (simp add: midl_ok_def idl_fits_def)
  ultimately show ?thesis using ids(1) m by (auto simp: midl_list_def)
qed

lemma midl_alloc_empty:
  fixes w :: "64 word"
  assumes "good_malloc malloc" and "unat w < 2 ^ 31"
  shows "mdb_midl_alloc malloc (sint (ucast w :: 32 word)) = None
    \<or> (\<exists>l. mdb_midl_alloc malloc (sint (ucast w :: 32 word)) = Some l \<and> midl_ok l \<and> midl_list l = []
       \<and> unat (ml_alloc l) = unat w \<and> ml_ids l ! 0 = 0)"
proof -
  have u: "unat (ucast w :: 32 word) = unat w" using assms(2) by (intro unat_ucast_32) simp
  have "unat (ucast w :: 32 word) < 2 ^ 31" unfolding u by (rule assms(2))
  from sint_small [OF this] have s: "sint (ucast w :: 32 word) = int (unat w)" unfolding u .
  have n: "unat (of_nat (unat w + 2) :: 64 word) = unat w + 2"
    unfolding unat_of_nat using assms(2) by (intro mod_less) simp
  have "unat (of_nat (unat w + 2) :: 64 word) < 2 ^ 61" unfolding n using assms(2) by simp
  from block_words_small [OF this] have "block_words (of_nat (unat w + 2)) = unat w + 2" unfolding n .
  moreover have "of_int (int (unat w) + 2) = (of_nat (unat w + 2) :: 64 word)" by simp
  ultimately have words: "block_words (of_int (int (unat w) + 2)) = unat w + 2" by (simp only:)
  show ?thesis
  proof (cases "malloc (unat w + 2)")
    case None
    then show ?thesis using s words by (simp add: mdb_midl_alloc_def)
  next
    case (Some b)
    then have "length b = unat w + 2" using assms(1) by (auto simp: good_malloc_def)
    then obtain x y rest where b: "b = x # y # rest" "length rest = unat w" by (auto simp: length_Suc_conv numeral_2_eq_2)
    have "mdb_midl_alloc malloc (sint (ucast w :: 32 word)) = Some \<lparr>ml_alloc = w, ml_ids = 0 # rest\<rparr>"
      using Some b(1) s words by (simp add: mdb_midl_alloc_def)
    then show ?thesis using b(2) by (simp add: midl_ok_def midl_list_def)
  qed
qed

lemma take_record_result:
  assumes "good_malloc malloc" and "free_ok env ((t, Inr idl) # rs)"
  shows "take_record malloc t idl env = Some (ENOMEM, env)
    \<or> (\<exists>l. take_record malloc t idl env = Some (0, env\<lparr>me_pglast := t, me_pghead := Some l\<rparr>)
       \<and> free_ok (env\<lparr>me_pglast := t, me_pghead := Some l\<rparr>) rs
       \<and> mset (midl_list l) = mset (free_pages env) + mset (idl_ids idl))"
proof -
  let ?w = "idl ! 0"
  have r: "idl_fits idl" "sorted_wrt (>) (idl_ids idl)" using assms(2) by (auto simp: free_ok_def record_ok_def)
  have at: "idl_at idl 0 = Some ?w" using r(1) by (auto simp: idl_fits_def intro!: idl_at_Some)
  have d: "distinct (free_pages env @ idl_ids idl @ unread_pages rs)"
    "length (free_pages env) + length (idl_ids idl) + length (unread_pages rs) < 2 ^ 31"
    using assms(2) by (simp_all add: free_ok_def)
  then have w: "unat ?w < 2 ^ 31" "unat (ucast ?w :: 32 word) = unat ?w" using r(1) by simp_all
  have merge: "\<exists>l'. take_record malloc t idl env = Some (0, env\<lparr>me_pglast := t, me_pghead := Some l'\<rparr>)
       \<and> free_ok (env\<lparr>me_pglast := t, me_pghead := Some l'\<rparr>) rs \<and> mset (midl_list l') = mset (free_pages env) + mset (idl_ids idl)"
    if l: "midl_ok l" "unat (ml_alloc l) \<le> 2 ^ 62" "midl_list l = free_pages env" "sorted_wrt (>) (midl_list l)"
      "unat (ml_ids l ! 0) + unat ?w \<le> unat (ml_alloc l)"
      and take: "take_record malloc t idl env = (do { ids \<leftarrow> mdb_midl_xmerge (ml_ids l) idl;
          Some (0, env\<lparr>me_pglast := t, me_pghead := Some (l\<lparr>ml_ids := ids\<rparr>)\<rparr>) })" for l
  proof -
    obtain ids where ids: "mdb_midl_xmerge (ml_ids l) idl = Some ids" "midl_ok (l\<lparr>ml_ids := ids\<rparr>)"
      "sorted_wrt (>) (midl_list (l\<lparr>ml_ids := ids\<rparr>))"
      "mset (midl_list (l\<lparr>ml_ids := ids\<rparr>)) = mset (free_pages env) + mset (idl_ids idl)"
      using merge_into [OF l(1,2,4) r _ l(5)] d(1) l(3) by auto
    let ?env = "env\<lparr>me_pglast := t, me_pghead := Some (l\<lparr>ml_ids := ids\<rparr>)\<rparr>"
    have free: "free_pages ?env = midl_list (l\<lparr>ml_ids := ids\<rparr>)" by (simp add: free_pages_def)
    have m: "mset (free_pages ?env @ unread_pages rs) = mset (free_pages env @ idl_ids idl @ unread_pages rs)"
      unfolding free using ids(4) by simp
    have "free_ok ?env rs"
      using assms(2) d ids(2,3) l(2) mset_eq_imp_distinct_iff [OF m] mset_eq_length [OF m]
      by (simp add: free_ok_def head_ok_def)
    then show ?thesis using take ids(1,4) by auto
  qed
  show ?thesis
  proof (cases "me_pghead env")
    case None
    then have free: "free_pages env = []" by (simp add: free_pages_def)
    consider "mdb_midl_alloc malloc (sint (ucast ?w :: 32 word)) = None"
      | l where "mdb_midl_alloc malloc (sint (ucast ?w :: 32 word)) = Some l" "midl_ok l" "midl_list l = []"
        "unat (ml_alloc l) = unat ?w" "ml_ids l ! 0 = 0"
      using midl_alloc_empty [OF assms(1) w(1)] by auto
    then show ?thesis
    proof cases
      case 1
      then show ?thesis using None at by (simp add: take_record_def Let_def ENOMEM_def)
    next
      case 2
      then have "take_record malloc t idl env = (do { ids \<leftarrow> mdb_midl_xmerge (ml_ids l) idl;
          Some (0, env\<lparr>me_pglast := t, me_pghead := Some (l\<lparr>ml_ids := ids\<rparr>)\<rparr>) })"
        using None at by (simp add: take_record_def Let_def)
      with 2 w(1) free show ?thesis by (intro disjI2 merge) simp_all
    qed
  next
    case (Some l)
    then have l: "midl_ok l" "unat (ml_alloc l) \<le> 2 ^ 62" "sorted_wrt (>) (midl_list l)" "free_pages env = midl_list l"
      using assms(2) by (simp_all add: free_ok_def head_ok_def free_pages_def)
    then have "length (free_pages env) = unat (ml_ids l ! 0)"
      by (simp add: midl_list_def midl_ok_def idl_fits_def)
    then have small: "unat (ml_ids l ! 0) + unat (ucast ?w :: 32 word) < 2 ^ 31" using d(2) r(1) w(2) by simp
    consider "mdb_midl_need malloc l (ucast ?w) = (ENOMEM, l)"
      | l' where "mdb_midl_need malloc l (ucast ?w) = (0, l')" "midl_ok l'" "midl_list l' = midl_list l"
        "ml_ids l' ! 0 = ml_ids l ! 0" "unat (ml_ids l ! 0) + unat ?w \<le> unat (ml_alloc l')"
        "unat (ml_alloc l') \<le> max (unat (ml_alloc l)) (2 ^ 32)"
      using midl_need [OF assms(1) l(1) small] w(2) by auto
    then show ?thesis
    proof cases
      case 1
      then show ?thesis using Some at by (simp add: take_record_def Let_def ENOMEM_def)
    next
      case 2
      then have "take_record malloc t idl env = (do { ids \<leftarrow> mdb_midl_xmerge (ml_ids l') idl;
          Some (0, env\<lparr>me_pglast := t, me_pghead := Some (l'\<lparr>ml_ids := ids\<rparr>)\<rparr>) })"
        using Some at by (simp add: take_record_def Let_def)
      with 2 l show ?thesis by (intro disjI2 merge) simp_all
    qed
  qed
qed

section \<open>The search\<close>

text \<open>
  \<open>freed p\<close> is the transaction that freed page \<open>p\<close>, \<open>live\<close> the snapshots in use: a snapshot has the
  pages freed by later transactions only. No page in memory is one that a live snapshot has.
\<close>

definition unseen :: "txnid set \<Rightarrow> (mdb_id \<Rightarrow> txnid) \<Rightarrow> page_env \<Rightarrow> (txnid \<times> (int + idl)) list \<Rightarrow> bool" where
  "unseen live freed env rs = ((\<forall>p\<in>set (free_pages env). \<forall>r\<in>live. freed p < r)
     \<and> (\<forall>x\<in>set rs. \<forall>p\<in>set (record_pages x). freed p = fst x))"

definition none_older :: "txnid set \<Rightarrow> txnid \<Rightarrow> bool" where
  "none_older live oldest = (\<forall>r\<in>live. oldest \<le> r)"

text \<open>The search changes the three fields of the old pages' state only.\<close>

definition pools_of :: "page_env \<Rightarrow> page_env \<Rightarrow> bool" where
  "pools_of env env' = (\<exists>oldest pglast head. env' = env\<lparr>me_pgoldest := oldest, me_pglast := pglast, me_pghead := head\<rparr>)"

lemma pools_of_refl [simp]: "pools_of env env"
  unfolding pools_of_def by (intro exI [of _ "me_pgoldest env"] exI [of _ "me_pglast env"] exI [of _ "me_pghead env"]) simp

lemma pools_of_trans: "pools_of env1 env2 \<Longrightarrow> pools_of env2 env3 \<Longrightarrow> pools_of env1 env3"
  unfolding pools_of_def by (elim exE, simp) blast

lemma pools_of_oldest [simp]: "pools_of env (env\<lparr>me_pgoldest := w\<rparr>)"
  "pools_of env (env\<lparr>me_pglast := t, me_pghead := h\<rparr>)"
  unfolding pools_of_def
  by (intro exI [of _ w] exI [of _ "me_pglast env"] exI [of _ "me_pghead env"], simp)
    (intro exI [of _ "me_pgoldest env"] exI [of _ t] exI [of _ h], simp)

lemma pools_of_same: "pools_of env env' \<Longrightarrow> me_txns env' = me_txns env \<and> me_maxpg env' = me_maxpg env
    \<and> me_flags env' = me_flags env \<and> me_dpages env' = me_dpages env \<and> me_psize env' = me_psize env \<and> me_map env' = me_map env"
  by (auto simp: pools_of_def)

lemma oldest_pools [simp]: "free_pages (env\<lparr>me_pgoldest := w\<rparr>) = free_pages env" "free_ok (env\<lparr>me_pgoldest := w\<rparr>) rs = free_ok env rs"
  "unseen live freed (env\<lparr>me_pgoldest := w\<rparr>) rs = unseen live freed env rs"
  by (simp_all add: free_pages_def free_ok_def head_ok_def unseen_def)

lemma refresh_oldest_result:
  assumes "mdb_find_oldest mt_txnid (me_txns env) = Some o0" and "none_older live o0" and "none_older live oldest"
  shows "\<exists>oldest' found' w. refresh_oldest mt_txnid last1 (oldest, found, env) = Some (oldest', found', env\<lparr>me_pgoldest := w\<rparr>)
    \<and> none_older live oldest' \<and> (w = me_pgoldest env \<or> w = o0)"
proof (cases "oldest \<le> last1 \<and> \<not> found")
  case True
  then have "refresh_oldest mt_txnid last1 (oldest, found, env) = Some (o0, True, env\<lparr>me_pgoldest := o0\<rparr>)"
    using assms(1) by (simp add: refresh_oldest_def)
  with assms(2) show ?thesis by blast
next
  case False
  then have "refresh_oldest mt_txnid last1 (oldest, found, env) = Some (oldest, found, env\<lparr>me_pgoldest := me_pgoldest env\<rparr>)"
    by (auto simp: refresh_oldest_def)
  with assms(3) show ?thesis by blast
qed

text \<open>A run found in the list.\<close>

definition run_at :: "nat \<Rightarrow> nat \<Rightarrow> mdb_id \<Rightarrow> page_env \<Rightarrow> bool" where
  "run_at n2 i pgno env = (\<exists>l. me_pghead env = Some l \<and> n2 < i \<and> i \<le> unat (ml_ids l ! 0)
     \<and> ml_ids l ! i = pgno \<and> ml_ids l ! (i - n2) = pgno + of_nat n2)"

lemma free_ok_head:
  assumes "free_ok env rs" and "me_pghead env = Some l"
  shows "midl_ok l" "mop_len env = unat (ml_ids l ! 0)" "unat (ml_ids l ! 0) < length (ml_ids l)" "unat (ml_ids l ! 0) < 2 ^ 31"
    "length (midl_list l) = unat (ml_ids l ! 0)"
proof -
  show ok: "midl_ok l" using assms by (simp add: free_ok_def head_ok_def)
  then show fits: "unat (ml_ids l ! 0) < length (ml_ids l)" by (simp add: midl_ok_def)
  then show len: "length (midl_list l) = unat (ml_ids l ! 0)" by (simp add: midl_list_def idl_fits_def)
  have "length (free_pages env) < 2 ^ 31" using assms(1) by (simp add: free_ok_def)
  then show small: "unat (ml_ids l ! 0) < 2 ^ 31" using len assms(2) by (simp add: free_pages_def)
  then have "unat (ucast (ml_ids l ! 0) :: 32 word) = unat (ml_ids l ! 0)" by (intro unat_ucast_32) simp
  then show "mop_len env = unat (ml_ids l ! 0)" using assms(2) by (simp add: mop_len_def)
qed

lemma seek_found:
  assumes "free_ok env rs"
  shows "\<exists>found. (case me_pghead env of
           Some l \<Rightarrow> if n2 < mop_len env then seek_range (ml_ids l) n2 (mop_len env) else Some None
         | None \<Rightarrow> Some None) = Some found \<and> (\<forall>i pgno. found = Some (i, pgno) \<longrightarrow> run_at n2 i pgno env)"
proof (cases "me_pghead env")
  case (Some l)
  note h = free_ok_head [OF assms Some]
  show ?thesis
  proof (cases "n2 < mop_len env")
    case True
    obtain r where "seek_range (ml_ids l) n2 (mop_len env) = Some r" "\<forall>j pgno. r = Some (j, pgno) \<longrightarrow>
        n2 < j \<and> j \<le> mop_len env \<and> ml_ids l ! j = pgno \<and> ml_ids l ! (j - n2) = pgno + of_nat n2"
      using seek_range_result [of "mop_len env" "ml_ids l" n2] True h by auto
    then show ?thesis using Some True h(2) by (auto simp: run_at_def)
  qed (use Some in simp)
qed simp

text \<open>What the search ends with: some records are used up, the rest are still to be read.\<close>

definition searched ::
  "txnid set \<Rightarrow> (mdb_id \<Rightarrow> txnid) \<Rightarrow> nat \<Rightarrow> page_env \<Rightarrow> (txnid \<times> (int + idl)) list \<Rightarrow> page_source \<Rightarrow> page_env
     \<Rightarrow> (txnid \<times> (int + idl)) list \<Rightarrow> bool" where
  "searched live freed n2 env rs src env' rest =
     (pools_of env env' \<and> free_ok env' rest \<and> unseen live freed env' rest \<and> none_older live (me_pgoldest env')
      \<and> mset (free_pages env') + mset (unread_pages rest) = mset (free_pages env) + mset (unread_pages rs)
      \<and> (\<exists>used. rs = used @ rest \<and> me_pglast env' = (if used = [] then me_pglast env else fst (last used)))
      \<and> (\<forall>i pgno. src = Reuse i pgno \<longrightarrow> run_at n2 i pgno env') \<and> (\<forall>rc err. src = Fail rc err \<longrightarrow> rc \<noteq> 0))"

lemma searched_now:
  assumes "free_ok env rs" and "unseen live freed env rs" and "none_older live w"
    and "\<And>i pgno. src = Reuse i pgno \<Longrightarrow> run_at n2 i pgno env" and "\<And>rc err. src = Fail rc err \<Longrightarrow> rc \<noteq> 0"
  shows "searched live freed n2 env rs src (env\<lparr>me_pgoldest := w\<rparr>) rs"
  using assms unfolding searched_def by (auto simp: run_at_def)

text \<open>One round of the loop: it ends, or goes on to the next record.\<close>

lemma alloc_round:
  assumes "mdb_find_oldest mt_txnid (me_txns env) = Some o0" and "none_older live o0"
    and "none_older live oldest" and "none_older live (me_pgoldest env)" and "free_ok env rs"
  obtains (stops) src w where "alloc_loop malloc n2 mt_txnid stop rs retry found_old oldest last1 env = Some (src, env\<lparr>me_pgoldest := w\<rparr>)"
      "none_older live w" "src = New_pages \<or> (\<exists>i pgno. src = Reuse i pgno \<and> run_at n2 i pgno env)"
    | (on) w o1 f1 retry' where "none_older live w" "none_older live o1"
      "alloc_loop malloc n2 mt_txnid stop rs retry found_old oldest last1 env
        = (case rs of
             [] \<Rightarrow> Some (if stop = MDB_NOTFOUND then New_pages else Fail stop True, env\<lparr>me_pgoldest := w\<rparr>)
           | (last2, data) # rs' \<Rightarrow> do {
               (oldest, found_old, env) \<leftarrow> refresh_oldest mt_txnid last2 (o1, f1, env\<lparr>me_pgoldest := w\<rparr>);
               if oldest \<le> last2 then Some (New_pages, env)
               else case data of
                   Inl rc \<Rightarrow> Some (Fail rc False, env)
                 | Inr idl \<Rightarrow> do {
                     (rc, env) \<leftarrow> take_record malloc last2 idl env;
                     if rc \<noteq> 0 then Some (Fail rc True, env)
                     else alloc_loop malloc n2 mt_txnid stop rs' retry' found_old oldest last2 env
                   }
             })"
proof -
  let ?e = "alloc_loop malloc n2 mt_txnid stop rs retry found_old oldest last1 env"
  have same: "env = env\<lparr>me_pgoldest := me_pgoldest env\<rparr>" by simp
  obtain found where f: "(case me_pghead env of
           Some l \<Rightarrow> if n2 < mop_len env then seek_range (ml_ids l) n2 (mop_len env) else Some None
         | None \<Rightarrow> Some None) = Some found" "\<forall>i pgno. found = Some (i, pgno) \<longrightarrow> run_at n2 i pgno env"
    using seek_found [OF assms(5)] by blast
  obtain o1 f1 w where r: "refresh_oldest mt_txnid (last1 + 1) (oldest, found_old, env) = Some (o1, f1, env\<lparr>me_pgoldest := w\<rparr>)"
    "none_older live o1" "w = me_pgoldest env \<or> w = o0"
    using refresh_oldest_result [OF assms(1-3)] by blast
  have w: "none_older live w" using r(3) assms(2,4) by auto
  define retry' where "retry' = (if n2 < mop_len env then retry - 1 else retry)"
  consider i pgno where "found = Some (i, pgno)" | "found = None" "n2 < mop_len env \<and> retry' < 0"
    | "found = None" "\<not> (n2 < mop_len env \<and> retry' < 0)" "o1 \<le> last1 + 1"
    | "found = None" "\<not> (n2 < mop_len env \<and> retry' < 0)" "\<not> o1 \<le> last1 + 1"
    by (cases found) auto
  then show ?thesis
  proof cases
    case 1
    then have "?e = Some (Reuse i pgno, env)" unfolding alloc_loop.simps [of _ _ _ _ rs] f(1) by simp
    then show ?thesis using stops [of "Reuse i pgno" "me_pgoldest env"] 1 f(2) assms(4) by simp
  next
    case 2
    then have "?e = Some (New_pages, env)"
      unfolding alloc_loop.simps [of malloc n2 mt_txnid stop rs retry found_old oldest last1 env] f(1) Let_def
      unfolding retry'_def [symmetric] by (simp add: r(1))
    then show ?thesis using stops [of New_pages "me_pgoldest env"] assms(4) by simp
  next
    case 3
    then have "?e = Some (New_pages, env\<lparr>me_pgoldest := w\<rparr>)"
      unfolding alloc_loop.simps [of malloc n2 mt_txnid stop rs retry found_old oldest last1 env] f(1) Let_def
      unfolding retry'_def [symmetric] by (simp only: r(1) option.case if_True if_False bind.bind_lunit prod.case)
    then show ?thesis using stops [of New_pages w] w by simp
  next
    case 4
    show ?thesis
      by (rule on [OF w r(2), of f1 retry'])
        (use 4 in \<open>subst alloc_loop.simps, simp only: f(1) retry'_def [symmetric] Let_def r(1) bind.bind_lunit option.case
          if_False prod.case cong: if_cong list.case_cong\<close>)
  qed
qed

lemma record_taken:
  assumes "free_ok env ((t, Inr idl) # rs)" and "unseen live freed env ((t, Inr idl) # rs)" and "none_older live oldest" and "oldest > t"
    and "mset (midl_list l) = mset (free_pages env) + mset (idl_ids idl)"
  shows "unseen live freed (env\<lparr>me_pglast := t, me_pghead := Some l\<rparr>) rs"
proof -
  have "set (midl_list l) = set (free_pages env) \<union> set (idl_ids idl)" using arg_cong [OF assms(5), of set_mset] by simp
  moreover have "freed p < r" if "p \<in> set (idl_ids idl)" "r \<in> live" for p r
  proof -
    have "freed p = t" using assms(2) that(1) by (auto simp: unseen_def record_pages_def)
    also have "t < oldest" by (rule assms(4))
    also have "oldest \<le> r" using assms(3) that(2) by (simp add: none_older_def)
    finally show ?thesis .
  qed
  ultimately show ?thesis using assms(2) by (auto simp: unseen_def free_pages_def)
qed

lemma searched_more:
  assumes "searched live freed n2 env1 rs src env' rest" and "pools_of env env1" and "me_pglast env1 = t"
    and "mset (free_pages env1) = mset (free_pages env) + mset (record_pages (t, d))"
  shows "searched live freed n2 env ((t, d) # rs) src env' rest"
proof -
  obtain used where u: "rs = used @ rest" "me_pglast env' = (if used = [] then me_pglast env1 else fst (last used))"
    using assms(1) unfolding searched_def by blast
  have "(t, d) # rs = ((t, d) # used) @ rest" "me_pglast env' = fst (last ((t, d) # used))" using u assms(3) by auto
  then have "\<exists>used. (t, d) # rs = used @ rest \<and> me_pglast env' = (if used = [] then me_pglast env else fst (last used))"
    by (metis list.distinct(1))
  then show ?thesis
    using assms pools_of_trans [OF assms(2)] unfolding searched_def by (simp add: unread_pages_def)
qed

lemma alloc_loop_result:
  assumes "good_malloc malloc" and "mdb_find_oldest mt_txnid (me_txns env) = Some o0" and "none_older live o0"
    and "none_older live oldest" and "none_older live (me_pgoldest env)" and "free_ok env rs" and "unseen live freed env rs"
    and "stop \<noteq> 0"
  shows "\<exists>src env' rest. alloc_loop malloc n2 mt_txnid stop rs retry found_old oldest last1 env = Some (src, env')
    \<and> searched live freed n2 env rs src env' rest"
  using assms(2,4-7)
proof (induction rs arbitrary: retry found_old oldest last1 env)
  case Nil
  show ?case
  proof (cases rule: alloc_round [OF Nil.prems(1) assms(3) Nil.prems(2,3,4), of malloc n2 stop retry found_old last1])
    case stops: (1 src w)
    then have "searched live freed n2 env [] src (env\<lparr>me_pgoldest := w\<rparr>) []"
      using Nil.prems by (intro searched_now) auto
    then show ?thesis using stops(1) by blast
  next
    case on: (2 w o1 f1 retry')
    let ?src = "if stop = MDB_NOTFOUND then New_pages else Fail stop True"
    have "searched live freed n2 env [] ?src (env\<lparr>me_pgoldest := w\<rparr>) []"
      using Nil.prems on(1) assms(8) by (intro searched_now) (auto split: if_splits)
    moreover have "alloc_loop malloc n2 mt_txnid stop [] retry found_old oldest last1 env = Some (?src, env\<lparr>me_pgoldest := w\<rparr>)"
      unfolding on(3) by simp
    ultimately show ?thesis by blast
  qed
next
  case (Cons x rs)
  obtain t d where x: "x = (t, d)" by (cases x)
  show ?case
  proof (cases rule: alloc_round [OF Cons.prems(1) assms(3) Cons.prems(2,3,4), of malloc n2 stop retry found_old last1])
    case stops: (1 src w)
    then have "searched live freed n2 env (x # rs) src (env\<lparr>me_pgoldest := w\<rparr>) (x # rs)"
      using Cons.prems by (intro searched_now) auto
    then show ?thesis using stops(1) by blast
  next
    case on: (2 w o1 f1 retry')
    let ?e = "alloc_loop malloc n2 mt_txnid stop (x # rs) retry found_old oldest last1 env"
    obtain o2 f2 v where r: "refresh_oldest mt_txnid t (o1, f1, env\<lparr>me_pgoldest := w\<rparr>)
        = Some (o2, f2, env\<lparr>me_pgoldest := w\<rparr>\<lparr>me_pgoldest := v\<rparr>)"
      "none_older live o2" "v = w \<or> v = o0"
      using refresh_oldest_result [OF _ assms(3) on(2), of mt_txnid "env\<lparr>me_pgoldest := w\<rparr>" t f1] Cons.prems(1) by auto
    have v: "none_older live v" using r(3) on(1) assms(3) by auto
    have now: "searched live freed n2 env (x # rs) src (env\<lparr>me_pgoldest := v\<rparr>) (x # rs)"
      if "src = New_pages \<or> (\<exists>rc err. src = Fail rc err \<and> rc \<noteq> 0)" for src
      using that Cons.prems v by (intro searched_now) auto
    consider "o2 \<le> t" | rc where "\<not> o2 \<le> t" "d = Inl rc" | idl where "\<not> o2 \<le> t" "d = Inr idl" by (cases d) auto
    then show ?thesis
    proof cases
      case 1
      then have "?e = Some (New_pages, env\<lparr>me_pgoldest := v\<rparr>)" using on(3) x r(1) by simp
      then show ?thesis using now [of New_pages] by blast
    next
      case (2 rc)
      then have "?e = Some (Fail rc False, env\<lparr>me_pgoldest := v\<rparr>)" using on(3) x r(1) by simp
      moreover have "rc \<noteq> 0" using Cons.prems(4) x 2 by (simp add: free_ok_def record_ok_def)
      ultimately show ?thesis using now [of "Fail rc False"] by blast
    next
      case (3 idl)
      let ?env = "env\<lparr>me_pgoldest := v\<rparr>"
      have e: "?e = do {
          (rc, env) \<leftarrow> take_record malloc t idl ?env;
          if rc \<noteq> 0 then Some (Fail rc True, env) else alloc_loop malloc n2 mt_txnid stop rs retry' f2 o2 t env }"
        using on(3) x r(1) 3 by simp
      have ok: "free_ok ?env ((t, Inr idl) # rs)" "unseen live freed ?env ((t, Inr idl) # rs)"
        using Cons.prems(4,5) x 3 by simp_all
      consider "take_record malloc t idl ?env = Some (ENOMEM, ?env)"
        | l where "take_record malloc t idl ?env = Some (0, ?env\<lparr>me_pglast := t, me_pghead := Some l\<rparr>)"
          "free_ok (?env\<lparr>me_pglast := t, me_pghead := Some l\<rparr>) rs" "mset (midl_list l) = mset (free_pages ?env) + mset (idl_ids idl)"
        using take_record_result [OF assms(1) ok(1)] by blast
      then show ?thesis
      proof cases
        case 1
        then have "?e = Some (Fail ENOMEM True, ?env)" using e by (simp add: ENOMEM_def)
        then show ?thesis using now [of "Fail ENOMEM True"] by (auto simp: ENOMEM_def)
      next
        case l: 2
        let ?next = "?env\<lparr>me_pglast := t, me_pghead := Some l\<rparr>"
        have "unseen live freed ?next rs"
          using record_taken [OF ok r(2) _ l(3)] 3 by (simp add: not_le)
        then obtain src env' rest where g: "alloc_loop malloc n2 mt_txnid stop rs retry' f2 o2 t ?next = Some (src, env')"
          "searched live freed n2 ?next rs src env' rest"
          using Cons.IH [of ?next o2 retry' f2 t] Cons.prems(1) r(2) v l(2) by auto
        have "pools_of env ?next" using pools_of_trans [OF pools_of_oldest(1) pools_of_oldest(2)] .
        moreover have "mset (free_pages ?next) = mset (free_pages env) + mset (record_pages (t, d))"
          using l(3) 3 by (simp add: free_pages_def record_pages_def)
        ultimately have "searched live freed n2 env (x # rs) src env' rest"
          unfolding x by (intro searched_more [OF g(2)]) simp_all
        then show ?thesis using e l(1) g(1) by auto
      qed
    qed
  qed
qed

end
