(* ===== verification/Lmdb_Writer.thy ===== *)
theory Lmdb_Writer
  imports Lmdb_Alloc_Props
begin

text \<open>
  The invariant of a writing transaction's pages: free, dirty and new ones are apart, and no free
  page in memory is one that a live snapshot has. \<open>mdb_page_alloc\<close> keeps it on every outcome.
\<close>

section \<open>The invariant\<close>

definition fd_ok :: "free_db \<Rightarrow> bool" where
  "fd_ok fd = (sorted_wrt (<) (List.map fst (fd_records fd)) \<and> (\<forall>x\<in>set (fd_records fd). fst x \<noteq> 0 \<and> fst x \<noteq> - 1) \<and> fd_end fd \<noteq> 0)"

definition unread :: "free_db \<Rightarrow> page_env \<Rightarrow> (txnid \<times> (int + idl)) list" where
  "unread fd env = free_from (me_pglast env) (fd_records fd)"

definition all_free :: "free_db \<Rightarrow> page_env \<Rightarrow> mdb_id multiset" where
  "all_free fd env = mset (free_pages env) + mset (unread_pages (unread fd env))"

definition dirty :: "write_txn \<Rightarrow> mdb_id set" where
  "dirty txn = mid ` set (id2_ids (wt_dirty_list txn))"

definition dirty_ok :: "write_txn \<Rightarrow> bool" where
  "dirty_ok txn = (ascending (wt_dirty_list txn) \<and> length (wt_dirty_list txn) = MDB_IDL_UM_MAX + 1
     \<and> length (id2_ids (wt_dirty_list txn)) + wt_dirty_room txn \<le> MDB_IDL_UM_MAX)"

definition pages_apart :: "free_db \<Rightarrow> page_env \<Rightarrow> write_txn \<Rightarrow> bool" where
  "pages_apart fd env txn = ((\<forall>p\<in>#all_free fd env. p < wt_next_pgno txn \<and> p \<notin> dirty txn) \<and> (\<forall>p\<in>dirty txn. p < wt_next_pgno txn))"

text \<open>A loose page is one the transaction has dirtied, and is there once.\<close>

definition loose_ok :: "write_txn \<Rightarrow> bool" where
  "loose_ok txn = (distinct (List.map snd (wt_loose_pgs txn)) \<and> snd ` set (wt_loose_pgs txn) \<subseteq> dirty txn)"

definition writer_inv :: "txnid set \<Rightarrow> (mdb_id \<Rightarrow> txnid) \<Rightarrow> free_db \<Rightarrow> page_env \<Rightarrow> write_txn \<Rightarrow> bool" where
  "writer_inv live freed fd env txn =
     (fd_ok fd \<and> free_ok env (unread fd env) \<and> unseen live freed env (unread fd env) \<and> none_older live (me_pgoldest env)
      \<and> (\<exists>o0. mdb_find_oldest (wt_txnid txn) (me_txns env) = Some o0 \<and> none_older live o0)
      \<and> \<not> F_ISSET (me_flags env) MDB_WRITEMAP \<and> dirty_ok txn \<and> pages_apart fd env txn \<and> loose_ok txn)"

definition run :: "mdb_id \<Rightarrow> nat \<Rightarrow> mdb_id list" where
  "run pgno num = List.map (\<lambda>k. pgno + of_nat k) [0..<num]"

lemma writer_inv_cong [simp]:
  "writer_inv live freed fd env (txn\<lparr>wt_error := b\<rparr>) = writer_inv live freed fd env txn"
  "writer_inv live freed fd env (fail_txn txn) = writer_inv live freed fd env txn"
  "writer_inv live freed fd (env\<lparr>me_dpages := ps\<rparr>) txn = writer_inv live freed fd env txn"
  "all_free fd (env\<lparr>me_dpages := ps\<rparr>) = all_free fd env"
  by (simp_all add: writer_inv_def fail_txn_def dirty_ok_def pages_apart_def loose_ok_def dirty_def unread_def all_free_def free_pages_def
      free_ok_def head_ok_def unseen_def)

lemma fail_txn_same [simp]: "wt_next_pgno (fail_txn txn) = wt_next_pgno txn" "dirty (fail_txn txn) = dirty txn"
  by (simp_all add: fail_txn_def dirty_def)

section \<open>The records behind the last one read\<close>

lemma free_from_used:
  assumes "fd_ok fd" and "free_from pglast (fd_records fd) = used @ rest" and "used \<noteq> []"
  shows "free_from (fst (last used)) (fd_records fd) = rest"
proof -
  let ?rs = "fd_records fd"
  let ?t = "fst (last used)"
  have "\<exists>pre. ?rs = pre @ used @ rest"
  proof (cases "pglast = 0")
    case True
    then show ?thesis using assms(2) by (auto simp: free_from_def intro: exI [of _ "[]"])
  next
    case False
    then have "?rs = takeWhile (\<lambda>r. fst r < pglast + 1) ?rs @ used @ rest"
      using assms(2) by (metis free_from_def takeWhile_dropWhile_id)
    then show ?thesis by blast
  qed
  then obtain pre where rs: "?rs = pre @ used @ rest" by blast
  obtain us u where u: "used = us @ [u]" using assms(3) by (cases used rule: rev_cases) auto
  have t: "?t \<noteq> 0" "?t \<noteq> - 1" using assms(1) by (auto simp: fd_ok_def rs u)
  then have next_t: "w < ?t + 1 \<longleftrightarrow> w \<le> ?t" for w
    using unatSuc [of ?t] by (simp add: word_less_nat_alt word_le_nat_alt add.commute less_Suc_eq_le eq_neg_iff_add_eq_0)
  have sorted: "sorted_wrt (<) (List.map fst (pre @ us @ u # rest))" using assms(1) by (simp add: fd_ok_def rs u)
  have "dropWhile (\<lambda>r. fst r < ?t + 1) ((pre @ us @ [u]) @ rest) = dropWhile (\<lambda>r. fst r < ?t + 1) rest"
    unfolding next_t using sorted by (intro dropWhile_append2) (auto simp: u sorted_wrt_append intro: less_imp_le)
  also have "\<dots> = rest"
    unfolding next_t using sorted by (cases rest) (auto simp: u sorted_wrt_append not_le)
  finally show ?thesis using t(1) by (simp add: free_from_def rs u)
qed

section \<open>Dirty pages\<close>

lemma page_dirty_result:
  assumes "dirty_ok txn" and "0 < wt_dirty_room txn" and "pgno \<notin> dirty txn"
  shows "\<exists>dl. mdb_page_dirty False np pgno txn = Some (txn\<lparr>wt_dirty_list := dl, wt_dirty_room := wt_dirty_room txn - 1\<rparr>)
    \<and> dirty_ok (txn\<lparr>wt_dirty_list := dl, wt_dirty_room := wt_dirty_room txn - 1\<rparr>)
    \<and> mid ` set (id2_ids dl) = insert pgno (dirty txn)"
proof -
  let ?new = "\<lparr>mid = pgno, mptr = np\<rparr>" and ?dl = "wt_dirty_list txn"
  have room: "length (id2_ids ?dl) \<noteq> MDB_IDL_UM_MAX" using assms(1,2) by (simp add: dirty_ok_def)
  have fresh: "mid ?new \<notin> mid ` set (id2_ids ?dl)" using assms(3) by (simp add: dirty_def)
  obtain dl where dl: "mdb_mid2l_insert ?dl ?new = Some (0, dl)" "ascending dl" "length dl = length ?dl"
    "mset (id2_ids dl) = add_mset ?new (mset (id2_ids ?dl))"
    using mid2l_insert_ordered [of ?dl ?new] assms(1) room fresh by (auto simp: dirty_ok_def)
  have "set (id2_ids dl) = insert ?new (set (id2_ids ?dl))" using arg_cong [OF dl(4), of set_mset] by simp
  moreover have "length (id2_ids dl) = Suc (length (id2_ids ?dl))" using arg_cong [OF dl(4), of size] by simp
  ultimately show ?thesis
    using dl assms(1,2) by (intro exI [of _ dl]) (auto simp: mdb_page_dirty_def dirty_ok_def dirty_def)
qed

section \<open>Allocating\<close>

text \<open>
  What an allocation does to the pools. The pages are new ones at the end, or they leave the free
  pages, and then no live snapshot has them; or, for one page, a loose page is used again.
\<close>

definition granted ::
  "txnid set \<Rightarrow> (mdb_id \<Rightarrow> txnid) \<Rightarrow> free_db \<Rightarrow> nat \<Rightarrow> page_env \<Rightarrow> write_txn \<Rightarrow> nat \<Rightarrow> mdb_id \<Rightarrow> page_env \<Rightarrow> write_txn \<Rightarrow> bool" where
  "granted live freed fd num env txn np pgno env' txn' =
     (dirty txn' = insert pgno (dirty txn) \<and> set (run pgno num) \<inter> dirty txn = {} \<and>
      ((pgno = wt_next_pgno txn \<and> wt_next_pgno txn' = pgno + of_nat num \<and> all_free fd env' = all_free fd env)
       \<or> (wt_next_pgno txn' = wt_next_pgno txn \<and> all_free fd env = mset (run pgno num) + all_free fd env'
          \<and> (\<forall>p\<in>set (run pgno num). \<forall>r\<in>live. freed p < r))))"

definition refused :: "free_db \<Rightarrow> page_env \<Rightarrow> write_txn \<Rightarrow> page_env \<Rightarrow> write_txn \<Rightarrow> bool" where
  "refused fd env txn env' txn' = (all_free fd env' = all_free fd env \<and> wt_next_pgno txn' = wt_next_pgno txn \<and> dirty txn' = dirty txn)"

lemma page_malloc_result:
  "(\<exists>ps. mdb_page_malloc pmalloc num env txn = (None, env\<lparr>me_dpages := ps\<rparr>, fail_txn txn))
    \<or> (\<exists>np ps. mdb_page_malloc pmalloc num env txn = (Some np, env\<lparr>me_dpages := ps\<rparr>, txn))"
proof -
  have same: "env = env\<lparr>me_dpages := me_dpages env\<rparr>" by simp
  show ?thesis
    by (cases "pmalloc (unat (me_psize env) * num)"; simp add: mdb_page_malloc_def) (use same in metis)+
qed

lemma searched_inv:
  assumes "writer_inv live freed fd env txn" and "searched live freed n2 env (unread fd env) src env' rest"
  shows "writer_inv live freed fd env' txn" "all_free fd env' = all_free fd env" "unread fd env' = rest"
    "pools_of env env'"
proof -
  obtain used where u: "unread fd env = used @ rest" "me_pglast env' = (if used = [] then me_pglast env else fst (last used))"
    using assms(2) unfolding searched_def by blast
  have fd: "fd_ok fd" using assms(1) by (simp add: writer_inv_def)
  show rest: "unread fd env' = rest"
    using u free_from_used [OF fd, of "me_pglast env" used rest] by (cases "used = []") (simp_all add: unread_def)
  then show free: "all_free fd env' = all_free fd env" using assms(2) by (simp add: searched_def all_free_def)
  show pools: "pools_of env env'" using assms(2) by (simp add: searched_def)
  then show "writer_inv live freed fd env' txn"
    using assms rest free pools_of_same [OF pools] by (auto simp: writer_inv_def searched_def pages_apart_def)
qed

text \<open>A run leaves the list in memory.\<close>

lemma run_taken:
  assumes "free_ok env rs" and "run_at (num - 1) i pgno env" and "1 \<le> num" and "num < 2 ^ 31"
  shows "\<exists>l ids. me_pghead env = Some l \<and> take_run (mop_len env) i num (ml_ids l) = Some ids
    \<and> head_ok (env\<lparr>me_pghead := Some (l\<lparr>ml_ids := ids\<rparr>)\<rparr>)
    \<and> mset (free_pages env) = mset (run pgno num) + mset (free_pages (env\<lparr>me_pghead := Some (l\<lparr>ml_ids := ids\<rparr>)\<rparr>))
    \<and> pgno \<in> set (run pgno num)"
proof -
  obtain l where l: "me_pghead env = Some l" "num - 1 < i" "i \<le> unat (ml_ids l ! 0)"
    "ml_ids l ! i = pgno" "ml_ids l ! (i - (num - 1)) = pgno + of_nat (num - 1)"
    using assms(2) by (auto simp: run_at_def)
  note h = free_ok_head [OF assms(1) l(1)]
  let ?xs = "midl_list l"
  have sorted: "sorted_wrt (>) ?xs" and cap: "unat (ml_alloc l) \<le> 2 ^ 62"
    using assms(1) l(1) by (simp_all add: free_ok_def head_ok_def)
  have i: "num \<le> i" "i \<le> length ?xs" using l(2,3) assms(3) h(5) by simp_all
  have fits: "idl_fits (ml_ids l)" using h(3) by (simp add: idl_fits_def)
  have at: "ml_ids l ! Suc j = ?xs ! j" if "j < length ?xs" for j
    using idl_ids_nth [OF _ fits, of j] that h(5) by (simp add: midl_list_def)
  obtain ids where ids: "take_run (mop_len env) i num (ml_ids l) = Some ids" "length ids = length (ml_ids l)" "idl_fits ids"
    "unat (ids ! 0) = mop_len env - num" "idl_ids ids = take (i - num) ?xs @ drop i ?xs"
    using take_run_result [OF fits h(2) i(1)] l(3) h(2) by (auto simp: midl_list_def)
  let ?env = "env\<lparr>me_pghead := Some (l\<lparr>ml_ids := ids\<rparr>)\<rparr>"
  have free: "free_pages env = ?xs" "free_pages ?env = take (i - num) ?xs @ drop i ?xs"
    using l(1) ids(5) by (simp_all add: free_pages_def midl_list_def)
  have first: "?xs ! (i - num) = ?xs ! (i - num + (num - 1)) + of_nat (num - 1)" "?xs ! (i - num + (num - 1)) = pgno"
    using at [of "i - 1"] at [of "i - num"] l(4,5) i assms(3) by (simp_all add: Suc_diff_le [symmetric])
  have "run pgno num = rev (take num (drop (i - num) ?xs))"
  proof (rule nth_equalityI)
    fix k assume "k < length (run pgno num)"
    then have k: "k < num" by (simp add: run_def)
    have "?xs ! (i - num + (num - 1) - k) = ?xs ! (i - num + (num - 1)) + of_nat k"
      using k i assms(3,4) by (intro run_contiguous [OF sorted _ first(1)]) simp_all
    then show "run pgno num ! k = rev (take num (drop (i - num) ?xs)) ! k"
      using k i first(2) by (simp add: run_def rev_nth)
  qed (use i in \<open>simp add: run_def\<close>)
  then have run: "mset (run pgno num) = mset (take num (drop (i - num) ?xs))" by simp
  have "mset ?xs = mset (take (i - num) ?xs) + mset (take num (drop (i - num) ?xs)) + mset (drop i ?xs)"
  proof -
    have "?xs = take (i - num) ?xs @ take num (drop (i - num) ?xs) @ drop i ?xs"
      using append_take_drop_id [of "i - num" ?xs] append_take_drop_id [of num "drop (i - num) ?xs"] i(1) by simp
    then have "mset ?xs = mset (take (i - num) ?xs @ take num (drop (i - num) ?xs) @ drop i ?xs)" by (rule arg_cong)
    then show ?thesis by simp
  qed
  then have m: "mset (free_pages env) = mset (run pgno num) + mset (free_pages ?env)" unfolding free run by simp
  have "sorted_wrt (>) (take (i - num) ?xs @ drop i ?xs)"
  proof -
    have "sorted_wrt (>) (take (i - num) ?xs @ drop (i - num) ?xs)" using sorted by simp
    then have "y < x" if "x \<in> set (take (i - num) ?xs)" "y \<in> set (drop (i - num) ?xs)" for x y
      using that unfolding sorted_wrt_append by blast
    moreover have "set (drop i ?xs) \<subseteq> set (drop (i - num) ?xs)" by (intro set_drop_subset_set_drop) simp
    ultimately show ?thesis using sorted unfolding sorted_wrt_append by (simp add: sorted_wrt_take sorted_wrt_drop) blast
  qed
  then have "head_ok ?env"
    using ids(2-5) h(1) cap by (simp add: head_ok_def midl_ok_def midl_list_def idl_fits_def)
  moreover have "pgno \<in> set (run pgno num)" using assms(3) by (auto simp: run_def intro!: image_eqI [of _ _ 0])
  ultimately show ?thesis using l(1) ids(1) m by blast
qed

lemma set_run: "p \<in> set (run pgno num) \<longleftrightarrow> (\<exists>k<num. p = pgno + of_nat k)"
  by (auto simp: run_def)

text \<open>Pages leave the pools, and one of them, or a new one, becomes dirty.\<close>

lemma inv_after:
  assumes "writer_inv live freed fd env txn" and "head_ok (env\<lparr>me_dpages := ps, me_pghead := h\<rparr>)"
    and "mset (free_pages env) = mset out + mset (free_pages (env\<lparr>me_dpages := ps, me_pghead := h\<rparr>))"
    and "wt_txnid txn' = wt_txnid txn \<and> wt_loose_pgs txn' = wt_loose_pgs txn" and "dirty_ok txn'" and "dirty txn' = insert pgno (dirty txn)"
    and "wt_next_pgno txn \<le> wt_next_pgno txn'" and "pgno < wt_next_pgno txn'"
    and "pgno \<in> set out \<or> wt_next_pgno txn \<le> pgno"
  shows "writer_inv live freed fd (env\<lparr>me_dpages := ps, me_pghead := h\<rparr>) txn'"
    and "all_free fd env = mset out + all_free fd (env\<lparr>me_dpages := ps, me_pghead := h\<rparr>)"
proof -
  let ?env = "env\<lparr>me_dpages := ps, me_pghead := h\<rparr>"
  have unread: "unread fd ?env = unread fd env" by (simp add: unread_def)
  then show free: "all_free fd env = mset out + all_free fd ?env" using assms(3) by (simp add: all_free_def)
  let ?u = "unread_pages (unread fd env)"
  have ok: "distinct (free_pages env @ ?u)" "length (free_pages env @ ?u) < 2 ^ 31"
    using assms(1) by (simp_all add: writer_inv_def free_ok_def)
  have m: "mset (free_pages env @ ?u) = mset (out @ free_pages ?env @ ?u)" using assms(3) by simp
  have d: "distinct (out @ free_pages ?env @ ?u)" using ok(1) mset_eq_imp_distinct_iff [OF m] by simp
  have "length (free_pages ?env @ ?u) < 2 ^ 31" using ok(2) mset_eq_length [OF m] by simp
  then have "free_ok ?env (unread fd ?env)"
    using assms(1,2) d unread by (simp add: writer_inv_def free_ok_def)
  moreover have "set (free_pages ?env) \<subseteq> set (free_pages env)" using arg_cong [OF assms(3), of set_mset] by auto
  then have "unseen live freed ?env (unread fd ?env)" using assms(1) unread by (auto simp: writer_inv_def unseen_def)
  moreover have "pages_apart fd ?env txn'"
  proof -
    have old: "p < wt_next_pgno txn" "p \<notin> dirty txn" if "p \<in># all_free fd ?env" for p
      using assms(1) that free by (auto simp: writer_inv_def pages_apart_def)
    have "pgno \<notin># all_free fd ?env"
    proof
      assume "pgno \<in># all_free fd ?env"
      then have "pgno < wt_next_pgno txn" "pgno \<in> set (free_pages ?env) \<union> set ?u" using old(1) unread by (auto simp: all_free_def)
      then show False using assms(9) d by auto
    qed
    then show ?thesis
      using old assms(1,6-8) by (auto simp: writer_inv_def pages_apart_def intro: less_le_trans)
  qed
  ultimately show "writer_inv live freed fd ?env txn'"
    using assms(1,4-6) by (auto simp: writer_inv_def loose_ok_def)
qed

lemma alloc_pages_result:
  assumes "writer_inv live freed fd env txn" and "0 < wt_dirty_room txn" and "1 \<le> num" and "num < 2 ^ 31"
    and "unat (wt_next_pgno txn) + num < 2 ^ 64"
    and "\<And>i pgno. src = Reuse i pgno \<Longrightarrow> run_at (num - 1) i pgno env" and "\<And>rc err. src = Fail rc err \<Longrightarrow> rc \<noteq> 0"
  shows "\<exists>rc page env' txn'. alloc_pages pmalloc num src env txn = Some (rc, page, env', txn') \<and> writer_inv live freed fd env' txn'
    \<and> (case page of
         None \<Rightarrow> rc \<noteq> MDB_SUCCESS \<and> refused fd env txn env' txn'
       | Some (np, pgno) \<Rightarrow> rc = MDB_SUCCESS \<and> granted live freed fd num env txn np pgno env' txn')"
proof -
  have refuse: ?thesis if "alloc_pages pmalloc num src env txn = Some (rc, None, env\<lparr>me_dpages := ps\<rparr>, txn')" "rc \<noteq> MDB_SUCCESS"
    "txn' = txn \<or> txn' = fail_txn txn \<or> txn' = fail_txn (fail_txn txn)" for rc ps txn'
    using that assms(1) by (auto simp: refused_def fail_txn_def dirty_def)
  have same: "env = env\<lparr>me_dpages := me_dpages env\<rparr>" by simp
  show ?thesis
  proof (cases "\<exists>rc err. src = Fail rc err")
    case True
    then show ?thesis using refuse [of _ "me_dpages env"] assms(7) by (auto simp: alloc_pages_def MDB_SUCCESS_def)
  next
    case False
    then have src: "src = New_pages \<or> (\<exists>i pgno. src = Reuse i pgno)" by (cases src) auto
    define pgno where "pgno = (case src of Reuse i pgno \<Rightarrow> pgno | _ \<Rightarrow> wt_next_pgno txn)"
    have wm: "\<not> F_ISSET (me_flags env) MDB_WRITEMAP" using assms(1) by (simp add: writer_inv_def)
    have ok: "dirty_ok txn" "free_ok env (unread fd env)" using assms(1) by (simp_all add: writer_inv_def)
    have apart: "\<And>p. p \<in># all_free fd env \<Longrightarrow> p < wt_next_pgno txn \<and> p \<notin> dirty txn" "\<And>p. p \<in> dirty txn \<Longrightarrow> p < wt_next_pgno txn"
      using assms(1) by (auto simp: writer_inv_def pages_apart_def)
    have run0: "pgno \<in> set (run pgno num)" using assms(3) by (auto simp: set_run intro!: exI [of _ 0])
    consider (full) "src = New_pages" "me_maxpg env \<le> pgno + of_nat num"
      | (nomem) ps where "\<not> (src = New_pages \<and> me_maxpg env \<le> pgno + of_nat num)"
          "mdb_page_malloc pmalloc num env txn = (None, env\<lparr>me_dpages := ps\<rparr>, fail_txn txn)"
      | (got) np ps where "\<not> (src = New_pages \<and> me_maxpg env \<le> pgno + of_nat num)"
          "mdb_page_malloc pmalloc num env txn = (Some np, env\<lparr>me_dpages := ps\<rparr>, txn)"
      using page_malloc_result [of pmalloc num env txn] by blast
    then show ?thesis
    proof cases
      case full
      then show ?thesis
        using refuse [of MDB_MAP_FULL "me_dpages env" "fail_txn txn"] by (simp add: alloc_pages_def pgno_def MDB_MAP_FULL_def MDB_SUCCESS_def)
    next
      case (nomem ps)
      then have "alloc_pages pmalloc num src env txn = Some (ENOMEM, None, env\<lparr>me_dpages := ps\<rparr>, fail_txn (fail_txn txn))"
        using src wm by (auto simp: alloc_pages_def pgno_def)
      then show ?thesis by (rule refuse) (simp_all add: ENOMEM_def MDB_SUCCESS_def)
    next
      case (got np ps)
      show ?thesis
      proof (cases src)
        case New_pages
        then have p: "pgno = wt_next_pgno txn" by (simp add: pgno_def)
        let ?txn = "txn\<lparr>wt_next_pgno := pgno + of_nat num\<rparr>"
        have grows: "wt_next_pgno txn < pgno + of_nat num"
          using assms(3-5) by (simp add: p word_less_nat_alt unat_word_ariths unat_of_nat)
        have up: "q \<in> set (run pgno num) \<Longrightarrow> wt_next_pgno txn \<le> q" for q
          using assms(4,5) by (auto simp: set_run p word_le_nat_alt unat_word_ariths unat_of_nat)
        have new: "pgno \<notin> dirty ?txn" using apart(2) by (auto simp: p dirty_def)
        obtain dl where dl: "mdb_page_dirty False np pgno ?txn = Some (?txn\<lparr>wt_dirty_list := dl, wt_dirty_room := wt_dirty_room txn - 1\<rparr>)"
          "dirty_ok (?txn\<lparr>wt_dirty_list := dl, wt_dirty_room := wt_dirty_room txn - 1\<rparr>)" "mid ` set (id2_ids dl) = insert pgno (dirty txn)"
          using page_dirty_result [OF _ _ new, of np] ok(1) assms(2) by (auto simp: dirty_ok_def dirty_def)
        let ?t = "?txn\<lparr>wt_dirty_list := dl, wt_dirty_room := wt_dirty_room txn - 1\<rparr>"
        let ?e = "env\<lparr>me_dpages := ps, me_pghead := me_pghead env\<rparr>"
        have e: "alloc_pages pmalloc num src env txn = Some (MDB_SUCCESS, Some (np, pgno), ?e, ?t)"
          using got wm dl(1) New_pages p by (simp add: alloc_pages_def Let_def)
        have h: "head_ok ?e" using ok(2) by (simp add: free_ok_def head_ok_def)
        have d: "dirty ?t = insert pgno (dirty txn)" using dl(3) by (simp add: dirty_def)
        have "writer_inv live freed fd ?e ?t" "all_free fd env = mset [] + all_free fd ?e"
          using inv_after [OF assms(1) h _ _ dl(2) d, of "[]"] grows p by (simp_all add: free_pages_def)
        moreover have "set (run pgno num) \<inter> dirty txn = {}" using up apart(2) by fastforce
        ultimately show ?thesis using e d p by (simp add: granted_def)
      next
        case (Reuse i pgno')
        then have p: "run_at (num - 1) i pgno env" using assms(6) by (simp add: pgno_def)
        obtain l ids where l: "me_pghead env = Some l" "take_run (mop_len env) i num (ml_ids l) = Some ids"
          "head_ok (env\<lparr>me_pghead := Some (l\<lparr>ml_ids := ids\<rparr>)\<rparr>)"
          "mset (free_pages env) = mset (run pgno num) + mset (free_pages (env\<lparr>me_pghead := Some (l\<lparr>ml_ids := ids\<rparr>)\<rparr>))"
          using run_taken [OF ok(2) p assms(3,4)] by blast
        have out: "q \<in># all_free fd env" if "q \<in> set (run pgno num)" for q
          using that l(4) by (simp add: all_free_def)
        have old: "freed q < r" if "q \<in> set (run pgno num)" "r \<in> live" for q r
        proof -
          have "q \<in> set (free_pages env)" using that(1) l(4) by (metis set_mset_mset set_mset_union UnI1)
          then show ?thesis using assms(1) that(2) by (auto simp: writer_inv_def unseen_def)
        qed
        have new: "pgno \<notin> dirty txn" using apart(1) out run0 by blast
        obtain dl where dl: "mdb_page_dirty False np pgno txn = Some (txn\<lparr>wt_dirty_list := dl, wt_dirty_room := wt_dirty_room txn - 1\<rparr>)"
          "dirty_ok (txn\<lparr>wt_dirty_list := dl, wt_dirty_room := wt_dirty_room txn - 1\<rparr>)" "mid ` set (id2_ids dl) = insert pgno (dirty txn)"
          using page_dirty_result [OF ok(1) assms(2) new, of np] by blast
        let ?t = "txn\<lparr>wt_dirty_list := dl, wt_dirty_room := wt_dirty_room txn - 1\<rparr>"
        let ?e = "env\<lparr>me_dpages := ps, me_pghead := Some (l\<lparr>ml_ids := ids\<rparr>)\<rparr>"
        have len: "mop_len (env\<lparr>me_dpages := ps\<rparr>) = mop_len env" by (simp add: mop_len_def)
        have e: "alloc_pages pmalloc num src env txn = Some (MDB_SUCCESS, Some (np, pgno), ?e, ?t)"
          using got wm dl(1) Reuse l(1,2) len by (simp add: alloc_pages_def pgno_def Let_def)
        have h: "head_ok ?e" using l(3) by (simp add: head_ok_def)
        have d: "dirty ?t = insert pgno (dirty txn)" using dl(3) by (simp add: dirty_def)
        have m: "mset (free_pages env) = mset (run pgno num) + mset (free_pages ?e)" using l(4) by (simp add: free_pages_def)
        have low: "pgno < wt_next_pgno ?t" using apart(1) out run0 by simp
        note after = inv_after [OF assms(1) h m _ dl(2) d _ low]
        have "writer_inv live freed fd ?e ?t" "all_free fd env = mset (run pgno num) + all_free fd ?e"
          using after run0 by simp_all
        moreover have "set (run pgno num) \<inter> dirty txn = {}" using apart(1) out by blast
        ultimately show ?thesis using e d old by (simp add: granted_def)
      qed (use src in auto)
    qed
  qed
qed

text \<open>\<open>mdb_page_alloc\<close> itself.\<close>

lemma alloc_search:
  assumes "good_malloc malloc" and "writer_inv live freed fd env txn"
  shows "\<exists>src env1 rest. alloc_loop malloc n2 (wt_txnid txn) (fd_end fd) (unread fd env)
      retry False (me_pgoldest env) (me_pglast env) env = Some (src, env1)
    \<and> searched live freed n2 env (unread fd env) src env1 rest"
proof -
  obtain o0 where o0: "mdb_find_oldest (wt_txnid txn) (me_txns env) = Some o0" "none_older live o0"
    using assms(2) by (auto simp: writer_inv_def)
  have fd: "fd_end fd \<noteq> 0" using assms(2) by (simp add: writer_inv_def fd_ok_def)
  have "none_older live (me_pgoldest env)" "free_ok env (unread fd env)" "unseen live freed env (unread fd env)"
    using assms(2) by (simp_all add: writer_inv_def)
  then show ?thesis using alloc_loop_result [OF assms(1) o0 _ _ _ _ fd] by blast
qed

lemma alloc_loop_found:
  assumes "good_malloc malloc" and "writer_inv live freed fd env txn"
    and "alloc_loop malloc n2 (wt_txnid txn) (fd_end fd) (unread fd env)
      retry False (me_pgoldest env) (me_pglast env) env = Some (src, env1)"
  shows "pools_of env env1"
  using alloc_search [OF assms(1,2), of n2 retry] assms(3) by (auto simp: searched_def)

definition loose_again ::
  "page_env \<Rightarrow> write_txn \<Rightarrow> nat \<Rightarrow> nat \<times> mdb_id \<Rightarrow> page_env \<Rightarrow> write_txn \<Rightarrow> bool" where
  "loose_again env txn num pg env' txn' =
     (num = 1 \<and> env' = env \<and> wt_loose_pgs txn = pg # wt_loose_pgs txn' \<and> snd pg \<in> dirty txn \<and> dirty txn' = dirty txn
      \<and> wt_next_pgno txn' = wt_next_pgno txn \<and> snd pg \<notin> snd ` set (wt_loose_pgs txn'))"

lemma page_alloc_result:
  assumes "good_malloc malloc" and "writer_inv live freed fd env txn" and "1 \<le> num" and "num < 2 ^ 31"
    and "unat (wt_next_pgno txn) + num < 2 ^ 64"
  shows "\<exists>rc page env' txn'. mdb_page_alloc malloc pmalloc fd num env txn = Some (rc, page, env', txn') \<and> writer_inv live freed fd env' txn'
    \<and> (case page of
         None \<Rightarrow> rc \<noteq> MDB_SUCCESS \<and> refused fd env txn env' txn'
       | Some (np, pgno) \<Rightarrow> rc = MDB_SUCCESS
           \<and> (loose_again env txn num (np, pgno) env' txn' \<or> granted live freed fd num env txn np pgno env' txn'))"
proof -
  consider (loose) "num = 1" "wt_loose_pgs txn \<noteq> []" | (full) "\<not> (num = 1 \<and> wt_loose_pgs txn \<noteq> [])" "wt_dirty_room txn = 0"
    | (search) "\<not> (num = 1 \<and> wt_loose_pgs txn \<noteq> [])" "0 < wt_dirty_room txn" by auto
  then show ?thesis
  proof cases
    case loose
    then obtain np pgno ls where ls: "wt_loose_pgs txn = (np, pgno) # ls" by (metis list.exhaust surj_pair)
    let ?t = "txn\<lparr>wt_loose_pgs := ls, wt_loose_count := wt_loose_count txn - 1\<rparr>"
    have "writer_inv live freed fd env ?t"
      using assms(2) ls by (simp add: writer_inv_def dirty_ok_def pages_apart_def loose_ok_def dirty_def)
    moreover have "loose_again env txn num (np, pgno) env ?t"
      using assms(2) ls loose(1) by (auto simp: loose_again_def writer_inv_def loose_ok_def dirty_def)
    ultimately show ?thesis using loose(1) ls by (simp add: mdb_page_alloc_def)
  next
    case full
    then have "mdb_page_alloc malloc pmalloc fd num env txn = Some (MDB_TXN_FULL, None, env, fail_txn txn)"
      by (auto simp: mdb_page_alloc_def)
    then show ?thesis
      using assms(2) by (simp add: refused_def MDB_TXN_FULL_def MDB_SUCCESS_def)
  next
    case search
    obtain src env1 rest where l: "alloc_loop malloc (num - 1) (wt_txnid txn) (fd_end fd) (unread fd env)
        (int num * 60) False (me_pgoldest env) (me_pglast env) env = Some (src, env1)"
      "searched live freed (num - 1) env (unread fd env) src env1 rest"
      using alloc_search [OF assms(1,2)] by blast
    note s = searched_inv [OF assms(2) l(2)]
    have "run_at (num - 1) i pgno env1" if "src = Reuse i pgno" for i pgno using l(2) that by (simp add: searched_def)
    moreover have "rc \<noteq> 0" if "src = Fail rc err" for rc err using l(2) that by (simp add: searched_def)
    ultimately obtain rc page env' txn' where a: "alloc_pages pmalloc num src env1 txn = Some (rc, page, env', txn')"
      "writer_inv live freed fd env' txn'"
      "case page of None \<Rightarrow> rc \<noteq> MDB_SUCCESS \<and> refused fd env1 txn env' txn'
         | Some (np, pgno) \<Rightarrow> rc = MDB_SUCCESS \<and> granted live freed fd num env1 txn np pgno env' txn'"
      using alloc_pages_result [OF s(1) search(2) assms(3-5)] by blast
    have "mdb_page_alloc malloc pmalloc fd num env txn = Some (rc, page, env', txn')"
      using search l(1) a(1) by (auto simp: mdb_page_alloc_def unread_def)
    then show ?thesis using a(2,3) s(2) by (cases page) (auto simp: refused_def granted_def)
  qed
qed

end
