(* ===== verification/Lmdb_Reader_Steps.thy ===== *)
theory Lmdb_Reader_Steps
  imports Lmdb_Readers
begin

text \<open>
  Readers and writers of any number of processes as they interleave: every access to the shared
  table and to \<open>mti_txnid\<close> is a step of its own. A reader that has begun is never older than the
  oldest snapshot a writer has taken for safe to reuse.
\<close>

section \<open>The oldest of the readers\<close>

lemma oldest_step_le: "oldest_step r w \<le> w"
  by (simp add: oldest_step_def less_imp_le)

lemma oldest_step_reader: "mr_pid r \<noteq> 0 \<Longrightarrow> oldest_step r w \<le> mr_txnid r"
  by (auto simp: oldest_step_def)

lemma oldest_loop_bounds:
  assumes "oldest_loop rs k w = Some oldest"
  shows "oldest \<le> w \<and> (\<forall>i<k. mr_pid (rs ! i) \<noteq> 0 \<longrightarrow> oldest \<le> mr_txnid (rs ! i))
    \<and> (oldest = w \<or> (\<exists>i<k. mr_pid (rs ! i) \<noteq> 0 \<and> oldest = mr_txnid (rs ! i)))"
  using assms
proof (induction k arbitrary: w)
  case (Suc k)
  let ?r = "rs ! k"
  have "oldest_loop rs k (oldest_step ?r w) = Some oldest"
    using Suc.prems by (auto simp: bind_eq_Some_conv idl_at_eq)
  note IH = Suc.IH [OF this]
  have "oldest \<le> w" using IH oldest_step_le [of ?r w] by (meson order_trans)
  moreover have "oldest \<le> mr_txnid ?r" if "mr_pid ?r \<noteq> 0"
    using IH oldest_step_reader [OF that, of w] by (meson order_trans)
  moreover have "oldest = w \<or> (mr_pid ?r \<noteq> 0 \<and> oldest = mr_txnid ?r) \<or> (\<exists>i<k. mr_pid (rs ! i) \<noteq> 0 \<and> oldest = mr_txnid (rs ! i))"
    using IH by (auto simp: oldest_step_def split: if_splits)
  ultimately show ?case using IH by (auto simp: less_Suc_eq)
qed simp

section \<open>Steps\<close>

text \<open>Where the owner of a slot is. One that is gone died without clearing it.\<close>

datatype reader_phase = Resting | Fetched txnid | Stored | Reading | Gone

text \<open>
  The writer: its process, its transaction, and, inside \<open>mdb_find_oldest\<close>, the slots still to be
  looked at and the oldest so far.
\<close>

record writer =
  wr_pid :: int
  wr_txnid :: txnid
  wr_scan :: "(nat \<times> txnid) option"

text \<open>\<open>sh_oldest\<close> is \<open>me_pgoldest\<close> of each process.\<close>

record shared =
  sh_table :: reader_table
  sh_txnid :: txnid
  sh_phase :: "nat \<Rightarrow> reader_phase"
  sh_writer :: "writer option"
  sh_oldest :: "int \<Rightarrow> txnid"

definition move :: "nat \<Rightarrow> reader_phase \<Rightarrow> shared \<Rightarrow> shared" where
  "move i ph s = s\<lparr>sh_phase := (sh_phase s)(i := ph)\<rparr>"

inductive reader_step :: "nat \<Rightarrow> shared \<Rightarrow> shared \<Rightarrow> bool" for maxreaders where
  claim: "claim_slot pid tid maxreaders (sh_table s) = Some (Inr i, t) \<Longrightarrow> pid \<noteq> 0 \<Longrightarrow>
    reader_step maxreaders s (move i Resting (s\<lparr>sh_table := t\<rparr>))"
| fetch: "sh_phase s i = Resting \<Longrightarrow> i < mti_numreaders (sh_table s) \<Longrightarrow> mr_pid (reader_at (sh_table s) i) \<noteq> 0 \<Longrightarrow>
    reader_step maxreaders s (move i (Fetched (sh_txnid s)) s)"
| store: "sh_phase s i = Fetched n \<Longrightarrow>
    reader_step maxreaders s (move i Stored (s\<lparr>sh_table := store_txnid i n (sh_table s)\<rparr>))"
| again: "sh_phase s i = Stored \<Longrightarrow> mr_txnid (reader_at (sh_table s) i) \<noteq> sh_txnid s \<Longrightarrow>
    reader_step maxreaders s (move i Resting s)"
| begin_read: "sh_phase s i = Stored \<Longrightarrow> mr_txnid (reader_at (sh_table s) i) = sh_txnid s \<Longrightarrow>
    reader_step maxreaders s (move i Reading s)"
| finish: "sh_phase s i = Reading \<Longrightarrow> end_read notls end_slot (Some i) (sh_table s) = (slot, t) \<Longrightarrow>
    reader_step maxreaders s (move i Resting (s\<lparr>sh_table := t\<rparr>))"
| leave: "sh_phase s i = Resting \<Longrightarrow>
    reader_step maxreaders s (s\<lparr>sh_table := reader_free i (sh_table s)\<rparr>)"
| die: "reader_step maxreaders s (move i Gone s)"
| sweep: "sh_phase s i = Gone \<Longrightarrow>
    reader_step maxreaders s (s\<lparr>sh_table := reader_free i (sh_table s)\<rparr>)"
| begin_write: "sh_writer s = None \<Longrightarrow> sh_txnid s + 1 \<noteq> 0 \<Longrightarrow>
    reader_step maxreaders s (s\<lparr>sh_writer := Some \<lparr>wr_pid = p, wr_txnid = sh_txnid s + 1, wr_scan = None\<rparr>\<rparr>)"
| scan: "sh_writer s = Some w \<Longrightarrow> wr_scan w = None \<Longrightarrow>
    reader_step maxreaders s (s\<lparr>sh_writer := Some (w\<lparr>wr_scan := Some (mti_numreaders (sh_table s), wr_txnid w - 1)\<rparr>)\<rparr>)"
| look: "sh_writer s = Some w \<Longrightarrow> wr_scan w = Some (Suc k, oldest) \<Longrightarrow>
    reader_step maxreaders s (s\<lparr>sh_writer := Some (w\<lparr>wr_scan := Some (k, oldest_step (reader_at (sh_table s) k) oldest)\<rparr>)\<rparr>)"
| found: "sh_writer s = Some w \<Longrightarrow> wr_scan w = Some (0, oldest) \<Longrightarrow>
    reader_step maxreaders s (s\<lparr>sh_writer := Some (w\<lparr>wr_scan := None\<rparr>), sh_oldest := (sh_oldest s)(wr_pid w := oldest)\<rparr>)"
| commit: "sh_writer s = Some w \<Longrightarrow> wr_scan w = None \<Longrightarrow>
    reader_step maxreaders s (s\<lparr>sh_txnid := wr_txnid w, sh_writer := None\<rparr>)"
| abort: "sh_writer s = Some w \<Longrightarrow> wr_scan w = None \<Longrightarrow>
    reader_step maxreaders s (s\<lparr>sh_writer := None\<rparr>)"

text \<open>A process that opens the environment first finds an empty table and has looked for no reader.\<close>

definition fresh_table :: "mdb_reader list \<Rightarrow> txnid \<Rightarrow> shared" where
  "fresh_table rs n = \<lparr>sh_table = \<lparr>mti_numreaders = 0, mti_readers = rs\<rparr>, sh_txnid = n, sh_phase = (\<lambda>_. Resting),
     sh_writer = None, sh_oldest = (\<lambda>_. 0)\<rparr>"

inductive readers_reach :: "nat \<Rightarrow> shared \<Rightarrow> bool" for maxreaders where
  start: "length rs = maxreaders \<Longrightarrow> readers_reach maxreaders (fresh_table rs n)"
| more: "readers_reach maxreaders s \<Longrightarrow> reader_step maxreaders s s' \<Longrightarrow> readers_reach maxreaders s'"

section \<open>The invariant\<close>

definition busy :: "reader_phase \<Rightarrow> bool" where
  "busy ph = (ph = Stored \<or> ph = Reading \<or> (\<exists>n. ph = Fetched n))"

definition reader_ok :: "shared \<Rightarrow> nat \<Rightarrow> bool" where
  "reader_ok s i = (busy (sh_phase s i) \<longrightarrow> i < mti_numreaders (sh_table s) \<and> mr_pid (reader_at (sh_table s) i) \<noteq> 0)"

definition snapshot_ok :: "shared \<Rightarrow> nat \<Rightarrow> bool" where
  "snapshot_ok s i = (sh_phase s i = Reading \<longrightarrow>
     mr_txnid (reader_at (sh_table s) i) \<le> sh_txnid s \<and> (\<forall>p. sh_oldest s p \<le> mr_txnid (reader_at (sh_table s) i)))"

definition writer_ok :: "shared \<Rightarrow> bool" where
  "writer_ok s = (\<forall>w. sh_writer s = Some w \<longrightarrow> wr_txnid w = sh_txnid s + 1 \<and> wr_txnid w \<noteq> 0
     \<and> (\<forall>k oldest. wr_scan w = Some (k, oldest) \<longrightarrow> oldest \<le> sh_txnid s \<and> k \<le> mti_numreaders (sh_table s)
        \<and> (\<forall>i. sh_phase s i = Reading \<longrightarrow> k \<le> i \<longrightarrow> oldest \<le> mr_txnid (reader_at (sh_table s) i))))"

definition table_ok :: "nat \<Rightarrow> shared \<Rightarrow> bool" where
  "table_ok maxreaders s = (mti_numreaders (sh_table s) \<le> length (mti_readers (sh_table s))
     \<and> length (mti_readers (sh_table s)) = maxreaders \<and> (\<forall>p. sh_oldest s p \<le> sh_txnid s))"

definition readers_inv :: "nat \<Rightarrow> shared \<Rightarrow> bool" where
  "readers_inv maxreaders s = (table_ok maxreaders s \<and> (\<forall>i. reader_ok s i) \<and> (\<forall>i. snapshot_ok s i) \<and> writer_ok s)"

lemmas inv_defs = readers_inv_def table_ok_def reader_ok_def snapshot_ok_def writer_ok_def

lemma reader_at_set [simp]:
  "i < length (mti_readers t) \<Longrightarrow> reader_at (set_reader i r t) j = (if j = i then r else reader_at t j)"
  "mti_numreaders (set_reader i r t) = mti_numreaders t"
  "length (mti_readers (set_reader i r t)) = length (mti_readers t)"
  by (simp_all add: reader_at_def set_reader_def)

lemma set_reader_outside: "\<not> i < length (mti_readers t) \<Longrightarrow> set_reader i r t = t"
  by (cases t) (simp add: set_reader_def list_update_beyond)

lemma reader_free_keeps [simp]:
  "mr_txnid (reader_at (reader_free i t) j) = mr_txnid (reader_at t j)"
  "j \<noteq> i \<Longrightarrow> reader_at (reader_free i t) j = reader_at t j"
  "mti_numreaders (reader_free i t) = mti_numreaders t"
  "length (mti_readers (reader_free i t)) = length (mti_readers t)"
  by (cases "i < length (mti_readers t)"; simp add: reader_free_def set_reader_outside)+

lemma store_txnid_keeps [simp]:
  "mr_pid (reader_at (store_txnid i n t) j) = mr_pid (reader_at t j)"
  "j \<noteq> i \<Longrightarrow> reader_at (store_txnid i n t) j = reader_at t j"
  "mti_numreaders (store_txnid i n t) = mti_numreaders t"
  "length (mti_readers (store_txnid i n t)) = length (mti_readers t)"
  by (cases "i < length (mti_readers t)"; simp add: store_txnid_def set_reader_outside)+

lemma slot_loop_result:
  assumes "slot_loop rs i k = Some j" and "i + k \<le> length rs"
  shows "i \<le> j \<and> j \<le> i + k \<and> (j < i + k \<longrightarrow> mr_pid (rs ! j) = 0)"
  using assms by (induction rs i k rule: slot_loop.induct) (auto split: if_splits)

lemma claim_slot_result:
  assumes "claim_slot pid tid maxreaders t = Some (Inr i, t')" and "mti_numreaders t \<le> length (mti_readers t)"
  shows "i < mti_numreaders t' \<and> mti_numreaders t \<le> mti_numreaders t' \<and> mti_numreaders t' \<le> length (mti_readers t')
    \<and> length (mti_readers t') = length (mti_readers t) \<and> mr_pid (reader_at t' i) = pid
    \<and> (\<forall>j. j \<noteq> i \<longrightarrow> reader_at t' j = reader_at t j)
    \<and> (i < mti_numreaders t \<longrightarrow> mr_pid (reader_at t i) = 0)"
proof -
  obtain rs1 where r: "slot_loop (mti_readers t) 0 (mti_numreaders t) = Some i"
    "idl_put (mti_readers t) i \<lparr>mr_txnid = - 1, mr_pid = 0, mr_tid = tid\<rparr> = Some rs1"
    "t' = \<lparr>mti_numreaders = (if i = mti_numreaders t then mti_numreaders t + 1 else mti_numreaders t),
       mti_readers = rs1[i := (rs1 ! i)\<lparr>mr_pid := pid\<rparr>]\<rparr>"
    using assms(1) by (auto simp: claim_slot_def Let_def bind_eq_Some_conv split: if_splits)
  note s = slot_loop_result [OF r(1)]
  show ?thesis using r s assms(2) by (auto simp: idl_put_eq reader_at_def)
qed

lemma fresh_inv: "length rs = maxreaders \<Longrightarrow> readers_inv maxreaders (fresh_table rs n)"
  by (simp add: inv_defs fresh_table_def busy_def)

lemma busy_simps [simp]: "\<not> busy Resting" "busy (Fetched n)" "busy Stored" "busy Reading" "\<not> busy Gone"
  by (simp_all add: busy_def)

lemma move_simps [simp]:
  "sh_table (move i ph s) = sh_table s" "sh_txnid (move i ph s) = sh_txnid s" "sh_writer (move i ph s) = sh_writer s"
  "sh_oldest (move i ph s) = sh_oldest s" "sh_phase (move i ph s) j = (if j = i then ph else sh_phase s j)"
  by (simp_all add: move_def)

text \<open>A slot that rests or is gone can change as it likes.\<close>

lemma inv_table:
  assumes "readers_inv maxreaders s" and "\<And>j. busy (sh_phase s j) \<Longrightarrow> reader_at t j = reader_at (sh_table s) j"
    and "mti_numreaders (sh_table s) \<le> mti_numreaders t" and "mti_numreaders t \<le> length (mti_readers t)"
    and "length (mti_readers t) = length (mti_readers (sh_table s))"
  shows "readers_inv maxreaders (s\<lparr>sh_table := t\<rparr>)"
proof -
  have "reader_ok (s\<lparr>sh_table := t\<rparr>) i" for i
    using assms(1-3) by (fastforce simp: readers_inv_def reader_ok_def)
  moreover have at: "sh_phase s i = Reading \<Longrightarrow> reader_at t i = reader_at (sh_table s) i" for i using assms(2) [of i] by simp
  then have "snapshot_ok (s\<lparr>sh_table := t\<rparr>) i" for i
    using assms(1) by (simp add: readers_inv_def snapshot_ok_def)
  moreover have "writer_ok (s\<lparr>sh_table := t\<rparr>)"
    unfolding writer_ok_def using assms(1,3) at by (fastforce simp: readers_inv_def writer_ok_def)
  ultimately show ?thesis using assms by (simp add: readers_inv_def table_ok_def)
qed

lemma inv_move:
  assumes "readers_inv maxreaders s" and "busy ph \<longrightarrow> i < mti_numreaders (sh_table s) \<and> mr_pid (reader_at (sh_table s) i) \<noteq> 0"
    and "ph = Reading \<longrightarrow> mr_txnid (reader_at (sh_table s) i) = sh_txnid s"
  shows "readers_inv maxreaders (move i ph s)"
proof -
  have "reader_ok (move i ph s) j" for j
    using assms(1,2) by (simp add: readers_inv_def reader_ok_def)
  moreover have "snapshot_ok (move i ph s) j" for j
    using assms(1,3) by (simp add: readers_inv_def snapshot_ok_def table_ok_def)
  moreover have "writer_ok (move i ph s)"
    using assms(1,3) by (auto simp: readers_inv_def writer_ok_def)
  ultimately show ?thesis using assms(1) by (simp add: readers_inv_def table_ok_def)
qed

lemma move_table: "move i ph (s\<lparr>sh_table := t\<rparr>) = (move i ph s)\<lparr>sh_table := t\<rparr>" "move i ph (move i ph' s) = move i ph s"
  by (simp_all add: move_def)

text \<open>The owner of a slot changes it.\<close>

lemma inv_owner:
  assumes "readers_inv maxreaders s" and "\<And>j. j \<noteq> i \<Longrightarrow> reader_at t j = reader_at (sh_table s) j"
    and "mti_numreaders (sh_table s) \<le> mti_numreaders t" and "mti_numreaders t \<le> length (mti_readers t)"
    and "length (mti_readers t) = length (mti_readers (sh_table s))"
  shows "readers_inv maxreaders (move i Resting (s\<lparr>sh_table := t\<rparr>))"
proof -
  have "readers_inv maxreaders (move i Resting s)" using assms(1) by (intro inv_move) simp_all
  then show ?thesis
    unfolding move_table using assms(2-) by (intro inv_table) (auto split: if_splits)
qed

lemma table_length: "readers_inv maxreaders s \<Longrightarrow> mti_numreaders (sh_table s) \<le> length (mti_readers (sh_table s))"
  by (simp add: readers_inv_def table_ok_def)

lemma inv_free:
  assumes "readers_inv maxreaders s" and "\<not> busy (sh_phase s i)"
  shows "readers_inv maxreaders (s\<lparr>sh_table := reader_free i (sh_table s)\<rparr>)"
proof (rule inv_table [OF assms(1)])
  fix j assume "busy (sh_phase s j)"
  then have "j \<noteq> i" using assms(2) by auto
  then show "reader_at (reader_free i (sh_table s)) j = reader_at (sh_table s) j" by simp
qed (use table_length [OF assms(1)] in simp_all)

lemma step_inv: "reader_step maxreaders s s' \<Longrightarrow> readers_inv maxreaders s \<Longrightarrow> readers_inv maxreaders s'"
proof (induction rule: reader_step.induct)
  case (claim pid tid s i t)
  then show ?case using claim_slot_result [OF claim(1)] table_length by (intro inv_owner) auto
next
  case (fetch s i)
  then show ?case by (intro inv_move) simp_all
next
  case (store s i n)
  let ?s = "s\<lparr>sh_table := store_txnid i n (sh_table s)\<rparr>"
  have "readers_inv maxreaders (move i Resting ?s)" using store(2) table_length by (intro inv_owner) auto
  moreover have "i < mti_numreaders (sh_table s) \<and> mr_pid (reader_at (sh_table s) i) \<noteq> 0"
    using store by (simp add: readers_inv_def reader_ok_def)
  ultimately have "readers_inv maxreaders (move i Stored (move i Resting ?s))" by (subst inv_move) simp_all
  then show ?case by (simp only: move_table)
next
  case (again s i)
  then show ?case by (intro inv_move) simp_all
next
  case (begin_read s i)
  then show ?case by (intro inv_move) (auto simp: readers_inv_def reader_ok_def)
next
  case (finish s i notls end_slot slot t)
  then show ?case using table_length
    by (intro inv_owner) (auto simp: end_read_def Let_def split: if_splits)
next
  case (leave s i)
  then show ?case by (intro inv_free) simp_all
next
  case (die s i)
  then show ?case by (intro inv_move) simp_all
next
  case (sweep s i)
  then show ?case by (intro inv_free) simp_all
next
  case (begin_write s p)
  then show ?case by (simp add: inv_defs)
next
  case (scan s w)
  have "wr_txnid w - 1 = sh_txnid s" using scan(1,3) by (simp add: readers_inv_def writer_ok_def)
  moreover have "i < mti_numreaders (sh_table s)" if "sh_phase s i = Reading" for i
    using scan(3) that by (simp add: readers_inv_def reader_ok_def)
  then have "\<not> mti_numreaders (sh_table s) \<le> i" if "sh_phase s i = Reading" for i using that by (simp add: not_le)
  ultimately show ?case using scan by (auto simp: inv_defs)
next
  case (look s w k oldest)
  let ?r = "reader_at (sh_table s) k"
  have w: "oldest \<le> sh_txnid s" "Suc k \<le> mti_numreaders (sh_table s)"
    "\<And>i. sh_phase s i = Reading \<Longrightarrow> Suc k \<le> i \<Longrightarrow> oldest \<le> mr_txnid (reader_at (sh_table s) i)"
    using look by (auto simp: readers_inv_def writer_ok_def)
  have "oldest_step ?r oldest \<le> mr_txnid (reader_at (sh_table s) i)" if "sh_phase s i = Reading" "k \<le> i" for i
  proof (cases "i = k")
    case True
    then have "mr_pid ?r \<noteq> 0" using look(3) that by (auto simp: readers_inv_def reader_ok_def)
    then show ?thesis using oldest_step_reader True by simp
  next
    case False
    with that have "oldest \<le> mr_txnid (reader_at (sh_table s) i)" by (intro w(3)) simp_all
    then show ?thesis by (rule order_trans [OF oldest_step_le])
  qed
  moreover have "oldest_step ?r oldest \<le> sh_txnid s" by (rule order_trans [OF oldest_step_le w(1)])
  ultimately show ?case using look w(2) by (auto simp: inv_defs)
next
  case (found s w oldest)
  then show ?case by (auto simp: inv_defs)
next
  case (commit s w)
  have n: "wr_txnid w = sh_txnid s + 1" "wr_txnid w \<noteq> 0" using commit by (auto simp: readers_inv_def writer_ok_def)
  have "sh_txnid s \<le> wr_txnid w"
    using n unatSuc [of "sh_txnid s"] by (simp add: word_le_nat_alt add.commute)
  then show ?case using commit(3) by (fastforce simp: inv_defs intro: order_trans)
next
  case (abort s w)
  then show ?case by (simp add: inv_defs)
qed

lemma reach_inv: "readers_reach maxreaders s \<Longrightarrow> readers_inv maxreaders s"
  by (induction rule: readers_reach.induct) (simp_all add: fresh_inv step_inv)

end
