(* ===== verification/Lmdb_Reader_Props.thy ===== *)
theory Lmdb_Reader_Props
  imports Lmdb_Readers
begin

text \<open>
  Clearing the table of readers: the list of process ids stays ascending, every process is asked
  for once, and exactly the slots of dead processes are cleared.
\<close>

section \<open>The list of process ids\<close>

definition pids_are :: "int list \<Rightarrow> int list \<Rightarrow> bool" where
  "pids_are ids xs = (\<exists>rest. ids = int (length xs) # xs @ rest \<and> sorted_wrt (<) xs)"

lemma pid_loop_result:
  assumes "\<And>i j. i < j \<Longrightarrow> j < N \<Longrightarrow> ids ! Suc i < ids ! Suc j" and "N < length ids" and "base + n \<le> N"
    and "\<forall>i<base. ids ! Suc i < pid" and "\<forall>i. base + n \<le> i \<and> i < N \<longrightarrow> pid < ids ! Suc i"
    and "n = 0 \<Longrightarrow> (0 < val \<and> cursor = base) \<or> (val \<le> 0 \<and> cursor = base + 1)"
  shows "(pid_loop ids pid base cursor val n = Some None \<and> (\<exists>i<N. ids ! Suc i = pid))
    \<or> (\<exists>p\<le>N. pid_loop ids pid base cursor val n = Some (Some (Suc p))
        \<and> (\<forall>i<p. ids ! Suc i < pid) \<and> (\<forall>i. p \<le> i \<and> i < N \<longrightarrow> pid < ids ! Suc i))"
  using assms(3-)
proof (induction n arbitrary: base cursor val rule: less_induct)
  case (less n)
  show ?case
  proof (cases "n = 0")
    case True
    have "pid_loop ids pid base cursor val n = Some (Some (Suc base))"
      using less.prems(4) True by (subst pid_loop.simps) auto
    then show ?thesis using less.prems(1-3) True by auto
  next
    case False
    let ?p = "n div 2"
    let ?c = "base + ?p"
    let ?x = "ids ! Suc ?c"
    have c: "?c < N" using False less.prems(1) by linarith
    then have at: "idl_at ids (Suc ?c) = Some ?x" using assms(2) by simp
    have up: "?x < ids ! Suc i" if "?c < i" "i < N" for i using assms(1) that by simp
    have low: "ids ! Suc i < ?x" if "i < ?c" for i using assms(1) that c by simp
    have unfold: "pid_loop ids pid base cursor val n =
      (if pid - ?x < 0 then pid_loop ids pid base (Suc ?c) (pid - ?x) ?p
       else if 0 < pid - ?x then pid_loop ids pid (Suc ?c) (Suc ?c) (pid - ?x) (n - (?p + 1)) else Some None)"
      using False at by (subst pid_loop.simps) (simp add: Let_def)
    consider "pid < ?x" | "?x < pid" | "pid = ?x" by linarith
    then show ?thesis
    proof cases
      case 1
      have "pid < ids ! Suc i" if "?c \<le> i" "i < N" for i using up [of i] 1 that by (cases "i = ?c") auto
      moreover have "pid_loop ids pid base cursor val n = pid_loop ids pid base (Suc ?c) (pid - ?x) ?p" using unfold 1 by simp
      moreover have "?p = 0 \<Longrightarrow> (0 < pid - ?x \<and> Suc ?c = base) \<or> (pid - ?x \<le> 0 \<and> Suc ?c = base + 1)" using 1 by simp
      ultimately show ?thesis
        using less.prems(1,2) False by (simp only:) (intro less.IH, auto)
    next
      case 2
      have "ids ! Suc i < pid" if "i < Suc ?c" for i using low [of i] 2 that by (cases "i = ?c") auto
      moreover have "Suc ?c + (n - (?p + 1)) = base + n" using False by linarith
      moreover have "pid_loop ids pid base cursor val n = pid_loop ids pid (Suc ?c) (Suc ?c) (pid - ?x) (n - (?p + 1))"
        using unfold 2 by simp
      ultimately show ?thesis
        using less.prems(1,3) 2 False by (simp only:) (intro less.IH, auto)
    next
      case 3
      then show ?thesis using unfold c by auto
    qed
  qed
qed

lemma pid_insert_result:
  assumes "pids_are ids xs" and "length xs + 1 < length ids"
  shows "if pid \<in> set xs then mdb_pid_insert ids pid = Some (- 1, ids)
    else \<exists>ids' xs'. mdb_pid_insert ids pid = Some (0, ids') \<and> pids_are ids' xs' \<and> length ids' = length ids
      \<and> set xs' = insert pid (set xs) \<and> length xs' = length xs + 1"
proof -
  obtain rest where i: "ids = int (length xs) # xs @ rest" "sorted_wrt (<) xs"
    using assms(1) unfolding pids_are_def by blast
  have "rest \<noteq> []" using assms(2) unfolding i(1) by auto
  note ids = i this
  let ?N = "length xs"
  have nth: "ids ! Suc i = xs ! i" if "i < ?N" for i using that by (simp add: ids nth_append)
  have asc: "ids ! Suc i < ids ! Suc j" if "i < j" "j < ?N" for i j
    using that sorted_wrt_nth_less [OF ids(2), of i j] by (simp add: nth)
  have loop: "(pid_loop ids pid 0 1 0 ?N = Some None \<and> (\<exists>i<?N. ids ! Suc i = pid))
    \<or> (\<exists>p\<le>?N. pid_loop ids pid 0 1 0 ?N = Some (Some (Suc p))
        \<and> (\<forall>i<p. ids ! Suc i < pid) \<and> (\<forall>i. p \<le> i \<and> i < ?N \<longrightarrow> pid < ids ! Suc i))"
  proof (rule pid_loop_result)
    show "ids ! Suc i < ids ! Suc j" if "i < j" "j < ?N" for i j using that by (rule asc)
    show "?N < length ids" using assms(2) by simp
  qed simp_all
  show ?thesis
  proof (cases "pid_loop ids pid 0 1 0 ?N = Some None")
    case True
    then obtain i where "i < ?N" "xs ! i = pid" using loop nth by fastforce
    then have "pid \<in> set xs" by auto
    then show ?thesis using True by (simp add: mdb_pid_insert_def ids(1))
  next
    case False
    then obtain p where p: "p \<le> ?N" "pid_loop ids pid 0 1 0 ?N = Some (Some (Suc p))"
      "\<And>i. i < p \<Longrightarrow> ids ! Suc i < pid" "\<And>i. p \<le> i \<Longrightarrow> i < ?N \<Longrightarrow> pid < ids ! Suc i"
      using loop by auto
    have low: "xs ! i < pid" if "i < p" for i using p(3) [OF that] nth [of i] that p(1) by simp
    have up: "pid < xs ! i" if "p \<le> i" "i < ?N" for i using p(4) [OF that] nth [of i] that by simp
    have new: "pid \<notin> set xs"
    proof
      assume "pid \<in> set xs"
      then obtain i where "i < ?N" "xs ! i = pid" by (auto simp: in_set_conv_nth)
      then show False using low [of i] up [of i] by (cases "i < p") auto
    qed
    let ?ids = "int (?N + 1) # xs @ rest" and ?xs = "take p xs @ pid # drop p xs"
    let ?l = "take (Suc (Suc p)) ?ids @ drop (Suc p) (take (Suc ?N) ?ids) @ drop (Suc (Suc ?N)) ?ids"
    have shifted: "shift_loop ?ids (Suc p) (Suc ?N) = Some ?l"
      using p(1) ids(3) by (intro shift_loop_result) auto
    have "?l[Suc p := pid] = int (?N + 1) # ?xs @ tl rest"
      using p(1) ids(3) by (cases rest) (simp_all add: list_update_append take_Suc_conv_app_nth min_def upd_conv_take_nth_drop)
    moreover have "length (take (Suc (Suc p)) ?ids) = Suc (Suc p)" using p(1) ids(3) by (cases rest) simp_all
    then have "Suc p < length ?l" unfolding length_append by linarith
    ultimately have put: "idl_put ?l (Suc p) pid = Some (int (?N + 1) # ?xs @ tl rest)" by (simp only: idl_put_eq)
    have "idl_at ids 0 = Some (int ?N)" "idl_put ids 0 (int ?N + 1) = Some ?ids" by (simp_all add: ids(1))
    then have "mdb_pid_insert ids pid = do { ids2 \<leftarrow> shift_loop ?ids (Suc p) (Suc ?N); ids3 \<leftarrow> idl_put ids2 (Suc p) pid; Some (0, ids3) }"
      using p(1,2) unfolding mdb_pid_insert_def by (simp add: nat_add_distrib)
    also have "\<dots> = Some (0, int (?N + 1) # ?xs @ tl rest)" unfolding shifted by (simp only: bind.bind_lunit put)
    also have "int (?N + 1) = int (length ?xs)" using p(1) by simp
    finally have "mdb_pid_insert ids pid = Some (0, int (length ?xs) # ?xs @ tl rest)" .
    moreover have "sorted_wrt (<) ?xs"
    proof -
      have "x < pid" if "x \<in> set (take p xs)" for x using that low p(1) by (auto simp: in_set_conv_nth)
      moreover have "pid < y" if "y \<in> set (drop p xs)" for y using that up p(1) by (auto simp: in_set_conv_nth)
      ultimately show ?thesis
        using ids(2) by (auto simp: sorted_wrt_append sorted_wrt_take sorted_wrt_drop intro: less_trans)
    qed
    moreover have "set ?xs = insert pid (set xs)"
      using set_append [of "take p xs" "drop p xs"] by auto
    moreover have "length ?xs = length xs + 1" "length (int (length ?xs) # ?xs @ tl rest) = length ids"
      using p(1) ids(1,3) by simp_all
    ultimately have "\<exists>ids' xs'. mdb_pid_insert ids pid = Some (0, ids') \<and> pids_are ids' xs' \<and> length ids' = length ids
      \<and> set xs' = insert pid (set xs) \<and> length xs' = length xs + 1"
      unfolding pids_are_def by blast
    then show ?thesis using new by simp
  qed
qed

section \<open>Clearing slots\<close>

definition clear_slot :: "(int \<Rightarrow> bool) \<Rightarrow> mdb_reader \<Rightarrow> mdb_reader" where
  "clear_slot dead r = (if dead (mr_pid r) then r\<lparr>mr_pid := 0\<rparr> else r)"

definition clear_slots :: "(int \<Rightarrow> bool) \<Rightarrow> nat \<Rightarrow> mdb_reader list \<Rightarrow> mdb_reader list" where
  "clear_slots dead n rs = List.map (clear_slot dead) (take n rs) @ drop n rs"

definition dead_slots :: "(int \<Rightarrow> bool) \<Rightarrow> nat \<Rightarrow> mdb_reader list \<Rightarrow> nat" where
  "dead_slots dead n rs = length (filter (\<lambda>r. dead (mr_pid r)) (take n rs))"

lemma clear_slots_simps [simp]: "length (clear_slots dead n rs) = length rs"
  "i < n \<Longrightarrow> i < length rs \<Longrightarrow> clear_slots dead n rs ! i = clear_slot dead (rs ! i)"
  "drop n (clear_slots dead n rs) = drop n rs"
  by (simp_all add: clear_slots_def nth_append min_def not_less)

lemma clear_loop_result:
  "j + k \<le> length rs \<Longrightarrow> clear_loop pid j k rs n
     = Some (take j rs @ List.map (clear_slot ((=) pid)) (take k (drop j rs)) @ drop (j + k) rs,
         n + length (filter (\<lambda>r. pid = mr_pid r) (take k (drop j rs))))"
proof (induction pid j k rs n rule: clear_loop.induct)
  case (2 pid j k rs n)
  then have at: "idl_at rs j = Some (rs ! j)" "take (Suc k) (drop j rs) = rs ! j # take k (drop (Suc j) rs)"
    by (simp_all add: Cons_nth_drop_Suc [symmetric])
  show ?case
    using 2 at by (auto simp: clear_slot_def take_Suc_conv_app_nth)
qed simp

lemma filter_either:
  "(\<And>x. x \<in> set xs \<Longrightarrow> \<not> (P x \<and> Q x)) \<Longrightarrow> length (filter (\<lambda>x. P x \<or> Q x) xs) = length (filter P xs) + length (filter Q xs)"
  by (induction xs) auto

lemma clear_more:
  assumes "i \<le> n" and "n \<le> length rs" and "\<forall>j<i. mr_pid (rs ! j) \<noteq> pid" and "\<not> dead pid" and "pid \<noteq> 0"
  shows "clear_loop pid i (n - i) (clear_slots dead n rs) (dead_slots dead n rs)
    = Some (clear_slots (\<lambda>p. dead p \<or> p = pid) n rs, dead_slots (\<lambda>p. dead p \<or> p = pid) n rs)"
proof -
  let ?a = "take i rs" and ?b = "take (n - i) (drop i rs)" and ?c = "drop n rs"
  let ?old = "clear_slot dead" and ?new = "clear_slot (\<lambda>p. dead p \<or> p = pid)"
  have n: "take n rs = ?a @ ?b" using assms(1) by (metis le_add_diff_inverse take_add)
  have old: "clear_slots dead n rs = (List.map ?old ?a @ List.map ?old ?b) @ ?c" by (simp add: clear_slots_def n)
  have len: "length (List.map ?old ?a) = i" "length (List.map ?old ?b) = n - i" using assms(1,2) by simp_all
  have earlier: "mr_pid r \<noteq> pid" if "r \<in> set ?a" for r using that assms(3) by (auto simp: in_set_conv_nth)
  have same: "List.map ?old ?a = List.map ?new ?a"
    using earlier by (auto simp: clear_slot_def)
  have step: "List.map (clear_slot ((=) pid)) (List.map ?old ?b) = List.map ?new ?b"
    using assms(4,5) by (auto simp: clear_slot_def)
  have hit: "(pid = mr_pid (?old r)) = (mr_pid r = pid)" for r using assms(4,5) by (auto simp: clear_slot_def)
  have "dead_slots (\<lambda>p. dead p \<or> p = pid) n rs
      = dead_slots dead n rs + length (filter (\<lambda>r. mr_pid r = pid) (?a @ ?b))"
    unfolding dead_slots_def n using assms(4) by (intro filter_either) auto
  moreover have "filter (\<lambda>r. mr_pid r = pid) ?a = []" using earlier by (auto simp: filter_empty_conv)
  ultimately have count: "dead_slots (\<lambda>p. dead p \<or> p = pid) n rs
      = dead_slots dead n rs + length (filter (\<lambda>r. pid = mr_pid r) (List.map ?old ?b))"
    by (simp add: filter_map o_def hit)
  have "clear_loop pid i (n - i) (clear_slots dead n rs) (dead_slots dead n rs)
    = Some (List.map ?old ?a @ List.map (clear_slot ((=) pid)) (List.map ?old ?b) @ ?c,
        dead_slots dead n rs + length (filter (\<lambda>r. pid = mr_pid r) (List.map ?old ?b)))"
    using len assms(1,2) by (subst clear_loop_result) (simp_all add: old)
  then show ?thesis unfolding step same count [symmetric] by (simp add: clear_slots_def n)
qed

lemma clear_cong:
  assumes "\<And>r. r \<in> set (take n rs) \<Longrightarrow> dead (mr_pid r) = dead' (mr_pid r)"
  shows "clear_slots dead n rs = clear_slots dead' n rs" "dead_slots dead n rs = dead_slots dead' n rs"
  using assms by (auto simp: clear_slots_def dead_slots_def clear_slot_def intro!: arg_cong [where f = length] filter_cong)

section \<open>The whole table\<close>

text \<open>A process to be cleared: neither none nor this one, and dead at every check.\<close>

definition dead_process :: "int \<Rightarrow> (int \<Rightarrow> bool) \<Rightarrow> (int \<Rightarrow> bool) \<Rightarrow> int option \<Rightarrow> int \<Rightarrow> bool" where
  "dead_process me alive1 alive2 rmutex p = (p \<noteq> 0 \<and> p \<noteq> me \<and> \<not> alive1 p \<and> (rmutex = None \<or> \<not> alive2 p))"

lemma check_loop_result:
  fixes alive1 alive2 :: "int \<Rightarrow> bool"
  assumes "n \<le> length rs" and "i + k = n" and "pids_are pids xs" and "length pids = n + 1" and "length xs \<le> i"
    and "set xs = (\<lambda>j. mr_pid (rs ! j)) ` {..<i} - {0, me}"
    and "rmutex = None \<or> rmutex = Some 0"
  defines "dead \<equiv> dead_process me alive1 alive2 rmutex"
  defines "known \<equiv> \<lambda>xs p. p \<in> set xs \<and> dead p"
  shows "check_loop me alive1 alive2 rmutex n i k pids (clear_slots (known xs) n rs) (dead_slots (known xs) n rs)
    = Some (MDB_SUCCESS, clear_slots dead n rs, dead_slots dead n rs)"
  using assms(2-6)
proof (induction k arbitrary: i pids xs)
  case 0
  have "known xs (mr_pid r) = dead (mr_pid r)" if "r \<in> set (take n rs)" for r
  proof -
    have "mr_pid r \<in> (\<lambda>j. mr_pid (rs ! j)) ` {..<n}" using that by (auto simp: in_set_conv_nth)
    then show ?thesis using 0 by (auto simp: known_def dead_def dead_process_def)
  qed
  then show ?case using clear_cong by (metis (mono_tags, lifting) check_loop.simps(1))
next
  case (Suc k)
  let ?p = "mr_pid (rs ! i)"
  have i: "i < n" "i < length rs" using Suc.prems(1) assms(1) by simp_all
  have at: "idl_at (clear_slots (known xs) n rs) i = Some (clear_slot (known xs) (rs ! i))" using i by simp
  have next_pids: "(\<lambda>j. mr_pid (rs ! j)) ` {..<Suc i} = insert ?p ((\<lambda>j. mr_pid (rs ! j)) ` {..<i})"
    by (simp add: lessThan_Suc)
  have skip: "check_loop me alive1 alive2 rmutex n (Suc i) k pids (clear_slots (known xs) n rs) (dead_slots (known xs) n rs)
    = Some (MDB_SUCCESS, clear_slots dead n rs, dead_slots dead n rs)" if "?p = 0 \<or> ?p = me \<or> ?p \<in> set xs"
    using that Suc.prems by (intro Suc.IH) (auto simp: next_pids)
  show ?case
  proof (cases "?p = 0 \<or> ?p = me \<or> known xs ?p")
    case True
    then have "mr_pid (clear_slot (known xs) (rs ! i)) = 0 \<or> mr_pid (clear_slot (known xs) (rs ! i)) = me"
      by (auto simp: clear_slot_def)
    then show ?thesis using skip True at by (auto simp: known_def)
  next
    case False
    then have r: "clear_slot (known xs) (rs ! i) = rs ! i" by (simp add: clear_slot_def)
    have room: "length xs + 1 < length pids" using Suc.prems(3,4) i by simp
    show ?thesis
    proof (cases "?p \<in> set xs")
      case True
      then have "mdb_pid_insert pids ?p = Some (- 1, pids)" using pid_insert_result [OF Suc.prems(2) room, of ?p] by simp
      then show ?thesis using skip True False at r by simp
    next
      case new: False
      then obtain pids' xs' where ins: "mdb_pid_insert pids ?p = Some (0, pids')" "pids_are pids' xs'" "length pids' = length pids"
        "set xs' = insert ?p (set xs)" "length xs' = length xs + 1"
        using pid_insert_result [OF Suc.prems(2) room, of ?p] by auto
      have IH: "check_loop me alive1 alive2 rmutex n (Suc i) k pids' (clear_slots (known xs') n rs) (dead_slots (known xs') n rs)
        = Some (MDB_SUCCESS, clear_slots dead n rs, dead_slots dead n rs)"
        using Suc.prems ins False by (intro Suc.IH) (auto simp: next_pids)
      have none: "clear_loop ?p n 0 rs' c = Some (rs', c)" for rs' c by simp
      show ?thesis
      proof (cases "dead ?p")
        case True
        then have "known xs' = (\<lambda>p. known xs p \<or> p = ?p)" using ins(4) by (auto simp: known_def)
        moreover have "\<forall>j<i. mr_pid (rs ! j) \<noteq> ?p"
          using new Suc.prems(5) False by (metis DiffI empty_iff image_eqI insert_iff lessThan_iff)
        ultimately have "clear_loop ?p i (n - i) (clear_slots (known xs) n rs) (dead_slots (known xs) n rs)
          = Some (clear_slots (known xs') n rs, dead_slots (known xs') n rs)"
          using clear_more [of i n rs ?p "known xs"] i assms(1) False by auto
        moreover have "\<not> alive1 ?p" "rmutex = None \<or> \<not> alive2 ?p" using True by (auto simp: dead_def dead_process_def)
        ultimately show ?thesis using IH ins(1) False at r assms(7) by auto
      next
        case alive: False
        then have "known xs' = known xs" using ins(4) by (auto simp: known_def)
        moreover have "alive1 ?p \<or> (rmutex \<noteq> None \<and> alive2 ?p)" using alive False by (auto simp: dead_def dead_process_def)
        ultimately show ?thesis using IH ins(1) False at r assms(7) none by (auto simp: Let_def)
      qed
    qed
  qed
qed

end
