(* ===== verification/Lmdb_Reader_Properties.thy ===== *)
theory Lmdb_Reader_Properties
  imports Lmdb_Reader_Steps Lmdb_Reader_Props Lmdb_Meta_Properties
begin

text \<open>
  What the reader table promises: snapshots in use stay in use, the dead lose their slots, and a
  transaction begun after a commit reads it.
\<close>

text \<open>
  C10. However readers and writers interleave, access by access, a reader that has begun keeps its
  snapshot: it is not newer than the last commit, no process's \<open>me_pgoldest\<close> is beyond it, and
  \<open>mdb_find_oldest\<close>, run now, finds one no newer. Retrying when a commit came between fetching and
  storing the number is what makes it so.
\<close>

theorem readers_keep_snapshots:
  assumes "readers_reach maxreaders s" and "sh_phase s i = Reading"
  shows "mr_txnid (reader_at (sh_table s) i) \<le> sh_txnid s \<and> sh_oldest s p \<le> mr_txnid (reader_at (sh_table s) i)
    \<and> (\<forall>n oldest. mdb_find_oldest n (Some (sh_table s)) = Some oldest \<longrightarrow> oldest \<le> mr_txnid (reader_at (sh_table s) i))"
proof -
  have inv: "readers_inv maxreaders s" by (rule reach_inv [OF assms(1)])
  then have "i < mti_numreaders (sh_table s)" "mr_pid (reader_at (sh_table s) i) \<noteq> 0"
    using assms(2) by (simp_all add: readers_inv_def reader_ok_def)
  then have "oldest \<le> mr_txnid (reader_at (sh_table s) i)" if "mdb_find_oldest n (Some (sh_table s)) = Some oldest" for n oldest
    using oldest_loop_bounds that by (fastforce simp: mdb_find_oldest_def reader_at_def)
  then show ?thesis using inv assms(2) by (auto simp: readers_inv_def snapshot_ok_def)
qed

text \<open>A reader that fetches 7, is overtaken by a commit, tries again, and reads snapshot 8.\<close>

definition overtaken :: shared where
  "overtaken = \<lparr>sh_table = \<lparr>mti_numreaders = 1, mti_readers = [\<lparr>mr_txnid = 8, mr_pid = 5, mr_tid = 1\<rparr>]\<rparr>, sh_txnid = 8,
     sh_phase = (\<lambda>_. Resting)(0 := Reading), sh_writer = Some \<lparr>wr_pid = 9, wr_txnid = 9, wr_scan = None\<rparr>,
     sh_oldest = (\<lambda>_. 0)(9 := 8)\<rparr>"

lemma overtaken_reach: "readers_reach 1 overtaken"
proof -
  let ?r = "\<lambda>n. \<lparr>mti_numreaders = 1, mti_readers = [\<lparr>mr_txnid = n, mr_pid = 5, mr_tid = 1\<rparr>]\<rparr>"
  let ?s = "\<lambda>n now ph w old. \<lparr>sh_table = ?r n, sh_txnid = now, sh_phase = (\<lambda>_. Resting)(0 := ph), sh_writer = w, sh_oldest = old\<rparr>"
  let ?none = "\<lambda>_. 0 :: txnid"
  have "readers_reach 1 (fresh_table [\<lparr>mr_txnid = 0, mr_pid = 0, mr_tid = 0\<rparr>] 7)" by (rule readers_reach.start) simp
  from readers_reach.more [OF this reader_step.claim [where pid = 5 and tid = 1 and i = 0 and t = "?r (- 1)"]]
  have "readers_reach 1 (?s (- 1) 7 Resting None ?none)" by (simp add: fresh_table_def move_def claim_slot_def Let_def)
  from readers_reach.more [OF this reader_step.fetch [where i = 0]]
  have "readers_reach 1 (?s (- 1) 7 (Fetched 7) None ?none)" by (simp add: move_def reader_at_def)
  from readers_reach.more [OF this reader_step.begin_write [where p = 9]]
  have "readers_reach 1 (?s (- 1) 7 (Fetched 7) (Some \<lparr>wr_pid = 9, wr_txnid = 8, wr_scan = None\<rparr>) ?none)" by simp
  from readers_reach.more [OF this reader_step.commit]
  have "readers_reach 1 (?s (- 1) 8 (Fetched 7) None ?none)" by simp
  from readers_reach.more [OF this reader_step.store [where i = 0]]
  have "readers_reach 1 (?s 7 8 Stored None ?none)" by (simp add: move_def store_txnid_def set_reader_def reader_at_def)
  from readers_reach.more [OF this reader_step.again [where i = 0]]
  have "readers_reach 1 (?s 7 8 Resting None ?none)" by (simp add: move_def reader_at_def)
  from readers_reach.more [OF this reader_step.fetch [where i = 0]]
  have "readers_reach 1 (?s 7 8 (Fetched 8) None ?none)" by (simp add: move_def reader_at_def)
  from readers_reach.more [OF this reader_step.store [where i = 0]]
  have "readers_reach 1 (?s 8 8 Stored None ?none)" by (simp add: move_def store_txnid_def set_reader_def reader_at_def)
  from readers_reach.more [OF this reader_step.begin_read [where i = 0]]
  have "readers_reach 1 (?s 8 8 Reading None ?none)" by (simp add: move_def reader_at_def)
  from readers_reach.more [OF this reader_step.begin_write [where p = 9]]
  have "readers_reach 1 (?s 8 8 Reading (Some \<lparr>wr_pid = 9, wr_txnid = 9, wr_scan = None\<rparr>) ?none)" by simp
  from readers_reach.more [OF this reader_step.scan]
  have "readers_reach 1 (?s 8 8 Reading (Some \<lparr>wr_pid = 9, wr_txnid = 9, wr_scan = Some (1, 8)\<rparr>) ?none)" by simp
  from readers_reach.more [OF this reader_step.look [where k = 0 and oldest = 8]]
  have "readers_reach 1 (?s 8 8 Reading (Some \<lparr>wr_pid = 9, wr_txnid = 9, wr_scan = Some (0, 8)\<rparr>) ?none)"
    by (simp add: oldest_step_def reader_at_def)
  from readers_reach.more [OF this reader_step.found [where oldest = 8]] show ?thesis by (simp add: overtaken_def)
qed

theorem readers_keep_snapshots_witness:
  "sh_oldest overtaken 9 \<le> mr_txnid (reader_at (sh_table overtaken) 0) \<and> mr_txnid (reader_at (sh_table overtaken) 0) = 8"
proof -
  have "sh_phase overtaken 0 = Reading" by (simp add: overtaken_def)
  from readers_keep_snapshots [OF overtaken_reach this, of 9] show ?thesis by (simp add: overtaken_def reader_at_def)
qed

text \<open>
  C23. \<open>mdb_reader_check0\<close> frees exactly the slots of processes that are dead at every check, and
  counts them: each process is asked for once, its own slots and those of the living stay.
\<close>

theorem reader_check_clears:
  assumes "mti_numreaders t \<le> length (mti_readers t)" and "malloc (mti_numreaders t + 1) = Some pids"
    and "length pids = mti_numreaders t + 1" and "rmutex = None \<or> rmutex = Some 0"
  shows "mdb_reader_check0 malloc me alive1 alive2 rmutex t
    = Some (MDB_SUCCESS, t\<lparr>mti_readers := clear_slots (dead_process me alive1 alive2 rmutex) (mti_numreaders t) (mti_readers t)\<rparr>,
        dead_slots (dead_process me alive1 alive2 rmutex) (mti_numreaders t) (mti_readers t))"
proof -
  obtain x rest where pids: "pids = x # rest" using assms(3) by (cases pids) auto
  have "pids_are (0 # rest) []" by (simp add: pids_are_def)
  from check_loop_result [OF assms(1) _ this, of 0 "mti_numreaders t" me rmutex alive1 alive2] assms(3,4)
  have "check_loop me alive1 alive2 rmutex (mti_numreaders t) 0 (mti_numreaders t) (0 # rest)
      (clear_slots (\<lambda>p. False) (mti_numreaders t) (mti_readers t)) (dead_slots (\<lambda>p. False) (mti_numreaders t) (mti_readers t))
    = Some (MDB_SUCCESS, clear_slots (dead_process me alive1 alive2 rmutex) (mti_numreaders t) (mti_readers t),
        dead_slots (dead_process me alive1 alive2 rmutex) (mti_numreaders t) (mti_readers t))"
    by (simp add: pids)
  moreover have "clear_slot (\<lambda>p. False) = (\<lambda>r. r)" by (simp add: fun_eq_iff clear_slot_def)
  then have "clear_slots (\<lambda>p. False) n rs = rs" "dead_slots (\<lambda>p. False) n rs = 0" for n rs
    by (simp_all add: clear_slots_def dead_slots_def)
  ultimately show ?thesis using assms(2) by (simp add: mdb_reader_check0_def Let_def pids)
qed

theorem reader_check_clears_witness:
  "mdb_reader_check0 (\<lambda>n. Some [3, 1, 4, 1, 5]) 5 (\<lambda>p. p = 6) (\<lambda>p. False) (Some 0)
     \<lparr>mti_numreaders = 4, mti_readers = [\<lparr>mr_txnid = 4, mr_pid = 7, mr_tid = 1\<rparr>, \<lparr>mr_txnid = 5, mr_pid = 6, mr_tid = 1\<rparr>,
        \<lparr>mr_txnid = 6, mr_pid = 5, mr_tid = 1\<rparr>, \<lparr>mr_txnid = 3, mr_pid = 7, mr_tid = 2\<rparr>]\<rparr>
   = Some (MDB_SUCCESS, \<lparr>mti_numreaders = 4, mti_readers = [\<lparr>mr_txnid = 4, mr_pid = 0, mr_tid = 1\<rparr>, \<lparr>mr_txnid = 5, mr_pid = 6, mr_tid = 1\<rparr>,
        \<lparr>mr_txnid = 6, mr_pid = 5, mr_tid = 1\<rparr>, \<lparr>mr_txnid = 3, mr_pid = 0, mr_tid = 2\<rparr>]\<rparr>, 2)"
  using reader_check_clears [of "\<lparr>mti_numreaders = 4, mti_readers = [\<lparr>mr_txnid = 4, mr_pid = 7, mr_tid = 1\<rparr>, \<lparr>mr_txnid = 5, mr_pid = 6, mr_tid = 1\<rparr>,
        \<lparr>mr_txnid = 6, mr_pid = 5, mr_tid = 1\<rparr>, \<lparr>mr_txnid = 3, mr_pid = 7, mr_tid = 2\<rparr>]\<rparr>" "\<lambda>n. Some [3, 1, 4, 1, 5]" "[3, 1, 4, 1, 5]" "Some 0" 5
      "\<lambda>p. p = 6" "\<lambda>p. False"]
  by (simp add: clear_slots_def dead_slots_def clear_slot_def dead_process_def)

lemma write_meta_success:
  assumes "mdb_env_write_meta torn rs r2 msync txn env = Some (MDB_SUCCESS, env')" and "Write_error 0 \<notin> set rs" and "msync \<noteq> Some 0"
    and "keeps_stamp torn"
  shows "\<exists>page. snapshot page = (ct_free txn, ct_main txn, ct_next_pgno txn - 1, ct_txnid txn)
    \<and> env' = (set_meta (odd (ct_txnid txn)) page env)\<lparr>mti_txnid := map_option (\<lambda>_. ct_txnid txn) (mti_txnid env)\<rparr>"
proof -
  let ?t = "odd (ct_txnid txn)"
  let ?meta = "meta_of_txn (new_mapsize env ?t) txn (me_metas env ?t)"
  have new: "snapshot ?meta = (ct_free txn, ct_main txn, ct_next_pgno txn - 1, ct_txnid txn)"
    by (simp add: meta_of_txn_def snapshot_def)
  have keep: "mti_txnid (set_meta ?t page env) = mti_txnid env" for page by (simp add: set_meta_def)
  show ?thesis
  proof (cases "F_ISSET (me_flags env) MDB_WRITEMAP")
    case True
    then have "env' = (set_meta ?t ?meta env)\<lparr>mti_txnid := map_option (\<lambda>_. ct_txnid txn) (mti_txnid env)\<rparr>"
      using assms(1,3) keep by (auto simp: mdb_env_write_meta_def Let_def MDB_SUCCESS_def split: if_splits option.splits)
    then show ?thesis using new by blast
  next
    case False
    then obtain page where page: "retry_write torn rs (me_metas env ?t) ?meta = Some (MDB_SUCCESS, page)"
      "env' = (set_meta ?t page env)\<lparr>mti_txnid := map_option (\<lambda>_. ct_txnid txn) (mti_txnid env)\<rparr>"
      using assms(1) keep by (auto simp: mdb_env_write_meta_def Let_def bind_eq_Some_conv split: if_splits)
    have "snapshot page = snapshot ?meta" using retry_write_page [OF page(1) assms(4)] assms(2) by auto
    then show ?thesis using new page(2) by auto
  qed
qed

text \<open>
  C22. After a successful commit every transaction that begins in an environment with a lock file
  begins from it: a reading one stores the number of the commit in its slot and has its two
  databases and its number of pages, a writing one has the next number.
\<close>

theorem begin_reads_commit:
  assumes "mdb_env_write_meta torn rs r2 msync txn env = Some (MDB_SUCCESS, env')" and "Write_error 0 \<notin> set rs"
    and "msync \<noteq> Some 0" and "keeps_stamp torn" and "mti_txnid env = Some n" and "\<not> F_ISSET (me_flags env) MDB_FATAL_ERROR"
    and "ct_next_pgno txn \<le> maxpg"
    and "renew_slot notls pid tid maxreaders pidset lock setspecific own live t = Some (MDB_SUCCESS, i, t1, live1)"
  shows "renew_read env' maxpg (renew_slot notls pid tid maxreaders pidset lock setspecific own live) own t
      = Some (MDB_SUCCESS, Some \<lparr>rd_txnid = ct_txnid txn, rd_reader = Some i, rd_free = ct_free txn, rd_main = ct_main txn,
          rd_next_pgno = ct_next_pgno txn\<rparr>, store_txnid i (ct_txnid txn) t1)
    \<and> renew_write env' maxpg 0
      = (MDB_SUCCESS, Some \<lparr>rd_txnid = ct_txnid txn + 1, rd_reader = None, rd_free = ct_free txn, rd_main = ct_main txn,
          rd_next_pgno = ct_next_pgno txn\<rparr>)"
proof -
  obtain page where page: "snapshot page = (ct_free txn, ct_main txn, ct_next_pgno txn - 1, ct_txnid txn)"
    "env' = (set_meta (odd (ct_txnid txn)) page env)\<lparr>mti_txnid := map_option (\<lambda>_. ct_txnid txn) (mti_txnid env)\<rparr>"
    using write_meta_success [OF assms(1-4)] by blast
  have txn: "read_meta n reader page = \<lparr>rd_txnid = n, rd_reader = reader, rd_free = ct_free txn, rd_main = ct_main txn,
      rd_next_pgno = ct_next_pgno txn\<rparr>" for n reader
    using page(1) by (simp add: read_meta_def snapshot_def)
  have "me_flags env' = me_flags env" using page(2) by (simp add: set_meta_def)
  then have "begin_code env' maxpg (ct_next_pgno txn) = MDB_SUCCESS" using assms(6) leD [OF assms(7)] by (simp add: begin_code_def)
  moreover have "mti_txnid env' = Some (ct_txnid txn)" "me_metas env' (odd (ct_txnid txn)) = page"
    using page(2) assms(5) by simp_all
  ultimately show ?thesis using assms(8) txn by (simp add: renew_read_def renew_write_def Let_def)
qed

text \<open>A commit of transaction 3, then a reader that takes the first slot of the table.\<close>

theorem begin_reads_commit_witness:
  "\<exists>env'. mdb_env_write_meta (\<lambda>old new. old) [Wrote META_LEN] (Wrote META_LEN) None sample_commit (sample_env\<lparr>mti_txnid := Some 2\<rparr>)
      = Some (MDB_SUCCESS, env')
    \<and> renew_read env' 100 (renew_slot False 5 1 4 0 0 0 None False) None
        \<lparr>mti_numreaders = 1, mti_readers = replicate 4 \<lparr>mr_txnid = 0, mr_pid = 0, mr_tid = 0\<rparr>\<rparr>
      = Some (MDB_SUCCESS, Some \<lparr>rd_txnid = 3, rd_reader = Some 0, rd_free = sample_db, rd_main = sample_db\<lparr>md_root := 5\<rparr>,
          rd_next_pgno = 6\<rparr>, \<lparr>mti_numreaders = 1, mti_readers = \<lparr>mr_txnid = 3, mr_pid = 5, mr_tid = 1\<rparr>
            # replicate 3 \<lparr>mr_txnid = 0, mr_pid = 0, mr_tid = 0\<rparr>\<rparr>)"
proof -
  let ?env = "sample_env\<lparr>mti_txnid := Some 2\<rparr>"
  let ?r = "\<lparr>mr_txnid = 0, mr_pid = 0, mr_tid = 0\<rparr> :: mdb_reader"
  let ?t = "\<lparr>mti_numreaders = 1, mti_readers = replicate 4 ?r\<rparr>"
  have four: "replicate 4 x = x # replicate 3 x" for x :: mdb_reader by (simp add: numeral_eq_Suc)
  obtain env' where w: "mdb_env_write_meta (\<lambda>old new. old) [Wrote META_LEN] (Wrote META_LEN) None sample_commit ?env
      = Some (MDB_SUCCESS, env')"
    by (simp add: mdb_env_write_meta_def Let_def sample_env_def F_ISSET_def MDB_WRITEMAP_def MDB_SUCCESS_def)
  have "keeps_stamp (\<lambda>old new. old)" by (simp add: keeps_stamp_def)
  moreover have "\<not> F_ISSET (me_flags ?env) MDB_FATAL_ERROR" by (simp add: sample_env_def F_ISSET_def MDB_FATAL_ERROR_def)
  moreover have "renew_slot False 5 1 4 0 0 0 None False ?t
      = Some (MDB_SUCCESS, 0, \<lparr>mti_numreaders = 1, mti_readers = \<lparr>mr_txnid = - 1, mr_pid = 5, mr_tid = 1\<rparr> # replicate 3 ?r\<rparr>, True)"
    by (simp add: renew_slot_def claim_slot_def Let_def four)
  moreover have "ct_next_pgno sample_commit \<le> 100" by (simp add: sample_commit_def)
  ultimately show ?thesis
    using begin_reads_commit [OF w, of 2 100 False 5 1 4 0 0 0 None False ?t] w
    by (simp add: sample_commit_def store_txnid_def set_reader_def reader_at_def)
qed

end
