(* ===== verification/Lmdb_Writer_Properties.thy ===== *)
theory Lmdb_Writer_Properties
  imports Lmdb_Writer Lmdb_Reader_Properties
begin

text \<open>
  What page allocation promises: pages handed out are nobody else's, and together with the reader
  table, no snapshot in use has them.
\<close>

text \<open>
  C12. \<open>mdb_page_alloc\<close> always returns and keeps the free, dirty, loose and new pages apart. What it
  hands out is a loose page of the transaction, or a run of pages that are not dirty and are
  either new or taken off the free ones, unseen by every live snapshot. If it fails, at any point
  of the search, no page is lost.
\<close>

theorem page_alloc_isolates:
  assumes "good_malloc malloc" and "writer_inv live freed fd env txn" and "1 \<le> num" and "num < 2 ^ 31"
    and "unat (wt_next_pgno txn) + num < 2 ^ 64"
  shows "\<exists>rc page env' txn'. mdb_page_alloc malloc pmalloc fd num env txn = Some (rc, page, env', txn') \<and> writer_inv live freed fd env' txn'
    \<and> (case page of
         None \<Rightarrow> rc \<noteq> MDB_SUCCESS \<and> all_free fd env' = all_free fd env \<and> wt_next_pgno txn' = wt_next_pgno txn \<and> dirty txn' = dirty txn
       | Some (np, pgno) \<Rightarrow> rc = MDB_SUCCESS
           \<and> (loose_again env txn num (np, pgno) env' txn'
              \<or> dirty txn' = insert pgno (dirty txn) \<and> set (run pgno num) \<inter> dirty txn = {}
                \<and> (pgno = wt_next_pgno txn \<and> wt_next_pgno txn' = pgno + of_nat num \<and> all_free fd env' = all_free fd env
                   \<or> wt_next_pgno txn' = wt_next_pgno txn \<and> all_free fd env = mset (run pgno num) + all_free fd env'
                     \<and> (\<forall>p\<in>set (run pgno num). \<forall>r\<in>live. freed p < r))))"
  using page_alloc_result [OF assms] unfolding refused_def granted_def by (simp add: disj_commute)

text \<open>Two pages in memory, a record of transaction 4 to be merged, a reader of snapshot 8.\<close>

definition sample_page_env :: "txnid \<Rightarrow> reader_table option \<Rightarrow> page_env" where
  "sample_page_env oldest table = \<lparr>me_flags = 0, me_psize = 4096, me_mapsize = 0, me_meta0 = sample_meta 8,
     me_meta1 = sample_meta 7, mti_txnid = None, me_maxpg = 100, me_map = 0, me_nodemax = 2038, me_pgoldest = oldest, me_pglast = 2,
     me_pghead = Some \<lparr>ml_alloc = 3, ml_ids = [2, 9, 5, 0]\<rparr>, me_dpages = [64], me_txns = table\<rparr>"

definition sample_txn :: write_txn where
  "sample_txn = \<lparr>wt_txnid = 9, wt_next_pgno = 20, wt_loose_pgs = [], wt_loose_count = 0, wt_dirty_room = 5,
     wt_dirty_list = \<lparr>mid = 0, mptr = 0\<rparr> # replicate MDB_IDL_UM_MAX \<lparr>mid = 0, mptr = 0\<rparr>,
     wt_free_pgs = \<lparr>ml_alloc = 1, ml_ids = [0, 0]\<rparr>, wt_error = False\<rparr>"

definition sample_freed :: "mdb_id \<Rightarrow> txnid" where
  "sample_freed p = (if p = 9 then 2 else if p = 5 then 1 else 4)"

definition sample_freedb :: free_db where
  "sample_freedb = \<lparr>fd_records = [(1, Inr [1, 5]), (2, Inr [1, 9]), (4, Inr [2, 7, 6])], fd_end = MDB_NOTFOUND\<rparr>"

lemma sample_unread: "unread sample_freedb (sample_page_env oldest table) = [(4, Inr [2, 7, 6])]"
  by (simp add: unread_def sample_freedb_def sample_page_env_def free_from_def)

lemma sample_pools:
  "fd_ok sample_freedb" "free_ok (sample_page_env oldest table) (unread sample_freedb (sample_page_env oldest table))"
  "unseen {8} sample_freed (sample_page_env oldest table) (unread sample_freedb (sample_page_env oldest table))"
  "\<not> F_ISSET (me_flags (sample_page_env oldest table)) MDB_WRITEMAP"
  by (simp_all add: fd_ok_def sample_unread)
    (simp_all add: sample_freedb_def sample_page_env_def free_ok_def head_ok_def midl_ok_def midl_list_def idl_ids_def
      free_pages_def record_ok_def idl_fits_def unseen_def record_pages_def sample_freed_def MDB_NOTFOUND_def F_ISSET_def MDB_WRITEMAP_def)

lemma sample_dirty: "dirty sample_txn = {}" "dirty_ok sample_txn" "loose_ok sample_txn"
  by (simp_all add: dirty_def dirty_ok_def loose_ok_def sample_txn_def id2_ids_def ascending_def MDB_IDL_UM_MAX_def)

lemma sample_apart: "pages_apart sample_freedb (sample_page_env oldest table) sample_txn"
  by (simp add: pages_apart_def sample_dirty all_free_def sample_unread)
    (simp add: sample_page_env_def sample_txn_def free_pages_def midl_list_def idl_ids_def)

theorem page_alloc_isolates_witness:
  "\<exists>rc page env' txn'. mdb_page_alloc (\<lambda>n. Some (replicate n 0)) (\<lambda>n. Some n) sample_freedb 2 (sample_page_env 0 None) sample_txn
      = Some (rc, page, env', txn') \<and> writer_inv {8} sample_freed sample_freedb env' txn'"
proof -
  have "writer_inv {8} sample_freed sample_freedb (sample_page_env 0 None) sample_txn"
    unfolding writer_inv_def using sample_pools sample_dirty sample_apart
    by (simp add: none_older_def sample_page_env_def sample_txn_def mdb_find_oldest_def)
  moreover have "good_malloc (\<lambda>n. Some (replicate n 0))" by (simp add: good_malloc_def)
  ultimately show ?thesis
    using page_alloc_isolates [of "\<lambda>n. Some (replicate n 0)" "{8}" sample_freed sample_freedb "sample_page_env 0 None" sample_txn 2 "\<lambda>n. Some n"]
    by (auto simp: sample_txn_def)
qed

section \<open>With the readers\<close>

text \<open>The snapshots readers have.\<close>

definition snapshots :: "shared \<Rightarrow> txnid set" where
  "snapshots s = {mr_txnid (reader_at (sh_table s) i) | i. sh_phase s i = Reading}"

lemma oldest_found:
  assumes inv: "readers_inv maxreaders s" and n: "n - 1 = sh_txnid s"
  shows "\<exists>o0. mdb_find_oldest n (Some (sh_table s)) = Some o0 \<and> none_older (insert (sh_txnid s) (snapshots s)) o0"
proof -
  have "\<exists>o0. oldest_loop rs k w = Some o0" if "k \<le> length rs" for rs k w
    using that by (induction k arbitrary: w) (auto simp: idl_at_eq)
  from this [OF table_length [OF inv]]
  obtain o0 where o0: "mdb_find_oldest n (Some (sh_table s)) = Some o0" by (auto simp: mdb_find_oldest_def)
  have "none_older (snapshots s) o0"
    using oldest_loop_bounds o0 inv
    by (fastforce simp: none_older_def snapshots_def mdb_find_oldest_def readers_inv_def reader_ok_def reader_at_def)
  moreover have "o0 \<le> sh_txnid s" using oldest_loop_bounds o0 n by (fastforce simp: mdb_find_oldest_def)
  ultimately show ?thesis using o0 by (auto simp: none_older_def)
qed

text \<open>
  A writing transaction among the readers of all processes. It begins with no free pages in memory,
  after a commit whose freeDB has each page under the number \<open>freed\<close> of the transaction that freed it.
  Then it allocates pages, with what it finds out about the oldest reader, and gives up pages,
  while the readers go on: they claim slots, begin, end and die.
\<close>

inductive writing :: "nat \<Rightarrow> (mdb_id \<Rightarrow> txnid) \<Rightarrow> free_db \<Rightarrow> shared \<Rightarrow> page_env \<Rightarrow> write_txn \<Rightarrow> bool"
  for maxreaders freed fd where
  start: "readers_reach maxreaders s \<Longrightarrow> sh_writer s = Some w \<Longrightarrow> wr_scan w = None \<Longrightarrow> wt_txnid txn = wr_txnid w \<Longrightarrow>
    me_txns env = Some (sh_table s) \<Longrightarrow> me_pgoldest env = sh_oldest s (wr_pid w) \<Longrightarrow> me_pghead env = None \<Longrightarrow> me_pglast env = 0 \<Longrightarrow>
    fd_ok fd \<Longrightarrow> free_ok env (fd_records fd) \<Longrightarrow> (\<forall>x\<in>set (fd_records fd). \<forall>p\<in>set (record_pages x). freed p = fst x) \<Longrightarrow>
    \<not> F_ISSET (me_flags env) MDB_WRITEMAP \<Longrightarrow> dirty_ok txn \<Longrightarrow> dirty txn = {} \<Longrightarrow> wt_loose_pgs txn = [] \<Longrightarrow>
    (\<forall>x\<in>set (fd_records fd). \<forall>p\<in>set (record_pages x). p < wt_next_pgno txn) \<Longrightarrow> writing maxreaders freed fd s env txn"
| readers: "writing maxreaders freed fd s env txn \<Longrightarrow> reader_step maxreaders s s' \<Longrightarrow> sh_writer s' = sh_writer s \<Longrightarrow>
    writing maxreaders freed fd s' (env\<lparr>me_txns := Some (sh_table s')\<rparr>) txn"
| alloc: "writing maxreaders freed fd s env txn \<Longrightarrow> sh_writer s = Some w \<Longrightarrow> good_malloc malloc \<Longrightarrow> 1 \<le> num \<Longrightarrow> num < 2 ^ 31 \<Longrightarrow>
    unat (wt_next_pgno txn) + num < 2 ^ 64 \<Longrightarrow> mdb_page_alloc malloc pmalloc fd num env txn = Some (rc, page, env', txn') \<Longrightarrow>
    writing maxreaders freed fd (s\<lparr>sh_oldest := (sh_oldest s)(wr_pid w := me_pgoldest env')\<rparr>) env' txn'"
| loose: "writing maxreaders freed fd s env txn \<Longrightarrow> (is_dirty \<Longrightarrow> pgno \<in> dirty txn \<and> pgno \<notin> snd ` set (wt_loose_pgs txn)) \<Longrightarrow>
    mdb_page_loose malloc is_dirty in_free_dbi child mp pgno txn = Some (rc, reset, txn') \<Longrightarrow> writing maxreaders freed fd s env txn'"

text \<open>
  Its invariant: no snapshot in use has a free page in memory, and neither has the last commit, the one
  the next reader will take.
\<close>

definition writing_inv :: "nat \<Rightarrow> (mdb_id \<Rightarrow> txnid) \<Rightarrow> free_db \<Rightarrow> shared \<Rightarrow> page_env \<Rightarrow> write_txn \<Rightarrow> bool" where
  "writing_inv maxreaders freed fd s env txn =
     (readers_inv maxreaders s \<and> me_txns env = Some (sh_table s)
      \<and> (\<exists>w. sh_writer s = Some w \<and> wr_scan w = None \<and> wt_txnid txn = wr_txnid w \<and> me_pgoldest env = sh_oldest s (wr_pid w))
      \<and> writer_inv (insert (sh_txnid s) (snapshots s)) freed fd env txn)"

lemma writer_number:
  assumes "readers_inv maxreaders s" and "sh_writer s = Some w"
  shows "wr_txnid w - 1 = sh_txnid s"
  using assms by (simp add: readers_inv_def writer_ok_def)

lemma oldest_below:
  assumes "readers_inv maxreaders s"
  shows "none_older (insert (sh_txnid s) (snapshots s)) (sh_oldest s p)"
  using assms by (auto simp: none_older_def snapshots_def readers_inv_def snapshot_ok_def table_ok_def)

text \<open>Readers can only come to have the last commit.\<close>

lemma readers_go_on:
  assumes "reader_step maxreaders s s'" and "sh_writer s' = sh_writer s" and "sh_writer s = Some w" and "wr_scan w = None"
    and inv: "readers_inv maxreaders s"
  shows "sh_txnid s' = sh_txnid s \<and> sh_oldest s' = sh_oldest s \<and> snapshots s' \<subseteq> insert (sh_txnid s) (snapshots s)"
  using assms(1)
proof cases
  case (claim pid tid i t)
  then have "\<forall>j. j \<noteq> i \<longrightarrow> reader_at t j = reader_at (sh_table s) j" using claim_slot_result table_length [OF inv] by blast
  then show ?thesis using claim by (fastforce simp: snapshots_def split: if_splits)
next
  case (store i n)
  then show ?thesis by (fastforce simp: snapshots_def split: if_splits)
next
  case (begin_read i)
  then show ?thesis by (fastforce simp: snapshots_def split: if_splits)
next
  case (finish i notls end_slot slot t)
  then have "\<forall>j. j \<noteq> i \<longrightarrow> reader_at t j = reader_at (sh_table s) j" by (auto simp: end_read_def Let_def split: if_splits)
  then show ?thesis using finish by (fastforce simp: snapshots_def split: if_splits)
qed (use assms(2-4) in \<open>auto simp: snapshots_def dest: arg_cong [of _ _ wr_scan] split: if_splits\<close>)

text \<open>What an allocation leaves as it is.\<close>

lemma page_malloc_keeps:
  "mdb_page_malloc pmalloc num env txn = (p, env', txn') \<Longrightarrow> me_txns env' = me_txns env \<and> me_pgoldest env' = me_pgoldest env \<and> wt_txnid txn' = wt_txnid txn"
  by (auto simp: mdb_page_malloc_def fail_txn_def split: if_splits option.splits)

lemma page_dirty_keeps: "mdb_page_dirty writemap np pgno txn = Some txn' \<Longrightarrow> wt_txnid txn' = wt_txnid txn"
  by (auto simp: mdb_page_dirty_def bind_eq_Some_conv split: if_splits)

lemma alloc_pages_reader_table:
  assumes "alloc_pages pmalloc num src env txn = Some (rc, page, env', txn')"
  shows "me_txns env' = me_txns env \<and> wt_txnid txn' = wt_txnid txn"
  using assms
  by (auto simp: alloc_pages_def Let_def bind_eq_Some_conv fail_txn_def
      dest!: page_malloc_keeps page_dirty_keeps split: page_source.splits if_splits option.splits prod.splits)

lemma page_alloc_reader_table:
  assumes "good_malloc malloc" and "writer_inv live freed fd env txn"
    and "mdb_page_alloc malloc pmalloc fd num env txn = Some (rc, page, env', txn')"
  shows "me_txns env' = me_txns env \<and> wt_txnid txn' = wt_txnid txn"
proof -
  have "me_txns env1 = me_txns env"
    if "alloc_loop malloc (num - 1) (wt_txnid txn) (fd_end fd) (unread fd env) (int num * 60) False (me_pgoldest env) (me_pglast env) env = Some (src, env1)"
    for src env1
    using pools_of_same [OF alloc_loop_found [OF assms(1,2) that]] by simp
  then show ?thesis
    using assms(3) unfolding mdb_page_alloc_def unread_def
    by (auto simp: bind_eq_Some_conv fail_txn_def dest: alloc_pages_reader_table split: if_splits)
qed

lemma page_loose_keeps:
  assumes "mdb_page_loose malloc is_dirty in_free_dbi child mp pgno txn = Some (rc, reset, txn')" and "writer_inv live freed fd env txn"
    and "is_dirty \<Longrightarrow> pgno \<in> dirty txn \<and> pgno \<notin> snd ` set (wt_loose_pgs txn)"
  shows "writer_inv live freed fd env txn' \<and> wt_txnid txn' = wt_txnid txn"
proof -
  have "txn' = fail_txn txn \<or> (\<exists>l. txn' = txn\<lparr>wt_free_pgs := l\<rparr>)
      \<or> is_dirty \<and> txn' = txn\<lparr>wt_loose_pgs := (mp, pgno) # wt_loose_pgs txn, wt_loose_count := wt_loose_count txn + 1\<rparr>"
  proof -
    obtain found where "(if is_dirty \<and> \<not> in_free_dbi then if child then own_dirty (wt_dirty_list txn) mp pgno else Some (Inr True)
        else Some (Inr False)) = Some found"
      "(case found of
          Inl rc \<Rightarrow> Some (rc, True, fail_txn txn)
        | Inr True \<Rightarrow> Some (MDB_SUCCESS, False,
            txn\<lparr>wt_loose_pgs := (mp, pgno) # wt_loose_pgs txn, wt_loose_count := wt_loose_count txn + 1\<rparr>)
        | Inr False \<Rightarrow> do { (rc, l) \<leftarrow> mdb_midl_append malloc (wt_free_pgs txn) pgno; Some (rc, False, txn\<lparr>wt_free_pgs := l\<rparr>) })
        = Some (rc, reset, txn')"
      using assms(1) unfolding mdb_page_loose_def bind_eq_Some_conv by blast
    then show ?thesis by (cases found) (auto simp: bind_eq_Some_conv split: bool.splits if_splits)
  qed
  then show ?thesis
    using assms(2,3)
    by (elim disjE exE conjE) (simp_all add: writer_inv_def dirty_ok_def pages_apart_def loose_ok_def dirty_def fail_txn_def)
qed

text \<open>The readers change.\<close>

lemma writer_inv_readers:
  assumes "writer_inv live freed fd env txn" and "live' \<subseteq> live" and "none_older live' (me_pgoldest env)"
    and "\<exists>o0. mdb_find_oldest (wt_txnid txn) t = Some o0 \<and> none_older live' o0"
  shows "writer_inv live' freed fd (env\<lparr>me_txns := t\<rparr>) txn"
proof -
  let ?env = "env\<lparr>me_txns := t\<rparr>"
  have same: "unread fd ?env = unread fd env" "free_pages ?env = free_pages env" by (simp_all add: unread_def free_pages_def)
  have "free_ok ?env rs = free_ok env rs" for rs by (simp add: free_ok_def head_ok_def same(2))
  moreover have "pages_apart fd ?env txn = pages_apart fd env txn" by (simp add: pages_apart_def all_free_def same)
  moreover have "unseen live' freed ?env (unread fd env)"
    using assms(1,2) by (simp add: writer_inv_def unseen_def same(2)) blast
  ultimately show ?thesis using assms(1,3,4) by (simp add: writer_inv_def same(1))
qed

lemma writing_invariant: "writing maxreaders freed fd s env txn \<Longrightarrow> writing_inv maxreaders freed fd s env txn"
proof (induction rule: writing.induct)
  case (start s w txn env)
  note inv = reach_inv [OF start(1)]
  have u: "unread fd env = fd_records fd" "free_pages env = []" using start(7,8) by (simp_all add: unread_def free_from_def free_pages_def)
  have "\<exists>o0. mdb_find_oldest (wt_txnid txn) (me_txns env) = Some o0 \<and> none_older (insert (sh_txnid s) (snapshots s)) o0"
    unfolding start(4,5) by (rule oldest_found [OF inv writer_number [OF inv start(2)]])
  then have "writer_inv (insert (sh_txnid s) (snapshots s)) freed fd env txn"
    using start(9-16) u oldest_below [OF inv] unfolding start(6) [symmetric]
    by (auto simp: writer_inv_def unseen_def pages_apart_def all_free_def loose_ok_def unread_pages_def start(6))
  then show ?case using inv start(2-6) by (simp add: writing_inv_def)
next
  case (readers s env txn s')
  then obtain w where w: "readers_inv maxreaders s" "me_txns env = Some (sh_table s)" "sh_writer s = Some w" "wr_scan w = None"
    "wt_txnid txn = wr_txnid w" "me_pgoldest env = sh_oldest s (wr_pid w)" "writer_inv (insert (sh_txnid s) (snapshots s)) freed fd env txn"
    by (auto simp: writing_inv_def)
  note go = readers_go_on [OF readers(2,3) w(3,4,1)] and inv = step_inv [OF readers(2) w(1)]
  have w': "sh_writer s' = Some w" using readers(3) w(3) by simp
  let ?env = "env\<lparr>me_txns := Some (sh_table s')\<rparr>" and ?live = "insert (sh_txnid s') (snapshots s')"
  have "\<exists>o0. mdb_find_oldest (wt_txnid txn) (me_txns ?env) = Some o0 \<and> none_older ?live o0"
    using oldest_found [OF inv writer_number [OF inv w']] w(5) by simp
  moreover have "none_older ?live (me_pgoldest env)" using oldest_below [OF inv, of "wr_pid w"] w(6) go by simp
  moreover have "?live \<subseteq> insert (sh_txnid s) (snapshots s)" using go by auto
  ultimately have "writer_inv ?live freed fd ?env txn" by (intro writer_inv_readers [OF w(7)]) simp_all
  then show ?case using inv w' w(4-6) go by (simp add: writing_inv_def)
next
  case (alloc s env txn w malloc num pmalloc rc page env' txn')
  let ?live = "insert (sh_txnid s) (snapshots s)" and ?s = "s\<lparr>sh_oldest := (sh_oldest s)(wr_pid w := me_pgoldest env')\<rparr>"
  have w: "readers_inv maxreaders s" "me_txns env = Some (sh_table s)" "wr_scan w = None" "wt_txnid txn = wr_txnid w" "writer_inv ?live freed fd env txn"
    using alloc(8,2) by (auto simp: writing_inv_def)
  have inv: "writer_inv ?live freed fd env' txn'" using page_alloc_result [OF alloc(3) w(5) alloc(4-6), of pmalloc] alloc(7) by auto
  then have "none_older ?live (me_pgoldest env')" by (simp add: writer_inv_def)
  then have "readers_inv maxreaders ?s" using w(1) by (auto simp: inv_defs none_older_def snapshots_def)
  moreover have "snapshots ?s = snapshots s" by (simp add: snapshots_def)
  ultimately show ?case using inv page_alloc_reader_table [OF alloc(3) w(5) alloc(7)] w(2-4) alloc(2) by (simp add: writing_inv_def)
next
  case (loose s env txn is_dirty pgno malloc in_free_dbi child mp rc reset txn')
  then show ?case using page_loose_keeps [OF loose(3) _ loose(2)] by (auto simp: writing_inv_def)
qed

text \<open>
  C11. Whatever a writing transaction and the readers of all processes have done since it began, in any
  order, no page that \<open>mdb_page_alloc\<close> hands out now is one that a reader still has: it was a loose
  page of the transaction itself, it is new, or the transaction that freed it is older than every
  snapshot in use, also those taken after the page was read from the freeDB. The records of the
  freeDB are as their writers left them, under the number of the transaction that freed the pages;
  there is no \<open>MDB_WRITEMAP\<close>; each allocation of the transaction counts as one step, and what happens
  while it looks for the oldest reader is the matter of C10.
\<close>

theorem readers_keep_pages:
  assumes "writing maxreaders freed fd s env txn"
    and "good_malloc malloc" and "1 \<le> num" and "num < 2 ^ 31" and "unat (wt_next_pgno txn) + num < 2 ^ 64"
  shows "\<exists>rc page env' txn'. mdb_page_alloc malloc pmalloc fd num env txn = Some (rc, page, env', txn')
    \<and> (case page of
         None \<Rightarrow> rc \<noteq> MDB_SUCCESS
       | Some (np, pgno) \<Rightarrow> \<forall>p\<in>set (run pgno num). p \<in> snd ` set (wt_loose_pgs txn) \<or> wt_next_pgno txn \<le> p
           \<or> p \<in># all_free fd env \<and> (\<forall>r\<in>snapshots s. freed p < r))"
proof -
  have "writer_inv (insert (sh_txnid s) (snapshots s)) freed fd env txn"
    using writing_invariant [OF assms(1)] by (simp add: writing_inv_def)
  from page_alloc_result [OF assms(2) this assms(3-5), of pmalloc]
  obtain rc page env' txn' where r: "mdb_page_alloc malloc pmalloc fd num env txn = Some (rc, page, env', txn')"
    "case page of None \<Rightarrow> rc \<noteq> MDB_SUCCESS \<and> refused fd env txn env' txn'
       | Some (np, pgno) \<Rightarrow> rc = MDB_SUCCESS
           \<and> (loose_again env txn num (np, pgno) env' txn' \<or> granted (insert (sh_txnid s) (snapshots s)) freed fd num env txn np pgno env' txn')"
    by blast
  show ?thesis
  proof (cases page)
    case None
    then show ?thesis using r by auto
  next
    case (Some q)
    obtain np pgno where q: "q = (np, pgno)" by (cases q)
    have "p \<in> snd ` set (wt_loose_pgs txn) \<or> wt_next_pgno txn \<le> p \<or> p \<in># all_free fd env \<and> (\<forall>r\<in>snapshots s. freed p < r)"
      if p: "p \<in> set (run pgno num)" for p
    proof -
      have "loose_again env txn num (np, pgno) env' txn' \<or> granted (insert (sh_txnid s) (snapshots s)) freed fd num env txn np pgno env' txn'"
        using r(2) Some q by simp
      moreover have "p = pgno" if "num = 1" using p that by (simp add: run_def)
      moreover have "wt_next_pgno txn \<le> p" if "pgno = wt_next_pgno txn"
        using assms(4,5) p that by (auto simp: set_run word_le_nat_alt unat_word_ariths unat_of_nat)
      ultimately show ?thesis using p by (auto simp: loose_again_def granted_def)
    qed
    then show ?thesis using r(1) Some q by auto
  qed
qed

lemma snapshots_overtaken: "snapshots overtaken = {8}"
  by (auto simp: snapshots_def overtaken_def reader_at_def split: if_splits)

text \<open>
  The reader of snapshot 8, and the writer of 9 that has looked for it and begins to allocate.
\<close>

definition begun_env :: "page_env" where
  "begun_env = (sample_page_env 8 (Some (sh_table overtaken)))\<lparr>me_pghead := None, me_pglast := 0\<rparr>"

lemma begun_writing: "writing 1 sample_freed sample_freedb overtaken begun_env sample_txn"
proof (rule writing.start [OF overtaken_reach, where w = "\<lparr>wr_pid = 9, wr_txnid = 9, wr_scan = None\<rparr>"])
  show "fd_ok sample_freedb" by (rule sample_pools(1))
  show "free_ok begun_env (fd_records sample_freedb)"
    by (simp add: begun_env_def sample_freedb_def free_ok_def head_ok_def free_pages_def record_ok_def idl_fits_def idl_ids_def)
  show "\<not> F_ISSET (me_flags begun_env) MDB_WRITEMAP" using sample_pools(4) [of 8] by (simp add: begun_env_def sample_page_env_def)
qed (simp_all add: sample_dirty, simp_all add: overtaken_def begun_env_def sample_page_env_def sample_txn_def sample_freedb_def
  record_pages_def idl_ids_def sample_freed_def)

theorem readers_keep_pages_witness:
  "\<exists>rc page env' txn'. mdb_page_alloc (\<lambda>n. Some (replicate n 0)) (\<lambda>n. Some n) sample_freedb 2 begun_env sample_txn = Some (rc, page, env', txn')
    \<and> (\<forall>np pgno. page = Some (np, pgno) \<longrightarrow> (\<forall>p\<in>set (run pgno 2). 20 \<le> p \<or> sample_freed p < 8))"
proof -
  have "good_malloc (\<lambda>n. Some (replicate n 0))" by (simp add: good_malloc_def)
  moreover have "unat (wt_next_pgno sample_txn) + 2 < 2 ^ 64" by (simp add: sample_txn_def)
  ultimately obtain rc page env' txn' where
    "mdb_page_alloc (\<lambda>n. Some (replicate n 0)) (\<lambda>n. Some n) sample_freedb 2 begun_env sample_txn = Some (rc, page, env', txn')"
    "case page of
         None \<Rightarrow> rc \<noteq> MDB_SUCCESS
       | Some (np, pgno) \<Rightarrow> \<forall>p\<in>set (run pgno 2). p \<in> snd ` set (wt_loose_pgs sample_txn) \<or> wt_next_pgno sample_txn \<le> p
           \<or> p \<in># all_free sample_freedb begun_env \<and> (\<forall>r\<in>snapshots overtaken. sample_freed p < r)"
    using readers_keep_pages [OF begun_writing, of "\<lambda>n. Some (replicate n 0)" 2 "\<lambda>n. Some n"] by auto
  then show ?thesis by (auto simp: snapshots_overtaken sample_txn_def split: option.splits)
qed

end
