(* ===== verification/Lmdb_Touch.thy ===== *)
theory Lmdb_Touch
  imports Lmdb_Alloc Lmdb_Node
begin

text \<open>
  Copy on write: before a page is changed it is copied to a page of the writing transaction, and
  its parent, or the root of the database, is pointed at the copy (\<open>mdb_page_touch\<close>); a page the
  transaction had spilled to the file is fetched back (\<open>mdb_page_unspill\<close>).
\<close>

section \<open>State\<close>

definition FLAG_OVERFLOW :: "16 word" where "FLAG_OVERFLOW = 0x04"
definition FLAG_DIRTY :: "16 word" where "FLAG_DIRTY = 0x10"
definition FLAG_SUBP :: "16 word" where "FLAG_SUBP = 0x40"

text \<open>
  A cursor with the addresses of the pages on its stack, and their indices. \<open>wc_live\<close> says that it is
  initialized.
\<close>

record wcursor =
  wc_pg :: "nat list"
  wc_ki :: "nat list"
  wc_snum :: nat
  wc_top :: nat
  wc_live :: bool

text \<open>
  A transaction that writes to one database: whether it has a parent, whether it or a parent has
  spilled pages and the lists of those, its own first; the blocks of memory by their addresses;
  the root of the database, its depth and its numbers of pages; and the other cursors on it.
\<close>

record write_state =
  ws_env :: page_env
  ws_txn :: write_txn
  ws_child :: bool
  ws_spills :: bool
  ws_spill_lists :: "idl option list"
  ws_mem :: "nat \<Rightarrow> bytes"
  ws_root :: mdb_id
  ws_depth :: nat
  ws_branch_pages :: nat
  ws_leaf_pages :: nat
  ws_overflow_pages :: nat
  ws_cursors :: "wcursor list"

definition raw_page_pgno :: "bytes \<Rightarrow> mdb_id option" where
  "raw_page_pgno p = load64 p 0"

definition fail_state :: "write_state \<Rightarrow> write_state" where
  "fail_state st = st\<lparr>ws_txn := fail_txn (ws_txn st)\<rparr>"

section \<open>Copying a page\<close>

text \<open>Only what lies outside the free space is copied, rounded to words, unless little is free.\<close>

definition mdb_page_copy :: "bytes \<Rightarrow> bytes \<Rightarrow> nat \<Rightarrow> bytes option" where
  "mdb_page_copy dst src psize =
     do {
       upper \<leftarrow> raw_upper src;
       lower \<leftarrow> raw_lower src;
       fl \<leftarrow> raw_flags src;
       let unused = (upper - lower) AND (- 8);
       if unused \<noteq> 0 \<and> \<not> F_ISSET fl FLAG_LEAF2 then do {
         let up = unat (upper AND (- 8));
         low \<leftarrow> load_bytes src 0 ((unat lower + 7) div 8 * 8);
         dst1 \<leftarrow> store_bytes dst 0 low;
         high \<leftarrow> load_bytes src up (psize - up);
         store_bytes dst1 up high
       }
       else do {
         used \<leftarrow> load_bytes src 0 (psize - unat unused);
         store_bytes dst 0 used
       }
     }"

section \<open>Spilled pages\<close>

text \<open>The list a page is on, and its place there.\<close>

fun find_spilled :: "idl option list \<Rightarrow> mdb_id \<Rightarrow> nat \<Rightarrow> (nat \<times> idl \<times> nat) option option" where
  "find_spilled [] pn level = Some None"
| "find_spilled (None # ls) pn level = find_spilled ls pn (level + 1)"
| "find_spilled (Some l # ls) pn level =
     do {
       x \<leftarrow> mdb_midl_search l pn;
       n \<leftarrow> idl_at l 0;
       y \<leftarrow> (if x \<le> unat n then map_option Some (idl_at l x) else Some None);
       if y = Some pn then Some (Some (level, l, x)) else find_spilled ls pn (level + 1)
     }"

text \<open>The last page of a list is dropped, another one is marked by its lowest bit.\<close>

definition drop_spilled :: "idl \<Rightarrow> nat \<Rightarrow> idl option" where
  "drop_spilled l x =
     do {
       n \<leftarrow> idl_at l 0;
       if x = unat n then idl_put l 0 (n - 1)
       else do { y \<leftarrow> idl_at l x; idl_put l x (y OR 1) }
     }"

text \<open>The third result is the page brought back, if it was spilled.\<close>

definition mdb_page_unspill ::
  "(nat \<Rightarrow> nat option) \<Rightarrow> nat \<Rightarrow> write_state \<Rightarrow> (int \<times> nat option \<times> write_state) option" where
  "mdb_page_unspill pmalloc mp st =
     do {
       pgno \<leftarrow> raw_page_pgno (ws_mem st mp);
       found \<leftarrow> find_spilled (ws_spill_lists st) (push_bit 1 pgno) 0;
       case found of
         None \<Rightarrow> Some (MDB_SUCCESS, None, st)
       | Some (level, l, x) \<Rightarrow>
           if wt_dirty_room (ws_txn st) = 0 then Some (MDB_TXN_FULL, None, st)
           else do {
             fl \<leftarrow> raw_flags (ws_mem st mp);
             num \<leftarrow> (if F_ISSET fl FLAG_OVERFLOW then map_option le_value (load_bytes (ws_mem st mp) 12 4) else Some 1);
             let writemap = F_ISSET (me_flags (ws_env st)) MDB_WRITEMAP;
             let psize = unat (me_psize (ws_env st));
             case (if writemap then (Some mp, ws_env st, ws_txn st) else mdb_page_malloc pmalloc num (ws_env st) (ws_txn st)) of
               (None, env, txn) \<Rightarrow> Some (ENOMEM, None, st\<lparr>ws_env := env, ws_txn := txn\<rparr>)
             | (Some np, env, txn) \<Rightarrow> do {
                 page \<leftarrow> (if writemap then Some (ws_mem st mp)
                         else if 1 < num then do { b \<leftarrow> load_bytes (ws_mem st mp) 0 (num * psize); store_bytes (ws_mem st np) 0 b }
                         else mdb_page_copy (ws_mem st np) (ws_mem st mp) psize);
                 lists \<leftarrow> (if level = 0 then map_option (\<lambda>l. (ws_spill_lists st)[0 := Some l]) (drop_spilled l x)
                          else Some (ws_spill_lists st));
                 txn1 \<leftarrow> mdb_page_dirty writemap np pgno txn;
                 fl1 \<leftarrow> raw_flags page;
                 page1 \<leftarrow> store16 page 10 (fl1 OR FLAG_DIRTY);
                 Some (MDB_SUCCESS, Some np,
                   st\<lparr>ws_env := env, ws_txn := txn1, ws_spill_lists := lists, ws_mem := (ws_mem st)(np := page1)\<rparr>)
               }
           }
     }"

section \<open>Touching a page\<close>

text \<open>Cursors that point to the page follow.\<close>

definition adjust_cursor :: "nat \<Rightarrow> nat \<Rightarrow> wcursor \<Rightarrow> wcursor \<Rightarrow> wcursor option" where
  "adjust_cursor mp np mc m2 =
     (if wc_snum m2 < wc_snum mc then Some m2
      else do {
        p \<leftarrow> idl_at (wc_pg m2) (wc_top mc);
        Some (if p = mp then m2\<lparr>wc_pg := (wc_pg m2)[wc_top mc := np]\<rparr> else m2)
      })"

definition touch_done :: "nat \<Rightarrow> nat \<Rightarrow> wcursor \<Rightarrow> write_state \<Rightarrow> (int \<times> wcursor \<times> write_state) option" where
  "touch_done mp np mc st =
     do {
       cs \<leftarrow> those (List.map (adjust_cursor mp np mc) (ws_cursors st));
       Some (MDB_SUCCESS, mc\<lparr>wc_pg := (wc_pg mc)[wc_top mc := np]\<rparr>, st\<lparr>ws_cursors := cs\<rparr>)
     }"

definition touch_copy :: "nat \<Rightarrow> nat \<Rightarrow> mdb_id \<Rightarrow> wcursor \<Rightarrow> write_state \<Rightarrow> (int \<times> wcursor \<times> write_state) option" where
  "touch_copy mp np pgno mc st =
     do {
       page \<leftarrow> mdb_page_copy (ws_mem st np) (ws_mem st mp) (unat (me_psize (ws_env st)));
       page1 \<leftarrow> store64 page 0 pgno;
       fl \<leftarrow> raw_flags page1;
       page2 \<leftarrow> store16 page1 10 (fl OR FLAG_DIRTY);
       touch_done mp np mc (st\<lparr>ws_mem := (ws_mem st)(np := page2)\<rparr>)
     }"

text \<open>The parent page, or the root, is pointed at the new page.\<close>

definition touch_parent :: "mdb_id \<Rightarrow> wcursor \<Rightarrow> write_state \<Rightarrow> write_state option" where
  "touch_parent pgno mc st =
     (if wc_top mc = 0 then Some (st\<lparr>ws_root := pgno\<rparr>)
      else do {
        parent \<leftarrow> idl_at (wc_pg mc) (wc_top mc - 1);
        i \<leftarrow> idl_at (wc_ki mc) (wc_top mc - 1);
        node \<leftarrow> raw_ptr (ws_mem st parent) i;
        page \<leftarrow> SETPGNO (ws_mem st parent) (unat node) pgno;
        Some (st\<lparr>ws_mem := (ws_mem st)(parent := page)\<rparr>)
      })"

text \<open>A page the transaction does not own: a new one takes its place, and the old one is freed.\<close>

definition touch_new ::
  "allocator \<Rightarrow> (nat \<Rightarrow> nat option) \<Rightarrow> free_db \<Rightarrow> nat \<Rightarrow> mdb_id \<Rightarrow> wcursor \<Rightarrow> write_state \<Rightarrow> (int \<times> wcursor \<times> write_state) option" where
  "touch_new malloc pmalloc fd mp old mc st =
     (case mdb_midl_need malloc (wt_free_pgs (ws_txn st)) 1 of
        (rc, l) \<Rightarrow>
          let txn = (ws_txn st)\<lparr>wt_free_pgs := l\<rparr>
          in if rc \<noteq> 0 then Some (rc, mc, fail_state (st\<lparr>ws_txn := txn\<rparr>))
             else do {
               (rc1, page, env1, txn1) \<leftarrow> mdb_page_alloc malloc pmalloc fd 1 (ws_env st) txn;
               case page of
                 None \<Rightarrow> Some (rc1, mc, fail_state (st\<lparr>ws_env := env1, ws_txn := txn1\<rparr>))
               | Some (np, pgno) \<Rightarrow>
                   if old = pgno then None
                   else do {
                     ids \<leftarrow> mdb_midl_xappend (ml_ids (wt_free_pgs txn1)) old;
                     st1 \<leftarrow> touch_parent pgno mc
                       (st\<lparr>ws_env := env1, ws_txn := txn1\<lparr>wt_free_pgs := (wt_free_pgs txn1)\<lparr>ml_ids := ids\<rparr>\<rparr>\<rparr>);
                     touch_copy mp np pgno mc st1
                   }
             })"

text \<open>A page a parent transaction has dirtied keeps its number, but needs a copy of its own.\<close>

definition touch_child ::
  "(nat \<Rightarrow> nat option) \<Rightarrow> nat \<Rightarrow> mdb_id \<Rightarrow> wcursor \<Rightarrow> write_state \<Rightarrow> (int \<times> wcursor \<times> write_state) option" where
  "touch_child pmalloc mp pgno mc st =
     do {
       own \<leftarrow> own_dirty (wt_dirty_list (ws_txn st)) mp pgno;
       case own of
         Inl rc \<Rightarrow> Some (rc, mc\<lparr>wc_live := False\<rparr>, fail_state st)
       | Inr True \<Rightarrow> Some (MDB_SUCCESS, mc, st)
       | Inr False \<Rightarrow> do {
           n \<leftarrow> idl_at (wt_dirty_list (ws_txn st)) 0;
           if unat (mid n) < MDB_IDL_UM_MAX then
             case mdb_page_malloc pmalloc 1 (ws_env st) (ws_txn st) of
               (None, env, txn) \<Rightarrow> Some (ENOMEM, mc, st\<lparr>ws_env := env, ws_txn := txn\<rparr>)
             | (Some np, env, txn) \<Rightarrow> do {
                 (rc, dl) \<leftarrow> mdb_mid2l_insert (wt_dirty_list txn) \<lparr>mid = pgno, mptr = np\<rparr>;
                 if rc = 0 then touch_copy mp np pgno mc (st\<lparr>ws_env := env, ws_txn := txn\<lparr>wt_dirty_list := dl\<rparr>\<rparr>)
                 else None
               }
           else None
         }
     }"

definition mdb_page_touch ::
  "allocator \<Rightarrow> (nat \<Rightarrow> nat option) \<Rightarrow> free_db \<Rightarrow> wcursor \<Rightarrow> write_state \<Rightarrow> (int \<times> wcursor \<times> write_state) option" where
  "mdb_page_touch malloc pmalloc fd mc st =
     do {
       mp \<leftarrow> idl_at (wc_pg mc) (wc_top mc);
       fl \<leftarrow> raw_flags (ws_mem st mp);
       pgno \<leftarrow> raw_page_pgno (ws_mem st mp);
       if \<not> F_ISSET fl FLAG_DIRTY then do {
         (rc, back, st1) \<leftarrow> (if ws_spills st then mdb_page_unspill pmalloc mp st else Some (MDB_SUCCESS, None, st));
         if rc \<noteq> 0 then Some (rc, mc, fail_state st1)
         else case back of
             Some np \<Rightarrow> touch_done mp np mc st1
           | None \<Rightarrow> touch_new malloc pmalloc fd mp pgno mc st1
       }
       else if ws_child st \<and> \<not> F_ISSET fl FLAG_SUBP then touch_child pmalloc mp pgno mc st
       else Some (MDB_SUCCESS, mc, st)
     }"

end
