(* ===== verification/Lmdb_Split.thy ===== *)
theory Lmdb_Split
  imports Lmdb_Touch
begin

text \<open>
  Splitting a page that has no room for a new node (\<open>mdb_page_split\<close>): a right sibling takes the
  nodes from the split point on, the parent gets the separator, and the cursors follow. A parent
  without room is split first. Pages of keys of one size (LEAF2) and databases with duplicates are
  left out.
\<close>

definition MDB_APPEND :: "32 word" where "MDB_APPEND = 0x20000"
definition MDB_SPLIT_REPLACE :: "32 word" where "MDB_SPLIT_REPLACE = 0x40000"

section \<open>New pages\<close>

text \<open>Besides the initialisation this sets the number, which \<open>mdb_page_alloc\<close> does.\<close>

definition mdb_page_new ::
  "allocator \<Rightarrow> (nat \<Rightarrow> nat option) \<Rightarrow> free_db \<Rightarrow> 16 word \<Rightarrow> nat \<Rightarrow> write_state \<Rightarrow> (int \<times> nat option \<times> write_state) option" where
  "mdb_page_new malloc pmalloc fd flags num st =
     do {
       (rc, page, env, txn) \<leftarrow> mdb_page_alloc malloc pmalloc fd num (ws_env st) (ws_txn st);
       let st1 = st\<lparr>ws_env := env, ws_txn := txn\<rparr>;
       case page of
         None \<Rightarrow> Some (rc, None, st1)
       | Some (np, pgno) \<Rightarrow> do {
           p0 \<leftarrow> store64 (ws_mem st np) 0 pgno;
           p1 \<leftarrow> store16 p0 10 (flags OR FLAG_DIRTY);
           p2 \<leftarrow> store16 p1 12 (of_nat PAGEHDRSZ);
           p3 \<leftarrow> store16 p2 14 (ucast (me_psize env));
           if F_ISSET flags FLAG_BRANCH then
             Some (MDB_SUCCESS, Some np, st1\<lparr>ws_mem := (ws_mem st)(np := p3), ws_branch_pages := ws_branch_pages st + 1\<rparr>)
           else if F_ISSET flags FLAG_LEAF then
             Some (MDB_SUCCESS, Some np, st1\<lparr>ws_mem := (ws_mem st)(np := p3), ws_leaf_pages := ws_leaf_pages st + 1\<rparr>)
           else if F_ISSET flags FLAG_OVERFLOW then do {
             p4 \<leftarrow> store_bytes p3 12 (le_chars 4 num);
             Some (MDB_SUCCESS, Some np, st1\<lparr>ws_mem := (ws_mem st)(np := p4), ws_overflow_pages := ws_overflow_pages st + num\<rparr>)
           }
           else Some (MDB_SUCCESS, Some np, st1\<lparr>ws_mem := (ws_mem st)(np := p3)\<rparr>)
         }
     }"

text \<open>
  \<open>mdb_node_add\<close> on a page in memory. Answered with the number of overflow pages it asks for, it
  returns that number, which is not 0; then the pages are allocated, and get the data.
\<close>

definition page_node_add ::
  "allocator \<Rightarrow> (nat \<Rightarrow> nat option) \<Rightarrow> free_db \<Rightarrow> nat \<Rightarrow> nat \<Rightarrow> mdb_val option \<Rightarrow> mdb_val option \<Rightarrow> mdb_id \<Rightarrow> 32 word \<Rightarrow> write_state
     \<Rightarrow> (int \<times> write_state) option" where
  "page_node_add malloc pmalloc fd mp indx key data pgno flags st =
     (let nodemax = me_nodemax (ws_env st); psize = unat (me_psize (ws_env st)) in
      do {
        r \<leftarrow> mdb_node_add nodemax psize 0 (\<lambda>n. Inl (int n)) (ws_mem st mp) indx key data pgno flags;
        if 0 < na_rc r then do {
          (rc, page, st1) \<leftarrow> mdb_page_new malloc pmalloc fd FLAG_OVERFLOW (nat (na_rc r)) st;
          case page of
            None \<Rightarrow> Some (rc, st1)
          | Some ofp \<Rightarrow> do {
              number \<leftarrow> raw_page_pgno (ws_mem st1 ofp);
              d \<leftarrow> data;
              r1 \<leftarrow> mdb_node_add nodemax psize 0 (\<lambda>n. Inr number) (ws_mem st1 mp) indx key data pgno flags;
              content \<leftarrow> (if F_ISSET flags MDB_RESERVE then Some (ws_mem st1 ofp)
                         else do { xs \<leftarrow> load_bytes (mv_data d) 0 (mv_size d); store_bytes (ws_mem st1 ofp) PAGEHDRSZ xs });
              Some (na_rc r1, st1\<lparr>ws_mem := (ws_mem st1)(mp := na_page r1, ofp := content)\<rparr>)
            }
        }
        else
          (let st1 = st\<lparr>ws_mem := (ws_mem st)(mp := na_page r)\<rparr>
           in Some (na_rc r, if na_txn_error r then fail_state st1 else st1))
      })"

section \<open>The split point\<close>

text \<open>The pointers of the page, with a 0 where the new node comes, go to the temporary copy.\<close>

fun split_ptrs :: "bytes \<Rightarrow> bytes \<Rightarrow> nat \<Rightarrow> nat \<Rightarrow> nat \<Rightarrow> nat \<Rightarrow> bytes option" where
  "split_ptrs mp copy newindx i j 0 = Some copy"
| "split_ptrs mp copy newindx i j (Suc k) =
     do {
       (copy1, j1) \<leftarrow> (if i = newindx then map_option (\<lambda>c. (c, j + 1)) (store16 copy (PAGEHDRSZ + 2 * j) 0) else Some (copy, j));
       w \<leftarrow> raw_ptr mp i;
       copy2 \<leftarrow> store16 copy1 (PAGEHDRSZ + 2 * j1) w;
       split_ptrs mp copy2 newindx (i + 1) (j1 + 1) k
     }"

definition split_prepare :: "bytes \<Rightarrow> bytes \<Rightarrow> nat \<Rightarrow> nat \<Rightarrow> nat \<Rightarrow> bytes option" where
  "split_prepare mp copy psize nkeys newindx =
     do {
       pgno \<leftarrow> raw_page_pgno mp;
       fl \<leftarrow> raw_flags mp;
       c0 \<leftarrow> store64 copy 0 pgno;
       c1 \<leftarrow> store16 c0 10 fl;
       c2 \<leftarrow> store16 c1 12 (of_nat PAGEHDRSZ);
       c3 \<leftarrow> store16 c2 14 (of_nat psize);
       split_ptrs mp c3 newindx 0 0 nkeys
     }"

text \<open>
  What the nodes add up to, from one end; \<open>split\<close> is the point halfway, and \<open>xs\<close> the indices to
  look at, at the last of which the search ends in any case.
\<close>

definition split_size :: "bool \<Rightarrow> bytes \<Rightarrow> bytes \<Rightarrow> nat \<Rightarrow> nat \<Rightarrow> nat \<Rightarrow> nat \<Rightarrow> nat option" where
  "split_size leaf mp copy newindx nsize i psize =
     (if i = newindx then Some (psize + nsize)
      else do {
        w \<leftarrow> raw_ptr copy i;
        k \<leftarrow> node_ksize mp (unat w);
        d \<leftarrow> node_payload leaf mp (unat w);
        Some (EVEN (psize + NODESIZE + k + 2 + d))
      })"

fun point_loop :: "(nat \<Rightarrow> nat \<Rightarrow> nat option) \<Rightarrow> nat \<Rightarrow> bool \<Rightarrow> nat \<Rightarrow> nat \<Rightarrow> nat list \<Rightarrow> nat option" where
  "point_loop grow pmax down split psize [] = Some split"
| "point_loop grow pmax down split psize (i # xs) =
     do {
       psize \<leftarrow> grow i psize;
       if pmax < psize \<or> xs = [] then Some (if down then i + 1 else i)
       else point_loop grow pmax down split psize xs
     }"

definition split_point :: "bool \<Rightarrow> bytes \<Rightarrow> bytes \<Rightarrow> nat \<Rightarrow> nat \<Rightarrow> nat \<Rightarrow> nat \<Rightarrow> nat option" where
  "split_point leaf mp copy nkeys newindx nsize pmax =
     (let split = (nkeys + 1) div 2;
          grow = split_size leaf mp copy newindx nsize
      in if nkeys < 20 \<or> pmax div 16 < nsize \<or> nkeys \<le> newindx then
           if newindx \<le> split \<or> nkeys \<le> newindx then
             point_loop grow pmax False split 0 [0..<if nkeys \<le> newindx then nkeys else split + 1 + (if leaf then 1 else 0)]
           else point_loop grow pmax True split 0 (rev [split..<nkeys + 1])
         else Some split)"

definition split_key :: "bytes \<Rightarrow> bytes \<Rightarrow> nat \<Rightarrow> nat \<Rightarrow> mdb_val \<Rightarrow> mdb_val option" where
  "split_key mp copy split newindx newkey =
     (if split = newindx then Some newkey
      else do {
        w \<leftarrow> raw_ptr copy split;
        k \<leftarrow> node_ksize mp (unat w);
        Some \<lparr>mv_size = k, mv_data = drop (unat w + NODESIZE) mp\<rparr>
      })"

section \<open>A new root\<close>

text \<open>
  A page at the bottom of the stack gets a parent, a new root whose only child it is. The results
  are the code, the cursor, the depth before (0 when there is no new root), and the state.
\<close>

definition push_root :: "nat \<Rightarrow> wcursor \<Rightarrow> wcursor" where
  "push_root pp mc = mc\<lparr>wc_pg := pp # take (wc_snum mc) (wc_pg mc) @ drop (wc_snum mc + 1) (wc_pg mc),
     wc_ki := 0 # take (wc_snum mc) (wc_ki mc) @ drop (wc_snum mc + 1) (wc_ki mc)\<rparr>"

definition undo_push :: "wcursor \<Rightarrow> wcursor" where
  "undo_push mc = mc\<lparr>wc_pg := (wc_pg mc)[0 := wc_pg mc ! 1], wc_ki := (wc_ki mc)[0 := wc_ki mc ! 1]\<rparr>"

definition split_root ::
  "allocator \<Rightarrow> (nat \<Rightarrow> nat option) \<Rightarrow> free_db \<Rightarrow> nat \<Rightarrow> wcursor \<Rightarrow> write_state \<Rightarrow> (int \<times> wcursor \<times> nat \<times> write_state) option" where
  "split_root malloc pmalloc fd mp mc st =
     (if 0 < wc_top mc then Some (MDB_SUCCESS, mc, 0, st)
      else do {
        (rc, page, st1) \<leftarrow> mdb_page_new malloc pmalloc fd FLAG_BRANCH 1 st;
        case page of
          None \<Rightarrow> Some (rc, mc, 0, st1)
        | Some pp \<Rightarrow> do {
            root \<leftarrow> raw_page_pgno (ws_mem st1 pp);
            child \<leftarrow> raw_page_pgno (ws_mem st1 mp);
            (rc, st2) \<leftarrow> page_node_add malloc pmalloc fd pp 0 None None child 0 st1;
            if rc \<noteq> MDB_SUCCESS then Some (rc, undo_push (push_root pp mc), 0, st2\<lparr>ws_root := child\<rparr>)
            else Some (MDB_SUCCESS, (push_root pp mc)\<lparr>wc_snum := wc_snum mc + 1, wc_top := wc_top mc + 1\<rparr>, ws_depth st,
              st2\<lparr>ws_root := root, ws_depth := ws_depth st + 1\<rparr>)
          }
      })"

section \<open>Moving the nodes\<close>

text \<open>The key, data, page number and flags of a node of the page.\<close>

definition moved_node :: "bool \<Rightarrow> bytes \<Rightarrow> nat \<Rightarrow> (mdb_val \<times> mdb_val option \<times> mdb_id \<times> 32 word) option" where
  "moved_node leaf mp node =
     do {
       k \<leftarrow> node_ksize mp node;
       fl \<leftarrow> node_flags mp node;
       let key = \<lparr>mv_size = k, mv_data = drop (node + NODESIZE) mp\<rparr>;
       if leaf then do {
         n \<leftarrow> NODEDSZ mp node;
         Some (key, Some \<lparr>mv_size = n, mv_data = drop (node + NODESIZE + k) mp\<rparr>, 0, ucast fl)
       }
       else do { pgno \<leftarrow> raw_pgno mp node; Some (key, None, pgno, ucast fl) }
     }"

text \<open>
  From \<open>split\<close> on the nodes go to the right page, then those before it to the copy. \<open>here\<close> is the
  page of the round and \<open>at\<close> the index of the new node on its page; the results are the code, these
  two and the state. There is one unit of fuel per node.
\<close>

fun move_loop ::
  "(nat \<Rightarrow> nat \<Rightarrow> mdb_val \<Rightarrow> mdb_val option \<Rightarrow> mdb_id \<Rightarrow> 32 word \<Rightarrow> write_state \<Rightarrow> (int \<times> write_state) option)
     \<Rightarrow> bool \<Rightarrow> nat \<Rightarrow> nat \<Rightarrow> nat \<Rightarrow> nat \<Rightarrow> nat \<Rightarrow> mdb_val \<times> mdb_val option \<times> mdb_id \<times> 32 word
     \<Rightarrow> nat \<Rightarrow> nat \<Rightarrow> nat \<Rightarrow> nat \<Rightarrow> nat \<Rightarrow> write_state \<Rightarrow> (int \<times> nat \<times> nat \<times> write_state) option" where
  "move_loop add leaf mp copy nkeys newindx split new 0 i j here at st = None"
| "move_loop add leaf mp copy nkeys newindx split new (Suc fuel) i j here at st =
     do {
       (key, data, pgno, flags) \<leftarrow> (if i = newindx then Some new
         else do { w \<leftarrow> raw_ptr (ws_mem st copy) i; moved_node leaf (ws_mem st mp) (unat w) });
       let at = (if i = newindx then j else at);
       let key = (if \<not> leaf \<and> j = 0 then key\<lparr>mv_size := 0\<rparr> else key);
       (rc, st1) \<leftarrow> add here j key data pgno flags st;
       if rc \<noteq> MDB_SUCCESS then Some (rc, here, at, st1)
       else
         let (i1, j1, here1) = (if i = nkeys then (0, 0, copy) else (i + 1, j + 1, here))
         in if i1 = split then Some (MDB_SUCCESS, here1, at, st1)
            else move_loop add leaf mp copy nkeys newindx split new fuel i1 j1 here1 at st1
     }"

text \<open>The page gets the pointers, the bounds and the nodes of the copy.\<close>

fun ptrs_back :: "bytes \<Rightarrow> bytes \<Rightarrow> nat \<Rightarrow> nat \<Rightarrow> bytes option" where
  "ptrs_back mp copy i 0 = Some mp"
| "ptrs_back mp copy i (Suc k) =
     do { w \<leftarrow> raw_ptr copy i; mp1 \<leftarrow> store16 mp (PAGEHDRSZ + 2 * i) w; ptrs_back mp1 copy (i + 1) k }"

definition copy_back :: "bytes \<Rightarrow> bytes \<Rightarrow> nat \<Rightarrow> bytes option" where
  "copy_back mp copy psize =
     do {
       n \<leftarrow> raw_numkeys copy;
       mp1 \<leftarrow> ptrs_back mp copy 0 n;
       lower \<leftarrow> raw_lower copy;
       upper \<leftarrow> raw_upper copy;
       mp2 \<leftarrow> store16 mp1 12 lower;
       mp3 \<leftarrow> store16 mp2 14 upper;
       if n = 0 then None
       else do {
         dst \<leftarrow> raw_ptr mp3 (n - 1);
         src \<leftarrow> raw_ptr copy (n - 1);
         xs \<leftarrow> load_bytes copy (unat src) (psize - unat upper);
         store_bytes mp3 (unat dst) xs
       }
     }"

section \<open>The cursors\<close>

text \<open>
  The other cursors: a new root is pushed below those on the page; those behind the split point go
  to the right page, with the path of \<open>mn\<close>; those further on in the parent move up one, unless the
  parent was split, which moved them already. \<open>nkeys\<close> is the number of nodes left on the page.
\<close>

definition cursor_root :: "nat \<Rightarrow> nat \<Rightarrow> nat \<Rightarrow> wcursor \<Rightarrow> wcursor" where
  "cursor_root pp new_root nkeys m3 =
     m3\<lparr>wc_pg := pp # take (new_root + 1) (wc_pg m3) @ drop (new_root + 2) (wc_pg m3),
       wc_ki := (if nkeys \<le> wc_ki m3 ! 0 then 1 else 0) # take (new_root + 1) (wc_ki m3) @ drop (new_root + 2) (wc_ki m3),
       wc_snum := wc_snum m3 + 1, wc_top := wc_top m3 + 1\<rparr>"

definition cursor_split ::
  "nat \<Rightarrow> nat \<Rightarrow> nat \<Rightarrow> nat \<Rightarrow> bool \<Rightarrow> bool \<Rightarrow> nat \<Rightarrow> wcursor \<Rightarrow> wcursor \<Rightarrow> wcursor \<Rightarrow> wcursor option" where
  "cursor_split mp rp nkeys newindx replace did_split new_root mc mn m3 =
     (if \<not> wc_live m3 then Some m3
      else do {
        bottom \<leftarrow> idl_at (wc_pg m3) 0;
        if 0 < new_root \<and> bottom \<noteq> mp then Some m3
        else do {
          let m3 = (if 0 < new_root then cursor_root (wc_pg mc ! 0) new_root nkeys m3 else m3);
          let top = wc_top mc;
          here \<leftarrow> idl_at (wc_pg m3) top;
          i \<leftarrow> idl_at (wc_ki m3) top;
          above \<leftarrow> idl_at (wc_pg m3) (top - 1);
          up \<leftarrow> idl_at (wc_ki m3) (top - 1);
          if top \<le> wc_top m3 \<and> here = mp then
            (let i = (if newindx \<le> i \<and> \<not> replace then i + 1 else i)
             in if nkeys \<le> i then
                  Some (m3\<lparr>wc_pg := (take top (wc_pg mn) @ drop top (wc_pg m3))[top := rp],
                    wc_ki := (take top (wc_ki mn) @ drop top (wc_ki m3))[top := i - nkeys]\<rparr>)
                else Some (m3\<lparr>wc_ki := (wc_ki m3)[top := i]\<rparr>))
          else if \<not> did_split \<and> top - 1 \<le> wc_top m3 \<and> above = wc_pg mc ! (top - 1) \<and> wc_ki mc ! (top - 1) \<le> up then
            Some (m3\<lparr>wc_ki := (wc_ki m3)[top - 1 := up + 1]\<rparr>)
          else Some m3
        }
      })"

section \<open>The left sibling\<close>

text \<open>
  The page with a number, in a transaction without a parent: a spilled page is in the map again, a
  dirty one in the block its list gives.
\<close>

definition raw_page_get :: "mdb_id \<Rightarrow> write_state \<Rightarrow> (int \<times> nat option \<times> write_state) option" where
  "raw_page_get pgno st =
     (let mapped = me_map (ws_env st) + unat (me_psize (ws_env st)) * unat pgno in
      if ws_child st then None
      else do {
        writemap \<leftarrow> Some (F_ISSET (me_flags (ws_env st)) MDB_WRITEMAP);
        spilled \<leftarrow> (if writemap then Some False else in_spilled (case ws_spill_lists st of [] \<Rightarrow> None | l # _ \<Rightarrow> l) pgno);
        own \<leftarrow> (if writemap \<or> spilled then Some None else in_dirty (wt_dirty_list (ws_txn st)) pgno);
        case own of
          Some p \<Rightarrow> Some (MDB_SUCCESS, Some p, st)
        | None \<Rightarrow>
            if spilled \<or> pgno < wt_next_pgno (ws_txn st) then Some (MDB_SUCCESS, Some mapped, st)
            else Some (MDB_PAGE_NOTFOUND, None, fail_state st)
      })"

text \<open>\<open>mdb_cursor_sibling\<close> on the pages in memory; it recurs once per level.\<close>

fun raw_sibling :: "nat \<Rightarrow> bool \<Rightarrow> wcursor \<Rightarrow> write_state \<Rightarrow> (int \<times> wcursor \<times> write_state) option" where
  "raw_sibling 0 move_right mc st = None"
| "raw_sibling (Suc fuel) move_right mc st =
     (if wc_snum mc < 2 then Some (MDB_NOTFOUND, mc, st)
      else do {
        let mc = mc\<lparr>wc_snum := wc_snum mc - 1, wc_top := wc_top mc - 1\<rparr>;
        let top = wc_top mc;
        p \<leftarrow> idl_at (wc_pg mc) top;
        i \<leftarrow> idl_at (wc_ki mc) top;
        n \<leftarrow> raw_numkeys (ws_mem st p);
        (rc, mc1, st1) \<leftarrow> (if (if move_right then n \<le> i + 1 else i = 0) then raw_sibling fuel move_right mc st
          else Some (MDB_SUCCESS, mc\<lparr>wc_ki := (wc_ki mc)[top := if move_right then i + 1 else i - 1]\<rparr>, st));
        if rc \<noteq> MDB_SUCCESS then Some (rc, mc1\<lparr>wc_snum := wc_snum mc1 + 1, wc_top := wc_top mc1 + 1\<rparr>, st1)
        else do {
          p1 \<leftarrow> idl_at (wc_pg mc1) top;
          i1 \<leftarrow> idl_at (wc_ki mc1) top;
          fl \<leftarrow> raw_flags (ws_mem st1 p1);
          w \<leftarrow> raw_ptr (ws_mem st1 p1) i1;
          pgno \<leftarrow> raw_pgno (ws_mem st1 p1) (unat w);
          if \<not> F_ISSET fl FLAG_BRANCH then None
          else do {
            (rc, page, st2) \<leftarrow> raw_page_get pgno st1;
            case page of
              None \<Rightarrow> Some (rc, mc1\<lparr>wc_live := False\<rparr>, st2)
            | Some mp \<Rightarrow> do {
                m \<leftarrow> raw_numkeys (ws_mem st2 mp);
                Some (MDB_SUCCESS, mc1\<lparr>wc_pg := (wc_pg mc1)[top + 1 := mp], wc_ki := (wc_ki mc1)[top + 1 := if move_right then 0 else m - 1],
                  wc_snum := wc_snum mc1 + 1, wc_top := wc_top mc1 + 1\<rparr>, st2)
              }
          }
        }
      })"

section \<open>Splitting the parent first\<close>

text \<open>
  A parent without room is split by \<open>again\<close>, with the separator as its new node: \<open>mn\<close>, one level up,
  is the cursor of that split, and \<open>mc\<close> is one of the others. If the page has moved to another parent
  then, \<open>mc\<close> is put on the left neighbour of the right page.
\<close>

type_synonym splitter = "mdb_val \<Rightarrow> mdb_val option \<Rightarrow> mdb_id \<Rightarrow> 32 word \<Rightarrow> wcursor \<Rightarrow> write_state \<Rightarrow> (int \<times> wcursor \<times> write_state) option"

definition rejoin :: "wcursor \<Rightarrow> wcursor \<Rightarrow> write_state \<Rightarrow> (wcursor \<times> write_state) option" where
  "rejoin mn mc st =
     (let ptop = wc_top mc - 1 in
      do {
        right \<leftarrow> idl_at (wc_pg mn) ptop;
        i \<leftarrow> idl_at (wc_ki mn) ptop;
        left \<leftarrow> idl_at (wc_pg mc) ptop;
        k \<leftarrow> idl_at (wc_ki mc) ptop;
        n \<leftarrow> raw_numkeys (ws_mem st left);
        if right \<noteq> left \<and> n \<le> k then
          (let mc1 = mc\<lparr>wc_pg := take (ptop + 1) (wc_pg mn) @ drop (ptop + 1) (wc_pg mc),
             wc_ki := take ptop (wc_ki mn) @ drop ptop ((wc_ki mc)[ptop := i - 1])\<rparr>
           in if i \<noteq> 0 then Some (mc1, st)
              else do { (rc, mc2, st1) \<leftarrow> raw_sibling (wc_snum mc1) False mc1 st; Some (mc2, st1) })
        else Some (mc, st)
      })"

definition split_parent ::
  "splitter \<Rightarrow> mdb_val \<Rightarrow> mdb_id \<Rightarrow> wcursor \<Rightarrow> wcursor \<Rightarrow> write_state \<Rightarrow> (int \<times> wcursor \<times> wcursor \<times> write_state) option" where
  "split_parent again sepkey number mn mc st =
     do {
       (rc, mn1, st1) \<leftarrow> again sepkey None number 0 (mn\<lparr>wc_snum := wc_snum mn - 1, wc_top := wc_top mn - 1\<rparr>)
         (st\<lparr>ws_cursors := mc # ws_cursors st\<rparr>);
       case ws_cursors st1 of
         [] \<Rightarrow> None
       | mc1 # cs \<Rightarrow>
           (let st2 = st1\<lparr>ws_cursors := cs\<rparr> in
            if rc \<noteq> MDB_SUCCESS then Some (rc, mn1, mc1, st2)
            else do { (mc2, st3) \<leftarrow> rejoin mn1 mc1 st2; Some (MDB_SUCCESS, mn1, mc2, st3) })
     }"

section \<open>Splitting\<close>

text \<open>
  The cursor after the nodes have moved: on the page that has the new node. One step to the right may
  leave the parent, for the one of the right page.
\<close>

definition cursor_after :: "nat \<Rightarrow> nat \<Rightarrow> nat \<Rightarrow> nat \<Rightarrow> nat \<Rightarrow> wcursor \<Rightarrow> wcursor" where
  "cursor_after mp rp newindx split at mc =
     (let top = wc_top mc; mc = mc\<lparr>wc_ki := (wc_ki mc)[top := at]\<rparr>
      in if newindx < split then mc\<lparr>wc_pg := (wc_pg mc)[top := mp]\<rparr>
         else mc\<lparr>wc_pg := (wc_pg mc)[top := rp], wc_ki := (wc_ki mc)[top - 1 := wc_ki mc ! (top - 1) + 1]\<rparr>)"

definition cursor_valid :: "(nat \<Rightarrow> bytes) \<Rightarrow> wcursor \<Rightarrow> wcursor \<Rightarrow> wcursor option" where
  "cursor_valid mem mn mc =
     (let top = wc_top mc in
      do {
        right \<leftarrow> idl_at (wc_pg mn) (top - 1);
        left \<leftarrow> idl_at (wc_pg mc) (top - 1);
        k \<leftarrow> idl_at (wc_ki mc) (top - 1);
        n \<leftarrow> raw_numkeys (mem left);
        Some (if right \<noteq> left \<and> n \<le> k
          then mc\<lparr>wc_pg := take top (wc_pg mn) @ drop top (wc_pg mc), wc_ki := take top (wc_ki mn) @ drop top (wc_ki mc)\<rparr>
          else mc)
      })"

text \<open>
  With the separator in the parent. \<open>copy\<close> is None when the new node goes to the right page alone
  (\<open>MDB_APPEND\<close>).
\<close>

definition split_move ::
  "allocator \<Rightarrow> (nat \<Rightarrow> nat option) \<Rightarrow> free_db \<Rightarrow> bool \<Rightarrow> nat \<Rightarrow> nat \<Rightarrow> nat option \<Rightarrow> nat \<Rightarrow> nat \<Rightarrow> nat
     \<Rightarrow> mdb_val \<times> mdb_val option \<times> mdb_id \<times> 32 word \<Rightarrow> wcursor \<Rightarrow> wcursor \<Rightarrow> write_state \<Rightarrow> (int \<times> wcursor \<times> write_state) option" where
  "split_move malloc pmalloc fd leaf mp rp copy nkeys newindx split new mn mc st =
     (let top = wc_top mc in
      case copy of
        None \<Rightarrow>
          (case new of (key, data, pgno, flags) \<Rightarrow> do {
             (rc, st1) \<leftarrow> page_node_add malloc pmalloc fd rp 0 (Some key) data pgno flags st;
             Some (rc, mc\<lparr>wc_pg := (wc_pg mc)[top := rp],
               wc_ki := if rc \<noteq> MDB_SUCCESS then (wc_ki mc)[top := 0] else take top (wc_ki mn) @ drop top ((wc_ki mc)[top := 0])\<rparr>, st1)
           })
      | Some copy \<Rightarrow> do {
          (rc, here, at, st1) \<leftarrow> move_loop (\<lambda>page j key. page_node_add malloc pmalloc fd page j (Some key)) leaf mp copy nkeys newindx split new
            (nkeys + 1) split 0 rp (wc_ki mc ! top) st;
          if rc \<noteq> MDB_SUCCESS then Some (rc, mc\<lparr>wc_pg := (wc_pg mc)[top := here], wc_ki := (wc_ki mc)[top := at]\<rparr>, st1)
          else do {
            mp1 \<leftarrow> copy_back (ws_mem st1 mp) (ws_mem st1 copy) (unat (me_psize (ws_env st1)));
            let st2 = st1\<lparr>ws_mem := (ws_mem st1)(mp := mp1)\<rparr>;
            let mc1 = cursor_after mp rp newindx split at mc;
            mc2 \<leftarrow> (if newindx < split then Some mc1 else cursor_valid (ws_mem st2) mn mc1);
            Some (MDB_SUCCESS, mc2, st2)
          }
        })"

text \<open>Moving the nodes and the cursors; \<open>copy\<close> is freed at the end, whatever the outcome.\<close>

definition split_free :: "nat option \<Rightarrow> write_state \<Rightarrow> write_state" where
  "split_free copy st = (case copy of None \<Rightarrow> st | Some c \<Rightarrow> st\<lparr>ws_env := mdb_page_free c (ws_env st)\<rparr>)"

definition split_finish ::
  "allocator \<Rightarrow> (nat \<Rightarrow> nat option) \<Rightarrow> free_db \<Rightarrow> bool \<Rightarrow> nat \<Rightarrow> nat \<Rightarrow> nat option \<Rightarrow> nat \<Rightarrow> nat \<Rightarrow> nat
     \<Rightarrow> mdb_val \<times> mdb_val option \<times> mdb_id \<times> 32 word \<Rightarrow> bool \<Rightarrow> nat \<Rightarrow> wcursor \<Rightarrow> wcursor \<Rightarrow> write_state \<Rightarrow> (int \<times> wcursor \<times> write_state) option" where
  "split_finish malloc pmalloc fd leaf mp rp copy nkeys newindx split new did_split new_root mn mc st =
     do {
       (rc, mc1, st1) \<leftarrow> split_move malloc pmalloc fd leaf mp rp copy nkeys newindx split new mn mc st;
       if rc \<noteq> MDB_SUCCESS then Some (rc, mc1, fail_state (split_free copy st1))
       else do {
         n \<leftarrow> raw_numkeys (ws_mem st1 mp);
         cs \<leftarrow> those (List.map (cursor_split mp rp n newindx (F_ISSET (snd (snd (snd new))) MDB_SPLIT_REPLACE) did_split new_root mc1 mn)
           (ws_cursors st1));
         Some (MDB_SUCCESS, mc1, split_free copy (st1\<lparr>ws_cursors := cs\<rparr>))
       }
     }"

text \<open>From the separator on.\<close>

definition split_link ::
  "allocator \<Rightarrow> (nat \<Rightarrow> nat option) \<Rightarrow> free_db \<Rightarrow> splitter \<Rightarrow> bool \<Rightarrow> nat \<Rightarrow> nat \<Rightarrow> nat option \<Rightarrow> nat \<Rightarrow> nat \<Rightarrow> nat
     \<Rightarrow> mdb_val \<times> mdb_val option \<times> mdb_id \<times> 32 word \<Rightarrow> mdb_val \<Rightarrow> nat \<Rightarrow> wcursor \<Rightarrow> wcursor \<Rightarrow> write_state
     \<Rightarrow> (int \<times> wcursor \<times> write_state) option" where
  "split_link malloc pmalloc fd again leaf mp rp copy nkeys newindx split new sepkey new_root mn mc st =
     (let parent = wc_pg mn ! (wc_top mn - 1)
      in do {
        left \<leftarrow> SIZELEFT (ws_mem st parent);
        number \<leftarrow> raw_page_pgno (ws_mem st rp);
        let did_split = (unat left < mdb_branch_size (Some sepkey));
        (rc, mn1, mc1, st1) \<leftarrow> (if did_split then split_parent again sepkey number mn mc st
          else do {
            (rc, st1) \<leftarrow> page_node_add malloc pmalloc fd parent (wc_ki mn ! (wc_top mn - 1)) (Some sepkey) None number 0 st;
            Some (rc, mn, mc, st1)
          });
        if rc \<noteq> MDB_SUCCESS then Some (rc, mc1, fail_state (split_free copy st1))
        else split_finish malloc pmalloc fd leaf mp rp copy nkeys newindx split new did_split new_root mn1 mc1 st1
      })"

text \<open>The copy, the split point and the separator.\<close>

definition split_copy ::
  "allocator \<Rightarrow> (nat \<Rightarrow> nat \<Rightarrow> nat option) \<Rightarrow> free_db \<Rightarrow> splitter \<Rightarrow> bool \<Rightarrow> nat \<Rightarrow> nat \<Rightarrow> nat \<Rightarrow> nat
     \<Rightarrow> mdb_val \<times> mdb_val option \<times> mdb_id \<times> 32 word \<Rightarrow> nat \<Rightarrow> wcursor \<Rightarrow> wcursor \<Rightarrow> write_state \<Rightarrow> (int \<times> wcursor \<times> write_state) option" where
  "split_copy malloc pmalloc fd again leaf mp rp nkeys newindx new new_root mn mc st =
     (case new of (newkey, newdata, newpgno, nflags) \<Rightarrow>
        let psize = unat (me_psize (ws_env st)) in
        do {
          nsize \<leftarrow> (if leaf then map_option (mdb_leaf_size (me_nodemax (ws_env st)) newkey) newdata
                   else Some (mdb_branch_size (Some newkey)));
          case mdb_page_malloc (pmalloc 2) 1 (ws_env st) (ws_txn st) of
            (None, env, txn) \<Rightarrow> Some (ENOMEM, mc, fail_state (st\<lparr>ws_env := env, ws_txn := txn\<rparr>))
          | (Some copy, env, txn) \<Rightarrow> do {
              c \<leftarrow> split_prepare (ws_mem st mp) (ws_mem st copy) psize nkeys newindx;
              split \<leftarrow> split_point leaf (ws_mem st mp) c nkeys newindx (EVEN nsize) (psize - PAGEHDRSZ);
              sepkey \<leftarrow> split_key (ws_mem st mp) c split newindx newkey;
              split_link malloc (pmalloc 3) fd again leaf mp rp (Some copy) nkeys newindx split new sepkey new_root mn mc
                (st\<lparr>ws_env := env, ws_txn := txn, ws_mem := (ws_mem st)(copy := c)\<rparr>)
            }
        })"

text \<open>
  One level. Memory is asked for up to four times, for the right page, a new root, the copy and an
  overflow page of the new node; \<open>pmalloc k\<close> has the answers for the \<open>k\<close>-th.
\<close>

definition split_page ::
  "allocator \<Rightarrow> (nat \<Rightarrow> nat \<Rightarrow> nat option) \<Rightarrow> free_db \<Rightarrow> splitter \<Rightarrow> splitter" where
  "split_page malloc pmalloc fd again newkey newdata newpgno nflags mc st =
     do {
       mp \<leftarrow> idl_at (wc_pg mc) (wc_top mc);
       newindx \<leftarrow> idl_at (wc_ki mc) (wc_top mc);
       nkeys \<leftarrow> raw_numkeys (ws_mem st mp);
       fl \<leftarrow> raw_flags (ws_mem st mp);
       let leaf = F_ISSET fl FLAG_LEAF;
       let new = (newkey, newdata, newpgno, nflags);
       (rc, right, st1) \<leftarrow> mdb_page_new malloc (pmalloc 0) fd fl 1 st;
       case right of
         None \<Rightarrow> Some (rc, mc, st1)
       | Some rp \<Rightarrow> do {
           pad \<leftarrow> load16 (ws_mem st1 mp) 8;
           page \<leftarrow> store16 (ws_mem st1 rp) 8 pad;
           (rc, mc1, new_root, st2) \<leftarrow> split_root malloc (pmalloc 1) fd mp mc (st1\<lparr>ws_mem := (ws_mem st1)(rp := page)\<rparr>);
           if rc \<noteq> MDB_SUCCESS then Some (rc, mc1, fail_state st2)
           else do {
             let top = wc_top mc1;
             up \<leftarrow> idl_at (wc_ki mc1) (top - 1);
             let mn = mc1\<lparr>wc_pg := (wc_pg mc1)[top := rp], wc_ki := (wc_ki mc1)[top - 1 := up + 1]\<rparr>;
             if F_ISSET nflags MDB_APPEND then
               split_link malloc (pmalloc 3) fd again leaf mp rp None 0 newindx newindx new newkey new_root (mn\<lparr>wc_ki := (wc_ki mn)[top := 0]\<rparr>) mc1 st2
             else split_copy malloc pmalloc fd again leaf mp rp nkeys newindx new new_root mn mc1 st2
           }
         }
     }"

text \<open>
  A page is split at most once per level, and once more for a new root; a split of the parent asks
  for its memory after that of the page.
\<close>

fun split_levels :: "allocator \<Rightarrow> free_db \<Rightarrow> nat \<Rightarrow> (nat \<Rightarrow> nat \<Rightarrow> nat option) \<Rightarrow> splitter" where
  "split_levels malloc fd 0 pmalloc newkey newdata newpgno nflags mc st = None"
| "split_levels malloc fd (Suc fuel) pmalloc newkey newdata newpgno nflags mc st =
     split_page malloc pmalloc fd (split_levels malloc fd fuel (\<lambda>k. pmalloc (k + 4))) newkey newdata newpgno nflags mc st"

definition mdb_page_split :: "allocator \<Rightarrow> (nat \<Rightarrow> nat \<Rightarrow> nat option) \<Rightarrow> free_db \<Rightarrow> splitter" where
  "mdb_page_split malloc pmalloc fd newkey newdata newpgno nflags mc st =
     split_levels malloc fd (wc_snum mc + 1) pmalloc newkey newdata newpgno nflags mc st"

end
