(* ===== verification/Lmdb_Touch_Props.thy ===== *)
theory Lmdb_Touch_Props
  imports Lmdb_Touch Lmdb_Layout Lmdb_Writer Lmdb_Pages_Props
begin

text \<open>
  A copy of a page has its nodes; pointing a branch node at another page changes that node only.
\<close>

section \<open>Bytes one by one\<close>

lemma store_bytes_nth:
  assumes "store_bytes b ofs xs = Some b'" and "k < length b"
  shows "b' ! k = (if ofs \<le> k \<and> k < ofs + length xs then xs ! (k - ofs) else b ! k)"
  using assms by (auto simp: store_bytes_def nth_append min_def split: if_splits)

lemma load_bytes_nth: "load_bytes b ofs n = Some xs \<Longrightarrow> k < n \<Longrightarrow> xs ! k = b ! (ofs + k)"
  by (auto simp: load_bytes_def split: if_splits)

lemma changed_within_nth:
  assumes "length p' = length p" and "\<And>k. k < length p \<Longrightarrow> k < a \<or> c \<le> k \<Longrightarrow> p' ! k = p ! k"
  shows "changed_within a c p p'"
proof -
  have "take m (drop ofs p') = take m (drop ofs p)" if "ofs + m \<le> length p" "ofs + m \<le> a \<or> c \<le> ofs" for ofs m
    using that assms by (intro nth_equalityI) auto
  then show ?thesis using assms(1) by (auto simp: changed_within_def load_bytes_def)
qed

lemma copied_nth:
  assumes "load_bytes src ofs n = Some xs" and "store_bytes b ofs xs = Some b'" and "k < length b"
  shows "b' ! k = (if ofs \<le> k \<and> k < ofs + n then src ! k else b ! k)"
  using store_bytes_nth [OF assms(2,3)] load_bytes_nth [OF assms(1), of "k - ofs"] load_bytes_length [OF assms(1)] by auto

section \<open>Copying\<close>

lemma round_down_8: "unat (w AND - 8) = unat w div 8 * 8" for w :: "16 word"
proof -
  have "(- 8 :: 16 word) = NOT (mask 3)" by (simp add: mask_eq_exp_minus_1)
  then have "w AND - 8 = push_bit 3 (drop_bit 3 w)" by (auto simp: bit_eq_iff bit_simps)
  then have sum: "(w AND - 8) + take_bit 3 w = w" using bits_ident [of 3 w] by simp
  have "w AND - 8 \<le> w" by (rule word_and_le2)
  then have "unat (w AND - 8) + unat (take_bit 3 w) = unat w"
    using sum by (metis add_diff_cancel_left' le_add_diff_inverse unat_sub word_le_nat_alt)
  moreover have "unat (take_bit 3 w) = take_bit 3 (unat w)" by (simp only: unsigned_take_bit_eq)
  then have "unat (take_bit 3 w) = unat w mod 8" by (simp add: take_bit_eq_mod)
  moreover have "unat w div 8 * 8 + unat w mod 8 = unat w" by (rule div_mult_mod_eq)
  ultimately show ?thesis by linarith
qed

lemma page_copy_layout:
  assumes L: "layout leaf psize src up regs" and dst: "length dst = psize"
  shows "\<exists>dst'. mdb_page_copy dst src psize = Some dst' \<and> changed_within (PAGEHDRSZ + 2 * length regs) up src dst'"
proof -
  let ?low = "PAGEHDRSZ + 2 * length regs"
  obtain fl where P: "length src = psize" "psize \<le> 2 ^ 15" "raw_flags src = Some fl" "\<not> F_ISSET fl FLAG_LEAF2"
    "raw_lower src = Some (of_nat ?low)" "raw_upper src = Some (of_nat up)" "?low \<le> up" "up \<le> psize"
    using L by (rule layoutE)
  let ?unused = "(of_nat up - of_nat ?low :: 16 word) AND - 8"
  have n: "unat (of_nat up :: 16 word) = up" "unat (of_nat ?low :: 16 word) = ?low"
    using P(2,7,8) by (intro unat_small; simp)+
  have diff: "unat (of_nat up - of_nat ?low :: 16 word) = up - ?low"
    using P(7) n by (subst unat_sub) (simp_all only: word_le_nat_alt)
  have unused: "unat ?unused = (up - ?low) div 8 * 8" unfolding round_down_8 diff ..
  have copy: "mdb_page_copy dst src psize = (if ?unused \<noteq> 0 then do {
      let up = unat ((of_nat up :: 16 word) AND (- 8));
      low \<leftarrow> load_bytes src 0 ((?low + 7) div 8 * 8);
      dst1 \<leftarrow> store_bytes dst 0 low;
      high \<leftarrow> load_bytes src up (psize - up);
      store_bytes dst1 up high }
    else do { used \<leftarrow> load_bytes src 0 (psize - unat ?unused); store_bytes dst 0 used })"
    unfolding mdb_page_copy_def P(3,5,6) bind.bind_lunit Let_def n(2) using P(4) by simp
  show ?thesis
  proof (cases "?unused = 0")
    case True
    then have "mdb_page_copy dst src psize = store_bytes dst 0 src"
      unfolding copy using P(1) by (simp add: load_bytes_def)
    then have "mdb_page_copy dst src psize = Some src" using P(1) dst by (simp add: store_bytes_def)
    then show ?thesis by auto
  next
    case False
    then have room: "?low + 8 \<le> up" using unused by (cases "up - ?low < 8") (auto simp: word_unat_eq_iff)
    let ?n = "(?low + 7) div 8 * 8" and ?u = "up div 8 * 8"
    have b: "?low \<le> ?n" "?n \<le> psize" "?u \<le> up" "?low < ?u" using room P(8) by linarith+
    obtain low where low: "load_bytes src 0 ?n = Some low" using b(2) P(1) load_bytes_Some by force
    obtain d1 where d1: "store_bytes dst 0 low = Some d1"
      using store_bytes_ex [of 0 low dst] load_bytes_length [OF low] b(2) dst by auto
    have len1: "length d1 = psize" using store_bytes_length [OF d1] dst by simp
    obtain high where high: "load_bytes src ?u (psize - ?u) = Some high" using b(3) P(1,8) load_bytes_Some [of ?u "psize - ?u" src] by force
    obtain d2 where d2: "store_bytes d1 ?u high = Some d2"
      using store_bytes_ex [of ?u high d1] load_bytes_length [OF high] P(1) len1 by auto
    have "mdb_page_copy dst src psize = Some d2"
      unfolding copy Let_def round_down_8 n(1) using False low d1 high d2 by simp
    moreover have "changed_within ?low up src d2"
    proof (rule changed_within_nth)
      show "length d2 = length src" using store_bytes_length [OF d2] len1 P(1) by simp
      fix k assume k: "k < length src" "k < ?low \<or> up \<le> k"
      have "d1 ! k = (if k < ?n then src ! k else dst ! k)" using copied_nth [OF low d1] k(1) P(1) dst by simp
      moreover have "d2 ! k = (if ?u \<le> k \<and> k < ?u + (psize - ?u) then src ! k else d1 ! k)"
        using k(1) P(1) len1 by (intro copied_nth [OF high d2]) simp
      ultimately show "d2 ! k = src ! k" using k b P(1) by auto
    qed
    ultimately show ?thesis by blast
  qed
qed

text \<open>A page whose header, pointers and nodes are those of another in good order.\<close>

lemma layout_same:
  assumes L: "layout leaf psize p up regs" and c: "length p' = psize" "raw_flags p' = Some fl'" "F_ISSET fl' FLAG_LEAF = leaf"
    "\<not> F_ISSET fl' FLAG_LEAF2"
    and b: "\<And>ofs m. 12 \<le> ofs \<Longrightarrow> ofs + m \<le> PAGEHDRSZ + 2 * length regs \<or> up \<le> ofs \<Longrightarrow> load_bytes p' ofs m = load_bytes p ofs m"
  shows "layout leaf psize p' up regs" "raw_nodes p' = raw_nodes p"
proof -
  have w: "load16 p' ofs = load16 p ofs" if "12 \<le> ofs" "ofs + 2 \<le> PAGEHDRSZ + 2 * length regs" for ofs
    using that by (intro load16_cong b) simp_all
  have H: "PAGEHDRSZ = 16" by (simp add: PAGEHDRSZ_def)
  from L have P: "length p = psize" by (rule layoutE)
  have reg: "raw_node_size leaf p' (fst r) = Some (snd r)" "raw_node leaf p' (fst r) = raw_node leaf p (fst r)" if "r \<in> set regs" for r
  proof -
    note g = layout_region [OF L that]
    have "PAGEHDRSZ + 2 * length regs \<le> up" using L by (rule layoutE)
    then have same: "load_bytes p' (fst r) (snd r) = load_bytes p (fst r) (snd r)" using g(2) H by (intro b) simp_all
    have fit: "fst r + snd r \<le> length p" using g(3) P by simp
    show "raw_node_size leaf p' (fst r) = Some (snd r)" using g(1) fit same by (rule raw_node_size_cong)
    show "raw_node leaf p' (fst r) = raw_node leaf p (fst r)" using g(1) fit same by (rule raw_node_cong)
  qed
  show lay: "layout leaf psize p' up regs"
  proof (rule layoutI [OF c(1) _ _ _ c(2-4)])
    show "raw_lower p' = Some (of_nat (PAGEHDRSZ + 2 * length regs))" "raw_upper p' = Some (of_nat up)"
      using L w [of 12] w [of 14] H by (simp_all add: layout_def raw_lower_def raw_upper_def)
    show "raw_ptr p' i = Some (of_nat (fst (regs ! i)))" if "i < length regs" for i
      using layout_ptr [OF L that] w [of "PAGEHDRSZ + 2 * i"] that H by (simp add: raw_ptr_def)
    show "raw_node_size leaf p' (fst r) = Some (snd r) \<and> up \<le> fst r \<and> fst r + snd r \<le> psize" if "r \<in> set regs" for r
      using reg(1) [OF that] layout_region [OF L that] by simp
  qed (use L in \<open>simp_all add: layout_def\<close>)
  show "raw_nodes p' = raw_nodes p"
    unfolding layout_nodes [OF lay] layout_nodes [OF L] using reg(2) by simp
qed

section \<open>Pointing at another page\<close>

lemma raw_node_branch:
  "raw_node False p ofs = Some n \<Longrightarrow> \<exists>k key pgno. node_ksize p ofs = Some k \<and> load_bytes p (ofs + NODESIZE) k = Some key
     \<and> raw_pgno p ofs = Some pgno \<and> n = Branch_node key pgno"
  by (auto simp: raw_node_def bind_eq_Some_conv)

lemma set_child:
  assumes L: "layout False psize p up regs" and i: "i < length regs" and pgno: "unat pgno < 2 ^ 48"
  shows "\<exists>p'. SETPGNO p (fst (regs ! i)) pgno = Some p' \<and> layout False psize p' up regs \<and> changed_within up psize p p'
    \<and> (\<forall>ns. raw_nodes p = Some ns \<longrightarrow> raw_nodes p' = Some (ns[i := Branch_node (nd_key (ns ! i)) pgno]))"
proof -
  let ?o = "fst (regs ! i)"
  obtain fl where P: "length p = psize" "raw_flags p = Some fl" "F_ISSET fl FLAG_LEAF = False" "\<not> F_ISSET fl FLAG_LEAF2"
    "PAGEHDRSZ + 2 * length regs \<le> up" "up \<le> psize"
    using L by (rule layoutE)
  have ri: "regs ! i \<in> set regs" using i by simp
  note g = layout_region [OF L ri]
  have size: "NODESIZE \<le> snd (regs ! i)" using g(1) by (rule raw_node_size_ge)
  obtain p' where p': "SETPGNO p ?o pgno = Some p'" "changed_within ?o (?o + 6) p p'" "raw_pgno p' ?o = Some pgno"
    using SETPGNO_result [of ?o p pgno] size g(3) P(1) pgno by (auto simp: NODESIZE_def)
  have out: "load_bytes p' ofs m = load_bytes p ofs m" if "ofs + m \<le> ?o \<or> ?o + 6 \<le> ofs" for ofs m
    using changed_bytes [OF p'(2)] that by blast
  have w: "load16 p' ofs = load16 p ofs" if "ofs + 2 \<le> ?o \<or> ?o + 6 \<le> ofs" for ofs using out [of ofs 2] that by (intro load16_cong) simp
  have own: "raw_node_size False p' ?o = Some (snd (regs ! i))"
    using g(1) w [of "?o + 6"] by (simp add: raw_node_size_def node_ksize_def node_payload_def)
  have other: "raw_node_size False p' (fst r) = Some (snd r) \<and> raw_node False p' (fst r) = raw_node False p (fst r)"
    if "j < length regs" "j \<noteq> i" "r = regs ! j" for j r
  proof -
    have r: "r \<in> set regs" using that by simp
    note gr = layout_region [OF L r]
    have "apart (regs ! j) (regs ! i) \<or> apart (regs ! i) (regs ! j)"
    proof -
      have "sorted_wrt apart regs" using L by (simp add: layout_def)
      then show ?thesis
        using sorted_wrt_nth_less [of apart regs i j] sorted_wrt_nth_less [of apart regs j i] that i by (cases "i < j") simp_all
    qed
    then have "fst r + snd r \<le> ?o \<or> ?o + snd (regs ! i) \<le> fst r" using that(3) by (auto simp: apart_def)
    then have same: "load_bytes p' (fst r) (snd r) = load_bytes p (fst r) (snd r)" using size by (intro out) (auto simp: NODESIZE_def)
    have fit: "fst r + snd r \<le> length p" using gr(3) P(1) by simp
    show ?thesis using raw_node_size_cong [OF gr(1) fit same] raw_node_cong [OF gr(1) fit same] by simp
  qed
  have sizes: "raw_node_size False p' (fst r) = Some (snd r)" if r: "r \<in> set regs" for r
  proof -
    obtain j where "j < length regs" "r = regs ! j" using r by (auto simp: in_set_conv_nth)
    then show ?thesis using own other [of j r] by (cases "j = i") simp_all
  qed
  have H: "PAGEHDRSZ = 16" by (simp add: PAGEHDRSZ_def)
  have low: "load16 p' ofs = load16 p ofs" if "ofs + 2 \<le> PAGEHDRSZ + 2 * length regs" for ofs
    using that P(5) g(2) by (intro w) simp
  have lay: "layout False psize p' up regs"
  proof (rule layoutI)
    show "raw_flags p' = Some fl" using P(2) low [of 10] H by (simp add: raw_flags_def)
    show "raw_lower p' = Some (of_nat (PAGEHDRSZ + 2 * length regs))" "raw_upper p' = Some (of_nat up)"
      using L low [of 12] low [of 14] H by (simp_all add: layout_def raw_lower_def raw_upper_def)
    show "raw_ptr p' k = Some (of_nat (fst (regs ! k)))" if "k < length regs" for k
      using layout_ptr [OF L that] low [of "PAGEHDRSZ + 2 * k"] that by (simp add: raw_ptr_def)
    show "raw_node_size False p' (fst r) = Some (snd r) \<and> up \<le> fst r \<and> fst r + snd r \<le> psize" if "r \<in> set regs" for r
      using sizes [OF that] layout_region [OF L that] by simp
  qed (use L P changed_length [OF p'(2)] in \<open>simp_all add: layout_def\<close>)
  have "raw_nodes p' = Some (ns[i := Branch_node (nd_key (ns ! i)) pgno])" if ns: "raw_nodes p = Some ns" for ns
  proof -
    have n: "ns = List.map (\<lambda>r. the (raw_node False p (fst r))) regs" using layout_nodes [OF L] ns by simp
    obtain node where node: "raw_node False p ?o = Some node" using raw_node_defined [OF g(1)] g(3) P(1) by auto
    then obtain k key q where k: "node_ksize p ?o = Some k" "load_bytes p (?o + NODESIZE) k = Some key" "node = Branch_node key q"
      using raw_node_branch by blast
    have "node_ksize p' ?o = Some k" using k(1) w [of "?o + 6"] by (simp add: node_ksize_def)
    moreover have "load_bytes p' (?o + NODESIZE) k = Some key" using k(2) out [of "?o + NODESIZE" k] by (simp add: NODESIZE_def)
    ultimately have new: "raw_node False p' ?o = Some (Branch_node key pgno)" using p'(3) by (simp add: raw_node_def)
    have "List.map (\<lambda>r. the (raw_node False p' (fst r))) regs = ns[i := Branch_node (nd_key (ns ! i)) pgno]"
    proof (rule nth_equalityI)
      fix j assume "j < length (List.map (\<lambda>r. the (raw_node False p' (fst r))) regs)"
      then show "List.map (\<lambda>r. the (raw_node False p' (fst r))) regs ! j = ns[i := Branch_node (nd_key (ns ! i)) pgno] ! j"
        using i n new node k(3) other [of j "regs ! j"] by (cases "j = i") auto
    qed (simp add: n)
    then show ?thesis using layout_nodes [OF lay] by simp
  qed
  moreover have "changed_within up psize p p'" using p'(2) by (rule changed_mono) (use g size in \<open>simp_all add: NODESIZE_def\<close>)
  ultimately show ?thesis using p'(1) lay by blast
qed

section \<open>The copy and its cursors\<close>

definition follow :: "nat \<Rightarrow> nat \<Rightarrow> wcursor \<Rightarrow> wcursor \<Rightarrow> wcursor" where
  "follow mp np mc m2 =
     (if wc_snum m2 < wc_snum mc \<or> wc_pg m2 ! wc_top mc \<noteq> mp then m2 else m2\<lparr>wc_pg := (wc_pg m2)[wc_top mc := np]\<rparr>)"

definition cursors_ok :: "wcursor \<Rightarrow> wcursor list \<Rightarrow> bool" where
  "cursors_ok mc cs = (\<forall>m2\<in>set cs. wc_snum m2 < wc_snum mc \<or> wc_top mc < length (wc_pg m2))"

lemma touch_done_result:
  assumes "cursors_ok mc (ws_cursors st)"
  shows "touch_done mp np mc st = Some (MDB_SUCCESS, mc\<lparr>wc_pg := (wc_pg mc)[wc_top mc := np]\<rparr>,
    st\<lparr>ws_cursors := List.map (follow mp np mc) (ws_cursors st)\<rparr>)"
proof -
  have "adjust_cursor mp np mc m2 = Some (follow mp np mc m2)" if "m2 \<in> set (ws_cursors st)" for m2
    using assms that by (auto simp: adjust_cursor_def follow_def cursors_ok_def)
  then have "those (List.map (adjust_cursor mp np mc) (ws_cursors st)) = Some (List.map (follow mp np mc) (ws_cursors st))"
    by (rule those_map)
  then show ?thesis by (simp add: touch_done_def)
qed

lemma dirty_flag:
  "F_ISSET (fl OR FLAG_DIRTY) FLAG_DIRTY" "F_ISSET (fl OR FLAG_DIRTY) FLAG_LEAF = F_ISSET fl FLAG_LEAF"
  "F_ISSET (fl OR FLAG_DIRTY) FLAG_LEAF2 = F_ISSET fl FLAG_LEAF2"
proof -
  show "F_ISSET (fl OR FLAG_DIRTY) FLAG_DIRTY" by (simp add: F_ISSET_def word_ao_absorbs)
  have "FLAG_DIRTY AND FLAG_LEAF = 0" "FLAG_DIRTY AND FLAG_LEAF2 = 0" by (simp_all add: FLAG_DIRTY_def FLAG_LEAF_def FLAG_LEAF2_def)
  then show "F_ISSET (fl OR FLAG_DIRTY) FLAG_LEAF = F_ISSET fl FLAG_LEAF"
    "F_ISSET (fl OR FLAG_DIRTY) FLAG_LEAF2 = F_ISSET fl FLAG_LEAF2"
    by (simp_all add: F_ISSET_def word_ao_dist)
qed

definition dirty_page :: "bytes \<Rightarrow> bool" where
  "dirty_page p = (\<exists>fl. raw_flags p = Some fl \<and> F_ISSET fl FLAG_DIRTY)"

lemma touch_copy_result:
  assumes L: "layout leaf psize (ws_mem st mp) up regs" and np: "length (ws_mem st np) = psize"
    and ps: "psize = unat (me_psize (ws_env st))" and cs: "cursors_ok mc (ws_cursors st)"
  shows "\<exists>page. touch_copy mp np pgno mc st = Some (MDB_SUCCESS, mc\<lparr>wc_pg := (wc_pg mc)[wc_top mc := np]\<rparr>,
      st\<lparr>ws_mem := (ws_mem st)(np := page), ws_cursors := List.map (follow mp np mc) (ws_cursors st)\<rparr>)
    \<and> layout leaf psize page up regs \<and> raw_nodes page = raw_nodes (ws_mem st mp) \<and> raw_page_pgno page = Some pgno \<and> dirty_page page"
proof -
  let ?src = "ws_mem st mp" and ?low = "PAGEHDRSZ + 2 * length regs"
  obtain fl where P: "length ?src = psize" "raw_flags ?src = Some fl" "F_ISSET fl FLAG_LEAF = leaf" "\<not> F_ISSET fl FLAG_LEAF2"
    "?low \<le> up" "up \<le> psize"
    using L by (rule layoutE)
  have H: "PAGEHDRSZ = 16" by (simp add: PAGEHDRSZ_def)
  obtain p0 where p0: "mdb_page_copy (ws_mem st np) ?src psize = Some p0" "changed_within ?low up ?src p0"
    using page_copy_layout [OF L np] by blast
  have len0: "length p0 = psize" using changed_length [OF p0(2)] P(1) by simp
  obtain p1 where p1: "store64 p0 0 pgno = Some p1"
    using store_bytes_ex [of 0 "le_chars 8 (unat pgno)" p0] len0 P(5,6) H by (auto simp: store64_def)
  note c1 = store_bytes_changed [OF p1 [unfolded store64_def], simplified]
  have len1: "length p1 = psize" using changed_length [OF c1] len0 by simp
  have f1: "raw_flags p1 = Some fl"
    using changed_load16 [OF c1, of 10] changed_load16 [OF p0(2), of 10] P(2) H by (simp add: raw_flags_def)
  obtain p2 where p2: "store16 p1 10 (fl OR FLAG_DIRTY) = Some p2" using store16_ex [of 10 p1] len1 P(5,6) H by auto
  note c2 = store16_changed [OF p2]
  have f2: "raw_flags p2 = Some (fl OR FLAG_DIRTY)" using load16_store16 [OF p2] by (simp add: raw_flags_def)
  have "raw_page_pgno p1 = Some pgno"
    using load_store_same [OF p1 [unfolded store64_def]] by (simp add: raw_page_pgno_def load64_def le_value_64)
  then have number: "raw_page_pgno p2 = Some pgno"
    using changed_bytes [OF c2, of 0 8] by (simp add: raw_page_pgno_def load64_def)
  have same: "load_bytes p2 ofs m = load_bytes ?src ofs m" if "12 \<le> ofs" "ofs + m \<le> ?low \<or> up \<le> ofs" for ofs m
    using changed_bytes [OF c2, of ofs m] changed_bytes [OF c1, of ofs m] changed_bytes [OF p0(2), of ofs m] that by simp
  have len2: "length p2 = psize" using changed_length [OF c2] len1 by simp
  have flags: "F_ISSET (fl OR FLAG_DIRTY) FLAG_LEAF = leaf" "\<not> F_ISSET (fl OR FLAG_DIRTY) FLAG_LEAF2"
    using dirty_flag P(3,4) by simp_all
  have "layout leaf psize p2 up regs" "raw_nodes p2 = raw_nodes ?src"
    using layout_same [OF L len2 f2 flags same] by blast+
  moreover have "dirty_page p2" using f2 dirty_flag(1) by (simp add: dirty_page_def)
  moreover have "touch_copy mp np pgno mc st = touch_done mp np mc (st\<lparr>ws_mem := (ws_mem st)(np := p2)\<rparr>)"
    using p0(1) p1 f1 p2 by (simp add: touch_copy_def flip: ps)
  then have "touch_copy mp np pgno mc st = Some (MDB_SUCCESS, mc\<lparr>wc_pg := (wc_pg mc)[wc_top mc := np]\<rparr>,
      st\<lparr>ws_mem := (ws_mem st)(np := p2), ws_cursors := List.map (follow mp np mc) (ws_cursors st)\<rparr>)"
    using cs by (simp add: touch_done_result)
  ultimately show ?thesis using number by blast
qed

section \<open>Where new pages come from\<close>

text \<open>The blocks allocation may hand out.\<close>

definition spare_blocks :: "(nat \<Rightarrow> nat option) \<Rightarrow> page_env \<Rightarrow> write_txn \<Rightarrow> nat set" where
  "spare_blocks pmalloc env txn = set (me_dpages env) \<union> fst ` set (wt_loose_pgs txn) \<union> {p. \<exists>n. pmalloc n = Some p}"

lemma page_malloc_block:
  "mdb_page_malloc pmalloc num env txn = (Some np, env', txn') \<Longrightarrow>
     me_dpages env = np # me_dpages env' \<or> me_dpages env' = me_dpages env \<and> (\<exists>n. pmalloc n = Some np)"
  by (auto simp: mdb_page_malloc_def split: if_splits option.splits)

lemma alloc_pages_keeps:
  assumes "alloc_pages pmalloc num src env txn = Some (rc, page, env', txn')" and "\<not> F_ISSET (me_flags env) MDB_WRITEMAP"
  shows "wt_free_pgs txn' = wt_free_pgs txn \<and> wt_loose_pgs txn' = wt_loose_pgs txn
    \<and> me_psize env' = me_psize env \<and> me_nodemax env' = me_nodemax env
    \<and> (\<forall>np pgno. page = Some (np, pgno) \<longrightarrow>
      me_dpages env = np # me_dpages env' \<or> me_dpages env' = me_dpages env \<and> (\<exists>n. pmalloc n = Some np))"
proof (cases "\<exists>rc err. src = Fail rc err")
  case True
  then show ?thesis using assms(1) by (auto simp: alloc_pages_def fail_txn_def)
next
  case False
  consider ps where "mdb_page_malloc pmalloc num env txn = (None, env\<lparr>me_dpages := ps\<rparr>, fail_txn txn)"
    | np ps where "mdb_page_malloc pmalloc num env txn = (Some np, env\<lparr>me_dpages := ps\<rparr>, txn)"
    using page_malloc_result [of pmalloc num env txn] by blast
  then show ?thesis
  proof cases
    case 1
    then show ?thesis
      using assms False by (cases src) (auto simp: alloc_pages_def fail_txn_def Let_def split: if_splits)
  next
    case (2 np ps)
    have "wt_free_pgs t' = wt_free_pgs t \<and> wt_loose_pgs t' = wt_loose_pgs t" if "mdb_page_dirty b mp pg t = Some t'" for b mp pg t t'
      using that by (auto simp: mdb_page_dirty_def bind_eq_Some_conv split: if_splits)
    then show ?thesis
      using assms False 2 page_malloc_block [OF 2]
      by (cases src) (auto simp: alloc_pages_def fail_txn_def Let_def bind_eq_Some_conv split: if_splits)
  qed
qed

lemma page_alloc_keeps:
  assumes "good_malloc malloc" and "writer_inv live freed fd env txn"
    and "mdb_page_alloc malloc pmalloc fd num env txn = Some (rc, page, env', txn')"
  shows "wt_free_pgs txn' = wt_free_pgs txn \<and> me_psize env' = me_psize env \<and> me_nodemax env' = me_nodemax env
    \<and> (\<forall>np pgno. page = Some (np, pgno) \<longrightarrow> np \<in> spare_blocks pmalloc env txn
        \<and> (me_dpages env = np # me_dpages env'
           \<or> me_dpages env' = me_dpages env \<and> (np \<in> fst ` set (wt_loose_pgs txn) \<or> (\<exists>n. pmalloc n = Some np))))"
proof -
  consider "num = 1 \<and> wt_loose_pgs txn \<noteq> []" | "\<not> (num = 1 \<and> wt_loose_pgs txn \<noteq> [])" "wt_dirty_room txn = 0"
    | (search) "\<not> (num = 1 \<and> wt_loose_pgs txn \<noteq> [])" "wt_dirty_room txn \<noteq> 0" by blast
  then show ?thesis
  proof cases
    case 1
    then show ?thesis
      using assms(3) by (cases "wt_loose_pgs txn") (auto simp: mdb_page_alloc_def spare_blocks_def)
  next
    case search
    obtain src env1 where s: "alloc_loop malloc (num - 1) (wt_txnid txn) (fd_end fd) (unread fd env)
        (int num * 60) False (me_pgoldest env) (me_pglast env) env = Some (src, env1)"
      "alloc_pages pmalloc num src env1 txn = Some (rc, page, env', txn')"
      using assms(3) search by (auto simp: mdb_page_alloc_def unread_def bind_eq_Some_conv)
    have "pools_of env env1"
      using alloc_loop_found [OF assms(1,2) s(1)] by blast
    then obtain a b c where env1: "env1 = env\<lparr>me_pgoldest := a, me_pglast := b, me_pghead := c\<rparr>" by (auto simp: pools_of_def)
    have "\<not> F_ISSET (me_flags env1) MDB_WRITEMAP" using assms(2) env1 by (simp add: writer_inv_def)
    from alloc_pages_keeps [OF s(2) this] show ?thesis using env1 by (auto simp: spare_blocks_def)
  qed (use assms(3) in \<open>auto simp: mdb_page_alloc_def spare_blocks_def fail_txn_def\<close>)
qed

section \<open>A page of another transaction\<close>

text \<open>
  The page \<open>mp\<close> at the top of the cursor, number \<open>old\<close>, is one of the tree and not free, new or
  dirty; the memory allocation hands out is not in use; the list of freed pages has room to grow.
\<close>

definition touch_ready :: "(nat \<Rightarrow> nat option) \<Rightarrow> free_db \<Rightarrow> wcursor \<Rightarrow> nat \<Rightarrow> mdb_id \<Rightarrow> write_state \<Rightarrow> bool" where
  "touch_ready pmalloc fd mc mp old st =
     (idl_at (wc_pg mc) (wc_top mc) = Some mp \<and> cursors_ok mc (ws_cursors st) \<and> raw_page_pgno (ws_mem st mp) = Some old
      \<and> old < wt_next_pgno (ws_txn st) \<and> old \<notin># all_free fd (ws_env st) \<and> old \<notin> dirty (ws_txn st)
      \<and> (\<forall>b\<in>spare_blocks pmalloc (ws_env st) (ws_txn st). length (ws_mem st b) = unat (me_psize (ws_env st)) \<and> b \<noteq> mp
          \<and> (0 < wc_top mc \<longrightarrow> b \<noteq> wc_pg mc ! (wc_top mc - 1)))
      \<and> midl_ok (wt_free_pgs (ws_txn st)) \<and> unat (ml_ids (wt_free_pgs (ws_txn st)) ! 0) + 1 < 2 ^ 31
      \<and> unat (wt_next_pgno (ws_txn st)) + 1 < 2 ^ 48)"

text \<open>Its parent, of which it is a child.\<close>

definition parent_ready :: "wcursor \<Rightarrow> nat \<Rightarrow> write_state \<Rightarrow> bool" where
  "parent_ready mc mp st =
     (0 < wc_top mc \<longrightarrow> wc_top mc - 1 < length (wc_ki mc) \<and> wc_pg mc ! (wc_top mc - 1) \<noteq> mp
        \<and> (\<exists>left. page_layout False (unat (me_psize (ws_env st))) (ws_mem st (wc_pg mc ! (wc_top mc - 1))) left)
        \<and> (\<exists>ns. raw_nodes (ws_mem st (wc_pg mc ! (wc_top mc - 1))) = Some ns \<and> wc_ki mc ! (wc_top mc - 1) < length ns))"

text \<open>The parent, or the root, names the new page.\<close>

definition linked :: "wcursor \<Rightarrow> mdb_id \<Rightarrow> write_state \<Rightarrow> write_state \<Rightarrow> bool" where
  "linked mc pgno st st' =
     (if wc_top mc = 0 then ws_root st' = pgno
      else ws_root st' = ws_root st
        \<and> (\<forall>ns. raw_nodes (ws_mem st (wc_pg mc ! (wc_top mc - 1))) = Some ns \<longrightarrow>
            raw_nodes (ws_mem st' (wc_pg mc ! (wc_top mc - 1)))
              = Some (ns[wc_ki mc ! (wc_top mc - 1) := Branch_node (nd_key (ns ! (wc_ki mc ! (wc_top mc - 1)))) pgno])))"

lemma touch_parent_result:
  assumes "parent_ready mc mp st" and "idl_at (wc_pg mc) (wc_top mc) = Some mp" and "unat pgno < 2 ^ 48"
  shows "\<exists>mem root. touch_parent pgno mc st = Some (st\<lparr>ws_mem := mem, ws_root := root\<rparr>) \<and> linked mc pgno st (st\<lparr>ws_mem := mem, ws_root := root\<rparr>)
    \<and> (\<forall>q. wc_top mc = 0 \<or> q \<noteq> wc_pg mc ! (wc_top mc - 1) \<longrightarrow> mem q = ws_mem st q)"
proof (cases "wc_top mc = 0")
  case True
  have "st\<lparr>ws_root := pgno\<rparr> = st\<lparr>ws_mem := ws_mem st, ws_root := pgno\<rparr>" by simp
  then show ?thesis
    using True by (intro exI [of _ "ws_mem st"] exI [of _ pgno]) (simp add: touch_parent_def linked_def)
next
  case False
  let ?i = "wc_ki mc ! (wc_top mc - 1)" and ?parent = "wc_pg mc ! (wc_top mc - 1)"
  let ?psize = "unat (me_psize (ws_env st))"
  obtain left ns where r: "wc_top mc - 1 < length (wc_ki mc)" "?parent \<noteq> mp" "page_layout False ?psize (ws_mem st ?parent) left"
    "raw_nodes (ws_mem st ?parent) = Some ns" "?i < length ns"
    using assms(1) False by (auto simp: parent_ready_def)
  obtain up regs where L: "layout False ?psize (ws_mem st ?parent) up regs" using r(3) by (auto simp: page_layout_def)
  have i: "?i < length regs" using layout_nodes [OF L] r(4,5) by auto
  have reg: "regs ! ?i \<in> set regs" using i by simp
  obtain p' where p': "SETPGNO (ws_mem st ?parent) (fst (regs ! ?i)) pgno = Some p'"
    "\<forall>ns. raw_nodes (ws_mem st ?parent) = Some ns \<longrightarrow> raw_nodes p' = Some (ns[?i := Branch_node (nd_key (ns ! ?i)) pgno])"
    using set_child [OF L i assms(3)] by blast
  have "wc_top mc - 1 < length (wc_pg mc)" using assms(2) by (auto simp: idl_at_eq intro: less_imp_diff_less)
  then have "touch_parent pgno mc st = Some (st\<lparr>ws_mem := (ws_mem st)(?parent := p'), ws_root := ws_root st\<rparr>)"
    using False r(1) layout_ptr [OF L i] unat_small [OF layout_region(4) [OF L reg]] p'(1) by (simp add: touch_parent_def)
  then show ?thesis using False p'(2) by (intro exI [of _ "(ws_mem st)(?parent := p')"] exI [of _ "ws_root st"]) (simp add: linked_def)
qed

text \<open>The copy takes the place of the page.\<close>

definition replaced :: "wcursor \<Rightarrow> nat \<Rightarrow> mdb_id \<Rightarrow> nat \<Rightarrow> mdb_id \<Rightarrow> write_state \<Rightarrow> wcursor \<Rightarrow> write_state \<Rightarrow> bool" where
  "replaced mc mp old np pgno st mc' st' =
     (pgno \<noteq> old \<and> pgno \<in> dirty (ws_txn st') \<and> raw_page_pgno (ws_mem st' np) = Some pgno \<and> dirty_page (ws_mem st' np)
      \<and> raw_nodes (ws_mem st' np) = raw_nodes (ws_mem st mp)
      \<and> midl_list (wt_free_pgs (ws_txn st')) = midl_list (wt_free_pgs (ws_txn st)) @ [old]
      \<and> linked mc pgno st st' \<and> mc' = mc\<lparr>wc_pg := (wc_pg mc)[wc_top mc := np]\<rparr>
      \<and> ws_cursors st' = List.map (follow mp np mc) (ws_cursors st)
      \<and> (\<forall>q. q \<noteq> np \<and> (wc_top mc = 0 \<or> q \<noteq> wc_pg mc ! (wc_top mc - 1)) \<longrightarrow> ws_mem st' q = ws_mem st q))"

lemma inv_free_pgs [simp]:
  "writer_inv live freed fd env (txn\<lparr>wt_free_pgs := l\<rparr>) = writer_inv live freed fd env txn"
  "dirty (txn\<lparr>wt_free_pgs := l\<rparr>) = dirty txn"
  by (simp_all add: writer_inv_def dirty_ok_def pages_apart_def loose_ok_def dirty_def)

lemma new_page_number:
  assumes "writer_inv live freed fd env' txn'"
    and "loose_again env txn 1 (np, pgno) env' txn' \<or> granted live freed fd 1 env txn np pgno env' txn'"
    and "unat (wt_next_pgno txn) + 1 < 2 ^ 48"
  shows "pgno \<in> dirty txn' \<and> unat pgno < 2 ^ 48"
proof -
  have d: "pgno \<in> dirty txn'" using assms(2) by (auto simp: loose_again_def granted_def)
  have "unat (wt_next_pgno txn + 1) \<le> unat (wt_next_pgno txn) + 1" by (simp add: unat_word_ariths)
  then have "unat (wt_next_pgno txn') < 2 ^ 48" using assms(2,3) by (auto simp: loose_again_def granted_def)
  moreover have "pgno < wt_next_pgno txn'" using d assms(1) by (auto simp: writer_inv_def pages_apart_def)
  ultimately show ?thesis using d by (simp add: word_less_nat_alt)
qed

lemma new_page_apart:
  assumes "writer_inv live freed fd env' txn'"
    and "loose_again env txn 1 (np, pgno) env' txn' \<or> granted live freed fd 1 env txn np pgno env' txn'"
    and "old < wt_next_pgno txn" and "old \<notin># all_free fd env" and "old \<notin> dirty txn" and "unat (wt_next_pgno txn) + 1 < 2 ^ 48"
  shows "pgno \<noteq> old \<and> pgno \<in> dirty txn' \<and> unat pgno < 2 ^ 48"
proof -
  have "run pgno 1 = [pgno]" by (simp add: run_def)
  then have "pgno \<noteq> old" using assms(2-5) by (auto simp: loose_again_def granted_def)
  then show ?thesis using new_page_number [OF assms(1,2,6)] by blast
qed

lemma fail_state_simps:
  "ws_env (fail_state st) = ws_env st" "ws_mem (fail_state st) = ws_mem st" "ws_root (fail_state st) = ws_root st"
  "ws_cursors (fail_state st) = ws_cursors st" "ws_txn (fail_state st) = fail_txn (ws_txn st)"
  "wt_free_pgs (fail_txn txn) = wt_free_pgs txn" "wt_error (fail_txn txn)"
  by (simp_all add: fail_state_def fail_txn_def)

lemma touch_new_result:
  assumes good: "good_malloc malloc" and inv: "writer_inv live freed fd (ws_env st) (ws_txn st)"
    and ready: "touch_ready pmalloc fd mc mp old st" and parent: "parent_ready mc mp st"
    and L: "page_layout leaf (unat (me_psize (ws_env st))) (ws_mem st mp) left"
  shows "\<exists>rc mc' st'. touch_new malloc pmalloc fd mp old mc st = Some (rc, mc', st') \<and> writer_inv live freed fd (ws_env st') (ws_txn st')
    \<and> ws_mem st' mp = ws_mem st mp
    \<and> (if rc = MDB_SUCCESS then \<exists>np pgno. replaced mc mp old np pgno st mc' st' \<and> page_layout leaf (unat (me_psize (ws_env st))) (ws_mem st' np) left
       else mc' = mc \<and> wt_error (ws_txn st') \<and> ws_mem st' = ws_mem st \<and> ws_root st' = ws_root st \<and> ws_cursors st' = ws_cursors st
         \<and> midl_list (wt_free_pgs (ws_txn st')) = midl_list (wt_free_pgs (ws_txn st)))"
proof -
  let ?psize = "unat (me_psize (ws_env st))"
  have r: "idl_at (wc_pg mc) (wc_top mc) = Some mp" "cursors_ok mc (ws_cursors st)" "old < wt_next_pgno (ws_txn st)"
    "old \<notin># all_free fd (ws_env st)" "old \<notin> dirty (ws_txn st)" "midl_ok (wt_free_pgs (ws_txn st))"
    "unat (ml_ids (wt_free_pgs (ws_txn st)) ! 0) + 1 < 2 ^ 31" "unat (wt_next_pgno (ws_txn st)) + 1 < 2 ^ 48"
    using ready by (simp_all add: touch_ready_def)
  have failed: ?thesis if "touch_new malloc pmalloc fd mp old mc st = Some (rc, mc, fail_state st1)" "rc \<noteq> MDB_SUCCESS"
    "writer_inv live freed fd (ws_env st1) (ws_txn st1)" "ws_mem st1 = ws_mem st" "ws_root st1 = ws_root st" "ws_cursors st1 = ws_cursors st"
    "midl_list (wt_free_pgs (ws_txn st1)) = midl_list (wt_free_pgs (ws_txn st))" for rc st1
    using that by (simp add: fail_state_simps)
  consider (nomem) "mdb_midl_need malloc (wt_free_pgs (ws_txn st)) 1 = (ENOMEM, wt_free_pgs (ws_txn st))"
    | (room) l where "mdb_midl_need malloc (wt_free_pgs (ws_txn st)) 1 = (0, l)" "midl_ok l"
      "midl_list l = midl_list (wt_free_pgs (ws_txn st))" "unat (ml_ids l ! 0) < unat (ml_alloc l)"
    using midl_need [OF good r(6), of 1] r(7) by auto
  then show ?thesis
  proof cases
    case nomem
    then have "touch_new malloc pmalloc fd mp old mc st = Some (ENOMEM, mc, fail_state st)"
      by (simp add: touch_new_def ENOMEM_def)
    then show ?thesis by (rule failed) (use inv in \<open>simp_all add: ENOMEM_def MDB_SUCCESS_def\<close>)
  next
    case (room l)
    let ?txn = "(ws_txn st)\<lparr>wt_free_pgs := l\<rparr>"
    have inv': "writer_inv live freed fd (ws_env st) ?txn" using inv by simp
    have next64: "unat (wt_next_pgno ?txn) + 1 < 2 ^ 64" using r(8) by simp
    obtain rc1 page env1 txn1 where a: "mdb_page_alloc malloc pmalloc fd 1 (ws_env st) ?txn = Some (rc1, page, env1, txn1)"
      "writer_inv live freed fd env1 txn1"
      "case page of None \<Rightarrow> rc1 \<noteq> MDB_SUCCESS \<and> refused fd (ws_env st) ?txn env1 txn1
       | Some (np, pgno) \<Rightarrow> rc1 = MDB_SUCCESS
           \<and> (loose_again (ws_env st) ?txn 1 (np, pgno) env1 txn1 \<or> granted live freed fd 1 (ws_env st) ?txn np pgno env1 txn1)"
      using page_alloc_result [OF good inv' _ _ next64, of pmalloc] by auto
    note k = page_alloc_keeps [OF good inv' a(1)]
    show ?thesis
    proof (cases page)
      case None
      then have "touch_new malloc pmalloc fd mp old mc st = Some (rc1, mc, fail_state (st\<lparr>ws_env := env1, ws_txn := txn1\<rparr>))" "rc1 \<noteq> MDB_SUCCESS"
        using room(1) a(1,3) by (simp_all add: touch_new_def)
      then show ?thesis by (rule failed) (use a(2) k room(3) in simp_all)
    next
      case (Some q)
      then obtain np pgno where page: "page = Some (np, pgno)" by (cases q) auto
      have g: "loose_again (ws_env st) ?txn 1 (np, pgno) env1 txn1 \<or> granted live freed fd 1 (ws_env st) ?txn np pgno env1 txn1"
        using a(3) page by simp
      have new: "pgno \<noteq> old" "pgno \<in> dirty txn1" "unat pgno < 2 ^ 48"
        using new_page_apart [OF a(2) g, of old] r by simp_all
      have free: "wt_free_pgs txn1 = l" "me_psize env1 = me_psize (ws_env st)" using k by simp_all
      have "np \<in> spare_blocks pmalloc (ws_env st) (ws_txn st)" using k page by (simp add: spare_blocks_def)
      then have np: "length (ws_mem st np) = ?psize" "np \<noteq> mp" "0 < wc_top mc \<longrightarrow> np \<noteq> wc_pg mc ! (wc_top mc - 1)"
        using ready by (auto simp: touch_ready_def)
      obtain ids where ids: "mdb_midl_xappend (ml_ids l) old = Some ids" "midl_list (l\<lparr>ml_ids := ids\<rparr>) = midl_list l @ [old]"
        using midl_xappend [OF room(2,4), of old] by blast
      let ?st = "st\<lparr>ws_env := env1, ws_txn := txn1\<lparr>wt_free_pgs := l\<lparr>ml_ids := ids\<rparr>\<rparr>\<rparr>"
      have "parent_ready mc mp ?st" using parent free by (simp add: parent_ready_def)
      from touch_parent_result [OF this r(1) new(3)]
      obtain mem root where tp: "touch_parent pgno mc ?st = Some (?st\<lparr>ws_mem := mem, ws_root := root\<rparr>)"
        "linked mc pgno ?st (?st\<lparr>ws_mem := mem, ws_root := root\<rparr>)"
        "\<And>q. wc_top mc = 0 \<or> q \<noteq> wc_pg mc ! (wc_top mc - 1) \<Longrightarrow> mem q = ws_mem st q" by auto
      let ?st1 = "?st\<lparr>ws_mem := mem, ws_root := root\<rparr>"
      have mp: "wc_top mc = 0 \<or> mp \<noteq> wc_pg mc ! (wc_top mc - 1)" using parent by (auto simp: parent_ready_def)
      obtain up regs where lay: "layout leaf ?psize (ws_mem st mp) up regs" "left = up - (PAGEHDRSZ + 2 * length regs)"
        using L by (auto simp: page_layout_def)
      have lay1: "layout leaf ?psize (ws_mem ?st1 mp) up regs" using lay tp(3) [OF mp] by simp
      have np1: "length (ws_mem ?st1 np) = ?psize" using np(1,3) tp(3) [of np] by auto
      have ps: "?psize = unat (me_psize (ws_env ?st1))" using free by simp
      have cs: "cursors_ok mc (ws_cursors ?st1)" using r(2) by simp
      obtain p where p: "touch_copy mp np pgno mc ?st1 = Some (MDB_SUCCESS, mc\<lparr>wc_pg := (wc_pg mc)[wc_top mc := np]\<rparr>,
          ?st1\<lparr>ws_mem := (ws_mem ?st1)(np := p), ws_cursors := List.map (follow mp np mc) (ws_cursors ?st1)\<rparr>)"
        "layout leaf ?psize p up regs" "raw_nodes p = raw_nodes (ws_mem ?st1 mp)" "raw_page_pgno p = Some pgno" "dirty_page p"
        using touch_copy_result [OF lay1 np1 ps cs] by blast
      let ?st2 = "?st1\<lparr>ws_mem := (ws_mem ?st1)(np := p), ws_cursors := List.map (follow mp np mc) (ws_cursors ?st1)\<rparr>"
      have "touch_new malloc pmalloc fd mp old mc st = Some (MDB_SUCCESS, mc\<lparr>wc_pg := (wc_pg mc)[wc_top mc := np]\<rparr>, ?st2)"
        using room(1) a(1) page new(1) free ids(1) tp(1) p(1) by (simp add: touch_new_def)
      moreover have "replaced mc mp old np pgno st (mc\<lparr>wc_pg := (wc_pg mc)[wc_top mc := np]\<rparr>) ?st2"
        using new(1,2) p(3-5) ids(2) room(3) tp(2,3) mp np(3) by (auto simp: replaced_def linked_def)
      moreover have "page_layout leaf ?psize (ws_mem ?st2 np) left" using p(2) lay(2) by (auto simp: page_layout_def)
      ultimately have "\<exists>q n. replaced mc mp old q n st (mc\<lparr>wc_pg := (wc_pg mc)[wc_top mc := np]\<rparr>) ?st2
          \<and> page_layout leaf ?psize (ws_mem ?st2 q) left"
        "touch_new malloc pmalloc fd mp old mc st = Some (MDB_SUCCESS, mc\<lparr>wc_pg := (wc_pg mc)[wc_top mc := np]\<rparr>, ?st2)"
        by blast+
      moreover have "ws_mem ?st2 mp = ws_mem st mp" using np(2) tp(3) [OF mp] by simp
      moreover have "writer_inv live freed fd (ws_env ?st2) (ws_txn ?st2)" using a(2) by simp
      ultimately show ?thesis by (simp del: fun_upd_apply)
    qed
  qed
qed

section \<open>Pages that were not spilled\<close>

lemma find_spilled_none:
  assumes "\<And>l. Some l \<in> set ls \<Longrightarrow> descending l" and "\<And>l. l \<in> set ls \<Longrightarrow> pgno \<notin> spilled_pages l"
  shows "find_spilled ls (push_bit 1 pgno) level = Some None"
  using assms
proof (induction ls arbitrary: level)
  case (Cons a ls)
  then have rest: "find_spilled ls (push_bit 1 pgno) (level + 1) = Some None" by simp
  show ?case
  proof (cases a)
    case (Some l)
    have "in_spilled (Some l) pgno = Some False" using Cons.prems in_spilled_result [of "Some l" pgno] Some by simp
    then obtain x n where "mdb_midl_search l (push_bit 1 pgno) = Some x" "idl_at l 0 = Some n"
      "(if x \<le> unat n then map_option (\<lambda>e. e = push_bit 1 pgno) (idl_at l x) else Some False) = Some False"
      unfolding in_spilled_def Let_def option.case by (auto simp: bind_eq_Some_conv)
    then show ?thesis using Some rest by (cases "x \<le> unat n") auto
  qed (use rest in simp)
qed simp

lemma unspill_none:
  assumes "raw_page_pgno (ws_mem st mp) = Some pgno" and "\<And>l. Some l \<in> set (ws_spill_lists st) \<Longrightarrow> descending l"
    and "\<And>l. l \<in> set (ws_spill_lists st) \<Longrightarrow> pgno \<notin> spilled_pages l"
  shows "mdb_page_unspill pmalloc mp st = Some (MDB_SUCCESS, None, st)"
  using assms(1) find_spilled_none [of "ws_spill_lists st" pgno 0] assms(2,3) by (simp add: mdb_page_unspill_def)

end
