(* ===== verification/Lmdb_Split_Props.thy ===== *)
theory Lmdb_Split_Props
  imports Lmdb_Split Lmdb_Touch_Props Lmdb_Node_Properties
begin

text \<open>
  Splitting a page: the split point leaves two halves that fit, moving the nodes builds exactly
  these halves, and linking the right page in gives the parent one child more.
\<close>

section \<open>The split point\<close>

text \<open>
  On sizes \<open>c\<close> alone. From the left, the loop ends at the node that makes the sum too large, or at
  the last one it looks at; from the right, in front of it.
\<close>

lemma point_up:
  fixes c :: "nat \<Rightarrow> nat"
  assumes "\<And>i ps. i < k \<Longrightarrow> even ps \<Longrightarrow> grow i ps = Some (ps + c i)" and "\<And>i. i < k \<Longrightarrow> even (c i)"
    and "i < k" and "sum c {0..<i} \<le> pmax"
  shows "\<exists>s. point_loop grow pmax False split (sum c {0..<i}) [i..<k] = Some s \<and> s < k
    \<and> sum c {0..<s} \<le> pmax \<and> (s + 1 = k \<or> pmax < sum c {0..<s} + c s)"
  using assms(3,4)
proof (induction "k - i" arbitrary: i)
  case 0
  then show ?case by simp
next
  case (Suc d)
  have "even (sum c {0..<i})" using assms(2) Suc.prems(1) by (intro dvd_sum) simp
  then have grow: "grow i (sum c {0..<i}) = Some (sum c {0..<i} + c i)" using assms(1) Suc.prems(1) by blast
  have sum: "sum c {0..<Suc i} = sum c {0..<i} + c i" by simp
  have xs: "[i..<k] = i # [Suc i..<k]" using Suc.prems(1) by (rule upt_conv_Cons)
  show ?case
  proof (cases "pmax < sum c {0..<i} + c i \<or> i + 1 = k")
    case True
    then show ?thesis using grow Suc.prems xs by (intro exI [of _ i]) auto
  next
    case False
    then have "\<exists>s. point_loop grow pmax False split (sum c {0..<Suc i}) [Suc i..<k] = Some s \<and> s < k
        \<and> sum c {0..<s} \<le> pmax \<and> (s + 1 = k \<or> pmax < sum c {0..<s} + c s)"
      using Suc.prems(1) Suc.hyps(2) by (intro Suc.hyps(1)) simp_all
    then show ?thesis using False Suc.prems(1) grow by (simp only: xs sum) simp
  qed
qed

lemma point_down:
  fixes c :: "nat \<Rightarrow> nat"
  assumes "\<And>i ps. i < m \<Longrightarrow> even ps \<Longrightarrow> grow i ps = Some (ps + c i)" and "\<And>i. i < m \<Longrightarrow> even (c i)"
    and "b < i" and "i \<le> m" and "sum c {i..<m} \<le> pmax"
  shows "\<exists>s. point_loop grow pmax True split (sum c {i..<m}) (rev [b..<i]) = Some s \<and> b < s \<and> s \<le> i
    \<and> sum c {s..<m} \<le> pmax \<and> (s = b + 1 \<or> pmax < sum c {s..<m} + c (s - 1))"
  using assms(3-5)
proof (induction "i - b" arbitrary: i)
  case 0
  then show ?case by simp
next
  case (Suc d)
  obtain j where j: "i = Suc j" using Suc.prems(1) by (cases i) simp_all
  have "even (sum c {i..<m})" using assms(2) by (intro dvd_sum) simp
  then have grow: "grow j (sum c {i..<m}) = Some (sum c {i..<m} + c j)" using assms(1) Suc.prems(2) j by simp
  have sum: "sum c {j..<m} = sum c {i..<m} + c j"
    using Suc.prems(2) j by (simp add: sum.atLeast_Suc_lessThan)
  have xs: "rev [b..<i] = j # rev [b..<j]" using Suc.prems(1) j by simp
  show ?case
  proof (cases "pmax < sum c {i..<m} + c j \<or> j = b")
    case True
    then show ?thesis using grow Suc.prems xs j by (intro exI [of _ i]) auto
  next
    case False
    then have "\<exists>s. point_loop grow pmax True split (sum c {j..<m}) (rev [b..<j]) = Some s \<and> b < s \<and> s \<le> j
        \<and> sum c {s..<m} \<le> pmax \<and> (s = b + 1 \<or> pmax < sum c {s..<m} + c (s - 1))"
      using Suc.prems Suc.hyps(2) sum j by (intro Suc.hyps(1)) simp_all
    moreover have "rev [b..<j] \<noteq> []" using False Suc.prems(1) j by simp
    ultimately show ?thesis using False grow j by (simp only: xs sum) (auto intro: le_SucI)
  qed
qed

text \<open>The case in which the split point is checked.\<close>

definition split_checked :: "nat \<Rightarrow> nat \<Rightarrow> nat \<Rightarrow> nat \<Rightarrow> bool" where
  "split_checked nkeys newindx nsize pmax = (nkeys < 20 \<or> pmax div 16 < nsize \<or> nkeys \<le> newindx)"

lemma split_point_halves:
  fixes c :: "nat \<Rightarrow> nat"
  assumes grow: "\<And>i ps. i \<le> n \<Longrightarrow> even ps \<Longrightarrow> split_size leaf mp copy newindx nsize i ps = Some (ps + c i)"
    and even: "\<And>i. i \<le> n \<Longrightarrow> even (c i)" and low: "\<And>i. i \<le> n \<Longrightarrow> 10 \<le> c i" and high: "\<And>i. i \<le> n \<Longrightarrow> 2 * c i \<le> pmax"
    and new: "newindx \<le> n" and fits: "sum c {0..<n + 1} \<le> pmax + c newindx" and full: "pmax < sum c {0..<n + 1}"
    and checked: "split_checked n newindx nsize pmax"
  shows "\<exists>s. split_point leaf mp copy n newindx nsize pmax = Some s \<and> 1 \<le> s \<and> s \<le> n \<and> sum c {0..<s} \<le> pmax
    \<and> (sum c {s..<n + 1} \<le> pmax \<or> \<not> leaf \<and> s = newindx \<and> sum c {s..<n + 1} + 10 \<le> pmax + c newindx)"
proof -
  let ?half = "(n + 1) div 2" and ?grow = "split_size leaf mp copy newindx nsize"
  have cut: "sum c {0..<s} + sum c {s..<n + 1} = sum c {0..<n + 1}" if "s \<le> n + 1" for s
    using that by (intro sum.atLeastLessThan_concat) simp_all
  have first: "sum c {i..<n + 1} = c i + sum c {i + 1..<n + 1}" if "i \<le> n" for i
    using that sum.atLeast_Suc_lessThan [of i "n + 1" c] by (simp del: sum.op_ivl_Suc)
  have n: "2 \<le> n"
  proof (rule ccontr)
    assume "\<not> 2 \<le> n"
    then have "n = 0 \<or> n = 1" by linarith
    then have "sum c {0..<n + 1} \<le> pmax"
    proof
      assume "n = 0"
      then show ?thesis using high [of 0] by simp
    next
      assume "n = 1"
      then show ?thesis using high [of 0] high [of 1] by simp
    qed
    then show False using full by simp
  qed
  have part: "c newindx \<le> sum c {a..<b}" if "a \<le> newindx" "newindx < b" for a b
    using that by (intro member_le_sum) simp_all
  have one: "10 \<le> sum c {0..<s}" if "1 \<le> s" "s \<le> n" for s
  proof -
    have "c 0 \<le> sum c {0..<s}" using that by (intro member_le_sum) simp_all
    then show ?thesis using low [of 0] by simp
  qed
  consider (right) "n \<le> newindx" | (up) "newindx < n" "newindx \<le> ?half" | (down) "newindx < n" "?half < newindx" by linarith
  then show ?thesis
  proof cases
    case right
    then have idx: "newindx = n" using new by simp
    have run: "split_point leaf mp copy n newindx nsize pmax = point_loop ?grow pmax False ?half (sum c {0..<0}) [0..<n]"
      using checked right by (simp add: split_point_def split_checked_def Let_def)
    obtain s where s: "split_point leaf mp copy n newindx nsize pmax = Some s" "s < n" "sum c {0..<s} \<le> pmax"
      "s + 1 = n \<or> pmax < sum c {0..<s} + c s"
      unfolding run using point_up [of n ?grow c 0 pmax ?half] grow even n by auto
    have "sum c {0..<s} + c s \<le> sum c {0..<n}" using sum_mono2 [of "{0..<n}" "{0..<Suc s}" c] s(2) by simp
    also have "\<dots> \<le> pmax" using fits idx by simp
    finally have last: "s + 1 = n" using s(4) by linarith
    then have "sum c {s..<n + 1} = c s + c n" using first [of s] first [of n] by simp
    then have "sum c {s..<n + 1} \<le> pmax" using high [of s] high [of n] s(2) by simp
    then show ?thesis using s last n by auto
  next
    case up
    let ?k = "?half + 1 + (if leaf then 1 else 0)"
    have "?half + 1 \<le> n" using n by presburger
    then have k: "?k \<le> n + 1" by simp
    have run: "split_point leaf mp copy n newindx nsize pmax = point_loop ?grow pmax False ?half (sum c {0..<0}) [0..<?k]"
      using checked up by (simp add: split_point_def split_checked_def Let_def)
    obtain s where s: "split_point leaf mp copy n newindx nsize pmax = Some s" "s < ?k" "sum c {0..<s} \<le> pmax"
      "s + 1 = ?k \<or> pmax < sum c {0..<s} + c s"
      unfolding run using point_up [of ?k ?grow c 0 pmax ?half] grow even k by (auto simp: less_Suc_eq_le)
    have sn: "s \<le> n" using s(2) k by simp
    have pos: "1 \<le> s"
    proof (rule ccontr)
      assume "\<not> 1 \<le> s"
      then have "s = 0" by simp
      then show False using s(4) high [of 0] n by auto
    qed
    show ?thesis
    proof (cases "pmax < sum c {0..<s} + c s")
      case True
      have "sum c {s..<n + 1} \<le> pmax"
        using True cut [of s] fits high [of s] high [OF new] sn by simp
      then show ?thesis using s(1,3) pos sn by blast
    next
      case False
      then have k: "s + 1 = ?k" using s(4) by simp
      show ?thesis
      proof (cases "newindx < s")
        case True
        then have "sum c {s..<n + 1} \<le> pmax" using cut [of s] fits part [of 0 s] sn by simp
        then show ?thesis using s(1,3) pos sn by blast
      next
        case False
        then have "\<not> leaf" "s = newindx" using k up(2) by auto
        moreover have "sum c {s..<n + 1} + 10 \<le> pmax + c newindx" using cut [of s] fits one [OF pos sn] sn by simp
        ultimately show ?thesis using s(1,3) pos sn by blast
      qed
    qed
  next
    case down
    have run: "split_point leaf mp copy n newindx nsize pmax
        = point_loop ?grow pmax True ?half (sum c {n + 1..<n + 1}) (rev [?half..<n + 1])"
      using checked down by (simp add: split_point_def split_checked_def Let_def)
    obtain s where s: "split_point leaf mp copy n newindx nsize pmax = Some s" "?half < s" "s \<le> n + 1" "sum c {s..<n + 1} \<le> pmax"
      "s = ?half + 1 \<or> pmax < sum c {s..<n + 1} + c (s - 1)"
      unfolding run using point_down [of "n + 1" ?grow c ?half "n + 1" pmax ?half] grow even n down by auto
    have sn: "s \<le> n"
    proof (rule ccontr)
      assume "\<not> s \<le> n"
      then have "s = n + 1" using s(3) by simp
      then show False using s(5) high [of n] down by auto
    qed
    then have prev: "s - 1 \<le> n" by simp
    have "sum c {0..<s} \<le> pmax"
    proof (cases "pmax < sum c {s..<n + 1} + c (s - 1)")
      case True
      then show ?thesis using cut [of s] fits high [OF prev] high [OF new] sn by simp
    next
      case False
      then have "s \<le> newindx" using s(5) down(2) by simp
      then show ?thesis using cut [of s] fits part [of s "n + 1"] new sn by simp
    qed
    then show ?thesis using s(1,2,4) sn by auto
  qed
qed

section \<open>The pointers in the copy\<close>

text \<open>Where a node of the page is once the new one has come to \<open>newindx\<close>.\<close>

definition slot :: "nat \<Rightarrow> nat \<Rightarrow> nat" where
  "slot newindx t = (if t < newindx then t else t + 1)"

lemma split_ptrs_result:
  assumes "PAGEHDRSZ + 2 * (i + k) \<le> length mp" and "PAGEHDRSZ + 2 * (i + k + 1) \<le> length copy" and "j = (if i \<le> newindx then i else i + 1)"
  shows "\<exists>c. split_ptrs mp copy newindx i j k = Some c \<and> changed_within PAGEHDRSZ (PAGEHDRSZ + 2 * (i + k + 1)) copy c
    \<and> (\<forall>t. t < j \<longrightarrow> raw_ptr c t = raw_ptr copy t) \<and> (\<forall>t. i \<le> t \<and> t < i + k \<longrightarrow> raw_ptr c (slot newindx t) = raw_ptr mp t)"
  using assms
proof (induction k arbitrary: i j copy)
  case 0
  then show ?case by (intro exI [of _ copy]) auto
next
  case (Suc k)
  obtain c1 j1 where c1: "(if i = newindx then map_option (\<lambda>c. (c, j + 1)) (store16 copy (PAGEHDRSZ + 2 * j) 0) else Some (copy, j)) = Some (c1, j1)"
    "changed_within (PAGEHDRSZ + 2 * j) (PAGEHDRSZ + 2 * j1) copy c1" "j1 = slot newindx i" "j \<le> j1"
  proof (cases "i = newindx")
    case True
    obtain c where "store16 copy (PAGEHDRSZ + 2 * j) 0 = Some c" using Suc.prems True store16_ex by force
    then show ?thesis using that [of c "j + 1"] True Suc.prems(3) store16_changed by (simp add: slot_def)
  next
    case False
    then show ?thesis using that [of copy j] Suc.prems(3) by (simp add: slot_def)
  qed
  have j1: "j1 \<le> i + 1" using c1(3) by (simp add: slot_def)
  obtain w where w: "raw_ptr mp i = Some w" using Suc.prems(1) load16_ex unfolding raw_ptr_def by force
  obtain c2 where c2: "store16 c1 (PAGEHDRSZ + 2 * j1) w = Some c2"
    using Suc.prems(2) j1 changed_length [OF c1(2)] store16_ex by force
  note ch = store16_changed [OF c2]
  have all: "changed_within (PAGEHDRSZ + 2 * j) (PAGEHDRSZ + 2 * (j1 + 1)) copy c2"
    by (rule changed_within_trans [OF c1(2) ch]) (use c1(4) in simp_all)
  have step: "j1 + 1 = (if i + 1 \<le> newindx then i + 1 else i + 1 + 1)" using c1(3) by (auto simp: slot_def)
  obtain c where c: "split_ptrs mp c2 newindx (i + 1) (j1 + 1) k = Some c" "changed_within PAGEHDRSZ (PAGEHDRSZ + 2 * (i + 1 + k + 1)) c2 c"
    "\<forall>t. t < j1 + 1 \<longrightarrow> raw_ptr c t = raw_ptr c2 t" "\<forall>t. i + 1 \<le> t \<and> t < i + 1 + k \<longrightarrow> raw_ptr c (slot newindx t) = raw_ptr mp t"
    using Suc.IH [of "i + 1" c2 "j1 + 1"] Suc.prems step changed_length [OF all] by auto
  have "split_ptrs mp copy newindx i j (Suc k) = Some c" using c1(1) w c2 c(1) by simp
  moreover have "changed_within PAGEHDRSZ (PAGEHDRSZ + 2 * (i + Suc k + 1)) copy c"
    by (rule changed_within_trans [OF all c(2)]) (use j1 in simp_all)
  moreover have "raw_ptr c t = raw_ptr copy t" if "t < j" for t
    using that c(3) c1(4) changed_load16 [OF all, of "PAGEHDRSZ + 2 * t"] by (simp add: raw_ptr_def)
  moreover have "raw_ptr c (slot newindx t) = raw_ptr mp t" if "i \<le> t" "t < i + Suc k" for t
  proof (cases "t = i")
    case True
    then show ?thesis using c(3) c1(3) w load16_store16 [OF c2] by (simp add: raw_ptr_def)
  next
    case False
    then show ?thesis using that c(4) by simp
  qed
  ultimately show ?case by blast
qed

lemma empty_layout:
  assumes "length p = psize" and "PAGEHDRSZ \<le> psize" and "psize \<le> 2 ^ 15" and "even psize"
    and "raw_flags p = Some fl" and "F_ISSET fl FLAG_LEAF = leaf" and "\<not> F_ISSET fl FLAG_LEAF2"
    and "raw_lower p = Some (of_nat PAGEHDRSZ)" and "raw_upper p = Some (of_nat psize)"
  shows "page_layout leaf psize p (psize - PAGEHDRSZ)" "raw_nodes p = Some []"
proof -
  have L: "layout leaf psize p psize []" by (rule layoutI) (use assms in simp_all)
  then show "page_layout leaf psize p (psize - PAGEHDRSZ)"
    unfolding page_layout_def by (intro exI [of _ psize] exI [of _ "[]"]) simp
  show "raw_nodes p = Some []" using layout_nodes [OF L] by simp
qed

lemma split_prepare_result:
  assumes L: "layout leaf psize mp up regs" and copy: "length copy = psize" and room: "PAGEHDRSZ + 2 * (length regs + 1) \<le> psize"
  shows "\<exists>c. split_prepare mp copy psize (length regs) newindx = Some c \<and> page_layout leaf psize c (psize - PAGEHDRSZ)
    \<and> raw_nodes c = Some [] \<and> (\<forall>t < length regs. raw_ptr c (slot newindx t) = raw_ptr mp t)"
proof -
  obtain fl where P: "length mp = psize" "psize \<le> 2 ^ 15" "raw_flags mp = Some fl" "F_ISSET fl FLAG_LEAF = leaf" "\<not> F_ISSET fl FLAG_LEAF2" "even psize"
    using L by (rule layoutE)
  have H: "PAGEHDRSZ = 16" by (simp add: PAGEHDRSZ_def)
  obtain pgno where pgno: "raw_page_pgno mp = Some pgno"
    using P(1) room H by (simp add: raw_page_pgno_def load64_def load_bytes_Some)
  obtain c0 where c0: "store64 copy 0 pgno = Some c0"
    using store_bytes_ex [of 0 "le_chars 8 (unat pgno)" copy] copy room H by (auto simp: store64_def)
  have l0: "length c0 = psize" using store_bytes_length [OF c0 [unfolded store64_def]] copy by simp
  obtain c1 where c1: "store16 c0 10 fl = Some c1" using store16_ex [of 10 c0] l0 room H by auto
  obtain c2 where c2: "store16 c1 12 (of_nat PAGEHDRSZ) = Some c2"
    using store16_ex [of 12 c1] store16_length [OF c1] l0 room H by auto
  obtain c3 where c3: "store16 c2 14 (of_nat psize) = Some c3"
    using store16_ex [of 14 c2] store16_length [OF c2] store16_length [OF c1] l0 room H by auto
  note l = store16_length [OF c1] store16_length [OF c2] store16_length [OF c3]
  obtain c where c: "split_ptrs mp c3 newindx 0 0 (length regs) = Some c" "changed_within PAGEHDRSZ (PAGEHDRSZ + 2 * (length regs + 1)) c3 c"
    "\<forall>t < length regs. raw_ptr c (slot newindx t) = raw_ptr mp t"
    using split_ptrs_result [of 0 "length regs" mp c3 0 newindx] P(1) room l l0 by auto
  note ch2 = changed_load16 [OF store16_changed [OF c2]] and ch3 = changed_load16 [OF store16_changed [OF c3]]
  have hdr: "load16 c ofs = load16 c3 ofs" if "ofs + 2 \<le> PAGEHDRSZ" for ofs using changed_load16 [OF c(2)] that by simp
  have "raw_flags c = Some fl" "raw_lower c = Some (of_nat PAGEHDRSZ)" "raw_upper c = Some (of_nat psize)"
    using hdr [of 10] hdr [of 12] hdr [of 14] ch2 [of 10] ch3 [of 10] ch3 [of 12] load16_store16 [OF c1] load16_store16 [OF c2]
      load16_store16 [OF c3] H by (simp_all add: raw_flags_def raw_lower_def raw_upper_def)
  then have "page_layout leaf psize c (psize - PAGEHDRSZ)" "raw_nodes c = Some []"
    using P room l l0 changed_length [OF c(2)] by (intro empty_layout; simp)+
  moreover have "split_prepare mp copy psize (length regs) newindx = Some c"
    using pgno P(3) c0 c1 c2 c3 c(1) by (simp add: split_prepare_def)
  ultimately show ?thesis using c(3) by blast
qed

section \<open>The two halves\<close>

text \<open>The nodes of the page with the new one, and a page of some of them: on a branch the first has no key.\<close>

definition inserted :: "nat \<Rightarrow> mdb_node \<Rightarrow> mdb_node list \<Rightarrow> mdb_node list" where
  "inserted newindx nn ns = take newindx ns @ nn # drop newindx ns"

fun first_blank :: "bool \<Rightarrow> mdb_node list \<Rightarrow> mdb_node list" where
  "first_blank leaf [] = []"
| "first_blank leaf (n # ns) = (if leaf then n else Branch_node [] (nd_pgno n)) # ns"

lemma inserted_length [simp]: "length (inserted newindx nn ns) = length ns + 1"
  by (simp add: inserted_def)

lemma set_inserted: "set (inserted newindx nn ns) = insert nn (set ns)"
  by (simp add: inserted_def) (metis append_take_drop_id set_append)

lemma inserted_new: "newindx \<le> length ns \<Longrightarrow> inserted newindx nn ns ! newindx = nn"
  by (simp add: inserted_def nth_append)

lemma inserted_old:
  assumes "i \<le> length ns" and "i \<noteq> newindx" and "newindx \<le> length ns"
  obtains t where "t < length ns" "i = slot newindx t" "inserted newindx nn ns ! i = ns ! t"
proof (cases "i < newindx")
  case True
  then show ?thesis using that [of i] assms by (simp add: slot_def inserted_def nth_append)
next
  case False
  then show ?thesis using that [of "i - 1"] assms by (simp add: slot_def inserted_def nth_append nth_Cons')
qed

lemma node_bytes_ge: "8 \<le> node_bytes n" and node_bytes_even: "even (node_bytes n)"
proof -
  have "8 \<le> EVEN (NODESIZE + m)" for m unfolding NODESIZE_def EVEN_def by presburger
  then show "8 \<le> node_bytes n" by (cases n) (simp_all add: add.assoc)
  show "even (node_bytes n)" by (cases n) (simp_all add: EVEN_le)
qed

lemma used_simps [simp]: "used [] = 0" "used (n # ns) = node_bytes n + 2 + used ns" "used (xs @ ys) = used xs + used ys"
  by (simp_all add: used_def)

lemma used_ge: "10 * length ns \<le> used ns"
proof (induction ns)
  case (Cons n ns)
  then show ?case using node_bytes_ge [of n] by simp
qed simp

lemma used_sum: "used xs = (\<Sum>i = 0..<length xs. node_bytes (xs ! i) + 2)"
  by (simp add: used_def sum_list_sum_nth)

lemma used_take: "s \<le> length xs \<Longrightarrow> used (take s xs) = (\<Sum>i = 0..<s. node_bytes (xs ! i) + 2)"
  by (simp add: used_sum min_def)

lemma used_drop:
  assumes "s \<le> length xs"
  shows "used (drop s xs) = (\<Sum>i = s..<length xs. node_bytes (xs ! i) + 2)"
proof -
  have "used (take s xs) + used (drop s xs) = used xs" by (metis append_take_drop_id used_simps(3))
  moreover have "(\<Sum>i = 0..<s. node_bytes (xs ! i) + 2) + (\<Sum>i = s..<length xs. node_bytes (xs ! i) + 2)
      = (\<Sum>i = 0..<length xs. node_bytes (xs ! i) + 2)"
    using assms by (intro sum.atLeastLessThan_concat) simp_all
  ultimately show ?thesis using used_take [OF assms] used_sum [of xs] by linarith
qed

lemma used_blank: "used (first_blank leaf ns) \<le> used ns"
  by (cases ns) (use node_bytes_ge [of "hd ns"] in \<open>auto simp: NODESIZE_def EVEN_def\<close>)

lemma used_blank_branch: "ns \<noteq> [] \<Longrightarrow> used (first_blank False ns) + node_bytes (hd ns) = used ns + 8"
  by (cases ns) (auto simp: NODESIZE_def EVEN_def)

lemma node_at:
  assumes "layout leaf psize p up regs" and "raw_nodes p = Some ns" and "t < length ns"
  shows "\<exists>w. raw_ptr p t = Some w \<and> raw_node leaf p (unat w) = Some (ns ! t)"
proof -
  have ns: "ns = List.map (\<lambda>r. the (raw_node leaf p (fst r))) regs" using layout_nodes [OF assms(1)] assms(2) by simp
  then have t: "t < length regs" "regs ! t \<in> set regs" using assms(3) by simp_all
  note g = layout_region [OF assms(1) t(2)]
  have "length p = psize" using assms(1) by (rule layoutE)
  then obtain n where "raw_node leaf p (fst (regs ! t)) = Some n" using raw_node_defined [OF g(1)] g(3) by auto
  then show ?thesis using layout_ptr [OF assms(1) t(1)] unat_small [OF g(4)] ns t(1) by simp
qed

lemma split_size_old:
  assumes "i \<noteq> newindx" and "raw_ptr copy i = Some w" and "raw_node leaf mp (unat w) = Some n" and "even ps"
  shows "split_size leaf mp copy newindx nsize i ps = Some (ps + (node_bytes n + 2))"
proof -
  obtain k d where kd: "node_ksize mp (unat w) = Some k" "node_payload leaf mp (unat w) = Some d" "node_bytes n = EVEN (NODESIZE + k + d)"
    using raw_node_bytes [OF assms(3)] by (auto simp: raw_node_size_def bind_eq_Some_conv)
  have "EVEN (ps + x + 2) = ps + (EVEN x + 2)" for x using assms(4) unfolding EVEN_def by presburger
  from this [of "NODESIZE + k + d"] show ?thesis
    using assms(1,2) kd by (simp add: split_size_def add.commute add.left_commute)
qed

lemma page_layout_layout:
  assumes "page_layout leaf psize p left" and "raw_nodes p = Some ns"
  obtains up regs where "layout leaf psize p up regs" "length regs = length ns"
  using assms layout_nodes by (fastforce simp: page_layout_def)

lemma split_fits_point:
  assumes page: "page_layout leaf psize mp left" and ns: "raw_nodes mp = Some ns" and copy: "length copy = psize"
    and new: "newindx \<le> length ns" and full: "left < node_bytes nn + 2"
    and half: "\<And>n. n \<in> set (nn # ns) \<Longrightarrow> 2 * (node_bytes n + 2) \<le> psize - PAGEHDRSZ"
    and checked: "split_checked (length ns) newindx (node_bytes nn + 2) (psize - PAGEHDRSZ)"
  shows "\<exists>c s. split_prepare mp copy psize (length ns) newindx = Some c
    \<and> split_point leaf mp c (length ns) newindx (node_bytes nn + 2) (psize - PAGEHDRSZ) = Some s \<and> 1 \<le> s \<and> s \<le> length ns
    \<and> used (first_blank leaf (take s (inserted newindx nn ns))) \<le> psize - PAGEHDRSZ
    \<and> used (first_blank leaf (drop s (inserted newindx nn ns))) \<le> psize - PAGEHDRSZ"
proof -
  let ?items = "inserted newindx nn ns" and ?n = "length ns"
  let ?c = "\<lambda>i. node_bytes (?items ! i) + 2"
  obtain up regs where L: "layout leaf psize mp up regs" "length regs = ?n" using page ns by (rule page_layout_layout)
  have space: "left + used ns + PAGEHDRSZ = psize" using page ns by (rule page_space)
  have total: "used ?items = used ns + (node_bytes nn + 2)"
  proof -
    have "used (take newindx ns) + used (drop newindx ns) = used ns" by (metis append_take_drop_id used_simps(3))
    then show ?thesis by (simp add: inserted_def)
  qed
  have "1 \<le> ?n"
  proof (rule ccontr)
    assume "\<not> 1 \<le> ?n"
    then have "ns = []" by (cases ns) simp_all
    then show False using space full half [of nn] by simp
  qed
  then have room: "PAGEHDRSZ + 2 * (length regs + 1) \<le> psize" using used_ge [of ns] space L(2) by simp
  obtain c where c: "split_prepare mp copy psize ?n newindx = Some c" "\<forall>t < ?n. raw_ptr c (slot newindx t) = raw_ptr mp t"
    using split_prepare_result [OF L(1) copy room, of newindx] L(2) by auto
  have grow: "split_size leaf mp c newindx (node_bytes nn + 2) i ps = Some (ps + ?c i)" if ips: "i \<le> ?n" "even ps" for i ps
  proof (cases "i = newindx")
    case True
    then show ?thesis using inserted_new [OF new] by (simp add: split_size_def)
  next
    case False
    obtain t where t: "t < ?n" "i = slot newindx t" "?items ! i = ns ! t" by (rule inserted_old [OF ips(1) False new])
    obtain w where "raw_ptr mp t = Some w" "raw_node leaf mp (unat w) = Some (ns ! t)" using node_at [OF L(1) ns t(1)] by auto
    then show ?thesis using split_size_old [OF False, of c w leaf mp "ns ! t" ps] c(2) t ips(2) by simp
  qed
  have item: "?items ! i \<in> set (nn # ns)" if "i \<le> ?n" for i
    using nth_mem [of i ?items] that set_inserted [of newindx nn ns] by simp
  have fits: "sum ?c {0..<?n + 1} \<le> psize - PAGEHDRSZ + ?c newindx" "psize - PAGEHDRSZ < sum ?c {0..<?n + 1}"
    using total used_sum [of ?items] space full inserted_new [OF new] by simp_all
  obtain s where s: "split_point leaf mp c ?n newindx (node_bytes nn + 2) (psize - PAGEHDRSZ) = Some s" "1 \<le> s" "s \<le> ?n"
    "sum ?c {0..<s} \<le> psize - PAGEHDRSZ"
    "sum ?c {s..<?n + 1} \<le> psize - PAGEHDRSZ \<or> \<not> leaf \<and> s = newindx \<and> sum ?c {s..<?n + 1} + 10 \<le> psize - PAGEHDRSZ + ?c newindx"
    using split_point_halves [OF grow _ _ half [OF item] new fits checked] node_bytes_even node_bytes_ge by auto
  have drop: "used (drop s ?items) = sum ?c {s..<?n + 1}" using used_drop [of s ?items] s(3) by simp
  have "used (first_blank leaf (take s ?items)) \<le> psize - PAGEHDRSZ"
    using used_blank [of leaf "take s ?items"] used_take [of s ?items] s(3,4) by simp
  moreover have "used (first_blank leaf (drop s ?items)) \<le> psize - PAGEHDRSZ"
  proof (cases "sum ?c {s..<?n + 1} \<le> psize - PAGEHDRSZ")
    case True
    then show ?thesis using used_blank [of leaf "drop s ?items"] drop by simp
  next
    case False
    then have b: "\<not> leaf" "s = newindx" "sum ?c {s..<?n + 1} + 10 \<le> psize - PAGEHDRSZ + ?c newindx" using s(5) by auto
    have "drop s ?items \<noteq> []" "hd (drop s ?items) = ?items ! newindx" using s(3) b(2) by (simp_all add: hd_drop_conv_nth)
    then show ?thesis using used_blank_branch [of "drop s ?items"] drop b(1,3) by simp
  qed
  ultimately show ?thesis using c(1) s(1-3) by blast
qed

end
