(* ===== verification/Lmdb_Move_Props.thy ===== *)
theory Lmdb_Move_Props
  imports Lmdb_Split_Props
begin

text \<open>
  Moving the nodes of a page that is split: a node read from the page and added to another is the
  same node, so the right page and the copy end up with the two halves, and what is copied back is
  the left half.
\<close>

section \<open>The nodes to add\<close>

text \<open>The arguments of \<open>mdb_node_add\<close> describe the node \<open>n\<close>, whose data need no overflow page of its own.\<close>

definition describes :: "bool \<Rightarrow> nat \<Rightarrow> mdb_val \<times> mdb_val option \<times> mdb_id \<times> 32 word \<Rightarrow> mdb_node \<Rightarrow> bool" where
  "describes leaf nodemax args n =
     (case args of (key, data, pgno, flags) \<Rightarrow>
        key_ok (Some key) \<and>
        (if leaf then
           \<exists>d. data = Some d \<and> data_ok d flags None \<and> n = new_node True (Some key) (Some d) pgno flags None
             \<and> (F_ISSET flags F_BIGDATA \<or> NODESIZE + mv_size key + mv_size d \<le> nodemax)
         else unat pgno < 2 ^ 48 \<and> n = Branch_node (key_bytes (Some key)) pgno))"

lemma describes_blank:
  assumes "describes leaf nodemax (key, data, pgno, flags) n" and "n' = (if leaf then n else Branch_node [] (nd_pgno n))"
  shows "describes leaf nodemax (if leaf then key else key\<lparr>mv_size := 0\<rparr>, data, pgno, flags) n'"
  using assms by (cases leaf) (auto simp: describes_def key_ok_def key_bytes_def val_bytes_def)

lemma described_bytes:
  assumes "describes True nodemax (key, Some d, pgno, flags) n"
  shows "node_bytes n = EVEN (NODESIZE + mv_size key + new_payload True (Some d) flags)"
proof -
  have ok: "key_ok (Some key)" "data_ok d flags None" "n = new_node True (Some key) (Some d) pgno flags None"
    using assms by (auto simp: describes_def)
  have "length (key_bytes (Some key)) = mv_size key" using key_size [OF ok(1)] by simp
  moreover have "F_ISSET flags F_BIGDATA \<or> length (val_bytes d) = mv_size d"
    using ok(2) by (auto simp: data_ok_def val_bytes_def min_def split: if_splits)
  ultimately show ?thesis unfolding ok(3) by (auto simp: new_node_def new_payload_def)
qed

lemma node_add_described:
  assumes page: "page_layout leaf psize p left" and ns: "raw_nodes p = Some ns" and i: "i \<le> length ns"
    and args: "describes leaf nodemax (key, data, pgno, flags) n"
  shows "if left < node_bytes n + 2
    then mdb_node_add nodemax psize pad page_new p i (Some key) data pgno flags
        = Some \<lparr>na_rc = MDB_PAGE_FULL, na_page = p, na_txn_error = True, na_overflow = None\<rparr>
    else \<exists>p'. mdb_node_add nodemax psize pad page_new p i (Some key) data pgno flags
        = Some \<lparr>na_rc = MDB_SUCCESS, na_page = p', na_txn_error = False, na_overflow = None\<rparr>
      \<and> page_layout leaf psize p' (left - (node_bytes n + 2)) \<and> raw_nodes p' = Some (take i ns @ n # drop i ns)
      \<and> placed p p' i (PAGEHDRSZ + 2 * (length ns + 1)) (PAGEHDRSZ + 2 * length ns + left - node_bytes n)"
proof (cases leaf)
  case True
  then have leaf: "leaf = True" by simp
  obtain d where d: "data = Some d" "data_ok d flags None" "n = new_node True (Some key) (Some d) pgno flags None"
    "F_ISSET flags F_BIGDATA \<or> NODESIZE + mv_size key + mv_size d \<le> nodemax" and key: "key_ok (Some key)"
    using args True by (auto simp: describes_def)
  have s: "node_bytes n = EVEN (NODESIZE + mv_size key + new_payload True (Some d) flags)"
    using args True d(1) by (intro described_bytes) simp
  have plan: "node_room_for nodemax psize page_new True room (Some key) (Some d) flags
      = Some (if room < int (node_bytes n) then Full else Room (node_bytes n) flags None)" for room
    unfolding s using d(4) by (auto simp: node_room_for_def new_payload_def Let_def)
  show ?thesis
    using leaf_place [OF page [unfolded leaf] ns i key d(2) plan s, of pad pgno]
    unfolding d(3) [symmetric] d(1) leaf option.map(1) .
next
  case False
  then have leaf: "leaf = False" by simp
  have ok: "key_ok (Some key)" "unat pgno < 2 ^ 48" "n = Branch_node (key_bytes (Some key)) pgno"
    using args False by (auto simp: describes_def)
  have size: "mdb_branch_size (Some key) = NODESIZE + mv_size key + 2" by (simp add: mdb_branch_size_def)
  have bytes: "node_bytes n = EVEN (NODESIZE + mv_size key)" unfolding ok(3) using key_size [OF ok(1)] by simp
  have even: "EVEN (mdb_branch_size (Some key)) = node_bytes n + 2" unfolding size bytes by (rule EVEN_add_2)
  have full: "left < mdb_branch_size (Some key) \<longleftrightarrow> left < node_bytes n + 2"
    unfolding size bytes using even_room [OF page_layout_even [OF page]] by simp
  show ?thesis
    using branch_place [OF page [unfolded leaf] ns i ok(1,2), of nodemax pad page_new data flags]
    unfolding even full ok(3) [symmetric] leaf diff_add_inverse2 .
qed

lemma page_node_add_result:
  assumes "page_layout leaf (unat (me_psize (ws_env st))) (ws_mem st mp) left" and "raw_nodes (ws_mem st mp) = Some ns"
    and "i \<le> length ns" and "describes leaf (me_nodemax (ws_env st)) (key, data, pgno, flags) n"
  shows "if left < node_bytes n + 2
    then page_node_add malloc pmalloc fd mp i (Some key) data pgno flags st = Some (MDB_PAGE_FULL, fail_state st)
    else \<exists>p'. page_node_add malloc pmalloc fd mp i (Some key) data pgno flags st
        = Some (MDB_SUCCESS, st\<lparr>ws_mem := (ws_mem st)(mp := p')\<rparr>)
      \<and> page_layout leaf (unat (me_psize (ws_env st))) p' (left - (node_bytes n + 2))
      \<and> raw_nodes p' = Some (take i ns @ n # drop i ns)
      \<and> placed (ws_mem st mp) p' i (PAGEHDRSZ + 2 * (length ns + 1)) (PAGEHDRSZ + 2 * length ns + left - node_bytes n)"
  using node_add_described [OF assms, of 0 "\<lambda>n. Inl (int n)"]
  by (auto simp: page_node_add_def Let_def MDB_SUCCESS_def MDB_PAGE_FULL_def split: if_splits)

section \<open>A node read back\<close>

lemma moved_describes:
  assumes node: "raw_node leaf mp o1 = Some n" and small: "node_bytes n \<le> nodemax"
  shows "\<exists>args. moved_node leaf mp o1 = Some args \<and> describes leaf nodemax args n"
proof -
  obtain k key where k: "node_ksize mp o1 = Some k" "load_bytes mp (o1 + NODESIZE) k = Some key"
    using node by (auto simp: raw_node_def bind_eq_Some_conv)
  let ?key = "\<lparr>mv_size = k, mv_data = drop (o1 + NODESIZE) mp\<rparr>"
  have key: "key_bytes (Some ?key) = key" "length key = k" "o1 + NODESIZE + k \<le> length mp"
    using k(2) load_bytes_length [OF k(2)] by (auto simp: key_bytes_def val_bytes_def load_bytes_def split: if_splits)
  have "unat w < 2 ^ 16" for w :: "16 word" using unsigned_less [of w] by simp
  then have "k < 2 ^ 16" using k(1) by (auto simp: node_ksize_def)
  then have ok: "key_ok (Some ?key)" using key(3) by (simp add: key_ok_def)
  show ?thesis
  proof (cases leaf)
    case True
    obtain fl m where f: "node_flags mp o1 = Some fl" "NODEDSZ mp o1 = Some m"
      using node True k by (auto simp: raw_node_def node_big_def bind_eq_Some_conv)
    let ?d = "\<lparr>mv_size = m, mv_data = drop (o1 + NODESIZE + k) mp\<rparr>" and ?fl = "ucast fl :: 32 word"
    have "unat w < 2 ^ 32" for w :: "32 word" using unsigned_less [of w] by simp
    then have m: "m < 2 ^ 32" using f(2) by (auto simp: NODEDSZ_def bind_eq_Some_conv)
    have "\<not> F_ISSET ?fl MDB_RESERVE"
    proof
      assume "F_ISSET ?fl MDB_RESERVE"
      then have "bit (?fl AND MDB_RESERVE) 16" by (simp add: F_ISSET_def MDB_RESERVE_def)
      then have "bit ?fl 16" by (simp add: bit_and_iff)
      then show False using bit_imp_le_length [of fl 16] by (simp add: bit_simps)
    qed
    moreover have "n = new_node True (Some ?key) (Some ?d) 0 ?fl None \<and> (if F_ISSET ?fl F_BIGDATA then 8 else m) \<le> length (mv_data ?d)"
    proof (cases "F_ISSET ?fl F_BIGDATA")
      case True
      obtain v where "load64 mp (o1 + NODESIZE + k) = Some v" "n = Big_node key m v"
        using node \<open>leaf\<close> True k f by (auto simp: raw_node_def node_big_def bind_eq_Some_conv)
      then show ?thesis using True key(1)
        by (auto simp: new_node_def load64_def load_bytes_def split: if_splits)
    next
      case False
      obtain v where "load_bytes mp (o1 + NODESIZE + k) m = Some v" "n = Leaf_node key v"
        using node \<open>leaf\<close> False k f by (auto simp: raw_node_def node_big_def bind_eq_Some_conv)
      then show ?thesis using False key(1)
        by (auto simp: new_node_def val_bytes_def load_bytes_def split: if_splits)
    qed
    moreover have "F_ISSET ?fl F_BIGDATA \<or> NODESIZE + k + m \<le> nodemax"
    proof -
      have "node_payload True mp o1 = Some (if F_ISSET ?fl F_BIGDATA then 8 else m)"
        using f by (simp add: node_payload_def node_big_def)
      then have "node_bytes n = EVEN (NODESIZE + k + (if F_ISSET ?fl F_BIGDATA then 8 else m))"
        using raw_node_bytes [OF node] True k(1) by (simp add: raw_node_size_def)
      then show ?thesis using small EVEN_le(1) [of "NODESIZE + k + m"] by (auto simp: add.assoc split: if_splits)
    qed
    ultimately have "describes True nodemax (?key, Some ?d, 0, ?fl) n"
      using ok m by (auto simp: describes_def data_ok_def)
    then show ?thesis using True k f by (simp add: moved_node_def)
  next
    case False
    obtain pgno where pgno: "raw_pgno mp o1 = Some pgno" "n = Branch_node key pgno"
      using node False k by (auto simp: raw_node_def)
    obtain lo hi fl where w: "pgno = ucast (lo :: 16 word) OR push_bit 16 (ucast (hi :: 16 word)) OR push_bit 32 (ucast (fl :: 16 word))"
      "node_flags mp o1 = Some fl"
      using pgno(1) by (auto simp: raw_pgno_def node_flags_def bind_eq_Some_conv)
    have "take_bit 48 pgno = pgno" unfolding w(1) by (rule bit_word_eqI) (auto simp: bit_simps dest: bit_imp_le_length)
    then have "unat pgno < 2 ^ 48" by (metis take_bit_nat_less_exp unsigned_take_bit_eq)
    then have "describes False nodemax (?key, None, pgno, ucast fl) n"
      using ok key(1) pgno(2) by (simp add: describes_def)
    then show ?thesis using False k pgno(1) w(2) by (simp add: moved_node_def)
  qed
qed

section \<open>The right page and the copy\<close>

text \<open>
  A page that is being filled with the nodes \<open>xs\<close>, of which it has \<open>j\<close>: the rest still fits.
\<close>

definition filling :: "bool \<Rightarrow> nat \<Rightarrow> mdb_node list \<Rightarrow> nat \<Rightarrow> bytes \<Rightarrow> bool" where
  "filling leaf psize xs j p =
     (page_layout leaf psize p (psize - PAGEHDRSZ - used (first_blank leaf (take j xs))) \<and> raw_nodes p = Some (first_blank leaf (take j xs)))"

text \<open>A node of the page, or the new one, as the loop fetches it.\<close>

text \<open>Number and flags of a page.\<close>

definition page_id :: "bytes \<Rightarrow> mdb_id option \<times> 16 word option" where
  "page_id p = (raw_page_pgno p, raw_flags p)"

lemma page_id_cong: "load_bytes p' 0 8 = load_bytes p 0 8 \<Longrightarrow> load_bytes p' 10 2 = load_bytes p 10 2 \<Longrightarrow> page_id p' = page_id p"
  by (simp add: page_id_def raw_page_pgno_def raw_flags_def load64_def load16_def)

definition fetched :: "bool \<Rightarrow> nat \<Rightarrow> bytes \<Rightarrow> bytes \<Rightarrow> nat \<Rightarrow> mdb_val \<times> mdb_val option \<times> mdb_id \<times> 32 word \<Rightarrow> mdb_node list \<Rightarrow> nat \<Rightarrow> bool" where
  "fetched leaf nodemax mp copy newindx new items i =
     (\<exists>args. (if i = newindx then Some new else do { w \<leftarrow> raw_ptr copy i; moved_node leaf mp (unat w) }) = Some args
        \<and> describes leaf nodemax args (items ! i))"

lemma first_blank_append:
  "first_blank leaf (xs @ ys) = (if xs = [] then first_blank leaf ys else first_blank leaf xs @ ys)"
  by (cases xs) simp_all

lemma length_first_blank [simp]: "length (first_blank leaf xs) = length xs"
  by (cases xs) simp_all

lemma blank_take_Suc:
  "j < length xs \<Longrightarrow> first_blank leaf (take (Suc j) xs)
     = first_blank leaf (take j xs) @ [if j = 0 \<and> \<not> leaf then Branch_node [] (nd_pgno (xs ! j)) else xs ! j]"
  by (cases j) (auto simp: take_Suc_conv_app_nth first_blank_append)

lemma fill_step:
  assumes fill: "filling leaf psize xs j (ws_mem st here)" and j: "j < length xs"
    and fits: "used (first_blank leaf (take (Suc j) xs)) \<le> psize - PAGEHDRSZ"
    and args: "describes leaf (me_nodemax (ws_env st)) (key, data, pgno, flags) (xs ! j)" and psize: "psize = unat (me_psize (ws_env st))"
    and key': "key' = (if \<not> leaf \<and> j = 0 then key\<lparr>mv_size := 0\<rparr> else key)"
  shows "\<exists>p'. page_node_add malloc pmalloc fd here j (Some key') data pgno flags st = Some (MDB_SUCCESS, st\<lparr>ws_mem := (ws_mem st)(here := p')\<rparr>)
    \<and> filling leaf psize xs (Suc j) p' \<and> raw_ptr p' j = raw_upper p' \<and> page_id p' = page_id (ws_mem st here)
    \<and> (\<forall>t. j < t \<and> PAGEHDRSZ + 2 * (t - j) + used (first_blank leaf (take (Suc j) xs)) \<le> psize \<longrightarrow>
         raw_ptr p' t = raw_ptr (ws_mem st here) t)"
proof -
  define n where "n = (if j = 0 \<and> \<not> leaf then Branch_node [] (nd_pgno (xs ! j)) else xs ! j)"
  let ?ns = "first_blank leaf (take j xs)" and ?left = "psize - PAGEHDRSZ - used (first_blank leaf (take j xs))"
  have all: "first_blank leaf (take (Suc j) xs) = ?ns @ [n]" using blank_take_Suc [OF j] by (simp add: n_def)
  have n: "describes leaf (me_nodemax (ws_env st)) (key', data, pgno, flags) n"
    using args describes_blank [OF args] by (cases leaf) (auto simp: key' n_def)
  have room: "\<not> ?left < node_bytes n + 2" "?left - (node_bytes n + 2) = psize - PAGEHDRSZ - used (?ns @ [n])"
    using fits unfolding all by simp_all
  have len: "j \<le> length ?ns" "length ?ns = j" using j by simp_all
  obtain p' where p': "page_node_add malloc pmalloc fd here j (Some key') data pgno flags st = Some (MDB_SUCCESS, st\<lparr>ws_mem := (ws_mem st)(here := p')\<rparr>)"
    "page_layout leaf psize p' (psize - PAGEHDRSZ - used (?ns @ [n]))" "raw_nodes p' = Some (?ns @ [n])"
    "placed (ws_mem st here) p' j (PAGEHDRSZ + 2 * (j + 1)) (PAGEHDRSZ + 2 * j + ?left - node_bytes n)"
    using page_node_add_result [of leaf st here ?left ?ns j key' data pgno flags n malloc pmalloc fd] fill n room len
    unfolding filling_def psize by auto
  have "raw_ptr p' t = raw_ptr (ws_mem st here) t" if "j < t" "PAGEHDRSZ + 2 * (t - j) + used (?ns @ [n]) \<le> psize" for t
  proof -
    have "PAGEHDRSZ + 2 * t + 2 \<le> PAGEHDRSZ + 2 * j + ?left - node_bytes n" using that by simp
    moreover have "PAGEHDRSZ + 2 * (j + 1) \<le> PAGEHDRSZ + 2 * t" using that(1) by simp
    ultimately show ?thesis using p'(4) load16_cong unfolding placed_def raw_ptr_def by blast
  qed
  moreover have "page_id p' = page_id (ws_mem st here)" using p'(4) by (intro page_id_cong) (simp_all add: placed_def)
  ultimately show ?thesis using p' unfolding filling_def all by (auto simp: placed_def)
qed

abbreviation add_key ::
  "allocator \<Rightarrow> (nat \<Rightarrow> nat option) \<Rightarrow> free_db \<Rightarrow> nat \<Rightarrow> nat \<Rightarrow> mdb_val \<Rightarrow> mdb_val option \<Rightarrow> mdb_id \<Rightarrow> 32 word \<Rightarrow> write_state
     \<Rightarrow> (int \<times> write_state) option" where
  "add_key malloc pmalloc fd \<equiv> \<lambda>page j key. page_node_add malloc pmalloc fd page j (Some key)"

text \<open>What is left to add takes space too, so the pointers of the nodes to come are not overwritten.\<close>

lemma used_rest:
  assumes "j < length xs"
  shows "used (first_blank leaf (take (Suc j) xs)) + 10 * (length xs - Suc j) \<le> used (first_blank leaf xs)"
proof -
  have "first_blank leaf xs = first_blank leaf (take (Suc j) xs) @ drop (Suc j) xs"
    using first_blank_append [of leaf "take (Suc j) xs" "drop (Suc j) xs"] assms by auto
  then show ?thesis using used_ge [of "drop (Suc j) xs"] by simp
qed

lemma move_step:
  assumes get: "fetched leaf (me_nodemax (ws_env st)) (ws_mem st mp) (ws_mem st copy) newindx new items i" and item: "xs ! j = items ! i"
    and fill: "filling leaf psize xs j (ws_mem st here)" and j: "j < length xs"
    and fits: "used (first_blank leaf xs) \<le> psize - PAGEHDRSZ" and psize: "psize = unat (me_psize (ws_env st))"
  shows "\<exists>p'. move_loop (add_key malloc pmalloc fd) leaf mp copy nkeys newindx split new (Suc fuel) i j here at st =
      (let (i1, j1, here1) = (if i = nkeys then (0, 0, copy) else (i + 1, j + 1, here)); at1 = (if i = newindx then j else at);
           st1 = st\<lparr>ws_mem := (ws_mem st)(here := p')\<rparr>
       in if i1 = split then Some (MDB_SUCCESS, here1, at1, st1) else move_loop (add_key malloc pmalloc fd) leaf mp copy nkeys newindx split new fuel i1 j1 here1 at1 st1)
    \<and> filling leaf psize xs (Suc j) p' \<and> raw_ptr p' j = raw_upper p' \<and> page_id p' = page_id (ws_mem st here)
    \<and> (\<forall>t. j < t \<and> t < length xs \<longrightarrow> raw_ptr p' t = raw_ptr (ws_mem st here) t)"
proof -
  obtain key data pgno flags where a: "(if i = newindx then Some new
      else do { w \<leftarrow> raw_ptr (ws_mem st copy) i; moved_node leaf (ws_mem st mp) (unat w) }) = Some (key, data, pgno, flags)"
    "describes leaf (me_nodemax (ws_env st)) (key, data, pgno, flags) (xs ! j)"
    using get unfolding fetched_def item by (metis prod_cases4)
  let ?key = "if \<not> leaf \<and> j = 0 then key\<lparr>mv_size := 0\<rparr> else key"
  note rest = used_rest [OF j, of leaf]
  have now: "used (first_blank leaf (take (Suc j) xs)) \<le> psize - PAGEHDRSZ" using rest fits by linarith
  obtain p' where p': "page_node_add malloc pmalloc fd here j (Some ?key) data pgno flags st = Some (MDB_SUCCESS, st\<lparr>ws_mem := (ws_mem st)(here := p')\<rparr>)"
    "filling leaf psize xs (Suc j) p'" "raw_ptr p' j = raw_upper p'" "page_id p' = page_id (ws_mem st here)"
    "\<forall>t. j < t \<and> PAGEHDRSZ + 2 * (t - j) + used (first_blank leaf (take (Suc j) xs)) \<le> psize \<longrightarrow> raw_ptr p' t = raw_ptr (ws_mem st here) t"
    using fill_step [OF fill j now a(2) psize refl] by blast
  have pos: "0 < used (first_blank leaf (take (Suc j) xs))"
    using used_ge [of "first_blank leaf (take (Suc j) xs)"] j by simp
  have "raw_ptr p' t = raw_ptr (ws_mem st here) t" if "j < t" "t < length xs" for t
  proof -
    have "2 * (t - j) \<le> 10 * (length xs - Suc j)" using that by simp
    then have "PAGEHDRSZ + 2 * (t - j) + used (first_blank leaf (take (Suc j) xs)) \<le> psize" using rest fits pos by linarith
    then show ?thesis using p'(5) that(1) by blast
  qed
  moreover have "move_loop (add_key malloc pmalloc fd) leaf mp copy nkeys newindx split new (Suc fuel) i j here at st =
      (let (i1, j1, here1) = (if i = nkeys then (0, 0, copy) else (i + 1, j + 1, here)); at1 = (if i = newindx then j else at);
           st1 = st\<lparr>ws_mem := (ws_mem st)(here := p')\<rparr>
       in if i1 = split then Some (MDB_SUCCESS, here1, at1, st1) else move_loop (add_key malloc pmalloc fd) leaf mp copy nkeys newindx split new fuel i1 j1 here1 at1 st1)"
    unfolding move_loop.simps a(1) bind.bind_lunit prod.case Let_def p'(1) by simp
  ultimately show ?thesis using p'(2-4) by blast
qed

lemma fetched_cong:
  "fetched leaf nodemax mp copy newindx new items i \<Longrightarrow> raw_ptr copy' i = raw_ptr copy i \<Longrightarrow> fetched leaf nodemax mp copy' newindx new items i"
  by (auto simp: fetched_def)

lemma move_left:
  assumes "\<And>t. i \<le> t \<Longrightarrow> t < s \<Longrightarrow> fetched leaf (me_nodemax (ws_env st)) (ws_mem st mp) (ws_mem st copy) newindx new items t"
    and "filling leaf psize (take s items) i (ws_mem st copy)" and "i < s" and "s \<le> nkeys" and "s \<le> length items"
    and "used (first_blank leaf (take s items)) \<le> psize - PAGEHDRSZ" and "s \<le> i + fuel" and "copy \<noteq> mp"
    and "psize = unat (me_psize (ws_env st))"
  shows "\<exists>c'. move_loop (add_key malloc pmalloc fd) leaf mp copy nkeys newindx s new fuel i i copy at st
      = Some (MDB_SUCCESS, copy, if i \<le> newindx \<and> newindx < s then newindx else at, st\<lparr>ws_mem := (ws_mem st)(copy := c')\<rparr>)
    \<and> filling leaf psize (take s items) s c' \<and> raw_ptr c' (s - 1) = raw_upper c'"
  using assms
proof (induction fuel arbitrary: i at st)
  case 0
  then show ?case by simp
next
  case (Suc fuel)
  let ?at = "if i = newindx then i else at"
  note get = Suc.prems(1) [OF order.refl Suc.prems(3)]
  have xs: "take s items ! i = items ! i" "i < length (take s items)" using Suc.prems(3,5) by simp_all
  obtain p' where p': "move_loop (add_key malloc pmalloc fd) leaf mp copy nkeys newindx s new (Suc fuel) i i copy at st =
      (let (i1, j1, here1) = (if i = nkeys then (0, 0, copy) else (i + 1, i + 1, copy)); at1 = ?at;
           st1 = st\<lparr>ws_mem := (ws_mem st)(copy := p')\<rparr>
       in if i1 = s then Some (MDB_SUCCESS, here1, at1, st1)
          else move_loop (add_key malloc pmalloc fd) leaf mp copy nkeys newindx s new fuel i1 j1 here1 at1 st1)"
    "filling leaf psize (take s items) (Suc i) p'" "raw_ptr p' i = raw_upper p'"
    "\<forall>t. i < t \<and> t < length (take s items) \<longrightarrow> raw_ptr p' t = raw_ptr (ws_mem st copy) t"
    using move_step [OF get xs(1) Suc.prems(2) xs(2) Suc.prems(6,9), of malloc pmalloc fd nkeys s fuel at] by blast
  let ?st = "st\<lparr>ws_mem := (ws_mem st)(copy := p')\<rparr>"
  have "i \<noteq> nkeys" using Suc.prems(3,4) by simp
  then have run: "move_loop (add_key malloc pmalloc fd) leaf mp copy nkeys newindx s new (Suc fuel) i i copy at st =
      (if i + 1 = s then Some (MDB_SUCCESS, copy, ?at, ?st)
       else move_loop (add_key malloc pmalloc fd) leaf mp copy nkeys newindx s new fuel (i + 1) (i + 1) copy ?at ?st)"
    unfolding p'(1) by (simp add: Let_def)
  show ?case
  proof (cases "i + 1 = s")
    case True
    then show ?thesis using run p'(2,3) by (intro exI [of _ p']) (auto simp del: move_loop.simps fun_upd_apply)
  next
    case False
    have "fetched leaf (me_nodemax (ws_env ?st)) (ws_mem ?st mp) (ws_mem ?st copy) newindx new items t" if "i + 1 \<le> t" "t < s" for t
      using fetched_cong [OF Suc.prems(1) [of t]] p'(4) that Suc.prems(5,8) by simp
    then have "\<exists>c'. move_loop (add_key malloc pmalloc fd) leaf mp copy nkeys newindx s new fuel (i + 1) (i + 1) copy ?at ?st
        = Some (MDB_SUCCESS, copy, if i + 1 \<le> newindx \<and> newindx < s then newindx else ?at, ?st\<lparr>ws_mem := (ws_mem ?st)(copy := c')\<rparr>)
      \<and> filling leaf psize (take s items) s c' \<and> raw_ptr c' (s - 1) = raw_upper c'"
      using False Suc.prems p'(2) by (intro Suc.IH) simp_all
    then show ?thesis using run False Suc.prems(3) by (auto simp del: move_loop.simps fun_upd_apply)
  qed
qed

lemma move_right:
  assumes "\<And>t. t < s \<or> i \<le> t \<Longrightarrow> t \<le> nkeys \<Longrightarrow>
      fetched leaf (me_nodemax (ws_env st)) (ws_mem st mp) (ws_mem st copy) newindx new items t"
    and "filling leaf psize (drop s items) (i - s) (ws_mem st rp)" and "filling leaf psize (take s items) 0 (ws_mem st copy)"
    and "s \<le> i" and "i \<le> nkeys" and "1 \<le> s" and "length items = nkeys + 1"
    and "used (first_blank leaf (take s items)) \<le> psize - PAGEHDRSZ" and "used (first_blank leaf (drop s items)) \<le> psize - PAGEHDRSZ"
    and "nkeys + 1 - i + s \<le> fuel" and "rp \<noteq> mp" and "rp \<noteq> copy" and "copy \<noteq> mp"
    and "psize = unat (me_psize (ws_env st))" and "newindx \<le> nkeys"
  shows "\<exists>r' c'. move_loop (add_key malloc pmalloc fd) leaf mp copy nkeys newindx s new fuel i (i - s) rp at st
      = Some (MDB_SUCCESS, copy, if newindx < s then newindx else if i \<le> newindx then newindx - s else at,
          st\<lparr>ws_mem := (ws_mem st)(rp := r', copy := c')\<rparr>)
    \<and> filling leaf psize (drop s items) (nkeys + 1 - s) r' \<and> filling leaf psize (take s items) s c' \<and> raw_ptr c' (s - 1) = raw_upper c'
    \<and> page_id r' = page_id (ws_mem st rp)"
  using assms
proof (induction fuel arbitrary: i at st)
  case 0
  then show ?case by simp
next
  case (Suc fuel)
  let ?at = "if i = newindx then i - s else at"
  note get = Suc.prems(1) [OF disjI2 [OF order.refl] Suc.prems(5)]
  have xs: "drop s items ! (i - s) = items ! i" "i - s < length (drop s items)" using Suc.prems(4,5,7) by simp_all
  obtain p' where p': "move_loop (add_key malloc pmalloc fd) leaf mp copy nkeys newindx s new (Suc fuel) i (i - s) rp at st =
      (let (i1, j1, here1) = (if i = nkeys then (0, 0, copy) else (i + 1, i - s + 1, rp)); at1 = ?at;
           st1 = st\<lparr>ws_mem := (ws_mem st)(rp := p')\<rparr>
       in if i1 = s then Some (MDB_SUCCESS, here1, at1, st1)
          else move_loop (add_key malloc pmalloc fd) leaf mp copy nkeys newindx s new fuel i1 j1 here1 at1 st1)"
    "filling leaf psize (drop s items) (Suc (i - s)) p'" "page_id p' = page_id (ws_mem st rp)"
    using move_step [OF get xs(1) Suc.prems(2) xs(2) Suc.prems(9,14), of malloc pmalloc fd nkeys s fuel at] by blast
  let ?st = "st\<lparr>ws_mem := (ws_mem st)(rp := p')\<rparr>"
  have get': "fetched leaf (me_nodemax (ws_env ?st)) (ws_mem ?st mp) (ws_mem ?st copy) newindx new items t" if "t < s \<or> i \<le> t" "t \<le> nkeys" for t
    using Suc.prems(1) [OF that] Suc.prems(11,12) by simp
  show ?case
  proof (cases "i = nkeys")
    case True
    have run: "move_loop (add_key malloc pmalloc fd) leaf mp copy nkeys newindx s new (Suc fuel) i (i - s) rp at st =
        move_loop (add_key malloc pmalloc fd) leaf mp copy nkeys newindx s new fuel 0 0 copy ?at ?st"
      unfolding p'(1) using True Suc.prems(6) by (simp add: Let_def)
    have "\<exists>c'. move_loop (add_key malloc pmalloc fd) leaf mp copy nkeys newindx s new fuel 0 0 copy ?at ?st
        = Some (MDB_SUCCESS, copy, if 0 \<le> newindx \<and> newindx < s then newindx else ?at, ?st\<lparr>ws_mem := (ws_mem ?st)(copy := c')\<rparr>)
      \<and> filling leaf psize (take s items) s c' \<and> raw_ptr c' (s - 1) = raw_upper c'"
      using Suc.prems get' by (intro move_left) simp_all
    then obtain c' where c': "move_loop (add_key malloc pmalloc fd) leaf mp copy nkeys newindx s new fuel 0 0 copy ?at ?st
        = Some (MDB_SUCCESS, copy, if 0 \<le> newindx \<and> newindx < s then newindx else ?at, ?st\<lparr>ws_mem := (ws_mem ?st)(copy := c')\<rparr>)"
      "filling leaf psize (take s items) s c'" "raw_ptr c' (s - 1) = raw_upper c'" by blast
    have "Suc (i - s) = nkeys + 1 - s" using True Suc.prems(4) by simp
    then show ?thesis
      using run p'(2,3) True Suc.prems(15) c'
      by (intro exI [of _ p'] exI [of _ c']) (auto simp del: move_loop.simps fun_upd_apply)
  next
    case False
    have run: "move_loop (add_key malloc pmalloc fd) leaf mp copy nkeys newindx s new (Suc fuel) i (i - s) rp at st =
        move_loop (add_key malloc pmalloc fd) leaf mp copy nkeys newindx s new fuel (i + 1) (i + 1 - s) rp ?at ?st"
      unfolding p'(1) using False Suc.prems(4) by (simp add: Let_def Suc_diff_le)
    have "\<exists>r' c'. move_loop (add_key malloc pmalloc fd) leaf mp copy nkeys newindx s new fuel (i + 1) (i + 1 - s) rp ?at ?st
        = Some (MDB_SUCCESS, copy, if newindx < s then newindx else if i + 1 \<le> newindx then newindx - s else ?at,
            ?st\<lparr>ws_mem := (ws_mem ?st)(rp := r', copy := c')\<rparr>)
      \<and> filling leaf psize (drop s items) (nkeys + 1 - s) r' \<and> filling leaf psize (take s items) s c' \<and> raw_ptr c' (s - 1) = raw_upper c'
      \<and> page_id r' = page_id (ws_mem ?st rp)"
      by (rule Suc.IH) (use False Suc.prems p'(2) in \<open>auto simp: Suc_diff_le intro: get'\<close>)
    then obtain r' c' where rc: "move_loop (add_key malloc pmalloc fd) leaf mp copy nkeys newindx s new fuel (i + 1) (i + 1 - s) rp ?at ?st
        = Some (MDB_SUCCESS, copy, if newindx < s then newindx else if i + 1 \<le> newindx then newindx - s else ?at,
            ?st\<lparr>ws_mem := (ws_mem ?st)(rp := r', copy := c')\<rparr>)"
      "filling leaf psize (drop s items) (nkeys + 1 - s) r'" "filling leaf psize (take s items) s c'" "raw_ptr c' (s - 1) = raw_upper c'"
      "page_id r' = page_id (ws_mem ?st rp)"
      by blast
    then show ?thesis
      using run False p'(3)
      by - (rule exI [of _ r'], rule exI [of _ c'], auto simp: fun_upd_same simp del: move_loop.simps fun_upd_apply)
  qed
qed

section \<open>The copy becomes the page\<close>

lemma le_chars_value: "le_chars (length xs) (le_value xs) = xs"
proof (induction xs)
  case (Cons c xs)
  have "char_of ((of_char c + 256 * le_value xs) mod 256) = c"
    by (simp add: mod_simps del: char_of_mod_256)
  moreover have "(of_char c :: nat) < 256" by simp
  then have "(of_char c + 256 * le_value xs) div 256 = le_value xs" by simp
  ultimately show ?case using Cons.IH by (simp only: char_of_mod_256 le_value.simps le_chars.simps list.size(4) One_nat_def add_Suc_right add_0_right)
qed simp

lemma copied16:
  assumes "load16 src ofs = Some w" and "store16 p ofs w = Some p'" and "k < length p"
  shows "p' ! k = (if ofs \<le> k \<and> k < ofs + 2 then src ! k else p ! k)"
proof -
  obtain xs where xs: "load_bytes src ofs 2 = Some xs" "w = of_nat (le_value xs)" using assms(1) by (auto simp: load16_def)
  have len: "length xs = 2" using load_bytes_length [OF xs(1)] by simp
  have "le_value xs < 256 ^ 2"
    using le_value_chars [of 2 "le_value xs"] le_chars_value [of xs] unfolding len by (metis mod_less_divisor zero_less_numeral zero_less_power)
  then have "unat w = le_value xs" unfolding xs(2) by (intro unat_small) simp
  then have "store_bytes p ofs xs = Some p'" using assms(2) le_chars_value [of xs] unfolding len store16_def by simp
  from copied_nth [OF xs(1) this assms(3)] show ?thesis .
qed

lemma same_bytes:
  assumes "length p' = length p" and "\<And>k. ofs \<le> k \<Longrightarrow> k < ofs + m \<Longrightarrow> k < length p \<Longrightarrow> p' ! k = p ! k"
  shows "load_bytes p' ofs m = load_bytes p ofs m"
proof -
  have "take m (drop ofs p') = take m (drop ofs p)" if "ofs + m \<le> length p"
    using that assms by (intro nth_equalityI) auto
  then show ?thesis using assms(1) by (simp add: load_bytes_def)
qed

lemma ptrs_back_result:
  assumes "PAGEHDRSZ + 2 * (i + n) \<le> length mp" and "length copy = length mp"
  shows "\<exists>p. ptrs_back mp copy i n = Some p \<and> length p = length mp
    \<and> (\<forall>k < length mp. p ! k = (if PAGEHDRSZ + 2 * i \<le> k \<and> k < PAGEHDRSZ + 2 * (i + n) then copy ! k else mp ! k))"
  using assms
proof (induction n arbitrary: i mp)
  case 0
  then show ?case by (intro exI [of _ mp]) auto
next
  case (Suc n)
  obtain w where w: "load16 copy (PAGEHDRSZ + 2 * i) = Some w" using load16_ex [of "PAGEHDRSZ + 2 * i" copy] Suc.prems by auto
  obtain p1 where p1: "store16 mp (PAGEHDRSZ + 2 * i) w = Some p1" using store16_ex [of "PAGEHDRSZ + 2 * i" mp] Suc.prems by auto
  have len: "length p1 = length mp" using p1 by (rule store16_length)
  obtain p where p: "ptrs_back p1 copy (i + 1) n = Some p" "length p = length p1"
    "\<forall>k < length p1. p ! k = (if PAGEHDRSZ + 2 * (i + 1) \<le> k \<and> k < PAGEHDRSZ + 2 * (i + 1 + n) then copy ! k else p1 ! k)"
    using Suc.IH [of "i + 1" p1] Suc.prems len by auto
  have "p ! k = (if PAGEHDRSZ + 2 * i \<le> k \<and> k < PAGEHDRSZ + 2 * (i + Suc n) then copy ! k else mp ! k)" if "k < length mp" for k
    using p(3) copied16 [OF w p1 that] that len by auto
  then show ?case using w p1 p(1,2) len by (auto simp: raw_ptr_def)
qed

lemma copy_back_result:
  assumes L: "layout leaf psize copy up regs" and n: "regs \<noteq> []" and low: "raw_ptr copy (length regs - 1) = raw_upper copy"
    and mp: "length mp = psize" "raw_flags mp = Some fl" "F_ISSET fl FLAG_LEAF = leaf" "\<not> F_ISSET fl FLAG_LEAF2"
  shows "\<exists>p. copy_back mp copy psize = Some p \<and> layout leaf psize p up regs \<and> raw_nodes p = raw_nodes copy \<and> raw_flags p = Some fl
    \<and> page_id p = page_id mp"
proof -
  obtain fl' where P: "length copy = psize" "psize \<le> 2 ^ 15" "raw_lower copy = Some (of_nat (PAGEHDRSZ + 2 * length regs))"
    "raw_upper copy = Some (of_nat up)" "PAGEHDRSZ + 2 * length regs \<le> up" "up \<le> psize"
    using L by (rule layoutE)
  let ?n = "length regs"
  have H: "PAGEHDRSZ = 16" by (simp add: PAGEHDRSZ_def)
  have upw: "unat (of_nat up :: 16 word) = up" using P(2,6) by (intro unat_small) simp
  obtain p1 where p1: "ptrs_back mp copy 0 ?n = Some p1" "length p1 = psize"
    "\<forall>k < psize. p1 ! k = (if PAGEHDRSZ \<le> k \<and> k < PAGEHDRSZ + 2 * ?n then copy ! k else mp ! k)"
    using ptrs_back_result [of 0 ?n mp copy] P(1,5,6) mp(1) by auto
  obtain p2 where p2: "store16 p1 12 (of_nat (PAGEHDRSZ + 2 * ?n)) = Some p2" "length p2 = psize"
    using store16_ex [of 12 p1] p1(2) P(5,6) H store16_length by fastforce
  obtain p3 where p3: "store16 p2 14 (of_nat up) = Some p3" "length p3 = psize"
    using store16_ex [of 14 p2] p2(2) P(5,6) H store16_length by fastforce
  have head: "p3 ! k = (if 12 \<le> k \<and> k < PAGEHDRSZ + 2 * ?n then copy ! k else mp ! k)" if "k < psize" for k
    using p1(3) copied16 [OF P(3) [unfolded raw_lower_def] p2(1), of k] copied16 [OF P(4) [unfolded raw_upper_def] p3(1), of k]
      that p1(2) p2(2) H by auto
  have "load_bytes p3 (PAGEHDRSZ + 2 * (?n - 1)) 2 = load_bytes copy (PAGEHDRSZ + 2 * (?n - 1)) 2"
  proof (rule same_bytes)
    have "PAGEHDRSZ + 2 * (?n - 1) + 2 = PAGEHDRSZ + 2 * ?n" using n by (cases regs) simp_all
    then show "p3 ! k = copy ! k" if "PAGEHDRSZ + 2 * (?n - 1) \<le> k" "k < PAGEHDRSZ + 2 * (?n - 1) + 2" "k < length copy" for k
      using that head [of k] P(1) H by simp
  qed (use p3(2) P(1) in simp)
  then have ptr: "raw_ptr p3 (?n - 1) = Some (of_nat up)"
    using low P(4) load16_cong unfolding raw_ptr_def by metis
  obtain xs where xs: "load_bytes copy up (psize - up) = Some xs" using P(1,6) by (simp add: load_bytes_Some)
  have lxs: "length xs = psize - up" using load_bytes_length [OF xs] by simp
  obtain p where p: "store_bytes p3 up xs = Some p" using store_bytes_ex [of up xs p3] lxs p3(2) P(6) by auto
  have len: "length p = psize" using store_bytes_length [OF p] p3(2) by simp
  have byte: "p ! k = (if 12 \<le> k \<and> k < PAGEHDRSZ + 2 * ?n \<or> up \<le> k then copy ! k else mp ! k)" if "k < psize" for k
    using copied_nth [OF xs p, of k] head [OF that] that p3(2) by auto
  have run: "copy_back mp copy psize = Some p"
    unfolding copy_back_def layout_numkeys [OF L] P(3,4) bind.bind_lunit p1(1) p2(1) p3(1) ptr low upw xs using n p by simp
  have old: "load_bytes p ofs m = load_bytes mp ofs m" if "ofs + m \<le> 12" for ofs m
    using byte that len mp(1) P(5) H by (intro same_bytes) auto
  have flags: "raw_flags p = Some fl" using load16_cong [OF old [of 10 2]] mp(2) by (simp add: raw_flags_def)
  have "load_bytes p ofs m = load_bytes copy ofs m" if "12 \<le> ofs" "ofs + m \<le> PAGEHDRSZ + 2 * ?n \<or> up \<le> ofs" for ofs m
    using byte that len P(1) by (intro same_bytes) auto
  from layout_same [OF L len flags mp(3,4) this] have "layout leaf psize p up regs" "raw_nodes p = raw_nodes copy" by blast+
  moreover have "page_id p = page_id mp" using old by (intro page_id_cong) simp_all
  ultimately show ?thesis using run flags by blast
qed

end
