(* ===== verification/Lmdb_Pool.thy ===== *)
theory Lmdb_Pool
  imports Lmdb_Move_Props
begin

text \<open>
  The memory a split may get, and the numbers of the pages it may give to new pages: neither are in
  use already.
\<close>

section \<open>Where a page comes from\<close>

lemma alloc_pages_none:
  assumes "alloc_pages pmalloc num src env txn = Some (rc, None, env', txn')" and "\<not> F_ISSET (me_flags env) MDB_WRITEMAP"
  shows "me_dpages env' = me_dpages env"
proof (cases "\<exists>rc err. src = Fail rc err")
  case True
  then show ?thesis using assms(1) by (auto simp: alloc_pages_def)
next
  case False
  then show ?thesis
    using assms
    by (cases src)
      (auto simp: alloc_pages_def mdb_page_malloc_def Let_def bind_eq_Some_conv split: if_splits option.splits)
qed

lemma page_alloc_source:
  assumes "good_malloc malloc" and "writer_inv live freed fd env txn"
    and "mdb_page_alloc malloc pmalloc fd num env txn = Some (rc, page, env', txn')"
  shows "case page of
      None \<Rightarrow> wt_loose_pgs txn' = wt_loose_pgs txn \<and> me_dpages env' = me_dpages env
    | Some (np, pgno) \<Rightarrow> me_dpages env = np # me_dpages env' \<and> wt_loose_pgs txn' = wt_loose_pgs txn
        \<or> me_dpages env' = me_dpages env \<and> wt_loose_pgs txn = (np, pgno) # wt_loose_pgs txn'
        \<or> me_dpages env' = me_dpages env \<and> wt_loose_pgs txn' = wt_loose_pgs txn \<and> (\<exists>n. pmalloc n = Some np)"
proof -
  consider (loose) "num = 1 \<and> wt_loose_pgs txn \<noteq> []" | (full) "\<not> (num = 1 \<and> wt_loose_pgs txn \<noteq> [])" "wt_dirty_room txn = 0"
    | (search) "\<not> (num = 1 \<and> wt_loose_pgs txn \<noteq> [])" "wt_dirty_room txn \<noteq> 0" by blast
  then show ?thesis
  proof cases
    case loose
    then show ?thesis using assms(3) by (cases "wt_loose_pgs txn") (auto simp: mdb_page_alloc_def)
  next
    case full
    then show ?thesis using assms(3) by (auto simp: mdb_page_alloc_def fail_txn_def)
  next
    case search
    obtain src env1 where s: "alloc_loop malloc (num - 1) (wt_txnid txn) (fd_end fd) (unread fd env)
        (int num * 60) False (me_pgoldest env) (me_pglast env) env = Some (src, env1)"
      "alloc_pages pmalloc num src env1 txn = Some (rc, page, env', txn')"
      using assms(3) search by (auto simp: mdb_page_alloc_def unread_def bind_eq_Some_conv)
    have "pools_of env env1"
      using alloc_loop_found [OF assms(1,2) s(1)] by blast
    then obtain a b c where env1: "env1 = env\<lparr>me_pgoldest := a, me_pglast := b, me_pghead := c\<rparr>" by (auto simp: pools_of_def)
    have map: "\<not> F_ISSET (me_flags env1) MDB_WRITEMAP" using assms(2) env1 by (simp add: writer_inv_def)
    have keep: "wt_loose_pgs txn' = wt_loose_pgs txn"
      "\<And>np pgno. page = Some (np, pgno) \<Longrightarrow> me_dpages env1 = np # me_dpages env' \<or> me_dpages env' = me_dpages env1 \<and> (\<exists>n. pmalloc n = Some np)"
      using alloc_pages_keeps [OF s(2) map] by blast+
    show ?thesis
    proof (cases page)
      case None
      then show ?thesis using alloc_pages_none [OF s(2) [unfolded None] map] keep(1) env1 by simp
    next
      case (Some q)
      then show ?thesis using keep env1 by (cases q) auto
    qed
  qed
qed

section \<open>Blocks of memory\<close>

text \<open>
  The blocks to come: those kept for reuse, those of loose pages, and those \<open>pmalloc k\<close> gives to the
  \<open>k\<close>-th request. No block is there twice.
\<close>

definition pool :: "(nat \<Rightarrow> nat \<Rightarrow> nat option) \<Rightarrow> page_env \<Rightarrow> write_txn \<Rightarrow> nat set" where
  "pool pmalloc env txn = set (me_dpages env) \<union> fst ` set (wt_loose_pgs txn) \<union> {b. \<exists>k n. pmalloc k n = Some b}"

definition fresh_blocks :: "(nat \<Rightarrow> nat \<Rightarrow> nat option) \<Rightarrow> page_env \<Rightarrow> write_txn \<Rightarrow> bool" where
  "fresh_blocks pmalloc env txn =
     (distinct (me_dpages env @ List.map fst (wt_loose_pgs txn))
      \<and> (\<forall>k n b. pmalloc k n = Some b \<longrightarrow> b \<notin> set (me_dpages env) \<and> b \<notin> fst ` set (wt_loose_pgs txn))
      \<and> (\<forall>k k' n n' b. pmalloc k n = Some b \<longrightarrow> pmalloc k' n' = Some b \<longrightarrow> k = k'))"

text \<open>Blocks have the size of a page and are not in use.\<close>

definition blocks_ok :: "(nat \<Rightarrow> nat \<Rightarrow> nat option) \<Rightarrow> nat set \<Rightarrow> write_state \<Rightarrow> bool" where
  "blocks_ok pmalloc inuse st =
     (fresh_blocks pmalloc (ws_env st) (ws_txn st)
      \<and> (\<forall>b\<in>pool pmalloc (ws_env st) (ws_txn st). length (ws_mem st b) = unat (me_psize (ws_env st)) \<and> b \<notin> inuse))"

lemma fresh_blocksD:
  assumes "fresh_blocks pmalloc env txn"
  shows "distinct (me_dpages env @ List.map fst (wt_loose_pgs txn))"
    "pmalloc k n = Some b \<Longrightarrow> b \<notin> set (me_dpages env) \<and> b \<notin> fst ` set (wt_loose_pgs txn)"
    "pmalloc k n = Some b \<Longrightarrow> pmalloc k' n' = Some b \<Longrightarrow> k = k'"
  using assms unfolding fresh_blocks_def by (simp, metis, metis)

lemma blocks_shift: "blocks_ok pmalloc inuse st \<Longrightarrow> blocks_ok (\<lambda>k. pmalloc (k + j)) inuse st"
proof -
  assume ok: "blocks_ok pmalloc inuse st"
  then have fresh: "fresh_blocks pmalloc (ws_env st) (ws_txn st)" by (simp add: blocks_ok_def)
  have "fresh_blocks (\<lambda>k. pmalloc (k + j)) (ws_env st) (ws_txn st)"
    unfolding fresh_blocks_def
  proof (intro conjI allI impI)
    fix k k' n n' b
    assume "pmalloc (k + j) n = Some b" "pmalloc (k' + j) n' = Some b"
    then have "k + j = k' + j" by (rule fresh_blocksD(3) [OF fresh])
    then show "k = k'" by simp
  qed (use fresh_blocksD(1,2) [OF fresh] in auto)
  moreover have "pool (\<lambda>k. pmalloc (k + j)) (ws_env st) (ws_txn st) \<subseteq> pool pmalloc (ws_env st) (ws_txn st)" by (auto simp: pool_def)
  ultimately show ?thesis using ok unfolding blocks_ok_def by blast
qed

lemma pool_shift: "pool (\<lambda>k. pmalloc (k + j)) env txn \<subseteq> pool pmalloc env txn"
  by (auto simp: pool_def)

lemma fresh_sub:
  assumes "fresh_blocks pmalloc env txn" and "distinct (me_dpages env' @ List.map fst (wt_loose_pgs txn'))"
    and "set (me_dpages env') \<subseteq> set (me_dpages env)" and "fst ` set (wt_loose_pgs txn') \<subseteq> fst ` set (wt_loose_pgs txn)"
  shows "fresh_blocks (\<lambda>k. pmalloc (k + 1)) env' txn'"
  unfolding fresh_blocks_def
proof (intro conjI allI impI)
  fix k k' n n' b
  assume "pmalloc (k + 1) n = Some b" "pmalloc (k' + 1) n' = Some b"
  then have "k + 1 = k' + 1" by (rule fresh_blocksD(3) [OF assms(1)])
  then show "k = k'" by simp
next
  fix k n b
  assume "pmalloc (k + 1) n = Some b"
  then have "b \<notin> set (me_dpages env)" "b \<notin> fst ` set (wt_loose_pgs txn)" using fresh_blocksD(2) [OF assms(1)] by simp_all
  then show "b \<notin> set (me_dpages env')" "b \<notin> fst ` set (wt_loose_pgs txn')" using assms(3,4) by blast+
qed (rule assms(2))

lemma pool_sub:
  assumes "set (me_dpages env') \<subseteq> set (me_dpages env)" and "fst ` set (wt_loose_pgs txn') \<subseteq> fst ` set (wt_loose_pgs txn)"
    and "b \<in> pool (\<lambda>k. pmalloc (k + 1)) env' txn'"
  shows "b \<in> pool pmalloc env txn"
  using assms unfolding pool_def by blast

lemma pool_alloc:
  assumes "good_malloc malloc" and "writer_inv live freed fd env txn" and "fresh_blocks pmalloc env txn"
    and "mdb_page_alloc malloc (pmalloc 0) fd 1 env txn = Some (rc, page, env', txn')"
  shows "fresh_blocks (\<lambda>k. pmalloc (k + 1)) env' txn' \<and> pool (\<lambda>k. pmalloc (k + 1)) env' txn' \<subseteq> pool pmalloc env txn
    \<and> (\<forall>np pgno. page = Some (np, pgno) \<longrightarrow> np \<in> pool pmalloc env txn \<and> np \<notin> pool (\<lambda>k. pmalloc (k + 1)) env' txn')"
proof -
  have F: "distinct (me_dpages env @ List.map fst (wt_loose_pgs txn))"
    "\<And>k n b. pmalloc k n = Some b \<Longrightarrow> b \<notin> set (me_dpages env) \<and> b \<notin> fst ` set (wt_loose_pgs txn)"
    "\<And>k k' n n' b. pmalloc k n = Some b \<Longrightarrow> pmalloc k' n' = Some b \<Longrightarrow> k = k'"
    using fresh_blocksD [OF assms(3)] by simp_all
  note src = page_alloc_source [OF assms(1,2,4)]
  show ?thesis
  proof (cases page)
    case None
    then have same: "me_dpages env' = me_dpages env" "wt_loose_pgs txn' = wt_loose_pgs txn" using src by simp_all
    then have "fresh_blocks (\<lambda>k. pmalloc (k + 1)) env' txn'" using F(1) by (intro fresh_sub [OF assms(3)]) simp_all
    then show ?thesis using None same pool_sub [of env' env txn' txn] by auto
  next
    case (Some q)
    then obtain np pgno where page: "page = Some (np, pgno)" by (cases q) auto
    then consider (dpage) "me_dpages env = np # me_dpages env'" "wt_loose_pgs txn' = wt_loose_pgs txn"
      | (loose) "me_dpages env' = me_dpages env" "wt_loose_pgs txn = (np, pgno) # wt_loose_pgs txn'"
      | (malloc) n where "me_dpages env' = me_dpages env" "wt_loose_pgs txn' = wt_loose_pgs txn" "pmalloc 0 n = Some np"
      using src by auto
    then have "distinct (me_dpages env' @ List.map fst (wt_loose_pgs txn')) \<and> set (me_dpages env') \<subseteq> set (me_dpages env)
      \<and> fst ` set (wt_loose_pgs txn') \<subseteq> fst ` set (wt_loose_pgs txn) \<and> np \<in> pool pmalloc env txn
      \<and> np \<notin> set (me_dpages env') \<and> np \<notin> fst ` set (wt_loose_pgs txn') \<and> (\<forall>k n. pmalloc (k + 1) n \<noteq> Some np)"
    proof cases
      case dpage
      then have "pmalloc k n \<noteq> Some np" for k n using F(2) [of k n np] by auto
      then show ?thesis using F(1) dpage by (auto simp: pool_def)
    next
      case loose
      then have "pmalloc k n \<noteq> Some np" for k n using F(2) [of k n np] by auto
      then show ?thesis using F(1) loose by (auto simp: pool_def)
    next
      case (malloc n)
      have "pmalloc (k + 1) m \<noteq> Some np" for k m using F(3) [OF malloc(3), of "k + 1" m] by auto
      then show ?thesis using F(1) F(2) [OF malloc(3)] malloc by (auto simp: pool_def)
    qed
    moreover from this have "fresh_blocks (\<lambda>k. pmalloc (k + 1)) env' txn'" by (intro fresh_sub [OF assms(3)]) blast+
    moreover have "np \<notin> pool (\<lambda>k. pmalloc (k + 1)) env' txn'" using calculation(1) by (auto simp: pool_def)
    ultimately show ?thesis using page pool_sub [of env' env txn' txn] by blast
  qed
qed

lemma pool_malloc:
  assumes "fresh_blocks pmalloc env txn" and "mdb_page_malloc (pmalloc 0) 1 env txn = (Some np, env', txn')"
  shows "fresh_blocks (\<lambda>k. pmalloc (k + 1)) env' txn' \<and> pool (\<lambda>k. pmalloc (k + 1)) env' txn' \<subseteq> pool pmalloc env txn
    \<and> np \<in> pool pmalloc env txn \<and> np \<notin> pool (\<lambda>k. pmalloc (k + 1)) env' txn'"
proof -
  have F: "distinct (me_dpages env @ List.map fst (wt_loose_pgs txn))"
    "\<And>k n b. pmalloc k n = Some b \<Longrightarrow> b \<notin> set (me_dpages env) \<and> b \<notin> fst ` set (wt_loose_pgs txn)"
    "\<And>k k' n n' b. pmalloc k n = Some b \<Longrightarrow> pmalloc k' n' = Some b \<Longrightarrow> k = k'"
    using fresh_blocksD [OF assms(1)] by simp_all
  have loose: "wt_loose_pgs txn' = wt_loose_pgs txn"
    using assms(2) by (auto simp: mdb_page_malloc_def split: if_splits option.splits)
  consider (dpage) "me_dpages env = np # me_dpages env'" | (malloc) n where "me_dpages env' = me_dpages env" "pmalloc 0 n = Some np"
    using page_malloc_block [OF assms(2)] by auto
  then have "distinct (me_dpages env' @ List.map fst (wt_loose_pgs txn')) \<and> set (me_dpages env') \<subseteq> set (me_dpages env)
    \<and> np \<in> pool pmalloc env txn
    \<and> np \<notin> set (me_dpages env') \<and> np \<notin> fst ` set (wt_loose_pgs txn') \<and> (\<forall>k n. pmalloc (k + 1) n \<noteq> Some np)"
  proof cases
    case dpage
    then have "pmalloc k n \<noteq> Some np" for k n using F(2) [of k n np] by auto
    then show ?thesis using F(1) dpage loose by (auto simp: pool_def)
  next
    case (malloc n)
    have "pmalloc (k + 1) m \<noteq> Some np" for k m using F(3) [OF malloc(2), of "k + 1" m] by auto
    then show ?thesis using F(1) F(2) [OF malloc(2)] malloc loose by (auto simp: pool_def)
  qed
  moreover from this have "fresh_blocks (\<lambda>k. pmalloc (k + 1)) env' txn'" using loose by (intro fresh_sub [OF assms(1)]) auto
  moreover have "np \<notin> pool (\<lambda>k. pmalloc (k + 1)) env' txn'" using calculation(1) by (auto simp: pool_def)
  moreover have "fst ` set (wt_loose_pgs txn') \<subseteq> fst ` set (wt_loose_pgs txn)" using loose by simp
  ultimately show ?thesis using pool_sub [of env' env txn' txn] by blast
qed

section \<open>Numbers\<close>

text \<open>Page numbers below the end that are neither free nor those of loose pages.\<close>

definition taken :: "free_db \<Rightarrow> page_env \<Rightarrow> write_txn \<Rightarrow> mdb_id \<Rightarrow> bool" where
  "taken fd env txn p = (p < wt_next_pgno txn \<and> p \<notin># all_free fd env \<and> p \<notin> snd ` set (wt_loose_pgs txn))"

lemma alloc_taken:
  assumes "good_malloc malloc" and "writer_inv live freed fd env txn" and "unat (wt_next_pgno txn) + 1 < 2 ^ 64"
    and "mdb_page_alloc malloc pmalloc fd 1 env txn = Some (rc, page, env', txn')"
  shows "(\<forall>p. taken fd env txn p \<longrightarrow> taken fd env' txn' p) \<and> unat (wt_next_pgno txn') \<le> unat (wt_next_pgno txn) + 1
    \<and> (\<forall>np pgno. page = Some (np, pgno) \<longrightarrow> \<not> taken fd env txn pgno \<and> taken fd env' txn' pgno)"
proof -
  have r: "writer_inv live freed fd env' txn'"
    "case page of
       None \<Rightarrow> rc \<noteq> MDB_SUCCESS \<and> refused fd env txn env' txn'
     | Some (np, pgno) \<Rightarrow> rc = MDB_SUCCESS \<and> (loose_again env txn 1 (np, pgno) env' txn' \<or> granted live freed fd 1 env txn np pgno env' txn')"
    using page_alloc_result [OF assms(1,2) _ _ assms(3), of pmalloc] assms(4) by auto
  note src = page_alloc_source [OF assms(1,2,4)]
  have next1: "unat (wt_next_pgno txn + 1) = unat (wt_next_pgno txn) + 1" using assms(3) by (simp add: unat_word_ariths)
  have apart: "pages_apart fd env txn" "loose_ok txn" "pages_apart fd env' txn'" "loose_ok txn'"
    using assms(2) r(1) by (simp_all add: writer_inv_def)
  show ?thesis
  proof (cases page)
    case None
    then show ?thesis using r(2) src by (simp add: taken_def refused_def)
  next
    case (Some q)
    then obtain np pgno where page: "page = Some (np, pgno)" by (cases q) auto
    then consider (loose) "loose_again env txn 1 (np, pgno) env' txn'" | (new) "granted live freed fd 1 env txn np pgno env' txn'" using r(2) by auto
    then show ?thesis
    proof cases
      case loose
      then have l: "env' = env" "wt_loose_pgs txn = (np, pgno) # wt_loose_pgs txn'" "pgno \<in> dirty txn"
        "wt_next_pgno txn' = wt_next_pgno txn" "pgno \<notin> snd ` set (wt_loose_pgs txn')"
        by (simp_all add: loose_again_def)
      have "pgno < wt_next_pgno txn" "pgno \<notin># all_free fd env" using apart(1) l(3) by (auto simp: pages_apart_def)
      then show ?thesis using l page by (auto simp: taken_def)
    next
      case new
      then have n: "dirty txn' = insert pgno (dirty txn)" "pgno \<notin> dirty txn"
        "pgno = wt_next_pgno txn \<and> wt_next_pgno txn' = pgno + 1 \<and> all_free fd env' = all_free fd env
         \<or> wt_next_pgno txn' = wt_next_pgno txn \<and> all_free fd env = add_mset pgno (all_free fd env')"
        by (auto simp: granted_def run_def)
      have "wt_loose_pgs txn \<noteq> (np, pgno) # ls" for ls using n(2) apart(2) by (auto simp: loose_ok_def)
      then have loose: "wt_loose_pgs txn' = wt_loose_pgs txn" using src page by auto
      have "pgno \<notin> snd ` set (wt_loose_pgs txn)" using n(2) apart(2) by (auto simp: loose_ok_def)
      moreover have "pgno < wt_next_pgno txn'" "pgno \<notin># all_free fd env'" using apart(3) n(1) by (auto simp: pages_apart_def)
      moreover have "p < wt_next_pgno txn'" if "p < wt_next_pgno txn" for p
        using n(3) that next1 by (auto simp: word_less_nat_alt)
      moreover have "unat (wt_next_pgno txn') \<le> unat (wt_next_pgno txn) + 1" using n(3) next1 by auto
      ultimately show ?thesis using n(3) loose page by (auto simp: taken_def)
    qed
  qed
qed

end
