(* ===== verification/Lmdb_Split_Result.thy ===== *)
theory Lmdb_Split_Result
  imports Lmdb_Pool
begin

text \<open>
  One level of \<open>mdb_page_split\<close>: the new page, the two halves, and the cursors, before and after the
  separator goes to the parent.
\<close>

section \<open>The two pages\<close>

text \<open>The page, the empty right page, and the copy with the pointers of the page.\<close>

definition pages_ready :: "bool \<Rightarrow> nat \<Rightarrow> nat \<Rightarrow> nat \<Rightarrow> nat \<Rightarrow> nat \<Rightarrow> mdb_node list \<Rightarrow> write_state \<Rightarrow> bool" where
  "pages_ready leaf mp rp copy newindx psize ns st =
     (psize = unat (me_psize (ws_env st)) \<and> rp \<noteq> mp \<and> rp \<noteq> copy \<and> copy \<noteq> mp
      \<and> (\<exists>left. page_layout leaf psize (ws_mem st mp) left) \<and> raw_nodes (ws_mem st mp) = Some ns
      \<and> page_layout leaf psize (ws_mem st rp) (psize - PAGEHDRSZ) \<and> raw_nodes (ws_mem st rp) = Some []
      \<and> page_layout leaf psize (ws_mem st copy) (psize - PAGEHDRSZ) \<and> raw_nodes (ws_mem st copy) = Some []
      \<and> (\<forall>t < length ns. raw_ptr (ws_mem st copy) (slot newindx t) = raw_ptr (ws_mem st mp) t))"

text \<open>Both halves fit into a page.\<close>

definition halves_fit :: "bool \<Rightarrow> nat \<Rightarrow> mdb_node list \<Rightarrow> nat \<Rightarrow> bool" where
  "halves_fit leaf psize items s =
     (1 \<le> s \<and> s < length items \<and> used (first_blank leaf (take s items)) \<le> psize - PAGEHDRSZ
      \<and> used (first_blank leaf (drop s items)) \<le> psize - PAGEHDRSZ)"

lemma all_fetched:
  assumes ready: "pages_ready leaf mp rp copy newindx psize ns st" and small: "\<forall>n\<in>set ns. node_bytes n \<le> me_nodemax (ws_env st)"
    and new: "describes leaf (me_nodemax (ws_env st)) new nn" and idx: "newindx \<le> length ns" and t: "t \<le> length ns"
  shows "fetched leaf (me_nodemax (ws_env st)) (ws_mem st mp) (ws_mem st copy) newindx new (inserted newindx nn ns) t"
proof (cases "t = newindx")
  case True
  then show ?thesis using new inserted_new [OF idx] by (simp add: fetched_def)
next
  case False
  obtain i where i: "i < length ns" "t = slot newindx i" "inserted newindx nn ns ! t = ns ! i"
    by (rule inserted_old [OF t False idx])
  obtain up regs where L: "layout leaf psize (ws_mem st mp) up regs" and ns: "raw_nodes (ws_mem st mp) = Some ns"
    using ready by (auto simp: pages_ready_def page_layout_def)
  obtain w where w: "raw_ptr (ws_mem st mp) i = Some w" "raw_node leaf (ws_mem st mp) (unat w) = Some (ns ! i)"
    using node_at [OF L ns i(1)] by blast
  have "raw_ptr (ws_mem st copy) t = Some w" using ready i(1,2) w(1) by (simp add: pages_ready_def)
  moreover obtain args where "moved_node leaf (ws_mem st mp) (unat w) = Some args" "describes leaf (me_nodemax (ws_env st)) args (ns ! i)"
    using moved_describes [OF w(2), of "me_nodemax (ws_env st)"] small nth_mem [OF i(1)] by blast
  ultimately show ?thesis using False i(3) by (simp add: fetched_def)
qed

lemma split_move_result:
  assumes ready: "pages_ready leaf mp rp copy newindx psize ns st" and small: "\<forall>n\<in>set ns. node_bytes n \<le> me_nodemax (ws_env st)"
    and new: "describes leaf (me_nodemax (ws_env st)) new nn" and idx: "newindx \<le> length ns"
    and fit: "halves_fit leaf psize (inserted newindx nn ns) s"
    and left: "newindx < s \<Longrightarrow> mc2 = cursor_after mp rp newindx s newindx mc"
    and right: "\<And>mem. s \<le> newindx \<Longrightarrow> \<forall>q. q \<notin> {mp, rp, copy} \<longrightarrow> mem q = ws_mem st q \<Longrightarrow>
      cursor_valid mem mn (cursor_after mp rp newindx s (newindx - s) mc) = Some mc2"
  shows "\<exists>p r c. split_move malloc pmalloc fd leaf mp rp (Some copy) (length ns) newindx s new mn mc st
      = Some (MDB_SUCCESS, mc2, st\<lparr>ws_mem := (ws_mem st)(rp := r, copy := c, mp := p)\<rparr>)
    \<and> filling leaf psize (take s (inserted newindx nn ns)) s p
    \<and> filling leaf psize (drop s (inserted newindx nn ns)) (length ns + 1 - s) r
    \<and> page_id p = page_id (ws_mem st mp) \<and> page_id r = page_id (ws_mem st rp)"
proof -
  let ?items = "inserted newindx nn ns"
  have f: "1 \<le> s" "s \<le> length ns" "used (first_blank leaf (take s ?items)) \<le> psize - PAGEHDRSZ"
    "used (first_blank leaf (drop s ?items)) \<le> psize - PAGEHDRSZ"
    using fit by (simp_all add: halves_fit_def)
  have r: "psize = unat (me_psize (ws_env st))" "rp \<noteq> mp" "rp \<noteq> copy" "copy \<noteq> mp"
    using ready by (simp_all add: pages_ready_def)
  have empty: "filling leaf psize (drop s ?items) (s - s) (ws_mem st rp)" "filling leaf psize (take s ?items) 0 (ws_mem st copy)"
    using ready unfolding pages_ready_def filling_def by auto
  have "\<exists>r' c'. move_loop (add_key malloc pmalloc fd) leaf mp copy (length ns) newindx s new (length ns + 1) s (s - s) rp (wc_ki mc ! wc_top mc) st
      = Some (MDB_SUCCESS, copy, if newindx < s then newindx else if s \<le> newindx then newindx - s else wc_ki mc ! wc_top mc,
          st\<lparr>ws_mem := (ws_mem st)(rp := r', copy := c')\<rparr>)
    \<and> filling leaf psize (drop s ?items) (length ns + 1 - s) r' \<and> filling leaf psize (take s ?items) s c' \<and> raw_ptr c' (s - 1) = raw_upper c'
    \<and> page_id r' = page_id (ws_mem st rp)"
    by (rule move_right) (use f r empty idx all_fetched [OF ready small new idx] in simp_all)
  then obtain r' c' where m: "move_loop (add_key malloc pmalloc fd) leaf mp copy (length ns) newindx s new (length ns + 1) s 0 rp (wc_ki mc ! wc_top mc) st
      = Some (MDB_SUCCESS, copy, if newindx < s then newindx else newindx - s, st\<lparr>ws_mem := (ws_mem st)(rp := r', copy := c')\<rparr>)"
    "filling leaf psize (drop s ?items) (length ns + 1 - s) r'" "filling leaf psize (take s ?items) s c'" "raw_ptr c' (s - 1) = raw_upper c'"
    "page_id r' = page_id (ws_mem st rp)"
    by (auto simp del: move_loop.simps fun_upd_apply split: if_splits)
  let ?left = "psize - PAGEHDRSZ - used (first_blank leaf (take s (take s ?items)))"
  have c': "page_layout leaf psize c' ?left" "raw_nodes c' = Some (first_blank leaf (take s (take s ?items)))"
    using m(3) by (simp_all only: filling_def)
  obtain up regs where L: "layout leaf psize c' up regs" "?left = up - (PAGEHDRSZ + 2 * length regs)"
    using c'(1) by (auto simp: page_layout_def)
  have "length (first_blank leaf (take s (take s ?items))) = length regs" using layout_nodes [OF L(1)] c'(2) by (metis length_map option.inject)
  then have len: "length regs = s" using f(2) by simp
  obtain left0 where "page_layout leaf psize (ws_mem st mp) left0" using ready by (auto simp: pages_ready_def)
  then obtain fl where mp: "length (ws_mem st mp) = psize" "raw_flags (ws_mem st mp) = Some fl" "F_ISSET fl FLAG_LEAF = leaf" "\<not> F_ISSET fl FLAG_LEAF2"
    by (rule page_layout_header)
  have low: "raw_ptr c' (length regs - 1) = raw_upper c'" using m(4) len by simp
  have "regs \<noteq> []" using len f(1) by auto
  from copy_back_result [OF L(1) this low mp]
  obtain p where p: "copy_back (ws_mem st mp) c' psize = Some p" "layout leaf psize p up regs" "raw_nodes p = raw_nodes c'"
    "page_id p = page_id (ws_mem st mp)" by blast
  have "page_layout leaf psize p ?left" using p(2) L(2) unfolding page_layout_def by blast
  then have "filling leaf psize (take s ?items) s p" using p(3) c'(2) by (simp only: filling_def)
  moreover have "split_move malloc pmalloc fd leaf mp rp (Some copy) (length ns) newindx s new mn mc st
      = Some (MDB_SUCCESS, mc2, st\<lparr>ws_mem := (ws_mem st)(rp := r', copy := c', mp := p)\<rparr>)"
  proof (cases "newindx < s")
    case True
    then show ?thesis
      unfolding split_move_def Let_def option.case m(1) bind.bind_lunit prod.case using p(1) r left by simp
  next
    case False
    then have "cursor_valid ((ws_mem st)(rp := r', copy := c', mp := p)) mn (cursor_after mp rp newindx s (newindx - s) mc) = Some mc2"
      by (intro right) simp_all
    then show ?thesis
      unfolding split_move_def Let_def option.case m(1) bind.bind_lunit prod.case using p(1) r False by simp
  qed
  ultimately show ?thesis using m(2,5) p(4) by blast
qed

lemma split_finish_result:
  assumes ready: "pages_ready leaf mp rp copy newindx psize ns st" and small: "\<forall>n\<in>set ns. node_bytes n \<le> me_nodemax (ws_env st)"
    and new: "describes leaf (me_nodemax (ws_env st)) new nn" and replace: "\<not> F_ISSET (snd (snd (snd new))) MDB_SPLIT_REPLACE"
    and idx: "newindx \<le> length ns" and fit: "halves_fit leaf psize (inserted newindx nn ns) s"
    and left: "newindx < s \<Longrightarrow> mc2 = cursor_after mp rp newindx s newindx mc"
    and right: "\<And>mem. s \<le> newindx \<Longrightarrow> \<forall>q. q \<notin> {mp, rp, copy} \<longrightarrow> mem q = ws_mem st q \<Longrightarrow>
      cursor_valid mem mn (cursor_after mp rp newindx s (newindx - s) mc) = Some mc2"
    and cursors: "\<And>m. m \<in> set (ws_cursors st) \<Longrightarrow> cursor_split mp rp s newindx False did_split new_root mc2 mn m = Some (g m)"
  shows "\<exists>p r c. split_finish malloc pmalloc fd leaf mp rp (Some copy) (length ns) newindx s new did_split new_root mn mc st
      = Some (MDB_SUCCESS, mc2, split_free (Some copy) (st\<lparr>ws_mem := (ws_mem st)(rp := r, copy := c, mp := p),
          ws_cursors := List.map g (ws_cursors st)\<rparr>))
    \<and> raw_nodes p = Some (first_blank leaf (take s (inserted newindx nn ns)))
    \<and> raw_nodes r = Some (first_blank leaf (drop s (inserted newindx nn ns)))
    \<and> page_layout leaf psize p (psize - PAGEHDRSZ - used (first_blank leaf (take s (inserted newindx nn ns))))
    \<and> page_layout leaf psize r (psize - PAGEHDRSZ - used (first_blank leaf (drop s (inserted newindx nn ns))))
    \<and> page_id p = page_id (ws_mem st mp) \<and> page_id r = page_id (ws_mem st rp)"
proof -
  obtain p r c where m: "split_move malloc pmalloc fd leaf mp rp (Some copy) (length ns) newindx s new mn mc st
      = Some (MDB_SUCCESS, mc2, st\<lparr>ws_mem := (ws_mem st)(rp := r, copy := c, mp := p)\<rparr>)"
    "filling leaf psize (take s (inserted newindx nn ns)) s p" "filling leaf psize (drop s (inserted newindx nn ns)) (length ns + 1 - s) r"
    "page_id p = page_id (ws_mem st mp)" "page_id r = page_id (ws_mem st rp)"
    using split_move_result [OF ready small new idx fit left right, of malloc pmalloc fd] by metis
  have s: "1 \<le> s" "s \<le> length ns" using fit by (simp_all add: halves_fit_def)
  have p: "raw_nodes p = Some (first_blank leaf (take s (inserted newindx nn ns)))"
    "page_layout leaf psize p (psize - PAGEHDRSZ - used (first_blank leaf (take s (inserted newindx nn ns))))"
    using m(2) s by (simp_all add: filling_def)
  have r: "raw_nodes r = Some (first_blank leaf (drop s (inserted newindx nn ns)))"
    "page_layout leaf psize r (psize - PAGEHDRSZ - used (first_blank leaf (drop s (inserted newindx nn ns))))"
    using m(3) s by (simp_all add: filling_def)
  obtain upr regs where "layout leaf psize p upr regs" "length regs = s"
    by (rule page_layout_layout [OF p(2,1)]) (rule that, use s in simp_all)
  then have numkeys: "raw_numkeys p = Some s" using layout_numkeys by metis
  have cs: "those (List.map (cursor_split mp rp s newindx False did_split new_root mc2 mn) (ws_cursors st)) = Some (List.map g (ws_cursors st))"
    using cursors by (intro those_map)
  have "split_finish malloc pmalloc fd leaf mp rp (Some copy) (length ns) newindx s new did_split new_root mn mc st
      = Some (MDB_SUCCESS, mc2, split_free (Some copy) (st\<lparr>ws_mem := (ws_mem st)(rp := r, copy := c, mp := p),
          ws_cursors := List.map g (ws_cursors st)\<rparr>))"
    unfolding split_finish_def m(1) bind.bind_lunit prod.case using replace numkeys cs by (simp add: fun_upd_same del: fun_upd_apply)
  then show ?thesis using p r m(4,5) by blast
qed

section \<open>The cursors\<close>

text \<open>A cursor at level \<open>lv\<close>.\<close>

definition place :: "nat \<Rightarrow> wcursor \<Rightarrow> nat \<times> nat" where
  "place lv m = (wc_pg m ! lv, wc_ki m ! lv)"

text \<open>Where the node at \<open>i\<close> of the page, which is not the new one, is after the split at \<open>s\<close>.\<close>

definition moved_to :: "nat \<Rightarrow> nat \<Rightarrow> nat \<Rightarrow> nat \<Rightarrow> nat \<Rightarrow> nat \<times> nat" where
  "moved_to mp rp newindx s i = (if slot newindx i < s then (mp, slot newindx i) else (rp, slot newindx i - s))"

text \<open>What happens to a cursor whose path to the page is right already.\<close>

definition follow_split :: "nat \<Rightarrow> nat \<Rightarrow> nat \<Rightarrow> nat \<Rightarrow> nat \<Rightarrow> wcursor \<Rightarrow> wcursor \<Rightarrow> wcursor" where
  "follow_split lv mp rp newindx s mn m =
     (if \<not> wc_live m \<or> wc_pg m ! lv \<noteq> mp then m
      else let i = slot newindx (wc_ki m ! lv) in
        if i < s then m\<lparr>wc_ki := (wc_ki m)[lv := i]\<rparr>
        else m\<lparr>wc_pg := (take lv (wc_pg mn) @ drop lv (wc_pg m))[lv := rp], wc_ki := (take lv (wc_ki mn) @ drop lv (wc_ki m))[lv := i - s]\<rparr>)"

text \<open>And one that may still have to move up in the parent, or to get a new root.\<close>

definition shift_parent :: "nat \<Rightarrow> nat \<Rightarrow> nat \<Rightarrow> wcursor \<Rightarrow> wcursor" where
  "shift_parent lv parent up m =
     (if wc_live m \<and> wc_pg m ! (lv - 1) = parent \<and> up < wc_ki m ! (lv - 1)
      then m\<lparr>wc_ki := (wc_ki m)[lv - 1 := wc_ki m ! (lv - 1) + 1]\<rparr> else m)"

definition shift_root :: "nat \<Rightarrow> nat \<Rightarrow> wcursor \<Rightarrow> wcursor" where
  "shift_root pp depth m =
     (if wc_live m
      then m\<lparr>wc_pg := pp # take (depth + 1) (wc_pg m) @ drop (depth + 2) (wc_pg m),
        wc_ki := 0 # take (depth + 1) (wc_ki m) @ drop (depth + 2) (wc_ki m), wc_snum := wc_snum m + 1, wc_top := wc_top m + 1\<rparr>
      else m)"

lemma cursor_split_moved:
  assumes "lv < length (wc_pg m)" and "lv < length (wc_ki m)" and "wc_top mc = lv" and "0 < lv" and "wc_live m \<Longrightarrow> lv \<le> wc_top m"
  shows "cursor_split mp rp s newindx False True 0 mc mn m = Some (follow_split lv mp rp newindx s mn m)"
proof -
  have at: "idl_at (wc_pg m) 0 = Some (wc_pg m ! 0)" "idl_at (wc_pg m) lv = Some (wc_pg m ! lv)" "idl_at (wc_ki m) lv = Some (wc_ki m ! lv)"
    "idl_at (wc_pg m) (lv - 1) = Some (wc_pg m ! (lv - 1))" "idl_at (wc_ki m) (lv - 1) = Some (wc_ki m ! (lv - 1))"
    using assms(1,2) by (auto simp: idl_at_eq less_imp_diff_less)
  have slot: "(if newindx \<le> wc_ki m ! lv \<and> \<not> False then wc_ki m ! lv + 1 else wc_ki m ! lv) = slot newindx (wc_ki m ! lv)"
    by (simp add: slot_def)
  show ?thesis
    using assms(3-5) at slot unfolding cursor_split_def follow_split_def by (simp add: Let_def not_less)
qed

lemma cursor_split_parent:
  assumes "lv < length (wc_pg m)" and "lv < length (wc_ki m)" and "wc_top mc = lv" and "0 < lv" and "wc_live m \<Longrightarrow> lv \<le> wc_top m"
    and "wc_pg mc ! (lv - 1) = parent" and "wc_ki mc ! (lv - 1) \<in> {up, up + 1}"
    and "wc_live m \<Longrightarrow> wc_pg m ! lv = mp \<Longrightarrow> wc_pg m ! (lv - 1) = parent \<Longrightarrow> wc_ki m ! (lv - 1) = up"
    and "wc_live m \<Longrightarrow> wc_pg m ! (lv - 1) = parent \<Longrightarrow> wc_ki m ! (lv - 1) = up \<Longrightarrow> wc_pg m ! lv = mp"
  shows "cursor_split mp rp s newindx False False 0 mc mn m = Some (follow_split lv mp rp newindx s mn (shift_parent lv parent up m))"
proof -
  have at: "idl_at (wc_pg m) 0 = Some (wc_pg m ! 0)" "idl_at (wc_pg m) lv = Some (wc_pg m ! lv)" "idl_at (wc_ki m) lv = Some (wc_ki m ! lv)"
    "idl_at (wc_pg m) (lv - 1) = Some (wc_pg m ! (lv - 1))" "idl_at (wc_ki m) (lv - 1) = Some (wc_ki m ! (lv - 1))"
    using assms(1,2) by (auto simp: idl_at_eq less_imp_diff_less)
  have slot: "(if newindx \<le> wc_ki m ! lv \<and> \<not> False then wc_ki m ! lv + 1 else wc_ki m ! lv) = slot newindx (wc_ki m ! lv)"
    by (simp add: slot_def)
  consider (dead) "\<not> wc_live m" | (here) "wc_live m" "wc_pg m ! lv = mp" | (other) "wc_live m" "wc_pg m ! lv \<noteq> mp" by blast
  then show ?thesis
  proof cases
    case dead
    then show ?thesis by (simp add: cursor_split_def follow_split_def shift_parent_def)
  next
    case here
    then have "shift_parent lv parent up m = m" using assms(8) by (auto simp: shift_parent_def)
    then show ?thesis using here assms(3-5) at slot unfolding cursor_split_def follow_split_def by (simp add: Let_def not_less)
  next
    case other
    have "wc_pg m ! (lv - 1) = parent \<and> wc_ki mc ! (lv - 1) \<le> wc_ki m ! (lv - 1) \<longleftrightarrow> wc_pg m ! (lv - 1) = parent \<and> up < wc_ki m ! (lv - 1)"
    proof -
      have "wc_pg m ! (lv - 1) = parent \<Longrightarrow> wc_ki m ! (lv - 1) \<noteq> up" using assms(9) other by blast
      then show ?thesis using assms(7) by (auto simp: nat_less_le)
    qed
    then show ?thesis
      using other assms(3-6) at slot unfolding cursor_split_def shift_parent_def by (simp add: Let_def follow_split_def)
  qed
qed

lemma cursor_split_root:
  assumes "1 < length (wc_pg m)" and "1 < length (wc_ki m)" and "wc_top mc = 1" and "0 < depth" and "wc_pg mc ! 0 = pp"
    and "wc_live m \<Longrightarrow> wc_pg m ! 0 = mp"
  shows "cursor_split mp rp s newindx False did_split depth mc mn m = Some (follow_split 1 mp rp newindx s mn (shift_root pp depth m))"
proof (cases "wc_live m")
  case False
  then show ?thesis by (simp add: cursor_split_def follow_split_def shift_root_def)
next
  case True
  let ?m = "cursor_root pp depth s m"
  obtain p ps where pg: "wc_pg m = p # ps" using assms(1) by (cases "wc_pg m") auto
  obtain k ks where ki: "wc_ki m = k # ks" using assms(2) by (cases "wc_ki m") auto
  have mp: "p = mp" using assms(6) True pg by simp
  have m: "wc_pg ?m = pp # mp # take depth ps @ drop (depth + 2) (wc_pg m)" "wc_top ?m = wc_top m + 1" "wc_live ?m"
    "wc_ki ?m = (if s \<le> k then 1 else 0) # k # take depth ks @ drop (depth + 2) (wc_ki m)"
    using True pg ki mp by (simp_all add: cursor_root_def)
  have at: "idl_at (wc_pg m) 0 = Some mp" "idl_at (wc_pg ?m) 1 = Some mp" "idl_at (wc_ki ?m) 1 = Some k"
    "idl_at (wc_pg ?m) 0 = Some pp" "\<exists>up. idl_at (wc_ki ?m) 0 = Some up"
    using pg mp m by (simp_all add: idl_at_eq)
  have slot: "(if newindx \<le> k then k + 1 else k) = slot newindx k" "s \<le> k \<Longrightarrow> s \<le> slot newindx k" by (simp_all add: slot_def)
  have "cursor_split mp rp s newindx False did_split depth mc mn m =
      (if s \<le> slot newindx k then
         Some (?m\<lparr>wc_pg := (take 1 (wc_pg mn) @ drop 1 (wc_pg ?m))[1 := rp], wc_ki := (take 1 (wc_ki mn) @ drop 1 (wc_ki ?m))[1 := slot newindx k - s]\<rparr>)
       else Some (?m\<lparr>wc_ki := (wc_ki ?m)[1 := slot newindx k]\<rparr>))"
    using True at assms(3-5) m(2,3) slot(1) unfolding cursor_split_def by (auto simp: Let_def)
  moreover have "shift_root pp depth m = ?m\<lparr>wc_ki := 0 # drop 1 (wc_ki ?m)\<rparr>"
    using True pg ki by (simp add: shift_root_def cursor_root_def)
  ultimately show ?thesis
    using m slot(2) True by (auto simp: follow_split_def Let_def not_le)
qed

section \<open>The nodes of the two pages\<close>

lemma inserted_slot: "t < length ns \<Longrightarrow> newindx \<le> length ns \<Longrightarrow> inserted newindx nn ns ! slot newindx t = ns ! t"
  by (auto simp: inserted_def slot_def nth_append nth_Cons')

lemma blank_nth: "k < length xs \<Longrightarrow> first_blank leaf xs ! k = (if k = 0 \<and> \<not> leaf then Branch_node [] (nd_pgno (xs ! 0)) else xs ! k)"
  by (cases xs; cases k) auto

text \<open>At its new place a cursor has the node it had; on a branch page, the same child.\<close>

definition same_entry :: "bool \<Rightarrow> mdb_node \<Rightarrow> mdb_node \<Rightarrow> bool" where
  "same_entry leaf n n' = (if leaf then n' = n else nd_pgno n' = nd_pgno n)"

lemma moved_entry:
  assumes "i < length ns" and "newindx \<le> length ns" and "s \<le> length ns" and "rp \<noteq> mp"
    and "nodes mp = first_blank leaf (take s (inserted newindx nn ns))" and "nodes rp = first_blank leaf (drop s (inserted newindx nn ns))"
  shows "case moved_to mp rp newindx s i of (p, k) \<Rightarrow> k < length (nodes p) \<and> same_entry leaf (ns ! i) (nodes p ! k)"
proof (cases "slot newindx i < s")
  case True
  then show ?thesis
    using assms inserted_slot [OF assms(1,2), of nn] by (auto simp: moved_to_def same_entry_def blank_nth)
next
  case False
  have "slot newindx i \<le> length ns" using assms(1) by (simp add: slot_def)
  then show ?thesis
    using False assms inserted_slot [OF assms(1,2), of nn] by (auto simp: moved_to_def same_entry_def blank_nth)
qed

section \<open>A new page\<close>

lemma page_new_init:
  assumes "length p = psize" and "PAGEHDRSZ \<le> psize" and "psize \<le> 2 ^ 15" and "even psize"
    and "F_ISSET fl FLAG_LEAF = leaf" and "\<not> F_ISSET fl FLAG_LEAF2"
  shows "\<exists>p0 p1 p2 p3. store64 p 0 pgno = Some p0 \<and> store16 p0 10 (fl OR FLAG_DIRTY) = Some p1 \<and> store16 p1 12 (of_nat PAGEHDRSZ) = Some p2
    \<and> store16 p2 14 (of_nat psize) = Some p3 \<and> page_layout leaf psize p3 (psize - PAGEHDRSZ) \<and> raw_nodes p3 = Some []
    \<and> raw_page_pgno p3 = Some pgno \<and> raw_flags p3 = Some (fl OR FLAG_DIRTY)"
proof -
  have H: "PAGEHDRSZ = 16" by (simp add: PAGEHDRSZ_def)
  obtain p0 where p0: "store64 p 0 pgno = Some p0"
    using store_bytes_ex [of 0 "le_chars 8 (unat pgno)" p] assms(1,2) H by (auto simp: store64_def)
  have l0: "length p0 = psize" using store_bytes_length [OF p0 [unfolded store64_def]] assms(1) by simp
  obtain p1 where p1: "store16 p0 10 (fl OR FLAG_DIRTY) = Some p1" using store16_ex [of 10 p0] l0 assms(2) H by auto
  have l1: "length p1 = psize" using store16_length [OF p1] l0 by simp
  obtain p2 where p2: "store16 p1 12 (of_nat PAGEHDRSZ) = Some p2" using store16_ex [of 12 p1] l1 assms(2) H by auto
  have l2: "length p2 = psize" using store16_length [OF p2] l1 by simp
  obtain p3 where p3: "store16 p2 14 (of_nat psize) = Some p3" using store16_ex [of 14 p2] l2 assms(2) H by auto
  have l3: "length p3 = psize" using store16_length [OF p3] l2 by simp
  have hdr: "raw_flags p3 = Some (fl OR FLAG_DIRTY)" "raw_lower p3 = Some (of_nat PAGEHDRSZ)" "raw_upper p3 = Some (of_nat psize)"
    using load16_store16 [OF p1] load16_store16 [OF p2] load16_store16 [OF p3] load16_apart [OF p2, of 10] load16_apart [OF p3, of 10]
      load16_apart [OF p3, of 12] by (simp_all add: raw_flags_def raw_lower_def raw_upper_def)
  have flags: "F_ISSET (fl OR FLAG_DIRTY) FLAG_LEAF = leaf" "\<not> F_ISSET (fl OR FLAG_DIRTY) FLAG_LEAF2"
    using dirty_flag assms(5,6) by simp_all
  have "page_layout leaf psize p3 (psize - PAGEHDRSZ)" "raw_nodes p3 = Some []"
    using empty_layout [OF l3 assms(2-4) hdr(1) flags hdr(2,3)] by simp_all
  moreover have "raw_page_pgno p3 = Some pgno"
    using load_store_same [OF p0 [unfolded store64_def]] store16_apart [OF p1, of 0 8] store16_apart [OF p2, of 0 8] store16_apart [OF p3, of 0 8]
    by (simp add: raw_page_pgno_def load64_def le_value_64)
  ultimately show ?thesis using p0 p1 p2 p3 hdr(1) by blast
qed

lemma branch_dirty: "F_ISSET (fl OR FLAG_DIRTY) FLAG_BRANCH = F_ISSET fl FLAG_BRANCH"
proof -
  have "FLAG_DIRTY AND FLAG_BRANCH = 0" by (simp add: FLAG_DIRTY_def FLAG_BRANCH_def)
  then show ?thesis by (simp add: F_ISSET_def word_ao_dist)
qed

text \<open>The state after a page was taken from the pools.\<close>

definition state_kept :: "free_db \<Rightarrow> write_state \<Rightarrow> write_state \<Rightarrow> bool" where
  "state_kept fd st st' =
     (me_psize (ws_env st') = me_psize (ws_env st) \<and> me_nodemax (ws_env st') = me_nodemax (ws_env st)
      \<and> ws_cursors st' = ws_cursors st \<and> unat (wt_next_pgno (ws_txn st')) \<le> unat (wt_next_pgno (ws_txn st)) + 1
      \<and> (\<forall>p. taken fd (ws_env st) (ws_txn st) p \<longrightarrow> taken fd (ws_env st') (ws_txn st') p))"

definition empty_page :: "bool \<Rightarrow> nat \<Rightarrow> mdb_id \<Rightarrow> bytes \<Rightarrow> bool" where
  "empty_page leaf psize pgno p =
     (page_layout leaf psize p (psize - PAGEHDRSZ) \<and> raw_nodes p = Some [] \<and> raw_page_pgno p = Some pgno
      \<and> (\<exists>fl. raw_flags p = Some fl \<and> (leaf \<or> F_ISSET fl FLAG_BRANCH)))"

lemma page_new_result:
  assumes good: "good_malloc malloc" and inv: "writer_inv live freed fd (ws_env st) (ws_txn st)"
    and room: "unat (wt_next_pgno (ws_txn st)) + 1 < 2 ^ 48" and psize: "psize = unat (me_psize (ws_env st))"
    and size: "PAGEHDRSZ \<le> psize" "psize \<le> 2 ^ 15" "even psize"
    and fl: "F_ISSET fl FLAG_LEAF = leaf" "\<not> F_ISSET fl FLAG_LEAF2" "leaf \<or> F_ISSET fl FLAG_BRANCH"
    and blocks: "blocks_ok pmalloc inuse st"
  shows "\<exists>rc right st'. mdb_page_new malloc (pmalloc 0) fd fl 1 st = Some (rc, right, st') \<and> writer_inv live freed fd (ws_env st') (ws_txn st')
    \<and> state_kept fd st st' \<and> ws_root st' = ws_root st \<and> ws_depth st' = ws_depth st
    \<and> (case right of
         None \<Rightarrow> rc \<noteq> MDB_SUCCESS \<and> ws_mem st' = ws_mem st
           \<and> (\<exists>env txn. mdb_page_alloc malloc (pmalloc 0) fd 1 (ws_env st) (ws_txn st) = Some (rc, None, env, txn))
       | Some np \<Rightarrow> rc = MDB_SUCCESS \<and> np \<in> pool pmalloc (ws_env st) (ws_txn st) \<and> np \<notin> inuse
           \<and> blocks_ok (\<lambda>k. pmalloc (k + 1)) (insert np inuse) st'
           \<and> pool (\<lambda>k. pmalloc (k + 1)) (ws_env st') (ws_txn st') \<subseteq> pool pmalloc (ws_env st) (ws_txn st)
           \<and> (\<exists>p pgno. ws_mem st' = (ws_mem st)(np := p) \<and> empty_page leaf psize pgno p \<and> unat pgno < 2 ^ 48
                \<and> \<not> taken fd (ws_env st) (ws_txn st) pgno \<and> taken fd (ws_env st') (ws_txn st') pgno
                \<and> mdb_page_alloc malloc (pmalloc 0) fd 1 (ws_env st) (ws_txn st) = Some (MDB_SUCCESS, Some (np, pgno), ws_env st', ws_txn st')))"
proof -
  have next64: "unat (wt_next_pgno (ws_txn st)) + 1 < 2 ^ 64" using room by simp
  obtain rc page env txn where a: "mdb_page_alloc malloc (pmalloc 0) fd 1 (ws_env st) (ws_txn st) = Some (rc, page, env, txn)"
    "writer_inv live freed fd env txn"
    "case page of None \<Rightarrow> rc \<noteq> MDB_SUCCESS \<and> refused fd (ws_env st) (ws_txn st) env txn
     | Some (np, pgno) \<Rightarrow> rc = MDB_SUCCESS
         \<and> (loose_again (ws_env st) (ws_txn st) 1 (np, pgno) env txn \<or> granted live freed fd 1 (ws_env st) (ws_txn st) np pgno env txn)"
    using page_alloc_result [OF good inv _ _ next64, of "pmalloc 0"] by auto
  note k = page_alloc_keeps [OF good inv a(1)] and t = alloc_taken [OF good inv next64 a(1)]
  have fresh: "fresh_blocks pmalloc (ws_env st) (ws_txn st)" using blocks by (simp add: blocks_ok_def)
  note P = pool_alloc [OF good inv fresh a(1)]
  show ?thesis
  proof (cases page)
    case None
    then show ?thesis using a k t by (simp add: mdb_page_new_def state_kept_def)
  next
    case (Some q)
    then obtain np pgno where page: "page = Some (np, pgno)" by (cases q) auto
    have np: "np \<in> pool pmalloc (ws_env st) (ws_txn st)" "np \<notin> pool (\<lambda>k. pmalloc (k + 1)) env txn" using P page by simp_all
    have new: "unat pgno < 2 ^ 48"
      using new_page_number [OF a(2) _ room, of "ws_env st" np pgno] a(3) page by simp
    have len: "length (ws_mem st np) = psize" "np \<notin> inuse" using blocks np psize by (auto simp: blocks_ok_def)
    from page_new_init [OF len(1) size fl(1,2)]
    obtain p0 p1 p2 p3 where p: "store64 (ws_mem st np) 0 pgno = Some p0" "store16 p0 10 (fl OR FLAG_DIRTY) = Some p1"
      "store16 p1 12 (of_nat PAGEHDRSZ) = Some p2" "store16 p2 14 (of_nat psize) = Some p3"
      "page_layout leaf psize p3 (psize - PAGEHDRSZ)" "raw_nodes p3 = Some []" "raw_page_pgno p3 = Some pgno"
      "raw_flags p3 = Some (fl OR FLAG_DIRTY)" by blast
    have empty: "empty_page leaf psize pgno p3" using p(5-8) fl(3) branch_dirty by (auto simp: empty_page_def)
    have ps: "(ucast (me_psize env) :: 16 word) = of_nat psize" using k psize by (simp add: of_nat_unat)
    obtain st' where st': "mdb_page_new malloc (pmalloc 0) fd fl 1 st = Some (rc, Some np, st')" "ws_env st' = env" "ws_txn st' = txn"
      "ws_mem st' = (ws_mem st)(np := p3)" "ws_cursors st' = ws_cursors st" "ws_root st' = ws_root st" "ws_depth st' = ws_depth st"
      "rc = MDB_SUCCESS"
    proof (cases "F_ISSET fl FLAG_BRANCH")
      case True
      then show ?thesis
        using a(1,3) page p(1-4) ps that [of "st\<lparr>ws_env := env, ws_txn := txn, ws_mem := (ws_mem st)(np := p3), ws_branch_pages := ws_branch_pages st + 1\<rparr>"]
        by (simp add: mdb_page_new_def Let_def)
    next
      case False
      then show ?thesis
        using a(1,3) page p(1-4) ps fl(1,3) that [of "st\<lparr>ws_env := env, ws_txn := txn, ws_mem := (ws_mem st)(np := p3), ws_leaf_pages := ws_leaf_pages st + 1\<rparr>"]
        by (simp add: mdb_page_new_def Let_def)
    qed
    have "blocks_ok (\<lambda>k. pmalloc (k + 1)) (insert np inuse) st'"
      using P np(2) blocks k unfolding blocks_ok_def st' by (auto simp: psize)
    then show ?thesis using st' a(1,2) k t np new len(2) empty page P by (auto simp: state_kept_def)
  qed
qed

section \<open>The separator\<close>

lemma described_key: "describes leaf nodemax (key, data, pgno, flags) n \<Longrightarrow> key_ok (Some key) \<and> nd_key n = key_bytes (Some key)"
  by (auto simp: describes_def new_node_def split: if_splits)

lemma raw_node_key:
  assumes "raw_node leaf p ofs = Some n"
  shows "\<exists>k. node_ksize p ofs = Some k \<and> key_ok (Some \<lparr>mv_size = k, mv_data = drop (ofs + NODESIZE) p\<rparr>)
    \<and> key_bytes (Some \<lparr>mv_size = k, mv_data = drop (ofs + NODESIZE) p\<rparr>) = nd_key n"
proof -
  obtain args where args: "moved_node leaf p ofs = Some args" "describes leaf (node_bytes n) args n"
    using moved_describes [OF assms order.refl] by blast
  obtain key data pgno flags where a: "args = (key, data, pgno, flags)" by (cases args)
  have "\<exists>k. node_ksize p ofs = Some k \<and> key = \<lparr>mv_size = k, mv_data = drop (ofs + NODESIZE) p\<rparr>"
    using args(1) unfolding a by (auto simp: moved_node_def bind_eq_Some_conv Let_def split: if_splits)
  then show ?thesis using described_key [OF args(2) [unfolded a]] by auto
qed

lemma split_key_result:
  assumes L: "layout leaf psize mp upper regs" and ns: "raw_nodes mp = Some ns"
    and ptrs: "\<forall>t < length ns. raw_ptr c (slot newindx t) = raw_ptr mp t"
    and new: "describes leaf nodemax (newkey, data, pgno, flags) nn" and idx: "newindx \<le> length ns" and s: "s \<le> length ns"
  shows "\<exists>sepkey. split_key mp c s newindx newkey = Some sepkey \<and> key_ok (Some sepkey)
    \<and> key_bytes (Some sepkey) = nd_key (inserted newindx nn ns ! s)"
proof (cases "s = newindx")
  case True
  then show ?thesis using described_key [OF new] inserted_new [OF idx] by (simp add: split_key_def)
next
  case False
  obtain t where t: "t < length ns" "s = slot newindx t" "inserted newindx nn ns ! s = ns ! t" by (rule inserted_old [OF s False idx])
  obtain w where w: "raw_ptr mp t = Some w" "raw_node leaf mp (unat w) = Some (ns ! t)" using node_at [OF L ns t(1)] by blast
  have "raw_ptr c s = Some w" using ptrs t(1,2) w(1) by simp
  then show ?thesis using raw_node_key [OF w(2)] False t(3) by (auto simp: split_key_def)
qed

lemma pad_result:
  assumes "page_layout leaf psize p left" and "raw_nodes p = Some ns" and "raw_page_pgno p = Some pgno"
  shows "\<exists>p'. store16 p 8 w = Some p' \<and> page_layout leaf psize p' left \<and> raw_nodes p' = Some ns \<and> raw_page_pgno p' = Some pgno"
proof -
  obtain up regs where L: "layout leaf psize p up regs" "left = up - (PAGEHDRSZ + 2 * length regs)" using assms(1) by (auto simp: page_layout_def)
  obtain fl where P: "length p = psize" "raw_flags p = Some fl" "F_ISSET fl FLAG_LEAF = leaf" "\<not> F_ISSET fl FLAG_LEAF2"
    "PAGEHDRSZ + 2 * length regs \<le> up" "up \<le> psize"
    using L(1) by (rule layoutE)
  obtain p' where p': "store16 p 8 w = Some p'" using store16_ex [of 8 p] P(1,5,6) by (auto simp: PAGEHDRSZ_def)
  have same: "load_bytes p' ofs m = load_bytes p ofs m" if "12 \<le> ofs" for ofs m using store16_apart [OF p'] that by simp
  have len: "length p' = psize" using store16_length [OF p'] P(1) by simp
  have "raw_flags p' = Some fl" using load16_apart [OF p', of 10] P(2) by (simp add: raw_flags_def)
  from layout_same [OF L(1) len this P(3,4) same] have "layout leaf psize p' up regs" "raw_nodes p' = raw_nodes p" by simp_all
  moreover have "raw_page_pgno p' = Some pgno" using store16_apart [OF p', of 0 8] assms(3) by (simp add: raw_page_pgno_def load64_def)
  ultimately show ?thesis using p' assms(2) L(2) unfolding page_layout_def by auto
qed

lemma new_size:
  assumes "describes leaf nodemax (key, data, pgno, flags) nn" and "\<not> F_ISSET flags F_BIGDATA"
  shows "\<exists>nsize. (if leaf then map_option (mdb_leaf_size nodemax key) data else Some (mdb_branch_size (Some key))) = Some nsize
    \<and> EVEN nsize = node_bytes nn + 2"
proof (cases leaf)
  case True
  then obtain d where d: "data = Some d" "NODESIZE + mv_size key + mv_size d \<le> nodemax" using assms by (auto simp: describes_def)
  have "node_bytes nn = EVEN (NODESIZE + mv_size key + mv_size d)"
    using described_bytes [of nodemax key d pgno flags nn] assms True d(1) by (simp add: new_payload_def)
  moreover have "mdb_leaf_size nodemax key d = EVEN (NODESIZE + mv_size key + mv_size d + 2)"
    using d(2) by (simp add: mdb_leaf_size_def Let_def)
  moreover have "EVEN (EVEN n) = EVEN n" for n by (simp add: EVEN_def)
  ultimately show ?thesis using True d(1) EVEN_add_2 by simp
next
  case False
  have ok: "key_ok (Some key)" "nn = Branch_node (key_bytes (Some key)) pgno" using assms(1) False by (auto simp: describes_def)
  have "mdb_branch_size (Some key) = NODESIZE + mv_size key + 2" by (simp add: mdb_branch_size_def)
  moreover have "node_bytes nn = EVEN (NODESIZE + mv_size key)" unfolding ok(2) using key_size [OF ok(1)] by simp
  ultimately show ?thesis using False EVEN_add_2 by simp
qed


text \<open>Whatever was in the copy, there is a split point, and it is one of \<open>Q\<close>.\<close>

definition point_in :: "bool \<Rightarrow> nat \<Rightarrow> bytes \<Rightarrow> nat \<Rightarrow> mdb_node \<Rightarrow> mdb_node list \<Rightarrow> (nat \<Rightarrow> bool) \<Rightarrow> bool" where
  "point_in leaf psize mp newindx nn ns Q =
     (\<forall>copy. length copy = psize \<longrightarrow>
        (\<exists>c s. split_prepare mp copy psize (length ns) newindx = Some c \<and> page_layout leaf psize c (psize - PAGEHDRSZ)
           \<and> raw_nodes c = Some [] \<and> (\<forall>t < length ns. raw_ptr c (slot newindx t) = raw_ptr mp t)
           \<and> split_point leaf mp c (length ns) newindx (node_bytes nn + 2) (psize - PAGEHDRSZ) = Some s \<and> s \<le> length ns \<and> Q s))"

lemma prepared:
  assumes page: "page_layout leaf psize mp left" and ns: "raw_nodes mp = Some ns" and n: "1 \<le> length ns" and copy: "length copy = psize"
  shows "\<exists>c. split_prepare mp copy psize (length ns) newindx = Some c \<and> page_layout leaf psize c (psize - PAGEHDRSZ)
    \<and> raw_nodes c = Some [] \<and> (\<forall>t < length ns. raw_ptr c (slot newindx t) = raw_ptr mp t)"
proof -
  obtain up regs where L: "layout leaf psize mp up regs" "length regs = length ns" using page ns by (rule page_layout_layout)
  have "PAGEHDRSZ + 2 * (length regs + 1) \<le> psize" using n used_ge [of ns] page_space [OF page ns] L(2) by simp
  then show ?thesis using split_prepare_result [OF L(1) copy, of newindx] L(2) by auto
qed

lemma point_middle:
  assumes page: "page_layout leaf psize mp left" and ns: "raw_nodes mp = Some ns" and n: "1 \<le> length ns"
    and "\<not> split_checked (length ns) newindx (node_bytes nn + 2) (psize - PAGEHDRSZ)" and "Q ((length ns + 1) div 2)"
  shows "point_in leaf psize mp newindx nn ns Q"
proof -
  have "(length ns + 1) div 2 \<le> length ns" using n by linarith
  moreover have "split_point leaf mp c (length ns) newindx (node_bytes nn + 2) (psize - PAGEHDRSZ) = Some ((length ns + 1) div 2)" for c
    using assms(4) by (auto simp: split_point_def split_checked_def Let_def)
  ultimately show ?thesis unfolding point_in_def using prepared [OF page ns n] assms(5) by blast
qed

text \<open>The page is full, and either the split point is searched for, or the middle will do.\<close>

definition can_split :: "bool \<Rightarrow> nat \<Rightarrow> mdb_node list \<Rightarrow> nat \<Rightarrow> nat \<Rightarrow> mdb_node \<Rightarrow> bool" where
  "can_split leaf psize ns left newindx nn =
     (if split_checked (length ns) newindx (node_bytes nn + 2) (psize - PAGEHDRSZ)
      then left < node_bytes nn + 2 \<and> (\<forall>n\<in>insert nn (set ns). 2 * (node_bytes n + 2) \<le> psize - PAGEHDRSZ)
      else halves_fit leaf psize (inserted newindx nn ns) ((length ns + 1) div 2))"

lemma point_fits:
  assumes page: "page_layout leaf psize mp left" and ns: "raw_nodes mp = Some ns" and idx: "newindx \<le> length ns"
    and can: "can_split leaf psize ns left newindx nn"
  shows "point_in leaf psize mp newindx nn ns (halves_fit leaf psize (inserted newindx nn ns))"
proof (cases "split_checked (length ns) newindx (node_bytes nn + 2) (psize - PAGEHDRSZ)")
  case False
  then have fit: "halves_fit leaf psize (inserted newindx nn ns) ((length ns + 1) div 2)" using can by (simp add: can_split_def)
  then have "1 \<le> length ns" by (cases ns) (simp_all add: halves_fit_def)
  then show ?thesis using point_middle [OF page ns _ False] fit by blast
next
  case True
  show ?thesis unfolding point_in_def
  proof (intro allI impI)
    fix copy :: bytes
    assume copy: "length copy = psize"
    obtain c s where cs: "split_prepare mp copy psize (length ns) newindx = Some c"
      "split_point leaf mp c (length ns) newindx (node_bytes nn + 2) (psize - PAGEHDRSZ) = Some s" "halves_fit leaf psize (inserted newindx nn ns) s"
      using split_fits_point [OF page ns copy idx, of nn] can True by (auto simp: can_split_def halves_fit_def less_Suc_eq_le)
    then have "1 \<le> length ns" "s \<le> length ns" by (simp_all add: halves_fit_def)
    then show "\<exists>c s. split_prepare mp copy psize (length ns) newindx = Some c \<and> page_layout leaf psize c (psize - PAGEHDRSZ)
        \<and> raw_nodes c = Some [] \<and> (\<forall>t < length ns. raw_ptr c (slot newindx t) = raw_ptr mp t)
        \<and> split_point leaf mp c (length ns) newindx (node_bytes nn + 2) (psize - PAGEHDRSZ) = Some s \<and> s \<le> length ns
        \<and> halves_fit leaf psize (inserted newindx nn ns) s"
      using prepared [OF page ns _ copy, of newindx] cs by auto
  qed
qed

end
