(* ===== verification/Lmdb_Split_Begin.thy ===== *)
theory Lmdb_Split_Begin
  imports Lmdb_Split_Result
begin

text \<open>
  What \<open>mdb_page_split\<close> does before the separator is added: a page for the right half, a new root
  if there is no parent, and the copy, with the split point and the separator.
\<close>

section \<open>The right page\<close>

lemma pad_empty:
  assumes "empty_page leaf psize pgno p"
  shows "\<exists>p'. store16 p 8 w = Some p' \<and> empty_page leaf psize pgno p'"
proof -
  obtain p' where p': "store16 p 8 w = Some p'" "page_layout leaf psize p' (psize - PAGEHDRSZ)" "raw_nodes p' = Some []" "raw_page_pgno p' = Some pgno"
    using pad_result [of leaf psize p "psize - PAGEHDRSZ" "[]" pgno w] assms by (auto simp: empty_page_def)
  have "raw_flags p' = raw_flags p" using load16_apart [OF p'(1), of 10] by (simp add: raw_flags_def)
  then show ?thesis using p' assms by (auto simp: empty_page_def)
qed

section \<open>A new root\<close>

text \<open>A branch page whose only child is a given page.\<close>

definition root_page_of :: "nat \<Rightarrow> mdb_id \<Rightarrow> mdb_id \<Rightarrow> bytes \<Rightarrow> bool" where
  "root_page_of psize child pgno p =
     (page_layout False psize p (psize - PAGEHDRSZ - 10) \<and> raw_nodes p = Some [Branch_node [] child] \<and> raw_page_pgno p = Some pgno
      \<and> (\<exists>fl. raw_flags p = Some fl \<and> F_ISSET fl FLAG_BRANCH))"

lemma first_child:
  assumes "empty_page False (unat (me_psize (ws_env st))) pgno (ws_mem st pp)" and "unat child < 2 ^ 48" and "PAGEHDRSZ + 10 \<le> unat (me_psize (ws_env st))"
  shows "\<exists>p. page_node_add malloc pmalloc fd pp 0 None None child 0 st = Some (MDB_SUCCESS, st\<lparr>ws_mem := (ws_mem st)(pp := p)\<rparr>)
    \<and> root_page_of (unat (me_psize (ws_env st))) child pgno p"
proof -
  let ?psize = "unat (me_psize (ws_env st))"
  have E: "page_layout False ?psize (ws_mem st pp) (?psize - PAGEHDRSZ)" "raw_nodes (ws_mem st pp) = Some []"
    using assms(1) by (simp_all add: empty_page_def)
  have size: "mdb_branch_size None = 10" "EVEN 10 = 10" by (simp_all add: mdb_branch_size_def EVEN_def NODESIZE_def)
  have key: "key_ok None" "key_bytes None = []" by (simp_all add: key_ok_def key_bytes_def)
  have room: "\<not> ?psize - PAGEHDRSZ < 10" using assms(3) by simp
  from branch_place [OF E _ key(1) assms(2), of 0 "me_nodemax (ws_env st)" 0 "\<lambda>n. Inl (int n)" None 0]
  obtain p where p: "mdb_node_add (me_nodemax (ws_env st)) ?psize 0 (\<lambda>n. Inl (int n)) (ws_mem st pp) 0 None None child 0
      = Some \<lparr>na_rc = MDB_SUCCESS, na_page = p, na_txn_error = False, na_overflow = None\<rparr>"
    "page_layout False ?psize p (?psize - PAGEHDRSZ - 10)" "raw_nodes p = Some [Branch_node [] child]"
    "load_bytes p 0 8 = load_bytes (ws_mem st pp) 0 8" "load_bytes p 10 2 = load_bytes (ws_mem st pp) 10 2"
    using room unfolding size key(2) by (auto simp: placed_def)
  have "page_id p = page_id (ws_mem st pp)" using p(4,5) by (rule page_id_cong)
  then have "root_page_of ?psize child pgno p" using p(2,3) assms(1) by (auto simp: root_page_of_def empty_page_def page_id_def)
  moreover have "page_node_add malloc pmalloc fd pp 0 None None child 0 st = Some (MDB_SUCCESS, st\<lparr>ws_mem := (ws_mem st)(pp := p)\<rparr>)"
    using p(1) by (simp add: page_node_add_def Let_def MDB_SUCCESS_def)
  ultimately show ?thesis by blast
qed

text \<open>What is to come is the same, one new root apart.\<close>

lemma split_root_result:
  assumes good: "good_malloc malloc" and inv: "writer_inv live freed fd (ws_env st) (ws_txn st)"
    and room: "unat (wt_next_pgno (ws_txn st)) + 1 < 2 ^ 48" and psize: "psize = unat (me_psize (ws_env st))"
    and size: "PAGEHDRSZ + 10 \<le> psize" "psize \<le> 2 ^ 15" "even psize"
    and mc: "wc_top mc = 0" and mp: "raw_page_pgno (ws_mem st mp) = Some child" "unat child < 2 ^ 48" "mp \<in> inuse"
    and blocks: "blocks_ok pmalloc inuse st"
  shows "\<exists>rc mc' d st'. split_root malloc (pmalloc 0) fd mp mc st = Some (rc, mc', d, st') \<and> writer_inv live freed fd (ws_env st') (ws_txn st')
    \<and> state_kept fd st st'
    \<and> (if rc = MDB_SUCCESS then
         \<exists>pp root p. mc' = (push_root pp mc)\<lparr>wc_snum := wc_snum mc + 1, wc_top := 1\<rparr> \<and> d = ws_depth st
           \<and> pp \<in> pool pmalloc (ws_env st) (ws_txn st) \<and> pp \<notin> inuse
           \<and> blocks_ok (\<lambda>k. pmalloc (k + 1)) (insert pp inuse) st'
           \<and> pool (\<lambda>k. pmalloc (k + 1)) (ws_env st') (ws_txn st') \<subseteq> pool pmalloc (ws_env st) (ws_txn st)
           \<and> ws_mem st' = (ws_mem st)(pp := p) \<and> root_page_of psize child root p
           \<and> \<not> taken fd (ws_env st) (ws_txn st) root \<and> taken fd (ws_env st') (ws_txn st') root
           \<and> ws_root st' = root \<and> ws_depth st' = ws_depth st + 1
           \<and> mdb_page_alloc malloc (pmalloc 0) fd 1 (ws_env st) (ws_txn st) = Some (MDB_SUCCESS, Some (pp, root), ws_env st', ws_txn st')
       else mc' = mc \<and> ws_mem st' = ws_mem st \<and> ws_root st' = ws_root st \<and> ws_depth st' = ws_depth st
         \<and> (\<exists>env txn. mdb_page_alloc malloc (pmalloc 0) fd 1 (ws_env st) (ws_txn st) = Some (rc, None, env, txn)))"
proof -
  have fl: "F_ISSET FLAG_BRANCH FLAG_LEAF = False" "\<not> F_ISSET FLAG_BRANCH FLAG_LEAF2" "False \<or> F_ISSET FLAG_BRANCH FLAG_BRANCH"
    by (simp_all add: F_ISSET_def FLAG_LEAF_def FLAG_LEAF2_def FLAG_BRANCH_def)
  have "PAGEHDRSZ \<le> psize" using size(1) by simp
  from page_new_result [OF good inv room psize this size(2,3) fl blocks]
  obtain rc page st1 where n: "mdb_page_new malloc (pmalloc 0) fd FLAG_BRANCH 1 st = Some (rc, page, st1)"
    "writer_inv live freed fd (ws_env st1) (ws_txn st1)" "state_kept fd st st1" "ws_root st1 = ws_root st" "ws_depth st1 = ws_depth st"
    "case page of
       None \<Rightarrow> rc \<noteq> MDB_SUCCESS \<and> ws_mem st1 = ws_mem st
         \<and> (\<exists>env txn. mdb_page_alloc malloc (pmalloc 0) fd 1 (ws_env st) (ws_txn st) = Some (rc, None, env, txn))
     | Some np \<Rightarrow> rc = MDB_SUCCESS \<and> np \<in> pool pmalloc (ws_env st) (ws_txn st) \<and> np \<notin> inuse
         \<and> blocks_ok (\<lambda>k. pmalloc (k + 1)) (insert np inuse) st1
         \<and> pool (\<lambda>k. pmalloc (k + 1)) (ws_env st1) (ws_txn st1) \<subseteq> pool pmalloc (ws_env st) (ws_txn st)
         \<and> (\<exists>p pgno. ws_mem st1 = (ws_mem st)(np := p) \<and> empty_page False psize pgno p \<and> unat pgno < 2 ^ 48
              \<and> \<not> taken fd (ws_env st) (ws_txn st) pgno \<and> taken fd (ws_env st1) (ws_txn st1) pgno
              \<and> mdb_page_alloc malloc (pmalloc 0) fd 1 (ws_env st) (ws_txn st) = Some (MDB_SUCCESS, Some (np, pgno), ws_env st1, ws_txn st1))"
    by blast
  show ?thesis
  proof (cases page)
    case None
    then show ?thesis using n mc by (simp add: split_root_def)
  next
    case (Some pp)
    then obtain p0 root where r: "rc = MDB_SUCCESS" "pp \<in> pool pmalloc (ws_env st) (ws_txn st)" "pp \<notin> inuse"
      "blocks_ok (\<lambda>k. pmalloc (k + 1)) (insert pp inuse) st1"
      "pool (\<lambda>k. pmalloc (k + 1)) (ws_env st1) (ws_txn st1) \<subseteq> pool pmalloc (ws_env st) (ws_txn st)"
      "ws_mem st1 = (ws_mem st)(pp := p0)" "empty_page False psize root p0"
      "\<not> taken fd (ws_env st) (ws_txn st) root" "taken fd (ws_env st1) (ws_txn st1) root"
      "mdb_page_alloc malloc (pmalloc 0) fd 1 (ws_env st) (ws_txn st) = Some (MDB_SUCCESS, Some (pp, root), ws_env st1, ws_txn st1)"
      using n(6) by auto
    have ps: "unat (me_psize (ws_env st1)) = psize" using n(3) psize by (simp add: state_kept_def)
    have apart: "mp \<noteq> pp" using r(3) mp(3) by blast
    have "empty_page False (unat (me_psize (ws_env st1))) root (ws_mem st1 pp)" "PAGEHDRSZ + 10 \<le> unat (me_psize (ws_env st1))"
      using r(6,7) size(1) unfolding ps by simp_all
    from first_child [OF this(1) mp(2) this(2), of malloc "pmalloc 0" fd]
    obtain p where p: "page_node_add malloc (pmalloc 0) fd pp 0 None None child 0 st1 = Some (MDB_SUCCESS, st1\<lparr>ws_mem := (ws_mem st1)(pp := p)\<rparr>)"
      "root_page_of psize child root p"
      unfolding ps by blast
    have number: "raw_page_pgno (ws_mem st1 pp) = Some root" "raw_page_pgno (ws_mem st1 mp) = Some child"
      using r(6,7) mp(1) apart by (simp_all add: empty_page_def)
    let ?st = "st1\<lparr>ws_mem := (ws_mem st1)(pp := p), ws_root := root, ws_depth := ws_depth st1 + 1\<rparr>"
    have run: "split_root malloc (pmalloc 0) fd mp mc st
        = Some (MDB_SUCCESS, (push_root pp mc)\<lparr>wc_snum := wc_snum mc + 1, wc_top := wc_top mc + 1\<rparr>, ws_depth st, ?st)"
      using mc n(1,5) Some r(1) number p(1) by (simp add: split_root_def)
    have "pp \<notin> pool (\<lambda>k. pmalloc (k + 1)) (ws_env st1) (ws_txn st1)" using r(4) by (auto simp: blocks_ok_def)
    then have "blocks_ok (\<lambda>k. pmalloc (k + 1)) (insert pp inuse) ?st" using r(4) unfolding blocks_ok_def by auto
    moreover have "state_kept fd st ?st" using n(3) by (simp add: state_kept_def)
    moreover have "ws_mem ?st = (ws_mem st)(pp := p)" using r(6) by simp
    ultimately show ?thesis unfolding run using r(2,3,5,8-10) n(2,5) p(2) mc by (auto intro!: exI [of _ pp] exI [of _ p])
  qed
qed

section \<open>The copy\<close>

lemma split_copy_result:
  assumes psize: "psize = unat (me_psize (ws_env st))" and page: "page_layout leaf psize (ws_mem st mp) left" "raw_nodes (ws_mem st mp) = Some ns"
    and right: "empty_page leaf psize number (ws_mem st rp)" and apart: "rp \<noteq> mp" "{mp, rp} \<subseteq> inuse"
    and new: "describes leaf (me_nodemax (ws_env st)) (newkey, newdata, newpgno, nflags) nn" "\<not> F_ISSET nflags F_BIGDATA"
    and idx: "newindx \<le> length ns" and point: "point_in leaf psize (ws_mem st mp) newindx nn ns Q"
    and blocks: "blocks_ok (\<lambda>k. pmalloc (k + 2)) inuse st"
  shows "(\<exists>st'. split_copy malloc pmalloc fd again leaf mp rp (length ns) newindx (newkey, newdata, newpgno, nflags) new_root mn mc st = Some (ENOMEM, mc, st')
      \<and> (\<exists>n. pmalloc 2 n = None) \<and> st' = fail_state st)
    \<or> (\<exists>copy c ps s sepkey st'. st' = st\<lparr>ws_env := (ws_env st)\<lparr>me_dpages := ps\<rparr>, ws_mem := (ws_mem st)(copy := c)\<rparr>
      \<and> copy \<in> pool (\<lambda>k. pmalloc (k + 2)) (ws_env st) (ws_txn st) \<and> copy \<notin> inuse \<and> blocks_ok (\<lambda>k. pmalloc (k + 3)) (insert copy inuse) st'
      \<and> pool (\<lambda>k. pmalloc (k + 3)) (ws_env st') (ws_txn st') \<subseteq> pool (\<lambda>k. pmalloc (k + 2)) (ws_env st) (ws_txn st)
      \<and> pages_ready leaf mp rp copy newindx psize ns st' \<and> Q s \<and> s \<le> length ns
      \<and> key_ok (Some sepkey) \<and> key_bytes (Some sepkey) = nd_key (inserted newindx nn ns ! s)
      \<and> split_copy malloc pmalloc fd again leaf mp rp (length ns) newindx (newkey, newdata, newpgno, nflags) new_root mn mc st
        = split_link malloc (pmalloc 3) fd again leaf mp rp (Some copy) (length ns) newindx s (newkey, newdata, newpgno, nflags) sepkey new_root mn mc st')"
proof -
  have malloc2: "(\<lambda>k. pmalloc (k + 2)) 0 = pmalloc 2" "(\<lambda>k. (\<lambda>k. pmalloc (k + 2)) (k + 1)) = (\<lambda>k. pmalloc (k + 3))"
    by (simp_all add: add.commute numeral_3_eq_3 numeral_2_eq_2)
  obtain upper regs where L: "layout leaf psize (ws_mem st mp) upper regs" using page(1) by (auto simp: page_layout_def)
  obtain nsize where nsize: "(if leaf then map_option (mdb_leaf_size (me_nodemax (ws_env st)) newkey) newdata
      else Some (mdb_branch_size (Some newkey))) = Some nsize" "EVEN nsize = node_bytes nn + 2"
    using new_size [OF new] by blast
  note run = split_copy_def prod.case nsize bind.bind_lunit Let_def psize [symmetric]
  show ?thesis
  proof (cases "mdb_page_malloc (pmalloc 2) 1 (ws_env st) (ws_txn st)")
    case (fields cp env txn)
    show ?thesis
    proof (cases cp)
      case None
      have "\<exists>n. pmalloc 2 n = None" "env = ws_env st" "txn = fail_txn (ws_txn st)"
        using fields None by (auto simp: mdb_page_malloc_def split: if_splits option.splits)
      then show ?thesis using fields None unfolding run by (simp add: fail_state_def fail_txn_def)
    next
      case (Some copy)
      have malloc: "mdb_page_malloc (pmalloc 2) 1 (ws_env st) (ws_txn st) = (Some copy, env, txn)" using fields Some by simp
      obtain ps where env: "env = (ws_env st)\<lparr>me_dpages := ps\<rparr>" "txn = ws_txn st"
        using page_malloc_result [of "pmalloc 2" 1 "ws_env st" "ws_txn st"] malloc by auto
      have fresh: "fresh_blocks (\<lambda>k. pmalloc (k + 2)) (ws_env st) (ws_txn st)" using blocks by (simp add: blocks_ok_def)
      note P = pool_malloc [OF fresh, unfolded malloc2, OF malloc]
      have apart2: "copy \<notin> inuse" "length (ws_mem st copy) = psize" using P blocks psize by (auto simp: blocks_ok_def)
      then have ne: "copy \<noteq> mp" "copy \<noteq> rp" using apart(2) by auto
      obtain c s where cs: "split_prepare (ws_mem st mp) (ws_mem st copy) psize (length ns) newindx = Some c"
        "page_layout leaf psize c (psize - PAGEHDRSZ)" "raw_nodes c = Some []" "\<forall>t < length ns. raw_ptr c (slot newindx t) = raw_ptr (ws_mem st mp) t"
        "split_point leaf (ws_mem st mp) c (length ns) newindx (node_bytes nn + 2) (psize - PAGEHDRSZ) = Some s"
        "s \<le> length ns" "Q s"
        using point apart2(2) unfolding point_in_def by metis
      obtain sepkey where sep: "split_key (ws_mem st mp) c s newindx newkey = Some sepkey" "key_ok (Some sepkey)"
        "key_bytes (Some sepkey) = nd_key (inserted newindx nn ns ! s)"
        using split_key_result [OF L page(2) cs(4) new(1) idx cs(6)] by blast
      let ?st = "st\<lparr>ws_env := (ws_env st)\<lparr>me_dpages := ps\<rparr>, ws_mem := (ws_mem st)(copy := c)\<rparr>"
      have st': "st\<lparr>ws_env := env, ws_txn := txn, ws_mem := (ws_mem st)(copy := c)\<rparr> = ?st" unfolding env by simp
      have "blocks_ok (\<lambda>k. pmalloc (k + 3)) (insert copy inuse) ?st"
        using P blocks unfolding blocks_ok_def env by auto
      moreover have "pages_ready leaf mp rp copy newindx psize ns ?st"
        using page right apart(1) ne cs(2-4) psize by (auto simp: pages_ready_def empty_page_def)
      moreover have "split_copy malloc pmalloc fd again leaf mp rp (length ns) newindx (newkey, newdata, newpgno, nflags) new_root mn mc st
          = split_link malloc (pmalloc 3) fd again leaf mp rp (Some copy) (length ns) newindx s (newkey, newdata, newpgno, nflags) sepkey new_root mn mc ?st"
        unfolding run malloc option.case cs(1,5) sep(1) st' by (simp only:)
      moreover have "pool (\<lambda>k. pmalloc (k + 3)) (ws_env ?st) (ws_txn ?st) \<subseteq> pool (\<lambda>k. pmalloc (k + 2)) (ws_env st) (ws_txn st)"
        using P unfolding env by simp
      moreover have "copy \<in> pool (\<lambda>k. pmalloc (k + 2)) (ws_env st) (ws_txn st)" using P by blast
      ultimately show ?thesis using cs(6,7) sep(2,3) apart2(1) by (intro disjI2) blast
    qed
  qed
qed

end
