(* ===== verification/Lmdb_Tree.thy ===== *)
theory Lmdb_Tree
  imports Lmdb_Split_Begin
begin

text \<open>
  The tree of a database as the pages in memory make it: the children of each level, each with the
  key its subtree starts at, the path of a cursor, and the order of the pages.
\<close>

section \<open>Levels\<close>

definition nodes_at :: "(nat \<Rightarrow> bytes) \<Rightarrow> nat \<Rightarrow> mdb_node list" where
  "nodes_at mem p = (case raw_nodes (mem p) of None \<Rightarrow> [] | Some ns \<Rightarrow> ns)"

text \<open>
  The children of a page whose subtree starts at \<open>k\<close>. The key of the first node means nothing, the
  subtree of that child starts where that of the page does.
\<close>

fun children :: "string \<Rightarrow> mdb_node list \<Rightarrow> (string \<times> mdb_id) list" where
  "children k [] = []"
| "children k (n # ns) = (k, nd_pgno n) # List.map (\<lambda>n. (nd_key n, nd_pgno n)) ns"

text \<open>The pages of a level, as numbers with the keys they start at; \<open>addr\<close> says where a page is.\<close>

fun level :: "(nat \<Rightarrow> bytes) \<Rightarrow> (mdb_id \<Rightarrow> nat) \<Rightarrow> mdb_id \<Rightarrow> nat \<Rightarrow> (string \<times> mdb_id) list" where
  "level mem addr root 0 = [([], root)]"
| "level mem addr root (Suc l) = concat (List.map (\<lambda>(k, x). children k (nodes_at mem (addr x))) (level mem addr root l))"

definition level_pages :: "(nat \<Rightarrow> bytes) \<Rightarrow> (mdb_id \<Rightarrow> nat) \<Rightarrow> mdb_id \<Rightarrow> nat \<Rightarrow> nat list" where
  "level_pages mem addr root l = List.map (\<lambda>x. addr (snd x)) (level mem addr root l)"

text \<open>The pages down to a level, and the nodes on a level.\<close>

fun tree_pages :: "(nat \<Rightarrow> bytes) \<Rightarrow> (mdb_id \<Rightarrow> nat) \<Rightarrow> mdb_id \<Rightarrow> nat \<Rightarrow> nat list" where
  "tree_pages mem addr root 0 = level_pages mem addr root 0"
| "tree_pages mem addr root (Suc l) = tree_pages mem addr root l @ level_pages mem addr root (Suc l)"

definition level_nodes :: "(nat \<Rightarrow> bytes) \<Rightarrow> (mdb_id \<Rightarrow> nat) \<Rightarrow> mdb_id \<Rightarrow> nat \<Rightarrow> mdb_node list" where
  "level_nodes mem addr root l = concat (List.map (nodes_at mem) (level_pages mem addr root l))"

lemma children_length [simp]: "length (children k ns) = length ns"
  by (cases ns) simp_all

lemma children_nth: "i < length ns \<Longrightarrow> children k ns ! i = (if i = 0 then k else nd_key (ns ! i), nd_pgno (ns ! i))"
  by (cases ns; cases i) simp_all

lemma level_page: "l \<le> lv \<Longrightarrow> x \<in> set (level mem addr root l) \<Longrightarrow> addr (snd x) \<in> set (tree_pages mem addr root lv)"
proof (induction lv)
  case 0
  then show ?case by (auto simp: level_pages_def)
next
  case (Suc lv)
  then show ?case by (cases "l = Suc lv") (auto simp: level_pages_def simp del: level.simps)
qed

lemma tree_page:
  assumes "p \<in> set (tree_pages mem addr root lv)"
  obtains l x where "l \<le> lv" "x \<in> set (level mem addr root l)" "p = addr (snd x)"
  using assms
proof (induction lv arbitrary: thesis)
  case 0
  then show ?case by (auto simp: level_pages_def)
next
  case (Suc lv)
  then consider "p \<in> set (tree_pages mem addr root lv)" | "p \<in> set (level_pages mem addr root (Suc lv))" by auto
  then show ?case
  proof cases
    case 1
    then show ?thesis using Suc.IH Suc.prems(1) by (metis le_SucI)
  next
    case 2
    then show ?thesis using Suc.prems(1) [of "Suc lv"] unfolding level_pages_def by (auto simp del: level.simps)
  qed
qed

text \<open>A tree only depends on its pages.\<close>

lemma level_same:
  assumes "\<And>l x. l < lv \<Longrightarrow> x \<in> set (level mem addr root l) \<Longrightarrow> nodes_at mem' (addr' (snd x)) = nodes_at mem (addr (snd x))"
  shows "level mem' addr' root lv = level mem addr root lv"
  using assms
proof (induction lv)
  case 0
  then show ?case by simp
next
  case (Suc lv)
  have "level mem' addr' root lv = level mem addr root lv" using Suc.prems by (intro Suc.IH) (metis less_SucI)
  then show ?case using Suc.prems [of lv] by (auto simp: case_prod_beta intro!: arg_cong [of _ _ concat])
qed

lemma tree_pages_same:
  assumes "\<And>l. l \<le> lv \<Longrightarrow> level_pages mem' addr' root l = level_pages mem addr root l"
  shows "tree_pages mem' addr' root lv = tree_pages mem addr root lv"
  using assms by (induction lv) auto

section \<open>Paths\<close>

definition on_path :: "(nat \<Rightarrow> bytes) \<Rightarrow> (mdb_id \<Rightarrow> nat) \<Rightarrow> mdb_id \<Rightarrow> nat \<Rightarrow> wcursor \<Rightarrow> bool" where
  "on_path mem addr root lv m =
     (wc_pg m ! 0 = addr root
      \<and> (\<forall>l<lv. wc_ki m ! l < length (nodes_at mem (wc_pg m ! l))
           \<and> wc_pg m ! Suc l = addr (nd_pgno (nodes_at mem (wc_pg m ! l) ! (wc_ki m ! l)))))"

lemma on_path_sub: "on_path mem addr root lv m \<Longrightarrow> l \<le> lv \<Longrightarrow> on_path mem addr root l m"
  by (simp add: on_path_def)

lemma on_path_Suc:
  "on_path mem addr root (Suc lv) m \<longleftrightarrow> on_path mem addr root lv m \<and> wc_ki m ! lv < length (nodes_at mem (wc_pg m ! lv))
     \<and> wc_pg m ! Suc lv = addr (nd_pgno (nodes_at mem (wc_pg m ! lv) ! (wc_ki m ! lv)))"
  unfolding on_path_def by (auto simp: less_Suc_eq)

lemma path_level:
  assumes "on_path mem addr root lv m"
  shows "\<exists>A k x B. level mem addr root lv = A @ (k, x) # B \<and> addr x = wc_pg m ! lv"
  using assms
proof (induction lv)
  case 0
  then have "level mem addr root 0 = [] @ ([], root) # []" "addr root = wc_pg m ! 0" by (simp_all add: on_path_def)
  then show ?case by blast
next
  case (Suc lv)
  then obtain A k x B where l: "level mem addr root lv = A @ (k, x) # B" "addr x = wc_pg m ! lv"
    by (auto simp: on_path_Suc)
  let ?ns = "nodes_at mem (wc_pg m ! lv)" and ?i = "wc_ki m ! lv"
  have i: "?i < length ?ns" "wc_pg m ! Suc lv = addr (nd_pgno (?ns ! ?i))" using Suc.prems by (simp_all add: on_path_Suc)
  have "children k ?ns = take ?i (children k ?ns) @ children k ?ns ! ?i # drop (Suc ?i) (children k ?ns)"
    using i(1) by (simp add: id_take_nth_drop)
  then have "\<exists>C k' D. level mem addr root (Suc lv) = C @ (k', nd_pgno (?ns ! ?i)) # D"
    using l children_nth [OF i(1)] by (simp del: children.simps) (metis append_assoc append_Cons)
  then show ?case using i(2) by metis
qed

lemma path_pages: "on_path mem addr root lv m \<Longrightarrow> l \<le> lv \<Longrightarrow> wc_pg m ! l \<in> set (level_pages mem addr root l)"
  using path_level [OF on_path_sub] by (fastforce simp: level_pages_def)

lemma path_tree: "on_path mem addr root lv m \<Longrightarrow> l \<le> lv \<Longrightarrow> lv \<le> lv' \<Longrightarrow> wc_pg m ! l \<in> set (tree_pages mem addr root lv')"
proof -
  assume "on_path mem addr root lv m" "l \<le> lv" "lv \<le> lv'"
  then obtain A k x B where "level mem addr root l = A @ (k, x) # B" "addr x = wc_pg m ! l" using path_level [OF on_path_sub] by metis
  then show ?thesis using level_page [of l lv' "(k, x)" mem addr root] \<open>l \<le> lv\<close> \<open>lv \<le> lv'\<close> by simp
qed

text \<open>A path is the same in any tree with the same pages on it.\<close>

lemma on_path_same:
  assumes "on_path mem addr root lv m" and "addr' root' = addr root" and "\<And>l. l < lv \<Longrightarrow> nodes_at mem' (wc_pg m ! l) = nodes_at mem (wc_pg m ! l)"
    and "\<And>l. l < lv \<Longrightarrow> wc_pg m' ! l = wc_pg m ! l \<and> wc_ki m' ! l = wc_ki m ! l" and "wc_pg m' ! lv = wc_pg m ! lv"
    and "\<And>l x. l \<le> lv \<Longrightarrow> x \<in> set (level mem addr root l) \<Longrightarrow> addr' (snd x) = addr (snd x)"
  shows "on_path mem' addr' root' lv m'"
  unfolding on_path_def
proof (intro conjI allI impI)
  show "wc_pg m' ! 0 = addr' root'" using assms(1,2,4,5) by (cases lv) (auto simp: on_path_def)
  fix l
  assume l: "l < lv"
  let ?ns = "nodes_at mem (wc_pg m ! l)" and ?i = "wc_ki m ! l"
  have p: "?i < length ?ns" "wc_pg m ! Suc l = addr (nd_pgno (?ns ! ?i))" using assms(1) l by (simp_all add: on_path_def)
  then show "wc_ki m' ! l < length (nodes_at mem' (wc_pg m' ! l))" using assms(3,4) l by simp
  have "on_path mem addr root l m" using assms(1) l by (simp add: on_path_def)
  then obtain A k x B where "level mem addr root l = A @ (k, x) # B" "addr x = wc_pg m ! l" using path_level by blast
  then have "(if ?i = 0 then k else nd_key (?ns ! ?i), nd_pgno (?ns ! ?i)) \<in> set (level mem addr root (Suc l))"
    using nth_mem [of ?i "children k ?ns"] p(1) by (simp add: children_nth)
  then have "addr' (nd_pgno (?ns ! ?i)) = addr (nd_pgno (?ns ! ?i))" using assms(6) [of "Suc l"] l by (metis Suc_leI snd_conv)
  moreover have "wc_pg m' ! Suc l = wc_pg m ! Suc l" using assms(4,5) l by (cases "Suc l = lv") simp_all
  ultimately show "wc_pg m' ! Suc l = addr' (nd_pgno (nodes_at mem' (wc_pg m' ! l) ! (wc_ki m' ! l)))"
    using p(2) assms(3,4) l by simp
qed

section \<open>One more child\<close>

lemma children_split:
  assumes "1 \<le> newindx" and "newindx \<le> length ns" and "1 \<le> s" and "s \<le> length ns"
  shows "children k (first_blank False (take s (inserted newindx nn ns)))
      @ children (nd_key (inserted newindx nn ns ! s)) (first_blank False (drop s (inserted newindx nn ns)))
    = take newindx (children k ns) @ (nd_key nn, nd_pgno nn) # drop newindx (children k ns)" (is "?l @ ?r = ?all")
proof -
  let ?items = "inserted newindx nn ns"
  let ?f = "\<lambda>n. (nd_key n, nd_pgno n)"
  have blank: "children key (first_blank False xs) = children key xs" for key xs by (cases xs) simp_all
  obtain n ns' where ns: "ns = n # ns'" using assms(2,1) by (cases ns) auto
  let ?xs = "take (newindx - 1) ns' @ nn # drop (newindx - 1) ns'"
  have items: "?items = n # ?xs"
    using assms(1) ns by (cases newindx) (simp_all add: inserted_def)
  have all: "?all = children k ?items"
    unfolding items using assms(1) ns by (cases newindx) (simp_all add: take_map drop_map)
  obtain s' where s': "s = Suc s'" using assms(3) by (cases s) auto
  have "s < length ?items" using assms(4) by simp
  then have "drop s ?items = ?items ! s # drop (Suc s) ?items" by (rule Cons_nth_drop_Suc [symmetric])
  then have r: "?r = List.map ?f (drop s ?items)" unfolding blank by simp
  have l: "?l = (k, nd_pgno n) # List.map ?f (take s' ?xs)" unfolding blank s' items by (simp only: take_Suc_Cons children.simps)
  have "List.map ?f (drop s ?items) = List.map ?f (drop s' ?xs)" unfolding s' items by (simp only: drop_Suc_Cons)
  then have "?l @ ?r = (k, nd_pgno n) # List.map ?f (take s' ?xs) @ List.map ?f (drop s' ?xs)"
    unfolding l r by simp
  also have "\<dots> = children k ?items" unfolding items children.simps by (simp only: flip: map_append) (simp only: append_take_drop_id)
  finally show ?thesis using all by simp
qed

text \<open>Where a page is on its level, when the pages are different.\<close>

lemma level_position:
  assumes "level mem addr root l = A @ x # B" and "level mem addr root l = A' @ x' # B'" and "addr (snd x) = addr (snd x')"
    and "distinct (level_pages mem addr root l)"
  shows "A' = A \<and> x' = x \<and> B' = B"
proof -
  let ?f = "\<lambda>x. addr (snd x)"
  have "length A = length A'"
  proof (rule ccontr)
    assume ne: "length A \<noteq> length A'"
    define ys where "ys = level mem addr root l"
    have "ys ! length A = x" "length A < length ys" unfolding ys_def assms(1) by simp_all
    moreover have "ys ! length A' = x'" "length A' < length ys" unfolding ys_def assms(2) by simp_all
    moreover have "distinct (List.map ?f ys)" using assms(4) by (simp add: ys_def level_pages_def)
    ultimately show False using ne assms(3) nth_eq_iff_index_eq [of "List.map ?f ys" "length A" "length A'"] by simp
  qed
  then show ?thesis using assms(1,2) by simp
qed

lemma level_distinct: "distinct (tree_pages mem addr root lv) \<Longrightarrow> l \<le> lv \<Longrightarrow> distinct (level_pages mem addr root l)"
proof (induction lv)
  case 0
  then show ?case by simp
next
  case (Suc lv)
  then show ?case by (cases "l = Suc lv") auto
qed

lemma level_apart:
  assumes "distinct (tree_pages mem addr root lv)" and "l < l'" and "l' \<le> lv"
    and "x \<in> set (level mem addr root l)" and "x' \<in> set (level mem addr root l')"
  shows "addr (snd x) \<noteq> addr (snd x')"
  using assms
proof (induction lv)
  case 0
  then show ?case by simp
next
  case (Suc lv)
  show ?case
  proof (cases "l' = Suc lv")
    case True
    have "addr (snd x) \<in> set (tree_pages mem addr root lv)" using Suc.prems(2,4) True by (intro level_page [of l]) auto
    moreover have "addr (snd x') \<in> set (level_pages mem addr root (Suc lv))"
      using Suc.prems(5) True by (auto simp: level_pages_def simp del: level.simps)
    ultimately show ?thesis using Suc.prems(1) by auto
  next
    case False
    then show ?thesis using Suc by auto
  qed
qed

text \<open>One more node in a page, behind the one at \<open>up\<close>.\<close>

lemma children_insert:
  assumes "up < length ns"
  shows "children k (take (Suc up) ns @ n # drop (Suc up) ns) = take (Suc up) (children k ns) @ (nd_key n, nd_pgno n) # drop (Suc up) (children k ns)"
  using assms by (cases ns) (simp_all add: take_map drop_map)

text \<open>Where the children of a page are.\<close>

lemma child_position:
  assumes "level mem addr root l = A @ (k, y) # B" and "i < length (nodes_at mem (addr y))"
  shows "\<exists>C D. level mem addr root (Suc l) = C @ children k (nodes_at mem (addr y)) @ D
    \<and> level mem addr root (Suc l) = (C @ take i (children k (nodes_at mem (addr y)))) @ children k (nodes_at mem (addr y)) ! i
        # (drop (Suc i) (children k (nodes_at mem (addr y))) @ D)
    \<and> C = concat (List.map (\<lambda>(k, x). children k (nodes_at mem (addr x))) A)
    \<and> D = concat (List.map (\<lambda>(k, x). children k (nodes_at mem (addr x))) B)"
proof -
  let ?c = "children k (nodes_at mem (addr y))"
  have "?c = take i ?c @ ?c ! i # drop (Suc i) ?c" using assms(2) by (intro id_take_nth_drop) simp
  moreover have "level mem addr root (Suc l) = concat (List.map (\<lambda>(k, x). children k (nodes_at mem (addr x))) A) @ ?c
      @ concat (List.map (\<lambda>(k, x). children k (nodes_at mem (addr x))) B)"
    using assms(1) by simp
  ultimately show ?thesis by (metis append.assoc append_Cons)
qed

lemma level_insert:
  assumes lev: "level mem addr root l = A0 @ (k0, y) # B0" and d0: "distinct (level_pages mem addr root l)"
    and up: "up < length (nodes_at mem (addr y))" and below: "level mem addr root (Suc l) = A @ (k, x) # B"
    and x: "addr (nd_pgno (nodes_at mem (addr y) ! up)) = addr x" and d: "distinct (level_pages mem addr root (Suc l))"
    and lev': "level mem' addr root l = level mem addr root l" and other: "\<And>p. p \<noteq> addr y \<Longrightarrow> nodes_at mem' p = nodes_at mem p"
    and new: "nodes_at mem' (addr y) = take (Suc up) (nodes_at mem (addr y)) @ n # drop (Suc up) (nodes_at mem (addr y))"
  shows "level mem' addr root (Suc l) = A @ (k, x) # (nd_key n, nd_pgno n) # B"
proof -
  let ?ns = "nodes_at mem (addr y)"
  let ?c = "children k0 ?ns"
  obtain C D where cd: "level mem addr root (Suc l) = (C @ take up ?c) @ ?c ! up # (drop (Suc up) ?c @ D)"
    "C = concat (List.map (\<lambda>(k, x). children k (nodes_at mem (addr x))) A0)" "D = concat (List.map (\<lambda>(k, x). children k (nodes_at mem (addr x))) B0)"
    using child_position [OF lev up] by blast
  have "addr (snd (?c ! up)) = addr (snd (k, x))" using x children_nth [OF up] by simp
  from level_position [OF cd(1) below this d]
  have at: "A = C @ take up ?c" "(k, x) = ?c ! up" "B = drop (Suc up) ?c @ D" by simp_all
  have "addr (snd z) \<noteq> addr y" if "z \<in> set A0 \<union> set B0" for z
    using d0 that unfolding level_pages_def lev by (auto simp: image_iff)
  then have "List.map (\<lambda>(k, x). children k (nodes_at mem' (addr x))) A0 = List.map (\<lambda>(k, x). children k (nodes_at mem (addr x))) A0"
    "List.map (\<lambda>(k, x). children k (nodes_at mem' (addr x))) B0 = List.map (\<lambda>(k, x). children k (nodes_at mem (addr x))) B0"
    using other by (auto simp: case_prod_beta)
  then have "level mem' addr root (Suc l) = C @ children k0 (nodes_at mem' (addr y)) @ D"
    unfolding level.simps lev' lev cd(2,3) map_append list.map concat_append concat.simps prod.case by (simp only: append_assoc)
  also have "\<dots> = C @ take (Suc up) ?c @ (nd_key n, nd_pgno n) # drop (Suc up) ?c @ D"
    unfolding new children_insert [OF up] by simp
  also have "take (Suc up) ?c = take up ?c @ [?c ! up]" using up by (simp add: take_Suc_conv_app_nth)
  finally show ?thesis unfolding at(1,3) at(2) by simp
qed

text \<open>Two nodes of a page lead to different pages.\<close>

lemma child_distinct:
  assumes "level mem addr root l = A @ (k, y) # B" and "distinct (level_pages mem addr root (Suc l))"
    and "i < length (nodes_at mem (addr y))" and "j < length (nodes_at mem (addr y))"
    and "addr (nd_pgno (nodes_at mem (addr y) ! i)) = addr (nd_pgno (nodes_at mem (addr y) ! j))"
  shows "i = j"
proof -
  let ?c = "children k (nodes_at mem (addr y))"
  obtain C D where "level mem addr root (Suc l) = C @ ?c @ D" using child_position [OF assms(1,3)] by blast
  then have "distinct (List.map (\<lambda>x. addr (snd x)) ?c)" using assms(2) by (simp add: level_pages_def)
  moreover have "List.map (\<lambda>x. addr (snd x)) ?c ! i = List.map (\<lambda>x. addr (snd x)) ?c ! j" using assms(3-5) by (simp add: children_nth)
  ultimately show ?thesis using assms(3,4) nth_eq_iff_index_eq [of "List.map (\<lambda>x. addr (snd x)) ?c" i j] by simp
qed

declare level.simps(2) [simp del]

end
