(* ===== verification/Lmdb_Split_Tree.thy ===== *)
theory Lmdb_Split_Tree
  imports Lmdb_Tree
begin

text \<open>
  One step of a split in the tree: the separator has been added, and the nodes and the cursors move.
  Levels are counted from the root.
\<close>

section \<open>The tree\<close>

definition good_page :: "bool \<Rightarrow> nat \<Rightarrow> nat \<Rightarrow> nat \<Rightarrow> bytes \<Rightarrow> bool" where
  "good_page leaf psize nodemax klim p =
     (\<exists>left ns fl. page_layout leaf psize p left \<and> raw_nodes p = Some ns \<and> raw_flags p = Some fl \<and> (leaf \<or> F_ISSET fl FLAG_BRANCH)
        \<and> (\<forall>n\<in>set ns. node_bytes n \<le> nodemax \<and> length (nd_key n) \<le> klim))"

text \<open>
  Down to level \<open>lv\<close> the pages are different ones, have their numbers, which are not free, and are in
  good order; at level \<open>lv\<close> they may be leaves.
\<close>

abbreviation tree :: "write_state \<Rightarrow> (mdb_id \<Rightarrow> nat) \<Rightarrow> nat \<Rightarrow> (string \<times> mdb_id) list" where
  "tree st addr l \<equiv> level (ws_mem st) addr (ws_root st) l"

definition page_held :: "free_db \<Rightarrow> bool \<Rightarrow> nat \<Rightarrow> (mdb_id \<Rightarrow> nat) \<Rightarrow> write_state \<Rightarrow> mdb_id \<Rightarrow> bool" where
  "page_held fd leaf klim addr st x =
     (taken fd (ws_env st) (ws_txn st) x \<and> raw_page_pgno (ws_mem st (addr x)) = Some x
      \<and> good_page leaf (unat (me_psize (ws_env st))) (me_nodemax (ws_env st)) klim (ws_mem st (addr x)))"

definition tree_ok :: "free_db \<Rightarrow> nat \<Rightarrow> bool \<Rightarrow> nat \<Rightarrow> (mdb_id \<Rightarrow> nat) \<Rightarrow> write_state \<Rightarrow> bool" where
  "tree_ok fd klim leaf lv addr st =
     (distinct (tree_pages (ws_mem st) addr (ws_root st) lv)
      \<and> (\<forall>l\<le>lv. \<forall>x\<in>set (tree st addr l). page_held fd (leaf \<and> l = lv) klim addr st (snd x)))"

lemma tree_okD:
  assumes "tree_ok fd klim leaf lv addr st"
  shows "distinct (tree_pages (ws_mem st) addr (ws_root st) lv)"
    "l \<le> lv \<Longrightarrow> x \<in> set (tree st addr l) \<Longrightarrow> page_held fd (leaf \<and> l = lv) klim addr st (snd x)"
  using assms by (auto simp: tree_ok_def)

text \<open>The nodes of a page on a path.\<close>

lemma good_pageE:
  assumes "good_page leaf psize nodemax klim (mem p)"
  obtains fl where "page_layout leaf psize (mem p) (psize - PAGEHDRSZ - used (nodes_at mem p))" "raw_nodes (mem p) = Some (nodes_at mem p)"
    "raw_flags (mem p) = Some fl" "leaf \<or> F_ISSET fl FLAG_BRANCH" "raw_numkeys (mem p) = Some (length (nodes_at mem p))"
    "\<And>n. n \<in> set (nodes_at mem p) \<Longrightarrow> node_bytes n \<le> nodemax \<and> length (nd_key n) \<le> klim"
proof -
  obtain left ns fl where p: "page_layout leaf psize (mem p) left" "raw_nodes (mem p) = Some ns" "raw_flags (mem p) = Some fl"
    "leaf \<or> F_ISSET fl FLAG_BRANCH" "\<forall>n\<in>set ns. node_bytes n \<le> nodemax \<and> length (nd_key n) \<le> klim"
    using assms unfolding good_page_def by blast
  have ns: "nodes_at mem p = ns" using p(2) by (simp add: nodes_at_def)
  have left: "left = psize - PAGEHDRSZ - used ns" using page_space [OF p(1,2)] by simp
  obtain up regs where L: "layout leaf psize (mem p) up regs" "length regs = length ns" using p(1,2) by (rule page_layout_layout)
  have "raw_numkeys (mem p) = Some (length ns)" using layout_numkeys [OF L(1)] L(2) by simp
  then show ?thesis using that [of fl] p unfolding ns left by blast
qed

lemma path_good:
  assumes "tree_ok fd klim leaf lv addr st" and "on_path (ws_mem st) addr (ws_root st) l m" and "l \<le> lv"
  obtains x where "x \<in> set (tree st addr l)" "addr (snd x) = wc_pg m ! l" "page_held fd (leaf \<and> l = lv) klim addr st (snd x)"
proof -
  obtain A k x B where "tree st addr l = A @ (k, x) # B" "addr x = wc_pg m ! l" using path_level [OF assms(2)] by blast
  then show ?thesis using that [of "(k, x)"] tree_okD(2) [OF assms(1,3), of "(k, x)"] by simp
qed

lemma tree_ok_sub:
  assumes "tree_ok fd klim leaf lv addr st" and "l < lv"
  shows "tree_ok fd klim False l addr st"
proof -
  have "distinct (tree_pages mem addr root lv) \<Longrightarrow> distinct (tree_pages mem addr root l)" for mem root
    using assms(2) by (induction lv) (auto simp: less_Suc_eq)
  then have "distinct (tree_pages (ws_mem st) addr (ws_root st) l)" using tree_okD(1) [OF assms(1)] by blast
  moreover have "page_held fd (False \<and> j = l) klim addr st (snd x)" if "j \<le> l" "x \<in> set (tree st addr j)" for j x
    using tree_okD(2) [OF assms(1), of j x] that assms(2) by simp
  ultimately show ?thesis unfolding tree_ok_def by blast
qed

lemma tree_ok_Suc:
  assumes "tree_ok fd klim False l addr st" and "distinct (tree_pages (ws_mem st) addr (ws_root st) (Suc l))"
    and "\<And>x. x \<in> set (tree st addr (Suc l)) \<Longrightarrow> page_held fd leaf klim addr st (snd x)"
  shows "tree_ok fd klim leaf (Suc l) addr st"
proof -
  have "page_held fd (leaf \<and> j = Suc l) klim addr st (snd x)" if "j \<le> Suc l" "x \<in> set (tree st addr j)" for j x
    using that assms(3) [of x] tree_okD(2) [OF assms(1), of j x] by (cases "j = Suc l") auto
  then show ?thesis using assms(2) by (simp add: tree_ok_def)
qed

text \<open>Changes elsewhere leave the tree as it is.\<close>

lemma tree_kept:
  assumes ok: "tree_ok fd klim leaf lv addr st" and root: "ws_root st' = ws_root st"
    and sizes: "me_psize (ws_env st') = me_psize (ws_env st)" "me_nodemax (ws_env st') = me_nodemax (ws_env st)"
    and taken: "\<And>x. taken fd (ws_env st) (ws_txn st) x \<Longrightarrow> taken fd (ws_env st') (ws_txn st') x"
    and mem: "\<And>p. p \<in> set (tree_pages (ws_mem st) addr (ws_root st) lv) \<Longrightarrow> ws_mem st' p = ws_mem st p"
    and addr: "\<And>x. taken fd (ws_env st) (ws_txn st) x \<Longrightarrow> addr' x = addr x"
  shows "tree_ok fd klim leaf lv addr' st'" and "l \<le> Suc lv \<Longrightarrow> tree st' addr' l = tree st addr l"
    and "tree_pages (ws_mem st') addr' (ws_root st') lv = tree_pages (ws_mem st) addr (ws_root st) lv"
    and "l \<le> lv \<Longrightarrow> on_path (ws_mem st) addr (ws_root st) l m \<Longrightarrow> on_path (ws_mem st') addr' (ws_root st') l m"
proof -
  have same: "addr' (snd x) = addr (snd x)" "ws_mem st' (addr (snd x)) = ws_mem st (addr (snd x))"
    if "l \<le> lv" "x \<in> set (tree st addr l)" for l x
    using addr tree_okD(2) [OF ok that] mem level_page [OF that] by (auto simp: page_held_def)
  then have nodes: "nodes_at (ws_mem st') (addr' (snd x)) = nodes_at (ws_mem st) (addr (snd x))"
    if "l \<le> lv" "x \<in> set (tree st addr l)" for l x
    using that by (simp add: nodes_at_def)
  show level: "tree st' addr' l = tree st addr l" if "l \<le> Suc lv" for l
    unfolding root
  proof (rule level_same)
    show "nodes_at (ws_mem st') (addr' (snd x)) = nodes_at (ws_mem st) (addr (snd x))" if "j < l" "x \<in> set (tree st addr j)" for j x
      using nodes [of j x] that \<open>l \<le> Suc lv\<close> by simp
  qed
  have pages: "level_pages (ws_mem st') addr' (ws_root st') l = level_pages (ws_mem st) addr (ws_root st) l" if "l \<le> lv" for l
    using level [of l] same that by (simp add: level_pages_def)
  show all: "tree_pages (ws_mem st') addr' (ws_root st') lv = tree_pages (ws_mem st) addr (ws_root st) lv"
    unfolding root by (rule tree_pages_same) (use pages root in simp)
  have "page_held fd (leaf \<and> l = lv) klim addr' st' (snd x)" if "l \<le> lv" "x \<in> set (tree st' addr' l)" for l x
    using that level [of l] tree_okD(2) [OF ok, of l x] same [of l x] taken sizes by (simp add: page_held_def)
  then show "tree_ok fd klim leaf lv addr' st'" using tree_okD(1) [OF ok] all by (simp add: tree_ok_def)
  show "on_path (ws_mem st') addr' (ws_root st') l m" if "l \<le> lv" "on_path (ws_mem st) addr (ws_root st) l m"
  proof (rule on_path_same [OF that(2)])
    show "addr' (ws_root st') = addr (ws_root st)" using same(1) [of 0 "([], ws_root st)"] root by simp
    show "nodes_at (ws_mem st') (wc_pg m ! j) = nodes_at (ws_mem st) (wc_pg m ! j)" if "j < l" for j
      using mem path_tree [OF \<open>on_path (ws_mem st) addr (ws_root st) l m\<close>, of j lv] that \<open>l \<le> lv\<close> by (simp add: nodes_at_def)
    show "addr' (snd x) = addr (snd x)" if "j \<le> l" "x \<in> set (tree st addr j)" for j x
      using same(1) [of j x] that \<open>l \<le> lv\<close> by simp
  qed simp_all
qed

section \<open>The cursors\<close>

text \<open>
  \<open>mn\<close> leads to the right page. A cursor at level \<open>lv\<close> that is sent along with it is on a path again.
\<close>

definition leads_to :: "(nat \<Rightarrow> bytes) \<Rightarrow> (mdb_id \<Rightarrow> nat) \<Rightarrow> mdb_id \<Rightarrow> nat \<Rightarrow> wcursor \<Rightarrow> mdb_id \<Rightarrow> bool" where
  "leads_to mem addr root l mn x =
     (on_path mem addr root l mn \<and> l < length (wc_pg mn) \<and> l < length (wc_ki mn)
      \<and> wc_ki mn ! l < length (nodes_at mem (wc_pg mn ! l)) \<and> nd_pgno (nodes_at mem (wc_pg mn ! l) ! (wc_ki mn ! l)) = x)"

lemma path_along:
  assumes "leads_to mem addr root l mn x" and "\<And>j. j \<le> l \<Longrightarrow> wc_pg m ! j = wc_pg mn ! j \<and> wc_ki m ! j = wc_ki mn ! j"
    and "wc_pg m ! Suc l = addr x"
  shows "on_path mem addr root (Suc l) m"
  using assms unfolding leads_to_def on_path_def by (auto simp: less_Suc_eq Suc_leI)

lemma along_nth:
  assumes "j < length ys" and "lv < length xs" and "lv < length ys"
  shows "((take lv xs @ drop lv ys)[lv := r]) ! j = (if j < lv then xs ! j else if j = lv then r else ys ! j)"
    and "length ((take lv xs @ drop lv ys)[lv := r]) = length ys"
  using assms by (auto simp: nth_list_update nth_append min_def)

definition stacks_of :: "nat \<Rightarrow> wcursor \<Rightarrow> bool" where
  "stacks_of n m = (n < length (wc_pg m) \<and> n < length (wc_ki m))"

text \<open>What a cursor looks like after the split: \<open>d\<close> new roots are below it.\<close>

definition follows :: "nat \<Rightarrow> nat \<Rightarrow> nat \<Rightarrow> nat \<times> nat \<Rightarrow> wcursor \<Rightarrow> wcursor \<Rightarrow> bool" where
  "follows depth lv d to m m' =
     (length (wc_pg m') = length (wc_pg m) \<and> length (wc_ki m') = length (wc_ki m) \<and> wc_live m' = wc_live m
      \<and> wc_top m' = wc_top m + d \<and> wc_snum m' = wc_snum m + d \<and> place (lv + d) m' = to
      \<and> (\<forall>j. lv < j \<and> j \<le> depth \<longrightarrow> place (j + d) m' = place j m))"

lemma follow_split_result:
  assumes m: "on_path mem addr root (Suc l) m" and mn: "leads_to mem addr root l mn x" "addr x = rp"
    and len: "stacks_of depth m" "Suc l \<le> depth" "stacks_of (Suc l) mn" and live: "wc_live m"
    and m'_def: "m' = follow_split (Suc l) mp rp newindx s mn m"
  shows "on_path mem addr root (Suc l) m'"
    and "follows depth (Suc l) 0 (if wc_pg m ! Suc l = mp then moved_to mp rp newindx s (wc_ki m ! Suc l) else place (Suc l) m) m m'"
proof -
  let ?lv = "Suc l" and ?i = "slot newindx (wc_ki m ! Suc l)"
  have len': "depth < length (wc_pg m)" "depth < length (wc_ki m)" "?lv < length (wc_pg m)" "?lv < length (wc_ki m)"
    "?lv < length (wc_pg mn)" "?lv < length (wc_ki mn)"
    using len by (simp_all add: stacks_of_def)
  consider (other) "wc_pg m ! ?lv \<noteq> mp" | (stay) "wc_pg m ! ?lv = mp" "?i < s" | (move) "wc_pg m ! ?lv = mp" "\<not> ?i < s" by blast
  then have "on_path mem addr root ?lv m'
    \<and> follows depth ?lv 0 (if wc_pg m ! Suc l = mp then moved_to mp rp newindx s (wc_ki m ! Suc l) else place (Suc l) m) m m'"
  proof cases
    case other
    then show ?thesis using m by (simp add: m'_def follow_split_def follows_def)
  next
    case stay
    then have m': "m' = m\<lparr>wc_ki := (wc_ki m)[?lv := ?i]\<rparr>" using live by (simp add: m'_def follow_split_def Let_def)
    have "on_path mem addr root ?lv m'" using m unfolding m' on_path_def by (auto simp: nth_list_update)
    then show ?thesis using stay len' unfolding m' follows_def place_def moved_to_def by (auto simp: nth_list_update)
  next
    case move
    then have m': "m' = m\<lparr>wc_pg := (take ?lv (wc_pg mn) @ drop ?lv (wc_pg m))[?lv := rp],
        wc_ki := (take ?lv (wc_ki mn) @ drop ?lv (wc_ki m))[?lv := ?i - s]\<rparr>"
      using live by (simp add: m'_def follow_split_def Let_def)
    have at: "wc_pg m' ! j = (if j < ?lv then wc_pg mn ! j else if j = ?lv then rp else wc_pg m ! j)"
      "wc_ki m' ! j = (if j < ?lv then wc_ki mn ! j else if j = ?lv then ?i - s else wc_ki m ! j)" if "j \<le> depth" for j
      using along_nth(1) [of j "wc_pg m" ?lv "wc_pg mn" rp] along_nth(1) [of j "wc_ki m" ?lv "wc_ki mn" "?i - s"] len' that
      unfolding m' by simp_all
    have "on_path mem addr root ?lv m'"
      by (rule path_along [OF mn(1)]) (use at len(2) mn(2) in simp_all)
    moreover have "length (wc_pg m') = length (wc_pg m)" "length (wc_ki m') = length (wc_ki m)"
      using along_nth(2) len' unfolding m' by simp_all
    moreover have "wc_live m' = wc_live m" "wc_top m' = wc_top m" "wc_snum m' = wc_snum m" unfolding m' by simp_all
    moreover have "place ?lv m' = (rp, ?i - s)" using at len(2) by (simp add: place_def)
    moreover have "place j m' = place j m" if "?lv < j" "j \<le> depth" for j using at [OF that(2)] that by (simp add: place_def)
    ultimately show ?thesis using move by (simp add: follows_def moved_to_def)
  qed
  then show "on_path mem addr root (Suc l) m'"
    "follows depth (Suc l) 0 (if wc_pg m ! Suc l = mp then moved_to mp rp newindx s (wc_ki m ! Suc l) else place (Suc l) m) m m'"
    by simp_all
qed
text \<open>
  The entry \<open>mn\<close> has is the one after that of \<open>mc\<close>: the next of the page, or on another page, and then
  \<open>mc\<close> has the last one of its page.
\<close>

definition beside :: "(nat \<Rightarrow> bytes) \<Rightarrow> nat \<Rightarrow> wcursor \<Rightarrow> wcursor \<Rightarrow> bool" where
  "beside mem l mc mn =
     (if wc_pg mn ! l = wc_pg mc ! l then wc_ki mn ! l = wc_ki mc ! l + 1
      else wc_ki mc ! l + 1 = length (nodes_at mem (wc_pg mc ! l)))"

definition own_place :: "nat \<Rightarrow> nat \<Rightarrow> nat \<Rightarrow> nat \<Rightarrow> nat \<times> nat" where
  "own_place mp rp newindx s = (if newindx < s then (mp, newindx) else (rp, newindx - s))"

lemma own_cursor:
  assumes mc: "on_path mem addr root (Suc l) mc" "place (Suc l) mc = (mp, newindx)" "wc_top mc = Suc l" "stacks_of (Suc l) mc"
    and mn: "leads_to mem addr root l mn x" "addr x = rp" "stacks_of (Suc l) mn" and beside: "beside mem l mc mn"
    and n: "raw_numkeys (mem (wc_pg mc ! l)) = Some (length (nodes_at mem (wc_pg mc ! l)))"
  shows "\<exists>mc2. (newindx < s \<longrightarrow> mc2 = cursor_after mp rp newindx s newindx mc)
    \<and> (\<forall>mem'. s \<le> newindx \<longrightarrow> mem' (wc_pg mc ! l) = mem (wc_pg mc ! l)
         \<longrightarrow> cursor_valid mem' mn (cursor_after mp rp newindx s (newindx - s) mc) = Some mc2)
    \<and> on_path mem addr root (Suc l) mc2 \<and> follows (Suc l) (Suc l) 0 (own_place mp rp newindx s) mc mc2
    \<and> (wc_pg mn ! l = wc_pg mc ! l \<longrightarrow> wc_pg mc2 ! l = wc_pg mc ! l \<and> wc_ki mc2 ! l \<in> {wc_ki mc ! l, wc_ki mc ! l + 1})"
proof -
  let ?lv = "Suc l" and ?ns = "nodes_at mem (wc_pg mc ! l)"
  have len: "?lv < length (wc_pg mc)" "?lv < length (wc_ki mc)" "?lv < length (wc_pg mn)" "?lv < length (wc_ki mn)"
    using mc(4) mn(3) by (simp_all add: stacks_of_def)
  have at: "wc_pg mc ! ?lv = mp" "wc_ki mc ! ?lv = newindx" using mc(2) by (simp_all add: place_def)
  show ?thesis
  proof (cases "newindx < s")
    case True
    define mc2 where "mc2 = cursor_after mp rp newindx s newindx mc"
    have mc2: "mc2 = mc\<lparr>wc_ki := (wc_ki mc)[?lv := newindx], wc_pg := (wc_pg mc)[?lv := mp]\<rparr>"
      using True mc(3) by (simp add: mc2_def cursor_after_def Let_def)
    have same: "wc_pg mc2 = wc_pg mc" "wc_ki mc2 = wc_ki mc" using at len list_update_id [of "wc_pg mc" ?lv] list_update_id [of "wc_ki mc" ?lv]
      unfolding mc2 by simp_all
    have "on_path mem addr root ?lv mc2" using mc(1) unfolding on_path_def same by simp
    moreover have "follows ?lv ?lv 0 (own_place mp rp newindx s) mc mc2"
      using True at same by (simp add: follows_def own_place_def place_def) (simp add: mc2)
    ultimately show ?thesis using True same unfolding mc2_def by (intro exI [of _ "cursor_after mp rp newindx s newindx mc"]) auto
  next
    case False
    define mca where "mca = cursor_after mp rp newindx s (newindx - s) mc"
    have mca: "mca = mc\<lparr>wc_ki := (wc_ki mc)[?lv := newindx - s, l := wc_ki mc ! l + 1], wc_pg := (wc_pg mc)[?lv := rp]\<rparr>"
      using False mc(3) by (simp add: mca_def cursor_after_def Let_def)
    have same: "wc_pg mca ! j = (if j = ?lv then rp else wc_pg mc ! j)"
      "wc_ki mca ! j = (if j = ?lv then newindx - s else if j = l then wc_ki mc ! l + 1 else wc_ki mc ! j)" for j
      using len unfolding mca by (auto simp: nth_list_update)
    have lens: "length (wc_pg mca) = length (wc_pg mc)" "length (wc_ki mca) = length (wc_ki mc)" "wc_top mca = ?lv" "wc_snum mca = wc_snum mc"
      "wc_live mca = wc_live mc"
      using mc(3) unfolding mca by simp_all
    let ?mv = "mca\<lparr>wc_pg := take ?lv (wc_pg mn) @ drop ?lv (wc_pg mca), wc_ki := take ?lv (wc_ki mn) @ drop ?lv (wc_ki mca)\<rparr>"
    let ?mc2 = "if wc_pg mn ! l = wc_pg mc ! l then mca else ?mv"
    have valid: "cursor_valid mem' mn mca = Some ?mc2" if "mem' (wc_pg mc ! l) = mem (wc_pg mc ! l)" for mem'
    proof -
      have "idl_at (wc_pg mn) l = Some (wc_pg mn ! l)" "idl_at (wc_pg mca) l = Some (wc_pg mc ! l)" "idl_at (wc_ki mca) l = Some (wc_ki mc ! l + 1)"
        using len lens same [of l] by (simp_all add: idl_at_eq)
      moreover have "wc_pg mn ! l \<noteq> wc_pg mc ! l \<Longrightarrow> length ?ns \<le> wc_ki mc ! l + 1" using beside by (simp add: beside_def)
      ultimately show ?thesis using n that lens(3) by (simp add: cursor_valid_def Let_def)
    qed
    have "on_path mem addr root ?lv ?mc2 \<and> follows ?lv ?lv 0 (own_place mp rp newindx s) mc ?mc2"
    proof (cases "wc_pg mn ! l = wc_pg mc ! l")
      case True
      have "leads_to mem addr root l mca x"
        using mn(1) mc(1) beside True same len lens unfolding leads_to_def beside_def on_path_def by auto
      then have "on_path mem addr root ?lv mca" by (rule path_along) (use same mn(2) in simp_all)
      then show ?thesis using True same lens False mc(3) by (simp add: follows_def own_place_def place_def)
    next
      case other: False
      have nth: "wc_pg ?mv ! j = (if j < ?lv then wc_pg mn ! j else wc_pg mca ! j)" "wc_ki ?mv ! j = (if j < ?lv then wc_ki mn ! j else wc_ki mca ! j)"
        if "j \<le> ?lv" for j
        using that len lens by (simp_all add: nth_append)
      have "on_path mem addr root ?lv ?mv" by (rule path_along [OF mn(1)]) (use nth same mn(2) in simp_all)
      then show ?thesis using other same [of ?lv] lens nth [of ?lv] len False mc(3) by (auto simp: follows_def own_place_def place_def)
    qed
    then show ?thesis using False valid same [of l] unfolding mca_def by (intro exI [of _ ?mc2]) (auto simp: mca_def)
  qed
qed
section \<open>The two pages\<close>

lemma good_half:
  assumes "page_layout leaf psize p left" and "raw_nodes p = Some (first_blank leaf xs)" and "raw_flags p = Some fl"
    and "leaf \<or> F_ISSET fl FLAG_BRANCH" and "\<And>n. n \<in> set xs \<Longrightarrow> node_bytes n \<le> nodemax \<and> length (nd_key n) \<le> klim" and "8 \<le> nodemax"
  shows "good_page leaf psize nodemax klim p"
proof -
  have "node_bytes (Branch_node [] y) = 8" for y by (simp add: EVEN_def NODESIZE_def)
  then have "\<forall>n\<in>set (first_blank leaf xs). node_bytes n \<le> nodemax \<and> length (nd_key n) \<le> klim"
    using assms(5,6) by (cases xs) auto
  then show ?thesis using assms(1-4) unfolding good_page_def by blast
qed

text \<open>The last step: the separator is there, the right page is empty.\<close>

lemma split_finish_tree:
  assumes ok: "tree_ok fd klim leaf (Suc l) addr st" and lev: "tree st addr (Suc l) = A @ (k, x) # (sep, number) # B"
    and addr: "addr x = mp" "addr number = rp"
    and ready: "pages_ready leaf mp rp copy newindx psize ns st" and copy: "copy \<notin> set (tree_pages (ws_mem st) addr (ws_root st) (Suc l))"
    and new: "describes leaf (me_nodemax (ws_env st)) new nn" "\<not> F_ISSET (snd (snd (snd new))) MDB_SPLIT_REPLACE"
      "node_bytes nn \<le> me_nodemax (ws_env st)" "length (nd_key nn) \<le> klim"
    and idx: "newindx \<le> length ns" and fit: "halves_fit leaf psize (inserted newindx nn ns) s"
    and mc: "on_path (ws_mem st) addr (ws_root st) (Suc l) mc" "place (Suc l) mc = (mp, newindx)" "wc_top mc = Suc l" "stacks_of (Suc l) mc"
    and mn: "leads_to (ws_mem st) addr (ws_root st) l mn number" "stacks_of (Suc l) mn" and beside: "beside (ws_mem st) l mc mn"
    and cursors: "\<forall>m\<in>set (ws_cursors st). wc_live (v m) \<longrightarrow> on_path (ws_mem st) addr (ws_root st) (Suc l) (v m) \<and> stacks_of depth (v m)"
    and depth: "Suc l \<le> depth"
    and act: "\<forall>mc2. \<forall>m\<in>set (ws_cursors st). wc_top mc2 = Suc l \<longrightarrow>
      (wc_pg mn ! l = wc_pg mc ! l \<longrightarrow> wc_pg mc2 ! l = wc_pg mc ! l \<and> wc_ki mc2 ! l \<in> {wc_ki mc ! l, wc_ki mc ! l + 1}) \<longrightarrow>
      cursor_split mp rp s newindx False did_split new_root mc2 mn m = Some (follow_split (Suc l) mp rp newindx s mn (v m))"
  shows "\<exists>mc' st'. split_finish malloc pmalloc fd leaf mp rp (Some copy) (length ns) newindx s new did_split new_root mn mc st = Some (MDB_SUCCESS, mc', st')
    \<and> ws_env st' = mdb_page_free copy (ws_env st) \<and> ws_txn st' = ws_txn st \<and> ws_root st' = ws_root st \<and> ws_depth st' = ws_depth st
    \<and> (\<forall>q. q \<notin> {mp, rp, copy} \<longrightarrow> ws_mem st' q = ws_mem st q)
    \<and> tree_ok fd klim leaf (Suc l) addr st' \<and> tree st' addr (Suc l) = tree st addr (Suc l)
    \<and> tree_pages (ws_mem st') addr (ws_root st') (Suc l) = tree_pages (ws_mem st) addr (ws_root st) (Suc l)
    \<and> nodes_at (ws_mem st') mp = first_blank leaf (take s (inserted newindx nn ns))
    \<and> nodes_at (ws_mem st') rp = first_blank leaf (drop s (inserted newindx nn ns))
    \<and> on_path (ws_mem st') addr (ws_root st') (Suc l) mc' \<and> follows (Suc l) (Suc l) 0 (own_place mp rp newindx s) mc mc'
    \<and> ws_cursors st' = List.map (\<lambda>m. follow_split (Suc l) mp rp newindx s mn (v m)) (ws_cursors st)
    \<and> (\<forall>m\<in>set (ws_cursors st). wc_live (v m) \<longrightarrow>
         on_path (ws_mem st') addr (ws_root st') (Suc l) (follow_split (Suc l) mp rp newindx s mn (v m))
         \<and> follows depth (Suc l) 0 (if wc_pg (v m) ! Suc l = mp then moved_to mp rp newindx s (wc_ki (v m) ! Suc l) else place (Suc l) (v m))
             (v m) (follow_split (Suc l) mp rp newindx s mn (v m)))"
proof -
  let ?lv = "Suc l" and ?items = "inserted newindx nn ns" and ?nodemax = "me_nodemax (ws_env st)"
  have psize: "psize = unat (me_psize (ws_env st))" and apart: "rp \<noteq> mp" "rp \<noteq> copy" "copy \<noteq> mp"
    and nodes: "nodes_at (ws_mem st) mp = ns"
    using ready by (simp_all add: pages_ready_def nodes_at_def)
  have held: "page_held fd leaf klim addr st x" "page_held fd leaf klim addr st number"
    using tree_okD(2) [OF ok order.refl, of "(k, x)"] tree_okD(2) [OF ok order.refl, of "(sep, number)"] unfolding lev by simp_all
  obtain flp where mp: "raw_flags (ws_mem st mp) = Some flp" "leaf \<or> F_ISSET flp FLAG_BRANCH" "\<And>n. n \<in> set ns \<Longrightarrow> node_bytes n \<le> ?nodemax \<and> length (nd_key n) \<le> klim"
    using held(1) unfolding page_held_def addr by (auto elim!: good_pageE simp: nodes)
  obtain flr where rp: "raw_flags (ws_mem st rp) = Some flr" "leaf \<or> F_ISSET flr FLAG_BRANCH"
    using held(2) unfolding page_held_def addr by (auto elim!: good_pageE)
  obtain y where y: "y \<in> set (tree st addr l)" "addr (snd y) = wc_pg mc ! l" "page_held fd (leaf \<and> l = ?lv) klim addr st (snd y)"
    by (rule path_good [OF ok on_path_sub [OF mc(1), of l]]) simp_all
  have numkeys: "raw_numkeys (ws_mem st (wc_pg mc ! l)) = Some (length (nodes_at (ws_mem st) (wc_pg mc ! l)))"
    using y(2,3) by (auto simp: page_held_def elim: good_pageE)
  have above: "wc_pg mc ! l \<notin> {mp, rp, copy}"
  proof -
    have "addr (snd y) \<noteq> addr x" "addr (snd y) \<noteq> addr number"
      using level_apart [OF tree_okD(1) [OF ok], of l ?lv y "(k, x)"] level_apart [OF tree_okD(1) [OF ok], of l ?lv y "(sep, number)"] y(1)
      unfolding lev by simp_all
    moreover have "addr (snd y) \<noteq> copy" using copy level_page [of l ?lv y] y(1) by auto
    ultimately show ?thesis using y(2) addr by simp
  qed
  obtain mc2 where mc2: "newindx < s \<Longrightarrow> mc2 = cursor_after mp rp newindx s newindx mc"
    "\<And>mem'. s \<le> newindx \<Longrightarrow> mem' (wc_pg mc ! l) = ws_mem st (wc_pg mc ! l) \<Longrightarrow>
       cursor_valid mem' mn (cursor_after mp rp newindx s (newindx - s) mc) = Some mc2"
    "on_path (ws_mem st) addr (ws_root st) ?lv mc2" "follows ?lv ?lv 0 (own_place mp rp newindx s) mc mc2"
    "wc_pg mn ! l = wc_pg mc ! l \<Longrightarrow> wc_pg mc2 ! l = wc_pg mc ! l \<and> wc_ki mc2 ! l \<in> {wc_ki mc ! l, wc_ki mc ! l + 1}"
    using own_cursor [OF mc mn(1) addr(2) mn(2) beside numkeys, of s] by blast
  have top2: "wc_top mc2 = ?lv" using mc2(4) mc(3) by (simp add: follows_def)
  have small: "\<forall>n\<in>set ns. node_bytes n \<le> ?nodemax" using mp(3) by blast
  have right: "cursor_valid mem mn (cursor_after mp rp newindx s (newindx - s) mc) = Some mc2"
    if "s \<le> newindx" "\<forall>q. q \<notin> {mp, rp, copy} \<longrightarrow> mem q = ws_mem st q" for mem
    using mc2(2) [OF that(1)] that(2) above by blast
  have act2: "cursor_split mp rp s newindx False did_split new_root mc2 mn m = Some (follow_split ?lv mp rp newindx s mn (v m))"
    if "m \<in> set (ws_cursors st)" for m
    using act that top2 mc2(5) by blast
  from split_finish_result [OF ready small new(1,2) idx fit mc2(1) right act2, of malloc pmalloc fd]
  obtain p r c where run: "split_finish malloc pmalloc fd leaf mp rp (Some copy) (length ns) newindx s new did_split new_root mn mc st
      = Some (MDB_SUCCESS, mc2, split_free (Some copy) (st\<lparr>ws_mem := (ws_mem st)(rp := r, copy := c, mp := p),
          ws_cursors := List.map (\<lambda>m. follow_split ?lv mp rp newindx s mn (v m)) (ws_cursors st)\<rparr>))"
    "raw_nodes p = Some (first_blank leaf (take s ?items))" "raw_nodes r = Some (first_blank leaf (drop s ?items))"
    "page_layout leaf psize p (psize - PAGEHDRSZ - used (first_blank leaf (take s ?items)))"
    "page_layout leaf psize r (psize - PAGEHDRSZ - used (first_blank leaf (drop s ?items)))"
    "page_id p = page_id (ws_mem st mp)" "page_id r = page_id (ws_mem st rp)"
    by blast
  define st' where "st' = split_free (Some copy) (st\<lparr>ws_mem := (ws_mem st)(rp := r, copy := c, mp := p),
          ws_cursors := List.map (\<lambda>m. follow_split ?lv mp rp newindx s mn (v m)) (ws_cursors st)\<rparr>)"
  have st': "ws_env st' = mdb_page_free copy (ws_env st)" "ws_txn st' = ws_txn st" "ws_root st' = ws_root st" "ws_depth st' = ws_depth st"
    "ws_mem st' = (ws_mem st)(rp := r, copy := c, mp := p)"
    "ws_cursors st' = List.map (\<lambda>m. follow_split ?lv mp rp newindx s mn (v m)) (ws_cursors st)"
    by (simp_all add: st'_def split_free_def)
  have other: "ws_mem st' q = ws_mem st q" if "q \<notin> {mp, rp, copy}" for q using that by (simp add: st'(5))
  have dist: "distinct (tree_pages (ws_mem st) addr (ws_root st) ?lv)" using tree_okD(1) [OF ok] .
  have low: "q \<notin> {mp, rp, copy}" if "q \<in> set (tree_pages (ws_mem st) addr (ws_root st) l)" for q
  proof -
    have "mp \<in> set (level_pages (ws_mem st) addr (ws_root st) ?lv)" "rp \<in> set (level_pages (ws_mem st) addr (ws_root st) ?lv)"
      unfolding level_pages_def lev by (simp_all add: addr)
    then show ?thesis using that dist copy by auto
  qed
  have taken: "taken fd (ws_env st') (ws_txn st') x = taken fd (ws_env st) (ws_txn st) x" for x
    by (simp add: st'(1,2) taken_def mdb_page_free_def)
  have sizes: "me_psize (ws_env st') = me_psize (ws_env st)" "me_nodemax (ws_env st') = me_nodemax (ws_env st)"
    by (simp_all add: st'(1) mdb_page_free_def)
  have t: "taken fd (ws_env st') (ws_txn st') x" if "taken fd (ws_env st) (ws_txn st) x" for x using that taken by simp
  note kept = tree_kept [OF tree_ok_sub [OF ok lessI] st'(3) sizes t other [OF low] refl]
  have lev': "tree st' addr ?lv = tree st addr ?lv" "tree st' addr l = tree st addr l" using kept(2) [of ?lv] kept(2) [of l] by simp_all
  have nodes': "nodes_at (ws_mem st') mp = first_blank leaf (take s ?items)" "nodes_at (ws_mem st') rp = first_blank leaf (drop s ?items)"
    using run(2,3) apart by (simp_all add: nodes_at_def st'(5))
  have pages: "tree_pages (ws_mem st') addr (ws_root st') ?lv = tree_pages (ws_mem st) addr (ws_root st) ?lv"
    using kept(3) lev'(1) by (simp add: level_pages_def)
  have ids: "raw_page_pgno p = raw_page_pgno (ws_mem st mp)" "raw_flags p = raw_flags (ws_mem st mp)"
    "raw_page_pgno r = raw_page_pgno (ws_mem st rp)" "raw_flags r = raw_flags (ws_mem st rp)"
    using run(6,7) by (simp_all add: page_id_def)
  have all: "node_bytes n \<le> ?nodemax \<and> length (nd_key n) \<le> klim" if "n \<in> set ?items" for n
    using that new(3,4) mp(3) set_inserted by auto
  have eight: "8 \<le> ?nodemax" using node_bytes_ge [of nn] new(3) by simp
  have "good_page leaf psize ?nodemax klim p" "good_page leaf psize ?nodemax klim r"
    using good_half [OF run(4,2) _ mp(2) _ eight, of klim] good_half [OF run(5,3) _ rp(2) _ eight, of klim] ids mp(1) rp(1) all
    by (auto dest: in_set_takeD in_set_dropD)
  then have halves: "page_held fd leaf klim addr st' x" "page_held fd leaf klim addr st' number"
    using held ids apart sizes psize unfolding page_held_def taken addr st'(5) by simp_all
  have "page_held fd leaf klim addr st' (snd z)" if "z \<in> set (tree st' addr ?lv)" for z
  proof (cases "z \<in> {(k, x), (sep, number)}")
    case True
    then show ?thesis using halves by auto
  next
    case False
    have z: "z \<in> set (tree st addr ?lv)" "page_held fd leaf klim addr st (snd z)"
      using that lev' tree_okD(2) [OF ok order.refl, of z] by simp_all
    have "distinct (List.map (\<lambda>x. addr (snd x)) (A @ (k, x) # (sep, number) # B))"
      using level_distinct [OF dist order.refl] unfolding level_pages_def lev .
    moreover have "z \<in> set A \<union> set B" using False z(1) unfolding lev by auto
    ultimately have "addr (snd z) \<noteq> mp" "addr (snd z) \<noteq> rp" using addr by (auto simp: image_iff)
    moreover have "addr (snd z) \<noteq> copy" using copy level_page [OF order.refl z(1)] by auto
    ultimately show ?thesis using z(2) other sizes unfolding page_held_def taken by simp
  qed
  then have ok': "tree_ok fd klim leaf ?lv addr st'"
    using kept(1) dist pages by (intro tree_ok_Suc) simp_all
  have path: "on_path (ws_mem st') addr (ws_root st') ?lv m" if "on_path (ws_mem st) addr (ws_root st) ?lv m" for m
  proof (rule on_path_same [OF that])
    show "nodes_at (ws_mem st') (wc_pg m ! j) = nodes_at (ws_mem st) (wc_pg m ! j)" if "j < ?lv" for j
      using other [OF low] path_tree [OF on_path_sub [OF \<open>on_path (ws_mem st) addr (ws_root st) ?lv m\<close>, of l], of j l] that by (simp add: nodes_at_def)
  qed (simp_all add: st'(3))
  have "on_path (ws_mem st') addr (ws_root st') ?lv (follow_split ?lv mp rp newindx s mn (v m))
      \<and> follows depth ?lv 0 (if wc_pg (v m) ! ?lv = mp then moved_to mp rp newindx s (wc_ki (v m) ! ?lv) else place ?lv (v m))
        (v m) (follow_split ?lv mp rp newindx s mn (v m))" if "m \<in> set (ws_cursors st)" "wc_live (v m)" for m
    using follow_split_result [OF _ mn(1) addr(2) _ depth mn(2) that(2) refl] cursors that path by blast
  then show ?thesis
    using run(1) st' other ok' lev' pages nodes' path [OF mc2(3)] mc2(4) unfolding st'_def [symmetric] by blast
qed

end
