(* ===== verification/Lmdb_Split_Link.thy ===== *)
theory Lmdb_Split_Link
  imports Lmdb_Split_Tree
begin

text \<open>
  A split whose separator fits into the parent.
\<close>

section \<open>What a split leaves\<close>

text \<open>The level and the two pages.\<close>

definition split_at ::
  "free_db \<Rightarrow> nat \<Rightarrow> bool \<Rightarrow> nat \<Rightarrow> nat \<Rightarrow> nat \<Rightarrow> nat \<Rightarrow> mdb_node list \<Rightarrow> (string \<times> mdb_id) list \<Rightarrow> (mdb_id \<Rightarrow> nat) \<Rightarrow> write_state \<Rightarrow> bool" where
  "split_at fd klim leaf lv mp rp s items lev addr st =
     (tree_ok fd klim leaf lv addr st \<and> tree st addr lv = lev \<and> nodes_at (ws_mem st) mp = first_blank leaf (take s items)
      \<and> nodes_at (ws_mem st) rp = first_blank leaf (drop s items) \<and> 1 \<le> s \<and> s < length items)"

text \<open>The cursor that inserts, and the other ones.\<close>

definition own_kept :: "nat \<Rightarrow> nat \<Rightarrow> nat \<times> nat \<Rightarrow> (mdb_id \<Rightarrow> nat) \<Rightarrow> write_state \<Rightarrow> wcursor \<Rightarrow> wcursor \<Rightarrow> bool" where
  "own_kept lv d to addr st m m' = (on_path (ws_mem st) addr (ws_root st) (lv + d) m' \<and> follows lv lv d to m m')"

definition cursor_kept ::
  "nat \<Rightarrow> nat \<Rightarrow> nat \<Rightarrow> nat \<Rightarrow> nat \<Rightarrow> nat \<Rightarrow> nat \<Rightarrow> (mdb_id \<Rightarrow> nat) \<Rightarrow> write_state \<Rightarrow> wcursor \<Rightarrow> wcursor \<Rightarrow> bool" where
  "cursor_kept depth lv d mp rp newindx s addr st m m' =
     (if wc_live m
      then on_path (ws_mem st) addr (ws_root st) (lv + d) m'
        \<and> follows depth lv d (if wc_pg m ! lv = mp then moved_to mp rp newindx s (wc_ki m ! lv) else place lv m) m m'
      else m' = m)"

section \<open>The parent\<close>

lemma parent_gets:
  assumes page: "page_layout False psize (ws_mem st parent) (psize - PAGEHDRSZ - used pns)" "raw_nodes (ws_mem st parent) = Some pns"
    and psize: "psize = unat (me_psize (ws_env st))" and i: "i \<le> length pns" and sep: "key_ok (Some sepkey)" "unat number < 2 ^ 48"
    and room: "mdb_branch_size (Some sepkey) \<le> psize - PAGEHDRSZ - used pns"
  shows "\<exists>pp left. page_node_add malloc pmalloc fd parent i (Some sepkey) None number 0 st = Some (MDB_SUCCESS, st\<lparr>ws_mem := (ws_mem st)(parent := pp)\<rparr>)
    \<and> page_layout False psize pp left \<and> raw_nodes pp = Some (take i pns @ Branch_node (key_bytes (Some sepkey)) number # drop i pns)
    \<and> page_id pp = page_id (ws_mem st parent)"
proof -
  let ?sep = "Branch_node (key_bytes (Some sepkey)) number"
  have d: "describes False (me_nodemax (ws_env st)) (sepkey, None, number, 0) ?sep" using sep by (simp add: describes_def)
  have "node_bytes ?sep = EVEN (NODESIZE + mv_size sepkey)" using key_size [OF sep(1)] by simp
  then have "\<not> psize - PAGEHDRSZ - used pns < node_bytes ?sep + 2"
    using even_room [OF page_layout_even [OF page(1)], of "NODESIZE + mv_size sepkey"] room by (simp add: mdb_branch_size_def)
  then obtain pp where "page_node_add malloc pmalloc fd parent i (Some sepkey) None number 0 st
      = Some (MDB_SUCCESS, st\<lparr>ws_mem := (ws_mem st)(parent := pp)\<rparr>)"
    "page_layout False psize pp (psize - PAGEHDRSZ - used pns - (node_bytes ?sep + 2))" "raw_nodes pp = Some (take i pns @ ?sep # drop i pns)"
    "placed (ws_mem st parent) pp i (PAGEHDRSZ + 2 * (length pns + 1)) (PAGEHDRSZ + 2 * length pns + (psize - PAGEHDRSZ - used pns) - node_bytes ?sep)"
    using page_node_add_result [OF page(1) [unfolded psize] page(2) i d, of malloc pmalloc fd] psize by auto
  moreover from this(4) have "page_id pp = page_id (ws_mem st parent)" by (intro page_id_cong) (simp_all add: placed_def)
  ultimately show ?thesis by blast
qed

lemma inserted_at:
  assumes "up < length xs"
  shows "(take (Suc up) xs @ y # drop (Suc up) xs) ! j = (if j \<le> up then xs ! j else if j = Suc up then y else xs ! (j - 1))"
proof (cases "j \<le> Suc up")
  case True
  then show ?thesis using assms by (cases "j = Suc up") (simp_all add: nth_append)
next
  case False
  then obtain t where t: "j = Suc (Suc up) + t" using less_eqE [of "Suc (Suc up)" j] by (metis not_less_eq_eq)
  have "length (take (Suc up) xs) = Suc up" using assms by simp
  then have "(take (Suc up) xs @ y # drop (Suc up) xs) ! (Suc up + Suc t) = (y # drop (Suc up) xs) ! Suc t"
    by (metis nth_append_length_plus)
  then show ?thesis using assms unfolding t by simp
qed

text \<open>A path in the tree with one more node in a page is the same, or one further in that page.\<close>

lemma path_shift:
  assumes m: "on_path mem addr root (Suc l) m" and len: "l < length (wc_ki m)"
    and below: "\<And>j. j < l \<Longrightarrow> nodes_at mem' (wc_pg m ! j) = nodes_at mem (wc_pg m ! j)"
    and other: "wc_pg m ! l \<noteq> parent \<Longrightarrow> nodes_at mem' (wc_pg m ! l) = nodes_at mem (wc_pg m ! l)"
    and new: "nodes_at mem' parent = take (Suc up) (nodes_at mem parent) @ n # drop (Suc up) (nodes_at mem parent)" "up < length (nodes_at mem parent)"
    and live: "wc_live m"
  shows "on_path mem' addr root (Suc l) (shift_parent (Suc l) parent up m)"
proof -
  let ?m = "shift_parent (Suc l) parent up m" and ?i = "wc_ki m ! l"
  have p: "?i < length (nodes_at mem (wc_pg m ! l))" "wc_pg m ! Suc l = addr (nd_pgno (nodes_at mem (wc_pg m ! l) ! ?i))"
    using m by (simp_all add: on_path_Suc)
  have low: "wc_pg ?m ! j = wc_pg m ! j" for j by (simp add: shift_parent_def)
  have ki: "wc_ki ?m ! j = (if j = l \<and> wc_pg m ! l = parent \<and> up < ?i then ?i + 1 else wc_ki m ! j)" for j
    using len live by (auto simp: shift_parent_def nth_list_update)
  have "on_path mem' addr root l ?m" using m below low ki unfolding on_path_def by auto
  moreover have "wc_ki ?m ! l < length (nodes_at mem' (wc_pg m ! l))
      \<and> nodes_at mem' (wc_pg m ! l) ! (wc_ki ?m ! l) = nodes_at mem (wc_pg m ! l) ! ?i"
    using p(1) other new unfolding ki by (cases "wc_pg m ! l = parent") (auto simp: inserted_at)
  ultimately show ?thesis using p(2) low by (auto simp: on_path_Suc)
qed

lemma shift_follows:
  assumes "follows depth (Suc l) 0 to (shift_parent (Suc l) parent up m) m'"
  shows "follows depth (Suc l) 0 to m m'"
proof -
  have "wc_ki (shift_parent (Suc l) parent up m) ! j = wc_ki m ! j" if "l < j" for j using that by (simp add: shift_parent_def)
  then show ?thesis using assms unfolding follows_def by (auto simp: shift_parent_def place_def)
qed

text \<open>The page \<open>y\<close> at \<open>parent\<close> gets a child behind \<open>x\<close>.\<close>

lemma child_added:
  assumes ok: "tree_ok fd klim leaf (Suc l) addr st" and lev: "tree st addr (Suc l) = A @ (k, x) # B"
    and rp: "addr number = rp" "rp \<notin> set (tree_pages (ws_mem st) addr (ws_root st) (Suc l))" "page_held fd leaf klim addr st number"
    and y: "tree st addr l = A0 @ (k0, y) # B0" "addr y = parent" and pns: "pns = nodes_at (ws_mem st) parent"
    and up: "up < length pns" "addr (nd_pgno (pns ! up)) = addr x" and parent: "page_held fd False klim addr st y"
    and pp: "page_layout False (unat (me_psize (ws_env st))) pp pleft" "raw_nodes pp = Some (take (Suc up) pns @ Branch_node sep number # drop (Suc up) pns)"
      "page_id pp = page_id (ws_mem st parent)"
    and sep: "length sep \<le> klim" and limit: "klim + 9 \<le> me_nodemax (ws_env st)"
    and st1: "st1 = st\<lparr>ws_mem := (ws_mem st)(parent := pp)\<rparr>"
  shows "tree_ok fd klim leaf (Suc l) addr st1" and "tree st1 addr (Suc l) = A @ (k, x) # (sep, number) # B"
    and "set (tree_pages (ws_mem st1) addr (ws_root st1) (Suc l)) \<subseteq> insert rp (set (tree_pages (ws_mem st) addr (ws_root st) (Suc l)))"
proof -
  let ?lv = "Suc l" and ?n = "Branch_node sep number"
  have dist: "distinct (tree_pages (ws_mem st) addr (ws_root st) ?lv)" using tree_okD(1) [OF ok] .
  have E: "ws_env st1 = ws_env st" "ws_txn st1 = ws_txn st" "ws_root st1 = ws_root st" "ws_mem st1 = (ws_mem st)(parent := pp)"
    by (simp_all add: st1)
  have other: "nodes_at (ws_mem st1) q = nodes_at (ws_mem st) q" if "q \<noteq> parent" for q using that by (simp add: E nodes_at_def)
  have pnew: "nodes_at (ws_mem st1) parent = take (Suc up) pns @ ?n # drop (Suc up) pns" using pp(2) by (simp add: E nodes_at_def)
  have low: "tree st1 addr j = tree st addr j" if "j \<le> l" for j
    unfolding E(3)
  proof (rule level_same)
    fix i z
    assume "i < j" "z \<in> set (tree st addr i)"
    then have "addr (snd z) \<noteq> parent" using level_apart [OF dist, of i l z "(k0, y)"] y that by simp
    then show "nodes_at (ws_mem st1) (addr (snd z)) = nodes_at (ws_mem st) (addr (snd z))" by (rule other)
  qed
  have d: "distinct (level_pages (ws_mem st) addr (ws_root st) l)" "distinct (level_pages (ws_mem st) addr (ws_root st) ?lv)"
    by (rule level_distinct [OF dist], simp)+
  show lev1: "tree st1 addr ?lv = A @ (k, x) # (sep, number) # B"
    using level_insert [OF y(1) d(1) _ lev _ d(2), where mem' = "ws_mem st1" and up = up and n = ?n] low [of l] other pnew up y(2) E(3) pns by simp
  have taken: "taken fd (ws_env st1) (ws_txn st1) z = taken fd (ws_env st) (ws_txn st) z" for z by (simp add: E)
  obtain flp where P: "raw_flags (ws_mem st parent) = Some flp" "F_ISSET flp FLAG_BRANCH"
    "\<And>n. n \<in> set pns \<Longrightarrow> node_bytes n \<le> me_nodemax (ws_env st) \<and> length (nd_key n) \<le> klim"
    using parent unfolding page_held_def y(2) pns by (auto elim: good_pageE)
  have held1: "page_held fd False klim addr st1 z" if "addr z = parent" "page_held fd False klim addr st z" for z
  proof -
    have "node_bytes ?n \<le> me_nodemax (ws_env st) \<and> length (nd_key ?n) \<le> klim"
      using sep limit EVEN_le(2) [of "NODESIZE + length sep"] by (simp add: NODESIZE_def)
    then have "\<forall>n\<in>set (take (Suc up) pns @ ?n # drop (Suc up) pns). node_bytes n \<le> me_nodemax (ws_env st) \<and> length (nd_key n) \<le> klim"
      using P(3) by (auto dest: in_set_takeD in_set_dropD)
    then have "good_page False (unat (me_psize (ws_env st))) (me_nodemax (ws_env st)) klim pp"
      using pp P(1,2) unfolding good_page_def by (auto simp: page_id_def)
    moreover have "raw_page_pgno pp = Some z" using pp(3) that by (simp add: page_id_def page_held_def)
    ultimately show ?thesis using that taken unfolding page_held_def by (simp add: E)
  qed
  have held2: "page_held fd lf klim addr st1 z = page_held fd lf klim addr st z" if "addr z \<noteq> parent" for lf z
    using that taken by (simp add: page_held_def E)
  have pages: "tree_pages (ws_mem st1) addr (ws_root st1) l = tree_pages (ws_mem st) addr (ws_root st) l"
    unfolding E(3) by (rule tree_pages_same) (use low E(3) in \<open>simp add: level_pages_def\<close>)
  show "set (tree_pages (ws_mem st1) addr (ws_root st1) ?lv) \<subseteq> insert rp (set (tree_pages (ws_mem st) addr (ws_root st) ?lv))"
    using pages lev lev1 rp(1) by (auto simp: level_pages_def)
  have above: "rp \<noteq> parent" using level_page [of l ?lv "(k0, y)" "ws_mem st" addr "ws_root st"] y rp(2) by auto
  show "tree_ok fd klim leaf ?lv addr st1"
  proof (rule tree_ok_Suc)
    have "page_held fd (False \<and> j = l) klim addr st1 (snd z)" if "j \<le> l" "z \<in> set (tree st1 addr j)" for j z
      using that low [of j] tree_okD(2) [OF tree_ok_sub [OF ok lessI], of j z] held1 [of "snd z"] held2 [of "snd z"] by auto
    then show "tree_ok fd klim False l addr st1" using tree_okD(1) [OF tree_ok_sub [OF ok lessI]] pages by (simp add: tree_ok_def)
    show "distinct (tree_pages (ws_mem st1) addr (ws_root st1) ?lv)" using dist rp pages lev lev1 by (auto simp: level_pages_def)
    show "page_held fd leaf klim addr st1 (snd z)" if "z \<in> set (tree st1 addr ?lv)" for z
    proof (cases "z = (sep, number)")
      case True
      then show ?thesis using rp held2 [of number] above by simp
    next
      case False
      then have z: "z \<in> set (tree st addr ?lv)" using that unfolding lev lev1 by auto
      then have "addr (snd z) \<noteq> parent" using level_apart [OF dist, of l ?lv "(k0, y)" z] y by auto
      then show ?thesis using held2 tree_okD(2) [OF ok order.refl z] by simp
    qed
  qed
qed

text \<open>The separator is the key of a node, and its length is limited like theirs.\<close>

lemma separator_limit:
  assumes "halves_fit leaf psize (inserted newindx nn ns) s" and "sep = nd_key (inserted newindx nn ns ! s)"
    and "length (nd_key nn) \<le> klim" and "\<And>n. n \<in> set ns \<Longrightarrow> length (nd_key n) \<le> klim"
  shows "length sep \<le> klim"
proof -
  have "s < length (inserted newindx nn ns)" using assms(1) by (simp add: halves_fit_def)
  then have "inserted newindx nn ns ! s \<in> insert nn (set ns)" using nth_mem [of s "inserted newindx nn ns"] set_inserted by simp
  then show ?thesis using assms(2-4) by auto
qed

section \<open>The separator, the nodes and the cursors\<close>

lemma split_link_room:
  assumes ok: "tree_ok fd klim leaf (Suc l) addr st" and lev: "tree st addr (Suc l) = A @ (k, x) # B" and addr: "addr x = mp" "addr number = rp"
    and rp: "rp \<notin> set (tree_pages (ws_mem st) addr (ws_root st) (Suc l))" "page_held fd leaf klim addr st number" "unat number < 2 ^ 48"
    and ready: "pages_ready leaf mp rp copy newindx psize ns st" and copy: "copy \<notin> set (tree_pages (ws_mem st) addr (ws_root st) (Suc l))"
    and new: "describes leaf (me_nodemax (ws_env st)) new nn" "\<not> F_ISSET (snd (snd (snd new))) MDB_SPLIT_REPLACE"
      "node_bytes nn \<le> me_nodemax (ws_env st)" "length (nd_key nn) \<le> klim"
    and idx: "newindx \<le> length ns" and fit: "halves_fit leaf psize (inserted newindx nn ns) s" and limit: "klim + 9 \<le> me_nodemax (ws_env st)"
    and sep: "key_ok (Some sepkey)" "key_bytes (Some sepkey) = nd_key (inserted newindx nn ns ! s)"
    and mc: "on_path (ws_mem st) addr (ws_root st) (Suc l) mc" "place (Suc l) mc = (mp, newindx)" "wc_top mc = Suc l" "stacks_of (Suc l) mc"
    and mn: "mn = mc\<lparr>wc_pg := (wc_pg mc)[Suc l := rp], wc_ki := (wc_ki mc)[l := wc_ki mc ! l + 1]\<rparr>"
    and room: "mdb_branch_size (Some sepkey) \<le> psize - PAGEHDRSZ - used (nodes_at (ws_mem st) (wc_pg mc ! l))"
    and cursors: "\<forall>m\<in>set (ws_cursors st). wc_live (v m) \<longrightarrow> on_path (ws_mem st) addr (ws_root st) (Suc l) (v m) \<and> stacks_of depth (v m)"
    and depth: "Suc l \<le> depth"
    and act: "\<forall>mc2. \<forall>m\<in>set (ws_cursors st). wc_top mc2 = Suc l \<longrightarrow> wc_pg mc2 ! l = wc_pg mc ! l \<longrightarrow>
      wc_ki mc2 ! l \<in> {wc_ki mc ! l, wc_ki mc ! l + 1} \<longrightarrow>
      cursor_split mp rp s newindx False False new_root mc2 mn m
        = Some (follow_split (Suc l) mp rp newindx s mn (shift_parent (Suc l) (wc_pg mc ! l) (wc_ki mc ! l) (v m)))"
  shows "\<exists>mc' st'. split_link malloc pmalloc fd again leaf mp rp (Some copy) (length ns) newindx s new sepkey new_root mn mc st = Some (MDB_SUCCESS, mc', st')
    \<and> ws_env st' = mdb_page_free copy (ws_env st) \<and> ws_txn st' = ws_txn st \<and> ws_root st' = ws_root st \<and> ws_depth st' = ws_depth st
    \<and> (\<forall>q. q \<notin> {mp, rp, copy, wc_pg mc ! l} \<longrightarrow> ws_mem st' q = ws_mem st q)
    \<and> split_at fd klim leaf (Suc l) mp rp s (inserted newindx nn ns) (A @ (k, x) # (nd_key (inserted newindx nn ns ! s), number) # B) addr st'
    \<and> set (tree_pages (ws_mem st') addr (ws_root st') (Suc l)) \<subseteq> insert rp (set (tree_pages (ws_mem st) addr (ws_root st) (Suc l)))
    \<and> own_kept (Suc l) 0 (own_place mp rp newindx s) addr st' mc mc'
    \<and> list_all2 (cursor_kept depth (Suc l) 0 mp rp newindx s addr st') (List.map v (ws_cursors st)) (ws_cursors st')"
proof -
  let ?lv = "Suc l" and ?parent = "wc_pg mc ! l" and ?up = "wc_ki mc ! l"
  let ?pns = "nodes_at (ws_mem st) ?parent" and ?n = "Branch_node (key_bytes (Some sepkey)) number"
  have psize: "psize = unat (me_psize (ws_env st))" and apart: "rp \<noteq> mp" "rp \<noteq> copy" "copy \<noteq> mp" using ready by (simp_all add: pages_ready_def)
  have len: "?lv < length (wc_pg mc)" "?lv < length (wc_ki mc)" using mc(4) by (simp_all add: stacks_of_def)
  have mn': "wc_pg mn ! j = (if j = ?lv then rp else wc_pg mc ! j)" "wc_ki mn ! j = (if j = l then ?up + 1 else wc_ki mc ! j)" "wc_top mn = ?lv" for j
    using len mc(3) unfolding mn by (auto simp: nth_list_update)
  have up: "?up < length ?pns" "wc_pg mc ! ?lv = addr (nd_pgno (?pns ! ?up))" "wc_pg mc ! ?lv = mp"
    using mc(1,2) by (simp_all add: on_path_Suc place_def)
  obtain A0 k0 y B0 where y: "tree st addr l = A0 @ (k0, y) # B0" "addr y = ?parent" using path_level [OF on_path_sub [OF mc(1), of l]] by auto
  have held: "page_held fd False klim addr st y" using tree_okD(2) [OF ok, of l "(k0, y)"] y(1) by simp
  then obtain flp where parent: "page_layout False psize (ws_mem st ?parent) (psize - PAGEHDRSZ - used ?pns)" "raw_nodes (ws_mem st ?parent) = Some ?pns"
    "raw_flags (ws_mem st ?parent) = Some flp" "F_ISSET flp FLAG_BRANCH"
    "\<And>n. n \<in> set ?pns \<Longrightarrow> node_bytes n \<le> me_nodemax (ws_env st) \<and> length (nd_key n) \<le> klim"
    unfolding page_held_def y(2) psize by (auto elim: good_pageE)
  have dist: "distinct (tree_pages (ws_mem st) addr (ws_root st) ?lv)" using tree_okD(1) [OF ok] .
  have tree: "wc_pg m ! j \<in> set (tree_pages (ws_mem st) addr (ws_root st) ?lv)" if "on_path (ws_mem st) addr (ws_root st) ?lv m" "j \<le> ?lv" for m j
    using path_tree [OF that order.refl] .
  have above: "?parent \<notin> {mp, rp, copy}"
  proof -
    have "addr y \<noteq> addr x" using level_apart [OF dist, of l ?lv "(k0, y)" "(k, x)"] y(1) lev by simp
    then show ?thesis using tree [OF mc(1), of l] rp(1) copy y(2) addr by auto
  qed
  have "\<not> psize - PAGEHDRSZ - used ?pns < mdb_branch_size (Some sepkey)" using room by simp
  obtain left: "SIZELEFT (ws_mem st ?parent) = Some (of_nat (psize - PAGEHDRSZ - used ?pns))"
    "unat (of_nat (psize - PAGEHDRSZ - used ?pns) :: 16 word) = psize - PAGEHDRSZ - used ?pns"
    using parent(1) by (rule page_layout_header)
  have rpno: "raw_page_pgno (ws_mem st rp) = Some number" using rp(2) addr by (simp add: page_held_def)
  obtain pp pleft where pp: "page_node_add malloc pmalloc fd ?parent (?up + 1) (Some sepkey) None number 0 st = Some (MDB_SUCCESS, st\<lparr>ws_mem := (ws_mem st)(?parent := pp)\<rparr>)"
    "page_layout False psize pp pleft" "raw_nodes pp = Some (take (?up + 1) ?pns @ ?n # drop (?up + 1) ?pns)" "page_id pp = page_id (ws_mem st ?parent)"
    using parent_gets [OF parent(1,2) psize _ sep(1) rp(3) room, of "?up + 1" malloc pmalloc fd] up(1) by auto
  define st1 where "st1 = st\<lparr>ws_mem := (ws_mem st)(?parent := pp)\<rparr>"
  have run: "split_link malloc pmalloc fd again leaf mp rp (Some copy) (length ns) newindx s new sepkey new_root mn mc st
      = split_finish malloc pmalloc fd leaf mp rp (Some copy) (length ns) newindx s new False new_root mn mc st1"
    using left(1) left(2) room rpno pp(1) mn' by (simp add: split_link_def Let_def st1_def)
  have st1: "ws_env st1 = ws_env st" "ws_txn st1 = ws_txn st" "ws_root st1 = ws_root st" "ws_depth st1 = ws_depth st" "ws_cursors st1 = ws_cursors st"
    "ws_mem st1 = (ws_mem st)(?parent := pp)"
    by (simp_all add: st1_def)
  have other: "ws_mem st1 q = ws_mem st q" "nodes_at (ws_mem st1) q = nodes_at (ws_mem st) q" if "q \<noteq> ?parent" for q
    using that by (simp_all add: st1(6) nodes_at_def)
  have pnew: "nodes_at (ws_mem st1) ?parent = take (Suc ?up) ?pns @ ?n # drop (Suc ?up) ?pns" using pp(3) by (simp add: st1(6) nodes_at_def)
  have key: "length (key_bytes (Some sepkey)) \<le> klim"
  proof (rule separator_limit [OF fit sep(2) new(4)])
    show "length (nd_key n) \<le> klim" if "n \<in> set ns" for n
      using tree_okD(2) [OF ok order.refl, of "(k, x)"] lev addr ready that by (auto simp: page_held_def good_page_def pages_ready_def)
  qed
  have x: "addr (nd_pgno (?pns ! ?up)) = addr x" using up(2,3) addr by simp
  note C = child_added [OF ok lev addr(2) rp(1,2) y refl up(1) x held pp(2) [unfolded psize] pp(3) [unfolded Suc_eq_plus1 [symmetric]] pp(4) key limit st1_def]
  note ok1 = C(1) and lev1 = C(2) [unfolded sep(2)] and all = C(3)
  have shift: "on_path (ws_mem st1) addr (ws_root st1) ?lv (shift_parent ?lv ?parent ?up m)"
    if m: "on_path (ws_mem st) addr (ws_root st) ?lv m" "l < length (wc_ki m)" "wc_live m" for m
    unfolding st1(3)
  proof (rule path_shift [OF m(1,2) _ other(2) pnew up(1) m(3)])
    fix j
    assume j: "j < l"
    obtain C k' z D where z: "tree st addr j = C @ (k', z) # D" "addr z = wc_pg m ! j"
      using path_level [OF on_path_sub [OF m(1), of j]] j by auto
    have "addr z \<noteq> ?parent" using level_apart [OF dist, of j l "(k', z)" "(k0, y)"] y z j by simp
    then show "nodes_at (ws_mem st1) (wc_pg m ! j) = nodes_at (ws_mem st) (wc_pg m ! j)" using other z by simp
  qed
  have live: "on_path mem a r n (m\<lparr>wc_live := b\<rparr>) = on_path mem a r n m" for mem a r n b and m :: wcursor by (simp add: on_path_def)
  have "shift_parent ?lv ?parent ?up (mc\<lparr>wc_live := True\<rparr>) = mc\<lparr>wc_live := True\<rparr>" by (simp add: shift_parent_def)
  then have mc1: "on_path (ws_mem st1) addr (ws_root st1) ?lv mc"
    using shift [of "mc\<lparr>wc_live := True\<rparr>"] mc(1) len live by simp
  have mn1: "leads_to (ws_mem st1) addr (ws_root st1) l mn number"
    using on_path_sub [OF mc1, of l] up(1) mn' len pnew unfolding leads_to_def on_path_def mn by (auto simp: inserted_at)
  have beside: "beside (ws_mem st1) l mc mn" using mn' by (simp add: beside_def)
  have stack: "stacks_of n (shift_parent ?lv ?parent ?up m) = stacks_of n m" "wc_live (shift_parent ?lv ?parent ?up m) = wc_live m" for n m
    by (simp_all add: stacks_of_def shift_parent_def)
  have ready1: "pages_ready leaf mp rp copy newindx psize ns st1" using ready above by (auto simp: pages_ready_def st1)
  have copy1: "copy \<notin> set (tree_pages (ws_mem st1) addr (ws_root st1) ?lv)" using all copy apart by auto
  have stn: "stacks_of ?lv mn" using mc(4) by (simp add: stacks_of_def mn)
  let ?v = "\<lambda>m. shift_parent ?lv ?parent ?up (v m)"
  have cursors1: "\<forall>m\<in>set (ws_cursors st1). wc_live (?v m) \<longrightarrow> on_path (ws_mem st1) addr (ws_root st1) ?lv (?v m) \<and> stacks_of depth (?v m)"
    using cursors shift stack depth st1(5) by (auto simp: stacks_of_def)
  have act1: "\<forall>mc2. \<forall>m\<in>set (ws_cursors st1). wc_top mc2 = ?lv \<longrightarrow>
      (wc_pg mn ! l = ?parent \<longrightarrow> wc_pg mc2 ! l = ?parent \<and> wc_ki mc2 ! l \<in> {?up, ?up + 1}) \<longrightarrow>
      cursor_split mp rp s newindx False False new_root mc2 mn m = Some (follow_split ?lv mp rp newindx s mn (?v m))"
  proof -
    have "wc_pg mn ! l = ?parent" using mn'(1) [of l] by simp
    then show ?thesis using act unfolding st1(5) by blast
  qed
  from split_finish_tree [OF ok1 lev1 addr ready1 copy1 _ new(2) _ new(4) idx fit mc1 mc(2-4) mn1 stn beside cursors1 depth act1, of malloc pmalloc] new(1,3)
  obtain mc' st' where r: "split_finish malloc pmalloc fd leaf mp rp (Some copy) (length ns) newindx s new False new_root mn mc st1 = Some (MDB_SUCCESS, mc', st')"
    "ws_env st' = mdb_page_free copy (ws_env st)" "ws_txn st' = ws_txn st" "ws_root st' = ws_root st" "ws_depth st' = ws_depth st"
    "\<forall>q. q \<notin> {mp, rp, copy} \<longrightarrow> ws_mem st' q = ws_mem st1 q"
    "tree_ok fd klim leaf ?lv addr st'" "tree st' addr ?lv = A @ (k, x) # (nd_key (inserted newindx nn ns ! s), number) # B"
    "tree_pages (ws_mem st') addr (ws_root st') ?lv = tree_pages (ws_mem st1) addr (ws_root st1) ?lv"
    "nodes_at (ws_mem st') mp = first_blank leaf (take s (inserted newindx nn ns))"
    "nodes_at (ws_mem st') rp = first_blank leaf (drop s (inserted newindx nn ns))"
    "on_path (ws_mem st') addr (ws_root st') ?lv mc'" "follows ?lv ?lv 0 (own_place mp rp newindx s) mc mc'"
    "ws_cursors st' = List.map (\<lambda>m. follow_split ?lv mp rp newindx s mn (?v m)) (ws_cursors st)"
    "\<And>m. m \<in> set (ws_cursors st) \<Longrightarrow> wc_live (?v m) \<Longrightarrow>
       on_path (ws_mem st') addr (ws_root st') ?lv (follow_split ?lv mp rp newindx s mn (?v m))
       \<and> follows depth ?lv 0 (if wc_pg (?v m) ! ?lv = mp then moved_to mp rp newindx s (wc_ki (?v m) ! ?lv) else place ?lv (?v m))
           (?v m) (follow_split ?lv mp rp newindx s mn (?v m))"
    unfolding st1(1-5) lev1 [unfolded st1(3)] by blast
  have kept: "cursor_kept depth ?lv 0 mp rp newindx s addr st' (v m) (follow_split ?lv mp rp newindx s mn (?v m))" if "m \<in> set (ws_cursors st)" for m
  proof (cases "wc_live (v m)")
    case True
    have same: "wc_pg (?v m) = wc_pg (v m)" "wc_ki (?v m) ! ?lv = wc_ki (v m) ! ?lv" by (simp_all add: shift_parent_def)
    then have "place ?lv (?v m) = place ?lv (v m)" by (simp add: place_def)
    then show ?thesis using r(15) [OF that] True same stack(2) by (auto simp: cursor_kept_def intro: shift_follows)
  next
    case False
    then show ?thesis by (simp add: cursor_kept_def follow_split_def shift_parent_def)
  qed
  have "split_at fd klim leaf ?lv mp rp s (inserted newindx nn ns) (A @ (k, x) # (nd_key (inserted newindx nn ns ! s), number) # B) addr st'"
    using r(7-11) fit by (simp add: split_at_def halves_fit_def)
  moreover have "set (tree_pages (ws_mem st') addr (ws_root st') ?lv) \<subseteq> insert rp (set (tree_pages (ws_mem st) addr (ws_root st) ?lv))"
    using all unfolding r(9) .
  moreover have "list_all2 (cursor_kept depth ?lv 0 mp rp newindx s addr st') (List.map v (ws_cursors st)) (ws_cursors st')"
    using kept unfolding r(14) by (simp add: list_all2_conv_all_nth)
  moreover have "own_kept ?lv 0 (own_place mp rp newindx s) addr st' mc mc'" using r(12,13) by (simp add: own_kept_def)
  moreover have "\<forall>q. q \<notin> {mp, rp, copy, ?parent} \<longrightarrow> ws_mem st' q = ws_mem st q" using r(6) other by simp
  ultimately show ?thesis using r(1-5) unfolding run by blast
qed

end
