(* ===== verification/Lmdb_Split_Start.thy ===== *)
theory Lmdb_Split_Start
  imports Lmdb_Split_Link
begin

text \<open>
  What \<open>mdb_page_split\<close> relies on, how it may fail, and its first steps in the tree.
\<close>

section \<open>Before the split\<close>

text \<open>
  The pages above can be split too, whatever the separator, unless it fits. Keys have at most \<open>klim\<close>
  bytes.
\<close>

definition parents_split :: "nat \<Rightarrow> nat \<Rightarrow> wcursor \<Rightarrow> write_state \<Rightarrow> bool" where
  "parents_split klim lv mc st =
     (\<forall>l<lv. \<forall>key pgno.
        let psize = unat (me_psize (ws_env st)); ns = nodes_at (ws_mem st) (wc_pg mc ! l); left = psize - PAGEHDRSZ - used ns; n = Branch_node key pgno
        in length key \<le> klim \<longrightarrow> left < node_bytes n + 2 \<longrightarrow> can_split False psize ns left (wc_ki mc ! l + 1) n)"

text \<open>The stacks have room for a new root.\<close>

definition cursor_ready :: "nat \<Rightarrow> (mdb_id \<Rightarrow> nat) \<Rightarrow> write_state \<Rightarrow> wcursor \<Rightarrow> bool" where
  "cursor_ready lv addr st m =
     (stacks_of (ws_depth st + 1) m \<and> (wc_live m \<longrightarrow> lv \<le> wc_top m \<and> on_path (ws_mem st) addr (ws_root st) lv m))"

definition new_ready :: "nat \<Rightarrow> bool \<Rightarrow> nat \<Rightarrow> mdb_val \<times> mdb_val option \<times> mdb_id \<times> 32 word \<Rightarrow> mdb_node \<Rightarrow> nat \<Rightarrow> bool" where
  "new_ready klim leaf newindx new nn nodemax =
     (describes leaf nodemax new nn \<and> \<not> F_ISSET (snd (snd (snd new))) F_BIGDATA \<and> \<not> F_ISSET (snd (snd (snd new))) MDB_APPEND
      \<and> \<not> F_ISSET (snd (snd (snd new))) MDB_SPLIT_REPLACE \<and> node_bytes nn \<le> nodemax \<and> length (nd_key nn) \<le> klim \<and> (leaf \<or> 1 \<le> newindx))"

definition split_ready ::
  "(nat \<Rightarrow> nat \<Rightarrow> nat option) \<Rightarrow> free_db \<Rightarrow> nat \<Rightarrow> bool \<Rightarrow> nat \<Rightarrow> nat \<Rightarrow> nat \<Rightarrow> mdb_val \<times> mdb_val option \<times> mdb_id \<times> 32 word \<Rightarrow> mdb_node
     \<Rightarrow> (mdb_id \<Rightarrow> nat) \<Rightarrow> nat set \<Rightarrow> wcursor \<Rightarrow> write_state \<Rightarrow> bool" where
  "split_ready pmalloc fd klim leaf lv mp newindx new nn addr inuse mc st =
     (let psize = unat (me_psize (ws_env st)); ns = nodes_at (ws_mem st) mp in
      tree_ok fd klim leaf lv addr st \<and> set (tree_pages (ws_mem st) addr (ws_root st) lv) \<subseteq> inuse \<and> blocks_ok pmalloc inuse st
      \<and> wc_live mc \<and> cursor_ready lv addr st mc \<and> place lv mc = (mp, newindx) \<and> wc_top mc = lv \<and> wc_snum mc = Suc lv \<and> lv < ws_depth st
      \<and> (\<forall>m\<in>set (ws_cursors st). cursor_ready lv addr st m)
      \<and> new_ready klim leaf newindx new nn (me_nodemax (ws_env st)) \<and> newindx \<le> length ns
      \<and> can_split leaf psize ns (psize - PAGEHDRSZ - used ns) newindx nn \<and> parents_split klim lv mc st
      \<and> klim + 9 \<le> me_nodemax (ws_env st) \<and> klim + 36 \<le> psize \<and> unat (wt_next_pgno (ws_txn st)) + lv + 2 < 2 ^ 48)"

section \<open>When it fails\<close>

text \<open>
  Among the first \<open>n\<close> pages one is refused, or there is no memory. Between two pages a block may be
  taken from those kept for reuse.
\<close>

inductive refused_in :: "allocator \<Rightarrow> (nat \<Rightarrow> nat \<Rightarrow> nat option) \<Rightarrow> free_db \<Rightarrow> nat \<Rightarrow> page_env \<Rightarrow> write_txn \<Rightarrow> int \<Rightarrow> bool"
  for malloc pmalloc fd where
  now: "mdb_page_alloc malloc (pmalloc k) fd 1 env txn = Some (rc, None, env', txn') \<Longrightarrow> refused_in malloc pmalloc fd (Suc n) env txn rc"
| memory: "pmalloc k n' = None \<Longrightarrow> refused_in malloc pmalloc fd n env txn ENOMEM"
| later: "mdb_page_alloc malloc (pmalloc k) fd 1 env txn = Some (MDB_SUCCESS, Some q, env', txn') \<Longrightarrow>
    refused_in malloc pmalloc fd n (env'\<lparr>me_dpages := ps\<rparr>) txn' rc \<Longrightarrow> refused_in malloc pmalloc fd (Suc n) env txn rc"

lemma refused_shift:
  assumes "refused_in malloc (\<lambda>k. pmalloc (k + j)) fd n env txn rc"
  shows "refused_in malloc pmalloc fd n env txn rc"
  using assms by induction (auto intro: refused_in.intros)

definition split_failed ::
  "allocator \<Rightarrow> (nat \<Rightarrow> nat \<Rightarrow> nat option) \<Rightarrow> free_db \<Rightarrow> nat \<Rightarrow> write_state \<Rightarrow> int \<Rightarrow> wcursor \<Rightarrow> wcursor \<Rightarrow> write_state \<Rightarrow> bool" where
  "split_failed malloc pmalloc fd n st rc mc mc' st' =
     (refused_in malloc pmalloc fd n (ws_env st) (ws_txn st) rc \<and> ws_cursors st' = ws_cursors st
      \<and> (\<forall>q. q \<notin> pool pmalloc (ws_env st) (ws_txn st) \<longrightarrow> ws_mem st' q = ws_mem st q)
      \<and> (wt_error (ws_txn st') \<or> mc' = mc \<and> ws_root st' = ws_root st \<and> ws_depth st' = ws_depth st))"

section \<open>The right page\<close>

lemma page_split_right:
  assumes good: "good_malloc malloc" and inv: "writer_inv live freed fd (ws_env st) (ws_txn st)"
    and room: "unat (wt_next_pgno (ws_txn st)) + 1 < 2 ^ 48" and psize: "psize = unat (me_psize (ws_env st))"
    and page: "good_page leaf psize nodemax klim (ws_mem st mp)" and mp: "mp \<in> inuse" and blocks: "blocks_ok pmalloc inuse st"
    and mc: "place (wc_top mc) mc = (mp, newindx)" "stacks_of (wc_top mc) mc"
    and append: "\<not> F_ISSET nflags MDB_APPEND" and split_def: "split = split_page malloc pmalloc fd again newkey newdata newpgno nflags mc st"
  shows "(\<exists>rc st'. split = Some (rc, mc, st') \<and> rc \<noteq> MDB_SUCCESS \<and> writer_inv live freed fd (ws_env st') (ws_txn st')
      \<and> split_failed malloc pmalloc fd (Suc n) st rc mc mc st' \<and> unat (wt_next_pgno (ws_txn st')) \<le> unat (wt_next_pgno (ws_txn st)) + 1)
    \<or> (\<exists>rp p number st1. writer_inv live freed fd (ws_env st1) (ws_txn st1) \<and> state_kept fd st st1 \<and> ws_root st1 = ws_root st
      \<and> ws_depth st1 = ws_depth st \<and> rp \<in> pool pmalloc (ws_env st) (ws_txn st) \<and> rp \<notin> inuse
      \<and> blocks_ok (\<lambda>k. pmalloc (k + 1)) (insert rp inuse) st1 \<and> pool (\<lambda>k. pmalloc (k + 1)) (ws_env st1) (ws_txn st1) \<subseteq> pool pmalloc (ws_env st) (ws_txn st)
      \<and> ws_mem st1 = (ws_mem st)(rp := p) \<and> empty_page leaf psize number p \<and> unat number < 2 ^ 48
      \<and> \<not> taken fd (ws_env st) (ws_txn st) number \<and> taken fd (ws_env st1) (ws_txn st1) number
      \<and> mdb_page_alloc malloc (pmalloc 0) fd 1 (ws_env st) (ws_txn st) = Some (MDB_SUCCESS, Some (rp, number), ws_env st1, ws_txn st1)
      \<and> split = do {
          (rc, mc1, new_root, st2) \<leftarrow> split_root malloc (pmalloc 1) fd mp mc st1;
          if rc \<noteq> MDB_SUCCESS then Some (rc, mc1, fail_state st2)
          else do {
            up \<leftarrow> idl_at (wc_ki mc1) (wc_top mc1 - 1);
            split_copy malloc pmalloc fd again leaf mp rp (length (nodes_at (ws_mem st) mp)) newindx (newkey, newdata, newpgno, nflags) new_root
              (mc1\<lparr>wc_pg := (wc_pg mc1)[wc_top mc1 := rp], wc_ki := (wc_ki mc1)[wc_top mc1 - 1 := up + 1]\<rparr>) mc1 st2
          }
        })"
proof -
  obtain fl where P: "page_layout leaf psize (ws_mem st mp) (psize - PAGEHDRSZ - used (nodes_at (ws_mem st) mp))" "raw_flags (ws_mem st mp) = Some fl"
    "leaf \<or> F_ISSET fl FLAG_BRANCH" "raw_numkeys (ws_mem st mp) = Some (length (nodes_at (ws_mem st) mp))"
    using page by (rule good_pageE) blast
  obtain up regs where L: "layout leaf psize (ws_mem st mp) up regs" using P(1) by (auto simp: page_layout_def)
  have F: "F_ISSET fl FLAG_LEAF = leaf" "\<not> F_ISSET fl FLAG_LEAF2" "PAGEHDRSZ \<le> psize" "psize \<le> 2 ^ 15" "even psize" "length (ws_mem st mp) = psize"
    using L P(2) by (auto elim: layoutE)
  have at: "idl_at (wc_pg mc) (wc_top mc) = Some mp" "idl_at (wc_ki mc) (wc_top mc) = Some newindx"
    using mc by (auto simp: place_def stacks_of_def idl_at_eq)
  obtain rc right st0 where new: "mdb_page_new malloc (pmalloc 0) fd fl 1 st = Some (rc, right, st0)"
    "writer_inv live freed fd (ws_env st0) (ws_txn st0)" "state_kept fd st st0" "ws_root st0 = ws_root st" "ws_depth st0 = ws_depth st"
    "case right of
       None \<Rightarrow> rc \<noteq> MDB_SUCCESS \<and> ws_mem st0 = ws_mem st
         \<and> (\<exists>env txn. mdb_page_alloc malloc (pmalloc 0) fd 1 (ws_env st) (ws_txn st) = Some (rc, None, env, txn))
     | Some np \<Rightarrow> rc = MDB_SUCCESS \<and> np \<in> pool pmalloc (ws_env st) (ws_txn st) \<and> np \<notin> inuse
         \<and> blocks_ok (\<lambda>k. pmalloc (k + 1)) (insert np inuse) st0
         \<and> pool (\<lambda>k. pmalloc (k + 1)) (ws_env st0) (ws_txn st0) \<subseteq> pool pmalloc (ws_env st) (ws_txn st)
         \<and> (\<exists>p pgno. ws_mem st0 = (ws_mem st)(np := p) \<and> empty_page leaf psize pgno p \<and> unat pgno < 2 ^ 48
              \<and> \<not> taken fd (ws_env st) (ws_txn st) pgno \<and> taken fd (ws_env st0) (ws_txn st0) pgno
              \<and> mdb_page_alloc malloc (pmalloc 0) fd 1 (ws_env st) (ws_txn st) = Some (MDB_SUCCESS, Some (np, pgno), ws_env st0, ws_txn st0))"
    using page_new_result [OF good inv room psize F(3-5,1,2) P(3) blocks] by blast
  show ?thesis
  proof (cases right)
    case None
    then have "split = Some (rc, mc, st0)"
      using at P(2,4) new(1) by (simp add: split_def split_page_def Let_def)
    moreover have "split_failed malloc pmalloc fd (Suc n) st rc mc mc st0"
      using new None by (auto simp: split_failed_def state_kept_def intro: refused_in.now)
    ultimately show ?thesis using new None by (auto simp: state_kept_def)
  next
    case (Some rp)
    then obtain p number where r: "rc = MDB_SUCCESS" "rp \<in> pool pmalloc (ws_env st) (ws_txn st)" "rp \<notin> inuse"
      "blocks_ok (\<lambda>k. pmalloc (k + 1)) (insert rp inuse) st0"
      "pool (\<lambda>k. pmalloc (k + 1)) (ws_env st0) (ws_txn st0) \<subseteq> pool pmalloc (ws_env st) (ws_txn st)"
      "ws_mem st0 = (ws_mem st)(rp := p)" "empty_page leaf psize number p" "unat number < 2 ^ 48"
      "\<not> taken fd (ws_env st) (ws_txn st) number" "taken fd (ws_env st0) (ws_txn st0) number"
      "mdb_page_alloc malloc (pmalloc 0) fd 1 (ws_env st) (ws_txn st) = Some (MDB_SUCCESS, Some (rp, number), ws_env st0, ws_txn st0)"
      using new(6) by auto
    have "rp \<noteq> mp" using r(3) mp by blast
    then obtain pad where pad: "load16 (ws_mem st0 mp) 8 = Some pad"
      using load16_ex [of 8 "ws_mem st0 mp"] F(3,6) r(6) by (auto simp: PAGEHDRSZ_def)
    obtain p' where p': "store16 p 8 pad = Some p'" "empty_page leaf psize number p'" using pad_empty [OF r(7)] by blast
    define st1 where "st1 = st0\<lparr>ws_mem := (ws_mem st)(rp := p')\<rparr>"
    have st1: "ws_env st1 = ws_env st0" "ws_txn st1 = ws_txn st0" "ws_root st1 = ws_root st0" "ws_depth st1 = ws_depth st0"
      "ws_cursors st1 = ws_cursors st0" "ws_mem st1 = (ws_mem st)(rp := p')" "st0\<lparr>ws_mem := (ws_mem st0)(rp := p')\<rparr> = st1"
      using r(6) by (simp_all add: st1_def)
    have p: "ws_mem st0 rp = p" using r(6) by simp
    have "split = do {
          (rc, mc1, new_root, st2) \<leftarrow> split_root malloc (pmalloc 1) fd mp mc st1;
          if rc \<noteq> MDB_SUCCESS then Some (rc, mc1, fail_state st2)
          else do {
            up \<leftarrow> idl_at (wc_ki mc1) (wc_top mc1 - 1);
            split_copy malloc pmalloc fd again leaf mp rp (length (nodes_at (ws_mem st) mp)) newindx (newkey, newdata, newpgno, nflags) new_root
              (mc1\<lparr>wc_pg := (wc_pg mc1)[wc_top mc1 := rp], wc_ki := (wc_ki mc1)[wc_top mc1 - 1 := up + 1]\<rparr>) mc1 st2
          }
        }"
      unfolding split_def split_page_def
      by (simp only: at P(2,4) F(1) new(1) Some r(1) p pad p'(1) st1(7) append bind.bind_lunit Let_def prod.case option.case if_False simp_thms)
    moreover have "blocks_ok (\<lambda>k. pmalloc (k + 1)) (insert rp inuse) st1"
    proof -
      have "rp \<notin> pool (\<lambda>k. pmalloc (k + 1)) (ws_env st0) (ws_txn st0)" using r(4) by (auto simp: blocks_ok_def)
      then show ?thesis using r(4,6) unfolding blocks_ok_def st1 by auto
    qed
    moreover have "state_kept fd st st1" using new(3) by (simp add: state_kept_def st1)
    ultimately show ?thesis using new(2,4,5) r p'(2) st1 by (intro disjI2) (rule exI [of _ rp], rule exI [of _ p'], rule exI [of _ number], rule exI [of _ st1], simp)
  qed
qed

section \<open>The copy\<close>

text \<open>The state before the separator is added.\<close>

definition begun ::
  "(nat \<Rightarrow> nat \<Rightarrow> nat option) \<Rightarrow> free_db \<Rightarrow> nat \<Rightarrow> bool \<Rightarrow> nat \<Rightarrow> nat \<Rightarrow> nat \<Rightarrow> nat \<Rightarrow> mdb_id \<Rightarrow> nat \<Rightarrow> mdb_node \<Rightarrow> mdb_node list \<Rightarrow> nat
     \<Rightarrow> mdb_val \<Rightarrow> (mdb_id \<Rightarrow> nat) \<Rightarrow> nat set \<Rightarrow> write_state \<Rightarrow> bool" where
  "begun pmalloc fd klim leaf lv mp rp copy number newindx nn ns s sepkey addr inuse st =
     (let psize = unat (me_psize (ws_env st)); pages = set (tree_pages (ws_mem st) addr (ws_root st) lv) in
      tree_ok fd klim leaf lv addr st \<and> addr number = rp \<and> page_held fd leaf klim addr st number \<and> unat number < 2 ^ 48
      \<and> rp \<notin> pages \<and> copy \<notin> pages \<and> insert rp (insert copy pages) \<subseteq> inuse \<and> blocks_ok (\<lambda>k. pmalloc (k + 3)) inuse st
      \<and> pages_ready leaf mp rp copy newindx psize ns st \<and> halves_fit leaf psize (inserted newindx nn ns) s
      \<and> key_ok (Some sepkey) \<and> key_bytes (Some sepkey) = nd_key (inserted newindx nn ns ! s))"

lemma copy_begins:
  assumes ok: "tree_ok fd klim leaf lv addr st" and pages: "set (tree_pages (ws_mem st) addr (ws_root st) lv) \<subseteq> inuse"
    and mp: "mp \<in> set (tree_pages (ws_mem st) addr (ws_root st) lv)" "good_page leaf psize nodemax klim (ws_mem st mp)"
    and rp: "addr number = rp" "rp \<in> inuse" "rp \<notin> set (tree_pages (ws_mem st) addr (ws_root st) lv)" "empty_page leaf psize number (ws_mem st rp)"
      "taken fd (ws_env st) (ws_txn st) number" "unat number < 2 ^ 48"
    and psize: "psize = unat (me_psize (ws_env st))" and new: "new_ready klim leaf newindx (newkey, newdata, newpgno, nflags) nn (me_nodemax (ws_env st))"
    and ns: "ns = nodes_at (ws_mem st) mp" and idx: "newindx \<le> length ns"
    and can: "can_split leaf psize ns (psize - PAGEHDRSZ - used ns) newindx nn" and blocks: "blocks_ok (\<lambda>k. pmalloc (k + 2)) inuse st"
  shows "(split_copy malloc pmalloc fd again leaf mp rp (length ns) newindx (newkey, newdata, newpgno, nflags) new_root mn mc st
        = Some (ENOMEM, mc, fail_state st) \<and> (\<exists>n. pmalloc 2 n = None))
    \<or> (\<exists>copy c ps s sepkey st'. st' = st\<lparr>ws_env := (ws_env st)\<lparr>me_dpages := ps\<rparr>, ws_mem := (ws_mem st)(copy := c)\<rparr>
      \<and> copy \<in> pool (\<lambda>k. pmalloc (k + 2)) (ws_env st) (ws_txn st) \<and> copy \<notin> inuse
      \<and> pool (\<lambda>k. pmalloc (k + 3)) (ws_env st') (ws_txn st') \<subseteq> pool (\<lambda>k. pmalloc (k + 2)) (ws_env st) (ws_txn st)
      \<and> begun pmalloc fd klim leaf lv mp rp copy number newindx nn ns s sepkey addr (insert copy inuse) st'
      \<and> split_copy malloc pmalloc fd again leaf mp rp (length ns) newindx (newkey, newdata, newpgno, nflags) new_root mn mc st
        = split_link malloc (pmalloc 3) fd again leaf mp rp (Some copy) (length ns) newindx s (newkey, newdata, newpgno, nflags) sepkey new_root mn mc st')"
proof -
  obtain fl where P: "page_layout leaf psize (ws_mem st mp) (psize - PAGEHDRSZ - used ns)" "raw_nodes (ws_mem st mp) = Some ns"
    using mp(2) unfolding ns by (rule good_pageE) blast
  have apart: "rp \<noteq> mp" "{mp, rp} \<subseteq> inuse" using mp(1) rp(2,3) pages by auto
  have N: "describes leaf (me_nodemax (ws_env st)) (newkey, newdata, newpgno, nflags) nn" "\<not> F_ISSET nflags F_BIGDATA"
    using new by (simp_all add: new_ready_def)
  from split_copy_result [OF psize P rp(4) apart N idx point_fits [OF P idx can] blocks, of malloc fd again new_root mn mc]
  show ?thesis
  proof (elim disjE exE conjE)
    fix st'
    assume "split_copy malloc pmalloc fd again leaf mp rp (length ns) newindx (newkey, newdata, newpgno, nflags) new_root mn mc st = Some (ENOMEM, mc, st')"
      "st' = fail_state st"
    fix n
    assume "pmalloc 2 n = None"
    then show ?thesis using \<open>split_copy _ _ _ _ _ _ _ _ _ _ _ _ _ _ = _\<close> \<open>st' = fail_state st\<close> by blast
  next
    fix copy c ps s sepkey st'
    assume st': "st' = st\<lparr>ws_env := (ws_env st)\<lparr>me_dpages := ps\<rparr>, ws_mem := (ws_mem st)(copy := c)\<rparr>"
      and copy: "copy \<in> pool (\<lambda>k. pmalloc (k + 2)) (ws_env st) (ws_txn st)" "copy \<notin> inuse"
      and blocks': "blocks_ok (\<lambda>k. pmalloc (k + 3)) (insert copy inuse) st'"
      and sub: "pool (\<lambda>k. pmalloc (k + 3)) (ws_env st') (ws_txn st') \<subseteq> pool (\<lambda>k. pmalloc (k + 2)) (ws_env st) (ws_txn st)"
      and rest: "pages_ready leaf mp rp copy newindx psize ns st'" "halves_fit leaf psize (inserted newindx nn ns) s" "key_ok (Some sepkey)"
        "key_bytes (Some sepkey) = nd_key (inserted newindx nn ns ! s)"
        "split_copy malloc pmalloc fd again leaf mp rp (length ns) newindx (newkey, newdata, newpgno, nflags) new_root mn mc st
        = split_link malloc (pmalloc 3) fd again leaf mp rp (Some copy) (length ns) newindx s (newkey, newdata, newpgno, nflags) sepkey new_root mn mc st'"
    have env: "ws_root st' = ws_root st" "me_psize (ws_env st') = me_psize (ws_env st)" "me_nodemax (ws_env st') = me_nodemax (ws_env st)" "ws_txn st' = ws_txn st"
      and taken: "taken fd (ws_env st) (ws_txn st) z \<Longrightarrow> taken fd (ws_env st') (ws_txn st') z" for z
      by (simp_all add: st' taken_def)
    have other: "ws_mem st' q = ws_mem st q" if "q \<in> inuse" for q using that copy(2) by (auto simp: st')
    note kept = tree_kept [OF ok env(1-3) taken other refl]
    have in_use: "p \<in> inuse" if "p \<in> set (tree_pages (ws_mem st) addr (ws_root st) lv)" for p using that pages by blast
    have empty: "good_page leaf psize (me_nodemax (ws_env st)) klim (ws_mem st rp)" "raw_page_pgno (ws_mem st rp) = Some number"
      using rp(4) unfolding empty_page_def good_page_def by auto
    have "page_held fd leaf klim addr st' number"
      using empty taken [OF rp(5)] other [OF rp(2)] rp(1) env psize by (simp add: page_held_def)
    moreover have "tree_ok fd klim leaf lv addr st'"
      "tree_pages (ws_mem st') addr (ws_root st') lv = tree_pages (ws_mem st) addr (ws_root st) lv"
      using kept(1,3) in_use by blast+
    ultimately have "begun pmalloc fd klim leaf lv mp rp copy number newindx nn ns s sepkey addr (insert copy inuse) st'"
      using rest(1-4) rp(1-3,6) pages copy(2) blocks' env(2) psize unfolding begun_def Let_def by auto
    then show ?thesis using st' copy sub rest(5) by blast
  qed
qed

end
