(* ===== verification/Lmdb_Split_Levels.thy ===== *)
theory Lmdb_Split_Levels
  imports Lmdb_Split_Start
begin

text \<open>
  A split all the way up: the first steps on a page that has a parent and on the root, and the
  induction over the levels.
\<close>

section \<open>A page with a parent\<close>

lemma split_readyD:
  assumes "split_ready pmalloc fd klim leaf lv mp newindx new nn addr inuse mc st"
  defines "psize \<equiv> unat (me_psize (ws_env st))" and "ns \<equiv> nodes_at (ws_mem st) mp"
  shows "tree_ok fd klim leaf lv addr st" "set (tree_pages (ws_mem st) addr (ws_root st) lv) \<subseteq> inuse" "blocks_ok pmalloc inuse st"
    "wc_live mc" "cursor_ready lv addr st mc" "place lv mc = (mp, newindx)" "wc_top mc = lv" "wc_snum mc = Suc lv" "lv < ws_depth st"
    "\<And>m. m \<in> set (ws_cursors st) \<Longrightarrow> cursor_ready lv addr st m"
    "new_ready klim leaf newindx new nn (me_nodemax (ws_env st))" "newindx \<le> length ns"
    "can_split leaf psize ns (psize - PAGEHDRSZ - used ns) newindx nn" "parents_split klim lv mc st"
    "klim + 9 \<le> me_nodemax (ws_env st)" "klim + 36 \<le> psize" "unat (wt_next_pgno (ws_txn st)) + lv + 2 < 2 ^ 48"
    "on_path (ws_mem st) addr (ws_root st) lv mc" "stacks_of (ws_depth st + 1) mc" "stacks_of lv mc"
  using assms(1) unfolding split_ready_def Let_def psize_def ns_def by (auto simp: cursor_ready_def stacks_of_def)

text \<open>Two blocks have been taken, for the right page, with its number, and for the copy.\<close>

definition two_taken :: "(nat \<Rightarrow> nat \<Rightarrow> nat option) \<Rightarrow> free_db \<Rightarrow> nat \<Rightarrow> nat \<Rightarrow> mdb_id \<Rightarrow> nat set \<Rightarrow> write_state \<Rightarrow> write_state \<Rightarrow> bool" where
  "two_taken pmalloc fd rp copy number inuse st st' =
     (state_kept fd st st' \<and> ws_root st' = ws_root st \<and> ws_depth st' = ws_depth st
      \<and> {rp, copy} \<subseteq> pool pmalloc (ws_env st) (ws_txn st) \<and> rp \<notin> inuse \<and> copy \<notin> inuse \<and> (\<forall>q. q \<notin> {rp, copy} \<longrightarrow> ws_mem st' q = ws_mem st q)
      \<and> pool (\<lambda>k. pmalloc (k + 3)) (ws_env st') (ws_txn st') \<subseteq> pool pmalloc (ws_env st) (ws_txn st) \<and> \<not> taken fd (ws_env st) (ws_txn st) number)"

lemma split_page_begins:
  assumes good: "good_malloc malloc" and inv: "writer_inv live freed fd (ws_env st) (ws_txn st)"
    and ready: "split_ready pmalloc fd klim leaf (Suc l) mp newindx (newkey, newdata, newpgno, nflags) nn addr inuse mc st"
    and ns: "ns = nodes_at (ws_mem st) mp" and split: "split = split_page malloc pmalloc fd again newkey newdata newpgno nflags mc st"
  shows "(\<exists>rc st'. split = Some (rc, mc, st') \<and> rc \<noteq> MDB_SUCCESS \<and> writer_inv live freed fd (ws_env st') (ws_txn st')
      \<and> split_failed malloc pmalloc fd (l + 3) st rc mc mc st' \<and> unat (wt_next_pgno (ws_txn st')) \<le> unat (wt_next_pgno (ws_txn st)) + 1)
    \<or> (\<exists>rp copy number s sepkey env1 ps st'. writer_inv live freed fd (ws_env st') (ws_txn st') \<and> two_taken pmalloc fd rp copy number inuse st st'
      \<and> mdb_page_alloc malloc (pmalloc 0) fd 1 (ws_env st) (ws_txn st) = Some (MDB_SUCCESS, Some (rp, number), env1, ws_txn st')
      \<and> ws_env st' = env1\<lparr>me_dpages := ps\<rparr>
      \<and> begun pmalloc fd klim leaf (Suc l) mp rp copy number newindx nn ns s sepkey (addr(number := rp)) (insert copy (insert rp inuse)) st'
      \<and> split = split_link malloc (pmalloc 3) fd again leaf mp rp (Some copy) (length ns) newindx s (newkey, newdata, newpgno, nflags) sepkey 0
          (mc\<lparr>wc_pg := (wc_pg mc)[Suc l := rp], wc_ki := (wc_ki mc)[l := wc_ki mc ! l + 1]\<rparr>) mc st')"
proof -
  let ?psize = "unat (me_psize (ws_env st))" and ?lv = "Suc l" and ?pool = "pool pmalloc (ws_env st) (ws_txn st)"
  note R = split_readyD [OF ready]
  have at: "wc_pg mc ! ?lv = mp" using R(6) by (simp add: place_def)
  have mp: "mp \<in> set (tree_pages (ws_mem st) addr (ws_root st) ?lv)" using path_tree [OF R(18) order.refl order.refl] at by simp
  obtain y where "addr y = mp" "page_held fd leaf klim addr st y"
  proof (rule path_good [OF R(1,18) order.refl])
    fix x
    assume "addr (snd x) = wc_pg mc ! ?lv" "page_held fd (leaf \<and> ?lv = ?lv) klim addr st (snd x)"
    then show ?thesis using at by (intro that [of "snd x"]) simp_all
  qed
  then have page: "good_page leaf ?psize (me_nodemax (ws_env st)) klim (ws_mem st mp)" by (simp add: page_held_def)
  have room: "unat (wt_next_pgno (ws_txn st)) + 1 < 2 ^ 48" using R(17) by simp
  have N: "\<not> F_ISSET nflags MDB_APPEND" using R(11) by (simp add: new_ready_def)
  have mc: "place (wc_top mc) mc = (mp, newindx)" "stacks_of (wc_top mc) mc" using R(6,7,20) by simp_all
  have in_use: "mp \<in> inuse" using mp R(2) by blast
  from page_split_right [OF good inv room refl page in_use R(3) mc N split, of "l + 2"]
  show ?thesis
  proof (elim disjE exE conjE)
    fix rc st'
    assume "split = Some (rc, mc, st')" "rc \<noteq> MDB_SUCCESS" "writer_inv live freed fd (ws_env st') (ws_txn st')"
      "split_failed malloc pmalloc fd (Suc (l + 2)) st rc mc mc st'" "unat (wt_next_pgno (ws_txn st')) \<le> unat (wt_next_pgno (ws_txn st)) + 1"
    then show ?thesis by (simp add: numeral_3_eq_3)
  next
    fix rp p number st1
    assume st1: "writer_inv live freed fd (ws_env st1) (ws_txn st1)" "state_kept fd st st1" "ws_root st1 = ws_root st" "ws_depth st1 = ws_depth st"
      and rp: "rp \<in> ?pool" "rp \<notin> inuse" and blocks: "blocks_ok (\<lambda>k. pmalloc (k + 1)) (insert rp inuse) st1"
      and sub: "pool (\<lambda>k. pmalloc (k + 1)) (ws_env st1) (ws_txn st1) \<subseteq> ?pool"
      and p: "ws_mem st1 = (ws_mem st)(rp := p)" "empty_page leaf ?psize number p" "unat number < 2 ^ 48"
      and number: "\<not> taken fd (ws_env st) (ws_txn st) number" "taken fd (ws_env st1) (ws_txn st1) number"
      and alloc: "mdb_page_alloc malloc (pmalloc 0) fd 1 (ws_env st) (ws_txn st) = Some (MDB_SUCCESS, Some (rp, number), ws_env st1, ws_txn st1)"
      and run: "split = do {
          (rc, mc1, new_root, st2) \<leftarrow> split_root malloc (pmalloc 1) fd mp mc st1;
          if rc \<noteq> MDB_SUCCESS then Some (rc, mc1, fail_state st2)
          else do {
            up \<leftarrow> idl_at (wc_ki mc1) (wc_top mc1 - 1);
            split_copy malloc pmalloc fd again leaf mp rp (length (nodes_at (ws_mem st) mp)) newindx (newkey, newdata, newpgno, nflags) new_root
              (mc1\<lparr>wc_pg := (wc_pg mc1)[wc_top mc1 := rp], wc_ki := (wc_ki mc1)[wc_top mc1 - 1 := up + 1]\<rparr>) mc1 st2
          }
        }"
    let ?mn = "mc\<lparr>wc_pg := (wc_pg mc)[?lv := rp], wc_ki := (wc_ki mc)[l := wc_ki mc ! l + 1]\<rparr>" and ?addr = "addr(number := rp)"
    have "idl_at (wc_ki mc) l = Some (wc_ki mc ! l)" using R(20) by (simp add: stacks_of_def idl_at_eq)
    then have go: "split = split_copy malloc pmalloc fd again leaf mp rp (length ns) newindx (newkey, newdata, newpgno, nflags) 0 ?mn mc st1"
      unfolding run ns split_root_def using R(7) by simp
    have sizes: "me_psize (ws_env st1) = me_psize (ws_env st)" "me_nodemax (ws_env st1) = me_nodemax (ws_env st)" "ws_cursors st1 = ws_cursors st"
      and taken: "taken fd (ws_env st) (ws_txn st) z \<Longrightarrow> taken fd (ws_env st1) (ws_txn st1) z" for z
      using st1(2) by (simp_all add: state_kept_def)
    have other: "ws_mem st1 q = ws_mem st q" if "q \<in> set (tree_pages (ws_mem st) addr (ws_root st) ?lv)" for q
      using that rp(2) R(2) p(1) by auto
    have addr: "?addr z = addr z" if "taken fd (ws_env st) (ws_txn st) z" for z using that number(1) by auto
    note kept = tree_kept [OF R(1) st1(3) sizes(1,2) taken other addr]
    have pages: "tree_pages (ws_mem st1) ?addr (ws_root st1) ?lv = tree_pages (ws_mem st) addr (ws_root st) ?lv" by (rule kept(3))
    have ns1: "ns = nodes_at (ws_mem st1) mp" "ws_mem st1 mp = ws_mem st mp" using ns other [OF mp] by (simp_all add: nodes_at_def)
    have shift: "(\<lambda>k. pmalloc (k + 1 + 1)) = (\<lambda>k. pmalloc (k + 2))" by simp
    have "split_copy malloc pmalloc fd again leaf mp rp (length ns) newindx (newkey, newdata, newpgno, nflags) 0 ?mn mc st1
          = Some (ENOMEM, mc, fail_state st1) \<and> (\<exists>n. pmalloc 2 n = None)
        \<or> (\<exists>copy c ps s sepkey st'. st' = st1\<lparr>ws_env := (ws_env st1)\<lparr>me_dpages := ps\<rparr>, ws_mem := (ws_mem st1)(copy := c)\<rparr>
          \<and> copy \<in> pool (\<lambda>k. pmalloc (k + 2)) (ws_env st1) (ws_txn st1) \<and> copy \<notin> insert rp inuse
          \<and> pool (\<lambda>k. pmalloc (k + 3)) (ws_env st') (ws_txn st') \<subseteq> pool (\<lambda>k. pmalloc (k + 2)) (ws_env st1) (ws_txn st1)
          \<and> begun pmalloc fd klim leaf ?lv mp rp copy number newindx nn ns s sepkey ?addr (insert copy (insert rp inuse)) st'
          \<and> split_copy malloc pmalloc fd again leaf mp rp (length ns) newindx (newkey, newdata, newpgno, nflags) 0 ?mn mc st1
            = split_link malloc (pmalloc 3) fd again leaf mp rp (Some copy) (length ns) newindx s (newkey, newdata, newpgno, nflags) sepkey 0 ?mn mc st')"
    proof (rule copy_begins)
      show "tree_ok fd klim leaf ?lv ?addr st1" by (rule kept(1))
      show "set (tree_pages (ws_mem st1) ?addr (ws_root st1) ?lv) \<subseteq> insert rp inuse" "mp \<in> set (tree_pages (ws_mem st1) ?addr (ws_root st1) ?lv)"
        "rp \<notin> set (tree_pages (ws_mem st1) ?addr (ws_root st1) ?lv)"
        unfolding pages using R(2) mp rp(2) by blast+
      show "good_page leaf ?psize (me_nodemax (ws_env st)) klim (ws_mem st1 mp)" unfolding ns1(2) by (rule page)
      show "blocks_ok (\<lambda>k. pmalloc (k + 2)) (insert rp inuse) st1" using blocks_shift [OF blocks, of 1] unfolding shift .
      show "empty_page leaf ?psize number (ws_mem st1 rp)" using p by simp
      show "new_ready klim leaf newindx (newkey, newdata, newpgno, nflags) nn (me_nodemax (ws_env st1))" using R(11) sizes by simp
      show "newindx \<le> length ns" "can_split leaf ?psize ns (?psize - PAGEHDRSZ - used ns) newindx nn" using R(12,13) ns by simp_all
    qed (use ns1 number(2) p(3) sizes in simp_all)
    then show ?thesis
    proof (elim disjE exE conjE)
      fix n
      assume fail: "split_copy malloc pmalloc fd again leaf mp rp (length ns) newindx (newkey, newdata, newpgno, nflags) 0 ?mn mc st1
          = Some (ENOMEM, mc, fail_state st1)" "pmalloc 2 n = None"
      have "refused_in malloc pmalloc fd (l + 3) (ws_env st) (ws_txn st) ENOMEM" by (rule refused_in.memory [of pmalloc 2 n, OF fail(2)])
      then have "split_failed malloc pmalloc fd (l + 3) st ENOMEM mc mc (fail_state st1)"
        using rp(1) p(1) sizes by (auto simp: split_failed_def fail_state_simps)
      then show ?thesis using go fail(1) st1 by (auto simp: fail_state_simps state_kept_def ENOMEM_def MDB_SUCCESS_def)
    next
      fix copy c ps s sepkey st'
      assume st': "st' = st1\<lparr>ws_env := (ws_env st1)\<lparr>me_dpages := ps\<rparr>, ws_mem := (ws_mem st1)(copy := c)\<rparr>"
        and copy: "copy \<in> pool (\<lambda>k. pmalloc (k + 2)) (ws_env st1) (ws_txn st1)" "copy \<notin> insert rp inuse"
        and sub2: "pool (\<lambda>k. pmalloc (k + 3)) (ws_env st') (ws_txn st') \<subseteq> pool (\<lambda>k. pmalloc (k + 2)) (ws_env st1) (ws_txn st1)"
        and rest: "begun pmalloc fd klim leaf ?lv mp rp copy number newindx nn ns s sepkey ?addr (insert copy (insert rp inuse)) st'"
          "split_copy malloc pmalloc fd again leaf mp rp (length ns) newindx (newkey, newdata, newpgno, nflags) 0 ?mn mc st1
            = split_link malloc (pmalloc 3) fd again leaf mp rp (Some copy) (length ns) newindx s (newkey, newdata, newpgno, nflags) sepkey 0 ?mn mc st'"
      have "pool (\<lambda>k. pmalloc (k + 2)) (ws_env st1) (ws_txn st1) \<subseteq> ?pool"
        using pool_shift [of "\<lambda>k. pmalloc (k + 1)" 1 "ws_env st1" "ws_txn st1"] sub unfolding shift by blast
      then have "{rp, copy} \<subseteq> ?pool" "pool (\<lambda>k. pmalloc (k + 3)) (ws_env st') (ws_txn st') \<subseteq> ?pool" using rp(1) copy(1) sub2 by blast+
      moreover have "state_kept fd st st'" using st1(2) by (simp add: state_kept_def st' taken_def)
      moreover have "writer_inv live freed fd (ws_env st') (ws_txn st')" using st1(1) by (simp add: st')
      moreover have "\<forall>q. q \<notin> {rp, copy} \<longrightarrow> ws_mem st' q = ws_mem st q" using p(1) by (simp add: st')
      moreover have "mdb_page_alloc malloc (pmalloc 0) fd 1 (ws_env st) (ws_txn st) = Some (MDB_SUCCESS, Some (rp, number), ws_env st1, ws_txn st')"
        "ws_env st' = (ws_env st1)\<lparr>me_dpages := ps\<rparr>" using alloc by (simp_all add: st')
      moreover have "ws_root st' = ws_root st" "ws_depth st' = ws_depth st" using st1(3,4) by (simp_all add: st')
      ultimately have "two_taken pmalloc fd rp copy number inuse st st'" using rp(2) copy(2) number(1) by (simp add: two_taken_def)
      then show ?thesis using go rest \<open>writer_inv live freed fd (ws_env st') (ws_txn st')\<close> \<open>mdb_page_alloc _ _ _ _ _ _ = Some (_, _, _, ws_txn st')\<close>
          \<open>ws_env st' = _\<close> by blast
    qed
  qed
qed

section \<open>The result\<close>

text \<open>
  \<open>d\<close> is 1 if there is a new root. Behind the page the level has a new one, \<open>rp\<close>, with the first key of
  its nodes; numbers in use keep their pages; only pages on the path of the cursor have changed.
\<close>

definition split_done ::
  "(nat \<Rightarrow> nat \<Rightarrow> nat option) \<Rightarrow> free_db \<Rightarrow> nat \<Rightarrow> bool \<Rightarrow> nat \<Rightarrow> nat \<Rightarrow> nat \<Rightarrow> mdb_node \<Rightarrow> (mdb_id \<Rightarrow> nat) \<Rightarrow> wcursor \<Rightarrow> write_state
     \<Rightarrow> nat \<Rightarrow> (mdb_id \<Rightarrow> nat) \<Rightarrow> nat \<Rightarrow> mdb_id \<Rightarrow> nat \<Rightarrow> wcursor \<Rightarrow> write_state \<Rightarrow> bool" where
  "split_done pmalloc fd klim leaf lv mp newindx nn addr mc st d addr' rp number s mc' st' =
     (let items = inserted newindx nn (nodes_at (ws_mem st) mp); blocks = pool pmalloc (ws_env st) (ws_txn st) in
      d \<le> 1 \<and> ws_depth st' = ws_depth st + d \<and> me_psize (ws_env st') = me_psize (ws_env st) \<and> me_nodemax (ws_env st') = me_nodemax (ws_env st)
      \<and> (\<forall>z. taken fd (ws_env st) (ws_txn st) z \<longrightarrow> taken fd (ws_env st') (ws_txn st') z \<and> addr' z = addr z)
      \<and> addr' number = rp \<and> rp \<in> blocks
      \<and> (\<forall>A k x B. tree st addr lv = A @ (k, x) # B \<longrightarrow> addr x = mp \<longrightarrow>
           split_at fd klim leaf (lv + d) mp rp s items (A @ (k, x) # (nd_key (items ! s), number) # B) addr' st')
      \<and> set (tree_pages (ws_mem st') addr' (ws_root st') (lv + d)) \<subseteq> set (tree_pages (ws_mem st) addr (ws_root st) lv) \<union> blocks
      \<and> (\<forall>q. q \<notin> blocks \<longrightarrow> (\<forall>l\<le>lv. q \<noteq> wc_pg mc ! l) \<longrightarrow> ws_mem st' q = ws_mem st q)
      \<and> own_kept lv d (own_place mp rp newindx s) addr' st' mc mc'
      \<and> list_all2 (cursor_kept (ws_depth st) lv d mp rp newindx s addr' st') (ws_cursors st) (ws_cursors st'))"

text \<open>The tree before is still there in the state before the separator is added.\<close>

lemma two_taken_tree:
  assumes ready: "split_ready pmalloc fd klim leaf lv mp newindx new nn addr inuse mc st" and two: "two_taken pmalloc fd rp copy number inuse st st'"
    and l: "l \<le> lv"
  defines "addr' \<equiv> addr(number := rp)"
  shows "tree st' addr' l = tree st addr l" "tree_pages (ws_mem st') addr' (ws_root st') lv = tree_pages (ws_mem st) addr (ws_root st) lv"
    "on_path (ws_mem st) addr (ws_root st) l m \<Longrightarrow> on_path (ws_mem st') addr' (ws_root st') l m"
    "p \<in> inuse \<Longrightarrow> ws_mem st' p = ws_mem st p \<and> nodes_at (ws_mem st') p = nodes_at (ws_mem st) p"
    "taken fd (ws_env st) (ws_txn st) z \<Longrightarrow> taken fd (ws_env st') (ws_txn st') z \<and> addr' z = addr z"
proof -
  note R = split_readyD [OF ready]
  have T: "ws_root st' = ws_root st" "me_psize (ws_env st') = me_psize (ws_env st)" "me_nodemax (ws_env st') = me_nodemax (ws_env st)"
    using two by (simp_all add: two_taken_def state_kept_def)
  show taken: "taken fd (ws_env st) (ws_txn st) z \<Longrightarrow> taken fd (ws_env st') (ws_txn st') z \<and> addr' z = addr z" for z
    using two by (auto simp: two_taken_def state_kept_def addr'_def)
  then have t: "taken fd (ws_env st) (ws_txn st) z \<Longrightarrow> taken fd (ws_env st') (ws_txn st') z" "taken fd (ws_env st) (ws_txn st) z \<Longrightarrow> addr' z = addr z" for z
    by blast+
  show mem: "p \<in> inuse \<Longrightarrow> ws_mem st' p = ws_mem st p \<and> nodes_at (ws_mem st') p = nodes_at (ws_mem st) p" for p
    using two by (auto simp: two_taken_def nodes_at_def)
  then have m: "ws_mem st' p = ws_mem st p" if "p \<in> set (tree_pages (ws_mem st) addr (ws_root st) lv)" for p using that R(2) by blast
  show "tree st' addr' l = tree st addr l" by (rule tree_kept(2) [OF R(1) T t(1) m t(2)]) (use l in simp_all)
  show "tree_pages (ws_mem st') addr' (ws_root st') lv = tree_pages (ws_mem st) addr (ws_root st) lv"
    by (rule tree_kept(3) [OF R(1) T t(1) m t(2)])
  show "on_path (ws_mem st) addr (ws_root st) l m \<Longrightarrow> on_path (ws_mem st') addr' (ws_root st') l m"
    by (rule tree_kept(4) [OF R(1) T t(1) m t(2) l])
qed

end
