(* ===== verification/Lmdb_Split_Room.thy ===== *)
theory Lmdb_Split_Room
  imports Lmdb_Split_Levels
begin

text \<open>
  The two cases at the end of the recursion: the separator fits into the parent, or the page is the
  root, and gets a parent.
\<close>

section \<open>Room in the parent\<close>

lemma split_link_left:
  assumes "page_layout False psize (ws_mem st (wc_pg mn ! (wc_top mn - 1))) left" and "raw_page_pgno (ws_mem st rp) = Some number"
    and "left < mdb_branch_size (Some sepkey)"
  shows "split_link malloc pmalloc fd again leaf mp rp copy nkeys newindx split new sepkey new_root mn mc st = do {
      (rc, mn1, mc1, st1) \<leftarrow> split_parent again sepkey number mn mc st;
      if rc \<noteq> MDB_SUCCESS then Some (rc, mc1, fail_state (split_free copy st1))
      else split_finish malloc pmalloc fd leaf mp rp copy nkeys newindx split new True new_root mn1 mc1 st1
    }"
proof -
  obtain left: "SIZELEFT (ws_mem st (wc_pg mn ! (wc_top mn - 1))) = Some (of_nat left)" "unat (of_nat left :: 16 word) = left"
    using assms(1) by (rule page_layout_header)
  have less: "(left < mdb_branch_size (Some sepkey)) = True" using assms(3) by simp
  show ?thesis unfolding split_link_def Let_def left(1) assms(2) bind.bind_lunit left(2) less by (simp only: if_True)
qed

lemma stacks_less: "stacks_of (Suc n) m \<Longrightarrow> stacks_of n m"
  by (simp add: stacks_of_def)

lemma split_room:
  assumes ready: "split_ready pmalloc fd klim leaf (Suc l) mp newindx new nn addr inuse mc st"
    and two: "two_taken pmalloc fd rp copy number inuse st st'"
    and begun: "begun pmalloc fd klim leaf (Suc l) mp rp copy number newindx nn ns s sepkey (addr(number := rp)) (insert copy (insert rp inuse)) st'"
    and ns: "ns = nodes_at (ws_mem st) mp"
    and mn: "mn = mc\<lparr>wc_pg := (wc_pg mc)[Suc l := rp], wc_ki := (wc_ki mc)[l := wc_ki mc ! l + 1]\<rparr>"
    and room: "mdb_branch_size (Some sepkey) \<le> unat (me_psize (ws_env st)) - PAGEHDRSZ - used (nodes_at (ws_mem st) (wc_pg mc ! l))"
  shows "\<exists>mc' st''. split_link malloc pmalloc2 fd again leaf mp rp (Some copy) (length ns) newindx s new sepkey 0 mn mc st' = Some (MDB_SUCCESS, mc', st'')
    \<and> ws_env st'' = mdb_page_free copy (ws_env st') \<and> ws_txn st'' = ws_txn st'
    \<and> split_done pmalloc fd klim leaf (Suc l) mp newindx nn addr mc st 0 (addr(number := rp)) rp number s mc' st''"
proof -
  let ?lv = "Suc l" and ?addr = "addr(number := rp)" and ?psize = "unat (me_psize (ws_env st))" and ?items = "inserted newindx nn ns"
  note R = split_readyD [OF ready] and T = two_taken_tree [OF ready two]
  have sizes: "me_psize (ws_env st') = me_psize (ws_env st)" "me_nodemax (ws_env st') = me_nodemax (ws_env st)" "ws_cursors st' = ws_cursors st"
    "ws_root st' = ws_root st" "ws_depth st' = ws_depth st" "rp \<notin> inuse" "copy \<notin> inuse" "{rp, copy} \<subseteq> pool pmalloc (ws_env st) (ws_txn st)"
    and other: "\<And>q. q \<notin> {rp, copy} \<Longrightarrow> ws_mem st' q = ws_mem st q"
    using two by (simp_all add: two_taken_def state_kept_def)
  have B: "tree_ok fd klim leaf ?lv ?addr st'" "page_held fd leaf klim ?addr st' number" "unat number < 2 ^ 48"
    "rp \<notin> set (tree_pages (ws_mem st') ?addr (ws_root st') ?lv)" "copy \<notin> set (tree_pages (ws_mem st') ?addr (ws_root st') ?lv)"
    "pages_ready leaf mp rp copy newindx ?psize ns st'" "halves_fit leaf ?psize ?items s" "key_ok (Some sepkey)" "key_bytes (Some sepkey) = nd_key (?items ! s)"
    using begun sizes(1) by (simp_all add: begun_def Let_def)
  obtain A k x B where lev: "tree st addr ?lv = A @ (k, x) # B" "addr x = wc_pg mc ! ?lv" using path_level [OF R(18)] by blast
  have at: "wc_pg mc ! ?lv = mp" "wc_ki mc ! ?lv = newindx" using R(6) by (simp_all add: place_def)
  have tx: "taken fd (ws_env st) (ws_txn st) x" using tree_okD(2) [OF R(1) order.refl, of "(k, x)"] lev(1) by (simp add: page_held_def)
  have lev': "tree st' ?addr ?lv = A @ (k, x) # B" "?addr x = mp" "?addr number = rp" using T(1) [of ?lv] T(5) [OF _ tx, of ?lv] lev at by simp_all
  have N: "describes leaf (me_nodemax (ws_env st')) new nn" "\<not> F_ISSET (snd (snd (snd new))) MDB_SPLIT_REPLACE"
    "node_bytes nn \<le> me_nodemax (ws_env st')" "length (nd_key nn) \<le> klim" "newindx \<le> length ns" "klim + 9 \<le> me_nodemax (ws_env st')"
    using R(11,12,15) sizes(2) ns by (simp_all add: new_ready_def)
  have path: "on_path (ws_mem st') ?addr (ws_root st') ?lv m" if "on_path (ws_mem st) addr (ws_root st) ?lv m" for m using T(3) [OF order.refl that] .
  have parent: "wc_pg mc ! l \<in> inuse" using path_tree [OF R(18), of l ?lv] R(2) by auto
  have room': "mdb_branch_size (Some sepkey) \<le> ?psize - PAGEHDRSZ - used (nodes_at (ws_mem st') (wc_pg mc ! l))"
    using room T(4) [OF order.refl parent] by simp
  have cursors: "\<forall>m\<in>set (ws_cursors st'). wc_live m \<longrightarrow> on_path (ws_mem st') ?addr (ws_root st') ?lv m \<and> stacks_of (ws_depth st) m"
    using R(10) path sizes(3) stacks_less by (auto simp: cursor_ready_def)
  have act: "cursor_split mp rp s newindx False False 0 mc2 mn m = Some (follow_split ?lv mp rp newindx s mn (shift_parent ?lv (wc_pg mc ! l) (wc_ki mc ! l) m))"
    if m: "m \<in> set (ws_cursors st')" and mc2: "wc_top mc2 = ?lv" "wc_pg mc2 ! l = wc_pg mc ! l" "wc_ki mc2 ! l \<in> {wc_ki mc ! l, wc_ki mc ! l + 1}" for mc2 m
  proof -
    have c: "cursor_ready ?lv addr st m" using R(10) m sizes(3) by simp
    obtain A0 k0 y B0 where y: "tree st addr l = A0 @ (k0, y) # B0" "addr y = wc_pg mc ! l" using path_level [OF on_path_sub [OF R(18), of l]] by auto
    have mc: "wc_ki mc ! l < length (nodes_at (ws_mem st) (addr y))" "addr (nd_pgno (nodes_at (ws_mem st) (addr y) ! (wc_ki mc ! l))) = mp"
      using R(18) at y(2) by (simp_all add: on_path_Suc)
    show ?thesis
    proof (rule cursor_split_parent)
      show "?lv < length (wc_pg m)" "?lv < length (wc_ki m)" using c R(9) by (auto simp: cursor_ready_def stacks_of_def)
      show "?lv \<le> wc_top m" if "wc_live m" using c that by (simp add: cursor_ready_def)
      show "wc_ki m ! (?lv - 1) = wc_ki mc ! l" if "wc_live m" "wc_pg m ! ?lv = mp" "wc_pg m ! (?lv - 1) = wc_pg mc ! l"
      proof -
        have "on_path (ws_mem st) addr (ws_root st) ?lv m" using c that(1) by (simp add: cursor_ready_def)
        then have "wc_ki m ! l < length (nodes_at (ws_mem st) (addr y))" "addr (nd_pgno (nodes_at (ws_mem st) (addr y) ! (wc_ki m ! l))) = mp"
          using that(2,3) y(2) by (simp_all add: on_path_Suc)
        then show ?thesis using child_distinct [OF y(1) level_distinct [OF tree_okD(1) [OF R(1)] order.refl]] mc by simp
      qed
      show "wc_pg m ! ?lv = mp" if "wc_live m" "wc_pg m ! (?lv - 1) = wc_pg mc ! l" "wc_ki m ! (?lv - 1) = wc_ki mc ! l"
      proof -
        have "on_path (ws_mem st) addr (ws_root st) ?lv m" using c that(1) by (simp add: cursor_ready_def)
        then show ?thesis using that(2,3) mc y(2) by (simp add: on_path_Suc)
      qed
    qed (use mc2 in simp_all)
  qed
  have depth: "?lv \<le> ws_depth st" using R(9) by simp
  obtain mc' st'' where r: "split_link malloc pmalloc2 fd again leaf mp rp (Some copy) (length ns) newindx s new sepkey 0 mn mc st' = Some (MDB_SUCCESS, mc', st'')"
    "ws_env st'' = mdb_page_free copy (ws_env st')" "ws_txn st'' = ws_txn st'" "ws_root st'' = ws_root st'" "ws_depth st'' = ws_depth st'"
    "\<forall>q. q \<notin> {mp, rp, copy, wc_pg mc ! l} \<longrightarrow> ws_mem st'' q = ws_mem st' q"
    "split_at fd klim leaf ?lv mp rp s ?items (A @ (k, x) # (nd_key (?items ! s), number) # B) ?addr st''"
    "set (tree_pages (ws_mem st'') ?addr (ws_root st'') ?lv) \<subseteq> insert rp (set (tree_pages (ws_mem st') ?addr (ws_root st') ?lv))"
    "own_kept ?lv 0 (own_place mp rp newindx s) ?addr st'' mc mc'"
    "list_all2 (cursor_kept (ws_depth st) ?lv 0 mp rp newindx s ?addr st'') (List.map (\<lambda>m. m) (ws_cursors st')) (ws_cursors st'')"
    using split_link_room [OF B(1) lev' B(4,2,3,6,5) N(1-5) B(7) N(6) B(8,9) path [OF R(18)] R(6,7,20) mn room', of "\<lambda>m. m" "ws_depth st" 0 malloc pmalloc2 again]
      cursors depth act by blast
  have unique: "A' = A \<and> k' = k \<and> x' = x \<and> B' = B" if "tree st addr ?lv = A' @ (k', x') # B'" "addr x' = mp" for A' k' x' B'
    using level_position [OF lev(1) that(1) _ level_distinct [OF tree_okD(1) [OF R(1)] order.refl]] that(2) lev(2) at by simp
  have taken: "taken fd (ws_env st'') (ws_txn st'') z = taken fd (ws_env st') (ws_txn st') z" for z
    using r(2,3) by (simp add: taken_def mdb_page_free_def)
  have "\<forall>q. q \<notin> pool pmalloc (ws_env st) (ws_txn st) \<longrightarrow> (\<forall>j\<le>?lv. q \<noteq> wc_pg mc ! j) \<longrightarrow> ws_mem st'' q = ws_mem st q"
  proof (intro allI impI)
    fix q
    assume q: "q \<notin> pool pmalloc (ws_env st) (ws_txn st)" "\<forall>j\<le>?lv. q \<noteq> wc_pg mc ! j"
    then have "q \<noteq> wc_pg mc ! ?lv" "q \<noteq> wc_pg mc ! l" by simp_all
    then have "q \<notin> {mp, rp, copy, wc_pg mc ! l}" using q(1) sizes(8) at(1) by auto
    then show "ws_mem st'' q = ws_mem st q" using r(6) other by simp
  qed
  moreover have "set (tree_pages (ws_mem st'') ?addr (ws_root st'') (?lv + 0)) \<subseteq> set (tree_pages (ws_mem st) addr (ws_root st) ?lv) \<union> pool pmalloc (ws_env st) (ws_txn st)"
    using r(8) sizes(8) unfolding T(2) [of ?lv, OF order.refl] by auto
  moreover have "\<forall>A' k' x' B'. tree st addr ?lv = A' @ (k', x') # B' \<longrightarrow> addr x' = mp \<longrightarrow>
      split_at fd klim leaf (?lv + 0) mp rp s ?items (A' @ (k', x') # (nd_key (?items ! s), number) # B') ?addr st''"
    using r(7) unique by (metis add.right_neutral)
  ultimately have "split_done pmalloc fd klim leaf ?lv mp newindx nn addr mc st 0 ?addr rp number s mc' st''"
    using r(2-5,9,10) sizes taken T(5) [OF order.refl] unfolding split_done_def Let_def ns [symmetric] by (simp add: mdb_page_free_def)
  then show ?thesis using r(1-3) by blast
qed

end
