(* ===== verification/Lmdb_Split_Root.thy ===== *)
theory Lmdb_Split_Root
  imports Lmdb_Split_Room
begin

text \<open>
  The root is split: it becomes the left child of a new root.
\<close>

section \<open>The tree below a new root\<close>

lemma pushed_nth:
  assumes "n < length xs" and "j \<le> n"
  shows "(a # take n xs @ drop (n + 1) xs) ! j = (if j = 0 then a else xs ! (j - 1))"
    and "length (a # take n xs @ drop (n + 1) xs) = length xs"
  using assms by (auto simp: nth_Cons' nth_append)

lemma push_root_result:
  assumes "stacks_of 1 mc" and "wc_snum mc = 1" and "wc_top mc = 0" and mc1: "mc1 = (push_root pp mc)\<lparr>wc_snum := wc_snum mc + 1, wc_top := 1\<rparr>"
  shows "wc_pg mc1 ! 0 = pp" "wc_ki mc1 ! 0 = 0" "place 1 mc1 = place 0 mc" "stacks_of n mc1 = stacks_of n mc" "wc_top mc1 = 1"
    "follows 1 1 0 to mc1 mc' \<Longrightarrow> follows 0 0 1 to mc mc'"
proof -
  have len: "1 < length (wc_pg mc)" "1 < length (wc_ki mc)" using assms(1) by (simp_all add: stacks_of_def)
  note p = pushed_nth [OF len(1), of _ pp] and k = pushed_nth [OF len(2), of _ 0]
  have pg: "wc_pg mc1 = pp # take 1 (wc_pg mc) @ drop (1 + 1) (wc_pg mc)" "wc_ki mc1 = 0 # take 1 (wc_ki mc) @ drop (1 + 1) (wc_ki mc)"
    "wc_top mc1 = 1" "wc_snum mc1 = wc_snum mc + 1" "wc_live mc1 = wc_live mc"
    unfolding mc1 push_root_def assms(2) by simp_all
  have nth: "wc_pg mc1 ! j = (if j = 0 then pp else wc_pg mc ! (j - 1))" "wc_ki mc1 ! j = (if j = 0 then 0 else wc_ki mc ! (j - 1))" if "j \<le> 1" for j
    unfolding pg(1,2) using p(1) [OF that] k(1) [OF that] by blast+
  have lens: "length (wc_pg mc1) = length (wc_pg mc)" "length (wc_ki mc1) = length (wc_ki mc)"
    unfolding pg(1,2) using p(2) [of 0] k(2) [of 0] by blast+
  show "wc_pg mc1 ! 0 = pp" "wc_ki mc1 ! 0 = 0" "place 1 mc1 = place 0 mc" "stacks_of n mc1 = stacks_of n mc" "wc_top mc1 = 1"
    using nth [of 0] nth [of 1] lens pg(3) unfolding place_def stacks_of_def by simp_all
  show "follows 1 1 0 to mc1 mc' \<Longrightarrow> follows 0 0 1 to mc mc'"
    using lens pg(3-5) assms(2,3) unfolding follows_def by auto
qed

lemma shift_root_result:
  assumes "stacks_of (depth + 1) m" and "wc_live m"
    and m'_def: "m' = shift_root pp depth m"
  shows "wc_pg m' ! 0 = pp" "wc_ki m' ! 0 = 0" "j \<le> depth \<Longrightarrow> place (Suc j) m' = place j m" "stacks_of n m' = stacks_of n m" "wc_live m'"
    "follows (depth + 1) 1 0 to m' m'' \<Longrightarrow> follows depth 0 1 to m m''"
proof -
  have len: "depth + 1 < length (wc_pg m)" "depth + 1 < length (wc_ki m)" using assms(1) by (simp_all add: stacks_of_def)
  note p = pushed_nth [OF len(1), of _ pp] and k = pushed_nth [OF len(2), of _ 0]
  have pg: "wc_pg m' = pp # take (depth + 1) (wc_pg m) @ drop (depth + 1 + 1) (wc_pg m)"
    "wc_ki m' = 0 # take (depth + 1) (wc_ki m) @ drop (depth + 1 + 1) (wc_ki m)"
    "wc_top m' = wc_top m + 1" "wc_snum m' = wc_snum m + 1" "wc_live m' = wc_live m"
    using assms(2) by (simp_all add: m'_def shift_root_def)
  have nth: "wc_pg m' ! j = (if j = 0 then pp else wc_pg m ! (j - 1))" "wc_ki m' ! j = (if j = 0 then 0 else wc_ki m ! (j - 1))" if "j \<le> depth + 1" for j
    unfolding pg(1,2) using p(1) [OF that] k(1) [OF that] by blast+
  have lens: "length (wc_pg m') = length (wc_pg m)" "length (wc_ki m') = length (wc_ki m)"
    unfolding pg(1,2) using p(2) [of 0] k(2) [of 0] by blast+
  show "wc_pg m' ! 0 = pp" "wc_ki m' ! 0 = 0" "stacks_of n m' = stacks_of n m" "wc_live m'"
    using nth [of 0] lens pg(5) assms(2) unfolding stacks_of_def by simp_all
  have at: "place (Suc j) m' = place j m" if "j \<le> depth" for j
    using nth [of "Suc j"] that by (simp add: place_def)
  then show "j \<le> depth \<Longrightarrow> place (Suc j) m' = place j m" .
  show "follows (depth + 1) 1 0 to m' m'' \<Longrightarrow> follows depth 0 1 to m m''"
  proof -
    assume f: "follows (depth + 1) 1 0 to m' m''"
    have "place (j + 1) m'' = place j m" if "0 < j" "j \<le> depth" for j
    proof -
      have "place (Suc j) m'' = place (Suc j) m'" using f that by (simp add: follows_def)
      then show ?thesis using at that by simp
    qed
    then show ?thesis using f lens pg(3-5) unfolding follows_def by auto
  qed
qed

lemma shift_root_live: "wc_live (shift_root pp depth m) = wc_live m"
  by (simp add: shift_root_def)

text \<open>The cursors of a transaction below a new root \<open>pp\<close>, before the root page is split and after.\<close>

lemma root_cursor_path:
  assumes "stacks_of (depth + 1) m" and "wc_live m" and "wc_pg m ! 0 = mp"
    and "addr root = pp" and "nodes_at mem pp = [Branch_node k child]" and "addr child = mp"
  shows "on_path mem addr root (Suc 0) (shift_root pp depth m) \<and> stacks_of (depth + 1) (shift_root pp depth m)"
proof -
  note V = shift_root_result [OF assms(1,2) refl, where pp = pp]
  have "wc_pg (shift_root pp depth m) ! 1 = mp" using V(3) [of 0] assms(3) by (simp add: place_def)
  then have "on_path mem addr root (Suc 0) (shift_root pp depth m)"
    using V(1,2) assms(4-6) by (simp add: on_path_def del: fun_upd_apply)
  then show ?thesis using V(4) assms(1) by blast
qed

lemma root_cursor_split:
  assumes "stacks_of (depth + 1) m" and "wc_live m \<Longrightarrow> wc_pg m ! 0 = mp" and "wc_top mc = Suc 0" and "wc_pg mc ! 0 = pp" and "0 < depth"
  shows "cursor_split mp rp s newindx False False depth mc mn m
    = Some (follow_split (Suc 0) mp rp newindx s mn (shift_parent (Suc 0) pp 0 (shift_root pp depth m)))"
proof -
  have "shift_parent (Suc 0) pp 0 (shift_root pp depth m) = shift_root pp depth m"
    using shift_root_result(2) [OF assms(1) _ refl, where pp = pp] by (cases "wc_live m") (simp_all add: shift_parent_def shift_root_def)
  moreover have "cursor_split mp rp s newindx False False depth mc mn m = Some (follow_split 1 mp rp newindx s mn (shift_root pp depth m))"
    by (rule cursor_split_root) (use assms in \<open>auto simp: stacks_of_def\<close>)
  ultimately show ?thesis by simp
qed

lemma root_cursor_kept:
  assumes "stacks_of (depth + 1) m" and k: "cursor_kept (depth + 1) (Suc 0) 0 mp rp newindx s addr st (shift_root pp depth m) m'"
  shows "cursor_kept depth 0 1 mp rp newindx s addr st m m'"
proof (cases "wc_live m")
  case False
  then show ?thesis using k by (simp add: cursor_kept_def shift_root_def)
next
  case True
  note V = shift_root_result [OF assms(1) True refl, where pp = pp]
  let ?v = "shift_root pp depth m" and ?to = "if wc_pg m ! 0 = mp then moved_to mp rp newindx s (wc_ki m ! 0) else place 0 m"
  have pl: "place (Suc 0) ?v = place 0 m" by (rule V(3)) simp
  then have same: "wc_pg ?v ! Suc 0 = wc_pg m ! 0" "wc_ki ?v ! Suc 0 = wc_ki m ! 0" by (simp_all add: place_def)
  have "on_path (ws_mem st) addr (ws_root st) (Suc 0) m'" "follows (depth + 1) 1 0 ?to ?v m'"
    using k V(5) unfolding cursor_kept_def pl same by simp_all
  then show ?thesis using True V(6) [of ?to m'] unfolding cursor_kept_def by simp
qed

text \<open>A new root with the old one below it.\<close>

lemma new_root_tree:
  assumes ok: "tree_ok fd klim leaf 0 addr st" and psize: "psize = unat (me_psize (ws_env st))" and nodemax: "klim + 9 \<le> me_nodemax (ws_env st)"
    and p: "root_page_of psize (ws_root st) root p" and st': "ws_mem st' = (ws_mem st)(pp := p)" "ws_root st' = root"
      "me_psize (ws_env st') = me_psize (ws_env st)" "me_nodemax (ws_env st') = me_nodemax (ws_env st)"
    and pp: "pp \<noteq> addr (ws_root st)" "addr' root = pp" "addr' (ws_root st) = addr (ws_root st)"
    and taken: "taken fd (ws_env st') (ws_txn st') root" "\<And>z. taken fd (ws_env st) (ws_txn st) z \<Longrightarrow> taken fd (ws_env st') (ws_txn st') z"
  shows "tree_ok fd klim leaf 1 addr' st'" "tree st' addr' 1 = [([], ws_root st)]"
    "tree_pages (ws_mem st') addr' (ws_root st') 1 = [pp, addr (ws_root st)]" "nodes_at (ws_mem st') pp = [Branch_node [] (ws_root st)]"
proof -
  let ?n = "Branch_node [] (ws_root st)"
  have P: "raw_nodes p = Some [?n]" "page_layout False psize p (psize - PAGEHDRSZ - 10)" "raw_page_pgno p = Some root"
    "\<exists>fl. raw_flags p = Some fl \<and> F_ISSET fl FLAG_BRANCH"
    using p by (simp_all add: root_page_of_def)
  show nodes: "nodes_at (ws_mem st') pp = [?n]" using P(1) by (simp add: nodes_at_def st'(1))
  have lev: "tree st' addr' 0 = [([], root)]" "tree st' addr' 1 = [([], ws_root st)]" using nodes pp(2) st'(2) by (simp_all add: level.simps(2))
  then show "tree st' addr' 1 = [([], ws_root st)]" by simp
  show pages: "tree_pages (ws_mem st') addr' (ws_root st') 1 = [pp, addr (ws_root st)]"
    using lev pp by (simp add: level_pages_def)
  have held: "page_held fd leaf klim addr st (ws_root st)" using tree_okD(2) [OF ok, of 0 "([], ws_root st)"] by simp
  have "good_page False psize (me_nodemax (ws_env st)) klim p" using P nodemax unfolding good_page_def by (auto simp: EVEN_def NODESIZE_def)
  then have root: "page_held fd False klim addr' st' root" using taken(1) P(3) pp(2) psize st' by (simp add: page_held_def)
  have "page_held fd leaf klim addr' st' (ws_root st)" using held taken(2) pp psize st' by (simp add: page_held_def)
  moreover have "tree_ok fd klim False 0 addr' st'" using root lev(1) pp(2) st'(2) by (simp add: tree_ok_def level_pages_def)
  ultimately show "tree_ok fd klim leaf 1 addr' st'" unfolding One_nat_def
    by (intro tree_ok_Suc) (use pages pp(1) lev in simp_all)
qed

section \<open>The root\<close>

definition split_outcome ::
  "txnid set \<Rightarrow> (mdb_id \<Rightarrow> txnid) \<Rightarrow> allocator \<Rightarrow> (nat \<Rightarrow> nat \<Rightarrow> nat option) \<Rightarrow> free_db \<Rightarrow> nat \<Rightarrow> bool \<Rightarrow> nat \<Rightarrow> nat \<Rightarrow> nat \<Rightarrow> mdb_node
     \<Rightarrow> (mdb_id \<Rightarrow> nat) \<Rightarrow> wcursor \<Rightarrow> write_state \<Rightarrow> int \<Rightarrow> wcursor \<Rightarrow> write_state \<Rightarrow> bool" where
  "split_outcome live freed malloc pmalloc fd klim leaf lv mp newindx nn addr mc st rc mc' st' =
     (writer_inv live freed fd (ws_env st') (ws_txn st') \<and> unat (wt_next_pgno (ws_txn st')) \<le> unat (wt_next_pgno (ws_txn st)) + lv + 2
      \<and> (if rc = MDB_SUCCESS then \<exists>d addr' rp number s. split_done pmalloc fd klim leaf lv mp newindx nn addr mc st d addr' rp number s mc' st'
         else split_failed malloc pmalloc fd (lv + 2) st rc mc mc' st'))"

lemma outcome_done:
  assumes "split_done pmalloc fd klim leaf lv mp newindx nn addr mc st d addr' rp number s mc' st'"
    and "writer_inv live freed fd (ws_env st') (ws_txn st')" and "unat (wt_next_pgno (ws_txn st')) \<le> unat (wt_next_pgno (ws_txn st)) + lv + 2"
  shows "split_outcome live freed malloc pmalloc fd klim leaf lv mp newindx nn addr mc st MDB_SUCCESS mc' st'"
  using assms unfolding split_outcome_def by (simp only: if_True simp_thms) blast

lemma split_page_root:
  assumes good: "good_malloc malloc" and inv: "writer_inv live freed fd (ws_env st) (ws_txn st)"
    and ready: "split_ready pmalloc fd klim leaf 0 mp newindx (newkey, newdata, newpgno, nflags) nn addr inuse mc st"
  shows "\<exists>rc mc' st'. split_page malloc pmalloc fd again newkey newdata newpgno nflags mc st = Some (rc, mc', st')
    \<and> split_outcome live freed malloc pmalloc fd klim leaf 0 mp newindx nn addr mc st rc mc' st'"
proof -
  let ?psize = "unat (me_psize (ws_env st))" and ?pool = "pool pmalloc (ws_env st) (ws_txn st)" and ?root = "ws_root st"
  let ?new = "(newkey, newdata, newpgno, nflags)" and ?ns = "nodes_at (ws_mem st) mp"
  define split where "split = split_page malloc pmalloc fd again newkey newdata newpgno nflags mc st"
  note R = split_readyD [OF ready]
  have at: "wc_pg mc ! 0 = mp" "addr ?root = mp" using R(6,18) by (simp_all add: place_def on_path_def)
  have tp: "tree_pages (ws_mem st) addr ?root 0 = [mp]" using at by (simp add: level_pages_def)
  have mp: "mp \<in> inuse" using R(2) tp by simp
  have held: "page_held fd leaf klim addr st ?root" using tree_okD(2) [OF R(1), of 0 "([], ?root)"] by simp
  then have H: "taken fd (ws_env st) (ws_txn st) ?root" "raw_page_pgno (ws_mem st mp) = Some ?root"
    "good_page leaf ?psize (me_nodemax (ws_env st)) klim (ws_mem st mp)"
    using at by (simp_all add: page_held_def)
  have room: "unat (wt_next_pgno (ws_txn st)) + 1 < 2 ^ 48" "unat (wt_next_pgno (ws_txn st)) + 2 < 2 ^ 48" using R(17) by simp_all
  have child: "unat ?root < 2 ^ 48" using H(1) room by (simp add: taken_def word_less_nat_alt)
  have N: "\<not> F_ISSET nflags MDB_APPEND" using R(11) by (simp add: new_ready_def)
  have mc: "place (wc_top mc) mc = (mp, newindx)" "stacks_of (wc_top mc) mc" using R(6,7,20) by simp_all
  obtain left fl where L: "page_layout leaf ?psize (ws_mem st mp) left" using H(3) by (auto simp: good_page_def)
  have sizes: "PAGEHDRSZ + 10 \<le> ?psize" "?psize \<le> 2 ^ 15" "even ?psize"
    using R(16) L by (auto simp: PAGEHDRSZ_def page_layout_def elim: layoutE)
  from page_split_right [OF good inv room(1) refl H(3) mp R(3) mc N split_def, of 1]
  have "\<exists>rc mc' st'. split = Some (rc, mc', st') \<and> split_outcome live freed malloc pmalloc fd klim leaf 0 mp newindx nn addr mc st rc mc' st'"
  proof (elim disjE exE conjE)
    fix rc st'
    assume "split = Some (rc, mc, st')" "rc \<noteq> MDB_SUCCESS" "writer_inv live freed fd (ws_env st') (ws_txn st')"
      "split_failed malloc pmalloc fd (Suc 1) st rc mc mc st'" "unat (wt_next_pgno (ws_txn st')) \<le> unat (wt_next_pgno (ws_txn st)) + 1"
    then show ?thesis by (simp add: split_outcome_def numeral_2_eq_2)
  next
    fix rp p number st1
    assume st1: "writer_inv live freed fd (ws_env st1) (ws_txn st1)" "state_kept fd st st1" "ws_root st1 = ws_root st" "ws_depth st1 = ws_depth st"
      and rp: "rp \<in> ?pool" "rp \<notin> inuse" and blocks: "blocks_ok (\<lambda>k. pmalloc (k + 1)) (insert rp inuse) st1"
      and sub: "pool (\<lambda>k. pmalloc (k + 1)) (ws_env st1) (ws_txn st1) \<subseteq> ?pool"
      and p: "ws_mem st1 = (ws_mem st)(rp := p)" "empty_page leaf ?psize number p" "unat number < 2 ^ 48"
      and number: "\<not> taken fd (ws_env st) (ws_txn st) number" "taken fd (ws_env st1) (ws_txn st1) number"
      and alloc: "mdb_page_alloc malloc (pmalloc 0) fd 1 (ws_env st) (ws_txn st) = Some (MDB_SUCCESS, Some (rp, number), ws_env st1, ws_txn st1)"
      and run: "split = do {
          (rc, mc1, new_root, st2) \<leftarrow> split_root malloc (pmalloc 1) fd mp mc st1;
          if rc \<noteq> MDB_SUCCESS then Some (rc, mc1, fail_state st2)
          else do {
            up \<leftarrow> idl_at (wc_ki mc1) (wc_top mc1 - 1);
            split_copy malloc pmalloc fd again leaf mp rp (length ?ns) newindx ?new new_root
              (mc1\<lparr>wc_pg := (wc_pg mc1)[wc_top mc1 := rp], wc_ki := (wc_ki mc1)[wc_top mc1 - 1 := up + 1]\<rparr>) mc1 st2
          }
        }"
    have K1: "me_psize (ws_env st1) = me_psize (ws_env st)" "me_nodemax (ws_env st1) = me_nodemax (ws_env st)" "ws_cursors st1 = ws_cursors st"
      "unat (wt_next_pgno (ws_txn st1)) \<le> unat (wt_next_pgno (ws_txn st)) + 1"
      "\<And>z. taken fd (ws_env st) (ws_txn st) z \<Longrightarrow> taken fd (ws_env st1) (ws_txn st1) z"
      using st1(2) by (simp_all add: state_kept_def)
    have ne: "rp \<noteq> mp" using rp(2) mp by blast
    have mp1: "raw_page_pgno (ws_mem st1 mp) = Some ?root" "ws_mem st1 mp = ws_mem st mp" using H(2) p(1) ne by simp_all
    have shift: "(\<lambda>k. pmalloc (k + 1 + 1)) = (\<lambda>k. pmalloc (k + 2))" by simp
    have room1: "unat (wt_next_pgno (ws_txn st1)) + 1 < 2 ^ 48" using room(2) K1(4) by simp
    have psize1: "?psize = unat (me_psize (ws_env st1))" and mp': "mp \<in> insert rp inuse" using K1 mp by simp_all
    from split_root_result [OF good st1(1) room1 psize1 sizes R(7) mp1(1) child mp' blocks]
    obtain rc mc1 d st2 where s2: "split_root malloc (pmalloc 1) fd mp mc st1 = Some (rc, mc1, d, st2)"
      "writer_inv live freed fd (ws_env st2) (ws_txn st2)" "state_kept fd st1 st2"
      "if rc = MDB_SUCCESS then
         \<exists>pp root p. mc1 = (push_root pp mc)\<lparr>wc_snum := wc_snum mc + 1, wc_top := 1\<rparr> \<and> d = ws_depth st1
           \<and> pp \<in> pool (\<lambda>k. pmalloc (k + 1)) (ws_env st1) (ws_txn st1) \<and> pp \<notin> insert rp inuse
           \<and> blocks_ok (\<lambda>k. pmalloc (k + 2)) (insert pp (insert rp inuse)) st2
           \<and> pool (\<lambda>k. pmalloc (k + 2)) (ws_env st2) (ws_txn st2) \<subseteq> pool (\<lambda>k. pmalloc (k + 1)) (ws_env st1) (ws_txn st1)
           \<and> ws_mem st2 = (ws_mem st1)(pp := p) \<and> root_page_of ?psize ?root root p
           \<and> \<not> taken fd (ws_env st1) (ws_txn st1) root \<and> taken fd (ws_env st2) (ws_txn st2) root
           \<and> ws_root st2 = root \<and> ws_depth st2 = ws_depth st1 + 1
           \<and> mdb_page_alloc malloc (pmalloc 1) fd 1 (ws_env st1) (ws_txn st1) = Some (MDB_SUCCESS, Some (pp, root), ws_env st2, ws_txn st2)
       else mc1 = mc \<and> ws_mem st2 = ws_mem st1 \<and> ws_root st2 = ws_root st1 \<and> ws_depth st2 = ws_depth st1
         \<and> (\<exists>env txn. mdb_page_alloc malloc (pmalloc 1) fd 1 (ws_env st1) (ws_txn st1) = Some (rc, None, env, txn))"
      unfolding shift add_0 by blast
    have env1: "ws_env st1 = (ws_env st1)\<lparr>me_dpages := me_dpages (ws_env st1)\<rparr>" by simp
    have later: "refused_in malloc pmalloc fd 2 (ws_env st) (ws_txn st) e" if "refused_in malloc pmalloc fd 1 (ws_env st1) (ws_txn st1) e" for e
      using refused_in.later [of malloc pmalloc 0 fd "ws_env st" "ws_txn st" "(rp, number)" "ws_env st1" "ws_txn st1" 1 "me_dpages (ws_env st1)" e] alloc that env1 by (simp add: numeral_2_eq_2)
    have K2: "me_psize (ws_env st2) = me_psize (ws_env st)" "me_nodemax (ws_env st2) = me_nodemax (ws_env st)" "ws_cursors st2 = ws_cursors st"
      "unat (wt_next_pgno (ws_txn st2)) \<le> unat (wt_next_pgno (ws_txn st)) + 2"
      "\<And>z. taken fd (ws_env st1) (ws_txn st1) z \<Longrightarrow> taken fd (ws_env st2) (ws_txn st2) z"
      using s2(3) K1 by (auto simp: state_kept_def)
    show ?thesis
    proof (cases "rc = MDB_SUCCESS")
      case False
      then have f: "mc1 = mc" "ws_mem st2 = ws_mem st1" "\<exists>env txn. mdb_page_alloc malloc (pmalloc 1) fd 1 (ws_env st1) (ws_txn st1) = Some (rc, None, env, txn)"
        using s2(4) by simp_all
      then have "refused_in malloc pmalloc fd 2 (ws_env st) (ws_txn st) rc"
        using later [of rc] refused_in.now [of malloc pmalloc 1 fd "ws_env st1" "ws_txn st1" rc _ _ 0] by auto
      then have "split_failed malloc pmalloc fd 2 st rc mc mc (fail_state st2)"
        using f(2) rp(1) p(1) K2(3) by (auto simp: split_failed_def fail_state_simps)
      moreover have "split = Some (rc, mc, fail_state st2)" unfolding run s2(1) bind.bind_lunit prod.case using False f(1) by simp
      ultimately show ?thesis using False s2(2) K2(4) by (simp add: split_outcome_def fail_state_simps numeral_2_eq_2)
    next
      case True
      then obtain pp root q where r: "mc1 = (push_root pp mc)\<lparr>wc_snum := wc_snum mc + 1, wc_top := 1\<rparr>" "d = ws_depth st1"
        "pp \<in> pool (\<lambda>k. pmalloc (k + 1)) (ws_env st1) (ws_txn st1)" "pp \<notin> insert rp inuse"
        "blocks_ok (\<lambda>k. pmalloc (k + 2)) (insert pp (insert rp inuse)) st2"
        "pool (\<lambda>k. pmalloc (k + 2)) (ws_env st2) (ws_txn st2) \<subseteq> pool (\<lambda>k. pmalloc (k + 1)) (ws_env st1) (ws_txn st1)"
        "ws_mem st2 = (ws_mem st1)(pp := q)" "root_page_of ?psize ?root root q"
        "\<not> taken fd (ws_env st1) (ws_txn st1) root" "taken fd (ws_env st2) (ws_txn st2) root" "ws_root st2 = root" "ws_depth st2 = ws_depth st1 + 1"
        "mdb_page_alloc malloc (pmalloc 1) fd 1 (ws_env st1) (ws_txn st1) = Some (MDB_SUCCESS, Some (pp, root), ws_env st2, ws_txn st2)"
        using s2(4) [unfolded if_P [OF True]] by blast
      let ?addr1 = "addr(number := rp)" and ?addr = "addr(number := rp, root := pp)" and ?inuse = "insert pp (insert rp inuse)"
      have addr1: "?addr1 z = addr z" if "taken fd (ws_env st) (ws_txn st) z" for z using that number(1) by auto
      have addr2: "?addr z = ?addr1 z" if "taken fd (ws_env st1) (ws_txn st1) z" for z using that r(9) by auto
      have addr: "?addr ?root = mp" "?addr number = rp" "?addr root = pp"
        using addr1 [OF H(1)] addr2 [OF K1(5) [OF H(1)]] addr2 [OF number(2)] at(2) by simp_all
      have mem1: "ws_mem st1 z = ws_mem st z" if "z \<in> set (tree_pages (ws_mem st) addr (ws_root st) 0)" for z using that ne tp p(1) by simp
      have ok1: "tree_ok fd klim leaf 0 ?addr1 st1" by (rule tree_kept(1) [OF R(1) st1(3) K1(1,2,5) mem1 addr1])
      have pp: "pp \<noteq> ?addr1 (ws_root st1)" "?addr (ws_root st1) = ?addr1 (ws_root st1)"
        using addr1 [OF H(1)] addr2 [OF K1(5) [OF H(1)]] at(2) r(4) mp st1(3) by auto
      have N1: "klim + 9 \<le> me_nodemax (ws_env st1)" "root_page_of ?psize (ws_root st1) root q" using R(15) K1(2) r(8) st1(3) by simp_all
      have sz: "me_psize (ws_env st2) = me_psize (ws_env st1)" "me_nodemax (ws_env st2) = me_nodemax (ws_env st1)" using K1 K2 by simp_all
      note T = new_root_tree [OF ok1 psize1 N1 r(7,11) sz pp(1) addr(3) pp(2) r(10) K2(5)]
      have root1: "?addr1 (ws_root st1) = mp" using addr1 [OF H(1)] at(2) st1(3) by simp
      have T: "tree_ok fd klim leaf 1 ?addr st2" "tree st2 ?addr 1 = [([], ?root)]"
        "tree_pages (ws_mem st2) ?addr (ws_root st2) 1 = [pp, mp]" "nodes_at (ws_mem st2) pp = [Branch_node [] ?root]"
        using T [unfolded root1, unfolded st1(3)] by - assumption+
      let ?mn = "mc1\<lparr>wc_pg := (wc_pg mc1)[1 := rp], wc_ki := (wc_ki mc1)[0 := wc_ki mc1 ! 0 + 1]\<rparr>"
      have st1len: "stacks_of 1 mc" using R(19) by (simp add: stacks_of_def)
      note M = push_root_result [OF st1len _ R(7) r(1)]
      have M: "wc_pg mc1 ! 0 = pp" "wc_ki mc1 ! 0 = 0" "place 1 mc1 = (mp, newindx)" "stacks_of 1 mc1" "wc_top mc1 = 1"
        "\<And>to mc'. follows 1 1 0 to mc1 mc' \<Longrightarrow> follows 0 0 1 to mc mc'"
        using M R(6,8) st1len by simp_all
      have "idl_at (wc_ki mc1) 0 = Some (wc_ki mc1 ! 0)" using M(4) by (auto simp: stacks_of_def idl_at_eq)
      then have go: "split = split_copy malloc pmalloc fd again leaf mp rp (length ?ns) newindx ?new (ws_depth st) ?mn mc1 st2"
        unfolding run s2(1) bind.bind_lunit prod.case r(2) using True M(5) st1(4) by simp
      have mem2: "ws_mem st2 mp = ws_mem st mp" "ws_mem st2 rp = p" using r(4,7) p(1) ne mp by auto
      then have ns2: "?ns = nodes_at (ws_mem st2) mp" by (simp add: nodes_at_def)
      have "split_copy malloc pmalloc fd again leaf mp rp (length ?ns) newindx ?new (ws_depth st) ?mn mc1 st2
            = Some (ENOMEM, mc1, fail_state st2) \<and> (\<exists>n. pmalloc 2 n = None)
          \<or> (\<exists>copy c ps s sepkey st'. st' = st2\<lparr>ws_env := (ws_env st2)\<lparr>me_dpages := ps\<rparr>, ws_mem := (ws_mem st2)(copy := c)\<rparr>
            \<and> copy \<in> pool (\<lambda>k. pmalloc (k + 2)) (ws_env st2) (ws_txn st2) \<and> copy \<notin> ?inuse
            \<and> pool (\<lambda>k. pmalloc (k + 3)) (ws_env st') (ws_txn st') \<subseteq> pool (\<lambda>k. pmalloc (k + 2)) (ws_env st2) (ws_txn st2)
            \<and> begun pmalloc fd klim leaf 1 mp rp copy number newindx nn ?ns s sepkey ?addr (insert copy ?inuse) st'
            \<and> split_copy malloc pmalloc fd again leaf mp rp (length ?ns) newindx ?new (ws_depth st) ?mn mc1 st2
              = split_link malloc (pmalloc 3) fd again leaf mp rp (Some copy) (length ?ns) newindx s ?new sepkey (ws_depth st) ?mn mc1 st')"
      proof (rule copy_begins)
        show "tree_ok fd klim leaf 1 ?addr st2" by (rule T(1))
        show "set (tree_pages (ws_mem st2) ?addr (ws_root st2) 1) \<subseteq> ?inuse" "mp \<in> set (tree_pages (ws_mem st2) ?addr (ws_root st2) 1)"
          "rp \<notin> set (tree_pages (ws_mem st2) ?addr (ws_root st2) 1)"
          unfolding T(3) using mp r(4) ne by auto
        show "good_page leaf ?psize (me_nodemax (ws_env st)) klim (ws_mem st2 mp)" unfolding mem2 by (rule H(3))
        show "new_ready klim leaf newindx ?new nn (me_nodemax (ws_env st2))" using R(11) K2 by simp
        show "newindx \<le> length ?ns" "can_split leaf ?psize ?ns (?psize - PAGEHDRSZ - used ?ns) newindx nn" using R(12,13) by simp_all
      qed (use addr(2) mem2 ns2 p number(2) K2 r(5) in simp_all)
      then show ?thesis
      proof (elim disjE exE conjE)
        fix n
        assume fail: "split_copy malloc pmalloc fd again leaf mp rp (length ?ns) newindx ?new (ws_depth st) ?mn mc1 st2 = Some (ENOMEM, mc1, fail_state st2)"
          "pmalloc 2 n = None"
        have "refused_in malloc pmalloc fd 2 (ws_env st) (ws_txn st) ENOMEM" by (rule refused_in.memory [of pmalloc 2 n, OF fail(2)])
        moreover have "ws_mem st2 z = ws_mem st z" if "z \<notin> ?pool" for z using that r(3,7) p(1) rp(1) sub by auto
        ultimately have "split_failed malloc pmalloc fd 2 st ENOMEM mc mc1 (fail_state st2)"
          using K2(3) by (simp add: split_failed_def fail_state_simps)
        moreover have "ENOMEM \<noteq> MDB_SUCCESS" by (simp add: ENOMEM_def MDB_SUCCESS_def)
        ultimately show ?thesis using go fail(1) s2(2) K2(4) by (simp add: split_outcome_def fail_state_simps numeral_2_eq_2)
      next
        fix copy c ps s sepkey st3
        assume st3: "st3 = st2\<lparr>ws_env := (ws_env st2)\<lparr>me_dpages := ps\<rparr>, ws_mem := (ws_mem st2)(copy := c)\<rparr>"
          and copy: "copy \<in> pool (\<lambda>k. pmalloc (k + 2)) (ws_env st2) (ws_txn st2)" "copy \<notin> ?inuse"
          and begun: "begun pmalloc fd klim leaf 1 mp rp copy number newindx nn ?ns s sepkey ?addr (insert copy ?inuse) st3"
          and link: "split_copy malloc pmalloc fd again leaf mp rp (length ?ns) newindx ?new (ws_depth st) ?mn mc1 st2
              = split_link malloc (pmalloc 3) fd again leaf mp rp (Some copy) (length ?ns) newindx s ?new sepkey (ws_depth st) ?mn mc1 st3"
        have "copy \<in> ?pool" "pp \<in> ?pool" using copy(1) r(3,6) sub by blast+
        then have blocks3: "{rp, copy, pp} \<subseteq> ?pool" using rp(1) by blast
        have K3: "me_psize (ws_env st3) = me_psize (ws_env st)" "me_nodemax (ws_env st3) = me_nodemax (ws_env st)" "ws_cursors st3 = ws_cursors st"
          "ws_depth st3 = ws_depth st + 1" "ws_txn st3 = ws_txn st2" "writer_inv live freed fd (ws_env st3) (ws_txn st3)"
          using K2 r(12) st1(4) s2(2) by (simp_all add: st3)
        have mem3: "ws_mem st3 z = ws_mem st z" if "z \<notin> {rp, copy, pp}" for z using that r(7) p(1) by (simp add: st3)
        have taken3: "taken fd (ws_env st3) (ws_txn st3) z = taken fd (ws_env st2) (ws_txn st2) z" for z by (simp add: st3 taken_def)
        have nodes3: "nodes_at (ws_mem st3) pp = [Branch_node [] ?root]" using T(4) copy(2) by (simp add: st3 nodes_at_def)
        have root3: "ws_root st3 = root" using r(11) by (simp add: st3)
        have lev3: "tree st3 ?addr 1 = [] @ ([], ?root) # []" using nodes3 addr(3) root3 by (simp add: level.simps(2))
        have tp3: "tree_pages (ws_mem st3) ?addr (ws_root st3) 1 = [pp, mp]" using nodes3 addr root3 by (simp add: level.simps(2) level_pages_def del: fun_upd_apply)
        have B: "tree_ok fd klim leaf (Suc 0) ?addr st3" "page_held fd leaf klim ?addr st3 number"
          "rp \<notin> set (tree_pages (ws_mem st3) ?addr (ws_root st3) (Suc 0))" "copy \<notin> set (tree_pages (ws_mem st3) ?addr (ws_root st3) (Suc 0))"
          "pages_ready leaf mp rp copy newindx ?psize ?ns st3" "halves_fit leaf ?psize (inserted newindx nn ?ns) s" "key_ok (Some sepkey)"
          "key_bytes (Some sepkey) = nd_key (inserted newindx nn ?ns ! s)"
          using begun K3(1) by (simp_all add: begun_def Let_def)
        have N3: "describes leaf (me_nodemax (ws_env st3)) ?new nn" "\<not> F_ISSET (snd (snd (snd ?new))) MDB_SPLIT_REPLACE"
          "node_bytes nn \<le> me_nodemax (ws_env st3)" "length (nd_key nn) \<le> klim" "newindx \<le> length ?ns" "klim + 9 \<le> me_nodemax (ws_env st3)"
          using R(11,12,15) K3(2) by (simp_all add: new_ready_def)
        have path: "on_path (ws_mem st3) ?addr (ws_root st3) (Suc 0) m" if "wc_pg m ! 0 = pp" "wc_ki m ! 0 = 0" "wc_pg m ! 1 = mp" for m
          using that nodes3 addr root3 by (simp add: on_path_def del: fun_upd_apply)
        have key: "length (key_bytes (Some sepkey)) \<le> klim"
          by (rule separator_limit [OF B(6,8) N3(4)]) (use H(3) in \<open>auto elim: good_pageE\<close>)
        have fit: "mdb_branch_size (Some sepkey) \<le> ?psize - PAGEHDRSZ - used (nodes_at (ws_mem st3) (wc_pg mc1 ! 0))"
          unfolding M(1) nodes3 using key key_size [OF B(7)] R(16) by (simp add: mdb_branch_size_def NODESIZE_def EVEN_def PAGEHDRSZ_def)
        have bottom: "wc_pg m ! 0 = mp" if "m \<in> set (ws_cursors st)" "wc_live m" for m
          using R(10) [OF that(1)] that(2) at by (simp add: cursor_ready_def on_path_def)
        let ?v = "shift_root pp (ws_depth st)"
        have S: "stacks_of (ws_depth st + 1) m" if "m \<in> set (ws_cursors st)" for m using R(10) [OF that] by (simp add: cursor_ready_def)
        have cursors: "\<forall>m\<in>set (ws_cursors st3). wc_live (?v m) \<longrightarrow> on_path (ws_mem st3) ?addr (ws_root st3) (Suc 0) (?v m) \<and> stacks_of (ws_depth st + 1) (?v m)"
          unfolding root3 K3(3) shift_root_live
        proof (intro ballI impI)
          fix m
          assume m: "m \<in> set (ws_cursors st)" "wc_live m"
          show "on_path (ws_mem st3) ?addr root (Suc 0) (?v m) \<and> stacks_of (ws_depth st + 1) (?v m)"
            by (rule root_cursor_path [OF S [OF m(1)] m(2) bottom [OF m] addr(3) nodes3 addr(1)])
        qed
        have act: "\<forall>mc2. \<forall>m\<in>set (ws_cursors st3). wc_top mc2 = Suc 0 \<longrightarrow> wc_pg mc2 ! 0 = wc_pg mc1 ! 0 \<longrightarrow> wc_ki mc2 ! 0 \<in> {wc_ki mc1 ! 0, wc_ki mc1 ! 0 + 1} \<longrightarrow>
            cursor_split mp rp s newindx False False (ws_depth st) mc2 ?mn m
              = Some (follow_split (Suc 0) mp rp newindx s ?mn (shift_parent (Suc 0) (wc_pg mc1 ! 0) (wc_ki mc1 ! 0) (?v m)))"
          unfolding K3(3)
        proof (intro allI ballI impI)
          fix mc2 m :: wcursor
          assume a: "m \<in> set (ws_cursors st)" "wc_top mc2 = Suc 0" "wc_pg mc2 ! 0 = wc_pg mc1 ! 0"
          show "cursor_split mp rp s newindx False False (ws_depth st) mc2 ?mn m
              = Some (follow_split (Suc 0) mp rp newindx s ?mn (shift_parent (Suc 0) (wc_pg mc1 ! 0) (wc_ki mc1 ! 0) (?v m)))"
            using root_cursor_split [OF S [OF a(1)] bottom [OF a(1)] a(2) a(3) [unfolded M(1)] R(9), of rp s newindx ?mn] by (simp only: M(1,2))
        qed
        have M3: "wc_top mc1 = Suc 0" "place (Suc 0) mc1 = (mp, newindx)" "stacks_of (Suc 0) mc1" "on_path (ws_mem st3) ?addr (ws_root st3) (Suc 0) mc1"
          "?mn = mc1\<lparr>wc_pg := (wc_pg mc1)[Suc 0 := rp], wc_ki := (wc_ki mc1)[0 := wc_ki mc1 ! 0 + 1]\<rparr>"
          using M path by (simp_all add: place_def)
        from split_link_room [OF B(1) lev3 [unfolded One_nat_def] addr(1,2) B(3,2) p(3) B(5,4) N3(1-5) B(6) N3(6) B(7,8) M3(4,2,1,3,5) fit cursors _ act,
            of malloc "pmalloc 3" again]
        obtain mc' st' where f: "split_link malloc (pmalloc 3) fd again leaf mp rp (Some copy) (length ?ns) newindx s ?new sepkey (ws_depth st) ?mn mc1 st3
            = Some (MDB_SUCCESS, mc', st')"
          "ws_env st' = mdb_page_free copy (ws_env st3)" "ws_txn st' = ws_txn st3" "ws_root st' = ws_root st3" "ws_depth st' = ws_depth st3"
          "\<forall>q. q \<notin> {mp, rp, copy, pp} \<longrightarrow> ws_mem st' q = ws_mem st3 q"
          "split_at fd klim leaf (Suc 0) mp rp s (inserted newindx nn ?ns) ([([], ?root), (nd_key (inserted newindx nn ?ns ! s), number)]) ?addr st'"
          "set (tree_pages (ws_mem st') ?addr (ws_root st') (Suc 0)) \<subseteq> insert rp {pp, mp}"
          "own_kept (Suc 0) 0 (own_place mp rp newindx s) ?addr st' mc1 mc'"
          "list_all2 (cursor_kept (ws_depth st + 1) (Suc 0) 0 mp rp newindx s ?addr st') (List.map ?v (ws_cursors st)) (ws_cursors st')"
          unfolding M(1) tp3 [unfolded One_nat_def] K3(3) append_Nil by auto
        have same: "taken fd (ws_env st') (ws_txn st') z = taken fd (ws_env st2) (ws_txn st2) z" for z
          using taken3 f(2,3) by (simp add: taken_def mdb_page_free_def)
        have D1: "own_kept 0 1 (own_place mp rp newindx s) ?addr st' mc mc'" using f(9) M(6) by (simp add: own_kept_def)
        have D2: "list_all2 (cursor_kept (ws_depth st) 0 1 mp rp newindx s ?addr st') (ws_cursors st) (ws_cursors st')"
          by (rule list.rel_mono_strong [OF f(10) [unfolded list_all2_map1]], rule root_cursor_kept [OF S])
        have "A = [] \<and> k = [] \<and> x = ?root \<and> B = []" if "tree st addr 0 = A @ (k, x) # B" for A k x B
          using that by (cases A) auto
        then have D3: "\<forall>A k x B. tree st addr 0 = A @ (k, x) # B \<longrightarrow> addr x = mp \<longrightarrow>
            split_at fd klim leaf (0 + 1) mp rp s (inserted newindx nn ?ns) (A @ (k, x) # (nd_key (inserted newindx nn ?ns ! s), number) # B) ?addr st'"
          using f(7) by (metis One_nat_def add_0 append_Nil)
        have D4: "\<forall>q. q \<notin> ?pool \<longrightarrow> (\<forall>l\<le>0. q \<noteq> wc_pg mc ! l) \<longrightarrow> ws_mem st' q = ws_mem st q"
          using f(6) mem3 blocks3 at(1) by auto
        have D5: "taken fd (ws_env st') (ws_txn st') z \<and> ?addr z = addr z" if "taken fd (ws_env st) (ws_txn st) z" for z
          using that same K2(5) K1(5) addr1 addr2 by metis
        have D6: "set (tree_pages (ws_mem st') ?addr (ws_root st') (0 + 1)) \<subseteq> set (tree_pages (ws_mem st) addr (ws_root st) 0) \<union> ?pool"
          using f(8) blocks3 unfolding tp by auto
        have D7: "ws_depth st' = ws_depth st + 1" "me_psize (ws_env st') = me_psize (ws_env st)" "me_nodemax (ws_env st') = me_nodemax (ws_env st)"
          using f(2,5) K3 by (simp_all add: mdb_page_free_def)
        have done1: "split_done pmalloc fd klim leaf 0 mp newindx nn addr mc st 1 ?addr rp number s mc' st'"
          unfolding split_done_def Let_def using D1 D2 D3 D4 D5 D6 D7 rp(1) addr(2) by blast
        have "split = Some (MDB_SUCCESS, mc', st')" unfolding go link f(1) ..
        moreover have inv': "writer_inv live freed fd (ws_env st') (ws_txn st')" "unat (wt_next_pgno (ws_txn st')) \<le> unat (wt_next_pgno (ws_txn st)) + 0 + 2"
          using K3(5,6) K2(4) f(2,3) by (simp_all add: mdb_page_free_def)
        have "split_outcome live freed malloc pmalloc fd klim leaf 0 mp newindx nn addr mc st MDB_SUCCESS mc' st'"
          by (rule outcome_done [OF done1 inv'])
        ultimately show ?thesis by blast
      qed
    qed
  qed
  then show ?thesis unfolding split_def .
qed

end
