(* ===== verification/Lmdb_Split_Nested.thy ===== *)
theory Lmdb_Split_Nested
  imports Lmdb_Split_Root
begin

text \<open>
  The separator does not fit, and the parent is split first, with \<open>mn\<close>, one level up, as the cursor
  that inserts, and \<open>mc\<close> as one of the others.
\<close>

section \<open>The split of the parent is prepared\<close>

text \<open>The tree does not depend on the list of cursors.\<close>

lemma tree_ok_cursors [simp]: "tree_ok fd klim leaf lv addr (st\<lparr>ws_cursors := cs\<rparr>) = tree_ok fd klim leaf lv addr st"
  by (simp add: tree_ok_def page_held_def)

lemma blocks_ok_cursors [simp]: "blocks_ok pmalloc inuse (st\<lparr>ws_cursors := cs\<rparr>) = blocks_ok pmalloc inuse st"
  by (simp add: blocks_ok_def)

lemma tree_pages_sub: "l \<le> lv \<Longrightarrow> set (tree_pages mem addr root l) \<subseteq> set (tree_pages mem addr root lv)"
  by (induction lv) (auto simp: le_Suc_eq)

lemma separator_key:
  assumes "halves_fit leaf psize (inserted newindx nn ns) s" and "newindx \<le> length ns" and "length (nd_key nn) \<le> klim"
    and "\<And>n. n \<in> set ns \<Longrightarrow> length (nd_key n) \<le> klim" and "key_bytes (Some sepkey) = nd_key (inserted newindx nn ns ! s)"
  shows "length (key_bytes (Some sepkey)) \<le> klim"
proof -
  have "s < length (inserted newindx nn ns)" using assms(1) by (simp add: halves_fit_def)
  then have "inserted newindx nn ns ! s \<in> insert nn (set ns)" using nth_mem [of s "inserted newindx nn ns"] set_inserted by simp
  then show ?thesis using assms(3-5) by auto
qed

lemma nested_ready:
  assumes ready: "split_ready pmalloc fd klim leaf (Suc l) mp newindx new nn addr inuse mc st"
    and two: "two_taken pmalloc fd rp copy number inuse st st'"
    and begun: "begun pmalloc fd klim leaf (Suc l) mp rp copy number newindx nn ns s sepkey (addr(number := rp)) (insert copy (insert rp inuse)) st'"
    and ns: "ns = nodes_at (ws_mem st) mp"
    and mn: "mn = mc\<lparr>wc_pg := (wc_pg mc)[Suc l := rp], wc_ki := (wc_ki mc)[l := wc_ki mc ! l + 1]\<rparr>"
    and full: "unat (me_psize (ws_env st)) - PAGEHDRSZ - used (nodes_at (ws_mem st) (wc_pg mc ! l)) < mdb_branch_size (Some sepkey)"
  shows "split_ready (\<lambda>k. pmalloc (k + 4)) fd klim False l (wc_pg mc ! l) (wc_ki mc ! l + 1) (sepkey, None, number, 0)
    (Branch_node (key_bytes (Some sepkey)) number) (addr(number := rp)) (insert copy (insert rp inuse))
    (mn\<lparr>wc_snum := wc_snum mn - 1, wc_top := wc_top mn - 1\<rparr>) (st'\<lparr>ws_cursors := mc # ws_cursors st'\<rparr>)"
proof -
  let ?addr = "addr(number := rp)" and ?psize = "unat (me_psize (ws_env st))" and ?n = "Branch_node (key_bytes (Some sepkey)) number"
  let ?mn = "mn\<lparr>wc_snum := wc_snum mn - 1, wc_top := wc_top mn - 1\<rparr>" and ?parent = "wc_pg mc ! l" and ?up = "wc_ki mc ! l"
  let ?pns = "nodes_at (ws_mem st) ?parent" and ?inuse = "insert copy (insert rp inuse)"
  note R = split_readyD [OF ready] and T = two_taken_tree [OF ready two]
  have sizes: "me_psize (ws_env st') = me_psize (ws_env st)" "me_nodemax (ws_env st') = me_nodemax (ws_env st)" "ws_cursors st' = ws_cursors st"
    "ws_root st' = ws_root st" "ws_depth st' = ws_depth st" "unat (wt_next_pgno (ws_txn st')) \<le> unat (wt_next_pgno (ws_txn st)) + 1"
    using two by (simp_all add: two_taken_def state_kept_def)
  have B: "tree_ok fd klim leaf (Suc l) ?addr st'" "page_held fd leaf klim ?addr st' number" "unat number < 2 ^ 48"
    "set (tree_pages (ws_mem st') ?addr (ws_root st') (Suc l)) \<subseteq> ?inuse" "blocks_ok (\<lambda>k. pmalloc (k + 3)) ?inuse st'"
    "halves_fit leaf ?psize (inserted newindx nn ns) s" "key_ok (Some sepkey)" "key_bytes (Some sepkey) = nd_key (inserted newindx nn ns ! s)"
    using begun sizes(1) by (simp_all add: begun_def Let_def)
  have len: "Suc l < length (wc_pg mc)" "Suc l < length (wc_ki mc)" using R(20) by (simp_all add: stacks_of_def)
  have nth: "wc_pg ?mn ! j = (if j = Suc l then rp else wc_pg mc ! j)" "wc_ki ?mn ! j = (if j = l then ?up + 1 else wc_ki mc ! j)" for j
    using len unfolding mn by (auto simp: nth_list_update)
  have path: "on_path (ws_mem st') ?addr (ws_root st') l m" if "on_path (ws_mem st) addr (ws_root st) (Suc l) m" for m
    using T(3) [of l] on_path_sub [OF that, of l] by simp
  have parent: "?parent \<in> inuse" "?up < length ?pns" using path_tree [OF R(18), of l "Suc l"] R(2,18) by (auto simp: on_path_Suc)
  have same: "ws_mem st' (wc_pg mc ! j) = ws_mem st (wc_pg mc ! j)" "nodes_at (ws_mem st') (wc_pg mc ! j) = nodes_at (ws_mem st) (wc_pg mc ! j)"
    if "j \<le> l" for j
    using T(4) [OF order.refl] path_tree [OF R(18), of j "Suc l"] R(2) that by auto
  have shift: "(\<lambda>k. pmalloc (k + 1 + 3)) = (\<lambda>k. pmalloc (k + 4))" by (simp add: numeral_eq_Suc)
  have blocks: "blocks_ok (\<lambda>k. pmalloc (k + 4)) ?inuse st'" using blocks_shift [OF B(5), of 1] unfolding shift .
  have key: "length (key_bytes (Some sepkey)) \<le> klim"
  proof (rule separator_key [OF B(6) _ _ _ B(8)])
    show "newindx \<le> length ns" "length (nd_key nn) \<le> klim" using R(11,12) ns by (simp_all add: new_ready_def)
    obtain A k x D where x: "tree st addr (Suc l) = A @ (k, x) # D" "addr x = wc_pg mc ! Suc l" using path_level [OF R(18)] by blast
    have "page_held fd leaf klim addr st x" using tree_okD(2) [OF R(1) order.refl, of "(k, x)"] x(1) by simp
    moreover have "wc_pg mc ! Suc l = mp" using R(6) by (simp add: place_def)
    ultimately show "length (nd_key n) \<le> klim" if "n \<in> set ns" for n using that x(2) unfolding ns by (auto simp: page_held_def elim: good_pageE)
  qed
  have n: "node_bytes ?n = EVEN (NODESIZE + mv_size sepkey)" "node_bytes ?n \<le> me_nodemax (ws_env st)"
    using key_size [OF B(7)] key R(15) EVEN_le(2) [of "NODESIZE + mv_size sepkey"] by (simp_all add: NODESIZE_def)
  have new: "new_ready klim False (?up + 1) (sepkey, None, number, 0) ?n (me_nodemax (ws_env st))"
    using B(3,7) key n(2) by (simp add: new_ready_def describes_def F_ISSET_def F_BIGDATA_def MDB_APPEND_def MDB_SPLIT_REPLACE_def)
  have "?psize - PAGEHDRSZ - used ?pns < node_bytes ?n + 2"
    using full n(1) EVEN_le(1) [of "NODESIZE + mv_size sepkey"] by (simp add: mdb_branch_size_def)
  then have can: "can_split False ?psize ?pns (?psize - PAGEHDRSZ - used ?pns) (?up + 1) ?n"
    using R(14) key unfolding parents_split_def Let_def by blast
  have above: "parents_split klim l ?mn (st'\<lparr>ws_cursors := mc # ws_cursors st'\<rparr>)"
    unfolding parents_split_def Let_def
  proof (intro allI impI)
    fix j key pgno
    assume j: "j < l" and k: "length key \<le> klim"
      "unat (me_psize (ws_env (st'\<lparr>ws_cursors := mc # ws_cursors st'\<rparr>))) - PAGEHDRSZ - used (nodes_at (ws_mem (st'\<lparr>ws_cursors := mc # ws_cursors st'\<rparr>)) (wc_pg ?mn ! j))
        < node_bytes (Branch_node key pgno) + 2"
    have "wc_pg ?mn ! j = wc_pg mc ! j" "wc_ki ?mn ! j = wc_ki mc ! j" using nth j by simp_all
    then show "can_split False (unat (me_psize (ws_env (st'\<lparr>ws_cursors := mc # ws_cursors st'\<rparr>)))) (nodes_at (ws_mem (st'\<lparr>ws_cursors := mc # ws_cursors st'\<rparr>)) (wc_pg ?mn ! j))
        (unat (me_psize (ws_env (st'\<lparr>ws_cursors := mc # ws_cursors st'\<rparr>))) - PAGEHDRSZ
          - used (nodes_at (ws_mem (st'\<lparr>ws_cursors := mc # ws_cursors st'\<rparr>)) (wc_pg ?mn ! j))) (wc_ki ?mn ! j + 1) (Branch_node key pgno)"
      using R(14) j k same(2) [of j] sizes(1) unfolding parents_split_def Let_def by simp
  qed
  have stacks: "stacks_of (ws_depth st + 1) ?mn" using R(19) by (simp add: stacks_of_def mn)
  have "on_path (ws_mem st') ?addr (ws_root st') l ?mn"
    using path [OF R(18)] nth unfolding on_path_def by auto
  then have own: "cursor_ready l ?addr (st'\<lparr>ws_cursors := mc # ws_cursors st'\<rparr>) ?mn"
    using stacks R(7) sizes(5) by (simp add: cursor_ready_def mn)
  have others: "cursor_ready l ?addr (st'\<lparr>ws_cursors := mc # ws_cursors st'\<rparr>) m" if "m \<in> set (mc # ws_cursors st)" for m
  proof -
    have "cursor_ready (Suc l) addr st m" using that R(5,10) by auto
    then show ?thesis using path sizes(5) by (auto simp: cursor_ready_def)
  qed
  show ?thesis
    unfolding split_ready_def Let_def
    using tree_ok_sub [OF B(1) lessI] tree_pages_sub [of l "Suc l" "ws_mem st'" ?addr "ws_root st'"] B(4) blocks own others nth [of l] R(4,7,8,9,15,16,17)
      new can above parent(2) same [of l] sizes
    by (auto simp: place_def mn)
qed

section \<open>The tree with the separator\<close>

lemma split_doneD:
  assumes "split_done pmalloc fd klim leaf lv mp newindx nn addr mc st d addr' rp number s mc' st'"
  defines "items \<equiv> inserted newindx nn (nodes_at (ws_mem st) mp)" and "blocks \<equiv> pool pmalloc (ws_env st) (ws_txn st)"
  shows "d \<le> 1" "ws_depth st' = ws_depth st + d" "me_psize (ws_env st') = me_psize (ws_env st)" "me_nodemax (ws_env st') = me_nodemax (ws_env st)"
    "taken fd (ws_env st) (ws_txn st) z \<Longrightarrow> taken fd (ws_env st') (ws_txn st') z \<and> addr' z = addr z"
    "addr' number = rp" "rp \<in> blocks"
    "tree st addr lv = A @ (k, x) # B \<Longrightarrow> addr x = mp \<Longrightarrow>
       split_at fd klim leaf (lv + d) mp rp s items (A @ (k, x) # (nd_key (items ! s), number) # B) addr' st'"
    "set (tree_pages (ws_mem st') addr' (ws_root st') (lv + d)) \<subseteq> set (tree_pages (ws_mem st) addr (ws_root st) lv) \<union> blocks"
    "q \<notin> blocks \<Longrightarrow> (\<And>l. l \<le> lv \<Longrightarrow> q \<noteq> wc_pg mc ! l) \<Longrightarrow> ws_mem st' q = ws_mem st q"
    "own_kept lv d (own_place mp rp newindx s) addr' st' mc mc'"
    "list_all2 (cursor_kept (ws_depth st) lv d mp rp newindx s addr' st') (ws_cursors st) (ws_cursors st')"
  using assms(1) unfolding split_done_def Let_def items_def blocks_def by blast+

lemma nested_result:
  assumes ok: "tree_ok fd klim leaf (Suc l) addr st" and inuse: "set (tree_pages (ws_mem st) addr (ws_root st) (Suc l)) \<subseteq> inuse"
    and free: "pool pmalloc (ws_env st) (ws_txn st) \<inter> inuse = {}"
    and mc: "on_path (ws_mem st) addr (ws_root st) (Suc l) mc" and mn0: "\<forall>j\<le>l. wc_pg mn0 ! j = wc_pg mc ! j"
    and sd: "split_done pmalloc fd klim False l (wc_pg mc ! l) (wc_ki mc ! l + 1) (Branch_node key number) addr mn0 st d addr' rpp numberp sp mn1 st'"
    and rp: "addr number = rp" "page_held fd leaf klim addr st number" "rp \<notin> set (tree_pages (ws_mem st) addr (ws_root st) (Suc l))" "rp \<in> inuse"
    and lev: "tree st addr (Suc l) = A @ (k, x) # B" "addr x = wc_pg mc ! Suc l"
  shows "q \<in> inuse \<Longrightarrow> (\<And>j. j \<le> l \<Longrightarrow> q \<noteq> wc_pg mc ! j) \<Longrightarrow> ws_mem st' q = ws_mem st q"
    and "tree st' addr' (Suc (l + d)) = A @ (k, x) # (key, number) # B" and "tree_ok fd klim leaf (Suc (l + d)) addr' st'"
    and "set (tree_pages (ws_mem st') addr' (ws_root st') (Suc (l + d))) \<subseteq>
      insert rp (set (tree_pages (ws_mem st) addr (ws_root st) (Suc l)) \<union> pool pmalloc (ws_env st) (ws_txn st))"
    and "\<And>m m'. on_path (ws_mem st) addr (ws_root st) (Suc l) m \<Longrightarrow> on_path (ws_mem st') addr' (ws_root st') (l + d) m' \<Longrightarrow>
      place (l + d) m' = (if wc_pg m ! l = wc_pg mc ! l then moved_to (wc_pg mc ! l) rpp (wc_ki mc ! l + 1) sp (wc_ki m ! l) else place l m) \<Longrightarrow>
      wc_pg m' ! Suc (l + d) = wc_pg m ! Suc l \<Longrightarrow> on_path (ws_mem st') addr' (ws_root st') (Suc (l + d)) m'"
    and "split_at fd klim False (l + d) (wc_pg mc ! l) rpp sp (inserted (wc_ki mc ! l + 1) (Branch_node key number) (nodes_at (ws_mem st) (wc_pg mc ! l)))
      (tree st' addr' (l + d)) addr' st'"
proof -
  let ?lv = "Suc l" and ?parent = "wc_pg mc ! l" and ?up = "wc_ki mc ! l" and ?n = "Branch_node key number"
  let ?pns = "nodes_at (ws_mem st) ?parent" and ?pool = "pool pmalloc (ws_env st) (ws_txn st)"
  let ?items = "inserted (?up + 1) ?n ?pns"
  note D = split_doneD [OF sd]
  have dist: "distinct (tree_pages (ws_mem st) addr (ws_root st) ?lv)" using tree_okD(1) [OF ok] .
  obtain A0 k0 y B0 where y: "tree st addr l = A0 @ (k0, y) # B0" "addr y = ?parent" using path_level [OF on_path_sub [OF mc, of l]] by auto
  have up: "?up < length ?pns" "addr (nd_pgno (?pns ! ?up)) = addr x" using mc lev(2) by (simp_all add: on_path_Suc)
  have at: "split_at fd klim False (l + d) ?parent rpp sp ?items (A0 @ (k0, y) # (nd_key (?items ! sp), numberp) # B0) addr' st'"
    using D(8) [OF y] .
  then have S: "tree_ok fd klim False (l + d) addr' st'" "tree st' addr' (l + d) = A0 @ (k0, y) # (nd_key (?items ! sp), numberp) # B0"
    "nodes_at (ws_mem st') ?parent = first_blank False (take sp ?items)" "nodes_at (ws_mem st') rpp = first_blank False (drop sp ?items)"
    "1 \<le> sp" "sp \<le> length ?pns"
    by (simp_all add: split_at_def)
  show "split_at fd klim False (l + d) ?parent rpp sp ?items (tree st' addr' (l + d)) addr' st'" using at S(2) by simp
  show other: "ws_mem st' q = ws_mem st q" if "q \<in> inuse" "\<And>j. j \<le> l \<Longrightarrow> q \<noteq> wc_pg mc ! j" for q
    using D(10) [of q] that mn0 free by auto
  have path: "wc_pg mc ! j \<noteq> addr (snd z)" if "j < i" "i \<le> ?lv" "z \<in> set (tree st addr i)" for i j z
  proof -
    obtain C k' u E where u: "tree st addr j = C @ (k', u) # E" "addr u = wc_pg mc ! j" using path_level [OF on_path_sub [OF mc, of j]] \<open>j < i\<close> \<open>i \<le> ?lv\<close> by auto
    show ?thesis using level_apart [OF dist that(1,2), of "(k', u)" z] u that(3) by simp
  qed
  have in_use: "addr (snd z) \<in> inuse" if "i \<le> ?lv" "z \<in> set (tree st addr i)" for i z using level_page [OF that] inuse by blast
  have beside: "ws_mem st' (addr (snd z)) = ws_mem st (addr (snd z))" if "z \<in> set (tree st addr l)" "addr (snd z) \<noteq> ?parent" for z
  proof (rule other)
    show "addr (snd z) \<in> inuse" using in_use [of l z] that(1) by simp
    show "addr (snd z) \<noteq> wc_pg mc ! j" if "j \<le> l" for j
      using path [of j l z] \<open>z \<in> _\<close> \<open>addr (snd z) \<noteq> ?parent\<close> that by (cases "j = l") auto
  qed
  have low: "ws_mem st' (addr (snd z)) = ws_mem st (addr (snd z))" if "z \<in> set (tree st addr ?lv)" for z
  proof (rule other)
    show "addr (snd z) \<in> inuse" using in_use [of ?lv z] that by simp
    show "addr (snd z) \<noteq> wc_pg mc ! j" if "j \<le> l" for j
      using path [of j ?lv z] \<open>z \<in> _\<close> that by auto
  qed
  have addr: "addr' (snd z) = addr (snd z)" "taken fd (ws_env st') (ws_txn st') (snd z)" if "i \<le> ?lv" "z \<in> set (tree st addr i)" for i z
    using tree_okD(2) [OF ok that] D(5) by (simp_all add: page_held_def)
  have number: "addr' number = rp" "taken fd (ws_env st') (ws_txn st') number" using rp(1,2) D(5) by (simp_all add: page_held_def)
  let ?c = "children k0 ?pns"
  obtain C E where CE: "tree st addr ?lv = (C @ take ?up ?c) @ ?c ! ?up # (drop (Suc ?up) ?c @ E)"
    "C = concat (List.map (\<lambda>(k, x). children k (nodes_at (ws_mem st) (addr x))) A0)"
    "E = concat (List.map (\<lambda>(k, x). children k (nodes_at (ws_mem st) (addr x))) B0)"
    using child_position [OF y(1), of ?up] up(1) y(2) by auto
  have d: "distinct (level_pages (ws_mem st) addr (ws_root st) l)" "distinct (level_pages (ws_mem st) addr (ws_root st) ?lv)"
    by (rule level_distinct [OF dist], simp)+
  have "addr (snd (?c ! ?up)) = addr (snd (k, x))" using up children_nth [OF up(1)] by simp
  from level_position [OF CE(1) lev(1) this d(2)]
  have pos: "A = C @ take ?up ?c" "(k, x) = ?c ! ?up" "B = drop (Suc ?up) ?c @ E" by simp_all
  have apart: "addr (snd z) \<noteq> ?parent" if "z \<in> set A0 \<union> set B0" for z
    using d(1) that unfolding level_pages_def y(1) by (auto simp: image_iff y(2))
  have kids: "nodes_at (ws_mem st') (addr' (snd z)) = nodes_at (ws_mem st) (addr (snd z))" if "z \<in> set A0 \<union> set B0" for z
    using beside [of z] apart [OF that] addr(1) [of l z] that y(1) by (auto simp: nodes_at_def)
  then have same: "List.map (\<lambda>(k, x). children k (nodes_at (ws_mem st') (addr' x))) A0 = List.map (\<lambda>(k, x). children k (nodes_at (ws_mem st) (addr x))) A0"
    "List.map (\<lambda>(k, x). children k (nodes_at (ws_mem st') (addr' x))) B0 = List.map (\<lambda>(k, x). children k (nodes_at (ws_mem st) (addr x))) B0"
    by (auto simp: case_prod_beta)
  have "addr' y = ?parent" using addr(1) [of l "(k0, y)"] y by simp
  then have "tree st' addr' (Suc (l + d)) = C @ (children k0 (first_blank False (take sp ?items))
      @ children (nd_key (?items ! sp)) (first_blank False (drop sp ?items))) @ E"
    unfolding level.simps S(2) map_append list.map concat_append concat.simps prod.case same CE(2,3) D(6) S(3,4) by (simp only: append_assoc S(3))
  also have "children k0 (first_blank False (take sp ?items)) @ children (nd_key (?items ! sp)) (first_blank False (drop sp ?items))
      = take (?up + 1) ?c @ (nd_key ?n, nd_pgno ?n) # drop (?up + 1) ?c"
    by (rule children_split) (use up(1) S(5,6) in simp_all)
  also have "take (?up + 1) ?c = take ?up ?c @ [?c ! ?up]" using up(1) by (simp add: take_Suc_conv_app_nth)
  finally show lev': "tree st' addr' (Suc (l + d)) = A @ (k, x) # (key, number) # B" unfolding pos(1,3) pos(2) by simp
  have all: "set (A @ (k, x) # B) = set (tree st addr ?lv)" using lev(1) by simp
  have pages: "level_pages (ws_mem st') addr' (ws_root st') (Suc (l + d)) = List.map (\<lambda>x. addr (snd x)) A @ addr x # rp # List.map (\<lambda>x. addr (snd x)) B"
    unfolding level_pages_def lev' using addr(1) [OF order.refl] addr(1) [OF order.refl, of "(k, x)"] number(1) unfolding lev(1) by auto
  have old: "level_pages (ws_mem st) addr (ws_root st) ?lv = List.map (\<lambda>x. addr (snd x)) A @ addr x # List.map (\<lambda>x. addr (snd x)) B"
    unfolding level_pages_def lev(1) by simp
  have upper: "set (tree_pages (ws_mem st') addr' (ws_root st') (l + d)) \<subseteq> set (tree_pages (ws_mem st) addr (ws_root st) l) \<union> ?pool" by (rule D(9))
  show "set (tree_pages (ws_mem st') addr' (ws_root st') (Suc (l + d))) \<subseteq> insert rp (set (tree_pages (ws_mem st) addr (ws_root st) ?lv) \<union> ?pool)"
    using upper pages old by auto
  show "tree_ok fd klim leaf (Suc (l + d)) addr' st'"
  proof (rule tree_ok_Suc [OF S(1)])
    have parts: "set (level_pages (ws_mem st) addr (ws_root st) ?lv) \<subseteq> inuse" "rp \<notin> set (tree_pages (ws_mem st) addr (ws_root st) l)"
      "set (tree_pages (ws_mem st) addr (ws_root st) l) \<inter> set (level_pages (ws_mem st) addr (ws_root st) ?lv) = {}"
      using inuse rp(3) dist by simp_all
    then have "set (level_pages (ws_mem st) addr (ws_root st) ?lv) \<inter> set (tree_pages (ws_mem st') addr' (ws_root st') (l + d)) = {}"
      using upper free by blast
    moreover have "rp \<notin> set (tree_pages (ws_mem st') addr' (ws_root st') (l + d))" using upper rp(4) parts(2) free by blast
    ultimately show "distinct (tree_pages (ws_mem st') addr' (ws_root st') (Suc (l + d)))"
      using tree_okD(1) [OF S(1)] d(2) rp(3) unfolding tree_pages.simps pages old by auto
    show "page_held fd leaf klim addr' st' (snd z)" if "z \<in> set (tree st' addr' (Suc (l + d)))" for z
    proof (cases "z = (key, number)")
      case True
      have "ws_mem st' rp = ws_mem st rp"
        by (rule other [OF rp(4)]) (use path_tree [OF mc, of _ ?lv] rp(3) in \<open>metis le_SucI order.refl\<close>)
      then show ?thesis using True rp(1,2) number D(3,4) by (simp add: page_held_def)
    next
      case False
      then have z: "z \<in> set (tree st addr ?lv)" using that unfolding lev' lev(1) by auto
      then show ?thesis using tree_okD(2) [OF ok order.refl z] addr [OF order.refl z] low [OF z] D(3,4) by (simp add: page_held_def)
    qed
  qed
  fix m m'
  assume m: "on_path (ws_mem st) addr (ws_root st) (Suc l) m" and m': "on_path (ws_mem st') addr' (ws_root st') (l + d) m'"
    and pl: "place (l + d) m' = (if wc_pg m ! l = ?parent then moved_to ?parent rpp (?up + 1) sp (wc_ki m ! l) else place l m)"
    and deep: "wc_pg m' ! Suc (l + d) = wc_pg m ! Suc l"
  let ?ns = "nodes_at (ws_mem st) (wc_pg m ! l)" and ?i = "wc_ki m ! l"
  have i: "?i < length ?ns" "wc_pg m ! Suc l = addr (nd_pgno (?ns ! ?i))" using m by (simp_all add: on_path_Suc)
  obtain C1 k1 z E1 where z: "tree st addr l = C1 @ (k1, z) # E1" "addr z = wc_pg m ! l" using path_level [OF on_path_sub [OF m, of l]] by auto
  have "wc_ki m' ! (l + d) < length (nodes_at (ws_mem st') (wc_pg m' ! (l + d)))
      \<and> nd_pgno (nodes_at (ws_mem st') (wc_pg m' ! (l + d)) ! (wc_ki m' ! (l + d))) = nd_pgno (?ns ! ?i)"
  proof (cases "wc_pg m ! l = ?parent")
    case True
    have "rpp \<noteq> ?parent" using D(7) path_tree [OF mc, of l ?lv] inuse free by auto
    then have "case moved_to ?parent rpp (?up + 1) sp ?i of (p, k) \<Rightarrow> k < length (nodes_at (ws_mem st') p) \<and> same_entry False (?ns ! ?i) (nodes_at (ws_mem st') p ! k)"
      using moved_entry [of ?i ?pns "?up + 1" sp rpp ?parent "nodes_at (ws_mem st')" False ?n] i(1) up(1) S(3,4,6) True by simp
    then show ?thesis using pl True by (auto simp: place_def same_entry_def split: prod.splits)
  next
    case False
    then have "ws_mem st' (wc_pg m ! l) = ws_mem st (wc_pg m ! l)" using beside [of "(k1, z)"] z by simp
    then show ?thesis using pl False i(1) by (simp add: place_def nodes_at_def)
  qed
  moreover have "addr' (nd_pgno (?ns ! ?i)) = addr (nd_pgno (?ns ! ?i))"
  proof -
    have "?i < length (nodes_at (ws_mem st) (addr z))" using i(1) z(2) by simp
    from child_position [OF z(1) this] obtain C2 D2 where "tree st addr ?lv = C2 @ children k1 ?ns ! ?i # D2" unfolding z(2) by blast
    then have "children k1 ?ns ! ?i \<in> set (tree st addr ?lv)" by (simp only: in_set_conv_decomp) blast
    then show ?thesis using addr(1) [OF order.refl] children_nth [OF i(1)] by fastforce
  qed
  ultimately show "on_path (ws_mem st') addr' (ws_root st') (Suc (l + d)) m'" using m' deep i(2) by (simp add: on_path_Suc)
qed

end
