(* ===== verification/Lmdb_Split_Induction.thy ===== *)
theory Lmdb_Split_Induction
  imports Lmdb_Split_Nested
begin

text \<open>
  The rest of the split of a page whose parent has been split first, and the induction over the
  levels.
\<close>

section \<open>After the split of the parent\<close>

lemma rejoin_same:
  assumes "raw_numkeys (ws_mem st (wc_pg mc ! l)) = Some n" and "wc_ki mc ! l < n" and "wc_top mc = Suc l"
    and "stacks_of (Suc l) mc" and "stacks_of l mn"
  shows "rejoin mn mc st = Some (mc, st)"
proof -
  have "idl_at (wc_pg mn) l = Some (wc_pg mn ! l)" "idl_at (wc_ki mn) l = Some (wc_ki mn ! l)"
    "idl_at (wc_pg mc) l = Some (wc_pg mc ! l)" "idl_at (wc_ki mc) l = Some (wc_ki mc ! l)"
    using assms(4,5) by (simp_all add: stacks_of_def idl_at_eq)
  then show ?thesis using assms(1-3) by (simp add: rejoin_def Let_def)
qed

text \<open>Two steps of a cursor.\<close>

lemma follows_twice:
  assumes "follows depth l d to m m'" and "follows (depth + d) (Suc (l + d)) 0 to' m' m''"
  shows "follows depth (Suc l) d to' m m''"
proof -
  have "place (j + d) m'' = place j m" if "Suc l < j" "j \<le> depth" for j
    using assms that by (simp add: follows_def)
  then show ?thesis using assms unfolding follows_def by simp
qed

lemma split_link_nested:
  assumes "page_layout False psize (ws_mem st (wc_pg mn ! (wc_top mn - 1))) left" and "raw_page_pgno (ws_mem st rp) = Some number"
    and "left < mdb_branch_size (Some sepkey)"
    and again: "again sepkey None number 0 (mn\<lparr>wc_snum := wc_snum mn - 1, wc_top := wc_top mn - 1\<rparr>) (st\<lparr>ws_cursors := mc # ws_cursors st\<rparr>)
      = Some (rc, mn1, st1)" and cs: "ws_cursors st1 = mc1 # cs"
  shows "rc \<noteq> MDB_SUCCESS \<Longrightarrow> split_link malloc pmalloc fd again leaf mp rp copy nkeys newindx split new sepkey new_root mn mc st
      = Some (rc, mc1, fail_state (split_free copy (st1\<lparr>ws_cursors := cs\<rparr>)))"
    and "rc = MDB_SUCCESS \<Longrightarrow> rejoin mn1 mc1 (st1\<lparr>ws_cursors := cs\<rparr>) = Some (mc2, st2) \<Longrightarrow>
      split_link malloc pmalloc fd again leaf mp rp copy nkeys newindx split new sepkey new_root mn mc st
      = split_finish malloc pmalloc fd leaf mp rp copy nkeys newindx split new True new_root mn1 mc2 st2"
  unfolding split_link_left [OF assms(1-3)] split_parent_def again cs by (simp_all add: Let_def cs)

text \<open>The node that has been added, on the page it is on.\<close>

lemma new_entry:
  assumes "newindx \<le> length ns" and "s \<le> length ns" and "nodes mp = first_blank leaf (take s (inserted newindx nn ns))"
    and "nodes rp = first_blank leaf (drop s (inserted newindx nn ns))"
  shows "case own_place mp rp newindx s of (p, k) \<Rightarrow> k < length (nodes p) \<and> same_entry leaf nn (nodes p ! k)"
  using assms inserted_new [OF assms(1), of nn] by (auto simp: own_place_def same_entry_def blank_nth)

text \<open>Where the cursor of the page and that of the split of the parent are.\<close>

lemma nested_cursors:
  assumes at: "split_at fd klim False (l + d) parent rpp sp (inserted (up + 1) n pns) lev addr st" and up: "up < length pns" and ne: "rpp \<noteq> parent"
    and own: "own_kept l d (own_place parent rpp (up + 1) sp) addr st mn0 mn" and mn0: "stacks_of (Suc (l + d)) mn0"
    and mc: "place (l + d) mc = moved_to parent rpp (up + 1) sp up"
  shows "leads_to (ws_mem st) addr (ws_root st) (l + d) mn (nd_pgno n)" and "stacks_of (Suc (l + d)) mn" and "beside (ws_mem st) (l + d) mc mn"
proof -
  let ?items = "inserted (up + 1) n pns"
  have S: "nodes_at (ws_mem st) parent = first_blank False (take sp ?items)" "nodes_at (ws_mem st) rpp = first_blank False (drop sp ?items)"
    "1 \<le> sp" "sp \<le> length pns"
    using at by (simp_all add: split_at_def)
  have O: "on_path (ws_mem st) addr (ws_root st) (l + d) mn" "place (l + d) mn = own_place parent rpp (up + 1) sp"
    "length (wc_pg mn) = length (wc_pg mn0)" "length (wc_ki mn) = length (wc_ki mn0)"
    using own by (simp_all add: own_kept_def follows_def)
  show stacks: "stacks_of (Suc (l + d)) mn" using mn0 O(3,4) by (simp add: stacks_of_def)
  have "case place (l + d) mn of (p, k) \<Rightarrow> k < length (nodes_at (ws_mem st) p) \<and> same_entry False n (nodes_at (ws_mem st) p ! k)"
    unfolding O(2) using new_entry [of "up + 1" pns sp "nodes_at (ws_mem st)" parent False n rpp] up S(1,2,4) by simp
  then show "leads_to (ws_mem st) addr (ws_root st) (l + d) mn (nd_pgno n)"
    using O(1) stacks by (simp add: leads_to_def place_def same_entry_def stacks_of_def)
  have "length (nodes_at (ws_mem st) parent) = sp" using S by simp
  then show "beside (ws_mem st) (l + d) mc mn"
    using O(2) mc ne unfolding beside_def place_def own_place_def moved_to_def slot_def by (auto split: if_splits)
qed

lemma cursor_keptD:
  assumes "cursor_kept depth l d parent rpp i s addr st m0 m" and "stacks_of (depth + 1) m0" and "d \<le> 1" and "Suc l \<le> depth"
  shows "wc_live m = wc_live m0" and "stacks_of (depth + d) m" and "wc_live m \<Longrightarrow> wc_top m = wc_top m0 + d" and "\<not> wc_live m \<Longrightarrow> m = m0"
    and "wc_live m \<Longrightarrow> place (Suc (l + d)) m = place (Suc l) m0"
    and "wc_live m \<Longrightarrow> on_path (ws_mem st) addr (ws_root st) (l + d) m"
    and "wc_live m \<Longrightarrow> follows depth l d (if wc_pg m0 ! l = parent then moved_to parent rpp i s (wc_ki m0 ! l) else place l m0) m0 m"
proof -
  have live: "wc_live m0 \<Longrightarrow> on_path (ws_mem st) addr (ws_root st) (l + d) m
      \<and> follows depth l d (if wc_pg m0 ! l = parent then moved_to parent rpp i s (wc_ki m0 ! l) else place l m0) m0 m"
    and dead: "\<not> wc_live m0 \<Longrightarrow> m = m0"
    using assms(1) by (simp_all add: cursor_kept_def split: if_splits)
  show same: "wc_live m = wc_live m0" using live dead by (cases "wc_live m0") (simp_all add: follows_def)
  show "stacks_of (depth + d) m"
    using live dead assms(2,3) by (cases "wc_live m0") (auto simp: follows_def stacks_of_def)
  show "wc_live m \<Longrightarrow> wc_top m = wc_top m0 + d" using live same by (simp add: follows_def)
  show "\<not> wc_live m \<Longrightarrow> m = m0" using dead same by simp
  show "place (Suc (l + d)) m = place (Suc l) m0" if "wc_live m"
  proof -
    have "\<forall>j. l < j \<and> j \<le> depth \<longrightarrow> place (j + d) m = place j m0" using live same that by (simp add: follows_def)
    then show ?thesis using assms(4) by (metis add_Suc lessI)
  qed
  show "wc_live m \<Longrightarrow> on_path (ws_mem st) addr (ws_root st) (l + d) m" using live same by simp
  show "wc_live m \<Longrightarrow> follows depth l d (if wc_pg m0 ! l = parent then moved_to parent rpp i s (wc_ki m0 ! l) else place l m0) m0 m" using live same by simp
qed

lemma nested_done:
  assumes ready: "split_ready pmalloc fd klim leaf (Suc l) mp newindx new nn addr inuse mc st"
    and two: "two_taken pmalloc fd rp copy number inuse st st'"
    and begun: "begun pmalloc fd klim leaf (Suc l) mp rp copy number newindx nn ns s sepkey (addr(number := rp)) (insert copy (insert rp inuse)) st'"
    and ns: "ns = nodes_at (ws_mem st) mp"
    and mn: "mn = mc\<lparr>wc_pg := (wc_pg mc)[Suc l := rp], wc_ki := (wc_ki mc)[l := wc_ki mc ! l + 1]\<rparr>"
    and cs: "ws_cursors st1 = mc1 # cs"
    and sd: "split_done (\<lambda>k. pmalloc (k + 4)) fd klim False l (wc_pg mc ! l) (wc_ki mc ! l + 1)
      (Branch_node (key_bytes (Some sepkey)) number) (addr(number := rp)) (mn\<lparr>wc_snum := wc_snum mn - 1, wc_top := wc_top mn - 1\<rparr>)
      (st'\<lparr>ws_cursors := mc # ws_cursors st'\<rparr>) d addr' rpp numberp sp mn1 st1"
  shows "rejoin mn1 mc1 (st1\<lparr>ws_cursors := cs\<rparr>) = Some (mc1, st1\<lparr>ws_cursors := cs\<rparr>)
    \<and> (\<exists>mc' st''. split_finish malloc pmalloc2 fd leaf mp rp (Some copy) (length ns) newindx s new True 0 mn1 mc1 (st1\<lparr>ws_cursors := cs\<rparr>)
        = Some (MDB_SUCCESS, mc', st'') \<and> ws_env st'' = mdb_page_free copy (ws_env st1) \<and> ws_txn st'' = ws_txn st1
      \<and> split_done pmalloc fd klim leaf (Suc l) mp newindx nn addr mc st d addr' rp number s mc' st'')"
proof -
  let ?lv = "Suc l" and ?addr = "addr(number := rp)" and ?psize = "unat (me_psize (ws_env st))" and ?n = "Branch_node (key_bytes (Some sepkey)) number"
  let ?parent = "wc_pg mc ! l" and ?up = "wc_ki mc ! l" and ?inuse = "insert copy (insert rp inuse)" and ?pool = "pool pmalloc (ws_env st) (ws_txn st)"
  let ?st = "st'\<lparr>ws_cursors := mc # ws_cursors st'\<rparr>" and ?mn = "mn\<lparr>wc_snum := wc_snum mn - 1, wc_top := wc_top mn - 1\<rparr>"
  let ?pool' = "pool (\<lambda>k. pmalloc (k + 4)) (ws_env st') (ws_txn st')" and ?items = "inserted newindx nn ns" and ?fin = "st1\<lparr>ws_cursors := cs\<rparr>"
  note R = split_readyD [OF ready] and T = two_taken_tree [OF ready two] and D = split_doneD [OF sd]
  have sizes: "me_psize (ws_env st') = me_psize (ws_env st)" "me_nodemax (ws_env st') = me_nodemax (ws_env st)" "ws_cursors st' = ws_cursors st"
    "ws_root st' = ws_root st" "ws_depth st' = ws_depth st" "rp \<notin> inuse" "copy \<notin> inuse" "{rp, copy} \<subseteq> ?pool"
    "pool (\<lambda>k. pmalloc (k + 3)) (ws_env st') (ws_txn st') \<subseteq> ?pool"
    and other: "\<And>q. q \<notin> {rp, copy} \<Longrightarrow> ws_mem st' q = ws_mem st q"
    using two by (simp_all add: two_taken_def state_kept_def)
  have B: "tree_ok fd klim leaf ?lv ?addr st'" "page_held fd leaf klim ?addr st' number"
    "set (tree_pages (ws_mem st') ?addr (ws_root st') ?lv) \<subseteq> ?inuse" "blocks_ok (\<lambda>k. pmalloc (k + 3)) ?inuse st'"
    "rp \<notin> set (tree_pages (ws_mem st') ?addr (ws_root st') ?lv)" "copy \<notin> set (tree_pages (ws_mem st') ?addr (ws_root st') ?lv)"
    "pages_ready leaf mp rp copy newindx ?psize ns st'" "halves_fit leaf ?psize ?items s" "key_bytes (Some sepkey) = nd_key (?items ! s)"
    using begun sizes(1) by (simp_all add: begun_def Let_def)
  have sub: "?pool' \<subseteq> pool (\<lambda>k. pmalloc (k + 3)) (ws_env st') (ws_txn st')"
    using pool_shift [of "\<lambda>k. pmalloc (k + 3)" 1 "ws_env st'" "ws_txn st'"] by (simp add: numeral_eq_Suc)
  have free: "?pool' \<inter> ?inuse = {}" using B(4) sub by (auto simp: blocks_ok_def)
  have len: "?lv < length (wc_pg mc)" "?lv < length (wc_ki mc)" using R(20) by (simp_all add: stacks_of_def)
  have nth: "wc_pg ?mn ! j = (if j = ?lv then rp else wc_pg mc ! j)" for j using len unfolding mn by (auto simp: nth_list_update)
  have at: "wc_pg mc ! ?lv = mp" "wc_ki mc ! ?lv = newindx" using R(6) by (simp_all add: place_def)
  have path: "on_path (ws_mem st') ?addr (ws_root st') ?lv m" if "on_path (ws_mem st) addr (ws_root st) ?lv m" for m using T(3) [OF order.refl that] .
  obtain A k x B where lev: "tree st addr ?lv = A @ (k, x) # B" "addr x = wc_pg mc ! ?lv" using path_level [OF R(18)] by blast
  have tx: "taken fd (ws_env st) (ws_txn st) x" using tree_okD(2) [OF R(1) order.refl, of "(k, x)"] lev(1) by (simp add: page_held_def)
  have kept: "taken fd (ws_env st1) (ws_txn st1) z \<and> addr' z = addr z" if "taken fd (ws_env st) (ws_txn st) z" for z
    using T(5) [OF order.refl that] D(5) [of z] by simp
  have tn: "addr' number = rp" using B(2) D(5) [of number] by (simp add: page_held_def)
  have lev': "tree ?st ?addr ?lv = A @ (k, x) # B" "?addr x = wc_pg mc ! ?lv" using T(1) [of ?lv] T(5) [OF order.refl tx] lev by simp_all
  have H: "tree_ok fd klim leaf ?lv ?addr ?st" "set (tree_pages (ws_mem ?st) ?addr (ws_root ?st) ?lv) \<subseteq> ?inuse"
    "pool (\<lambda>k. pmalloc (k + 4)) (ws_env ?st) (ws_txn ?st) \<inter> ?inuse = {}" "on_path (ws_mem ?st) ?addr (ws_root ?st) ?lv mc"
    "\<forall>j\<le>l. wc_pg ?mn ! j = wc_pg mc ! j" "?addr number = rp" "page_held fd leaf klim ?addr ?st number"
    "rp \<notin> set (tree_pages (ws_mem ?st) ?addr (ws_root ?st) ?lv)" "rp \<in> ?inuse"
    using B(1-3,5) free path [OF R(18)] nth by (simp_all add: page_held_def)
  have E: "ws_mem ?st = ws_mem st'" "ws_root ?st = ws_root st'" "ws_env ?st = ws_env st'" "ws_txn ?st = ws_txn st'" by simp_all
  note N = nested_result [OF H(1-5) sd H(6-9) lev', unfolded E]
  have d: "d \<le> 1" "ws_depth st1 = ws_depth st + d" "me_psize (ws_env st1) = me_psize (ws_env st)" "me_nodemax (ws_env st1) = me_nodemax (ws_env st)"
    using D(1-4) sizes by simp_all
  have parent: "?parent \<in> inuse" "?up < length (nodes_at (ws_mem st') ?parent)"
    using path_tree [OF R(18), of l ?lv] R(2) H(4) by (auto simp: on_path_Suc)
  have depth: "?lv \<le> ws_depth st" "Suc (l + d) \<le> ws_depth st + d" using R(9) by simp_all
  have below: "q \<noteq> wc_pg mc ! j" if "q \<in> {mp, rp, copy}" "j \<le> l" for q j
  proof -
    note q = that
    have t: "wc_pg mc ! j \<in> set (tree_pages (ws_mem st') ?addr (ws_root st') ?lv)" using path_tree [OF path [OF R(18)], of j ?lv] q(2) by simp
    obtain C k' u E where u: "tree st addr j = C @ (k', u) # E" "addr u = wc_pg mc ! j" using path_level [OF on_path_sub [OF R(18), of j]] q(2) by auto
    have "wc_pg mc ! j \<noteq> mp" using level_apart [OF tree_okD(1) [OF R(1)], of j ?lv "(k', u)" "(k, x)"] u lev at q(2) by simp
    then show ?thesis using t B(5,6) q(1) by auto
  qed
  have mem: "ws_mem st1 q = ws_mem st' q" if "q \<in> {mp, rp, copy}" for q
  proof (rule N(1))
    have "mp \<in> inuse" using path_tree [OF R(18) order.refl order.refl] R(2) at by auto
    then show "q \<in> ?inuse" using that by auto
  qed (rule below [OF that])
  have ready': "pages_ready leaf mp rp copy newindx ?psize ns ?fin" using B(7) mem d(3) sizes(1) by (simp add: pages_ready_def)
  have pairs: "list_all2 (cursor_kept (ws_depth st) l d ?parent rpp (?up + 1) sp addr' st1) (mc # ws_cursors st) (mc1 # cs)"
    using D(12) cs sizes(3,5) by simp
  have stacks: "stacks_of (Suc (l + d)) m" if "stacks_of (ws_depth st + d) m" for m using that depth by (simp add: stacks_of_def)
  have own: "cursor_kept (ws_depth st) l d ?parent rpp (?up + 1) sp addr' st1 mc mc1" using pairs by simp
  note C = cursor_keptD [OF own R(19) d(1) depth(1)]
  have live: "wc_live mc1" using C(1) R(4) by simp
  have there: "place (Suc (l + d)) mc1 = (mp, newindx)" "wc_top mc1 = Suc (l + d)" "place (l + d) mc1 = moved_to ?parent rpp (?up + 1) sp ?up"
    using C(3,5,7) [OF live] R(6,7) by (simp_all add: follows_def)
  have path1: "on_path (ws_mem st1) addr' (ws_root st1) (Suc (l + d)) mc1"
    by (rule N(5) [OF path [OF R(18)] C(6) [OF live]]) (use there at in \<open>simp_all add: place_def\<close>)
  have "rpp \<noteq> ?parent" "stacks_of (Suc (l + d)) ?mn" using D(7) parent(1) free R(19) depth d(1) by (auto simp: stacks_of_def mn)
  note M = nested_cursors [OF N(6) parent(2) this(1) _ this(2) there(3)]
  have M: "leads_to (ws_mem st1) addr' (ws_root st1) (l + d) mn1 number" "stacks_of (Suc (l + d)) mn1" "beside (ws_mem st1) (l + d) mc1 mn1"
    using M [OF D(11)] by simp_all
  obtain y where y: "addr' y = wc_pg mc1 ! (l + d)" "page_held fd False klim addr' st1 y"
    by (rule path_good [OF N(3) on_path_sub [OF path1, of "l + d"]]) auto
  then have "raw_numkeys (ws_mem ?fin (wc_pg mc1 ! (l + d))) = Some (length (nodes_at (ws_mem st1) (wc_pg mc1 ! (l + d))))"
    by (auto simp: page_held_def elim: good_pageE)
  moreover have "wc_ki mc1 ! (l + d) < length (nodes_at (ws_mem st1) (wc_pg mc1 ! (l + d)))" using path1 by (simp add: on_path_Suc)
  ultimately have re: "rejoin mn1 mc1 ?fin = Some (mc1, ?fin)"
    by (rule rejoin_same) (use there(2) C(2) M(2) stacks stacks_less in simp_all)
  have "\<exists>m0\<in>set (ws_cursors st). cursor_kept (ws_depth st) l d ?parent rpp (?up + 1) sp addr' st1 m0 m" if "m \<in> set cs" for m
  proof -
    have "list_all2 (cursor_kept (ws_depth st) l d ?parent rpp (?up + 1) sp addr' st1) (ws_cursors st) cs" using pairs by simp
    then show ?thesis using that by (metis list_all2_conv_all_nth in_set_conv_nth)
  qed
  then obtain before where before: "\<And>m. m \<in> set cs \<Longrightarrow> before m \<in> set (ws_cursors st)
      \<and> cursor_kept (ws_depth st) l d ?parent rpp (?up + 1) sp addr' st1 (before m) m"
    by metis
  have ready0: "cursor_ready ?lv addr st m0" "stacks_of (ws_depth st + 1) m0" if "m0 \<in> set (ws_cursors st)" for m0
    using R(10) [OF that] by (simp_all add: cursor_ready_def)
  have each: "stacks_of (ws_depth st + d) m" "wc_live m \<Longrightarrow> on_path (ws_mem st1) addr' (ws_root st1) (Suc (l + d)) m" "wc_live m \<Longrightarrow> Suc (l + d) \<le> wc_top m"
    if "m0 \<in> set (ws_cursors st)" "cursor_kept (ws_depth st) l d ?parent rpp (?up + 1) sp addr' st1 m0 m" for m0 m
  proof -
    note K = cursor_keptD [OF that(2) ready0(2) [OF that(1)] d(1) depth(1)]
    show "stacks_of (ws_depth st + d) m" by (rule K(2))
    show "wc_live m \<Longrightarrow> Suc (l + d) \<le> wc_top m" using K(1,3) ready0(1) [OF that(1)] by (simp add: cursor_ready_def)
    assume m: "wc_live m"
    have "on_path (ws_mem st') ?addr (ws_root st') ?lv m0" using path ready0(1) [OF that(1)] K(1) m by (simp add: cursor_ready_def)
    then show "on_path (ws_mem st1) addr' (ws_root st1) (Suc (l + d)) m"
      by (rule N(5) [OF _ K(6) [OF m]]) (use K(5,7) [OF m] in \<open>simp_all add: place_def follows_def\<close>)
  qed
  have cursors: "\<forall>m\<in>set (ws_cursors ?fin). wc_live m \<longrightarrow> on_path (ws_mem ?fin) addr' (ws_root ?fin) (Suc (l + d)) m \<and> stacks_of (ws_depth st + d) m"
    using each before by (simp del: stacks_of_def) blast
  have act: "\<forall>mc2. \<forall>m\<in>set (ws_cursors ?fin). wc_top mc2 = Suc (l + d) \<longrightarrow>
      (wc_pg mn1 ! (l + d) = wc_pg mc1 ! (l + d) \<longrightarrow> wc_pg mc2 ! (l + d) = wc_pg mc1 ! (l + d) \<and> wc_ki mc2 ! (l + d) \<in> {wc_ki mc1 ! (l + d), wc_ki mc1 ! (l + d) + 1}) \<longrightarrow>
      cursor_split mp rp s newindx False True 0 mc2 mn1 m = Some (follow_split (Suc (l + d)) mp rp newindx s mn1 m)"
  proof (intro allI ballI impI)
    fix mc2 m :: wcursor
    assume m: "m \<in> set (ws_cursors ?fin)" "wc_top mc2 = Suc (l + d)"
    have b: "before m \<in> set (ws_cursors st)" "cursor_kept (ws_depth st) l d ?parent rpp (?up + 1) sp addr' st1 (before m) m"
      using before m(1) by simp_all
    show "cursor_split mp rp s newindx False True 0 mc2 mn1 m = Some (follow_split (Suc (l + d)) mp rp newindx s mn1 m)"
      by (rule cursor_split_moved) (use each(1,3) [OF b] stacks m(2) in \<open>auto simp: stacks_of_def\<close>)
  qed
  have N1: "describes leaf (me_nodemax (ws_env ?fin)) new nn" "\<not> F_ISSET (snd (snd (snd new))) MDB_SPLIT_REPLACE"
    "node_bytes nn \<le> me_nodemax (ws_env ?fin)" "length (nd_key nn) \<le> klim" "newindx \<le> length ns"
    using R(11,12) d(4) ns by (simp_all add: new_ready_def)
  have copy: "copy \<notin> set (tree_pages (ws_mem ?fin) addr' (ws_root ?fin) (Suc (l + d)))"
  proof -
    have "copy \<noteq> rp" "copy \<notin> ?pool'" using B(7) free by (auto simp: pages_ready_def)
    then have "copy \<notin> set (tree_pages (ws_mem st1) addr' (ws_root st1) (Suc (l + d)))" using N(4) B(6) by blast
    then show ?thesis by simp
  qed
  have E1: "tree_ok fd klim leaf (Suc (l + d)) addr' ?fin" "tree ?fin addr' (Suc (l + d)) = A @ (k, x) # (key_bytes (Some sepkey), number) # B"
    "addr' x = mp" "on_path (ws_mem ?fin) addr' (ws_root ?fin) (Suc (l + d)) mc1" "stacks_of (Suc (l + d)) mc1"
    "leads_to (ws_mem ?fin) addr' (ws_root ?fin) (l + d) mn1 number" "beside (ws_mem ?fin) (l + d) mc1 mn1"
    using N(2,3) kept [OF tx] lev(2) at(1) path1 stacks [OF C(2)] M by simp_all
  obtain mc' st'' where f: "split_finish malloc pmalloc2 fd leaf mp rp (Some copy) (length ns) newindx s new True 0 mn1 mc1 ?fin = Some (MDB_SUCCESS, mc', st'')"
    "ws_env st'' = mdb_page_free copy (ws_env st1)" "ws_txn st'' = ws_txn st1" "ws_root st'' = ws_root st1" "ws_depth st'' = ws_depth st1"
    "\<forall>q. q \<notin> {mp, rp, copy} \<longrightarrow> ws_mem st'' q = ws_mem st1 q"
    "tree_ok fd klim leaf (Suc (l + d)) addr' st''" "tree st'' addr' (Suc (l + d)) = A @ (k, x) # (key_bytes (Some sepkey), number) # B"
    "tree_pages (ws_mem st'') addr' (ws_root st'') (Suc (l + d)) = tree_pages (ws_mem st1) addr' (ws_root st1) (Suc (l + d))"
    "nodes_at (ws_mem st'') mp = first_blank leaf (take s ?items)" "nodes_at (ws_mem st'') rp = first_blank leaf (drop s ?items)"
    "on_path (ws_mem st'') addr' (ws_root st'') (Suc (l + d)) mc'" "follows (Suc (l + d)) (Suc (l + d)) 0 (own_place mp rp newindx s) mc1 mc'"
    "ws_cursors st'' = List.map (\<lambda>m. follow_split (Suc (l + d)) mp rp newindx s mn1 m) cs"
    "\<forall>m\<in>set cs. wc_live m \<longrightarrow> on_path (ws_mem st'') addr' (ws_root st'') (Suc (l + d)) (follow_split (Suc (l + d)) mp rp newindx s mn1 m)
       \<and> follows (ws_depth st + d) (Suc (l + d)) 0
           (if wc_pg m ! Suc (l + d) = mp then moved_to mp rp newindx s (wc_ki m ! Suc (l + d)) else place (Suc (l + d)) m)
           m (follow_split (Suc (l + d)) mp rp newindx s mn1 m)"
    using split_finish_tree [OF E1(1-3) tn ready' copy N1 B(8) E1(4) there(1,2) E1(5,6) M(2) E1(7) cursors depth(2) act, of malloc pmalloc2]
      N(2) by auto
  have "split_done pmalloc fd klim leaf ?lv mp newindx nn addr mc st d addr' rp number s mc' st''"
    unfolding split_done_def Let_def ns [symmetric]
  proof (intro conjI)
    have taken: "taken fd (ws_env st'') (ws_txn st'') z = taken fd (ws_env st1) (ws_txn st1) z" for z
      using f(2,3) by (simp add: taken_def mdb_page_free_def)
    show "d \<le> 1" "ws_depth st'' = ws_depth st + d" "me_psize (ws_env st'') = me_psize (ws_env st)" "me_nodemax (ws_env st'') = me_nodemax (ws_env st)"
      "addr' number = rp" "rp \<in> ?pool"
      using d f(2,5) tn sizes(8) by (simp_all add: mdb_page_free_def)
    show "\<forall>z. taken fd (ws_env st) (ws_txn st) z \<longrightarrow> taken fd (ws_env st'') (ws_txn st'') z \<and> addr' z = addr z" using kept taken by simp
    have unique: "A' = A \<and> k' = k \<and> x' = x \<and> B' = B" if "tree st addr ?lv = A' @ (k', x') # B'" "addr x' = mp" for A' k' x' B'
      using level_position [OF lev(1) that(1) _ level_distinct [OF tree_okD(1) [OF R(1)] order.refl]] that(2) lev(2) at by simp
    have "1 \<le> s" "s < length ?items" using B(8) by (simp_all add: halves_fit_def)
    then have "split_at fd klim leaf (?lv + d) mp rp s ?items (A @ (k, x) # (nd_key (?items ! s), number) # B) addr' st''"
      using f(7,8,10,11) B(9) by (simp add: split_at_def)
    then show "\<forall>A k x B. tree st addr ?lv = A @ (k, x) # B \<longrightarrow> addr x = mp \<longrightarrow>
        split_at fd klim leaf (?lv + d) mp rp s ?items (A @ (k, x) # (nd_key (?items ! s), number) # B) addr' st''"
      using unique by blast
    show "set (tree_pages (ws_mem st'') addr' (ws_root st'') (?lv + d)) \<subseteq> set (tree_pages (ws_mem st) addr (ws_root st) ?lv) \<union> ?pool"
    proof -
      have "insert rp (set (tree_pages (ws_mem st') ?addr (ws_root st') ?lv) \<union> ?pool') \<subseteq> set (tree_pages (ws_mem st) addr (ws_root st) ?lv) \<union> ?pool"
        using sub sizes(8,9) unfolding T(2) [of ?lv, OF order.refl] by blast
      from subset_trans [OF N(4) this] show ?thesis by (simp only: add_Suc f(9))
    qed
    show "\<forall>q. q \<notin> ?pool \<longrightarrow> (\<forall>l\<le>?lv. q \<noteq> wc_pg mc ! l) \<longrightarrow> ws_mem st'' q = ws_mem st q"
    proof (intro allI impI)
      fix q
      assume q: "q \<notin> ?pool" "\<forall>j\<le>?lv. q \<noteq> wc_pg mc ! j"
      have "q \<noteq> mp" using q(2) at(1) by blast
      moreover have "q \<noteq> rp" "q \<noteq> copy" "q \<notin> ?pool'" using q(1) sizes(8,9) sub by blast+
      moreover have "ws_mem st1 q = ws_mem st' q" using D(10) [of q] nth q(2) \<open>q \<notin> ?pool'\<close> by simp
      ultimately show "ws_mem st'' q = ws_mem st q" using f(6) other by simp
    qed
    have "follows ?lv l d (moved_to ?parent rpp (?up + 1) sp ?up) mc mc1"
      using C(7) [OF live] depth(1) by (simp add: follows_def)
    from follows_twice [OF this, of "own_place mp rp newindx s" mc']
    show "own_kept ?lv d (own_place mp rp newindx s) addr' st'' mc mc'"
      using f(12,13) by (simp add: own_kept_def)
    have kept1: "cursor_kept (ws_depth st) ?lv d mp rp newindx s addr' st'' m0 (follow_split (Suc (l + d)) mp rp newindx s mn1 m)"
      if m: "m0 \<in> set (ws_cursors st)" "m \<in> set cs" "cursor_kept (ws_depth st) l d ?parent rpp (?up + 1) sp addr' st1 m0 m" for m0 m
    proof -
      note K = cursor_keptD [OF m(3) ready0(2) [OF m(1)] d(1) depth(1)]
      show ?thesis
      proof (cases "wc_live m")
        case False
        then show ?thesis using K(4) [OF False] by (simp add: cursor_kept_def follow_split_def)
      next
        case True
        have p: "wc_pg m ! Suc (l + d) = wc_pg m0 ! ?lv" "wc_ki m ! Suc (l + d) = wc_ki m0 ! ?lv" "place (Suc (l + d)) m = place ?lv m0"
          using K(5) [OF True] by (simp_all add: place_def)
        have "follows (ws_depth st + d) (Suc (l + d)) 0
            (if wc_pg m ! Suc (l + d) = mp then moved_to mp rp newindx s (wc_ki m ! Suc (l + d)) else place (Suc (l + d)) m)
            m (follow_split (Suc (l + d)) mp rp newindx s mn1 m)"
          using f(15) m(2) True by blast
        from follows_twice [OF K(7) [OF True] this [unfolded p]] show ?thesis
          using f(15) m(2) True K(1) by (simp add: cursor_kept_def)
      qed
    qed
    have "list_all2 (\<lambda>m0 m. cursor_kept (ws_depth st) ?lv d mp rp newindx s addr' st'' m0 (follow_split (Suc (l + d)) mp rp newindx s mn1 m)) (ws_cursors st) cs"
      using pairs by (auto intro!: list.rel_mono_strong [OF _ kept1])
    then show "list_all2 (cursor_kept (ws_depth st) ?lv d mp rp newindx s addr' st'') (ws_cursors st) (ws_cursors st'')"
      unfolding f(14) list_all2_map2 .
  qed
  then show ?thesis using re f(1-3) by blast
qed

lemma split_nested:
  assumes ready: "split_ready pmalloc fd klim leaf (Suc l) mp newindx new nn addr inuse mc st"
    and two: "two_taken pmalloc fd rp copy number inuse st st'"
    and begun: "begun pmalloc fd klim leaf (Suc l) mp rp copy number newindx nn ns s sepkey (addr(number := rp)) (insert copy (insert rp inuse)) st'"
    and ns: "ns = nodes_at (ws_mem st) mp"
    and alloc: "mdb_page_alloc malloc (pmalloc 0) fd 1 (ws_env st) (ws_txn st) = Some (MDB_SUCCESS, Some (rp, number), env1, ws_txn st')"
      "ws_env st' = env1\<lparr>me_dpages := ps\<rparr>"
    and mn: "mn = mc\<lparr>wc_pg := (wc_pg mc)[Suc l := rp], wc_ki := (wc_ki mc)[l := wc_ki mc ! l + 1]\<rparr>"
    and full: "unat (me_psize (ws_env st)) - PAGEHDRSZ - used (nodes_at (ws_mem st) (wc_pg mc ! l)) < mdb_branch_size (Some sepkey)"
    and again: "again sepkey None number 0 (mn\<lparr>wc_snum := wc_snum mn - 1, wc_top := wc_top mn - 1\<rparr>) (st'\<lparr>ws_cursors := mc # ws_cursors st'\<rparr>)
      = Some (rc, mn1, st1)"
    and outcome: "split_outcome live freed malloc (\<lambda>k. pmalloc (k + 4)) fd klim False l (wc_pg mc ! l) (wc_ki mc ! l + 1)
      (Branch_node (key_bytes (Some sepkey)) number) (addr(number := rp)) (mn\<lparr>wc_snum := wc_snum mn - 1, wc_top := wc_top mn - 1\<rparr>)
      (st'\<lparr>ws_cursors := mc # ws_cursors st'\<rparr>) rc mn1 st1"
  shows "\<exists>rc mc' st''. split_link malloc pmalloc2 fd again leaf mp rp (Some copy) (length ns) newindx s new sepkey 0 mn mc st' = Some (rc, mc', st'')
    \<and> split_outcome live freed malloc pmalloc fd klim leaf (Suc l) mp newindx nn addr mc st rc mc' st''"
proof -
  let ?lv = "Suc l" and ?addr = "addr(number := rp)" and ?psize = "unat (me_psize (ws_env st))" and ?n = "Branch_node (key_bytes (Some sepkey)) number"
  let ?parent = "wc_pg mc ! l" and ?up = "wc_ki mc ! l" and ?inuse = "insert copy (insert rp inuse)" and ?pool = "pool pmalloc (ws_env st) (ws_txn st)"
  let ?st = "st'\<lparr>ws_cursors := mc # ws_cursors st'\<rparr>" and ?mn = "mn\<lparr>wc_snum := wc_snum mn - 1, wc_top := wc_top mn - 1\<rparr>"
  let ?pool' = "pool (\<lambda>k. pmalloc (k + 4)) (ws_env st') (ws_txn st')" and ?items = "inserted newindx nn ns"
  note R = split_readyD [OF ready] and T = two_taken_tree [OF ready two]
  have sizes: "me_psize (ws_env st') = me_psize (ws_env st)" "me_nodemax (ws_env st') = me_nodemax (ws_env st)" "ws_cursors st' = ws_cursors st"
    "ws_root st' = ws_root st" "ws_depth st' = ws_depth st" "rp \<notin> inuse" "copy \<notin> inuse" "{rp, copy} \<subseteq> ?pool"
    "pool (\<lambda>k. pmalloc (k + 3)) (ws_env st') (ws_txn st') \<subseteq> ?pool" "unat (wt_next_pgno (ws_txn st')) \<le> unat (wt_next_pgno (ws_txn st)) + 1"
    and other: "\<And>q. q \<notin> {rp, copy} \<Longrightarrow> ws_mem st' q = ws_mem st q"
    using two by (simp_all add: two_taken_def state_kept_def)
  have B: "tree_ok fd klim leaf ?lv ?addr st'" "page_held fd leaf klim ?addr st' number"
    "set (tree_pages (ws_mem st') ?addr (ws_root st') ?lv) \<subseteq> ?inuse" "blocks_ok (\<lambda>k. pmalloc (k + 3)) ?inuse st'"
    "rp \<notin> set (tree_pages (ws_mem st') ?addr (ws_root st') ?lv)" "copy \<notin> set (tree_pages (ws_mem st') ?addr (ws_root st') ?lv)"
    "pages_ready leaf mp rp copy newindx ?psize ns st'" "halves_fit leaf ?psize ?items s" "key_bytes (Some sepkey) = nd_key (?items ! s)"
    using begun sizes(1) by (simp_all add: begun_def Let_def)
  have sub: "?pool' \<subseteq> pool (\<lambda>k. pmalloc (k + 3)) (ws_env st') (ws_txn st')"
    using pool_shift [of "\<lambda>k. pmalloc (k + 3)" 1 "ws_env st'" "ws_txn st'"] by (simp add: numeral_eq_Suc)
  have free: "?pool' \<inter> ?inuse = {}" using B(4) sub by (auto simp: blocks_ok_def)
  have path: "on_path (ws_mem st') ?addr (ws_root st') ?lv m" if "on_path (ws_mem st) addr (ws_root st) ?lv m" for m using T(3) [OF order.refl that] .
  have parent: "?parent \<in> inuse" using path_tree [OF R(18), of l ?lv] R(2) by auto
  obtain y where "page_held fd False klim addr st y" "addr y = ?parent"
  proof (rule path_good [OF R(1) on_path_sub [OF R(18), of l]])
    fix x
    assume "addr (snd x) = ?parent" "page_held fd (leaf \<and> l = ?lv) klim addr st (snd x)"
    then show ?thesis by (intro that [of "snd x"]) simp_all
  qed simp_all
  then have "good_page False ?psize (me_nodemax (ws_env st)) klim (ws_mem st ?parent)" by (simp add: page_held_def)
  then have lay: "page_layout False ?psize (ws_mem st' ?parent) (?psize - PAGEHDRSZ - used (nodes_at (ws_mem st) ?parent))"
    using T(4) [OF order.refl parent] by (auto elim: good_pageE)
  have mnp: "wc_pg mn ! (wc_top mn - 1) = ?parent" using R(7) unfolding mn by simp
  have lay': "page_layout False ?psize (ws_mem st' (wc_pg mn ! (wc_top mn - 1))) (?psize - PAGEHDRSZ - used (nodes_at (ws_mem st) ?parent))"
    unfolding mnp by (rule lay)
  have pgno: "raw_page_pgno (ws_mem st' rp) = Some number" using B(2) by (simp add: page_held_def)
  note link = split_link_nested [where again = again, OF lay' pgno full again]
  show ?thesis
  proof (cases "rc = MDB_SUCCESS")
    case False
    then have F: "refused_in malloc (\<lambda>k. pmalloc (k + 4)) fd (l + 2) (ws_env st') (ws_txn st') rc" "ws_cursors st1 = mc # ws_cursors st"
      "\<And>q. q \<notin> ?pool' \<Longrightarrow> ws_mem st1 q = ws_mem st' q" "writer_inv live freed fd (ws_env st1) (ws_txn st1)"
      "unat (wt_next_pgno (ws_txn st1)) \<le> unat (wt_next_pgno (ws_txn st')) + l + 2"
      using outcome sizes(3) by (simp_all add: split_outcome_def split_failed_def)
    let ?fin = "fail_state (split_free (Some copy) (st1\<lparr>ws_cursors := ws_cursors st\<rparr>))"
    have "refused_in malloc pmalloc fd (l + 2) (env1\<lparr>me_dpages := ps\<rparr>) (ws_txn st') rc" using refused_shift [OF F(1)] alloc(2) by simp
    from refused_in.later [of malloc pmalloc 0 fd "ws_env st" "ws_txn st" "(rp, number)" env1 "ws_txn st'" "l + 2" ps rc, OF alloc(1) this]
    have "refused_in malloc pmalloc fd (?lv + 2) (ws_env st) (ws_txn st) rc" by simp
    moreover have "ws_mem st1 q = ws_mem st q" if "q \<notin> ?pool" for q proof -
      have "q \<notin> ?pool'" "q \<notin> {rp, copy}" using that sub sizes(8,9) by blast+
      then show ?thesis using F(3) other by simp
    qed
    ultimately have "split_failed malloc pmalloc fd (?lv + 2) st rc mc mc ?fin"
      by (simp add: split_failed_def fail_state_simps split_free_def)
    then have "split_outcome live freed malloc pmalloc fd klim leaf ?lv mp newindx nn addr mc st rc mc ?fin"
      using False F(4,5) sizes(10) by (simp add: split_outcome_def fail_state_simps split_free_def mdb_page_free_def)
    then show ?thesis using link(1) [OF F(2) False] by blast
  next
    case True
    then have O: "writer_inv live freed fd (ws_env st1) (ws_txn st1)" "unat (wt_next_pgno (ws_txn st1)) \<le> unat (wt_next_pgno (ws_txn st')) + l + 2"
      "\<exists>d addr' rpp numberp sp. split_done (\<lambda>k. pmalloc (k + 4)) fd klim False l ?parent (?up + 1) ?n ?addr ?mn ?st d addr' rpp numberp sp mn1 st1"
      using outcome by (simp_all add: split_outcome_def)
    then obtain d addr' rpp numberp sp where sd: "split_done (\<lambda>k. pmalloc (k + 4)) fd klim False l ?parent (?up + 1) ?n ?addr ?mn ?st d addr' rpp numberp sp mn1 st1"
      by blast
    obtain mc1 cs where cs: "ws_cursors st1 = mc1 # cs" using split_doneD(12) [OF sd] by (auto simp: list_all2_Cons1)
    obtain mc' st'' where f: "rejoin mn1 mc1 (st1\<lparr>ws_cursors := cs\<rparr>) = Some (mc1, st1\<lparr>ws_cursors := cs\<rparr>)"
      "split_finish malloc pmalloc2 fd leaf mp rp (Some copy) (length ns) newindx s new True 0 mn1 mc1 (st1\<lparr>ws_cursors := cs\<rparr>) = Some (MDB_SUCCESS, mc', st'')"
      "ws_env st'' = mdb_page_free copy (ws_env st1)" "ws_txn st'' = ws_txn st1"
      "split_done pmalloc fd klim leaf ?lv mp newindx nn addr mc st d addr' rp number s mc' st''"
      using nested_done [OF ready two begun ns mn cs sd] by blast
    have "split_outcome live freed malloc pmalloc fd klim leaf ?lv mp newindx nn addr mc st MDB_SUCCESS mc' st''"
      by (rule outcome_done [OF f(5)]) (use O(1,2) sizes(10) f(3,4) in \<open>simp_all add: mdb_page_free_def\<close>)
    moreover have "split_link malloc pmalloc2 fd again leaf mp rp (Some copy) (length ns) newindx s new sepkey 0 mn mc st' = Some (MDB_SUCCESS, mc', st'')"
      unfolding link(2) [OF cs True f(1)] by (rule f(2))
    ultimately show ?thesis by blast
  qed
qed

section \<open>All the levels\<close>

theorem split_levels_result:
  assumes "good_malloc malloc" and "writer_inv live freed fd (ws_env st) (ws_txn st)"
    and "split_ready pmalloc fd klim leaf lv mp newindx (newkey, newdata, newpgno, nflags) nn addr inuse mc st" and "lv < fuel"
  shows "\<exists>rc mc' st'. split_levels malloc fd fuel pmalloc newkey newdata newpgno nflags mc st = Some (rc, mc', st')
    \<and> split_outcome live freed malloc pmalloc fd klim leaf lv mp newindx nn addr mc st rc mc' st'"
  using assms
proof (induction lv arbitrary: fuel pmalloc leaf mp newindx newkey newdata newpgno nflags nn addr inuse mc st)
  case 0
  then obtain f where f: "fuel = Suc f" by (cases fuel) auto
  show ?case unfolding f split_levels.simps by (rule split_page_root [OF 0(1-3)])
next
  case (Suc l)
  note good = Suc.prems(1) and inv = Suc.prems(2) and ready = Suc.prems(3)
  obtain f where f: "fuel = Suc f" "l < f" using Suc.prems(4) by (cases fuel) auto
  let ?new = "(newkey, newdata, newpgno, nflags)" and ?ns = "nodes_at (ws_mem st) mp" and ?psize = "unat (me_psize (ws_env st))"
  define again where "again = split_levels malloc fd f (\<lambda>k. pmalloc (k + 4))"
  define split where "split = split_page malloc pmalloc fd again newkey newdata newpgno nflags mc st"
  have run: "split_levels malloc fd fuel pmalloc newkey newdata newpgno nflags mc st = split"
    by (simp add: f split_def again_def)
  from split_page_begins [OF good inv ready refl split_def]
  have "\<exists>rc mc' st'. split = Some (rc, mc', st') \<and> split_outcome live freed malloc pmalloc fd klim leaf (Suc l) mp newindx nn addr mc st rc mc' st'"
  proof (elim disjE exE conjE)
    fix rc st'
    assume r: "split = Some (rc, mc, st')" "rc \<noteq> MDB_SUCCESS" "writer_inv live freed fd (ws_env st') (ws_txn st')"
      "split_failed malloc pmalloc fd (l + 3) st rc mc mc st'" "unat (wt_next_pgno (ws_txn st')) \<le> unat (wt_next_pgno (ws_txn st)) + 1"
    have n: "Suc l + 2 = l + 3" by simp
    have "split_outcome live freed malloc pmalloc fd klim leaf (Suc l) mp newindx nn addr mc st rc mc st'"
      unfolding split_outcome_def n using r(2-5) by simp
    then show ?thesis using r(1) by blast
  next
    fix rp copy number s sepkey env1 ps st'
    assume inv': "writer_inv live freed fd (ws_env st') (ws_txn st')" and two: "two_taken pmalloc fd rp copy number inuse st st'"
      and alloc: "mdb_page_alloc malloc (pmalloc 0) fd 1 (ws_env st) (ws_txn st) = Some (MDB_SUCCESS, Some (rp, number), env1, ws_txn st')"
        "ws_env st' = env1\<lparr>me_dpages := ps\<rparr>"
      and begun: "begun pmalloc fd klim leaf (Suc l) mp rp copy number newindx nn ?ns s sepkey (addr(number := rp)) (insert copy (insert rp inuse)) st'"
      and go: "split = split_link malloc (pmalloc 3) fd again leaf mp rp (Some copy) (length ?ns) newindx s ?new sepkey 0
          (mc\<lparr>wc_pg := (wc_pg mc)[Suc l := rp], wc_ki := (wc_ki mc)[l := wc_ki mc ! l + 1]\<rparr>) mc st'"
    let ?mn = "mc\<lparr>wc_pg := (wc_pg mc)[Suc l := rp], wc_ki := (wc_ki mc)[l := wc_ki mc ! l + 1]\<rparr>"
    have next1: "unat (wt_next_pgno (ws_txn st')) \<le> unat (wt_next_pgno (ws_txn st)) + 1" using two by (simp add: two_taken_def state_kept_def)
    show ?thesis
    proof (cases "mdb_branch_size (Some sepkey) \<le> ?psize - PAGEHDRSZ - used (nodes_at (ws_mem st) (wc_pg mc ! l))")
      case True
      obtain mc' st'' where r: "split_link malloc (pmalloc 3) fd again leaf mp rp (Some copy) (length ?ns) newindx s ?new sepkey 0 ?mn mc st' = Some (MDB_SUCCESS, mc', st'')"
        "ws_env st'' = mdb_page_free copy (ws_env st')" "ws_txn st'' = ws_txn st'"
        "split_done pmalloc fd klim leaf (Suc l) mp newindx nn addr mc st 0 (addr(number := rp)) rp number s mc' st''"
        using split_room [OF ready two begun refl refl True] by blast
      have "split_outcome live freed malloc pmalloc fd klim leaf (Suc l) mp newindx nn addr mc st MDB_SUCCESS mc' st''"
        by (rule outcome_done [OF r(4)]) (use inv' next1 r(2,3) in \<open>simp_all add: mdb_page_free_def\<close>)
      then show ?thesis unfolding go r(1) by blast
    next
      case False
      then have full: "?psize - PAGEHDRSZ - used (nodes_at (ws_mem st) (wc_pg mc ! l)) < mdb_branch_size (Some sepkey)" by simp
      have inv1: "writer_inv live freed fd (ws_env (st'\<lparr>ws_cursors := mc # ws_cursors st'\<rparr>)) (ws_txn (st'\<lparr>ws_cursors := mc # ws_cursors st'\<rparr>))"
        using inv' by simp
      note nested = nested_ready [OF ready two begun refl refl full]
      obtain rc mn1 st1 where again: "again sepkey None number 0 (?mn\<lparr>wc_snum := wc_snum ?mn - 1, wc_top := wc_top ?mn - 1\<rparr>) (st'\<lparr>ws_cursors := mc # ws_cursors st'\<rparr>)
            = Some (rc, mn1, st1)"
        "split_outcome live freed malloc (\<lambda>k. pmalloc (k + 4)) fd klim False l (wc_pg mc ! l) (wc_ki mc ! l + 1)
          (Branch_node (key_bytes (Some sepkey)) number) (addr(number := rp)) (?mn\<lparr>wc_snum := wc_snum ?mn - 1, wc_top := wc_top ?mn - 1\<rparr>)
          (st'\<lparr>ws_cursors := mc # ws_cursors st'\<rparr>) rc mn1 st1"
        using Suc.IH [OF good inv1 nested f(2)] unfolding again_def by blast
      show ?thesis unfolding go by (rule split_nested [where again = again and pmalloc = pmalloc and mn = ?mn, OF ready two begun refl alloc refl full again])
    qed
  qed
  then show ?case unfolding run .
qed

end
