(* ===== verification/Lmdb_Split_Overflow.thy ===== *)
theory Lmdb_Split_Overflow
  imports Lmdb_Split_Induction
begin

text \<open>
  What happens when the split point is the middle and the right half does not fit: one of its nodes
  meets a full page, and the split fails.
\<close>

section \<open>The node that does not fit\<close>

lemma filling_space: "filling leaf psize xs j p \<Longrightarrow> used (first_blank leaf (take j xs)) \<le> psize - PAGEHDRSZ"
  unfolding filling_def using page_space by fastforce

lemma fill_full:
  assumes fill: "filling leaf psize xs j (ws_mem st here)" and j: "j < length xs"
    and full: "psize - PAGEHDRSZ < used (first_blank leaf (take (Suc j) xs))"
    and args: "describes leaf (me_nodemax (ws_env st)) (key, data, pgno, flags) (xs ! j)" and psize: "psize = unat (me_psize (ws_env st))"
    and key': "key' = (if \<not> leaf \<and> j = 0 then key\<lparr>mv_size := 0\<rparr> else key)"
  shows "page_node_add malloc pmalloc fd here j (Some key') data pgno flags st = Some (MDB_PAGE_FULL, fail_state st)"
proof -
  define n where "n = (if j = 0 \<and> \<not> leaf then Branch_node [] (nd_pgno (xs ! j)) else xs ! j)"
  let ?ns = "first_blank leaf (take j xs)" and ?left = "psize - PAGEHDRSZ - used (first_blank leaf (take j xs))"
  have all: "first_blank leaf (take (Suc j) xs) = ?ns @ [n]" using blank_take_Suc [OF j] by (simp add: n_def)
  have n: "describes leaf (me_nodemax (ws_env st)) (key', data, pgno, flags) n"
    using args describes_blank [OF args] by (cases leaf) (auto simp: key' n_def)
  have "?left < node_bytes n + 2" using full filling_space [OF fill] unfolding all by simp
  moreover have "j \<le> length ?ns" using j by simp
  ultimately show ?thesis
    using page_node_add_result [of leaf st here ?left ?ns j key' data pgno flags n malloc pmalloc fd] fill n
    unfolding filling_def psize by auto
qed

lemma move_right_full:
  assumes "\<And>t. i \<le> t \<Longrightarrow> t \<le> nkeys \<Longrightarrow>
      fetched leaf (me_nodemax (ws_env st)) (ws_mem st mp) (ws_mem st copy) newindx new items t"
    and "filling leaf psize (drop s items) (i - s) (ws_mem st rp)" and "s \<le> i" and "i \<le> nkeys" and "1 \<le> s"
    and "length items = nkeys + 1" and "psize - PAGEHDRSZ < used (first_blank leaf (drop s items))" and "nkeys + 1 - i \<le> fuel"
    and "rp \<noteq> mp" and "rp \<noteq> copy" and "psize = unat (me_psize (ws_env st))"
  shows "\<exists>at' r. move_loop (add_key malloc pmalloc fd) leaf mp copy nkeys newindx s new fuel i (i - s) rp at st
      = Some (MDB_PAGE_FULL, rp, at', fail_state (st\<lparr>ws_mem := (ws_mem st)(rp := r)\<rparr>))"
  using assms
proof (induction fuel arbitrary: i at st)
  case 0
  then show ?case by simp
next
  case (Suc fuel)
  let ?at = "if i = newindx then i - s else at"
  note get = Suc.prems(1) [OF order.refl Suc.prems(4)]
  have xs: "drop s items ! (i - s) = items ! i" "i - s < length (drop s items)" using Suc.prems(3,4,6) by simp_all
  obtain key data pgno flags where a: "(if i = newindx then Some new
      else do { w \<leftarrow> raw_ptr (ws_mem st copy) i; moved_node leaf (ws_mem st mp) (unat w) }) = Some (key, data, pgno, flags)"
    "describes leaf (me_nodemax (ws_env st)) (key, data, pgno, flags) (drop s items ! (i - s))"
    using get unfolding fetched_def xs(1) by (metis prod_cases4)
  let ?key = "if \<not> leaf \<and> i - s = 0 then key\<lparr>mv_size := 0\<rparr> else key"
  show ?case
  proof (cases "psize - PAGEHDRSZ < used (first_blank leaf (take (Suc (i - s)) (drop s items)))")
    case True
    have add: "page_node_add malloc pmalloc fd rp (i - s) (Some ?key) data pgno flags st = Some (MDB_PAGE_FULL, fail_state st)"
      by (rule fill_full [OF Suc.prems(2) xs(2) True a(2) Suc.prems(11) refl])
    have "MDB_PAGE_FULL \<noteq> MDB_SUCCESS" by (simp add: MDB_PAGE_FULL_def MDB_SUCCESS_def)
    then have "move_loop (add_key malloc pmalloc fd) leaf mp copy nkeys newindx s new (Suc fuel) i (i - s) rp at st
        = Some (MDB_PAGE_FULL, rp, ?at, fail_state st)"
      unfolding move_loop.simps a(1) bind.bind_lunit prod.case Let_def add by simp
    moreover have "st\<lparr>ws_mem := (ws_mem st)(rp := ws_mem st rp)\<rparr> = st" by simp
    ultimately show ?thesis by metis
  next
    case False
    have i: "i \<noteq> nkeys"
    proof
      assume "i = nkeys"
      then have "take (Suc (i - s)) (drop s items) = drop s items" using Suc.prems(3,6) by simp
      then show False using False Suc.prems(7) by simp
    qed
    have now: "used (first_blank leaf (take (Suc (i - s)) (drop s items))) \<le> psize - PAGEHDRSZ" using False by simp
    obtain p' where p': "page_node_add malloc pmalloc fd rp (i - s) (Some ?key) data pgno flags st
        = Some (MDB_SUCCESS, st\<lparr>ws_mem := (ws_mem st)(rp := p')\<rparr>)" "filling leaf psize (drop s items) (Suc (i - s)) p'"
      using fill_step [OF Suc.prems(2) xs(2) now a(2) Suc.prems(11) refl, of malloc pmalloc fd] by blast
    let ?st = "st\<lparr>ws_mem := (ws_mem st)(rp := p')\<rparr>"
    have run: "move_loop (add_key malloc pmalloc fd) leaf mp copy nkeys newindx s new (Suc fuel) i (i - s) rp at st =
        move_loop (add_key malloc pmalloc fd) leaf mp copy nkeys newindx s new fuel (i + 1) (i + 1 - s) rp ?at ?st"
      unfolding move_loop.simps a(1) bind.bind_lunit prod.case Let_def p'(1) using i Suc.prems(3) by (simp add: Suc_diff_le)
    have "fetched leaf (me_nodemax (ws_env ?st)) (ws_mem ?st mp) (ws_mem ?st copy) newindx new items t" if "i + 1 \<le> t" "t \<le> nkeys" for t
      using Suc.prems(1) [of t] that Suc.prems(9,10) by simp
    then have "\<exists>at' r. move_loop (add_key malloc pmalloc fd) leaf mp copy nkeys newindx s new fuel (i + 1) (i + 1 - s) rp ?at ?st
        = Some (MDB_PAGE_FULL, rp, at', fail_state (?st\<lparr>ws_mem := (ws_mem ?st)(rp := r)\<rparr>))"
      by (rule Suc.IH) (use i Suc.prems p'(2) in \<open>simp_all add: Suc_diff_le\<close>)
    moreover have "?st\<lparr>ws_mem := (ws_mem ?st)(rp := r)\<rparr> = st\<lparr>ws_mem := (ws_mem st)(rp := r)\<rparr>" for r by simp
    ultimately show ?thesis unfolding run by (simp only:)
  qed
qed

section \<open>The split fails\<close>

lemma split_link_full:
  assumes ready: "pages_ready leaf mp rp copy newindx psize ns st" and small: "\<forall>n\<in>set ns. node_bytes n \<le> me_nodemax (ws_env st)"
    and new: "describes leaf (me_nodemax (ws_env st)) new nn" and idx: "newindx \<le> length ns"
    and s: "1 \<le> s" "s \<le> length ns" and full: "psize - PAGEHDRSZ < used (first_blank leaf (drop s (inserted newindx nn ns)))"
    and mn: "wc_pg mn ! (wc_top mn - 1) = parent" "wc_ki mn ! (wc_top mn - 1) = up + 1"
    and parent: "page_layout False psize (ws_mem st parent) (psize - PAGEHDRSZ - used pns)" "raw_nodes (ws_mem st parent) = Some pns"
    and up: "up < length pns" and other: "parent \<notin> {mp, rp, copy}"
    and number: "raw_page_pgno (ws_mem st rp) = Some number" "unat number < 2 ^ 48" and sep: "key_ok (Some sepkey)"
    and room: "mdb_branch_size (Some sepkey) \<le> psize - PAGEHDRSZ - used pns"
  shows "\<exists>mc' st'. split_link malloc pmalloc fd again leaf mp rp (Some copy) (length ns) newindx s new sepkey new_root mn mc st
      = Some (MDB_PAGE_FULL, mc', st') \<and> wt_error (ws_txn st')"
proof -
  have psize: "psize = unat (me_psize (ws_env st))" using ready by (simp add: pages_ready_def)
  obtain left: "SIZELEFT (ws_mem st parent) = Some (of_nat (psize - PAGEHDRSZ - used pns))"
    "unat (of_nat (psize - PAGEHDRSZ - used pns) :: 16 word) = psize - PAGEHDRSZ - used pns"
    using parent(1) by (rule page_layout_header)
  have up1: "up + 1 \<le> length pns" using up by simp
  obtain pp where pp: "page_node_add malloc pmalloc fd parent (up + 1) (Some sepkey) None number 0 st
      = Some (MDB_SUCCESS, st\<lparr>ws_mem := (ws_mem st)(parent := pp)\<rparr>)"
    using parent_gets [OF parent psize up1 sep number(2) room, of malloc pmalloc fd] by blast
  let ?st1 = "st\<lparr>ws_mem := (ws_mem st)(parent := pp)\<rparr>"
  have ready1: "pages_ready leaf mp rp copy newindx psize ns ?st1" using ready other unfolding pages_ready_def by auto
  have distinct: "rp \<noteq> mp" "rp \<noteq> copy" using ready by (auto simp: pages_ready_def)
  have empty: "filling leaf psize (drop s (inserted newindx nn ns)) (s - s) (ws_mem ?st1 rp)"
    using ready1 unfolding pages_ready_def filling_def by auto
  have "fetched leaf (me_nodemax (ws_env ?st1)) (ws_mem ?st1 mp) (ws_mem ?st1 copy) newindx new (inserted newindx nn ns) t" if "t \<le> length ns" for t
    by (rule all_fetched [OF ready1 _ _ idx that]) (use small new in simp_all)
  then obtain at' r where m: "move_loop (add_key malloc pmalloc fd) leaf mp copy (length ns) newindx s new (length ns + 1) s (s - s) rp (wc_ki mc ! wc_top mc) ?st1
      = Some (MDB_PAGE_FULL, rp, at', fail_state (?st1\<lparr>ws_mem := (ws_mem ?st1)(rp := r)\<rparr>))"
    using move_right_full [of s "length ns" leaf ?st1 mp copy newindx new "inserted newindx nn ns" psize s rp "length ns + 1"
        malloc pmalloc fd "wc_ki mc ! wc_top mc"] empty s full distinct psize
    by auto
  have code: "MDB_PAGE_FULL \<noteq> MDB_SUCCESS" by (simp add: MDB_PAGE_FULL_def MDB_SUCCESS_def)
  then have "split_move malloc pmalloc fd leaf mp rp (Some copy) (length ns) newindx s new mn mc ?st1
      = Some (MDB_PAGE_FULL, mc\<lparr>wc_pg := (wc_pg mc)[wc_top mc := rp], wc_ki := (wc_ki mc)[wc_top mc := at']\<rparr>, fail_state (?st1\<lparr>ws_mem := (ws_mem ?st1)(rp := r)\<rparr>))"
    unfolding split_move_def Let_def option.case m [unfolded diff_self_eq_0] bind.bind_lunit prod.case by simp
  then have "\<exists>mc' st'. split_finish malloc pmalloc fd leaf mp rp (Some copy) (length ns) newindx s new False new_root mn mc ?st1
      = Some (MDB_PAGE_FULL, mc', st') \<and> wt_error (ws_txn st')"
    using code by (simp add: split_finish_def fail_state_def fail_txn_def)
  moreover have "split_link malloc pmalloc fd again leaf mp rp (Some copy) (length ns) newindx s new sepkey new_root mn mc st
      = split_finish malloc pmalloc fd leaf mp rp (Some copy) (length ns) newindx s new False new_root mn mc ?st1"
    using left room number(1) pp mn by (simp add: split_link_def Let_def)
  ultimately show ?thesis by simp
qed

text \<open>
  What the split relies on: \<open>mc\<close> leads from \<open>parent\<close> to \<open>mp\<close>, where the new node goes, both pages are in
  good order, and \<open>parent\<close> has room for a separator of the given key.
\<close>

definition below_parent ::
  "(nat \<Rightarrow> nat \<Rightarrow> nat option) \<Rightarrow> nat \<Rightarrow> bool \<Rightarrow> nat \<Rightarrow> nat \<Rightarrow> nat \<Rightarrow> string \<Rightarrow> nat set \<Rightarrow> wcursor \<Rightarrow> write_state \<Rightarrow> bool" where
  "below_parent pmalloc klim leaf mp parent newindx sep inuse mc st =
     (let psize = unat (me_psize (ws_env st)); nodemax = me_nodemax (ws_env st); top = wc_top mc; pns = nodes_at (ws_mem st) parent in
      good_page leaf psize nodemax klim (ws_mem st mp) \<and> good_page False psize nodemax klim (ws_mem st parent) \<and> mp \<noteq> parent
      \<and> {mp, parent} \<subseteq> inuse \<and> blocks_ok pmalloc inuse st \<and> 0 < top \<and> stacks_of top mc \<and> place top mc = (mp, newindx)
      \<and> wc_pg mc ! (top - 1) = parent \<and> wc_ki mc ! (top - 1) < length pns
      \<and> node_bytes (Branch_node sep 0) + 2 \<le> psize - PAGEHDRSZ - used pns \<and> unat (wt_next_pgno (ws_txn st)) + 1 < 2 ^ 48)"

lemma page_split_overflow:
  assumes good: "good_malloc malloc" and inv: "writer_inv live freed fd (ws_env st) (ws_txn st)"
    and ns: "ns = nodes_at (ws_mem st) mp" and psize: "psize = unat (me_psize (ws_env st))" and s: "s = (length ns + 1) div 2"
    and below: "below_parent pmalloc klim leaf mp parent newindx (nd_key (inserted newindx nn ns ! s)) inuse mc st"
    and new: "new_ready klim leaf newindx (newkey, newdata, newpgno, nflags) nn (me_nodemax (ws_env st))" and idx: "newindx \<le> length ns"
    and full: "\<not> split_checked (length ns) newindx (node_bytes nn + 2) (psize - PAGEHDRSZ)"
      "psize - PAGEHDRSZ < used (first_blank leaf (drop s (inserted newindx nn ns)))"
    and split: "split = split_page malloc pmalloc fd again newkey newdata newpgno nflags mc st"
  shows "\<exists>rc mc' st'. split = Some (rc, mc', st') \<and> rc \<noteq> MDB_SUCCESS
    \<and> (rc = MDB_PAGE_FULL \<and> wt_error (ws_txn st') \<or> split_failed malloc pmalloc fd 1 st rc mc mc' st')"
proof -
  let ?lv = "wc_top mc" and ?pool = "pool pmalloc (ws_env st) (ws_txn st)" and ?items = "inserted newindx nn ns"
  let ?up = "wc_ki mc ! (?lv - 1)" and ?pns = "nodes_at (ws_mem st) parent" and ?new = "(newkey, newdata, newpgno, nflags)"
  have G: "good_page leaf psize (me_nodemax (ws_env st)) klim (ws_mem st mp)" "good_page False psize (me_nodemax (ws_env st)) klim (ws_mem st parent)"
    "mp \<noteq> parent" "mp \<in> inuse" "parent \<in> inuse" "blocks_ok pmalloc inuse st" "0 < ?lv" "stacks_of ?lv mc" "place ?lv mc = (mp, newindx)"
    "wc_pg mc ! (?lv - 1) = parent" "?up < length ?pns" "node_bytes (Branch_node (nd_key (?items ! s)) 0) + 2 \<le> psize - PAGEHDRSZ - used ?pns"
    "unat (wt_next_pgno (ws_txn st)) + 1 < 2 ^ 48"
    using below unfolding below_parent_def Let_def psize by auto
  have N: "describes leaf (me_nodemax (ws_env st)) ?new nn" "\<not> F_ISSET nflags F_BIGDATA" "\<not> F_ISSET nflags MDB_APPEND"
    using new by (simp_all add: new_ready_def)
  have n: "20 \<le> length ns" using full(1) by (simp add: split_checked_def)
  then have half: "1 \<le> s" "s \<le> length ns" using s by linarith+
  have P: "page_layout leaf psize (ws_mem st mp) (psize - PAGEHDRSZ - used ns)" "raw_nodes (ws_mem st mp) = Some ns"
    "\<forall>n\<in>set ns. node_bytes n \<le> me_nodemax (ws_env st)"
    using G(1) unfolding ns by (auto elim: good_pageE)
  have Q: "page_layout False psize (ws_mem st parent) (psize - PAGEHDRSZ - used ?pns)" "raw_nodes (ws_mem st parent) = Some ?pns"
    using G(2) by (auto elim: good_pageE)
  have point: "point_in leaf psize (ws_mem st mp) newindx nn ns (\<lambda>t. t = s)" using n s by (intro point_middle [OF P(1,2) _ full(1)]) simp_all
  from page_split_right [OF good inv G(13) psize G(1,4,6,9,8) N(3) split, of 0]
  show ?thesis
  proof (elim disjE exE conjE)
    fix rc st'
    assume "split = Some (rc, mc, st')" "rc \<noteq> MDB_SUCCESS" "split_failed malloc pmalloc fd (Suc 0) st rc mc mc st'"
    then show ?thesis by simp
  next
    fix rp p number st1
    assume st1: "state_kept fd st st1" "ws_root st1 = ws_root st" "ws_depth st1 = ws_depth st" and rp: "rp \<in> ?pool" "rp \<notin> inuse"
      and blocks: "blocks_ok (\<lambda>k. pmalloc (k + 1)) (insert rp inuse) st1" and p: "ws_mem st1 = (ws_mem st)(rp := p)" "empty_page leaf psize number p" "unat number < 2 ^ 48"
      and run: "split = do {
          (rc, mc1, new_root, st2) \<leftarrow> split_root malloc (pmalloc 1) fd mp mc st1;
          if rc \<noteq> MDB_SUCCESS then Some (rc, mc1, fail_state st2)
          else do {
            up \<leftarrow> idl_at (wc_ki mc1) (wc_top mc1 - 1);
            split_copy malloc pmalloc fd again leaf mp rp (length (nodes_at (ws_mem st) mp)) newindx ?new new_root
              (mc1\<lparr>wc_pg := (wc_pg mc1)[wc_top mc1 := rp], wc_ki := (wc_ki mc1)[wc_top mc1 - 1 := up + 1]\<rparr>) mc1 st2
          }
        }"
    let ?mn = "mc\<lparr>wc_pg := (wc_pg mc)[?lv := rp], wc_ki := (wc_ki mc)[?lv - 1 := ?up + 1]\<rparr>"
    have "idl_at (wc_ki mc) (?lv - 1) = Some ?up" using G(8) by (auto simp: stacks_of_def idl_at_eq)
    then have go: "split = split_copy malloc pmalloc fd again leaf mp rp (length ns) newindx ?new 0 ?mn mc st1"
      unfolding run split_root_def ns [symmetric] using G(7) by simp
    have apart: "rp \<noteq> mp" "rp \<noteq> parent" "{mp, rp} \<subseteq> insert rp inuse" using rp(2) G(4,5) by auto
    have K: "me_psize (ws_env st1) = me_psize (ws_env st)" "me_nodemax (ws_env st1) = me_nodemax (ws_env st)" "ws_cursors st1 = ws_cursors st"
      "ws_mem st1 mp = ws_mem st mp" "ws_mem st1 parent = ws_mem st parent" "ws_mem st1 rp = p"
      using st1(1) p(1) apart by (simp_all add: state_kept_def)
    have shift: "(\<lambda>k. pmalloc (k + 1 + 1)) = (\<lambda>k. pmalloc (k + 2))" by simp
    have blocks2: "blocks_ok (\<lambda>k. pmalloc (k + 2)) (insert rp inuse) st1" using blocks_shift [OF blocks, of 1] unfolding shift .
    have psize1: "psize = unat (me_psize (ws_env st1))" using psize K(1) by simp
    have P1: "page_layout leaf psize (ws_mem st1 mp) (psize - PAGEHDRSZ - used ns)" "raw_nodes (ws_mem st1 mp) = Some ns"
      "empty_page leaf psize number (ws_mem st1 rp)" "describes leaf (me_nodemax (ws_env st1)) ?new nn"
      "point_in leaf psize (ws_mem st1 mp) newindx nn ns (\<lambda>t. t = s)"
      using P(1,2) p(2) N(1) point unfolding K by blast+
    from split_copy_result [OF psize1 P1(1-3) apart(1,3) P1(4) N(2) idx P1(5) blocks2, of malloc fd again 0 ?mn mc]
    show ?thesis
    proof (elim disjE exE conjE)
      fix st' n
      assume fail: "split_copy malloc pmalloc fd again leaf mp rp (length ns) newindx ?new 0 ?mn mc st1 = Some (ENOMEM, mc, st')"
        "pmalloc 2 n = None" "st' = fail_state st1"
      have "refused_in malloc pmalloc fd 1 (ws_env st) (ws_txn st) ENOMEM" using fail(2) by (rule refused_in.memory)
      then have "split_failed malloc pmalloc fd 1 st ENOMEM mc mc st'"
        using rp(1) p(1) K(3) fail(3) by (auto simp: split_failed_def fail_state_simps)
      moreover have "ENOMEM \<noteq> MDB_SUCCESS" by (simp add: ENOMEM_def MDB_SUCCESS_def)
      ultimately show ?thesis using go fail(1) by metis
    next
      fix copy c ps s' sepkey st'
      assume st': "st' = st1\<lparr>ws_env := (ws_env st1)\<lparr>me_dpages := ps\<rparr>, ws_mem := (ws_mem st1)(copy := c)\<rparr>" and copy: "copy \<notin> insert rp inuse"
        and ready: "pages_ready leaf mp rp copy newindx psize ns st'" and sep': "key_ok (Some sepkey)" "key_bytes (Some sepkey) = nd_key (?items ! s')" "s' = s"
        and link: "split_copy malloc pmalloc fd again leaf mp rp (length ns) newindx ?new 0 ?mn mc st1
          = split_link malloc (pmalloc 3) fd again leaf mp rp (Some copy) (length ns) newindx s' ?new sepkey 0 ?mn mc st'"
      have sep: "key_ok (Some sepkey)" "key_bytes (Some sepkey) = nd_key (?items ! s)" "s' = s" using sep' by simp_all
      have other: "parent \<notin> {mp, rp, copy}" using G(3,5) apart(2) copy by auto
      have mem: "ws_mem st' parent = ws_mem st parent" "ws_mem st' rp = p" "me_nodemax (ws_env st') = me_nodemax (ws_env st)"
        using other copy K by (auto simp: st')
      have "raw_page_pgno (ws_mem st' rp) = Some number" using p(2) mem(2) by (simp add: empty_page_def)
      moreover have "mdb_branch_size (Some sepkey) \<le> psize - PAGEHDRSZ - used ?pns"
        using G(12) sep(2) key_size [OF sep(1)] EVEN_le(1) [of "NODESIZE + mv_size sepkey"] by (simp add: mdb_branch_size_def)
      moreover have "wc_pg ?mn ! (wc_top ?mn - 1) = parent" "wc_ki ?mn ! (wc_top ?mn - 1) = ?up + 1"
        using G(7,8,10) by (auto simp: stacks_of_def)
      ultimately have "\<exists>mc' st''. split_link malloc (pmalloc 3) fd again leaf mp rp (Some copy) (length ns) newindx s ?new sepkey 0 ?mn mc st'
          = Some (MDB_PAGE_FULL, mc', st'') \<and> wt_error (ws_txn st'')"
        using P(3) N(1) Q mem full(2) by (intro split_link_full [OF ready _ _ idx half _ _ _ _ _ G(11) other _ p(3) sep(1)]) simp_all
      moreover have "MDB_PAGE_FULL \<noteq> MDB_SUCCESS" by (simp add: MDB_PAGE_FULL_def MDB_SUCCESS_def)
      ultimately show ?thesis using go link sep(3) by metis
    qed
  qed
qed

end
