(* ===== verification/Lmdb_Touch_Properties.thy ===== *)
theory Lmdb_Touch_Properties
  imports Lmdb_Touch_Props Lmdb_Writer_Properties Lmdb_Node_Properties
begin

text \<open>
  Copy on write: what readers see of a page a writer touches, and what the writer works on.
\<close>

text \<open>
  C13. Touching a page that is not dirty, nor one the transaction has spilled, never changes it: \<open>mdb_page_touch\<close> puts in its place a dirty
  page with the same nodes and free space, under the number of a page no live snapshot has, points
  the parent's node or the root at it and moves every cursor along; the old number goes to the
  pages the transaction frees. If there is no memory or no page, nothing has changed but the
  transaction, which is in error. The pools of pages stay apart either way.
\<close>

theorem touch_copies_page:
  assumes "good_malloc malloc" and "writer_inv live freed fd (ws_env st) (ws_txn st)"
    and "touch_ready pmalloc fd mc mp old st" and "parent_ready mc mp st"
    and "page_layout leaf (unat (me_psize (ws_env st))) (ws_mem st mp) left"
    and "\<not> dirty_page (ws_mem st mp)" and "\<forall>l\<in>set (ws_spill_lists st). old \<notin> spilled_pages l"
    and "\<forall>l. Some l \<in> set (ws_spill_lists st) \<longrightarrow> descending l"
  shows "\<exists>rc mc' st'. mdb_page_touch malloc pmalloc fd mc st = Some (rc, mc', st') \<and> writer_inv live freed fd (ws_env st') (ws_txn st')
    \<and> ws_mem st' mp = ws_mem st mp
    \<and> (if rc = MDB_SUCCESS then \<exists>np pgno. replaced mc mp old np pgno st mc' st' \<and> page_layout leaf (unat (me_psize (ws_env st))) (ws_mem st' np) left
       else mc' = mc \<and> wt_error (ws_txn st') \<and> ws_mem st' = ws_mem st \<and> ws_root st' = ws_root st \<and> ws_cursors st' = ws_cursors st
         \<and> midl_list (wt_free_pgs (ws_txn st')) = midl_list (wt_free_pgs (ws_txn st)))"
proof -
  from assms(5) obtain fl where "raw_flags (ws_mem st mp) = Some fl" by (rule page_layout_header)
  moreover have "idl_at (wc_pg mc) (wc_top mc) = Some mp" "raw_page_pgno (ws_mem st mp) = Some old"
    using assms(3) by (simp_all add: touch_ready_def)
  ultimately have "mdb_page_touch malloc pmalloc fd mc st = touch_new malloc pmalloc fd mp old mc st"
    using assms(6) unspill_none [of st mp old pmalloc] assms(7,8) by (simp add: mdb_page_touch_def dirty_page_def MDB_SUCCESS_def)
  then show ?thesis using touch_new_result [OF assms(1-5)] by simp
qed

text \<open>A cursor on a root that is an empty leaf, with a block of memory at address 64 to spare.\<close>

definition sample_state :: write_state where
  "sample_state = \<lparr>ws_env = sample_page_env 0 None, ws_txn = sample_txn\<lparr>wt_free_pgs := \<lparr>ml_alloc = 3, ml_ids = [0, 0, 0, 0]\<rparr>\<rparr>,
     ws_child = False, ws_spills = False, ws_spill_lists = [], ws_mem = (\<lambda>_. fresh_page FLAG_LEAF 4096), ws_root = 0,
     ws_depth = 1, ws_branch_pages = 0, ws_leaf_pages = 1, ws_overflow_pages = 0, ws_cursors = []\<rparr>"

definition sample_cursor :: wcursor where
  "sample_cursor = \<lparr>wc_pg = [128], wc_ki = [0], wc_snum = 1, wc_top = 0, wc_live = True\<rparr>"

lemma sample_inv: "writer_inv {8} sample_freed sample_freedb (sample_page_env 0 None) sample_txn"
  unfolding writer_inv_def using sample_pools sample_dirty sample_apart
  by (simp add: none_older_def sample_page_env_def sample_txn_def mdb_find_oldest_def)

lemma le_value_zeros: "le_value (replicate n CHR 0x00) = 0"
  by (induction n) simp_all

theorem touch_copies_page_witness:
  "\<exists>rc mc' st'. mdb_page_touch (\<lambda>n. Some (replicate n 0)) (\<lambda>n. Some 64) sample_freedb sample_cursor sample_state = Some (rc, mc', st')
    \<and> ws_mem st' 128 = fresh_page FLAG_LEAF 4096
    \<and> (rc = MDB_SUCCESS \<longrightarrow> (\<exists>np pgno. ws_root st' = pgno \<and> raw_page_pgno (ws_mem st' np) = Some pgno \<and> wc_pg mc' = [np]))"
proof -
  let ?page = "fresh_page FLAG_LEAF 4096"
  have page: "page_layout True 4096 ?page 4080" "length ?page = 4096"
    using fresh_page_layout [of 4096 FLAG_LEAF] by (simp_all add: F_ISSET_def FLAG_LEAF_def FLAG_LEAF2_def fresh_page_def PAGEHDRSZ_def)
  have number: "raw_page_pgno ?page = Some 0"
    by (simp add: raw_page_pgno_def load64_def load_bytes_def fresh_page_def le_value_zeros)
  have flags: "raw_flags ?page = Some FLAG_LEAF"
    by (simp add: raw_flags_def load16_def load_bytes_def fresh_page_def le_value_16)
  have good: "good_malloc (\<lambda>n. Some (replicate n 0))" by (simp add: good_malloc_def)
  have spare: "spare_blocks (\<lambda>n. Some 64) (ws_env sample_state) (ws_txn sample_state) = {64}"
    by (auto simp: spare_blocks_def sample_state_def sample_page_env_def sample_txn_def)
  have free: "(0 :: mdb_id) \<notin># all_free sample_freedb (sample_page_env 0 None)"
    by (simp add: all_free_def sample_unread) (simp add: sample_page_env_def free_pages_def midl_list_def idl_ids_def)
  have ready: "touch_ready (\<lambda>n. Some 64) sample_freedb sample_cursor 128 0 sample_state"
    unfolding touch_ready_def spare using number page(2) free sample_dirty(1)
    by (simp add: sample_state_def sample_cursor_def cursors_ok_def midl_ok_def) (simp add: sample_txn_def sample_page_env_def dirty_def)
  have "touch_ready (\<lambda>n. Some 64) sample_freedb sample_cursor 128 0 sample_state
    \<and> writer_inv {8} sample_freed sample_freedb (ws_env sample_state) (ws_txn sample_state) \<and> parent_ready sample_cursor 128 sample_state
    \<and> page_layout True (unat (me_psize (ws_env sample_state))) (ws_mem sample_state 128) 4080
    \<and> \<not> dirty_page (ws_mem sample_state 128) \<and> ws_spill_lists sample_state = []"
    using ready sample_inv page(1) flags
    by (simp add: sample_state_def parent_ready_def sample_cursor_def dirty_page_def F_ISSET_def FLAG_LEAF_def FLAG_DIRTY_def)
      (simp add: sample_page_env_def)
  then show ?thesis
    using touch_copies_page [OF good, of "{8}" sample_freed sample_freedb sample_state "\<lambda>n. Some 64" sample_cursor 128 0 True 4080]
    by (auto simp: replaced_def linked_def sample_cursor_def sample_state_def)
qed

end
