(* ===== verification/Lmdb_Split_Properties.thy ===== *)
theory Lmdb_Split_Properties
  imports Lmdb_Split_Overflow Lmdb_Touch_Properties
begin

text \<open>
  Splitting a page: where it is split, what the two pages hold, and what happens to the parent and
  the cursors; and the pages that cannot be split.
\<close>

section \<open>The split point\<close>

text \<open>
  C28. When a node does not fit into a page in good order, and no node is larger than half a page,
  which is what the limit \<open>me_nodemax\<close> is for, the split point \<open>mdb_page_split\<close> searches for leaves
  at least one node on the left, and with the new node each half fits into a page; on a branch
  page the first node of a half has no key. The search covers pages of less than 20 nodes, a new
  node of more than a sixteenth of the page, and a new node at the end.
\<close>

theorem split_fits:
  assumes "page_layout leaf psize mp left" and "raw_nodes mp = Some ns" and "length copy = psize"
    and "newindx \<le> length ns" and "left < node_bytes nn + 2"
    and "\<And>n. n \<in> set (nn # ns) \<Longrightarrow> 2 * (node_bytes n + 2) \<le> psize - PAGEHDRSZ"
    and "length ns < 20 \<or> (psize - PAGEHDRSZ) div 16 < node_bytes nn + 2 \<or> length ns \<le> newindx"
  shows "\<exists>c s. split_prepare mp copy psize (length ns) newindx = Some c
    \<and> split_point leaf mp c (length ns) newindx (node_bytes nn + 2) (psize - PAGEHDRSZ) = Some s \<and> 1 \<le> s \<and> s \<le> length ns
    \<and> used (first_blank leaf (take s (inserted newindx nn ns))) \<le> psize - PAGEHDRSZ
    \<and> used (first_blank leaf (drop s (inserted newindx nn ns))) \<le> psize - PAGEHDRSZ"
  using assms by (intro split_fits_point) (simp_all add: split_checked_def)

lemma leaf_blank: "first_blank True ns = ns"
  by (cases ns) simp_all

text \<open>Pages with given nodes.\<close>

lemma build_page:
  assumes "16 \<le> psize" and "psize \<le> 2 ^ 15" and "even psize" and "used ns \<le> psize - PAGEHDRSZ"
    and "\<forall>n\<in>set ns. \<exists>args nodemax. describes leaf nodemax args n"
  shows "\<exists>p fl. page_layout leaf psize p (psize - PAGEHDRSZ - used ns) \<and> raw_nodes p = Some ns
    \<and> raw_flags p = Some fl \<and> (leaf \<or> F_ISSET fl FLAG_BRANCH) \<and> raw_page_pgno p = Some pgno"
  using assms(4,5)
proof (induction ns rule: rev_induct)
  case Nil
  let ?fl = "if leaf then FLAG_LEAF else FLAG_BRANCH"
  have fl: "F_ISSET ?fl FLAG_LEAF = leaf" "\<not> F_ISSET ?fl FLAG_LEAF2" "leaf \<or> F_ISSET ?fl FLAG_BRANCH"
    by (simp_all add: F_ISSET_def FLAG_LEAF_def FLAG_LEAF2_def FLAG_BRANCH_def)
  show ?case using page_new_init [of "replicate psize CHR 0x00" psize ?fl leaf pgno] assms(1-3) fl branch_dirty
    by (fastforce simp: PAGEHDRSZ_def)
next
  case (snoc n ns)
  then obtain p fl where p: "page_layout leaf psize p (psize - PAGEHDRSZ - used ns)" "raw_nodes p = Some ns"
    "raw_flags p = Some fl" "leaf \<or> F_ISSET fl FLAG_BRANCH" "raw_page_pgno p = Some pgno" by auto
  obtain key data number flags nodemax where d: "describes leaf nodemax (key, data, number, flags) n" using snoc.prems(2) by force
  have "\<not> psize - PAGEHDRSZ - used ns < node_bytes n + 2" using snoc.prems(1) by simp
  then obtain p' where p': "page_layout leaf psize p' (psize - PAGEHDRSZ - used ns - (node_bytes n + 2))" "raw_nodes p' = Some (ns @ [n])"
    "placed p p' (length ns) (PAGEHDRSZ + 2 * (length ns + 1)) (PAGEHDRSZ + 2 * length ns + (psize - PAGEHDRSZ - used ns) - node_bytes n)"
    using node_add_described [OF p(1,2) order.refl d, of 0 "\<lambda>_. Inr 0"] by auto
  have "load_bytes p' 10 2 = load_bytes p 10 2" "load_bytes p' 0 8 = load_bytes p 0 8" using p'(3) by (simp_all add: placed_def)
  then have "raw_flags p' = raw_flags p" "raw_page_pgno p' = raw_page_pgno p"
    by (simp_all add: raw_flags_def load16_def raw_page_pgno_def load64_def)
  moreover have "psize - PAGEHDRSZ - used ns - (node_bytes n + 2) = psize - PAGEHDRSZ - used (ns @ [n])" by simp
  ultimately show ?case using p'(1,2) p(3-5) by metis
qed

lemma build_good:
  assumes "used ns \<le> 4080" and "\<forall>n\<in>set ns. (\<exists>args nodemax. describes leaf nodemax args n) \<and> node_bytes n \<le> 2038 \<and> length (nd_key n) \<le> 511"
  shows "\<exists>p. good_page leaf 4096 2038 511 p \<and> raw_nodes p = Some ns \<and> raw_page_pgno p = Some pgno"
proof -
  have "\<forall>n\<in>set ns. \<exists>args nodemax. describes leaf nodemax args n" using assms(2) by blast
  then show ?thesis
    using build_page [of 4096 ns leaf pgno] assms unfolding good_page_def by (fastforce simp: PAGEHDRSZ_def)
qed

definition filler :: "nat \<Rightarrow> string" where "filler n = replicate n CHR ''x''"

lemma describes_leaf:
  "length k < 2 ^ 16 \<Longrightarrow> length d < 2 ^ 32 \<Longrightarrow> 8 + length k + length d \<le> nodemax \<Longrightarrow>
     describes True nodemax (the_val k, Some (the_val d), 0, 0) (Leaf_node k d)"
  using the_val_ok [of k] the_val_ok [of d]
  by (auto simp: describes_def new_node_def key_bytes_def F_ISSET_def F_BIGDATA_def NODESIZE_def)

text \<open>A full page of two nodes, of half a page each.\<close>

definition two_nodes :: "mdb_node list" where
  "two_nodes = [Leaf_node ''b'' (filler 2029), Leaf_node ''d'' (filler 2029)]"

lemma two_nodes_sizes: "n \<in> set (Leaf_node ''c'' (filler 2029) # two_nodes) \<Longrightarrow> node_bytes n = 2038 \<and> length (nd_key n) = 1" "length two_nodes = 2"
    "used two_nodes = 4080"
  by (auto simp: two_nodes_def filler_def EVEN_def NODESIZE_def)

lemma two_nodes_page: "\<exists>mp. good_page True 4096 2038 511 mp \<and> raw_nodes mp = Some two_nodes \<and> raw_page_pgno mp = Some pgno"
proof (rule build_good)
  have "\<exists>args nodemax. describes True nodemax args n" if "n \<in> set two_nodes" for n
    using that describes_leaf [of "''b''" "filler 2029" 2038] describes_leaf [of "''d''" "filler 2029" 2038]
    unfolding two_nodes_def by (simp add: filler_def) blast
  then show "\<forall>n\<in>set two_nodes. (\<exists>args nodemax. describes True nodemax args n) \<and> node_bytes n \<le> 2038 \<and> length (nd_key n) \<le> 511"
    using two_nodes_sizes(1) by fastforce
qed (simp add: two_nodes_sizes)

theorem split_fits_witness:
  "\<exists>mp c s. raw_nodes mp = Some two_nodes \<and> split_prepare mp (filler 4096) 4096 2 1 = Some c
    \<and> split_point True mp c 2 1 2040 4080 = Some s \<and> s \<in> {1, 2}"
proof -
  obtain mp left where mp: "page_layout True 4096 mp left" "raw_nodes mp = Some two_nodes" using two_nodes_page [of 0] unfolding good_page_def by blast
  have left: "left = 0" using page_space [OF mp] two_nodes_sizes(3) by (simp add: PAGEHDRSZ_def)
  have n: "4096 - PAGEHDRSZ = 4080" "length (filler 4096) = 4096" "node_bytes (Leaf_node ''c'' (filler 2029)) = 2038"
    by (simp_all add: PAGEHDRSZ_def filler_def EVEN_def NODESIZE_def)
  obtain c s where "split_prepare mp (filler 4096) 4096 2 1 = Some c" "split_point True mp c 2 1 2040 4080 = Some s" "1 \<le> s" "s \<le> 2"
    using split_fits [OF mp n(2), of 1 "Leaf_node ''c'' (filler 2029)"] two_nodes_sizes left unfolding n(1,3) by auto
  then show ?thesis using mp(2) by (intro exI [of _ mp] exI [of _ c] exI [of _ s]) auto
qed

section \<open>The whole split\<close>

lemma page_split_result:
  assumes "good_malloc malloc" and "writer_inv live freed fd (ws_env st) (ws_txn st)"
    and "split_ready pmalloc fd klim leaf lv mp newindx (newkey, newdata, newpgno, nflags) nn addr inuse mc st"
  shows "\<exists>rc mc' st'. mdb_page_split malloc pmalloc fd newkey newdata newpgno nflags mc st = Some (rc, mc', st')
    \<and> split_outcome live freed malloc pmalloc fd klim leaf lv mp newindx nn addr mc st rc mc' st'"
  unfolding mdb_page_split_def by (rule split_levels_result [OF assms]) (use split_readyD(8) [OF assms(3)] in simp)

text \<open>The other pages of the level keep their places and their nodes.\<close>

lemma level_others:
  assumes ready: "split_ready pmalloc fd klim leaf lv mp newindx new nn addr inuse mc st" and lev: "tree st addr lv = A @ (k, x) # B" "addr x = mp"
    and y: "y \<in> set (A @ B)"
  shows "addr (snd y) \<notin> pool pmalloc (ws_env st) (ws_txn st)" and "l \<le> lv \<Longrightarrow> addr (snd y) \<noteq> wc_pg mc ! l" and "taken fd (ws_env st) (ws_txn st) (snd y)"
proof -
  note R = split_readyD [OF ready]
  have yl: "y \<in> set (tree st addr lv)" using y lev(1) by auto
  then show "addr (snd y) \<notin> pool pmalloc (ws_env st) (ws_txn st)"
    using level_page [OF order.refl yl] R(2,3) by (auto simp: blocks_ok_def)
  show "taken fd (ws_env st) (ws_txn st) (snd y)" using tree_okD(2) [OF R(1) order.refl yl] by (simp add: page_held_def)
  show "addr (snd y) \<noteq> wc_pg mc ! l" if l: "l \<le> lv"
  proof (cases "l = lv")
    case True
    have "distinct (List.map (\<lambda>x. addr (snd x)) (A @ (k, x) # B))"
      using level_distinct [OF tree_okD(1) [OF R(1)] order.refl] unfolding level_pages_def lev(1) .
    then show ?thesis using True y lev(2) R(6) by (auto simp: place_def image_iff)
  next
    case False
    obtain C k' z D where z: "tree st addr l = C @ (k', z) # D" "addr z = wc_pg mc ! l" using path_level [OF on_path_sub [OF R(18) l]] by blast
    then show ?thesis using level_apart [OF tree_okD(1) [OF R(1)], of l lv "(k', z)" y] False l yl by simp
  qed
qed

lemma split_level_nodes:
  assumes ready: "split_ready pmalloc fd klim leaf lv mp newindx new nn addr inuse mc st" and lev: "tree st addr lv = A @ (k, x) # B" "addr x = mp"
    and lev': "level mem addr' root lv' = A @ (k, x) # (key, number) # B" "addr' x = mp" "addr' number = rp"
    and others: "\<And>y. y \<in> set (A @ B) \<Longrightarrow> addr' (snd y) = addr (snd y) \<and> mem (addr (snd y)) = ws_mem st (addr (snd y))"
    and nodes: "nodes_at mem mp = take s items" "nodes_at mem rp = drop s items"
  shows "\<exists>before after. level_nodes (ws_mem st) addr (ws_root st) lv = before @ nodes_at (ws_mem st) mp @ after
    \<and> level_nodes mem addr' root lv' = before @ items @ after"
proof -
  let ?f = "\<lambda>ys. concat (List.map (nodes_at (ws_mem st)) (List.map (\<lambda>x. addr (snd x)) ys))"
  have same: "List.map (\<lambda>x. nodes_at mem (addr' (snd x))) ys = List.map (\<lambda>x. nodes_at (ws_mem st) (addr (snd x))) ys" if "set ys \<subseteq> set (A @ B)" for ys
  proof (rule map_cong [OF refl])
    fix y
    assume "y \<in> set ys"
    then show "nodes_at mem (addr' (snd y)) = nodes_at (ws_mem st) (addr (snd y))" using others [of y] that by (auto simp: nodes_at_def)
  qed
  have "level_nodes mem addr' root lv' = ?f A @ (nodes_at mem mp @ nodes_at mem rp) @ ?f B"
    unfolding level_nodes_def level_pages_def lev' using same [of A] same [of B] lev'(2,3) by (simp add: comp_def cong: map_cong)
  also have "nodes_at mem mp @ nodes_at mem rp = items" unfolding nodes by simp
  finally show ?thesis using lev(2) unfolding level_nodes_def level_pages_def lev(1)
    by (intro exI [of _ "?f A"] exI [of _ "?f B"]) simp
qed

text \<open>
  C14. The new node has no overflow pages and is added without \<open>MDB_APPEND\<close> and \<open>MDB_SPLIT_REPLACE\<close>, and
  the page and each page above it without room can be split (\<open>can_split\<close>, \<open>parents_split\<close>): where the
  code searches for the split point, no node takes more than half a page, so that C28 applies; where
  it takes the middle unchecked, both halves fit. What happens where they do not is C29.

  Then \<open>mdb_page_split\<close> returns, splits the pages above as far as it has to, and makes a new root if it
  gets there. If it succeeds, the level of the page has one page more: \<open>rp\<close>, behind \<open>mp\<close>, starting
  at the first key of its nodes, and the two have the old nodes and the new one in order (without the
  first key on a branch page). All other pages of the level are as they were, so the new node is the
  only one the leaves of the tree have got. The whole tree is in good order again, one level deeper at
  most. Otherwise a new page or memory was refused, and all pages in use are as before.
\<close>

theorem page_split_inserts:
  assumes "good_malloc malloc" and "writer_inv live freed fd (ws_env st) (ws_txn st)"
    and "split_ready pmalloc fd klim leaf lv mp newindx (newkey, newdata, newpgno, nflags) nn addr inuse mc st"
    and "tree st addr lv = A @ (k, x) # B" and "addr x = mp" and "items = inserted newindx nn (nodes_at (ws_mem st) mp)"
  shows "\<exists>rc mc' st'. mdb_page_split malloc pmalloc fd newkey newdata newpgno nflags mc st = Some (rc, mc', st')
    \<and> writer_inv live freed fd (ws_env st') (ws_txn st')
    \<and> (if rc = MDB_SUCCESS then
         \<exists>d addr' rp number s. d \<le> 1 \<and> ws_depth st' = ws_depth st + d \<and> tree_ok fd klim leaf (lv + d) addr' st'
           \<and> tree st' addr' (lv + d) = A @ (k, x) # (nd_key (items ! s), number) # B \<and> addr' x = mp \<and> addr' number = rp
           \<and> nodes_at (ws_mem st') mp = first_blank leaf (take s items) \<and> nodes_at (ws_mem st') rp = first_blank leaf (drop s items)
           \<and> 1 \<le> s \<and> s < length items
           \<and> (\<forall>y\<in>set (A @ B). addr' (snd y) = addr (snd y) \<and> ws_mem st' (addr (snd y)) = ws_mem st (addr (snd y)))
           \<and> (leaf \<longrightarrow> (\<exists>before after. level_nodes (ws_mem st) addr (ws_root st) lv = before @ nodes_at (ws_mem st) mp @ after
                \<and> level_nodes (ws_mem st') addr' (ws_root st') (lv + d) = before @ items @ after))
       else split_failed malloc pmalloc fd (lv + 2) st rc mc mc' st')"
proof -
  obtain rc mc' st' where r: "mdb_page_split malloc pmalloc fd newkey newdata newpgno nflags mc st = Some (rc, mc', st')"
    "split_outcome live freed malloc pmalloc fd klim leaf lv mp newindx nn addr mc st rc mc' st'"
    using page_split_result [OF assms(1-3)] by blast
  have inv: "writer_inv live freed fd (ws_env st') (ws_txn st')" using r(2) by (simp add: split_outcome_def)
  show ?thesis
  proof (cases "rc = MDB_SUCCESS")
    case False
    then show ?thesis using r by (simp add: split_outcome_def)
  next
    case True
    then obtain d addr' rp number s where "split_done pmalloc fd klim leaf lv mp newindx nn addr mc st d addr' rp number s mc' st'"
      using r(2) by (auto simp: split_outcome_def)
    note D = split_doneD [OF this]
    have S: "tree_ok fd klim leaf (lv + d) addr' st'" "tree st' addr' (lv + d) = A @ (k, x) # (nd_key (items ! s), number) # B"
      "nodes_at (ws_mem st') mp = first_blank leaf (take s items)" "nodes_at (ws_mem st') rp = first_blank leaf (drop s items)" "1 \<le> s" "s < length items"
      using D(8) [OF assms(4,5)] unfolding assms(6) [symmetric] by (simp_all add: split_at_def)
    have x: "addr' x = mp"
      using tree_okD(2) [OF split_readyD(1) [OF assms(3)] order.refl, of "(k, x)"] assms(4,5) D(5) by (simp add: page_held_def)
    have others: "addr' (snd y) = addr (snd y) \<and> ws_mem st' (addr (snd y)) = ws_mem st (addr (snd y))" if "y \<in> set (A @ B)" for y
      using level_others [OF assms(3-5) that] D(5,10) by blast
    have "\<exists>before after. level_nodes (ws_mem st) addr (ws_root st) lv = before @ nodes_at (ws_mem st) mp @ after
        \<and> level_nodes (ws_mem st') addr' (ws_root st') (lv + d) = before @ items @ after" if leaf
      by (rule split_level_nodes [OF assms(3-5) S(2) x D(6) others]) (use S(3,4) that leaf_blank in simp_all)
    then have "\<exists>d addr' rp number s. d \<le> 1 \<and> ws_depth st' = ws_depth st + d \<and> tree_ok fd klim leaf (lv + d) addr' st'
           \<and> tree st' addr' (lv + d) = A @ (k, x) # (nd_key (items ! s), number) # B \<and> addr' x = mp \<and> addr' number = rp
           \<and> nodes_at (ws_mem st') mp = first_blank leaf (take s items) \<and> nodes_at (ws_mem st') rp = first_blank leaf (drop s items)
           \<and> 1 \<le> s \<and> s < length items
           \<and> (\<forall>y\<in>set (A @ B). addr' (snd y) = addr (snd y) \<and> ws_mem st' (addr (snd y)) = ws_mem st (addr (snd y)))
           \<and> (leaf \<longrightarrow> (\<exists>before after. level_nodes (ws_mem st) addr (ws_root st) lv = before @ nodes_at (ws_mem st) mp @ after
                \<and> level_nodes (ws_mem st') addr' (ws_root st') (lv + d) = before @ items @ after))"
      using D(1,2,6) S x others by blast
    then show ?thesis using r(1) inv True by (intro exI conjI) (assumption, assumption, simp)
  qed
qed

text \<open>A cursor on a path down to level \<open>lv\<close>, at a given node there.\<close>

definition on_entry :: "bool \<Rightarrow> nat \<Rightarrow> (mdb_id \<Rightarrow> nat) \<Rightarrow> write_state \<Rightarrow> wcursor \<Rightarrow> mdb_node \<Rightarrow> bool" where
  "on_entry leaf lv addr st m n =
     (let ns = nodes_at (ws_mem st) (wc_pg m ! lv) in
      on_path (ws_mem st) addr (ws_root st) lv m \<and> wc_ki m ! lv < length ns \<and> same_entry leaf n (ns ! (wc_ki m ! lv)))"

lemma entry_kept:
  assumes ready: "split_ready pmalloc fd klim leaf lv mp newindx new nn addr inuse mc st"
    and result: "split_done pmalloc fd klim leaf lv mp newindx nn addr mc st d addr' rp number s mc' st'"
    and kept: "cursor_kept (ws_depth st) lv d mp rp newindx s addr' st' m m'"
  shows "if wc_live m
         then (\<forall>n. on_entry leaf lv addr st m n \<longrightarrow> on_entry leaf (lv + d) addr' st' m' n)
           \<and> wc_top m' = wc_top m + d \<and> (\<forall>j. lv < j \<and> j \<le> ws_depth st \<longrightarrow> place (j + d) m' = place j m)
         else m' = m"
proof (cases "wc_live m")
  case False
  then show ?thesis using kept by (simp add: cursor_kept_def)
next
  case True
  note R = split_readyD [OF ready] and D = split_doneD [OF result]
  let ?ns = "nodes_at (ws_mem st) mp"
  obtain A k x B where lev: "tree st addr lv = A @ (k, x) # B" "addr x = mp" using path_level [OF R(18)] R(6) by (auto simp: place_def)
  have S: "nodes_at (ws_mem st') mp = first_blank leaf (take s (inserted newindx nn ?ns))"
    "nodes_at (ws_mem st') rp = first_blank leaf (drop s (inserted newindx nn ?ns))" "s \<le> length ?ns"
    using D(8) [OF lev] by (simp_all add: split_at_def)
  have ne: "rp \<noteq> mp" using D(7) R(2,3) path_tree [OF R(18) order.refl order.refl] R(6) by (auto simp: blocks_ok_def place_def)
  have K: "on_path (ws_mem st') addr' (ws_root st') (lv + d) m'" "wc_top m' = wc_top m + d"
    "place (lv + d) m' = (if wc_pg m ! lv = mp then moved_to mp rp newindx s (wc_ki m ! lv) else place lv m)"
    "\<forall>j. lv < j \<and> j \<le> ws_depth st \<longrightarrow> place (j + d) m' = place j m"
    using kept True by (simp_all add: cursor_kept_def follows_def)
  have "on_entry leaf (lv + d) addr' st' m' n" if e: "on_entry leaf lv addr st m n" for n
  proof (cases "wc_pg m ! lv = mp")
    case True
    then have "wc_ki m ! lv < length ?ns" "same_entry leaf n (?ns ! (wc_ki m ! lv))" using e by (simp_all add: on_entry_def Let_def)
    moreover have "same_entry leaf a b \<Longrightarrow> same_entry leaf b c \<Longrightarrow> same_entry leaf a c" for a b c by (auto simp: same_entry_def split: if_splits)
    ultimately show ?thesis
      using moved_entry [of "wc_ki m ! lv" ?ns newindx s rp mp "nodes_at (ws_mem st')" leaf nn] R(12) S ne K(1,3) True
      by (auto simp: on_entry_def place_def Let_def)
  next
    case False
    obtain C k' y E where y: "tree st addr lv = C @ (k', y) # E" "addr y = wc_pg m ! lv"
      using path_level [of "ws_mem st" addr "ws_root st" lv m] e by (auto simp: on_entry_def Let_def)
    then have "(k', y) \<in> set (A @ B)" using False lev by (metis (no_types, lifting) Un_iff in_set_conv_decomp list.set_intros(1) prod.inject set_ConsD set_append)
    then have "ws_mem st' (wc_pg m ! lv) = ws_mem st (wc_pg m ! lv)"
      using level_others [OF ready lev, of "(k', y)"] D(10) y(2) by simp
    then show ?thesis using e K(1,3) False by (simp add: on_entry_def place_def nodes_at_def Let_def)
  qed
  then show ?thesis using True K(2,4) by simp
qed

lemma own_entry:
  assumes ready: "split_ready pmalloc fd klim leaf lv mp newindx new nn addr inuse mc st"
    and result: "split_done pmalloc fd klim leaf lv mp newindx nn addr mc st d addr' rp number s mc' st'"
  shows "on_entry leaf (lv + d) addr' st' mc' nn"
proof -
  note R = split_readyD [OF ready] and D = split_doneD [OF result]
  let ?ns = "nodes_at (ws_mem st) mp"
  obtain A k x B where lev: "tree st addr lv = A @ (k, x) # B" "addr x = mp" using path_level [OF R(18)] R(6) by (auto simp: place_def)
  have S: "nodes_at (ws_mem st') mp = first_blank leaf (take s (inserted newindx nn ?ns))"
    "nodes_at (ws_mem st') rp = first_blank leaf (drop s (inserted newindx nn ?ns))" "s \<le> length ?ns"
    using D(8) [OF lev] by (simp_all add: split_at_def)
  have "place (lv + d) mc' = own_place mp rp newindx s" "on_path (ws_mem st') addr' (ws_root st') (lv + d) mc'"
    using D(11) by (simp_all add: own_kept_def follows_def)
  then show ?thesis
    using new_entry [of newindx ?ns s "nodes_at (ws_mem st')" mp leaf nn rp] R(12) S by (auto simp: on_entry_def place_def Let_def)
qed

text \<open>
  C15. After a successful split, under the conditions of C14, every cursor of the transaction is where
  it was: it is on a path down the tree, to the node it was on before, on whichever page that is now,
  and further down nothing has changed. The cursor of the split is on the new node. On a branch page
  the same node means the same child.
\<close>

theorem split_keeps_cursors:
  assumes "good_malloc malloc" and "writer_inv live freed fd (ws_env st) (ws_txn st)"
    and "split_ready pmalloc fd klim leaf lv mp newindx (newkey, newdata, newpgno, nflags) nn addr inuse mc st"
    and "mdb_page_split malloc pmalloc fd newkey newdata newpgno nflags mc st = Some (MDB_SUCCESS, mc', st')"
  shows "\<exists>d addr'. ws_depth st' = ws_depth st + d \<and> on_entry leaf (lv + d) addr' st' mc' nn
    \<and> list_all2 (\<lambda>m m'. if wc_live m
         then (\<forall>n. on_entry leaf lv addr st m n \<longrightarrow> on_entry leaf (lv + d) addr' st' m' n)
           \<and> wc_top m' = wc_top m + d \<and> (\<forall>j. lv < j \<and> j \<le> ws_depth st \<longrightarrow> place (j + d) m' = place j m)
         else m' = m) (ws_cursors st) (ws_cursors st')"
proof -
  obtain d addr' rp number s where D: "split_done pmalloc fd klim leaf lv mp newindx nn addr mc st d addr' rp number s mc' st'"
    using page_split_result [OF assms(1-3)] assms(4) by (auto simp: split_outcome_def)
  show ?thesis
    by (intro exI conjI, rule split_doneD(2) [OF D], rule own_entry [OF assms(3) D],
      rule list.rel_mono_strong [OF split_doneD(12) [OF D]], rule entry_kept [OF assms(3) D])
qed

section \<open>Splits that fail\<close>

text \<open>
  C29. On a page of 20 nodes and more a small new node that is not the last is taken to fit wherever
  the page is split, and the page is split in the middle. When the right half then does not fit into
  a page, the split fails with \<open>MDB_PAGE_FULL\<close> and the transaction is in error, even if another split
  point would do; unless it has failed before, for want of a page or memory. Here the parent has room
  for the separator, the first key of the right half.
\<close>

theorem split_overflows:
  assumes "good_malloc malloc" and "writer_inv live freed fd (ws_env st) (ws_txn st)"
    and "ns = nodes_at (ws_mem st) mp" and "psize = unat (me_psize (ws_env st))" and "items = inserted newindx nn ns"
    and "below_parent pmalloc klim leaf mp parent newindx (nd_key (items ! ((length ns + 1) div 2))) inuse mc st"
    and "new_ready klim leaf newindx (newkey, newdata, newpgno, nflags) nn (me_nodemax (ws_env st))"
    and "20 \<le> length ns" and "node_bytes nn + 2 \<le> (psize - PAGEHDRSZ) div 16" and "newindx < length ns"
    and "psize - PAGEHDRSZ < used (first_blank leaf (drop ((length ns + 1) div 2) items))"
  shows "\<exists>rc mc' st'. mdb_page_split malloc pmalloc fd newkey newdata newpgno nflags mc st = Some (rc, mc', st') \<and> rc \<noteq> MDB_SUCCESS
    \<and> (rc = MDB_PAGE_FULL \<and> wt_error (ws_txn st') \<or> split_failed malloc pmalloc fd 1 st rc mc mc' st')"
proof -
  have "\<not> split_checked (length ns) newindx (node_bytes nn + 2) (psize - PAGEHDRSZ)" using assms(8-10) by (simp add: split_checked_def)
  then show ?thesis
    unfolding mdb_page_split_def Suc_eq_plus1 [symmetric] split_levels.simps
    using assms(6-11) by (intro page_split_overflow [OF assms(1-4) refl _ _ _ _ _ refl, where klim = klim and leaf = leaf and nn = nn]) (simp_all add: assms(5))
qed

section \<open>A sample\<close>

text \<open>
  A leaf, page 4, below the root, page 3. The transaction has three loose pages to take, and enough
  memory.
\<close>

definition split_memory :: "nat \<Rightarrow> nat \<Rightarrow> nat option" where "split_memory k n = Some (200 + k)"

definition split_txn :: write_txn where
  "split_txn = sample_txn\<lparr>wt_loose_pgs := [(72, 10), (73, 11), (74, 12)], wt_loose_count := 3,
     wt_dirty_list := \<lparr>mid = 5, mptr = 0\<rparr> # [\<lparr>mid = 3, mptr = 160\<rparr>, \<lparr>mid = 4, mptr = 128\<rparr>, \<lparr>mid = 10, mptr = 72\<rparr>,
       \<lparr>mid = 11, mptr = 73\<rparr>, \<lparr>mid = 12, mptr = 74\<rparr>] @ replicate (MDB_IDL_UM_MAX - 5) \<lparr>mid = 0, mptr = 0\<rparr>\<rparr>"

definition split_sample :: "bytes \<Rightarrow> bytes \<Rightarrow> wcursor list \<Rightarrow> write_state" where
  "split_sample mp parent cs = sample_state\<lparr>ws_txn := split_txn, ws_mem := (\<lambda>_. fresh_page FLAG_LEAF 4096)(128 := mp, 160 := parent),
     ws_root := 3, ws_depth := 2, ws_cursors := cs\<rparr>"

definition split_cursor :: "nat \<Rightarrow> wcursor" where
  "split_cursor i = \<lparr>wc_pg = [160, 128, 0, 0], wc_ki = [0, i, 0, 0], wc_snum = 2, wc_top = 1, wc_live = True\<rparr>"

definition split_addr :: "mdb_id \<Rightarrow> nat" where "split_addr x = (if x = 3 then 160 else 128)"

lemma split_sample_simps [simp]:
  "ws_env (split_sample mp parent cs) = sample_page_env 0 None" "ws_txn (split_sample mp parent cs) = split_txn"
  "ws_mem (split_sample mp parent cs) 128 = mp" "ws_mem (split_sample mp parent cs) 160 = parent" "ws_root (split_sample mp parent cs) = 3"
  "ws_depth (split_sample mp parent cs) = 2" "ws_cursors (split_sample mp parent cs) = cs"
  "b \<notin> {128, 160} \<Longrightarrow> ws_mem (split_sample mp parent cs) b = fresh_page FLAG_LEAF 4096"
  by (auto simp: split_sample_def sample_state_def)

lemma split_env: "me_psize (sample_page_env 0 None) = 4096" "me_nodemax (sample_page_env 0 None) = 2038" "me_dpages (sample_page_env 0 None) = [64]"
  by (simp_all add: sample_page_env_def)

lemma split_txn_simps: "wt_next_pgno split_txn = 20" "wt_loose_pgs split_txn = [(72, 10), (73, 11), (74, 12)]" "dirty split_txn = {3, 4, 10, 11, 12}"
  "wt_txnid split_txn = 9" "dirty_ok split_txn"
  by (simp_all add: split_txn_def sample_txn_def dirty_def dirty_ok_def id2_ids_def ascending_def MDB_IDL_UM_MAX_def)

lemma split_free: "all_free sample_freedb (sample_page_env 0 None) = {#5, 6, 7, 9#}"
  by (simp add: all_free_def sample_unread) (simp add: sample_page_env_def free_pages_def midl_list_def idl_ids_def add_mset_commute)

lemma split_inv: "writer_inv {8} sample_freed sample_freedb (ws_env (split_sample mp parent cs)) (ws_txn (split_sample mp parent cs))"
proof -
  have "pages_apart sample_freedb (sample_page_env 0 None) split_txn" by (simp add: pages_apart_def split_free split_txn_simps)
  moreover have "loose_ok split_txn" by (simp add: loose_ok_def split_txn_simps)
  moreover have "none_older {8} (me_pgoldest (sample_page_env 0 None))"
    "\<exists>o0. mdb_find_oldest (wt_txnid split_txn) (me_txns (sample_page_env 0 None)) = Some o0 \<and> none_older {8} o0"
    using sample_inv by (simp_all add: writer_inv_def split_txn_simps) (simp add: sample_txn_def)
  ultimately show ?thesis unfolding writer_inv_def split_sample_simps using sample_pools split_txn_simps(5) by blast
qed

lemma split_blocks: "blocks_ok split_memory {128, 160} (split_sample mp parent cs)"
proof -
  have "pool split_memory (sample_page_env 0 None) split_txn \<inter> {128, 160} = {}"
    by (auto simp: pool_def split_env split_txn_simps split_memory_def)
  moreover have "fresh_blocks split_memory (sample_page_env 0 None) split_txn"
    by (auto simp: fresh_blocks_def split_env split_txn_simps split_memory_def)
  moreover have "length (fresh_page FLAG_LEAF 4096) = 4096" by (simp add: fresh_page_def PAGEHDRSZ_def)
  moreover have "ws_mem (split_sample mp parent cs) b = fresh_page FLAG_LEAF 4096" if "b \<in> pool split_memory (sample_page_env 0 None) split_txn" for b
    using calculation(1) that by (intro split_sample_simps) blast
  ultimately show ?thesis unfolding blocks_ok_def split_sample_simps by (auto simp: split_env)
qed

lemma never_refused:
  assumes "refused_in malloc pmalloc fd n env txn rc" and "\<And>k m. pmalloc k m \<noteq> None" and "n \<le> length (wt_loose_pgs txn)"
  shows False
  using assms
proof induction
  case (now k env txn rc env' txn' n)
  then show ?case by (cases "wt_loose_pgs txn") (auto simp: mdb_page_alloc_def)
next
  case (memory k n' n env txn)
  then show ?case by simp
next
  case (later k env txn q env' txn' n ps rc)
  then show ?case by (cases "wt_loose_pgs txn") (auto simp: mdb_page_alloc_def)
qed

lemma sample_not_failed: "n \<le> 3 \<Longrightarrow> \<not> split_failed malloc split_memory fd n (split_sample mp parent cs) rc mc mc' st'"
  using never_refused [of malloc split_memory fd n "sample_page_env 0 None" split_txn rc]
  by (auto simp: split_failed_def split_memory_def split_txn_simps)

text \<open>The root, with one child.\<close>

lemma root_page: "\<exists>p. good_page False 4096 2038 511 p \<and> raw_nodes p = Some [Branch_node [] 4] \<and> raw_page_pgno p = Some 3"
proof (rule build_good)
  have "describes False 0 (the_val [], None, 4, 0) (Branch_node [] 4)"
    using the_val_ok [of "[]"] by (simp add: describes_def key_bytes_def)
  then show "\<forall>n\<in>set [Branch_node [] 4]. (\<exists>args nodemax. describes False nodemax args n) \<and> node_bytes n \<le> 2038 \<and> length (nd_key n) \<le> 511"
    by (simp add: EVEN_def NODESIZE_def) blast
qed (simp add: EVEN_def NODESIZE_def)

lemma sample_tree:
  assumes "raw_nodes parent = Some [Branch_node [] 4]" and "raw_nodes mp = Some ns" and st_def: "st = split_sample mp parent cs"
  shows "tree st split_addr 0 = [([], 3)]" "tree st split_addr 1 = [([], 4)]" "tree_pages (ws_mem st) split_addr (ws_root st) 1 = [160, 128]"
    "nodes_at (ws_mem st) 128 = ns" "nodes_at (ws_mem st) 160 = [Branch_node [] 4]" "level_nodes (ws_mem st) split_addr (ws_root st) 1 = ns"
    "i < length ns \<Longrightarrow> on_entry True 1 split_addr st (split_cursor i) (ns ! i)" "on_path (ws_mem st) split_addr (ws_root st) 1 (split_cursor i)"
proof -
  show n: "nodes_at (ws_mem st) 128 = ns" "nodes_at (ws_mem st) 160 = [Branch_node [] 4]" using assms(1,2) by (simp_all add: st_def nodes_at_def)
  have a: "split_addr 3 = 160" "split_addr 4 = 128" "ws_root st = 3" by (simp_all add: split_addr_def st_def)
  show l: "tree st split_addr 0 = [([], 3)]" "tree st split_addr 1 = [([], 4)]" using n a by (simp_all add: level.simps(2))
  then show "tree_pages (ws_mem st) split_addr (ws_root st) 1 = [160, 128]" "level_nodes (ws_mem st) split_addr (ws_root st) 1 = ns"
    using n a by (simp_all add: level_nodes_def level_pages_def)
  show p: "on_path (ws_mem st) split_addr (ws_root st) 1 (split_cursor i)" for i using n a by (simp add: on_path_def split_cursor_def)
  then show "i < length ns \<Longrightarrow> on_entry True 1 split_addr st (split_cursor i) (ns ! i)"
    using n by (simp add: on_entry_def same_entry_def) (simp add: split_cursor_def)
qed

lemma sample_ready:
  assumes mp: "good_page True 4096 2038 511 mp" "raw_nodes mp = Some ns" "raw_page_pgno mp = Some 4"
    and parent: "good_page False 4096 2038 511 parent" "raw_nodes parent = Some [Branch_node [] 4]" "raw_page_pgno parent = Some 3"
    and new: "new_ready 511 True newindx new nn 2038" "newindx \<le> length ns" "can_split True 4096 ns (4080 - used ns) newindx nn"
  shows "split_ready split_memory sample_freedb 511 True 1 128 newindx new nn split_addr {128, 160} (split_cursor newindx)
    (split_sample mp parent [split_cursor 0, split_cursor 1])"
proof -
  let ?st = "split_sample mp parent [split_cursor 0, split_cursor 1]"
  note T = sample_tree [OF parent(2) mp(2) refl, where cs = "[split_cursor 0, split_cursor 1]"]
  have held: "page_held sample_freedb True 511 split_addr ?st 4" "page_held sample_freedb False 511 split_addr ?st 3"
    using mp(1,3) parent(1,3) by (simp_all add: page_held_def split_addr_def split_env taken_def split_free split_txn_simps)
  have "tree_ok sample_freedb 511 True 1 split_addr ?st"
    unfolding tree_ok_def
  proof (intro conjI allI impI ballI)
    show "distinct (tree_pages (ws_mem ?st) split_addr (ws_root ?st) 1)" unfolding T(3) by simp
    fix l x
    assume x: "l \<le> 1" "x \<in> set (tree ?st split_addr l)"
    then have "l = 0 \<or> l = 1" by linarith
    then show "page_held sample_freedb (True \<and> l = 1) 511 split_addr ?st (snd x)" using x T(1,2) held by auto
  qed
  moreover have "parents_split 511 1 (split_cursor newindx) ?st"
  proof -
    have "\<not> 4080 - used [Branch_node [] 4] < node_bytes (Branch_node key pgno) + 2" if "length key \<le> 511" for key pgno
      using that EVEN_le(2) [of "NODESIZE + length key"] by (simp add: EVEN_def NODESIZE_def)
    moreover have "wc_pg (split_cursor newindx) ! 0 = 160" by (simp add: split_cursor_def)
    ultimately show ?thesis using T(5) by (simp add: parents_split_def Let_def split_env PAGEHDRSZ_def)
  qed
  moreover have "cursor_ready 1 split_addr ?st (split_cursor i)" for i
    using T(8) by (simp add: cursor_ready_def stacks_of_def) (simp add: split_cursor_def)
  moreover have "wc_live (split_cursor newindx)" "place 1 (split_cursor newindx) = (128, newindx)" "wc_top (split_cursor newindx) = 1"
    "wc_snum (split_cursor newindx) = 2"
    by (simp_all add: split_cursor_def place_def)
  ultimately show ?thesis
    unfolding split_ready_def Let_def using T(3,4) new split_blocks by (simp add: split_env split_txn_simps PAGEHDRSZ_def insert_commute)
qed

text \<open>A third node between the two of a full page.\<close>

lemma third_node:
  "new_ready 511 True 1 (the_val ''c'', Some (the_val (filler 2029)), 0, 0) (Leaf_node ''c'' (filler 2029)) 2038"
  "can_split True 4096 two_nodes (4080 - used two_nodes) 1 (Leaf_node ''c'' (filler 2029))"
proof -
  have "describes True 2038 (the_val ''c'', Some (the_val (filler 2029)), 0, 0) (Leaf_node ''c'' (filler 2029))"
    by (rule describes_leaf) (simp_all add: filler_def)
  moreover have "\<not> F_ISSET 0 F_BIGDATA" "\<not> F_ISSET (0 :: 32 word) MDB_APPEND" "\<not> F_ISSET (0 :: 32 word) MDB_SPLIT_REPLACE"
    by (simp_all add: F_ISSET_def F_BIGDATA_def MDB_APPEND_def MDB_SPLIT_REPLACE_def)
  moreover have b: "node_bytes (Leaf_node ''c'' (filler 2029)) = 2038" "\<forall>n\<in>set two_nodes. node_bytes n = 2038"
    using two_nodes_sizes(1) by (meson list.set_intros)+
  ultimately show "new_ready 511 True 1 (the_val ''c'', Some (the_val (filler 2029)), 0, 0) (Leaf_node ''c'' (filler 2029)) 2038"
    unfolding new_ready_def by simp
  show "can_split True 4096 two_nodes (4080 - used two_nodes) 1 (Leaf_node ''c'' (filler 2029))"
    using b two_nodes_sizes(2,3) unfolding can_split_def split_checked_def by (simp add: PAGEHDRSZ_def)
qed

theorem page_split_inserts_witness:
  "\<exists>mp parent mc' st' addr d. raw_nodes mp = Some two_nodes
    \<and> mdb_page_split (\<lambda>n. Some (replicate n 0)) split_memory sample_freedb (the_val ''c'') (Some (the_val (filler 2029))) 0 0 (split_cursor 1)
        (split_sample mp parent [split_cursor 0, split_cursor 1]) = Some (MDB_SUCCESS, mc', st')
    \<and> level_nodes (ws_mem st') addr (ws_root st') (1 + d)
      = [Leaf_node ''b'' (filler 2029), Leaf_node ''c'' (filler 2029), Leaf_node ''d'' (filler 2029)]"
proof -
  let ?nn = "Leaf_node ''c'' (filler 2029)" and ?cs = "[split_cursor 0, split_cursor 1]" and ?malloc = "\<lambda>n. Some (replicate n (0 :: 64 word))"
  obtain mp where mp: "good_page True 4096 2038 511 mp" "raw_nodes mp = Some two_nodes" "raw_page_pgno mp = Some 4" using two_nodes_page by blast
  obtain parent where parent: "good_page False 4096 2038 511 parent" "raw_nodes parent = Some [Branch_node [] 4]" "raw_page_pgno parent = Some 3"
    using root_page by blast
  let ?st = "split_sample mp parent ?cs"
  have good: "good_malloc ?malloc" by (simp add: good_malloc_def)
  have idx: "1 \<le> length two_nodes" by (simp add: two_nodes_sizes)
  note ready = sample_ready [OF mp parent third_node(1) idx third_node(2)]
  note T = sample_tree [OF parent(2) mp(2) refl, where cs = ?cs]
  have lev: "tree ?st split_addr 1 = [] @ ([], 4) # []" "split_addr 4 = 128" using T(2) by (simp_all add: split_addr_def)
  from page_split_inserts [OF good split_inv ready lev refl]
  obtain rc mc' st' where r: "mdb_page_split ?malloc split_memory sample_freedb (the_val ''c'') (Some (the_val (filler 2029))) 0 0 (split_cursor 1) ?st
      = Some (rc, mc', st')"
    "if rc = MDB_SUCCESS then \<exists>d addr'. (True \<longrightarrow> (\<exists>before after. level_nodes (ws_mem ?st) split_addr (ws_root ?st) 1 = before @ nodes_at (ws_mem ?st) 128 @ after
        \<and> level_nodes (ws_mem st') addr' (ws_root st') (1 + d) = before @ inserted 1 ?nn (nodes_at (ws_mem ?st) 128) @ after))
     else split_failed ?malloc split_memory sample_freedb (1 + 2) ?st rc (split_cursor 1) mc' st'"
    by (elim exE conjE) (rule that, assumption, fastforce split: if_splits)
  have rc: "rc = MDB_SUCCESS" using r(2) sample_not_failed [of "1 + 2"] by (auto split: if_splits)
  then obtain d addr' before after where l: "two_nodes = before @ two_nodes @ after"
    "level_nodes (ws_mem st') addr' (ws_root st') (1 + d) = before @ inserted 1 ?nn two_nodes @ after"
    using r(2) unfolding T(4,6) by auto
  have "before = [] \<and> after = []" using arg_cong [OF l(1), of length] by simp
  then have "level_nodes (ws_mem st') addr' (ws_root st') (1 + d)
      = [Leaf_node ''b'' (filler 2029), Leaf_node ''c'' (filler 2029), Leaf_node ''d'' (filler 2029)]"
    using l(2) by (simp add: inserted_def two_nodes_def)
  then show ?thesis using r(1) mp(2) unfolding rc by blast
qed

theorem split_keeps_cursors_witness:
  "\<exists>mp parent mc' st' addr d m0 m1. raw_nodes mp = Some two_nodes
    \<and> mdb_page_split (\<lambda>n. Some (replicate n 0)) split_memory sample_freedb (the_val ''c'') (Some (the_val (filler 2029))) 0 0 (split_cursor 1)
        (split_sample mp parent [split_cursor 0, split_cursor 1]) = Some (MDB_SUCCESS, mc', st')
    \<and> ws_cursors st' = [m0, m1] \<and> on_entry True (1 + d) addr st' mc' (Leaf_node ''c'' (filler 2029))
    \<and> on_entry True (1 + d) addr st' m0 (Leaf_node ''b'' (filler 2029)) \<and> on_entry True (1 + d) addr st' m1 (Leaf_node ''d'' (filler 2029))"
proof -
  let ?nn = "Leaf_node ''c'' (filler 2029)" and ?cs = "[split_cursor 0, split_cursor 1]" and ?malloc = "\<lambda>n. Some (replicate n (0 :: 64 word))"
  obtain mp where mp: "good_page True 4096 2038 511 mp" "raw_nodes mp = Some two_nodes" "raw_page_pgno mp = Some 4" using two_nodes_page by blast
  obtain parent where parent: "good_page False 4096 2038 511 parent" "raw_nodes parent = Some [Branch_node [] 4]" "raw_page_pgno parent = Some 3"
    using root_page by blast
  let ?st = "split_sample mp parent ?cs"
  have good: "good_malloc ?malloc" by (simp add: good_malloc_def)
  have idx: "1 \<le> length two_nodes" by (simp add: two_nodes_sizes)
  note ready = sample_ready [OF mp parent third_node(1) idx third_node(2)]
  obtain rc mc' st' where r: "mdb_page_split ?malloc split_memory sample_freedb (the_val ''c'') (Some (the_val (filler 2029))) 0 0 (split_cursor 1) ?st
      = Some (rc, mc', st')"
    "split_outcome {8} sample_freed ?malloc split_memory sample_freedb 511 True 1 128 1 ?nn split_addr (split_cursor 1) ?st rc mc' st'"
    using page_split_result [OF good split_inv ready] by blast
  have rc: "rc = MDB_SUCCESS" using r(2) sample_not_failed [of "1 + 2"] by (auto simp: split_outcome_def split: if_splits)
  have live: "wc_live (split_cursor i)" for i by (simp add: split_cursor_def)
  obtain d addr m0 m1 where k: "on_entry True (1 + d) addr st' mc' ?nn" "ws_cursors st' = [m0, m1]"
    "\<forall>n. on_entry True 1 split_addr ?st (split_cursor 0) n \<longrightarrow> on_entry True (1 + d) addr st' m0 n"
    "\<forall>n. on_entry True 1 split_addr ?st (split_cursor 1) n \<longrightarrow> on_entry True (1 + d) addr st' m1 n"
    using split_keeps_cursors [OF good split_inv ready r(1) [unfolded rc]] live by (auto simp: list_all2_Cons1)
  have "on_entry True (1 + d) addr st' m0 (two_nodes ! 0)" "on_entry True (1 + d) addr st' m1 (two_nodes ! 1)"
    using k(3,4) sample_tree(7) [OF parent(2) mp(2) refl] two_nodes_sizes(2) by simp_all
  then have "on_entry True (1 + d) addr st' m0 (Leaf_node ''b'' (filler 2029))" "on_entry True (1 + d) addr st' m1 (Leaf_node ''d'' (filler 2029))"
    by (simp_all add: two_nodes_def)
  then show ?thesis using r(1) mp(2) k(1,2) unfolding rc by blast
qed

text \<open>Ten small nodes, and ten of a tenth of the page.\<close>

definition small_nodes :: "mdb_node list" where
  "small_nodes = List.map (\<lambda>k. Leaf_node [k] []) ''abcdefghij''"

definition large_nodes :: "mdb_node list" where
  "large_nodes = List.map (\<lambda>k. Leaf_node [k] (filler 383)) ''klmnopqrst''"

lemma twenty_nodes: "used small_nodes = 120" "used large_nodes = 3940" "length small_nodes = 10" "length large_nodes = 10"
    "n \<in> set (small_nodes @ large_nodes) \<Longrightarrow> node_bytes n \<le> 2038 \<and> length (nd_key n) = 1"
  by (auto simp: small_nodes_def large_nodes_def filler_def EVEN_def NODESIZE_def)

lemma twenty_nodes_page: "\<exists>mp. good_page True 4096 2038 511 mp \<and> raw_nodes mp = Some (small_nodes @ large_nodes) \<and> raw_page_pgno mp = Some pgno"
proof (rule build_good)
  have "\<exists>args nodemax. describes True nodemax args n" if "n \<in> set (small_nodes @ large_nodes)" for n
  proof -
    have "\<exists>k d. n = Leaf_node [k] d \<and> length d \<le> 383"
      using that unfolding small_nodes_def large_nodes_def set_append set_map filler_def by (elim UnE imageE) simp_all
    then obtain k d where n: "n = Leaf_node [k] d" "length d \<le> 383" by blast
    show ?thesis unfolding n(1) using describes_leaf [of "[k]" d 2038] n(2) by simp blast
  qed
  then show "\<forall>n\<in>set (small_nodes @ large_nodes). (\<exists>args nodemax. describes True nodemax args n) \<and> node_bytes n \<le> 2038 \<and> length (nd_key n) \<le> 511"
    using twenty_nodes(5) by fastforce
qed (simp add: twenty_nodes)

text \<open>The page could be split after twelve nodes.\<close>

theorem split_overflows_witness:
  "\<exists>mp parent mc' st'. raw_nodes mp = Some (small_nodes @ large_nodes)
    \<and> mdb_page_split (\<lambda>n. Some (replicate n 0)) split_memory sample_freedb (the_val ''ox'') (Some (the_val (filler 240))) 0 0 (split_cursor 15)
        (split_sample mp parent [split_cursor 0, split_cursor 1]) = Some (MDB_PAGE_FULL, mc', st')
    \<and> wt_error (ws_txn st') \<and> halves_fit True 4096 (inserted 15 (Leaf_node ''ox'' (filler 240)) (small_nodes @ large_nodes)) 12"
proof -
  let ?nn = "Leaf_node ''ox'' (filler 240)" and ?cs = "[split_cursor 0, split_cursor 1]" and ?ns = "small_nodes @ large_nodes"
  let ?malloc = "\<lambda>n. Some (replicate n (0 :: 64 word))" and ?new = "(the_val ''ox'', Some (the_val (filler 240)), 0, 0)"
  obtain mp where mp: "good_page True 4096 2038 511 mp" "raw_nodes mp = Some ?ns" using twenty_nodes_page by blast
  obtain parent where parent: "good_page False 4096 2038 511 parent" "raw_nodes parent = Some [Branch_node [] 4]" using root_page by blast
  let ?st = "split_sample mp parent ?cs"
  note T = sample_tree [OF parent(2) mp(2) refl, where cs = ?cs]
  have good: "good_malloc ?malloc" by (simp add: good_malloc_def)
  have nn: "node_bytes ?nn = 250" by (simp add: filler_def EVEN_def NODESIZE_def)
  have "describes True 2038 ?new ?nn" by (rule describes_leaf) (simp_all add: filler_def)
  then have new: "new_ready 511 True 15 ?new ?nn 2038"
    unfolding new_ready_def nn by (simp add: F_ISSET_def F_BIGDATA_def MDB_APPEND_def MDB_SPLIT_REPLACE_def)
  have items: "inserted 15 ?nn ?ns = small_nodes @ inserted 5 ?nn large_nodes" "length ?ns = 20" by (simp_all add: inserted_def twenty_nodes)
  have large: "used (inserted 5 ?nn large_nodes) = 4192" "used (take 2 large_nodes) = 788" "used (drop 2 (inserted 5 ?nn large_nodes)) = 3404"
    by (simp_all add: inserted_def large_nodes_def filler_def EVEN_def NODESIZE_def)
  have fit: "halves_fit True 4096 (inserted 15 ?nn ?ns) 12"
    unfolding items halves_fit_def leaf_blank using twenty_nodes large by (simp add: PAGEHDRSZ_def inserted_def)
  have full: "4096 - PAGEHDRSZ < used (first_blank True (drop ((length ?ns + 1) div 2) (inserted 15 ?nn ?ns)))"
    unfolding items leaf_blank using twenty_nodes large by (simp add: PAGEHDRSZ_def)
  have sep: "nd_key (inserted 15 ?nn ?ns ! ((length ?ns + 1) div 2)) = ''k''"
    unfolding items by (simp add: nth_append twenty_nodes inserted_def) (simp add: large_nodes_def)
  have C: "wc_top (split_cursor 15) = 1" "stacks_of 1 (split_cursor 15)" "place 1 (split_cursor 15) = (128, 15)" "wc_pg (split_cursor 15) ! 0 = 160"
    "wc_ki (split_cursor 15) ! 0 = 0"
    by (simp_all add: split_cursor_def stacks_of_def place_def)
  have "below_parent split_memory 511 True 128 160 15 (nd_key (inserted 15 ?nn ?ns ! ((length ?ns + 1) div 2))) {128, 160} (split_cursor 15) ?st"
    unfolding sep below_parent_def Let_def C T(5) using mp(1) parent(1) split_blocks C
    by (simp add: split_env split_txn_simps PAGEHDRSZ_def EVEN_def NODESIZE_def)
  moreover have "?ns = nodes_at (ws_mem ?st) 128" "4096 = unat (me_psize (ws_env ?st))" "me_nodemax (ws_env ?st) = 2038"
    using T(4) by (simp_all add: split_env)
  moreover have "node_bytes ?nn + 2 \<le> (4096 - PAGEHDRSZ) div 16" unfolding nn by (simp add: PAGEHDRSZ_def)
  moreover have "20 \<le> length ?ns" "15 < length ?ns" unfolding items(2) by simp_all
  ultimately obtain rc mc' st' where r: "mdb_page_split ?malloc split_memory sample_freedb (the_val ''ox'') (Some (the_val (filler 240))) 0 0 (split_cursor 15) ?st
      = Some (rc, mc', st')"
    "rc = MDB_PAGE_FULL \<and> wt_error (ws_txn st') \<or> split_failed ?malloc split_memory sample_freedb 1 ?st rc (split_cursor 15) mc' st'"
    using split_overflows [OF good split_inv _ _ refl, of ?ns mp parent ?cs 128 4096 split_memory 511 True 160 15 ?nn "{128, 160}" "split_cursor 15"
        "the_val ''ox''" "Some (the_val (filler 240))" 0 0] new full
    by auto
  have "rc = MDB_PAGE_FULL" "wt_error (ws_txn st')" using r(2) sample_not_failed [of 1] by auto
  then show ?thesis using r(1) mp(2) fit by blast
qed

end
