(* ===== verification/Spec2Isabelle.thy ===== *)
theory Spec2Isabelle
  imports Json_Properties Controller_Properties Lmdb_Properties
    Lmdb_Node_Properties Lmdb_Meta_Properties Lmdb_Writer_Properties
    Lmdb_Split_Properties
begin

text \<open>
  A verification library for Cookpit, a Flickr client whose C++ core (\<open>cpp/src\<close>) is shared by an
  Android and an iOS application, together with the two vendored libraries its results and its
  cache rest on: json11 and LMDB with its C++ wrapper. All paths below are relative to the sources.

  PARTS OF THE PROGRAM. A controller (search, comments, details, map, explore) is created by the
  application, which subscribes an observer to it. A request announces itself to the observer,
  fetches an address with curl and hands the answer to a success or a failure handler, which
  reads the response with json11 and publishes an update. The explore controller also keeps each
  response in an LMDB file under the address of its page and shows it while offline. LMDB keeps
  records in a B+tree of pages: a reading transaction descends from a root with cursors, a
  writing one works on copies of pages, listed in id lists, and commits by writing one of two
  meta pages.

  CONVENTIONS (\<^theory_text>\<open>Prelude\<close>, \<^theory_text>\<open>Cpp_Std\<close>, \<^theory_text>\<open>Ieee_Double\<close>). A \<open>std::string\<close> is a list of bytes. C++ code that can
  throw returns an error or a value (\<open>cpp_error + 'a\<close>); C code returns its \<open>int\<close> code. An access
  that the C language leaves undefined (an index outside an array, a store outside a page, a
  failed assertion) is \<open>None\<close>, so a theorem that gives \<open>Some\<close> includes memory safety. C integers
  are words or, where the code compares them with their sign, integers of the same range.
  \<open>Cpp_Std\<close> has \<open>to_string\<close>, \<open>stoi\<close>, \<open>strtol\<close>, \<open>std::set\<close>, \<open>std::map\<close>, \<open>vector::insert\<close>; \<open>Ieee_Double\<close>
  the binary64 values with correct rounding of decimal texts.

  APPLICATION (cpp/src).
  \<^item> \<open>Api\<close>: \<open>constants.hpp\<close>, \<open>api.cpp\<close>. \<open>Utility\<close>: \<open>utility.cpp\<close>; curl is the parameter \<open>perform\<close>, the
    iteration order of an \<open>unordered_map\<close> the parameter \<open>iter\<close>.
  \<^item> \<open>Controller\<close>: what the five controllers share, with the locales \<open>success_handler\<close>, \<open>handlers\<close>
    (the contract of a pair of handlers, from which the protocol of a whole request follows) and
    \<open>run_invariant\<close> (invariants of sessions). They are interpreted in \<open>Search_Controller\<close>,
    \<open>Photo_Controllers\<close>, \<open>Map_Controller\<close> and \<open>Explore_Props\<close> on the handlers of
    \<open>search_controller.cpp\<close>, \<open>photo_comment_controller.cpp\<close>, \<open>photo_detail_controller.cpp\<close>,
    \<open>map_controller.cpp\<close> and \<open>explore_controller.cpp\<close> (modelled in \<open>Explore_Controller\<close>).
  \<^item> \<open>Controller_Properties\<close>: sessions of the search and of the explore controller, the effect of
    whole requests, paging and cache, and the requests that go wrong.

  JSON (vendors/json11). \<open>Json_Value\<close> (values, comparison), \<open>Json_Dump\<close> (printing, \<open>has_shape\<close>),
  \<open>Json_Parse\<close> (the class \<open>JsonParser\<close>, one definition per member function), \<open>Json_Progress\<close> (every
  member keeps the index inside the text and moves on), \<open>Json_Parse_Props\<close> (results are well
  formed and of bounded depth), \<open>Json_Roundtrip\<close>, \<open>Json_Order\<close> (the comparison operators are
  transitive), \<open>Json_Properties\<close>. The recursion of \<open>parse_json\<close>
  runs on \<open>parse_fuel\<close>, twice the length of the rest of the text and more: \<open>parse_json_ends\<close>
  shows that it never runs out.

  DATABASE.
  \<^item> \<open>Lmdbxx\<close> (vendors/lmdbxx/lmdb++.h): environment, transactions and records at the level of the
    contract of \<open>lmdb.h\<close>, return codes as exceptions, the life of a transaction handle; the locale
    \<open>record_store\<close>, interpreted on the records of a write transaction. The loop over a cursor
    (\<open>scan_loop\<close>) has one unit of fuel per record and one for the end.
  \<^item> \<open>Lmdb_Pages\<close>, \<open>Lmdb_Cursor\<close> (vendors/lmdb/libraries/liblmdb/mdb.c): pages and nodes, key
    comparison, \<open>mdb_page_get\<close>, \<open>mdb_node_search\<close>, and the cursor with its stack: descent, siblings,
    first, last, next, prev, set, get. The descent has one unit of fuel per place of the stack
    (\<open>CURSOR_STACK\<close>), for a deeper tree is refused by \<open>mdb_cursor_push\<close>; \<open>mdb_cursor_sibling\<close> recurs
    once per level. \<open>Lmdb_Pages_Props\<close>, \<open>Lmdb_Cursor_Props\<close>, \<open>Lmdb_Search_Props\<close>, \<open>Lmdb_Get_Props\<close>,
    \<open>Lmdb_Set_Props\<close>: the tree below a root is a list of records, a stack is a position in it, and
    the operations are those of the list. \<open>lmdb_cursor_refines\<close> relates the operations the
    wrapper calls to the contract of \<open>Lmdbxx\<close>.
  \<^item> \<open>Lmdb_Bytes\<close>, \<open>Lmdb_Node\<close>: the bytes of a page and \<open>mdb_node_add\<close>, \<open>mdb_node_del\<close>, \<open>mdb_update_key\<close>
    on them. \<open>Lmdb_Node_Props\<close>, \<open>Lmdb_Layout\<close>: the layout invariant (the nodes tile the bytes from
    \<open>mp_upper\<close> on), kept by adding and deleting. \<open>Lmdb_Node_Properties\<close>: on the list of nodes the bytes
    hold, adding is insertion and deleting removal, with the exact free space; the nodes are those
    that the search of \<open>Lmdb_Pages\<close> reads.
  \<^item> \<open>Lmdb_Meta\<close>, \<open>Lmdb_Meta_Properties\<close>: reading and writing the meta pages, and the atomicity of a
    commit when the write of the meta page fails or is cut short and the old number is put back.
  \<^item> \<open>Lmdb_Idl\<close>, \<open>Lmdb_Idl_Lists\<close>, \<open>Lmdb_Idl_Sort\<close>, \<open>Lmdb_Idl_Sort_Props\<close>, \<open>Lmdb_Idl_Merge\<close> (midl.c,
    midl.h): lists of page numbers, with binary search proved once in the locale \<open>ordered_entries\<close>
    for both searches, quicksort with its explicit stack (\<open>sort_loop\<close> has fuel for twice as many
    rounds as there are ids, and no run needs more), and the merge in place.
  \<^item> \<open>Lmdb_Readers\<close>: the shared table of readers: taking and freeing slots, beginning transactions,
    clearing the slots of dead processes. \<open>Lmdb_Reader_Steps\<close>: readers and writers of all processes
    as a step relation with one access to the shared memory per step, and its invariant.
    \<open>Lmdb_Reader_Props\<close>, \<open>Lmdb_Reader_Properties\<close>: snapshots are kept, the dead are cleared, new
    transactions read the last commit. The mutexes are those of platforms without robust ones.
  \<^item> \<open>Lmdb_Alloc\<close>: \<open>mdb_page_alloc\<close>, with the pages in memory, the dirty list and the loose pages;
    the freeDB is the list of its records in key order, as its cursor gives them, and the loop over
    it recurs on that list. \<open>Lmdb_Alloc_Props\<close>: the search; \<open>Lmdb_Writer\<close>: the invariant of the pages
    of a writing transaction; \<open>Lmdb_Writer_Properties\<close>: pages handed out are nobody else's, and in
    every state that allocations of the transaction and steps of the readers reach (\<open>writing\<close>), no
    snapshot in use has them; each allocation is one step there.
  \<^item> \<open>Lmdb_Touch\<close>: copy on write, \<open>mdb_page_touch\<close> and \<open>mdb_page_unspill\<close>, on the bytes of the pages in
    memory and the cursors that point to them; \<open>Lmdb_Touch_Props\<close>, \<open>Lmdb_Touch_Properties\<close>: the page
    readers see is never changed.
  \<^item> \<open>Lmdb_Split\<close>: \<open>mdb_page_split\<close>, one definition per part: a new root, the copy of the pointers, the
    search for the split point, the separator, the split of a parent without room, moving the nodes,
    and the cursors. The loop that moves the nodes has one unit of fuel per node; the recursion up the
    stack has one per level and one for a new root, and \<open>split_levels_result\<close> shows that it needs no
    more. The \<open>n\<close>-th of the memory requests a split may make is answered by \<open>pmalloc n\<close>, four per
    level.
  \<^item> One level of a split: \<open>Lmdb_Split_Props\<close> (the split point), \<open>Lmdb_Move_Props\<close> (the two pages get
    the halves of the list of nodes, and the bytes of the copy become those of the page), \<open>Lmdb_Pool\<close>
    (the memory and the numbers a split may get are not in use), \<open>Lmdb_Split_Result\<close> and
    \<open>Lmdb_Split_Begin\<close> (the steps before and after the separator).
  \<^item> A split in the tree: \<open>Lmdb_Tree\<close> (the levels of the tree as lists of pages, each with the key its
    subtree starts at, and the path of a cursor), \<open>Lmdb_Split_Tree\<close> and \<open>Lmdb_Split_Link\<close> (the page
    becomes two, the path of each cursor follows), \<open>Lmdb_Split_Start\<close> and \<open>Lmdb_Split_Levels\<close> (what
    a split relies on, \<open>split_ready\<close>, and what it leaves), \<open>Lmdb_Split_Room\<close>, \<open>Lmdb_Split_Root\<close>,
    \<open>Lmdb_Split_Nested\<close> (the parent has room, the page is the root, the parent is split first), and
    \<open>Lmdb_Split_Induction\<close>, by induction on the level. \<open>Lmdb_Split_Overflow\<close>: the split whose right
    half does not fit. \<open>Lmdb_Split_Properties\<close>: the properties, on a sample for their witnesses.
  \<^item> \<open>Lmdb_Properties\<close>: the properties of pages, cursors and id lists, on a sample database for
    their witnesses.

  NOT MODELLED, and why.
  \<^item> Databases with sorted duplicates (\<open>MDB_DUPSORT\<close>): sub-cursors, sub-pages and \<open>mdb_node_shrink\<close>;
    the application opens its database without the flag. LEAF2 pages are modelled only where
    \<open>mdb_node_add\<close> and \<open>mdb_node_del\<close> branch on them.
  \<^item> In \<open>mdb_page_split\<close>, the data pointer of \<open>MDB_RESERVE\<close>, and for the left sibling
    (\<open>raw_page_get\<close>) the page lists of a parent transaction.
  \<^item> The rest of LMDB's write path: merging pages, spilling, saving the list of
    free pages, creating the lock file, copying an environment. Writing is modelled on one page, in
    the split of pages, in the allocation of pages, in the id lists, on the meta pages, and on
    records at the level of the contract.
  \<^item> Code outside the program: curl (\<open>perform\<close>), the operating system (\<open>pread\<close>, \<open>pwrite\<close>, \<open>msync\<close>: a
    list of answers; \<open>malloc\<close>: a parameter), and where memory is.
  \<^item> Java, Kotlin, Swift and Objective-C applications, the generated bridges between the languages
    (but for the two coordinate marshallers), flowcpp, googletest, gyp and build scripts.
\<close>

end
